(* ===== verification/Prelude.thy ===== *)
theory Prelude
  imports Main "HOL-Library.Word"
begin

text \<open>
  Shared vocabulary of the development: the machine integer types of the C code, the reader
  monad in which the \<open>CBS\<close> parsers are written (a parser returns its result, if any, together
  with the cursor that it leaves behind, also when it fails), big-endian byte strings, and the
  word lemmas that turn the shift-and-or idiom of the C code into arithmetic on \<open>nat\<close>.
\<close>

unbundle bit_operations_syntax

section \<open>Machine integers\<close>

type_synonym u8 = "8 word"
type_synonym u16 = "16 word"
type_synonym u32 = "32 word"
type_synonym u64 = "64 word"

text \<open>\<open>size_t\<close> and \<open>uintptr_t\<close> of the LP64 targets of the project.\<close>

type_synonym size_t = "64 word"

named_theorems unat_arith_of_bits \<open>rules that push \<open>unat\<close> through bit operations\<close>

declare unsigned_or_eq [unat_arith_of_bits] unsigned_and_eq [unat_arith_of_bits]
  unsigned_push_bit_eq [unat_arith_of_bits] unsigned_ucast_eq [unat_arith_of_bits]
  unat_drop_bit_eq [unat_arith_of_bits] unsigned_take_bit_eq [unat_arith_of_bits]

lemma push_bit_or_nat: "push_bit n a OR b = a * 2 ^ n + b" if "b < 2 ^ n" for a b :: nat
proof -
  from that have "take_bit n b = b" by (simp add: take_bit_nat_eq_self)
  then have high: "\<not> bit b k" if "n \<le> k" for k
    using that by (metis bit_take_bit_iff not_le)
  have "push_bit n a AND b = 0"
    by (rule bit_eqI) (use high in \<open>auto simp: bit_simps\<close>)
  then show ?thesis
    by (simp add: disjunctive_add_eq_or [symmetric] push_bit_eq_mult)
qed

lemma unat_push_or:
  fixes a b :: "'a::len word"
  assumes "unat b < 2 ^ n" "unat a * 2 ^ n < 2 ^ LENGTH('a)"
  shows "unat (push_bit n a OR b) = unat a * 2 ^ n + unat b"
proof -
  have "take_bit LENGTH('a) (push_bit n (unat a)) = push_bit n (unat a)"
    using assms(2) by (simp add: push_bit_eq_mult take_bit_nat_eq_self)
  then show ?thesis
    using assms(1) by (simp add: unsigned_or_eq unsigned_push_bit_eq push_bit_or_nat)
qed

lemma unat_or_add:
  fixes a b :: "'a::len word"
  assumes "2 ^ n dvd unat a" "unat b < 2 ^ n"
  shows "unat (a OR b) = unat a + unat b"
proof -
  from assms(1) obtain k where "unat a = push_bit n k"
    by (auto simp: push_bit_eq_mult mult.commute elim: dvdE)
  then show ?thesis
    using assms(2) by (simp add: unsigned_or_eq push_bit_or_nat) (simp add: push_bit_eq_mult)
qed

lemma unat_push_bit:
  "unat (push_bit n (a :: 'a::len word)) = unat a * 2 ^ n mod 2 ^ LENGTH('a)"
  unfolding unsigned_push_bit_eq by (simp add: take_bit_eq_mod push_bit_eq_mult)

lemma unat_drop_bit_div: "unat (drop_bit n (a :: 'a::len word)) = unat a div 2 ^ n"
  by (simp only: unat_drop_bit_eq) (simp add: drop_bit_eq_div)

lemma drop_bit_eq_0_iff_less: "drop_bit n (a :: 'a::len word) = 0 \<longleftrightarrow> unat a < 2 ^ n"
  by (simp add: word_unat_eq_iff unat_drop_bit_div div_eq_0_iff)

lemma unat_ucast_up [simp]:
  "LENGTH('a) \<le> LENGTH('b) \<Longrightarrow> unat (ucast (a :: 'a::len word) :: 'b::len word) = unat a"
  by (simp add: unsigned_ucast_eq take_bit_nat_eq_self_iff)
     (meson le_less_trans less_le_trans unsigned_less nat_less_le power_increasing
       one_le_numeral order_less_le_trans)

lemma unat_ucast_mod:
  "unat (ucast (a :: 'a::len word) :: 'b::len word) = unat a mod 2 ^ LENGTH('b)"
  by (simp add: unsigned_ucast_eq take_bit_eq_mod)

lemma unat_less_exp: "unat v < 2 ^ LENGTH('a)" for v :: "'a::len word"
  by simp

lemma unat_u8_less [simp]: "unat (b :: u8) < 256"
  using unsigned_less [of b] by simp

lemma and_mask7: "(b :: 'a::len word) AND 0x7f = take_bit 7 b"
  by (simp add: take_bit_eq_mask mask_numeral)

lemma unat_and_7f: "unat ((b :: 'a::len word) AND 0x7f) = unat b mod 128"
  by (simp only: and_mask7 unsigned_take_bit_eq) (simp add: take_bit_eq_mod)

lemma unat_and_1f: "unat ((b :: 'a::len word) AND 0x1f) = unat b mod 32"
proof -
  have "b AND 0x1f = take_bit 5 b" by (simp add: take_bit_eq_mask mask_numeral)
  then show ?thesis by (simp only: unsigned_take_bit_eq) (simp add: take_bit_eq_mod)
qed

lemma unat_and_e0:
  "unat ((b :: 'a::len word) AND 0xe0) = unat b div 32 mod 8 * 32" if "8 \<le> LENGTH('a)"
proof -
  have "(2::nat) ^ 8 \<le> 2 ^ LENGTH('a)" using that by (rule power_increasing) simp
  then have small: "unat b div 32 mod 8 * 32 < 2 ^ LENGTH('a)"
    by (rule less_le_trans [rotated]) simp
  have e0: "(0xe0 :: 'a word) = push_bit 5 (mask 3)"
    by (simp add: mask_numeral push_bit_eq_mult)
  have "b AND 0xe0 = push_bit 5 (take_bit 3 (drop_bit 5 b))"
    unfolding e0 by (rule bit_word_eqI) (auto simp: bit_simps)
  then have "unat (b AND 0xe0) = unat (push_bit 5 (take_bit 3 (drop_bit 5 b)))"
    by (simp only:)
  also have "\<dots> = unat b div 32 mod 8 * 32"
    using small
    by (simp only: unat_push_bit unsigned_take_bit_eq unat_drop_bit_div)
       (simp add: take_bit_eq_mod)
  finally show ?thesis .
qed

text \<open>
  A statement about one byte is checked on the 256 bytes; the list is evaluated by the kernel.
\<close>

lemma all_u8:
  assumes "list_all (\<lambda>n. P (of_nat n)) [0..<256]"
  shows "P (b :: u8)"
proof -
  have "P (of_nat (unat b))"
    using assms unat_u8_less [of b] by (auto simp: list_all_iff simp del: of_nat_unat)
  then show ?thesis by simp
qed

lemma and_80_eq_0_iff: "(b :: u8) AND 0x80 = 0 \<longleftrightarrow> unat b < 128"
  by (rule all_u8) code_simp

section \<open>Readers\<close>

text \<open>
  A C parser takes a cursor, returns one or zero, and leaves the cursor where it stopped reading
  even when it returns zero. \<open>rbind\<close> is the \<open>if (!f(cbs)) return 0;\<close> idiom.
\<close>

type_synonym 'a reader = "u8 list \<Rightarrow> 'a option \<times> u8 list"

definition rreturn :: "'a \<Rightarrow> 'a reader" where
  "rreturn x cbs = (Some x, cbs)"

definition rfail :: "'a reader" where
  "rfail cbs = (None, cbs)"

definition rbind :: "'a reader \<Rightarrow> ('a \<Rightarrow> 'b reader) \<Rightarrow> 'b reader" where
  "rbind m f cbs = (case m cbs of (None, cbs') \<Rightarrow> (None, cbs') | (Some x, cbs') \<Rightarrow> f x cbs')"

named_theorems reader_simps \<open>evaluation of readers\<close>

declare rreturn_def [reader_simps] rfail_def [reader_simps] rbind_def [reader_simps]

lemma rbind_Some_iff:
  "rbind m f cbs = (Some y, rest) \<longleftrightarrow>
     (\<exists>x mid. m cbs = (Some x, mid) \<and> f x mid = (Some y, rest))"
  by (auto simp: rbind_def split: prod.splits option.splits)

section \<open>Big-endian byte strings\<close>

primrec be_bytes :: "nat \<Rightarrow> nat \<Rightarrow> u8 list" where
  "be_bytes 0 v = []"
| "be_bytes (Suc n) v = be_bytes n (v div 256) @ [of_nat v]"

definition be_val :: "u8 list \<Rightarrow> nat" where
  "be_val bs = foldl (\<lambda>a b. a * 256 + unat b) 0 bs"

lemma be_val_Nil [simp]: "be_val [] = 0"
  by (simp add: be_val_def)

lemma be_val_snoc [simp]: "be_val (bs @ [b]) = be_val bs * 256 + unat b"
  by (simp add: be_val_def)

lemma be_val_single [simp]: "be_val [b] = unat b"
  by (simp add: be_val_def)

lemma length_be_bytes [simp]: "length (be_bytes n v) = n"
  by (induction n arbitrary: v) auto

lemma be_val_append: "be_val (as @ bs) = be_val as * 256 ^ length bs + be_val bs"
  by (induction bs rule: rev_induct) (simp_all flip: append_assoc add: algebra_simps)

lemma be_val_Cons: "be_val (b # bs) = unat b * 256 ^ length bs + be_val bs"
  using be_val_append [of "[b]" bs] by simp

lemma be_val_less: "be_val bs < 256 ^ length bs"
proof (induction bs rule: rev_induct)
  case (snoc b bs)
  then have "(be_val bs + 1) * 256 \<le> 256 ^ length bs * 256" by (intro mult_le_mono1) simp
  then have "be_val bs * 256 + 256 \<le> 256 ^ length (bs @ [b])" by (simp add: algebra_simps)
  then show ?case using unat_u8_less [of b] by (simp del: unat_u8_less)
qed simp

lemma unat_of_nat_u8 [simp]: "unat (of_nat v :: u8) = v mod 256"
  by (simp add: unat_of_nat)

lemma be_val_be_bytes: "be_val (be_bytes n v) = v mod 256 ^ n"
proof (induction n arbitrary: v)
  case (Suc n)
  then show ?case by (simp add: mod_mult2_eq [of v 256 "256 ^ n"])
qed simp

lemma be_bytes_be_val: "be_bytes (length bs) (be_val bs) = bs"
proof (induction bs rule: rev_induct)
  case (snoc b bs)
  have "of_nat (be_val bs * 256 + unat b) = b"
    by (rule word_unat_eq_iff [THEN iffD2]) (simp only: unat_of_nat_u8, simp)
  with snoc show ?case by (simp del: of_nat_add)
qed simp

lemma be_bytes_Suc_Cons: "be_bytes (Suc n) v = of_nat (v div 256 ^ n) # be_bytes n v"
proof (induction n arbitrary: v)
  case (Suc n)
  have "be_bytes (Suc (Suc n)) v = be_bytes (Suc n) (v div 256) @ [of_nat v]" by simp
  also have "\<dots> = of_nat (v div 256 div 256 ^ n) # be_bytes n (v div 256) @ [of_nat v]"
    by (simp only: Suc.IH append_Cons)
  also have "\<dots> = of_nat (v div 256 ^ Suc n) # be_bytes (Suc n) v"
    by (simp add: div_mult2_eq)
  finally show ?case .
qed simp

end
