(* ===== verification/Cbs.thy ===== *)
theory Cbs
  imports Prelude
begin

text \<open>
  The byte-string cursor of \<open>crypto/bytestring/cbs.c\<close>. A \<open>CBS\<close> is the list of the bytes that
  are still to be read (the \<open>data\<close> pointer and \<open>len\<close> of the C struct); a function that takes a
  non-const \<open>CBS *\<close> is a \<^typ>\<open>'a reader\<close>: \<open>None\<close> is the return value 0, \<open>Some\<close> of the output
  parameters the return value 1, and the second component the cursor that the call leaves.
  Output parameters are only meaningful on success and are not modelled on failure.
\<close>

unbundle bit_operations_syntax

type_synonym cbs = "u8 list"

section \<open>The cursor\<close>

definition CBS_init :: "u8 list \<Rightarrow> cbs" where
  "CBS_init data = data"

definition cbs_get :: "nat \<Rightarrow> u8 list reader" where
  "cbs_get n cbs =
     (if length cbs < n then (None, cbs) else (Some (take n cbs), drop n cbs))"

definition CBS_skip :: "nat \<Rightarrow> unit reader" where
  "CBS_skip len = rbind (cbs_get len) (\<lambda>_. rreturn ())"

definition CBS_data :: "cbs \<Rightarrow> u8 list" where
  "CBS_data cbs = cbs"

definition CBS_len :: "cbs \<Rightarrow> nat" where
  "CBS_len cbs = length cbs"

text \<open>
  \<open>CBS_stow\<close> and \<open>CBS_strdup\<close> copy to the heap; \<open>malloc_ok n\<close> says whether an allocation of
  \<open>n\<close> bytes succeeds. The result is the return value and the copy (\<open>None\<close> is \<open>NULL\<close>).
\<close>

definition CBS_stow :: "(nat \<Rightarrow> bool) \<Rightarrow> cbs \<Rightarrow> bool \<times> u8 list option" where
  "CBS_stow malloc_ok cbs =
     (if length cbs = 0 then (True, None)
      else if \<not> malloc_ok (length cbs) then (False, None)
      else (True, Some cbs))"

definition OPENSSL_strnlen :: "u8 list \<Rightarrow> nat" where
  "OPENSSL_strnlen s = length (takeWhile (\<lambda>c. c \<noteq> 0) s)"

definition OPENSSL_strndup :: "(nat \<Rightarrow> bool) \<Rightarrow> u8 list \<Rightarrow> u8 list option" where
  "OPENSSL_strndup malloc_ok str =
     (let size = OPENSSL_strnlen str; alloc_size = (of_nat size + 1 :: size_t)
      in if alloc_size < of_nat size then None
         else if \<not> malloc_ok (unat alloc_size) then None
         else Some (take size str @ [0]))"

definition CBS_strdup :: "(nat \<Rightarrow> bool) \<Rightarrow> cbs \<Rightarrow> u8 list option" where
  "CBS_strdup malloc_ok cbs = OPENSSL_strndup malloc_ok cbs"

definition CBS_contains_zero_byte :: "cbs \<Rightarrow> bool" where
  "CBS_contains_zero_byte cbs = list_ex (\<lambda>b. b = 0) cbs"

definition CBS_mem_equal :: "cbs \<Rightarrow> u8 list \<Rightarrow> bool" where
  "CBS_mem_equal cbs data = (if length data \<noteq> length cbs then False else cbs = data)"

section \<open>Fixed-width integers\<close>

definition cbs_get_u_step :: "u64 \<Rightarrow> u8 \<Rightarrow> u64" where
  "cbs_get_u_step result d = push_bit 8 result OR ucast d"

definition cbs_get_u :: "nat \<Rightarrow> u64 reader" where
  "cbs_get_u len = rbind (cbs_get len) (\<lambda>data. rreturn (foldl cbs_get_u_step 0 data))"

definition CBS_get_u8 :: "u8 reader" where
  "CBS_get_u8 = rbind (cbs_get 1) (\<lambda>v. rreturn (hd v))"

definition CBS_get_u16 :: "u16 reader" where
  "CBS_get_u16 = rbind (cbs_get_u 2) (\<lambda>v. rreturn (ucast v))"

definition CRYPTO_bswap2 :: "u16 \<Rightarrow> u16" where
  "CRYPTO_bswap2 x = drop_bit 8 x OR push_bit 8 x"

definition CRYPTO_bswap4 :: "u32 \<Rightarrow> u32" where
  "CRYPTO_bswap4 x0 =
     (let x = drop_bit 16 x0 OR push_bit 16 x0
      in drop_bit 8 (x AND 0xff00ff00) OR push_bit 8 (x AND 0x00ff00ff))"

definition CRYPTO_bswap8 :: "u64 \<Rightarrow> u64" where
  "CRYPTO_bswap8 x =
     ucast (CRYPTO_bswap4 (ucast (drop_bit 32 x))) OR
     push_bit 32 (ucast (CRYPTO_bswap4 (ucast x)))"

definition CBS_get_u16le :: "u16 reader" where
  "CBS_get_u16le = rbind CBS_get_u16 (\<lambda>v. rreturn (CRYPTO_bswap2 v))"

definition CBS_get_u24 :: "u32 reader" where
  "CBS_get_u24 = rbind (cbs_get_u 3) (\<lambda>v. rreturn (ucast v))"

definition CBS_get_u32 :: "u32 reader" where
  "CBS_get_u32 = rbind (cbs_get_u 4) (\<lambda>v. rreturn (ucast v))"

definition CBS_get_u32le :: "u32 reader" where
  "CBS_get_u32le = rbind CBS_get_u32 (\<lambda>v. rreturn (CRYPTO_bswap4 v))"

definition CBS_get_u64 :: "u64 reader" where
  "CBS_get_u64 = cbs_get_u 8"

definition CBS_get_u64le :: "u64 reader" where
  "CBS_get_u64le = rbind (cbs_get_u 8) (\<lambda>v. rreturn (CRYPTO_bswap8 v))"

definition CBS_get_last_u8 :: "u8 reader" where
  "CBS_get_last_u8 cbs =
     (if length cbs = 0 then (None, cbs)
      else (Some (cbs ! (length cbs - 1)), take (length cbs - 1) cbs))"

definition CBS_get_bytes :: "nat \<Rightarrow> cbs reader" where
  "CBS_get_bytes len = rbind (cbs_get len) (\<lambda>v. rreturn (CBS_init v))"

definition CBS_copy_bytes :: "nat \<Rightarrow> u8 list reader" where
  "CBS_copy_bytes len = rbind (cbs_get len) (\<lambda>v. rreturn v)"

definition cbs_get_length_prefixed :: "nat \<Rightarrow> cbs reader" where
  "cbs_get_length_prefixed len_len =
     rbind (cbs_get_u len_len) (\<lambda>len. CBS_get_bytes (unat len))"

definition CBS_get_u8_length_prefixed :: "cbs reader" where
  "CBS_get_u8_length_prefixed = cbs_get_length_prefixed 1"

definition CBS_get_u16_length_prefixed :: "cbs reader" where
  "CBS_get_u16_length_prefixed = cbs_get_length_prefixed 2"

definition CBS_get_u24_length_prefixed :: "cbs reader" where
  "CBS_get_u24_length_prefixed = cbs_get_length_prefixed 3"

section \<open>ASN.1 tags and elements\<close>

text \<open>The \<open>do ... while\<close> loop of \<open>parse_base128_integer\<close>, with the value so far.\<close>

fun parse_base128_loop :: "u64 \<Rightarrow> u64 reader" where
  "parse_base128_loop v [] = (None, [])"
| "parse_base128_loop v (b # cbs) =
     (if drop_bit (64 - 7) v \<noteq> 0 then (None, cbs)
      else if v = 0 \<and> b = 0x80 then (None, cbs)
      else let v' = push_bit 7 v OR ucast (b AND 0x7f)
           in if b AND 0x80 \<noteq> 0 then parse_base128_loop v' cbs else (Some v', cbs))"

definition parse_base128_integer :: "u64 reader" where
  "parse_base128_integer = parse_base128_loop 0"

definition CBS_ASN1_TAG_SHIFT :: nat where
  "CBS_ASN1_TAG_SHIFT = 24"

definition CBS_ASN1_CONSTRUCTED :: u32 where
  "CBS_ASN1_CONSTRUCTED = push_bit CBS_ASN1_TAG_SHIFT 0x20"

definition CBS_ASN1_TAG_NUMBER_MASK :: u32 where
  "CBS_ASN1_TAG_NUMBER_MASK = push_bit (5 + CBS_ASN1_TAG_SHIFT) 1 - 1"

definition parse_asn1_tag :: "u32 reader" where
  "parse_asn1_tag =
     rbind CBS_get_u8 (\<lambda>tag_byte.
       let tag = push_bit CBS_ASN1_TAG_SHIFT ((ucast tag_byte :: u32) AND 0xe0);
           tag_number = ucast (tag_byte AND 0x1f) :: u32
       in if tag_number = 0x1f then
            rbind parse_base128_integer (\<lambda>v.
              if v > ucast CBS_ASN1_TAG_NUMBER_MASK \<or> v < 0x1f then rfail
              else rreturn (tag OR ucast v))
          else rreturn (tag OR tag_number))"

text \<open>
  The result of the element parsers: the bytes of the element (\<open>out\<close>), its tag and the length
  of its header. The header is parsed on a copy of the cursor, so a malformed header leaves
  \<open>cbs\<close> where it was.
\<close>

definition cbs_get_any_asn1_element :: "bool \<Rightarrow> (cbs \<times> u32 \<times> nat) reader" where
  "cbs_get_any_asn1_element ber_ok cbs =
     (case parse_asn1_tag cbs of
        (None, _) \<Rightarrow> (None, cbs)
      | (Some tag, header) \<Rightarrow>
        (case CBS_get_u8 header of
           (None, _) \<Rightarrow> (None, cbs)
         | (Some length_byte, header) \<Rightarrow>
           (let header_len = CBS_len cbs - CBS_len header
            in if length_byte AND 0x80 = 0 then
                 (let len = ucast length_byte + of_nat header_len :: size_t
                  in rbind (CBS_get_bytes (unat len))
                       (\<lambda>out. rreturn (out, tag, header_len)) cbs)
               else
                 (let num_bytes = unat (length_byte AND 0x7f)
                  in if ber_ok \<and> tag AND CBS_ASN1_CONSTRUCTED \<noteq> 0 \<and> num_bytes = 0 then
                       rbind (CBS_get_bytes header_len)
                         (\<lambda>out. rreturn (out, tag, header_len)) cbs
                     else if num_bytes = 0 \<or> num_bytes > 4 then (None, cbs)
                     else
                       (case cbs_get_u num_bytes header of
                          (None, _) \<Rightarrow> (None, cbs)
                        | (Some len64, header) \<Rightarrow>
                          (if len64 < 128 then (None, cbs)
                           else if drop_bit ((num_bytes - 1) * 8) len64 = 0 then (None, cbs)
                           else
                             (let len = ucast len64 :: size_t;
                                  hl = of_nat (header_len + num_bytes)
                              in if len + hl < len then (None, cbs)
                                 else rbind (CBS_get_bytes (unat (len + hl)))
                                   (\<lambda>out. rreturn (out, tag, header_len + num_bytes)) cbs)))))))"

definition CBS_get_any_asn1_element :: "(cbs \<times> u32 \<times> nat) reader" where
  "CBS_get_any_asn1_element = cbs_get_any_asn1_element False"

definition CBS_get_any_ber_asn1_element :: "(cbs \<times> u32 \<times> nat) reader" where
  "CBS_get_any_ber_asn1_element = cbs_get_any_asn1_element True"

definition CBS_get_any_asn1 :: "(cbs \<times> u32) reader" where
  "CBS_get_any_asn1 = rbind CBS_get_any_asn1_element (\<lambda>(out, tag, header_len).
     case CBS_skip header_len out of
       (None, _) \<Rightarrow> rfail
     | (Some _, out) \<Rightarrow> rreturn (out, tag))"

definition cbs_get_asn1 :: "u32 \<Rightarrow> bool \<Rightarrow> cbs reader" where
  "cbs_get_asn1 tag_value skip_header =
     rbind CBS_get_any_asn1_element (\<lambda>(out, tag, header_len).
       if tag \<noteq> tag_value then rfail
       else if skip_header then
         (case CBS_skip header_len out of
            (None, _) \<Rightarrow> rfail
          | (Some _, out) \<Rightarrow> rreturn out)
       else rreturn out)"

definition CBS_get_asn1 :: "u32 \<Rightarrow> cbs reader" where
  "CBS_get_asn1 tag_value = cbs_get_asn1 tag_value True"

definition CBS_get_asn1_element :: "u32 \<Rightarrow> cbs reader" where
  "CBS_get_asn1_element tag_value = cbs_get_asn1 tag_value False"

definition CBS_peek_asn1_tag :: "cbs \<Rightarrow> u32 \<Rightarrow> bool" where
  "CBS_peek_asn1_tag cbs tag_value =
     (if CBS_len cbs < 1 then False
      else case parse_asn1_tag cbs of
             (None, _) \<Rightarrow> False
           | (Some actual_tag, _) \<Rightarrow> tag_value = actual_tag)"

section \<open>INTEGER, BOOLEAN, optional fields, BIT STRING\<close>

definition CBS_ASN1_BOOLEAN :: u32 where "CBS_ASN1_BOOLEAN = 0x1"

definition CBS_ASN1_INTEGER :: u32 where "CBS_ASN1_INTEGER = 0x2"

definition CBS_ASN1_OCTETSTRING :: u32 where "CBS_ASN1_OCTETSTRING = 0x4"

text \<open>The accumulation loop of \<open>CBS_get_asn1_uint64\<close>.\<close>

fun asn1_uint64_loop :: "u64 \<Rightarrow> u8 list \<Rightarrow> u64 option" where
  "asn1_uint64_loop out [] = Some out"
| "asn1_uint64_loop out (d # ds) =
     (if drop_bit 56 out \<noteq> 0 then None
      else asn1_uint64_loop (push_bit 8 out OR ucast d) ds)"

definition CBS_get_asn1_uint64 :: "u64 reader" where
  "CBS_get_asn1_uint64 = rbind (CBS_get_asn1 CBS_ASN1_INTEGER) (\<lambda>data.
     let len = CBS_len data
     in if len = 0 then rfail
        else if data ! 0 AND 0x80 \<noteq> 0 then rfail
        else if data ! 0 = 0 \<and> len > 1 \<and> data ! 1 AND 0x80 = 0 then rfail
        else (case asn1_uint64_loop 0 data of None \<Rightarrow> rfail | Some out \<Rightarrow> rreturn out))"

text \<open>The union of \<open>CBS_get_asn1_int64\<close>, on a little-endian machine.\<close>

definition le_union_i64 :: "u8 list \<Rightarrow> u64" where
  "le_union_i64 bytes = of_nat (be_val (rev bytes))"

definition CBS_get_asn1_int64 :: "u64 reader" where
  "CBS_get_asn1_int64 = rbind (CBS_get_asn1 CBS_ASN1_INTEGER) (\<lambda>data.
     let len = CBS_len data
     in if len = 0 \<or> len > 8 then rfail
        else if len > 1 \<and> data ! 0 = 0 \<and> data ! 1 AND 0x80 = 0 then rfail
        else if len > 1 \<and> data ! 0 = 0xff \<and> data ! 1 AND 0x80 \<noteq> 0 then rfail
        else
          let is_negative = data ! 0 AND 0x80 \<noteq> 0;
              u = replicate 8 (if is_negative then 0xff else 0 :: u8);
              u = fold (\<lambda>i u. u[i := data ! (len - i - 1)]) [0..<len] u
          in rreturn (le_union_i64 u))"

definition CBS_get_asn1_bool :: "int reader" where
  "CBS_get_asn1_bool = rbind (CBS_get_asn1 CBS_ASN1_BOOLEAN) (\<lambda>bytes.
     if CBS_len bytes \<noteq> 1 then rfail
     else let value = hd (CBS_data bytes)
          in if value \<noteq> 0 \<and> value \<noteq> 0xff then rfail else rreturn (if value \<noteq> 0 then 1 else 0))"

text \<open>The result is \<open>None\<close> when the field is absent (\<open>*out_present = 0\<close>).\<close>

definition CBS_get_optional_asn1 :: "u32 \<Rightarrow> cbs option reader" where
  "CBS_get_optional_asn1 tag cbs =
     (if CBS_peek_asn1_tag cbs tag
      then rbind (CBS_get_asn1 tag) (\<lambda>out. rreturn (Some out)) cbs
      else rreturn None cbs)"

definition CBS_get_optional_asn1_octet_string :: "u32 \<Rightarrow> (cbs \<times> bool) reader" where
  "CBS_get_optional_asn1_octet_string tag =
     rbind (CBS_get_optional_asn1 tag) (\<lambda>child.
       case child of
         None \<Rightarrow> rreturn (CBS_init [], False)
       | Some child \<Rightarrow>
         (case CBS_get_asn1 CBS_ASN1_OCTETSTRING child of
            (None, _) \<Rightarrow> rfail
          | (Some out, child) \<Rightarrow>
              if CBS_len child \<noteq> 0 then rfail else rreturn (out, True)))"

definition CBS_get_optional_asn1_uint64 :: "u32 \<Rightarrow> u64 \<Rightarrow> u64 reader" where
  "CBS_get_optional_asn1_uint64 tag default_value =
     rbind (CBS_get_optional_asn1 tag) (\<lambda>child.
       case child of
         None \<Rightarrow> rreturn default_value
       | Some child \<Rightarrow>
         (case CBS_get_asn1_uint64 child of
            (None, _) \<Rightarrow> rfail
          | (Some out, child) \<Rightarrow>
              if CBS_len child \<noteq> 0 then rfail else rreturn out))"

definition CBS_get_optional_asn1_bool :: "u32 \<Rightarrow> int \<Rightarrow> int reader" where
  "CBS_get_optional_asn1_bool tag default_value =
     rbind (CBS_get_optional_asn1 tag) (\<lambda>child.
       case child of
         None \<Rightarrow> rreturn default_value
       | Some child \<Rightarrow>
         (case CBS_get_asn1 CBS_ASN1_BOOLEAN child of
            (None, _) \<Rightarrow> rfail
          | (Some child2, child) \<Rightarrow>
              if CBS_len child2 \<noteq> 1 \<or> CBS_len child \<noteq> 0 then rfail
              else let boolean = CBS_data child2 ! 0
                   in if boolean = 0 then rreturn 0
                      else if boolean = 0xff then rreturn 1
                      else rfail))"

definition CBS_is_valid_asn1_bitstring :: "cbs \<Rightarrow> bool" where
  "CBS_is_valid_asn1_bitstring cbs =
     (case CBS_get_u8 cbs of
        (None, _) \<Rightarrow> False
      | (Some num_unused_bits, cin) \<Rightarrow>
          if num_unused_bits > 7 then False
          else if num_unused_bits = 0 then True
          else (case CBS_get_last_u8 cin of
                  (None, _) \<Rightarrow> False
                | (Some last_byte, _) \<Rightarrow>
                    (ucast last_byte :: u32) AND (push_bit (unat num_unused_bits) 1 - 1) = 0))"

definition CBS_asn1_bitstring_has_bit :: "cbs \<Rightarrow> u32 \<Rightarrow> bool" where
  "CBS_asn1_bitstring_has_bit cbs bit_index =
     (if \<not> CBS_is_valid_asn1_bitstring cbs then False
      else let byte_num = drop_bit 3 bit_index + 1;
               bit_num = 7 - (bit_index AND 7)
           in unat byte_num < CBS_len cbs \<and>
              (ucast (CBS_data cbs ! unat byte_num) :: u32) AND push_bit (unat bit_num) 1 \<noteq> 0)"

end
