(* ===== verification/Codec.thy ===== *)
theory Codec
  imports Prelude
begin

text \<open>
  The contract between a wire format and the parser that reads it. An interpretation of
  \<open>codec\<close> says that a reader accepts exactly the encodings of the valid values, one encoding per
  value; what follows from that for any parser (unique encodings, no encoding a proper prefix of
  another, loops that read a sequence of encodings) is proved once here.
\<close>

text \<open>
  The loop \<open>while (CBS_len(&cbs) != 0) { if (!get(&cbs, ...)) return 0; ... }\<close>. The test that the
  reader consumed something makes the recursion terminate; \<open>read_many_unfold\<close> below shows that
  it never fires for the readers that the loop is used with.
\<close>

function read_many :: "'a reader \<Rightarrow> u8 list \<Rightarrow> 'a list option" where
  "read_many get cbs =
     (if cbs = [] then Some []
      else case get cbs of
             (None, _) \<Rightarrow> None
           | (Some x, rest) \<Rightarrow>
               if length rest < length cbs then map_option ((#) x) (read_many get rest)
               else None)"
  by pat_completeness auto
termination
  by (relation "measure (\<lambda>(get, cbs). length cbs)") auto

declare read_many.simps [simp del]

locale codec =
  fixes enc :: "'a \<Rightarrow> u8 list"
    and dec :: "'a reader"
    and valid :: "'a \<Rightarrow> bool"
  assumes dec_enc: "valid x \<Longrightarrow> dec (enc x @ rest) = (Some x, rest)"
    and dec_Some: "dec bs = (Some x, rest) \<Longrightarrow> valid x \<and> bs = enc x @ rest"
begin

lemma dec_iff: "dec bs = (Some x, rest) \<longleftrightarrow> valid x \<and> bs = enc x @ rest"
  using dec_enc dec_Some by auto

lemma enc_unique:
  assumes "valid x" "valid y" "enc x @ r = enc y @ s"
  shows "x = y \<and> r = s"
  using dec_enc [OF assms(1), of r] dec_enc [OF assms(2), of s] assms(3)
  by (metis Pair_inject option.inject)

lemma enc_inj: "valid x \<Longrightarrow> valid y \<Longrightarrow> enc x = enc y \<Longrightarrow> x = y"
  using enc_unique [of x y "[]" "[]"] by simp

lemma no_proper_prefix: "valid x \<Longrightarrow> valid y \<Longrightarrow> enc x = enc y @ s \<Longrightarrow> s = []"
  using enc_unique [of x y "[]" s] by simp

end

locale progressive_codec = codec +
  assumes enc_nonempty: "valid x \<Longrightarrow> enc x \<noteq> []"
begin

lemma read_many_unfold:
  "read_many dec bs =
     (if bs = [] then Some []
      else case dec bs of
             (None, _) \<Rightarrow> None
           | (Some x, rest) \<Rightarrow> map_option ((#) x) (read_many dec rest))"
proof -
  have "length rest < length bs" if "dec bs = (Some x, rest)" for x rest
    using dec_Some [OF that] enc_nonempty [of x] by auto
  then show ?thesis
    by (subst read_many.simps) (auto split: prod.splits option.splits)
qed

lemma read_many_concat:
  "\<forall>x \<in> set xs. valid x \<Longrightarrow> read_many dec (concat (map enc xs)) = Some xs"
proof (induction xs)
  case Nil
  show ?case by (subst read_many_unfold) simp
next
  case (Cons x xs)
  then show ?case
    by (subst read_many_unfold) (simp add: dec_enc enc_nonempty)
qed

lemma read_many_Some:
  "read_many dec bs = Some xs \<Longrightarrow> (\<forall>x \<in> set xs. valid x) \<and> bs = concat (map enc xs)"
proof (induction xs arbitrary: bs)
  case Nil
  then show ?case
    by (subst (asm) read_many_unfold) (auto split: if_splits prod.splits option.splits)
next
  case (Cons x xs)
  then obtain rest where "dec bs = (Some x, rest)" "read_many dec rest = Some xs"
    by (subst (asm) (2) read_many_unfold) (auto split: if_splits prod.splits option.splits)
  with Cons.IH [of rest] dec_Some [of bs x rest] show ?case by auto
qed

lemma read_many_iff:
  "read_many dec bs = Some xs \<longleftrightarrow> (\<forall>x \<in> set xs. valid x) \<and> bs = concat (map enc xs)"
  using read_many_concat read_many_Some by metis

end

end
