(* ===== verification/Cbb.thy ===== *)
theory Cbb
  imports Cbs Codec
begin

text \<open>
  The byte builder of \<open>crypto/bytestring/cbb.c\<close>. All \<open>CBB\<close>s that write to one buffer form a
  chain: a \<open>CBB\<close> has at most one pending child. The model keeps the shared buffer and the list
  of pending children, outermost first; the functions take the depth \<open>d\<close> of the \<open>CBB\<close> they are
  called on, 0 for the top-level one. A child that was flushed (its \<open>base\<close> set to \<open>NULL\<close> by the
  code) is a depth beyond the end of the chain. A function returns its C return value and the
  new state; after an error the buffer's \<open>error\<close> flag makes every later call fail.
\<close>

unbundle bit_operations_syntax

section \<open>State\<close>

text \<open>
  The allocator is part of the state: \<open>malloc_ok n\<close> says whether a request of \<open>n\<close> bytes
  succeeds, \<open>garbage\<close> is the content of fresh memory.
\<close>

record mem_env =
  malloc_ok :: "nat \<Rightarrow> bool"
  garbage :: "nat \<Rightarrow> u8"

record cbb_buffer_st =
  buf :: "u8 list"
  len :: nat
  cap :: nat
  can_resize :: bool
  error :: bool

record cbb_child =
  offset :: nat
  pending_len_len :: nat
  pending_is_asn1 :: bool

record cbb =
  base :: "cbb_buffer_st option"
  chain :: "cbb_child list"
  env :: mem_env

text \<open>The idiom \<open>if (!f(cbb)) return 0;\<close> for a call that only returns success or failure.\<close>

definition wbind :: "('s \<Rightarrow> bool \<times> 's) \<Rightarrow> ('s \<Rightarrow> bool \<times> 's) \<Rightarrow> 's \<Rightarrow> bool \<times> 's" where
  "wbind m k s = (case m s of (False, s') \<Rightarrow> (False, s') | (True, s') \<Rightarrow> k s')"

definition wreturn :: "'s \<Rightarrow> bool \<times> 's" where
  "wreturn s = (True, s)"

definition wfail :: "'s \<Rightarrow> bool \<times> 's" where
  "wfail s = (False, s)"

section \<open>Construction\<close>

text \<open>The size of \<open>struct cbb_buffer_st\<close> on an LP64 target.\<close>

definition sizeof_cbb_buffer_st :: nat where
  "sizeof_cbb_buffer_st = 32"

definition CBB_zero :: "mem_env \<Rightarrow> cbb" where
  "CBB_zero e = \<lparr>base = None, chain = [], env = e\<rparr>"

definition cbb_init :: "cbb \<Rightarrow> u8 list \<Rightarrow> nat \<Rightarrow> bool \<times> cbb" where
  "cbb_init cbb b c =
     (if \<not> malloc_ok (env cbb) sizeof_cbb_buffer_st then (False, cbb)
      else (True, cbb\<lparr>base := Some \<lparr>buf = b, len = 0, cap = c, can_resize = True, error = False\<rparr>\<rparr>))"

definition CBB_init :: "mem_env \<Rightarrow> nat \<Rightarrow> bool \<times> cbb" where
  "CBB_init e initial_capacity =
     (if initial_capacity > 0 \<and> \<not> malloc_ok e initial_capacity then (False, CBB_zero e)
      else cbb_init (CBB_zero e) (map (garbage e) [0..<initial_capacity]) initial_capacity)"

definition CBB_init_fixed :: "mem_env \<Rightarrow> u8 list \<Rightarrow> bool \<times> cbb" where
  "CBB_init_fixed e b =
     (case cbb_init (CBB_zero e) b (length b) of
        (False, cbb) \<Rightarrow> (False, cbb)
      | (True, cbb) \<Rightarrow>
          (True, cbb\<lparr>base := map_option (\<lambda>bs. bs\<lparr>can_resize := False\<rparr>) (base cbb)\<rparr>))"

definition CBB_cleanup :: "cbb \<Rightarrow> cbb" where
  "CBB_cleanup cbb = cbb\<lparr>base := None\<rparr>"

section \<open>The buffer\<close>

definition buffer_error :: "cbb_buffer_st \<Rightarrow> bool \<times> cbb_buffer_st" where
  "buffer_error b = (False, b\<lparr>error := True\<rparr>)"

definition OPENSSL_realloc :: "mem_env \<Rightarrow> u8 list \<Rightarrow> nat \<Rightarrow> u8 list" where
  "OPENSSL_realloc e p n = take n p @ map (garbage e) [length p..<n]"

definition cbb_buffer_reserve :: "mem_env \<Rightarrow> cbb_buffer_st \<Rightarrow> nat \<Rightarrow> bool \<times> cbb_buffer_st" where
  "cbb_buffer_reserve e b n =
     (let newlen = (len b + n) mod 2 ^ 64
      in if newlen < len b then buffer_error b
         else if newlen > cap b then
           (let newcap = cap b * 2 mod 2 ^ 64
            in if \<not> can_resize b then buffer_error b
               else let newcap = (if newcap < cap b \<or> newcap < newlen then newlen else newcap)
                    in if \<not> malloc_ok e newcap then buffer_error b
                       else (True, b\<lparr>buf := OPENSSL_realloc e (buf b) newcap, cap := newcap\<rparr>))
         else (True, b))"

definition cbb_buffer_add :: "mem_env \<Rightarrow> cbb_buffer_st \<Rightarrow> nat \<Rightarrow> bool \<times> cbb_buffer_st" where
  "cbb_buffer_add e b n =
     (case cbb_buffer_reserve e b n of
        (False, b) \<Rightarrow> (False, b)
      | (True, b) \<Rightarrow> (True, b\<lparr>len := len b + n\<rparr>))"

text \<open>The loop \<open>buf[i] = v; v >>= 8;\<close>, \<open>i\<close> counting down, at offset \<open>off\<close>.\<close>

fun store_be :: "nat \<Rightarrow> nat \<Rightarrow> u64 \<Rightarrow> u8 list \<Rightarrow> u8 list \<times> u64" where
  "store_be 0 off v bs = (bs, v)"
| "store_be (Suc i) off v bs = store_be i off (drop_bit 8 v) (bs[off + i := ucast v])"

definition cbb_buffer_add_u ::
  "mem_env \<Rightarrow> cbb_buffer_st \<Rightarrow> u64 \<Rightarrow> nat \<Rightarrow> bool \<times> cbb_buffer_st" where
  "cbb_buffer_add_u e b v len_len =
     (if len_len = 0 then (True, b)
      else case cbb_buffer_add e b len_len of
             (False, b) \<Rightarrow> (False, b)
           | (True, b) \<Rightarrow>
               (let (bs, v) = store_be len_len (len b - len_len) v (buf b)
                in if v \<noteq> 0 then buffer_error (b\<lparr>buf := bs\<rparr>)
                   else (True, b\<lparr>buf := bs\<rparr>)))"

definition OPENSSL_memmove :: "nat \<Rightarrow> nat \<Rightarrow> nat \<Rightarrow> u8 list \<Rightarrow> u8 list" where
  "OPENSSL_memmove dst src n p = take dst p @ take n (drop src p) @ drop (dst + n) p"

definition write_at :: "nat \<Rightarrow> u8 list \<Rightarrow> u8 list \<Rightarrow> u8 list" where
  "write_at off data p = take off p @ data @ drop (off + length data) p"

section \<open>Flushing\<close>

text \<open>
  The choice of the DER length form: the number of length bytes, the first one, and the value
  that the remaining ones still have to encode.
\<close>

definition asn1_len_form :: "nat \<Rightarrow> (nat \<times> u8 \<times> nat) option" where
  "asn1_len_form n =
     (if n > 0xfffffffe then None
      else if n > 0xffffff then Some (5, 0x80 OR 4, n)
      else if n > 0xffff then Some (4, 0x80 OR 3, n)
      else if n > 0xff then Some (3, 0x80 OR 2, n)
      else if n > 0x7f then Some (2, 0x80 OR 1, n)
      else Some (1, of_nat n, 0))"

text \<open>The part of \<open>CBB_flush\<close> after the recursive call: the pending prefix is written out.\<close>

definition flush_prefix ::
  "mem_env \<Rightarrow> cbb_child \<Rightarrow> nat \<Rightarrow> cbb_buffer_st \<Rightarrow> bool \<times> cbb_buffer_st" where
  "flush_prefix e c child_start b =
     (let n = len b - child_start
      in if pending_is_asn1 c then
           (case asn1_len_form n of
              None \<Rightarrow> buffer_error b
            | Some (len_len, initial_length_byte, n') \<Rightarrow>
                (case (if len_len \<noteq> 1 then
                         (case cbb_buffer_add e b (len_len - 1) of
                            (False, b) \<Rightarrow> (False, b)
                          | (True, b) \<Rightarrow>
                              (True, b\<lparr>buf := OPENSSL_memmove (child_start + (len_len - 1))
                                         child_start n' (buf b)\<rparr>))
                       else (True, b)) of
                   (False, b) \<Rightarrow> buffer_error b
                 | (True, b) \<Rightarrow>
                     (let bs = (buf b)[offset c := initial_length_byte];
                          (bs, rest) = store_be (len_len - 1) (offset c + 1) (of_nat n') bs
                      in if rest \<noteq> 0 then buffer_error (b\<lparr>buf := bs\<rparr>)
                         else (True, b\<lparr>buf := bs\<rparr>))))
         else
           (let (bs, rest) = store_be (pending_len_len c) (offset c) (of_nat n) (buf b)
            in if rest \<noteq> 0 then buffer_error (b\<lparr>buf := bs\<rparr>)
               else (True, b\<lparr>buf := bs\<rparr>)))"

fun flush_chain ::
  "mem_env \<Rightarrow> cbb_buffer_st \<Rightarrow> cbb_child list \<Rightarrow> bool \<times> cbb_buffer_st \<times> cbb_child list" where
  "flush_chain e b [] = (if error b then (False, b, []) else (True, b, []))"
| "flush_chain e b (c # cs) =
     (if error b then (False, b, c # cs)
      else if pending_len_len c = 0 then (True, b, c # cs)
      else
        (let child_start = (offset c + pending_len_len c) mod 2 ^ 64
         in case flush_chain e b cs of
              (False, b, cs) \<Rightarrow> (False, b\<lparr>error := True\<rparr>, c # cs)
            | (True, b, cs) \<Rightarrow>
                if child_start < offset c \<or> len b < child_start
                then (False, b\<lparr>error := True\<rparr>, c # cs)
                else (case flush_prefix e c child_start b of
                        (False, b) \<Rightarrow> (False, b, c # cs)
                      | (True, b) \<Rightarrow> (True, b, []))))"

definition CBB_flush :: "nat \<Rightarrow> cbb \<Rightarrow> bool \<times> cbb" where
  "CBB_flush d cbb =
     (case base cbb of
        None \<Rightarrow> (False, cbb)
      | Some b \<Rightarrow>
          if length (chain cbb) < d then (False, cbb)
          else (case flush_chain (env cbb) b (drop d (chain cbb)) of
                  (ok, b, cs) \<Rightarrow> (ok, cbb\<lparr>base := Some b, chain := take d (chain cbb) @ cs\<rparr>)))"

text \<open>\<open>cbb->base\<close> where it cannot be \<open>NULL\<close>: after a successful flush.\<close>

definition on_base ::
  "(mem_env \<Rightarrow> cbb_buffer_st \<Rightarrow> bool \<times> cbb_buffer_st) \<Rightarrow> cbb \<Rightarrow> bool \<times> cbb" where
  "on_base f cbb =
     (case base cbb of
        None \<Rightarrow> (False, cbb)
      | Some b \<Rightarrow> (case f (env cbb) b of (ok, b) \<Rightarrow> (ok, cbb\<lparr>base := Some b\<rparr>)))"

text \<open>\<open>out_given\<close>: both output pointers of \<open>CBB_finish\<close> are non-\<open>NULL\<close>.\<close>

definition CBB_finish :: "nat \<Rightarrow> bool \<Rightarrow> cbb \<Rightarrow> u8 list option \<times> cbb" where
  "CBB_finish d out_given cbb =
     (if d \<noteq> 0 then (None, cbb)
      else case CBB_flush d cbb of
             (False, cbb) \<Rightarrow> (None, cbb)
           | (True, cbb) \<Rightarrow>
               (case base cbb of
                  None \<Rightarrow> (None, cbb)
                | Some b \<Rightarrow>
                    if can_resize b \<and> \<not> out_given then (None, cbb)
                    else (Some (take (len b) (buf b)), CBB_cleanup cbb)))"

section \<open>Data and length\<close>

text \<open>Where the contents of the \<open>CBB\<close> at depth \<open>d\<close> start.\<close>

definition cbb_start :: "nat \<Rightarrow> cbb \<Rightarrow> nat" where
  "cbb_start d cbb =
     (if d = 0 then 0
      else offset (chain cbb ! (d - 1)) + pending_len_len (chain cbb ! (d - 1)))"

definition CBB_data :: "nat \<Rightarrow> cbb \<Rightarrow> u8 list" where
  "CBB_data d cbb =
     (case base cbb of None \<Rightarrow> [] | Some b \<Rightarrow> drop (cbb_start d cbb) (take (len b) (buf b)))"

definition CBB_len :: "nat \<Rightarrow> cbb \<Rightarrow> nat" where
  "CBB_len d cbb = (case base cbb of None \<Rightarrow> 0 | Some b \<Rightarrow> len b - cbb_start d cbb)"

section \<open>Appending\<close>

definition CBB_add_bytes :: "nat \<Rightarrow> u8 list \<Rightarrow> cbb \<Rightarrow> bool \<times> cbb" where
  "CBB_add_bytes d data =
     wbind (CBB_flush d)
       (on_base (\<lambda>e b. case cbb_buffer_add e b (length data) of
          (False, b) \<Rightarrow> (False, b)
        | (True, b) \<Rightarrow> (True, b\<lparr>buf := write_at (len b - length data) data (buf b)\<rparr>)))"

definition CBB_add_space :: "nat \<Rightarrow> nat \<Rightarrow> cbb \<Rightarrow> bool \<times> cbb" where
  "CBB_add_space d n = wbind (CBB_flush d) (on_base (\<lambda>e b. cbb_buffer_add e b n))"

definition CBB_reserve :: "nat \<Rightarrow> nat \<Rightarrow> cbb \<Rightarrow> bool \<times> cbb" where
  "CBB_reserve d n = wbind (CBB_flush d) (on_base (\<lambda>e b. cbb_buffer_reserve e b n))"

definition CBB_did_write :: "nat \<Rightarrow> nat \<Rightarrow> cbb \<Rightarrow> bool \<times> cbb" where
  "CBB_did_write d n cbb = on_base (\<lambda>e b.
     let newlen = (len b + n) mod 2 ^ 64
     in if d < length (chain cbb) \<or> newlen < len b \<or> newlen > cap b then (False, b)
        else (True, b\<lparr>len := newlen\<rparr>)) cbb"

definition CBB_add_u :: "nat \<Rightarrow> u64 \<Rightarrow> nat \<Rightarrow> cbb \<Rightarrow> bool \<times> cbb" where
  "CBB_add_u d v len_len =
     wbind (CBB_flush d) (on_base (\<lambda>e b. cbb_buffer_add_u e b v len_len))"

definition CBB_add_u8 :: "nat \<Rightarrow> u8 \<Rightarrow> cbb \<Rightarrow> bool \<times> cbb" where
  "CBB_add_u8 d v = CBB_add_u d (ucast v) 1"

definition CBB_add_u16 :: "nat \<Rightarrow> u16 \<Rightarrow> cbb \<Rightarrow> bool \<times> cbb" where
  "CBB_add_u16 d v = CBB_add_u d (ucast v) 2"

definition CBB_add_u16le :: "nat \<Rightarrow> u16 \<Rightarrow> cbb \<Rightarrow> bool \<times> cbb" where
  "CBB_add_u16le d v = CBB_add_u16 d (CRYPTO_bswap2 v)"

definition CBB_add_u24 :: "nat \<Rightarrow> u32 \<Rightarrow> cbb \<Rightarrow> bool \<times> cbb" where
  "CBB_add_u24 d v = CBB_add_u d (ucast v) 3"

definition CBB_add_u32 :: "nat \<Rightarrow> u32 \<Rightarrow> cbb \<Rightarrow> bool \<times> cbb" where
  "CBB_add_u32 d v = CBB_add_u d (ucast v) 4"

definition CBB_add_u32le :: "nat \<Rightarrow> u32 \<Rightarrow> cbb \<Rightarrow> bool \<times> cbb" where
  "CBB_add_u32le d v = CBB_add_u32 d (CRYPTO_bswap4 v)"

definition CBB_add_u64 :: "nat \<Rightarrow> u64 \<Rightarrow> cbb \<Rightarrow> bool \<times> cbb" where
  "CBB_add_u64 d v = CBB_add_u d v 8"

definition CBB_add_u64le :: "nat \<Rightarrow> u64 \<Rightarrow> cbb \<Rightarrow> bool \<times> cbb" where
  "CBB_add_u64le d v = CBB_add_u64 d (CRYPTO_bswap8 v)"

definition CBB_discard_child :: "nat \<Rightarrow> cbb \<Rightarrow> cbb" where
  "CBB_discard_child d cbb =
     (if length (chain cbb) \<le> d then cbb
      else cbb\<lparr>base := map_option (\<lambda>b. b\<lparr>len := offset (chain cbb ! d)\<rparr>) (base cbb),
               chain := take d (chain cbb)\<rparr>)"

section \<open>Length-prefixed children\<close>

text \<open>
  The new child becomes the \<open>CBB\<close> at depth \<open>Suc d\<close>; \<open>off\<close> is \<open>cbb->base->len\<close> before the
  placeholder for the prefix was added.
\<close>

definition push_child :: "nat \<Rightarrow> nat \<Rightarrow> nat \<Rightarrow> bool \<Rightarrow> cbb \<Rightarrow> cbb" where
  "push_child d off len_len is_asn1 cbb =
     cbb\<lparr>chain := take d (chain cbb) @
           [\<lparr>offset = off, pending_len_len = len_len, pending_is_asn1 = is_asn1\<rparr>]\<rparr>"

definition base_len :: "cbb \<Rightarrow> nat" where
  "base_len cbb = (case base cbb of None \<Rightarrow> 0 | Some b \<Rightarrow> len b)"

definition cbb_add_length_prefixed :: "nat \<Rightarrow> nat \<Rightarrow> cbb \<Rightarrow> bool \<times> cbb" where
  "cbb_add_length_prefixed d len_len =
     wbind (CBB_flush d) (\<lambda>cbb.
       let off = base_len cbb
       in wbind (on_base (\<lambda>e b. case cbb_buffer_add e b len_len of
                    (False, b) \<Rightarrow> (False, b)
                  | (True, b) \<Rightarrow>
                      (True, b\<lparr>buf := write_at (len b - len_len) (replicate len_len 0) (buf b)\<rparr>)))
            (\<lambda>cbb. wreturn (push_child d off len_len False cbb)) cbb)"

definition CBB_add_u8_length_prefixed :: "nat \<Rightarrow> cbb \<Rightarrow> bool \<times> cbb" where
  "CBB_add_u8_length_prefixed d = cbb_add_length_prefixed d 1"

definition CBB_add_u16_length_prefixed :: "nat \<Rightarrow> cbb \<Rightarrow> bool \<times> cbb" where
  "CBB_add_u16_length_prefixed d = cbb_add_length_prefixed d 2"

definition CBB_add_u24_length_prefixed :: "nat \<Rightarrow> cbb \<Rightarrow> bool \<times> cbb" where
  "CBB_add_u24_length_prefixed d = cbb_add_length_prefixed d 3"

text \<open>\<open>add_base128_integer\<close>: first the number of base-128 digits, then the digits.\<close>

function base128_len_len :: "u64 \<Rightarrow> nat" where
  "base128_len_len copy = (if copy > 0 then Suc (base128_len_len (drop_bit 7 copy)) else 0)"
  by pat_completeness auto
termination
proof (relation "measure unat", simp)
  fix copy :: u64
  assume "0 < copy"
  then have "0 < unat copy" by (simp add: word_less_nat_alt)
  then show "(drop_bit 7 copy, copy) \<in> measure unat"
    by (simp add: unat_drop_bit_div)
qed

declare base128_len_len.simps [simp del]

fun add_base128_loop :: "nat \<Rightarrow> u64 \<Rightarrow> nat \<Rightarrow> cbb \<Rightarrow> bool \<times> cbb" where
  "add_base128_loop d v 0 = wreturn"
| "add_base128_loop d v (Suc i) =
     (let byte = ucast (drop_bit (7 * i) v) AND 0x7f;
          byte = (if i \<noteq> 0 then byte OR 0x80 else byte)
      in wbind (CBB_add_u8 d byte) (add_base128_loop d v i))"

definition add_base128_integer :: "nat \<Rightarrow> u64 \<Rightarrow> cbb \<Rightarrow> bool \<times> cbb" where
  "add_base128_integer d v =
     (let len_len = base128_len_len v;
          len_len = (if len_len = 0 then 1 else len_len)
      in add_base128_loop d v len_len)"

definition CBB_add_asn1 :: "nat \<Rightarrow> u32 \<Rightarrow> cbb \<Rightarrow> bool \<times> cbb" where
  "CBB_add_asn1 d tag =
     wbind (CBB_flush d)
       (let tag_bits = ucast (drop_bit CBS_ASN1_TAG_SHIFT tag) AND 0xe0 :: u8;
            tag_number = tag AND CBS_ASN1_TAG_NUMBER_MASK
        in wbind (if tag_number \<ge> 0x1f
                  then wbind (CBB_add_u8 d (tag_bits OR 0x1f)) (add_base128_integer d (ucast tag_number))
                  else CBB_add_u8 d (tag_bits OR ucast tag_number))
             (\<lambda>cbb. let off = base_len cbb
               in wbind (CBB_add_u8 d 0) (\<lambda>cbb. wreturn (push_child d off 1 True cbb)) cbb))"

section \<open>ASN.1 values\<close>

text \<open>The loop of \<open>CBB_add_asn1_uint64\<close> from index \<open>i\<close> on (\<open>n = 8 - i\<close> iterations).\<close>

fun asn1_uint64_bytes :: "nat \<Rightarrow> u64 \<Rightarrow> nat \<Rightarrow> bool \<Rightarrow> cbb \<Rightarrow> (bool \<times> bool) \<times> cbb" where
  "asn1_uint64_bytes d v 0 started cbb = ((True, started), cbb)"
| "asn1_uint64_bytes d v (Suc n) started cbb =
     (let i = 8 - Suc n;
          byte = ucast (drop_bit (8 * (7 - i)) v AND 0xff) :: u8
      in if \<not> started \<and> byte = 0 then asn1_uint64_bytes d v n started cbb
         else (case wbind (if \<not> started \<and> byte AND 0x80 \<noteq> 0 then CBB_add_u8 d 0 else wreturn)
                      (CBB_add_u8 d byte) cbb of
                 (False, cbb) \<Rightarrow> ((False, True), cbb)
               | (True, cbb) \<Rightarrow> asn1_uint64_bytes d v n True cbb))"

definition CBB_add_asn1_uint64 :: "nat \<Rightarrow> u64 \<Rightarrow> cbb \<Rightarrow> bool \<times> cbb" where
  "CBB_add_asn1_uint64 d v =
     wbind (CBB_add_asn1 d CBS_ASN1_INTEGER) (\<lambda>cbb.
       case asn1_uint64_bytes (Suc d) v 8 False cbb of
         ((False, _), cbb) \<Rightarrow> (False, cbb)
       | ((True, started), cbb) \<Rightarrow>
           wbind (if \<not> started then CBB_add_u8 (Suc d) 0 else wreturn) (CBB_flush d) cbb)"

text \<open>The skipped sign-extension bytes of \<open>CBB_add_asn1_int64\<close>; \<open>bytes\<close> is the union.\<close>

fun skip_sign_bytes :: "u8 list \<Rightarrow> nat \<Rightarrow> nat" where
  "skip_sign_bytes bytes 0 = 0"
| "skip_sign_bytes bytes (Suc start) =
     (if bytes ! Suc start = 0xff \<and> bytes ! start AND 0x80 \<noteq> 0 then skip_sign_bytes bytes start
      else Suc start)"

fun add_bytes_down :: "nat \<Rightarrow> u8 list \<Rightarrow> nat \<Rightarrow> cbb \<Rightarrow> bool \<times> cbb" where
  "add_bytes_down d bytes 0 = CBB_add_u8 d (bytes ! 0)"
| "add_bytes_down d bytes (Suc i) = wbind (CBB_add_u8 d (bytes ! Suc i)) (add_bytes_down d bytes i)"

definition CBB_add_asn1_int64 :: "nat \<Rightarrow> u64 \<Rightarrow> cbb \<Rightarrow> bool \<times> cbb" where
  "CBB_add_asn1_int64 d v =
     (if 0 \<le> sint v then CBB_add_asn1_uint64 d v
      else let bytes = rev (be_bytes 8 (unat v)); start = skip_sign_bytes bytes 7
           in wbind (CBB_add_asn1 d CBS_ASN1_INTEGER)
                (wbind (add_bytes_down (Suc d) bytes start) (CBB_flush d)))"

definition CBB_add_asn1_octet_string :: "nat \<Rightarrow> u8 list \<Rightarrow> cbb \<Rightarrow> bool \<times> cbb" where
  "CBB_add_asn1_octet_string d data =
     wbind (CBB_add_asn1 d CBS_ASN1_OCTETSTRING)
       (wbind (CBB_add_bytes (Suc d) data) (CBB_flush d))"

definition CBB_add_asn1_bool :: "nat \<Rightarrow> int \<Rightarrow> cbb \<Rightarrow> bool \<times> cbb" where
  "CBB_add_asn1_bool d v =
     wbind (CBB_add_asn1 d CBS_ASN1_BOOLEAN)
       (wbind (CBB_add_u8 (Suc d) (if v \<noteq> 0 then 0xff else 0)) (CBB_flush d))"

end
