(* ===== verification/Der.thy ===== *)
theory Der
  imports Cbs Codec
begin

text \<open>
  The DER encodings that \<open>cbs.c\<close> reads and \<open>cbb.c\<close> writes, as functions on byte lists, and the
  proofs that each reader of \<open>cbs.c\<close> accepts exactly these encodings (interpretations of
  \<open>codec\<close>). The encodings are the specification: they are not taken from the code.
\<close>

unbundle bit_operations_syntax

declare of_nat_add [simp del] of_nat_mult [simp del] push_bit_and [simp del]

section \<open>The cursor and the fixed-width integers\<close>

lemma cbs_get_Some_iff [reader_simps]:
  "cbs_get n cbs = (Some v, rest) \<longleftrightarrow> length v = n \<and> cbs = v @ rest"
  by (auto simp: cbs_get_def)

lemma cbs_get_append [simp]: "n = length v \<Longrightarrow> cbs_get n (v @ rest) = (Some v, rest)"
  by (simp add: cbs_get_def)

lemma CBS_get_bytes_append [simp]: "n = length v \<Longrightarrow> CBS_get_bytes n (v @ rest) = (Some v, rest)"
  by (simp add: CBS_get_bytes_def rbind_def rreturn_def CBS_init_def)

lemma CBS_get_bytes_Some_iff [reader_simps]:
  "CBS_get_bytes n cbs = (Some v, rest) \<longleftrightarrow> length v = n \<and> cbs = v @ rest"
  by (auto simp: CBS_get_bytes_def rbind_Some_iff cbs_get_Some_iff rreturn_def CBS_init_def)

lemma CBS_get_bytes_None: "CBS_get_bytes n cbs = (None, rest) \<longleftrightarrow> length cbs < n \<and> rest = cbs"
  by (auto simp: CBS_get_bytes_def rbind_def rreturn_def cbs_get_def)

lemma CBS_skip_append [simp]: "n = length v \<Longrightarrow> CBS_skip n (v @ rest) = (Some (), rest)"
  by (simp add: CBS_skip_def rbind_def rreturn_def)

lemma unat_cbs_get_u_loop:
  "length bs \<le> 8 \<Longrightarrow> unat (foldl cbs_get_u_step 0 bs) = be_val bs"
proof (induction bs rule: rev_induct)
  case (snoc b bs)
  have "be_val bs < 256 ^ length bs" by (rule be_val_less)
  also have "(256::nat) ^ length bs \<le> 256 ^ 7" using snoc.prems by (intro power_increasing) auto
  finally have "be_val bs * 256 < 2 ^ 64" by simp
  then show ?case
    using snoc by (simp add: cbs_get_u_step_def unat_push_or)
qed simp

lemma cbs_get_u_append:
  assumes "length bs \<le> 8"
  shows "cbs_get_u (length bs) (bs @ rest) = (Some (of_nat (be_val bs)), rest)"
proof -
  have "foldl cbs_get_u_step 0 bs = of_nat (be_val bs)"
    using unat_cbs_get_u_loop [OF assms] by (metis of_nat_unat ucast_id)
  then show ?thesis by (simp add: cbs_get_u_def rbind_def rreturn_def)
qed

lemma cbs_get_u_Some_iff:
  assumes "n \<le> 8"
  shows "cbs_get_u n cbs = (Some v, rest) \<longleftrightarrow>
    (\<exists>bs. length bs = n \<and> cbs = bs @ rest \<and> unat v = be_val bs)"
  using assms
  by (auto simp: cbs_get_u_def rbind_Some_iff cbs_get_Some_iff rreturn_def unat_cbs_get_u_loop
      word_unat_eq_iff)

lemma CBS_get_u8_simps [simp]:
  "CBS_get_u8 [] = (None, [])" "CBS_get_u8 (b # cbs) = (Some b, cbs)"
  by (simp_all add: CBS_get_u8_def rbind_def rreturn_def cbs_get_def)

lemma CBS_get_u8_Some_iff: "CBS_get_u8 cbs = (Some b, rest) \<longleftrightarrow> cbs = b # rest"
  by (cases cbs) auto

lemma be_bytes_unat_iff:
  assumes "length bs = n"
  shows "unat (v :: 'a::len word) = be_val bs \<longleftrightarrow> unat v < 256 ^ n \<and> bs = be_bytes n (unat v)"
proof
  assume "unat v = be_val bs"
  then show "unat v < 256 ^ n \<and> bs = be_bytes n (unat v)"
    using assms be_val_less [of bs] be_bytes_be_val [of bs] by simp
next
  assume v: "unat v < 256 ^ n \<and> bs = be_bytes n (unat v)"
  then have "be_val bs = be_val (be_bytes n (unat v))" by simp
  with v show "unat v = be_val bs" by (simp add: be_val_be_bytes)
qed

text \<open>
  Each big-endian reader is a codec over the values that fit its width.
\<close>

lemma cbs_get_u_codec:
  assumes n: "0 < n" "n \<le> 8"
  shows "progressive_codec (\<lambda>v. be_bytes n (unat v)) (cbs_get_u n) (\<lambda>v :: u64. unat v < 256 ^ n)"
proof unfold_locales
  fix v :: u64 and rest
  assume "unat v < 256 ^ n"
  then show "cbs_get_u n (be_bytes n (unat v) @ rest) = (Some v, rest)"
    using n cbs_get_u_append [of "be_bytes n (unat v)" rest] by (simp add: be_val_be_bytes)
next
  fix v :: u64 and bs rest
  assume "cbs_get_u n bs = (Some v, rest)"
  then show "unat v < 256 ^ n \<and> bs = be_bytes n (unat v) @ rest"
    using n by (auto simp: cbs_get_u_Some_iff be_bytes_unat_iff)
next
  fix v :: u64
  show "be_bytes n (unat v) \<noteq> []" using n length_be_bytes [of n "unat v"] by fastforce
qed

section \<open>Base-128 integers\<close>

fun base128_high :: "nat \<Rightarrow> u8 list" where
  "base128_high v =
     (if v = 0 then [] else base128_high (v div 128) @ [of_nat (v mod 128 + 128)])"

declare base128_high.simps [simp del]

definition base128 :: "nat \<Rightarrow> u8 list" where
  "base128 v = base128_high (v div 128) @ [of_nat (v mod 128)]"

lemma base128_high_0 [simp]: "base128_high 0 = []"
  by (simp add: base128_high.simps)

lemma base128_high_pos: "0 < v \<Longrightarrow> base128_high v = base128_high (v div 128) @ [of_nat (v mod 128 + 128)]"
  by (subst base128_high.simps) simp

lemma length_base128_high: "v < 128 ^ k \<Longrightarrow> length (base128_high v) \<le> k"
proof (induction k arbitrary: v)
  case (Suc k)
  then have "v div 128 < 128 ^ k" by (simp add: less_mult_imp_div_less mult.commute)
  with Suc.IH show ?case by (cases "v = 0") (auto simp: base128_high_pos)
qed simp

lemma base128_nonempty [simp]: "base128 v \<noteq> []"
  by (simp add: base128_def)

lemma parse_base128_step:
  fixes b :: u8
  assumes "u < 2 ^ 57"
  shows "push_bit 7 (of_nat u) OR ucast (b AND 0x7f) = (of_nat (u * 128 + unat b mod 128) :: u64)"
proof (rule word_unat_eq_iff [THEN iffD2])
  have b: "unat (ucast (b AND 0x7f) :: u64) = unat b mod 128"
    by (simp add: unat_and_7f)
  have u: "unat (of_nat u :: u64) = u" using assms by (simp add: unat_of_nat)
  have "unat (push_bit 7 (of_nat u) OR ucast (b AND 0x7f) :: u64) = u * 128 + unat b mod 128"
    using assms by (subst unat_push_or) (simp_all add: b u)
  then show "unat (push_bit 7 (of_nat u) OR ucast (b AND 0x7f) :: u64)
      = unat (of_nat (u * 128 + unat b mod 128) :: u64)"
    using assms by (simp add: unat_of_nat)
qed

lemma parse_base128_loop_Cons:
  assumes "u < 2 ^ 64"
  shows "parse_base128_loop (of_nat u) (b # cbs) =
    (if 2 ^ 57 \<le> u \<or> u = 0 \<and> unat b = 128 then (None, cbs)
     else if 128 \<le> unat b then parse_base128_loop (of_nat (u * 128 + unat b mod 128)) cbs
     else (Some (of_nat (u * 128 + unat b)), cbs))"
proof -
  have "drop_bit (64 - 7) (of_nat u :: u64) = 0 \<longleftrightarrow> u < 2 ^ 57"
    using assms by (simp add: drop_bit_eq_0_iff_less unat_of_nat)
  moreover have "(of_nat u :: u64) = 0 \<longleftrightarrow> u = 0"
    using assms by (simp add: word_unat_eq_iff unat_of_nat)
  moreover have "b = 0x80 \<longleftrightarrow> unat b = 128"
    by (simp add: word_unat_eq_iff)
  ultimately show ?thesis
    using parse_base128_step [of u b]
    by (simp add: and_80_eq_0_iff Let_def not_le)
qed

lemma parse_base128_loop_high:
  "u < 2 ^ 64 \<Longrightarrow>
   parse_base128_loop 0 (base128_high u @ rest) = parse_base128_loop (of_nat u) rest"
proof (induction u arbitrary: rest rule: base128_high.induct)
  case (1 u)
  show ?case
  proof (cases "u = 0")
    case False
    let ?b = "of_nat (u mod 128 + 128) :: u8"
    have small: "u div 128 < 2 ^ 57" using "1.prems" by (simp add: less_mult_imp_div_less)
    have b: "unat ?b = u mod 128 + 128"
      by (subst unat_of_nat_u8) simp
    have "u = u div 128 * 128 + u mod 128" by simp
    with False have nz: "\<not> (u div 128 = 0 \<and> unat ?b = 128)" unfolding b by linarith
    have "parse_base128_loop 0 (base128_high u @ rest)
        = parse_base128_loop (of_nat (u div 128)) (?b # rest)"
      using False "1.IH" [OF False, of "?b # rest"] "1.prems"
      by (simp add: base128_high_pos del: parse_base128_loop.simps)
    also have "\<dots> = parse_base128_loop (of_nat (u div 128 * 128 + unat ?b mod 128)) rest"
    proof (subst parse_base128_loop_Cons)
      show "u div 128 < 2 ^ 64" using small by simp
      have "\<not> 2 ^ 57 \<le> u div 128" "128 \<le> unat ?b" using small by (simp_all only: not_le b)
      then show "(if 2 ^ 57 \<le> u div 128 \<or> u div 128 = 0 \<and> unat ?b = 128 then (None, rest)
          else if 128 \<le> unat ?b
          then parse_base128_loop (of_nat (u div 128 * 128 + unat ?b mod 128)) rest
          else (Some (of_nat (u div 128 * 128 + unat ?b)), rest))
        = parse_base128_loop (of_nat (u div 128 * 128 + unat ?b mod 128)) rest"
        using nz by (simp only: if_True if_False simp_thms)
    qed
    also have "u div 128 * 128 + unat ?b mod 128 = u" by (simp add: b)
    finally show ?thesis .
  qed simp
qed

lemma parse_base128_integer_enc:
  assumes "u < 2 ^ 64"
  shows "parse_base128_integer (base128 u @ rest) = (Some (of_nat u), rest)"
proof -
  let ?b = "of_nat (u mod 128) :: u8"
  have small: "u div 128 < 2 ^ 57" using assms by (simp add: less_mult_imp_div_less)
  have b: "unat ?b = u mod 128" by (subst unat_of_nat_u8) simp
  have "\<not> 128 \<le> u mod 128" by (simp add: not_le)
  then have "parse_base128_loop (of_nat (u div 128)) (?b # rest) = (Some (of_nat u), rest)"
    using small by (subst parse_base128_loop_Cons) (simp_all add: b)
  with small show ?thesis
    by (simp add: parse_base128_integer_def base128_def parse_base128_loop_high
        del: parse_base128_loop.simps)
qed

lemma parse_base128_loop_Some:
  "u < 2 ^ 64 \<Longrightarrow> parse_base128_loop (of_nat u) cbs = (Some v, rest) \<Longrightarrow>
   base128_high u @ cbs = base128 (unat v) @ rest"
proof (induction cbs arbitrary: u)
  case (Cons b cbs)
  let ?u = "u * 128 + unat b mod 128"
  from Cons.prems have u: "u < 2 ^ 57" and nz: "\<not> (u = 0 \<and> unat b = 128)"
    by (auto simp: parse_base128_loop_Cons simp del: parse_base128_loop.simps split: if_splits)
  show ?case
  proof (cases "128 \<le> unat b")
    case True
    have b: "unat b mod 128 + 128 = unat b"
      using True unat_u8_less [of b] by (simp add: le_mod_geq del: unat_u8_less)
    have "?u < 2 ^ 64" using u by (simp add: add.commute)
    moreover from Cons.prems True u nz have "parse_base128_loop (of_nat ?u) cbs = (Some v, rest)"
      by (simp add: parse_base128_loop_Cons del: parse_base128_loop.simps)
    ultimately have IH: "base128_high ?u @ cbs = base128 (unat v) @ rest"
      by (rule Cons.IH)
    have "0 < ?u" using nz b True by (cases "u = 0") auto
    then have "base128_high ?u = base128_high u @ [of_nat (unat b mod 128 + 128)]"
      by (subst base128_high_pos) simp_all
    also have "\<dots> = base128_high u @ [b]" by (simp only: b of_nat_unat ucast_id)
    finally show ?thesis using IH by simp
  next
    case False
    with Cons.prems u nz have v: "v = of_nat (u * 128 + unat b)" and r: "rest = cbs"
      by (auto simp: parse_base128_loop_Cons simp del: parse_base128_loop.simps)
    have "unat v = u * 128 + unat b"
      using u False unfolding v by (simp add: unat_of_nat)
    then show ?thesis using False r by (simp add: base128_def)
  qed
qed simp

interpretation base128: progressive_codec "\<lambda>v :: u64. base128 (unat v)" parse_base128_integer "\<lambda>_. True"
proof unfold_locales
  fix v :: u64 and rest
  show "parse_base128_integer (base128 (unat v) @ rest) = (Some v, rest)"
    using parse_base128_integer_enc [of "unat v" rest] unsigned_less [of v] by simp
next
  fix v :: u64 and bs rest
  assume "parse_base128_integer bs = (Some v, rest)"
  then show "True \<and> bs = base128 (unat v) @ rest"
    using parse_base128_loop_Some [of 0 bs v rest] by (simp add: parse_base128_integer_def)
qed simp

section \<open>Tags\<close>

definition der_tag :: "u32 \<Rightarrow> u8 list" where
  "der_tag tag =
     (let c = unat tag div 2 ^ 29 * 32; num = unat tag mod 2 ^ 29
      in if num < 31 then [of_nat (c + num)] else of_nat (c + 31) # base128 num)"

lemma unat_tag_number_mask: "unat CBS_ASN1_TAG_NUMBER_MASK = 2 ^ 29 - 1"
  by (simp add: CBS_ASN1_TAG_NUMBER_MASK_def CBS_ASN1_TAG_SHIFT_def push_bit_eq_mult)

lemma unat_tag_join:
  fixes tag_byte :: u8 and num :: u32
  assumes "unat num < 2 ^ 29"
  shows "unat (push_bit CBS_ASN1_TAG_SHIFT ((ucast tag_byte :: u32) AND 0xe0) OR num)
    = unat tag_byte div 32 * 2 ^ 29 + unat num"
proof -
  have "unat tag_byte div 32 < 8" by (simp add: less_mult_imp_div_less)
  then have eq: "unat (push_bit CBS_ASN1_TAG_SHIFT ((ucast tag_byte :: u32) AND 0xe0))
      = unat tag_byte div 32 * 2 ^ 29"
    by (simp add: unat_push_bit unat_and_e0 CBS_ASN1_TAG_SHIFT_def)
  show ?thesis
    by (subst unat_or_add [where n = 29]) (use assms in \<open>simp_all only: eq dvd_triv_right\<close>)
qed

lemma unat_low_tag: "unat (ucast (b AND 0x1f) :: u32) = unat (b :: u8) mod 32"
  by (simp add: unat_and_1f)

lemma parse_asn1_tag_low:
  assumes "unat b mod 32 \<noteq> 31"
  shows "parse_asn1_tag (b # cbs) = (Some (of_nat (unat b div 32 * 2 ^ 29 + unat b mod 32)), cbs)"
proof -
  have ne: "(ucast (b AND 0x1f) :: u32) \<noteq> 0x1f"
    using assms unat_low_tag [of b] by (auto dest: arg_cong [where f = unat])
  have "unat (push_bit CBS_ASN1_TAG_SHIFT ((ucast b :: u32) AND 0xe0) OR ucast (b AND 0x1f))
      = unat b div 32 * 2 ^ 29 + unat b mod 32"
    by (subst unat_tag_join) (simp_all add: unat_low_tag less_le_trans [OF mod_less_divisor])
  then have "push_bit CBS_ASN1_TAG_SHIFT ((ucast b :: u32) AND 0xe0) OR ucast (b AND 0x1f)
      = of_nat (unat b div 32 * 2 ^ 29 + unat b mod 32)"
    by (metis of_nat_unat ucast_id)
  with ne show ?thesis
    by (simp add: parse_asn1_tag_def rbind_def rreturn_def Let_def)
qed

lemma parse_asn1_tag_high:
  assumes "unat b mod 32 = 31"
  shows "parse_asn1_tag (b # cbs) = (case parse_base128_integer cbs of
      (None, r) \<Rightarrow> (None, r)
    | (Some v, r) \<Rightarrow>
        if 31 \<le> unat v \<and> unat v < 2 ^ 29 then (Some (of_nat (unat b div 32 * 2 ^ 29 + unat v)), r)
        else (None, r))"
proof -
  have eq: "(ucast (b AND 0x1f) :: u32) = 0x1f"
    by (rule word_unat_eq_iff [THEN iffD2]) (simp only: unat_low_tag assms, simp)
  have bounds: "(v > ucast CBS_ASN1_TAG_NUMBER_MASK \<or> v < 0x1f) \<longleftrightarrow>
      \<not> (31 \<le> unat v \<and> unat v < 2 ^ 29)" for v :: u64
    by (auto simp: word_less_nat_alt unat_tag_number_mask)
  have join: "push_bit CBS_ASN1_TAG_SHIFT ((ucast b :: u32) AND 0xe0) OR ucast v
      = of_nat (unat b div 32 * 2 ^ 29 + unat v)" if "unat v < 2 ^ 29" for v :: u64
  proof -
    have v: "unat (ucast v :: u32) = unat v" using that by (simp add: unat_ucast_mod)
    have "unat (push_bit CBS_ASN1_TAG_SHIFT ((ucast b :: u32) AND 0xe0) OR ucast v)
        = unat b div 32 * 2 ^ 29 + unat v"
      by (subst unat_tag_join) (simp_all only: v that)
    then show ?thesis by (metis of_nat_unat ucast_id)
  qed
  show ?thesis
    unfolding parse_asn1_tag_def
    by (auto simp: rbind_def eq bounds join rreturn_def rfail_def Let_def
        split: prod.splits option.splits)
qed

lemma unat_tag_split:
  fixes tag :: u32
  obtains c num where "c < 8" "num < 2 ^ 29" "unat tag = c * 2 ^ 29 + num"
    "unat tag div 2 ^ 29 = c" "unat tag mod 2 ^ 29 = num"
proof -
  have "unat tag < 2 ^ 32" using unsigned_less [of tag] by simp
  then have "unat tag div 2 ^ 29 < 8" by (simp add: less_mult_imp_div_less)
  then show ?thesis using that [of "unat tag div 2 ^ 29" "unat tag mod 2 ^ 29"] by simp
qed

lemma parse_asn1_tag_der_tag: "parse_asn1_tag (der_tag tag @ rest) = (Some tag, rest)"
proof -
  obtain c num where t: "c < 8" "num < 2 ^ 29" "unat tag = c * 2 ^ 29 + num"
    "unat tag div 2 ^ 29 = c" "unat tag mod 2 ^ 29 = num"
    by (rule unat_tag_split)
  have tag: "of_nat (c * 2 ^ 29 + num) = tag" by (simp only: t(3) [symmetric] of_nat_unat ucast_id)
  show ?thesis
  proof (cases "num < 31")
    case True
    let ?b = "of_nat (c * 32 + num) :: u8"
    have b: "unat ?b = c * 32 + num" using t(1) True by (subst unat_of_nat_u8) simp
    then have "unat ?b mod 32 = num" "unat ?b div 32 = c" using True by (simp_all only: b) simp_all
    with True show ?thesis
      using parse_asn1_tag_low [of ?b rest] by (simp only: der_tag_def t(4,5) Let_def tag) simp
  next
    case False
    let ?b = "of_nat (c * 32 + 31) :: u8"
    have b: "unat ?b = c * 32 + 31" using t(1) by (subst unat_of_nat_u8) simp
    then have "unat ?b mod 32 = 31" "unat ?b div 32 = c" by (simp_all only: b) simp_all
    moreover have "parse_base128_integer (base128 num @ rest) = (Some (of_nat num), rest)"
      using t(2) by (intro parse_base128_integer_enc) simp
    moreover have "unat (of_nat num :: u64) = num" using t(2) by (simp add: unat_of_nat)
    ultimately have "parse_asn1_tag (?b # base128 num @ rest) = (Some tag, rest)"
      using parse_asn1_tag_high [of ?b "base128 num @ rest"] t(2) False tag
      by simp
    moreover have "der_tag tag = ?b # base128 num"
      unfolding der_tag_def t(4,5) Let_def using False by simp
    ultimately show ?thesis by simp
  qed
qed

lemma parse_asn1_tag_Some:
  assumes "parse_asn1_tag cbs = (Some tag, rest)"
  shows "cbs = der_tag tag @ rest"
proof (cases cbs)
  case Nil
  with assms show ?thesis by (simp add: parse_asn1_tag_def rbind_def)
next
  case (Cons b bs)
  have byte: "of_nat (unat b div 32 * 32 + unat b mod 32) = b"
    by (simp only: div_mult_mod_eq of_nat_unat ucast_id)
  have "unat b div 32 < 8" by (simp add: less_mult_imp_div_less)
  then have tag: "unat (of_nat (unat b div 32 * 2 ^ 29 + num) :: u32) = unat b div 32 * 2 ^ 29 + num"
    if "num < 2 ^ 29" for num using that by (simp add: unat_of_nat)
  show ?thesis
  proof (cases "unat b mod 32 = 31")
    case False
    with assms Cons have r: "rest = bs"
      and t: "tag = of_nat (unat b div 32 * 2 ^ 29 + unat b mod 32)"
      by (simp_all add: parse_asn1_tag_low)
    have "unat b mod 32 < 31" using False mod_less_divisor [of 32 "unat b"] by linarith
    moreover from this have "unat tag = unat b div 32 * 2 ^ 29 + unat b mod 32"
      unfolding t by (intro tag) simp
    ultimately show ?thesis
      using byte Cons r by (simp add: der_tag_def Let_def)
  next
    case True
    with assms Cons obtain v where v: "parse_base128_integer bs = (Some v, rest)"
      "31 \<le> unat v" "unat v < 2 ^ 29" "tag = of_nat (unat b div 32 * 2 ^ 29 + unat v)"
      by (auto simp: parse_asn1_tag_high split: prod.splits option.splits if_splits)
    have "bs = base128 (unat v) @ rest" using base128.dec_Some [OF v(1)] by simp
    moreover have "unat tag = unat b div 32 * 2 ^ 29 + unat v"
      unfolding v(4) using v(3) by (rule tag)
    ultimately show ?thesis
      using byte [unfolded True] v(2,3) Cons
      by (simp add: der_tag_def Let_def)
  qed
qed

interpretation der_tag: progressive_codec der_tag parse_asn1_tag "\<lambda>_. True"
proof unfold_locales
  show "der_tag tag \<noteq> []" for tag by (simp add: der_tag_def Let_def)
qed (simp_all add: parse_asn1_tag_der_tag parse_asn1_tag_Some)

lemma length_der_tag: "length (der_tag tag) \<le> 6"
proof -
  have "length (base128_high (unat tag mod 2 ^ 29 div 128)) \<le> 4"
    by (rule length_base128_high) (simp add: less_mult_imp_div_less)
  then show ?thesis by (simp add: der_tag_def Let_def base128_def)
qed

section \<open>Lengths and elements\<close>

fun byte_len :: "nat \<Rightarrow> nat" where
  "byte_len n = (if n = 0 then 0 else Suc (byte_len (n div 256)))"

declare byte_len.simps [simp del]

lemma byte_len_le_iff: "byte_len n \<le> k \<longleftrightarrow> n < 256 ^ k"
proof (induction k arbitrary: n)
  case 0
  show ?case by (subst byte_len.simps) simp
next
  case (Suc k)
  have "n div 256 < 256 ^ k \<longleftrightarrow> n < 256 ^ Suc k"
    by (simp add: div_less_iff_less_mult mult.commute)
  then show ?case using Suc.IH [of "n div 256"] by (subst byte_len.simps) simp
qed

lemma byte_len_eqI:
  assumes "0 < k" "256 ^ (k - 1) \<le> n" "n < 256 ^ k"
  shows "byte_len n = k"
  using assms byte_len_le_iff [of n k] byte_len_le_iff [of n "k - 1"] by linarith

definition der_length :: "nat \<Rightarrow> u8 list" where
  "der_length n =
     (if n < 128 then [of_nat n] else of_nat (128 + byte_len n) # be_bytes (byte_len n) n)"

definition der_header :: "u32 \<Rightarrow> nat \<Rightarrow> u8 list" where
  "der_header tag n = der_tag tag @ der_length n"

definition der_element :: "u32 \<Rightarrow> u8 list \<Rightarrow> u8 list" where
  "der_element tag body = der_header tag (length body) @ body"

lemma unat_of_nat_small: "n < 2 ^ LENGTH('a) \<Longrightarrow> unat (of_nat n :: 'a::len word) = n"
  by (simp add: unat_of_nat)

text \<open>The element parser, once the tag and the first length byte are known, over \<open>nat\<close>.\<close>

lemma any_element_unfold:
  assumes cbs: "cbs = der_tag tag @ lb # h"
  shows "cbs_get_any_asn1_element ber_ok cbs =
    (let hl = length (der_tag tag) + 1; k = unat lb - 128; n = be_val (take k h) in
     if unat lb < 128 then rbind (CBS_get_bytes (unat lb + hl)) (\<lambda>out. rreturn (out, tag, hl)) cbs
     else if ber_ok \<and> tag AND CBS_ASN1_CONSTRUCTED \<noteq> 0 \<and> k = 0
     then rbind (CBS_get_bytes hl) (\<lambda>out. rreturn (out, tag, hl)) cbs
     else if k = 0 \<or> 4 < k \<or> length h < k \<or> n < 128 \<or> n < 256 ^ (k - 1) then (None, cbs)
     else rbind (CBS_get_bytes (n + (hl + k))) (\<lambda>out. rreturn (out, tag, hl + k)) cbs)"
proof -
  let ?hl = "length (der_tag tag) + 1"
  have hl: "?hl \<le> 7" using length_der_tag [of tag] by simp
  have lb: "unat lb < 256" by simp
  have short: "unat (ucast lb + of_nat ?hl :: size_t) = unat lb + ?hl"
  proof -
    have "unat (of_nat ?hl :: size_t) = ?hl" using hl by (intro unat_of_nat_small) simp
    moreover from this have "unat (ucast lb :: size_t) + unat (of_nat ?hl :: size_t) < 2 ^ 64"
      using lb hl by (simp del: unat_u8_less)
    ultimately show ?thesis using unat_add_lem [of "ucast lb :: size_t" "of_nat ?hl"] by simp
  qed
  have k: "unat (lb AND 0x7f) = unat lb - 128" if "128 \<le> unat lb"
    using that lb by (simp add: unat_and_7f le_mod_geq del: unat_u8_less)
  have long: "cbs_get_u k h =
      (if length h < k then (None, h) else (Some (of_nat (be_val (take k h))), drop k h))"
    if "k \<le> 4" for k
    using that cbs_get_u_append [of "take k h" "drop k h"]
    by (auto simp: cbs_get_u_def rbind_def cbs_get_def)
  have n: "be_val (take k h) < 2 ^ 32" if "k \<le> 4" for k
  proof -
    have "be_val (take k h) < 256 ^ length (take k h)" by (rule be_val_less)
    also have "(256::nat) ^ length (take k h) \<le> 256 ^ 4"
      using that by (intro power_increasing) auto
    finally show ?thesis by simp
  qed
  have word: "unat (of_nat (be_val (take k h)) :: u64) = be_val (take k h)" if "k \<le> 4" for k
    using n [OF that] by (intro unat_of_nat_small) simp
  have total: "unat (of_nat (be_val (take k h)) + of_nat (?hl + k) :: size_t)
      = be_val (take k h) + (?hl + k)" if "k \<le> 4" for k
  proof -
    have "unat (of_nat (?hl + k) :: size_t) = ?hl + k"
      using hl that by (intro unat_of_nat_small) simp
    moreover from this have "unat (of_nat (be_val (take k h)) :: size_t)
        + unat (of_nat (?hl + k) :: size_t) < 2 ^ 64"
      using n [OF that] hl that by (simp add: word)
    ultimately show ?thesis
      using unat_add_lem [of "of_nat (be_val (take k h)) :: size_t" "of_nat (?hl + k)"] word [OF that]
      by simp
  qed
  have no_wrap: "\<not> (of_nat (be_val (take k h)) + of_nat (?hl + k) < (of_nat (be_val (take k h)) :: size_t))"
    if "k \<le> 4" for k
    using total [OF that] word [OF that] by (simp add: word_less_nat_alt)
  have top: "drop_bit ((k - 1) * 8) (of_nat (be_val (take k h)) :: u64) = 0 \<longleftrightarrow>
      be_val (take k h) < 256 ^ (k - 1)" if "k \<le> 4" for k
    by (simp only: drop_bit_eq_0_iff_less word [OF that] mult.commute [of _ 8] power_mult) simp
  have lt: "(of_nat (be_val (take k h)) :: u64) < 128 \<longleftrightarrow> be_val (take k h) < 128" if "k \<le> 4" for k
    by (simp only: word_less_nat_alt word [OF that]) simp
  have tag: "parse_asn1_tag cbs = (Some tag, lb # h)"
    by (simp add: cbs parse_asn1_tag_der_tag)
  have len: "CBS_len cbs - CBS_len h = ?hl"
    by (simp add: cbs CBS_len_def)
  show ?thesis
  proof (cases "unat lb < 128")
    case True
    then have "lb AND 0x80 = 0" by (simp add: and_80_eq_0_iff)
    then show ?thesis
      unfolding cbs_get_any_asn1_element_def
      by (simp add: tag Let_def len short True del: One_nat_def)
  next
    case False
    then have hi: "\<not> lb AND 0x80 = 0" by (simp add: and_80_eq_0_iff)
    define k where "k = unat lb - 128"
    have kk: "unat (lb AND 0x7f) = k" using k False by (simp add: k_def)
    show ?thesis
    proof (cases "k \<le> 4")
      case True
      note facts = long [OF True] total [OF True] no_wrap [OF True] top [OF True] lt [OF True]
      show ?thesis
        unfolding cbs_get_any_asn1_element_def
        by (simp add: tag Let_def len hi False kk facts k_def [symmetric] True ucast_id
            del: One_nat_def of_nat_diff)
    next
      case large: False
      then show ?thesis
        unfolding cbs_get_any_asn1_element_def
        by (simp add: tag Let_def len hi False kk k_def [symmetric] del: One_nat_def)
    qed
  qed
qed

lemma any_element_der_element:
  assumes "length body < 2 ^ 32"
  shows "cbs_get_any_asn1_element ber_ok (der_element tag body @ rest) =
    (Some (der_element tag body, tag, length (der_header tag (length body))), rest)"
proof (cases "length body < 128")
  case True
  let ?b = "of_nat (length body) :: u8"
  have b: "unat ?b = length body" using True by simp
  have cbs: "der_element tag body @ rest = der_tag tag @ ?b # (body @ rest)"
    using True by (simp add: der_element_def der_header_def der_length_def)
  have "CBS_get_bytes (length body + Suc (length (der_tag tag))) (der_element tag body @ rest)
      = (Some (der_element tag body), rest)"
    using True by (intro CBS_get_bytes_append) (simp add: der_element_def der_header_def der_length_def)
  then show ?thesis
    using True
    by (subst any_element_unfold [OF cbs])
      (simp add: b Let_def rbind_def rreturn_def der_header_def der_length_def)
next
  case False
  let ?n = "length body" let ?k = "byte_len (length body)" let ?b = "of_nat (128 + ?k) :: u8"
  have k4: "?k \<le> 4" using assms by (simp add: byte_len_le_iff)
  have k0: "0 < ?k" using False byte_len_le_iff [of ?n 0] by (cases ?k) auto
  have b: "unat ?b = 128 + ?k" using k4 by (subst unat_of_nat_u8) simp
  have cbs: "der_element tag body @ rest = der_tag tag @ ?b # (be_bytes ?k ?n @ body @ rest)"
    using False by (simp add: der_element_def der_header_def der_length_def)
  have n: "?n < 256 ^ ?k" using byte_len_le_iff [of ?n ?k] by simp
  have top: "\<not> ?n < 256 ^ (?k - 1)" using byte_len_le_iff [of ?n "?k - 1"] k0 by linarith
  have "CBS_get_bytes (?n + (Suc (length (der_tag tag)) + ?k)) (der_element tag body @ rest)
      = (Some (der_element tag body), rest)"
    using False by (intro CBS_get_bytes_append) (simp add: der_element_def der_header_def der_length_def)
  then show ?thesis
    using False k0 k4 top n
    by (subst any_element_unfold [OF cbs])
      (simp add: b Let_def rbind_def rreturn_def der_header_def der_length_def be_val_be_bytes)
qed

lemma any_element_header:
  assumes "cbs_get_any_asn1_element ber_ok cbs = (Some (el, tag, hl), rest)"
  obtains lb h where "cbs = der_tag tag @ lb # h"
proof -
  from assms obtain tag' h' where p: "parse_asn1_tag cbs = (Some tag', h')"
    unfolding cbs_get_any_asn1_element_def by (auto split: prod.splits option.splits)
  with assms obtain lb h where h: "h' = lb # h"
    unfolding cbs_get_any_asn1_element_def by (cases h') auto
  have cbs: "cbs = der_tag tag' @ lb # h" using parse_asn1_tag_Some [OF p] h by simp
  have "tag = tag'"
    using assms unfolding any_element_unfold [OF cbs]
    by (auto simp: Let_def rbind_Some_iff rreturn_def split: if_splits)
  with cbs that show ?thesis by simp
qed

lemma any_element_Some:
  assumes "cbs_get_any_asn1_element False cbs = (Some (el, tag, hl), rest)"
  obtains body where "length body < 2 ^ 32" "el = der_element tag body" "cbs = el @ rest"
    "hl = length (der_header tag (length body))"
proof -
  obtain lb h where cbs: "cbs = der_tag tag @ lb # h" using any_element_header [OF assms] .
  let ?hl = "length (der_tag tag) + 1" let ?k = "unat lb - 128" let ?n = "be_val (take ?k h)"
  have lb: "of_nat (unat lb) = lb" by simp
  show thesis
  proof (cases "unat lb < 128")
    case True
    with assms have e: "length el = unat lb + ?hl" "cbs = el @ rest" "hl = ?hl"
      unfolding any_element_unfold [OF cbs]
      by (auto simp: Let_def rbind_Some_iff rreturn_def CBS_get_bytes_Some_iff)
    define body where "body = drop ?hl el"
    have len: "length body = unat lb" using e by (simp add: body_def)
    have "take ?hl el = take ?hl cbs" using e(1,2) by simp
    also have "\<dots> = der_header tag (length body)"
      using True by (simp add: cbs der_header_def der_length_def len)
    finally have "el = der_element tag body"
      unfolding der_element_def body_def by (metis append_take_drop_id)
    then show thesis using that [of body] e(2,3) True len
      by (simp add: der_header_def der_length_def)
  next
    case False
    with assms have k: "0 < ?k" "?k \<le> 4" "?k \<le> length h" "128 \<le> ?n" "256 ^ (?k - 1) \<le> ?n"
      and e: "length el = ?n + (?hl + ?k)" "cbs = el @ rest" "hl = ?hl + ?k"
      unfolding any_element_unfold [OF cbs]
      by (auto simp: Let_def rbind_Some_iff rreturn_def CBS_get_bytes_Some_iff not_less
          split: if_splits)
    define body where "body = drop (?hl + ?k) el"
    have len: "length body = ?n" using e by (simp add: body_def)
    have n: "?n < 256 ^ ?k" using be_val_less [of "take ?k h"] k(3) by simp
    also have "(256::nat) ^ ?k \<le> 256 ^ 4" using k(2) by (intro power_increasing) auto
    finally have n32: "?n < 2 ^ 32" by simp
    have bl: "byte_len ?n = ?k" using byte_len_eqI [OF k(1,5) n] .
    have tk: "be_bytes ?k ?n = take ?k h" using be_bytes_be_val [of "take ?k h"] k(3) by simp
    have "take (?hl + ?k) el = take (?hl + ?k) cbs" using e(1,2) by simp
    also have "\<dots> = der_tag tag @ lb # take ?k h" by (simp add: cbs)
    also have "\<dots> = der_header tag (length body)"
      using k False by (simp add: der_header_def der_length_def len bl tk)
    finally have "el = der_element tag body"
      unfolding der_element_def body_def by (metis append_take_drop_id)
    then show thesis using that [of body] e(2,3) n32 len bl k
      by (simp add: der_header_def der_length_def)
  qed
qed

lemma any_element_None: "cbs_get_any_asn1_element ber_ok cbs = (None, rest) \<Longrightarrow> rest = cbs"
  unfolding cbs_get_any_asn1_element_def
  by (auto simp: Let_def rbind_def rreturn_def CBS_get_bytes_None
      split: prod.splits option.splits if_splits)

section \<open>The element readers as codecs\<close>

lemma CBS_skip_header:
  "hl = length (der_header tag (length body)) \<Longrightarrow> CBS_skip hl (der_element tag body) = (Some (), body)"
  by (simp add: der_element_def)

lemma der_element_nonempty [simp]: "der_element tag body \<noteq> []"
  using der_tag.enc_nonempty [of tag] by (simp add: der_element_def der_header_def)

interpretation any_element: progressive_codec
  "\<lambda>(el, tag, hl). el" CBS_get_any_asn1_element
  "\<lambda>(el, tag, hl). \<exists>body. length body < 2 ^ 32 \<and> el = der_element tag body \<and>
     hl = length (der_header tag (length body))"
  unfolding CBS_get_any_asn1_element_def
  by unfold_locales (auto simp: any_element_der_element elim!: any_element_Some)

interpretation any_asn1: progressive_codec
  "\<lambda>(body, tag). der_element tag body" CBS_get_any_asn1 "\<lambda>(body, tag). length body < 2 ^ 32"
proof unfold_locales
  fix x :: "cbs \<times> u32" and rest
  assume "case x of (body, tag) \<Rightarrow> length body < 2 ^ 32"
  then show "CBS_get_any_asn1 ((case x of (body, tag) \<Rightarrow> der_element tag body) @ rest) = (Some x, rest)"
    by (cases x)
      (simp add: CBS_get_any_asn1_def CBS_get_any_asn1_element_def rbind_def
        any_element_der_element CBS_skip_header rreturn_def)
next
  fix x :: "cbs \<times> u32" and bs rest
  assume "CBS_get_any_asn1 bs = (Some x, rest)"
  then obtain out tag hl mid where el: "CBS_get_any_asn1_element bs = (Some (out, tag, hl), mid)"
    and skip: "(case CBS_skip hl out of (None, _) \<Rightarrow> rfail | (Some _, out) \<Rightarrow> rreturn (out, tag)) mid
      = (Some x, rest)"
    by (auto simp: CBS_get_any_asn1_def rbind_Some_iff)
  from any_element.dec_Some [OF el] obtain body where "length body < 2 ^ 32"
    "out = der_element tag body" "hl = length (der_header tag (length body))" "bs = out @ mid"
    by auto
  with skip show "(case x of (body, tag) \<Rightarrow> length body < 2 ^ 32) \<and>
      bs = (case x of (body, tag) \<Rightarrow> der_element tag body) @ rest"
    by (auto simp: CBS_skip_header rreturn_def)
qed auto

lemma cbs_get_asn1_Some_iff:
  "cbs_get_asn1 tag skip bs = (Some out, rest) \<longleftrightarrow>
     (\<exists>body. length body < 2 ^ 32 \<and> bs = der_element tag body @ rest \<and>
        out = (if skip then body else der_element tag body))"
    (is "?l \<longleftrightarrow> ?r")
proof
  assume ?l
  then obtain el tag' hl mid where el: "CBS_get_any_asn1_element bs = (Some (el, tag', hl), mid)"
    and k: "(if tag' \<noteq> tag then rfail else if skip
      then case CBS_skip hl el of (None, _) \<Rightarrow> rfail | (Some _, out) \<Rightarrow> rreturn out
      else rreturn el) mid = (Some out, rest)"
    by (auto simp: cbs_get_asn1_def rbind_Some_iff)
  from any_element.dec_Some [OF el] obtain body where "length body < 2 ^ 32"
    "el = der_element tag' body" "hl = length (der_header tag' (length body))" "bs = el @ mid"
    by auto
  with k show ?r by (auto simp: CBS_skip_header rreturn_def rfail_def split: if_splits)
next
  assume ?r
  then show ?l
    by (auto simp: cbs_get_asn1_def CBS_get_any_asn1_element_def rbind_def any_element_der_element
        CBS_skip_header rreturn_def)
qed

interpretation asn1: progressive_codec
  "der_element tag" "CBS_get_asn1 tag" "\<lambda>body. length body < 2 ^ 32" for tag
  by unfold_locales (auto simp: CBS_get_asn1_def cbs_get_asn1_Some_iff)

text \<open>A peek that succeeds is exactly a tag that the next element starts with.\<close>

lemma CBS_peek_asn1_tag_iff: "CBS_peek_asn1_tag cbs tag \<longleftrightarrow> (\<exists>rest. cbs = der_tag tag @ rest)"
proof
  assume "CBS_peek_asn1_tag cbs tag"
  then obtain rest where "parse_asn1_tag cbs = (Some tag, rest)"
    by (auto simp: CBS_peek_asn1_tag_def split: if_splits prod.splits option.splits)
  then show "\<exists>rest. cbs = der_tag tag @ rest" using parse_asn1_tag_Some by blast
next
  assume "\<exists>rest. cbs = der_tag tag @ rest"
  then obtain rest where cbs: "cbs = der_tag tag @ rest" by blast
  moreover have "parse_asn1_tag cbs = (Some tag, rest)"
    unfolding cbs by (rule parse_asn1_tag_der_tag)
  ultimately show "CBS_peek_asn1_tag cbs tag"
    using der_tag.enc_nonempty [of tag] by (cases "der_tag tag") (auto simp: CBS_peek_asn1_tag_def CBS_len_def)
qed

end
