(* ===== verification/Der_Values.thy ===== *)
theory Der_Values
  imports Der
begin

text \<open>
  DER values: the minimal two's complement encodings of INTEGER, BOOLEAN, and the proofs that
  \<open>CBS_get_asn1_uint64\<close>, \<open>CBS_get_asn1_int64\<close> and \<open>CBS_get_asn1_bool\<close> accept exactly them.
\<close>

unbundle bit_operations_syntax

declare of_nat_add [simp del] of_nat_mult [simp del] push_bit_and [simp del]

section \<open>Minimal encodings\<close>

text \<open>Bytes needed for a magnitude \<open>m\<close> and a sign bit, at least one.\<close>

definition signed_len :: "nat \<Rightarrow> nat" where
  "signed_len m = max 1 (byte_len (2 * m))"

definition der_uint :: "nat \<Rightarrow> u8 list" where
  "der_uint n = be_bytes (signed_len n) n"

definition int_magnitude :: "int \<Rightarrow> nat" where
  "int_magnitude i = nat (if 0 \<le> i then i else - i - 1)"

definition der_int :: "int \<Rightarrow> u8 list" where
  "der_int i = (let k = signed_len (int_magnitude i) in be_bytes k (nat (i mod 256 ^ k)))"

lemma signed_len_eq_iff:
  assumes "0 < k"
  shows "signed_len m = k \<longleftrightarrow> 2 * m < 256 ^ k \<and> (1 < k \<longrightarrow> 256 ^ (k - 1) \<le> 2 * m)"
  using assms byte_len_le_iff [of "2 * m" k] byte_len_le_iff [of "2 * m" "k - 1"]
  by (auto simp: signed_len_def)

text \<open>
  The two tests of the C code on the leading bytes (no sign bit, no redundant leading zero) say
  that the length is minimal.
\<close>

lemma minimal_unsigned_iff:
  assumes "data \<noteq> []"
  shows "unat (data ! 0) < 128 \<and> \<not> (data ! 0 = 0 \<and> 1 < length data \<and> unat (data ! 1) < 128)
    \<longleftrightarrow> signed_len (be_val data) = length data"
proof -
  from assms obtain a ds where data: "data = a # ds" by (cases data) auto
  have a0: "a = 0 \<longleftrightarrow> unat a = 0" by (simp add: unat_eq_zero)
  show ?thesis
  proof (cases ds)
    case Nil
    then show ?thesis using signed_len_eq_iff [of 1 "unat a"] by (auto simp: data)
  next
    case (Cons b es)
    let ?p = "256 ^ length es :: nat"
    have v: "be_val data = (unat a * 256 + unat b) * ?p + be_val es"
      by (simp add: data Cons be_val_Cons algebra_simps)
    have es: "be_val es < ?p" by (rule be_val_less)
    have len: "length data = Suc (Suc (length es))" by (simp add: data Cons)
    have hi: "2 * be_val data < 256 ^ length data \<longleftrightarrow> unat a < 128"
    proof
      assume "unat a < 128"
      then have "unat a * 256 + unat b + 1 \<le> 32768" using unat_u8_less [of b] by linarith
      then have "(unat a * 256 + unat b + 1) * ?p \<le> 32768 * ?p" by (rule mult_le_mono1)
      then show "2 * be_val data < 256 ^ length data" using es by (simp add: v len algebra_simps)
    next
      assume l: "2 * be_val data < 256 ^ length data"
      show "unat a < 128"
      proof (rule ccontr)
        assume "\<not> unat a < 128"
        then have "32768 * ?p \<le> (unat a * 256 + unat b) * ?p" by (intro mult_le_mono1) simp
        with l show False by (simp add: v len)
      qed
    qed
    have lo: "256 ^ (length data - 1) \<le> 2 * be_val data \<longleftrightarrow> \<not> (unat a = 0 \<and> unat b < 128)"
    proof
      assume l: "256 ^ (length data - 1) \<le> 2 * be_val data"
      show "\<not> (unat a = 0 \<and> unat b < 128)"
      proof
        assume ab: "unat a = 0 \<and> unat b < 128"
        then have "(unat b + 1) * ?p \<le> 128 * ?p" by (intro mult_le_mono1) simp
        then have "unat b * ?p + ?p \<le> 128 * ?p" by simp
        moreover have "256 * ?p \<le> 2 * (unat b * ?p) + 2 * be_val es"
          using l ab by (simp add: v len)
        ultimately show False using es by linarith
      qed
    next
      assume "\<not> (unat a = 0 \<and> unat b < 128)"
      then have "128 \<le> unat a * 256 + unat b" by linarith
      then have "128 * ?p \<le> (unat a * 256 + unat b) * ?p" by (rule mult_le_mono1)
      then have "256 * ?p \<le> 2 * ((unat a * 256 + unat b) * ?p)" by linarith
      then show "256 ^ (length data - 1) \<le> 2 * be_val data"
        unfolding v len by (simp add: trans_le_add1)
    qed
    have n: "data ! 0 = a" "data ! 1 = b" "0 < length data" "1 < length data"
      by (simp_all add: data Cons)
    show ?thesis
      unfolding signed_len_eq_iff [OF n(3)] hi lo n(1,2) a0 using n(4) by blast
  qed
qed

section \<open>INTEGER as uint64\<close>

lemma asn1_uint64_loop_eq:
  "u < 2 ^ 64 \<Longrightarrow> asn1_uint64_loop (of_nat u) ds =
    (let v = u * 256 ^ length ds + be_val ds in if v < 2 ^ 64 then Some (of_nat v) else None)"
proof (induction ds arbitrary: u)
  case (Cons d ds)
  have u: "unat (of_nat u :: u64) = u" using Cons.prems by (intro unat_of_nat_small) simp
  then have hd: "drop_bit 56 (of_nat u :: u64) = 0 \<longleftrightarrow> u < 2 ^ 56"
    by (simp add: drop_bit_eq_0_iff_less)
  show ?case
  proof (cases "u < 2 ^ 56")
    case True
    let ?w = "push_bit 8 (of_nat u) OR ucast d :: u64"
    have "unat ?w = u * 256 + unat d"
      using True by (subst unat_push_or) (simp_all add: u)
    then have w: "?w = of_nat (u * 256 + unat d)" by (metis of_nat_unat ucast_id)
    have "u * 256 + unat d < 2 ^ 64" using True unat_u8_less [of d] by (simp del: unat_u8_less)
    from Cons.IH [OF this] show ?thesis
      using hd True by (simp add: w be_val_Cons Let_def algebra_simps)
  next
    case False
    then have "2 ^ 56 * 256 ^ Suc (length ds) \<le> u * 256 ^ Suc (length ds)"
      by (intro mult_le_mono1) simp
    moreover have "(2::nat) ^ 64 \<le> 2 ^ 56 * 256 ^ Suc (length ds)" by simp
    ultimately have "\<not> u * 256 ^ Suc (length ds) + be_val (d # ds) < 2 ^ 64" by linarith
    with hd False show ?thesis by (simp add: Let_def)
  qed
qed simp

lemma asn1_uint64_loop_Some_iff: "asn1_uint64_loop 0 ds = Some v \<longleftrightarrow> unat v = be_val ds"
proof -
  have eq: "asn1_uint64_loop 0 ds = (if be_val ds < 2 ^ 64 then Some (of_nat (be_val ds)) else None)"
    using asn1_uint64_loop_eq [of 0 ds] by (simp add: Let_def)
  have v: "unat v < 2 ^ 64" using unsigned_less [of v] by simp
  show ?thesis
  proof
    assume "asn1_uint64_loop 0 ds = Some v"
    then show "unat v = be_val ds"
      unfolding eq by (auto simp: unat_of_nat split: if_splits)
  next
    assume "unat v = be_val ds"
    then show "asn1_uint64_loop 0 ds = Some v"
      unfolding eq using v by (metis of_nat_unat ucast_id)
  qed
qed

lemma signed_len_pos [simp]: "0 < signed_len m"
  by (simp add: signed_len_def)

lemma der_uint_nonempty [simp]: "der_uint n \<noteq> []"
  using length_be_bytes [of "signed_len n" n] by (metis der_uint_def length_0_conv less_numeral_extra(3) signed_len_pos)

lemma be_val_der_uint: "be_val (der_uint n) = n"
  using signed_len_eq_iff [of "signed_len n" n] by (simp add: der_uint_def be_val_be_bytes)

lemma length_der_uint: "length (der_uint n) = signed_len n"
  by (simp add: der_uint_def)

lemma signed_len_64: "n < 2 ^ 64 \<Longrightarrow> signed_len n \<le> 9"
  using byte_len_le_iff [of "2 * n" 9] by (simp add: signed_len_def)

text \<open>The checks of the code on the contents of an INTEGER, as one statement.\<close>

lemma uint64_contents_iff:
  "(data \<noteq> [] \<and> data ! 0 AND 0x80 = 0 \<and> \<not> (data ! 0 = 0 \<and> 1 < length data \<and> data ! 1 AND 0x80 = 0) \<and>
     asn1_uint64_loop 0 data = Some v) \<longleftrightarrow> data = der_uint (unat v)"
    (is "?l \<longleftrightarrow> ?r")
proof
  assume ?l
  then have "signed_len (be_val data) = length data" and v: "unat v = be_val data"
    using minimal_unsigned_iff [of data] by (auto simp: and_80_eq_0_iff asn1_uint64_loop_Some_iff)
  then show ?r using be_bytes_be_val [of data] by (simp add: der_uint_def)
next
  assume r: ?r
  then have "signed_len (be_val data) = length data" by (simp add: be_val_der_uint length_der_uint)
  with r show ?l
    using minimal_unsigned_iff [of data]
    by (auto simp: and_80_eq_0_iff asn1_uint64_loop_Some_iff be_val_der_uint)
qed

lemma checked_contents_iff:
  "(if data = [] then rfail else if A then rfail else if B then rfail
    else case L of None \<Rightarrow> rfail | Some out \<Rightarrow> rreturn out) mid = (Some v, rest) \<longleftrightarrow>
   mid = rest \<and> (data \<noteq> [] \<and> \<not> A \<and> \<not> B \<and> L = Some v)"
  by (auto simp: rfail_def rreturn_def split: option.splits)

lemma CBS_get_asn1_uint64_Some_iff:
  "CBS_get_asn1_uint64 bs = (Some v, rest) \<longleftrightarrow>
     bs = der_element CBS_ASN1_INTEGER (der_uint (unat v)) @ rest"
proof -
  have "CBS_get_asn1_uint64 bs = (Some v, rest) \<longleftrightarrow>
    (\<exists>data. CBS_get_asn1 CBS_ASN1_INTEGER bs = (Some data, rest) \<and> data = der_uint (unat v))"
    unfolding CBS_get_asn1_uint64_def rbind_Some_iff Let_def CBS_len_def length_0_conv
      checked_contents_iff not_not uint64_contents_iff by blast
  also have "\<dots> \<longleftrightarrow> bs = der_element CBS_ASN1_INTEGER (der_uint (unat v)) @ rest"
  proof -
    have "unat v < 2 ^ 64" using unsigned_less [of v] by simp
    then have "signed_len (unat v) \<le> 9" by (rule signed_len_64)
    then show ?thesis by (auto simp: asn1.dec_iff length_der_uint)
  qed
  finally show ?thesis .
qed

interpretation asn1_uint64: progressive_codec
  "\<lambda>v :: u64. der_element CBS_ASN1_INTEGER (der_uint (unat v))" CBS_get_asn1_uint64 "\<lambda>_. True"
  by unfold_locales (auto simp: CBS_get_asn1_uint64_Some_iff)

section \<open>INTEGER as int64\<close>

lemma fold_reverse_fill:
  "n \<le> length data \<Longrightarrow> n \<le> length u \<Longrightarrow>
   fold (\<lambda>i u. u[i := data ! (length data - i - 1)]) [0..<n] u = take n (rev data) @ drop n u"
proof (induction n)
  case (Suc n)
  then have "fold (\<lambda>i u. u[i := data ! (length data - i - 1)]) [0..<Suc n] u
      = (take n (rev data) @ drop n u)[n := data ! (length data - n - 1)]"
    by simp
  also have "\<dots> = take n (rev data) @ (drop n u)[0 := rev data ! n]"
    using Suc.prems by (simp add: list_update_append rev_nth)
  also have "\<dots> = take (Suc n) (rev data) @ drop (Suc n) u"
    using Suc.prems by (simp add: take_Suc_conv_app_nth Cons_nth_drop_Suc [symmetric])
  finally show ?case .
qed simp

lemma be_val_replicate_0: "be_val (replicate k 0) = 0"
  by (induction k) (simp_all add: be_val_Cons)

lemma be_val_replicate_ff: "be_val (replicate k 0xff) = 256 ^ k - 1"
proof (induction k)
  case (Suc k)
  have "1 \<le> (256::nat) ^ k" by simp
  with Suc show ?case by (simp add: be_val_Cons)
qed simp

text \<open>The two's complement value of a big-endian byte string.\<close>

definition be_sval :: "u8 list \<Rightarrow> int" where
  "be_sval data = int (be_val data) -
     (if data \<noteq> [] \<and> 128 \<le> unat (data ! 0) then 256 ^ length data else 0)"

lemma be_val_first_byte:
  assumes "data \<noteq> []"
  shows "128 \<le> unat (data ! 0) \<longleftrightarrow> 256 ^ length data \<le> 2 * be_val data"
proof -
  from assms obtain a ds where data: "data = a # ds" by (cases data) auto
  let ?p = "256 ^ length ds :: nat"
  have ds: "be_val ds < ?p" by (rule be_val_less)
  have v: "be_val data = unat a * ?p + be_val ds" by (simp add: data be_val_Cons)
  have "256 * ?p \<le> 2 * (unat a * ?p) + 2 * be_val ds \<longleftrightarrow> 128 \<le> unat a"
  proof
    assume l: "256 * ?p \<le> 2 * (unat a * ?p) + 2 * be_val ds"
    show "128 \<le> unat a"
    proof (rule ccontr)
      assume "\<not> 128 \<le> unat a"
      then have "(unat a + 1) * ?p \<le> 128 * ?p" by (intro mult_le_mono1) simp
      then have "unat a * ?p + ?p \<le> 128 * ?p" by simp
      with l ds show False by linarith
    qed
  next
    assume "128 \<le> unat a"
    then have "128 * ?p \<le> unat a * ?p" by (rule mult_le_mono1)
    then show "256 * ?p \<le> 2 * (unat a * ?p) + 2 * be_val ds" by linarith
  qed
  then show ?thesis by (simp add: data v [unfolded data] algebra_simps)
qed

lemma sint_of_nat_64:
  "sint (of_nat n :: u64) = (if n < 2 ^ 63 then int n else int n - 2 ^ 64)" if "n < 2 ^ 64"
proof -
  have "sint (of_nat n :: u64) = signed_take_bit 63 (int n)"
    by (simp add: signed_of_nat)
  also have "\<dots> = (if n < 2 ^ 63 then int n else int n - 2 ^ 64)"
  proof (cases "n < 2 ^ 63")
    case True
    then show ?thesis by (intro trans [OF signed_take_bit_int_eq_self]) auto
  next
    case False
    have "signed_take_bit 63 (int n) = signed_take_bit 63 (int n - 2 ^ 64)"
      by (rule signed_take_bit_eq_iff_take_bit_eq [THEN iffD2])
        (simp add: take_bit_eq_mod mod_diff_right_eq [symmetric])
    also have "\<dots> = int n - 2 ^ 64"
      using False that by (intro signed_take_bit_int_eq_self) auto
    finally show ?thesis using False by simp
  qed
  finally show ?thesis .
qed

text \<open>The union of the C code computes the two's complement value.\<close>

lemma le_union_sint:
  assumes "data \<noteq> []" "length data \<le> 8"
  shows "sint (le_union_i64 (fold (\<lambda>i u. u[i := data ! (length data - i - 1)]) [0..<length data]
      (replicate 8 (if data ! 0 AND 0x80 \<noteq> 0 then 0xff else 0)))) = be_sval data"
proof -
  let ?k = "8 - length data" let ?v = "be_val data" let ?p = "256 ^ length data :: nat"
  let ?f = "if data ! 0 AND 0x80 \<noteq> 0 then 0xff else 0 :: u8"
  have u: "fold (\<lambda>i u. u[i := data ! (length data - i - 1)]) [0..<length data] (replicate 8 ?f)
      = rev data @ replicate ?k ?f"
    using assms(2) fold_reverse_fill [of "length data" data "replicate 8 ?f"] by simp
  have v: "?v < ?p" by (rule be_val_less)
  have pk: "256 ^ ?k * ?p = 2 ^ 64"
    using assms(2) by (simp flip: power_add)
  have neg: "data ! 0 AND 0x80 \<noteq> 0 \<longleftrightarrow> ?p \<le> 2 * ?v"
    using be_val_first_byte [OF assms(1)] by (simp add: and_80_eq_0_iff not_less)
  have k1: "1 \<le> (256::nat) ^ ?k" by simp
  show ?thesis
  proof (cases "?p \<le> 2 * ?v")
    case True
    have "?p \<le> 256 ^ 8" using assms(2) by (intro power_increasing) auto
    then have p64: "?p \<le> 2 ^ 64" by simp
    have f: "?f = 0xff" using True neg by simp
    have be: "be_val (replicate ?k 0xff @ data) = 2 ^ 64 - ?p + ?v"
      using pk k1
      by (simp add: be_val_append be_val_replicate_ff diff_mult_distrib)
    have "\<not> 2 ^ 64 - ?p + ?v < 2 ^ 63"
    proof
      assume "2 ^ 64 - ?p + ?v < 2 ^ 63"
      then have "2 * (2 ^ 64 - ?p) + 2 * ?v < 2 ^ 64" by simp
      then show False using True p64 by linarith
    qed
    moreover have "2 ^ 64 - ?p + ?v < 2 ^ 64" using v p64 by linarith
    ultimately have "sint (of_nat (2 ^ 64 - ?p + ?v) :: u64) = int (2 ^ 64 - ?p + ?v) - 2 ^ 64"
      by (simp only: sint_of_nat_64 if_False)
    also have "int (2 ^ 64 - ?p + ?v) = 2 ^ 64 - int ?p + int ?v"
      using p64 by (simp add: of_nat_add of_nat_diff)
    finally show ?thesis
      using True assms(1) unfolding u unfolding le_union_i64_def f rev_append rev_rev_ident
        rev_replicate be by (simp add: be_sval_def be_val_first_byte)
  next
    case False
    have f: "?f = 0" using False neg by simp
    have be: "be_val (replicate ?k 0 @ data) = ?v"
      by (simp add: be_val_append be_val_replicate_0)
    have "2 * ?v < 2 ^ 64"
    proof -
      have "?p \<le> 256 ^ 8" using assms(2) by (intro power_increasing) auto
      then show ?thesis using False by simp
    qed
    then show ?thesis
      using False assms(1) unfolding u unfolding le_union_i64_def f
      by (simp add: be sint_of_nat_64 be_sval_def be_val_first_byte)
  qed
qed

lemma unat_not_u8: "unat (NOT (b :: u8)) = 255 - unat b"
  by (rule all_u8) code_simp

lemma be_val_complement: "be_val (map NOT data) + be_val data + 1 = 256 ^ length data"
proof (induction data)
  case (Cons b bs)
  have "unat (NOT b) + unat b = 255" using unat_u8_less [of b] by (simp add: unat_not_u8 del: unat_u8_less)
  then have "(unat (NOT b) + unat b) * 256 ^ length bs = 255 * 256 ^ length bs" by simp
  with Cons show ?case by (simp add: be_val_Cons algebra_simps)
qed simp

lemma minimal_signed_iff:
  assumes "data \<noteq> []"
  shows "\<not> (1 < length data \<and> data ! 0 = 0 \<and> unat (data ! 1) < 128) \<and>
      \<not> (1 < length data \<and> data ! 0 = 0xff \<and> \<not> unat (data ! 1) < 128)
    \<longleftrightarrow> signed_len (int_magnitude (be_sval data)) = length data"
proof (cases "unat (data ! 0) < 128")
  case True
  then have ne: "data ! 0 \<noteq> 0xff" by (auto simp: word_unat_eq_iff)
  have "int_magnitude (be_sval data) = be_val data"
    using True by (simp add: be_sval_def int_magnitude_def)
  then show ?thesis
    using minimal_unsigned_iff [OF assms] True ne by auto
next
  case False
  let ?c = "map NOT data"
  have c0: "unat (?c ! 0) < 128" "?c ! 0 = 0 \<longleftrightarrow> data ! 0 = 0xff"
    using False assms unat_u8_less [of "data ! 0"]
    by (auto simp: unat_not_u8 word_unat_eq_iff simp del: unat_u8_less)
  have c1: "1 < length data \<Longrightarrow> unat (?c ! 1) < 128 \<longleftrightarrow> \<not> unat (data ! 1) < 128"
    using unat_u8_less [of "data ! 1"] by (auto simp: unat_not_u8 simp del: unat_u8_less)
  have ne: "data ! 0 \<noteq> 0" using False by auto
  have "int (be_val ?c) + int (be_val data) + 1 = 256 ^ length data"
    using be_val_complement [of data] by (metis of_nat_add of_nat_1 of_nat_power of_nat_numeral)
  then have "be_sval data = - int (be_val ?c) - 1"
    using False assms by (simp add: be_sval_def)
  then have "int_magnitude (be_sval data) = be_val ?c" by (simp add: int_magnitude_def)
  then show ?thesis
    using minimal_unsigned_iff [of ?c] assms c0 c1 ne by auto
qed

lemma be_sval_mod: "nat (be_sval data mod 256 ^ length data) = be_val data"
proof -
  have "be_sval data mod 256 ^ length data = int (be_val data) mod 256 ^ length data"
    by (simp add: be_sval_def)
  also have "\<dots> = int (be_val data mod 256 ^ length data)"
    by (simp add: of_nat_mod)
  finally show ?thesis using be_val_less [of data] by simp
qed

lemma der_int_be_sval:
  assumes "signed_len (int_magnitude (be_sval data)) = length data"
  shows "der_int (be_sval data) = data"
  by (simp add: der_int_def Let_def assms be_sval_mod be_bytes_be_val)

lemma length_der_int: "length (der_int i) = signed_len (int_magnitude i)"
  by (simp add: der_int_def Let_def)

lemma der_int_nonempty [simp]: "der_int i \<noteq> []"
  using length_der_int [of i] signed_len_pos [of "int_magnitude i"] by fastforce

lemma be_sval_der_int: "be_sval (der_int i) = i"
proof -
  let ?k = "signed_len (int_magnitude i)"
  let ?p = "256 ^ ?k :: nat"
  have m: "2 * int_magnitude i < ?p"
    using signed_len_eq_iff [of ?k "int_magnitude i"] by simp
  then have mi: "2 * int (int_magnitude i) < 256 ^ ?k"
    by (metis of_nat_less_iff of_nat_mult of_nat_numeral of_nat_power)
  have v: "int (be_val (der_int i)) = i mod 256 ^ ?k"
    by (simp add: der_int_def Let_def be_val_be_bytes nat_mod_as_int of_nat_power)
  have top: "128 \<le> unat (der_int i ! 0) \<longleftrightarrow> 256 ^ ?k \<le> 2 * (i mod 256 ^ ?k)"
    using be_val_first_byte [of "der_int i"] v
    by (simp add: length_der_int)
      (metis of_nat_le_iff of_nat_mult of_nat_numeral of_nat_power)
  show ?thesis
  proof (cases "0 \<le> i")
    case True
    then have "i mod 256 ^ ?k = i" using mi by (intro mod_pos_pos_trivial) (simp_all add: int_magnitude_def)
    with True mi top v show ?thesis by (simp add: be_sval_def length_der_int int_magnitude_def)
  next
    case False
    have "(i + 256 ^ ?k) mod 256 ^ ?k = i + 256 ^ ?k"
      using False mi by (intro mod_pos_pos_trivial) (simp_all add: int_magnitude_def)
    then have i: "i mod 256 ^ ?k = i + 256 ^ ?k" by simp
    have "even (256 ^ ?k :: int)" by simp
    then obtain q :: int where q: "256 ^ ?k = 2 * q" by (rule dvdE)
    have "- (2 * i) - 2 < 2 * q" using mi False unfolding q by (simp add: int_magnitude_def)
    then have "- i \<le> q" by linarith
    then have "256 ^ ?k \<le> 2 * (i mod 256 ^ ?k)" unfolding i unfolding q by (simp add: algebra_simps)
    with False i top v show ?thesis by (simp add: be_sval_def length_der_int int_magnitude_def)
  qed
qed

lemma int_magnitude_i64: "int_magnitude (sint (v :: u64)) < 2 ^ 63"
  using sint_greater_eq [of v] sint_less [of v] by (auto simp: int_magnitude_def nat_less_iff)

lemma signed_len_i64: "signed_len (int_magnitude (sint (v :: u64))) \<le> 8"
  using byte_len_le_iff [of "2 * int_magnitude (sint v)" 8] int_magnitude_i64 [of v]
  by (simp add: signed_len_def)

lemma checked_i64_contents_iff:
  "(if data = [] \<or> L then rfail else if A \<and> A' then rfail else if B \<and> B' then rfail
    else rreturn w) mid = (Some v, rest) \<longleftrightarrow>
   mid = rest \<and> data \<noteq> [] \<and> \<not> L \<and> \<not> (A \<and> A') \<and> \<not> (B \<and> B') \<and> w = v"
  by (auto simp: rfail_def rreturn_def)

lemma CBS_get_asn1_int64_Some_iff:
  "CBS_get_asn1_int64 bs = (Some v, rest) \<longleftrightarrow>
     bs = der_element CBS_ASN1_INTEGER (der_int (sint v)) @ rest"
proof -
  let ?u = "\<lambda>data. le_union_i64 (fold (\<lambda>i u. u[i := data ! (length data - i - 1)]) [0..<length data]
      (replicate 8 (if data ! 0 AND 0x80 \<noteq> 0 then 0xff else 0)))"
  have "CBS_get_asn1_int64 bs = (Some v, rest) \<longleftrightarrow>
    (\<exists>data. CBS_get_asn1 CBS_ASN1_INTEGER bs = (Some data, rest) \<and> data \<noteq> [] \<and> length data \<le> 8 \<and>
      (\<not> (1 < length data \<and> data ! 0 = 0 \<and> unat (data ! 1) < 128) \<and>
       \<not> (1 < length data \<and> data ! 0 = 0xff \<and> \<not> unat (data ! 1) < 128)) \<and> ?u data = v)"
    unfolding CBS_get_asn1_int64_def rbind_Some_iff Let_def CBS_len_def length_0_conv
      checked_i64_contents_iff and_80_eq_0_iff not_less by blast
  also have "\<dots> \<longleftrightarrow> (\<exists>data. CBS_get_asn1 CBS_ASN1_INTEGER bs = (Some data, rest) \<and>
      data = der_int (sint v))"
  proof (intro iff_exI conj_cong refl iffI)
    fix data
    assume d: "data \<noteq> [] \<and> length data \<le> 8 \<and>
      (\<not> (1 < length data \<and> data ! 0 = 0 \<and> unat (data ! 1) < 128) \<and>
       \<not> (1 < length data \<and> data ! 0 = 0xff \<and> \<not> unat (data ! 1) < 128)) \<and> ?u data = v"
    then have "sint v = be_sval data" using le_union_sint [of data] by blast
    then show "data = der_int (sint v)"
      using d minimal_signed_iff [of data] der_int_be_sval [of data] by simp
  next
    fix data
    assume d: "data = der_int (sint v)"
    then have ne: "data \<noteq> []" and len: "length data \<le> 8" and sv: "be_sval data = sint v"
      using signed_len_i64 [of v] by (simp_all add: length_der_int be_sval_der_int)
    have "sint (?u data) = sint v" using le_union_sint [OF ne len] sv by simp
    then have "?u data = v" by (rule signed_word_eqI)
    moreover have "signed_len (int_magnitude (be_sval data)) = length data"
      unfolding sv using d by (simp add: length_der_int)
    ultimately show "data \<noteq> [] \<and> length data \<le> 8 \<and>
      (\<not> (1 < length data \<and> data ! 0 = 0 \<and> unat (data ! 1) < 128) \<and>
       \<not> (1 < length data \<and> data ! 0 = 0xff \<and> \<not> unat (data ! 1) < 128)) \<and> ?u data = v"
      using ne len minimal_signed_iff [OF ne] by blast
  qed
  also have "\<dots> \<longleftrightarrow> bs = der_element CBS_ASN1_INTEGER (der_int (sint v)) @ rest"
    using signed_len_i64 [of v] by (auto simp: asn1.dec_iff length_der_int)
  finally show ?thesis .
qed

interpretation asn1_int64: progressive_codec
  "\<lambda>v :: u64. der_element CBS_ASN1_INTEGER (der_int (sint v))" CBS_get_asn1_int64 "\<lambda>_. True"
  by unfold_locales (auto simp: CBS_get_asn1_int64_Some_iff)

section \<open>BOOLEAN\<close>

definition der_bool :: "int \<Rightarrow> u8 list" where
  "der_bool b = (if b \<noteq> 0 then [0xff] else [0])"

interpretation asn1_bool: progressive_codec
  "\<lambda>b. der_element CBS_ASN1_BOOLEAN (der_bool b)" CBS_get_asn1_bool "\<lambda>b. b = 0 \<or> b = 1"
proof unfold_locales
  fix b :: int and rest
  assume "b = 0 \<or> b = 1"
  moreover have "CBS_get_asn1 CBS_ASN1_BOOLEAN (der_element CBS_ASN1_BOOLEAN (der_bool b) @ rest)
      = (Some (der_bool b), rest)"
    by (rule asn1.dec_enc) (simp add: der_bool_def)
  ultimately show "CBS_get_asn1_bool (der_element CBS_ASN1_BOOLEAN (der_bool b) @ rest) = (Some b, rest)"
    by (auto simp: CBS_get_asn1_bool_def rbind_def der_bool_def CBS_len_def CBS_data_def rreturn_def Let_def)
next
  fix b bs rest
  assume "CBS_get_asn1_bool bs = (Some b, rest)"
  then obtain data where d: "CBS_get_asn1 CBS_ASN1_BOOLEAN bs = (Some data, rest)"
    "length data = 1" "hd data = 0 \<and> b = 0 \<or> hd data = 0xff \<and> b = 1"
    unfolding CBS_get_asn1_bool_def rbind_Some_iff
    by (auto simp: rfail_def rreturn_def Let_def CBS_len_def CBS_data_def split: if_splits)
  then have "data = der_bool b" by (cases data) (auto simp: der_bool_def)
  with d(3) asn1.dec_Some [OF d(1)]
  show "(b = 0 \<or> b = 1) \<and> bs = der_element CBS_ASN1_BOOLEAN (der_bool b) @ rest" by auto
qed auto

end
