(* ===== verification/Cbb_Refine.thy ===== *)
theory Cbb_Refine
  imports Cbb Der_Values
begin

text \<open>
  What a \<open>CBB\<close> promises: an abstract builder is the bytes written at the top level and, for every
  open child, its kind of length prefix and the bytes written to it so far. \<open>rep\<close> relates it to
  the buffer with its placeholder prefixes and recorded offsets; flushing a \<open>CBB\<close> closes the
  abstract children below it, each by putting the encoded length in front of its contents.
\<close>

unbundle bit_operations_syntax

declare of_nat_add [simp del] of_nat_mult [simp del] push_bit_and [simp del]

section \<open>The abstract builder\<close>

datatype pend = Fixed nat | Asn1

fun plen :: "pend \<Rightarrow> nat" where
  "plen (Fixed k) = k"
| "plen Asn1 = 1"

fun fits :: "pend \<Rightarrow> nat \<Rightarrow> bool" where
  "fits (Fixed k) n = (n < 256 ^ k)"
| "fits Asn1 n = (n \<le> 0xfffffffe)"

fun len_prefix :: "pend \<Rightarrow> nat \<Rightarrow> u8 list" where
  "len_prefix (Fixed k) n = be_bytes k n"
| "len_prefix Asn1 n = der_length n"

type_synonym frames = "u8 list \<times> (pend \<times> u8 list) list"

text \<open>The bytes of a stack of open children once all of them are closed.\<close>

fun close_frames :: "(pend \<times> u8 list) list \<Rightarrow> u8 list option" where
  "close_frames [] = Some []"
| "close_frames ((p, s) # fs) =
     (case close_frames fs of
        None \<Rightarrow> None
      | Some t \<Rightarrow>
          if fits p (length (s @ t)) then Some (len_prefix p (length (s @ t)) @ s @ t) else None)"

fun append_last :: "u8 list \<Rightarrow> frames \<Rightarrow> frames" where
  "append_last t (r, []) = (r @ t, [])"
| "append_last t (r, (p, s) # fs) =
     (case append_last t (s, fs) of (s', fs') \<Rightarrow> (r, (p, s') # fs'))"

definition abs_flush :: "nat \<Rightarrow> frames \<Rightarrow> frames option" where
  "abs_flush d a =
     map_option (\<lambda>t. append_last t (fst a, take d (snd a))) (close_frames (drop d (snd a)))"

fun layout :: "(pend \<times> u8 list) list \<Rightarrow> u8 list" where
  "layout [] = []"
| "layout ((p, s) # fs) = replicate (plen p) 0 @ s @ layout fs"

definition frames_bytes :: "frames \<Rightarrow> u8 list" where
  "frames_bytes a = fst a @ layout (snd a)"

lemma append_last_layout: "frames_bytes (append_last t (r, fs)) = r @ layout fs @ t"
proof (induction fs arbitrary: r)
  case (Cons f fs)
  obtain p s where f: "f = (p, s)" by (cases f)
  obtain s' fs' where a: "append_last t (s, fs) = (s', fs')" by (cases "append_last t (s, fs)")
  show ?case using Cons [of s] by (simp add: f a frames_bytes_def)
qed (simp add: frames_bytes_def)

lemma append_last_append: "append_last t (append_last s a) = append_last (s @ t) a"
proof -
  have "append_last t (append_last s (r, fs)) = append_last (s @ t) (r, fs)" for r fs
  proof (induction fs arbitrary: r)
    case (Cons f fs)
    obtain p u where f: "f = (p, u)" by (cases f)
    obtain u' fs' where a: "append_last s (u, fs) = (u', fs')" by (cases "append_last s (u, fs)")
    show ?case using Cons [of u] by (simp add: f a)
  qed simp
  then show ?thesis by (cases a) simp
qed

lemma append_last_Nil [simp]: "append_last [] a = a"
proof -
  have "append_last [] (r, fs) = (r, fs)" for r fs
    by (induction fs arbitrary: r) auto
  then show ?thesis by (cases a) simp
qed

lemma length_append_last [simp]: "length (snd (append_last t a)) = length (snd a)"
proof -
  have "length (snd (append_last t (r, fs))) = length fs" for r fs
  proof (induction fs arbitrary: r)
    case (Cons f fs)
    obtain p u where f: "f = (p, u)" by (cases f)
    show ?case using Cons [of u] by (auto simp: f split: prod.split)
  qed simp
  then show ?thesis by (cases a) simp
qed

lemma abs_flush_self: "length (snd a) = d \<Longrightarrow> abs_flush d a = Some a"
  by (simp add: abs_flush_def)

lemma abs_flush_depth: "abs_flush d a = Some a' \<Longrightarrow> d \<le> length (snd a) \<Longrightarrow> length (snd a') = d"
  by (auto simp: abs_flush_def)

section \<open>The representation\<close>

definition buffer_ok :: "cbb_buffer_st \<Rightarrow> u8 list \<Rightarrow> bool" where
  "buffer_ok b content \<longleftrightarrow>
     (\<exists>slack. buf b = content @ slack \<and> len b = length content \<and>
        cap b = length content + length slack \<and> cap b < 2 ^ 64 \<and> \<not> error b)"

fun rep_chain :: "nat \<Rightarrow> (pend \<times> u8 list) list \<Rightarrow> cbb_child list \<Rightarrow> bool" where
  "rep_chain off [] [] = True"
| "rep_chain off ((p, s) # fs) (c # cs) =
     (c = \<lparr>offset = off, pending_len_len = plen p, pending_is_asn1 = (p = Asn1)\<rparr> \<and>
      0 < plen p \<and> plen p \<le> 8 \<and> rep_chain (off + plen p + length s) fs cs)"
| "rep_chain off _ _ = False"

definition rep :: "cbb \<Rightarrow> frames \<Rightarrow> bool" where
  "rep cbb a \<longleftrightarrow>
     (\<exists>b. base cbb = Some b \<and> buffer_ok b (frames_bytes a) \<and>
        rep_chain (length (fst a)) (snd a) (chain cbb))"

text \<open>No allocation fails and the buffer may grow: the only limit left is the address space.\<close>

definition unlimited :: "mem_env \<Rightarrow> cbb_buffer_st \<Rightarrow> bool" where
  "unlimited e b \<longleftrightarrow> can_resize b \<and> (\<forall>n. malloc_ok e n)"

definition unlimited_cbb :: "cbb \<Rightarrow> bool" where
  "unlimited_cbb cbb \<longleftrightarrow> (\<forall>b. base cbb = Some b \<longrightarrow> unlimited (env cbb) b)"

lemma rep_chain_length: "rep_chain off fs cs \<Longrightarrow> length cs = length fs"
  by (induction off fs cs rule: rep_chain.induct) auto

section \<open>Buffer operations\<close>

lemma cbb_buffer_reserve_ok:
  assumes "buffer_ok b X" "n < 2 ^ 64" "cbb_buffer_reserve e b n = (True, b')"
  shows "buffer_ok b' X \<and> len b' + n \<le> cap b' \<and> can_resize b' = can_resize b"
proof -
  from assms(1) obtain slack where b: "buf b = X @ slack" "len b = length X"
    "cap b = length X + length slack" "cap b < 2 ^ 64" "\<not> error b"
    by (auto simp: buffer_ok_def)
  let ?newlen = "(len b + n) mod 2 ^ 64"
  have nl: "\<not> ?newlen < len b" using assms(3)
    by (auto simp: cbb_buffer_reserve_def Let_def buffer_error_def split: if_splits)
  have newlen: "?newlen = len b + n"
  proof (cases "len b + n < 2 ^ 64")
    case False
    then obtain q where q: "len b + n = 2 ^ 64 + q" by (metis le_Suc_ex not_le)
    then have "q < len b" using assms(2) by linarith
    moreover have "?newlen = q mod 2 ^ 64" unfolding q by simp
    ultimately show ?thesis using nl b(2-4) by simp
  qed simp
  show ?thesis
  proof (cases "len b + n > cap b")
    case False
    then have "b' = b" using assms(3) unfolding cbb_buffer_reserve_def Let_def newlen by simp
    then show ?thesis using assms(1) False by simp
  next
    case True
    then obtain newcap where b': "b' = b\<lparr>buf := OPENSSL_realloc e (buf b) newcap, cap := newcap\<rparr>"
      and nc: "len b + n \<le> newcap" "cap b \<le> newcap" "newcap < 2 ^ 64"
      using assms(3) mod_less_divisor [of "2 ^ 64" "cap b * 2"]
        mod_less_divisor [of "2 ^ 64" "len b + n"]
      unfolding cbb_buffer_reserve_def Let_def newlen buffer_error_def
      by (auto split: if_splits)
    have "OPENSSL_realloc e (buf b) newcap = X @ slack @ map (garbage e) [cap b..<newcap]"
      using nc b by (simp add: OPENSSL_realloc_def)
    then show ?thesis using b nc by (auto simp: buffer_ok_def b')
  qed
qed

lemma cbb_buffer_reserve_fail:
  assumes "buffer_ok b X" "n < 2 ^ 64" "cbb_buffer_reserve e b n = (False, b')" "unlimited e b"
  shows "2 ^ 64 \<le> length X + n"
proof (rule ccontr)
  assume "\<not> 2 ^ 64 \<le> length X + n"
  moreover have "len b = length X" using assms(1) by (auto simp: buffer_ok_def)
  ultimately have "(len b + n) mod 2 ^ 64 = len b + n" by simp
  then show False using assms(3,4)
    by (auto simp: cbb_buffer_reserve_def Let_def unlimited_def split: if_splits)
qed

lemma cbb_buffer_add_ok:
  assumes "buffer_ok b X" "n < 2 ^ 64" "cbb_buffer_add e b n = (True, b')"
  obtains junk where "length junk = n" "buffer_ok b' (X @ junk)" "can_resize b' = can_resize b"
    "len b' = length X + n"
proof -
  from assms(3) obtain b1 where r: "cbb_buffer_reserve e b n = (True, b1)"
    and b': "b' = b1\<lparr>len := len b1 + n\<rparr>"
    by (auto simp: cbb_buffer_add_def split: prod.splits bool.splits)
  from cbb_buffer_reserve_ok [OF assms(1,2) r] obtain slack where
    s: "buf b1 = X @ slack" "len b1 = length X" "cap b1 = length X + length slack" "cap b1 < 2 ^ 64"
      "\<not> error b1" and room: "n \<le> length slack" "can_resize b1 = can_resize b"
    by (auto simp: buffer_ok_def)
  have "buffer_ok b' (X @ take n slack)"
    unfolding buffer_ok_def using s room by (intro exI [of _ "drop n slack"]) (simp add: b')
  then show thesis using that [of "take n slack"] room s by (simp add: b')
qed

lemma cbb_buffer_add_fail:
  assumes "buffer_ok b X" "n < 2 ^ 64" "cbb_buffer_add e b n = (False, b')" "unlimited e b"
  shows "2 ^ 64 \<le> length X + n"
  using cbb_buffer_reserve_fail [OF assms(1,2) _ assms(4)] assms(3)
  by (auto simp: cbb_buffer_add_def split: prod.splits bool.splits)

lemma write_at_middle:
  "length x = length y \<Longrightarrow> write_at (length a) y (a @ x @ c) = a @ y @ c"
  by (simp add: write_at_def)

lemma store_be_eq:
  "off + n \<le> length bs \<Longrightarrow>
   store_be n off v bs = (write_at off (be_bytes n (unat v)) bs, of_nat (unat v div 256 ^ n))"
proof (induction n arbitrary: v bs)
  case 0
  then show ?case by (simp add: write_at_def)
next
  case (Suc n)
  have v: "unat (drop_bit 8 v) = unat v div 256" by (simp add: unat_drop_bit_div)
  have b: "of_nat (unat v) = (ucast v :: u8)" 
    by (rule word_unat_eq_iff [THEN iffD2]) (simp add: unat_ucast_mod)
  let ?bs = "bs[off + n := ucast v]"
  have "write_at off (be_bytes n (unat v div 256)) ?bs
      = take off bs @ be_bytes n (unat v div 256) @ drop (off + n) ?bs"
    by (simp add: write_at_def)
  also have "drop (off + n) ?bs = ucast v # drop (off + Suc n) bs"
    using Suc.prems by (simp add: upd_conv_take_nth_drop)
  finally have "write_at off (be_bytes n (unat v div 256)) ?bs
      = write_at off (be_bytes (Suc n) (unat v)) bs"
    by (simp add: write_at_def b)
  with Suc show ?case by (simp add: v div_mult2_eq)
qed

lemma store_be_middle:
  assumes "length x = n" "unat v < 256 ^ n"
  shows "store_be n (length a) v (a @ x @ c) = (a @ be_bytes n (unat v) @ c, 0)"
  using assms store_be_eq [of "length a" n "a @ x @ c" v] write_at_middle [of x "be_bytes n (unat v)" a c]
  by simp

section \<open>Flushing\<close>

lemma asn1_len_form_eq:
  "asn1_len_form n = (if fits Asn1 n
     then Some (length (der_length n), hd (der_length n), if n < 128 then 0 else n) else None)"
proof -
  have k: "128 + byte_len n < 256 \<Longrightarrow> 0 < byte_len n" if "128 \<le> n"
    using that byte_len_le_iff [of n 0] by (cases "byte_len n") auto
  consider "0xfffffffe < n" | "0xffffff < n" "n \<le> 0xfffffffe" | "0xffff < n" "n \<le> 0xffffff"
    | "0xff < n" "n \<le> 0xffff" | "0x7f < n" "n \<le> 0xff" | "n \<le> 0x7f"
    by linarith
  then show ?thesis
  proof cases
    case 2
    then have "byte_len n = 4" by (intro byte_len_eqI) simp_all
    with 2 show ?thesis by (simp add: asn1_len_form_def der_length_def)
  next
    case 3
    then have "byte_len n = 3" by (intro byte_len_eqI) simp_all
    with 3 show ?thesis by (simp add: asn1_len_form_def der_length_def)
  next
    case 4
    then have "byte_len n = 2" by (intro byte_len_eqI) simp_all
    with 4 show ?thesis by (simp add: asn1_len_form_def der_length_def)
  next
    case 5
    then have "byte_len n = 1" by (intro byte_len_eqI) simp_all
    with 5 show ?thesis by (simp add: asn1_len_form_def der_length_def)
  qed (simp_all add: asn1_len_form_def der_length_def)
qed

lemma tl_der_length: "128 \<le> n \<Longrightarrow> tl (der_length n) = be_bytes (length (der_length n) - 1) n"
  by (simp add: der_length_def)

lemma der_length_nonempty [simp]: "der_length n \<noteq> []"
  by (simp add: der_length_def)

lemma der_length_bound: "fits Asn1 n \<Longrightarrow> n < 256 ^ (length (der_length n) - 1) \<or> n < 128"
  using byte_len_le_iff [of n "byte_len n"] by (auto simp: der_length_def)

lemma length_der_length_le: "fits Asn1 n \<Longrightarrow> length (der_length n) \<le> 5"
  using byte_len_le_iff [of n 4] by (simp add: der_length_def)

lemma memmove_middle:
  "length junk = n \<Longrightarrow> OPENSSL_memmove (length a + n) (length a) (length body) (a @ body @ junk @ slack)
    = a @ take n (body @ junk) @ body @ slack"
  by (simp add: OPENSSL_memmove_def)

lemma buffer_ok_slack:
  assumes "buffer_ok b X"
  obtains slack where "buf b = X @ slack" "len b = length X"
    "cap b = length X + length slack" "cap b < 2 ^ 64" "\<not> error b"
  using assms by (auto simp: buffer_ok_def)

lemma buffer_ok_upd:
  assumes "buffer_ok b X" "buf b = X @ slack" "length Y = length X"
  shows "buffer_ok (b\<lparr>buf := Y @ slack\<rparr>) Y"
  using assms by (auto simp: buffer_ok_def)

lemma flush_prefix_fixed:
  assumes ok: "buffer_ok b (r @ replicate k 0 @ body)" and k: "0 < k"
    and c: "c = \<lparr>offset = length r, pending_len_len = k, pending_is_asn1 = False\<rparr>"
  shows "flush_prefix e c (length r + k) b = (ok', b') \<Longrightarrow>
    ok' = (length body < 256 ^ k) \<and>
    (ok' \<longrightarrow> buffer_ok b' (r @ be_bytes k (length body) @ body) \<and> can_resize b' = can_resize b)"
proof -
  assume f: "flush_prefix e c (length r + k) b = (ok', b')"
  obtain slack where b: "buf b = (r @ replicate k 0 @ body) @ slack"
    "len b = length (r @ replicate k 0 @ body)"
    "cap b = length (r @ replicate k 0 @ body) + length slack" "cap b < 2 ^ 64" "\<not> error b"
    using ok by (rule buffer_ok_slack)
  let ?n = "length body"
  have n64: "?n < 2 ^ 64" using b by simp
  then have n: "unat (of_nat ?n :: u64) = ?n" by (intro unat_of_nat_small) simp
  have "?n div 256 ^ k \<le> ?n" by (rule div_le_dividend)
  then have "unat (of_nat (?n div 256 ^ k) :: u64) = ?n div 256 ^ k"
    by (intro unat_of_nat_small) (simp add: le_less_trans [OF _ n64 [simplified]])
  then have q: "(of_nat (?n div 256 ^ k) :: u64) = 0 \<longleftrightarrow> ?n < 256 ^ k"
    by (metis unat_eq_zero div_eq_0_iff power_not_zero zero_neq_numeral)
  have st: "store_be k (length r) (of_nat ?n) (buf b)
      = (r @ be_bytes k ?n @ body @ slack, of_nat (?n div 256 ^ k))"
    using store_be_eq [of "length r" k "buf b" "of_nat ?n"]
      write_at_middle [of "replicate k 0" "be_bytes k ?n" r "body @ slack"]
    by (simp add: b n)
  have "buffer_ok (b\<lparr>buf := r @ be_bytes k ?n @ body @ slack\<rparr>) (r @ be_bytes k ?n @ body)"
    using buffer_ok_upd [OF ok b(1), of "r @ be_bytes k ?n @ body"] by simp
  then show ?thesis
    using f by (auto simp: flush_prefix_def c b(2) st q buffer_error_def Let_def split: if_splits)
qed

lemma flush_prefix_asn1:
  assumes ok: "buffer_ok b (r @ [0] @ body)"
    and c: "c = \<lparr>offset = length r, pending_len_len = 1, pending_is_asn1 = True\<rparr>"
    and f: "flush_prefix e c (Suc (length r)) b = (ok', b')"
  shows "(ok' \<longrightarrow> fits Asn1 (length body) \<and>
      buffer_ok b' (r @ der_length (length body) @ body) \<and> can_resize b' = can_resize b) \<and>
    (\<not> ok' \<longrightarrow> unlimited e b \<longrightarrow> fits Asn1 (length body) \<longrightarrow>
      2 ^ 64 \<le> length (r @ der_length (length body) @ body))"
proof -
  let ?n = "length body" let ?d = "der_length ?n"
  obtain slack where b: "buf b = (r @ [0] @ body) @ slack" "len b = length (r @ [0] @ body)"
    "cap b = length (r @ [0] @ body) + length slack" "cap b < 2 ^ 64" "\<not> error b"
    using ok by (rule buffer_ok_slack)
  have n: "len b - Suc (length r) = ?n" by (simp add: b(2))
  show ?thesis
  proof (cases "fits Asn1 ?n")
    case False
    with f show ?thesis
      by (auto simp: flush_prefix_def c n asn1_len_form_eq buffer_error_def Let_def)
  next
    case fits: True
    show ?thesis
    proof (cases "?n < 128")
      case True
      then have d: "?d = [of_nat ?n]" by (simp add: der_length_def)
      have "buffer_ok (b\<lparr>buf := (r @ [of_nat ?n] @ body) @ slack\<rparr>) (r @ [of_nat ?n] @ body)"
        using buffer_ok_upd [OF ok b(1), of "r @ [of_nat ?n] @ body"] by simp
      moreover have "(buf b)[length r := of_nat ?n] = (r @ [of_nat ?n] @ body) @ slack"
        by (simp add: b list_update_append)
      ultimately show ?thesis
        using f fits True d
        by (auto simp: flush_prefix_def c n asn1_len_form_eq Let_def)
    next
      case False
      obtain x where x: "0 < x" "x \<le> 4" and dx: "length ?d = Suc x"
        using False length_der_length_le [OF fits] byte_len_le_iff [of ?n 0]
        by (auto simp: der_length_def)
      have nx: "?n < 256 ^ x" using der_length_bound [OF fits] False dx by simp
      have form: "asn1_len_form ?n = Some (Suc x, hd ?d, ?n)"
        using fits False x dx by (simp add: asn1_len_form_eq)
      show ?thesis
      proof (cases "cbb_buffer_add e b x")
        case (Pair ok1 b1)
        show ?thesis
        proof (cases ok1)
          case fail: False
          with Pair f form x(1) have "\<not> ok'"
            by (auto simp: flush_prefix_def c n buffer_error_def Let_def)
          moreover have "2 ^ 64 \<le> length (r @ [0] @ body) + x" if "unlimited e b"
            using cbb_buffer_add_fail [OF ok _ _ that] Pair fail x(2) by simp
          moreover have "length (r @ [0] @ body) + x = length (r @ ?d @ body)"
            by (simp add: dx)
          ultimately show ?thesis by metis
        next
          case True
          have x64: "x < 2 ^ 64" using x(2) by simp
          have add: "cbb_buffer_add e b x = (True, b1)" using Pair True by simp
          obtain junk where j: "length junk = x"
            "buffer_ok b1 ((r @ [0] @ body) @ junk)" "can_resize b1 = can_resize b"
            "len b1 = length (r @ [0] @ body) + x"
            by (rule cbb_buffer_add_ok [OF ok x64 add])
          obtain sl where b1: "buf b1 = ((r @ [0] @ body) @ junk) @ sl"
            using j(2) by (rule buffer_ok_slack)
          let ?mv = "(r @ [0]) @ take x (body @ junk) @ body @ sl"
          have mv: "OPENSSL_memmove (Suc (length r) + x) (Suc (length r)) ?n (buf b1) = ?mv"
            using memmove_middle [OF j(1), of "r @ [0]" body sl] by (simp add: b1)
          have upd: "?mv[length r := hd ?d] = (r @ [hd ?d]) @ take x (body @ junk) @ body @ sl"
            by (simp add: list_update_append)
          have n64: "unat (of_nat ?n :: u64) = ?n"
            using b by (intro unat_of_nat_small) simp
          have st: "store_be x (Suc (length r)) (of_nat ?n)
              ((r @ [hd ?d]) @ take x (body @ junk) @ body @ sl)
              = ((r @ [hd ?d]) @ be_bytes x ?n @ body @ sl, 0)"
            using store_be_middle [of "take x (body @ junk)" x "of_nat ?n" "r @ [hd ?d]" "body @ sl"]
              nx n64 j(1) by simp
          have d: "[hd ?d] @ be_bytes x ?n = ?d"
            using tl_der_length [of ?n] False dx by (cases ?d) simp_all
          have res: "hd ?d # be_bytes x ?n @ z = ?d @ z" for z
            by (subst (2) d [symmetric]) simp
          have "length (r @ ?d @ body) = length ((r @ [0] @ body) @ junk)"
            using j(1) dx by simp
          then have fin: "buffer_ok (b1\<lparr>buf := (r @ ?d @ body) @ sl\<rparr>) (r @ ?d @ body)"
            using buffer_ok_upd [OF j(2), of sl "r @ ?d @ body"] b1 by simp
          have "ok' \<and> b' = b1\<lparr>buf := (r @ ?d @ body) @ sl\<rparr>"
            using f x(1)
            by (simp add: flush_prefix_def c n form Pair True mv [simplified] upd [simplified]
                st [simplified] res Let_def)
          then show ?thesis using fin fits j(3) by simp
        qed
      qed
    qed
  qed
qed

lemma flush_prefix_ok:
  assumes ok: "buffer_ok b (r @ replicate (plen p) 0 @ body)" and p: "0 < plen p"
    and c: "c = \<lparr>offset = length r, pending_len_len = plen p, pending_is_asn1 = (p = Asn1)\<rparr>"
    and f: "flush_prefix e c (length r + plen p) b = (ok', b')"
  shows "(ok' \<longrightarrow> fits p (length body) \<and>
      buffer_ok b' (r @ len_prefix p (length body) @ body) \<and> can_resize b' = can_resize b) \<and>
    (\<not> ok' \<longrightarrow> unlimited e b \<longrightarrow> fits p (length body) \<longrightarrow>
      2 ^ 64 \<le> length (r @ len_prefix p (length body) @ body))"
proof (cases p)
  case (Fixed k)
  with flush_prefix_fixed [of b r k body c e ok' b'] assms show ?thesis by simp
next
  case Asn1
  with flush_prefix_asn1 [of b r body c e ok' b'] assms show ?thesis by simp
qed

lemma flush_chain_ok:
  "buffer_ok b (r @ layout fs) \<Longrightarrow> rep_chain (length r) fs cs \<Longrightarrow> flush_chain e b cs = (ok, b', cs') \<Longrightarrow>
   (ok \<longrightarrow> cs' = [] \<and> can_resize b' = can_resize b \<and>
      (\<exists>t. close_frames fs = Some t \<and> buffer_ok b' (r @ t))) \<and>
   (\<not> ok \<longrightarrow> unlimited e b \<longrightarrow> (\<forall>t. close_frames fs = Some t \<longrightarrow> 2 ^ 64 \<le> length (r @ t)))"
proof (induction fs arbitrary: r b cs ok b' cs')
  case Nil
  then have "cs = []" by (cases cs) auto
  with Nil show ?case by (auto simp: buffer_ok_def)
next
  case (Cons f fs)
  obtain p s where fp: "f = (p, s)" by (cases f)
  from Cons.prems(2) obtain c cs1 where cs: "cs = c # cs1"
    and c: "c = \<lparr>offset = length r, pending_len_len = plen p, pending_is_asn1 = (p = Asn1)\<rparr>"
    and p: "0 < plen p" and ch: "rep_chain (length r + plen p + length s) fs cs1"
    by (cases cs) (auto simp: fp)
  let ?r = "r @ replicate (plen p) 0 @ s"
  have b: "\<not> error b" "length (r @ layout (f # fs)) < 2 ^ 64"
    using Cons.prems(1) by (auto simp: buffer_ok_def)
  then have start: "(length r + plen p) mod 2 ^ 64 = length r + plen p" by (simp add: fp)
  obtain ok1 b1 cs2 where rec: "flush_chain e b cs1 = (ok1, b1, cs2)"
    by (cases "flush_chain e b cs1")
  have IH: "(ok1 \<longrightarrow> cs2 = [] \<and> can_resize b1 = can_resize b \<and>
      (\<exists>t. close_frames fs = Some t \<and> buffer_ok b1 (?r @ t))) \<and>
   (\<not> ok1 \<longrightarrow> unlimited e b \<longrightarrow> (\<forall>t. close_frames fs = Some t \<longrightarrow> 2 ^ 64 \<le> length (?r @ t)))"
    using Cons.prems(1) ch by (intro Cons.IH [OF _ _ rec]) (simp_all add: fp add.assoc)
  show ?case
  proof (cases ok1)
    case False
    then have "\<not> ok" using Cons.prems(3) rec b(1) p by (auto simp: cs c Let_def split: if_splits)
    moreover have "2 ^ 64 \<le> length (r @ t)" if "unlimited e b" "close_frames (f # fs) = Some t" for t
    proof -
      from that(2) obtain u where u: "close_frames fs = Some u" "t = len_prefix p (length (s @ u)) @ s @ u"
        by (auto simp: fp split: option.splits if_splits)
      have "plen p \<le> length (len_prefix p (length (s @ u)))"
        by (cases p) (auto simp: Suc_le_eq)
      with IH False that(1) u show ?thesis by fastforce
    qed
    ultimately show ?thesis by blast
  next
    case True
    with IH obtain t where t: "close_frames fs = Some t" "buffer_ok b1 (?r @ t)" "cs2 = []"
      "can_resize b1 = can_resize b" by blast
    obtain ok2 b2 where fx: "flush_prefix e c (length r + plen p) b1 = (ok2, b2)"
      by (cases "flush_prefix e c (length r + plen p) b1")
    have P: "(ok2 \<longrightarrow> fits p (length (s @ t)) \<and>
        buffer_ok b2 (r @ len_prefix p (length (s @ t)) @ s @ t) \<and> can_resize b2 = can_resize b1) \<and>
      (\<not> ok2 \<longrightarrow> unlimited e b1 \<longrightarrow> fits p (length (s @ t)) \<longrightarrow>
        2 ^ 64 \<le> length (r @ len_prefix p (length (s @ t)) @ s @ t))"
      using t(2) p c fx by (intro flush_prefix_ok) simp_all
    have lb: "\<not> len b1 < length r + plen p" using t(2) by (auto simp: buffer_ok_def)
    have "ok = ok2 \<and> b' = b2 \<and> (ok2 \<longrightarrow> cs' = [])"
      using Cons.prems(3) rec True b(1) p lb fx start
      by (simp add: cs c Let_def split: bool.splits)
    moreover have "unlimited e b1 = unlimited e b" by (simp add: unlimited_def t(4))
    ultimately show ?thesis using P t by (auto simp: fp)
  qed
qed

lemma rep_chain_take_drop:
  "rep_chain (length r) fs cs \<Longrightarrow> d \<le> length fs \<Longrightarrow>
   rep_chain (length (r @ layout (take d fs))) (drop d fs) (drop d cs)"
proof (induction d arbitrary: r fs cs)
  case (Suc d)
  then obtain p s fs' c cs' where "fs = (p, s) # fs'" "cs = c # cs'"
    by (cases fs; cases cs) auto
  with Suc show ?case
    using Suc.IH [of "r @ replicate (plen p) 0 @ s" fs' cs'] by (simp add: add.assoc)
qed simp

lemma rep_chain_append_last:
  "rep_chain (length r) fs cs \<Longrightarrow> d \<le> length fs \<Longrightarrow>
   append_last t (r, take d fs) = (r', fs') \<Longrightarrow> rep_chain (length r) fs' (take d cs) \<and> (d = 0 \<or> r' = r)"
proof (induction d arbitrary: r fs cs r' fs')
  case (Suc d)
  then obtain p s gs c cs1 where fs: "fs = (p, s) # gs" and cs: "cs = c # cs1"
    by (cases fs; cases cs) auto
  obtain s' gs' where a: "append_last t (s, take d gs) = (s', gs')"
    by (cases "append_last t (s, take d gs)")
  show ?case
  proof (cases d)
    case 0
    with Suc.prems fs cs a show ?thesis by auto
  next
    case (Suc d')
    then obtain q u hs where gs: "gs = (q, u) # hs"
      using Suc.prems(2) fs Suc by (cases gs) auto
    from Suc.prems(1) fs cs have ch: "rep_chain (length (r @ replicate (plen p) 0 @ s)) gs cs1"
      by (simp add: add.assoc)
    obtain g1 g2 where a': "append_last t (r @ replicate (plen p) 0 @ s, take d gs) = (g1, g2)"
      by (cases "append_last t (r @ replicate (plen p) 0 @ s, take d gs)")
    have "g2 = gs' \<and> s' = s" using a a' Suc gs by (auto split: prod.splits)
    moreover have "rep_chain (length (r @ replicate (plen p) 0 @ s)) g2 (take d cs1)"
      using Suc.IH [OF ch _ a'] Suc.prems(2) fs by simp
    ultimately show ?thesis using Suc.prems fs cs a by (auto simp: add.assoc)
  qed
qed simp

lemma CBB_flush_ok:
  assumes rep: "rep cbb a" and d: "d \<le> length (snd a)" and f: "CBB_flush d cbb = (ok, cbb')"
  shows "(ok \<longrightarrow> (\<exists>a'. abs_flush d a = Some a' \<and> rep cbb' a') \<and> env cbb' = env cbb \<and>
      unlimited_cbb cbb' = unlimited_cbb cbb) \<and>
    (\<not> ok \<longrightarrow> unlimited_cbb cbb \<longrightarrow>
      (\<forall>a'. abs_flush d a = Some a' \<longrightarrow> 2 ^ 64 \<le> length (frames_bytes a')))"
proof -
  obtain r fs where a: "a = (r, fs)" by (cases a)
  from rep obtain b where b: "base cbb = Some b" "buffer_ok b (r @ layout fs)"
    and ch: "rep_chain (length r) fs (chain cbb)"
    by (auto simp: rep_def a frames_bytes_def)
  have d': "d \<le> length fs" "\<not> length (chain cbb) < d"
    using d rep_chain_length [OF ch] by (simp_all add: a)
  have lay: "layout fs = layout (take d fs) @ layout (drop d fs)" for fs
  proof (induction d arbitrary: fs)
    case (Suc d)
    show ?case
    proof (cases fs)
      case (Cons f gs)
      then show ?thesis using Suc [of gs] by (cases f) simp
    qed simp
  qed simp
  let ?r = "r @ layout (take d fs)"
  obtain b' cs' where fc: "flush_chain (env cbb) b (drop d (chain cbb)) = (ok, b', cs')"
    and cbb': "cbb' = cbb\<lparr>base := Some b', chain := take d (chain cbb) @ cs'\<rparr>"
    using f d'(2) b(1) by (auto simp: CBB_flush_def split: prod.splits)
  have FC: "(ok \<longrightarrow> cs' = [] \<and> can_resize b' = can_resize b \<and>
      (\<exists>t. close_frames (drop d fs) = Some t \<and> buffer_ok b' (?r @ t))) \<and>
    (\<not> ok \<longrightarrow> unlimited (env cbb) b \<longrightarrow>
      (\<forall>t. close_frames (drop d fs) = Some t \<longrightarrow> 2 ^ 64 \<le> length (?r @ t)))"
    using b(2) lay [of fs] rep_chain_take_drop [OF ch d'(1)]
    by (intro flush_chain_ok [OF _ _ fc]) simp_all
  have bytes: "frames_bytes (append_last t (r, take d fs)) = ?r @ t" for t
    by (simp add: append_last_layout)
  show ?thesis
  proof (cases ok)
    case True
    with FC obtain t where t: "cs' = []" "can_resize b' = can_resize b"
      "close_frames (drop d fs) = Some t" "buffer_ok b' (?r @ t)" by blast
    obtain r' fs' where al: "append_last t (r, take d fs) = (r', fs')"
      by (cases "append_last t (r, take d fs)")
    have "rep_chain (length r') fs' (take d (chain cbb))"
      using rep_chain_append_last [OF ch d'(1) al] al by (cases "d = 0") auto
    then have "rep cbb' (append_last t (r, take d fs))"
      using t bytes [of t] al by (simp add: rep_def cbb')
    moreover have "abs_flush d a = Some (append_last t (r, take d fs))"
      using t(3) by (simp add: abs_flush_def a)
    moreover have "env cbb' = env cbb" "unlimited_cbb cbb' = unlimited_cbb cbb"
      using t(2) b(1) by (simp_all add: cbb' unlimited_cbb_def unlimited_def)
    ultimately show ?thesis using True by blast
  next
    case False
    have "2 ^ 64 \<le> length (frames_bytes a')" if u: "unlimited_cbb cbb" "abs_flush d a = Some a'" for a'
    proof -
      from u(2) obtain t where "close_frames (drop d fs) = Some t" "a' = append_last t (r, take d fs)"
        by (auto simp: abs_flush_def a)
      moreover have "unlimited (env cbb) b" using u(1) b(1) by (simp add: unlimited_cbb_def)
      ultimately show ?thesis using FC False bytes by metis
    qed
    with False show ?thesis by blast
  qed
qed

end
