(* ===== verification/Cbb_Writes.thy ===== *)
theory Cbb_Writes
  imports Cbb_Refine
begin

text \<open>
  A calculus for the writers of \<open>cbb.c\<close>: \<open>appends w (Some t)\<close> says that \<open>w\<close>, called on a \<open>CBB\<close>
  without an open child, appends exactly the bytes \<open>t\<close> to it or fails, and that with an allocator
  that never fails it can only fail by exhausting the address space; \<open>appends w None\<close> says that it
  fails. Sequencing concatenates; opening a child, writing to it and flushing it puts the encoded
  length in front.
\<close>

unbundle bit_operations_syntax

declare of_nat_add [simp del] of_nat_mult [simp del] push_bit_and [simp del]

section \<open>Writers\<close>

type_synonym writer = "nat \<Rightarrow> cbb \<Rightarrow> bool \<times> cbb"

definition appends :: "writer \<Rightarrow> u8 list option \<Rightarrow> bool" where
  "appends w ot \<longleftrightarrow>
     (\<forall>cbb a ok cbb'. rep cbb a \<longrightarrow> w (length (snd a)) cbb = (ok, cbb') \<longrightarrow>
        (ok \<longrightarrow> (\<exists>t. ot = Some t \<and> rep cbb' (append_last t a)) \<and> env cbb' = env cbb \<and>
           unlimited_cbb cbb' = unlimited_cbb cbb) \<and>
        (\<not> ok \<longrightarrow> unlimited_cbb cbb \<longrightarrow>
           (\<forall>t. ot = Some t \<longrightarrow> 2 ^ 64 \<le> length (frames_bytes a) + length t)))"

lemma appendsI:
  assumes "\<And>cbb a cbb'. rep cbb a \<Longrightarrow> w (length (snd a)) cbb = (True, cbb') \<Longrightarrow>
      (\<exists>t. ot = Some t \<and> rep cbb' (append_last t a)) \<and> env cbb' = env cbb \<and>
      unlimited_cbb cbb' = unlimited_cbb cbb"
    and "\<And>cbb a cbb' t. rep cbb a \<Longrightarrow> w (length (snd a)) cbb = (False, cbb') \<Longrightarrow> unlimited_cbb cbb \<Longrightarrow>
      ot = Some t \<Longrightarrow> 2 ^ 64 \<le> length (frames_bytes a) + length t"
  shows "appends w ot"
  unfolding appends_def
proof (intro allI impI)
  fix cbb a ok cbb'
  assume rw: "rep cbb a" "w (length (snd a)) cbb = (ok, cbb')"
  show "(ok \<longrightarrow> (\<exists>t. ot = Some t \<and> rep cbb' (append_last t a)) \<and> env cbb' = env cbb \<and>
      unlimited_cbb cbb' = unlimited_cbb cbb) \<and>
    (\<not> ok \<longrightarrow> unlimited_cbb cbb \<longrightarrow>
      (\<forall>t. ot = Some t \<longrightarrow> 2 ^ 64 \<le> length (frames_bytes a) + length t))"
  proof (cases ok)
    case True
    with assms(1) [OF rw(1), of cbb'] rw(2) show ?thesis by simp
  next
    case False
    with assms(2) [OF rw(1), of cbb'] rw(2) show ?thesis by simp
  qed
qed

lemma appends_ok:
  "appends w ot \<Longrightarrow> rep cbb a \<Longrightarrow> w (length (snd a)) cbb = (True, cbb') \<Longrightarrow>
   (\<exists>t. ot = Some t \<and> rep cbb' (append_last t a)) \<and> env cbb' = env cbb \<and>
   unlimited_cbb cbb' = unlimited_cbb cbb"
  unfolding appends_def by blast

lemma appends_fail:
  "appends w (Some t) \<Longrightarrow> rep cbb a \<Longrightarrow> w (length (snd a)) cbb = (False, cbb') \<Longrightarrow> unlimited_cbb cbb \<Longrightarrow>
   2 ^ 64 \<le> length (frames_bytes a) + length t"
  unfolding appends_def by blast

lemma frames_bytes_append_last: "frames_bytes (append_last t a) = frames_bytes a @ t"
  by (cases a) (simp add: append_last_layout, simp add: frames_bytes_def)

lemma wbind_True_iff: "wbind m k s = (True, s') \<longleftrightarrow> (\<exists>u. m s = (True, u) \<and> k u = (True, s'))"
  by (auto simp: wbind_def split: prod.splits bool.splits)

lemma wbind_False_iff:
  "wbind m k s = (False, s') \<longleftrightarrow> m s = (False, s') \<or> (\<exists>u. m s = (True, u) \<and> k u = (False, s'))"
  by (auto simp: wbind_def split: prod.splits bool.splits)

lemma appends_return: "appends (\<lambda>d. wreturn) (Some [])"
  by (rule appendsI) (auto simp: wreturn_def)

lemma appends_bind:
  assumes w1: "appends w1 (Some t1)" and w2: "appends w2 ot"
  shows "appends (\<lambda>d. wbind (w1 d) (w2 d)) (map_option ((@) t1) ot)"
proof (rule appendsI)
  fix cbb a cbb'
  assume r: "rep cbb a" and w: "wbind (w1 (length (snd a))) (w2 (length (snd a))) cbb = (True, cbb')"
  from w obtain c where "w1 (length (snd a)) cbb = (True, c)" and c: "w2 (length (snd a)) c = (True, cbb')"
    by (auto simp: wbind_True_iff)
  with appends_ok [OF w1 r] have c1: "rep c (append_last t1 a)" "env c = env cbb"
    "unlimited_cbb c = unlimited_cbb cbb" by auto
  from appends_ok [OF w2 c1(1)] c c1 show
    "(\<exists>t. map_option ((@) t1) ot = Some t \<and> rep cbb' (append_last t a)) \<and> env cbb' = env cbb \<and>
      unlimited_cbb cbb' = unlimited_cbb cbb"
    by (auto simp: append_last_append)
next
  fix cbb a cbb' t
  assume r: "rep cbb a" and w: "wbind (w1 (length (snd a))) (w2 (length (snd a))) cbb = (False, cbb')"
    and u: "unlimited_cbb cbb" and t: "map_option ((@) t1) ot = Some t"
  from t obtain t2 where t2: "ot = Some t2" "t = t1 @ t2" by auto
  from w consider "w1 (length (snd a)) cbb = (False, cbb')"
    | c where "w1 (length (snd a)) cbb = (True, c)" "w2 (length (snd a)) c = (False, cbb')"
    by (auto simp: wbind_False_iff)
  then show "2 ^ 64 \<le> length (frames_bytes a) + length t"
  proof cases
    case 1
    from appends_fail [OF w1 r 1 u] show ?thesis by (simp add: t2)
  next
    case 2
    with appends_ok [OF w1 r] have c1: "rep c (append_last t1 a)" "unlimited_cbb c"
      using u by auto
    from appends_fail [OF w2 [unfolded t2] c1(1) _ c1(2)] 2(2) show ?thesis
      by (simp add: t2 frames_bytes_append_last)
  qed
qed

lemma CBB_flush_noop:
  assumes "rep cbb a" "d = length (snd a)"
  shows "CBB_flush d cbb = (True, cbb)"
proof -
  from assms(1) obtain b where b: "base cbb = Some b" "buffer_ok b (frames_bytes a)"
    and ch: "rep_chain (length (fst a)) (snd a) (chain cbb)" by (auto simp: rep_def)
  have l: "length (chain cbb) = d" using rep_chain_length [OF ch] assms(2) by simp
  moreover have "\<not> error b" using b(2) by (auto simp: buffer_ok_def)
  ultimately show ?thesis by (simp add: CBB_flush_def b(1))
qed

lemma appends_flush_bind:
  assumes "appends w ot"
  shows "appends (\<lambda>d. wbind (CBB_flush d) (w d)) ot"
proof -
  have "appends CBB_flush (Some [])"
    by (rule appendsI) (auto simp: CBB_flush_noop)
  from appends_bind [OF this assms] show ?thesis by (cases ot) simp_all
qed

text \<open>
  A writer that flushes first may be called while the \<open>CBB\<close> has open children: it closes them.
\<close>

lemma flush_first:
  assumes w: "appends w ot" and r: "rep cbb a" and d: "d \<le> length (snd a)"
    and f: "wbind (CBB_flush d) (w d) cbb = (True, cbb')"
  shows "\<exists>t a'. ot = Some t \<and> abs_flush d a = Some a' \<and> rep cbb' (append_last t a')"
proof -
  from f obtain c where c: "CBB_flush d cbb = (True, c)" "w d c = (True, cbb')"
    by (auto simp: wbind_True_iff)
  from CBB_flush_ok [OF r d c(1)] obtain a' where a': "abs_flush d a = Some a'" "rep c a'" by auto
  have "d = length (snd a')" using abs_flush_depth [OF a'(1) d] by simp
  with appends_ok [OF w a'(2)] c(2) a'(1) show ?thesis by auto
qed

section \<open>Bytes and integers\<close>

lemma rep_chain_append_bytes:
  "rep_chain (length r) fs cs \<Longrightarrow> append_last t (r, fs) = (r', fs') \<Longrightarrow> rep_chain (length r') fs' cs"
  using rep_chain_append_last [of r fs cs "length fs" t r' fs'] rep_chain_length [of "length r" fs cs]
  by (cases fs) auto

lemma appends_on_base:
  assumes ok: "\<And>e b X b'. buffer_ok b X \<Longrightarrow> f e b = (True, b') \<Longrightarrow>
      (\<exists>t. ot = Some t \<and> buffer_ok b' (X @ t)) \<and> can_resize b' = can_resize b"
    and fail: "\<And>e b X b' t. buffer_ok b X \<Longrightarrow> f e b = (False, b') \<Longrightarrow> unlimited e b \<Longrightarrow> ot = Some t \<Longrightarrow>
      2 ^ 64 \<le> length X + length t"
  shows "appends (\<lambda>d. on_base f) ot"
proof (rule appendsI)
  fix cbb a cbb'
  assume r: "rep cbb a" and w: "on_base f cbb = (True, cbb')"
  from r obtain b where b: "base cbb = Some b" "buffer_ok b (frames_bytes a)"
    and ch: "rep_chain (length (fst a)) (snd a) (chain cbb)" by (auto simp: rep_def)
  from w b obtain b' where fb: "f (env cbb) b = (True, b')" and cbb': "cbb' = cbb\<lparr>base := Some b'\<rparr>"
    by (auto simp: on_base_def split: prod.splits)
  from ok [OF b(2) fb] obtain t where t: "ot = Some t" "buffer_ok b' (frames_bytes a @ t)"
    "can_resize b' = can_resize b" by auto
  obtain r' fs' where al: "append_last t a = (r', fs')" by (cases "append_last t a")
  have "rep_chain (length r') fs' (chain cbb)"
    using rep_chain_append_bytes [OF ch, of t] al by (simp add: prod.collapse)
  then have "rep cbb' (append_last t a)"
    using t(2) by (simp add: rep_def cbb' al frames_bytes_append_last [symmetric])
  with t b(1) show "(\<exists>t. ot = Some t \<and> rep cbb' (append_last t a)) \<and> env cbb' = env cbb \<and>
      unlimited_cbb cbb' = unlimited_cbb cbb"
    by (simp add: cbb' unlimited_cbb_def unlimited_def)
next
  fix cbb a cbb' t
  assume r: "rep cbb a" and w: "on_base f cbb = (False, cbb')" and u: "unlimited_cbb cbb"
    and t: "ot = Some t"
  from r obtain b where b: "base cbb = Some b" "buffer_ok b (frames_bytes a)" by (auto simp: rep_def)
  from w b obtain b' where "f (env cbb) b = (False, b')"
    by (auto simp: on_base_def split: prod.splits)
  from fail [OF b(2) this _ t] u b(1) show "2 ^ 64 \<le> length (frames_bytes a) + length t"
    by (simp add: unlimited_cbb_def)
qed

text \<open>Reserving room and filling it: the common shape of the byte and integer writers.\<close>

lemma buffer_fill:
  assumes "buffer_ok b X" "n < 2 ^ 64" "cbb_buffer_add e b n = (True, b1)" "length t = n"
  shows "buffer_ok (b1\<lparr>buf := write_at (len b1 - n) t (buf b1)\<rparr>) (X @ t)"
    and "can_resize b1 = can_resize b" and "len b1 = length X + n"
    and "len b1 \<le> length (buf b1)"
proof -
  obtain junk where j: "length junk = n" "buffer_ok b1 (X @ junk)" "can_resize b1 = can_resize b"
    "len b1 = length X + n" by (rule cbb_buffer_add_ok [OF assms(1-3)])
  from j(2) obtain sl where sl: "buf b1 = (X @ junk) @ sl" by (rule buffer_ok_slack)
  have "write_at (len b1 - n) t (buf b1) = (X @ t) @ sl"
    using write_at_middle [of junk t X sl] j(1,4) assms(4) by (simp add: sl)
  moreover have "buffer_ok (b1\<lparr>buf := (X @ t) @ sl\<rparr>) (X @ t)"
    using buffer_ok_upd [OF j(2), of sl "X @ t"] j(1) sl assms(4) by simp
  ultimately show "buffer_ok (b1\<lparr>buf := write_at (len b1 - n) t (buf b1)\<rparr>) (X @ t)" by simp
  show "can_resize b1 = can_resize b" "len b1 = length X + n" "len b1 \<le> length (buf b1)"
    using j sl by simp_all
qed

lemma appends_bytes:
  assumes n: "length data < 2 ^ 64"
  shows "appends (\<lambda>d. CBB_add_bytes d data) (Some data)"
  unfolding CBB_add_bytes_def
proof (intro appends_flush_bind appends_on_base)
  fix e b X b'
  assume b: "buffer_ok b X" and w: "(case cbb_buffer_add e b (length data) of
      (False, b) \<Rightarrow> (False, b)
    | (True, b) \<Rightarrow> (True, b\<lparr>buf := write_at (len b - length data) data (buf b)\<rparr>)) = (True, b')"
  from w obtain b1 where "cbb_buffer_add e b (length data) = (True, b1)"
    "b' = b1\<lparr>buf := write_at (len b1 - length data) data (buf b1)\<rparr>"
    by (auto split: prod.splits bool.splits)
  with buffer_fill [OF b n, of e b1 data] show
    "(\<exists>t. Some data = Some t \<and> buffer_ok b' (X @ t)) \<and> can_resize b' = can_resize b" by simp
next
  fix e b X b' t
  assume b: "buffer_ok b X" and u: "unlimited e b" and t: "Some data = Some t" and
    w: "(case cbb_buffer_add e b (length data) of
      (False, b) \<Rightarrow> (False, b)
    | (True, b) \<Rightarrow> (True, b\<lparr>buf := write_at (len b - length data) data (buf b)\<rparr>)) = (False, b')"
  from w have "cbb_buffer_add e b (length data) = (False, b')"
    by (auto split: prod.splits bool.splits)
  from cbb_buffer_add_fail [OF b n this u] t show "2 ^ 64 \<le> length X + length t" by simp
qed

text \<open>An integer that does not fit its width is refused.\<close>

lemma appends_u:
  assumes k: "0 < k" "k \<le> 8"
  shows "appends (\<lambda>d. CBB_add_u d v k) (if unat v < 256 ^ k then Some (be_bytes k (unat v)) else None)"
    (is "appends _ ?ot")
  unfolding CBB_add_u_def
proof (intro appends_flush_bind appends_on_base)
  have q: "(of_nat (unat v div 256 ^ k) :: u64) = 0 \<longleftrightarrow> unat v < 256 ^ k"
  proof -
    have "unat v div 256 ^ k < 2 ^ 64"
      using le_less_trans [OF div_le_dividend unat_less_exp [of v]] by simp
    then have "unat (of_nat (unat v div 256 ^ k) :: u64) = unat v div 256 ^ k"
      by (intro unat_of_nat_small) simp
    then show ?thesis
      by (metis unat_eq_zero div_eq_0_iff power_not_zero zero_neq_numeral)
  qed
  have k64: "k < 2 ^ 64" using k by simp
  fix e b X b'
  {
    assume b: "buffer_ok b X" and w: "cbb_buffer_add_u e b v k = (True, b')"
    then obtain b1 where b1: "cbb_buffer_add e b k = (True, b1)"
      using k(1) by (auto simp: cbb_buffer_add_u_def split: prod.splits bool.splits)
    note fill = buffer_fill [OF b k64 b1, of "be_bytes k (unat v)", simplified]
    have "store_be k (len b1 - k) v (buf b1)
        = (write_at (len b1 - k) (be_bytes k (unat v)) (buf b1), of_nat (unat v div 256 ^ k))"
      using fill(3,4) by (intro store_be_eq) simp
    with w k b1 q have "b' = b1\<lparr>buf := write_at (len b1 - k) (be_bytes k (unat v)) (buf b1)\<rparr>"
      "unat v < 256 ^ k"
      by (auto simp: cbb_buffer_add_u_def buffer_error_def Let_def split: if_splits)
    with fill show "(\<exists>t. ?ot = Some t \<and> buffer_ok b' (X @ t)) \<and> can_resize b' = can_resize b"
      by simp
  next
    fix t
    assume b: "buffer_ok b X" and w: "cbb_buffer_add_u e b v k = (False, b')"
      and u: "unlimited e b" and t: "?ot = Some t"
    have "cbb_buffer_add e b k = (False, b')"
    proof (cases "cbb_buffer_add e b k")
      case (Pair ok b1)
      have False if ok
      proof -
        note b1 = Pair [unfolded that [THEN eqTrueI]]
        note fill = buffer_fill [OF b k64 b1, of "be_bytes k (unat v)", simplified]
        have "store_be k (len b1 - k) v (buf b1)
            = (write_at (len b1 - k) (be_bytes k (unat v)) (buf b1), of_nat (unat v div 256 ^ k))"
          using fill(3,4) by (intro store_be_eq) simp
        with w k b1 q t show False
          by (auto simp: cbb_buffer_add_u_def Let_def split: if_splits)
      qed
      then show ?thesis using w k Pair by (cases ok) (auto simp: cbb_buffer_add_u_def)
    qed
    from cbb_buffer_add_fail [OF b k64 this u] t show "2 ^ 64 \<le> length X + length t"
      by (auto split: if_splits)
  }
qed

lemma appends_u8: "appends (\<lambda>d. CBB_add_u8 d v) (Some [v])"
  using appends_u [of 1 "ucast v"] unat_u8_less [of v] by (simp add: CBB_add_u8_def)

lemma appends_u16: "appends (\<lambda>d. CBB_add_u16 d v) (Some (be_bytes 2 (unat v)))"
  using appends_u [of 2 "ucast v"] unat_less_exp [of v] by (simp add: CBB_add_u16_def)

lemma appends_u32: "appends (\<lambda>d. CBB_add_u32 d v) (Some (be_bytes 4 (unat v)))"
  using appends_u [of 4 "ucast v"] unat_less_exp [of v] by (simp add: CBB_add_u32_def)

lemma appends_u64: "appends (\<lambda>d. CBB_add_u64 d v) (Some (be_bytes 8 (unat v)))"
  using appends_u [of 8 v] unat_less_exp [of v] by (simp add: CBB_add_u64_def)

lemma appends_u24:
  "appends (\<lambda>d. CBB_add_u24 d v) (if unat v < 2 ^ 24 then Some (be_bytes 3 (unat v)) else None)"
  using appends_u [of 3 "ucast v"] by (cases "unat v < 2 ^ 24") (simp_all add: CBB_add_u24_def)

fun add_u8s :: "nat \<Rightarrow> u8 list \<Rightarrow> cbb \<Rightarrow> bool \<times> cbb" where
  "add_u8s d [] = wreturn"
| "add_u8s d (b # bs) = wbind (CBB_add_u8 d b) (add_u8s d bs)"

lemma appends_u8s: "appends (\<lambda>d. add_u8s d bs) (Some bs)"
proof (induction bs)
  case (Cons b bs)
  from appends_bind [OF appends_u8 [of b] Cons] show ?case by simp
qed (simp add: appends_return)

section \<open>Base-128 integers and tags\<close>

lemma base128_len_len_le_iff: "base128_len_len v \<le> k \<longleftrightarrow> unat v < 128 ^ k"
proof (induction k arbitrary: v)
  case 0
  show ?case by (subst base128_len_len.simps) (auto simp: unat_eq_zero word_greater_zero_iff)
next
  case (Suc k)
  show ?case
  proof (cases "v = 0")
    case False
    then have "base128_len_len v = Suc (base128_len_len (drop_bit 7 v))"
      by (subst base128_len_len.simps) (simp add: word_greater_zero_iff)
    moreover have "unat v div 128 < 128 ^ k \<longleftrightarrow> unat v < 128 ^ Suc k"
      by (simp add: div_less_iff_less_mult mult.commute)
    ultimately show ?thesis using Suc [of "drop_bit 7 v"] by (simp add: unat_drop_bit_div)
  qed (simp add: base128_len_len.simps)
qed

lemma unat_or_80: "unat ((b AND 0x7f) OR 0x80 :: u8) = unat b mod 128 + 128"
  by (subst or.commute, subst unat_or_add [where n = 7]) (simp_all add: unat_and_7f)

lemma base128_byte:
  "ucast (drop_bit (7 * i) (v :: u64)) AND 0x7f = (of_nat (unat v div 128 ^ i mod 128) :: u8)"
  "(ucast (drop_bit (7 * i) v) AND 0x7f) OR 0x80 = (of_nat (unat v div 128 ^ i mod 128 + 128) :: u8)"
proof -
  have m: "unat (ucast (drop_bit (7 * i) v) :: u8) mod 128 = unat v div 128 ^ i mod 128"
    by (simp add: unat_ucast_mod unat_drop_bit_div power_mult mod_mod_cancel)
  show "ucast (drop_bit (7 * i) v) AND 0x7f = (of_nat (unat v div 128 ^ i mod 128) :: u8)"
    by (rule word_unat_eq_iff [THEN iffD2]) (simp only: unat_and_7f m, simp)
  show "(ucast (drop_bit (7 * i) v) AND 0x7f) OR 0x80
      = (of_nat (unat v div 128 ^ i mod 128 + 128) :: u8)"
    by (rule word_unat_eq_iff [THEN iffD2]) (simp only: unat_or_80 m, simp)
qed

lemma add_base128_loop_eq:
  "add_base128_loop d v n =
   add_u8s d (map (\<lambda>i. of_nat (unat v div 128 ^ i mod 128 + (if i \<noteq> 0 then 128 else 0))) (rev [0..<n]))"
proof (induction n)
  case (Suc n)
  have "(of_nat (unat v div 128 ^ n mod 128) :: u8) OR 0x80 = of_nat (unat v div 128 ^ n mod 128 + 128)"
    by (simp only: base128_byte [symmetric])
  with Suc show ?case by (simp add: Let_def base128_byte(1))
qed simp

lemma base128_high_digits:
  "v < 128 ^ n \<Longrightarrow> (n \<noteq> 0 \<longrightarrow> 128 ^ (n - 1) \<le> v) \<Longrightarrow>
   base128_high v = map (\<lambda>i. of_nat (v div 128 ^ i mod 128 + 128)) (rev [0..<n])"
proof (induction n arbitrary: v)
  case (Suc n)
  have v: "0 < v" using Suc.prems(2) by (metis diff_Suc_1 nat.distinct(1) not_less zero_less_numeral
        zero_less_power le_zero_eq neq0_conv)
  have "v div 128 < 128 ^ n" using Suc.prems(1) by (simp add: div_less_iff_less_mult mult.commute)
  moreover have "n \<noteq> 0 \<longrightarrow> 128 ^ (n - 1) \<le> v div 128"
    using Suc.prems(2) by (cases n) (simp_all add: less_eq_div_iff_mult_less_eq mult.commute)
  ultimately have IH: "base128_high (v div 128)
      = map (\<lambda>i. of_nat (v div 128 div 128 ^ i mod 128 + 128)) (rev [0..<n])" by (rule Suc.IH)
  have "rev [0..<Suc n] = map Suc (rev [0..<n]) @ [0]"
    by (simp add: rev_map [symmetric] map_Suc_upt upt_conv_Cons del: upt_Suc)
  then show ?case
    by (simp add: base128_high_pos [OF v] IH div_mult2_eq del: upt_Suc)
qed simp

lemma add_base128_integer_eq: "add_base128_integer d v = add_u8s d (base128 (unat v))"
proof -
  let ?n = "base128_len_len v"
  let ?m = "if ?n = 0 then 1 else ?n"
  obtain k where k: "?m = Suc k" by (cases ?n) auto
  have up: "unat v < 128 ^ ?m"
    using base128_len_len_le_iff [of v ?n] base128_len_len_le_iff [of v 0] by auto
  then have "unat v div 128 < 128 ^ k" by (simp add: k div_less_iff_less_mult mult.commute)
  moreover have "k \<noteq> 0 \<longrightarrow> 128 ^ (k - 1) \<le> unat v div 128"
    using base128_len_len_le_iff [of v k] k
    by (cases k) (auto simp: less_eq_div_iff_mult_less_eq mult.commute not_less split: if_splits)
  ultimately have h: "base128_high (unat v div 128)
      = map (\<lambda>i. of_nat (unat v div 128 div 128 ^ i mod 128 + 128)) (rev [0..<k])"
    by (rule base128_high_digits)
  have "rev [0..<Suc k] = map Suc (rev [0..<k]) @ [0]"
    by (simp add: rev_map [symmetric] map_Suc_upt upt_conv_Cons del: upt_Suc)
  then show ?thesis
    by (simp add: add_base128_integer_def Let_def k add_base128_loop_eq base128_def h div_mult2_eq
        comp_def del: upt_Suc)
qed

lemma appends_base128: "appends (\<lambda>d. add_base128_integer d v) (Some (base128 (unat v)))"
  by (simp add: add_base128_integer_eq appends_u8s)

text \<open>The identifier octets, as \<open>CBB_add_asn1\<close> writes them.\<close>

definition add_tag :: "u32 \<Rightarrow> writer" where
  "add_tag tag d =
     (let tag_bits = ucast (drop_bit CBS_ASN1_TAG_SHIFT tag) AND 0xe0 :: u8;
          tag_number = tag AND CBS_ASN1_TAG_NUMBER_MASK
      in if tag_number \<ge> 0x1f
         then wbind (CBB_add_u8 d (tag_bits OR 0x1f)) (add_base128_integer d (ucast tag_number))
         else CBB_add_u8 d (tag_bits OR ucast tag_number))"

lemma unat_tag_number: "unat (tag AND CBS_ASN1_TAG_NUMBER_MASK) = unat tag mod 2 ^ 29"
proof -
  have "CBS_ASN1_TAG_NUMBER_MASK = mask 29"
    by code_simp
  then have eq: "tag AND CBS_ASN1_TAG_NUMBER_MASK = take_bit 29 tag" by (simp only: take_bit_eq_mask)
  show ?thesis by (simp only: eq unsigned_take_bit_eq) (simp add: take_bit_eq_mod)
qed

lemma unat_tag_bits:
  "unat (ucast (drop_bit CBS_ASN1_TAG_SHIFT (tag :: u32)) AND 0xe0 :: u8) = unat tag div 2 ^ 29 * 32"
proof -
  have t: "unat tag < 2 ^ 32" using unat_less_exp [of tag] by simp
  then have "unat tag div 2 ^ 24 < 256" by (simp add: less_mult_imp_div_less)
  then have "unat (ucast (drop_bit CBS_ASN1_TAG_SHIFT tag) :: u8) = unat tag div 2 ^ 24"
    by (simp add: unat_ucast_mod unat_drop_bit_div CBS_ASN1_TAG_SHIFT_def)
  moreover have "unat tag div 2 ^ 29 = unat tag div 2 ^ 24 div 32"
    by (simp add: div_mult2_eq [symmetric])
  moreover have "unat ((b :: u8) AND 0xe0) = unat b div 32 * 32" for b
    using unat_and_e0 [of b] less_mult_imp_div_less [of "unat b" 8 32] by simp
  ultimately show ?thesis by simp
qed

lemma appends_tag: "appends (add_tag tag) (Some (der_tag tag))"
proof -
  let ?c = "unat tag div 2 ^ 29 * 32" and ?num = "unat tag mod 2 ^ 29"
  let ?tb = "ucast (drop_bit CBS_ASN1_TAG_SHIFT tag) AND 0xe0 :: u8"
  let ?tn = "tag AND CBS_ASN1_TAG_NUMBER_MASK"
  have c: "32 dvd unat ?tb" "unat ?tb = ?c" by (simp_all add: unat_tag_bits del: unat_and_e0)
  have join: "?tb OR x = of_nat (?c + unat x)" if "unat x < 32" for x
  proof (rule word_unat_eq_iff [THEN iffD2])
    have "unat (?tb OR x) = ?c + unat x"
      by (subst unat_or_add [where n = 5]) (use c that in simp_all)
    then show "unat (?tb OR x) = unat (of_nat (?c + unat x) :: u8)"
      using unat_u8_less [of "?tb OR x"] by (metis mod_less unat_of_nat_u8)
  qed
  show ?thesis
  proof (cases "?num < 31")
    case True
    then have "\<not> ?tn \<ge> 0x1f" by (simp add: word_le_nat_alt unat_tag_number)
    moreover have "unat (ucast ?tn :: u8) = ?num" using True by (simp add: unat_ucast_mod unat_tag_number)
    ultimately have "add_tag tag = (\<lambda>d. CBB_add_u8 d (of_nat (?c + ?num)))"
      using join [of "ucast ?tn"] True by (simp add: add_tag_def Let_def fun_eq_iff)
    then show ?thesis using True appends_u8 by (simp add: der_tag_def Let_def)
  next
    case False
    then have ge: "?tn \<ge> 0x1f" by (simp add: word_le_nat_alt unat_tag_number)
    have "?tb OR 0x1f = of_nat (?c + 31)" using join [of "0x1f"] by simp
    with ge have "add_tag tag
        = (\<lambda>d. wbind (CBB_add_u8 d (of_nat (?c + 31))) (add_base128_integer d (ucast ?tn)))"
      by (simp add: add_tag_def Let_def fun_eq_iff)
    moreover have "unat (ucast ?tn :: u64) = ?num" by (simp add: unat_tag_number)
    ultimately show ?thesis
      using False appends_bind [OF appends_u8 [of "of_nat (?c + 31)"] appends_base128 [of "ucast ?tn"]]
      by (simp add: der_tag_def Let_def)
  qed
qed

section \<open>Children\<close>

fun push_frame :: "pend \<Rightarrow> frames \<Rightarrow> frames" where
  "push_frame p (r, fs) = (r, fs @ [(p, [])])"

lemma length_push_frame [simp]: "length (snd (push_frame p a)) = Suc (length (snd a))"
  by (cases a) simp

lemma layout_append: "layout (fs @ gs) = layout fs @ layout gs"
proof (induction fs)
  case (Cons f fs)
  then show ?case by (cases f) simp
qed simp

lemma frames_bytes_push: "frames_bytes (push_frame p a) = frames_bytes a @ replicate (plen p) 0"
  by (cases a) (simp add: frames_bytes_def layout_append)

lemma append_last_push: "append_last t (push_frame p (r, fs)) = (r, fs @ [(p, t)])"
proof (induction fs arbitrary: r)
  case (Cons f fs)
  obtain q s where f: "f = (q, s)" by (cases f)
  show ?case using Cons [of s] by (simp add: f)
qed simp

lemma abs_flush_pushed:
  "abs_flush (length (snd a)) (append_last t (push_frame p a)) =
     (if fits p (length t) then Some (append_last (len_prefix p (length t) @ t) a) else None)"
  by (cases a) (simp add: append_last_push abs_flush_def del: push_frame.simps)

lemma rep_chain_append_iff:
  "append_last t (r, fs) = (r', fs') \<Longrightarrow> rep_chain off fs' cs = rep_chain off fs cs"
proof (induction fs arbitrary: off r r' fs' cs)
  case (Cons f fs)
  obtain p s where f: "f = (p, s)" by (cases f)
  obtain s' gs where a: "append_last t (s, fs) = (s', gs)" by (cases "append_last t (s, fs)")
  have fs': "fs' = (p, s') # gs" using Cons.prems by (simp add: f a)
  have "s' = s \<or> fs = []" using a by (cases fs) (auto split: prod.splits)
  then show ?case
  proof
    assume "s' = s"
    then show ?thesis using Cons.IH [OF a] by (cases cs) (simp_all add: fs' f)
  next
    assume "fs = []"
    then show ?thesis using a by (cases cs; cases "tl cs") (auto simp: fs' f neq_Nil_conv)
  qed
qed simp

lemma rep_chain_snoc:
  "rep_chain off fs cs \<Longrightarrow>
   rep_chain off (fs @ [(p, s)]) (cs @ [c]) \<longleftrightarrow>
     c = \<lparr>offset = off + length (layout fs), pending_len_len = plen p, pending_is_asn1 = (p = Asn1)\<rparr> \<and>
     0 < plen p \<and> plen p \<le> 8"
  by (induction off fs cs rule: rep_chain.induct) (auto simp: add.assoc)

text \<open>Opening a child: a placeholder is written by \<open>ph\<close> and its offset recorded.\<close>

definition open_child :: "pend \<Rightarrow> writer \<Rightarrow> writer" where
  "open_child p ph d cbb =
     (let off = base_len cbb
      in wbind (ph d) (\<lambda>cbb. wreturn (push_child d off (plen p) (p = Asn1) cbb)) cbb)"

lemma open_child_ok:
  assumes ph: "appends ph (Some (replicate (plen p) 0))" and p: "0 < plen p" "plen p \<le> 8"
    and r: "rep cbb a" and w: "open_child p ph (length (snd a)) cbb = (True, cbb')"
  shows "rep cbb' (push_frame p a) \<and> env cbb' = env cbb \<and> unlimited_cbb cbb' = unlimited_cbb cbb"
proof -
  let ?d = "length (snd a)"
  from r obtain b where b: "base cbb = Some b" "buffer_ok b (frames_bytes a)" by (auto simp: rep_def)
  then have off: "base_len cbb = length (frames_bytes a)" by (auto simp: base_len_def buffer_ok_def)
  from w obtain c where c: "ph ?d cbb = (True, c)"
    and cbb': "cbb' = push_child ?d (base_len cbb) (plen p) (p = Asn1) c"
    by (auto simp: open_child_def Let_def wbind_True_iff wreturn_def)
  from appends_ok [OF ph r c] have rc: "rep c (append_last (replicate (plen p) 0) a)"
    "env c = env cbb" "unlimited_cbb c = unlimited_cbb cbb" by auto
  obtain r0 fs where a: "a = (r0, fs)" by (cases a)
  obtain r1 fs1 where al: "append_last (replicate (plen p) 0) (r0, fs) = (r1, fs1)"
    by (cases "append_last (replicate (plen p) 0) (r0, fs)")
  from rc(1) obtain b1 where b1: "base c = Some b1"
    "buffer_ok b1 (frames_bytes a @ replicate (plen p) 0)" and ch1: "rep_chain (length r1) fs1 (chain c)"
    using frames_bytes_append_last [of "replicate (plen p) 0" "(r0, fs)"] by (auto simp: rep_def a al)
  have len: "length (chain c) = ?d"
    using rep_chain_length [OF ch1] length_append_last [of "replicate (plen p) 0" a] by (simp add: a al)
  have ch: "rep_chain (length r0) fs (chain c)"
  proof (cases fs)
    case Nil
    then show ?thesis using len by (simp add: a)
  next
    case (Cons f gs)
    then have "r1 = r0" using al by (cases f) (auto split: prod.splits)
    then show ?thesis using ch1 rep_chain_append_iff [OF al] by simp
  qed
  have "rep cbb' (push_frame p a)"
    using b1 p rep_chain_snoc [OF ch] len
    by (simp add: rep_def cbb' push_child_def off a frames_bytes_push [of p "(r0, fs)", simplified]
        frames_bytes_def layout_append)
  with rc show ?thesis by (simp add: cbb' push_child_def unlimited_cbb_def)
qed

lemma appends_child:
  assumes ph: "appends ph (Some (replicate (plen p) 0))" and p: "0 < plen p" "plen p \<le> 8"
    and body: "appends body ob"
  shows "appends (\<lambda>d. wbind (open_child p ph d) (wbind (body (Suc d)) (CBB_flush d)))
    (case ob of None \<Rightarrow> None
     | Some t \<Rightarrow> if fits p (length t) then Some (len_prefix p (length t) @ t) else None)"
proof (rule appendsI)
  fix cbb cbb' :: cbb and a :: frames
  let ?d = "length (snd a)"
  assume r: "rep cbb a"
    and w: "wbind (open_child p ph ?d) (wbind (body (Suc ?d)) (CBB_flush ?d)) cbb = (True, cbb')"
  from w obtain c1 c2 where c1: "open_child p ph ?d cbb = (True, c1)"
    and c2: "body (length (snd (push_frame p a))) c1 = (True, c2)" and c3: "CBB_flush ?d c2 = (True, cbb')"
    by (auto simp: wbind_True_iff)
  note o = open_child_ok [OF ph p r c1]
  from appends_ok [OF body _ c2] o obtain t where t: "ob = Some t"
    "rep c2 (append_last t (push_frame p a))" "env c2 = env c1" "unlimited_cbb c2 = unlimited_cbb c1"
    by blast
  from CBB_flush_ok [OF t(2) _ c3] obtain a' where
    "abs_flush ?d (append_last t (push_frame p a)) = Some a'" "rep cbb' a'" "env cbb' = env c2"
    "unlimited_cbb cbb' = unlimited_cbb c2" by auto
  with o t show "(\<exists>t. (case ob of None \<Rightarrow> None
     | Some t \<Rightarrow> if fits p (length t) then Some (len_prefix p (length t) @ t) else None) = Some t \<and>
       rep cbb' (append_last t a)) \<and> env cbb' = env cbb \<and> unlimited_cbb cbb' = unlimited_cbb cbb"
    by (auto simp: abs_flush_pushed split: if_splits)
next
  fix cbb cbb' :: cbb and a :: frames and u
  let ?d = "length (snd a)"
  assume r: "rep cbb a" and ul: "unlimited_cbb cbb"
    and w: "wbind (open_child p ph ?d) (wbind (body (Suc ?d)) (CBB_flush ?d)) cbb = (False, cbb')"
    and u: "(case ob of None \<Rightarrow> None
     | Some t \<Rightarrow> if fits p (length t) then Some (len_prefix p (length t) @ t) else None) = Some u"
  from u obtain t where t: "ob = Some t" "fits p (length t)" "u = len_prefix p (length t) @ t"
    by (auto split: option.splits if_splits)
  have pl: "plen p \<le> length (len_prefix p (length t))" by (cases p) (auto simp: Suc_le_eq)
  from w consider
      "open_child p ph ?d cbb = (False, cbb')"
    | c1 where "open_child p ph ?d cbb = (True, c1)" "body (Suc ?d) c1 = (False, cbb')"
    | c1 c2 where "open_child p ph ?d cbb = (True, c1)" "body (Suc ?d) c1 = (True, c2)"
        "CBB_flush ?d c2 = (False, cbb')"
    by (auto simp: wbind_False_iff)
  then show "2 ^ 64 \<le> length (frames_bytes a) + length u"
  proof cases
    case 1
    then have "ph ?d cbb = (False, cbb')"
      by (auto simp: open_child_def Let_def wbind_False_iff wreturn_def)
    from appends_fail [OF ph r this ul] show ?thesis using pl by (simp add: t)
  next
    case 2
    note o = open_child_ok [OF ph p r 2(1)]
    have "2 ^ 64 \<le> length (frames_bytes (push_frame p a)) + length t"
      using appends_fail [OF body [unfolded t(1)], of c1 "push_frame p a" cbb'] o 2(2) ul by simp
    then show ?thesis using pl by (simp add: t frames_bytes_push)
  next
    case 3
    note o = open_child_ok [OF ph p r 3(1)]
    from appends_ok [OF body, of c1 "push_frame p a" c2] 3(2) o t(1) ul
    have c2: "rep c2 (append_last t (push_frame p a))" "unlimited_cbb c2" by auto
    from CBB_flush_ok [OF c2(1) _ 3(3)] c2(2) t(2) show ?thesis
      by (auto simp: abs_flush_pushed frames_bytes_append_last t(3))
  qed
qed

section \<open>Elements\<close>

lemma wbind_assoc: "wbind (wbind m k) j = wbind m (wbind k j)"
  by (auto simp: wbind_def fun_eq_iff split: prod.splits bool.splits)

lemma CBB_add_asn1_eq:
  "CBB_add_asn1 d tag =
   wbind (CBB_flush d) (wbind (add_tag tag d) (open_child Asn1 (\<lambda>d. CBB_add_u8 d 0) d))"
proof -
  have "open_child Asn1 (\<lambda>d. CBB_add_u8 d 0) d = (\<lambda>cbb.
      let off = base_len cbb
      in wbind (CBB_add_u8 d 0) (\<lambda>cbb. wreturn (push_child d off 1 True cbb)) cbb)"
    by (simp add: fun_eq_iff open_child_def)
  then show ?thesis by (simp only: CBB_add_asn1_def add_tag_def Let_def)
qed

definition der_element_opt :: "u32 \<Rightarrow> u8 list option \<Rightarrow> u8 list option" where
  "der_element_opt tag ob =
     (case ob of None \<Rightarrow> None
      | Some t \<Rightarrow> if length t \<le> 0xfffffffe then Some (der_element tag t) else None)"

lemma appends_asn1:
  assumes body: "appends body ob"
  shows "appends (\<lambda>d. wbind (CBB_add_asn1 d tag) (wbind (body (Suc d)) (CBB_flush d)))
    (der_element_opt tag ob)"
proof -
  have ph: "appends (\<lambda>d. CBB_add_u8 d 0) (Some (replicate (plen Asn1) 0))"
    using appends_u8 [of 0] by simp
  note appends_flush_bind [OF appends_bind [OF appends_tag appends_child [OF ph _ _ body]], of tag]
  moreover have "map_option ((@) (der_tag tag)) (case ob of None \<Rightarrow> None
     | Some t \<Rightarrow> if fits Asn1 (length t) then Some (len_prefix Asn1 (length t) @ t) else None)
     = der_element_opt tag ob"
    by (auto simp: der_element_opt_def der_element_def der_header_def split: option.splits)
  ultimately show ?thesis by (simp add: CBB_add_asn1_eq wbind_assoc)
qed

lemma appends_octet_string:
  assumes "length data < 2 ^ 64"
  shows "appends (\<lambda>d. CBB_add_asn1_octet_string d data) (der_element_opt CBS_ASN1_OCTETSTRING (Some data))"
  using appends_asn1 [OF appends_bytes [OF assms], of CBS_ASN1_OCTETSTRING]
  by (simp add: CBB_add_asn1_octet_string_def)

lemma appends_bool:
  "appends (\<lambda>d. CBB_add_asn1_bool d v) (Some (der_element CBS_ASN1_BOOLEAN (der_bool v)))"
  using appends_asn1 [OF appends_u8 [of "if v \<noteq> 0 then 0xff else 0"], of CBS_ASN1_BOOLEAN]
  by (simp add: CBB_add_asn1_bool_def der_element_opt_def der_bool_def split: if_splits)

section \<open>INTEGER\<close>

text \<open>The bytes that the loop of \<open>CBB_add_asn1_uint64\<close> adds.\<close>

fun uint64_bytes :: "u64 \<Rightarrow> nat \<Rightarrow> bool \<Rightarrow> u8 list" where
  "uint64_bytes v 0 started = []"
| "uint64_bytes v (Suc n) started =
     (let byte = ucast (drop_bit (8 * n) v) :: u8
      in if \<not> started \<and> byte = 0 then uint64_bytes v n started
         else (if \<not> started \<and> byte AND 0x80 \<noteq> 0 then [0, byte] else [byte]) @ uint64_bytes v n True)"

lemma add_u8s_append: "add_u8s d (as @ bs) = wbind (add_u8s d as) (add_u8s d bs)"
  by (induction as) (simp_all add: wbind_assoc, simp add: wbind_def wreturn_def)

lemma asn1_uint64_bytes_eq:
  assumes "n \<le> 8"
  shows "\<exists>st. asn1_uint64_bytes d v n started cbb
      = ((fst (add_u8s d (uint64_bytes v n started) cbb), st), snd (add_u8s d (uint64_bytes v n started) cbb)) \<and>
    (fst (add_u8s d (uint64_bytes v n started) cbb) \<longrightarrow> st = (started \<or> uint64_bytes v n started \<noteq> []))"
  using assms
proof (induction n arbitrary: started cbb)
  case 0
  then show ?case by (simp add: wreturn_def)
next
  case (Suc n)
  let ?byte = "ucast (drop_bit (8 * n) v) :: u8"
  have i: "7 - (8 - Suc n) = n" using Suc.prems by simp
  have byte: "ucast (drop_bit (8 * n) v AND 0xff) = ?byte"
  proof (rule bit_word_eqI)
    fix k assume "k < LENGTH(8)"
    moreover have "(0xff :: u64) = mask 8" by (simp add: mask_eq_exp_minus_1)
    ultimately show "bit (ucast (drop_bit (8 * n) v AND 0xff) :: u8) k = bit ?byte k"
      by (simp only: \<open>0xff = mask 8\<close>) (simp add: bit_simps)
  qed
  show ?case
  proof (cases "\<not> started \<and> ?byte = 0")
    case True
    then show ?thesis using Suc.IH [of started cbb] Suc.prems by (simp add: i byte Let_def)
  next
    case False
    let ?pre = "if \<not> started \<and> ?byte AND 0x80 \<noteq> 0 then [0, ?byte] else [?byte]"
    have pre: "wbind (if \<not> started \<and> ?byte AND 0x80 \<noteq> 0 then CBB_add_u8 d 0 else wreturn)
        (CBB_add_u8 d ?byte) = add_u8s d ?pre"
      by (auto simp: fun_eq_iff wbind_def wreturn_def split: prod.splits bool.splits)
    obtain ok c where r: "add_u8s d ?pre cbb = (ok, c)" by (cases "add_u8s d ?pre cbb")
    have split: "add_u8s d (uint64_bytes v (Suc n) started) cbb
        = wbind (add_u8s d ?pre) (add_u8s d (uint64_bytes v n True)) cbb"
      using False by (simp only: uint64_bytes.simps Let_def if_False add_u8s_append)
    have step: "asn1_uint64_bytes d v (Suc n) started cbb = (case (ok, c) of
          (False, cbb) \<Rightarrow> ((False, True), cbb) | (True, cbb) \<Rightarrow> asn1_uint64_bytes d v n True cbb)"
      using False by (simp only: asn1_uint64_bytes.simps Let_def i byte if_False pre r)
    have ne: "uint64_bytes v (Suc n) started \<noteq> []" using False by (auto simp: Let_def)
    show ?thesis
    proof (cases ok)
      case True
      then show ?thesis using Suc.IH [of True c] Suc.prems ne unfolding split step wbind_def r by simp
    next
      case False
      then show ?thesis unfolding split step wbind_def r by (simp, intro exI [of _ True], simp)
    qed
  qed
qed

lemma unat_byte: "unat (ucast (drop_bit (8 * n) (v :: u64)) :: u8) = unat v div 256 ^ n mod 256"
  by (simp add: unat_ucast_mod unat_drop_bit_div power_mult)

lemma be_bytes_mod: "be_bytes n (v mod 256 ^ n) = be_bytes n v"
proof -
  have "be_bytes n (v mod 256 ^ n) = be_bytes n (be_val (be_bytes n v))" by (simp add: be_val_be_bytes)
  then show ?thesis using be_bytes_be_val [of "be_bytes n v"] by simp
qed

lemma uint64_bytes_started: "uint64_bytes v n True = be_bytes n (unat v)"
proof (induction n)
  case (Suc n)
  have "ucast (drop_bit (8 * n) v) = (of_nat (unat v div 256 ^ n) :: u8)"
    by (rule word_unat_eq_iff [THEN iffD2]) (simp only: unat_byte unat_of_nat_u8)
  with Suc show ?case by (simp add: be_bytes_Suc_Cons Let_def del: be_bytes.simps)
qed simp

lemma double_less: "2 * (b * p) + 2 * p \<le> q \<Longrightarrow> lo < p \<Longrightarrow> 2 * (b * p + lo) < (q :: nat)"
  by simp

lemma double_less2: "u < q \<Longrightarrow> 2 * u < 256 * (q :: nat)"
  by simp

lemma double_ge: "128 * p \<le> x \<Longrightarrow> 256 * p \<le> 2 * (x + (lo :: nat))"
  by presburger

lemma der_uint_split:
  assumes "signed_len u = (if c then Suc n else Suc (Suc n))" "u div 256 ^ n = b" "b < 256"
  shows "der_uint u = (if c then [of_nat b] else [0, of_nat b]) @ be_bytes n u"
proof -
  have "u div 256 ^ Suc n = 0" using assms(2,3) by (simp add: div_mult2_eq power_Suc2 del: power_Suc)
  then show ?thesis
    using assms by (cases c) (simp_all add: der_uint_def be_bytes_Suc_Cons del: be_bytes.simps power_Suc)
qed

lemma uint64_bytes_eq:
  "uint64_bytes v n False = (if unat v mod 256 ^ n = 0 then [] else der_uint (unat v mod 256 ^ n))"
proof (induction n)
  case (Suc n)
  let ?u = "unat v mod 256 ^ Suc n" and ?b = "unat v div 256 ^ n mod 256"
  let ?byte = "ucast (drop_bit (8 * n) v) :: u8"
  have u: "?u = ?b * 256 ^ n + unat v mod 256 ^ n"
    by (metis mod_mult2_eq power_Suc2 add.commute mult.commute)
  have lo: "unat v mod 256 ^ n < 256 ^ n" by simp
  have byte: "?byte = of_nat ?b" "unat ?byte = ?b"
    by (rule word_unat_eq_iff [THEN iffD2]) (simp_all only: unat_byte unat_of_nat_u8 mod_mod_trivial)
  show ?case
  proof (cases "?b = 0")
    case True
    then have "?byte = 0" by (simp add: byte)
    moreover have "?u = unat v mod 256 ^ n" using u True by simp
    ultimately show ?thesis using Suc by (simp add: Let_def del: power_Suc)
  next
    case False
    have nz: "?byte \<noteq> 0" using byte(2) False by auto
    have udiv: "?u div 256 ^ n = ?b" using u lo by simp
    have tail: "be_bytes n ?u = be_bytes n (unat v)"
      using be_bytes_mod [of n ?u] be_bytes_mod [of n "unat v"]
      by (simp add: mod_mod_cancel le_imp_power_dvd)
    have b1: "1 \<le> ?b" and b256: "?b < 256" using False by auto
    have u0: "?u \<noteq> 0" using udiv False by (metis div_0)
    have "256 ^ n \<le> ?u" using u b1 by (metis mult.commute mult_le_mono2 nat_mult_1_right trans_le_add1)
    have len: "signed_len ?u = (if ?b < 128 then Suc n else Suc (Suc n))"
    proof (cases "?b < 128")
      case True
      then have "2 * ?b + 2 \<le> 256" by simp
      then have "(2 * ?b + 2) * 256 ^ n \<le> 256 * 256 ^ n" by (rule mult_le_mono1)
      then have "2 * (?b * 256 ^ n) + 2 * 256 ^ n \<le> 256 ^ Suc n"
        by (simp only: add_mult_distrib mult.assoc power_Suc)
      then have "2 * ?u < 256 ^ Suc n" unfolding u by (rule double_less) (rule lo)
      then show ?thesis using True \<open>256 ^ n \<le> ?u\<close> by (simp add: signed_len_eq_iff del: power_Suc)
    next
      case False
      have "?u < 256 ^ Suc n" by simp
      then have "2 * ?u < 256 ^ Suc (Suc n)" using double_less2 [of ?u "256 ^ Suc n"] by (simp only: power_Suc)
      moreover have "128 * 256 ^ n \<le> ?b * 256 ^ n" using False by (intro mult_le_mono1) simp
      then have "256 * 256 ^ n \<le> 2 * (?b * 256 ^ n + unat v mod 256 ^ n)" by (rule double_ge)
      then have "256 ^ Suc n \<le> 2 * ?u" by (subst u, subst power_Suc)
      ultimately show ?thesis using False by (simp add: signed_len_eq_iff del: power_Suc)
    qed
    have "der_uint ?u = (if ?b < 128 then [?byte] else [0, ?byte]) @ be_bytes n (unat v)"
      using der_uint_split [OF len udiv b256] by (simp only: tail byte(1))
    moreover have "(?byte AND 0x80 \<noteq> 0) = (\<not> ?b < 128)" using byte(2) and_80_eq_0_iff [of ?byte] by simp
    ultimately show ?thesis
      using nz u0 by (simp add: Let_def uint64_bytes_started del: power_Suc)
  qed
qed simp

lemma der_uint_0: "der_uint 0 = [0]"
  by (simp add: der_uint_def signed_len_def byte_len.simps)

lemma CBB_add_asn1_uint64_eq:
  "CBB_add_asn1_uint64 d v =
   wbind (CBB_add_asn1 d CBS_ASN1_INTEGER) (wbind (add_u8s (Suc d) (der_uint (unat v))) (CBB_flush d))"
proof -
  have v: "unat v mod 256 ^ 8 = unat v" using unat_less_exp [of v] by simp
  let ?L = "uint64_bytes v 8 False"
  have L: "der_uint (unat v) = (if ?L = [] then [0] else ?L)"
    using uint64_bytes_eq [of v 8] der_uint_nonempty [of "unat v"] der_uint_0
    by (simp only: v) (simp split: if_splits)
  have "(case asn1_uint64_bytes (Suc d) v 8 False cbb of
         ((False, _), cbb) \<Rightarrow> (False, cbb)
       | ((True, started), cbb) \<Rightarrow>
           wbind (if \<not> started then CBB_add_u8 (Suc d) 0 else wreturn) (CBB_flush d) cbb)
     = wbind (add_u8s (Suc d) (der_uint (unat v))) (CBB_flush d) cbb" for cbb
  proof -
    obtain ok c where r: "add_u8s (Suc d) ?L cbb = (ok, c)" by (cases "add_u8s (Suc d) ?L cbb")
    obtain st where "asn1_uint64_bytes (Suc d) v 8 False cbb = ((ok, st), c)" "ok \<longrightarrow> st = (?L \<noteq> [])"
      using asn1_uint64_bytes_eq [of 8 "Suc d" v False cbb] by (auto simp: r)
    with r show ?thesis
      by (cases ok; cases "?L = []") (auto simp: L wbind_def wreturn_def split: prod.splits bool.splits)
  qed
  then show ?thesis by (simp add: CBB_add_asn1_uint64_def)
qed

lemma appends_uint64:
  "appends (\<lambda>d. CBB_add_asn1_uint64 d v) (Some (der_element CBS_ASN1_INTEGER (der_uint (unat v))))"
proof -
  have "length (der_uint (unat v)) \<le> 9"
    using signed_len_64 [of "unat v"] unat_less_exp [of v] by (simp add: length_der_uint)
  then show ?thesis
    using appends_asn1 [OF appends_u8s [of "der_uint (unat v)"], of CBS_ASN1_INTEGER]
    by (simp add: CBB_add_asn1_uint64_eq der_element_opt_def)
qed

text \<open>Negative values: the loop that drops redundant sign bytes finds the minimal length.\<close>

lemma add_bytes_down_eq:
  "start < length bytes \<Longrightarrow> add_bytes_down d bytes start = add_u8s d (rev (take (Suc start) bytes))"
proof (induction start)
  case 0
  then show ?case by (cases bytes) (auto simp: fun_eq_iff wbind_def wreturn_def split: prod.splits bool.splits)
next
  case (Suc start)
  then show ?case by (simp add: take_Suc_conv_app_nth [of "Suc start"])
qed

lemma rev_be_bytes_nth: "i < n \<Longrightarrow> rev (be_bytes n v) ! i = of_nat (v div 256 ^ i)"
proof (induction n arbitrary: i v)
  case (Suc n)
  then show ?case by (cases i) (simp_all add: div_mult2_eq)
qed simp

lemma take_rev_be_bytes: "k \<le> n \<Longrightarrow> rev (take k (rev (be_bytes n v))) = be_bytes k v"
proof (induction n arbitrary: k v)
  case (Suc n)
  then show ?case by (cases k) simp_all
qed simp

lemma unat_not_byte:
  assumes "i < 8"
  shows "unat (NOT v :: u64) div 256 ^ i mod 256 = 255 - unat v div 256 ^ i mod 256"
proof -
  have "ucast (drop_bit (8 * i) (NOT v)) = (NOT (ucast (drop_bit (8 * i) v)) :: u8)"
    using assms by (intro bit_word_eqI) (simp add: bit_simps)
  then have "unat (ucast (drop_bit (8 * i) (NOT v)) :: u8) = 255 - unat (ucast (drop_bit (8 * i) v) :: u8)"
    by (simp add: unat_not_u8)
  then show ?thesis by (simp only: unat_byte)
qed

lemma skip_sign_bytes_eq:
  assumes "2 * unat (NOT v :: u64) < 256 ^ Suc start" "start < 8"
  shows "Suc (skip_sign_bytes (rev (be_bytes 8 (unat v))) start) = signed_len (unat (NOT v))"
  using assms
proof (induction start)
  case 0
  then show ?case using signed_len_eq_iff [of 1 "unat (NOT v)"] by simp
next
  case (Suc start)
  let ?B = "rev (be_bytes 8 (unat v))" and ?m = "unat (NOT v)" and ?p = "256 ^ start :: nat"
  have b1: "unat (?B ! Suc start) = unat v div 256 ^ Suc start mod 256"
    and b0: "unat (?B ! start) = unat v div ?p mod 256"
    using Suc.prems(2) by (simp_all only: rev_be_bytes_nth unat_of_nat_u8)
  have ff: "?B ! Suc start = 0xff \<longleftrightarrow> unat (?B ! Suc start) = 255"
    by (simp add: word_unat_eq_iff)
  have m1: "?m div 256 ^ Suc start mod 256 = 255 - unat (?B ! Suc start)"
    and m0: "?m div ?p mod 256 = 255 - unat (?B ! start)"
    using Suc.prems(2) unat_not_byte [of "Suc start" v] unat_not_byte [of start v]
    by (simp_all only: b1 b0)
  have q: "?m div 256 ^ Suc start < 256"
    using Suc.prems(1) by (simp add: div_less_iff_less_mult)
  have "?B ! Suc start = 0xff \<longleftrightarrow> ?m div 256 ^ Suc start = 0"
    using m1 q unat_u8_less [of "?B ! Suc start"] by (simp only: ff mod_less) linarith
  also have "\<dots> \<longleftrightarrow> ?m < 256 ^ Suc start" by (simp add: div_eq_0_iff)
  finally have c1: "?B ! Suc start = 0xff \<longleftrightarrow> ?m < 256 ^ Suc start" .
  have c0: "?B ! start AND 0x80 \<noteq> 0 \<longleftrightarrow> 2 * ?m < 256 ^ Suc start" if "?m < 256 ^ Suc start"
  proof -
    have "?m div ?p < 256" using that by (simp add: div_less_iff_less_mult)
    then have "?m div ?p = 255 - unat (?B ! start)" using m0 by simp
    then have "?B ! start AND 0x80 \<noteq> 0 \<longleftrightarrow> ?m div ?p < 128"
      using unat_u8_less [of "?B ! start"] by (simp only: and_80_eq_0_iff) linarith
    also have "\<dots> \<longleftrightarrow> ?m < 128 * ?p" by (simp add: div_less_iff_less_mult)
    finally show ?thesis by simp
  qed
  show ?case
  proof (cases "2 * ?m < 256 ^ Suc start")
    case True
    then have "?m < 256 ^ Suc start" by simp
    then show ?thesis using c0 c1 True Suc by simp
  next
    case False
    then have "\<not> (?B ! Suc start = 0xff \<and> ?B ! start AND 0x80 \<noteq> 0)" using c0 c1 by blast
    moreover have "signed_len ?m = Suc (Suc start)"
      using False Suc.prems(1) by (simp add: signed_len_eq_iff del: power_Suc)
    ultimately show ?thesis by (simp only: skip_sign_bytes.simps if_False)
  qed
qed

lemma nat_complement: "int u = 2 ^ 64 + s \<Longrightarrow> s < 0 \<Longrightarrow> 2 ^ 64 - 1 - u = nat (- s - 1)"
  by simp

lemma nonneg_wrap:
  "s = (if n < 2 ^ 63 then int n else int n - 2 ^ 64) \<Longrightarrow> n < 2 ^ 64 \<Longrightarrow> 0 \<le> s \<Longrightarrow> s = int n"
  by (simp split: if_splits)

lemma unat_NOT_negative:
  assumes "sint (v :: u64) < 0"
  shows "unat (NOT v) = int_magnitude (sint v)" "int (unat v) = 2 ^ 64 + sint v"
proof -
  have ov: "(of_nat (unat v) :: u64) = v" by (metis of_nat_unat ucast_id)
  have u: "unat v < 2 ^ 64" using unat_less_exp [of v] by simp
  have "sint v = (if unat v < 2 ^ 63 then int (unat v) else int (unat v) - 2 ^ 64)"
    using sint_of_nat_64 [OF u] by (simp only: ov)
  with assms show i: "int (unat v) = 2 ^ 64 + sint v" by (simp split: if_splits)
  have "unat (NOT v) = 2 ^ 64 - 1 - unat v"
  proof -
    have "NOT v = - 1 - v" by (simp add: not_eq_complement)
    moreover have "unat (- 1 - v) = unat (- 1 :: u64) - unat v" by (rule unat_sub) simp
    moreover have "unat (- 1 :: u64) = 2 ^ 64 - 1"
      by (simp only: unsigned_minus_1_eq_mask) (simp add: mask_eq_exp_minus_1)
    ultimately show ?thesis by (simp only:)
  qed
  also have "\<dots> = nat (- sint v - 1)" by (rule nat_complement [OF i assms])
  also have "\<dots> = int_magnitude (sint v)" using assms by (simp add: int_magnitude_def)
  finally show "unat (NOT v) = int_magnitude (sint v)" .
qed

lemma CBB_add_asn1_int64_eq:
  "CBB_add_asn1_int64 d v =
   wbind (CBB_add_asn1 d CBS_ASN1_INTEGER) (wbind (add_u8s (Suc d) (der_int (sint v))) (CBB_flush d))"
proof (cases "0 \<le> sint v")
  case True
  have "unat v < 2 ^ 64" using unat_less_exp [of v] by simp
  moreover have "(of_nat (unat v) :: u64) = v" by (metis of_nat_unat ucast_id)
  ultimately have s: "sint v = int (unat v)"
    using sint_of_nat_64 [of "unat v"] True by (intro nonneg_wrap) (simp_all only:)
  have "unat v < 256 ^ signed_len (unat v)"
    using signed_len_eq_iff [of "signed_len (unat v)" "unat v"] by simp
  then have "der_int (sint v) = der_uint (unat v)"
    by (simp only: der_int_def der_uint_def int_magnitude_def s Let_def) (simp add: nat_mod_distrib nat_power_eq)
  with True show ?thesis by (simp add: CBB_add_asn1_int64_def CBB_add_asn1_uint64_eq)
next
  case False
  then have neg: "sint v < 0" by simp
  let ?m = "unat (NOT v)" and ?B = "rev (be_bytes 8 (unat v))"
  have m: "int_magnitude (sint v) = ?m" using unat_NOT_negative(1) [OF neg] by simp
  have "2 * ?m < 256 ^ Suc 7" using int_magnitude_i64 [of v] by (simp add: m)
  then have start: "Suc (skip_sign_bytes ?B 7) = signed_len ?m" by (rule skip_sign_bytes_eq) simp
  have k: "signed_len ?m \<le> 8" using signed_len_i64 [of v] by (simp add: m)
  have "(256 :: int) ^ signed_len ?m dvd 256 ^ 8" using k by (rule le_imp_power_dvd)
  then have "(2 ^ 64 + sint v) mod 256 ^ signed_len ?m = sint v mod 256 ^ signed_len ?m"
    by (simp add: mod_add_left_eq [symmetric] dvd_eq_mod_eq_0 del: mod_add_left_eq)
  then have "int (unat v) mod 256 ^ signed_len ?m = sint v mod 256 ^ signed_len ?m"
    by (simp only: unat_NOT_negative(2) [OF neg])
  then have "nat (sint v mod 256 ^ signed_len ?m) = unat v mod 256 ^ signed_len ?m"
    by (metis nat_int of_nat_mod of_nat_numeral of_nat_power)
  then have "der_int (sint v) = be_bytes (signed_len ?m) (unat v)"
    by (simp add: der_int_def m be_bytes_mod)
  moreover have "add_bytes_down (Suc d) ?B (skip_sign_bytes ?B 7)
      = add_u8s (Suc d) (be_bytes (signed_len ?m) (unat v))"
    using start k add_bytes_down_eq [of "skip_sign_bytes ?B 7" ?B "Suc d"]
      take_rev_be_bytes [of "signed_len ?m" 8 "unat v"] by simp
  ultimately show ?thesis using False by (simp add: CBB_add_asn1_int64_def Let_def)
qed

lemma appends_int64:
  "appends (\<lambda>d. CBB_add_asn1_int64 d v) (Some (der_element CBS_ASN1_INTEGER (der_int (sint v))))"
proof -
  have "length (der_int (sint v)) \<le> 8"
    using signed_len_i64 [of v] by (simp add: length_der_int)
  then show ?thesis
    using appends_asn1 [OF appends_u8s [of "der_int (sint v)"], of CBS_ASN1_INTEGER]
    by (simp add: CBB_add_asn1_int64_eq der_element_opt_def)
qed

section \<open>From \<open>CBB_init\<close> to \<open>CBB_finish\<close>\<close>

lemma CBB_init_ok:
  assumes "CBB_init e n = (True, cbb)" "n < 2 ^ 64"
  shows "rep cbb ([], []) \<and> env cbb = e \<and> (unlimited_cbb cbb \<longleftrightarrow> (\<forall>k. malloc_ok e k))"
  using assms
  by (auto simp: CBB_init_def cbb_init_def CBB_zero_def rep_def buffer_ok_def frames_bytes_def
      unlimited_cbb_def unlimited_def split: if_splits)

lemma CBB_init_success: "\<forall>k. malloc_ok e k \<Longrightarrow> \<exists>cbb. CBB_init e n = (True, cbb)"
  by (simp add: CBB_init_def cbb_init_def CBB_zero_def)

lemma CBB_init_fixed_ok:
  assumes "CBB_init_fixed e b = (True, cbb)" "length b < 2 ^ 64"
  shows "rep cbb ([], []) \<and> env cbb = e"
  using assms
  by (auto simp: CBB_init_fixed_def cbb_init_def CBB_zero_def rep_def buffer_ok_def frames_bytes_def
      split: prod.splits bool.splits if_splits)

lemma abs_flush_0: "abs_flush 0 a = map_option (\<lambda>t. (fst a @ t, [])) (close_frames (snd a))"
  by (simp add: abs_flush_def)

lemma CBB_finish_ok:
  assumes r: "rep cbb a" and f: "CBB_finish 0 given cbb = (res, cbb')"
  shows "(\<forall>out. res = Some out \<longrightarrow> (\<exists>t. close_frames (snd a) = Some t \<and> out = fst a @ t))"
    and "res = None \<Longrightarrow> given \<Longrightarrow> unlimited_cbb cbb \<Longrightarrow> close_frames (snd a) = Some t \<Longrightarrow>
      2 ^ 64 \<le> length (fst a @ t)"
proof -
  obtain ok c where c: "CBB_flush 0 cbb = (ok, c)" by (cases "CBB_flush 0 cbb")
  note F = CBB_flush_ok [OF r le0 c]
  have ok: "\<exists>t b. close_frames (snd a) = Some t \<and> base c = Some b \<and> take (len b) (buf b) = fst a @ t"
    if ok
  proof -
    from F that obtain a' where a': "abs_flush 0 a = Some a'" "rep c a'" by blast
    then obtain t where t: "close_frames (snd a) = Some t" "a' = (fst a @ t, [])"
      by (auto simp: abs_flush_0)
    with a'(2) obtain b where "base c = Some b" "buffer_ok b (fst a @ t)"
      by (auto simp: rep_def frames_bytes_def)
    then show ?thesis using t by (auto simp: buffer_ok_def)
  qed
  show "\<forall>out. res = Some out \<longrightarrow> (\<exists>t. close_frames (snd a) = Some t \<and> out = fst a @ t)"
    using f c ok by (auto simp: CBB_finish_def split: bool.splits if_splits option.splits)
  assume "res = None" given "unlimited_cbb cbb" "close_frames (snd a) = Some t"
  moreover from this have "\<not> ok"
    using f c ok by (auto simp: CBB_finish_def split: if_splits)
  ultimately show "2 ^ 64 \<le> length (fst a @ t)"
    using F by (auto simp: abs_flush_0 frames_bytes_def)
qed

text \<open>
  A writer on a fresh \<open>CBB\<close>: what \<open>CBB_finish\<close> returns is what was appended, and with a working
  allocator nothing fails short of the end of the address space.
\<close>

definition built :: "mem_env \<Rightarrow> nat \<Rightarrow> writer \<Rightarrow> u8 list option" where
  "built e n w =
     (case CBB_init e n of
        (False, _) \<Rightarrow> None
      | (True, cbb) \<Rightarrow>
          (case w 0 cbb of (False, _) \<Rightarrow> None | (True, cbb) \<Rightarrow> fst (CBB_finish 0 True cbb)))"

lemma built_Some:
  assumes w: "appends w ot" and n: "n < 2 ^ 64" and b: "built e n w = Some out"
  shows "ot = Some out"
proof -
  from b obtain cbb cbb1 cbb2 where i: "CBB_init e n = (True, cbb)" and w1: "w 0 cbb = (True, cbb1)"
    and f: "CBB_finish 0 True cbb1 = (Some out, cbb2)"
    by (auto simp: built_def prod_eq_iff split: prod.splits bool.splits)
  have r: "rep cbb ([], [])" using CBB_init_ok [OF i n] by simp
  from appends_ok [OF w r] w1 obtain t where t: "ot = Some t" "rep cbb1 (t, [])" by auto
  from CBB_finish_ok(1) [OF t(2) f] t(1) show ?thesis by simp
qed

lemma built_success:
  assumes w: "appends w (Some t)" and n: "n < 2 ^ 64" and m: "\<forall>k. malloc_ok e k"
    and t: "length t < 2 ^ 64"
  shows "built e n w = Some t"
proof -
  obtain cbb where i: "CBB_init e n = (True, cbb)" using CBB_init_success [OF m] by blast
  have r: "rep cbb ([], [])" "unlimited_cbb cbb" using CBB_init_ok [OF i n] m by simp_all
  obtain ok cbb1 where w1: "w 0 cbb = (ok, cbb1)" by (cases "w 0 cbb")
  have ok using appends_fail [OF w r(1) _ r(2), of cbb1] w1 t
    by (cases ok) (auto simp: frames_bytes_def)
  with w1 appends_ok [OF w r(1), of cbb1] r(2) have r1: "rep cbb1 (t, [])" "unlimited_cbb cbb1" by auto
  obtain res cbb2 where f: "CBB_finish 0 True cbb1 = (res, cbb2)" by (cases "CBB_finish 0 True cbb1")
  from CBB_finish_ok [OF r1(1) f] r1(2) t have "res = Some t"
    by (cases res) auto
  with i w1 \<open>ok\<close> f show ?thesis by (simp add: built_def)
qed

text \<open>An allocator that never fails.\<close>

definition plain_env :: mem_env where
  "plain_env = \<lparr>malloc_ok = \<lambda>_. True, garbage = \<lambda>_. 0\<rparr>"

lemma malloc_ok_plain_env [simp]: "malloc_ok plain_env n"
  by (simp add: plain_env_def)

lemmas der_eval = der_element_def der_header_def der_tag_def der_length_def der_int_def der_uint_def
  int_magnitude_def signed_len_def byte_len.simps base128_def base128_high.simps
  CBS_ASN1_INTEGER_def CBS_ASN1_OCTETSTRING_def CBS_ASN1_BOOLEAN_def Let_def

end
