(* ===== verification/Oid.thy ===== *)
theory Oid
  imports Cbb_Writes
begin

text \<open>
  Object identifiers: \<open>CBB_add_asn1_oid_from_text\<close> (\<open>cbb.c\<close>) reads dotted decimal text and writes
  DER contents, \<open>CBS_asn1_oid_to_text\<close> (\<open>cbs.c\<close>) goes back. The specification is a list of arcs
  with its text and its contents octets; both functions are exactly the two encodings, so that
  the round trips in both directions follow.
\<close>

unbundle bit_operations_syntax

declare of_nat_add [simp del] of_nat_mult [simp del] push_bit_and [simp del]

section \<open>The code\<close>

definition ascii_dot :: u8 where
  "ascii_dot = 0x2e"

text \<open>The loop of \<open>parse_dotted_decimal\<close> with its locals \<open>*out\<close> and \<open>seen_digit\<close>.\<close>

fun dotted_decimal_loop :: "u64 \<Rightarrow> bool \<Rightarrow> u64 reader" where
  "dotted_decimal_loop out seen_digit [] = ((if seen_digit then Some out else None), [])"
| "dotted_decimal_loop out seen_digit (u # cbs) =
     (if u = ascii_dot \<and> length cbs > 0 then ((if seen_digit then Some out else None), cbs)
      else if u < 0x30 \<or> u > 0x39 \<or> (seen_digit \<and> out = 0) \<or>
              out > (- 1) div 10 \<or> out * 10 > - 1 - ucast (u - 0x30)
      then (None, cbs)
      else dotted_decimal_loop (out * 10 + ucast (u - 0x30)) True cbs)"

definition parse_dotted_decimal :: "u64 reader" where
  "parse_dotted_decimal = dotted_decimal_loop 0 False"

lemma dotted_decimal_loop_length:
  "dotted_decimal_loop out seen cbs = (Some v, rest) \<Longrightarrow> length rest \<le> length cbs - 1"
proof (induction out seen cbs arbitrary: v rest rule: dotted_decimal_loop.induct)
  case (2 out seen u cbs)
  then show ?case by (auto split: if_splits dest!: "2.IH")
qed (auto split: if_splits)

function add_oid_components :: "nat \<Rightarrow> u8 list \<Rightarrow> cbb \<Rightarrow> bool \<times> cbb" where
  "add_oid_components d cbs =
     (if length cbs > 0 then
        (case parse_dotted_decimal cbs of
           (None, _) \<Rightarrow> wfail
         | (Some a, cbs) \<Rightarrow> wbind (add_base128_integer d a) (add_oid_components d cbs))
      else wreturn)"
  by pat_completeness auto
termination
  by (relation "measure (\<lambda>(d, cbs). length cbs)")
    (auto simp: parse_dotted_decimal_def neq_Nil_conv dest!: sym [of "(_, _)"] dotted_decimal_loop_length)

declare add_oid_components.simps [simp del]

definition CBB_add_asn1_oid_from_text :: "nat \<Rightarrow> u8 list \<Rightarrow> cbb \<Rightarrow> bool \<times> cbb" where
  "CBB_add_asn1_oid_from_text d text =
     wbind (CBB_flush d)
       (case parse_dotted_decimal (CBS_init text) of
          (None, _) \<Rightarrow> wfail
        | (Some a, cbs) \<Rightarrow>
            (case parse_dotted_decimal cbs of
               (None, _) \<Rightarrow> wfail
             | (Some b, cbs) \<Rightarrow>
                 if a > 2 \<or> a < 2 \<and> b > 39 \<or> b > - 1 - 80 then wfail
                 else wbind (add_base128_integer d (40 * a + b)) (add_oid_components d cbs)))"

text \<open>\<open>snprintf\<close> with \<open>PRIu64\<close>.\<close>

fun print_u64 :: "nat \<Rightarrow> u8 list" where
  "print_u64 v = (if v < 10 then [] else print_u64 (v div 10)) @ [of_nat (0x30 + v mod 10)]"

declare print_u64.simps [simp del]

definition add_decimal :: "nat \<Rightarrow> u64 \<Rightarrow> cbb \<Rightarrow> bool \<times> cbb" where
  "add_decimal d v = CBB_add_bytes d (print_u64 (unat v))"

lemma parse_base128_length: "parse_base128_integer cbs = (Some v, rest) \<Longrightarrow> length rest < length cbs"
  using base128.dec_Some [of cbs v rest] base128.enc_nonempty [of v] by auto

function oid_to_text_loop :: "nat \<Rightarrow> u8 list \<Rightarrow> cbb \<Rightarrow> bool \<times> cbb" where
  "oid_to_text_loop d cbs =
     (if CBS_len cbs \<noteq> 0 then
        (case parse_base128_integer cbs of
           (None, _) \<Rightarrow> wfail
         | (Some v, cbs) \<Rightarrow>
             wbind (CBB_add_u8 d ascii_dot) (wbind (add_decimal d v) (oid_to_text_loop d cbs)))
      else wreturn)"
  by pat_completeness auto
termination
  by (relation "measure (\<lambda>(d, cbs). length cbs)") (auto dest!: sym [of "(_, _)"] parse_base128_length)

declare oid_to_text_loop.simps [simp del]

text \<open>\<open>d\<close> is the depth of the \<open>CBB\<close> (0: the function has its own).\<close>

definition oid_to_text_body :: "nat \<Rightarrow> u64 \<Rightarrow> u8 list \<Rightarrow> cbb \<Rightarrow> bool \<times> cbb" where
  "oid_to_text_body d v copy =
     wbind (if v \<ge> 80 then wbind (CBB_add_bytes d [0x32, ascii_dot]) (add_decimal d (v - 80))
            else wbind (add_decimal d (v div 40))
                   (wbind (CBB_add_u8 d ascii_dot) (add_decimal d (v mod 40))))
       (wbind (oid_to_text_loop d copy) (CBB_add_u8 d 0))"

definition CBS_asn1_oid_to_text :: "mem_env \<Rightarrow> cbs \<Rightarrow> u8 list option" where
  "CBS_asn1_oid_to_text e cbs =
     (case CBB_init e 32 of
        (False, _) \<Rightarrow> None
      | (True, cbb) \<Rightarrow>
          (case parse_base128_integer cbs of
             (None, _) \<Rightarrow> None
           | (Some v, copy) \<Rightarrow>
               (case oid_to_text_body 0 v copy cbb of
                  (False, _) \<Rightarrow> None
                | (True, cbb) \<Rightarrow> fst (CBB_finish 0 True cbb))))"

section \<open>Decimal text\<close>

definition digit :: "u8 \<Rightarrow> bool" where
  "digit u \<longleftrightarrow> 0x30 \<le> u \<and> u \<le> 0x39"

definition digit_val :: "u8 \<Rightarrow> nat" where
  "digit_val u = unat u - 0x30"

definition decimal_val :: "nat \<Rightarrow> u8 list \<Rightarrow> nat" where
  "decimal_val p ds = foldl (\<lambda>v u. v * 10 + digit_val u) p ds"

lemma digit_iff: "digit u \<longleftrightarrow> 48 \<le> unat u \<and> unat u < 58"
  by (auto simp: digit_def word_le_nat_alt)

lemma digit_val_less: "digit u \<Longrightarrow> digit_val u < 10"
  by (auto simp: digit_iff digit_val_def)

lemma digit_of_nat: "k < 10 \<Longrightarrow> digit (of_nat (48 + k)) \<and> digit_val (of_nat (48 + k)) = k"
  by (simp add: digit_iff digit_val_def)

lemma of_digit_val: "digit u \<Longrightarrow> of_nat (48 + digit_val u) = u"
  by (rule word_unat_eq_iff [THEN iffD2]) (simp add: digit_iff digit_val_def)

lemma digit_not_dot: "digit u \<Longrightarrow> u \<noteq> ascii_dot"
  by (auto simp: digit_iff ascii_dot_def)

lemma digit_sub: "digit u \<Longrightarrow> unat (ucast (u - 0x30) :: u64) = digit_val u"
  by (simp add: digit_def digit_val_def unat_sub)

lemma decimal_val_ge: "p \<le> decimal_val p ds"
proof (induction ds arbitrary: p)
  case (Cons u ds)
  from Cons [of "p * 10 + digit_val u"] show ?case by (simp add: decimal_val_def)
qed (simp add: decimal_val_def)

text \<open>The printed form of \<open>v\<close> is the one digit string without a redundant leading zero.\<close>

definition canonical :: "u8 list \<Rightarrow> bool" where
  "canonical ds \<longleftrightarrow> list_all digit ds \<and> ds \<noteq> [] \<and> (digit_val (hd ds) = 0 \<longrightarrow> tl ds = [])"

lemma print_u64_canonical: "canonical (print_u64 v) \<and> decimal_val 0 (print_u64 v) = v \<and>
    (0 < v \<longrightarrow> digit_val (hd (print_u64 v)) \<noteq> 0)"
proof (induction v rule: print_u64.induct)
  case (1 v)
  note d = digit_of_nat [of "v mod 10", simplified]
  show ?case
  proof (cases "v < 10")
    case True
    then show ?thesis using d by (subst (1 2 3) print_u64.simps) (simp add: canonical_def decimal_val_def)
  next
    case False
    let ?q = "print_u64 (v div 10)"
    have IH: "canonical ?q" "decimal_val 0 ?q = v div 10" "digit_val (hd ?q) \<noteq> 0"
      using "1.IH" [OF False] False by (auto simp: div_greater_zero_iff)
    have "print_u64 v = ?q @ [of_nat (48 + v mod 10)]"
      using False by (subst print_u64.simps) simp
    then show ?thesis using IH d False by (auto simp: canonical_def decimal_val_def hd_append)
  qed
qed

lemma print_u64_unique:
  assumes "list_all digit ds" "ds \<noteq> []" "digit_val (hd ds) = 0 \<longrightarrow> tl ds = []"
  shows "print_u64 (decimal_val 0 ds) = ds"
  using assms
proof (induction ds rule: rev_induct)
  case (snoc u ds)
  then have u: "digit u" by simp
  show ?case
  proof (cases "ds = []")
    case True
    then show ?thesis
      using digit_val_less [OF u] of_digit_val [OF u]
      by (subst print_u64.simps) (simp add: decimal_val_def)
  next
    case False
    then have h: "digit_val (hd ds) \<noteq> 0" using snoc.prems(3) by auto
    have IH: "print_u64 (decimal_val 0 ds) = ds" using snoc False h by auto
    have "0 < decimal_val 0 ds"
      using decimal_val_ge [of "digit_val (hd ds)" "tl ds"] h False
      by (cases ds) (simp_all add: decimal_val_def)
    moreover have "decimal_val 0 (ds @ [u]) = decimal_val 0 ds * 10 + digit_val u"
      by (simp add: decimal_val_def)
    ultimately show ?thesis
      using digit_val_less [OF u] of_digit_val [OF u] IH
      by (subst print_u64.simps) simp
  qed
qed simp

section \<open>The parser accepts exactly the printed components\<close>

text \<open>A component ends at the end of the text or at a dot that is not the last character.\<close>

definition terminates :: "u8 list \<Rightarrow> u8 list \<Rightarrow> bool" where
  "terminates cbs rest \<longleftrightarrow> (cbs = [] \<and> rest = []) \<or> (cbs = ascii_dot # rest \<and> rest \<noteq> [])"

lemma step_overflow:
  assumes "digit u"
  shows "(out > (- 1) div 10 \<or> out * 10 > - 1 - ucast (u - 0x30)) \<longleftrightarrow>
      2 ^ 64 \<le> unat (out :: u64) * 10 + digit_val u"
    and "unat out * 10 + digit_val u < 2 ^ 64 \<Longrightarrow>
      unat (out * 10 + ucast (u - 0x30)) = unat out * 10 + digit_val u"
proof -
  have m1: "unat (- 1 :: u64) = 2 ^ 64 - 1"
    by (simp only: unsigned_minus_1_eq_mask) (simp add: mask_eq_exp_minus_1)
  have c: "out > (- 1) div 10 \<longleftrightarrow> (2 ^ 64 - 1) div 10 < unat out"
    by (simp only: word_less_nat_alt unat_div m1) simp
  have s: "unat (- 1 - ucast (u - 0x30) :: u64) = 2 ^ 64 - 1 - digit_val u"
    by (subst unat_sub) (simp_all only: m1 digit_sub [OF assms] word_order.extremum)
  have m: "unat (out * 10) = unat out * 10" if "unat out \<le> (2 ^ 64 - 1) div 10"
  proof -
    have "unat out * 10 < 2 ^ 64" using that by simp
    then show ?thesis by (simp add: unat_word_ariths)
  qed
  show "(out > (- 1) div 10 \<or> out * 10 > - 1 - ucast (u - 0x30)) \<longleftrightarrow>
      2 ^ 64 \<le> unat out * 10 + digit_val u"
  proof (cases "(2 ^ 64 - 1) div 10 < unat out")
    case True
    then show ?thesis unfolding c by simp
  next
    case False
    then have le: "unat out \<le> (2 ^ 64 - 1) div 10" by simp
    show ?thesis
      using digit_val_less [OF assms] le unfolding c word_less_nat_alt s m [OF le] by auto
  qed
  assume "unat out * 10 + digit_val u < 2 ^ 64"
  then show "unat (out * 10 + ucast (u - 0x30)) = unat out * 10 + digit_val u"
    by (simp add: unat_word_ariths digit_sub [OF assms])
qed

lemma dotted_decimal_loop_iff:
  "dotted_decimal_loop out True cbs = (Some v, rest) \<longleftrightarrow>
     (\<exists>ds term. cbs = ds @ term \<and> terminates term rest \<and> list_all digit ds \<and>
        (unat out = 0 \<longrightarrow> ds = []) \<and> unat v = decimal_val (unat out) ds)"
proof (induction cbs arbitrary: out)
  case Nil
  show ?case by (auto simp: terminates_def decimal_val_def word_unat_eq_iff)
next
  case (Cons u cbs)
  have eqv: "out = v \<longleftrightarrow> unat v = unat out" by (auto simp: word_unat_eq_iff)
  consider "u = ascii_dot" | "u \<noteq> ascii_dot" "\<not> digit u" | "digit u" "u \<noteq> ascii_dot"
    using digit_not_dot by blast
  then show ?case
  proof cases
    case 1
    then have "u < 0x30" by (simp add: ascii_dot_def)
    have nd: "\<not> digit u" using 1 digit_not_dot by blast
    show ?thesis
    proof (cases "cbs = []")
      case True
      with \<open>u < 0x30\<close> nd 1 show ?thesis by (auto simp: Cons_eq_append_conv terminates_def)
    next
      case False
      with nd 1 show ?thesis
        by (auto simp: Cons_eq_append_conv terminates_def decimal_val_def eqv)
    qed
  next
    case 2
    then have "u < 0x30 \<or> u > 0x39" by (auto simp: digit_def)
    with 2 show ?thesis by (auto simp: Cons_eq_append_conv terminates_def)
  next
    case 3
    then have range: "\<not> u < 0x30" "\<not> u > 0x39" by (auto simp: digit_def)
    have out0: "out = 0 \<longleftrightarrow> unat out = 0" by (simp add: unat_eq_zero)
    have ds: "(\<exists>ds term. u # cbs = ds @ term \<and> terminates term rest \<and> list_all digit ds \<and>
          (unat out = 0 \<longrightarrow> ds = []) \<and> unat v = decimal_val (unat out) ds) \<longleftrightarrow>
        unat out \<noteq> 0 \<and> (\<exists>ds term. cbs = ds @ term \<and> terminates term rest \<and> list_all digit ds \<and>
          unat v = decimal_val (unat out * 10 + digit_val u) ds)"
      using 3 by (auto simp: Cons_eq_append_conv terminates_def decimal_val_def)
    show ?thesis
    proof (cases "2 ^ 64 \<le> unat out * 10 + digit_val u")
      case True
      have "2 ^ 64 \<le> decimal_val (unat out * 10 + digit_val u) ds" for ds
        using True decimal_val_ge by (rule le_trans)
      moreover have "unat v < 2 ^ 64" using unat_less_exp [of v] by simp
      ultimately have "unat v \<noteq> decimal_val (unat out * 10 + digit_val u) ds" for ds
        by (metis not_le)
      then show ?thesis
        unfolding ds using True step_overflow(1) [OF 3(1), of out] 3(2) by (simp only: dotted_decimal_loop.simps) simp
    next
      case False
      then have out': "unat (out * 10 + ucast (u - 0x30)) = unat out * 10 + digit_val u"
        by (intro step_overflow(2) [OF 3(1)]) simp
      show ?thesis
      proof (cases "out = 0")
        case True
        then show ?thesis unfolding ds using 3(2) by simp
      next
        case nz: False
        have "dotted_decimal_loop out True (u # cbs)
            = dotted_decimal_loop (out * 10 + ucast (u - 0x30)) True cbs"
          using False step_overflow(1) [OF 3(1), of out] nz range 3(2)
          by (simp only: dotted_decimal_loop.simps) simp
        then show ?thesis
          unfolding ds using Cons.IH [of "out * 10 + ucast (u - 0x30)"] nz by (simp add: out' out0)
      qed
    qed
  qed
qed

lemma parse_dotted_decimal_iff:
  "parse_dotted_decimal cbs = (Some v, rest) \<longleftrightarrow>
     (\<exists>term. cbs = print_u64 (unat v) @ term \<and> terminates term rest)"
proof -
  note pc = print_u64_canonical [of "unat v"]
  obtain p ps where p: "print_u64 (unat v) = p # ps" "digit p" "list_all digit ps"
    "digit_val p = 0 \<longrightarrow> ps = []"
    using pc by (cases "print_u64 (unat v)") (auto simp: canonical_def)
  show ?thesis
  proof (cases cbs)
    case Nil
    then show ?thesis by (simp add: parse_dotted_decimal_def p)
  next
    case (Cons u cs)
    show ?thesis
    proof (cases "digit u")
      case False
      then have "u < 0x30 \<or> u > 0x39" by (auto simp: digit_def)
      then show ?thesis using False p by (auto simp: Cons parse_dotted_decimal_def)
    next
      case True
      then have range: "\<not> u < 0x30" "\<not> u > 0x39" "u \<noteq> ascii_dot"
        using digit_not_dot by (auto simp: digit_def)
      have small: "unat (0 :: u64) * 10 + digit_val u < 2 ^ 64" using digit_val_less [OF True] by simp
      have "unat (0 * 10 + ucast (u - 0x30) :: u64) = digit_val u"
        using step_overflow(2) [OF True small] by simp
      then have first: "unat (ucast (u - 0x30) :: u64) = digit_val u" by simp
      have "\<not> ((0 :: u64) > (- 1) div 10 \<or> (0 :: u64) * 10 > - 1 - ucast (u - 0x30))"
        using small by (subst step_overflow(1) [OF True]) (simp only: not_le)
      then have "parse_dotted_decimal cbs = dotted_decimal_loop (ucast (u - 0x30)) True cs"
        using range by (simp only: Cons parse_dotted_decimal_def dotted_decimal_loop.simps) simp
      then have "parse_dotted_decimal cbs = (Some v, rest) \<longleftrightarrow>
          (\<exists>ds term. cs = ds @ term \<and> terminates term rest \<and> list_all digit ds \<and>
             (digit_val u = 0 \<longrightarrow> ds = []) \<and> unat v = decimal_val (digit_val u) ds)"
        by (simp only: dotted_decimal_loop_iff first)
      also have "\<dots> \<longleftrightarrow> (\<exists>term. u # cs = print_u64 (unat v) @ term \<and> terminates term rest)"
      proof
        assume "\<exists>ds term. cs = ds @ term \<and> terminates term rest \<and> list_all digit ds \<and>
             (digit_val u = 0 \<longrightarrow> ds = []) \<and> unat v = decimal_val (digit_val u) ds"
        then obtain ds t where ds: "cs = ds @ t" "terminates t rest" "list_all digit ds"
          "digit_val u = 0 \<longrightarrow> ds = []" "unat v = decimal_val (digit_val u) ds"
          by (elim exE conjE) (rule that)
        have "print_u64 (decimal_val 0 (u # ds)) = u # ds"
          using ds(3,4) True by (intro print_u64_unique) simp_all
        moreover have "decimal_val 0 (u # ds) = unat v" by (simp add: ds(5)) (simp add: decimal_val_def)
        ultimately have "print_u64 (unat v) = u # ds" by (simp only:)
        then show "\<exists>term. u # cs = print_u64 (unat v) @ term \<and> terminates term rest"
          using ds(1,2) by (intro exI [of _ t]) simp
      next
        assume "\<exists>term. u # cs = print_u64 (unat v) @ term \<and> terminates term rest"
        then obtain t where t: "u = p" "cs = ps @ t" "terminates t rest" by (auto simp: p)
        have "decimal_val 0 (p # ps) = unat v" using pc by (simp add: p(1))
        then have dv: "unat v = decimal_val (digit_val u) ps" by (simp add: decimal_val_def t(1))
        have "digit_val u = 0 \<longrightarrow> ps = []" using p(4) t(1) by simp
        then show "\<exists>ds term. cs = ds @ term \<and> terminates term rest \<and> list_all digit ds \<and>
             (digit_val u = 0 \<longrightarrow> ds = []) \<and> unat v = decimal_val (digit_val u) ds"
          by (intro exI [of _ ps] exI [of _ t] conjI t(2,3) p(3) dv)
      qed
      finally show ?thesis by (simp only: Cons)
    qed
  qed
qed

section \<open>Dotted text\<close>

text \<open>The text of a sequence of components.\<close>

fun join_dots :: "u64 list \<Rightarrow> u8 list" where
  "join_dots [] = []"
| "join_dots [c] = print_u64 (unat c)"
| "join_dots (c # d # cs) = print_u64 (unat c) @ ascii_dot # join_dots (d # cs)"

lemma print_u64_nonempty [simp]: "print_u64 v \<noteq> []"
  by (subst print_u64.simps) simp

lemma join_dots_eq_Nil_iff [simp]: "join_dots cs = [] \<longleftrightarrow> cs = []"
  by (cases cs rule: join_dots.cases) auto

lemma parse_dotted_join:
  "parse_dotted_decimal t = (Some c, join_dots cs) \<longleftrightarrow> t = join_dots (c # cs)"
  by (cases cs) (auto simp: parse_dotted_decimal_iff terminates_def)

lemma parse_dotted_length:
  "parse_dotted_decimal t = (Some c, rest) \<Longrightarrow> t \<noteq> [] \<and> length rest < length t"
  by (auto simp: parse_dotted_decimal_iff terminates_def)

lemma read_many_dotted_unfold:
  "read_many parse_dotted_decimal t =
     (if t = [] then Some []
      else case parse_dotted_decimal t of
             (None, _) \<Rightarrow> None
           | (Some c, rest) \<Rightarrow> map_option ((#) c) (read_many parse_dotted_decimal rest))"
  by (subst read_many.simps) (auto dest: parse_dotted_length split: prod.splits option.splits)

lemma read_many_dotted_iff: "read_many parse_dotted_decimal t = Some cs \<longleftrightarrow> t = join_dots cs"
proof (induction cs arbitrary: t)
  case Nil
  show ?case
    by (subst read_many_dotted_unfold) (auto split: prod.splits option.splits)
next
  case (Cons c cs)
  have "read_many parse_dotted_decimal t = Some (c # cs) \<longleftrightarrow>
      t \<noteq> [] \<and> (\<exists>rest. parse_dotted_decimal t = (Some c, rest) \<and> read_many parse_dotted_decimal rest = Some cs)"
    by (subst read_many_dotted_unfold) (auto split: prod.splits option.splits)
  also have "\<dots> \<longleftrightarrow> t \<noteq> [] \<and> parse_dotted_decimal t = (Some c, join_dots cs)"
    by (simp add: Cons.IH)
  also have "\<dots> \<longleftrightarrow> t = join_dots (c # cs)"
    using parse_dotted_length [of t c "join_dots cs"] parse_dotted_join [of t c cs] by auto
  finally show ?case .
qed

section \<open>\<open>CBB_add_asn1_oid_from_text\<close>\<close>

definition base128_all :: "u64 list \<Rightarrow> u8 list" where
  "base128_all cs = concat (map (\<lambda>c. base128 (unat c)) cs)"

text \<open>The first two arcs share one integer.\<close>

definition oid_arcs_valid :: "u64 \<Rightarrow> u64 \<Rightarrow> bool" where
  "oid_arcs_valid a b \<longleftrightarrow> unat a \<le> 2 \<and> (unat a < 2 \<longrightarrow> unat b < 40) \<and> unat b + 80 < 2 ^ 64"

definition oid_contents :: "u64 \<Rightarrow> u64 \<Rightarrow> u64 list \<Rightarrow> u8 list" where
  "oid_contents a b cs = base128 (40 * unat a + unat b) @ base128_all cs"

lemma appends_fail_writer: "appends (\<lambda>d. wfail) None"
  by (rule appendsI) (auto simp: wfail_def)

lemma appends_components:
  "appends (\<lambda>d. add_oid_components d t) (map_option base128_all (read_many parse_dotted_decimal t))"
proof (induction "length t" arbitrary: t rule: less_induct)
  case less
  show ?case
  proof (cases "t = []")
    case True
    then show ?thesis
      by (subst add_oid_components.simps, subst read_many_dotted_unfold)
        (simp add: appends_return base128_all_def)
  next
    case nempty: False
    show ?thesis
    proof (cases "fst (parse_dotted_decimal t)")
      case None
      with nempty show ?thesis
        by (subst add_oid_components.simps, subst read_many_dotted_unfold)
          (simp add: appends_fail_writer prod.case_eq_if)
    next
      case (Some c)
      then obtain rest where p: "parse_dotted_decimal t = (Some c, rest)" by (metis prod.collapse)
      have "length rest < length t" using parse_dotted_length [OF p] by simp
      from appends_bind [OF appends_base128 less [OF this], of c] show ?thesis
        using nempty
        by (subst add_oid_components.simps, subst read_many_dotted_unfold)
          (simp add: p option.map_comp comp_def base128_all_def)
    qed
  qed
qed

definition oid_from_arcs :: "u64 list \<Rightarrow> u8 list option" where
  "oid_from_arcs arcs =
     (case arcs of
        a # b # cs \<Rightarrow> if oid_arcs_valid a b then Some (oid_contents a b cs) else None
      | _ \<Rightarrow> None)"

lemma oid_first_integer:
  assumes "oid_arcs_valid a b"
  shows "unat (40 * a + b) = 40 * unat a + unat b"
proof -
  have "40 * unat a + unat b < 2 ^ 64"
    using assms by (auto simp: oid_arcs_valid_def)
  then show ?thesis by (simp add: unat_word_ariths)
qed

lemma oid_arcs_valid_iff:
  "oid_arcs_valid a b \<longleftrightarrow> \<not> (a > 2 \<or> a < 2 \<and> b > 39 \<or> b > - 1 - 80)"
proof -
  have "unat (- 1 - 80 :: u64) = 2 ^ 64 - 81" by simp
  then show ?thesis
    by (auto simp: oid_arcs_valid_def word_less_nat_alt not_less)
qed

lemma appends_oid_from_text:
  "appends (\<lambda>d. CBB_add_asn1_oid_from_text d text)
     (Option.bind (read_many parse_dotted_decimal text) oid_from_arcs)"
  (is "appends _ (?spec text)")
  unfolding CBB_add_asn1_oid_from_text_def CBS_init_def
proof (rule appends_flush_bind)
  have nospec: "?spec text = None" if "fst (parse_dotted_decimal text) = None"
    using that by (subst read_many_dotted_unfold) (simp add: oid_from_arcs_def prod.case_eq_if)
  show "appends (\<lambda>d. case parse_dotted_decimal text of
          (None, _) \<Rightarrow> wfail
        | (Some a, cbs) \<Rightarrow>
            (case parse_dotted_decimal cbs of
               (None, _) \<Rightarrow> wfail
             | (Some b, cbs) \<Rightarrow>
                 if a > 2 \<or> a < 2 \<and> b > 39 \<or> b > - 1 - 80 then wfail
                 else wbind (add_base128_integer d (40 * a + b)) (add_oid_components d cbs)))
     (?spec text)"
  proof (cases "parse_dotted_decimal text")
    case (Pair oa r)
    show ?thesis
    proof (cases oa)
      case None
      with Pair nospec show ?thesis by (simp add: appends_fail_writer)
    next
      case a: (Some a)
      obtain ob r2 where Pair2: "parse_dotted_decimal r = (ob, r2)" by (cases "parse_dotted_decimal r")
      show ?thesis
      proof (cases ob)
        case None
        then have "read_many parse_dotted_decimal r = (if r = [] then Some [] else None)"
          by (subst read_many_dotted_unfold) (simp add: Pair2)
        then have "?spec text = None"
          by (subst read_many_dotted_unfold) (simp add: Pair a oid_from_arcs_def)
        with Pair a Pair2 None show ?thesis by (simp add: appends_fail_writer)
      next
        case b: (Some b)
        have ne: "text \<noteq> []" "r \<noteq> []"
          using parse_dotted_length [of "text"] parse_dotted_length [of r] Pair a Pair2 b by auto
        have "read_many parse_dotted_decimal text
            = map_option (\<lambda>cs. a # b # cs) (read_many parse_dotted_decimal r2)"
          using ne by (subst read_many_dotted_unfold, subst read_many_dotted_unfold)
            (simp add: Pair a Pair2 b option.map_comp comp_def)
        then have spec: "?spec text = (if oid_arcs_valid a b
            then map_option (oid_contents a b) (read_many parse_dotted_decimal r2) else None)"
          by (cases "read_many parse_dotted_decimal r2") (simp_all add: oid_from_arcs_def)
        have cond: "(2 < a \<or> a < 2 \<and> 39 < b \<or> - 81 < b) = (\<not> oid_arcs_valid a b)"
          using oid_arcs_valid_iff [of a b] by simp
        show ?thesis
        proof (cases "oid_arcs_valid a b")
          case True
          then show ?thesis
            using appends_bind [OF appends_base128 appends_components, of "40 * a + b" r2]
            unfolding spec
            by (simp add: Pair a Pair2 b cond oid_first_integer
                option.map_comp comp_def oid_contents_def [abs_def])
        next
          case False
          then show ?thesis
            unfolding spec by (simp add: Pair a Pair2 b cond appends_fail_writer)
        qed
      qed
    qed
  qed
qed

section \<open>\<open>CBS_asn1_oid_to_text\<close>\<close>

lemma length_print_u64: "v < 10 ^ Suc k \<Longrightarrow> length (print_u64 v) \<le> Suc k"
proof (induction k arbitrary: v)
  case 0
  then show ?case by (subst print_u64.simps) simp
next
  case (Suc k)
  then have "v div 10 < 10 ^ Suc k" by (simp add: div_less_iff_less_mult mult.commute)
  from Suc.IH [OF this] show ?case by (subst print_u64.simps) simp
qed

lemma appends_decimal: "appends (\<lambda>d. add_decimal d v) (Some (print_u64 (unat v)))"
proof -
  have "unat v < 10 ^ Suc 19" using unat_less_exp [of v] by simp
  then have "length (print_u64 (unat v)) \<le> Suc 19" by (rule length_print_u64)
  then show ?thesis unfolding add_decimal_def by (intro appends_bytes) simp
qed

definition dotted_tail :: "u64 list \<Rightarrow> u8 list" where
  "dotted_tail cs = concat (map (\<lambda>c. ascii_dot # print_u64 (unat c)) cs)"

lemma join_dots_tail: "join_dots (c # cs) = print_u64 (unat c) @ dotted_tail cs"
  by (induction cs arbitrary: c) (simp_all add: dotted_tail_def)

lemma appends_to_text_loop:
  "appends (\<lambda>d. oid_to_text_loop d t) (map_option dotted_tail (read_many parse_base128_integer t))"
proof (induction "length t" arbitrary: t rule: less_induct)
  case less
  show ?case
  proof (cases "t = []")
    case True
    then show ?thesis
      by (subst oid_to_text_loop.simps, subst base128.read_many_unfold)
        (simp add: appends_return dotted_tail_def CBS_len_def)
  next
    case nempty: False
    show ?thesis
    proof (cases "fst (parse_base128_integer t)")
      case None
      with nempty show ?thesis
        by (subst oid_to_text_loop.simps, subst base128.read_many_unfold)
          (simp add: appends_fail_writer prod.case_eq_if CBS_len_def)
    next
      case (Some c)
      then obtain rest where p: "parse_base128_integer t = (Some c, rest)" by (metis prod.collapse)
      have "length rest < length t" using parse_base128_length [OF p] by simp
      from appends_bind [OF appends_u8 appends_bind [OF appends_decimal less [OF this]], of ascii_dot c]
      show ?thesis
        using nempty
        by (subst oid_to_text_loop.simps, subst base128.read_many_unfold)
          (simp add: p option.map_comp comp_def dotted_tail_def CBS_len_def)
    qed
  qed
qed

text \<open>The two arcs packed into the first integer.\<close>

definition first_arcs :: "u64 \<Rightarrow> u64 \<times> u64" where
  "first_arcs v = (if v \<ge> 80 then (2, v - 80) else (v div 40, v mod 40))"

lemma pack_arcs_ge:
  fixes n x y :: nat
  assumes "80 \<le> n" "n < 2 ^ 64"
  shows "(2 = x \<and> n - 80 = y) \<longleftrightarrow> x \<le> 2 \<and> (x < 2 \<longrightarrow> y < 40) \<and> y + 80 < 2 ^ 64 \<and> n = 40 * x + y"
  using assms by (cases "x \<le> 1") auto

lemma pack_arcs_less:
  fixes n x y :: nat
  assumes "n < 80"
  shows "(n div 40 = x \<and> n mod 40 = y) \<longleftrightarrow> x \<le> 2 \<and> (x < 2 \<longrightarrow> y < 40) \<and> y + 80 < 2 ^ 64 \<and> n = 40 * x + y"
proof -
  have "n = 40 * (n div 40) + n mod 40" "n div 40 \<le> 1" "n mod 40 < 40"
    using assms by (simp_all add: less_eq_Suc_le [symmetric] div_less_iff_less_mult)
  then show ?thesis using assms by auto
qed

lemma first_arcs_iff:
  "first_arcs v = (a, b) \<longleftrightarrow> oid_arcs_valid a b \<and> unat v = 40 * unat a + unat b"
proof -
  have v: "unat v < 2 ^ 64" using unat_less_exp [of v] by simp
  have ge: "v \<ge> 80 \<longleftrightarrow> 80 \<le> unat v" by (simp add: word_le_nat_alt)
  show ?thesis
  proof (cases "80 \<le> unat v")
    case True
    then have s: "unat (v - 80) = unat v - 80" using ge by (subst unat_sub) simp_all
    have "(v - 80 = b) = (unat v - 80 = unat b)" by (simp add: word_unat_eq_iff s [symmetric])
    moreover have "(2 = unat a \<and> unat v - 80 = unat b) \<longleftrightarrow>
        unat a \<le> 2 \<and> (unat a < 2 \<longrightarrow> unat b < 40) \<and> unat b + 80 < 2 ^ 64 \<and> unat v = 40 * unat a + unat b"
      using True v by (rule pack_arcs_ge)
    moreover have "2 = a \<longleftrightarrow> 2 = unat a" by (simp add: word_unat_eq_iff)
    ultimately show ?thesis
      using True by (simp only: first_arcs_def ge if_True oid_arcs_valid_def prod.inject) blast
  next
    case False
    have d: "unat (v div 40) = unat v div 40" "unat (v mod 40) = unat v mod 40"
      by (simp_all add: unat_div unat_mod)
    have "(v div 40 = a \<and> v mod 40 = b) = (unat v div 40 = unat a \<and> unat v mod 40 = unat b)"
      by (simp add: word_unat_eq_iff d [symmetric])
    moreover have "(unat v div 40 = unat a \<and> unat v mod 40 = unat b) \<longleftrightarrow>
        unat a \<le> 2 \<and> (unat a < 2 \<longrightarrow> unat b < 40) \<and> unat b + 80 < 2 ^ 64 \<and> unat v = 40 * unat a + unat b"
      using False by (intro pack_arcs_less) simp
    ultimately show ?thesis
      using False by (auto simp: first_arcs_def ge oid_arcs_valid_def)
  qed
qed

lemma appends_oid_to_text_body:
  "appends (\<lambda>d. oid_to_text_body d v copy)
     (map_option (\<lambda>cs. case first_arcs v of (a, b) \<Rightarrow> join_dots (a # b # cs) @ [0])
        (read_many parse_base128_integer copy))"
proof -
  let ?head = "case first_arcs v of (a, b) \<Rightarrow> print_u64 (unat a) @ ascii_dot # print_u64 (unat b)"
  have p2: "print_u64 2 = [0x32]" by (subst print_u64.simps) simp
  have "appends (\<lambda>d. CBB_add_bytes d [0x32, ascii_dot]) (Some [0x32, ascii_dot])"
    by (intro appends_bytes) simp
  from appends_bind [OF this appends_decimal, of "v - 80"]
    appends_bind [OF appends_decimal appends_bind [OF appends_u8 appends_decimal],
      of "v div 40" ascii_dot "v mod 40"]
  have h: "appends (\<lambda>d. if v \<ge> 80 then wbind (CBB_add_bytes d [0x32, ascii_dot]) (add_decimal d (v - 80))
            else wbind (add_decimal d (v div 40))
                   (wbind (CBB_add_u8 d ascii_dot) (add_decimal d (v mod 40)))) (Some ?head)"
    by (simp add: first_arcs_def p2)
  have jd: "join_dots (a # b # cs) @ [0] = (print_u64 (unat a) @ ascii_dot # print_u64 (unat b)) @
      dotted_tail cs @ [0]" for a b cs
    by (simp add: join_dots_tail) (simp add: dotted_tail_def)
  show ?thesis
  proof (cases "read_many parse_base128_integer copy")
    case None
    have l: "appends (\<lambda>d. oid_to_text_loop d copy) None"
      using appends_to_text_loop [of copy] by (simp add: None)
    have "appends (\<lambda>d. wbind (oid_to_text_loop d copy) (CBB_add_u8 d 0)) None"
      using l by (intro appendsI) (auto simp: wbind_True_iff dest: appends_ok)
    from appends_bind [OF h this] show ?thesis by (simp add: None oid_to_text_body_def)
  next
    case (Some cs)
    from appends_bind [OF h appends_bind [OF _ appends_u8 [of 0]], of "\<lambda>d. oid_to_text_loop d copy" "dotted_tail cs"]
      appends_to_text_loop [of copy]
    show ?thesis by (simp add: Some oid_to_text_body_def jd del: join_dots.simps split: prod.splits)
  qed
qed

lemma oid_to_text_built:
  "CBS_asn1_oid_to_text e cbs =
     (case parse_base128_integer cbs of
        (None, _) \<Rightarrow> None
      | (Some v, copy) \<Rightarrow> built e 32 (\<lambda>d. oid_to_text_body d v copy))"
  by (auto simp: CBS_asn1_oid_to_text_def built_def split: prod.splits option.splits bool.splits)

lemma oid_contents_parse:
  assumes "oid_arcs_valid a b"
  shows "parse_base128_integer (oid_contents a b cs) = (Some (40 * a + b), base128_all cs)"
    and "read_many parse_base128_integer (base128_all cs) = Some cs"
  using base128.dec_enc [of "40 * a + b"] base128.read_many_concat [of cs]
  by (simp_all add: oid_contents_def base128_all_def oid_first_integer [OF assms])

text \<open>Success: the contents octets of some valid arcs, and their text.\<close>

lemma CBS_asn1_oid_to_text_Some:
  assumes "CBS_asn1_oid_to_text e cbs = Some txt"
  shows "\<exists>a b cs. oid_arcs_valid a b \<and> cbs = oid_contents a b cs \<and> txt = join_dots (a # b # cs) @ [0]"
proof -
  from assms obtain v copy where p: "parse_base128_integer cbs = (Some v, copy)"
    and b: "built e 32 (\<lambda>d. oid_to_text_body d v copy) = Some txt"
    by (auto simp: oid_to_text_built split: prod.splits option.splits)
  obtain a b where ab: "first_arcs v = (a, b)" by (cases "first_arcs v")
  from built_Some [OF appends_oid_to_text_body _ b] obtain cs where
    cs: "read_many parse_base128_integer copy = Some cs" "txt = join_dots (a # b # cs) @ [0]"
    by (auto simp: ab)
  have "cbs = base128 (unat v) @ copy" using base128.dec_Some [OF p] by simp
  moreover have "copy = base128_all cs" using base128.read_many_Some [OF cs(1)] by (simp add: base128_all_def)
  ultimately show ?thesis using ab cs(2) by (auto simp: first_arcs_iff oid_contents_def)
qed

lemma CBS_asn1_oid_to_text_success:
  assumes v: "oid_arcs_valid a b" and m: "\<forall>n. malloc_ok e n"
    and len: "length (join_dots (a # b # cs)) + 1 < 2 ^ 64"
  shows "CBS_asn1_oid_to_text e (oid_contents a b cs) = Some (join_dots (a # b # cs) @ [0])"
proof -
  have "first_arcs (40 * a + b) = (a, b)"
    using v by (simp add: first_arcs_iff oid_first_integer)
  then have "appends (\<lambda>d. oid_to_text_body d (40 * a + b) (base128_all cs)) (Some (join_dots (a # b # cs) @ [0]))"
    using appends_oid_to_text_body [of "40 * a + b" "base128_all cs"] oid_contents_parse(2) [OF v]
    by simp
  then have "built e 32 (\<lambda>d. oid_to_text_body d (40 * a + b) (base128_all cs))
      = Some (join_dots (a # b # cs) @ [0])"
    using m len by (intro built_success) simp_all
  then show ?thesis using oid_contents_parse(1) [OF v] by (simp add: oid_to_text_built)
qed

text \<open>The contents octets determine the arcs.\<close>

lemma oid_contents_inj:
  assumes v: "oid_arcs_valid a b" "oid_arcs_valid a' b'" and eq: "oid_contents a b cs = oid_contents a' b' cs'"
  shows "(a, b, cs) = (a', b', cs')"
proof -
  have p: "(Some (40 * a + b), base128_all cs) = (Some (40 * a' + b'), base128_all cs')"
    unfolding oid_contents_parse(1) [OF v(1), symmetric] oid_contents_parse(1) [OF v(2), symmetric] eq ..
  then have first: "40 * a + b = 40 * a' + b'" and rest: "base128_all cs = base128_all cs'" by auto
  have "(a, b) = first_arcs (40 * a + b)"
    using v(1) by (simp add: first_arcs_iff [THEN iffD2] oid_first_integer)
  also have "\<dots> = (a', b')" unfolding first
    using v(2) by (simp add: first_arcs_iff [THEN iffD2] oid_first_integer)
  finally have "(a, b) = (a', b')" .
  moreover have "Some cs = Some cs'"
    unfolding oid_contents_parse(2) [OF v(1), symmetric] rest
    ..
  ultimately show ?thesis by blast
qed

end
