(* ===== verification/Qsort.thy ===== *)
theory Qsort
  imports Prelude "HOL-Library.Multiset"
begin

text \<open>
  \<open>qsort\<close> of the C library. ISO C only says that the result is the array in an order that the
  comparison function accepts; the model sorts by insertion. The contract of a comparison function
  is the locale \<open>comparator\<close>; when equal elements are identical (\<open>strict_comparator\<close>), the sorted
  arrangement is unique, so that nothing depends on the choice of the algorithm.
\<close>

fun insert_cmp :: "('a \<Rightarrow> 'a \<Rightarrow> int) \<Rightarrow> 'a \<Rightarrow> 'a list \<Rightarrow> 'a list" where
  "insert_cmp cmp x [] = [x]"
| "insert_cmp cmp x (y # ys) = (if cmp x y \<le> 0 then x # y # ys else y # insert_cmp cmp x ys)"

definition qsort :: "('a \<Rightarrow> 'a \<Rightarrow> int) \<Rightarrow> 'a list \<Rightarrow> 'a list" where
  "qsort cmp xs = foldr (insert_cmp cmp) xs []"

definition cmp_sorted :: "('a \<Rightarrow> 'a \<Rightarrow> int) \<Rightarrow> 'a list \<Rightarrow> bool" where
  "cmp_sorted cmp = sorted_wrt (\<lambda>x y. cmp x y \<le> 0)"

lemma mset_insert_cmp: "mset (insert_cmp cmp x ys) = add_mset x (mset ys)"
  by (induction ys) auto

lemma mset_qsort [simp]: "mset (qsort cmp xs) = mset xs"
  by (induction xs) (simp_all add: qsort_def mset_insert_cmp)

lemma length_qsort [simp]: "length (qsort cmp xs) = length xs"
  using mset_qsort by (rule mset_eq_length)

lemma set_qsort [simp]: "set (qsort cmp xs) = set xs"
  using mset_qsort by (rule mset_eq_setD)

locale comparator =
  fixes cmp :: "'a \<Rightarrow> 'a \<Rightarrow> int"
  assumes cmp_swap: "cmp x y \<le> 0 \<longleftrightarrow> 0 \<le> cmp y x"
    and cmp_trans: "cmp x y \<le> 0 \<Longrightarrow> cmp y z \<le> 0 \<Longrightarrow> cmp x z \<le> 0"
begin

lemma cmp_total: "cmp x y \<le> 0 \<or> cmp y x \<le> 0"
  using cmp_swap [of y x] by linarith

lemma sorted_insert_cmp: "cmp_sorted cmp ys \<Longrightarrow> cmp_sorted cmp (insert_cmp cmp x ys)"
proof (induction ys)
  case (Cons y ys)
  show ?case
  proof (cases "cmp x y \<le> 0")
    case True
    with Cons.prems show ?thesis by (auto simp: cmp_sorted_def intro: cmp_trans)
  next
    case False
    then have "cmp y x \<le> 0" using cmp_total [of x y] by simp
    moreover have "set (insert_cmp cmp x ys) = insert x (set ys)"
      using mset_insert_cmp [of cmp x ys] by (metis set_mset_add_mset_insert set_mset_mset)
    ultimately show ?thesis using Cons False by (simp add: cmp_sorted_def)
  qed
qed (simp add: cmp_sorted_def)

lemma sorted_qsort: "cmp_sorted cmp (qsort cmp xs)"
  by (induction xs) (simp_all add: qsort_def sorted_insert_cmp, simp add: cmp_sorted_def)

lemma qsort_sorted: "cmp_sorted cmp xs \<Longrightarrow> qsort cmp xs = xs"
proof (induction xs)
  case (Cons x xs)
  then have "qsort cmp (x # xs) = insert_cmp cmp x xs" by (simp add: qsort_def cmp_sorted_def)
  also have "\<dots> = x # xs" using Cons.prems by (cases xs) (simp_all add: cmp_sorted_def)
  finally show ?case .
qed (simp add: qsort_def)

end

locale strict_comparator = comparator +
  assumes cmp_eq: "cmp x y = 0 \<Longrightarrow> x = y"
begin

lemma sorted_unique:
  "cmp_sorted cmp xs \<Longrightarrow> cmp_sorted cmp ys \<Longrightarrow> mset xs = mset ys \<Longrightarrow> xs = ys"
proof (induction xs arbitrary: ys)
  case (Cons x xs)
  then obtain y ys' where ys: "ys = y # ys'" by (cases ys) auto
  have "x \<in> set ys" "y \<in> set (x # xs)"
    using Cons.prems(3) by (metis mset_eq_setD list.set_intros(1) ys)+
  then have "x = y \<or> cmp x y \<le> 0 \<and> cmp y x \<le> 0"
    using Cons.prems(1,2) by (auto simp: cmp_sorted_def ys)
  then have "x = y" using cmp_swap [of y x] cmp_eq [of x y] by auto
  with Cons show ?case by (simp add: cmp_sorted_def ys)
qed simp

lemma qsort_unique: "cmp_sorted cmp ys \<Longrightarrow> mset ys = mset xs \<Longrightarrow> qsort cmp xs = ys"
  by (rule sorted_unique [OF sorted_qsort]) simp_all

end

end
