(* ===== verification/Set_Of.thy ===== *)
theory Set_Of
  imports Cbb_Writes Qsort
begin

text \<open>
  \<open>CBB_flush_asn1_set_of\<close> (\<open>cbb.c\<close>): the elements written to a SET OF are put in the order of
  their encodings (X.690, 11.6).
\<close>

unbundle bit_operations_syntax

declare of_nat_add [simp del] of_nat_mult [simp del] push_bit_and [simp del]

section \<open>The code\<close>

fun memcmp :: "u8 list \<Rightarrow> u8 list \<Rightarrow> nat \<Rightarrow> int" where
  "memcmp (a # as) (b # bs) (Suc n) = (if a = b then memcmp as bs n else uint a - uint b)"
| "memcmp _ _ _ = 0"

definition OPENSSL_memcmp :: "u8 list \<Rightarrow> u8 list \<Rightarrow> nat \<Rightarrow> int" where
  "OPENSSL_memcmp s1 s2 n = (if n = 0 then 0 else memcmp s1 s2 n)"

definition compare_set_of_element :: "cbs \<Rightarrow> cbs \<Rightarrow> int" where
  "compare_set_of_element a b =
     (let a_len = CBS_len a; b_len = CBS_len b;
          min_len = (if a_len < b_len then a_len else b_len);
          ret = OPENSSL_memcmp (CBS_data a) (CBS_data b) min_len
      in if ret \<noteq> 0 then ret
         else if a_len = b_len then 0
         else if a_len < b_len then -1 else 1)"

definition sizeof_CBS :: nat where
  "sizeof_CBS = 16"

fun add_children :: "nat \<Rightarrow> cbs list \<Rightarrow> cbb \<Rightarrow> bool \<times> cbb" where
  "add_children d [] = wreturn"
| "add_children d (c # cs) = wbind (CBB_add_bytes d (CBS_data c)) (add_children d cs)"

text \<open>\<open>cbb->base->len = cbb->offset + cbb->pending_len_len\<close>\<close>

definition rewind :: "nat \<Rightarrow> cbb \<Rightarrow> cbb" where
  "rewind d cbb = cbb\<lparr>base := map_option (\<lambda>b. b\<lparr>len := cbb_start d cbb\<rparr>) (base cbb)\<rparr>"

text \<open>
  Both passes over the contents read the same elements, so the model reads them once; the copy
  of the contents and the array of children are allocated before anything is rewritten.
\<close>

definition CBB_flush_asn1_set_of :: "nat \<Rightarrow> cbb \<Rightarrow> bool \<times> cbb" where
  "CBB_flush_asn1_set_of d =
     wbind (CBB_flush d) (\<lambda>cbb.
       case read_many CBS_get_any_asn1_element (CBS_init (CBB_data d cbb)) of
         None \<Rightarrow> (False, cbb)
       | Some elements \<Rightarrow>
           (let children = map fst elements; num_children = length children
            in if num_children < 2 then (True, cbb)
               else if num_children > (2 ^ 64 - 1) div sizeof_CBS then (False, cbb)
               else if \<not> malloc_ok (env cbb) (CBB_len d cbb) \<or>
                       \<not> malloc_ok (env cbb) (num_children * sizeof_CBS) then (False, cbb)
               else add_children d (qsort compare_set_of_element children) (rewind d cbb)))"

section \<open>The comparison is the lexicographic order\<close>

fun lex_le :: "u8 list \<Rightarrow> u8 list \<Rightarrow> bool" where
  "lex_le [] bs = True"
| "lex_le (a # as) [] = False"
| "lex_le (a # as) (b # bs) = (a < b \<or> a = b \<and> lex_le as bs)"

lemma uint_eq_uint: "uint a = uint b \<longleftrightarrow> a = b" for a b :: u8
  by (simp only: word_uint_eq_iff)

lemma uint_le_uint: "a \<noteq> b \<Longrightarrow> uint a \<le> uint b \<longleftrightarrow> a < b" for a b :: u8
  by (auto simp: word_less_def uint_eq_uint le_less)

lemma compare_set_of_Cons:
  "compare_set_of_element (a # as) (b # bs) =
     (if a = b then compare_set_of_element as bs else uint a - uint b)"
proof -
  have "min (length (a # as)) (length (b # bs)) = Suc (min (length as) (length bs))" by simp
  then show ?thesis
    by (auto simp: compare_set_of_element_def OPENSSL_memcmp_def Let_def CBS_len_def CBS_data_def
        min_def uint_eq_uint)
qed

lemma compare_set_of_Nil:
  "compare_set_of_element [] [] = 0"
  "compare_set_of_element [] (b # bs) = -1"
  "compare_set_of_element (a # as) [] = 1"
  by (simp_all add: compare_set_of_element_def OPENSSL_memcmp_def Let_def CBS_len_def CBS_data_def)

lemma compare_set_of_Nil_left: "compare_set_of_element [] b = (if b = [] then 0 else -1)"
  by (cases b) (simp_all add: compare_set_of_Nil)

lemma compare_set_of_le: "compare_set_of_element a b \<le> 0 \<longleftrightarrow> lex_le a b"
  by (induction a b rule: lex_le.induct)
    (auto simp: compare_set_of_Cons compare_set_of_Nil compare_set_of_Nil_left uint_le_uint)

lemma compare_set_of_ge: "0 \<le> compare_set_of_element a b \<longleftrightarrow> lex_le b a"
proof (induction a b rule: lex_le.induct)
  case (1 bs)
  show ?case by (cases bs) (simp_all add: compare_set_of_Nil)
qed (auto simp: compare_set_of_Cons compare_set_of_Nil uint_le_uint)

lemma lex_le_Nil_right [simp]: "lex_le bs [] \<longleftrightarrow> bs = []"
  by (cases bs) simp_all

lemma lex_le_antisym: "lex_le a b \<Longrightarrow> lex_le b a \<Longrightarrow> a = b"
  by (induction a b rule: lex_le.induct) auto

lemma lex_le_trans: "lex_le a b \<Longrightarrow> lex_le b c \<Longrightarrow> lex_le a c"
proof (induction a c arbitrary: b rule: lex_le.induct)
  case (2 a as)
  then show ?case by (cases b) auto
next
  case (3 a as c cs)
  then show ?case by (cases b) auto
qed simp

interpretation set_of: strict_comparator compare_set_of_element
proof
  fix x y z :: cbs
  show "compare_set_of_element x y \<le> 0 \<longleftrightarrow> 0 \<le> compare_set_of_element y x"
    by (simp add: compare_set_of_le compare_set_of_ge)
  show "compare_set_of_element x z \<le> 0"
    if "compare_set_of_element x y \<le> 0" "compare_set_of_element y z \<le> 0"
    using that lex_le_trans by (simp add: compare_set_of_le)
  show "x = y" if "compare_set_of_element x y = 0"
    using that compare_set_of_le [of x y] compare_set_of_ge [of x y] lex_le_antisym by simp
qed

section \<open>Sorting the contents\<close>

lemma length_le_concat: "x \<in> set xs \<Longrightarrow> length x \<le> length (concat xs)"
  by (induction xs) auto

fun clear_last :: "frames \<Rightarrow> frames" where
  "clear_last (r, []) = ([], [])"
| "clear_last (r, (p, s) # fs) = (case clear_last (s, fs) of (s', fs') \<Rightarrow> (r, (p, s') # fs'))"

fun last_contents :: "frames \<Rightarrow> u8 list" where
  "last_contents (r, []) = r"
| "last_contents (r, (p, s) # fs) = last_contents (s, fs)"

lemma append_clear_last: "append_last (last_contents a) (clear_last a) = a"
proof -
  have "append_last (last_contents (r, fs)) (clear_last (r, fs)) = (r, fs)" for r fs
  proof (induction fs arbitrary: r)
    case (Cons f fs)
    obtain p s where f: "f = (p, s)" by (cases f)
    obtain s' fs' where c: "clear_last (s, fs) = (s', fs')" by (cases "clear_last (s, fs)")
    show ?case using Cons [of s] by (simp add: f c)
  qed simp
  then show ?thesis by (cases a) simp
qed

lemma length_clear_last [simp]: "length (snd (clear_last a)) = length (snd a)"
  using length_append_last [of "last_contents a" "clear_last a"] by (simp add: append_clear_last)

lemma frames_bytes_clear_last: "frames_bytes a = frames_bytes (clear_last a) @ last_contents a"
  using frames_bytes_append_last [of "last_contents a" "clear_last a"] by (simp add: append_clear_last)

lemma last_contents_append: "last_contents (append_last t a) = last_contents a @ t"
proof -
  have "last_contents (append_last t (r, fs)) = last_contents (r, fs) @ t" for r fs
  proof (induction fs arbitrary: r)
    case (Cons f fs)
    obtain p s where f: "f = (p, s)" by (cases f)
    obtain s' fs' where c: "append_last t (s, fs) = (s', fs')" by (cases "append_last t (s, fs)")
    show ?case using Cons [of s] by (simp add: f c)
  qed simp
  then show ?thesis by (cases a) simp
qed

lemma last_contents_clear [simp]: "last_contents (clear_last a) = []"
  using last_contents_append [of "last_contents a" "clear_last a"] by (simp add: append_clear_last)

lemma rep_chain_end:
  "rep_chain off fs cs \<Longrightarrow> fs \<noteq> [] \<Longrightarrow>
   offset (last cs) + pending_len_len (last cs) + length (snd (last fs)) = off + length (layout fs)"
proof (induction off fs cs rule: rep_chain.induct)
  case (2 off p s fs c cs)
  then show ?case by (cases fs; cases cs) auto
qed simp_all

lemma last_contents_last: "last_contents (r, fs) = (if fs = [] then r else snd (last fs))"
  by (induction fs arbitrary: r) auto

lemma cbb_start_rep:
  assumes r: "rep cbb a" and d: "d = length (snd a)"
  shows "cbb_start d cbb = length (frames_bytes (clear_last a))"
proof -
  obtain r0 fs where a: "a = (r0, fs)" by (cases a)
  from r have ch: "rep_chain (length r0) fs (chain cbb)" by (auto simp: rep_def a)
  have tot: "length (frames_bytes (clear_last a)) + length (last_contents a) = length r0 + length (layout fs)"
    using arg_cong [OF frames_bytes_clear_last [of a], of length] by (simp add: frames_bytes_def a)
  show ?thesis
  proof (cases "fs = []")
    case True
    then show ?thesis using d by (simp add: a cbb_start_def frames_bytes_def)
  next
    case False
    have "length (chain cbb) = length fs" using rep_chain_length [OF ch] .
    then have "chain cbb ! (d - 1) = last (chain cbb)" using d False
      by (subst last_conv_nth) (auto simp: a)
    moreover have "d \<noteq> 0" using d False by (simp add: a)
    ultimately show ?thesis
      using rep_chain_end [OF ch False] tot False by (simp add: cbb_start_def a last_contents_last)
  qed
qed

lemma CBB_data_rep:
  assumes r: "rep cbb a" and d: "d = length (snd a)"
  shows "CBB_data d cbb = last_contents a"
proof -
  from r obtain b where b: "base cbb = Some b" "buffer_ok b (frames_bytes a)" by (auto simp: rep_def)
  then show ?thesis
    using frames_bytes_clear_last [of a]
    by (auto simp: CBB_data_def cbb_start_rep [OF r d] buffer_ok_def)
qed

lemma rewind_rep:
  assumes r: "rep cbb a" and d: "d = length (snd a)"
  shows "rep (rewind d cbb) (clear_last a) \<and> env (rewind d cbb) = env cbb \<and>
    unlimited_cbb (rewind d cbb) = unlimited_cbb cbb"
proof -
  from r obtain b where b: "base cbb = Some b" "buffer_ok b (frames_bytes a)"
    and ch: "rep_chain (length (fst a)) (snd a) (chain cbb)" by (auto simp: rep_def)
  let ?X = "frames_bytes (clear_last a)"
  from b(2) obtain slack where "buf b = ?X @ last_contents a @ slack" "len b = length (?X @ last_contents a)"
    "cap b = length (?X @ last_contents a) + length slack" "cap b < 2 ^ 64" "\<not> error b"
    using frames_bytes_clear_last [of a] by (auto simp: buffer_ok_def)
  then have "buffer_ok (b\<lparr>len := length ?X\<rparr>) ?X"
    unfolding buffer_ok_def by (intro exI [of _ "last_contents a @ slack"]) simp
  moreover have "rep_chain (length (fst (clear_last a))) (snd (clear_last a)) (chain cbb)"
  proof -
    obtain r0 fs where a: "a = (r0, fs)" by (cases a)
    obtain r1 fs1 where c: "clear_last a = (r1, fs1)" by (cases "clear_last a")
    have ap: "append_last (last_contents a) (r1, fs1) = (r0, fs)"
      using append_clear_last [of a] c unfolding a by (simp only:)
    show ?thesis
    proof (cases fs)
      case Nil
      then show ?thesis using ch c length_clear_last [of a] by (cases "chain cbb") (auto simp: a)
    next
      case (Cons f gs)
      then have "r1 = r0" using c by (cases f) (auto simp: a split: prod.splits)
      then show ?thesis using ch rep_chain_append_iff [OF ap] unfolding c by (simp add: a)
    qed
  qed
  ultimately show ?thesis
    using b(1) by (simp add: rep_def rewind_def cbb_start_rep [OF r d] unlimited_cbb_def unlimited_def)
qed

lemma appends_children:
  "\<forall>c \<in> set cs. length c < 2 ^ 64 \<Longrightarrow> appends (\<lambda>d. add_children d cs) (Some (concat cs))"
proof (induction cs)
  case (Cons c cs)
  then have "appends (\<lambda>d. add_children d cs) (Some (concat cs))" by simp
  from appends_bind [OF appends_bytes this, of c] Cons.prems show ?case by (simp add: CBS_data_def)
qed (simp add: appends_return)

text \<open>
  A successful call: the contents were a sequence of DER elements, and they are now the same
  elements in ascending order of their encodings.
\<close>

lemma CBB_flush_asn1_set_of_ok:
  assumes r: "rep cbb a" and d: "d = length (snd a)"
    and f: "CBB_flush_asn1_set_of d cbb = (True, cbb')"
  obtains els where "read_many CBS_get_any_asn1_element (last_contents a) = Some els"
    "last_contents a = concat (map fst els)"
    "rep cbb' (append_last (concat (qsort compare_set_of_element (map fst els))) (clear_last a))"
proof -
  have fl: "CBB_flush d cbb = (True, cbb)" by (rule CBB_flush_noop [OF r d])
  let ?rd = "read_many CBS_get_any_asn1_element (last_contents a)"
  obtain els where els: "?rd = Some els"
    using f by (cases ?rd) (auto simp: CBB_flush_asn1_set_of_def wbind_def fl CBS_init_def CBB_data_rep [OF r d])
  have cat: "last_contents a = concat (map fst els)"
    using any_element.read_many_Some [OF els] by (simp add: case_prod_unfold)
  let ?cs = "map fst els" and ?q = "qsort compare_set_of_element (map fst els)"
  show ?thesis
  proof (cases "length els < 2")
    case True
    then have "cbb' = cbb"
      using f by (simp add: CBB_flush_asn1_set_of_def wbind_def fl CBS_init_def CBB_data_rep [OF r d] els)
    moreover have "?q = ?cs"
      using True by (cases els; cases "tl els") (auto simp: qsort_def)
    ultimately show ?thesis using that [OF els cat] r cat append_clear_last [of a] by simp
  next
    case False
    then have add: "add_children d ?q (rewind d cbb) = (True, cbb')"
      using f by (simp add: CBB_flush_asn1_set_of_def wbind_def fl CBS_init_def CBB_data_rep [OF r d]
          els Let_def split: if_splits)
    have total: "length (last_contents a) < 2 ^ 64"
    proof -
      from r obtain b where "buffer_ok b (frames_bytes a)" by (auto simp: rep_def)
      then have "length (frames_bytes a) < 2 ^ 64" by (auto simp: buffer_ok_def)
      then show ?thesis using frames_bytes_clear_last [of a] by simp
    qed
    have "length c < 2 ^ 64" if "c \<in> set ?q" for c
    proof -
      have "c \<in> set ?cs" using that by simp
      then have "length c \<le> length (concat ?cs)" by (rule length_le_concat)
      then show ?thesis using total cat by simp
    qed
    then have ap: "appends (\<lambda>d. add_children d ?q) (Some (concat ?q))" by (intro appends_children) blast
    have rw: "rep (rewind d cbb) (clear_last a)" using rewind_rep [OF r d] by simp
    from appends_ok [OF ap rw] add d have "rep cbb' (append_last (concat ?q) (clear_last a))" by simp
    then show ?thesis by (rule that [OF els cat])
  qed
qed

lemma length_concat_mset: "mset xs = mset ys \<Longrightarrow> length (concat xs) = length (concat ys)"
  by (simp add: length_concat) (metis mset_map sum_mset_sum_list)

text \<open>With a working allocator the call only fails on contents that are not DER.\<close>

lemma CBB_flush_asn1_set_of_success:
  assumes r: "rep cbb a" and d: "d = length (snd a)" and u: "unlimited_cbb cbb"
    and els: "read_many CBS_get_any_asn1_element (last_contents a) = Some els"
    and n: "length els \<le> (2 ^ 64 - 1) div sizeof_CBS"
  shows "\<exists>cbb'. CBB_flush_asn1_set_of d cbb = (True, cbb')"
proof -
  let ?cs = "map fst els" and ?q = "qsort compare_set_of_element (map fst els)"
  have fl: "CBB_flush d cbb = (True, cbb)" by (rule CBB_flush_noop [OF r d])
  have cat: "last_contents a = concat ?cs"
    using any_element.read_many_Some [OF els] by (simp add: case_prod_unfold)
  from r obtain b where b: "base cbb = Some b" "buffer_ok b (frames_bytes a)" by (auto simp: rep_def)
  then have total: "length (frames_bytes a) < 2 ^ 64" by (auto simp: buffer_ok_def)
  have ql: "length (concat ?q) = length (last_contents a)"
    unfolding cat by (rule length_concat_mset) simp
  have "length c < 2 ^ 64" if "c \<in> set ?q" for c
  proof -
    have "length c \<le> length (concat ?q)" using that by (rule length_le_concat)
    then show ?thesis using total ql frames_bytes_clear_last [of a] by simp
  qed
  then have ap: "appends (\<lambda>d. add_children d ?q) (Some (concat ?q))" by (intro appends_children) blast
  have rw: "rep (rewind d cbb) (clear_last a)" "unlimited_cbb (rewind d cbb)"
    using rewind_rep [OF r d] u by simp_all
  obtain ok cbb' where add: "add_children d ?q (rewind d cbb) = (ok, cbb')"
    by (cases "add_children d ?q (rewind d cbb)")
  have ok
    using appends_fail [OF ap rw(1) _ rw(2), of cbb'] add d total ql frames_bytes_clear_last [of a]
    by (cases ok) auto
  moreover have "malloc_ok (env cbb) k" for k using u b(1) by (simp add: unlimited_cbb_def unlimited_def)
  ultimately show ?thesis
    using add n by (simp add: CBB_flush_asn1_set_of_def wbind_def fl CBS_init_def CBB_data_rep [OF r d] els Let_def)
qed

end
