(* ===== verification/Unicode.thy ===== *)
theory Unicode
  imports Cbb_Writes
begin

text \<open>
  Unicode transfer formats (\<open>crypto/bytestring/unicode.c\<close>): the readers on a \<open>CBS\<close>, the writers
  on a \<open>CBB\<close>, and the proofs that for each format they are inverse to each other on the valid
  code points.
\<close>

unbundle bit_operations_syntax

declare of_nat_add [simp del] of_nat_mult [simp del] push_bit_and [simp del]

section \<open>The code\<close>

definition is_valid_code_point :: "u32 \<Rightarrow> bool" where
  "is_valid_code_point v \<longleftrightarrow>
     \<not> (v > 0x10ffff \<or> v AND 0xfffe = 0xfffe \<or> (v \<ge> 0xfdd0 \<and> v \<le> 0xfdef) \<or>
        (v \<ge> 0xd800 \<and> v \<le> 0xdfff))"

definition BOTTOM_BITS :: "nat \<Rightarrow> u8" where
  "BOTTOM_BITS n = push_bit n 1 - 1"

definition TOP_BITS :: "nat \<Rightarrow> u8" where
  "TOP_BITS n = NOT (BOTTOM_BITS (8 - n))"

text \<open>The loop over the \<open>k\<close> continuation bytes.\<close>

fun utf8_continuation :: "nat \<Rightarrow> u32 \<Rightarrow> u32 reader" where
  "utf8_continuation 0 v = rreturn v"
| "utf8_continuation (Suc k) v =
     rbind CBS_get_u8 (\<lambda>c.
       if c AND TOP_BITS 2 \<noteq> TOP_BITS 1 then rfail
       else utf8_continuation k (push_bit 6 v OR ucast (c AND BOTTOM_BITS 6)))"

definition cbs_get_utf8 :: "u32 reader" where
  "cbs_get_utf8 =
     rbind CBS_get_u8 (\<lambda>c.
       if c \<le> 0x7f then rreturn (ucast c)
       else case (if c AND TOP_BITS 3 = TOP_BITS 2 then Some (ucast (c AND BOTTOM_BITS 5), 1, 0x80)
                  else if c AND TOP_BITS 4 = TOP_BITS 3 then Some (ucast (c AND BOTTOM_BITS 4), 2, 0x800)
                  else if c AND TOP_BITS 5 = TOP_BITS 4 then Some (ucast (c AND BOTTOM_BITS 3), 3, 0x10000)
                  else None) of
              None \<Rightarrow> rfail
            | Some (v, k, lower_bound) \<Rightarrow>
                rbind (utf8_continuation k v) (\<lambda>v.
                  if \<not> is_valid_code_point v \<or> v < lower_bound then rfail else rreturn v))"

definition cbs_get_latin1 :: "u32 reader" where
  "cbs_get_latin1 = rbind CBS_get_u8 (\<lambda>c. rreturn (ucast c))"

definition cbs_get_ucs2_be :: "u32 reader" where
  "cbs_get_ucs2_be = rbind CBS_get_u16 (\<lambda>c.
     if \<not> is_valid_code_point (ucast c) then rfail else rreturn (ucast c))"

definition cbs_get_utf32_be :: "u32 reader" where
  "cbs_get_utf32_be = rbind CBS_get_u32 (\<lambda>c. if is_valid_code_point c then rreturn c else rfail)"

definition cbb_get_utf8_len :: "u32 \<Rightarrow> nat" where
  "cbb_get_utf8_len u = (if u \<le> 0x7f then 1 else if u \<le> 0x7ff then 2 else if u \<le> 0xffff then 3 else 4)"

definition cbb_add_utf8 :: "nat \<Rightarrow> u32 \<Rightarrow> cbb \<Rightarrow> bool \<times> cbb" where
  "cbb_add_utf8 d u =
     (if \<not> is_valid_code_point u then wfail
      else if u \<le> 0x7f then CBB_add_u8 d (ucast u)
      else if u \<le> 0x7ff then
        wbind (CBB_add_u8 d (TOP_BITS 2 OR ucast (drop_bit 6 u)))
          (CBB_add_u8 d (TOP_BITS 1 OR (ucast u AND BOTTOM_BITS 6)))
      else if u \<le> 0xffff then
        wbind (CBB_add_u8 d (TOP_BITS 3 OR ucast (drop_bit 12 u)))
          (wbind (CBB_add_u8 d (TOP_BITS 1 OR (ucast (drop_bit 6 u) AND BOTTOM_BITS 6)))
             (CBB_add_u8 d (TOP_BITS 1 OR (ucast u AND BOTTOM_BITS 6))))
      else if u \<le> 0x10ffff then
        wbind (CBB_add_u8 d (TOP_BITS 4 OR ucast (drop_bit 18 u)))
          (wbind (CBB_add_u8 d (TOP_BITS 1 OR (ucast (drop_bit 12 u) AND BOTTOM_BITS 6)))
             (wbind (CBB_add_u8 d (TOP_BITS 1 OR (ucast (drop_bit 6 u) AND BOTTOM_BITS 6)))
                (CBB_add_u8 d (TOP_BITS 1 OR (ucast u AND BOTTOM_BITS 6)))))
      else wfail)"

definition cbb_add_latin1 :: "nat \<Rightarrow> u32 \<Rightarrow> cbb \<Rightarrow> bool \<times> cbb" where
  "cbb_add_latin1 d u = (if u \<le> 0xff then CBB_add_u8 d (ucast u) else wfail)"

definition cbb_add_ucs2_be :: "nat \<Rightarrow> u32 \<Rightarrow> cbb \<Rightarrow> bool \<times> cbb" where
  "cbb_add_ucs2_be d u =
     (if u \<le> 0xffff \<and> is_valid_code_point u then CBB_add_u16 d (ucast u) else wfail)"

definition cbb_add_utf32_be :: "nat \<Rightarrow> u32 \<Rightarrow> cbb \<Rightarrow> bool \<times> cbb" where
  "cbb_add_utf32_be d u = (if is_valid_code_point u then CBB_add_u32 d u else wfail)"

section \<open>UTF-8\<close>

text \<open>Table 3-6 of the Unicode standard, on numbers.\<close>

definition utf8_bytes :: "nat \<Rightarrow> u8 list" where
  "utf8_bytes n =
     (if n < 0x80 then [of_nat n]
      else if n < 0x800 then [of_nat (0xc0 + n div 64), of_nat (0x80 + n mod 64)]
      else if n < 0x10000 then
        [of_nat (0xe0 + n div 4096), of_nat (0x80 + n div 64 mod 64), of_nat (0x80 + n mod 64)]
      else [of_nat (0xf0 + n div 262144), of_nat (0x80 + n div 4096 mod 64),
            of_nat (0x80 + n div 64 mod 64), of_nat (0x80 + n mod 64)])"

lemma length_utf8_bytes: "length (utf8_bytes (unat u)) = cbb_get_utf8_len u"
  by (auto simp: utf8_bytes_def cbb_get_utf8_len_def word_le_nat_alt)

text \<open>The tests on a byte, as comparisons of numbers.\<close>

lemma BOTTOM_BITS_mask: "BOTTOM_BITS n = mask n"
  by (simp add: BOTTOM_BITS_def mask_eq_exp_minus_1 push_bit_eq_mult)

lemma unat_BOTTOM_BITS: "unat (c AND BOTTOM_BITS n) = unat c mod 2 ^ n"
  unfolding BOTTOM_BITS_mask take_bit_eq_mask [symmetric] unsigned_take_bit_eq
  by (simp add: take_bit_eq_mod)

lemma unat_TOP_BITS_and: "unat (c AND TOP_BITS n) = unat c div 2 ^ (8 - n) * 2 ^ (8 - n)"
proof -
  have "c AND TOP_BITS n = push_bit (8 - n) (drop_bit (8 - n) c)"
    unfolding TOP_BITS_def BOTTOM_BITS_mask
    by (rule bit_word_eqI) (auto simp: bit_simps)
  then have "unat (c AND TOP_BITS n) = unat c div 2 ^ (8 - n) * 2 ^ (8 - n) mod 2 ^ 8"
    by (simp only: unat_push_bit unat_drop_bit_div len_num0 len_bit0 len_num1) simp
  also have "unat c div 2 ^ (8 - n) * 2 ^ (8 - n) < 2 ^ 8"
    using le_less_trans [OF div_times_less_eq_dividend unat_u8_less] by simp
  then have "unat c div 2 ^ (8 - n) * 2 ^ (8 - n) mod 2 ^ 8 = unat c div 2 ^ (8 - n) * 2 ^ (8 - n)"
    by (rule mod_less)
  finally show ?thesis .
qed

lemma TOP_BITS_values:
  "TOP_BITS 1 = 0x80" "TOP_BITS 2 = 0xc0" "TOP_BITS 3 = 0xe0" "TOP_BITS 4 = 0xf0"
  by code_simp+

lemma lead_bytes:
  "c \<le> 0x7f \<longleftrightarrow> unat c < 128"
  "c AND TOP_BITS 2 = TOP_BITS 1 \<longleftrightarrow> unat c div 64 = 2"
  "c AND TOP_BITS 3 = TOP_BITS 2 \<longleftrightarrow> unat c div 32 = 6"
  "c AND TOP_BITS 4 = TOP_BITS 3 \<longleftrightarrow> unat c div 16 = 14"
  "c AND TOP_BITS 5 = TOP_BITS 4 \<longleftrightarrow> unat c div 8 = 30"
      apply (auto simp: word_le_nat_alt)[1]
     apply (simp_all only: word_unat_eq_iff unat_TOP_BITS_and)
     apply (simp_all add: TOP_BITS_values TOP_BITS_values(1) [unfolded One_nat_def])
  done

lemma continuation_Cons:
  "utf8_continuation (Suc k) v (c # cs) =
     (if unat c div 64 = 2
      then utf8_continuation k (push_bit 6 v OR ucast (c AND BOTTOM_BITS 6)) cs else (None, cs))"
  using lead_bytes(2) [of c] by (simp add: rbind_def rfail_def)

lemma continuation_Nil: "utf8_continuation (Suc k) v [] = (None, [])"
  by (simp add: rbind_def)

lemma unat_shift6:
  assumes "unat v < 2 ^ 26"
  shows "unat (push_bit 6 v OR ucast (c AND BOTTOM_BITS 6) :: u32) = unat v * 64 + unat (c :: u8) mod 64"
  using assms unat_push_or [of "ucast (c AND BOTTOM_BITS 6)" 6 v] by (simp add: unat_BOTTOM_BITS)

lemma continuation_iff:
  "(unat v + 1) * 64 ^ k \<le> 2 ^ 32 \<Longrightarrow>
   utf8_continuation k v cs = (Some w, rest) \<longleftrightarrow>
     (\<exists>bs. length bs = k \<and> cs = bs @ rest \<and> (\<forall>b \<in> set bs. unat b div 64 = 2) \<and>
        unat w = foldl (\<lambda>x b. x * 64 + unat b mod 64) (unat v) bs)"
proof (induction k arbitrary: v cs)
  case 0
  show ?case by (auto simp: rreturn_def word_unat_eq_iff)
next
  case (Suc k)
  show ?case
  proof (cases cs)
    case Nil
    then show ?thesis by (simp add: continuation_Nil del: utf8_continuation.simps)
  next
    case (Cons c cs')
    let ?v = "push_bit 6 v OR ucast (c AND BOTTOM_BITS 6)"
    have "(unat v + 1) * 64 \<le> (unat v + 1) * 64 * 64 ^ k" by simp
    then have "(unat v + 1) * 64 \<le> 2 ^ 32" using Suc.prems by (simp only: power_Suc mult.assoc)
    then have v': "unat ?v = unat v * 64 + unat c mod 64" by (intro unat_shift6) simp
    have "(unat ?v + 1) * 64 ^ k \<le> (unat v + 1) * 64 * 64 ^ k"
      unfolding v' by (intro mult_le_mono1) (use mod_less_divisor [of 64 "unat c"] in simp)
    also have "\<dots> \<le> 2 ^ 32" using Suc.prems by (simp only: power_Suc mult.assoc)
    finally have IH: "utf8_continuation k ?v cs' = (Some w, rest) \<longleftrightarrow>
     (\<exists>bs. length bs = k \<and> cs' = bs @ rest \<and> (\<forall>b \<in> set bs. unat b div 64 = 2) \<and>
        unat w = foldl (\<lambda>x b. x * 64 + unat b mod 64) (unat v * 64 + unat c mod 64) bs)"
      by (simp only: Suc.IH v')
    show ?thesis
      unfolding Cons continuation_Cons
      by (auto simp: IH length_Suc_conv simp del: utf8_continuation.simps)
  qed
qed

definition utf8_finish :: "u32 \<Rightarrow> u32 option \<times> u8 list \<Rightarrow> u32 option \<times> u8 list" where
  "utf8_finish lower_bound r =
     (case r of
        (None, rest) \<Rightarrow> (None, rest)
      | (Some v, rest) \<Rightarrow> (if \<not> is_valid_code_point v \<or> v < lower_bound then None else Some v, rest))"

lemma utf8_finish_Some:
  "utf8_finish lb r = (Some v, rest) \<longleftrightarrow> r = (Some v, rest) \<and> is_valid_code_point v \<and> lb \<le> v"
  by (cases r) (auto simp: utf8_finish_def split: option.splits if_splits)

lemma cbs_get_utf8_Cons:
  "cbs_get_utf8 (c # cs) =
     (if unat c < 128 then (Some (ucast c), cs)
      else if unat c div 32 = 6 then utf8_finish 0x80 (utf8_continuation 1 (ucast (c AND BOTTOM_BITS 5)) cs)
      else if unat c div 16 = 14 then utf8_finish 0x800 (utf8_continuation 2 (ucast (c AND BOTTOM_BITS 4)) cs)
      else if unat c div 8 = 30 then utf8_finish 0x10000 (utf8_continuation 3 (ucast (c AND BOTTOM_BITS 3)) cs)
      else (None, cs))"
  unfolding cbs_get_utf8_def
  using lead_bytes [of c]
  by (simp add: rbind_def rreturn_def rfail_def utf8_finish_def del: utf8_continuation.simps
      split: prod.splits option.splits)

lemma valid_code_point_less: "is_valid_code_point u \<Longrightarrow> unat u < 0x110000"
  by (simp add: is_valid_code_point_def word_less_nat_alt not_less)

lemma valid_code_point_small: "unat u < 128 \<Longrightarrow> is_valid_code_point u"
proof -
  assume u: "unat u < 128"
  have "unat (u AND 0xfffe) \<le> unat u" using word_and_le1 word_and_le2 by (simp add: word_le_nat_alt [symmetric])
  then have "u AND 0xfffe \<noteq> 0xfffe" using u by (auto dest: arg_cong [of _ _ unat])
  then show ?thesis using u by (simp add: is_valid_code_point_def word_less_nat_alt word_le_nat_alt)
qed

lemma utf8_lead:
  "unat (ucast (c AND BOTTOM_BITS 5) :: u32) = unat c mod 32"
  "unat (ucast (c AND BOTTOM_BITS 4) :: u32) = unat c mod 16"
  "unat (ucast (c AND BOTTOM_BITS 3) :: u32) = unat c mod 8"
  by (simp_all add: unat_BOTTOM_BITS)

lemma u8_eqI: "unat b = n \<Longrightarrow> n < 256 \<Longrightarrow> b = of_nat n" for b :: u8
  by (rule word_unat_eq_iff [THEN iffD2]) simp

lemma continuation_byte: "unat b div 64 = 2 \<Longrightarrow> m = unat b mod 64 \<Longrightarrow> b = of_nat (0x80 + m)" for b :: u8
  by (rule u8_eqI) (use div_mult_mod_eq [of "unat b" 64] in auto)

lemma length_conv:
  "length bs = 1 \<longleftrightarrow> (\<exists>a. bs = [a])" "length bs = 2 \<longleftrightarrow> (\<exists>a b. bs = [a, b])"
  "length bs = 3 \<longleftrightarrow> (\<exists>a b c. bs = [a, b, c])"
  by (auto simp: length_Suc_conv numeral_2_eq_2 numeral_3_eq_3)

lemma lead_bound:
  "(unat (ucast (c AND BOTTOM_BITS 5) :: u32) + 1) * 64 ^ 1 \<le> 2 ^ 32"
  "(unat (ucast (c AND BOTTOM_BITS 4) :: u32) + 1) * 64 ^ 2 \<le> 2 ^ 32"
  "(unat (ucast (c AND BOTTOM_BITS 3) :: u32) + 1) * 64 ^ 3 \<le> 2 ^ 32"
  using mod_less_divisor [of 32 "unat c"] mod_less_divisor [of 16 "unat c"] mod_less_divisor [of 8 "unat c"]
  by (simp_all add: utf8_lead)

text \<open>Decoding the bytes of one character, by their number.\<close>

lemma utf8_two:
  "utf8_finish 0x80 (utf8_continuation 1 (ucast (c AND BOTTOM_BITS 5)) cs) = (Some u, rest) \<longleftrightarrow>
     is_valid_code_point u \<and> 0x80 \<le> unat u \<and>
     (\<exists>b1. cs = b1 # rest \<and> unat b1 div 64 = 2 \<and> unat u = unat c mod 32 * 64 + unat b1 mod 64)"
  unfolding utf8_finish_Some continuation_iff [OF lead_bound(1)] length_conv utf8_lead
  by (auto simp: word_le_nat_alt)

lemma utf8_three:
  "utf8_finish 0x800 (utf8_continuation 2 (ucast (c AND BOTTOM_BITS 4)) cs) = (Some u, rest) \<longleftrightarrow>
     is_valid_code_point u \<and> 0x800 \<le> unat u \<and>
     (\<exists>b1 b2. cs = b1 # b2 # rest \<and> unat b1 div 64 = 2 \<and> unat b2 div 64 = 2 \<and>
        unat u = (unat c mod 16 * 64 + unat b1 mod 64) * 64 + unat b2 mod 64)"
  unfolding utf8_finish_Some continuation_iff [OF lead_bound(2)] length_conv utf8_lead
  by (auto simp: word_le_nat_alt)

lemma utf8_four:
  "utf8_finish 0x10000 (utf8_continuation 3 (ucast (c AND BOTTOM_BITS 3)) cs) = (Some u, rest) \<longleftrightarrow>
     is_valid_code_point u \<and> 0x10000 \<le> unat u \<and>
     (\<exists>b1 b2 b3. cs = b1 # b2 # b3 # rest \<and> unat b1 div 64 = 2 \<and> unat b2 div 64 = 2 \<and> unat b3 div 64 = 2 \<and>
        unat u = ((unat c mod 8 * 64 + unat b1 mod 64) * 64 + unat b2 mod 64) * 64 + unat b3 mod 64)"
  unfolding utf8_finish_Some continuation_iff [OF lead_bound(3)] length_conv utf8_lead
  by (auto simp: word_le_nat_alt)

lemma lead_mod:
  "x < 32 \<Longrightarrow> (192 + x) mod 32 = x" "x < 16 \<Longrightarrow> (224 + x) mod 16 = x"
  "x < 8 \<Longrightarrow> (240 + x) mod 8 = x" for x :: nat
  by (rule mod_nat_eqI; simp)+

lemma cbs_get_utf8_enc:
  assumes "is_valid_code_point u"
  shows "cbs_get_utf8 (utf8_bytes (unat u) @ rest) = (Some u, rest)"
proof -
  let ?n = "unat u"
  have cont: "unat (of_nat (0x80 + m) :: u8) div 64 = 2" "unat (of_nat (0x80 + m) :: u8) mod 64 = m"
    if "m < 64" for m
  proof -
    have "unat (of_nat (0x80 + m) :: u8) = 0x80 + m" using that by simp
    moreover have "(0x80 + m) div 64 = 2" by (rule div_nat_eqI) (use that in simp_all)
    moreover have "(0x80 + m) mod 64 = m" by (rule mod_nat_eqI) (use that in simp_all)
    ultimately show "unat (of_nat (0x80 + m) :: u8) div 64 = 2" "unat (of_nat (0x80 + m) :: u8) mod 64 = m"
      by (simp_all only:)
  qed
  have digits: "unat (of_nat (0x80 + m mod 64) :: u8) div 64 = 2"
    "unat (of_nat (0x80 + m mod 64) :: u8) mod 64 = m mod 64" for m
    by (rule cont, simp)+
  have n: "?n < 0x110000" using assms by (rule valid_code_point_less)
  consider "?n < 0x80" | "0x80 \<le> ?n" "?n < 0x800" | "0x800 \<le> ?n" "?n < 0x10000" | "0x10000 \<le> ?n"
    by linarith
  then show ?thesis
  proof cases
    case 1
    then have low: "unat (ucast u :: u8) = ?n" by (simp add: unat_ucast_mod)
    then have "(ucast (ucast u :: u8) :: u32) = u" by (intro word_unat_eq_iff [THEN iffD2]) simp
    then show ?thesis
      using 1 by (simp add: utf8_bytes_def cbs_get_utf8_Cons low)
  next
    case 2
    let ?c = "of_nat (0xc0 + ?n div 64) :: u8"
    have d: "?n div 64 < 32" using 2 by (simp add: div_less_iff_less_mult)
    then have c: "unat ?c = 0xc0 + ?n div 64" by simp
    have lead: "\<not> unat ?c < 128" "unat ?c div 32 = 6" "unat ?c mod 32 = ?n div 64"
      unfolding c using d by (simp_all add: lead_mod)
    have "utf8_finish 0x80 (utf8_continuation 1 (ucast (?c AND BOTTOM_BITS 5)) (of_nat (0x80 + ?n mod 64) # rest))
        = (Some u, rest)"
      unfolding utf8_two
      by (intro conjI assms 2(1) exI [of _ "of_nat (0x80 + ?n mod 64)"])
        (simp_all only: lead digits div_mult_mod_eq)
    then show ?thesis
      using 2 lead by (simp add: utf8_bytes_def cbs_get_utf8_Cons del: of_nat_add)
  next
    case 3
    let ?c = "of_nat (0xe0 + ?n div 4096) :: u8"
    have d: "?n div 4096 < 16" using 3 by (simp add: div_less_iff_less_mult)
    then have c: "unat ?c = 0xe0 + ?n div 4096" by simp
    have lead: "\<not> unat ?c < 128" "unat ?c div 32 \<noteq> 6" "unat ?c div 16 = 14" "unat ?c mod 16 = ?n div 4096"
      unfolding c using d by (simp_all add: lead_mod)
    have split: "?n = (?n div 4096 * 64 + ?n div 64 mod 64) * 64 + ?n mod 64"
      using div_mult_mod_eq [of "?n div 64" 64] div_mult_mod_eq [of ?n 64] by (simp add: div_mult2_eq [symmetric])
    have "utf8_finish 0x800 (utf8_continuation 2 (ucast (?c AND BOTTOM_BITS 4))
        (of_nat (0x80 + ?n div 64 mod 64) # of_nat (0x80 + ?n mod 64) # rest)) = (Some u, rest)"
      unfolding utf8_three
      by (intro conjI assms 3(1), rule exI [of _ "of_nat (0x80 + ?n div 64 mod 64)"],
          rule exI [of _ "of_nat (0x80 + ?n mod 64)"])
        (simp only: lead digits split [symmetric] simp_thms)
    then show ?thesis
      using 3 lead by (simp add: utf8_bytes_def cbs_get_utf8_Cons del: of_nat_add)
  next
    case 4
    let ?c = "of_nat (0xf0 + ?n div 262144) :: u8"
    have d: "?n div 262144 < 8" using n by (simp add: div_less_iff_less_mult)
    then have c: "unat ?c = 0xf0 + ?n div 262144" by simp
    have lead: "\<not> unat ?c < 128" "unat ?c div 32 \<noteq> 6" "unat ?c div 16 \<noteq> 14" "unat ?c div 8 = 30"
      "unat ?c mod 8 = ?n div 262144"
      unfolding c using d by (simp_all add: lead_mod)
    have split: "?n = ((?n div 262144 * 64 + ?n div 4096 mod 64) * 64 + ?n div 64 mod 64) * 64 + ?n mod 64"
      using div_mult_mod_eq [of "?n div 4096" 64] div_mult_mod_eq [of "?n div 64" 64]
        div_mult_mod_eq [of ?n 64] by (simp add: div_mult2_eq [symmetric])
    have "utf8_finish 0x10000 (utf8_continuation 3 (ucast (?c AND BOTTOM_BITS 3))
        (of_nat (0x80 + ?n div 4096 mod 64) # of_nat (0x80 + ?n div 64 mod 64) #
         of_nat (0x80 + ?n mod 64) # rest)) = (Some u, rest)"
      unfolding utf8_four
      by (intro conjI assms 4, rule exI [of _ "of_nat (0x80 + ?n div 4096 mod 64)"],
          rule exI [of _ "of_nat (0x80 + ?n div 64 mod 64)"],
          rule exI [of _ "of_nat (0x80 + ?n mod 64)"])
        (simp only: lead digits split [symmetric] simp_thms)
    then show ?thesis
      using 4 lead by (simp add: utf8_bytes_def cbs_get_utf8_Cons del: of_nat_add)
  qed
qed

lemma digit64: "a < 64 \<Longrightarrow> (x * 64 + a) div 64 = x" "a < 64 \<Longrightarrow> (x * 64 + a) mod 64 = a" for x a :: nat
  by simp_all

lemma cbs_get_utf8_Some:
  assumes "cbs_get_utf8 cs = (Some u, rest)"
  shows "is_valid_code_point u \<and> cs = utf8_bytes (unat u) @ rest"
proof (cases cs)
  case Nil
  with assms show ?thesis by (simp add: cbs_get_utf8_def rbind_def)
next
  case (Cons c cs')
  note r = assms [unfolded Cons cbs_get_utf8_Cons]
  consider "unat c < 128" | "\<not> unat c < 128" "unat c div 32 = 6"
    | "\<not> unat c < 128" "unat c div 32 \<noteq> 6" "unat c div 16 = 14"
    | "\<not> unat c < 128" "unat c div 32 \<noteq> 6" "unat c div 16 \<noteq> 14" "unat c div 8 = 30"
    using r by (auto split: if_splits)
  then show ?thesis
  proof cases
    case 1
    with r have "u = ucast c" "rest = cs'" by auto
    with 1 show ?thesis by (simp add: Cons utf8_bytes_def valid_code_point_small)
  next
    case 2
    with r obtain b1 where b: "cs' = b1 # rest" "unat b1 div 64 = 2" "unat u = unat c mod 32 * 64 + unat b1 mod 64"
      and u: "is_valid_code_point u" "0x80 \<le> unat u"
      by (simp only: if_False if_True simp_thms utf8_two) (elim conjE exE, rule that)
    have m: "unat b1 mod 64 < 64" "unat c mod 32 < 32" by simp_all
    then have n: "unat u < 0x800" "unat u div 64 = unat c mod 32" "unat u mod 64 = unat b1 mod 64"
      unfolding b(3) by simp_all
    have "c = of_nat (0xc0 + unat c mod 32)"
      by (rule u8_eqI) (use 2 div_mult_mod_eq [of "unat c" 32] m in auto)
    moreover have "b1 = of_nat (0x80 + unat b1 mod 64)" using b(2) by (rule continuation_byte) simp
    ultimately show ?thesis
      using u n by (simp add: Cons b(1) utf8_bytes_def del: of_nat_add)
  next
    case 3
    with r obtain b1 b2 where b: "cs' = b1 # b2 # rest" "unat b1 div 64 = 2" "unat b2 div 64 = 2"
        "unat u = (unat c mod 16 * 64 + unat b1 mod 64) * 64 + unat b2 mod 64"
      and u: "is_valid_code_point u" "0x800 \<le> unat u"
      by (simp only: if_False if_True simp_thms utf8_three) (elim conjE exE, rule that)
    have m: "unat b1 mod 64 < 64" "unat b2 mod 64 < 64" "unat c mod 16 < 16" by simp_all
    then have n: "unat u < 0x10000" "unat u div 64 = unat c mod 16 * 64 + unat b1 mod 64"
      "unat u mod 64 = unat b2 mod 64"
      unfolding b(4) by (simp, simp_all only: digit64)
    have "unat u div 4096 = unat u div 64 div 64" by (simp add: div_mult2_eq [symmetric])
    then have n2: "unat u div 4096 = unat c mod 16" "unat u div 64 mod 64 = unat b1 mod 64"
      using m by (simp_all only: n digit64)
    have "c = of_nat (0xe0 + unat c mod 16)"
      by (rule u8_eqI) (use 3 div_mult_mod_eq [of "unat c" 16] m in auto)
    moreover have "b1 = of_nat (0x80 + unat b1 mod 64)" using b(2) by (rule continuation_byte) simp
    moreover have "b2 = of_nat (0x80 + unat b2 mod 64)" using b(3) by (rule continuation_byte) simp
    ultimately show ?thesis
      using u n n2 by (simp add: Cons b(1) utf8_bytes_def del: of_nat_add)
  next
    case 4
    with r obtain b1 b2 b3 where b: "cs' = b1 # b2 # b3 # rest" "unat b1 div 64 = 2" "unat b2 div 64 = 2"
        "unat b3 div 64 = 2"
        "unat u = ((unat c mod 8 * 64 + unat b1 mod 64) * 64 + unat b2 mod 64) * 64 + unat b3 mod 64"
      and u: "is_valid_code_point u" "0x10000 \<le> unat u"
      by (simp only: if_False if_True simp_thms utf8_four) (elim conjE exE, rule that)
    have m: "unat b1 mod 64 < 64" "unat b2 mod 64 < 64" "unat b3 mod 64 < 64" by simp_all
    then have n: "unat u div 64 = (unat c mod 8 * 64 + unat b1 mod 64) * 64 + unat b2 mod 64"
      "unat u mod 64 = unat b3 mod 64"
      unfolding b(5) by (simp_all only: digit64)
    have "unat u div 4096 = unat u div 64 div 64" by (simp add: div_mult2_eq [symmetric])
    then have n2: "unat u div 4096 = unat c mod 8 * 64 + unat b1 mod 64"
      "unat u div 64 mod 64 = unat b2 mod 64"
      using m by (simp_all only: n digit64)
    have "unat u div 262144 = unat u div 4096 div 64" by (simp add: div_mult2_eq [symmetric])
    then have n3: "unat u div 262144 = unat c mod 8" "unat u div 4096 mod 64 = unat b1 mod 64"
      using m by (simp_all only: n2 digit64)
    have "c = of_nat (0xf0 + unat c mod 8)"
      by (rule u8_eqI) (use 4 div_mult_mod_eq [of "unat c" 8] mod_less_divisor [of 8 "unat c"] in auto)
    moreover have "b1 = of_nat (0x80 + unat b1 mod 64)" using b(2) by (rule continuation_byte) simp
    moreover have "b2 = of_nat (0x80 + unat b2 mod 64)" using b(3) by (rule continuation_byte) simp
    moreover have "b3 = of_nat (0x80 + unat b3 mod 64)" using b(4) by (rule continuation_byte) simp
    ultimately show ?thesis
      using u n n2 n3 by (simp add: Cons b(1) utf8_bytes_def del: of_nat_add)
  qed
qed

interpretation utf8: progressive_codec "\<lambda>u. utf8_bytes (unat u)" cbs_get_utf8 is_valid_code_point
  by unfold_locales (simp_all add: cbs_get_utf8_enc cbs_get_utf8_Some, simp add: utf8_bytes_def)

section \<open>Latin-1, UCS-2, UTF-32\<close>

lemma ucast_down_eq: "unat u < 2 ^ LENGTH('b) \<Longrightarrow> LENGTH('b) \<le> LENGTH('a) \<Longrightarrow>
    (ucast (ucast u :: 'b::len word) :: 'a::len word) = u"
  by (rule word_unat_eq_iff [THEN iffD2]) (simp add: unat_ucast_mod)

lemma ucast_up_down: "LENGTH('a) \<le> LENGTH('b) \<Longrightarrow>
    (ucast (ucast (c :: 'a::len word) :: 'b::len word) :: 'a word) = c"
  by (rule word_unat_eq_iff [THEN iffD2]) (subst unat_ucast_mod, simp)

interpretation latin1: progressive_codec "\<lambda>u. [of_nat (unat u)]" cbs_get_latin1 "\<lambda>u. unat u < 256"
proof unfold_locales
  fix u :: u32 and rest
  assume "unat u < 256"
  then have "(ucast (of_nat (unat u) :: u8) :: u32) = u" by (simp add: ucast_down_eq)
  then show "cbs_get_latin1 ([of_nat (unat u)] @ rest) = (Some u, rest)"
    by (simp add: cbs_get_latin1_def rbind_def rreturn_def)
next
  fix u :: u32 and bs rest
  assume "cbs_get_latin1 bs = (Some u, rest)"
  then obtain c where "bs = c # rest" "u = ucast c"
    by (auto simp: cbs_get_latin1_def rbind_Some_iff rreturn_def CBS_get_u8_Some_iff)
  then show "unat u < 256 \<and> bs = [of_nat (unat u)] @ rest" by simp
qed simp

lemma CBS_get_u16_Some_iff:
  "CBS_get_u16 cbs = (Some c, rest) \<longleftrightarrow> cbs = be_bytes 2 (unat c) @ rest"
proof -
  have *: "cbs_get_u 2 cbs = (Some v, rest) \<longleftrightarrow> unat v < 256 ^ 2 \<and> cbs = be_bytes 2 (unat v) @ rest" for v
    by (rule codec.dec_iff [OF progressive_codec.axioms(1) [OF cbs_get_u_codec]]) simp_all
  have u: "unat c < 256 ^ 2" using unat_less_exp [of c] by simp
  show ?thesis
  proof
    assume "CBS_get_u16 cbs = (Some c, rest)"
    then obtain v where "cbs_get_u 2 cbs = (Some v, rest)" "c = ucast v"
      by (auto simp: CBS_get_u16_def rbind_Some_iff rreturn_def)
    then show "cbs = be_bytes 2 (unat c) @ rest" using * [of v] by (simp add: unat_ucast_mod)
  next
    assume "cbs = be_bytes 2 (unat c) @ rest"
    then have "cbs_get_u 2 cbs = (Some (ucast c), rest)" using * [of "ucast c"] u by simp
    then show "CBS_get_u16 cbs = (Some c, rest)"
      by (simp add: CBS_get_u16_def rbind_def rreturn_def ucast_up_down)
  qed
qed

lemma CBS_get_u32_Some_iff:
  "CBS_get_u32 cbs = (Some c, rest) \<longleftrightarrow> cbs = be_bytes 4 (unat c) @ rest"
proof -
  have *: "cbs_get_u 4 cbs = (Some v, rest) \<longleftrightarrow> unat v < 256 ^ 4 \<and> cbs = be_bytes 4 (unat v) @ rest" for v
    by (rule codec.dec_iff [OF progressive_codec.axioms(1) [OF cbs_get_u_codec]]) simp_all
  have u: "unat c < 256 ^ 4" using unat_less_exp [of c] by simp
  show ?thesis
  proof
    assume "CBS_get_u32 cbs = (Some c, rest)"
    then obtain v where "cbs_get_u 4 cbs = (Some v, rest)" "c = ucast v"
      by (auto simp: CBS_get_u32_def rbind_Some_iff rreturn_def)
    then show "cbs = be_bytes 4 (unat c) @ rest" using * [of v] by (simp add: unat_ucast_mod)
  next
    assume "cbs = be_bytes 4 (unat c) @ rest"
    then have "cbs_get_u 4 cbs = (Some (ucast c), rest)" using * [of "ucast c"] u by simp
    then show "CBS_get_u32 cbs = (Some c, rest)"
      by (simp add: CBS_get_u32_def rbind_def rreturn_def ucast_up_down)
  qed
qed

interpretation ucs2_be: progressive_codec "\<lambda>u. be_bytes 2 (unat u)" cbs_get_ucs2_be
  "\<lambda>u. unat u < 2 ^ 16 \<and> is_valid_code_point u"
proof unfold_locales
  fix u :: u32 and rest
  assume u: "unat u < 2 ^ 16 \<and> is_valid_code_point u"
  have "(ucast (ucast u :: u16) :: u32) = u" "unat (ucast u :: u16) = unat u"
    using u by (simp_all add: ucast_down_eq unat_ucast_mod)
  moreover from this have "CBS_get_u16 (be_bytes 2 (unat u) @ rest) = (Some (ucast u), rest)"
    by (simp add: CBS_get_u16_Some_iff del: be_bytes.simps)
  ultimately show "cbs_get_ucs2_be (be_bytes 2 (unat u) @ rest) = (Some u, rest)"
    using u by (simp add: cbs_get_ucs2_be_def rbind_def rreturn_def del: be_bytes.simps)
next
  fix u :: u32 and bs rest
  assume "cbs_get_ucs2_be bs = (Some u, rest)"
  then obtain c where "CBS_get_u16 bs = (Some c, rest)" "u = ucast c" "is_valid_code_point u"
    by (auto simp: cbs_get_ucs2_be_def rbind_Some_iff rreturn_def rfail_def split: if_splits)
  then show "(unat u < 2 ^ 16 \<and> is_valid_code_point u) \<and> bs = be_bytes 2 (unat u) @ rest"
    using unat_less_exp [of c] by (simp add: CBS_get_u16_Some_iff)
qed (simp add: numeral_2_eq_2)

interpretation utf32_be: progressive_codec "\<lambda>u. be_bytes 4 (unat u)" cbs_get_utf32_be is_valid_code_point
proof unfold_locales
  fix u :: u32 and rest
  assume "is_valid_code_point u"
  moreover have "CBS_get_u32 (be_bytes 4 (unat u) @ rest) = (Some u, rest)"
    by (simp only: CBS_get_u32_Some_iff)
  ultimately show "cbs_get_utf32_be (be_bytes 4 (unat u) @ rest) = (Some u, rest)"
    by (simp add: cbs_get_utf32_be_def rbind_def rreturn_def)
next
  fix u :: u32 and bs rest
  assume "cbs_get_utf32_be bs = (Some u, rest)"
  then show "is_valid_code_point u \<and> bs = be_bytes 4 (unat u) @ rest"
    by (auto simp: cbs_get_utf32_be_def rbind_Some_iff rreturn_def rfail_def CBS_get_u32_Some_iff
        split: if_splits)
qed (metis length_be_bytes list.size(3) zero_neq_numeral)

section \<open>The writers\<close>

lemma or_top: "2 ^ k dvd unat t \<Longrightarrow> unat x < 2 ^ k \<Longrightarrow> t OR x = of_nat (unat t + unat x)" for t x :: u8
  by (rule word_unat_eq_iff [THEN iffD2])
    (metis mod_less unat_of_nat_u8 unat_or_add unat_u8_less)

lemma continuation_out: "TOP_BITS 1 OR (x AND BOTTOM_BITS 6) = of_nat (0x80 + unat x mod 64)"
proof -
  have "TOP_BITS 1 OR (x AND BOTTOM_BITS 6) = of_nat (unat (TOP_BITS 1) + unat (x AND BOTTOM_BITS 6))"
    by (rule or_top [of 6]) (simp_all add: TOP_BITS_values(1) [unfolded One_nat_def] unat_BOTTOM_BITS)
  then show ?thesis by (simp add: TOP_BITS_values(1) [unfolded One_nat_def] unat_BOTTOM_BITS)
qed

lemma lead_out:
  "unat x < 32 \<Longrightarrow> TOP_BITS 2 OR x = of_nat (0xc0 + unat x)"
  "unat x < 16 \<Longrightarrow> TOP_BITS 3 OR x = of_nat (0xe0 + unat x)"
  "unat x < 8 \<Longrightarrow> TOP_BITS 4 OR x = of_nat (0xf0 + unat x)"
  using or_top [of 5 "TOP_BITS 2" x] or_top [of 4 "TOP_BITS 3" x] or_top [of 3 "TOP_BITS 4" x]
  by (simp_all add: TOP_BITS_values)

lemma drop_byte: "unat (ucast (drop_bit (6 * k) u) :: u8) mod 64 = unat u div 64 ^ k mod 64" for u :: u32
  by (simp add: unat_ucast_mod unat_drop_bit_div power_mult mod_mod_cancel)

lemma appends_utf8:
  "appends (\<lambda>d. cbb_add_utf8 d u) (if is_valid_code_point u then Some (utf8_bytes (unat u)) else None)"
proof (cases "is_valid_code_point u")
  case False
  then show ?thesis
    by (simp add: cbb_add_utf8_def) (rule appendsI; simp add: wfail_def)
next
  case True
  let ?n = "unat u"
  have n: "?n < 0x110000" using True by (rule valid_code_point_less)
  have b: "TOP_BITS 1 OR (ucast u AND BOTTOM_BITS 6) = of_nat (0x80 + ?n mod 64)"
    "TOP_BITS 1 OR (ucast (drop_bit 6 u) AND BOTTOM_BITS 6) = of_nat (0x80 + ?n div 64 mod 64)"
    "TOP_BITS 1 OR (ucast (drop_bit 12 u) AND BOTTOM_BITS 6) = of_nat (0x80 + ?n div 4096 mod 64)"
    unfolding continuation_out using drop_byte [of 0 u] drop_byte [of 1 u] drop_byte [of 2 u] by simp_all
  note two = appends_bind [OF appends_u8 appends_u8]
  note three = appends_bind [OF appends_u8 two]
  note four = appends_bind [OF appends_u8 three]
  consider "?n < 0x80" | "0x80 \<le> ?n" "?n < 0x800" | "0x800 \<le> ?n" "?n < 0x10000" | "0x10000 \<le> ?n"
    by linarith
  then show ?thesis
  proof cases
    case 1
    then show ?thesis
      using True appends_u8 [of "ucast u"] by (simp add: cbb_add_utf8_def utf8_bytes_def word_le_nat_alt)
  next
    case 2
    have s: "unat (ucast (drop_bit 6 u) :: u8) = ?n div 64"
      using 2 by (simp add: unat_ucast_mod unat_drop_bit_div less_mult_imp_div_less)
    have l: "TOP_BITS 2 OR ucast (drop_bit 6 u) = of_nat (0xc0 + ?n div 64)"
      using lead_out(1) [of "ucast (drop_bit 6 u)"] 2 by (simp add: s less_mult_imp_div_less)
    from 2 True show ?thesis
      using two [of "of_nat (0xc0 + ?n div 64)" "of_nat (0x80 + ?n mod 64)"]
      by (simp add: cbb_add_utf8_def utf8_bytes_def word_le_nat_alt b [unfolded One_nat_def] l)
  next
    case 3
    have s: "unat (ucast (drop_bit 12 u) :: u8) = ?n div 4096"
      using 3 by (simp add: unat_ucast_mod unat_drop_bit_div less_mult_imp_div_less)
    have l: "TOP_BITS 3 OR ucast (drop_bit 12 u) = of_nat (0xe0 + ?n div 4096)"
      using lead_out(2) [of "ucast (drop_bit 12 u)"] 3 by (simp add: s less_mult_imp_div_less)
    from 3 True show ?thesis
      using three [of "of_nat (0xe0 + ?n div 4096)" "of_nat (0x80 + ?n div 64 mod 64)" "of_nat (0x80 + ?n mod 64)"]
      by (simp add: cbb_add_utf8_def utf8_bytes_def word_le_nat_alt b [unfolded One_nat_def] l)
  next
    case 4
    have s: "unat (ucast (drop_bit 18 u) :: u8) = ?n div 262144"
      using n by (simp add: unat_ucast_mod unat_drop_bit_div less_mult_imp_div_less)
    have l: "TOP_BITS 4 OR ucast (drop_bit 18 u) = of_nat (0xf0 + ?n div 262144)"
      using lead_out(3) [of "ucast (drop_bit 18 u)"] n by (simp add: s less_mult_imp_div_less)
    from 4 n True show ?thesis
      using four [of "of_nat (0xf0 + ?n div 262144)" "of_nat (0x80 + ?n div 4096 mod 64)"
          "of_nat (0x80 + ?n div 64 mod 64)" "of_nat (0x80 + ?n mod 64)"]
      by (simp add: cbb_add_utf8_def utf8_bytes_def word_le_nat_alt b [unfolded One_nat_def] l)
  qed
qed

lemma appends_utf32_be:
  "appends (\<lambda>d. cbb_add_utf32_be d u) (if is_valid_code_point u then Some (be_bytes 4 (unat u)) else None)"
  using appends_u32 [of u]
  by (auto simp: cbb_add_utf32_be_def wfail_def intro: appendsI)

lemma appends_ucs2_be:
  "appends (\<lambda>d. cbb_add_ucs2_be d u)
     (if unat u < 2 ^ 16 \<and> is_valid_code_point u then Some (be_bytes 2 (unat u)) else None)"
proof (cases "unat u < 2 ^ 16 \<and> is_valid_code_point u")
  case True
  then have "unat (ucast u :: u16) = unat u" by (simp add: unat_ucast_mod)
  with True appends_u16 [of "ucast u"] show ?thesis
    by (simp add: cbb_add_ucs2_be_def word_le_nat_alt)
next
  case False
  then have "cbb_add_ucs2_be = (\<lambda>d v. if v = u then wfail else cbb_add_ucs2_be d v)"
    by (auto simp: cbb_add_ucs2_be_def word_le_nat_alt fun_eq_iff)
  then have "(\<lambda>d. cbb_add_ucs2_be d u) = (\<lambda>d. wfail)" by metis
  with False show ?thesis by (auto simp: wfail_def intro: appendsI)
qed

lemma appends_latin1:
  "appends (\<lambda>d. cbb_add_latin1 d u) (if unat u < 256 then Some [of_nat (unat u)] else None)"
  using appends_u8 [of "ucast u"]
  by (auto simp: cbb_add_latin1_def word_le_nat_alt wfail_def intro: appendsI)

text \<open>A text, character by character.\<close>

fun add_all_utf8 :: "u32 list \<Rightarrow> nat \<Rightarrow> cbb \<Rightarrow> bool \<times> cbb" where
  "add_all_utf8 [] d = wreturn"
| "add_all_utf8 (u # us) d = wbind (cbb_add_utf8 d u) (add_all_utf8 us d)"

lemma appends_all_utf8:
  "\<forall>u \<in> set us. is_valid_code_point u \<Longrightarrow>
   appends (add_all_utf8 us) (Some (concat (map (\<lambda>u. utf8_bytes (unat u)) us)))"
proof (induction us)
  case Nil
  have "add_all_utf8 [] = (\<lambda>d. wreturn)" by (simp add: fun_eq_iff)
  then show ?case by (simp add: appends_return)
next
  case (Cons u us)
  have "add_all_utf8 (u # us) = (\<lambda>d. wbind (cbb_add_utf8 d u) (add_all_utf8 us d))" by (simp add: fun_eq_iff)
  moreover have "appends (\<lambda>d. cbb_add_utf8 d u) (Some (utf8_bytes (unat u)))"
    using appends_utf8 [of u] Cons.prems by simp
  moreover have "appends (add_all_utf8 us) (Some (concat (map (\<lambda>u. utf8_bytes (unat u)) us)))"
    using Cons by simp
  ultimately show ?case using appends_bind by fastforce
qed

end
