(* ===== verification/Constant_Time.thy ===== *)
theory Constant_Time
  imports Prelude
begin

text \<open>
  The constant-time primitives of \<open>crypto/internal.h\<close>: masks computed without a branch. Each is
  proved to be the comparison or selection that its comment promises, for all machine words.
  \<open>crypto_word_t\<close> has 64 bits; \<open>value_barrier_w\<close> is the identity.
\<close>

unbundle bit_operations_syntax

section \<open>The code\<close>

definition value_barrier_w :: "u64 \<Rightarrow> u64" where
  "value_barrier_w a = a"

definition constant_time_msb_w :: "u64 \<Rightarrow> u64" where
  "constant_time_msb_w a = 0 - drop_bit (64 - 1) a"

definition constant_time_lt_w :: "u64 \<Rightarrow> u64 \<Rightarrow> u64" where
  "constant_time_lt_w a b = constant_time_msb_w (a XOR ((a XOR b) OR ((a - b) XOR a)))"

definition constant_time_lt_8 :: "u64 \<Rightarrow> u64 \<Rightarrow> u8" where
  "constant_time_lt_8 a b = ucast (constant_time_lt_w a b)"

definition constant_time_ge_w :: "u64 \<Rightarrow> u64 \<Rightarrow> u64" where
  "constant_time_ge_w a b = NOT (constant_time_lt_w a b)"

definition constant_time_ge_8 :: "u64 \<Rightarrow> u64 \<Rightarrow> u8" where
  "constant_time_ge_8 a b = ucast (constant_time_ge_w a b)"

definition constant_time_is_zero_w :: "u64 \<Rightarrow> u64" where
  "constant_time_is_zero_w a = constant_time_msb_w (NOT a AND (a - 1))"

definition constant_time_is_zero_8 :: "u64 \<Rightarrow> u8" where
  "constant_time_is_zero_8 a = ucast (constant_time_is_zero_w a)"

definition constant_time_eq_w :: "u64 \<Rightarrow> u64 \<Rightarrow> u64" where
  "constant_time_eq_w a b = constant_time_is_zero_w (a XOR b)"

definition constant_time_eq_8 :: "u64 \<Rightarrow> u64 \<Rightarrow> u8" where
  "constant_time_eq_8 a b = ucast (constant_time_eq_w a b)"

definition constant_time_select_w :: "u64 \<Rightarrow> u64 \<Rightarrow> u64 \<Rightarrow> u64" where
  "constant_time_select_w m a b = (value_barrier_w m AND a) OR (value_barrier_w (NOT m) AND b)"

definition constant_time_select_8 :: "u8 \<Rightarrow> u8 \<Rightarrow> u8 \<Rightarrow> u8" where
  "constant_time_select_8 m a b = ucast (constant_time_select_w (ucast m) (ucast a) (ucast b))"

section \<open>Masks\<close>

definition mask_of :: "bool \<Rightarrow> 'a::len word" where
  "mask_of c = (if c then - 1 else 0)"

lemma mask_of_simps [simp]: "mask_of True = - 1" "mask_of False = 0"
  by (simp_all add: mask_of_def)

lemma NOT_mask_of [simp]: "NOT (mask_of c) = mask_of (\<not> c)"
  by (simp add: mask_of_def)

lemma ucast_mask_of: "LENGTH('b) \<le> LENGTH('a) \<Longrightarrow> (ucast (mask_of c :: 'a::len word) :: 'b::len word) = mask_of c"
  by (cases c) (auto intro!: bit_word_eqI simp: bit_simps)

lemma ucast_mask_of_8 [simp]: "(ucast (mask_of c :: u64) :: u8) = mask_of c"
  by (rule ucast_mask_of) simp

lemma bit63_iff: "bit (a :: u64) 63 \<longleftrightarrow> 2 ^ 63 \<le> unat a"
proof -
  have "unat a < 2 ^ 64" using unat_less_exp [of a] by simp
  then have d: "unat a div 2 ^ 63 = (if 2 ^ 63 \<le> unat a then 1 else 0)"
    by (auto simp: div_nat_eqI)
  have "bit a 63 \<longleftrightarrow> bit (unat a) 63" by (simp add: bit_unsigned_iff)
  also have "\<dots> \<longleftrightarrow> odd (unat a div 2 ^ 63)" by (simp add: bit_iff_odd)
  finally show ?thesis using d by simp
qed

lemma constant_time_msb_w_eq: "constant_time_msb_w a = mask_of (bit a 63)"
proof -
  have "unat a < 2 ^ 64" using unat_less_exp [of a] by simp
  then have "unat (drop_bit 63 a) = (if 2 ^ 63 \<le> unat a then 1 else 0)"
    by (auto simp: unat_drop_bit_div div_nat_eqI)
  then have "drop_bit 63 a = (if bit a 63 then 1 else 0)"
    by (intro word_unat_eq_iff [THEN iffD2]) (simp add: bit63_iff)
  then show ?thesis by (simp add: constant_time_msb_w_def)
qed

lemma unat_sub_wrap:
  "unat ((a :: u64) - b) = (if unat b \<le> unat a then unat a - unat b else 2 ^ 64 + unat a - unat b)"
  by (auto simp: unat_sub_if_size word_size)

text \<open>The formula in the comment of \<open>constant_time_lt_w\<close>.\<close>

theorem constant_time_lt_w_eq: "constant_time_lt_w a b = mask_of (a < b)"
proof -
  have a: "unat a < 2 ^ 64" and b: "unat b < 2 ^ 64"
    using unat_less_exp [of a] unat_less_exp [of b] by simp_all
  have "bit (a XOR ((a XOR b) OR ((a - b) XOR a))) 63 \<longleftrightarrow>
      (if bit a 63 = bit b 63 then bit (a - b) 63 else bit b 63)"
    by (auto simp: bit_simps)
  also have "\<dots> \<longleftrightarrow> unat a < unat b"
    using a b unfolding bit63_iff unat_sub_wrap by auto
  finally show ?thesis by (simp add: constant_time_lt_w_def constant_time_msb_w_eq word_less_nat_alt)
qed

lemma constant_time_ge_w_eq: "constant_time_ge_w a b = mask_of (b \<le> a)"
  by (simp add: constant_time_ge_w_def constant_time_lt_w_eq not_less)

lemma constant_time_is_zero_w_eq: "constant_time_is_zero_w a = mask_of (a = 0)"
proof -
  have "bit (NOT a AND (a - 1)) 63 \<longleftrightarrow> a = 0"
  proof (cases "a = 0")
    case False
    then have "unat (a - 1) = unat a - 1"
      by (subst unat_sub) (simp_all add: word_le_nat_alt Suc_le_eq unat_gt_0)
    moreover have "bit (NOT a AND (a - 1)) 63 \<longleftrightarrow> \<not> bit a 63 \<and> bit (a - 1) 63"
      by (simp add: bit_simps)
    ultimately show ?thesis using False unfolding bit63_iff by auto
  qed (simp add: bit_simps)
  then show ?thesis by (simp add: constant_time_is_zero_w_def constant_time_msb_w_eq)
qed

lemma constant_time_eq_w_eq: "constant_time_eq_w a b = mask_of (a = b)"
proof -
  have "a XOR b = 0 \<longleftrightarrow> a = b"
    by (auto simp: bit_eq_iff bit_xor_iff)
  then show ?thesis by (simp add: constant_time_eq_w_def constant_time_is_zero_w_eq)
qed

lemma constant_time_8_eq:
  "constant_time_lt_8 a b = mask_of (a < b)" "constant_time_ge_8 a b = mask_of (b \<le> a)"
  "constant_time_is_zero_8 a = mask_of (a = 0)" "constant_time_eq_8 a b = mask_of (a = b)"
  by (simp_all add: constant_time_lt_8_def constant_time_ge_8_def constant_time_is_zero_8_def
      constant_time_eq_8_def constant_time_lt_w_eq constant_time_ge_w_eq constant_time_is_zero_w_eq
      constant_time_eq_w_eq)

lemma constant_time_select_w_eq: "constant_time_select_w (mask_of c) a b = (if c then a else b)"
  by (simp add: constant_time_select_w_def value_barrier_w_def)

lemma constant_time_select_8_eq: "constant_time_select_8 (mask_of c) a b = (if c then a else b)"
proof (rule bit_word_eqI)
  fix n assume "n < LENGTH(8)"
  then show "bit (constant_time_select_8 (mask_of c) a b) n = bit (if c then a else b) n"
    by (cases c) (simp_all add: constant_time_select_8_def constant_time_select_w_def value_barrier_w_def bit_simps)
qed

lemmas constant_time_eqs = constant_time_lt_w_eq constant_time_ge_w_eq constant_time_is_zero_w_eq
  constant_time_eq_w_eq constant_time_8_eq constant_time_select_w_eq constant_time_select_8_eq

end
