(* ===== verification/Block_Stream.thy ===== *)
theory Block_Stream
  imports Prelude
begin

text \<open>
  Buffered block processing, as the base64 encoder and the hash functions do it: input of any
  length is cut into blocks of \<open>B\<close> bytes, complete blocks are processed at once, the rest waits in
  a buffer. The locale \<open>block_stream\<close> is the contract of one update operation; what follows from it
  is that only the concatenation of the inputs matters.
\<close>

function chunks :: "nat \<Rightarrow> 'a list \<Rightarrow> 'a list list" where
  "chunks B xs = (if B = 0 \<or> length xs < B then [] else take B xs # chunks B (drop B xs))"
  by pat_completeness auto
termination by (relation "measure (\<lambda>(B, xs). length xs)") auto

function leftover :: "nat \<Rightarrow> 'a list \<Rightarrow> 'a list" where
  "leftover B xs = (if B = 0 \<or> length xs < B then xs else leftover B (drop B xs))"
  by pat_completeness auto
termination by (relation "measure (\<lambda>(B, xs). length xs)") auto

declare chunks.simps [simp del] leftover.simps [simp del]

lemma chunks_short: "length xs < B \<Longrightarrow> chunks B xs = []"
  by (simp add: chunks.simps)

lemma leftover_short: "length xs < B \<Longrightarrow> leftover B xs = xs"
  by (simp add: leftover.simps)

lemma chunks_block: "0 < B \<Longrightarrow> length b = B \<Longrightarrow> chunks B (b @ xs) = b # chunks B xs"
  by (subst chunks.simps) simp

lemma leftover_block: "0 < B \<Longrightarrow> length b = B \<Longrightarrow> leftover B (b @ xs) = leftover B xs"
  by (subst leftover.simps) simp

lemma length_leftover: "0 < B \<Longrightarrow> length (leftover B xs) < B"
  by (induction B xs rule: leftover.induct) (subst leftover.simps, auto)

lemma concat_chunks: "concat (chunks B xs) @ leftover B xs = xs"
  by (induction B xs rule: chunks.induct) (subst chunks.simps, subst leftover.simps, auto)

lemma length_in_chunks: "b \<in> set (chunks B xs) \<Longrightarrow> length b = B"
proof (induction B xs rule: chunks.induct)
  case (1 B xs)
  then show ?case by (subst (asm) (2) chunks.simps) (auto split: if_splits)
qed

lemma chunks_append: "chunks B (xs @ ys) = chunks B xs @ chunks B (leftover B xs @ ys)"
proof (induction B xs rule: chunks.induct)
  case (1 B xs)
  show ?case
  proof (cases "B = 0 \<or> length xs < B")
    case True
    then show ?thesis by (auto simp: chunks_short leftover_short chunks.simps [of 0])
  next
    case False
    then have "xs @ ys = take B xs @ (drop B xs @ ys)" "0 < B" "length (take B xs) = B" by simp_all
    then have "chunks B (xs @ ys) = take B xs # chunks B (drop B xs @ ys)"
      by (metis chunks_block)
    with 1 False show ?thesis by (simp add: chunks.simps [of B xs] leftover.simps [of B xs])
  qed
qed

lemma leftover_append: "leftover B (xs @ ys) = leftover B (leftover B xs @ ys)"
proof (induction B xs rule: leftover.induct)
  case (1 B xs)
  show ?case
  proof (cases "B = 0 \<or> length xs < B")
    case True
    then show ?thesis by (auto simp: leftover_short leftover.simps [of 0])
  next
    case False
    then have "xs @ ys = take B xs @ (drop B xs @ ys)" "0 < B" "length (take B xs) = B" by simp_all
    then have "leftover B (xs @ ys) = leftover B (drop B xs @ ys)"
      by (metis leftover_block)
    with 1 False show ?thesis by (simp add: leftover.simps [of B xs])
  qed
qed

lemma leftover_dvd: "0 < B \<Longrightarrow> B dvd length xs \<Longrightarrow> leftover B xs = []"
proof (induction B xs rule: leftover.induct)
  case (1 B xs)
  show ?case
  proof (cases "length xs < B")
    case True
    with 1 show ?thesis by (auto simp: leftover_short dest: dvd_imp_le)
  next
    case False
    then have "B dvd length (drop B xs)" using "1.prems" by (simp add: dvd_diff_nat)
    with 1 False show ?thesis by (simp add: leftover.simps [of B xs])
  qed
qed

text \<open>
  \<open>acc\<close> is what has been computed from the blocks so far, \<open>pending\<close> the buffered bytes; \<open>ok\<close>
  bounds the length of one input.
\<close>

locale block_stream =
  fixes B :: nat
    and ok :: "'b list \<Rightarrow> bool"
    and inv :: "'s \<Rightarrow> bool"
    and acc :: "'s \<Rightarrow> 'a"
    and pending :: "'s \<Rightarrow> 'b list"
    and process :: "'b list \<Rightarrow> 'a \<Rightarrow> 'a"
    and update :: "'s \<Rightarrow> 'b list \<Rightarrow> 's"
  assumes B_pos: "0 < B"
    and inv_pending: "inv s \<Longrightarrow> length (pending s) < B"
    and inv_update: "inv s \<Longrightarrow> ok xs \<Longrightarrow> inv (update s xs)"
    and acc_update: "inv s \<Longrightarrow> ok xs \<Longrightarrow> acc (update s xs) = fold process (chunks B (pending s @ xs)) (acc s)"
    and pending_update: "inv s \<Longrightarrow> ok xs \<Longrightarrow> pending (update s xs) = leftover B (pending s @ xs)"
begin

lemma inv_foldl: "inv s \<Longrightarrow> \<forall>xs \<in> set xss. ok xs \<Longrightarrow> inv (foldl update s xss)"
  by (induction xss arbitrary: s) (simp_all add: inv_update)

lemma update_many:
  assumes "inv s" "\<forall>xs \<in> set xss. ok xs"
  shows "acc (foldl update s xss) = fold process (chunks B (pending s @ concat xss)) (acc s)"
    and "pending (foldl update s xss) = leftover B (pending s @ concat xss)"
  using assms
proof (induction xss arbitrary: s)
  case Nil
  {
    case 1
    then show ?case using inv_pending [of s] by (simp add: chunks_short)
  next
    case 2
    then show ?case using inv_pending [of s] by (simp add: leftover_short)
  }
next
  case (Cons xs xss)
  have app: "pending s @ concat (xs # xss) = (pending s @ xs) @ concat xss" for s by simp
  {
    case 1
    have "chunks B (pending s @ concat (xs # xss))
        = chunks B (pending s @ xs) @ chunks B (leftover B (pending s @ xs) @ concat xss)"
      by (subst app) (rule chunks_append)
    then show ?case
      using 1 Cons(1) [of "update s xs"] inv_update [of s xs] by (simp add: acc_update pending_update)
  next
    case 2
    then show ?case
      unfolding app leftover_append [of B "pending s @ xs"]
      using Cons(2) [of "update s xs"] inv_update by (simp add: pending_update)
  }
qed

text \<open>How the input is split over the calls does not matter.\<close>

lemma split_irrelevant:
  assumes "inv s" "\<forall>xs \<in> set xss. ok xs" "\<forall>ys \<in> set yss. ok ys" "concat xss = concat yss"
  shows "acc (foldl update s xss) = acc (foldl update s yss) \<and>
    pending (foldl update s xss) = pending (foldl update s yss)"
  using update_many [OF assms(1,2)] update_many [OF assms(1,3)] assms(4) by simp

end

end
