(* ===== verification/Base64.thy ===== *)
theory Base64
  imports Constant_Time Block_Stream
begin

text \<open>
  \<open>crypto/base64/base64.c\<close>: the constant-time alphabet, one-shot and streaming encoding and
  decoding. The context keeps up to 47 bytes of an incomplete 48-byte line when encoding and up to
  three characters of an incomplete quad when decoding. A function that writes to \<open>out\<close> returns the
  bytes it wrote there; the terminating \<open>0\<close> byte of the encoder is part of them.
\<close>

unbundle bit_operations_syntax

section \<open>The alphabet\<close>

definition constant_time_lt_args_8 :: "u8 \<Rightarrow> u8 \<Rightarrow> u8" where
  "constant_time_lt_args_8 a b = ucast (constant_time_msb_w (ucast a - ucast b))"

definition constant_time_in_range_8 :: "u8 \<Rightarrow> u8 \<Rightarrow> u8 \<Rightarrow> u8" where
  "constant_time_in_range_8 a lo hi = constant_time_lt_args_8 (a - lo) (hi - lo + 1)"

definition conv_bin2ascii :: "u8 \<Rightarrow> u8" where
  "conv_bin2ascii a =
     (let a = a AND 0x3f;
          ret = constant_time_select_8 (constant_time_eq_8 (ucast a) 62) 0x2b 0x2f;
          ret = constant_time_select_8 (constant_time_lt_args_8 a 62) (a - 52 + 0x30) ret;
          ret = constant_time_select_8 (constant_time_lt_args_8 a 52) (a - 26 + 0x61) ret;
          ret = constant_time_select_8 (constant_time_lt_args_8 a 26) (a + 0x41) ret
      in ret)"

definition base64_ascii_to_bin :: "u8 \<Rightarrow> u8" where
  "base64_ascii_to_bin a =
     (let is_upper = constant_time_in_range_8 a 0x41 0x5a;
          is_lower = constant_time_in_range_8 a 0x61 0x7a;
          is_digit = constant_time_in_range_8 a 0x30 0x39;
          is_plus = constant_time_eq_8 (ucast a) 0x2b;
          is_slash = constant_time_eq_8 (ucast a) 0x2f;
          is_equals = constant_time_eq_8 (ucast a) 0x3d;
          ret = 0xff;
          ret = constant_time_select_8 is_upper (a - 0x41) ret;
          ret = constant_time_select_8 is_lower (a - 0x61 + 26) ret;
          ret = constant_time_select_8 is_digit (a - 0x30 + 52) ret;
          ret = constant_time_select_8 is_plus 62 ret;
          ret = constant_time_select_8 is_slash 63 ret;
          ret = constant_time_select_8 is_equals 0 ret
      in ret)"

section \<open>Encoding\<close>

record encode_ctx =
  data_used :: nat
  ctx_data :: "u8 list"
  eof_seen :: bool
  error_encountered :: bool

definition INT_MAX :: nat where
  "INT_MAX = 2 ^ 31 - 1"

definition EVP_EncodedLength :: "nat \<Rightarrow> nat option" where
  "EVP_EncodedLength n =
     (if (n + 2) mod 2 ^ 64 < n then None
      else let n = (n + 2) mod 2 ^ 64 div 3
           in if n * 4 mod 2 ^ 64 div 4 \<noteq> n then None
              else let n = n * 4 mod 2 ^ 64
                   in if (n + 1) mod 2 ^ 64 < n then None else Some (n + 1))"

definition EVP_EncodeInit :: encode_ctx where
  "EVP_EncodeInit =
     \<lparr>data_used = 0, ctx_data = replicate 48 0, eof_seen = False, error_encountered = False\<rparr>"

text \<open>The loop of \<open>EVP_EncodeBlock\<close>: the characters written before the terminating \<open>0\<close>.\<close>

fun encode_block :: "u8 list \<Rightarrow> u8 list" where
  "encode_block [] = []"
| "encode_block [b0] =
     (let l = push_bit 16 (ucast b0) :: u32
      in [conv_bin2ascii (ucast (drop_bit 18 l)), conv_bin2ascii (ucast (drop_bit 12 l)), 0x3d, 0x3d])"
| "encode_block [b0, b1] =
     (let l = push_bit 16 (ucast b0) OR push_bit 8 (ucast b1) :: u32
      in [conv_bin2ascii (ucast (drop_bit 18 l)), conv_bin2ascii (ucast (drop_bit 12 l)),
          conv_bin2ascii (ucast (drop_bit 6 l)), 0x3d])"
| "encode_block (b0 # b1 # b2 # src) =
     (let l = push_bit 16 (ucast b0) OR push_bit 8 (ucast b1) OR ucast b2 :: u32
      in [conv_bin2ascii (ucast (drop_bit 18 l)), conv_bin2ascii (ucast (drop_bit 12 l)),
          conv_bin2ascii (ucast (drop_bit 6 l)), conv_bin2ascii (ucast l)] @ encode_block src)"

definition EVP_EncodeBlock :: "u8 list \<Rightarrow> u8 list \<times> nat" where
  "EVP_EncodeBlock src = (encode_block src @ [0], length (encode_block src))"

text \<open>\<open>memcpy (&data[at], src, length src)\<close>\<close>

definition copy_in :: "nat \<Rightarrow> u8 list \<Rightarrow> u8 list \<Rightarrow> u8 list" where
  "copy_in at src buf = take at buf @ src @ drop (at + length src) buf"

text \<open>
  The loop over complete lines. \<open>out\<close> is what has been written before the terminator, \<open>tot\<close> the
  running count; \<open>None\<close> is the early return when the count overflows.
\<close>

function encode_lines :: "u8 list \<Rightarrow> u8 list \<Rightarrow> nat \<Rightarrow> u8 list \<times> (u8 list \<times> nat) option" where
  "encode_lines inp out tot =
     (if length inp < 48 then (out, Some (inp, tot))
      else let (enc, encoded) = EVP_EncodeBlock (take 48 inp);
               out = out @ take encoded enc @ [0x0a]
           in if (tot + encoded + 1) mod 2 ^ 64 < tot then (out, None)
              else encode_lines (drop 48 inp) out ((tot + encoded + 1) mod 2 ^ 64))"
  by pat_completeness auto
termination by (relation "measure (\<lambda>(inp, out, tot). length inp)") auto

declare encode_lines.simps [simp del]

text \<open>The bytes in \<open>out\<close>: the text, and the terminator if a line was written.\<close>

definition terminated :: "u8 list \<Rightarrow> u8 list" where
  "terminated out = (if out = [] then [] else out @ [0])"

text \<open>The rest of \<open>EVP_EncodeUpdate\<close>, from the loop on.\<close>

definition encode_rest :: "encode_ctx \<Rightarrow> u8 list \<Rightarrow> u8 list \<Rightarrow> nat \<Rightarrow> encode_ctx \<times> u8 list \<times> nat" where
  "encode_rest ctx inp out tot =
     (case encode_lines inp out tot of
        (out, None) \<Rightarrow> (ctx, terminated out, 0)
      | (out, Some (inp, tot)) \<Rightarrow>
          (ctx\<lparr>ctx_data := (if length inp \<noteq> 0 then copy_in 0 inp (ctx_data ctx) else ctx_data ctx),
               data_used := length inp\<rparr>,
           terminated out, if tot > INT_MAX then 0 else tot))"

definition EVP_EncodeUpdate :: "encode_ctx \<Rightarrow> u8 list \<Rightarrow> encode_ctx \<times> u8 list \<times> nat" where
  "EVP_EncodeUpdate ctx inp =
     (if length inp = 0 then (ctx, [], 0)
      else if 48 - data_used ctx > length inp then
        (ctx\<lparr>ctx_data := copy_in (data_used ctx) inp (ctx_data ctx),
             data_used := data_used ctx + length inp\<rparr>, [], 0)
      else if data_used ctx \<noteq> 0 then
        (let todo = 48 - data_used ctx;
             full = copy_in (data_used ctx) (take todo inp) (ctx_data ctx);
             (enc, encoded) = EVP_EncodeBlock full
         in encode_rest (ctx\<lparr>ctx_data := full, data_used := 0\<rparr>) (drop todo inp)
              (take encoded enc @ [0x0a]) (encoded + 1))
      else encode_rest ctx inp [] 0)"

definition EVP_EncodeFinal :: "encode_ctx \<Rightarrow> encode_ctx \<times> u8 list \<times> nat" where
  "EVP_EncodeFinal ctx =
     (if data_used ctx = 0 then (ctx, [], 0)
      else let (enc, encoded) = EVP_EncodeBlock (take (data_used ctx) (ctx_data ctx))
           in (ctx\<lparr>data_used := 0\<rparr>, take encoded enc @ [0x0a, 0], encoded + 1))"

section \<open>Decoding\<close>

definition EVP_DecodedLength :: "nat \<Rightarrow> nat option" where
  "EVP_DecodedLength n = (if n mod 4 \<noteq> 0 then None else Some (n div 4 * 3))"

definition EVP_DecodeInit :: encode_ctx where
  "EVP_DecodeInit =
     \<lparr>data_used = 0, ctx_data = replicate 48 0, eof_seen = False, error_encountered = False\<rparr>"

text \<open>The bytes written to \<open>out\<close>; their number is \<open>out_num_bytes\<close>.\<close>

definition base64_decode_quad :: "u8 \<Rightarrow> u8 \<Rightarrow> u8 \<Rightarrow> u8 \<Rightarrow> u8 list option" where
  "base64_decode_quad in0 in1 in2 in3 =
     (let a = base64_ascii_to_bin in0; b = base64_ascii_to_bin in1;
          c = base64_ascii_to_bin in2; d = base64_ascii_to_bin in3
      in if a = 0xff \<or> b = 0xff \<or> c = 0xff \<or> d = 0xff then None
         else let v = push_bit 18 (ucast a) OR push_bit 12 (ucast b) OR push_bit 6 (ucast c) OR ucast d :: u32;
                  padding_pattern = (if in0 = 0x3d then 8 else 0) + (if in1 = 0x3d then 4 else 0) +
                    (if in2 = 0x3d then 2 else 0) + (if in3 = 0x3d then 1 else 0 :: nat)
              in if padding_pattern = 0 then
                   Some [ucast (drop_bit 16 v), ucast (drop_bit 8 v), ucast v]
                 else if padding_pattern = 1 then Some [ucast (drop_bit 16 v), ucast (drop_bit 8 v)]
                 else if padding_pattern = 3 then Some [ucast (drop_bit 16 v)]
                 else None)"

definition is_space :: "u8 \<Rightarrow> bool" where
  "is_space c \<longleftrightarrow> c = 0x20 \<or> c = 0x09 \<or> c = 0x0d \<or> c = 0x0a"

text \<open>The loop of \<open>EVP_DecodeUpdate\<close>; \<open>False\<close> is the error return.\<close>

fun decode_loop :: "encode_ctx \<Rightarrow> u8 list \<Rightarrow> u8 list \<Rightarrow> bool \<times> encode_ctx \<times> u8 list" where
  "decode_loop ctx out [] = (True, ctx, out)"
| "decode_loop ctx out (c # inp) =
     (if is_space c then decode_loop ctx out inp
      else if eof_seen ctx then (False, ctx\<lparr>error_encountered := True\<rparr>, out)
      else
        (let ctx = ctx\<lparr>ctx_data := (ctx_data ctx)[data_used ctx := c], data_used := data_used ctx + 1\<rparr>
         in if data_used ctx = 4 then
              (case base64_decode_quad (ctx_data ctx ! 0) (ctx_data ctx ! 1) (ctx_data ctx ! 2) (ctx_data ctx ! 3) of
                 None \<Rightarrow> (False, ctx\<lparr>error_encountered := True\<rparr>, out)
               | Some bs \<Rightarrow>
                   decode_loop (ctx\<lparr>data_used := 0, eof_seen := (if length bs < 3 then True else eof_seen ctx)\<rparr>)
                     (out @ bs) inp)
            else decode_loop ctx out inp))"

definition EVP_DecodeUpdate :: "encode_ctx \<Rightarrow> u8 list \<Rightarrow> int \<times> encode_ctx \<times> u8 list \<times> nat" where
  "EVP_DecodeUpdate ctx inp =
     (if error_encountered ctx then (-1, ctx, [], 0)
      else case decode_loop ctx [] inp of
             (False, ctx, out) \<Rightarrow> (-1, ctx, out, 0)
           | (True, ctx, out) \<Rightarrow>
               if length out > INT_MAX then (-1, ctx\<lparr>error_encountered := True\<rparr>, out, 0)
               else (if eof_seen ctx then 0 else 1, ctx, out, length out))"

definition EVP_DecodeFinal :: "encode_ctx \<Rightarrow> int" where
  "EVP_DecodeFinal ctx = (if error_encountered ctx \<or> data_used ctx \<noteq> 0 then -1 else 1)"

text \<open>
  The loop of \<open>EVP_DecodeBase64\<close>, on an input whose length is a multiple of four: whether it got to the end, and the bytes
  it wrote. A quad that fails leaves the bytes of the quads before it in \<open>out\<close>; one with padding that is not the last
  has written its own bytes, too.
\<close>

fun decode_quads :: "u8 list \<Rightarrow> bool \<times> u8 list" where
  "decode_quads [] = (True, [])"
| "decode_quads (in0 # in1 # in2 # in3 # rest) =
     (case base64_decode_quad in0 in1 in2 in3 of
        None \<Rightarrow> (False, [])
      | Some bs \<Rightarrow>
          if length bs \<noteq> 3 \<and> rest \<noteq> [] then (False, bs)
          else (let (ok, out) = decode_quads rest in (ok, bs @ out)))"
| "decode_quads _ = (False, [])"

text \<open>The return value, the bytes written from \<open>out\<close> on, and \<open>out_len\<close>.\<close>

definition EVP_DecodeBase64 :: "nat \<Rightarrow> u8 list \<Rightarrow> bool \<times> u8 list \<times> nat" where
  "EVP_DecodeBase64 max_out inp =
     (if length inp mod 4 \<noteq> 0 then (False, [], 0)
      else case EVP_DecodedLength (length inp) of
             None \<Rightarrow> (False, [], 0)
           | Some max_len \<Rightarrow>
               if max_out < max_len then (False, [], 0)
               else (let (ok, out) = decode_quads inp in (ok, out, if ok then length out else 0)))"

text \<open>The return value and the bytes written from \<open>dst\<close> on; after success they are padded with zeros.\<close>

definition pad3 :: "u8 list \<Rightarrow> u8 list" where
  "pad3 bs = bs @ replicate (if length bs mod 3 = 0 then 0 else 3 - length bs mod 3) 0"

definition EVP_DecodeBlock :: "u8 list \<Rightarrow> int \<times> u8 list" where
  "EVP_DecodeBlock src =
     (let src = dropWhile (\<lambda>c. c = 0x20 \<or> c = 0x09) src;
          src = rev (dropWhile is_space (rev src))
      in case EVP_DecodedLength (length src) of
           None \<Rightarrow> (-1, [])
         | Some dst_len \<Rightarrow>
             if dst_len > INT_MAX then (-1, [])
             else (case EVP_DecodeBase64 dst_len src of
                     (ok, dst, dst_len) \<Rightarrow> if \<not> ok then (-1, dst) else (int (length (pad3 dst)), pad3 dst)))"

text \<open>The data that a text stands for, if it can be decoded.\<close>

definition quads_data :: "u8 list \<Rightarrow> u8 list option" where
  "quads_data inp = (case decode_quads inp of (ok, out) \<Rightarrow> if ok then Some out else None)"

lemma quads_data_simps [simp]:
  "quads_data [] = Some []"
  "quads_data (in0 # in1 # in2 # in3 # rest) =
     (case base64_decode_quad in0 in1 in2 in3 of
        None \<Rightarrow> None
      | Some bs \<Rightarrow> if length bs \<noteq> 3 \<and> rest \<noteq> [] then None else map_option ((@) bs) (quads_data rest))"
  "quads_data [a] = None" "quads_data [a, b] = None" "quads_data [a, b, c] = None"
  by (simp_all add: quads_data_def split: option.split prod.split)

lemma unat_and_mask6: "unat (a AND 0x3f :: u8) = unat a mod 64"
proof -
  have "(0x3f :: u8) = mask 6" by (simp add: mask_eq_exp_minus_1)
  then have "a AND 0x3f = take_bit 6 a" by (simp only: take_bit_eq_mask)
  then show ?thesis by (simp only: unsigned_take_bit_eq) (simp add: take_bit_eq_mod)
qed

section \<open>The alphabet is the table of RFC 4648\<close>

lemma wrap_sign:
  fixes x y :: nat
  assumes "x < 256" "y < 256"
  shows "2 ^ 63 \<le> (if y \<le> x then x - y else 2 ^ 64 + x - y) \<longleftrightarrow> x < y"
  using assms by auto

lemma wrap_range:
  fixes a lo hi :: nat
  assumes "a < 256" "hi < 256" "lo \<le> hi"
  shows "(if lo \<le> a then a - lo else 256 + a - lo) < hi - lo + 1 \<longleftrightarrow> lo \<le> a \<and> a \<le> hi"
  using assms by auto

lemma unat_sub_u8: "unat (a - b :: u8) = (if unat b \<le> unat a then unat a - unat b else 256 + unat a - unat b)"
  by (auto simp: unat_sub_if_size word_size)

lemma constant_time_lt_args_8_eq: "constant_time_lt_args_8 a b = mask_of (a < b)"
proof -
  have uc: "unat (ucast c :: u64) = unat c" for c :: u8 by simp
  have "bit (ucast a - ucast b :: u64) 63 \<longleftrightarrow> unat a < unat b"
    unfolding bit63_iff unat_sub_wrap uc by (rule wrap_sign) simp_all
  then show ?thesis
    by (simp add: constant_time_lt_args_8_def constant_time_msb_w_eq word_less_nat_alt)
qed

lemma constant_time_in_range_8_eq:
  assumes le: "lo \<le> hi" and small: "unat hi - unat lo < 255"
  shows "constant_time_in_range_8 a lo hi = mask_of (lo \<le> a \<and> a \<le> hi)"
proof -
  have d: "unat (hi - lo) = unat hi - unat lo" using le by (simp add: unat_sub)
  then have d1: "unat (hi - lo + 1) = unat hi - unat lo + 1"
    using small by (simp add: unat_word_ariths)
  have "a - lo < hi - lo + 1 \<longleftrightarrow> lo \<le> a \<and> a \<le> hi"
    unfolding word_less_nat_alt word_le_nat_alt d1 unat_sub_u8
    using le by (intro wrap_range) (simp_all add: word_le_nat_alt)
  then show ?thesis by (simp add: constant_time_in_range_8_def constant_time_lt_args_8_eq)
qed

lemma conv_bin2ascii_eq:
  "conv_bin2ascii a = (let a = a AND 0x3f in
     if a < 26 then a + 0x41 else if a < 52 then a - 26 + 0x61 else if a < 62 then a - 52 + 0x30
     else if a = 62 then 0x2b else 0x2f)"
proof -
  have "((ucast x :: u64) = 62) = (x = 62)" for x :: u8
    by (auto simp: word_unat_eq_iff)
  then show ?thesis
    by (simp add: conv_bin2ascii_def constant_time_lt_args_8_eq constant_time_eqs Let_def)
qed

lemma base64_ascii_to_bin_eq:
  "base64_ascii_to_bin a =
     (if a = 0x3d then 0 else if a = 0x2f then 63 else if a = 0x2b then 62
      else if 0x30 \<le> a \<and> a \<le> 0x39 then a - 0x30 + 52
      else if 0x61 \<le> a \<and> a \<le> 0x7a then a - 0x61 + 26
      else if 0x41 \<le> a \<and> a \<le> 0x5a then a - 0x41 else 0xff)"
proof -
  have "((ucast a :: u64) = 0x2b) = (a = 0x2b)" "((ucast a :: u64) = 0x2f) = (a = 0x2f)"
    "((ucast a :: u64) = 0x3d) = (a = 0x3d)"
    by (auto simp: word_unat_eq_iff)
  then show ?thesis
    by (simp add: base64_ascii_to_bin_def constant_time_in_range_8_eq constant_time_eqs Let_def)
qed

text \<open>On six-bit values the two tables are inverse to each other.\<close>

lemma alphabet_small:
  fixes x :: u8
  assumes "x < 64"
  shows "base64_ascii_to_bin (conv_bin2ascii x) = x \<and> conv_bin2ascii x \<noteq> 0x3d \<and> \<not> is_space (conv_bin2ascii x)"
proof -
  have x: "x AND 0x3f = x"
    using assms by (intro word_unat_eq_iff [THEN iffD2]) (simp add: unat_and_mask6 word_less_nat_alt)
  have n: "unat x < 64" using assms by (simp add: word_less_nat_alt)
  consider "unat x < 26" | "26 \<le> unat x" "unat x < 52" | "52 \<le> unat x" "unat x < 62"
    | "x = 62" | "x = 63"
    using n by (simp add: word_unat_eq_iff) linarith
  then show ?thesis
  proof cases
    case 1
    then have c: "conv_bin2ascii x = x + 0x41" by (simp add: conv_bin2ascii_eq x word_less_nat_alt)
    have "unat (x + 0x41) = unat x + 65" using 1 by (simp add: unat_word_ariths)
    then show ?thesis unfolding c base64_ascii_to_bin_eq is_space_def
      using 1 by (simp add: word_unat_eq_iff word_le_nat_alt del: unat_0_iff)
  next
    case 2
    then have c: "conv_bin2ascii x = x + 0x47" by (simp add: conv_bin2ascii_eq x word_less_nat_alt)
    have "unat (x + 0x47) = unat x + 71" using 2 by (simp add: unat_word_ariths)
    then show ?thesis unfolding c base64_ascii_to_bin_eq is_space_def
      using 2 by (simp add: word_unat_eq_iff word_le_nat_alt del: unat_0_iff)
  next
    case 3
    then have c: "conv_bin2ascii x = x - 4" by (simp add: conv_bin2ascii_eq x word_less_nat_alt)
    have "unat (x - 4) = unat x - 4" using 3 by (simp add: unat_sub word_le_nat_alt)
    moreover have "\<not> 65 \<le> unat x - 4" "48 \<le> unat x - 4" "unat x - 4 \<le> 57" using 3 by simp_all
    ultimately show ?thesis unfolding c base64_ascii_to_bin_eq is_space_def
      by (auto simp: word_unat_eq_iff word_le_nat_alt simp del: unat_0_iff)
  qed (simp_all add: conv_bin2ascii_eq base64_ascii_to_bin_eq is_space_def)
qed

lemma alphabet_inverse:
  "base64_ascii_to_bin (conv_bin2ascii a) = a AND 0x3f"
  "conv_bin2ascii a \<noteq> 0x3d" "\<not> is_space (conv_bin2ascii a)"
proof -
  have "a AND 0x3f < 64" by (simp add: word_less_nat_alt unat_and_mask6)
  moreover have "conv_bin2ascii (a AND 0x3f) = conv_bin2ascii a"
    by (simp add: conv_bin2ascii_eq and.assoc)
  ultimately show "base64_ascii_to_bin (conv_bin2ascii a) = a AND 0x3f"
    "conv_bin2ascii a \<noteq> 0x3d" "\<not> is_space (conv_bin2ascii a)"
    using alphabet_small [of "a AND 0x3f"] by simp_all
qed

section \<open>Quads\<close>

lemma quad_value:
  fixes a b c d :: u8
  assumes "unat a < 64" "unat b < 64" "unat c < 64" "unat d < 64"
  shows "unat (push_bit 18 (ucast a) OR push_bit 12 (ucast b) OR push_bit 6 (ucast c) OR ucast d :: u32)
    = ((unat a * 64 + unat b) * 64 + unat c) * 64 + unat d"
proof -
  let ?A = "push_bit 18 (ucast a) :: u32" and ?B = "push_bit 12 (ucast b) :: u32"
    and ?C = "push_bit 6 (ucast c) :: u32"
  have p: "unat ?A = unat a * 2 ^ 18" "unat ?B = unat b * 2 ^ 12" "unat ?C = unat c * 2 ^ 6"
    using assms by (simp_all add: unat_push_bit del: push_bit_eq_mult)
  have s1: "unat (?A OR ?B) = unat a * 2 ^ 18 + unat b * 2 ^ 12"
    by (subst unat_or_add [where n = 18]) (use assms in \<open>simp_all only: p dvd_triv_right, simp_all\<close>)
  have d2: "2 ^ 12 dvd unat a * 2 ^ 18 + unat b * 2 ^ 12"
    by (intro dvd_add dvd_mult) (simp_all add: le_imp_power_dvd)
  have s2: "unat ((?A OR ?B) OR ?C) = unat a * 2 ^ 18 + unat b * 2 ^ 12 + unat c * 2 ^ 6"
    by (subst unat_or_add [where n = 12]) (use assms d2 in \<open>simp_all only: p s1, simp_all\<close>)
  have d3: "2 ^ 6 dvd unat a * 2 ^ 18 + unat b * 2 ^ 12 + unat c * 2 ^ 6"
    by (intro dvd_add dvd_mult) (simp_all add: le_imp_power_dvd)
  have "unat (((?A OR ?B) OR ?C) OR ucast d)
      = unat a * 2 ^ 18 + unat b * 2 ^ 12 + unat c * 2 ^ 6 + unat d"
    by (subst unat_or_add [where n = 6]) (use assms d3 in \<open>simp_all only: s2, simp_all\<close>)
  then show ?thesis by (simp add: or.assoc)
qed

lemma group_value:
  fixes b0 b1 b2 :: u8
  shows "unat (push_bit 16 (ucast b0) OR push_bit 8 (ucast b1) OR ucast b2 :: u32)
    = (unat b0 * 256 + unat b1) * 256 + unat b2"
proof -
  let ?A = "push_bit 16 (ucast b0) :: u32" and ?B = "push_bit 8 (ucast b1) :: u32"
  have b: "unat b0 < 256" "unat b1 < 256" "unat b2 < 256" by simp_all
  have p: "unat ?A = unat b0 * 2 ^ 16" "unat ?B = unat b1 * 2 ^ 8"
    using b by (simp_all add: unat_push_bit del: unat_u8_less)
  have s1: "unat (?A OR ?B) = unat b0 * 2 ^ 16 + unat b1 * 2 ^ 8"
    by (subst unat_or_add [where n = 16]) (use b in \<open>simp_all only: p dvd_triv_right, simp_all\<close>)
  have d2: "2 ^ 8 dvd unat b0 * 2 ^ 16 + unat b1 * 2 ^ 8"
    by (intro dvd_add dvd_mult) (simp_all add: le_imp_power_dvd)
  have "unat ((?A OR ?B) OR ucast b2) = unat b0 * 2 ^ 16 + unat b1 * 2 ^ 8 + unat b2"
    by (subst unat_or_add [where n = 8]) (use b d2 in \<open>simp_all only: s1, simp_all\<close>)
  then show ?thesis by (simp add: or.assoc)
qed

text \<open>The four six-bit digits of a 24-bit number.\<close>

definition sextet :: "nat \<Rightarrow> nat \<Rightarrow> u8" where
  "sextet k n = of_nat (n div 64 ^ k mod 64)"

lemma conv_sextet:
  "conv_bin2ascii (ucast (drop_bit (6 * k) l)) = conv_bin2ascii (sextet k (unat (l :: u32)))"
proof -
  have "unat (ucast (drop_bit (6 * k) l) AND 0x3f :: u8) = unat (sextet k (unat l) AND 0x3f)"
    by (simp add: unat_and_mask6 unat_ucast_mod unat_drop_bit_div power_mult sextet_def mod_mod_cancel)
  then have "ucast (drop_bit (6 * k) l) AND 0x3f = sextet k (unat l) AND 0x3f"
    by (simp only: word_unat_eq_iff)
  then show ?thesis by (simp add: conv_bin2ascii_eq)
qed

lemma ascii_sextet: "base64_ascii_to_bin (conv_bin2ascii (sextet k n)) = sextet k n"
proof -
  have "sextet k n AND 0x3f = sextet k n"
    by (rule word_unat_eq_iff [THEN iffD2]) (simp add: unat_and_mask6 sextet_def)
  then show ?thesis by (simp add: alphabet_inverse)
qed

lemma unat_sextet: "unat (sextet k n) = n div 64 ^ k mod 64"
  by (simp add: sextet_def)

lemma sextet_not_ff: "sextet k n \<noteq> 0xff"
proof
  assume "sextet k n = 0xff"
  then have "unat (sextet k n) = 255" by simp
  moreover have "unat (sextet k n) < 64" by (simp add: unat_sextet)
  ultimately show False by simp
qed

lemma encode_block_sextets:
  "encode_block [b0] = (let n = unat b0 * 65536 in
     [conv_bin2ascii (sextet 3 n), conv_bin2ascii (sextet 2 n), 0x3d, 0x3d])"
  "encode_block [b0, b1] = (let n = unat b0 * 65536 + unat b1 * 256 in
     [conv_bin2ascii (sextet 3 n), conv_bin2ascii (sextet 2 n), conv_bin2ascii (sextet 1 n), 0x3d])"
  "encode_block (b0 # b1 # b2 # src) = (let n = unat b0 * 65536 + unat b1 * 256 + unat b2 in
     [conv_bin2ascii (sextet 3 n), conv_bin2ascii (sextet 2 n), conv_bin2ascii (sextet 1 n),
      conv_bin2ascii (sextet 0 n)] @ encode_block src)"
proof -
  note c = conv_sextet [of 3, simplified] conv_sextet [of 2, simplified] conv_sextet [of 1, simplified]
  note c0 = conv_sextet [of 0, simplified]
  have v1: "unat (push_bit 16 (ucast b0) :: u32) = unat b0 * 65536"
    using group_value [of b0 0 0] by simp
  have v2: "unat (push_bit 16 (ucast b0) OR push_bit 8 (ucast b1) :: u32) = unat b0 * 65536 + unat b1 * 256"
    using group_value [of b0 b1 0] by simp
  have v3: "unat (push_bit 16 (ucast b0) OR push_bit 8 (ucast b1) OR ucast b2 :: u32)
      = unat b0 * 65536 + unat b1 * 256 + unat b2"
    using group_value [of b0 b1 b2] by simp
  show "encode_block [b0] = (let n = unat b0 * 65536 in
     [conv_bin2ascii (sextet 3 n), conv_bin2ascii (sextet 2 n), 0x3d, 0x3d])"
    unfolding encode_block.simps Let_def c v1 ..
  show "encode_block [b0, b1] = (let n = unat b0 * 65536 + unat b1 * 256 in
     [conv_bin2ascii (sextet 3 n), conv_bin2ascii (sextet 2 n), conv_bin2ascii (sextet 1 n), 0x3d])"
    unfolding encode_block.simps Let_def c v2 by (simp only: One_nat_def)
  show "encode_block (b0 # b1 # b2 # src) = (let n = unat b0 * 65536 + unat b1 * 256 + unat b2 in
     [conv_bin2ascii (sextet 3 n), conv_bin2ascii (sextet 2 n), conv_bin2ascii (sextet 1 n),
      conv_bin2ascii (sextet 0 n)] @ encode_block src)"
    unfolding encode_block.simps Let_def c v3 unfolding c0 v3 by (simp only: One_nat_def)
qed

lemma decode_quad_full:
  assumes "unat x0 < 64" "unat x1 < 64" "unat x2 < 64" "unat x3 < 64"
    and "base64_ascii_to_bin c0 = x0" "base64_ascii_to_bin c1 = x1"
    and "base64_ascii_to_bin c2 = x2" "base64_ascii_to_bin c3 = x3"
    and "c0 \<noteq> 0x3d" "c1 \<noteq> 0x3d"
    and n: "n = ((unat x0 * 64 + unat x1) * 64 + unat x2) * 64 + unat x3"
  shows "base64_decode_quad c0 c1 c2 c3 =
    (if c2 = 0x3d then if c3 = 0x3d then Some [of_nat (n div 65536)] else None
     else if c3 = 0x3d then Some [of_nat (n div 65536), of_nat (n div 256)]
     else Some [of_nat (n div 65536), of_nat (n div 256), of_nat n])"
proof -
  let ?v = "push_bit 18 (ucast x0) OR push_bit 12 (ucast x1) OR push_bit 6 (ucast x2) OR ucast x3 :: u32"
  have v: "unat ?v = n" unfolding n by (rule quad_value) (use assms in simp_all)
  have ff: "x0 \<noteq> 0xff" "x1 \<noteq> 0xff" "x2 \<noteq> 0xff" "x3 \<noteq> 0xff" using assms(1-4) by auto
  have out: "ucast (drop_bit 16 ?v) = (of_nat (n div 65536) :: u8)"
    "ucast (drop_bit 8 ?v) = (of_nat (n div 256) :: u8)" "ucast ?v = (of_nat n :: u8)"
    by (rule word_unat_eq_iff [THEN iffD2]; simp only: unat_ucast_mod unat_drop_bit_div v unat_of_nat_u8; simp)+
  show ?thesis
    unfolding base64_decode_quad_def Let_def assms(5-8) out using assms(9,10) ff by auto
qed

lemma of_nat_byte: "(of_nat (256 * k + unat b) :: u8) = b"
  by (rule word_unat_eq_iff [THEN iffD2]) (simp del: of_nat_add)

lemma decode_encoded_quad:
  "n < 2 ^ 24 \<Longrightarrow>
   base64_decode_quad (conv_bin2ascii (sextet 3 n)) (conv_bin2ascii (sextet 2 n)) (conv_bin2ascii (sextet 1 n))
      (conv_bin2ascii (sextet 0 n))
    = Some [of_nat (n div 65536), of_nat (n div 256), of_nat n]"
  "n < 2 ^ 24 \<Longrightarrow> n mod 64 = 0 \<Longrightarrow>
   base64_decode_quad (conv_bin2ascii (sextet 3 n)) (conv_bin2ascii (sextet 2 n)) (conv_bin2ascii (sextet 1 n)) 0x3d
    = Some [of_nat (n div 65536), of_nat (n div 256)]"
  "n < 2 ^ 24 \<Longrightarrow> n mod 4096 = 0 \<Longrightarrow>
   base64_decode_quad (conv_bin2ascii (sextet 3 n)) (conv_bin2ascii (sextet 2 n)) 0x3d 0x3d
    = Some [of_nat (n div 65536)]"
proof -
  have eq: "base64_ascii_to_bin 0x3d = 0" by (simp add: base64_ascii_to_bin_eq)
  have small: "unat (sextet k n) < 64" for k by (simp add: unat_sextet)
  have digits: "n = ((n div 64 ^ 3 mod 64 * 64 + n div 64 ^ 2 mod 64) * 64 + n div 64 ^ 1 mod 64) * 64 + n div 64 ^ 0 mod 64"
    if "n < 2 ^ 24"
  proof -
    have "n div 262144 < 64" using that by (simp add: div_less_iff_less_mult)
    then have "n div 262144 mod 64 = n div 262144" by simp
    moreover have "n div 4096 = n div 262144 * 64 + n div 4096 mod 64"
      using div_mult_mod_eq [of "n div 4096" 64] by (simp add: div_mult2_eq [symmetric])
    moreover have "n div 64 = n div 4096 * 64 + n div 64 mod 64"
      using div_mult_mod_eq [of "n div 64" 64] by (simp add: div_mult2_eq [symmetric])
    moreover have "n = n div 64 * 64 + n mod 64" by simp
    ultimately show ?thesis by simp
  qed
  {
    assume n: "n < 2 ^ 24"
    show "base64_decode_quad (conv_bin2ascii (sextet 3 n)) (conv_bin2ascii (sextet 2 n)) (conv_bin2ascii (sextet 1 n))
      (conv_bin2ascii (sextet 0 n)) = Some [of_nat (n div 65536), of_nat (n div 256), of_nat n]"
      by (subst decode_quad_full [OF small small small small ascii_sextet ascii_sextet ascii_sextet ascii_sextet
            alphabet_inverse(2) alphabet_inverse(2), where n = n])
        (simp_all only: unat_sextet digits [OF n, symmetric] alphabet_inverse(2) if_False)
    assume m: "n mod 64 = 0"
    have "sextet 0 n = 0" using m by (simp add: sextet_def)
    then have eq0: "base64_ascii_to_bin 0x3d = sextet 0 n" using eq by simp
    show "base64_decode_quad (conv_bin2ascii (sextet 3 n)) (conv_bin2ascii (sextet 2 n))
        (conv_bin2ascii (sextet 1 n)) 0x3d = Some [of_nat (n div 65536), of_nat (n div 256)]"
      by (subst decode_quad_full [OF small small small small ascii_sextet ascii_sextet ascii_sextet eq0
            alphabet_inverse(2) alphabet_inverse(2), where n = n])
        (simp_all only: unat_sextet digits [OF n, symmetric] alphabet_inverse(2) if_False if_True refl)
  next
    assume n: "n < 2 ^ 24" and m: "n mod 4096 = 0"
    then obtain k where "n = 4096 * k" by (auto elim: dvdE simp: mod_eq_0_iff_dvd)
    then have "n = 64 * (64 * k)" by simp
    then have "n mod 64 = 0" "n div 64 mod 64 = 0" by (simp_all only: mod_mult_self1_is_0) simp_all
    then have "sextet 0 n = 0" "sextet 1 n = 0" by (simp_all add: sextet_def)
    then have eq0: "base64_ascii_to_bin 0x3d = sextet 0 n" "base64_ascii_to_bin 0x3d = sextet 1 n"
      using eq by simp_all
    show "base64_decode_quad (conv_bin2ascii (sextet 3 n)) (conv_bin2ascii (sextet 2 n)) 0x3d 0x3d
      = Some [of_nat (n div 65536)]"
      by (subst decode_quad_full [OF small small small small ascii_sextet ascii_sextet eq0(2) eq0(1)
            alphabet_inverse(2) alphabet_inverse(2), where n = n])
        (simp_all only: unat_sextet digits [OF n, symmetric] if_True refl)
  }
qed

section \<open>One-shot round trip\<close>

lemma length_encode_block: "length (encode_block xs) = (length xs + 2) div 3 * 4"
proof (induction xs rule: encode_block.induct)
  case (4 b0 b1 b2 src)
  have "(length (b0 # b1 # b2 # src) + 2) div 3 = (length src + 2) div 3 + 1" by simp
  with 4 show ?case by (simp add: Let_def)
qed (simp_all add: Let_def)

lemma encode_block_nonempty_iff [simp]: "encode_block xs = [] \<longleftrightarrow> xs = []"
  by (cases xs rule: encode_block.cases) (simp_all add: Let_def)

lemma group_less: "unat b0 * 65536 + unat b1 * 256 + unat b2 < 2 ^ 24" for b0 b1 b2 :: u8
proof -
  have "unat b0 \<le> 255" "unat b1 \<le> 255" "unat b2 \<le> 255"
    using unat_u8_less [of b0] unat_u8_less [of b1] unat_u8_less [of b2] by linarith+
  then show ?thesis by simp
qed

lemma byte_shift: "r < 256 \<Longrightarrow> (k * 256 + r) div 256 = k" for k r :: nat
  by simp

lemma group_bytes:
  fixes b0 b1 b2 :: u8
  defines "n \<equiv> unat b0 * 65536 + unat b1 * 256 + unat b2"
  shows "(of_nat (n div 65536) :: u8) = b0" "(of_nat (n div 256) :: u8) = b1" "(of_nat n :: u8) = b2"
proof -
  have b: "unat b1 * 256 + unat b2 < 65536" "unat b2 < 256"
    using unat_u8_less [of b1] unat_u8_less [of b2] by linarith+
  have "n div 65536 = unat b0" using b(1) unfolding n_def by (simp add: add.assoc)
  moreover have "n div 256 = 256 * unat b0 + unat b1"
  proof -
    have "n = (256 * unat b0 + unat b1) * 256 + unat b2" by (simp add: n_def)
    then show ?thesis by (simp only: byte_shift [OF b(2)])
  qed
  moreover have "n = 256 * (256 * unat b0 + unat b1) + unat b2" by (simp add: n_def)
  ultimately show "(of_nat (n div 65536) :: u8) = b0" "(of_nat (n div 256) :: u8) = b1" "(of_nat n :: u8) = b2"
    by (simp_all only: of_nat_byte) simp
qed

lemma quads_data_encode: "quads_data (encode_block xs) = Some xs"
proof (induction xs rule: encode_block.induct)
  case (2 b0)
  have "unat b0 * 65536 < 2 ^ 24" using group_less [of b0 0 0] by simp
  from decode_encoded_quad(3) [OF this] show ?case
    using group_bytes(1) [of b0 0 0] by (simp add: encode_block_sextets Let_def del: encode_block.simps)
next
  case (3 b0 b1)
  have n: "unat b0 * 65536 + unat b1 * 256 < 2 ^ 24" using group_less [of b0 b1 0] by simp
  have "(unat b0 * 65536 + unat b1 * 256) mod 64 = 0"
    using mod_mult_self1_is_0 [of 64 "unat b0 * 1024 + unat b1 * 4"] by (simp add: algebra_simps)
  from decode_encoded_quad(2) [OF n this] show ?case
    using group_bytes(1,2) [of b0 b1 0] by (simp add: encode_block_sextets Let_def del: encode_block.simps)
next
  case (4 b0 b1 b2 src)
  from decode_encoded_quad(1) [OF group_less [of b0 b1 b2]] show ?case
    using group_bytes [of b0 b1 b2] 4 by (simp add: encode_block_sextets Let_def del: encode_block.simps)
qed simp

lemma EVP_DecodeBase64_encode:
  assumes "(length xs + 2) div 3 * 3 \<le> max_out"
  shows "EVP_DecodeBase64 max_out (encode_block xs) = (True, xs, length xs)"
  using assms quads_data_encode [of xs]
  by (simp add: EVP_DecodeBase64_def EVP_DecodedLength_def length_encode_block quads_data_def split: prod.splits if_splits)

text \<open>The buffer size that \<open>EVP_EncodedLength\<close> computes is the text and its terminator.\<close>

lemma quad_bound: "q * 4 < 2 ^ 64 \<Longrightarrow> q * 4 + 1 < (2 ^ 64 :: nat)"
  by simp

lemma quad_wrap: "\<not> q * 4 < 2 ^ 64 \<Longrightarrow> q * 4 mod 2 ^ 64 div 4 \<noteq> (q :: nat)"
  using mod_less_divisor [of "2 ^ 64" "q * 4"] by simp

lemma EVP_EncodedLength_eq:
  assumes "n < 2 ^ 64"
  shows "EVP_EncodedLength n = (if (n + 2) div 3 * 4 + 1 < 2 ^ 64 then Some ((n + 2) div 3 * 4 + 1) else None)"
proof (cases "n + 2 < 2 ^ 64")
  case True
  then have m: "(n + 2) mod 2 ^ 64 = n + 2" by (rule mod_less)
  have nl: "\<not> n + 2 < n" by simp
  have e: "EVP_EncodedLength n = (let q = (n + 2) div 3 in if q * 4 mod 2 ^ 64 div 4 \<noteq> q then None
      else let n = q * 4 mod 2 ^ 64 in if (n + 1) mod 2 ^ 64 < n then None else Some (n + 1))"
    unfolding EVP_EncodedLength_def m if_not_P [OF nl] Let_def ..
  show ?thesis
  proof (cases "(n + 2) div 3 * 4 < 2 ^ 64")
    case q4: True
    then show ?thesis using quad_bound [OF q4] unfolding e Let_def
      by (simp only: mod_less if_True if_False not_add_less1) simp
  next
    case False
    then show ?thesis using quad_wrap [OF False] unfolding e Let_def by simp
  qed
next
  case False
  then have "(n + 2) mod 2 ^ 64 = n + 2 - 2 ^ 64" using assms by (simp add: mod_if)
  moreover have "n + 2 - 2 ^ 64 < n" using False by simp
  ultimately have "(n + 2) mod 2 ^ 64 < n" by (simp only:)
  moreover have "\<not> (n + 2) div 3 * 4 + 1 < 2 ^ 64" using False by simp
  ultimately show ?thesis by (simp only: EVP_EncodedLength_def if_True if_False)
qed

end
