(* ===== verification/Base64_Stream.thy ===== *)
theory Base64_Stream
  imports Base64
begin

text \<open>
  The streaming interface of \<open>base64.c\<close>. Encoding: the calls of \<open>EVP_EncodeUpdate\<close> and
  \<open>EVP_EncodeFinal\<close> write the lines of the concatenated input, however it is cut into pieces.
  Decoding: \<open>EVP_DecodeUpdate\<close> over any pieces of a text that is an encoding up to white space
  returns the data.
\<close>

section \<open>Encoding in pieces\<close>

definition b64_line :: "u8 list \<Rightarrow> u8 list" where
  "b64_line b = encode_block b @ [0x0a]"

definition b64_lines :: "u8 list \<Rightarrow> u8 list" where
  "b64_lines xs = concat (map b64_line (chunks 48 xs)) @
     (if leftover 48 xs = [] then [] else b64_line (leftover 48 xs))"

text \<open>
  As much input as can be encoded in one call: \<open>EVP_EncodeUpdate\<close> reports that it wrote nothing when the lines it wrote
  have more than \<open>INT_MAX\<close> bytes.
\<close>

definition enc_piece_max :: nat where
  "enc_piece_max = 48 * (INT_MAX div 65)"

lemma enc_piece_max: "enc_piece_max = 1585834032"
  by (simp add: enc_piece_max_def INT_MAX_def)

text \<open>What a caller does with the results: it appends \<open>out_len\<close> bytes of \<open>out\<close> to its text.\<close>

definition enc_feed :: "encode_ctx \<times> u8 list \<Rightarrow> u8 list \<Rightarrow> encode_ctx \<times> u8 list" where
  "enc_feed s xs = (let (ctx, out, n) = EVP_EncodeUpdate (fst s) xs in (ctx, snd s @ take n out))"

definition encode_stream :: "u8 list list \<Rightarrow> u8 list" where
  "encode_stream xss =
     (let (ctx, t) = foldl enc_feed (EVP_EncodeInit, []) xss; (ctx, out, n) = EVP_EncodeFinal ctx
      in t @ take n out)"

definition enc_ok :: "encode_ctx \<Rightarrow> bool" where
  "enc_ok ctx \<longleftrightarrow> data_used ctx < 48 \<and> length (ctx_data ctx) = 48"

definition enc_pending :: "encode_ctx \<Rightarrow> u8 list" where
  "enc_pending ctx = take (data_used ctx) (ctx_data ctx)"

lemma length_b64_line: "length b = 48 \<Longrightarrow> length (b64_line b) = 65"
  by (simp add: b64_line_def length_encode_block)

lemma length_lines: "\<forall>b \<in> set bs. length b = 48 \<Longrightarrow> length (concat (map b64_line bs)) = 65 * length bs"
  by (induction bs) (simp_all add: length_b64_line)

lemma length_chunks: "length (chunks 48 xs) = length xs div 48"
proof (induction "48 :: nat" xs rule: chunks.induct)
  case (1 xs)
  show ?case
  proof (cases "length xs < 48")
    case False
    then have "length (chunks 48 (drop 48 xs)) = (length xs - 48) div 48" using 1 by simp
    moreover have "length xs div 48 = Suc ((length xs - 48) div 48)" using False by (simp add: le_div_geq)
    ultimately show ?thesis using False by (subst chunks.simps) simp
  qed (simp add: chunks_short)
qed

lemma length_text: "length (concat (map b64_line (chunks 48 xs))) = 65 * (length xs div 48)"
  using length_lines [of "chunks 48 xs"] length_in_chunks [of _ 48 xs] by (simp add: length_chunks)

lemma take_EVP_EncodeBlock: "EVP_EncodeBlock b = (enc, n) \<Longrightarrow> take n enc @ [0x0a] = b64_line b"
  "EVP_EncodeBlock b = (enc, n) \<Longrightarrow> n = (length b + 2) div 3 * 4"
  by (auto simp: EVP_EncodeBlock_def b64_line_def length_encode_block)

lemma encode_lines_ok:
  assumes "tot + 65 * length inp < 2 ^ 64"
  shows "encode_lines inp out tot =
    (out @ concat (map b64_line (chunks 48 inp)), Some (leftover 48 inp, tot + 65 * (length inp div 48)))"
  using assms
proof (induction inp out tot rule: encode_lines.induct)
  case (1 inp out tot)
  show ?case
  proof (cases "length inp < 48")
    case True
    then show ?thesis by (subst encode_lines.simps) (simp add: chunks_short leftover_short)
  next
    case False
    then have "length (take 48 inp) = 48" by simp
    then obtain enc where e: "EVP_EncodeBlock (take 48 inp) = (enc, 64)" "take 64 enc @ [0x0a] = b64_line (take 48 inp)"
      using take_EVP_EncodeBlock [of "take 48 inp"] by (cases "EVP_EncodeBlock (take 48 inp)") auto
    have t: "(tot + 64 + 1) mod 2 ^ 64 = tot + 65" using "1.prems" False by simp
    have "encode_lines inp out tot = encode_lines (drop 48 inp) (out @ b64_line (take 48 inp)) (tot + 65)"
      by (subst encode_lines.simps) (use False e t in \<open>simp del: One_nat_def\<close>)
    also have "\<dots> = (out @ b64_line (take 48 inp) @ concat (map b64_line (chunks 48 (drop 48 inp))),
        Some (leftover 48 (drop 48 inp), tot + 65 + 65 * (length (drop 48 inp) div 48)))"
      using 1(1) [OF False e(1) [symmetric] refl] "1.prems" False e(2) t by (simp add: add.commute [of tot])
    also have "tot + 65 + 65 * (length (drop 48 inp) div 48) = tot + 65 * (length inp div 48)"
      using False by (simp add: le_div_geq)
    finally show ?thesis using False by (simp add: chunks.simps [of 48 inp] leftover.simps [of 48 inp])
  qed
qed

lemma copy_in_full: "length buf = 48 \<Longrightarrow> at + length src = 48 \<Longrightarrow> copy_in at src buf = take at buf @ src"
  by (simp add: copy_in_def)

lemma length_copy_in: "at + length src \<le> length buf \<Longrightarrow> length (copy_in at src buf) = length buf"
  by (simp add: copy_in_def)

lemma take_copy_in: "at \<le> length buf \<Longrightarrow> take (at + length src) (copy_in at src buf) = take at buf @ src"
  by (simp add: copy_in_def)

lemma take_terminated: "take (length out) (terminated out) = out"
  by (simp add: terminated_def)

text \<open>The second half of \<open>EVP_EncodeUpdate\<close>, after a buffered line has been completed.\<close>

lemma enc_tail:
  assumes "length inp \<le> enc_piece_max" "tot + 65 * (length inp div 48) \<le> INT_MAX" "length (ctx_data ctx) = 48" "tot = length out"
  defines "r \<equiv> encode_rest ctx inp out tot"
  shows "enc_ok (fst r)" "enc_pending (fst r) = leftover 48 inp"
    "take (snd (snd r)) (fst (snd r)) = out @ concat (map b64_line (chunks 48 inp))"
proof -
  let ?t = "out @ concat (map b64_line (chunks 48 inp))"
  have l: "encode_lines inp out tot = (?t, Some (leftover 48 inp, tot + 65 * (length inp div 48)))"
    using assms(1,2) by (intro encode_lines_ok) (simp add: enc_piece_max INT_MAX_def)
  have n: "tot + 65 * (length inp div 48) = length ?t"
    using assms(4) length_text [of inp] by simp
  have small: "\<not> length ?t > INT_MAX" using assms(2) unfolding n [symmetric] by simp
  have lo: "length (leftover 48 inp) < 48" by (simp add: length_leftover)
  have r: "r = (ctx\<lparr>ctx_data := (if length (leftover 48 inp) \<noteq> 0 then copy_in 0 (leftover 48 inp) (ctx_data ctx) else ctx_data ctx),
      data_used := length (leftover 48 inp)\<rparr>, terminated ?t, length ?t)"
    unfolding r_def encode_rest_def l using n small by simp
  show "enc_ok (fst r)" "enc_pending (fst r) = leftover 48 inp"
    unfolding r enc_ok_def enc_pending_def
    using lo assms(3) length_copy_in [of 0 "leftover 48 inp" "ctx_data ctx"]
      take_copy_in [of 0 "ctx_data ctx" "leftover 48 inp"] by auto
  show "take (snd (snd r)) (fst (snd r)) = ?t" unfolding r by (simp only: fst_conv snd_conv take_terminated)
qed

lemma piece_lines:
  assumes "n \<le> enc_piece_max"
  shows "65 * (n div 48) \<le> INT_MAX" "0 < k \<Longrightarrow> 65 + 65 * ((n - k) div 48) \<le> INT_MAX"
proof -
  have "n div 48 \<le> 33038209" using div_le_mono [OF assms, of 48] by (simp add: enc_piece_max)
  then show "65 * (n div 48) \<le> INT_MAX" by (simp add: INT_MAX_def)
  assume "0 < k"
  then have "n - k \<le> 1585834031" using assms by (simp add: enc_piece_max)
  from div_le_mono [OF this, of 48] show "65 + 65 * ((n - k) div 48) \<le> INT_MAX" by (simp add: INT_MAX_def)
qed

lemma EVP_EncodeUpdate_ok:
  assumes "enc_ok ctx" "length xs \<le> enc_piece_max"
  defines "r \<equiv> EVP_EncodeUpdate ctx xs"
  shows "enc_ok (fst r)" "enc_pending (fst r) = leftover 48 (enc_pending ctx @ xs)"
    "take (snd (snd r)) (fst (snd r)) = concat (map b64_line (chunks 48 (enc_pending ctx @ xs)))"
proof -
  have used: "data_used ctx < 48" "length (ctx_data ctx) = 48" "length (enc_pending ctx) = data_used ctx"
    using assms(1) by (simp_all add: enc_ok_def enc_pending_def)
  have all: "enc_ok (fst r) \<and> enc_pending (fst r) = leftover 48 (enc_pending ctx @ xs) \<and>
    take (snd (snd r)) (fst (snd r)) = concat (map b64_line (chunks 48 (enc_pending ctx @ xs)))"
  proof (cases "48 - data_used ctx > length xs")
    case True
    then have s: "length (enc_pending ctx @ xs) < 48" using used by simp
    from True used assms(1) show ?thesis unfolding r_def EVP_EncodeUpdate_def chunks_short [OF s] leftover_short [OF s]
      by (auto simp: enc_ok_def enc_pending_def length_copy_in take_copy_in)
  next
    case False
    then have ne: "length xs \<noteq> 0" using used by linarith
    show ?thesis
    proof (cases "data_used ctx = 0")
      case True
      then have p: "enc_pending ctx = []" by (simp add: enc_pending_def)
      show ?thesis unfolding r_def EVP_EncodeUpdate_def if_not_P [OF ne] if_not_P [OF False] p
        using True enc_tail [of xs 0 ctx "[]"] used(2) assms(2) piece_lines(1) [OF assms(2)] by simp
    next
      case used0: False
      let ?todo = "48 - data_used ctx"
      have f: "copy_in (data_used ctx) (take ?todo xs) (ctx_data ctx) = enc_pending ctx @ take ?todo xs"
        (is "?full = _") using False used by (simp add: copy_in_full enc_pending_def)
      have lf: "length (enc_pending ctx @ take ?todo xs) = 48" using False used by simp
      obtain enc where e: "EVP_EncodeBlock (enc_pending ctx @ take ?todo xs) = (enc, 64)"
          "take 64 enc @ [0x0a] = b64_line (enc_pending ctx @ take ?todo xs)"
        using take_EVP_EncodeBlock [of "enc_pending ctx @ take ?todo xs"] lf
        by (cases "EVP_EncodeBlock (enc_pending ctx @ take ?todo xs)") auto
      let ?ctx = "ctx\<lparr>ctx_data := enc_pending ctx @ take ?todo xs, data_used := 0\<rparr>"
      have split: "enc_pending ctx @ xs = (enc_pending ctx @ take ?todo xs) @ drop ?todo xs" by simp
      have c: "chunks 48 (enc_pending ctx @ xs) = (enc_pending ctx @ take ?todo xs) # chunks 48 (drop ?todo xs)"
        "leftover 48 (enc_pending ctx @ xs) = leftover 48 (drop ?todo xs)"
        unfolding split using lf by (simp_all only: chunks_block leftover_block zero_less_numeral)
      have l65: "(65 :: nat) = length (b64_line (enc_pending ctx @ take ?todo xs))" using lf by (simp only: length_b64_line)
      have "length (drop ?todo xs) \<le> enc_piece_max" "65 + 65 * (length (drop ?todo xs) div 48) \<le> INT_MAX" "length (ctx_data ?ctx) = 48"
        using assms(2) lf piece_lines(2) [OF assms(2), of ?todo] used(1) by simp_all
      note t = enc_tail [OF this l65]
      have "r = encode_rest ?ctx (drop ?todo xs) (b64_line (enc_pending ctx @ take ?todo xs)) 65"
        unfolding r_def EVP_EncodeUpdate_def if_not_P [OF ne] if_not_P [OF False] if_P [OF used0] Let_def f e(1)
          prod.case e(2) by (simp only: numeral_plus_one add_num_simps)
      then show ?thesis unfolding c using t by simp
    qed
  qed
  then show "enc_ok (fst r)" "enc_pending (fst r) = leftover 48 (enc_pending ctx @ xs)"
    "take (snd (snd r)) (fst (snd r)) = concat (map b64_line (chunks 48 (enc_pending ctx @ xs)))"
    by simp_all
qed

interpretation b64: block_stream 48 "\<lambda>xs. length xs \<le> enc_piece_max" "\<lambda>s. enc_ok (fst s)" snd
  "\<lambda>s. enc_pending (fst s)" "\<lambda>b t. t @ b64_line b" enc_feed
proof
  have fold: "fold (\<lambda>b t. t @ b64_line b) bs a = a @ concat (map b64_line bs)" for bs a
    by (induction bs arbitrary: a) simp_all
  fix s :: "encode_ctx \<times> u8 list" and xs :: "u8 list"
  assume i: "enc_ok (fst s)"
  show "length (enc_pending (fst s)) < 48" using i by (simp add: enc_ok_def enc_pending_def)
  assume l: "length xs \<le> enc_piece_max"
  note u = EVP_EncodeUpdate_ok [OF i l]
  show "enc_ok (fst (enc_feed s xs))" using u(1) by (simp add: enc_feed_def split_beta Let_def)
  show "enc_pending (fst (enc_feed s xs)) = leftover 48 (enc_pending (fst s) @ xs)"
    using u(2) by (simp add: enc_feed_def split_beta Let_def)
  show "snd (enc_feed s xs) = fold (\<lambda>b t. t @ b64_line b) (chunks 48 (enc_pending (fst s) @ xs)) (snd s)"
    using u(3) by (simp add: enc_feed_def split_beta Let_def fold)
qed simp

lemma enc_ok_init: "enc_ok EVP_EncodeInit" "enc_pending EVP_EncodeInit = []"
  by (simp_all add: enc_ok_def enc_pending_def EVP_EncodeInit_def)

lemma encode_final_ok:
  assumes "enc_ok ctx"
  shows "(case EVP_EncodeFinal ctx of (ctx, out, n) \<Rightarrow> take n out) =
    (if enc_pending ctx = [] then [] else b64_line (enc_pending ctx))"
proof -
  have "enc_pending ctx = [] \<longleftrightarrow> data_used ctx = 0"
    using assms by (auto simp: enc_pending_def enc_ok_def)
  then show ?thesis
    by (auto simp: EVP_EncodeFinal_def EVP_EncodeBlock_def enc_pending_def [symmetric] b64_line_def Let_def)
qed

lemma encode_stream_lines:
  assumes "\<forall>xs \<in> set xss. length xs \<le> enc_piece_max"
  shows "encode_stream xss = b64_lines (concat xss)"
proof -
  have i: "enc_ok (fst (EVP_EncodeInit, []))" "enc_pending (fst (EVP_EncodeInit, [])) = []"
    by (simp_all add: enc_ok_init)
  have fold: "fold (\<lambda>b t. t @ b64_line b) bs a = a @ concat (map b64_line bs)" for bs a
    by (induction bs arbitrary: a) simp_all
  obtain ctx t where f: "foldl enc_feed (EVP_EncodeInit, []) xss = (ctx, t)" by fastforce
  have "t = concat (map b64_line (chunks 48 (concat xss)))" "enc_pending ctx = leftover 48 (concat xss)"
    "enc_ok ctx"
    using b64.update_many [OF i(1) assms] b64.inv_foldl [OF i(1) assms] f i(2) by (simp_all add: fold)
  moreover have "encode_stream xss = t @ (case EVP_EncodeFinal ctx of (ctx, out, n) \<Rightarrow> take n out)"
    unfolding encode_stream_def f by (simp add: split_beta)
  ultimately show ?thesis by (simp add: encode_final_ok b64_lines_def)
qed

section \<open>Decoding in pieces\<close>

text \<open>A caller feeds the pieces until one call fails and then asks \<open>EVP_DecodeFinal\<close>.\<close>

fun decode_feed :: "encode_ctx \<Rightarrow> u8 list \<Rightarrow> u8 list list \<Rightarrow> u8 list option" where
  "decode_feed ctx out [] = (if EVP_DecodeFinal ctx = 1 then Some out else None)"
| "decode_feed ctx out (xs # xss) =
     (case EVP_DecodeUpdate ctx xs of
        (r, ctx, bs, n) \<Rightarrow> if r < 0 then None else decode_feed ctx (out @ take n bs) xss)"

definition decode_stream :: "u8 list list \<Rightarrow> u8 list option" where
  "decode_stream xss = decode_feed EVP_DecodeInit [] xss"

text \<open>
  The context after reading a prefix: \<open>r\<close> is the part of an incomplete quad that is buffered; what
  is still to come completes it to \<open>bs\<close>.
\<close>

definition dec_state :: "encode_ctx \<Rightarrow> u8 list \<Rightarrow> u8 list \<Rightarrow> bool" where
  "dec_state ctx rest bs \<longleftrightarrow> data_used ctx < 4 \<and> length (ctx_data ctx) = 48 \<and> \<not> error_encountered ctx \<and>
     quads_data (take (data_used ctx) (ctx_data ctx) @ rest) = Some bs \<and>
     (eof_seen ctx \<longrightarrow> take (data_used ctx) (ctx_data ctx) @ rest = [])"

lemma take_push: "n < length xs \<Longrightarrow> take (Suc n) (xs[n := x]) = take n xs @ [x]"
  by (simp add: take_Suc_conv_app_nth)

lemma take4: "length xs \<ge> 4 \<Longrightarrow> take 4 xs = [xs ! 0, xs ! 1, xs ! 2, xs ! 3]"
  by (simp add: list_eq_iff_nth_eq less_Suc_eq numeral_eq_Suc)

lemma base64_decode_quad_length: "base64_decode_quad a b c d = Some bs \<Longrightarrow> length bs \<le> 3"
  by (auto simp: base64_decode_quad_def Let_def split: if_splits)

lemma decode_loop_ok:
  assumes "dec_state ctx (filter (\<lambda>c. \<not> is_space c) inp @ rest) bs"
  shows "\<exists>ctx' bs1 bs2. decode_loop ctx out inp = (True, ctx', out @ bs1) \<and> dec_state ctx' rest bs2 \<and> bs = bs1 @ bs2"
  using assms
proof (induction ctx out inp arbitrary: bs rule: decode_loop.induct)
  case (1 ctx out)
  then show ?case by auto
next
  case (2 ctx out c inp)
  show ?case
  proof (cases "is_space c")
    case True
    then show ?thesis using 2 by simp
  next
    case ns: False
    let ?more = "filter (\<lambda>c. \<not> is_space c) inp @ rest" and ?used = "data_used ctx"
    have st: "?used < 4" "length (ctx_data ctx) = 48" "\<not> error_encountered ctx" "\<not> eof_seen ctx"
      and dq: "quads_data (take ?used (ctx_data ctx) @ c # ?more) = Some bs"
      using "2.prems" ns by (auto simp: dec_state_def)
    let ?ctx = "ctx\<lparr>ctx_data := (ctx_data ctx)[?used := c], data_used := ?used + 1\<rparr>"
    have p: "take (Suc ?used) (ctx_data ?ctx) = take ?used (ctx_data ctx) @ [c]"
      using st by (simp add: take_push)
    show ?thesis
    proof (cases "?used + 1 = 4")
      case False
      then have "dec_state ?ctx ?more bs" using st dq p by (simp add: dec_state_def)
      then show ?thesis using 2(3) [OF ns] ns st False by simp
    next
      case True
      let ?d = "ctx_data ?ctx"
      have "take 4 ?d = [?d ! 0, ?d ! 1, ?d ! 2, ?d ! 3]" using st by (intro take4) simp
      then have d: "take ?used (ctx_data ctx) @ c # ?more = ?d ! 0 # ?d ! 1 # ?d ! 2 # ?d ! 3 # ?more"
        using p True by simp
      from dq obtain q where q: "base64_decode_quad (?d ! 0) (?d ! 1) (?d ! 2) (?d ! 3) = Some q"
        "length q \<noteq> 3 \<longrightarrow> ?more = []" "map_option ((@) q) (quads_data ?more) = Some bs"
        unfolding d by (auto split: option.splits if_splits)
      then obtain bs' where bs': "quads_data ?more = Some bs'" "bs = q @ bs'" by auto
      let ?ctx' = "?ctx\<lparr>data_used := 0, eof_seen := (if length q < 3 then True else eof_seen ?ctx)\<rparr>"
      have "dec_state ?ctx' ?more bs'"
        using q(2) bs'(1) st by (auto simp: dec_state_def)
      from 2(2) [OF ns _ refl _ q(1) this] obtain ctx' bs1 bs2 where
        "decode_loop ?ctx' (out @ q) inp = (True, ctx', (out @ q) @ bs1)" "dec_state ctx' rest bs2" "bs' = bs1 @ bs2"
        using st True by auto
      then have "decode_loop ctx out (c # inp) = (True, ctx', out @ (q @ bs1)) \<and> dec_state ctx' rest bs2 \<and> bs = (q @ bs1) @ bs2"
        using ns st True q(1) bs'(2) by (cases "length q < 3") simp_all
      then show ?thesis by blast
    qed
  qed
qed

lemma decode_loop_length:
  "decode_loop ctx out inp = (ok, ctx', out') \<Longrightarrow> data_used ctx < 4 \<Longrightarrow>
    4 * length out' \<le> 4 * length out + 3 * (data_used ctx + length inp)"
proof (induction ctx out inp rule: decode_loop.induct)
  case (2 ctx out c inp)
  show ?case
  proof (cases "is_space c \<or> eof_seen ctx")
    case True
    then show ?thesis using 2 by (auto split: if_splits)
  next
    case ns: False
    let ?ctx = "ctx\<lparr>ctx_data := (ctx_data ctx)[data_used ctx := c], data_used := data_used ctx + 1\<rparr>"
    show ?thesis
    proof (cases "data_used ctx + 1 = 4")
      case False
      then show ?thesis using 2(3) [OF _ _ refl] ns "2.prems" by simp
    next
      case True
      show ?thesis
      proof (cases "base64_decode_quad (ctx_data ?ctx ! 0) (ctx_data ?ctx ! 1) (ctx_data ?ctx ! 2) (ctx_data ?ctx ! 3)")
        case None
        then show ?thesis using ns True "2.prems" by simp
      next
        case (Some bs)
        then show ?thesis using 2(2) [OF _ _ refl _ Some] ns True "2.prems" base64_decode_quad_length [OF Some]
          by (cases ctx; cases "length bs < 3") simp_all
      qed
    qed
  qed
qed simp

lemma dec_state_init: "quads_data bs = Some xs \<Longrightarrow> dec_state EVP_DecodeInit bs xs"
  by (simp add: dec_state_def EVP_DecodeInit_def)

lemma decode_feed_ok:
  assumes "dec_state ctx (filter (\<lambda>c. \<not> is_space c) (concat xss)) bs" "\<forall>xs \<in> set xss. length xs \<le> INT_MAX"
  shows "decode_feed ctx out xss = Some (out @ bs)"
  using assms
proof (induction xss arbitrary: ctx out bs)
  case Nil
  then have "quads_data (take (data_used ctx) (ctx_data ctx)) = Some bs" "data_used ctx < 4"
    "length (ctx_data ctx) = 48" "\<not> error_encountered ctx" by (simp_all add: dec_state_def)
  moreover from this have "data_used ctx = 0 \<and> bs = []"
    by (cases "take (data_used ctx) (ctx_data ctx)" rule: decode_quads.cases)
      (auto dest!: arg_cong [where f = length])
  ultimately show ?case by (simp add: EVP_DecodeFinal_def)
next
  case (Cons xs xss)
  from decode_loop_ok [of ctx xs "filter (\<lambda>c. \<not> is_space c) (concat xss)" bs "[]"] Cons.prems(1)
  obtain ctx' bs1 bs2 where l: "decode_loop ctx [] xs = (True, ctx', bs1)"
    "dec_state ctx' (filter (\<lambda>c. \<not> is_space c) (concat xss)) bs2" "bs = bs1 @ bs2" by auto
  have "\<not> error_encountered ctx" "data_used ctx < 4" using Cons.prems(1) by (simp_all add: dec_state_def)
  moreover from this(2) have "length bs1 \<le> INT_MAX"
    using decode_loop_length [OF l(1)] Cons.prems(2) by (simp add: INT_MAX_def)
  ultimately have "EVP_DecodeUpdate ctx xs = (if eof_seen ctx' then 0 else 1, ctx', bs1, length bs1)"
    using l(1) by (simp add: EVP_DecodeUpdate_def)
  moreover have "decode_feed ctx' (out @ bs1) xss = Some ((out @ bs1) @ bs2)"
    using l(2,3) Cons.prems(2) by (intro Cons.IH) simp_all
  ultimately show ?case using l(3) by simp
qed

section \<open>Line breaks\<close>

lemma filter_encode_block: "filter (\<lambda>c. \<not> is_space c) (encode_block xs) = encode_block xs"
proof -
  have "\<not> is_space 0x3d" by (simp add: is_space_def)
  then show ?thesis by (induction xs rule: encode_block.induct) (simp_all add: Let_def alphabet_inverse)
qed

lemma encode_block_append: "length b mod 3 = 0 \<Longrightarrow> encode_block (b @ xs) = encode_block b @ encode_block xs"
  by (induction b rule: encode_block.induct) (simp_all add: Let_def)

lemma filter_b64_lines: "filter (\<lambda>c. \<not> is_space c) (b64_lines xs) = encode_block xs"
proof (induction "48 :: nat" xs rule: chunks.induct)
  case (1 xs)
  have nl: "is_space 0x0a" by (simp add: is_space_def)
  show ?case
  proof (cases "length xs < 48")
    case True
    then show ?thesis
      by (simp add: b64_lines_def chunks_short leftover_short b64_line_def filter_encode_block nl)
  next
    case False
    then have l: "length (take 48 xs) = 48" by simp
    have "b64_lines xs = b64_line (take 48 xs) @ b64_lines (drop 48 xs)"
      unfolding b64_lines_def using False by (simp add: chunks.simps [of 48 xs] leftover.simps [of 48 xs])
    moreover have "encode_block xs = encode_block (take 48 xs) @ encode_block (drop 48 xs)"
      using encode_block_append [of "take 48 xs" "drop 48 xs"] l by simp
    ultimately show ?thesis using 1 False by (simp add: b64_line_def filter_encode_block nl)
  qed
qed

lemma decode_stream_ok:
  assumes "filter (\<lambda>c. \<not> is_space c) (concat xss) = encode_block xs" "\<forall>ys \<in> set xss. length ys \<le> INT_MAX"
  shows "decode_stream xss = Some xs"
  unfolding decode_stream_def
  using decode_feed_ok [of EVP_DecodeInit xss xs "[]"] assms quads_data_encode [of xs]
  by (simp add: dec_state_init)

section \<open>Properties\<close>

lemma b64_lines_Man: "b64_lines [0x4d, 0x61, 0x6e] = [0x54, 0x57, 0x46, 0x75, 0x0a]"
  by (simp add: b64_lines_def chunks_short leftover_short b64_line_def conv_bin2ascii_eq)

lemma length_decode_quads: "length (snd (decode_quads inp)) \<le> length inp div 4 * 3"
proof (induction inp rule: decode_quads.induct)
  case (2 in0 in1 in2 in3 rest)
  have d: "(4 + length rest) div 4 = length rest div 4 + 1" using div_add_self1 [of 4 "length rest"] by simp
  show ?case
  proof (cases "base64_decode_quad in0 in1 in2 in3")
    case (Some q)
    then show ?thesis using 2 d base64_decode_quad_length [OF Some] by (auto simp: split_beta)
  qed simp
qed simp_all

text \<open>
  C12. Streaming is the same as encoding at once: whatever pieces of at most \<open>enc_piece_max\<close> = 1585834032 bytes the
  input comes in, the bytes that \<open>EVP_EncodeUpdate\<close> and \<open>EVP_EncodeFinal\<close> hand out are the 64-character lines of the
  concatenated input, the last one shorter, each with its line feed. Of a piece whose lines have more than \<open>INT_MAX\<close> bytes
  the code hands out nothing.
\<close>

theorem base64_stream_encodes:
  assumes "\<forall>xs \<in> set xss. length xs \<le> enc_piece_max"
  shows "encode_stream xss = b64_lines (concat xss)"
  using assms by (rule encode_stream_lines)

theorem base64_stream_encodes_witness:
  "encode_stream [[0x4d], [], [0x61, 0x6e]] = [0x54, 0x57, 0x46, 0x75, 0x0a]"
  using base64_stream_encodes [of "[[0x4d], [], [0x61, 0x6e]]"] by (simp add: b64_lines_Man enc_piece_max)

text \<open>
  C13. Streaming round trip: the text of a streaming encoder, fed with pieces of at most \<open>enc_piece_max\<close> bytes, decodes to
  the data in any other pieces of at most \<open>INT_MAX\<close> bytes; no call fails and \<open>EVP_DecodeFinal\<close> accepts.
\<close>

theorem base64_stream_roundtrip:
  assumes "\<forall>xs \<in> set xss. length xs \<le> enc_piece_max" "\<forall>ys \<in> set yss. length ys \<le> INT_MAX"
    "concat yss = encode_stream xss"
  shows "decode_stream yss = Some (concat xss)"
  using assms by (intro decode_stream_ok) (simp_all add: encode_stream_lines filter_b64_lines)

theorem base64_stream_roundtrip_witness:
  "decode_stream [[0x54, 0x57], [0x46, 0x75, 0x0a]] = Some [0x4d, 0x61, 0x6e]"
  using base64_stream_roundtrip [of "[[0x4d, 0x61, 0x6e]]" "[[0x54, 0x57], [0x46, 0x75, 0x0a]]"]
    encode_stream_lines [of "[[0x4d, 0x61, 0x6e]]"]
  by (simp add: b64_lines_Man INT_MAX_def enc_piece_max)

text \<open>
  \<open>EVP_EncodedLength\<close> is exactly the size of the buffer that \<open>EVP_EncodeBlock\<close> fills, terminator
  included, and fails exactly when that size is no \<open>size_t\<close>.
\<close>

theorem EVP_EncodedLength_exact:
  assumes "length src < 2 ^ 64"
  shows "EVP_EncodedLength (length src) =
    (if length (fst (EVP_EncodeBlock src)) < 2 ^ 64 then Some (length (fst (EVP_EncodeBlock src))) else None)"
  using EVP_EncodedLength_eq [OF assms] by (simp add: EVP_EncodeBlock_def length_encode_block)

theorem EVP_EncodedLength_exact_witness: "EVP_EncodedLength 4 = Some 9"
  using EVP_EncodedLength_exact [of "replicate 4 0"] by (simp add: EVP_EncodeBlock_def length_encode_block)

text \<open>
  C15. \<open>EVP_DecodeBase64\<close> never writes past the \<open>max_out\<close> bytes it is given, whatever the input and also when it fails
  after having written the quads before the bad one. \<open>out_len\<close> is the number of bytes written, or 0 after a failure.
\<close>

theorem EVP_DecodeBase64_fits:
  "case EVP_DecodeBase64 max_out inp of (ok, out, out_len) \<Rightarrow> length out \<le> max_out \<and> out_len = (if ok then length out else 0)"
  using length_decode_quads [of inp] by (auto simp: EVP_DecodeBase64_def EVP_DecodedLength_def split_beta Let_def)

text \<open>A failure that has written: the second quad is bad.\<close>

lemma EVP_DecodeBase64_partial:
  "EVP_DecodeBase64 6 [0x54, 0x57, 0x46, 0x75, 0x21, 0x21, 0x21, 0x21] = (False, [0x4d, 0x61, 0x6e], 0)"
  by code_simp

end
