(* ===== verification/Stack.thy ===== *)
theory Stack
  imports Qsort
begin

text \<open>
  \<open>crypto/stack/stack.c\<close>: the growable array of pointers. A pointer is an option, \<open>None\<close> being
  \<open>NULL\<close>, also the pointer to the stack itself. A comparison function is named by a value of type
  \<open>'c\<close>, since the code compares such pointers; \<open>call_cmp c\<close> is what calling it does. \<open>malloc_ok n\<close>
  says whether an allocation of \<open>n\<close> bytes succeeds, \<open>junk\<close> is what fresh memory holds.
\<close>

section \<open>The code\<close>

record ('c, 'p) stack_st =
  st_num :: nat
  st_data :: "'p option list"
  st_sorted :: bool
  st_num_alloc :: nat
  st_comp :: "'c option"

definition sizeof_STACK :: nat where
  "sizeof_STACK = 40"

definition kMinSize :: nat where
  "kMinSize = 4"

definition sk_new :: "(nat \<Rightarrow> bool) \<Rightarrow> 'c option \<Rightarrow> ('c, 'p) stack_st option" where
  "sk_new malloc_ok cmp =
     (if \<not> malloc_ok sizeof_STACK then None
      else if \<not> malloc_ok (8 * kMinSize) then None
      else Some \<lparr>st_num = 0, st_data = replicate kMinSize None, st_sorted = False,
                 st_num_alloc = kMinSize, st_comp = cmp\<rparr>)"

definition sk_new_null :: "(nat \<Rightarrow> bool) \<Rightarrow> ('c, 'p) stack_st option" where
  "sk_new_null malloc_ok = sk_new malloc_ok None"

definition sk_num :: "('c, 'p) stack_st option \<Rightarrow> nat" where
  "sk_num sk = (case sk of None \<Rightarrow> 0 | Some s \<Rightarrow> st_num s)"

definition sk_zero :: "('c, 'p) stack_st option \<Rightarrow> ('c, 'p) stack_st option" where
  "sk_zero sk =
     (case sk of
        None \<Rightarrow> None
      | Some s \<Rightarrow>
          if st_num s = 0 then Some s
          else Some (s\<lparr>st_data := replicate (st_num s) None @ drop (st_num s) (st_data s),
                       st_num := 0, st_sorted := False\<rparr>))"

definition sk_value :: "('c, 'p) stack_st option \<Rightarrow> nat \<Rightarrow> 'p option" where
  "sk_value sk i =
     (case sk of None \<Rightarrow> None | Some s \<Rightarrow> if i \<ge> st_num s then None else st_data s ! i)"

definition sk_set :: "('c, 'p) stack_st option \<Rightarrow> nat \<Rightarrow> 'p option \<Rightarrow> ('c, 'p) stack_st option \<times> 'p option" where
  "sk_set sk i value =
     (case sk of
        None \<Rightarrow> (None, None)
      | Some s \<Rightarrow>
          if i \<ge> st_num s then (Some s, None)
          else (Some (s\<lparr>st_data := (st_data s)[i := value]\<rparr>), value))"

text \<open>The pointers handed to \<open>call_free_func\<close>, in this order.\<close>

definition sk_pop_free_ex :: "('c, 'p) stack_st option \<Rightarrow> 'p list" where
  "sk_pop_free_ex sk =
     (case sk of
        None \<Rightarrow> []
      | Some s \<Rightarrow> concat (map (\<lambda>i. case st_data s ! i of None \<Rightarrow> [] | Some p \<Rightarrow> [p]) [0..<st_num s]))"

definition sk_pop_free :: "('c, 'p) stack_st option \<Rightarrow> 'p list" where
  "sk_pop_free sk = sk_pop_free_ex sk"

definition realloc_ptrs :: "(nat \<Rightarrow> 'p option) \<Rightarrow> 'p option list \<Rightarrow> nat \<Rightarrow> 'p option list" where
  "realloc_ptrs junk xs n = take n xs @ map junk [length xs..<n]"

definition move_ptrs :: "nat \<Rightarrow> nat \<Rightarrow> nat \<Rightarrow> 'p list \<Rightarrow> 'p list" where
  "move_ptrs dst src n xs = take dst xs @ take n (drop src xs) @ drop (dst + n) xs"

text \<open>The first half of \<open>sk_insert\<close>: room for one more pointer.\<close>

definition sk_grow :: "(nat \<Rightarrow> bool) \<Rightarrow> (nat \<Rightarrow> 'p option) \<Rightarrow> ('c, 'p) stack_st \<Rightarrow> ('c, 'p) stack_st option" where
  "sk_grow malloc_ok junk s =
     (if st_num_alloc s \<le> (st_num s + 1) mod 2 ^ 64 then
        (let new_alloc = st_num_alloc s * 2 mod 2 ^ 64;
             alloc_size = new_alloc * 8 mod 2 ^ 64;
             (new_alloc, alloc_size) =
               (if new_alloc < st_num_alloc s \<or> alloc_size div 8 \<noteq> new_alloc then
                  (let new_alloc = (st_num_alloc s + 1) mod 2 ^ 64
                   in (new_alloc, new_alloc * 8 mod 2 ^ 64))
                else (new_alloc, alloc_size))
         in if new_alloc < st_num_alloc s \<or> alloc_size div 8 \<noteq> new_alloc then None
            else if \<not> malloc_ok alloc_size then None
            else Some (s\<lparr>st_data := realloc_ptrs junk (st_data s) new_alloc, st_num_alloc := new_alloc\<rparr>))
      else Some s)"

definition sk_insert ::
  "(nat \<Rightarrow> bool) \<Rightarrow> (nat \<Rightarrow> 'p option) \<Rightarrow> ('c, 'p) stack_st option \<Rightarrow> 'p option \<Rightarrow> nat \<Rightarrow>
     ('c, 'p) stack_st option \<times> nat" where
  "sk_insert malloc_ok junk sk p at =
     (case sk of
        None \<Rightarrow> (None, 0)
      | Some s \<Rightarrow>
          (case sk_grow malloc_ok junk s of
             None \<Rightarrow> (Some s, 0)
           | Some s \<Rightarrow>
               let d = (if at \<ge> st_num s then (st_data s)[st_num s := p]
                        else (move_ptrs (at + 1) at (st_num s - at) (st_data s))[at := p])
               in (Some (s\<lparr>st_data := d, st_num := (st_num s + 1) mod 2 ^ 64, st_sorted := False\<rparr>),
                   (st_num s + 1) mod 2 ^ 64)))"

definition sk_delete :: "('c, 'p) stack_st option \<Rightarrow> nat \<Rightarrow> ('c, 'p) stack_st option \<times> 'p option" where
  "sk_delete sk at =
     (case sk of
        None \<Rightarrow> (None, None)
      | Some s \<Rightarrow>
          if at \<ge> st_num s then (Some s, None)
          else (Some (s\<lparr>st_data := (if at \<noteq> st_num s - 1
                                    then move_ptrs at (at + 1) (st_num s - at - 1) (st_data s)
                                    else st_data s),
                        st_num := st_num s - 1\<rparr>), st_data s ! at))"

text \<open>The loops that look for the first index with a property.\<close>

fun first_index :: "('p option \<Rightarrow> bool) \<Rightarrow> nat \<Rightarrow> 'p option list \<Rightarrow> nat option" where
  "first_index P i [] = None"
| "first_index P i (x # xs) = (if P x then Some i else first_index P (i + 1) xs)"

definition sk_delete_ptr :: "('c, 'p) stack_st option \<Rightarrow> 'p option \<Rightarrow> ('c, 'p) stack_st option \<times> 'p option" where
  "sk_delete_ptr sk p =
     (case sk of
        None \<Rightarrow> (None, None)
      | Some s \<Rightarrow>
          (case first_index (\<lambda>e. e = p) 0 (take (st_num s) (st_data s)) of
             None \<Rightarrow> (Some s, None)
           | Some i \<Rightarrow> sk_delete (Some s) i))"

text \<open>The binary search of \<open>sk_find\<close>; \<open>r i\<close> compares the key with element \<open>i\<close>.\<close>

function bsearch :: "(nat \<Rightarrow> int) \<Rightarrow> nat \<Rightarrow> nat \<Rightarrow> nat option" where
  "bsearch r lo hi =
     (if lo < hi then
        (let mid = lo + (hi - lo - 1) div 2
         in if r mid > 0 then bsearch r (mid + 1) hi
            else if r mid < 0 then bsearch r lo mid
            else if hi - lo = 1 then Some mid
            else bsearch r lo (mid + 1))
      else None)"
  by pat_completeness auto
termination by (relation "measure (\<lambda>(r, lo, hi). hi - lo)") (auto simp: Let_def)

declare bsearch.simps [simp del]

definition sk_is_sorted :: "('c, 'p) stack_st option \<Rightarrow> bool" where
  "sk_is_sorted sk = (case sk of None \<Rightarrow> True | Some s \<Rightarrow> st_sorted s)"

definition sk_find ::
  "('c \<Rightarrow> 'p option \<Rightarrow> 'p option \<Rightarrow> int) \<Rightarrow> ('c, 'p) stack_st option \<Rightarrow> 'p option \<Rightarrow> nat option" where
  "sk_find call_cmp sk p =
     (case sk of
        None \<Rightarrow> None
      | Some s \<Rightarrow>
          (case st_comp s of
             None \<Rightarrow> first_index (\<lambda>e. e = p) 0 (take (st_num s) (st_data s))
           | Some c \<Rightarrow>
               if p = None then None
               else if \<not> sk_is_sorted sk
               then first_index (\<lambda>e. call_cmp c p e = 0) 0 (take (st_num s) (st_data s))
               else bsearch (\<lambda>i. call_cmp c p (st_data s ! i)) 0 (st_num s)))"

definition sk_shift :: "('c, 'p) stack_st option \<Rightarrow> ('c, 'p) stack_st option \<times> 'p option" where
  "sk_shift sk =
     (case sk of None \<Rightarrow> (None, None) | Some s \<Rightarrow> if st_num s = 0 then (Some s, None) else sk_delete sk 0)"

definition sk_push ::
  "(nat \<Rightarrow> bool) \<Rightarrow> (nat \<Rightarrow> 'p option) \<Rightarrow> ('c, 'p) stack_st \<Rightarrow> 'p option \<Rightarrow> ('c, 'p) stack_st option \<times> nat" where
  "sk_push malloc_ok junk s p = sk_insert malloc_ok junk (Some s) p (st_num s)"

definition sk_pop :: "('c, 'p) stack_st option \<Rightarrow> ('c, 'p) stack_st option \<times> 'p option" where
  "sk_pop sk =
     (case sk of
        None \<Rightarrow> (None, None)
      | Some s \<Rightarrow> if st_num s = 0 then (Some s, None) else sk_delete sk (st_num s - 1))"

definition sk_dup ::
  "(nat \<Rightarrow> bool) \<Rightarrow> (nat \<Rightarrow> 'p option) \<Rightarrow> ('c, 'p) stack_st option \<Rightarrow> ('c, 'p) stack_st option" where
  "sk_dup malloc_ok junk sk =
     (case sk of
        None \<Rightarrow> None
      | Some s \<Rightarrow>
          (case sk_new malloc_ok (st_comp s) of
             None \<Rightarrow> None
           | Some ret \<Rightarrow>
               if \<not> malloc_ok (8 * st_num_alloc s mod 2 ^ 64) then None
               else
                 (let d = realloc_ptrs junk (st_data ret) (st_num_alloc s)
                  in Some (ret\<lparr>st_data := take (st_num s) (st_data s) @ drop (st_num s) d,
                               st_num := st_num s, st_sorted := st_sorted s,
                               st_num_alloc := st_num_alloc s, st_comp := st_comp s\<rparr>))))"

definition sk_sort ::
  "('c \<Rightarrow> 'p option \<Rightarrow> 'p option \<Rightarrow> int) \<Rightarrow> ('c, 'p) stack_st option \<Rightarrow> ('c, 'p) stack_st option" where
  "sk_sort call_cmp sk =
     (case sk of
        None \<Rightarrow> None
      | Some s \<Rightarrow>
          (case st_comp s of
             None \<Rightarrow> Some s
           | Some c \<Rightarrow>
               if st_sorted s then Some s
               else Some (s\<lparr>st_data := (if st_num s \<ge> 2
                                        then qsort (call_cmp c) (take (st_num s) (st_data s)) @ drop (st_num s) (st_data s)
                                        else st_data s),
                            st_sorted := True\<rparr>)))"

definition sk_set_cmp_func :: "('c, 'p) stack_st \<Rightarrow> 'c option \<Rightarrow> ('c, 'p) stack_st \<times> 'c option" where
  "sk_set_cmp_func s c =
     (s\<lparr>st_sorted := (if st_comp s \<noteq> c then False else st_sorted s), st_comp := c\<rparr>, st_comp s)"

text \<open>
  The loop of \<open>sk_deep_copy\<close>: \<open>call_copy i p\<close> is the result of copying \<open>p\<close> when the copy of element
  \<open>i\<close> is made. Element \<open>i\<close> is replaced in place; on failure the copies made so far are freed, in
  order, and the stack is dropped.
\<close>

function copy_elems ::
  "(nat \<Rightarrow> 'p \<Rightarrow> 'p option) \<Rightarrow> nat \<Rightarrow> ('c, 'p) stack_st \<Rightarrow> ('c, 'p) stack_st option \<times> 'p list" where
  "copy_elems call_copy i s =
     (if i < st_num s then
        (case st_data s ! i of
           None \<Rightarrow> copy_elems call_copy (i + 1) s
         | Some p \<Rightarrow>
             (case call_copy i p of
                None \<Rightarrow> (None, concat (map (\<lambda>j. case st_data s ! j of None \<Rightarrow> [] | Some q \<Rightarrow> [q]) [0..<i]))
              | Some q \<Rightarrow> copy_elems call_copy (i + 1) (s\<lparr>st_data := (st_data s)[i := Some q]\<rparr>)))
      else (Some s, []))"
  by pat_completeness auto
termination by (relation "measure (\<lambda>(f, i, s). st_num s - i)") auto

declare copy_elems.simps [simp del]

definition sk_deep_copy ::
  "(nat \<Rightarrow> bool) \<Rightarrow> (nat \<Rightarrow> 'p option) \<Rightarrow> (nat \<Rightarrow> 'p \<Rightarrow> 'p option) \<Rightarrow> ('c, 'p) stack_st option \<Rightarrow>
     ('c, 'p) stack_st option \<times> 'p list" where
  "sk_deep_copy malloc_ok junk call_copy sk =
     (case sk_dup malloc_ok junk sk of
        None \<Rightarrow> (None, [])
      | Some ret \<Rightarrow> copy_elems call_copy 0 ret)"

section \<open>The stack as a list\<close>

definition elems :: "('c, 'p) stack_st \<Rightarrow> 'p option list" where
  "elems s = take (st_num s) (st_data s)"

text \<open>The invariant of the representation; the buffer always has a spare cell.\<close>

definition stack_ok :: "('c, 'p) stack_st \<Rightarrow> bool" where
  "stack_ok s \<longleftrightarrow> st_num s < st_num_alloc s \<and> length (st_data s) = st_num_alloc s \<and> st_num_alloc s * 8 < 2 ^ 64"

lemma length_elems: "stack_ok s \<Longrightarrow> length (elems s) = st_num s"
  by (simp add: elems_def stack_ok_def)

lemma elems_nth: "i < st_num s \<Longrightarrow> elems s ! i = st_data s ! i"
  by (simp add: elems_def)

lemma sk_new_ok: "sk_new malloc_ok c = Some s \<Longrightarrow> stack_ok s \<and> elems s = [] \<and> st_comp s = c \<and> \<not> st_sorted s"
  by (auto simp: sk_new_def stack_ok_def elems_def kMinSize_def split: if_splits)

lemma double_overflow:
  fixes n :: nat
  assumes "n * 8 < 2 ^ 64"
  shows "n * 2 mod 2 ^ 64 = n * 2" "n * 2 * 8 mod 2 ^ 64 div 8 \<noteq> n * 2 \<longleftrightarrow> 2 ^ 64 \<le> n * 16"
proof -
  show "n * 2 mod 2 ^ 64 = n * 2" using assms by (intro mod_less) simp
  show "n * 2 * 8 mod 2 ^ 64 div 8 \<noteq> n * 2 \<longleftrightarrow> 2 ^ 64 \<le> n * 16"
  proof (cases "n * 16 < 2 ^ 64")
    case False
    have "n * 2 * 8 mod 2 ^ 64 < 2 ^ 64" by simp
    then have "n * 2 * 8 mod 2 ^ 64 div 8 < n * 2" using False by (simp add: div_less_iff_less_mult)
    then show ?thesis using False by simp
  qed simp
qed

lemma increment_overflow:
  fixes n :: nat
  assumes "n * 8 < 2 ^ 64"
  shows "(n + 1) mod 2 ^ 64 = n + 1" "(n + 1) * 8 mod 2 ^ 64 div 8 \<noteq> n + 1 \<longleftrightarrow> 2 ^ 64 \<le> (n + 1) * 8"
proof -
  show "(n + 1) mod 2 ^ 64 = n + 1" using assms by (intro mod_less) simp
  show "(n + 1) * 8 mod 2 ^ 64 div 8 \<noteq> n + 1 \<longleftrightarrow> 2 ^ 64 \<le> (n + 1) * 8"
  proof (cases "(n + 1) * 8 < 2 ^ 64")
    case False
    have "(n + 1) * 8 mod 2 ^ 64 < 2 ^ 64" by simp
    then have "(n + 1) * 8 mod 2 ^ 64 div 8 < n + 1" using False by (simp add: div_less_iff_less_mult)
    then show ?thesis using False by simp
  qed simp
qed

text \<open>Growing changes neither the elements nor the rest, and leaves room for one more.\<close>

lemma sk_grow_ok:
  assumes "stack_ok s" "sk_grow malloc_ok junk s = Some s'"
  shows "stack_ok s' \<and> elems s' = elems s \<and> st_num s' = st_num s \<and> st_num s + 1 < st_num_alloc s' \<and>
    st_comp s' = st_comp s"
proof -
  let ?n = "st_num_alloc s"
  have s: "st_num s < ?n" "length (st_data s) = ?n" "?n * 8 < 2 ^ 64" using assms(1) by (simp_all add: stack_ok_def)
  have n1: "(st_num s + 1) mod 2 ^ 64 = st_num s + 1" using s by (intro mod_less) simp
  have elems: "elems (s\<lparr>st_data := realloc_ptrs junk (st_data s) m, st_num_alloc := m\<rparr>) = elems s"
    "length (realloc_ptrs junk (st_data s) m) = m" if "?n \<le> m" for m
    using that s by (auto simp: elems_def realloc_ptrs_def min_def)
  show ?thesis
  proof (cases "?n \<le> st_num s + 1")
    case False
    then show ?thesis using assms n1 by (simp add: sk_grow_def)
  next
    case True
    then obtain m where m: "s' = s\<lparr>st_data := realloc_ptrs junk (st_data s) m, st_num_alloc := m\<rparr>"
      "?n < m" "m * 8 < 2 ^ 64"
      using assms(2) n1 s double_overflow [OF s(3)] increment_overflow [OF s(3)]
      unfolding sk_grow_def Let_def by (auto split: if_splits)
    then show ?thesis using s True elems [of m] by (auto simp: stack_ok_def)
  qed
qed

lemma sk_grow_success:
  assumes "stack_ok s" "\<forall>n. malloc_ok n" "(st_num s + 2) * 8 < 2 ^ 64"
  shows "\<exists>s'. sk_grow malloc_ok junk s = Some s'"
proof (cases "st_num_alloc s \<le> (st_num s + 1) mod 2 ^ 64")
  case True
  have s: "st_num s < st_num_alloc s" "st_num_alloc s * 8 < 2 ^ 64" using assms(1) by (simp_all add: stack_ok_def)
  have "(st_num s + 1) mod 2 ^ 64 = st_num s + 1" using s by (intro mod_less) simp
  then have "st_num_alloc s = st_num s + 1" using True s by simp
  then have "(st_num_alloc s + 1) * 8 < 2 ^ 64" using assms(3) by simp
  then show ?thesis
    using double_overflow [OF s(2)] increment_overflow [OF s(2)] assms(2) True
    unfolding sk_grow_def Let_def by auto
qed (simp add: sk_grow_def)

definition insert_at :: "nat \<Rightarrow> 'a \<Rightarrow> 'a list \<Rightarrow> 'a list" where
  "insert_at i x xs = take i xs @ x # drop i xs"

definition delete_at :: "nat \<Rightarrow> 'a list \<Rightarrow> 'a list" where
  "delete_at i xs = take i xs @ drop (i + 1) xs"

lemma take_prefix: "length xs = n \<Longrightarrow> take n (xs @ ys) = xs"
  by simp

lemma take_move_up:
  assumes "i \<le> n" "n < length xs"
  shows "take (n + 1) ((move_ptrs (i + 1) i (n - i) xs)[i := x]) = insert_at i x (take n xs)"
proof -
  have "take (i + 1) xs = take i xs @ [xs ! i]" using assms by (simp add: take_Suc_conv_app_nth)
  then have "(move_ptrs (i + 1) i (n - i) xs)[i := x] = (take i xs @ x # take (n - i) (drop i xs)) @ drop (n + 1) xs"
    using assms list_update_length [of "take i xs" "xs ! i" "take (n - i) (drop i xs) @ drop (n + 1) xs" x]
    by (simp add: move_ptrs_def)
  moreover have "length (take i xs @ x # take (n - i) (drop i xs)) = n + 1" using assms by simp
  ultimately have "take (n + 1) ((move_ptrs (i + 1) i (n - i) xs)[i := x]) = take i xs @ x # take (n - i) (drop i xs)"
    by (simp only: take_prefix)
  then show ?thesis using assms by (simp add: insert_at_def drop_take min_def)
qed

lemma take_move_down:
  assumes "i < n" "n \<le> length xs"
  shows "take (n - 1) (move_ptrs i (i + 1) (n - i - 1) xs) = delete_at i (take n xs)"
proof -
  have "move_ptrs i (i + 1) (n - i - 1) xs = (take i xs @ take (n - i - 1) (drop (i + 1) xs)) @ drop (n - 1) xs"
    using assms by (simp add: move_ptrs_def)
  moreover have "length (take i xs @ take (n - i - 1) (drop (i + 1) xs)) = n - 1" using assms by simp
  ultimately have "take (n - 1) (move_ptrs i (i + 1) (n - i - 1) xs) = take i xs @ take (n - i - 1) (drop (i + 1) xs)"
    by (simp only: take_prefix)
  then show ?thesis using assms by (simp add: delete_at_def drop_take min_def)
qed

lemma length_move_ptrs:
  "dst + n \<le> length xs \<Longrightarrow> src + n \<le> length xs \<Longrightarrow> length (move_ptrs dst src n xs) = length xs"
  by (simp add: move_ptrs_def)

lemma sk_insert_ok:
  assumes "stack_ok s" "sk_insert malloc_ok junk (Some s) p i = (Some s', n)" "n \<noteq> 0"
  shows "stack_ok s' \<and> elems s' = insert_at i p (elems s) \<and> n = length (elems s') \<and> \<not> st_sorted s' \<and>
    st_comp s' = st_comp s"
proof -
  obtain g where g: "sk_grow malloc_ok junk s = Some g"
    using assms(2,3) by (auto simp: sk_insert_def split: option.splits)
  note ok = sk_grow_ok [OF assms(1) g]
  let ?d = "if i \<ge> st_num g then (st_data g)[st_num g := p]
      else (move_ptrs (i + 1) i (st_num g - i) (st_data g))[i := p]"
  have b: "st_num g + 1 < length (st_data g)" "st_num_alloc g * 8 < 2 ^ 64" "length (st_data g) = st_num_alloc g"
    using ok by (simp_all add: stack_ok_def)
  then have m: "(st_num g + 1) mod 2 ^ 64 = st_num g + 1" by (intro mod_less) simp
  have s': "s' = g\<lparr>st_data := ?d, st_num := st_num g + 1, st_sorted := False\<rparr>" "n = st_num g + 1"
    using assms(2) g m by (auto simp: sk_insert_def Let_def)
  have l: "length ?d = length (st_data g)" using b by (simp add: length_move_ptrs)
  have "take (st_num g + 1) ?d = insert_at i p (elems g)"
  proof (cases "i \<ge> st_num g")
    case True
    then show ?thesis using b by (simp add: insert_at_def elems_def take_Suc_conv_app_nth)
  next
    case False
    then show ?thesis using b take_move_up [of i "st_num g" "st_data g" p] by (simp add: elems_def)
  qed
  then have "elems s' = insert_at i p (elems g)" by (simp add: s'(1) elems_def)
  then have "elems s' = insert_at i p (elems s)" using ok by simp
  moreover have "stack_ok s'" using b l unfolding s'(1) by (auto simp: stack_ok_def simp del: if_split)
  ultimately show ?thesis using s' ok length_elems [of s'] by simp
qed

lemma sk_insert_fail: "sk_insert malloc_ok junk (Some s) p i = (s', 0) \<Longrightarrow> stack_ok s \<Longrightarrow> s' = Some s"
  using sk_grow_ok [of s malloc_ok junk]
  by (cases "sk_grow malloc_ok junk s") (fastforce simp: sk_insert_def Let_def stack_ok_def)+

lemma sk_insert_success:
  assumes "stack_ok s" "\<forall>n. malloc_ok n" "(st_num s + 2) * 8 < 2 ^ 64"
  shows "\<exists>s'. sk_insert malloc_ok junk (Some s) p i = (Some s', st_num s + 1)"
proof -
  obtain g where g: "sk_grow malloc_ok junk s = Some g" using sk_grow_success [OF assms] by blast
  have "(st_num s + 1) mod 2 ^ 64 = st_num s + 1" using assms(3) by (intro mod_less) simp
  then show ?thesis using g sk_grow_ok [OF assms(1) g] by (simp add: sk_insert_def Let_def)
qed

lemma sk_delete_ok:
  assumes "stack_ok s" "i < length (elems s)" "sk_delete (Some s) i = (sk', p)"
  shows "\<exists>s'. sk' = Some s' \<and> stack_ok s' \<and> elems s' = delete_at i (elems s) \<and> p = elems s ! i \<and>
    st_sorted s' = st_sorted s \<and> st_comp s' = st_comp s"
proof -
  have s: "i < st_num s" "st_num s < length (st_data s)" "length (st_data s) = st_num_alloc s" "st_num_alloc s * 8 < 2 ^ 64"
    using assms(1,2) by (simp_all add: length_elems stack_ok_def)
  let ?d = "if i \<noteq> st_num s - 1 then move_ptrs i (i + 1) (st_num s - i - 1) (st_data s) else st_data s"
  let ?s = "s\<lparr>st_data := ?d, st_num := st_num s - 1\<rparr>"
  have r: "sk' = Some ?s" "p = st_data s ! i" using assms(3) s(1) by (auto simp: sk_delete_def)
  have "take (st_num s - 1) ?d = delete_at i (elems s)"
  proof (cases "i = st_num s - 1")
    case True
    then show ?thesis using s by (simp add: elems_def delete_at_def min_def)
  next
    case False
    then show ?thesis using s take_move_down [of i "st_num s" "st_data s"] by (simp add: elems_def)
  qed
  moreover have "stack_ok ?s" using s length_move_ptrs [of i "st_num s - i - 1" "st_data s" "i + 1"]
    by (auto simp: stack_ok_def)
  ultimately show ?thesis using r s(1) by (simp add: elems_def)
qed

lemma sk_delete_out_of_range: "st_num s \<le> i \<Longrightarrow> sk_delete (Some s) i = (Some s, None)"
  by (simp add: sk_delete_def)

lemma sk_zero_ok: "stack_ok s \<Longrightarrow> \<exists>s'. sk_zero (Some s) = Some s' \<and> stack_ok s' \<and> elems s' = [] \<and> st_comp s' = st_comp s"
  by (auto simp: sk_zero_def stack_ok_def elems_def)

lemma sk_value_elems: "stack_ok s \<Longrightarrow> sk_value (Some s) i = (if i < length (elems s) then elems s ! i else None)"
  by (simp add: sk_value_def length_elems elems_nth)

lemma sk_set_ok:
  "stack_ok s \<Longrightarrow> i < length (elems s) \<Longrightarrow>
    \<exists>s'. sk_set (Some s) i v = (Some s', v) \<and> stack_ok s' \<and> elems s' = (elems s)[i := v]"
  by (auto simp: sk_set_def length_elems stack_ok_def elems_def take_update_swap)

lemma sk_dup_ok:
  "stack_ok s \<Longrightarrow> sk_dup malloc_ok junk (Some s) = Some s' \<Longrightarrow>
    stack_ok s' \<and> elems s' = elems s \<and> st_sorted s' = st_sorted s \<and> st_comp s' = st_comp s"
  by (auto simp: sk_dup_def sk_new_def stack_ok_def elems_def realloc_ptrs_def kMinSize_def Let_def min_def
      split: option.splits if_splits)

lemma sk_sort_ok:
  assumes "stack_ok s" "st_comp s = Some c" "\<not> st_sorted s"
  shows "\<exists>s'. sk_sort call_cmp (Some s) = Some s' \<and> stack_ok s' \<and> elems s' = qsort (call_cmp c) (elems s) \<and>
    st_sorted s' \<and> st_comp s' = Some c"
proof -
  have "elems s = qsort (call_cmp c) (elems s)" if "st_num s < 2"
  proof -
    have "elems s = [] \<or> (\<exists>x. elems s = [x])"
      using that length_elems [OF assms(1)] by (cases "elems s" rule: remdups_adj.cases) auto
    then show ?thesis by (auto simp: qsort_def)
  qed
  then show ?thesis using assms length_elems [OF assms(1)]
    by (auto simp: sk_sort_def stack_ok_def elems_def)
qed

section \<open>Searching\<close>

definition first_match :: "('a \<Rightarrow> bool) \<Rightarrow> 'a list \<Rightarrow> nat \<Rightarrow> bool" where
  "first_match P xs k \<longleftrightarrow> k < length xs \<and> P (xs ! k) \<and> (\<forall>j < k. \<not> P (xs ! j))"

lemma first_match_Cons:
  "first_match P (x # xs) k \<longleftrightarrow> (if P x then k = 0 else 0 < k \<and> first_match P xs (k - 1))"
proof (cases k)
  case (Suc m)
  then show ?thesis by (auto simp: first_match_def less_Suc_eq_0_disj)
qed (auto simp: first_match_def)

lemma first_index_iff: "first_index P i xs = Some k \<longleftrightarrow> i \<le> k \<and> first_match P xs (k - i)"
proof (induction P i xs rule: first_index.induct)
  case (2 P i x xs)
  then show ?case by (auto simp: first_match_Cons Suc_le_eq)
qed (simp add: first_match_def)

lemma first_match_unique: "first_match P xs j \<Longrightarrow> first_match P xs k \<Longrightarrow> j = k"
  unfolding first_match_def by (meson linorder_neqE_nat)

text \<open>
  The binary search finds the first match when the results of the comparisons fall from positive
  over zero to negative.
\<close>

lemma bsearch_first:
  assumes "\<And>i j. i \<le> j \<Longrightarrow> j < n \<Longrightarrow> 0 < r j \<Longrightarrow> 0 < r i"
    and "\<And>i j. i \<le> j \<Longrightarrow> j < n \<Longrightarrow> r i < 0 \<Longrightarrow> r j < 0"
    and "hi \<le> n" "\<And>k. first_match (\<lambda>i. r i = 0) [0..<n] k \<Longrightarrow> lo \<le> k \<and> k < hi"
  shows "bsearch r lo hi = Some k \<longleftrightarrow> first_match (\<lambda>i. r i = 0) [0..<n] k"
  using assms
proof (induction r lo hi rule: bsearch.induct)
  case (1 r lo hi)
  let ?first = "first_match (\<lambda>i. r i = 0) [0..<n]" and ?mid = "lo + (hi - lo - 1) div 2"
  have first: "?first k \<longleftrightarrow> k < n \<and> r k = 0 \<and> (\<forall>j < k. r j \<noteq> 0)" for k
    by (auto simp: first_match_def)
  show ?case
  proof (cases "lo < hi")
    case False
    then show ?thesis using "1.prems"(4) [of k] by (subst bsearch.simps) auto
  next
    case True
    then have mid: "lo \<le> ?mid" "?mid < hi" "?mid < n" using "1.prems"(3) by auto
    consider "0 < r ?mid" | "r ?mid < 0" | "r ?mid = 0" by linarith
    then show ?thesis
    proof cases
      case 1
      then have "?mid + 1 \<le> k \<and> k < hi" if "?first k" for k
        using "1.prems"(1) [of k ?mid] "1.prems"(4) [OF that] mid that first [of k] by force
      then show ?thesis
        using "1.IH"(1) [OF True refl 1 "1.prems"(1-3)] 1 True by (subst bsearch.simps) (simp add: Let_def)
    next
      case 2
      then have "lo \<le> k \<and> k < ?mid" if "?first k" for k
        using "1.prems"(2) [of ?mid k] "1.prems"(4) [OF that] that first [of k] by force
      moreover have "?mid \<le> n" using mid by simp
      ultimately show ?thesis
        using "1.IH"(2) [OF True refl _ 2 "1.prems"(1,2)] 2 True by (subst bsearch.simps) (simp add: Let_def)
    next
      case 3
      have le: "lo \<le> k \<and> k < ?mid + 1" if "?first k" for k
        using "1.prems"(4) [OF that] first [of k] that 3 by (metis add.commute less_Suc_eq_le not_less plus_1_eq_Suc)
      show ?thesis
      proof (cases "hi - lo = 1")
        case one: True
        have "?first ?mid"
        proof -
          have "\<exists>k. ?first k"
            using exists_least_iff [of "\<lambda>k. k < n \<and> r k = 0"] 3 mid first by (meson less_trans)
          then obtain k where "?first k" by blast
          moreover from le [OF this] one have "k = ?mid" by simp
          ultimately show ?thesis by simp
        qed
        then show ?thesis using one 3 True first_match_unique [of "\<lambda>i. r i = 0" "[0..<n]" ?mid k]
          by (subst bsearch.simps) (auto simp: Let_def)
      next
        case False
        have "?mid + 1 \<le> n" using mid by simp
        then show ?thesis
          using "1.IH"(3) [OF True refl _ _ False "1.prems"(1,2)] le 3 True False
          by (subst bsearch.simps) (simp add: Let_def)
      qed
    qed
  qed
qed

text \<open>Sorted as the field \<open>sorted\<close> of a stack promises.\<close>

definition sorted_ok :: "('c \<Rightarrow> 'p option \<Rightarrow> 'p option \<Rightarrow> int) \<Rightarrow> ('c, 'p) stack_st \<Rightarrow> bool" where
  "sorted_ok call_cmp s \<longleftrightarrow>
     (st_sorted s \<longrightarrow> (case st_comp s of None \<Rightarrow> True | Some c \<Rightarrow> cmp_sorted (call_cmp c) (elems s)))"

lemma first_match_index: "first_match (\<lambda>i. Q (xs ! i)) [0..<length xs] k \<longleftrightarrow> first_match Q xs k"
  by (auto simp: first_match_def)

context comparator
begin

lemma cmp_sorted_nth: "cmp_sorted cmp xs \<Longrightarrow> i \<le> j \<Longrightarrow> j < length xs \<Longrightarrow> cmp (xs ! i) (xs ! j) \<le> 0"
  using cmp_swap [of "xs ! i" "xs ! i"] sorted_wrt_nth_less [of "\<lambda>x y. cmp x y \<le> 0" xs i j]
  by (cases "i = j") (auto simp: cmp_sorted_def)

lemma bsearch_sorted:
  assumes "cmp_sorted cmp xs"
  shows "bsearch (\<lambda>i. cmp p (xs ! i)) 0 (length xs) = Some k \<longleftrightarrow> first_match (\<lambda>e. cmp p e = 0) xs k"
  unfolding first_match_index [of "\<lambda>e. cmp p e = 0", symmetric]
proof (rule bsearch_first)
  fix i j assume ij: "i \<le> j" "j < length xs"
  note le = cmp_sorted_nth [OF assms ij]
  show "0 < cmp p (xs ! j) \<Longrightarrow> 0 < cmp p (xs ! i)"
    using le cmp_trans [of p "xs ! i" "xs ! j"] by linarith
  show "cmp p (xs ! i) < 0 \<Longrightarrow> cmp p (xs ! j) < 0"
    using le cmp_trans [of "xs ! i" "xs ! j" p] cmp_swap [of "xs ! i" p] cmp_swap [of "xs ! j" p] by linarith
qed (auto simp: first_match_def)

end

lemma sk_find_first:
  assumes "stack_ok s" "sorted_ok call_cmp s" "st_comp s = Some c" "comparator (call_cmp c)" "p \<noteq> None"
  shows "sk_find call_cmp (Some s) p = Some k \<longleftrightarrow> first_match (\<lambda>e. call_cmp c p e = 0) (elems s) k"
proof (cases "st_sorted s")
  case False
  then show ?thesis using assms
    by (auto simp: sk_find_def sk_is_sorted_def first_index_iff elems_def [symmetric])
next
  case True
  then have sorted: "cmp_sorted (call_cmp c) (elems s)" using assms(2,3) by (simp add: sorted_ok_def)
  have "bsearch (\<lambda>i. call_cmp c p (st_data s ! i)) lo hi = bsearch (\<lambda>i. call_cmp c p (elems s ! i)) lo hi"
    if "hi \<le> st_num s" for lo hi
    using that
  proof (induction "\<lambda>i. call_cmp c p (st_data s ! i)" lo hi rule: bsearch.induct)
    case (1 lo hi)
    then show ?case
      by (subst (1 2) bsearch.simps) (auto simp: Let_def elems_nth)
  qed
  then show ?thesis
    using True assms comparator.bsearch_sorted [OF assms(4) sorted, of p k] length_elems [OF assms(1)]
    by (auto simp: sk_find_def sk_is_sorted_def)
qed

section \<open>Copying\<close>

definition copied :: "(nat \<Rightarrow> 'p \<Rightarrow> 'p option) \<Rightarrow> nat \<Rightarrow> 'p option \<Rightarrow> 'p option" where
  "copied f j e = (case e of None \<Rightarrow> None | Some p \<Rightarrow> f j p)"

definition pointers :: "'p option list \<Rightarrow> 'p list" where
  "pointers xs = concat (map (\<lambda>e. case e of None \<Rightarrow> [] | Some q \<Rightarrow> [q]) xs)"

text \<open>The elements after the copies of the first \<open>n\<close> have been made.\<close>

definition copy_first :: "(nat \<Rightarrow> 'p \<Rightarrow> 'p option) \<Rightarrow> nat \<Rightarrow> 'p option list \<Rightarrow> 'p option list" where
  "copy_first f n xs = map (\<lambda>j. if j < n then copied f j (xs ! j) else xs ! j) [0..<length xs]"

lemma copy_first_0 [simp]: "copy_first f 0 xs = xs"
  by (simp add: copy_first_def map_nth)

lemma copy_first_Suc:
  "n < length xs \<Longrightarrow> copy_first f (Suc n) xs = (copy_first f n xs)[n := copied f n (xs ! n)]"
  by (rule nth_equalityI) (auto simp: copy_first_def nth_list_update less_Suc_eq)

lemma copy_elems_spec:
  assumes "stack_ok s" "i \<le> st_num s" "elems t = copy_first f i (elems s)" "stack_ok t" "st_num t = st_num s"
    "\<forall>j < i. elems s ! j \<noteq> None \<longrightarrow> copied f j (elems s ! j) \<noteq> None"
  shows "case copy_elems f i t of
      (Some t', freed) \<Rightarrow> freed = [] \<and> elems t' = copy_first f (st_num s) (elems s) \<and>
        (\<forall>j < st_num s. elems s ! j \<noteq> None \<longrightarrow> copied f j (elems s ! j) \<noteq> None)
    | (None, freed) \<Rightarrow> \<exists>k < st_num s. elems s ! k \<noteq> None \<and> copied f k (elems s ! k) = None \<and>
        (\<forall>j < k. elems s ! j \<noteq> None \<longrightarrow> copied f j (elems s ! j) \<noteq> None) \<and>
        freed = pointers (take k (copy_first f k (elems s)))"
  using assms
proof (induction f i t rule: copy_elems.induct)
  case (1 f i t)
  note le = "1.prems"(2) and el = "1.prems"(3) and ok = "1.prems"(4) and num = "1.prems"(5)
  have ls: "length (elems s) = st_num s" using "1.prems"(1) by (rule length_elems)
  show ?case
  proof (cases "i < st_num t")
    case False
    then have "i = st_num s" using le num by simp
    then show ?thesis using 1 False by (subst copy_elems.simps) simp
  next
    case True
    then have i: "i < length (elems s)" using ls num by simp
    then have cur: "st_data t ! i = elems s ! i"
      using elems_nth [OF True] unfolding el by (simp add: copy_first_def)
    show ?thesis
    proof (cases "elems s ! i")
      case None
      then have "copy_first f i (elems s) ! i = None" using i by (simp add: copy_first_def)
      then have "copy_first f (Suc i) (elems s) = copy_first f i (elems s)"
        using list_update_id [of "copy_first f i (elems s)" i] None i by (simp add: copy_first_Suc copied_def)
      then show ?thesis
        using 1(1) [OF True cur [unfolded None] "1.prems"(1) _ _ ok num] None True 1 i
        by (subst copy_elems.simps) (simp add: cur less_Suc_eq)
    next
      case (Some p)
      show ?thesis
      proof (cases "f i p")
        case None
        have "map (\<lambda>j. st_data t ! j) [0..<i] = take i (copy_first f i (elems s))"
          using True i ok unfolding el [symmetric] by (auto simp: list_eq_iff_nth_eq elems_def stack_ok_def)
        then have "pointers (take i (copy_first f i (elems s)))
            = concat (map (\<lambda>j. case st_data t ! j of None \<Rightarrow> [] | Some q \<Rightarrow> [q]) [0..<i])"
          unfolding pointers_def by (simp flip: \<open>map (\<lambda>j. st_data t ! j) [0..<i] = take i (copy_first f i (elems s))\<close> add: comp_def)
        then show ?thesis using Some None True 1 num
          by (subst copy_elems.simps) (auto simp: cur copied_def)
      next
        case c: (Some q)
        let ?t = "t\<lparr>st_data := (st_data t)[i := Some q]\<rparr>"
        have "elems ?t = copy_first f (Suc i) (elems s)"
          using i Some c el True by (simp add: copy_first_Suc copied_def elems_def take_update_swap)
        moreover have "stack_ok ?t" "st_num ?t = st_num s" using ok num by (simp_all add: stack_ok_def)
        moreover have "\<forall>j < i + 1. elems s ! j \<noteq> None \<longrightarrow> copied f j (elems s ! j) \<noteq> None"
          using 1 Some c by (auto simp: less_Suc_eq copied_def)
        moreover have "copy_elems f i t = copy_elems f (i + 1) ?t"
          using Some c True by (subst copy_elems.simps) (simp add: cur)
        ultimately show ?thesis
          using 1(2) [OF True cur [unfolded Some] c "1.prems"(1)] i ls by simp
      qed
    qed
  qed
qed

section \<open>Everything a client can do\<close>

text \<open>
  The stacks that exist in a program that calls the functions of \<open>stack.c\<close>. Each call has its own allocator. The first
  argument records a flag \<open>sorted\<close> that may have gone stale: \<open>sk_set\<close> and \<open>sk_deep_copy\<close> change elements and leave
  the flag as it is, and while it is set \<open>sk_sort\<close> does nothing; an operation that clears the flag ends this.
\<close>

definition copy_monotone :: "('c \<Rightarrow> 'p option \<Rightarrow> 'p option \<Rightarrow> int) \<Rightarrow> (nat \<Rightarrow> 'p \<Rightarrow> 'p option) \<Rightarrow> bool" where
  "copy_monotone call_cmp f \<longleftrightarrow>
     (\<forall>c i j a b. (a \<noteq> None \<longrightarrow> copied f i a \<noteq> None) \<longrightarrow> (b \<noteq> None \<longrightarrow> copied f j b \<noteq> None) \<longrightarrow>
        call_cmp c a b \<le> 0 \<longrightarrow> call_cmp c (copied f i a) (copied f j b) \<le> 0)"

inductive reachable_stack :: "('c \<Rightarrow> 'p option \<Rightarrow> 'p option \<Rightarrow> int) \<Rightarrow> bool \<Rightarrow> ('c, 'p) stack_st \<Rightarrow> bool"
  for call_cmp where
  new: "sk_new malloc_ok c = Some s \<Longrightarrow> reachable_stack call_cmp False s"
| insert: "reachable_stack call_cmp stale s \<Longrightarrow>
    sk_insert malloc_ok junk (Some s) p i = (Some s', n) \<Longrightarrow> reachable_stack call_cmp (stale \<and> st_sorted s') s'"
| delete: "reachable_stack call_cmp stale s \<Longrightarrow>
    sk_delete (Some s) i = (Some s', p) \<Longrightarrow> reachable_stack call_cmp stale s'"
| delete_ptr: "reachable_stack call_cmp stale s \<Longrightarrow>
    sk_delete_ptr (Some s) p = (Some s', q) \<Longrightarrow> reachable_stack call_cmp stale s'"
| zero: "reachable_stack call_cmp stale s \<Longrightarrow>
    sk_zero (Some s) = Some s' \<Longrightarrow> reachable_stack call_cmp (stale \<and> st_sorted s') s'"
| set: "reachable_stack call_cmp stale s \<Longrightarrow>
    sk_set (Some s) i v = (Some s', w) \<Longrightarrow> reachable_stack call_cmp (stale \<or> i < st_num s) s'"
| shift: "reachable_stack call_cmp stale s \<Longrightarrow>
    sk_shift (Some s) = (Some s', p) \<Longrightarrow> reachable_stack call_cmp stale s'"
| pop: "reachable_stack call_cmp stale s \<Longrightarrow>
    sk_pop (Some s) = (Some s', p) \<Longrightarrow> reachable_stack call_cmp stale s'"
| dup: "reachable_stack call_cmp stale s \<Longrightarrow>
    sk_dup malloc_ok junk (Some s) = Some s' \<Longrightarrow> reachable_stack call_cmp stale s'"
| deep_copy: "reachable_stack call_cmp stale s \<Longrightarrow>
    sk_deep_copy malloc_ok junk f (Some s) = (Some s', freed) \<Longrightarrow>
    reachable_stack call_cmp (stale \<or> \<not> copy_monotone call_cmp f) s'"
| sort: "reachable_stack call_cmp stale s \<Longrightarrow>
    sk_sort call_cmp (Some s) = Some s' \<Longrightarrow> reachable_stack call_cmp (stale \<and> st_sorted s) s'"
| set_cmp: "reachable_stack call_cmp stale s \<Longrightarrow>
    sk_set_cmp_func s c = (s', c') \<Longrightarrow> reachable_stack call_cmp (stale \<and> st_sorted s') s'"

lemma cmp_sorted_delete_at: "cmp_sorted cmp xs \<Longrightarrow> cmp_sorted cmp (delete_at i xs)"
  unfolding cmp_sorted_def delete_at_def
  using sorted_wrt_append [of "\<lambda>x y. cmp x y \<le> 0" "take i xs" "drop i xs"]
    set_drop_subset_set_drop [of i "i + 1" xs]
  by (auto simp: sorted_wrt_append sorted_wrt_drop)

lemma delete_keeps:
  assumes "stack_ok s" "sorted_ok call_cmp s" "sk_delete (Some s) i = (Some s', p)"
  shows "stack_ok s' \<and> sorted_ok call_cmp s'"
proof (cases "i < length (elems s)")
  case True
  then show ?thesis using sk_delete_ok [OF assms(1) True assms(3)] assms(2)
    by (auto simp: sorted_ok_def cmp_sorted_delete_at split: option.splits)
next
  case False
  then show ?thesis using assms sk_delete_out_of_range [of s i] by (simp add: length_elems)
qed

lemma delete_stack_ok:
  assumes "stack_ok s" "sk_delete (Some s) i = (Some s', p)"
  shows "stack_ok s'"
proof (cases "i < length (elems s)")
  case True
  then show ?thesis using sk_delete_ok [OF assms(1) True assms(2)] by auto
next
  case False
  then show ?thesis using assms sk_delete_out_of_range [of s i] by (simp add: length_elems)
qed

text \<open>The invariant of reachable stacks.\<close>

definition stack_inv :: "('c \<Rightarrow> 'p option \<Rightarrow> 'p option \<Rightarrow> int) \<Rightarrow> bool \<Rightarrow> ('c, 'p) stack_st \<Rightarrow> bool" where
  "stack_inv call_cmp stale s \<longleftrightarrow> stack_ok s \<and> (\<not> stale \<longrightarrow> sorted_ok call_cmp s)"

lemma delete_inv: "stack_inv call_cmp stale s \<Longrightarrow> sk_delete (Some s) i = (Some s', p) \<Longrightarrow> stack_inv call_cmp stale s'"
  using delete_keeps [of s call_cmp i s' p] delete_stack_ok [of s i s' p] by (auto simp: stack_inv_def)

lemma unsorted_inv: "stack_ok s \<Longrightarrow> \<not> st_sorted s \<Longrightarrow> stack_inv call_cmp stale s"
  by (simp add: stack_inv_def sorted_ok_def)

lemma sort_inv:
  assumes "comparator (call_cmp (the (st_comp s)))" "stack_inv call_cmp stale s" "sk_sort call_cmp (Some s) = Some s'"
  shows "stack_inv call_cmp (stale \<and> st_sorted s) s'"
proof (cases "st_comp s")
  case None
  then show ?thesis using assms by (auto simp: sk_sort_def stack_inv_def sorted_ok_def)
next
  case (Some c)
  show ?thesis
  proof (cases "st_sorted s")
    case False
    then show ?thesis using sk_sort_ok [of s c call_cmp] assms Some
      by (auto simp: stack_inv_def sorted_ok_def comparator.sorted_qsort)
  qed (use assms Some in \<open>simp add: sk_sort_def\<close>)
qed

lemma copy_elems_frame:
  "copy_elems f i t = (Some t', freed) \<Longrightarrow> stack_ok t \<Longrightarrow> stack_ok t' \<and> st_sorted t' = st_sorted t \<and> st_comp t' = st_comp t"
proof (induction f i t arbitrary: t' freed rule: copy_elems.induct)
  case (1 f i t)
  show ?case
  proof (cases "i < st_num t")
    case False
    then show ?thesis using "1.prems" by (simp add: copy_elems.simps [of f i t])
  next
    case i: True
    show ?thesis
    proof (cases "st_data t ! i")
      case None
      then show ?thesis using 1(1) [OF i None] "1.prems" i by (simp add: copy_elems.simps [of f i t])
    next
      case (Some p)
      have ok: "stack_ok (t\<lparr>st_data := (st_data t)[i := q]\<rparr>)" for q using "1.prems"(2) by (simp add: stack_ok_def)
      show ?thesis
      proof (cases "f i p")
        case None
        then show ?thesis using "1.prems" i Some by (simp add: copy_elems.simps [of f i t])
      next
        case q: (Some q)
        show ?thesis using 1(2) [OF i Some q _ ok] "1.prems" i Some q by (simp add: copy_elems.simps [of f i t])
      qed
    qed
  qed
qed

lemma deep_copy_inv:
  assumes "stack_inv call_cmp stale s" "sk_deep_copy malloc_ok junk f (Some s) = (Some s', freed)"
  shows "stack_inv call_cmp (stale \<or> \<not> copy_monotone call_cmp f) s'"
proof -
  obtain d where d: "sk_dup malloc_ok junk (Some s) = Some d" "copy_elems f 0 d = (Some s', freed)"
    using assms(2) by (auto simp: sk_deep_copy_def split: option.splits)
  have ok: "stack_ok s" using assms(1) by (simp add: stack_inv_def)
  note dup = sk_dup_ok [OF ok d(1)] and frame = copy_elems_frame [OF d(2)]
  have n: "st_num d = st_num s" using dup ok length_elems [of d] length_elems [of s] by simp
  have e: "elems s' = copy_first f (st_num s) (elems s)"
    "\<forall>j < st_num s. elems s ! j \<noteq> None \<longrightarrow> copied f j (elems s ! j) \<noteq> None"
    using copy_elems_spec [of s 0 d f] ok dup n d(2) by auto
  have "cmp_sorted (call_cmp c) (elems s')" if "cmp_sorted (call_cmp c) (elems s)" "copy_monotone call_cmp f" for c
    using that e(2) length_elems [OF ok] unfolding cmp_sorted_def e(1) sorted_wrt_iff_nth_less copy_monotone_def
    by (auto simp: copy_first_def)
  then show ?thesis using assms(1) dup frame
    by (auto simp: stack_inv_def sorted_ok_def split: option.splits)
qed

lemma reachable_inv:
  assumes "reachable_stack call_cmp stale s" "\<forall>c. comparator (call_cmp c)"
  shows "stack_inv call_cmp stale s"
  using assms(1)
proof induction
  case (new malloc_ok c s)
  then show ?case using sk_new_ok by (intro unsorted_inv) auto
next
  case (insert stale s malloc_ok junk p i s' n)
  then show ?case using sk_insert_ok [of s malloc_ok junk p i s' n] sk_insert_fail [of malloc_ok junk s p i "Some s'"]
    by (cases "n = 0") (auto simp: stack_inv_def sorted_ok_def)
next
  case (delete stale s i s' p)
  then show ?case using delete_inv by blast
next
  case (delete_ptr stale s p s' q)
  then show ?case using delete_inv [of call_cmp stale s _ s' q]
    by (cases "first_index (\<lambda>e. e = p) 0 (take (st_num s) (st_data s))") (auto simp: sk_delete_ptr_def)
next
  case (zero stale s s')
  show ?case
  proof (cases "st_num s = 0")
    case True
    then show ?thesis using zero by (auto simp: sk_zero_def stack_inv_def sorted_ok_def)
  next
    case False
    then have "\<not> st_sorted s'" using zero by (auto simp: sk_zero_def)
    then show ?thesis using sk_zero_ok [of s] zero by (intro unsorted_inv) (auto simp: stack_inv_def)
  qed
next
  case (set stale s i v s' w)
  then show ?case using sk_set_ok [of s i v] length_elems [of s]
    by (cases "i < st_num s") (auto simp: stack_inv_def sk_set_def)
next
  case (shift stale s s' p)
  then show ?case using delete_inv [of call_cmp stale s _ s' p] by (auto simp: sk_shift_def split: if_splits)
next
  case (pop stale s s' p)
  then show ?case using delete_inv [of call_cmp stale s _ s' p] by (auto simp: sk_pop_def split: if_splits)
next
  case (dup stale s malloc_ok junk s')
  then show ?case using sk_dup_ok [of s malloc_ok junk s'] by (auto simp: stack_inv_def sorted_ok_def split: option.splits)
next
  case (deep_copy stale s malloc_ok junk f s' freed)
  then show ?case using deep_copy_inv by blast
next
  case (sort stale s s')
  then show ?case using sort_inv assms(2) by blast
next
  case (set_cmp stale s c s' c')
  then have "elems s' = elems s" by (auto simp: sk_set_cmp_func_def elems_def)
  with set_cmp show ?case
    by (auto simp: sk_set_cmp_func_def stack_inv_def sorted_ok_def stack_ok_def split: option.splits if_splits)
qed

section \<open>Properties\<close>

text \<open>A comparison function on stacks of numbers, for the witnesses.\<close>

definition int_cmp :: "unit \<Rightarrow> int option \<Rightarrow> int option \<Rightarrow> int" where
  "int_cmp c a b = (case (a, b) of (None, None) \<Rightarrow> 0 | (None, Some y) \<Rightarrow> - 1 | (Some x, None) \<Rightarrow> 1 | (Some x, Some y) \<Rightarrow> x - y)"

lemma comparator_int_cmp: "comparator (int_cmp c)"
  by unfold_locales (auto simp: int_cmp_def split: option.splits)

definition stack312 :: "(unit, int) stack_st" where
  "stack312 = \<lparr>st_num = 3, st_data = [Some 3, Some 1, Some 2, None], st_sorted = False, st_num_alloc = 4, st_comp = Some ()\<rparr>"

definition stack123 :: "(unit, int) stack_st" where
  "stack123 = \<lparr>st_num = 3, st_data = [Some 1, Some 2, Some 3, None], st_sorted = True, st_num_alloc = 4, st_comp = Some ()\<rparr>"

lemma sort312: "sk_sort int_cmp (Some stack312) = Some stack123"
  by (simp add: sk_sort_def stack312_def stack123_def qsort_def int_cmp_def)

text \<open>
  C16. Every stack a client can build with the functions of \<open>stack.c\<close>, whatever allocations fail, has a spare cell and
  fits the address space. When its flag \<open>sorted\<close> is set its elements are in ascending order of its comparison
  function, unless the flag is stale: while it was set, \<open>sk_set\<close> wrote an element or \<open>sk_deep_copy\<close> used a copy
  function that does not keep the order.
\<close>

theorem reachable_stack_invariant:
  assumes "reachable_stack call_cmp stale s" "\<forall>c. comparator (call_cmp c)"
  shows "st_num s < st_num_alloc s \<and> length (st_data s) = st_num_alloc s \<and> st_num_alloc s * 8 < 2 ^ 64 \<and>
    (st_sorted s \<and> \<not> stale \<longrightarrow> (\<forall>c. st_comp s = Some c \<longrightarrow> sorted_wrt (\<lambda>x y. call_cmp c x y \<le> 0) (take (st_num s) (st_data s))))"
  using reachable_inv [OF assms] by (auto simp: stack_inv_def stack_ok_def sorted_ok_def cmp_sorted_def elems_def)

lemma reachable_sorted_empty: "\<exists>s :: (unit, int) stack_st. reachable_stack int_cmp False s \<and> st_sorted s"
proof -
  obtain s :: "(unit, int) stack_st" where s: "sk_new (\<lambda>_. True) (Some ()) = Some s" "st_comp s = Some ()" "\<not> st_sorted s"
    by (simp add: sk_new_def)
  then obtain s' where s': "sk_sort int_cmp (Some s) = Some s'" "st_sorted s'" by (simp add: sk_sort_def)
  have "reachable_stack int_cmp (False \<and> st_sorted s) s'" by (rule reachable_stack.sort [OF reachable_stack.new [OF s(1)] s'(1)])
  then show ?thesis using s'(2) by auto
qed

theorem reachable_stack_invariant_witness: "\<exists>s :: (unit, int) stack_st. st_num s < st_num_alloc s \<and> st_sorted s"
  using reachable_sorted_empty reachable_stack_invariant comparator_int_cmp by blast

text \<open>
  C17. The binary search of \<open>sk_find\<close> returns what the linear search returns: on a stack whose flag is not
  stale, \<open>sorted\<close> only changes how long \<open>sk_find\<close> takes.
\<close>

theorem sk_find_binary_linear:
  assumes "reachable_stack call_cmp False s" "\<forall>c. comparator (call_cmp c)"
  shows "sk_find call_cmp (Some s) p = sk_find call_cmp (Some (s\<lparr>st_sorted := False\<rparr>)) p"
proof (cases "st_comp s = None \<or> p = None")
  case True
  then show ?thesis by (auto simp: sk_find_def split: option.split)
next
  case False
  then obtain c where c: "st_comp s = Some c" "p \<noteq> None" by auto
  have ok: "stack_ok s" "sorted_ok call_cmp s" using reachable_inv [OF assms] by (simp_all add: stack_inv_def)
  have ok': "stack_ok (s\<lparr>st_sorted := False\<rparr>)" "sorted_ok call_cmp (s\<lparr>st_sorted := False\<rparr>)"
    "st_comp (s\<lparr>st_sorted := False\<rparr>) = Some c" "elems (s\<lparr>st_sorted := False\<rparr>) = elems s"
    using ok(1) c(1) by (simp_all add: stack_ok_def sorted_ok_def elems_def)
  have cmp: "comparator (call_cmp c)" using assms(2) by blast
  show ?thesis
    using sk_find_first [OF ok c(1) cmp c(2)] sk_find_first [OF ok'(1-3) cmp c(2)] ok'(4)
    by (intro option.expand) (metis option.exhaust_sel option.distinct(1))+
qed

theorem sk_find_binary_linear_witness:
  "\<exists>s. st_sorted s \<and> sk_find int_cmp (Some s) (Some 2) = sk_find int_cmp (Some (s\<lparr>st_sorted := False\<rparr>)) (Some 2)"
  using reachable_sorted_empty sk_find_binary_linear comparator_int_cmp by blast

text \<open>
  \<open>sk_insert\<close> and \<open>sk_delete\<close> are inverse: what an insertion put at a position comes back from a
  deletion at that position, and the elements are as before.
\<close>

theorem sk_insert_delete:
  assumes "stack_ok s" "sk_insert malloc_ok junk (Some s) p i = (Some s', n)" "n \<noteq> 0" "i \<le> sk_num (Some s)"
  shows "\<exists>s''. sk_delete (Some s') i = (Some s'', p) \<and> elems s'' = elems s"
proof -
  have i: "i \<le> length (elems s)" using assms(1,4) by (simp add: sk_num_def length_elems)
  have ins: "stack_ok s'" "elems s' = insert_at i p (elems s)" using sk_insert_ok [OF assms(1-3)] by auto
  obtain sk'' q where d: "sk_delete (Some s') i = (sk'', q)" by fastforce
  have "i < length (elems s')" using i by (simp add: ins(2) insert_at_def)
  from sk_delete_ok [OF ins(1) this d] obtain s'' where
    "sk'' = Some s''" "elems s'' = delete_at i (elems s')" "q = elems s' ! i" by blast
  moreover have "elems s' ! i = p" "delete_at i (elems s') = elems s"
    using i by (simp_all add: ins(2) insert_at_def delete_at_def nth_append)
  ultimately show ?thesis using d by simp
qed

theorem sk_insert_delete_witness:
  "\<exists>s' s''. fst (sk_insert (\<lambda>_. True) (\<lambda>_. None) (Some stack312) (Some 7) 1) = Some s' \<and>
    sk_delete (Some s') 1 = (Some s'', Some 7) \<and> elems s'' = [Some 3, Some 1, Some 2]"
proof -
  have ok: "stack_ok stack312" "elems stack312 = [Some 3, Some 1, Some 2]" "st_num stack312 = 3"
    by (simp_all add: stack_ok_def stack312_def elems_def numeral_3_eq_3)
  obtain s' where s': "sk_insert (\<lambda>_. True) (\<lambda>_. None) (Some stack312) (Some 7) 1 = (Some s', 4)"
    using sk_insert_success [OF ok(1), of "\<lambda>_. True" "\<lambda>_. None" "Some 7" 1] ok(3) by auto
  from sk_insert_delete [OF ok(1) s'] show ?thesis using s' ok by (auto simp: sk_num_def)
qed

text \<open>
  \<open>sk_sort\<close> with a comparison function sorts: same elements with the same multiplicities, in
  ascending order, and marked as sorted.
\<close>

theorem sk_sort_sorts:
  assumes "stack_ok s" "st_comp s = Some c" "comparator (call_cmp c)" "\<not> st_sorted s"
  shows "\<exists>s'. sk_sort call_cmp (Some s) = Some s' \<and> mset (elems s') = mset (elems s) \<and>
    sorted_wrt (\<lambda>x y. call_cmp c x y \<le> 0) (elems s') \<and> sk_is_sorted (Some s')"
  using sk_sort_ok [OF assms(1,2,4), of call_cmp] comparator.sorted_qsort [OF assms(3), of "elems s"]
  by (auto simp: sk_is_sorted_def cmp_sorted_def)

theorem sk_sort_sorts_witness:
  "mset (elems stack123) = mset (elems stack312) \<and> sorted_wrt (\<lambda>x y. int_cmp () x y \<le> 0) (elems stack123)"
proof -
  have "stack_ok stack312" "st_comp stack312 = Some ()" "\<not> st_sorted stack312"
    by (simp_all add: stack312_def stack_ok_def)
  from sk_sort_sorts [OF this(1,2) comparator_int_cmp this(3)] show ?thesis
    by (auto simp: sort312)
qed

text \<open>
  C20. \<open>sk_deep_copy\<close> leaks nothing: either every pointer of the result is the copy of the pointer at
  its place (\<open>NULL\<close> stays \<open>NULL\<close>), or some copy failed, and then exactly the copies made before it
  were freed.
\<close>

theorem sk_deep_copy_no_leak:
  assumes "stack_ok s" "sk_dup malloc_ok junk (Some s) = Some d"
  shows "case sk_deep_copy malloc_ok junk f (Some s) of
      (Some s', freed) \<Rightarrow> freed = [] \<and> elems s' = map (\<lambda>j. copied f j (elems s ! j)) [0..<sk_num (Some s)] \<and>
        (\<forall>j < sk_num (Some s). elems s ! j \<noteq> None \<longrightarrow> copied f j (elems s ! j) \<noteq> None)
    | (None, freed) \<Rightarrow> \<exists>k < sk_num (Some s). elems s ! k \<noteq> None \<and> copied f k (elems s ! k) = None \<and>
        freed = pointers (map (\<lambda>j. copied f j (elems s ! j)) [0..<k])"
proof -
  note d = sk_dup_ok [OF assms]
  have l: "length (elems s) = st_num s" using assms(1) by (rule length_elems)
  have n: "st_num d = st_num s" using d length_elems [of d] l by simp
  have c: "take k (copy_first f k (elems s)) = map (\<lambda>j. copied f j (elems s ! j)) [0..<k]" if "k \<le> st_num s" for k
    using that l by (auto simp: copy_first_def list_eq_iff_nth_eq)
  have "copy_first f (st_num s) (elems s) = map (\<lambda>j. copied f j (elems s ! j)) [0..<st_num s]"
    using c [of "st_num s"] l by (simp add: copy_first_def)
  then show ?thesis
    using copy_elems_spec [of s 0 d f] assms d n c
    by (fastforce simp: sk_deep_copy_def sk_num_def split: prod.splits option.splits)
qed

theorem sk_deep_copy_no_leak_witness:
  "sk_deep_copy (\<lambda>_. True) (\<lambda>_. None) (\<lambda>i p. if i = 2 then None else Some (p + 10)) (Some stack312) = (None, [13, 11])"
proof -
  let ?f = "\<lambda>i p. if i = (2 :: nat) then None else Some (p + 10 :: int)"
  have ok: "stack_ok stack312" "elems stack312 = [Some 3, Some 1, Some 2]" "st_num stack312 = 3"
    by (simp_all add: stack_ok_def stack312_def elems_def numeral_3_eq_3)
  obtain d where d: "sk_dup (\<lambda>_. True) (\<lambda>_. None) (Some stack312) = Some d"
    by (simp add: sk_dup_def sk_new_def)
  have nth: "k < 3 \<longleftrightarrow> k = 0 \<or> k = 1 \<or> k = (2 :: nat)" for k by auto
  have upt: "[0..<2] = [0, 1 :: nat]" by (simp add: upt_rec)
  show ?thesis
  proof (cases "sk_deep_copy (\<lambda>_. True) (\<lambda>_. None) ?f (Some stack312)")
    case (Pair r freed)
    then show ?thesis
      using sk_deep_copy_no_leak [OF ok(1) d, of ?f] ok
      by (cases r) (auto simp: sk_num_def nth copied_def pointers_def upt)
  qed
qed

text \<open>
  \<open>sk_set\<close> keeps the flag \<open>sorted\<close>: after it a sorted stack need not be in order, and \<open>sk_find\<close> misses
  an element that is there.
\<close>

theorem sk_set_stale_sorted:
  "\<exists>s s'. sk_sort int_cmp (Some stack312) = Some s \<and> sk_set (Some s) 0 (Some 9) = (Some s', Some 9) \<and>
    sk_value (Some s') 0 = Some 9 \<and> sk_is_sorted (Some s') \<and> sk_find int_cmp (Some s') (Some 9) = None"
  unfolding sort312
  by (simp add: sk_set_def sk_value_def sk_is_sorted_def sk_find_def stack123_def int_cmp_def bsearch.simps Let_def)

end
