(* ===== verification/Fifo.thy ===== *)
theory Fifo
  imports Prelude
begin

text \<open>
  The contract of a bounded byte queue: a \<open>put\<close> stores a prefix of what it is offered, a \<open>get\<close> takes
  from the front. What follows from it for any sequence of operations is that nothing is lost,
  duplicated or reordered.
\<close>

datatype 'a fifo_op = Put "'a list" | Get nat

locale fifo =
  fixes ok :: "'s \<Rightarrow> bool"
    and room :: "'s \<Rightarrow> nat"
    and contents :: "'s \<Rightarrow> 'a list"
    and put :: "'s \<Rightarrow> 'a list \<Rightarrow> ('s \<times> nat) option"
    and get :: "'s \<Rightarrow> nat \<Rightarrow> ('s \<times> 'a list) option"
  assumes put_total: "ok s \<Longrightarrow> \<exists>s' n. put s xs = Some (s', n)"
    and put_ok: "ok s \<Longrightarrow> put s xs = Some (s', n) \<Longrightarrow>
      ok s' \<and> n = min (length xs) (room s) \<and> contents s' = contents s @ take n xs \<and> room s' = room s - n"
    and get_total: "ok s \<Longrightarrow> \<exists>s' xs. get s n = Some (s', xs)"
    and get_ok: "ok s \<Longrightarrow> get s n = Some (s', xs) \<Longrightarrow>
      ok s' \<and> xs = take n (contents s) \<and> contents s' = drop n (contents s) \<and> room s' = room s + length xs"
begin

text \<open>State, what was accepted and what was delivered.\<close>

fun run :: "'a fifo_op list \<Rightarrow> 's \<times> 'a list \<times> 'a list \<Rightarrow> ('s \<times> 'a list \<times> 'a list) option" where
  "run [] st = Some st"
| "run (Put xs # ops) (s, ins, outs) =
     (case put s xs of None \<Rightarrow> None | Some (s', n) \<Rightarrow> run ops (s', ins @ take n xs, outs))"
| "run (Get n # ops) (s, ins, outs) =
     (case get s n of None \<Rightarrow> None | Some (s', xs) \<Rightarrow> run ops (s', ins, outs @ xs))"

lemma run_fifo:
  assumes "ok s" "ins = outs @ contents s"
  shows "\<exists>s' ins' outs'. run ops (s, ins, outs) = Some (s', ins', outs') \<and> ok s' \<and> ins' = outs' @ contents s' \<and>
    room s' + length (contents s') = room s + length (contents s)"
  using assms
proof (induction ops arbitrary: s ins outs)
  case (Cons opn ops)
  show ?case
  proof (cases opn)
    case (Put xs)
    obtain s1 n where p: "put s xs = Some (s1, n)" using put_total [OF Cons.prems(1)] by blast
    note k = put_ok [OF Cons.prems(1) p]
    then have "\<exists>s' ins' outs'. run ops (s1, ins @ take n xs, outs) = Some (s', ins', outs') \<and> ok s' \<and>
        ins' = outs' @ contents s' \<and> room s' + length (contents s') = room s1 + length (contents s1)"
      using Cons.prems(2) by (intro Cons.IH) simp_all
    then show ?thesis using Put p k by auto
  next
    case (Get n)
    obtain s1 xs where g: "get s n = Some (s1, xs)" using get_total [OF Cons.prems(1)] by blast
    note k = get_ok [OF Cons.prems(1) g]
    then have "\<exists>s' ins' outs'. run ops (s1, ins, outs @ xs) = Some (s', ins', outs') \<and> ok s' \<and>
        ins' = outs' @ contents s' \<and> room s' + length (contents s') = room s1 + length (contents s1)"
      using Cons.prems(2) by (intro Cons.IH) simp_all
    then show ?thesis using Get g k by auto
  qed
qed simp

end

end
