(* ===== verification/Bio_Pair.thy ===== *)
theory Bio_Pair
  imports Fifo "HOL-Library.Monad_Syntax"
begin

text \<open>
  \<open>crypto/bio/pair.c\<close> and the parts of \<open>crypto/bio/bio.c\<close> through which it is used. A \<open>BIO\<close> lives at an
  address; \<open>bios\<close> is the memory that holds them, so that a \<open>BIO\<close> and its peer can refer to each other.
  The pointer \<open>ptr\<close> of a \<open>BIO\<close> is the record it points to. The loops over the ring buffer are partial
  functions: \<open>None\<close> is a loop that never ends.
\<close>

unbundle bit_operations_syntax

section \<open>State\<close>

record bio_bio_st =
  bb_peer :: "nat option"
  bb_closed :: bool
  bb_len :: nat
  bb_offset :: nat
  bb_size :: nat
  bb_buf :: "u8 list option"
  bb_request :: nat

record bio_st =
  bio_init :: bool
  bio_shutdown :: int
  bio_flags :: u32
  bio_retry_reason :: int
  bio_references :: nat
  bio_ptr :: "bio_bio_st option"
  bio_next :: "nat option"
  bio_num_read :: nat
  bio_num_write :: nat

type_synonym bios = "nat \<Rightarrow> bio_st option"

definition bio_at :: "bios \<Rightarrow> nat \<Rightarrow> bio_st" where
  "bio_at h i = the (h i)"

definition pair_at :: "bios \<Rightarrow> nat \<Rightarrow> bio_bio_st" where
  "pair_at h i = the (bio_ptr (bio_at h i))"

definition upd_bio :: "nat \<Rightarrow> (bio_st \<Rightarrow> bio_st) \<Rightarrow> bios \<Rightarrow> bios" where
  "upd_bio i f h = h(i \<mapsto> f (bio_at h i))"

definition upd_pair :: "nat \<Rightarrow> (bio_bio_st \<Rightarrow> bio_bio_st) \<Rightarrow> bios \<Rightarrow> bios" where
  "upd_pair i f = upd_bio i (\<lambda>b. b\<lparr>bio_ptr := Some (f (the (bio_ptr b)))\<rparr>)"

section \<open>Flags\<close>

definition BIO_FLAGS_READ :: u32 where "BIO_FLAGS_READ = 1"
definition BIO_FLAGS_WRITE :: u32 where "BIO_FLAGS_WRITE = 2"
definition BIO_FLAGS_IO_SPECIAL :: u32 where "BIO_FLAGS_IO_SPECIAL = 4"
definition BIO_FLAGS_SHOULD_RETRY :: u32 where "BIO_FLAGS_SHOULD_RETRY = 8"

definition BIO_FLAGS_RWS :: u32 where
  "BIO_FLAGS_RWS = BIO_FLAGS_READ OR BIO_FLAGS_WRITE OR BIO_FLAGS_IO_SPECIAL"

definition kRetryFlags :: u32 where
  "kRetryFlags = BIO_FLAGS_RWS OR BIO_FLAGS_SHOULD_RETRY"

definition BIO_set_flags :: "u32 \<Rightarrow> bio_st \<Rightarrow> bio_st" where
  "BIO_set_flags flags b = b\<lparr>bio_flags := bio_flags b OR flags\<rparr>"

definition BIO_test_flags :: "bio_st \<Rightarrow> u32 \<Rightarrow> u32" where
  "BIO_test_flags b flags = bio_flags b AND flags"

definition BIO_should_read :: "bio_st \<Rightarrow> u32" where
  "BIO_should_read b = BIO_test_flags b BIO_FLAGS_READ"

definition BIO_should_write :: "bio_st \<Rightarrow> u32" where
  "BIO_should_write b = BIO_test_flags b BIO_FLAGS_WRITE"

definition BIO_should_retry :: "bio_st \<Rightarrow> u32" where
  "BIO_should_retry b = BIO_test_flags b BIO_FLAGS_SHOULD_RETRY"

definition BIO_should_io_special :: "bio_st \<Rightarrow> u32" where
  "BIO_should_io_special b = BIO_test_flags b BIO_FLAGS_IO_SPECIAL"

definition BIO_clear_flags :: "u32 \<Rightarrow> bio_st \<Rightarrow> bio_st" where
  "BIO_clear_flags flags b = b\<lparr>bio_flags := bio_flags b AND NOT flags\<rparr>"

definition BIO_set_retry_read :: "bio_st \<Rightarrow> bio_st" where
  "BIO_set_retry_read b = b\<lparr>bio_flags := bio_flags b OR (BIO_FLAGS_READ OR BIO_FLAGS_SHOULD_RETRY)\<rparr>"

definition BIO_set_retry_write :: "bio_st \<Rightarrow> bio_st" where
  "BIO_set_retry_write b = b\<lparr>bio_flags := bio_flags b OR (BIO_FLAGS_WRITE OR BIO_FLAGS_SHOULD_RETRY)\<rparr>"

definition BIO_get_retry_flags :: "bio_st \<Rightarrow> u32" where
  "BIO_get_retry_flags b = bio_flags b AND kRetryFlags"

definition BIO_clear_retry_flags :: "bio_st \<Rightarrow> bio_st" where
  "BIO_clear_retry_flags b = b\<lparr>bio_flags := bio_flags b AND NOT kRetryFlags, bio_retry_reason := 0\<rparr>"

section \<open>The pair\<close>

definition sizeof_bio_bio_st :: nat where
  "sizeof_bio_bio_st = 56"

definition bio_new :: "(nat \<Rightarrow> bool) \<Rightarrow> bio_st \<Rightarrow> bio_st option" where
  "bio_new malloc_ok bio =
     (if \<not> malloc_ok sizeof_bio_bio_st then None
      else Some (bio\<lparr>bio_ptr := Some \<lparr>bb_peer = None, bb_closed = False, bb_len = 0, bb_offset = 0,
                                     bb_size = 17 * 1024, bb_buf = None, bb_request = 0\<rparr>\<rparr>))"

definition bio_destroy_pair :: "nat \<Rightarrow> bios \<Rightarrow> bios" where
  "bio_destroy_pair i h =
     (case bio_ptr (bio_at h i) of
        None \<Rightarrow> h
      | Some b \<Rightarrow>
          (case bb_peer b of
             None \<Rightarrow> h
           | Some j \<Rightarrow>
               let h = upd_pair j (\<lambda>b. b\<lparr>bb_peer := None\<rparr>) h;
                   h = upd_bio j (\<lambda>b. b\<lparr>bio_init := False\<rparr>) h;
                   h = upd_pair j (\<lambda>b. b\<lparr>bb_len := 0, bb_offset := 0\<rparr>) h;
                   h = upd_pair i (\<lambda>b. b\<lparr>bb_peer := None\<rparr>) h;
                   h = upd_bio i (\<lambda>b. b\<lparr>bio_init := False\<rparr>) h
               in upd_pair i (\<lambda>b. b\<lparr>bb_len := 0, bb_offset := 0\<rparr>) h))"

definition bio_free :: "nat option \<Rightarrow> bios \<Rightarrow> bool \<times> bios" where
  "bio_free bio h =
     (case bio of
        None \<Rightarrow> (False, h)
      | Some i \<Rightarrow>
          let h = (if bb_peer (pair_at h i) \<noteq> None then bio_destroy_pair i h else h)
          in (True, upd_bio i (\<lambda>b. b\<lparr>bio_ptr := None\<rparr>) h))"

text \<open>
  The loop of \<open>bio_read\<close> on the peer's buffer: \<open>drop_chunk\<close> is the bookkeeping of one round that has
  copied \<open>c\<close> bytes.
\<close>

definition drop_chunk :: "nat \<Rightarrow> bio_bio_st \<Rightarrow> bio_bio_st" where
  "drop_chunk c b =
     (if bb_len b - c \<noteq> 0 then
        b\<lparr>bb_len := bb_len b - c, bb_offset := (if bb_offset b + c = bb_size b then 0 else bb_offset b + c)\<rparr>
      else b\<lparr>bb_len := 0, bb_offset := 0\<rparr>)"

partial_function (option) ring_read :: "bio_bio_st \<Rightarrow> nat \<Rightarrow> u8 list \<Rightarrow> (bio_bio_st \<times> u8 list) option" where
  "ring_read b rest out =
     (let c = (if (bb_offset b + rest) mod 2 ^ 64 \<le> bb_size b then rest else bb_size b - bb_offset b);
          out = out @ take c (drop (bb_offset b) (the (bb_buf b)))
      in if rest - c \<noteq> 0 then ring_read (drop_chunk c b) (rest - c) out else Some (drop_chunk c b, out))"

text \<open>The loop of \<open>bio_write\<close> on the own buffer: where the next byte goes, and the copy of \<open>c\<close> bytes.\<close>

definition write_pos :: "bio_bio_st \<Rightarrow> nat" where
  "write_pos b =
     (let write_offset = (bb_offset b + bb_len b) mod 2 ^ 64
      in if write_offset \<ge> bb_size b then write_offset - bb_size b else write_offset)"

definition add_chunk :: "nat \<Rightarrow> nat \<Rightarrow> u8 list \<Rightarrow> bio_bio_st \<Rightarrow> bio_bio_st" where
  "add_chunk wo c inp b =
     (let buf = the (bb_buf b)
      in b\<lparr>bb_buf := Some (take wo buf @ take c inp @ drop (wo + c) buf), bb_len := bb_len b + c\<rparr>)"

partial_function (option) ring_write :: "bio_bio_st \<Rightarrow> nat \<Rightarrow> u8 list \<Rightarrow> bio_bio_st option" where
  "ring_write b rest inp =
     (let c = (if (write_pos b + rest) mod 2 ^ 64 \<le> bb_size b then rest else bb_size b - write_pos b)
      in if rest - c \<noteq> 0 then ring_write (add_chunk (write_pos b) c inp b) (rest - c) (drop c inp)
         else Some (add_chunk (write_pos b) c inp b))"

text \<open>
  \<open>bio_read\<close> returns its result, the bytes written to \<open>buf\<close> and the memory; \<open>has_buf\<close> says that \<open>buf\<close>
  is not \<open>NULL\<close>. A negative length becomes a huge \<open>size_t\<close>.
\<close>

definition bio_read :: "nat \<Rightarrow> bool \<Rightarrow> int \<Rightarrow> bios \<Rightarrow> (int \<times> u8 list \<times> bios) option" where
  "bio_read i has_buf sz h =
     (let size = nat (sz mod 2 ^ 64);
          h = upd_bio i BIO_clear_retry_flags h
      in if \<not> bio_init (bio_at h i) then Some (0, [], h)
         else
           let j = the (bb_peer (pair_at h i));
               h = upd_pair j (\<lambda>b. b\<lparr>bb_request := 0\<rparr>) h
           in if \<not> has_buf \<or> size = 0 then Some (0, [], h)
              else if bb_len (pair_at h j) = 0 then
                (if bb_closed (pair_at h j) then Some (0, [], h)
                 else
                   let h = upd_bio i BIO_set_retry_read h
                   in Some (-1, [], upd_pair j (\<lambda>b. b\<lparr>bb_request := (if size \<le> bb_size b then size else bb_size b)\<rparr>) h))
              else
                (let size = (if bb_len (pair_at h j) < size then bb_len (pair_at h j) else size)
                 in case ring_read (pair_at h j) size [] of
                      None \<Rightarrow> None
                    | Some (b, out) \<Rightarrow> Some (int size, out, upd_pair j (\<lambda>_. b) h)))"

definition bio_write :: "nat \<Rightarrow> u8 list option \<Rightarrow> int \<Rightarrow> bios \<Rightarrow> (int \<times> bios) option" where
  "bio_write i buf len0 h =
     (let num = nat (len0 mod 2 ^ 64);
          h = upd_bio i BIO_clear_retry_flags h
      in if \<not> bio_init (bio_at h i) \<or> buf = None \<or> num = 0 then Some (0, h)
         else
           let h = upd_pair i (\<lambda>b. b\<lparr>bb_request := 0\<rparr>) h
           in if bb_closed (pair_at h i) then Some (-1, h)
              else if bb_len (pair_at h i) = bb_size (pair_at h i) then Some (-1, upd_bio i BIO_set_retry_write h)
              else
                (let room = bb_size (pair_at h i) - bb_len (pair_at h i);
                     num = (if num > room then room else num)
                 in case ring_write (pair_at h i) num (the buf) of
                      None \<Rightarrow> None
                    | Some b \<Rightarrow> Some (int num, upd_pair i (\<lambda>_. b) h)))"

text \<open>Allocation of a write buffer in \<open>bio_make_pair\<close>; \<open>junk\<close> is what fresh memory holds.\<close>

definition alloc_write_buf ::
  "(nat \<Rightarrow> bool) \<Rightarrow> (nat \<Rightarrow> u8) \<Rightarrow> nat \<Rightarrow> bio_bio_st \<Rightarrow> bool \<times> bio_bio_st" where
  "alloc_write_buf malloc_ok junk writebuf_len b =
     (if bb_buf b = None then
        let b = (if writebuf_len \<noteq> 0 then b\<lparr>bb_size := writebuf_len\<rparr> else b)
        in if \<not> malloc_ok (bb_size b) then (False, b)
           else (True, b\<lparr>bb_buf := Some (map junk [0..<bb_size b]), bb_len := 0, bb_offset := 0\<rparr>)
      else (True, b))"

definition bio_make_pair ::
  "(nat \<Rightarrow> bool) \<Rightarrow> (nat \<Rightarrow> u8) \<Rightarrow> nat \<Rightarrow> nat \<Rightarrow> nat \<Rightarrow> nat \<Rightarrow> bios \<Rightarrow> bool \<times> bios" where
  "bio_make_pair malloc_ok junk i j writebuf1_len writebuf2_len h =
     (if bb_peer (pair_at h i) \<noteq> None \<or> bb_peer (pair_at h j) \<noteq> None then (False, h)
      else
        let (r1, b1) = alloc_write_buf malloc_ok junk writebuf1_len (pair_at h i);
            h = upd_pair i (\<lambda>_. b1) h
        in if \<not> r1 then (False, h)
           else
             let (r2, b2) = alloc_write_buf malloc_ok junk writebuf2_len (pair_at h j);
                 h = upd_pair j (\<lambda>_. b2) h
             in if \<not> r2 then (False, h)
                else
                  let h = upd_pair i (\<lambda>b. b\<lparr>bb_peer := Some j, bb_closed := False, bb_request := 0\<rparr>) h;
                      h = upd_pair j (\<lambda>b. b\<lparr>bb_peer := Some i, bb_closed := False, bb_request := 0\<rparr>) h;
                      h = upd_bio i (\<lambda>b. b\<lparr>bio_init := True\<rparr>) h
                  in (True, upd_bio j (\<lambda>b. b\<lparr>bio_init := True\<rparr>) h))"

datatype bio_cmd = BIO_C_GET_WRITE_BUF_SIZE | BIO_C_GET_WRITE_GUARANTEE | BIO_C_GET_READ_REQUEST
  | BIO_C_RESET_READ_REQUEST | BIO_C_SHUTDOWN_WR | BIO_CTRL_GET_CLOSE | BIO_CTRL_SET_CLOSE | BIO_CTRL_PENDING
  | BIO_CTRL_WPENDING | BIO_CTRL_FLUSH | BIO_CTRL_EOF | BIO_other int

text \<open>A \<open>size_t\<close> as \<open>long\<close>.\<close>

definition to_long :: "nat \<Rightarrow> int" where
  "to_long n = sint (of_nat n :: u64)"

fun bio_ctrl :: "nat \<Rightarrow> bio_cmd \<Rightarrow> int \<Rightarrow> nat option \<Rightarrow> bios \<Rightarrow> int \<times> bios" where
  "bio_ctrl i BIO_C_GET_WRITE_BUF_SIZE num p h = (to_long (bb_size (pair_at h i)), h)"
| "bio_ctrl i BIO_C_GET_WRITE_GUARANTEE num p h =
     ((if bb_peer (pair_at h i) = None \<or> bb_closed (pair_at h i) then 0
       else sint (of_nat (bb_size (pair_at h i)) - of_nat (bb_len (pair_at h i)) :: u64)), h)"
| "bio_ctrl i BIO_C_GET_READ_REQUEST num p h = (to_long (bb_request (pair_at h i)), h)"
| "bio_ctrl i BIO_C_RESET_READ_REQUEST num p h = (1, upd_pair i (\<lambda>b. b\<lparr>bb_request := 0\<rparr>) h)"
| "bio_ctrl i BIO_C_SHUTDOWN_WR num p h = (1, upd_pair i (\<lambda>b. b\<lparr>bb_closed := True\<rparr>) h)"
| "bio_ctrl i BIO_CTRL_GET_CLOSE num p h = (bio_shutdown (bio_at h i), h)"
| "bio_ctrl i BIO_CTRL_SET_CLOSE num p h =
     (1, upd_bio i (\<lambda>b. b\<lparr>bio_shutdown := sint (of_int num :: u32)\<rparr>) h)"
| "bio_ctrl i BIO_CTRL_PENDING num p h =
     ((case bb_peer (pair_at h i) of None \<Rightarrow> 0 | Some j \<Rightarrow> to_long (bb_len (pair_at h j))), h)"
| "bio_ctrl i BIO_CTRL_WPENDING num p h =
     ((if bb_buf (pair_at h i) \<noteq> None then to_long (bb_len (pair_at h i)) else 0), h)"
| "bio_ctrl i BIO_CTRL_FLUSH num p h = (1, h)"
| "bio_ctrl i BIO_CTRL_EOF num p h =
     ((case p of
         None \<Rightarrow> 1
       | Some j \<Rightarrow> if bb_len (pair_at h j) = 0 \<and> bb_closed (pair_at h j) then 1 else 0), h)"
| "bio_ctrl i (BIO_other k) num p h = (0, h)"

section \<open>The operations on any BIO\<close>

text \<open>
  Of \<open>bio.c\<close>, for BIOs whose method is \<open>methods_biop\<close> (it has no \<open>bgets\<close>); \<open>None\<close> as the address
  of a \<open>BIO\<close> is \<open>NULL\<close>.
\<close>

definition CRYPTO_refcount_inc :: "nat \<Rightarrow> nat" where
  "CRYPTO_refcount_inc c = (if c < 0xffffffff then c + 1 else c)"

text \<open>The new count, and whether it is zero. A count of zero aborts the program:
  \<open>BIO_free\<close> does not return then.\<close>

definition CRYPTO_refcount_dec_and_test_zero :: "nat \<Rightarrow> nat \<times> bool" where
  "CRYPTO_refcount_dec_and_test_zero c =
     (let c = (if c < 0xffffffff then c - 1 else c) in (c, c = 0))"

definition BIO_up_ref :: "nat \<Rightarrow> bios \<Rightarrow> bios" where
  "BIO_up_ref i = upd_bio i (\<lambda>b. b\<lparr>bio_references := CRYPTO_refcount_inc (bio_references b)\<rparr>)"

definition sizeof_BIO :: nat where
  "sizeof_BIO = 80"

text \<open>\<open>addr\<close> is the address that \<open>malloc\<close> chooses for the new \<open>BIO\<close>.\<close>

definition BIO_new :: "(nat \<Rightarrow> bool) \<Rightarrow> nat \<Rightarrow> bios \<Rightarrow> nat option \<times> bios" where
  "BIO_new malloc_ok addr h =
     (if \<not> malloc_ok sizeof_BIO then (None, h)
      else
        case bio_new malloc_ok \<lparr>bio_init = False, bio_shutdown = 1, bio_flags = 0, bio_retry_reason = 0,
            bio_references = 1, bio_ptr = None, bio_next = None, bio_num_read = 0, bio_num_write = 0\<rparr> of
          None \<Rightarrow> (None, h)
        | Some b \<Rightarrow> (Some addr, h(addr \<mapsto> b)))"

definition BIO_pop :: "nat option \<Rightarrow> bios \<Rightarrow> nat option \<times> bios" where
  "BIO_pop bio h =
     (case bio of
        None \<Rightarrow> (None, h)
      | Some i \<Rightarrow> (bio_next (bio_at h i), upd_bio i (\<lambda>b. b\<lparr>bio_next := None\<rparr>) h))"

definition BIO_next :: "nat option \<Rightarrow> bios \<Rightarrow> nat option" where
  "BIO_next bio h = (case bio of None \<Rightarrow> None | Some i \<Rightarrow> bio_next (bio_at h i))"

partial_function (option) last_bio :: "bios \<Rightarrow> nat \<Rightarrow> nat option" where
  "last_bio h i = (case bio_next (bio_at h i) of None \<Rightarrow> Some i | Some j \<Rightarrow> last_bio h j)"

definition BIO_push :: "nat option \<Rightarrow> nat option \<Rightarrow> bios \<Rightarrow> (nat option \<times> bios) option" where
  "BIO_push bio appended_bio h =
     (case bio of
        None \<Rightarrow> Some (None, h)
      | Some i \<Rightarrow>
          do { j \<leftarrow> last_bio h i;
               Some (Some i, upd_bio j (\<lambda>b. b\<lparr>bio_next := appended_bio\<rparr>) h) })"

partial_function (option) BIO_free :: "nat option \<Rightarrow> bios \<Rightarrow> (bool \<times> bios) option" where
  "BIO_free bio h =
     (case bio of
        None \<Rightarrow> Some (True, h)
      | Some i \<Rightarrow>
          if bio_references (bio_at h i) = 0 then None
          else
          let (c, z) = CRYPTO_refcount_dec_and_test_zero (bio_references (bio_at h i));
              h = upd_bio i (\<lambda>b. b\<lparr>bio_references := c\<rparr>) h
          in if \<not> z then Some (False, h)
             else
               let (next_bio, h) = BIO_pop bio h;
                   (_, h) = bio_free bio h
               in BIO_free next_bio (h(i := None)))"

definition BIO_read :: "nat option \<Rightarrow> bool \<Rightarrow> int \<Rightarrow> bios \<Rightarrow> (int \<times> u8 list \<times> bios) option" where
  "BIO_read bio has_buf n h =
     (case bio of
        None \<Rightarrow> Some (-2, [], h)
      | Some i \<Rightarrow>
          if \<not> bio_init (bio_at h i) then Some (-2, [], h)
          else if n \<le> 0 then Some (0, [], h)
          else
            do { (ret, out, h) \<leftarrow> bio_read i has_buf n h;
                 Some (ret, out,
                   if ret > 0 then upd_bio i (\<lambda>b. b\<lparr>bio_num_read := (bio_num_read b + nat ret) mod 2 ^ 64\<rparr>) h else h) })"

definition BIO_write :: "nat option \<Rightarrow> u8 list option \<Rightarrow> int \<Rightarrow> bios \<Rightarrow> (int \<times> bios) option" where
  "BIO_write bio inp n h =
     (case bio of
        None \<Rightarrow> Some (-2, h)
      | Some i \<Rightarrow>
          if \<not> bio_init (bio_at h i) then Some (-2, h)
          else if n \<le> 0 then Some (0, h)
          else
            do { (ret, h) \<leftarrow> bio_write i inp n h;
                 Some (ret,
                   if ret > 0 then upd_bio i (\<lambda>b. b\<lparr>bio_num_write := (bio_num_write b + nat ret) mod 2 ^ 64\<rparr>) h else h) })"

definition BIO_INT_MAX :: nat where
  "BIO_INT_MAX = 2 ^ 31 - 1"

text \<open>Each round writes at least one byte, so that the length of the data bounds the loop.\<close>

partial_function (option) BIO_write_all :: "nat option \<Rightarrow> u8 list \<Rightarrow> bios \<Rightarrow> (bool \<times> bios) option" where
  "BIO_write_all bio inp h =
     (if length inp > 0 then
        do { (ret, h) \<leftarrow> BIO_write bio (Some inp) (if length inp > BIO_INT_MAX then int BIO_INT_MAX else int (length inp)) h;
             if ret \<le> 0 then Some (False, h) else BIO_write_all bio (drop (nat ret) inp) h }
      else Some (True, h))"

definition BIO_ctrl :: "nat option \<Rightarrow> bio_cmd \<Rightarrow> int \<Rightarrow> nat option \<Rightarrow> bios \<Rightarrow> int \<times> bios" where
  "BIO_ctrl bio cmd larg parg h = (case bio of None \<Rightarrow> (0, h) | Some i \<Rightarrow> bio_ctrl i cmd larg parg h)"

definition BIO_flush :: "nat option \<Rightarrow> bios \<Rightarrow> int \<times> bios" where
  "BIO_flush bio = BIO_ctrl bio BIO_CTRL_FLUSH 0 None"

definition BIO_eof :: "nat option \<Rightarrow> bios \<Rightarrow> int \<times> bios" where
  "BIO_eof bio = BIO_ctrl bio BIO_CTRL_EOF 0 None"

definition BIO_pending :: "nat option \<Rightarrow> bios \<Rightarrow> int" where
  "BIO_pending bio h = (let r = fst (BIO_ctrl bio BIO_CTRL_PENDING 0 None h) in if r < 0 then 0 else r)"

definition BIO_ctrl_pending :: "nat option \<Rightarrow> bios \<Rightarrow> int" where
  "BIO_ctrl_pending bio h = BIO_pending bio h"

definition BIO_wpending :: "nat option \<Rightarrow> bios \<Rightarrow> int" where
  "BIO_wpending bio h = (let r = fst (BIO_ctrl bio BIO_CTRL_WPENDING 0 None h) in if r < 0 then 0 else r)"

definition BIO_set_close :: "nat option \<Rightarrow> int \<Rightarrow> bios \<Rightarrow> int \<times> bios" where
  "BIO_set_close bio close_flag = BIO_ctrl bio BIO_CTRL_SET_CLOSE close_flag None"

definition BIO_ctrl_get_read_request :: "nat option \<Rightarrow> bios \<Rightarrow> int \<times> bios" where
  "BIO_ctrl_get_read_request bio = BIO_ctrl bio BIO_C_GET_READ_REQUEST 0 None"

definition BIO_ctrl_get_write_guarantee :: "nat option \<Rightarrow> bios \<Rightarrow> int \<times> bios" where
  "BIO_ctrl_get_write_guarantee bio = BIO_ctrl bio BIO_C_GET_WRITE_GUARANTEE 0 None"

definition BIO_shutdown_wr :: "nat option \<Rightarrow> bios \<Rightarrow> int \<times> bios" where
  "BIO_shutdown_wr bio = BIO_ctrl bio BIO_C_SHUTDOWN_WR 0 None"

text \<open>Both addresses on success. \<open>a1\<close> and \<open>a2\<close> are fresh and different.\<close>

definition BIO_new_bio_pair ::
  "(nat \<Rightarrow> bool) \<Rightarrow> (nat \<Rightarrow> u8) \<Rightarrow> nat \<Rightarrow> nat \<Rightarrow> nat \<Rightarrow> nat \<Rightarrow> bios \<Rightarrow> ((nat \<times> nat) option \<times> bios) option" where
  "BIO_new_bio_pair malloc_ok junk a1 a2 writebuf1_len writebuf2_len h =
     (let (bio1, h) = BIO_new malloc_ok a1 h;
          (bio2, h) = BIO_new malloc_ok a2 h;
          (r, h) = (case (bio1, bio2) of
                      (Some i, Some j) \<Rightarrow> bio_make_pair malloc_ok junk i j writebuf1_len writebuf2_len h
                    | _ \<Rightarrow> (False, h))
      in if \<not> r then
           do { (_, h) \<leftarrow> BIO_free bio1 h; (_, h) \<leftarrow> BIO_free bio2 h; Some (None, h) }
         else Some (Some (a1, a2), h))"

end
