(* ===== verification/Bio_Queue.thy ===== *)
theory Bio_Queue
  imports Bio_Pair
begin

text \<open>
  The ring buffer of a BIO pair is a queue: the interpretation of the contract \<open>fifo\<close> on the loops of
  \<open>bio_read\<close> and \<open>bio_write\<close>, and what it means for two connected BIOs.
\<close>

section \<open>The ring buffer\<close>

definition ring_ok :: "bio_bio_st \<Rightarrow> bool" where
  "ring_ok b \<longleftrightarrow> (case bb_buf b of None \<Rightarrow> False | Some buf \<Rightarrow> length buf = bb_size b) \<and>
     0 < bb_size b \<and> bb_size b < 2 ^ 62 \<and> bb_len b \<le> bb_size b \<and> bb_offset b < bb_size b \<and>
     (bb_len b = 0 \<longrightarrow> bb_offset b = 0)"

definition ring_index :: "bio_bio_st \<Rightarrow> nat \<Rightarrow> nat" where
  "ring_index b k = (if bb_offset b + k < bb_size b then bb_offset b + k else bb_offset b + k - bb_size b)"

text \<open>The bytes that wait to be read, oldest first.\<close>

definition ring :: "bio_bio_st \<Rightarrow> u8 list" where
  "ring b = map (\<lambda>k. the (bb_buf b) ! ring_index b k) [0..<bb_len b]"

lemma length_ring [simp]: "length (ring b) = bb_len b"
  by (simp add: ring_def)

lemma ring_nth: "k < bb_len b \<Longrightarrow> ring b ! k = the (bb_buf b) ! ring_index b k"
  by (simp add: ring_def)

lemma ring_okE:
  assumes "ring_ok b"
  obtains buf where "bb_buf b = Some buf" "length buf = bb_size b" "0 < bb_size b" "bb_size b < 2 ^ 62"
    "bb_len b \<le> bb_size b" "bb_offset b < bb_size b"
  using assms by (auto simp: ring_ok_def split: option.splits)

lemma drop_chunk_ok:
  assumes "ring_ok b" "c \<le> bb_len b" "bb_offset b + c \<le> bb_size b"
  shows "ring_ok (drop_chunk c b)" "ring (drop_chunk c b) = drop c (ring b)"
    "take c (drop (bb_offset b) (the (bb_buf b))) = take c (ring b)" "bb_size (drop_chunk c b) = bb_size b"
    "bb_len (drop_chunk c b) = bb_len b - c"
proof -
  obtain buf where b: "bb_buf b = Some buf" "length buf = bb_size b" "0 < bb_size b" "bb_size b < 2 ^ 62"
    "bb_len b \<le> bb_size b" "bb_offset b < bb_size b" using assms(1) by (rule ring_okE)
  show "ring_ok (drop_chunk c b)" using assms(1,3) b by (auto simp: drop_chunk_def ring_ok_def)
  show "bb_size (drop_chunk c b) = bb_size b" "bb_len (drop_chunk c b) = bb_len b - c"
    by (simp_all add: drop_chunk_def)
  show "take c (drop (bb_offset b) (the (bb_buf b))) = take c (ring b)"
    using assms(2,3) b by (intro nth_equalityI) (auto simp: ring_nth ring_index_def)
  show "ring (drop_chunk c b) = drop c (ring b)"
  proof (rule nth_equalityI)
    fix k assume "k < length (ring (drop_chunk c b))"
    then have k: "c + k < bb_len b" by (simp add: drop_chunk_def split: if_splits)
    then show "ring (drop_chunk c b) ! k = drop c (ring b) ! k"
      using assms(2,3) b by (auto simp: ring_nth ring_index_def drop_chunk_def simp flip: add.assoc)
  qed (simp add: drop_chunk_def)
qed

lemma ring_read_ok:
  assumes "ring_ok b" "0 < n" "n \<le> bb_len b"
  shows "\<exists>b'. ring_read b n out = Some (b', out @ take n (ring b)) \<and> ring_ok b' \<and> ring b' = drop n (ring b) \<and>
    bb_size b' = bb_size b"
proof -
  obtain buf where b: "bb_size b < 2 ^ 62" "bb_len b \<le> bb_size b" "bb_offset b < bb_size b"
    using assms(1) by (rule ring_okE)
  have m: "(bb_offset b + n) mod 2 ^ 64 = bb_offset b + n" using b assms(3) by (intro mod_less) simp
  show ?thesis
  proof (cases "bb_offset b + n \<le> bb_size b")
    case True
    from drop_chunk_ok [OF assms(1,3) True] show ?thesis
      using True by (subst ring_read.simps) (simp only: m Let_def, simp)
  next
    case False
    let ?c = "bb_size b - bb_offset b"
    have c: "?c \<le> bb_len b" "bb_offset b + ?c \<le> bb_size b" "?c < n" using False b assms(3) by auto
    note d = drop_chunk_ok [OF assms(1) c(1,2)]
    let ?b = "drop_chunk ?c b"
    have off: "bb_offset ?b = 0" using b assms(3) c by (simp add: drop_chunk_def)
    have m': "(bb_offset ?b + (n - ?c)) mod 2 ^ 64 = n - ?c" using off b assms(3) by (simp add: mod_less)
    have fit: "n - ?c \<le> bb_size ?b" using b assms(3) by (simp add: d(4))
    have r: "ring_read b n out = ring_read ?b (n - ?c) (out @ take ?c (ring b))"
      using c(3) by (subst ring_read.simps) (simp only: m Let_def if_not_P [OF False] d(3), simp)
    have e: "n - ?c \<le> bb_len ?b" unfolding d(5) using assms(3) by (rule diff_le_mono)
    have e': "bb_offset ?b + (n - ?c) \<le> bb_size ?b" using fit off by simp
    note d2 = drop_chunk_ok [OF d(1) e e']
    have "ring_read ?b (n - ?c) (out @ take ?c (ring b))
        = Some (drop_chunk (n - ?c) ?b, (out @ take ?c (ring b)) @ take (n - ?c) (ring ?b))"
      by (subst ring_read.simps) (simp only: m' Let_def if_P [OF fit] d2(3), simp)
    moreover have "take ?c (ring b) @ take (n - ?c) (ring ?b) = take n (ring b)"
      using c(3) take_add [of ?c "n - ?c" "ring b"] by (simp add: d(2))
    moreover have "ring (drop_chunk (n - ?c) ?b) = drop n (ring b)" using c(3) by (simp add: d2(2) d(2))
    ultimately show ?thesis unfolding r using d2(1,4) d(4) by auto
  qed
qed

lemma write_pos_eq:
  assumes "ring_ok b"
  shows "write_pos b = ring_index b (bb_len b)" "ring_index b (bb_len b) < bb_size b"
proof -
  obtain buf where b: "bb_size b < 2 ^ 62" "bb_len b \<le> bb_size b" "bb_offset b < bb_size b"
    using assms(1) by (rule ring_okE)
  then have "(bb_offset b + bb_len b) mod 2 ^ 64 = bb_offset b + bb_len b" by (intro mod_less) simp
  then show "write_pos b = ring_index b (bb_len b)" by (simp add: write_pos_def ring_index_def)
  show "ring_index b (bb_len b) < bb_size b" using b by (auto simp: ring_index_def)
qed

lemma add_chunk_ok:
  assumes "ring_ok b" "c \<le> bb_size b - bb_len b" "write_pos b + c \<le> bb_size b" "c \<le> length inp"
    "0 < c"
  shows "ring_ok (add_chunk (write_pos b) c inp b)" "ring (add_chunk (write_pos b) c inp b) = ring b @ take c inp"
    "bb_size (add_chunk (write_pos b) c inp b) = bb_size b" "bb_len (add_chunk (write_pos b) c inp b) = bb_len b + c"
    "bb_offset (add_chunk (write_pos b) c inp b) = bb_offset b"
proof -
  obtain buf where b: "bb_buf b = Some buf" "length buf = bb_size b" "0 < bb_size b" "bb_size b < 2 ^ 62"
    "bb_len b \<le> bb_size b" "bb_offset b < bb_size b" using assms(1) by (rule ring_okE)
  let ?w = "write_pos b"
  let ?buf = "take ?w buf @ take c inp @ drop (?w + c) buf"
  have w: "?w = ring_index b (bb_len b)" using assms(1) by (rule write_pos_eq)
  show "ring_ok (add_chunk ?w c inp b)" using assms b by (auto simp: add_chunk_def ring_ok_def Let_def)
  show "bb_size (add_chunk ?w c inp b) = bb_size b" "bb_len (add_chunk ?w c inp b) = bb_len b + c"
    "bb_offset (add_chunk ?w c inp b) = bb_offset b"
    by (simp_all add: add_chunk_def Let_def)
  have old: "?buf ! ring_index b k = buf ! ring_index b k" if "k < bb_len b" for k
    using that assms b unfolding w by (auto simp: nth_append ring_index_def min_def)
  have new: "?buf ! ring_index b (bb_len b + k) = inp ! k" if "k < c" for k
  proof -
    have "ring_index b (bb_len b + k) = ?w + k"
      using that assms(2,3) b unfolding w by (auto simp: ring_index_def split: if_splits)
    then show ?thesis using that assms(3,4) b by (simp add: nth_append min_def)
  qed
  show "ring (add_chunk ?w c inp b) = ring b @ take c inp"
  proof (rule nth_equalityI)
    show "length (ring (add_chunk ?w c inp b)) = length (ring b @ take c inp)"
      using assms(4) by (simp add: add_chunk_def Let_def)
    fix k assume "k < length (ring (add_chunk ?w c inp b))"
    then have k: "k < bb_len b + c" by (simp add: add_chunk_def Let_def)
    have r: "ring (add_chunk ?w c inp b) ! k = ?buf ! ring_index b k"
      using k b(1) by (simp add: ring_nth add_chunk_def ring_index_def Let_def)
    show "ring (add_chunk ?w c inp b) ! k = (ring b @ take c inp) ! k"
    proof (cases "k < bb_len b")
      case True
      then show ?thesis unfolding r old [OF True] using b(1) by (simp add: nth_append ring_nth)
    next
      case False
      then show ?thesis unfolding r using k new [of "k - bb_len b"] by (simp add: nth_append)
    qed
  qed
qed

lemma ring_write_ok:
  assumes "ring_ok b" "0 < n" "n \<le> bb_size b - bb_len b" "n \<le> length inp"
  shows "\<exists>b'. ring_write b n inp = Some b' \<and> ring_ok b' \<and> ring b' = ring b @ take n inp \<and> bb_size b' = bb_size b"
proof -
  obtain buf where b: "bb_size b < 2 ^ 62" "bb_len b \<le> bb_size b" "bb_offset b < bb_size b"
    using assms(1) by (rule ring_okE)
  note w = write_pos_eq [OF assms(1)]
  have m: "(write_pos b + n) mod 2 ^ 64 = write_pos b + n" using b assms(3) w by (intro mod_less) simp
  show ?thesis
  proof (cases "write_pos b + n \<le> bb_size b")
    case True
    from add_chunk_ok [OF assms(1,3) True assms(4,2)] show ?thesis
      using True by (subst ring_write.simps) (simp only: m Let_def, simp)
  next
    case False
    let ?c = "bb_size b - write_pos b"
    have c: "?c \<le> bb_size b - bb_len b" "write_pos b + ?c \<le> bb_size b" "?c \<le> length inp" "0 < ?c" "?c < n"
      using False assms w by auto
    note d = add_chunk_ok [OF assms(1) c(1-4)]
    let ?b = "add_chunk (write_pos b) ?c inp b"
    have "bb_offset b + bb_len b < bb_size b"
    proof (rule ccontr)
      assume "\<not> ?thesis"
      then have "write_pos b + n \<le> bb_offset b" using w assms(3) b by (simp add: ring_index_def)
      then show False using False b by simp
    qed
    then have p: "write_pos b = bb_offset b + bb_len b" using w by (simp add: ring_index_def)
    have pos: "write_pos ?b = 0"
      unfolding write_pos_eq(1) [OF d(1)] ring_index_def d
      using p b \<open>bb_offset b + bb_len b < bb_size b\<close> by simp
    have e: "n - ?c \<le> bb_size ?b - bb_len ?b" "write_pos ?b + (n - ?c) \<le> bb_size ?b" "n - ?c \<le> length (drop ?c inp)"
      "0 < n - ?c" using c assms d pos by auto
    have m': "(write_pos ?b + (n - ?c)) mod 2 ^ 64 = write_pos ?b + (n - ?c)"
      using pos b assms(3) by (intro mod_less) simp
    note d2 = add_chunk_ok [OF d(1) e]
    have "ring_write b n inp = ring_write ?b (n - ?c) (drop ?c inp)"
      using c(5) by (subst ring_write.simps) (simp only: m Let_def if_not_P [OF False], simp)
    also have "\<dots> = Some (add_chunk (write_pos ?b) (n - ?c) (drop ?c inp) ?b)"
      by (subst ring_write.simps) (simp only: m' Let_def if_P [OF e(2)], simp)
    finally have r: "ring_write b n inp = Some (add_chunk (write_pos ?b) (n - ?c) (drop ?c inp) ?b)" .
    have "take ?c inp @ take (n - ?c) (drop ?c inp) = take n inp"
      using c(5) take_add [of ?c "n - ?c" inp] by simp
    then show ?thesis using r d2 d by simp
  qed
qed

text \<open>A write and a read as the two functions do them once the BIO is known to be usable.\<close>

definition ring_put :: "bio_bio_st \<Rightarrow> u8 list \<Rightarrow> (bio_bio_st \<times> nat) option" where
  "ring_put b xs =
     (let n = min (length xs) (bb_size b - bb_len b)
      in if n = 0 then Some (b, 0) else map_option (\<lambda>b. (b, n)) (ring_write b n xs))"

definition ring_get :: "bio_bio_st \<Rightarrow> nat \<Rightarrow> (bio_bio_st \<times> u8 list) option" where
  "ring_get b n =
     (let n = min n (bb_len b) in if n = 0 then Some (b, []) else ring_read b n [])"

interpretation ringq: fifo ring_ok "\<lambda>b. bb_size b - bb_len b" ring ring_put ring_get
proof
  fix b :: bio_bio_st and xs :: "u8 list" and n :: nat
  assume ok: "ring_ok b"
  have len: "bb_len c = length (ring c)" for c by simp
  have le: "bb_len c \<le> bb_size c" if "ring_ok c" for c using that by (rule ring_okE)
  have w: "\<exists>b'. ring_put b xs = Some (b', m) \<and> ring_ok b' \<and> ring b' = ring b @ take m xs \<and> bb_size b' = bb_size b"
    if "m = min (length xs) (bb_size b - bb_len b)" for m
  proof (cases "min (length xs) (bb_size b - bb_len b) = 0")
    case True
    then show ?thesis using ok that by (simp only: ring_put_def Let_def if_True) simp
  next
    case False
    then have "0 < m" "m \<le> bb_size b - bb_len b" "m \<le> length xs" using that by auto
    from ring_write_ok [OF ok this] obtain b' where "ring_write b m xs = Some b'" "ring_ok b'"
      "ring b' = ring b @ take m xs" "bb_size b' = bb_size b" by blast
    moreover from this(1) have "ring_put b xs = Some (b', m)"
      using False unfolding ring_put_def Let_def that [symmetric] by simp
    ultimately show ?thesis by blast
  qed
  then show "\<exists>s' n. ring_put b xs = Some (s', n)" by blast
  show "ring_ok s' \<and> n = min (length xs) (bb_size b - bb_len b) \<and> ring s' = ring b @ take n xs \<and>
      bb_size s' - bb_len s' = bb_size b - bb_len b - n" if "ring_put b xs = Some (s', n)" for s' n
    using w [OF refl] that le [OF ok] by (auto simp: len simp del: length_ring)
  have r: "\<exists>b'. ring_get b n = Some (b', take n (ring b)) \<and> ring_ok b' \<and> ring b' = drop n (ring b) \<and> bb_size b' = bb_size b"
  proof (cases "min n (bb_len b) = 0")
    case False
    then have "0 < min n (bb_len b)" "min n (bb_len b) \<le> bb_len b" by auto
    from ring_read_ok [OF ok this, of "[]"] show ?thesis using False
      by (auto simp: ring_get_def Let_def min_def)
  next
    case True
    then have "ring_get b n = Some (b, [])" by (simp add: ring_get_def)
    moreover have "n = 0 \<or> ring b = []" using True by (auto simp: ring_def min_def split: if_splits)
    ultimately show ?thesis using ok by auto
  qed
  then show "\<exists>s' xs. ring_get b n = Some (s', xs)" by blast
  show "ring_ok s' \<and> xs = take n (ring b) \<and> ring s' = drop n (ring b) \<and>
      bb_size s' - bb_len s' = bb_size b - bb_len b + length xs" if "ring_get b n = Some (s', xs)" for s' xs
    using r that le [OF ok] by (auto simp: len simp del: length_ring)
qed

section \<open>Two connected BIOs\<close>

lemma bio_at_upd_bio [simp]: "bio_at (upd_bio i f h) k = (if k = i then f (bio_at h i) else bio_at h k)"
  by (simp add: bio_at_def upd_bio_def)

lemma upd_bio_eq_None [simp]: "upd_bio i f h k = None \<longleftrightarrow> k \<noteq> i \<and> h k = None"
  by (simp add: upd_bio_def)

lemma bio_at_upd_pair [simp]:
  "bio_at (upd_pair i f h) k =
    (if k = i then (bio_at h i)\<lparr>bio_ptr := Some (f (pair_at h i))\<rparr> else bio_at h k)"
  by (simp add: upd_pair_def pair_at_def)

lemma upd_pair_eq_None [simp]: "upd_pair i f h k = None \<longleftrightarrow> k \<noteq> i \<and> h k = None"
  by (simp add: upd_pair_def)

lemma pair_at_upd_pair [simp]: "pair_at (upd_pair i f h) k = (if k = i then f (pair_at h i) else pair_at h k)"
  by (simp add: pair_at_def upd_pair_def)

lemma pair_at_upd_bio:
  "(\<And>b. bio_ptr (f b) = bio_ptr b) \<Longrightarrow> pair_at (upd_bio i f h) k = pair_at h k"
  by (simp add: pair_at_def)

lemma flags_keep [simp]:
  "bio_ptr (BIO_clear_retry_flags b) = bio_ptr b" "bio_init (BIO_clear_retry_flags b) = bio_init b"
  "bio_ptr (BIO_set_retry_read b) = bio_ptr b" "bio_init (BIO_set_retry_read b) = bio_init b"
  "bio_ptr (BIO_set_retry_write b) = bio_ptr b" "bio_init (BIO_set_retry_write b) = bio_init b"
  by (simp_all add: BIO_clear_retry_flags_def BIO_set_retry_read_def BIO_set_retry_write_def)

lemma pair_at_flags [simp]:
  "pair_at (upd_bio i BIO_clear_retry_flags h) k = pair_at h k"
  "pair_at (upd_bio i BIO_set_retry_read h) k = pair_at h k"
  "pair_at (upd_bio i BIO_set_retry_write h) k = pair_at h k"
  "pair_at (upd_bio i (\<lambda>b. b\<lparr>bio_num_read := f b\<rparr>) h) k = pair_at h k"
  "pair_at (upd_bio i (\<lambda>b. b\<lparr>bio_num_write := f b\<rparr>) h) k = pair_at h k"
  "pair_at (upd_bio i (\<lambda>b. b\<lparr>bio_init := v\<rparr>) h) k = pair_at h k"
  by (rule pair_at_upd_bio, simp)+

definition end_ok :: "bios \<Rightarrow> nat \<Rightarrow> nat \<Rightarrow> bool" where
  "end_ok h i j \<longleftrightarrow> h i \<noteq> None \<and> bio_init (bio_at h i) \<and> bio_ptr (bio_at h i) \<noteq> None \<and>
     bb_peer (pair_at h i) = Some j \<and> ring_ok (pair_at h i)"

definition connected :: "bios \<Rightarrow> nat \<Rightarrow> nat \<Rightarrow> bool" where
  "connected h i j \<longleftrightarrow> i \<noteq> j \<and> end_ok h i j \<and> end_ok h j i"

lemma connected_sym: "connected h i j \<Longrightarrow> connected h j i"
  by (auto simp: connected_def)

text \<open>What has been written into BIO \<open>i\<close> and not yet been read from its peer.\<close>

definition queued :: "bios \<Rightarrow> nat \<Rightarrow> u8 list" where
  "queued h i = ring (pair_at h i)"

lemma ring_ok_request [simp]: "ring_ok (b\<lparr>bb_request := r\<rparr>) = ring_ok b" "ring (b\<lparr>bb_request := r\<rparr>) = ring b"
  "ring_ok (b\<lparr>bb_closed := c\<rparr>) = ring_ok b" "ring (b\<lparr>bb_closed := c\<rparr>) = ring b"
  by (simp_all add: ring_ok_def ring_def ring_index_def split: option.split)

lemma ring_read_keeps:
  assumes "ring_read b n out = Some (b', out')"
  shows "bb_peer b' = bb_peer b \<and> bb_closed b' = bb_closed b \<and> bb_request b' = bb_request b"
proof -
  have "bb_peer (fst (b', out')) = bb_peer b \<and> bb_closed (fst (b', out')) = bb_closed b \<and>
      bb_request (fst (b', out')) = bb_request b"
    by (rule ring_read.raw_induct [where P = "\<lambda>b n out p. bb_peer (fst p) = bb_peer b \<and>
          bb_closed (fst p) = bb_closed b \<and> bb_request (fst p) = bb_request b", OF _ assms])
      (auto simp: Let_def drop_chunk_def split: if_splits)
  then show ?thesis by simp
qed

lemma ring_write_keeps:
  assumes "ring_write b n xs = Some b'"
  shows "bb_peer b' = bb_peer b \<and> bb_closed b' = bb_closed b \<and> bb_request b' = bb_request b"
  by (rule ring_write.raw_induct [where P = "\<lambda>b n xs b'. bb_peer b' = bb_peer b \<and>
        bb_closed b' = bb_closed b \<and> bb_request b' = bb_request b", OF _ assms])
    (auto simp: Let_def add_chunk_def split: if_splits)

text \<open>The result of \<open>BIO_write\<close>: nothing to do, an error, or the number of bytes that fit.\<close>

definition write_result :: "bio_bio_st \<Rightarrow> u8 list \<Rightarrow> int" where
  "write_result b xs =
     (if xs = [] then 0 else if bb_closed b \<or> bb_len b = bb_size b then -1
      else int (min (length xs) (bb_size b - bb_len b)))"

lemma size_t_of_int: "n \<le> BIO_INT_MAX \<Longrightarrow> nat (int n mod 2 ^ 64) = n"
  by (simp add: BIO_INT_MAX_def)

lemma bio_write_connected:
  assumes c: "connected h i j" and l: "length xs \<le> BIO_INT_MAX" "xs \<noteq> []"
  shows "\<exists>h'. bio_write i (Some xs) (int (length xs)) h = Some (write_result (pair_at h i) xs, h') \<and> connected h' i j \<and>
    queued h' j = queued h j \<and> queued h' i = queued h i @ take (nat (write_result (pair_at h i) xs)) xs \<and>
    (\<forall>k. bb_closed (pair_at h' k) = bb_closed (pair_at h k))"
proof -
  let ?h = "upd_pair i (\<lambda>b. b\<lparr>bb_request := 0\<rparr>) (upd_bio i BIO_clear_retry_flags h)"
  let ?b = "(pair_at h i)\<lparr>bb_request := 0\<rparr>"
  have ne: "i \<noteq> j" and e: "bio_init (bio_at h i)" "ring_ok (pair_at h i)" using c by (auto simp: connected_def end_ok_def)
  have p: "pair_at ?h i = ?b" by simp
  have c': "connected ?h i j" "queued ?h i = queued h i" "queued ?h j = queued h j"
    using c by (auto simp: connected_def end_ok_def queued_def)
  have le: "bb_len (pair_at h i) \<le> bb_size (pair_at h i)" using e(2) by (rule ring_okE)
  show ?thesis
  proof (cases "bb_closed (pair_at h i) \<or> bb_len (pair_at h i) = bb_size (pair_at h i)")
    case True
    have k: "connected (upd_bio i BIO_set_retry_write ?h) i j" "queued (upd_bio i BIO_set_retry_write ?h) k = queued ?h k"
      "bb_closed (pair_at (upd_bio i BIO_set_retry_write ?h) k) = bb_closed (pair_at h k)"
      "bb_closed (pair_at ?h k) = bb_closed (pair_at h k)" for k
      using c'(1) by (auto simp: connected_def end_ok_def queued_def)
    have "bio_write i (Some xs) (int (length xs)) h =
        (if bb_closed (pair_at h i) then Some (-1, ?h) else Some (-1, upd_bio i BIO_set_retry_write ?h))"
      unfolding bio_write_def Let_def size_t_of_int [OF l(1)] p using True e(1) l by auto
    then show ?thesis using True l c' k by (simp add: write_result_def)
  next
    case False
    let ?n = "min (length xs) (bb_size (pair_at h i) - bb_len (pair_at h i))"
    have r: "write_result (pair_at h i) xs = int ?n" using False l(2) by (simp add: write_result_def)
    have "ring_ok ?b" "0 < ?n" "?n \<le> bb_size ?b - bb_len ?b" "?n \<le> length xs" using False l(2) le e(2) by auto
    from ring_write_ok [OF this] obtain b' where b': "ring_write ?b ?n xs = Some b'" "ring_ok b'"
      "ring b' = ring ?b @ take ?n xs" "bb_size b' = bb_size ?b" by blast
    note k = ring_write_keeps [OF b'(1)]
    have m: "(if bb_size ?b - bb_len ?b < length xs then bb_size ?b - bb_len ?b else length xs) = ?n" by auto
    have "bio_write i (Some xs) (int (length xs)) h = Some (int ?n, upd_pair i (\<lambda>_. b') ?h)"
      unfolding bio_write_def Let_def size_t_of_int [OF l(1)] p m option.sel b'(1) using e(1) l(2) False by simp
    moreover have "connected (upd_pair i (\<lambda>_. b') ?h) i j"
      using c' k b'(2) c ne by (auto simp: connected_def end_ok_def)
    ultimately show ?thesis unfolding r using ne b'(3) k by (auto simp: queued_def)
  qed
qed

text \<open>The result of \<open>BIO_read\<close> for \<open>n\<close> bytes, from the peer's buffer \<open>b\<close>.\<close>

definition read_result :: "bio_bio_st \<Rightarrow> nat \<Rightarrow> int" where
  "read_result b n =
     (if n = 0 then 0 else if bb_len b = 0 then (if bb_closed b then 0 else -1) else int (min n (bb_len b)))"

lemma bio_read_connected:
  assumes c: "connected h i j" and l: "n \<le> BIO_INT_MAX" "n \<noteq> 0"
  shows "\<exists>h'. bio_read i True (int n) h =
      Some (read_result (pair_at h j) n, take (nat (read_result (pair_at h j) n)) (queued h j), h') \<and> connected h' i j \<and>
    queued h' i = queued h i \<and> queued h' j = drop (nat (read_result (pair_at h j) n)) (queued h j) \<and>
    (\<forall>k. bb_closed (pair_at h' k) = bb_closed (pair_at h k))"
proof -
  let ?h = "upd_pair j (\<lambda>b. b\<lparr>bb_request := 0\<rparr>) (upd_bio i BIO_clear_retry_flags h)"
  let ?b = "(pair_at h j)\<lparr>bb_request := 0\<rparr>"
  have ne: "i \<noteq> j" and e: "bio_init (bio_at h i)" "ring_ok (pair_at h j)" "the (bb_peer (pair_at h i)) = j"
    using c by (auto simp: connected_def end_ok_def)
  have p: "pair_at ?h j = ?b" by simp
  have c': "connected ?h i j" "queued ?h i = queued h i" "queued ?h j = queued h j"
    using c by (auto simp: connected_def end_ok_def queued_def)
  show ?thesis
  proof (cases "bb_len (pair_at h j) = 0")
    case True
    let ?h' = "upd_pair j (\<lambda>b. b\<lparr>bb_request := (if n \<le> bb_size b then n else bb_size b)\<rparr>) (upd_bio i BIO_set_retry_read ?h)"
    have "connected ?h' i j" "queued ?h' k = queued ?h k" "bb_closed (pair_at ?h' k) = bb_closed (pair_at h k)" for k
      using c'(1) by (auto simp: connected_def end_ok_def queued_def)
    moreover have "queued h j = []" using True by (simp add: queued_def ring_def)
    moreover have "bio_read i True (int n) h =
        (if bb_closed (pair_at h j) then Some (0, [], ?h) else Some (-1, [], ?h'))"
      unfolding bio_read_def Let_def size_t_of_int [OF l(1)] using True e l ne by simp
    ultimately show ?thesis using True l c' by (simp add: read_result_def)
  next
    case False
    let ?n = "min n (bb_len (pair_at h j))"
    have r: "read_result (pair_at h j) n = int ?n" using False l(2) by (simp add: read_result_def)
    have "ring_ok ?b" "0 < ?n" "?n \<le> bb_len ?b" using False l(2) e(2) by auto
    from ring_read_ok [OF this, of "[]"] obtain b' where b': "ring_read ?b ?n [] = Some (b', take ?n (ring ?b))" "ring_ok b'"
      "ring b' = drop ?n (ring ?b)" "bb_size b' = bb_size ?b" by auto
    note k = ring_read_keeps [OF b'(1)]
    have m: "(if bb_len ?b < n then bb_len ?b else n) = ?n" by auto
    have j: "the (bb_peer (pair_at (upd_bio i BIO_clear_retry_flags h) i)) = j" using e(3) by simp
    have "bio_read i True (int n) h = Some (int ?n, take ?n (ring ?b), upd_pair j (\<lambda>_. b') ?h)"
      unfolding bio_read_def Let_def size_t_of_int [OF l(1)] j p m b'(1) using e l(2) False ne by simp
    moreover have "connected (upd_pair j (\<lambda>_. b') ?h) i j"
      using c' k b'(2) c ne by (auto simp: connected_def end_ok_def)
    ultimately show ?thesis unfolding r using ne b'(3) k by (auto simp: queued_def)
  qed
qed

lemma connected_counters [simp]:
  "connected (upd_bio k (\<lambda>b. b\<lparr>bio_num_read := f b\<rparr>) h) i j = connected h i j"
  "connected (upd_bio k (\<lambda>b. b\<lparr>bio_num_write := f b\<rparr>) h) i j = connected h i j" if "h k \<noteq> None"
  using that by (auto simp: connected_def end_ok_def)

lemma queued_counters [simp]:
  "queued (upd_bio k (\<lambda>b. b\<lparr>bio_num_read := f b\<rparr>) h) i = queued h i"
  "queued (upd_bio k (\<lambda>b. b\<lparr>bio_num_write := f b\<rparr>) h) i = queued h i"
  by (simp_all add: queued_def)

lemma connected_alive: "connected h i j \<Longrightarrow> h i \<noteq> None" "connected h i j \<Longrightarrow> bio_init (bio_at h i)"
  by (simp_all add: connected_def end_ok_def)

lemma BIO_write_connected:
  assumes "connected h i j" "length xs \<le> BIO_INT_MAX"
  shows "\<exists>h'. BIO_write (Some i) (Some xs) (int (length xs)) h = Some (write_result (pair_at h i) xs, h') \<and>
    connected h' i j \<and> queued h' j = queued h j \<and>
    queued h' i = queued h i @ take (nat (write_result (pair_at h i) xs)) xs \<and>
    (\<forall>k. bb_closed (pair_at h' k) = bb_closed (pair_at h k))"
proof (cases "xs = []")
  case True
  then show ?thesis using assms connected_alive [OF assms(1)] by (simp add: BIO_write_def write_result_def)
next
  case False
  from bio_write_connected [OF assms False] obtain h' where
    "bio_write i (Some xs) (int (length xs)) h = Some (write_result (pair_at h i) xs, h')" "connected h' i j"
    "queued h' j = queued h j" "queued h' i = queued h i @ take (nat (write_result (pair_at h i) xs)) xs"
    "\<forall>k. bb_closed (pair_at h' k) = bb_closed (pair_at h k)" by blast
  then show ?thesis using False connected_alive [OF assms(1)] connected_alive [of h' i j]
    by (auto simp: BIO_write_def)
qed

lemma BIO_read_connected:
  assumes "connected h i j" "n \<le> BIO_INT_MAX"
  shows "\<exists>h'. BIO_read (Some i) True (int n) h =
      Some (read_result (pair_at h j) n, take (nat (read_result (pair_at h j) n)) (queued h j), h') \<and>
    connected h' i j \<and> queued h' i = queued h i \<and>
    queued h' j = drop (nat (read_result (pair_at h j) n)) (queued h j) \<and>
    (\<forall>k. bb_closed (pair_at h' k) = bb_closed (pair_at h k))"
proof (cases "n = 0")
  case True
  then show ?thesis using assms connected_alive [OF assms(1)] by (simp add: BIO_read_def read_result_def)
next
  case False
  from bio_read_connected [OF assms False] obtain h' where
    "bio_read i True (int n) h = Some (read_result (pair_at h j) n, take (nat (read_result (pair_at h j) n)) (queued h j), h')"
    "connected h' i j" "queued h' i = queued h i" "queued h' j = drop (nat (read_result (pair_at h j) n)) (queued h j)"
    "\<forall>k. bb_closed (pair_at h' k) = bb_closed (pair_at h k)" by blast
  then show ?thesis using False connected_alive [OF assms(1)] connected_alive [of h' i j]
    by (auto simp: BIO_read_def)
qed

lemma BIO_shutdown_connected:
  assumes "connected h i j"
  shows "h k \<noteq> None \<Longrightarrow> connected (snd (BIO_shutdown_wr (Some k) h)) i j"
    and "queued (snd (BIO_shutdown_wr (Some k) h)) m = queued h m"
  using assms by (auto simp: BIO_shutdown_wr_def BIO_ctrl_def connected_def end_ok_def queued_def)

section \<open>A session\<close>

text \<open>
  Two programs at the two ends of a pair, in any interleaving. \<open>ins d\<close> collects what \<open>BIO_write\<close>
  accepted at end \<open>d\<close>, \<open>outs d\<close> what \<open>BIO_read\<close> delivered at end \<open>d\<close>.
\<close>

datatype pair_op = WriteTo bool "u8 list" | ReadFrom bool nat | ShutdownWr bool

fun op_size :: "pair_op \<Rightarrow> nat" where
  "op_size (WriteTo d xs) = length xs"
| "op_size (ReadFrom d n) = n"
| "op_size (ShutdownWr d) = 0"

type_synonym session = "bios \<times> (bool \<Rightarrow> u8 list) \<times> (bool \<Rightarrow> u8 list)"

fun session_step :: "(bool \<Rightarrow> nat) \<Rightarrow> pair_op \<Rightarrow> session \<Rightarrow> session option" where
  "session_step addr (WriteTo d xs) (h, ins, outs) =
     (case BIO_write (Some (addr d)) (Some xs) (int (length xs)) h of
        None \<Rightarrow> None
      | Some (r, h) \<Rightarrow> Some (h, ins(d := ins d @ take (nat r) xs), outs))"
| "session_step addr (ReadFrom d n) (h, ins, outs) =
     (case BIO_read (Some (addr d)) True (int n) h of
        None \<Rightarrow> None
      | Some (r, xs, h) \<Rightarrow> Some (h, ins, outs(d := outs d @ xs)))"
| "session_step addr (ShutdownWr d) (h, ins, outs) = Some (snd (BIO_shutdown_wr (Some (addr d)) h), ins, outs)"

fun session_run :: "(bool \<Rightarrow> nat) \<Rightarrow> pair_op list \<Rightarrow> session \<Rightarrow> session option" where
  "session_run addr [] s = Some s"
| "session_run addr (opn # ops) s = (case session_step addr opn s of None \<Rightarrow> None | Some s \<Rightarrow> session_run addr ops s)"

definition session_ok :: "(bool \<Rightarrow> nat) \<Rightarrow> session \<Rightarrow> bool" where
  "session_ok addr s = (case s of (h, ins, outs) \<Rightarrow>
     connected h (addr True) (addr False) \<and> (\<forall>d. ins d = outs (\<not> d) @ queued h (addr d)))"

lemma session_step_ok:
  assumes "session_ok addr s" "op_size opn \<le> BIO_INT_MAX"
  shows "\<exists>s'. session_step addr opn s = Some s' \<and> session_ok addr s'"
proof -
  obtain h ins outs where s: "s = (h, ins, outs)" by (cases s)
  have c: "connected h (addr d) (addr (\<not> d))" for d
    using assms(1) connected_sym by (cases d) (auto simp: session_ok_def s)
  have q: "ins d = outs (\<not> d) @ queued h (addr d)" for d using assms(1) by (simp add: session_ok_def s)
  have keep: "session_ok addr (h', ins', outs')"
    if "connected h' (addr d) (addr (\<not> d))" "ins' d = outs' (\<not> d) @ queued h' (addr d)"
      "ins' (\<not> d) = outs' d @ queued h' (addr (\<not> d))" for h' ins' outs' d
    using that connected_sym by (cases d) (auto simp: session_ok_def all_bool_eq)
  show ?thesis
  proof (cases opn)
    case (WriteTo d xs)
    then show ?thesis using BIO_write_connected [OF c [of d], of xs] assms(2) q [of d] q [of "\<not> d"] keep [of _ d] s
      by fastforce
  next
    case (ReadFrom d n)
    then show ?thesis using BIO_read_connected [OF c [of d], of n] assms(2) q [of d] q [of "\<not> d"] keep [of _ d] s
      by fastforce
  next
    case (ShutdownWr d)
    then show ?thesis using BIO_shutdown_connected [OF c [of d], of "addr d"] connected_alive(1) [OF c [of d]]
        q [of d] q [of "\<not> d"] keep [of _ d] s by fastforce
  qed
qed

lemma session_run_ok:
  "session_ok addr s \<Longrightarrow> \<forall>opn \<in> set ops. op_size opn \<le> BIO_INT_MAX \<Longrightarrow>
    \<exists>s'. session_run addr ops s = Some s' \<and> session_ok addr s'"
proof (induction ops arbitrary: s)
  case (Cons opn ops)
  then obtain s1 where "session_step addr opn s = Some s1" "session_ok addr s1"
    using session_step_ok [of addr s opn] by auto
  then show ?case using Cons by simp
qed simp

section \<open>A new pair\<close>

definition fresh_pair_st :: "(nat \<Rightarrow> u8) \<Rightarrow> nat \<Rightarrow> nat \<Rightarrow> bio_bio_st" where
  "fresh_pair_st junk len j =
     (let n = (if len \<noteq> 0 then len else 17 * 1024)
      in \<lparr>bb_peer = Some j, bb_closed = False, bb_len = 0, bb_offset = 0, bb_size = n,
         bb_buf = Some (map junk [0..<n]), bb_request = 0\<rparr>)"

lemma fresh_pair_ok: "len < 2 ^ 62 \<Longrightarrow> ring_ok (fresh_pair_st junk len j)" "ring (fresh_pair_st junk len j) = []"
  by (simp_all add: fresh_pair_st_def ring_ok_def ring_def Let_def)

lemma BIO_new_bio_pair_ok:
  assumes "\<forall>n. malloc_ok n" "a1 \<noteq> a2" "len1 < 2 ^ 62" "len2 < 2 ^ 62"
  shows "\<exists>h'. BIO_new_bio_pair malloc_ok junk a1 a2 len1 len2 h = Some (Some (a1, a2), h') \<and> connected h' a1 a2 \<and>
    pair_at h' a1 = fresh_pair_st junk len1 a2 \<and> pair_at h' a2 = fresh_pair_st junk len2 a1"
proof -
  have "\<exists>h'. BIO_new_bio_pair malloc_ok junk a1 a2 len1 len2 h = Some (Some (a1, a2), h') \<and>
      pair_at h' a1 = fresh_pair_st junk len1 a2 \<and> pair_at h' a2 = fresh_pair_st junk len2 a1 \<and>
      h' a1 \<noteq> None \<and> h' a2 \<noteq> None \<and> bio_init (bio_at h' a1) \<and> bio_init (bio_at h' a2) \<and>
      bio_ptr (bio_at h' a1) \<noteq> None \<and> bio_ptr (bio_at h' a2) \<noteq> None"
    using assms(1,2)
    by (simp add: BIO_new_bio_pair_def BIO_new_def bio_new_def bio_make_pair_def alloc_write_buf_def
        fresh_pair_st_def Let_def pair_at_def bio_at_def upd_pair_def upd_bio_def)
  then obtain h' where h': "BIO_new_bio_pair malloc_ok junk a1 a2 len1 len2 h = Some (Some (a1, a2), h')"
      "pair_at h' a1 = fresh_pair_st junk len1 a2" "pair_at h' a2 = fresh_pair_st junk len2 a1"
      "h' a1 \<noteq> None" "h' a2 \<noteq> None" "bio_init (bio_at h' a1)" "bio_init (bio_at h' a2)"
      "bio_ptr (bio_at h' a1) \<noteq> None" "bio_ptr (bio_at h' a2) \<noteq> None" by blast
  moreover have "bb_peer (fresh_pair_st junk len j) = Some j" for len j by (simp add: fresh_pair_st_def Let_def)
  ultimately have "connected h' a1 a2" using assms fresh_pair_ok by (simp add: connected_def end_ok_def)
  then show ?thesis using h' by blast
qed

section \<open>Properties\<close>

text \<open>
  C21. A BIO pair transports bytes faithfully in both directions: after \<open>BIO_new_bio_pair\<close>, whatever
  writes, reads and shutdowns the two ends perform in any order, no call hangs, and what one end has
  delivered is a prefix of what the other end has accepted; the rest is exactly what still waits in
  the ring buffer.
\<close>

theorem bio_pair_session:
  assumes "\<forall>n. malloc_ok n" "a1 \<noteq> a2" "len1 < 2 ^ 62" "len2 < 2 ^ 62"
    "\<forall>opn \<in> set ops. op_size opn \<le> BIO_INT_MAX"
  shows "\<exists>h h' ins outs. BIO_new_bio_pair malloc_ok junk a1 a2 len1 len2 h0 = Some (Some (a1, a2), h) \<and>
    session_run (\<lambda>d. if d then a1 else a2) ops (h, \<lambda>_. [], \<lambda>_. []) = Some (h', ins, outs) \<and>
    ins True = outs False @ ring (pair_at h' a1) \<and> ins False = outs True @ ring (pair_at h' a2)"
proof -
  from BIO_new_bio_pair_ok [OF assms(1-4), of junk h0] obtain h where h:
    "BIO_new_bio_pair malloc_ok junk a1 a2 len1 len2 h0 = Some (Some (a1, a2), h)" "connected h a1 a2"
    "ring (pair_at h a1) = []" "ring (pair_at h a2) = []"
    using fresh_pair_ok by auto
  have "session_ok (\<lambda>d. if d then a1 else a2) (h, \<lambda>_. [], \<lambda>_. [])"
    using h by (simp add: session_ok_def queued_def)
  from session_run_ok [OF this assms(5)] obtain h' ins outs where
    "session_run (\<lambda>d. if d then a1 else a2) ops (h, \<lambda>_. [], \<lambda>_. []) = Some (h', ins, outs)"
    "session_ok (\<lambda>d. if d then a1 else a2) (h', ins, outs)" by auto
  then show ?thesis using h(1) by (fastforce simp: session_ok_def queued_def)
qed

theorem bio_pair_session_witness:
  "\<exists>h h' ins outs. BIO_new_bio_pair (\<lambda>_. True) (\<lambda>_. 0) 1 2 4 0 (\<lambda>_. None) = Some (Some (1, 2), h) \<and>
    session_run (\<lambda>d. if d then 1 else 2) [WriteTo True [5, 6, 7], ReadFrom False 2, WriteTo True [8, 9, 10, 11], ReadFrom False 9]
      (h, \<lambda>_. [], \<lambda>_. []) = Some (h', ins, outs) \<and>
    ins True = outs False @ ring (pair_at h' 1) \<and> ins False = outs True @ ring (pair_at h' 2)"
  by (rule bio_pair_session) (simp_all add: BIO_INT_MAX_def)

text \<open>
  C22. The write guarantee holds: a write of at most as many bytes as
  \<open>BIO_ctrl_get_write_guarantee\<close> returns is accepted completely.
\<close>

theorem bio_pair_write_guarantee:
  assumes "connected h i j" "fst (BIO_ctrl_get_write_guarantee (Some i) h) = g"
    "int (length xs) \<le> g" "length xs \<le> BIO_INT_MAX"
  shows "\<exists>h'. BIO_write (Some i) (Some xs) (int (length xs)) h = Some (int (length xs), h') \<and>
    queued h' i = queued h i @ xs"
proof -
  let ?b = "pair_at h i"
  have b: "ring_ok ?b" "bb_peer ?b \<noteq> None" using assms(1) by (auto simp: connected_def end_ok_def)
  then have le: "bb_len ?b \<le> bb_size ?b" "bb_size ?b < 2 ^ 62" by (auto elim: ring_okE)
  have d: "(of_nat (bb_size ?b) - of_nat (bb_len ?b) :: u64) = of_nat (bb_size ?b - bb_len ?b)"
    using le by (simp add: of_nat_diff)
  have n: "sint (of_nat n :: u64) = int n" if "n < 2 ^ 62" for n
    using that by (simp add: signed_of_nat signed_take_bit_int_eq_self)
  have "bb_size ?b - bb_len ?b < 2 ^ 62" using le by simp
  then have "sint (of_nat (bb_size ?b) - of_nat (bb_len ?b) :: u64) = int (bb_size ?b - bb_len ?b)"
    unfolding d by (rule n)
  then have g: "g = (if bb_closed ?b then 0 else int (bb_size ?b - bb_len ?b))"
    using assms(2) b by (auto simp: BIO_ctrl_get_write_guarantee_def BIO_ctrl_def)
  have "write_result ?b xs = int (length xs)"
    using g assms(3) le by (auto simp: write_result_def split: if_splits)
  then show ?thesis using BIO_write_connected [OF assms(1,4)] by auto
qed

lemma connected_example:
  "\<exists>h. connected h 3 2 \<and> pair_at h 3 = fresh_pair_st (\<lambda>_. 0) 4 2 \<and> pair_at h 2 = fresh_pair_st (\<lambda>_. 0) 4 3"
  using BIO_new_bio_pair_ok [of "\<lambda>_. True" 3 2 4 4 "\<lambda>_. 0" "\<lambda>_. None"] by auto

theorem bio_pair_write_guarantee_witness:
  "\<exists>h h'. fst (BIO_ctrl_get_write_guarantee (Some 3) h) = 4 \<and>
    BIO_write (Some 3) (Some [1, 2, 3, 4]) 4 h = Some (4, h') \<and> queued h' 3 = [1, 2, 3, 4]"
proof -
  obtain h where h: "connected h 3 2" "pair_at h 3 = fresh_pair_st (\<lambda>_. 0) 4 2" using connected_example by blast
  have g: "fst (BIO_ctrl_get_write_guarantee (Some 3) h) = 4"
    by (simp add: BIO_ctrl_get_write_guarantee_def BIO_ctrl_def h fresh_pair_st_def)
  show ?thesis
    using bio_pair_write_guarantee [OF h(1) g, of "[1, 2, 3, 4]"] g h(2) fresh_pair_ok
    by (auto simp: BIO_INT_MAX_def queued_def)
qed

text \<open>What \<open>BIO_read\<close> leaves for the caller and for the writer: the retry flags of the BIO and the request to its peer.\<close>

lemma retry_flags:
  "BIO_get_retry_flags (BIO_clear_retry_flags b) = 0"
  "BIO_get_retry_flags (BIO_set_retry_read (BIO_clear_retry_flags b)) = BIO_FLAGS_READ OR BIO_FLAGS_SHOULD_RETRY"
  "BIO_get_retry_flags (b\<lparr>bio_ptr := p\<rparr>) = BIO_get_retry_flags b"
  "BIO_get_retry_flags (b\<lparr>bio_num_read := m\<rparr>) = BIO_get_retry_flags b"
proof -
  have s: "BIO_FLAGS_READ OR BIO_FLAGS_SHOULD_RETRY = (BIO_FLAGS_READ OR BIO_FLAGS_SHOULD_RETRY) AND kRetryFlags"
    by (simp add: kRetryFlags_def BIO_FLAGS_RWS_def BIO_FLAGS_READ_def BIO_FLAGS_WRITE_def BIO_FLAGS_IO_SPECIAL_def BIO_FLAGS_SHOULD_RETRY_def)
  show "BIO_get_retry_flags (BIO_clear_retry_flags b) = 0"
    by (simp add: BIO_get_retry_flags_def BIO_clear_retry_flags_def and.assoc)
  then show "BIO_get_retry_flags (BIO_set_retry_read (BIO_clear_retry_flags b)) = BIO_FLAGS_READ OR BIO_FLAGS_SHOULD_RETRY"
    using s by (simp add: BIO_get_retry_flags_def BIO_set_retry_read_def bit.conj_disj_distrib2)
qed (simp_all add: BIO_get_retry_flags_def)

definition read_marks :: "bios \<Rightarrow> nat \<Rightarrow> nat \<Rightarrow> u32 \<times> nat" where
  "read_marks h i j = (BIO_get_retry_flags (bio_at h i), bb_request (pair_at h j))"

lemma bio_read_marks:
  assumes c: "connected h i j" and l: "n \<le> BIO_INT_MAX" "n \<noteq> 0" and r: "bio_read i True (int n) h = Some (r, out, h')"
  shows "read_marks h' i j =
    (if r < 0 then (BIO_FLAGS_READ OR BIO_FLAGS_SHOULD_RETRY, min n (bb_size (pair_at h j))) else (0, 0))"
proof -
  let ?h = "upd_pair j (\<lambda>b. b\<lparr>bb_request := 0\<rparr>) (upd_bio i BIO_clear_retry_flags h)"
  have e: "i \<noteq> j" "bio_init (bio_at h i)" "the (bb_peer (pair_at (upd_bio i BIO_clear_retry_flags h) i)) = j"
    using c by (auto simp: connected_def end_ok_def)
  note b = r [unfolded bio_read_def Let_def size_t_of_int [OF l(1)] e(3)]
  consider "bb_len (pair_at ?h j) = 0" "bb_closed (pair_at ?h j)" "r = 0" "h' = ?h"
    | "bb_len (pair_at ?h j) = 0" "r = - 1"
        "h' = upd_pair j (\<lambda>b. b\<lparr>bb_request := (if n \<le> bb_size b then n else bb_size b)\<rparr>) (upd_bio i BIO_set_retry_read ?h)"
    | m b' where "ring_read (pair_at ?h j) m [] = Some (b', out)" "r = int m" "h' = upd_pair j (\<lambda>_. b') ?h"
    using b l(2) e(1,2) by (auto split: if_splits option.splits)
  then show ?thesis
  proof cases
    case 1
    then show ?thesis using e(1) by (simp add: read_marks_def retry_flags)
  next
    case 2
    then show ?thesis using e(1) by (simp add: read_marks_def retry_flags min_def)
  next
    case 3
    then show ?thesis using e(1) ring_read_keeps [OF 3(1)] by (simp add: read_marks_def retry_flags)
  qed
qed

lemma BIO_read_marks:
  assumes "connected h i j" "n \<le> BIO_INT_MAX" "n \<noteq> 0" "BIO_read (Some i) True (int n) h = Some (r, out, h')"
  shows "read_marks h' i j =
    (if r < 0 then (BIO_FLAGS_READ OR BIO_FLAGS_SHOULD_RETRY, min n (bb_size (pair_at h j))) else (0, 0))"
proof -
  obtain h0 where b: "bio_read i True (int n) h = Some (r, out, h0)"
    "h' = (if r > 0 then upd_bio i (\<lambda>b. b\<lparr>bio_num_read := (bio_num_read b + nat r) mod 2 ^ 64\<rparr>) h0 else h0)"
    using assms(3,4) connected_alive [OF assms(1)] by (auto simp: BIO_read_def split: Option.bind_splits)
  have "read_marks h' i j = read_marks h0 i j"
    by (simp add: b(2) read_marks_def retry_flags pair_at_upd_bio)
  then show ?thesis using bio_read_marks [OF assms(1-3) b(1)] by simp
qed

text \<open>
  C23. \<open>BIO_read\<close> of \<open>n > 0\<close> bytes tells the three situations apart. If there are bytes it takes the first \<open>n\<close> of them
  from the queue; if there are none and the peer has shut down its side it returns zero; both leave no retry flag
  and no request. If there are none yet it returns \<open>-1\<close> with the flags for a read to be retried, and the peer sees a
  request for the \<open>n\<close> bytes, or for as many as fit into its buffer. The pair stays connected.
\<close>

theorem bio_pair_read_results:
  assumes "connected h i j" "0 < n" "n \<le> BIO_INT_MAX"
  shows "\<exists>r out h'. BIO_read (Some i) True (int n) h = Some (r, out, h') \<and> connected h' i j \<and> queued h' i = queued h i \<and>
    (if queued h j \<noteq> [] then
       out = take n (queued h j) \<and> r = int (length out) \<and> 0 < r \<and> queued h' j = drop n (queued h j) \<and>
       BIO_get_retry_flags (bio_at h' i) = 0 \<and> bb_request (pair_at h' j) = 0
     else if bb_closed (pair_at h j) then
       out = [] \<and> r = 0 \<and> queued h' j = [] \<and> BIO_get_retry_flags (bio_at h' i) = 0 \<and> bb_request (pair_at h' j) = 0
     else
       out = [] \<and> r = - 1 \<and> queued h' j = [] \<and> BIO_get_retry_flags (bio_at h' i) = (BIO_FLAGS_READ OR BIO_FLAGS_SHOULD_RETRY) \<and>
       bb_request (pair_at h' j) = min n (bb_size (pair_at h j)))"
proof -
  let ?r = "read_result (pair_at h j) n"
  obtain h' where h': "BIO_read (Some i) True (int n) h = Some (?r, take (nat ?r) (queued h j), h')" "connected h' i j"
    "queued h' i = queued h i" "queued h' j = drop (nat ?r) (queued h j)"
    using BIO_read_connected [OF assms(1,3)] by blast
  note marks = BIO_read_marks [OF assms(1,3) _ h'(1), unfolded read_marks_def]
  have l: "length (queued h j) = bb_len (pair_at h j)" by (simp add: queued_def)
  show ?thesis
  proof (cases "queued h j = []")
    case True
    then show ?thesis using h' marks l assms(2) by (auto simp: read_result_def)
  next
    case False
    then have "0 < bb_len (pair_at h j)" using l by (metis length_greater_0_conv)
    then have "?r = int (min n (length (queued h j)))" "0 < ?r" using l assms(2) by (auto simp: read_result_def)
    then show ?thesis using h' marks False assms(2) by (auto simp: min_def)
  qed
qed

theorem bio_pair_read_results_witness:
  "\<exists>h out h'. connected h 3 2 \<and> BIO_read (Some 3) True 3 h = Some (-1, out, h') \<and> bb_request (pair_at h' 2) = 3 \<and>
     BIO_should_retry (bio_at h' 3) \<noteq> 0"
proof -
  obtain h where h: "connected h 3 2" "pair_at h 2 = fresh_pair_st (\<lambda>_. 0) 4 3" using connected_example by blast
  have e: "queued h 2 = []" "\<not> bb_closed (pair_at h 2)" "bb_size (pair_at h 2) = 4"
    using h(2) fresh_pair_ok(2) [of "\<lambda>_. 0" 4 3] by (simp_all only: queued_def) (simp_all add: fresh_pair_st_def)
  obtain out h' where r: "BIO_read (Some 3) True 3 h = Some (-1, out, h')" "bb_request (pair_at h' 2) = 3"
    "BIO_get_retry_flags (bio_at h' 3) = (BIO_FLAGS_READ OR BIO_FLAGS_SHOULD_RETRY)"
    using bio_pair_read_results [OF h(1), of 3] e by (auto simp: BIO_INT_MAX_def)
  have k: "kRetryFlags AND BIO_FLAGS_SHOULD_RETRY = BIO_FLAGS_SHOULD_RETRY"
    by (simp add: kRetryFlags_def BIO_FLAGS_RWS_def BIO_FLAGS_READ_def BIO_FLAGS_WRITE_def BIO_FLAGS_IO_SPECIAL_def BIO_FLAGS_SHOULD_RETRY_def)
  have "BIO_should_retry (bio_at h' 3) = BIO_get_retry_flags (bio_at h' 3) AND BIO_FLAGS_SHOULD_RETRY"
    by (simp add: BIO_should_retry_def BIO_test_flags_def BIO_get_retry_flags_def and.assoc k)
  also have "\<dots> \<noteq> 0" unfolding r(3) by (simp add: BIO_FLAGS_READ_def BIO_FLAGS_SHOULD_RETRY_def)
  finally show ?thesis using h(1) r(1,2) by blast
qed

text \<open>
  Freeing one end disconnects the other: a later \<open>BIO_read\<close> or \<open>BIO_write\<close> there reports that the
  BIO is not initialised, and touches nothing.
\<close>

theorem bio_pair_free_disconnects:
  assumes "connected h i j" "bio_references (bio_at h i) = 1" "bio_next (bio_at h i) = None"
  shows "\<exists>h'. BIO_free (Some i) h = Some (True, h') \<and> h' i = None \<and>
    BIO_read (Some j) has_buf n h' = Some (-2, [], h') \<and> BIO_write (Some j) inp n h' = Some (-2, h')"
proof -
  let ?h = "upd_bio i (\<lambda>b. b\<lparr>bio_next := None\<rparr>) (upd_bio i (\<lambda>b. b\<lparr>bio_references := 0\<rparr>) h)"
  have c: "i \<noteq> j" "bb_peer (pair_at h i) = Some j" "bio_ptr (bio_at h i) \<noteq> None"
    using assms(1) by (auto simp: connected_def end_ok_def)
  have p: "pair_at ?h i = pair_at h i" "bio_ptr (bio_at ?h i) = Some (pair_at h i)"
    using c(3) by (auto simp: pair_at_def)
  let ?h' = "(snd (bio_free (Some i) ?h))(i := None)"
  have "BIO_free (Some i) h = BIO_free None ?h'"
    using assms(2,3) by (subst BIO_free.simps)
      (simp add: CRYPTO_refcount_dec_and_test_zero_def BIO_pop_def split_beta)
  also have "\<dots> = Some (True, ?h')" by (subst BIO_free.simps) simp
  finally have f: "BIO_free (Some i) h = Some (True, ?h')" .
  have "\<not> bio_init (bio_at ?h' j)"
    using c p by (simp add: bio_free_def bio_destroy_pair_def Let_def bio_at_def [of "_(i := None)"])
      (simp add: bio_at_def [symmetric])
  then show ?thesis using f by (auto simp: BIO_read_def BIO_write_def)
qed

theorem bio_pair_free_disconnects_witness:
  "\<exists>h'. BIO_read (Some 2) True 7 h' = Some (-2, [], h') \<and> h' 3 = None"
proof -
  obtain h where h: "connected h 3 2" using connected_example by blast
  let ?h = "upd_bio 3 (\<lambda>b. b\<lparr>bio_references := 1, bio_next := None\<rparr>) h"
  have "pair_at ?h k = pair_at h k" for k by (rule pair_at_upd_bio) simp
  then have "connected ?h 3 2" using h by (auto simp: connected_def end_ok_def)
  from bio_pair_free_disconnects [OF this, of True 7 None] show ?thesis by auto
qed

end
