(* ===== verification/Hash_Common.thy ===== *)
theory Hash_Common
  imports Block_Stream
begin

text \<open>
  What the hash functions share: padding, the bit counter kept in two words, big- and little-endian
  words, the round functions with rotated register arguments, and the contract of a message schedule
  that is kept in a ring of sixteen words (locale \<open>ring_schedule\<close>).
\<close>

unbundle bit_operations_syntax

section \<open>Padding\<close>

text \<open>
  The message, the byte \<open>0x80\<close>, zeros, and a field of \<open>L\<close> bytes, together a multiple of \<open>B\<close> bytes.
\<close>

definition md_pad :: "nat \<Rightarrow> nat \<Rightarrow> u8 list \<Rightarrow> u8 list \<Rightarrow> u8 list" where
  "md_pad B L msg field =
     msg @ [0x80] @ replicate ((2 * B - 1 - L - length msg mod B) mod B) 0 @ field"

lemma length_leftover_mod: "0 < B \<Longrightarrow> length (leftover B xs) = length xs mod B"
proof (induction B xs rule: leftover.induct)
  case (1 B xs)
  then show ?case
    by (cases "length xs < B") (simp_all add: leftover_short leftover.simps [of B xs] le_mod_geq)
qed

lemma chunks_pad_two:
  assumes "length p + 1 + z = B" "z' + length field = B" "0 < B"
  shows "chunks B (p @ [0x80] @ replicate (z + z') 0 @ field) =
    [p @ [0x80] @ replicate z 0, replicate z' 0 @ field]"
proof -
  have "p @ [0x80] @ replicate (z + z') 0 @ field = (p @ [0x80] @ replicate z 0) @ (replicate z' 0 @ field) @ []"
    by (simp add: replicate_add)
  moreover have "length (p @ [0x80] @ replicate z 0) = B" "length (replicate z' 0 @ field) = B"
    using assms by simp_all
  ultimately show ?thesis using assms(3) chunks_short [of "[]" B] by (simp only: chunks_block) simp
qed

lemma chunks_pad_one:
  assumes "length p + 1 + z + length field = B" "0 < B"
  shows "chunks B (p @ [0x80] @ replicate z 0 @ field) = [p @ [0x80] @ replicate z 0 @ field]"
  using chunks_block [of B "p @ [0x80] @ replicate z 0 @ field" "[]"] assms chunks_short [of "[]" B] by simp

text \<open>The blocks of a padded message: the complete ones, then one or two with the padding.\<close>

lemma chunks_md_pad:
  fixes msg :: "u8 list"
  assumes "length field = L" "L < B"
  defines "p \<equiv> leftover B (msg :: u8 list)"
  shows "chunks B (md_pad B L msg field) = chunks B msg @
    (if length p + 1 > B - L
     then [p @ [0x80] @ replicate (B - length p - 1) 0, replicate (B - L) 0 @ field]
     else [p @ [0x80] @ replicate (B - L - length p - 1) 0 @ field])"
proof -
  have B: "0 < B" using assms(2) by simp
  have p: "length p < B" "length msg mod B = length p"
    using B length_leftover_mod [of B msg] length_leftover [of B msg] by (simp_all add: p_def)
  have split: "chunks B (md_pad B L msg field) = chunks B msg @
      chunks B (p @ [0x80] @ replicate ((2 * B - 1 - L - length p) mod B) 0 @ field)"
    unfolding md_pad_def p(2) by (simp only: p_def chunks_append [of B msg])
  show ?thesis
  proof (cases "length p + 1 > B - L")
    case True
    then have "(2 * B - 1 - L - length p) mod B = (B - length p - 1) + (B - L)"
      using p(1) assms(2) by (subst mod_less) auto
    then show ?thesis unfolding split
      using True p(1) assms(1,2) B chunks_pad_two [of p "B - length p - 1" B "B - L" field] by simp
  next
    case False
    then have "2 * B - 1 - L - length p = B + (B - L - length p - 1)" using assms(2) by simp
    moreover have "(B + (B - L - length p - 1)) mod B = B - L - length p - 1" using B by simp
    ultimately have "(2 * B - 1 - L - length p) mod B = B - L - length p - 1" by (simp only:)
    then show ?thesis unfolding split
      using False assms(1,2) B chunks_pad_one [of p "B - L - length p - 1" field B] by simp
  qed
qed

section \<open>The bit counter\<close>

text \<open>The value of a counter in two words.\<close>

definition count2 :: "'a::len word \<Rightarrow> 'a word \<Rightarrow> nat" where
  "count2 hi lo = unat hi * 2 ^ LENGTH('a) + unat lo"

lemma carry_nat:
  fixes x y w :: nat
  assumes "x < w" "y < w"
  shows "(x + y) mod w + (if (x + y) mod w < x then w else 0) = x + y"
proof (cases "x + y < w")
  case False
  then have "(x + y) mod w = x + y - w" using assms by (simp add: mod_if)
  then show ?thesis using False assms by simp
qed simp

lemma add_carry:
  "unat (a + b :: 'a::len word) + (if a + b < a then 2 ^ LENGTH('a) else 0) = unat a + unat b"
  using carry_nat [of "unat a" "2 ^ LENGTH('a)" "unat b"] by (simp only: word_less_nat_alt unat_word_ariths unat_less_exp)

lemma mod_double:
  fixes h w :: nat
  assumes "0 < w"
  shows "(h mod w) * w + l mod w = (h * w + l mod w) mod (w * w)"
proof -
  have "l mod w < w" using assms by simp
  moreover have "h mod w + 1 \<le> w" using assms by (simp add: Suc_le_eq)
  then have "(h mod w + 1) * w \<le> w * w" by (rule mult_le_mono1)
  ultimately have small: "(h mod w) * w + l mod w < w * w" by (simp add: algebra_simps)
  have "h * w + l mod w = (h div w) * (w * w) + ((h mod w) * w + l mod w)"
    by (subst div_mult_mod_eq [of h w, symmetric]) (simp only: distrib_right mult.assoc add.assoc)
  then show ?thesis using small by (simp only: mod_mult_self3 mod_less)
qed

text \<open>
  Adding \<open>8 len\<close> to the counter: the low word with carry, the high word from the upper bits.
\<close>

lemma count2_add:
  fixes lo hi :: "'a::len word"
  assumes "w = 2 ^ LENGTH('a)" "b mod w = unat lb" "b div w mod w = unat hb"
  shows "count2 ((if lo + lb < lo then hi + 1 else hi) + hb) (lo + lb) = (count2 hi lo + b) mod (w * w)"
proof -
  have w: "0 < w" using assms(1) by simp
  let ?c = "if lo + lb < lo then 1 else 0 :: nat"
  have hi: "unat ((if lo + lb < lo then hi + 1 else hi) + hb) = (unat hi + ?c + b div w) mod w"
  proof -
    have "(if lo + lb < lo then hi + 1 else hi) + hb = of_nat (unat hi + ?c + unat hb)" by simp
    then have "unat ((if lo + lb < lo then hi + 1 else hi) + hb) = (unat hi + ?c + unat hb) mod w"
      by (simp only: unat_of_nat assms(1))
    then show ?thesis by (simp only: assms(3) [symmetric] mod_add_right_eq)
  qed
  have lo: "unat (lo + lb) + ?c * w = unat lo + b mod w"
    using add_carry [of lo lb] assms(1,2) by auto
  have lt: "unat (lo + lb) mod w = unat (lo + lb)" using assms(1) by simp
  have "count2 ((if lo + lb < lo then hi + 1 else hi) + hb) (lo + lb)
      = (unat hi + ?c + b div w) mod w * w + unat (lo + lb) mod w"
    unfolding count2_def hi lt by (simp only: assms(1))
  also have "\<dots> = ((unat hi + ?c + b div w) * w + unat (lo + lb)) mod (w * w)"
    using mod_double [OF w, of _ "unat (lo + lb)"] by (simp only: lt)
  also have "(unat hi + ?c + b div w) * w + unat (lo + lb) = unat hi * w + (unat (lo + lb) + ?c * w) + b div w * w"
    by (simp only: distrib_right)
  also have "\<dots> = count2 hi lo + b"
    unfolding lo count2_def using div_mult_mod_eq [of b w] by (simp add: assms(1))
  finally show ?thesis .
qed

lemma count2_less: "count2 hi lo < 2 ^ LENGTH('a) * 2 ^ LENGTH('a)" for hi lo :: "'a::len word"
proof -
  have "(unat hi + 1) * 2 ^ LENGTH('a) \<le> 2 ^ LENGTH('a) * 2 ^ LENGTH('a)"
    by (rule mult_le_mono1) (simp add: Suc_le_eq)
  then have "unat hi * 2 ^ LENGTH('a) + 2 ^ LENGTH('a) \<le> 2 ^ LENGTH('a) * 2 ^ LENGTH('a)"
    by (simp only: distrib_right mult_1)
  then show ?thesis using unat_less_exp [of lo] unfolding count2_def by linarith
qed

section \<open>Words and bytes\<close>

primrec le_bytes :: "nat \<Rightarrow> nat \<Rightarrow> u8 list" where
  "le_bytes 0 v = []"
| "le_bytes (Suc n) v = of_nat v # le_bytes n (v div 256)"

lemma length_le_bytes [simp]: "length (le_bytes n v) = n"
  by (induction n arbitrary: v) auto

lemma le_bytes_rev: "le_bytes n v = rev (be_bytes n v)"
  by (induction n arbitrary: v) simp_all

lemma be_bytes_append: "be_bytes (m + n) v = be_bytes m (v div 256 ^ n) @ be_bytes n v"
proof (induction n arbitrary: v)
  case (Suc n)
  then show ?case by (simp add: div_mult2_eq)
qed simp

lemma be_bytes_wrap: "be_bytes n (v mod 256 ^ n) = be_bytes n v"
  using be_bytes_be_val [of "be_bytes n v"] by (simp add: be_val_be_bytes)

section \<open>Rotated arguments\<close>

text \<open>
  The unrolled rounds pass the same registers, rotated by one place each time: in call \<open>i\<close> of a
  round macro with \<open>m\<close> register arguments, argument \<open>r\<close> is register \<open>arg m i r\<close>.
\<close>

definition arg :: "nat \<Rightarrow> nat \<Rightarrow> nat \<Rightarrow> nat" where
  "arg m i r = (r + (m - 1) * (i mod m)) mod m"

definition args :: "nat \<Rightarrow> nat \<Rightarrow> 'a list \<Rightarrow> 'a list" where
  "args m i R = map (\<lambda>r. R ! arg m i r) [0..<m]"

lemma length_args [simp]: "length (args m i R) = m"
  by (simp add: args_def)

lemma args_nth: "r < m \<Longrightarrow> args m i R ! r = R ! arg m i r"
  by (simp add: args_def)

lemma arg_less: "0 < m \<Longrightarrow> arg m i r < m"
  by (simp add: arg_def)

lemma shift_inj:
  fixes r s c m :: nat
  assumes "r < m" "s < m" "(r + c) mod m = (s + c) mod m"
  shows "r = s"
proof -
  have "r = s" if "r \<le> s" "s < m" "(s + c) mod m = (r + c) mod m" for r s
  proof -
    have "m dvd s - r" using that mod_eq_dvd_iff_nat [of "r + c" "s + c" m] by simp
    moreover have "s - r < m" using that by simp
    ultimately show "r = s" using that(1) by (auto dest: dvd_imp_le)
  qed
  then show ?thesis using assms by (cases "r \<le> s") (metis nat_le_linear)+
qed

lemma arg_inj: "r < m \<Longrightarrow> s < m \<Longrightarrow> arg m i r = arg m i s \<longleftrightarrow> r = s"
  using shift_inj by (auto simp: arg_def)

lemma args_update:
  "length R = m \<Longrightarrow> s < m \<Longrightarrow> args m i (R[arg m i s := v]) = (args m i R)[s := v]"
  by (rule nth_equalityI) (auto simp: args_nth nth_list_update arg_inj arg_less)

lemma arg_mod: "arg m i r = (r + (m - 1) * i) mod m"
  unfolding arg_def by (subst (1 2) mod_add_right_eq [symmetric]) (simp only: mod_mult_right_eq)

lemma arg_Suc: "0 < m \<Longrightarrow> arg m (i + 1) (r + 1) = arg m i r"
  "0 < m \<Longrightarrow> arg m (i + 1) 0 = arg m i (m - 1)"
proof -
  assume m: "0 < m"
  then obtain m' where "m = Suc m'" by (cases m) auto
  then have "r + 1 + (m - 1) * (i + 1) = (r + (m - 1) * i) + m" by simp
  then show "arg m (i + 1) (r + 1) = arg m i r" unfolding arg_mod by (simp only: mod_add_self2)
  have "0 + (m - 1) * (i + 1) = m - 1 + (m - 1) * i" by simp
  then show "arg m (i + 1) 0 = arg m i (m - 1)" unfolding arg_mod by (simp only:)
qed

lemma args_Suc:
  assumes "0 < m"
  shows "args m (i + 1) R = last (args m i R) # butlast (args m i R)"
proof (rule nth_equalityI)
  fix k assume "k < length (args m (i + 1) R)"
  then have k: "k < m" by simp
  have ne: "args m i R \<noteq> []" using assms length_args [of m i R] by fastforce
  show "args m (i + 1) R ! k = (last (args m i R) # butlast (args m i R)) ! k"
  proof (cases k)
    case 0
    then show ?thesis using assms ne by (simp add: args_nth arg_Suc(2) [unfolded Suc_eq_plus1 [symmetric]] last_conv_nth)
  next
    case (Suc r)
    then have "args m (i + 1) R ! k = args m i R ! r"
      using k arg_Suc(1) [OF assms, of i r] by (simp add: args_nth)
    then show ?thesis using k Suc by (simp add: nth_butlast)
  qed
qed (use assms in simp)

lemma args_0: "length R = m \<Longrightarrow> args m 0 R = R"
  by (auto simp: args_def arg_def list_eq_iff_nth_eq)

lemma args_mult: "length R = m \<Longrightarrow> args m (m * k) R = R"
  by (auto simp: args_def arg_def list_eq_iff_nth_eq)

section \<open>Rotations\<close>

definition ROTATE :: "u32 \<Rightarrow> nat \<Rightarrow> u32" where
  "ROTATE a n = push_bit n a OR drop_bit (32 - n) a"

lemma rotl_eq:
  fixes a :: "'a::len word"
  assumes "0 < n" "n < LENGTH('a)"
  shows "push_bit n a OR drop_bit (LENGTH('a) - n) a = word_rotl n a"
proof (rule bit_word_eqI)
  fix k assume k: "k < LENGTH('a)"
  have big: "\<not> bit a j" if "LENGTH('a) \<le> j" for j using bit_imp_le_length [of a j] that by auto
  show "bit (push_bit n a OR drop_bit (LENGTH('a) - n) a) k = bit (word_rotl n a) k"
  proof (cases "k < n")
    case True
    then have "(k + (LENGTH('a) - n)) mod LENGTH('a) = LENGTH('a) - n + k" using assms by (subst mod_less) auto
    then show ?thesis using True k assms by (simp add: bit_simps)
  next
    case False
    then have "k + (LENGTH('a) - n) = (k - n) + LENGTH('a)" using assms by simp
    then have "(k + (LENGTH('a) - n)) mod LENGTH('a) = k - n" using k by (simp only: mod_add_self2) simp
    moreover have "\<not> bit a (LENGTH('a) - n + k)" using False assms by (intro big) simp
    ultimately show ?thesis using False k assms by (simp add: bit_simps)
  qed
qed

lemma rotr_eq:
  fixes a :: "'a::len word"
  assumes "0 < s" "s < LENGTH('a)"
  shows "drop_bit s a OR push_bit (LENGTH('a) - s) a = word_rotr s a"
proof -
  have "push_bit (LENGTH('a) - s) a OR drop_bit (LENGTH('a) - (LENGTH('a) - s)) a = word_rotl (LENGTH('a) - s) a"
    by (rule rotl_eq) (use assms in auto)
  moreover have "word_rotl (LENGTH('a) - s) a = word_rotr s a"
    using assms by (simp add: word_rotl_eq_word_rotr)
  ultimately show ?thesis using assms by (simp add: or.commute)
qed

lemma ROTATE_rotl: "0 < n \<Longrightarrow> n < 32 \<Longrightarrow> ROTATE a n = word_rotl n a"
  using rotl_eq [of n a] by (simp add: ROTATE_def)

lemma ROTATE_rotr: "0 < n \<Longrightarrow> n < 32 \<Longrightarrow> ROTATE a n = word_rotr (32 - n) a"
  by (simp add: ROTATE_rotl word_rotl_eq_word_rotr)

section \<open>Message schedules in a ring\<close>

locale ring_schedule =
  fixes W :: "nat \<Rightarrow> 'w" and nxt :: "(nat \<Rightarrow> 'w) \<Rightarrow> 'w"
  assumes W_rec: "16 \<le> i \<Longrightarrow> W i = nxt (\<lambda>k. W (i + k - 16))"
    and nxt_cong: "(\<And>k. k < 16 \<Longrightarrow> p k = q k) \<Longrightarrow> nxt p = nxt q"
begin

lemma ring_step:
  assumes "16 \<le> i" "length X = 16" "\<And>k. k < 16 \<Longrightarrow> X ! ((i + k) mod 16) = W (i + k - 16)"
  shows "nxt (\<lambda>k. X ! ((i + k) mod 16)) = W i"
    and "k < 16 \<Longrightarrow> X[i mod 16 := W i] ! ((i + 1 + k) mod 16) = W (i + 1 + k - 16)"
proof -
  show "nxt (\<lambda>k. X ! ((i + k) mod 16)) = W i"
    unfolding W_rec [OF assms(1)] by (rule nxt_cong) (rule assms(3))
  assume k: "k < 16"
  show "X[i mod 16 := W i] ! ((i + 1 + k) mod 16) = W (i + 1 + k - 16)"
  proof (cases "k = 15")
    case True
    then have "i + 1 + k = i + 16" by simp
    then show ?thesis using assms(2) by simp
  next
    case False
    then have "k + 1 < 16" using k by simp
    then have "\<not> 16 dvd k + 1" by (auto dest: dvd_imp_le)
    then have "(i + (k + 1)) mod 16 \<noteq> i mod 16" using mod_eq_dvd_iff_nat [of i "i + (k + 1)" 16] by simp
    then show ?thesis using assms(3) [of "k + 1"] k False by (simp add: add.assoc)
  qed
qed

end

end
