(* ===== verification/Md32.thy ===== *)
theory Md32
  imports Hash_Common
begin

text \<open>
  \<open>crypto/fipsmodule/digest/md32_common.h\<close>: the collector of the hash functions with 32-bit words and
  64-byte blocks. The macros become parameters: \<open>blk\<close> processes one block (\<open>HASH_BLOCK_DATA_ORDER\<close>
  is its iteration), \<open>len_field\<close> is the order in which the two words of the bit counter are written.
\<close>

unbundle bit_operations_syntax

section \<open>The code\<close>

record md32_ctx =
  md_h :: "u32 list"
  md_Nl :: u32
  md_Nh :: u32
  md_data :: "u8 list"
  md_num :: nat
  md_len :: nat

text \<open>\<open>HOST_c2l\<close> and \<open>HOST_l2c\<close>, for \<open>DATA_ORDER_IS_BIG_ENDIAN\<close> and for \<open>DATA_ORDER_IS_LITTLE_ENDIAN\<close>.\<close>

fun HOST_c2l_be :: "u8 list \<Rightarrow> u32" where
  "HOST_c2l_be (c0 # c1 # c2 # c3 # _) =
     push_bit 24 (ucast c0) OR push_bit 16 (ucast c1) OR push_bit 8 (ucast c2) OR ucast c3"
| "HOST_c2l_be _ = 0"

definition HOST_l2c_be :: "u32 \<Rightarrow> u8 list" where
  "HOST_l2c_be l =
     [ucast (drop_bit 24 l AND 0xff), ucast (drop_bit 16 l AND 0xff), ucast (drop_bit 8 l AND 0xff), ucast (l AND 0xff)]"

fun HOST_c2l_le :: "u8 list \<Rightarrow> u32" where
  "HOST_c2l_le (c0 # c1 # c2 # c3 # _) =
     ucast c0 OR push_bit 8 (ucast c1) OR push_bit 16 (ucast c2) OR push_bit 24 (ucast c3)"
| "HOST_c2l_le _ = 0"

definition HOST_l2c_le :: "u32 \<Rightarrow> u8 list" where
  "HOST_l2c_le l =
     [ucast (l AND 0xff), ucast (drop_bit 8 l AND 0xff), ucast (drop_bit 16 l AND 0xff), ucast (drop_bit 24 l AND 0xff)]"

text \<open>\<open>HASH_BLOCK_DATA_ORDER (h, data, num)\<close>.\<close>

fun block_data_order :: "('s \<Rightarrow> u8 list \<Rightarrow> 's) \<Rightarrow> nat \<Rightarrow> 's \<Rightarrow> u8 list \<Rightarrow> nat \<Rightarrow> 's" where
  "block_data_order blk B h data 0 = h"
| "block_data_order blk B h data (Suc n) = block_data_order blk B (blk h (take B data)) (drop B data) n"

text \<open>\<open>OPENSSL_memcpy (c->data + n, src, len)\<close>\<close>

definition put_at :: "nat \<Rightarrow> u8 list \<Rightarrow> u8 list \<Rightarrow> u8 list" where
  "put_at n src buf = take n buf @ src @ drop (n + length src) buf"

text \<open>\<open>HASH_UPDATE\<close>; the second definition is its last part.\<close>

definition hash_rest :: "(u32 list \<Rightarrow> u8 list \<Rightarrow> u32 list) \<Rightarrow> md32_ctx \<Rightarrow> u8 list \<Rightarrow> md32_ctx" where
  "hash_rest blk c data =
     (let n = length data div 64;
          c = (if n > 0 then c\<lparr>md_h := block_data_order blk 64 (md_h c) data n\<rparr> else c);
          data = (if n > 0 then drop (n * 64) data else data)
      in if length data \<noteq> 0 then c\<lparr>md_num := length data, md_data := put_at 0 data (md_data c)\<rparr> else c)"

definition HASH_UPDATE :: "(u32 list \<Rightarrow> u8 list \<Rightarrow> u32 list) \<Rightarrow> md32_ctx \<Rightarrow> u8 list \<Rightarrow> md32_ctx" where
  "HASH_UPDATE blk c data =
     (if length data = 0 then c
      else
        let l = md_Nl c + push_bit 3 (of_nat (length data));
            c = (if l < md_Nl c then c\<lparr>md_Nh := md_Nh c + 1\<rparr> else c);
            c = c\<lparr>md_Nh := md_Nh c + of_nat (length data div 2 ^ 29)\<rparr>;
            c = c\<lparr>md_Nl := l\<rparr>;
            n = md_num c
        in if n \<noteq> 0 then
             (if length data \<ge> 64 \<or> length data + n \<ge> 64 then
                hash_rest blk
                  (c\<lparr>md_h := block_data_order blk 64 (md_h c) (put_at n (take (64 - n) data) (md_data c)) 1,
                     md_num := 0, md_data := replicate 64 0\<rparr>)
                  (drop (64 - n) data)
              else c\<lparr>md_data := put_at n data (md_data c), md_num := n + length data\<rparr>)
           else hash_rest blk c data)"

definition HASH_TRANSFORM :: "(u32 list \<Rightarrow> u8 list \<Rightarrow> u32 list) \<Rightarrow> md32_ctx \<Rightarrow> u8 list \<Rightarrow> md32_ctx" where
  "HASH_TRANSFORM blk c data = c\<lparr>md_h := block_data_order blk 64 (md_h c) data 1\<rparr>"

text \<open>\<open>HASH_FINAL\<close> up to \<open>HASH_MAKE_STRING\<close>.\<close>

definition HASH_FINAL ::
  "(u32 list \<Rightarrow> u8 list \<Rightarrow> u32 list) \<Rightarrow> (u32 \<Rightarrow> u32 \<Rightarrow> u8 list) \<Rightarrow> md32_ctx \<Rightarrow> md32_ctx" where
  "HASH_FINAL blk len_field c =
     (let n = md_num c;
          data = (md_data c)[n := 0x80];
          n = n + 1;
          (h, data, n) =
            (if n > 64 - 8 then
               (let data = put_at n (replicate (64 - n) 0) data
                in (block_data_order blk 64 (md_h c) data 1, data, 0))
             else (md_h c, data, n));
          data = put_at n (replicate (64 - 8 - n) 0) data;
          data = put_at (64 - 8) (len_field (md_Nh c) (md_Nl c)) data
      in c\<lparr>md_h := block_data_order blk 64 h data 1, md_num := 0, md_data := replicate 64 0\<rparr>)"

definition len_field_be :: "u32 \<Rightarrow> u32 \<Rightarrow> u8 list" where
  "len_field_be Nh Nl = HOST_l2c_be Nh @ HOST_l2c_be Nl"

definition len_field_le :: "u32 \<Rightarrow> u32 \<Rightarrow> u8 list" where
  "len_field_le Nh Nl = HOST_l2c_le Nl @ HOST_l2c_le Nh"

text \<open>The sixteen words of a block, as a block function loads them.\<close>

definition be_words :: "u8 list \<Rightarrow> u32 list" where
  "be_words data = map (\<lambda>k. HOST_c2l_be (drop (4 * k) data)) [0..<16]"

definition le_words :: "u8 list \<Rightarrow> u32 list" where
  "le_words data = map (\<lambda>k. HOST_c2l_le (drop (4 * k) data)) [0..<16]"

lemma length_words [simp]: "length (be_words data) = 16" "length (le_words data) = 16"
  by (simp_all add: be_words_def le_words_def)

section \<open>Words and bytes\<close>

lemma unat_of_byte_of: "unat (ucast (drop_bit k l AND 0xff) :: u8) = unat (l :: u32) div 2 ^ k mod 256"
proof -
  have "(0xff :: u32) = mask 8" by (simp add: mask_eq_exp_minus_1)
  then have "drop_bit k l AND 0xff = take_bit 8 (drop_bit k l)" by (simp only: take_bit_eq_mask)
  then show ?thesis by (simp only: unat_ucast_mod unsigned_take_bit_eq unat_drop_bit_div) (simp add: take_bit_eq_mod)
qed

lemma byte_of: "(ucast (drop_bit k l AND 0xff) :: u8) = of_nat (unat (l :: u32) div 2 ^ k)"
  by (rule word_unat_eq_iff [THEN iffD2]) (simp add: unat_of_byte_of)

lemma be_bytes_4: "be_bytes 4 v = [of_nat (v div 2 ^ 24), of_nat (v div 2 ^ 16), of_nat (v div 2 ^ 8), of_nat v]"
proof -
  have four: "(4 :: nat) = Suc (Suc (Suc (Suc 0)))" by simp
  show ?thesis unfolding four be_bytes.simps by (simp add: div_mult2_eq [symmetric])
qed

lemmas byte_of_0 = byte_of [where k = 0, unfolded drop_bit_0 id_apply power_0 div_by_1]

lemma HOST_l2c_be_eq: "HOST_l2c_be l = be_bytes 4 (unat l)"
  by (simp only: HOST_l2c_be_def be_bytes_4 byte_of_0 unat_drop_bit_div)

lemma HOST_l2c_le_eq: "HOST_l2c_le l = le_bytes 4 (unat l)"
  by (simp only: HOST_l2c_le_def le_bytes_rev be_bytes_4 byte_of_0 unat_drop_bit_div) simp

lemma len_field_be_eq: "len_field_be Nh Nl = be_bytes 8 (count2 Nh Nl)"
proof -
  have "unat Nl < 2 ^ 32" using unat_less_exp [of Nl] by simp
  then have "count2 Nh Nl div 256 ^ 4 = unat Nh" "count2 Nh Nl mod 256 ^ 4 = unat Nl"
    by (simp_all add: count2_def)
  then show ?thesis
    using be_bytes_append [of 4 4 "count2 Nh Nl"] be_bytes_wrap [of 4 "count2 Nh Nl"]
    by (simp add: len_field_be_def HOST_l2c_be_eq)
qed

lemma len_field_le_eq: "len_field_le Nh Nl = le_bytes 8 (count2 Nh Nl)"
  using len_field_be_eq [of Nh Nl]
  by (simp add: len_field_le_def len_field_be_def HOST_l2c_le_eq HOST_l2c_be_eq le_bytes_rev flip: rev_append)

section \<open>Streaming\<close>

lemma block_data_order_chunks:
  "0 < B \<Longrightarrow> n \<le> length data div B \<Longrightarrow>
    block_data_order blk B h data n = fold (\<lambda>b h. blk h b) (chunks B (take (n * B) data)) h"
proof (induction n arbitrary: h data)
  case 0
  then show ?case by (simp add: chunks_short)
next
  case (Suc n)
  then have l: "Suc n * B \<le> length data" by (simp add: less_eq_div_iff_mult_less_eq)
  then have b: "length (take B data) = B" by simp
  have "take (Suc n * B) data = take B data @ take (n * B) (drop B data)" by (simp add: take_add)
  then have "chunks B (take (Suc n * B) data) = take B data # chunks B (take (n * B) (drop B data))"
    using chunks_block [OF Suc.prems(1) b] by simp
  moreover have "n \<le> length (drop B data) div B"
    using Suc.prems l by (simp add: less_eq_div_iff_mult_less_eq)
  ultimately show ?case using Suc by simp
qed

lemma chunks_take_div: "0 < B \<Longrightarrow> chunks B (take (length data div B * B) data) = chunks B data"
proof -
  assume B: "0 < B"
  let ?t = "take (length data div B * B) data" and ?d = "drop (length data div B * B) data"
  have "length data div B * B \<le> length data" by simp
  then have "leftover B ?t = []" using B by (intro leftover_dvd) simp_all
  moreover have "length ?d < B" using B by (simp add: minus_div_mult_eq_mod)
  ultimately show ?thesis using chunks_append [of B ?t ?d] by (simp add: chunks_short)
qed

lemma leftover_drop_div: "0 < B \<Longrightarrow> leftover B data = drop (length data div B * B) data"
proof -
  assume B: "0 < B"
  let ?t = "take (length data div B * B) data" and ?d = "drop (length data div B * B) data"
  have "length data div B * B \<le> length data" by simp
  then have "leftover B ?t = []" using B by (intro leftover_dvd) simp_all
  moreover have "length ?d < B" using B by (simp add: minus_div_mult_eq_mod)
  ultimately show ?thesis using leftover_append [of B ?t ?d] by (simp add: leftover_short)
qed

lemma blocks_all:
  "0 < B \<Longrightarrow> block_data_order blk B h data (length data div B) = fold (\<lambda>b h. blk h b) (chunks B data) h"
  by (simp add: block_data_order_chunks chunks_take_div)

lemma length_put_at: "n + length src \<le> length buf \<Longrightarrow> length (put_at n src buf) = length buf"
  by (simp add: put_at_def)

lemma take_put_at: "n \<le> length buf \<Longrightarrow> take (n + length src) (put_at n src buf) = take n buf @ src"
  by (simp add: put_at_def)

lemma put_at_full: "n + length src = length buf \<Longrightarrow> put_at n src buf = take n buf @ src"
  by (simp add: put_at_def)

definition md_ok :: "md32_ctx \<Rightarrow> bool" where
  "md_ok c \<longleftrightarrow> md_num c < 64 \<and> length (md_data c) = 64"

definition md_pending :: "md32_ctx \<Rightarrow> u8 list" where
  "md_pending c = take (md_num c) (md_data c)"

lemma length_md_pending: "md_ok c \<Longrightarrow> length (md_pending c) = md_num c"
  by (simp add: md_ok_def md_pending_def)

lemma hash_rest_ok:
  assumes "length (md_data c) = 64" "md_num c = 0"
  shows "md_ok (hash_rest blk c data)" "md_pending (hash_rest blk c data) = leftover 64 data"
    "md_h (hash_rest blk c data) = fold (\<lambda>b h. blk h b) (chunks 64 data) (md_h c)"
    "md_Nh (hash_rest blk c data) = md_Nh c" "md_Nl (hash_rest blk c data) = md_Nl c"
    "md_len (hash_rest blk c data) = md_len c"
proof -
  let ?rest = "drop (length data div 64 * 64) data"
  have l: "length ?rest < 64" by (simp add: minus_div_mult_eq_mod)
  have h: "(if length data div 64 > 0 then block_data_order blk 64 (md_h c) data (length data div 64) else md_h c)
      = fold (\<lambda>b h. blk h b) (chunks 64 data) (md_h c)"
    using blocks_all [of 64 blk "md_h c" data] by (simp add: chunks_short)
  have r: "hash_rest blk c data =
      (let c = c\<lparr>md_h := fold (\<lambda>b h. blk h b) (chunks 64 data) (md_h c)\<rparr>
       in if ?rest \<noteq> [] then c\<lparr>md_num := length ?rest, md_data := put_at 0 ?rest (md_data c)\<rparr> else c)"
    unfolding h [symmetric] hash_rest_def Let_def by auto
  have p: "length (put_at 0 ?rest (md_data c)) = 64" "take (length ?rest) (put_at 0 ?rest (md_data c)) = ?rest"
    using length_put_at [of 0 ?rest "md_data c"] take_put_at [of 0 "md_data c" ?rest] l assms(1) by simp_all
  show "md_ok (hash_rest blk c data)" "md_pending (hash_rest blk c data) = leftover 64 data"
    "md_h (hash_rest blk c data) = fold (\<lambda>b h. blk h b) (chunks 64 data) (md_h c)"
    "md_Nh (hash_rest blk c data) = md_Nh c" "md_Nl (hash_rest blk c data) = md_Nl c"
    "md_len (hash_rest blk c data) = md_len c"
    unfolding r using p assms l leftover_drop_div [of 64 data]
    by (simp_all add: md_ok_def md_pending_def Let_def del: length_drop)
qed

text \<open>\<open>HASH_UPDATE\<close> is a block stream, whatever the block function.\<close>

lemma HASH_UPDATE_ok:
  assumes "md_ok c"
  shows "md_ok (HASH_UPDATE blk c data)"
    "md_pending (HASH_UPDATE blk c data) = leftover 64 (md_pending c @ data)"
    "md_h (HASH_UPDATE blk c data) = fold (\<lambda>b h. blk h b) (chunks 64 (md_pending c @ data)) (md_h c)"
    "md_len (HASH_UPDATE blk c data) = md_len c"
proof -
  have ok: "md_num c < 64" "length (md_data c) = 64" using assms by (simp_all add: md_ok_def)
  have p: "length (md_pending c) = md_num c" using assms by (rule length_md_pending)
  let ?goal = "\<lambda>c'. md_ok c' \<and> md_pending c' = leftover 64 (md_pending c @ data) \<and>
    md_h c' = fold (\<lambda>b h. blk h b) (chunks 64 (md_pending c @ data)) (md_h c) \<and> md_len c' = md_len c"
  have "?goal (HASH_UPDATE blk c data)"
  proof (cases "length data = 0")
    case True
    then show ?thesis using assms p ok by (simp add: HASH_UPDATE_def leftover_short chunks_short)
  next
    case False
    let ?hi = "(if md_Nl c + push_bit 3 (of_nat (length data)) < md_Nl c then md_Nh c + 1 else md_Nh c)
        + of_nat (length data div 2 ^ 29)"
    let ?c = "c\<lparr>md_Nh := ?hi, md_Nl := md_Nl c + push_bit 3 (of_nat (length data))\<rparr>"
    have u: "HASH_UPDATE blk c data =
      (if md_num c \<noteq> 0 then
         (if length data \<ge> 64 \<or> length data + md_num c \<ge> 64 then
            hash_rest blk
              (?c\<lparr>md_h := block_data_order blk 64 (md_h c) (put_at (md_num c) (take (64 - md_num c) data) (md_data c)) 1,
                  md_num := 0, md_data := replicate 64 0\<rparr>)
              (drop (64 - md_num c) data)
          else ?c\<lparr>md_data := put_at (md_num c) data (md_data c), md_num := md_num c + length data\<rparr>)
       else hash_rest blk ?c data)"
      unfolding HASH_UPDATE_def if_not_P [OF False] Let_def by (auto simp del: push_bit_of_nat)
    show ?thesis
    proof (cases "md_num c = 0")
      case True
      then have "md_pending c = []" by (simp add: md_pending_def)
      then show ?thesis unfolding u using True hash_rest_ok [of ?c blk data] ok by simp
    next
      case num: False
      show ?thesis
      proof (cases "length data + md_num c \<ge> 64")
        case True
        let ?todo = "64 - md_num c"
        have f: "put_at (md_num c) (take ?todo data) (md_data c) = md_pending c @ take ?todo data" (is "_ = ?full")
          using True ok put_at_full [of "md_num c" "take ?todo data" "md_data c"] by (simp add: md_pending_def)
        have lf: "length ?full = 64" using True ok p by simp
        have split: "md_pending c @ data = ?full @ drop ?todo data" by simp
        have c: "chunks 64 (md_pending c @ data) = ?full # chunks 64 (drop ?todo data)"
          "leftover 64 (md_pending c @ data) = leftover 64 (drop ?todo data)"
          unfolding split using lf by (simp_all only: chunks_block leftover_block zero_less_numeral)
        have "take 64 ?full = ?full" using lf by (simp only: take_all order.refl)
        then have b: "block_data_order blk 64 (md_h c) ?full 1 = blk (md_h c) ?full"
          by (simp only: One_nat_def block_data_order.simps)
        show ?thesis unfolding u f b c
          using True num hash_rest_ok [of "?c\<lparr>md_h := blk (md_h c) ?full, md_num := 0, md_data := replicate 64 0\<rparr>"
              blk "drop ?todo data"] by simp
      next
        case False
        then have s: "length (md_pending c @ data) < 64" using p by simp
        show ?thesis unfolding u chunks_short [OF s] leftover_short [OF s]
          using False num ok length_put_at [of "md_num c" data "md_data c"] take_put_at [of "md_num c" "md_data c" data]
          by (simp add: md_ok_def md_pending_def)
      qed
    qed
  qed
  then show "md_ok (HASH_UPDATE blk c data)"
    "md_pending (HASH_UPDATE blk c data) = leftover 64 (md_pending c @ data)"
    "md_h (HASH_UPDATE blk c data) = fold (\<lambda>b h. blk h b) (chunks 64 (md_pending c @ data)) (md_h c)"
    "md_len (HASH_UPDATE blk c data) = md_len c"
    by simp_all
qed

interpretation md32: block_stream 64 "\<lambda>_. True" md_ok md_h md_pending "\<lambda>b h. blk h b" "HASH_UPDATE blk" for blk
  by unfold_locales (simp_all add: HASH_UPDATE_ok, simp add: length_md_pending, simp add: md_ok_def)

section \<open>The counter\<close>

definition md_count :: "md32_ctx \<Rightarrow> nat" where
  "md_count c = count2 (md_Nh c) (md_Nl c)"

lemma hash_rest_count: "md_count (hash_rest blk c data) = md_count c"
  by (simp add: hash_rest_def md_count_def Let_def)

lemma unat_bits_lo: "unat (push_bit 3 (of_nat n) :: u32) = 8 * n mod 2 ^ 32"
  by (simp add: unat_push_bit unat_of_nat mod_mult_right_eq mult.commute)

lemma unat_bits_hi: "unat (of_nat (n div 2 ^ 29) :: u32) = 8 * n div 2 ^ 32 mod 2 ^ 32"
proof -
  have "8 * n div 2 ^ 32 = n div 2 ^ 29" using div_mult_mult1 [of 8 n "2 ^ 29"] by simp
  then show ?thesis by (simp add: unat_of_nat)
qed

lemma HASH_UPDATE_count:
  "md_count (HASH_UPDATE blk c data) = (md_count c + 8 * length data) mod 2 ^ 64"
proof (cases "length data = 0")
  case True
  have "md_count c < 2 ^ 64" using count2_less [of "md_Nh c" "md_Nl c"] by (simp add: md_count_def)
  then show ?thesis using True by (simp add: HASH_UPDATE_def)
next
  case False
  let ?lb = "push_bit 3 (of_nat (length data)) :: u32" and ?hb = "of_nat (length data div 2 ^ 29) :: u32"
  have "md_count (HASH_UPDATE blk c data) =
      count2 ((if md_Nl c + ?lb < md_Nl c then md_Nh c + 1 else md_Nh c) + ?hb) (md_Nl c + ?lb)"
    unfolding HASH_UPDATE_def if_not_P [OF False] Let_def
    by (auto simp: hash_rest_count) (simp_all add: md_count_def)
  also have "\<dots> = (md_count c + 8 * length data) mod (2 ^ 32 * 2 ^ 32)"
    unfolding md_count_def by (rule count2_add) (simp, simp only: unat_bits_lo, simp only: unat_bits_hi)
  finally show ?thesis by simp
qed

lemma updates_count:
  "md_count (foldl (HASH_UPDATE blk) c xss) = (md_count c + 8 * length (concat xss)) mod 2 ^ 64"
proof (induction xss arbitrary: c)
  case Nil
  have "md_count c < 2 ^ 64" using count2_less [of "md_Nh c" "md_Nl c"] by (simp add: md_count_def)
  then show ?case by simp
next
  case (Cons xs xss)
  show ?case
    by (simp only: foldl_Cons Cons.IH HASH_UPDATE_count concat.simps length_append distrib_left mod_add_left_eq add.assoc)
qed

lemma updates_len: "md_ok c \<Longrightarrow> md_len (foldl (HASH_UPDATE blk) c xss) = md_len c"
proof (induction xss arbitrary: c)
  case (Cons xs xss)
  then show ?case by (simp add: HASH_UPDATE_ok)
qed simp

section \<open>The whole message\<close>

lemma set_end: "n < length buf \<Longrightarrow> buf[n := x] = take n buf @ [x] @ drop (n + 1) buf"
  by (simp add: upd_conv_take_nth_drop)

text \<open>The last one or two blocks, for any block size and any length of the field.\<close>

definition final_hash ::
  "nat \<Rightarrow> nat \<Rightarrow> ('s \<Rightarrow> u8 list \<Rightarrow> 's) \<Rightarrow> u8 list \<Rightarrow> nat \<Rightarrow> u8 list \<Rightarrow> 's \<Rightarrow> 's" where
  "final_hash B L blk f n data h =
     (let data = data[n := 0x80];
          n = n + 1;
          (h, data, n) =
            (if n > B - L then
               (let data = put_at n (replicate (B - n) 0) data
                in (block_data_order blk B h data 1, data, 0))
             else (h, data, n));
          data = put_at n (replicate (B - L - n) 0) data;
          data = put_at (B - L) f data
      in block_data_order blk B h data 1)"

lemma final_hash_ok:
  assumes "n < B" "length d = B" "length f = L" "L < B"
  shows "final_hash B L blk f n d h = fold (\<lambda>b h. blk h b)
      (if n + 1 > B - L
       then [take n d @ [0x80] @ replicate (B - n - 1) 0, replicate (B - L) 0 @ f]
       else [take n d @ [0x80] @ replicate (B - L - n - 1) 0 @ f]) h"
proof -
  let ?p = "take n d"
  have p: "length ?p = n" using assms(1,2) by simp
  have one: "block_data_order blk B h b 1 = blk h b" if "length b = B" for h b
    using that by (simp only: One_nat_def block_data_order.simps take_all order.refl)
  have d80: "d[n := 0x80] = ?p @ [0x80] @ drop (n + 1) d" using assms(1,2) set_end [of n d "0x80"] by simp
  have last: "put_at (B - L) f (put_at m (replicate (B - L - m) 0) e) = take m e @ replicate (B - L - m) 0 @ f"
    if "m \<le> B - L" "length e = B" for m e
    using that assms(3,4) by (simp add: put_at_def)
  have t: "take (n + 1) (?p @ [0x80] @ drop (n + 1) d) = ?p @ [0x80]" using p by simp
  have l: "length (?p @ [0x80] @ drop (n + 1) d) = B" using p assms(1,2) by simp
  show ?thesis
  proof (cases "n + 1 > B - L")
    case True
    let ?d = "put_at (n + 1) (replicate (B - (n + 1)) 0) (?p @ [0x80] @ drop (n + 1) d)"
    have d: "?d = ?p @ [0x80] @ replicate (B - n - 1) 0"
      using assms(1) by (subst put_at_full) (simp_all only: l t length_replicate, simp_all)
    have ld: "length ?d = B" unfolding d using p assms(1) by simp
    have l2: "length (replicate (B - L) 0 @ f) = B" using assms(3,4) by simp
    show ?thesis unfolding final_hash_def Let_def d80 if_P [OF True] prod.case last [OF le0 ld] one [OF ld]
      unfolding take_0 append_Nil diff_zero one [OF l2] d by simp
  next
    case False
    then have m: "n + 1 \<le> B - L" by simp
    have e: "put_at (B - L) f (put_at (n + 1) (replicate (B - L - (n + 1)) 0) (?p @ [0x80] @ drop (n + 1) d))
        = ?p @ [0x80] @ replicate (B - L - n - 1) 0 @ f"
      unfolding last [OF m l] t by simp
    have le: "length (?p @ [0x80] @ replicate (B - L - n - 1) 0 @ f) = B" using p m assms(3,4) by simp
    show ?thesis unfolding final_hash_def Let_def d80 if_not_P [OF False] prod.case e one [OF le] by simp
  qed
qed

text \<open>These are the blocks which padding adds.\<close>

lemma final_hash_pad:
  assumes "n < B" "length d = B" "length f = L" "L < B" "take n d = leftover B msg"
    and "h = fold (\<lambda>b h. blk h b) (chunks B msg) h0"
  shows "final_hash B L blk f n d h = fold (\<lambda>b h. blk h b) (chunks B (md_pad B L msg f)) h0"
proof -
  have "length (leftover B msg) = n" using assms(1,2) unfolding assms(5) [symmetric] by simp
  then show ?thesis
    unfolding final_hash_ok [OF assms(1-4)] chunks_md_pad [OF assms(3,4)] assms(5,6) by simp
qed

lemma HASH_FINAL_hash:
  "md_h (HASH_FINAL blk len_field c) =
    final_hash 64 8 blk (len_field (md_Nh c) (md_Nl c)) (md_num c) (md_data c) (md_h c)"
  "md_len (HASH_FINAL blk len_field c) = md_len c"
  by (simp_all add: HASH_FINAL_def final_hash_def Let_def split_beta)

text \<open>
  What a sequence of updates and the final call compute: the block function, folded over the blocks
  of the padded message.
\<close>

definition md_start :: "u32 list \<Rightarrow> nat \<Rightarrow> md32_ctx" where
  "md_start h0 n = \<lparr>md_h = h0, md_Nl = 0, md_Nh = 0, md_data = replicate 64 0, md_num = 0, md_len = n\<rparr>"

lemma md_start_ok: "md_ok (md_start h0 n)" "md_pending (md_start h0 n) = []" "md_count (md_start h0 n) = 0"
  "md_h (md_start h0 n) = h0" "md_len (md_start h0 n) = n"
  by (simp_all add: md_start_def md_ok_def md_pending_def md_count_def count2_def)

lemma md32_message:
  assumes "\<And>hi lo. len_field hi lo = field (count2 hi lo)" "\<And>n. length (field n) = 8"
  shows "md_h (HASH_FINAL blk len_field (foldl (HASH_UPDATE blk) (md_start h0 k) xss)) =
    fold (\<lambda>b h. blk h b)
      (chunks 64 (md_pad 64 8 (concat xss) (field (8 * length (concat xss) mod 2 ^ 64)))) h0"
    "md_len (HASH_FINAL blk len_field (foldl (HASH_UPDATE blk) (md_start h0 k) xss)) = k"
proof -
  let ?c = "foldl (HASH_UPDATE blk) (md_start h0 k) xss"
  note s = md_start_ok [of h0 k]
  have ok: "md_ok ?c" using md32.inv_foldl [OF s(1)] by simp
  have u: "md_h ?c = fold (\<lambda>b h. blk h b) (chunks 64 (concat xss)) h0" "md_pending ?c = leftover 64 (concat xss)"
    using md32.update_many [OF s(1), of xss blk] s by simp_all
  have f: "len_field (md_Nh ?c) (md_Nl ?c) = field (8 * length (concat xss) mod 2 ^ 64)"
    using updates_count [of blk "md_start h0 k" xss] assms(1) s(3) by (simp add: md_count_def)
  show "md_h (HASH_FINAL blk len_field ?c) =
    fold (\<lambda>b h. blk h b) (chunks 64 (md_pad 64 8 (concat xss) (field (8 * length (concat xss) mod 2 ^ 64)))) h0"
    unfolding HASH_FINAL_hash(1) f
    by (rule final_hash_pad) (use ok u assms(2) in \<open>simp_all add: md_ok_def md_pending_def\<close>)
  show "md_len (HASH_FINAL blk len_field ?c) = k"
    using HASH_FINAL_hash(2) [of blk len_field ?c] updates_len [OF s(1)] s(5) by simp
qed

end
