(* ===== verification/Sha1.thy ===== *)
theory Sha1
  imports Md32
begin

text \<open>
  \<open>crypto/fipsmodule/sha/sha1.c\<close>. The registers \<open>A\<close> to \<open>E\<close> and \<open>T\<close> are a list of six words, the
  variables \<open>XX0\<close> to \<open>XX15\<close> a list of sixteen; the macros take register numbers, as in C they take
  variables. The code is proved equal to SHA-1 as FIPS 180-4 defines it.
\<close>

unbundle bit_operations_syntax

section \<open>The code\<close>

definition K_00_19 :: u32 where "K_00_19 = 0x5a827999"
definition K_20_39 :: u32 where "K_20_39 = 0x6ed9eba1"
definition K_40_59 :: u32 where "K_40_59 = 0x8f1bbcdc"
definition K_60_79 :: u32 where "K_60_79 = 0xca62c1d6"

definition F_00_19 :: "u32 \<Rightarrow> u32 \<Rightarrow> u32 \<Rightarrow> u32" where
  "F_00_19 b c d = ((c XOR d) AND b) XOR d"

definition F_20_39 :: "u32 \<Rightarrow> u32 \<Rightarrow> u32 \<Rightarrow> u32" where
  "F_20_39 b c d = b XOR c XOR d"

definition F_40_59 :: "u32 \<Rightarrow> u32 \<Rightarrow> u32 \<Rightarrow> u32" where
  "F_40_59 b c d = (b AND c) OR ((b OR c) AND d)"

definition F_60_79 :: "u32 \<Rightarrow> u32 \<Rightarrow> u32 \<Rightarrow> u32" where
  "F_60_79 b c d = F_20_39 b c d"

type_synonym sha1_vars = "u32 list \<times> u32 list"

definition Xupdate :: "nat \<Rightarrow> nat \<Rightarrow> nat \<Rightarrow> nat \<Rightarrow> nat \<Rightarrow> nat \<Rightarrow> sha1_vars \<Rightarrow> sha1_vars" where
  "Xupdate a ix ia ib ic i_d v =
     (let (R, X) = v;
          x = ROTATE (X ! ia XOR X ! ib XOR X ! ic XOR X ! i_d) 1
      in (R[a := x], X[ix := x]))"

definition BODY_00_15 ::
  "nat \<Rightarrow> nat \<Rightarrow> nat \<Rightarrow> nat \<Rightarrow> nat \<Rightarrow> nat \<Rightarrow> nat \<Rightarrow> sha1_vars \<Rightarrow> sha1_vars" where
  "BODY_00_15 a b c d e f xi v =
     (let (R, X) = v;
          R = R[f := X ! xi + R ! e + K_00_19 + ROTATE (R ! a) 5 + F_00_19 (R ! b) (R ! c) (R ! d)];
          R = R[b := ROTATE (R ! b) 30]
      in (R, X))"

definition BODY_16_19 ::
  "nat \<Rightarrow> nat \<Rightarrow> nat \<Rightarrow> nat \<Rightarrow> nat \<Rightarrow> nat \<Rightarrow> nat \<Rightarrow> nat \<Rightarrow> nat \<Rightarrow> nat \<Rightarrow> nat \<Rightarrow> sha1_vars \<Rightarrow> sha1_vars" where
  "BODY_16_19 a b c d e f xi xa xb xc xd v =
     (let (R, X) = Xupdate f xi xa xb xc xd v;
          R = R[f := R ! f + (R ! e + K_00_19 + ROTATE (R ! a) 5 + F_00_19 (R ! b) (R ! c) (R ! d))];
          R = R[b := ROTATE (R ! b) 30]
      in (R, X))"

definition BODY_20_31 ::
  "nat \<Rightarrow> nat \<Rightarrow> nat \<Rightarrow> nat \<Rightarrow> nat \<Rightarrow> nat \<Rightarrow> nat \<Rightarrow> nat \<Rightarrow> nat \<Rightarrow> nat \<Rightarrow> nat \<Rightarrow> sha1_vars \<Rightarrow> sha1_vars" where
  "BODY_20_31 a b c d e f xi xa xb xc xd v =
     (let (R, X) = Xupdate f xi xa xb xc xd v;
          R = R[f := R ! f + (R ! e + K_20_39 + ROTATE (R ! a) 5 + F_20_39 (R ! b) (R ! c) (R ! d))];
          R = R[b := ROTATE (R ! b) 30]
      in (R, X))"

definition BODY_32_39 ::
  "nat \<Rightarrow> nat \<Rightarrow> nat \<Rightarrow> nat \<Rightarrow> nat \<Rightarrow> nat \<Rightarrow> nat \<Rightarrow> nat \<Rightarrow> nat \<Rightarrow> nat \<Rightarrow> sha1_vars \<Rightarrow> sha1_vars" where
  "BODY_32_39 a b c d e f xa xb xc xd v =
     (let (R, X) = Xupdate f xa xa xb xc xd v;
          R = R[f := R ! f + (R ! e + K_20_39 + ROTATE (R ! a) 5 + F_20_39 (R ! b) (R ! c) (R ! d))];
          R = R[b := ROTATE (R ! b) 30]
      in (R, X))"

definition BODY_40_59 ::
  "nat \<Rightarrow> nat \<Rightarrow> nat \<Rightarrow> nat \<Rightarrow> nat \<Rightarrow> nat \<Rightarrow> nat \<Rightarrow> nat \<Rightarrow> nat \<Rightarrow> nat \<Rightarrow> sha1_vars \<Rightarrow> sha1_vars" where
  "BODY_40_59 a b c d e f xa xb xc xd v =
     (let (R, X) = Xupdate f xa xa xb xc xd v;
          R = R[f := R ! f + (R ! e + K_40_59 + ROTATE (R ! a) 5 + F_40_59 (R ! b) (R ! c) (R ! d))];
          R = R[b := ROTATE (R ! b) 30]
      in (R, X))"

definition BODY_60_79 ::
  "nat \<Rightarrow> nat \<Rightarrow> nat \<Rightarrow> nat \<Rightarrow> nat \<Rightarrow> nat \<Rightarrow> nat \<Rightarrow> nat \<Rightarrow> nat \<Rightarrow> nat \<Rightarrow> sha1_vars \<Rightarrow> sha1_vars" where
  "BODY_60_79 a b c d e f xa xb xc xd v =
     (let (R, X) = Xupdate f xa xa xb xc xd v;
          R = R[f := X ! xa + R ! e + K_60_79 + ROTATE (R ! a) 5 + F_60_79 (R ! b) (R ! c) (R ! d)];
          R = R[b := ROTATE (R ! b) 30]
      in (R, X))"

text \<open>
  Call \<open>i\<close> of the unrolled body. The register arguments rotate by one place from call to call, the
  numbers of the \<open>X\<close> are taken modulo 16.
\<close>

definition sha1_call :: "nat \<Rightarrow> sha1_vars \<Rightarrow> sha1_vars" where
  "sha1_call i =
     (let a = arg 6 i 0; b = arg 6 i 1; c = arg 6 i 2; d = arg 6 i 3; e = arg 6 i 4; f = arg 6 i 5;
          x = (\<lambda>k. (i + k) mod 16)
      in if i < 16 then BODY_00_15 a b c d e f (x 0)
         else if i < 20 then BODY_16_19 a b c d e f (x 0) (x 0) (x 2) (x 8) (x 13)
         else if i < 32 then BODY_20_31 a b c d e f (x 0) (x 0) (x 2) (x 8) (x 13)
         else if i < 40 then BODY_32_39 a b c d e f (x 0) (x 2) (x 8) (x 13)
         else if i < 60 then BODY_40_59 a b c d e f (x 0) (x 2) (x 8) (x 13)
         else BODY_60_79 a b c d e f (x 0) (x 2) (x 8) (x 13))"

text \<open>
  One round of the loop of \<open>sha1_block_data_order\<close>. \<open>T\<close> is written by the first call before it is
  read. The sixteen loads are done here before the calls; each \<open>X\<close> is loaded before it is used.
\<close>

definition sha1_block :: "u32 list \<Rightarrow> u8 list \<Rightarrow> u32 list" where
  "sha1_block state data =
     (let (R, X) = fold sha1_call [0..<80] (take 5 state @ [0], be_words data)
      in [(state ! 0 + R ! 4) AND 0xffffffff, (state ! 1 + R ! 5) AND 0xffffffff,
          (state ! 2 + R ! 0) AND 0xffffffff, (state ! 3 + R ! 1) AND 0xffffffff,
          (state ! 4 + R ! 2) AND 0xffffffff])"

definition sha1_block_data_order :: "u32 list \<Rightarrow> u8 list \<Rightarrow> nat \<Rightarrow> u32 list" where
  "sha1_block_data_order = block_data_order sha1_block 64"

definition sha1_iv :: "u32 list" where
  "sha1_iv = [0x67452301, 0xefcdab89, 0x98badcfe, 0x10325476, 0xc3d2e1f0]"

definition SHA1_Init :: md32_ctx where
  "SHA1_Init = \<lparr>md_h = sha1_iv, md_Nl = 0, md_Nh = 0, md_data = replicate 64 0, md_num = 0, md_len = 0\<rparr>"

definition SHA1_Update :: "md32_ctx \<Rightarrow> u8 list \<Rightarrow> md32_ctx" where
  "SHA1_Update = HASH_UPDATE sha1_block"

definition sha1_make_string :: "u32 list \<Rightarrow> u8 list" where
  "sha1_make_string h =
     HOST_l2c_be (h ! 0) @ HOST_l2c_be (h ! 1) @ HOST_l2c_be (h ! 2) @ HOST_l2c_be (h ! 3) @ HOST_l2c_be (h ! 4)"

definition SHA1_Final :: "md32_ctx \<Rightarrow> u8 list \<times> md32_ctx" where
  "SHA1_Final c = (let c = HASH_FINAL sha1_block len_field_be c in (sha1_make_string (md_h c), c))"

definition SHA1 :: "u8 list \<Rightarrow> u8 list" where
  "SHA1 data = fst (SHA1_Final (SHA1_Update SHA1_Init data))"

section \<open>FIPS 180-4\<close>

fun fips_f :: "nat \<Rightarrow> u32 \<Rightarrow> u32 \<Rightarrow> u32 \<Rightarrow> u32" where
  "fips_f t x y z =
     (if t < 20 then (x AND y) XOR (NOT x AND z) else if t < 40 then x XOR y XOR z
      else if t < 60 then (x AND y) XOR (x AND z) XOR (y AND z) else x XOR y XOR z)"

definition fips_K :: "nat \<Rightarrow> u32" where
  "fips_K t = (if t < 20 then 0x5a827999 else if t < 40 then 0x6ed9eba1 else if t < 60 then 0x8f1bbcdc else 0xca62c1d6)"

fun sha1_W :: "u32 list \<Rightarrow> nat \<Rightarrow> u32" where
  "sha1_W M t =
     (if t < 16 then M ! t
      else word_rotl 1 (sha1_W M (t - 3) XOR sha1_W M (t - 8) XOR sha1_W M (t - 14) XOR sha1_W M (t - 16)))"

declare sha1_W.simps [simp del] fips_f.simps [simp del]

fun fips_sha1_step :: "u32 list \<Rightarrow> nat \<Rightarrow> u32 list \<Rightarrow> u32 list" where
  "fips_sha1_step M t [a, b, c, d, e] =
     [word_rotl 5 a + fips_f t b c d + e + fips_K t + sha1_W M t, a, word_rotl 30 b, c, d]"
| "fips_sha1_step M t s = s"

definition fips_sha1_block :: "u32 list \<Rightarrow> u8 list \<Rightarrow> u32 list" where
  "fips_sha1_block H data = map2 (+) H (fold (fips_sha1_step (be_words data)) [0..<80] H)"

definition fips_sha1 :: "u8 list \<Rightarrow> u8 list" where
  "fips_sha1 msg =
     concat (map (\<lambda>w. be_bytes 4 (unat w))
       (fold (\<lambda>b H. fips_sha1_block H b)
         (chunks 64 (md_pad 64 8 msg (be_bytes 8 (8 * length msg mod 2 ^ 64)))) sha1_iv))"

section \<open>The code computes SHA-1\<close>

lemma F_eqs:
  "F_00_19 b c d = (b AND c) XOR (NOT b AND d)"
  "F_40_59 b c d = (b AND c) XOR (b AND d) XOR (c AND d)"
  by (rule bit_word_eqI, auto simp: F_00_19_def F_40_59_def bit_simps)+

definition sha1_F :: "nat \<Rightarrow> u32 \<Rightarrow> u32 \<Rightarrow> u32 \<Rightarrow> u32" where
  "sha1_F t b c d =
     (if t < 20 then F_00_19 b c d else if t < 40 then F_20_39 b c d else if t < 60 then F_40_59 b c d else F_60_79 b c d)"

lemma sha1_F_fips: "sha1_F t b c d = fips_f t b c d"
  by (simp add: sha1_F_def fips_f.simps F_eqs F_20_39_def F_60_79_def)

interpretation sha1_ring: ring_schedule "sha1_W M" "\<lambda>p. word_rotl 1 (p 0 XOR p 2 XOR p 8 XOR p 13)" for M
proof
  fix i :: nat assume "16 \<le> i"
  then have "i + 0 - 16 = i - 16" "i + 2 - 16 = i - 14" "i + 8 - 16 = i - 8" "i + 13 - 16 = i - 3" by simp_all
  then show "sha1_W M i = word_rotl 1 (sha1_W M (i + 0 - 16) XOR sha1_W M (i + 2 - 16) XOR sha1_W M (i + 8 - 16) XOR sha1_W M (i + 13 - 16))"
    using \<open>16 \<le> i\<close> by (subst sha1_W.simps) (simp only:, simp add: ac_simps)
qed simp

text \<open>The schedule variables before call \<open>i\<close>.\<close>

definition sha1_X :: "u32 list \<Rightarrow> nat \<Rightarrow> u32 list \<Rightarrow> bool" where
  "sha1_X M i X \<longleftrightarrow> length X = 16 \<and>
     (if i < 16 then X = M else \<forall>k < 16. X ! ((i + k) mod 16) = sha1_W M (i + k - 16))"

text \<open>Every call writes one temporary and one rotation, whatever macro it uses.\<close>

lemma sha1_call_eq:
  assumes "length R = 6" "i < 80" "sha1_X M i X"
  shows "\<exists>X'. sha1_call i (R, X) =
      ((R[arg 6 i 5 := sha1_W M i + R ! arg 6 i 4 + fips_K i + ROTATE (R ! arg 6 i 0) 5 +
           sha1_F i (R ! arg 6 i 1) (R ! arg 6 i 2) (R ! arg 6 i 3)])[arg 6 i 1 := ROTATE (R ! arg 6 i 1) 30], X') \<and>
    sha1_X M (i + 1) X'"
proof -
  have ne: "arg 6 i 5 \<noteq> arg 6 i r" "arg 6 i r < 6" if "r < 5" for r
    using that arg_inj [of 5 6 r i] arg_less [of 6 i r] by auto
  have ne0: "arg 6 i 5 \<noteq> arg 6 i 0" "arg 6 i 5 \<noteq> arg 6 i 1" "arg 6 i 5 \<noteq> arg 6 i 2" "arg 6 i 5 \<noteq> arg 6 i 3"
    "arg 6 i 5 \<noteq> arg 6 i 4" "arg 6 i 5 < 6" using ne [of 0] ne [of 1] ne [of 2] ne [of 3] ne [of 4] arg_less [of 6 i 5] by simp_all
  show ?thesis
  proof (cases "i < 16")
    case True
    then have X: "X = M" "length X = 16" using assms(3) by (auto simp: sha1_X_def)
    have "sha1_X M (i + 1) X"
      using True X by (cases "i = 15") (auto simp: sha1_X_def sha1_W.simps)
    moreover have "X ! (i mod 16) = sha1_W M i" using True X by (simp add: sha1_W.simps)
    ultimately show ?thesis
      using True ne0 assms(1) by (simp add: sha1_call_def BODY_00_15_def sha1_F_def fips_K_def K_00_19_def)
  next
    case False
    then have i: "16 \<le> i" by simp
    have X: "length X = 16" "\<And>k. k < 16 \<Longrightarrow> X ! ((i + k) mod 16) = sha1_W M (i + k - 16)"
      using assms(3) False by (simp_all add: sha1_X_def)
    note ring = sha1_ring.ring_step [OF i X]
    have w: "ROTATE (X ! ((i + 0) mod 16) XOR X ! ((i + 2) mod 16) XOR X ! ((i + 8) mod 16) XOR X ! ((i + 13) mod 16)) 1 = sha1_W M i"
      using ring(1) by (simp only: ROTATE_rotl)
    have next_X: "sha1_X M (i + 1) (X[i mod 16 := sha1_W M i])"
      using ring(2) X(1) i by (simp add: sha1_X_def)
    have u: "Xupdate (arg 6 i 5) ((i + 0) mod 16) ((i + 0) mod 16) ((i + 2) mod 16) ((i + 8) mod 16) ((i + 13) mod 16) (R, X)
        = (R[arg 6 i 5 := sha1_W M i], X[i mod 16 := sha1_W M i])"
      unfolding Xupdate_def prod.case Let_def w by simp
    have "X[i mod 16 := sha1_W M i] ! (i mod 16) = sha1_W M i" using X(1) by simp
    note eval = this sha1_call_def Let_def u [simplified] prod.case fips_K_def sha1_F_def
    consider "i < 20" | "20 \<le> i" "i < 32" | "32 \<le> i" "i < 40" | "40 \<le> i" "i < 60" | "60 \<le> i" by linarith
    then show ?thesis
    proof cases
      case 1
      then show ?thesis using i ne0 assms(1) next_X by (simp add: eval BODY_16_19_def K_00_19_def add.assoc)
    next
      case 2
      then show ?thesis using i ne0 assms(1) next_X by (simp add: eval BODY_20_31_def K_20_39_def add.assoc)
    next
      case 3
      then show ?thesis using i ne0 assms(1) next_X by (simp add: eval BODY_32_39_def K_20_39_def add.assoc)
    next
      case 4
      then show ?thesis using i ne0 assms(1) next_X by (simp add: eval BODY_40_59_def K_40_59_def add.assoc)
    next
      case 5
      then show ?thesis using i ne0 assms(1) next_X by (simp add: eval BODY_60_79_def K_60_79_def add.assoc)
    qed
  qed
qed

lemma length6: "length xs = 6 \<Longrightarrow> \<exists>a b c d e f. xs = [a, b, c, d, e, f]"
  by (auto simp: numeral_eq_Suc length_Suc_conv)

lemma sha1_round:
  assumes "length R = 6" "i < 80" "sha1_X M i X"
  shows "\<exists>R' X'. sha1_call i (R, X) = (R', X') \<and> length R' = 6 \<and> sha1_X M (i + 1) X' \<and>
    take 5 (args 6 (i + 1) R') = fips_sha1_step M i (take 5 (args 6 i R))"
proof -
  obtain X' where c: "sha1_call i (R, X) =
      ((R[arg 6 i 5 := sha1_W M i + R ! arg 6 i 4 + fips_K i + ROTATE (R ! arg 6 i 0) 5 +
           sha1_F i (R ! arg 6 i 1) (R ! arg 6 i 2) (R ! arg 6 i 3)])[arg 6 i 1 := ROTATE (R ! arg 6 i 1) 30], X')" "sha1_X M (i + 1) X'"
    using sha1_call_eq [OF assms] by blast
  obtain a b c d e f where A: "args 6 i R = [a, b, c, d, e, f]" using length6 [of "args 6 i R"] by auto
  have n: "R ! arg 6 i 0 = a" "R ! arg 6 i 1 = b" "R ! arg 6 i 2 = c" "R ! arg 6 i 3 = d" "R ! arg 6 i 4 = e"
    using args_nth [of 0 6 i R] args_nth [of 1 6 i R] args_nth [of 2 6 i R] args_nth [of 3 6 i R] args_nth [of 4 6 i R]
    by (simp_all add: A)
  let ?t = "sha1_W M i + e + fips_K i + ROTATE a 5 + sha1_F i b c d"
  let ?R = "R[arg 6 i 5 := ?t]"
  have "args 6 i (?R[arg 6 i 1 := ROTATE b 30]) = (args 6 i ?R)[1 := ROTATE b 30]"
    by (rule args_update) (use assms(1) in simp_all)
  also have "args 6 i ?R = (args 6 i R)[5 := ?t]" by (rule args_update) (use assms(1) in simp_all)
  finally have "args 6 i (?R[arg 6 i 1 := ROTATE b 30]) = [a, ROTATE b 30, c, d, e, ?t]" by (simp add: A)
  then have "args 6 (i + 1) (?R[arg 6 i 1 := ROTATE b 30]) = [?t, a, ROTATE b 30, c, d, e]"
    by (subst args_Suc) simp_all
  moreover have "?t = word_rotl 5 a + fips_f i b c d + e + fips_K i + sha1_W M i"
    by (simp only: sha1_F_fips ROTATE_rotl zero_less_numeral add.commute add.left_commute) simp
  moreover have "fips_sha1_step M i (take 5 (args 6 i R)) =
      [word_rotl 5 a + fips_f i b c d + e + fips_K i + sha1_W M i, a, word_rotl 30 b, c, d]" by (simp add: A)
  ultimately show ?thesis using c assms(1) unfolding n by (simp add: ROTATE_rotl)
qed

lemma sha1_rounds:
  assumes "length H = 5" "length M = 16" "n \<le> 80"
  shows "\<exists>R X. fold sha1_call [0..<n] (H @ [0], M) = (R, X) \<and> length R = 6 \<and> sha1_X M n X \<and>
    take 5 (args 6 n R) = fold (fips_sha1_step M) [0..<n] H"
  using assms(3)
proof (induction n)
  case 0
  have "args 6 0 (H @ [0]) = H @ [0]" using assms(1) by (auto simp: args_def arg_def list_eq_iff_nth_eq)
  then show ?case using assms(1,2) by (simp add: sha1_X_def)
next
  case (Suc n)
  then obtain R X where r: "fold sha1_call [0..<n] (H @ [0], M) = (R, X)" "length R = 6" "sha1_X M n X"
    "take 5 (args 6 n R) = fold (fips_sha1_step M) [0..<n] H" by auto
  from sha1_round [OF r(2) _ r(3)] Suc.prems obtain R' X' where
    "sha1_call n (R, X) = (R', X')" "length R' = 6" "sha1_X M (n + 1) X'"
    "take 5 (args 6 (n + 1) R') = fips_sha1_step M n (take 5 (args 6 n R))" by auto
  then show ?case using r by simp
qed

lemma and_ffffffff: "(x :: u32) AND 0xffffffff = x"
proof -
  have "(0xffffffff :: u32) = - 1" by simp
  then show ?thesis by (simp only: and.right_neutral)
qed

lemma sha1_block_fips:
  assumes "length H = 5"
  shows "sha1_block H data = fips_sha1_block H data" "length (sha1_block H data) = 5"
proof -
  obtain R X where r: "fold sha1_call [0..<80] (H @ [0], be_words data) = (R, X)" "length R = 6"
    "take 5 (args 6 80 R) = fold (fips_sha1_step (be_words data)) [0..<80] H"
    using sha1_rounds [OF assms length_words(1) [of data], of 80] by blast
  have "take 5 (args 6 80 R) = [R ! 4, R ! 5, R ! 0, R ! 1, R ! 2]"
    by (simp add: args_def arg_def upt_rec)
  moreover obtain a b c d e where "H = [a, b, c, d, e]" using assms by (auto simp: numeral_eq_Suc length_Suc_conv)
  ultimately show "sha1_block H data = fips_sha1_block H data" using r assms
    by (simp add: sha1_block_def fips_sha1_block_def and_ffffffff)
  show "length (sha1_block H data) = 5" by (simp add: sha1_block_def split_beta)
qed

lemma fold_sha1_length: "length H = 5 \<Longrightarrow> length (fold (\<lambda>b h. sha1_block h b) bs H) = 5"
  by (induction bs arbitrary: H) (simp_all add: sha1_block_fips(2))

lemma fold_sha1_block:
  "length H = 5 \<Longrightarrow> fold (\<lambda>b h. sha1_block h b) bs H = fold (\<lambda>b h. fips_sha1_block h b) bs H"
proof (induction bs arbitrary: H)
  case (Cons b bs)
  then show ?case using Cons.IH [of "sha1_block H b"] sha1_block_fips [of H b] by simp
qed simp

definition sha1_stream :: "u8 list list \<Rightarrow> u8 list" where
  "sha1_stream xss = fst (SHA1_Final (foldl SHA1_Update SHA1_Init xss))"

lemma sha1_stream_eq: "sha1_stream xss = fips_sha1 (concat xss)"
proof -
  have start: "SHA1_Init = md_start sha1_iv 0" by (simp add: SHA1_Init_def md_start_def)
  have iv: "length sha1_iv = 5" by (simp add: sha1_iv_def)
  let ?H = "md_h (HASH_FINAL sha1_block len_field_be (foldl SHA1_Update SHA1_Init xss))"
  have h: "?H = fold (\<lambda>b h. sha1_block h b)
      (chunks 64 (md_pad 64 8 (concat xss) (be_bytes 8 (8 * length (concat xss) mod 2 ^ 64)))) sha1_iv"
    unfolding start SHA1_Update_def by (rule md32_message) (simp_all add: len_field_be_eq)
  then have "length ?H = 5" using fold_sha1_length [OF iv] by simp
  then obtain a b c d e where "?H = [a, b, c, d, e]" by (auto simp: numeral_eq_Suc length_Suc_conv)
  then have "sha1_make_string ?H = concat (map (\<lambda>w. be_bytes 4 (unat w)) ?H)"
    by (simp add: sha1_make_string_def HOST_l2c_be_eq)
  then show ?thesis using fold_sha1_block [OF iv] h
    by (simp add: sha1_stream_def SHA1_Final_def fips_sha1_def Let_def)
qed

text \<open>
  C25. Hashing a message with \<open>SHA1_Init\<close>, any sequence of \<open>SHA1_Update\<close> calls and \<open>SHA1_Final\<close> gives
  the SHA-1 digest of FIPS 180-4 of the concatenated pieces, however the message is cut.
\<close>

theorem sha1_stream_fips: "sha1_stream xss = fips_sha1 (concat xss)"
  by (rule sha1_stream_eq)

end
