(* ===== verification/Sha2_Rounds.thy ===== *)
theory Sha2_Rounds
  imports Md32
begin

text \<open>
  The round of the SHA-2 functions on registers whose arguments rotate, against the round on a tuple,
  for any word size and any of the four functions and constants. The locale \<open>sha2\<close> states what a
  hash function of the family provides and proves that its unrolled rounds compute the standard's;
  it is interpreted for SHA-256 and for SHA-512.
\<close>

section \<open>The schedule\<close>

text \<open>The sixteen schedule variables before call \<open>i\<close>: the message, later the last sixteen words.\<close>

definition ring_before :: "(nat \<Rightarrow> 'w) \<Rightarrow> 'w list \<Rightarrow> nat \<Rightarrow> 'w list \<Rightarrow> bool" where
  "ring_before W M i X \<longleftrightarrow> length X = 16 \<and>
     (if i < 16 then X = M else \<forall>k < 16. X ! ((i + k) mod 16) = W (i + k - 16))"

section \<open>Registers\<close>

lemma list8: "length xs = 8 \<Longrightarrow> \<exists>a b c d e f g h. xs = [a, b, c, d, e, f, g, h]"
  by (auto simp: numeral_eq_Suc length_Suc_conv)

definition sha2_round ::
  "('a word \<Rightarrow> 'a word) \<Rightarrow> ('a word \<Rightarrow> 'a word) \<Rightarrow> ('a word \<Rightarrow> 'a word \<Rightarrow> 'a word \<Rightarrow> 'a word) \<Rightarrow>
    ('a word \<Rightarrow> 'a word \<Rightarrow> 'a word \<Rightarrow> 'a word) \<Rightarrow> 'a word \<Rightarrow> nat \<Rightarrow> 'a word \<Rightarrow> 'a::len word list \<Rightarrow> 'a word list" where
  "sha2_round S0 S1 Ch Maj K i T1 R =
     (let T1 = T1 + (R ! arg 8 i 7 + S1 (R ! arg 8 i 4) + Ch (R ! arg 8 i 4) (R ! arg 8 i 5) (R ! arg 8 i 6) + K);
          R = R[arg 8 i 7 := S0 (R ! arg 8 i 0) + Maj (R ! arg 8 i 0) (R ! arg 8 i 1) (R ! arg 8 i 2)];
          R = R[arg 8 i 3 := R ! arg 8 i 3 + T1];
          R = R[arg 8 i 7 := R ! arg 8 i 7 + T1]
      in R)"

fun sha2_step ::
  "('a word \<Rightarrow> 'a word) \<Rightarrow> ('a word \<Rightarrow> 'a word) \<Rightarrow> ('a word \<Rightarrow> 'a word \<Rightarrow> 'a word \<Rightarrow> 'a word) \<Rightarrow>
    ('a word \<Rightarrow> 'a word \<Rightarrow> 'a word \<Rightarrow> 'a word) \<Rightarrow> 'a word \<Rightarrow> 'a word \<Rightarrow> 'a::len word list \<Rightarrow> 'a word list" where
  "sha2_step S0 S1 Ch Maj K W [a, b, c, d, e, f, g, h] =
     (let T1 = h + S1 e + Ch e f g + K + W; T2 = S0 a + Maj a b c
      in [T1 + T2, a, b, c, d + T1, e, f, g])"
| "sha2_step S0 S1 Ch Maj K W s = s"

lemma args_nth_update:
  "length R = m \<Longrightarrow> s < m \<Longrightarrow> r < m \<Longrightarrow> R[arg m i s := v] ! arg m i r = (if r = s then v else R ! arg m i r)"
  by (simp add: nth_list_update arg_inj arg_less)

lemma sha2_round_ok:
  assumes "length R = 8"
  shows "length (sha2_round S0 S1 Ch Maj K i T1 R) = 8"
    "args 8 (i + 1) (sha2_round S0 S1 Ch Maj K i T1 R) = sha2_step S0 S1 Ch Maj K T1 (args 8 i R)"
proof -
  obtain a b c d e f g h where A: "args 8 i R = [a, b, c, d, e, f, g, h]" using list8 [of "args 8 i R"] by auto
  have n: "R ! arg 8 i 0 = a" "R ! arg 8 i 1 = b" "R ! arg 8 i 2 = c" "R ! arg 8 i 3 = d" "R ! arg 8 i 4 = e"
    "R ! arg 8 i 5 = f" "R ! arg 8 i 6 = g" "R ! arg 8 i 7 = h"
    using args_nth [of 0 8 i R] args_nth [of 1 8 i R] args_nth [of 2 8 i R] args_nth [of 3 8 i R] args_nth [of 4 8 i R]
      args_nth [of 5 8 i R] args_nth [of 6 8 i R] args_nth [of 7 8 i R]
    by (simp_all add: A)
  let ?T1 = "T1 + (h + S1 e + Ch e f g + K)"
  have r: "sha2_round S0 S1 Ch Maj K i T1 R =
      ((R[arg 8 i 7 := S0 a + Maj a b c])[arg 8 i 3 := d + ?T1])[arg 8 i 7 := S0 a + Maj a b c + ?T1]"
    unfolding sha2_round_def Let_def n
    by (simp add: args_nth_update assms n del: One_nat_def)
  show "length (sha2_round S0 S1 Ch Maj K i T1 R) = 8" unfolding r using assms by simp
  have "args 8 i (sha2_round S0 S1 Ch Maj K i T1 R) = [a, b, c, d + ?T1, e, f, g, S0 a + Maj a b c + ?T1]"
    unfolding r using assms by (simp add: args_update A)
  then have "args 8 (i + 1) (sha2_round S0 S1 Ch Maj K i T1 R) = [S0 a + Maj a b c + ?T1, a, b, c, d + ?T1, e, f, g]"
    by (subst args_Suc) simp_all
  also have "\<dots> = sha2_step S0 S1 Ch Maj K T1 (args 8 i R)"
    by (simp add: A Let_def add.commute add.left_commute)
  finally show "args 8 (i + 1) (sha2_round S0 S1 Ch Maj K i T1 R) = sha2_step S0 S1 Ch Maj K T1 (args 8 i R)" .
qed

section \<open>A hash function of the family\<close>

locale sha2 =
  fixes S0 S1 s0 s1 :: "'a::len word \<Rightarrow> 'a word"
    and Ch Maj :: "'a word \<Rightarrow> 'a word \<Rightarrow> 'a word \<Rightarrow> 'a word"
    and K :: "nat \<Rightarrow> 'a word"
    and W :: "'a word list \<Rightarrow> nat \<Rightarrow> 'a word"
    and step :: "'a word list \<Rightarrow> nat \<Rightarrow> 'a word list \<Rightarrow> 'a word list"
    and call :: "nat \<Rightarrow> 'a word list \<times> 'a word list \<Rightarrow> 'a word list \<times> 'a word list"
  assumes W_load: "t < 16 \<Longrightarrow> W M t = M ! t"
    and W_next: "16 \<le> t \<Longrightarrow> W M t = W M (t - 16) + (s0 (W M (t - 15)) + s1 (W M (t - 2)) + W M (t - 7))"
    and step: "length s = 8 \<Longrightarrow> step M t s = sha2_step S0 S1 Ch Maj (K t) (W M t) s"
    and call_load: "i < 16 \<Longrightarrow> call i (R, X) = (sha2_round S0 S1 Ch Maj (K i) i (X ! i) R, X)"
    and call_next: "16 \<le> i \<Longrightarrow>
      T1 = X ! (i mod 16) + (s0 (X ! ((i + 1) mod 16)) + s1 (X ! ((i + 14) mod 16)) + X ! ((i + 9) mod 16)) \<Longrightarrow>
      call i (R, X) = (sha2_round S0 S1 Ch Maj (K i) i T1 R, X[i mod 16 := T1])"
begin

lemma ring: "ring_schedule (W M) (\<lambda>p. p 0 + (s0 (p 1) + s1 (p 14) + p 9))"
proof
  fix i :: nat assume i: "16 \<le> i"
  then have "i + 0 - 16 = i - 16" "i + 1 - 16 = i - 15" "i + 14 - 16 = i - 2" "i + 9 - 16 = i - 7" by simp_all
  then show "W M i = W M (i + 0 - 16) + (s0 (W M (i + 1 - 16)) + s1 (W M (i + 14 - 16)) + W M (i + 9 - 16))"
    using W_next [OF i] by (simp only:)
qed simp

lemma round:
  assumes "length R = 8" "ring_before (W M) M i X"
  shows "\<exists>R' X'. call i (R, X) = (R', X') \<and> length R' = 8 \<and> ring_before (W M) M (i + 1) X' \<and>
    args 8 (i + 1) R' = step M i (args 8 i R)"
proof (cases "i < 16")
  case True
  then have w: "W M i = X ! i" using assms(2) by (simp add: ring_before_def W_load)
  have "ring_before (W M) M (i + 1) X"
    using True assms(2) by (cases "i = 15") (auto simp: ring_before_def W_load)
  then show ?thesis
    using call_load [OF True, of R X] sha2_round_ok [OF assms(1)] w by (simp add: step)
next
  case False
  then have i: "16 \<le> i" by simp
  have X: "length X = 16" "\<And>k. k < 16 \<Longrightarrow> X ! ((i + k) mod 16) = W M (i + k - 16)"
    using assms(2) False by (simp_all add: ring_before_def)
  note ring_step = ring_schedule.ring_step [OF ring i X]
  have "ring_before (W M) M (i + 1) (X[i mod 16 := W M i])"
    using ring_step(2) X(1) i by (simp add: ring_before_def)
  moreover have "W M i = X ! (i mod 16) + (s0 (X ! ((i + 1) mod 16)) + s1 (X ! ((i + 14) mod 16)) + X ! ((i + 9) mod 16))"
    using ring_step(1) by simp
  note call_next [OF i this, of R]
  ultimately show ?thesis
    using sha2_round_ok [OF assms(1)] by (simp add: step)
qed

lemma rounds:
  assumes "length H = 8" "length M = 16"
  shows "\<exists>R X. fold call [0..<n] (H, M) = (R, X) \<and> length R = 8 \<and> ring_before (W M) M n X \<and>
    args 8 n R = fold (step M) [0..<n] H"
proof (induction n)
  case 0
  have "args 8 0 H = H" using assms(1) by (rule args_0)
  then show ?case using assms by (simp add: ring_before_def)
next
  case (Suc n)
  then obtain R X where r: "fold call [0..<n] (H, M) = (R, X)" "length R = 8" "ring_before (W M) M n X"
    "args 8 n R = fold (step M) [0..<n] H" by auto
  from round [OF r(2,3)] obtain R' X' where
    "call n (R, X) = (R', X')" "length R' = 8" "ring_before (W M) M (n + 1) X'"
    "args 8 (n + 1) R' = step M n (args 8 n R)" by auto
  then show ?case using r by simp
qed

text \<open>A whole number of rotations brings the registers back, so the result is added to the state.\<close>

lemma block:
  assumes "length H = 8" "length M = 16" "fold call [0..<8 * n] (H, M) = (R, X)"
  shows "[H ! 0 + R ! 0, H ! 1 + R ! 1, H ! 2 + R ! 2, H ! 3 + R ! 3,
      H ! 4 + R ! 4, H ! 5 + R ! 5, H ! 6 + R ! 6, H ! 7 + R ! 7] = map2 (+) H (fold (step M) [0..<8 * n] H)"
proof -
  have r: "length R = 8" "args 8 (8 * n) R = fold (step M) [0..<8 * n] H"
    using rounds [OF assms(1,2), of "8 * n"] assms(3) by auto
  have "args 8 (8 * n) R = R" using args_mult [OF r(1), of n] by simp
  then show ?thesis using r(2) list8 [OF assms(1)] list8 [OF r(1)] by auto
qed

end

text \<open>Folding equal block functions gives equal digests.\<close>

lemma fold_blocks_eq:
  assumes "\<And>H b. length H = 8 \<Longrightarrow> f H b = g H b \<and> length (f H b) = 8" "length H = 8"
  shows "fold (\<lambda>b h. f h b) bs H = fold (\<lambda>b h. g h b) bs H \<and> length (fold (\<lambda>b h. f h b) bs H) = 8"
  using assms(2)
proof (induction bs arbitrary: H)
  case (Cons b bs)
  then have eq: "f H b = g H b" "length (g H b) = 8" using assms(1) [of H b] by (metis, metis)
  show ?case unfolding fold_simps eq(1) by (rule Cons.IH [OF eq(2)])
qed simp

end
