(* ===== verification/Sha256.thy ===== *)
theory Sha256
  imports Sha2_Rounds
begin

text \<open>
  \<open>crypto/fipsmodule/sha/sha256.c\<close>: SHA-256 and SHA-224. The registers \<open>a\<close> to \<open>h\<close> are a list of eight
  words, the array \<open>X\<close> a list of sixteen. The code is proved equal to FIPS 180-4.
\<close>

unbundle bit_operations_syntax

section \<open>The code\<close>

text \<open>The table, by the rows of the source.\<close>

definition K256 :: "u32 list" where
  "K256 =
  concat
  [[0x428a2f98, 0x71374491, 0xb5c0fbcf, 0xe9b5dba5, 0x3956c25b],
   [0x59f111f1, 0x923f82a4, 0xab1c5ed5, 0xd807aa98, 0x12835b01],
   [0x243185be, 0x550c7dc3, 0x72be5d74, 0x80deb1fe, 0x9bdc06a7],
   [0xc19bf174, 0xe49b69c1, 0xefbe4786, 0x0fc19dc6, 0x240ca1cc],
   [0x2de92c6f, 0x4a7484aa, 0x5cb0a9dc, 0x76f988da, 0x983e5152],
   [0xa831c66d, 0xb00327c8, 0xbf597fc7, 0xc6e00bf3, 0xd5a79147],
   [0x06ca6351, 0x14292967, 0x27b70a85, 0x2e1b2138, 0x4d2c6dfc],
   [0x53380d13, 0x650a7354, 0x766a0abb, 0x81c2c92e, 0x92722c85],
   [0xa2bfe8a1, 0xa81a664b, 0xc24b8b70, 0xc76c51a3, 0xd192e819],
   [0xd6990624, 0xf40e3585, 0x106aa070, 0x19a4c116, 0x1e376c08],
   [0x2748774c, 0x34b0bcb5, 0x391c0cb3, 0x4ed8aa4a, 0x5b9cca4f],
   [0x682e6ff3, 0x748f82ee, 0x78a5636f, 0x84c87814, 0x8cc70208],
   [0x90befffa, 0xa4506ceb, 0xbef9a3f7, 0xc67178f2]]"

definition Sigma0_256 :: "u32 \<Rightarrow> u32" where
  "Sigma0_256 x = ROTATE x 30 XOR ROTATE x 19 XOR ROTATE x 10"

definition Sigma1_256 :: "u32 \<Rightarrow> u32" where
  "Sigma1_256 x = ROTATE x 26 XOR ROTATE x 21 XOR ROTATE x 7"

definition sigma0_256 :: "u32 \<Rightarrow> u32" where
  "sigma0_256 x = ROTATE x 25 XOR ROTATE x 14 XOR drop_bit 3 x"

definition sigma1_256 :: "u32 \<Rightarrow> u32" where
  "sigma1_256 x = ROTATE x 15 XOR ROTATE x 13 XOR drop_bit 10 x"

definition Ch_256 :: "u32 \<Rightarrow> u32 \<Rightarrow> u32 \<Rightarrow> u32" where
  "Ch_256 x y z = (x AND y) XOR (NOT x AND z)"

definition Maj_256 :: "u32 \<Rightarrow> u32 \<Rightarrow> u32 \<Rightarrow> u32" where
  "Maj_256 x y z = (x AND y) XOR (x AND z) XOR (y AND z)"

text \<open>\<open>ROUND_00_15\<close> with the value of \<open>T1\<close>; the arguments \<open>a\<close> to \<open>h\<close> are register numbers.\<close>

definition ROUND_00_15_256 ::
  "nat \<Rightarrow> nat \<Rightarrow> nat \<Rightarrow> nat \<Rightarrow> nat \<Rightarrow> nat \<Rightarrow> nat \<Rightarrow> nat \<Rightarrow> nat \<Rightarrow> u32 \<Rightarrow> u32 list \<Rightarrow> u32 list" where
  "ROUND_00_15_256 i a b c d e f g h T1 R =
     (let T1 = T1 + (R ! h + Sigma1_256 (R ! e) + Ch_256 (R ! e) (R ! f) (R ! g) + K256 ! i);
          R = R[h := Sigma0_256 (R ! a) + Maj_256 (R ! a) (R ! b) (R ! c)];
          R = R[d := R ! d + T1];
          R = R[h := R ! h + T1]
      in R)"

definition ROUND_16_63 ::
  "nat \<Rightarrow> nat \<Rightarrow> nat \<Rightarrow> nat \<Rightarrow> nat \<Rightarrow> nat \<Rightarrow> nat \<Rightarrow> nat \<Rightarrow> nat \<Rightarrow> u32 list \<times> u32 list \<Rightarrow> u32 list \<times> u32 list" where
  "ROUND_16_63 i a b c d e f g h v =
     (let (R, X) = v;
          s0 = sigma0_256 (X ! ((i + 1) mod 16));
          s1 = sigma1_256 (X ! ((i + 14) mod 16));
          T1 = X ! (i mod 16) + (s0 + s1 + X ! ((i + 9) mod 16))
      in (ROUND_00_15_256 i a b c d e f g h T1 R, X[i mod 16 := T1]))"

text \<open>Call \<open>i\<close> of the unrolled rounds; in the first sixteen \<open>T1\<close> is the word just loaded.\<close>

definition sha256_call :: "nat \<Rightarrow> u32 list \<times> u32 list \<Rightarrow> u32 list \<times> u32 list" where
  "sha256_call i v =
     (let a = arg 8 i 0; b = arg 8 i 1; c = arg 8 i 2; d = arg 8 i 3;
          e = arg 8 i 4; f = arg 8 i 5; g = arg 8 i 6; h = arg 8 i 7
      in if i < 16 then (ROUND_00_15_256 i a b c d e f g h (snd v ! i) (fst v), snd v)
         else ROUND_16_63 i a b c d e f g h v)"

definition sha256_block :: "u32 list \<Rightarrow> u8 list \<Rightarrow> u32 list" where
  "sha256_block state data =
     (let (R, X) = fold sha256_call [0..<64] (take 8 state, be_words data)
      in [state ! 0 + R ! 0, state ! 1 + R ! 1, state ! 2 + R ! 2, state ! 3 + R ! 3,
          state ! 4 + R ! 4, state ! 5 + R ! 5, state ! 6 + R ! 6, state ! 7 + R ! 7])"

definition sha256_block_data_order :: "u32 list \<Rightarrow> u8 list \<Rightarrow> nat \<Rightarrow> u32 list" where
  "sha256_block_data_order = block_data_order sha256_block 64"

definition SHA256_TransformBlocks :: "u32 list \<Rightarrow> u8 list \<Rightarrow> nat \<Rightarrow> u32 list" where
  "SHA256_TransformBlocks state data num_blocks = sha256_block_data_order state data num_blocks"

definition sha224_iv :: "u32 list" where
  "sha224_iv = [0xc1059ed8, 0x367cd507, 0x3070dd17, 0xf70e5939, 0xffc00b31, 0x68581511,
   0x64f98fa7, 0xbefa4fa4]"

definition sha256_iv :: "u32 list" where
  "sha256_iv = [0x6a09e667, 0xbb67ae85, 0x3c6ef372, 0xa54ff53a, 0x510e527f, 0x9b05688c,
   0x1f83d9ab, 0x5be0cd19]"

definition SHA224_Init :: md32_ctx where
  "SHA224_Init = \<lparr>md_h = sha224_iv, md_Nl = 0, md_Nh = 0, md_data = replicate 64 0, md_num = 0, md_len = 28\<rparr>"

definition SHA256_Init :: md32_ctx where
  "SHA256_Init = \<lparr>md_h = sha256_iv, md_Nl = 0, md_Nh = 0, md_data = replicate 64 0, md_num = 0, md_len = 32\<rparr>"

definition SHA256_Update :: "md32_ctx \<Rightarrow> u8 list \<Rightarrow> md32_ctx" where
  "SHA256_Update = HASH_UPDATE sha256_block"

definition SHA256_Transform :: "md32_ctx \<Rightarrow> u8 list \<Rightarrow> md32_ctx" where
  "SHA256_Transform = HASH_TRANSFORM sha256_block"

text \<open>\<open>HASH_MAKE_STRING\<close>; \<open>None\<close> is the return of zero when \<open>md_len\<close> is too long.\<close>

definition sha256_make_string :: "nat \<Rightarrow> u32 list \<Rightarrow> u8 list option" where
  "sha256_make_string n h =
     (if n = 28 then Some (concat (map (\<lambda>nn. HOST_l2c_be (h ! nn)) [0..<28 div 4]))
      else if n = 32 then Some (concat (map (\<lambda>nn. HOST_l2c_be (h ! nn)) [0..<32 div 4]))
      else if n > 32 then None
      else Some (concat (map (\<lambda>nn. HOST_l2c_be (h ! nn)) [0..<n div 4])))"

definition SHA256_Final :: "md32_ctx \<Rightarrow> u8 list option \<times> md32_ctx" where
  "SHA256_Final c = (let c = HASH_FINAL sha256_block len_field_be c in (sha256_make_string (md_len c) (md_h c), c))"

definition SHA224_Update :: "md32_ctx \<Rightarrow> u8 list \<Rightarrow> md32_ctx" where
  "SHA224_Update ctx data = SHA256_Update ctx data"

definition SHA224_Final :: "md32_ctx \<Rightarrow> u8 list option \<times> md32_ctx" where
  "SHA224_Final ctx = SHA256_Final ctx"

definition SHA224 :: "u8 list \<Rightarrow> u8 list option" where
  "SHA224 data = fst (SHA224_Final (SHA224_Update SHA224_Init data))"

definition SHA256 :: "u8 list \<Rightarrow> u8 list option" where
  "SHA256 data = fst (SHA256_Final (SHA256_Update SHA256_Init data))"

section \<open>FIPS 180-4\<close>

fun sha256_W :: "u32 list \<Rightarrow> nat \<Rightarrow> u32" where
  "sha256_W M t =
     (if t < 16 then M ! t
      else (word_rotr 17 (sha256_W M (t - 2)) XOR word_rotr 19 (sha256_W M (t - 2)) XOR drop_bit 10 (sha256_W M (t - 2)))
         + sha256_W M (t - 7)
         + (word_rotr 7 (sha256_W M (t - 15)) XOR word_rotr 18 (sha256_W M (t - 15)) XOR drop_bit 3 (sha256_W M (t - 15)))
         + sha256_W M (t - 16))"

declare sha256_W.simps [simp del]

fun fips_sha256_step :: "u32 list \<Rightarrow> nat \<Rightarrow> u32 list \<Rightarrow> u32 list" where
  "fips_sha256_step M t [a, b, c, d, e, f, g, h] =
     (let T1 = h + (word_rotr 6 e XOR word_rotr 11 e XOR word_rotr 25 e) + ((e AND f) XOR (NOT e AND g))
             + K256 ! t + sha256_W M t;
          T2 = (word_rotr 2 a XOR word_rotr 13 a XOR word_rotr 22 a) + ((a AND b) XOR (a AND c) XOR (b AND c))
      in [T1 + T2, a, b, c, d + T1, e, f, g])"
| "fips_sha256_step M t s = s"

definition fips_sha256_block :: "u32 list \<Rightarrow> u8 list \<Rightarrow> u32 list" where
  "fips_sha256_block H data = map2 (+) H (fold (fips_sha256_step (be_words data)) [0..<64] H)"

definition fips_sha2_32 :: "u32 list \<Rightarrow> nat \<Rightarrow> u8 list \<Rightarrow> u8 list" where
  "fips_sha2_32 iv n msg =
     take n (concat (map (\<lambda>w. be_bytes 4 (unat w))
       (fold (\<lambda>b H. fips_sha256_block H b)
         (chunks 64 (md_pad 64 8 msg (be_bytes 8 (8 * length msg mod 2 ^ 64)))) iv)))"

definition fips_sha256 :: "u8 list \<Rightarrow> u8 list" where
  "fips_sha256 = fips_sha2_32 sha256_iv 32"

definition fips_sha224 :: "u8 list \<Rightarrow> u8 list" where
  "fips_sha224 = fips_sha2_32 sha224_iv 28"

section \<open>The code computes SHA-256\<close>

lemma Sigma_256_rotr:
  "Sigma0_256 x = word_rotr 2 x XOR word_rotr 13 x XOR word_rotr 22 x"
  "Sigma1_256 x = word_rotr 6 x XOR word_rotr 11 x XOR word_rotr 25 x"
  "sigma0_256 x = word_rotr 7 x XOR word_rotr 18 x XOR drop_bit 3 x"
  "sigma1_256 x = word_rotr 17 x XOR word_rotr 19 x XOR drop_bit 10 x"
  by (simp_all add: Sigma0_256_def Sigma1_256_def sigma0_256_def sigma1_256_def ROTATE_rotr)

lemma ROUND_256_sha2:
  "ROUND_00_15_256 i (arg 8 i 0) (arg 8 i 1) (arg 8 i 2) (arg 8 i 3) (arg 8 i 4) (arg 8 i 5) (arg 8 i 6) (arg 8 i 7) T1 R
    = sha2_round Sigma0_256 Sigma1_256 Ch_256 Maj_256 (K256 ! i) i T1 R"
  by (simp add: ROUND_00_15_256_def sha2_round_def Let_def)

lemma fips_sha256_step_sha2:
  "length s = 8 \<Longrightarrow> fips_sha256_step M t s = sha2_step Sigma0_256 Sigma1_256 Ch_256 Maj_256 (K256 ! t) (sha256_W M t) s"
  using list8 [of s] by (auto simp: Sigma_256_rotr Ch_256_def Maj_256_def Let_def)

interpretation sha256: sha2 Sigma0_256 Sigma1_256 sigma0_256 sigma1_256 Ch_256 Maj_256 "\<lambda>t. K256 ! t"
  sha256_W fips_sha256_step sha256_call
proof
  fix t :: nat and M :: "u32 list"
  show "sha256_W M t = M ! t" if "t < 16" using that by (simp add: sha256_W.simps)
  show "sha256_W M t = sha256_W M (t - 16) +
      (sigma0_256 (sha256_W M (t - 15)) + sigma1_256 (sha256_W M (t - 2)) + sha256_W M (t - 7))" if "16 \<le> t"
    using that by (subst sha256_W.simps) (simp add: Sigma_256_rotr)
next
  fix i :: nat and R X :: "u32 list"
  show "sha256_call i (R, X) = (sha2_round Sigma0_256 Sigma1_256 Ch_256 Maj_256 (K256 ! i) i (X ! i) R, X)" if "i < 16"
    using that unfolding sha256_call_def Let_def fst_conv snd_conv ROUND_256_sha2 by simp
next
  fix i :: nat and T1 and R X :: "u32 list"
  assume "16 \<le> i" and T1: "T1 = X ! (i mod 16) +
      (sigma0_256 (X ! ((i + 1) mod 16)) + sigma1_256 (X ! ((i + 14) mod 16)) + X ! ((i + 9) mod 16))"
  then have "\<not> i < 16" by simp
  then show "sha256_call i (R, X) =
      (sha2_round Sigma0_256 Sigma1_256 Ch_256 Maj_256 (K256 ! i) i T1 R, X[i mod 16 := T1])"
    unfolding sha256_call_def ROUND_16_63_def Let_def prod.case ROUND_256_sha2 T1 by (simp only: if_False)
qed (rule fips_sha256_step_sha2)

lemma sha256_block_fips:
  assumes "length H = 8"
  shows "sha256_block H data = fips_sha256_block H data \<and> length (sha256_block H data) = 8"
proof -
  obtain R X where r: "fold sha256_call [0..<8 * 8] (H, be_words data) = (R, X)" by fastforce
  then have "sha256_block H data = fips_sha256_block H data"
    using sha256.block [OF assms length_words(1) r] assms by (simp add: sha256_block_def fips_sha256_block_def)
  moreover have "length (sha256_block H data) = 8" by (simp add: sha256_block_def split_beta)
  ultimately show ?thesis by simp
qed

lemma fold_sha256_block:
  "length H = 8 \<Longrightarrow> fold (\<lambda>b H. sha256_block H b) bs H = fold (\<lambda>b H. fips_sha256_block H b) bs H \<and>
    length (fold (\<lambda>b H. sha256_block H b) bs H) = 8"
  by (rule fold_blocks_eq) (rule sha256_block_fips)

lemma sha256_make_string_eq:
  assumes "length h = 8"
  shows "sha256_make_string 32 h = Some (take 32 (concat (map (\<lambda>w. be_bytes 4 (unat w)) h)))"
    "sha256_make_string 28 h = Some (take 28 (concat (map (\<lambda>w. be_bytes 4 (unat w)) h)))"
  using list8 [OF assms] by (auto simp: sha256_make_string_def HOST_l2c_be_eq upt_rec)

definition sha256_stream :: "u8 list list \<Rightarrow> u8 list option" where
  "sha256_stream xss = fst (SHA256_Final (foldl SHA256_Update SHA256_Init xss))"

definition sha224_stream :: "u8 list list \<Rightarrow> u8 list option" where
  "sha224_stream xss = fst (SHA224_Final (foldl SHA224_Update SHA224_Init xss))"

lemma sha2_32_message:
  assumes "length iv = 8"
  shows "md_h (HASH_FINAL sha256_block len_field_be (foldl (HASH_UPDATE sha256_block) (md_start iv n) xss)) =
      fold (\<lambda>b H. fips_sha256_block H b)
        (chunks 64 (md_pad 64 8 (concat xss) (be_bytes 8 (8 * length (concat xss) mod 2 ^ 64)))) iv"
    "length (md_h (HASH_FINAL sha256_block len_field_be (foldl (HASH_UPDATE sha256_block) (md_start iv n) xss))) = 8"
    "md_len (HASH_FINAL sha256_block len_field_be (foldl (HASH_UPDATE sha256_block) (md_start iv n) xss)) = n"
proof -
  note m = md32_message [where blk = sha256_block and len_field = len_field_be and field = "be_bytes 8" and k = n and xss = xss and ?h0.0 = iv]
  have h: "md_h (HASH_FINAL sha256_block len_field_be (foldl (HASH_UPDATE sha256_block) (md_start iv n) xss)) =
      fold (\<lambda>b h. sha256_block h b)
        (chunks 64 (md_pad 64 8 (concat xss) (be_bytes 8 (8 * length (concat xss) mod 2 ^ 64)))) iv"
    by (rule m(1)) (simp_all add: len_field_be_eq)
  then show "md_h (HASH_FINAL sha256_block len_field_be (foldl (HASH_UPDATE sha256_block) (md_start iv n) xss)) =
      fold (\<lambda>b H. fips_sha256_block H b)
        (chunks 64 (md_pad 64 8 (concat xss) (be_bytes 8 (8 * length (concat xss) mod 2 ^ 64)))) iv"
    using fold_sha256_block [OF assms] by simp
  show "length (md_h (HASH_FINAL sha256_block len_field_be (foldl (HASH_UPDATE sha256_block) (md_start iv n) xss))) = 8"
    unfolding h by (rule fold_sha256_block [OF assms, THEN conjunct2])
  show "md_len (HASH_FINAL sha256_block len_field_be (foldl (HASH_UPDATE sha256_block) (md_start iv n) xss)) = n"
    by (rule m(2)) (simp_all add: len_field_be_eq)
qed

lemma sha256_stream_fips: "sha256_stream xss = Some (fips_sha256 (concat xss))"
proof -
  have start: "SHA256_Init = md_start sha256_iv 32" by (simp add: SHA256_Init_def md_start_def)
  have "length sha256_iv = 8" by (simp add: sha256_iv_def)
  note m = sha2_32_message [OF this, of 32 xss]
  show ?thesis unfolding sha256_stream_def SHA256_Final_def Let_def SHA256_Update_def start fst_conv
    using sha256_make_string_eq [OF m(2)] by (simp add: m fips_sha256_def fips_sha2_32_def)
qed

lemma sha224_stream_fips: "sha224_stream xss = Some (fips_sha224 (concat xss))"
proof -
  have start: "SHA224_Init = md_start sha224_iv 28" by (simp add: SHA224_Init_def md_start_def)
  have u: "SHA224_Update = HASH_UPDATE sha256_block" by (rule ext)+ (simp add: SHA224_Update_def SHA256_Update_def)
  have "length sha224_iv = 8" by (simp add: sha224_iv_def)
  note m = sha2_32_message [OF this, of 28 xss]
  show ?thesis unfolding sha224_stream_def SHA224_Final_def SHA256_Final_def Let_def u start fst_conv
    using sha256_make_string_eq [OF m(2)] by (simp add: m fips_sha224_def fips_sha2_32_def)
qed

text \<open>
  C26. Whatever pieces the message arrives in, the streamed digests are SHA-256 and SHA-224 of FIPS
  180-4 of the whole message; \<open>SHA256_Final\<close> never takes its failing branch.
\<close>

theorem sha256_sha224_fips:
  "sha256_stream xss = Some (fips_sha256 (concat xss)) \<and> sha224_stream xss = Some (fips_sha224 (concat xss))"
  using sha256_stream_fips sha224_stream_fips by blast

end
