(* ===== verification/Sha512.thy ===== *)
theory Sha512
  imports Sha2_Rounds
begin

text \<open>
  \<open>crypto/fipsmodule/sha/sha512.c\<close>: SHA-512 and SHA-384, with their own collector (128-byte blocks, a
  128-bit counter in two words). The portable \<open>ROTR\<close> and the unrolled \<open>sha512_block_data_order\<close> are
  modelled, and the variant for i386, which keeps the registers in the window \<open>F\<close> of one array that
  moves down. The code is proved equal to FIPS 180-4.
\<close>

unbundle bit_operations_syntax

section \<open>The code\<close>

type_synonym u64 = "64 word"

record sha512_state_st =
  s5_h :: "u64 list"
  s5_Nl :: u64
  s5_Nh :: u64
  s5_p :: "u8 list"
  s5_num :: nat
  s5_md_len :: nat

text \<open>The table, by the rows of the source.\<close>

definition K512 :: "u64 list" where
  "K512 =
  concat
  [[0x428a2f98d728ae22, 0x7137449123ef65cd],
   [0xb5c0fbcfec4d3b2f, 0xe9b5dba58189dbbc],
   [0x3956c25bf348b538, 0x59f111f1b605d019],
   [0x923f82a4af194f9b, 0xab1c5ed5da6d8118],
   [0xd807aa98a3030242, 0x12835b0145706fbe],
   [0x243185be4ee4b28c, 0x550c7dc3d5ffb4e2],
   [0x72be5d74f27b896f, 0x80deb1fe3b1696b1],
   [0x9bdc06a725c71235, 0xc19bf174cf692694],
   [0xe49b69c19ef14ad2, 0xefbe4786384f25e3],
   [0x0fc19dc68b8cd5b5, 0x240ca1cc77ac9c65],
   [0x2de92c6f592b0275, 0x4a7484aa6ea6e483],
   [0x5cb0a9dcbd41fbd4, 0x76f988da831153b5],
   [0x983e5152ee66dfab, 0xa831c66d2db43210],
   [0xb00327c898fb213f, 0xbf597fc7beef0ee4],
   [0xc6e00bf33da88fc2, 0xd5a79147930aa725],
   [0x06ca6351e003826f, 0x142929670a0e6e70],
   [0x27b70a8546d22ffc, 0x2e1b21385c26c926],
   [0x4d2c6dfc5ac42aed, 0x53380d139d95b3df],
   [0x650a73548baf63de, 0x766a0abb3c77b2a8],
   [0x81c2c92e47edaee6, 0x92722c851482353b],
   [0xa2bfe8a14cf10364, 0xa81a664bbc423001],
   [0xc24b8b70d0f89791, 0xc76c51a30654be30],
   [0xd192e819d6ef5218, 0xd69906245565a910],
   [0xf40e35855771202a, 0x106aa07032bbd1b8],
   [0x19a4c116b8d2d0c8, 0x1e376c085141ab53],
   [0x2748774cdf8eeb99, 0x34b0bcb5e19b48a8],
   [0x391c0cb3c5c95a63, 0x4ed8aa4ae3418acb],
   [0x5b9cca4f7763e373, 0x682e6ff3d6b2b8a3],
   [0x748f82ee5defb2fc, 0x78a5636f43172f60],
   [0x84c87814a1f0ab72, 0x8cc702081a6439ec],
   [0x90befffa23631e28, 0xa4506cebde82bde9],
   [0xbef9a3f7b2c67915, 0xc67178f2e372532b],
   [0xca273eceea26619c, 0xd186b8c721c0c207],
   [0xeada7dd6cde0eb1e, 0xf57d4f7fee6ed178],
   [0x06f067aa72176fba, 0x0a637dc5a2c898a6],
   [0x113f9804bef90dae, 0x1b710b35131c471b],
   [0x28db77f523047d84, 0x32caab7b40c72493],
   [0x3c9ebe0a15c9bebc, 0x431d67c49c100d4c],
   [0x4cc5d4becb3e42b6, 0x597f299cfc657e2a],
   [0x5fcb6fab3ad6faec, 0x6c44198c4a475817]]"

definition ROTR :: "u64 \<Rightarrow> nat \<Rightarrow> u64" where
  "ROTR x s = drop_bit s x OR push_bit (64 - s) x"

text \<open>The copy into a little-endian word, then \<open>CRYPTO_bswap8\<close>.\<close>

fun load_u64_be :: "u8 list \<Rightarrow> u64" where
  "load_u64_be (c0 # c1 # c2 # c3 # c4 # c5 # c6 # c7 # _) =
     push_bit 56 (ucast c0) OR push_bit 48 (ucast c1) OR push_bit 40 (ucast c2) OR push_bit 32 (ucast c3) OR
     push_bit 24 (ucast c4) OR push_bit 16 (ucast c5) OR push_bit 8 (ucast c6) OR ucast c7"
| "load_u64_be _ = 0"

definition Sigma0_512 :: "u64 \<Rightarrow> u64" where
  "Sigma0_512 x = ROTR x 28 XOR ROTR x 34 XOR ROTR x 39"

definition Sigma1_512 :: "u64 \<Rightarrow> u64" where
  "Sigma1_512 x = ROTR x 14 XOR ROTR x 18 XOR ROTR x 41"

definition sigma0_512 :: "u64 \<Rightarrow> u64" where
  "sigma0_512 x = ROTR x 1 XOR ROTR x 8 XOR drop_bit 7 x"

definition sigma1_512 :: "u64 \<Rightarrow> u64" where
  "sigma1_512 x = ROTR x 19 XOR ROTR x 61 XOR drop_bit 6 x"

definition Ch_512 :: "u64 \<Rightarrow> u64 \<Rightarrow> u64 \<Rightarrow> u64" where
  "Ch_512 x y z = (x AND y) XOR (NOT x AND z)"

definition Maj_512 :: "u64 \<Rightarrow> u64 \<Rightarrow> u64 \<Rightarrow> u64" where
  "Maj_512 x y z = (x AND y) XOR (x AND z) XOR (y AND z)"

definition ROUND_00_15_512 ::
  "nat \<Rightarrow> nat \<Rightarrow> nat \<Rightarrow> nat \<Rightarrow> nat \<Rightarrow> nat \<Rightarrow> nat \<Rightarrow> nat \<Rightarrow> nat \<Rightarrow> u64 \<Rightarrow> u64 list \<Rightarrow> u64 list" where
  "ROUND_00_15_512 i a b c d e f g h T1 R =
     (let T1 = T1 + (R ! h + Sigma1_512 (R ! e) + Ch_512 (R ! e) (R ! f) (R ! g) + K512 ! i);
          R = R[h := Sigma0_512 (R ! a) + Maj_512 (R ! a) (R ! b) (R ! c)];
          R = R[d := R ! d + T1];
          R = R[h := R ! h + T1]
      in R)"

definition ROUND_16_80 ::
  "nat \<Rightarrow> nat \<Rightarrow> nat \<Rightarrow> nat \<Rightarrow> nat \<Rightarrow> nat \<Rightarrow> nat \<Rightarrow> nat \<Rightarrow> nat \<Rightarrow> nat \<Rightarrow> u64 list \<times> u64 list \<Rightarrow> u64 list \<times> u64 list" where
  "ROUND_16_80 i j a b c d e f g h v =
     (let (R, X) = v;
          s0 = sigma0_512 (X ! ((j + 1) mod 16));
          s1 = sigma1_512 (X ! ((j + 14) mod 16));
          T1 = X ! (j mod 16) + (s0 + s1 + X ! ((j + 9) mod 16))
      in (ROUND_00_15_512 (i + j) a b c d e f g h T1 R, X[j mod 16 := T1]))"

text \<open>
  The calls in order. In the first sixteen \<open>T1\<close> is the word just loaded; call \<open>n\<close> of the loop is
  call \<open>j\<close> of the pass that starts at \<open>i\<close>.
\<close>

definition sha512_call :: "nat \<Rightarrow> u64 list \<times> u64 list \<Rightarrow> u64 list \<times> u64 list" where
  "sha512_call n v =
     (let a = arg 8 n 0; b = arg 8 n 1; c = arg 8 n 2; d = arg 8 n 3;
          e = arg 8 n 4; f = arg 8 n 5; g = arg 8 n 6; h = arg 8 n 7
      in if n < 16 then (ROUND_00_15_512 n a b c d e f g h (snd v ! n) (fst v), snd v)
         else ROUND_16_80 (16 * (n div 16)) (n mod 16) a b c d e f g h v)"

definition be_words64 :: "u8 list \<Rightarrow> u64 list" where
  "be_words64 data = map (\<lambda>k. load_u64_be (drop (8 * k) data)) [0..<16]"

definition sha512_block :: "u64 list \<Rightarrow> u8 list \<Rightarrow> u64 list" where
  "sha512_block state data =
     (let (R, X) = fold sha512_call [0..<80] (take 8 state, be_words64 data)
      in [state ! 0 + R ! 0, state ! 1 + R ! 1, state ! 2 + R ! 2, state ! 3 + R ! 3,
          state ! 4 + R ! 4, state ! 5 + R ! 5, state ! 6 + R ! 6, state ! 7 + R ! 7])"

definition sha512_block_data_order :: "u64 list \<Rightarrow> u8 list \<Rightarrow> nat \<Rightarrow> u64 list" where
  "sha512_block_data_order = block_data_order sha512_block 128"

definition sha384_iv :: "u64 list" where
  "sha384_iv =
  [0xcbbb9d5dc1059ed8, 0x629a292a367cd507, 0x9159015a3070dd17, 0x152fecd8f70e5939,
   0x67332667ffc00b31, 0x8eb44a8768581511, 0xdb0c2e0d64f98fa7, 0x47b5481dbefa4fa4]"

definition sha512_iv :: "u64 list" where
  "sha512_iv =
  [0x6a09e667f3bcc908, 0xbb67ae8584caa73b, 0x3c6ef372fe94f82b, 0xa54ff53a5f1d36f1,
   0x510e527fade682d1, 0x9b05688c2b3e6c1f, 0x1f83d9abfb41bd6b, 0x5be0cd19137e2179]"

text \<open>The buffer \<open>p\<close> is left as it is found.\<close>

definition SHA384_Init :: "sha512_state_st \<Rightarrow> sha512_state_st" where
  "SHA384_Init sha = sha\<lparr>s5_h := sha384_iv, s5_Nl := 0, s5_Nh := 0, s5_num := 0, s5_md_len := 48\<rparr>"

definition SHA512_Init :: "sha512_state_st \<Rightarrow> sha512_state_st" where
  "SHA512_Init sha = sha\<lparr>s5_h := sha512_iv, s5_Nl := 0, s5_Nh := 0, s5_num := 0, s5_md_len := 64\<rparr>"

definition SHA512_Transform :: "sha512_state_st \<Rightarrow> u8 list \<Rightarrow> sha512_state_st" where
  "SHA512_Transform c block = c\<lparr>s5_h := sha512_block_data_order (s5_h c) block 1\<rparr>"

text \<open>\<open>SHA512_Update\<close>; the first definition is what it does from the second block on.\<close>

definition sha512_rest :: "sha512_state_st \<Rightarrow> u8 list \<Rightarrow> sha512_state_st" where
  "sha512_rest c data =
     (let c' = (if length data \<ge> 128
                then c\<lparr>s5_h := sha512_block_data_order (s5_h c) data (length data div 128)\<rparr> else c);
          data' = (if length data \<ge> 128 then drop (length data - length data mod 128) data else data)
      in if length data' \<noteq> 0 then c'\<lparr>s5_p := put_at 0 data' (s5_p c'), s5_num := length data'\<rparr> else c')"

definition SHA512_Update :: "sha512_state_st \<Rightarrow> u8 list \<Rightarrow> sha512_state_st" where
  "SHA512_Update c data =
     (if length data = 0 then c
      else
        let l = (s5_Nl c + push_bit 3 (of_nat (length data))) AND 0xffffffffffffffff;
            c = (if l < s5_Nl c then c\<lparr>s5_Nh := s5_Nh c + 1\<rparr> else c);
            c = c\<lparr>s5_Nh := s5_Nh c + of_nat (length data div 2 ^ 61)\<rparr>;
            c = c\<lparr>s5_Nl := l\<rparr>
        in if s5_num c \<noteq> 0 then
             (let n = 128 - s5_num c
              in if length data < n then c\<lparr>s5_p := put_at (s5_num c) data (s5_p c), s5_num := s5_num c + length data\<rparr>
                 else
                   let c = c\<lparr>s5_p := put_at (s5_num c) (take n data) (s5_p c), s5_num := 0\<rparr>
                   in sha512_rest (c\<lparr>s5_h := sha512_block_data_order (s5_h c) (s5_p c) 1\<rparr>) (drop n data))
           else sha512_rest c data)"

text \<open>The eight bytes that are written for a word.\<close>

definition store_u64 :: "u64 \<Rightarrow> u8 list" where
  "store_u64 t =
     [ucast (drop_bit 56 t), ucast (drop_bit 48 t), ucast (drop_bit 40 t), ucast (drop_bit 32 t),
      ucast (drop_bit 24 t), ucast (drop_bit 16 t), ucast (drop_bit 8 t), ucast t]"

text \<open>\<open>None\<close> is the return of zero: a null \<open>out\<close>, or a bad \<open>md_len\<close>.\<close>

definition SHA512_Final :: "bool \<Rightarrow> sha512_state_st \<Rightarrow> u8 list option \<times> sha512_state_st" where
  "SHA512_Final out_null sha =
     (let n = s5_num sha;
          p = (s5_p sha)[n := 0x80];
          n = n + 1;
          (h, p, n) =
            (if n > 128 - 16 then
               (let p = put_at n (replicate (128 - n) 0) p
                in (sha512_block_data_order (s5_h sha) p 1, p, 0))
             else (s5_h sha, p, n));
          p = put_at n (replicate (128 - 16 - n) 0) p;
          p = put_at (128 - 16) (store_u64 (s5_Nh sha) @ store_u64 (s5_Nl sha)) p;
          sha = sha\<lparr>s5_h := sha512_block_data_order h p 1, s5_p := p\<rparr>
      in if out_null then (None, sha)
         else if s5_md_len sha = 48 then (Some (concat (map (\<lambda>n. store_u64 (s5_h sha ! n)) [0..<48 div 8])), sha)
         else if s5_md_len sha = 64 then (Some (concat (map (\<lambda>n. store_u64 (s5_h sha ! n)) [0..<64 div 8])), sha)
         else (None, sha))"

definition SHA384_Final :: "bool \<Rightarrow> sha512_state_st \<Rightarrow> u8 list option \<times> sha512_state_st" where
  "SHA384_Final out_null sha = SHA512_Final out_null sha"

definition SHA384_Update :: "sha512_state_st \<Rightarrow> u8 list \<Rightarrow> sha512_state_st" where
  "SHA384_Update sha data = SHA512_Update sha data"

text \<open>One-shot hashing; \<open>ctx\<close> is the uninitialised local context, \<open>OPENSSL_cleanse\<close> clears it at the end.\<close>

definition SHA384 :: "sha512_state_st \<Rightarrow> u8 list \<Rightarrow> u8 list option" where
  "SHA384 ctx data = fst (SHA384_Final False (SHA384_Update (SHA384_Init ctx) data))"

definition SHA512 :: "sha512_state_st \<Rightarrow> u8 list \<Rightarrow> u8 list option" where
  "SHA512 ctx data = fst (SHA512_Final False (SHA512_Update (SHA512_Init ctx) data))"

section \<open>The variant for i386\<close>

text \<open>
  The variables \<open>A\<close> and \<open>E\<close>, the index of \<open>F\<close> in the array \<open>X\<close>, and \<open>X\<close>. The step below is one round of
  the loops; the word that enters is loaded in the first sixteen and computed later.
\<close>

type_synonym sha512_window = "u64 \<times> u64 \<times> nat \<times> u64 list"

definition sha512_i386_word :: "u8 list \<Rightarrow> nat \<Rightarrow> nat \<Rightarrow> u64 list \<Rightarrow> u64" where
  "sha512_i386_word data i F X =
     (if i < 16 then load_u64_be (drop (8 * i) data)
      else let T = sigma0_512 (X ! (F + (8 + 16 - 1)));
               T = T + sigma1_512 (X ! (F + (8 + 16 - 14)))
           in T + (X ! (F + (8 + 16)) + X ! (F + (8 + 16 - 9))))"

definition sha512_i386_step :: "u8 list \<Rightarrow> nat \<Rightarrow> sha512_window \<Rightarrow> sha512_window" where
  "sha512_i386_step data i v =
     (let (A, E, F, X) = v;
          T = sha512_i386_word data i F X;
          X = X[F := A];
          X = X[F + 4 := E];
          X = X[F + 8 := T];
          T = T + (X ! (F + 7) + Sigma1_512 E + Ch_512 E (X ! (F + 5)) (X ! (F + 6)) + K512 ! i);
          E = X ! (F + 3) + T;
          A = T + Sigma0_512 A + Maj_512 A (X ! (F + 1)) (X ! (F + 2))
      in (A, E, F - 1, X))"

definition sha512_i386_block :: "u64 list \<Rightarrow> u8 list \<Rightarrow> u64 list \<Rightarrow> u64 list" where
  "sha512_i386_block state data X0 =
     (let X = X0[81 := state ! 1, 82 := state ! 2, 83 := state ! 3, 85 := state ! 5, 86 := state ! 6, 87 := state ! 7];
          (A, E, F, X) = fold (sha512_i386_step data) [0..<80] (state ! 0, state ! 4, 80, X)
      in [state ! 0 + A, state ! 1 + X ! (F + 1), state ! 2 + X ! (F + 2), state ! 3 + X ! (F + 3),
          state ! 4 + E, state ! 5 + X ! (F + 5), state ! 6 + X ! (F + 6), state ! 7 + X ! (F + 7)])"

section \<open>FIPS 180-4\<close>

fun sha512_W :: "u64 list \<Rightarrow> nat \<Rightarrow> u64" where
  "sha512_W M t =
     (if t < 16 then M ! t
      else (word_rotr 19 (sha512_W M (t - 2)) XOR word_rotr 61 (sha512_W M (t - 2)) XOR drop_bit 6 (sha512_W M (t - 2)))
         + sha512_W M (t - 7)
         + (word_rotr 1 (sha512_W M (t - 15)) XOR word_rotr 8 (sha512_W M (t - 15)) XOR drop_bit 7 (sha512_W M (t - 15)))
         + sha512_W M (t - 16))"

declare sha512_W.simps [simp del]

fun fips_sha512_step :: "u64 list \<Rightarrow> nat \<Rightarrow> u64 list \<Rightarrow> u64 list" where
  "fips_sha512_step M t [a, b, c, d, e, f, g, h] =
     (let T1 = h + (word_rotr 14 e XOR word_rotr 18 e XOR word_rotr 41 e) + ((e AND f) XOR (NOT e AND g))
             + K512 ! t + sha512_W M t;
          T2 = (word_rotr 28 a XOR word_rotr 34 a XOR word_rotr 39 a) + ((a AND b) XOR (a AND c) XOR (b AND c))
      in [T1 + T2, a, b, c, d + T1, e, f, g])"
| "fips_sha512_step M t s = s"

definition fips_sha512_block :: "u64 list \<Rightarrow> u8 list \<Rightarrow> u64 list" where
  "fips_sha512_block H data = map2 (+) H (fold (fips_sha512_step (be_words64 data)) [0..<80] H)"

definition fips_sha2_64 :: "u64 list \<Rightarrow> nat \<Rightarrow> u8 list \<Rightarrow> u8 list" where
  "fips_sha2_64 iv n msg =
     take n (concat (map (\<lambda>w. be_bytes 8 (unat w))
       (fold (\<lambda>b H. fips_sha512_block H b)
         (chunks 128 (md_pad 128 16 msg (be_bytes 16 (8 * length msg mod 2 ^ 128)))) iv)))"

definition fips_sha512 :: "u8 list \<Rightarrow> u8 list" where
  "fips_sha512 = fips_sha2_64 sha512_iv 64"

definition fips_sha384 :: "u8 list \<Rightarrow> u8 list" where
  "fips_sha384 = fips_sha2_64 sha384_iv 48"

section \<open>The block function\<close>

lemma ROTR_rotr: "0 < s \<Longrightarrow> s < 64 \<Longrightarrow> ROTR x s = word_rotr s x"
  using rotr_eq [of s x] by (simp add: ROTR_def)

lemma Sigma_512_rotr:
  "Sigma0_512 x = word_rotr 28 x XOR word_rotr 34 x XOR word_rotr 39 x"
  "Sigma1_512 x = word_rotr 14 x XOR word_rotr 18 x XOR word_rotr 41 x"
  "sigma0_512 x = word_rotr 1 x XOR word_rotr 8 x XOR drop_bit 7 x"
  "sigma1_512 x = word_rotr 19 x XOR word_rotr 61 x XOR drop_bit 6 x"
  by (simp_all add: Sigma0_512_def Sigma1_512_def sigma0_512_def sigma1_512_def ROTR_rotr)

lemma length_be_words64 [simp]: "length (be_words64 data) = 16"
  by (simp add: be_words64_def)

lemma ROUND_512_sha2:
  "ROUND_00_15_512 i (arg 8 i 0) (arg 8 i 1) (arg 8 i 2) (arg 8 i 3) (arg 8 i 4) (arg 8 i 5) (arg 8 i 6) (arg 8 i 7) T1 R
    = sha2_round Sigma0_512 Sigma1_512 Ch_512 Maj_512 (K512 ! i) i T1 R"
  by (simp add: ROUND_00_15_512_def sha2_round_def Let_def)

lemma fips_sha512_step_sha2:
  "length s = 8 \<Longrightarrow> fips_sha512_step M t s = sha2_step Sigma0_512 Sigma1_512 Ch_512 Maj_512 (K512 ! t) (sha512_W M t) s"
  using list8 [of s] by (auto simp: Sigma_512_rotr Ch_512_def Maj_512_def Let_def)

lemma sha512_W_next: "16 \<le> t \<Longrightarrow> sha512_W M t = sha512_W M (t - 16) +
    (sigma0_512 (sha512_W M (t - 15)) + sigma1_512 (sha512_W M (t - 2)) + sha512_W M (t - 7))"
  by (subst sha512_W.simps) (simp add: Sigma_512_rotr)

lemma sha512_W_load: "t < 16 \<Longrightarrow> sha512_W M t = M ! t"
  by (simp add: sha512_W.simps)

interpretation sha512: sha2 Sigma0_512 Sigma1_512 sigma0_512 sigma1_512 Ch_512 Maj_512 "\<lambda>t. K512 ! t"
  sha512_W fips_sha512_step sha512_call
proof
  fix i :: nat and R X :: "u64 list"
  show "sha512_call i (R, X) = (sha2_round Sigma0_512 Sigma1_512 Ch_512 Maj_512 (K512 ! i) i (X ! i) R, X)" if "i < 16"
    using that unfolding sha512_call_def Let_def fst_conv snd_conv ROUND_512_sha2 by simp
next
  fix i :: nat and T1 and R X :: "u64 list"
  assume "16 \<le> i" and T1: "T1 = X ! (i mod 16) +
      (sigma0_512 (X ! ((i + 1) mod 16)) + sigma1_512 (X ! ((i + 14) mod 16)) + X ! ((i + 9) mod 16))"
  then have "\<not> i < 16" by simp
  moreover have "16 * (i div 16) + i mod 16 = i" by simp
  moreover have "\<And>k. (i mod 16 + k) mod 16 = (i + k) mod 16" by (simp add: mod_add_left_eq)
  ultimately show "sha512_call i (R, X) =
      (sha2_round Sigma0_512 Sigma1_512 Ch_512 Maj_512 (K512 ! i) i T1 R, X[i mod 16 := T1])"
    unfolding sha512_call_def ROUND_16_80_def Let_def prod.case T1 ROUND_512_sha2 [symmetric] mod_mod_trivial
    by (simp only: if_False)
qed (rule sha512_W_load sha512_W_next fips_sha512_step_sha2, assumption)+

lemma sha512_block_fips:
  assumes "length H = 8"
  shows "sha512_block H data = fips_sha512_block H data \<and> length (sha512_block H data) = 8"
proof -
  obtain R X where r: "fold sha512_call [0..<8 * 10] (H, be_words64 data) = (R, X)" by fastforce
  then have "sha512_block H data = fips_sha512_block H data"
    using sha512.block [OF assms length_be_words64 r] assms by (simp add: sha512_block_def fips_sha512_block_def)
  moreover have "length (sha512_block H data) = 8" by (simp add: sha512_block_def split_beta)
  ultimately show ?thesis by simp
qed

lemma fold_sha512_block:
  "length H = 8 \<Longrightarrow> fold (\<lambda>b H. sha512_block H b) bs H = fold (\<lambda>b H. fips_sha512_block H b) bs H \<and>
    length (fold (\<lambda>b H. sha512_block H b) bs H) = 8"
  by (rule fold_blocks_eq) (rule sha512_block_fips)

section \<open>The i386 variant computes the same\<close>

definition window_ok :: "u64 list \<Rightarrow> nat \<Rightarrow> sha512_window \<Rightarrow> bool" where
  "window_ok M i v \<longleftrightarrow> (case v of (A, E, F, X) \<Rightarrow> F = 80 - i \<and> length X = 89 \<and>
     (\<forall>j < 16. j < i \<longrightarrow> X ! (F + 9 + j) = sha512_W M (i - 1 - j)))"

definition window_regs :: "sha512_window \<Rightarrow> u64 list" where
  "window_regs v = (case v of (A, E, F, X) \<Rightarrow>
     [A, X ! (F + 1), X ! (F + 2), X ! (F + 3), E, X ! (F + 5), X ! (F + 6), X ! (F + 7)])"

lemma window_word:
  assumes "window_ok (be_words64 data) i (A, E, F, X)"
  shows "sha512_i386_word data i F X = sha512_W (be_words64 data) i"
proof (cases "i < 16")
  case True
  then show ?thesis by (simp add: sha512_i386_word_def sha512_W_load be_words64_def)
next
  case False
  then have i: "16 \<le> i" by simp
  have w: "X ! (F + 9 + j) = sha512_W (be_words64 data) (i - 1 - j)" if "j < 16" for j
    using assms that i by (auto simp: window_ok_def)
  have "X ! (F + 23) = sha512_W (be_words64 data) (i - 15)" "X ! (F + 10) = sha512_W (be_words64 data) (i - 2)"
    "X ! (F + 24) = sha512_W (be_words64 data) (i - 16)" "X ! (F + 15) = sha512_W (be_words64 data) (i - 7)"
    using w [of 14] w [of 1] w [of 15] w [of 6] by (simp_all add: numeral_eq_Suc)
  then show ?thesis
    using False sha512_W_next [OF i, of "be_words64 data"]
    by (simp add: sha512_i386_word_def Let_def add.commute add.left_commute)
qed

lemma window_step:
  assumes "window_ok (be_words64 data) i v" "i < 80"
  shows "window_ok (be_words64 data) (i + 1) (sha512_i386_step data i v)"
    "window_regs (sha512_i386_step data i v) = fips_sha512_step (be_words64 data) i (window_regs v)"
proof -
  let ?M = "be_words64 data"
  obtain A E F X where v: "v = (A, E, F, X)" by (metis prod_cases4)
  have ok: "F = 80 - i" "length X = 89" "\<And>j. j < 16 \<Longrightarrow> j < i \<Longrightarrow> X ! (F + 9 + j) = sha512_W ?M (i - 1 - j)"
    using assms(1) by (auto simp: v window_ok_def)
  obtain F' where F: "F = Suc F'" "F' = 79 - i" using ok(1) assms(2) by (cases F) auto
  let ?W = "sha512_W ?M i"
  let ?X = "X[F := A, F + 4 := E, F + 8 := ?W]"
  let ?T = "?W + (X ! (F + 7) + Sigma1_512 E + Ch_512 E (X ! (F + 5)) (X ! (F + 6)) + K512 ! i)"
  have s: "sha512_i386_step data i v =
      (?T + Sigma0_512 A + Maj_512 A (X ! (F + 1)) (X ! (F + 2)), X ! (F + 3) + ?T, F', ?X)"
    using window_word [OF assms(1) [unfolded v]] F by (simp add: sha512_i386_step_def v Let_def)
  have "?X ! (F' + 9 + j) = sha512_W ?M (i + 1 - 1 - j)" if j: "j < 16" "j < i + 1" for j
  proof (cases j)
    case 0
    then have "F' + 9 + j = F + 8" "i + 1 - 1 - j = i" using F by simp_all
    moreover have "F + 8 < length X" using ok by simp
    ultimately show ?thesis by (simp only: nth_list_update_eq length_list_update)
  next
    case (Suc k)
    then show ?thesis using ok(3) [of k] j F by (simp add: add.assoc)
  qed
  then show "window_ok ?M (i + 1) (sha512_i386_step data i v)" using ok F by (simp add: s window_ok_def)
  have n: "?X ! (F' + 1) = A" "?X ! (F' + 2) = X ! (F + 1)" "?X ! (F' + 3) = X ! (F + 2)"
    "?X ! (F' + 5) = E" "?X ! (F' + 6) = X ! (F + 5)" "?X ! (F' + 7) = X ! (F + 6)"
  proof -
    have i: "F' + 1 = F" "F' + 2 = F + 1" "F' + 3 = F + 2" "F' + 5 = F + 4" "F' + 6 = F + 5" "F' + 7 = F + 6"
      using F by simp_all
    have l: "F < length X" "F + 4 < length X" "F + 8 < length X" using ok(1,2) by simp_all
    show "?X ! (F' + 1) = A" "?X ! (F' + 2) = X ! (F + 1)" "?X ! (F' + 3) = X ! (F + 2)"
      "?X ! (F' + 5) = E" "?X ! (F' + 6) = X ! (F + 5)" "?X ! (F' + 7) = X ! (F + 6)"
      unfolding i using l by simp_all
  qed
  show "window_regs (sha512_i386_step data i v) = fips_sha512_step ?M i (window_regs v)"
    unfolding s unfolding window_regs_def v prod.case n
    by (simp add: Sigma_512_rotr Ch_512_def Maj_512_def Let_def add.commute add.left_commute)
qed

lemma window_steps:
  assumes "window_ok (be_words64 data) 0 v" "n \<le> 80"
  shows "window_ok (be_words64 data) n (fold (sha512_i386_step data) [0..<n] v) \<and>
    window_regs (fold (sha512_i386_step data) [0..<n] v) = fold (fips_sha512_step (be_words64 data)) [0..<n] (window_regs v)"
  using assms(2)
proof (induction n)
  case (Suc n)
  then have IH: "window_ok (be_words64 data) n (fold (sha512_i386_step data) [0..<n] v)"
    "window_regs (fold (sha512_i386_step data) [0..<n] v) = fold (fips_sha512_step (be_words64 data)) [0..<n] (window_regs v)"
    by simp_all
  then show ?case using window_step [OF IH(1)] Suc.prems by simp
qed (use assms in simp)

lemma sha512_i386_block_eq:
  assumes "length H = 8" "length X0 = 89"
  shows "sha512_i386_block H data X0 = sha512_block H data"
proof -
  let ?X = "X0[81 := H ! 1, 82 := H ! 2, 83 := H ! 3, 85 := H ! 5, 86 := H ! 6, 87 := H ! 7]"
  obtain A E F X where v: "fold (sha512_i386_step data) [0..<80] (H ! 0, H ! 4, 80, ?X) = (A, E, F, X)"
    by (metis prod_cases4)
  have "window_ok (be_words64 data) 0 (H ! 0, H ! 4, 80, ?X)" using assms(2) by (simp add: window_ok_def)
  moreover have "window_regs (H ! 0, H ! 4, 80, ?X) = H"
    using list8 [OF assms(1)] assms(2) by (auto simp: window_regs_def)
  ultimately have "window_regs (A, E, F, X) = fold (fips_sha512_step (be_words64 data)) [0..<80] H"
    using window_steps [of data "(H ! 0, H ! 4, 80, ?X)" 80] v by simp
  then have "fips_sha512_block H data = map2 (+) H (window_regs (A, E, F, X))"
    by (simp only: fips_sha512_block_def)
  moreover have "sha512_i386_block H data X0 = map2 (+) H (window_regs (A, E, F, X))"
    unfolding sha512_i386_block_def Let_def v prod.case using list8 [OF assms(1)]
    by (auto simp: window_regs_def)
  ultimately show ?thesis using sha512_block_fips [OF assms(1)] by simp
qed

section \<open>The collector\<close>

definition sha512_ok :: "sha512_state_st \<Rightarrow> bool" where
  "sha512_ok c \<longleftrightarrow> s5_num c < 128 \<and> length (s5_p c) = 128"

definition sha512_pending :: "sha512_state_st \<Rightarrow> u8 list" where
  "sha512_pending c = take (s5_num c) (s5_p c)"

definition sha512_count :: "sha512_state_st \<Rightarrow> nat" where
  "sha512_count c = count2 (s5_Nh c) (s5_Nl c)"

lemma length_sha512_pending: "sha512_ok c \<Longrightarrow> length (sha512_pending c) = s5_num c"
  by (simp add: sha512_ok_def sha512_pending_def)

lemma sha512_blocks_all:
  "sha512_block_data_order h data (length data div 128) = fold (\<lambda>b h. sha512_block h b) (chunks 128 data) h"
  unfolding sha512_block_data_order_def by (rule blocks_all) simp

lemma sha512_rest_ok:
  assumes "length (s5_p c) = 128" "s5_num c = 0"
  shows "sha512_ok (sha512_rest c data) \<and> sha512_pending (sha512_rest c data) = leftover 128 data \<and>
    s5_h (sha512_rest c data) = fold (\<lambda>b h. sha512_block h b) (chunks 128 data) (s5_h c) \<and>
    sha512_count (sha512_rest c data) = sha512_count c \<and> s5_md_len (sha512_rest c data) = s5_md_len c"
proof -
  let ?rest = "drop (length data div 128 * 128) data"
  have l: "length ?rest < 128" by (simp add: minus_div_mult_eq_mod)
  have d: "(if length data \<ge> 128 then drop (length data - length data mod 128) data else data) = ?rest"
    by (simp add: minus_mod_eq_div_mult)
  have h: "(if length data \<ge> 128 then c\<lparr>s5_h := sha512_block_data_order (s5_h c) data (length data div 128)\<rparr> else c)
      = c\<lparr>s5_h := fold (\<lambda>b h. sha512_block h b) (chunks 128 data) (s5_h c)\<rparr>"
    using sha512_blocks_all [of "s5_h c" data] by (simp add: chunks_short)
  have r: "sha512_rest c data =
      (let c = c\<lparr>s5_h := fold (\<lambda>b h. sha512_block h b) (chunks 128 data) (s5_h c)\<rparr>
       in if length ?rest \<noteq> 0 then c\<lparr>s5_p := put_at 0 ?rest (s5_p c), s5_num := length ?rest\<rparr> else c)"
    unfolding sha512_rest_def Let_def d h ..
  have p: "length (put_at 0 ?rest (s5_p c)) = 128" "take (length ?rest) (put_at 0 ?rest (s5_p c)) = ?rest"
    using length_put_at [of 0 ?rest "s5_p c"] take_put_at [of 0 "s5_p c" ?rest] l assms(1) by simp_all
  show ?thesis
    unfolding r using p assms l leftover_drop_div [of 128 data]
    by (simp add: sha512_ok_def sha512_pending_def sha512_count_def Let_def del: length_drop)
qed

lemma sha512_bits:
  "unat (push_bit 3 (of_nat n) :: u64) = 8 * n mod 2 ^ 64"
  "unat (of_nat (n div 2 ^ 61) :: u64) = 8 * n div 2 ^ 64 mod 2 ^ 64"
proof -
  show "unat (push_bit 3 (of_nat n) :: u64) = 8 * n mod 2 ^ 64"
    by (simp add: unat_push_bit unat_of_nat mod_mult_right_eq mult.commute)
  have "8 * n div 2 ^ 64 = n div 2 ^ 61" using div_mult_mult1 [of 8 n "2 ^ 61"] by simp
  then show "unat (of_nat (n div 2 ^ 61) :: u64) = 8 * n div 2 ^ 64 mod 2 ^ 64" by (simp add: unat_of_nat)
qed

lemma and_all_ones_64: "(x :: u64) AND 0xffffffffffffffff = x"
proof -
  have "(0xffffffffffffffff :: u64) = - 1" by simp
  then show ?thesis by (simp only: and.right_neutral)
qed

text \<open>The counter after an update, and the rest of the update.\<close>

definition sha512_counted :: "sha512_state_st \<Rightarrow> nat \<Rightarrow> sha512_state_st" where
  "sha512_counted c n =
     (let l = s5_Nl c + push_bit 3 (of_nat n)
      in c\<lparr>s5_Nh := (if l < s5_Nl c then s5_Nh c + 1 else s5_Nh c) + of_nat (n div 2 ^ 61), s5_Nl := l\<rparr>)"

lemma sha512_counted_simps [simp]:
  "s5_h (sha512_counted c n) = s5_h c" "s5_p (sha512_counted c n) = s5_p c"
  "s5_num (sha512_counted c n) = s5_num c" "s5_md_len (sha512_counted c n) = s5_md_len c"
  by (simp_all add: sha512_counted_def Let_def)

lemma sha512_counted_count: "sha512_count (sha512_counted c n) = (sha512_count c + 8 * n) mod 2 ^ 128"
proof -
  let ?l = "push_bit 3 (of_nat n) :: u64" and ?h = "of_nat (n div 2 ^ 61) :: u64"
  have "sha512_count (sha512_counted c n) =
      count2 ((if s5_Nl c + ?l < s5_Nl c then s5_Nh c + 1 else s5_Nh c) + ?h) (s5_Nl c + ?l)"
    by (simp add: sha512_count_def sha512_counted_def Let_def del: push_bit_of_nat)
  also have "\<dots> = (sha512_count c + 8 * n) mod (2 ^ 64 * 2 ^ 64)"
    unfolding sha512_count_def
    by (rule count2_add) (simp, simp only: sha512_bits(1), simp only: sha512_bits(2))
  finally show ?thesis by simp
qed

lemma SHA512_Update_counted:
  assumes "data \<noteq> []"
  shows "SHA512_Update c data =
    (if s5_num c \<noteq> 0 then
       (if length data < 128 - s5_num c
        then (sha512_counted c (length data))\<lparr>s5_p := put_at (s5_num c) data (s5_p c), s5_num := s5_num c + length data\<rparr>
        else sha512_rest ((sha512_counted c (length data))
            \<lparr>s5_p := put_at (s5_num c) (take (128 - s5_num c) data) (s5_p c), s5_num := 0,
             s5_h := sha512_block_data_order (s5_h c) (put_at (s5_num c) (take (128 - s5_num c) data) (s5_p c)) 1\<rparr>)
          (drop (128 - s5_num c) data))
     else sha512_rest (sha512_counted c (length data)) data)"
proof -
  have "length data \<noteq> 0" using assms by simp
  then show ?thesis unfolding SHA512_Update_def sha512_counted_def Let_def and_all_ones_64
    by (auto simp del: push_bit_of_nat)
qed

lemma SHA512_Update_ok:
  assumes "sha512_ok c"
  shows "sha512_ok (SHA512_Update c data) \<and> sha512_pending (SHA512_Update c data) = leftover 128 (sha512_pending c @ data) \<and>
    s5_h (SHA512_Update c data) = fold (\<lambda>b h. sha512_block h b) (chunks 128 (sha512_pending c @ data)) (s5_h c) \<and>
    sha512_count (SHA512_Update c data) = (sha512_count c + 8 * length data) mod 2 ^ 128 \<and>
    s5_md_len (SHA512_Update c data) = s5_md_len c"
proof (cases "data = []")
  case True
  have "sha512_count c < 2 ^ 128" using count2_less [of "s5_Nh c" "s5_Nl c"] by (simp add: sha512_count_def)
  then show ?thesis
    using True assms length_sha512_pending [OF assms]
    by (simp add: SHA512_Update_def leftover_short chunks_short sha512_ok_def)
next
  case False
  have ok: "s5_num c < 128" "length (s5_p c) = 128" using assms by (simp_all add: sha512_ok_def)
  have p: "length (sha512_pending c) = s5_num c" using assms by (rule length_sha512_pending)
  let ?c = "sha512_counted c (length data)" and ?n = "128 - s5_num c"
  note count = sha512_counted_count [of c "length data"]
  consider "s5_num c = 0" | "s5_num c \<noteq> 0" "length data < ?n" | "s5_num c \<noteq> 0" "\<not> length data < ?n" by blast
  then show ?thesis
  proof cases
    case 1
    then have "sha512_pending c = []" by (simp add: sha512_pending_def)
    then show ?thesis using sha512_rest_ok [of ?c data] 1 ok count by (simp add: SHA512_Update_counted [OF False])
  next
    case 2
    have "length (put_at (s5_num c) data (s5_p c)) = 128"
      "take (s5_num c + length data) (put_at (s5_num c) data (s5_p c)) = sha512_pending c @ data"
      using 2 ok length_put_at [of "s5_num c" data "s5_p c"] take_put_at [of "s5_num c" "s5_p c" data]
      by (simp_all add: sha512_pending_def)
    moreover have "leftover 128 (sha512_pending c @ data) = sha512_pending c @ data" "chunks 128 (sha512_pending c @ data) = []"
      using 2 p by (simp_all add: leftover_short chunks_short)
    moreover have "SHA512_Update c data =
        ?c\<lparr>s5_p := put_at (s5_num c) data (s5_p c), s5_num := s5_num c + length data\<rparr>"
      using 2 by (simp add: SHA512_Update_counted [OF False])
    ultimately show ?thesis using 2 count by (simp add: sha512_ok_def sha512_pending_def [of "_\<lparr>s5_p := _, s5_num := _\<rparr>"] sha512_count_def)
  next
    case 3
    have f: "put_at (s5_num c) (take ?n data) (s5_p c) = sha512_pending c @ take ?n data" (is "_ = ?full")
      using 3 ok put_at_full [of "s5_num c" "take ?n data" "s5_p c"] by (simp add: sha512_pending_def)
    have lf: "length ?full = 128" using 3 ok p by simp
    have split: "sha512_pending c @ data = ?full @ drop ?n data" by simp
    have ch: "chunks 128 (sha512_pending c @ data) = ?full # chunks 128 (drop ?n data)"
      unfolding split by (rule chunks_block) (use lf in simp_all)
    have lo: "leftover 128 (sha512_pending c @ data) = leftover 128 (drop ?n data)"
      unfolding split by (rule leftover_block) (use lf in simp_all)
    have "sha512_block_data_order h b 1 = sha512_block h b" if "length b = 128" for h b
      using that by (simp add: sha512_block_data_order_def)
    note one = this [OF lf]
    let ?d = "?c\<lparr>s5_p := ?full, s5_num := 0, s5_h := sha512_block (s5_h c) ?full\<rparr>"
    have u: "SHA512_Update c data = sha512_rest ?d (drop ?n data)"
      unfolding SHA512_Update_counted [OF False] f one using 3 by simp
    have "length (s5_p ?d) = 128" "s5_num ?d = 0" "sha512_count ?d = sha512_count ?c" using lf by (simp_all add: sha512_count_def)
    then show ?thesis unfolding u ch lo using sha512_rest_ok [of ?d "drop ?n data"] count by simp
  qed
qed

interpretation sha512_collect: block_stream 128 "\<lambda>_. True" sha512_ok s5_h sha512_pending
  "\<lambda>b h. sha512_block h b" SHA512_Update
  by unfold_locales (simp_all add: SHA512_Update_ok, simp add: length_sha512_pending, simp add: sha512_ok_def)

section \<open>The whole message\<close>

lemma store_u64_eq: "store_u64 t = be_bytes 8 (unat t)"
proof -
  have b: "ucast (drop_bit k t) = (of_nat (unat t div 2 ^ k) :: u8)" for k
    by (rule word_unat_eq_iff [THEN iffD2]) (simp add: unat_ucast_mod unat_drop_bit_div unat_of_nat)
  have b0: "ucast t = (of_nat (unat t) :: u8)" using b [of 0] by simp
  have e: "be_bytes 8 v = be_bytes 4 (v div 2 ^ 32) @ be_bytes 4 v" for v
    using be_bytes_append [of 4 4 v] by simp
  show ?thesis unfolding e be_bytes_4 store_u64_def b b0 by (simp add: div_mult2_eq [symmetric])
qed

lemma store_count: "store_u64 (s5_Nh c) @ store_u64 (s5_Nl c) = be_bytes 16 (sha512_count c)"
proof -
  have "unat (s5_Nl c) < 2 ^ 64" using unat_less_exp [of "s5_Nl c"] by simp
  then have "sha512_count c div 256 ^ 8 = unat (s5_Nh c)" "sha512_count c mod 256 ^ 8 = unat (s5_Nl c)"
    by (simp_all add: sha512_count_def count2_def)
  then show ?thesis
    using be_bytes_append [of 8 8 "sha512_count c"] be_bytes_wrap [of 8 "sha512_count c"] by (simp add: store_u64_eq)
qed

lemma SHA512_Final_hash:
  "s5_h (snd (SHA512_Final out_null c)) =
    final_hash 128 16 sha512_block (be_bytes 16 (sha512_count c)) (s5_num c) (s5_p c) (s5_h c)"
  unfolding store_count [symmetric]
  by (simp add: SHA512_Final_def final_hash_def Let_def split_beta sha512_block_data_order_def)

lemma SHA512_Final_out:
  "fst (SHA512_Final out_null c) =
    (let h = s5_h (snd (SHA512_Final out_null c))
     in if out_null then None
        else if s5_md_len c = 48 then Some (concat (map (\<lambda>n. store_u64 (h ! n)) [0..<48 div 8]))
        else if s5_md_len c = 64 then Some (concat (map (\<lambda>n. store_u64 (h ! n)) [0..<64 div 8]))
        else None)"
  by (simp add: SHA512_Final_def Let_def split_beta)

definition sha512_stream :: "sha512_state_st \<Rightarrow> u8 list list \<Rightarrow> u8 list option" where
  "sha512_stream ctx xss = fst (SHA512_Final False (foldl SHA512_Update (SHA512_Init ctx) xss))"

definition sha384_stream :: "sha512_state_st \<Rightarrow> u8 list list \<Rightarrow> u8 list option" where
  "sha384_stream ctx xss = fst (SHA384_Final False (foldl SHA384_Update (SHA384_Init ctx) xss))"

lemma sha512_updates:
  assumes "sha512_ok c"
  shows "sha512_count (foldl SHA512_Update c xss) = (sha512_count c + 8 * length (concat xss)) mod 2 ^ 128 \<and>
    s5_md_len (foldl SHA512_Update c xss) = s5_md_len c"
  using assms
proof (induction xss arbitrary: c)
  case Nil
  have "sha512_count c < 2 ^ 128" using count2_less [of "s5_Nh c" "s5_Nl c"] by (simp add: sha512_count_def)
  then show ?case by simp
next
  case (Cons xs xss)
  note u = SHA512_Update_ok [OF Cons.prems, of xs]
  have "sha512_ok (SHA512_Update c xs)" "sha512_count (SHA512_Update c xs) = (sha512_count c + 8 * length xs) mod 2 ^ 128"
    "s5_md_len (SHA512_Update c xs) = s5_md_len c" using u by blast+
  then show ?case using Cons.IH [of "SHA512_Update c xs"]
    by (simp only: foldl_Cons concat.simps length_append distrib_left mod_add_left_eq add.assoc simp_thms)
qed

lemma sha512_message:
  assumes "sha512_ok c" "s5_num c = 0" "sha512_count c = 0" "length (s5_h c) = 8"
  defines "msg \<equiv> \<lambda>xss. chunks 128 (md_pad 128 16 (concat xss) (be_bytes 16 (8 * length (concat xss) mod 2 ^ 128)))"
  shows "s5_h (snd (SHA512_Final out_null (foldl SHA512_Update c xss))) =
      fold (\<lambda>b H. fips_sha512_block H b) (msg xss) (s5_h c) \<and>
    length (s5_h (snd (SHA512_Final out_null (foldl SHA512_Update c xss)))) = 8"
proof -
  let ?c = "foldl SHA512_Update c xss"
  have ok: "sha512_ok ?c" using sha512_collect.inv_foldl [OF assms(1)] by simp
  have p: "sha512_pending c = []" using assms(2) by (simp add: sha512_pending_def)
  have u: "s5_h ?c = fold (\<lambda>b h. sha512_block h b) (chunks 128 (concat xss)) (s5_h c)"
    "sha512_pending ?c = leftover 128 (concat xss)"
    using sha512_collect.update_many [OF assms(1), of xss] p by simp_all
  have count: "sha512_count ?c = 8 * length (concat xss) mod 2 ^ 128"
    using sha512_updates [OF assms(1), of xss] assms(3) by simp
  have "s5_h (snd (SHA512_Final out_null ?c)) = fold (\<lambda>b h. sha512_block h b) (msg xss) (s5_h c)"
    unfolding SHA512_Final_hash count msg_def
    by (rule final_hash_pad) (use ok u in \<open>simp_all add: sha512_ok_def sha512_pending_def\<close>)
  then show ?thesis using fold_sha512_block [OF assms(4), of "msg xss"] by metis
qed

lemma sha512_out_eq:
  assumes "length h = 8"
  shows "concat (map (\<lambda>n. store_u64 (h ! n)) [0..<64 div 8]) = take 64 (concat (map (\<lambda>w. be_bytes 8 (unat w)) h))"
    "concat (map (\<lambda>n. store_u64 (h ! n)) [0..<48 div 8]) = take 48 (concat (map (\<lambda>w. be_bytes 8 (unat w)) h))"
  using list8 [OF assms] by (auto simp: store_u64_eq upt_rec)

lemma sha512_stream_fips:
  assumes "length (s5_p ctx) = 128"
  shows "sha512_stream ctx xss = Some (fips_sha512 (concat xss))"
proof -
  have init: "sha512_ok (SHA512_Init ctx)" "s5_num (SHA512_Init ctx) = 0" "sha512_count (SHA512_Init ctx) = 0"
    "length (s5_h (SHA512_Init ctx)) = 8" "s5_md_len (SHA512_Init ctx) = 64" "s5_h (SHA512_Init ctx) = sha512_iv"
    using assms by (simp_all add: SHA512_Init_def sha512_ok_def sha512_count_def count2_def sha512_iv_def)
  note m = sha512_message [OF init(1-4), of False xss]
  have "s5_md_len (foldl SHA512_Update (SHA512_Init ctx) xss) = 64"
    using sha512_updates [OF init(1), of xss] init(5) by simp
  then show ?thesis unfolding sha512_stream_def SHA512_Final_out Let_def
    using sha512_out_eq(1) [OF m [THEN conjunct2]] m [THEN conjunct1]
    by (simp only: fips_sha512_def fips_sha2_64_def init(6)) simp
qed

lemma sha384_stream_fips:
  assumes "length (s5_p ctx) = 128"
  shows "sha384_stream ctx xss = Some (fips_sha384 (concat xss))"
proof -
  have init: "sha512_ok (SHA384_Init ctx)" "s5_num (SHA384_Init ctx) = 0" "sha512_count (SHA384_Init ctx) = 0"
    "length (s5_h (SHA384_Init ctx)) = 8" "s5_md_len (SHA384_Init ctx) = 48" "s5_h (SHA384_Init ctx) = sha384_iv"
    using assms by (simp_all add: SHA384_Init_def sha512_ok_def sha512_count_def count2_def sha384_iv_def)
  have upd: "SHA384_Update = SHA512_Update" by (rule ext)+ (simp add: SHA384_Update_def)
  note m = sha512_message [OF init(1-4), of False xss]
  have "s5_md_len (foldl SHA512_Update (SHA384_Init ctx) xss) = 48"
    using sha512_updates [OF init(1), of xss] init(5) by simp
  then show ?thesis unfolding sha384_stream_def SHA384_Final_def upd SHA512_Final_out Let_def
    using sha512_out_eq(2) [OF m [THEN conjunct2]] m [THEN conjunct1]
    by (simp only: fips_sha384_def fips_sha2_64_def init(6)) simp
qed

text \<open>
  C27. From an uninitialised context, the streamed digests are SHA-512 and SHA-384 of FIPS 180-4 of
  the whole message, whatever pieces it arrives in and whatever the context held before.
\<close>

theorem sha512_sha384_fips:
  assumes "length (s5_p ctx) = 128"
  shows "sha512_stream ctx xss = Some (fips_sha512 (concat xss)) \<and> sha384_stream ctx xss = Some (fips_sha384 (concat xss))"
  using sha512_stream_fips [OF assms] sha384_stream_fips [OF assms] by blast

theorem sha512_sha384_fips_witness:
  "sha512_stream \<lparr>s5_h = [], s5_Nl = 7, s5_Nh = 3, s5_p = replicate 128 0xaa, s5_num = 99, s5_md_len = 5\<rparr> [[1], [2, 3]] =
      Some (fips_sha512 [1, 2, 3]) \<and>
    sha384_stream \<lparr>s5_h = [], s5_Nl = 7, s5_Nh = 3, s5_p = replicate 128 0xaa, s5_num = 99, s5_md_len = 5\<rparr> [[1], [2, 3]] =
      Some (fips_sha384 [1, 2, 3])"
  using sha512_sha384_fips
    [of "\<lparr>s5_h = [], s5_Nl = 7, s5_Nh = 3, s5_p = replicate 128 0xaa, s5_num = 99, s5_md_len = 5\<rparr>" "[[1], [2, 3]]"]
  by simp

text \<open>
  C28. The block function for i386, which moves a window through one array of 89 words, computes the
  same state as the unrolled one, whatever the array held before.
\<close>

theorem sha512_i386_equivalent:
  assumes "length H = 8" "length X0 = 89"
  shows "sha512_i386_block H data X0 = sha512_block H data"
  using assms by (rule sha512_i386_block_eq)

theorem sha512_i386_equivalent_witness:
  "sha512_i386_block sha512_iv [7, 8, 9] (replicate 89 5) = sha512_block sha512_iv [7, 8, 9]"
  by (rule sha512_i386_equivalent) (simp_all add: sha512_iv_def)

end
