(* ===== verification/Md_Rounds.thy ===== *)
theory Md_Rounds
  imports Md32
begin

text \<open>
  What MD4 and MD5 share: rounds on four registers of which each call writes one, the four letters
  moving by one place from call to call, and the digest of a message read as little-endian words.
  The locale \<open>md_rounds\<close> states what a round macro does to its first argument.
\<close>

fun md_step :: "(nat \<Rightarrow> u32 \<Rightarrow> u32 \<Rightarrow> u32 \<Rightarrow> u32 \<Rightarrow> u32) \<Rightarrow> nat \<Rightarrow> u32 list \<Rightarrow> u32 list" where
  "md_step f i [a, b, c, d] = [d, f i a b c d, b, c]"
| "md_step f i s = s"

lemma list4: "length xs = 4 \<Longrightarrow> \<exists>a b c d. xs = [a, b, c, d]"
  by (auto simp: numeral_eq_Suc length_Suc_conv)

locale md_rounds =
  fixes n :: nat
    and f :: "nat \<Rightarrow> u32 \<Rightarrow> u32 \<Rightarrow> u32 \<Rightarrow> u32 \<Rightarrow> u32"
    and call :: "nat \<Rightarrow> u32 list \<Rightarrow> u32 list"
  assumes call: "length R = 4 \<Longrightarrow> i < 4 * n \<Longrightarrow>
    call i R = R[arg 4 i 0 := f i (R ! arg 4 i 0) (R ! arg 4 i 1) (R ! arg 4 i 2) (R ! arg 4 i 3)]"
begin

lemma round:
  assumes "length R = 4" "i < 4 * n"
  shows "length (call i R) = 4" "args 4 (i + 1) (call i R) = md_step f i (args 4 i R)"
proof -
  obtain a b c d where A: "args 4 i R = [a, b, c, d]" using list4 [of "args 4 i R"] by auto
  have nth: "R ! arg 4 i 0 = a" "R ! arg 4 i 1 = b" "R ! arg 4 i 2 = c" "R ! arg 4 i 3 = d"
    using args_nth [of 0 4 i R] args_nth [of 1 4 i R] args_nth [of 2 4 i R] args_nth [of 3 4 i R] by (simp_all add: A)
  have "args 4 i (R[arg 4 i 0 := f i a b c d]) = [f i a b c d, b, c, d]"
    using args_update [of R 4 0 i "f i a b c d"] assms(1) by (simp add: A)
  then have "args 4 (i + 1) (R[arg 4 i 0 := f i a b c d]) = [d, f i a b c d, b, c]"
    by (subst args_Suc) simp_all
  then show "args 4 (i + 1) (call i R) = md_step f i (args 4 i R)"
    unfolding call [OF assms] nth A by simp
  show "length (call i R) = 4" unfolding call [OF assms] using assms(1) by simp
qed

lemma rounds:
  assumes "length H = 4" "k \<le> 4 * n"
  shows "length (fold call [0..<k] H) = 4 \<and> args 4 k (fold call [0..<k] H) = fold (md_step f) [0..<k] H"
  using assms(2)
proof (induction k)
  case 0
  then show ?case using assms(1) args_0 [of H 4] by simp
next
  case (Suc k)
  then show ?case using round [of "fold call [0..<k] H" k] by simp
qed

lemma all_rounds:
  assumes "length H = 4"
  shows "fold call [0..<4 * n] H = fold (md_step f) [0..<4 * n] H"
  using rounds [OF assms order.refl] args_mult [of "fold call [0..<4 * n] H" 4 n] by simp

lemma all_rounds_length: "length H = 4 \<Longrightarrow> length (fold call [0..<4 * n] H) = 4"
  using rounds [of H "4 * n"] by simp

end

text \<open>The four words of the state, low byte first; \<open>HASH_MAKE_STRING\<close> of both functions.\<close>

definition md_make_string :: "u32 list \<Rightarrow> u8 list" where
  "md_make_string h = HOST_l2c_le (h ! 0) @ HOST_l2c_le (h ! 1) @ HOST_l2c_le (h ! 2) @ HOST_l2c_le (h ! 3)"

lemma md_make_string_eq: "length h = 4 \<Longrightarrow> md_make_string h = concat (map (\<lambda>w. le_bytes 4 (unat w)) h)"
  using list4 [of h] by (auto simp: md_make_string_def HOST_l2c_le_eq)

text \<open>The digest of a message for a block function, as RFC 1320 and RFC 1321 define it.\<close>

definition rfc_digest :: "(u32 list \<Rightarrow> u8 list \<Rightarrow> u32 list) \<Rightarrow> u32 list \<Rightarrow> u8 list \<Rightarrow> u8 list" where
  "rfc_digest block iv msg =
     concat (map (\<lambda>w. le_bytes 4 (unat w))
       (fold (\<lambda>b H. block H b) (chunks 64 (md_pad 64 8 msg (le_bytes 8 (8 * length msg mod 2 ^ 64)))) iv))"

lemma fold_blocks4:
  assumes "\<And>H b. length H = 4 \<Longrightarrow> f H b = g H b \<and> length (f H b) = 4" "length H = 4"
  shows "fold (\<lambda>b h. f h b) bs H = fold (\<lambda>b h. g h b) bs H \<and> length (fold (\<lambda>b h. f h b) bs H) = 4"
  using assms(2)
proof (induction bs arbitrary: H)
  case (Cons b bs)
  then have eq: "f H b = g H b" "length (g H b) = 4" using assms(1) [of H b] by (metis, metis)
  show ?case unfolding fold_simps eq(1) by (rule Cons.IH [OF eq(2)])
qed simp

lemma rfc_digest_stream:
  assumes "\<And>H b. length H = 4 \<Longrightarrow> f H b = g H b \<and> length (f H b) = 4" "length iv = 4"
  shows "md_make_string (md_h (HASH_FINAL f len_field_le (foldl (HASH_UPDATE f) (md_start iv k) xss))) =
    rfc_digest g iv (concat xss)"
proof -
  let ?h = "md_h (HASH_FINAL f len_field_le (foldl (HASH_UPDATE f) (md_start iv k) xss))"
  have h: "?h = fold (\<lambda>b h. f h b)
      (chunks 64 (md_pad 64 8 (concat xss) (le_bytes 8 (8 * length (concat xss) mod 2 ^ 64)))) iv"
    by (rule md32_message) (simp_all add: len_field_le_eq)
  note eq = fold_blocks4 [where f = f and g = g, OF assms(1) assms(2)]
  have "length ?h = 4" unfolding h using eq by blast
  then have "md_make_string ?h = concat (map (\<lambda>w. le_bytes 4 (unat w)) ?h)" by (rule md_make_string_eq)
  then show ?thesis unfolding rfc_digest_def h using eq by metis
qed

end
