(* ===== verification/Md4.thy ===== *)
theory Md4
  imports Md_Rounds
begin

text \<open>
  \<open>crypto/fipsmodule/md4/md4.c\<close>. The variables \<open>A\<close> to \<open>D\<close> are a list of four words, \<open>X0\<close> to \<open>X15\<close> the
  list of the words of a block. The code is proved equal to MD4 as RFC 1320 defines it.
\<close>

unbundle bit_operations_syntax

section \<open>The code\<close>

definition MD4_F :: "u32 \<Rightarrow> u32 \<Rightarrow> u32 \<Rightarrow> u32" where
  "MD4_F b c d = ((c XOR d) AND b) XOR d"

definition MD4_G :: "u32 \<Rightarrow> u32 \<Rightarrow> u32 \<Rightarrow> u32" where
  "MD4_G b c d = (b AND c) OR (b AND d) OR (c AND d)"

definition MD4_H :: "u32 \<Rightarrow> u32 \<Rightarrow> u32 \<Rightarrow> u32" where
  "MD4_H b c d = b XOR c XOR d"

text \<open>The round macros; \<open>a\<close> to \<open>d\<close> are register numbers.\<close>

definition MD4_R0 :: "nat \<Rightarrow> nat \<Rightarrow> nat \<Rightarrow> nat \<Rightarrow> u32 \<Rightarrow> nat \<Rightarrow> u32 \<Rightarrow> u32 list \<Rightarrow> u32 list" where
  "MD4_R0 a b c d k s t R =
     (let R = R[a := R ! a + (k + t + MD4_F (R ! b) (R ! c) (R ! d))];
          R = R[a := ROTATE (R ! a) s]
      in R)"

definition MD4_R1 :: "nat \<Rightarrow> nat \<Rightarrow> nat \<Rightarrow> nat \<Rightarrow> u32 \<Rightarrow> nat \<Rightarrow> u32 \<Rightarrow> u32 list \<Rightarrow> u32 list" where
  "MD4_R1 a b c d k s t R =
     (let R = R[a := R ! a + (k + t + MD4_G (R ! b) (R ! c) (R ! d))];
          R = R[a := ROTATE (R ! a) s]
      in R)"

definition MD4_R2 :: "nat \<Rightarrow> nat \<Rightarrow> nat \<Rightarrow> nat \<Rightarrow> u32 \<Rightarrow> nat \<Rightarrow> u32 \<Rightarrow> u32 list \<Rightarrow> u32 list" where
  "MD4_R2 a b c d k s t R =
     (let R = R[a := R ! a + (k + t + MD4_H (R ! b) (R ! c) (R ! d))];
          R = R[a := ROTATE (R ! a) s]
      in R)"

text \<open>The calls in order, with the number of \<open>X\<close>, the rotation and the constant each passes.\<close>

definition md4_calls :: "(nat \<times> nat \<times> u32) list" where
  "md4_calls =
  [(0, 3, 0), (1, 7, 0), (2, 11, 0), (3, 19, 0),
   (4, 3, 0), (5, 7, 0), (6, 11, 0), (7, 19, 0),
   (8, 3, 0), (9, 7, 0), (10, 11, 0), (11, 19, 0),
   (12, 3, 0), (13, 7, 0), (14, 11, 0), (15, 19, 0),
   (0, 3, 0x5a827999), (4, 5, 0x5a827999), (8, 9, 0x5a827999), (12, 13, 0x5a827999),
   (1, 3, 0x5a827999), (5, 5, 0x5a827999), (9, 9, 0x5a827999), (13, 13, 0x5a827999),
   (2, 3, 0x5a827999), (6, 5, 0x5a827999), (10, 9, 0x5a827999), (14, 13, 0x5a827999),
   (3, 3, 0x5a827999), (7, 5, 0x5a827999), (11, 9, 0x5a827999), (15, 13, 0x5a827999),
   (0, 3, 0x6ed9eba1), (8, 9, 0x6ed9eba1), (4, 11, 0x6ed9eba1), (12, 15, 0x6ed9eba1),
   (2, 3, 0x6ed9eba1), (10, 9, 0x6ed9eba1), (6, 11, 0x6ed9eba1), (14, 15, 0x6ed9eba1),
   (1, 3, 0x6ed9eba1), (9, 9, 0x6ed9eba1), (5, 11, 0x6ed9eba1), (13, 15, 0x6ed9eba1),
   (3, 3, 0x6ed9eba1), (11, 9, 0x6ed9eba1), (7, 11, 0x6ed9eba1), (15, 15, 0x6ed9eba1)]"

definition md4_call :: "u32 list \<Rightarrow> nat \<Rightarrow> u32 list \<Rightarrow> u32 list" where
  "md4_call X i R =
     (let a = arg 4 i 0; b = arg 4 i 1; c = arg 4 i 2; d = arg 4 i 3; (k, s, t) = md4_calls ! i
      in if i < 16 then MD4_R0 a b c d (X ! k) s t R
         else if i < 32 then MD4_R1 a b c d (X ! k) s t R
         else MD4_R2 a b c d (X ! k) s t R)"

text \<open>One round of the loop; the words \<open>X\<close> are loaded before they are used.\<close>

definition md4_block :: "u32 list \<Rightarrow> u8 list \<Rightarrow> u32 list" where
  "md4_block state data =
     (let R = fold (md4_call (le_words data)) [0..<48] (take 4 state)
      in [state ! 0 + R ! 0, state ! 1 + R ! 1, state ! 2 + R ! 2, state ! 3 + R ! 3])"

definition md4_block_data_order :: "u32 list \<Rightarrow> u8 list \<Rightarrow> nat \<Rightarrow> u32 list" where
  "md4_block_data_order = block_data_order md4_block 64"

definition md4_iv :: "u32 list" where
  "md4_iv = [0x67452301, 0xefcdab89, 0x98badcfe, 0x10325476]"

text \<open>The state has no field \<open>md_len\<close>; it stays zero.\<close>

definition MD4_Init :: md32_ctx where
  "MD4_Init = \<lparr>md_h = md4_iv, md_Nl = 0, md_Nh = 0, md_data = replicate 64 0, md_num = 0, md_len = 0\<rparr>"

definition MD4_Update :: "md32_ctx \<Rightarrow> u8 list \<Rightarrow> md32_ctx" where
  "MD4_Update = HASH_UPDATE md4_block"

definition MD4_Transform :: "md32_ctx \<Rightarrow> u8 list \<Rightarrow> md32_ctx" where
  "MD4_Transform = HASH_TRANSFORM md4_block"

definition md4_make_string :: "u32 list \<Rightarrow> u8 list" where
  "md4_make_string h = HOST_l2c_le (h ! 0) @ HOST_l2c_le (h ! 1) @ HOST_l2c_le (h ! 2) @ HOST_l2c_le (h ! 3)"

definition MD4_Final :: "md32_ctx \<Rightarrow> u8 list \<times> md32_ctx" where
  "MD4_Final c = (let c = HASH_FINAL md4_block len_field_le c in (md4_make_string (md_h c), c))"

definition MD4 :: "u8 list \<Rightarrow> u8 list" where
  "MD4 data = fst (MD4_Final (MD4_Update MD4_Init data))"

section \<open>RFC 1320\<close>

text \<open>Operation \<open>i\<close> sets \<open>a\<close> to \<open>(a + f (b, c, d) + X[k] + t) <<< s\<close>.\<close>

definition rfc1320_f :: "nat \<Rightarrow> u32 \<Rightarrow> u32 \<Rightarrow> u32 \<Rightarrow> u32" where
  "rfc1320_f i x y z =
     (if i < 16 then (x AND y) OR (NOT x AND z)
      else if i < 32 then (x AND y) OR (x AND z) OR (y AND z)
      else x XOR y XOR z)"

definition rfc1320_k :: "nat \<Rightarrow> nat" where
  "rfc1320_k i =
     (if i < 16 then i else if i < 32 then i mod 4 * 4 + (i mod 16) div 4
      else [0, 8, 4, 12, 2, 10, 6, 14, 1, 9, 5, 13, 3, 11, 7, 15] ! (i mod 16))"

definition rfc1320_s :: "nat \<Rightarrow> nat" where
  "rfc1320_s i = [3, 7, 11, 19, 3, 5, 9, 13, 3, 9, 11, 15] ! (4 * (i div 16 mod 3) + i mod 4)"

definition rfc1320_t :: "nat \<Rightarrow> u32" where
  "rfc1320_t i = (if i < 16 then 0 else if i < 32 then 0x5a827999 else 0x6ed9eba1)"

definition rfc1320_op :: "u32 list \<Rightarrow> nat \<Rightarrow> u32 \<Rightarrow> u32 \<Rightarrow> u32 \<Rightarrow> u32 \<Rightarrow> u32" where
  "rfc1320_op X i a b c d = word_rotl (rfc1320_s i) (a + rfc1320_f i b c d + X ! rfc1320_k i + rfc1320_t i)"

definition rfc1320_block :: "u32 list \<Rightarrow> u8 list \<Rightarrow> u32 list" where
  "rfc1320_block H data = map2 (+) H (fold (md_step (rfc1320_op (le_words data))) [0..<48] H)"

definition rfc1320_md4 :: "u8 list \<Rightarrow> u8 list" where
  "rfc1320_md4 = rfc_digest rfc1320_block md4_iv"

section \<open>The code computes MD4\<close>

lemma MD4_FGH:
  "MD4_F b c d = (b AND c) OR (NOT b AND d)"
  "MD4_G b c d = (b AND c) OR (b AND d) OR (c AND d)"
  "MD4_H b c d = b XOR c XOR d"
  by (rule bit_word_eqI, auto simp: MD4_F_def MD4_G_def MD4_H_def bit_simps)+

lemmas MD4_R_defs = MD4_R0_def MD4_R1_def MD4_R2_def rfc1320_f_def

lemma md4_s_bounds: "0 < rfc1320_s i" "rfc1320_s i < 32"
proof -
  let ?l = "[3, 7, 11, 19, 3, 5, 9, 13, 3, 9, 11, 15] :: nat list"
  have "i mod 4 < 4" "i div 16 mod 3 < 3" by simp_all
  then have "4 * (i div 16 mod 3) + i mod 4 < length ?l" by simp
  then have "rfc1320_s i \<in> set ?l" unfolding rfc1320_s_def by (rule nth_mem)
  then show "0 < rfc1320_s i" "rfc1320_s i < 32" by auto
qed

lemma md4_calls_nth:
  assumes "i < 48"
  shows "md4_calls ! i = (rfc1320_k i, rfc1320_s i, rfc1320_t i)"
proof -
  have eq: "md4_calls = map (\<lambda>i. (rfc1320_k i, rfc1320_s i, rfc1320_t i)) [0..<48]"
    by (simp add: md4_calls_def rfc1320_k_def rfc1320_s_def rfc1320_t_def upt_rec)
  have "i < 48 - 0" using assms by simp
  then show ?thesis unfolding eq by (simp only: nth_map_upt add_0)
qed

interpretation md4: md_rounds 12 "rfc1320_op X" "md4_call X" for X
proof
  fix R :: "u32 list" and i :: nat assume R: "length R = 4" and "i < 4 * 12"
  then have i: "i < 48" by simp
  have ne: "arg 4 i 0 < 4" "arg 4 i 1 \<noteq> arg 4 i 0" using arg_inj [of 1 4 0 i] arg_less [of 4 i 0] by simp_all
  show "md4_call X i R =
      R[arg 4 i 0 := rfc1320_op X i (R ! arg 4 i 0) (R ! arg 4 i 1) (R ! arg 4 i 2) (R ! arg 4 i 3)]"
    unfolding md4_call_def Let_def md4_calls_nth [OF i] prod.case rfc1320_op_def
    using R ne md4_s_bounds [of i]
    by (simp add: MD4_R_defs MD4_FGH ROTATE_rotl add.assoc add.commute add.left_commute)
qed

lemma md4_block_rfc:
  assumes "length H = 4"
  shows "md4_block H data = rfc1320_block H data \<and> length (md4_block H data) = 4"
  using md4.all_rounds [OF assms, of "le_words data"] md4.all_rounds_length [OF assms, of "le_words data"] list4 [OF assms]
    list4 [of "fold (md4_call (le_words data)) [0..<48] H"]
  by (auto simp: md4_block_def rfc1320_block_def)

definition md4_stream :: "u8 list list \<Rightarrow> u8 list" where
  "md4_stream xss = fst (MD4_Final (foldl MD4_Update MD4_Init xss))"

lemma md4_stream_eq: "md4_stream xss = rfc1320_md4 (concat xss)"
proof -
  have start: "MD4_Init = md_start md4_iv 0" by (simp add: MD4_Init_def md_start_def)
  have str: "md4_make_string = md_make_string" by (rule ext) (simp add: md4_make_string_def md_make_string_def)
  show ?thesis unfolding md4_stream_def MD4_Final_def MD4_Update_def start str rfc1320_md4_def Let_def fst_conv
    by (rule rfc_digest_stream, rule md4_block_rfc, assumption, simp add: md4_iv_def)
qed

text \<open>
  Hashing a message in any number of pieces gives the MD4 digest of RFC 1320 of the whole message.
\<close>

theorem md4_stream_rfc: "md4_stream xss = rfc1320_md4 (concat xss)"
  by (rule md4_stream_eq)

end
