(* ===== verification/Md5.thy ===== *)
theory Md5
  imports Md_Rounds
begin

text \<open>
  \<open>crypto/fipsmodule/md5/md5.c\<close>. The variables \<open>A\<close> to \<open>D\<close> are a list of four words, \<open>XX0\<close> to \<open>XX15\<close> the
  list of the words of a block. The code is proved equal to MD5 as RFC 1321 defines it.
\<close>

unbundle bit_operations_syntax

section \<open>The code\<close>

definition MD5_F :: "u32 \<Rightarrow> u32 \<Rightarrow> u32 \<Rightarrow> u32" where
  "MD5_F b c d = ((c XOR d) AND b) XOR d"

definition MD5_G :: "u32 \<Rightarrow> u32 \<Rightarrow> u32 \<Rightarrow> u32" where
  "MD5_G b c d = ((b XOR c) AND d) XOR c"

definition MD5_H :: "u32 \<Rightarrow> u32 \<Rightarrow> u32 \<Rightarrow> u32" where
  "MD5_H b c d = b XOR c XOR d"

definition MD5_I :: "u32 \<Rightarrow> u32 \<Rightarrow> u32 \<Rightarrow> u32" where
  "MD5_I b c d = (NOT d OR b) XOR c"

text \<open>The round macros; \<open>a\<close> to \<open>d\<close> are register numbers.\<close>

definition MD5_R0 :: "nat \<Rightarrow> nat \<Rightarrow> nat \<Rightarrow> nat \<Rightarrow> u32 \<Rightarrow> nat \<Rightarrow> u32 \<Rightarrow> u32 list \<Rightarrow> u32 list" where
  "MD5_R0 a b c d k s t R =
     (let R = R[a := R ! a + (k + t + MD5_F (R ! b) (R ! c) (R ! d))];
          R = R[a := ROTATE (R ! a) s];
          R = R[a := R ! a + R ! b]
      in R)"

definition MD5_R1 :: "nat \<Rightarrow> nat \<Rightarrow> nat \<Rightarrow> nat \<Rightarrow> u32 \<Rightarrow> nat \<Rightarrow> u32 \<Rightarrow> u32 list \<Rightarrow> u32 list" where
  "MD5_R1 a b c d k s t R =
     (let R = R[a := R ! a + (k + t + MD5_G (R ! b) (R ! c) (R ! d))];
          R = R[a := ROTATE (R ! a) s];
          R = R[a := R ! a + R ! b]
      in R)"

definition MD5_R2 :: "nat \<Rightarrow> nat \<Rightarrow> nat \<Rightarrow> nat \<Rightarrow> u32 \<Rightarrow> nat \<Rightarrow> u32 \<Rightarrow> u32 list \<Rightarrow> u32 list" where
  "MD5_R2 a b c d k s t R =
     (let R = R[a := R ! a + (k + t + MD5_H (R ! b) (R ! c) (R ! d))];
          R = R[a := ROTATE (R ! a) s];
          R = R[a := R ! a + R ! b]
      in R)"

definition MD5_R3 :: "nat \<Rightarrow> nat \<Rightarrow> nat \<Rightarrow> nat \<Rightarrow> u32 \<Rightarrow> nat \<Rightarrow> u32 \<Rightarrow> u32 list \<Rightarrow> u32 list" where
  "MD5_R3 a b c d k s t R =
     (let R = R[a := R ! a + (k + t + MD5_I (R ! b) (R ! c) (R ! d))];
          R = R[a := ROTATE (R ! a) s];
          R = R[a := R ! a + R ! b]
      in R)"

text \<open>The calls in order, with the number of \<open>X\<close>, the rotation and the constant each passes.\<close>

definition md5_calls :: "(nat \<times> nat \<times> u32) list" where
  "md5_calls =
  [(0, 7, 0xd76aa478), (1, 12, 0xe8c7b756), (2, 17, 0x242070db), (3, 22, 0xc1bdceee),
   (4, 7, 0xf57c0faf), (5, 12, 0x4787c62a), (6, 17, 0xa8304613), (7, 22, 0xfd469501),
   (8, 7, 0x698098d8), (9, 12, 0x8b44f7af), (10, 17, 0xffff5bb1), (11, 22, 0x895cd7be),
   (12, 7, 0x6b901122), (13, 12, 0xfd987193), (14, 17, 0xa679438e), (15, 22, 0x49b40821),
   (1, 5, 0xf61e2562), (6, 9, 0xc040b340), (11, 14, 0x265e5a51), (0, 20, 0xe9b6c7aa),
   (5, 5, 0xd62f105d), (10, 9, 0x02441453), (15, 14, 0xd8a1e681), (4, 20, 0xe7d3fbc8),
   (9, 5, 0x21e1cde6), (14, 9, 0xc33707d6), (3, 14, 0xf4d50d87), (8, 20, 0x455a14ed),
   (13, 5, 0xa9e3e905), (2, 9, 0xfcefa3f8), (7, 14, 0x676f02d9), (12, 20, 0x8d2a4c8a),
   (5, 4, 0xfffa3942), (8, 11, 0x8771f681), (11, 16, 0x6d9d6122), (14, 23, 0xfde5380c),
   (1, 4, 0xa4beea44), (4, 11, 0x4bdecfa9), (7, 16, 0xf6bb4b60), (10, 23, 0xbebfbc70),
   (13, 4, 0x289b7ec6), (0, 11, 0xeaa127fa), (3, 16, 0xd4ef3085), (6, 23, 0x04881d05),
   (9, 4, 0xd9d4d039), (12, 11, 0xe6db99e5), (15, 16, 0x1fa27cf8), (2, 23, 0xc4ac5665),
   (0, 6, 0xf4292244), (7, 10, 0x432aff97), (14, 15, 0xab9423a7), (5, 21, 0xfc93a039),
   (12, 6, 0x655b59c3), (3, 10, 0x8f0ccc92), (10, 15, 0xffeff47d), (1, 21, 0x85845dd1),
   (8, 6, 0x6fa87e4f), (15, 10, 0xfe2ce6e0), (6, 15, 0xa3014314), (13, 21, 0x4e0811a1),
   (4, 6, 0xf7537e82), (11, 10, 0xbd3af235), (2, 15, 0x2ad7d2bb), (9, 21, 0xeb86d391)]"

definition md5_call :: "u32 list \<Rightarrow> nat \<Rightarrow> u32 list \<Rightarrow> u32 list" where
  "md5_call X i R =
     (let a = arg 4 i 0; b = arg 4 i 1; c = arg 4 i 2; d = arg 4 i 3; (k, s, t) = md5_calls ! i
      in if i < 16 then MD5_R0 a b c d (X ! k) s t R
         else if i < 32 then MD5_R1 a b c d (X ! k) s t R
         else if i < 48 then MD5_R2 a b c d (X ! k) s t R
         else MD5_R3 a b c d (X ! k) s t R)"

text \<open>One round of the loop; the words \<open>X\<close> are loaded before they are used.\<close>

definition md5_block :: "u32 list \<Rightarrow> u8 list \<Rightarrow> u32 list" where
  "md5_block state data =
     (let R = fold (md5_call (le_words data)) [0..<64] (take 4 state)
      in [state ! 0 + R ! 0, state ! 1 + R ! 1, state ! 2 + R ! 2, state ! 3 + R ! 3])"

definition md5_block_data_order :: "u32 list \<Rightarrow> u8 list \<Rightarrow> nat \<Rightarrow> u32 list" where
  "md5_block_data_order = block_data_order md5_block 64"

definition md5_iv :: "u32 list" where
  "md5_iv = [0x67452301, 0xefcdab89, 0x98badcfe, 0x10325476]"

text \<open>The state has no field \<open>md_len\<close>; it stays zero.\<close>

definition MD5_Init :: md32_ctx where
  "MD5_Init = \<lparr>md_h = md5_iv, md_Nl = 0, md_Nh = 0, md_data = replicate 64 0, md_num = 0, md_len = 0\<rparr>"

definition MD5_Update :: "md32_ctx \<Rightarrow> u8 list \<Rightarrow> md32_ctx" where
  "MD5_Update = HASH_UPDATE md5_block"

definition MD5_Transform :: "md32_ctx \<Rightarrow> u8 list \<Rightarrow> md32_ctx" where
  "MD5_Transform = HASH_TRANSFORM md5_block"

definition md5_make_string :: "u32 list \<Rightarrow> u8 list" where
  "md5_make_string h = HOST_l2c_le (h ! 0) @ HOST_l2c_le (h ! 1) @ HOST_l2c_le (h ! 2) @ HOST_l2c_le (h ! 3)"

definition MD5_Final :: "md32_ctx \<Rightarrow> u8 list \<times> md32_ctx" where
  "MD5_Final c = (let c = HASH_FINAL md5_block len_field_le c in (md5_make_string (md_h c), c))"

definition MD5 :: "u8 list \<Rightarrow> u8 list" where
  "MD5 data = fst (MD5_Final (MD5_Update MD5_Init data))"

section \<open>RFC 1321\<close>

text \<open>
  Operation \<open>i\<close> sets \<open>a\<close> to \<open>b + ((a + f (b, c, d) + X[k] + T[i]) <<< s)\<close>. The table \<open>T\<close> of constants is
  taken from the code.
\<close>

definition rfc1321_f :: "nat \<Rightarrow> u32 \<Rightarrow> u32 \<Rightarrow> u32 \<Rightarrow> u32" where
  "rfc1321_f i x y z =
     (if i < 16 then (x AND y) OR (NOT x AND z)
      else if i < 32 then (x AND z) OR (y AND NOT z)
      else if i < 48 then x XOR y XOR z
      else y XOR (x OR NOT z))"

definition rfc1321_k :: "nat \<Rightarrow> nat" where
  "rfc1321_k i =
     (if i < 16 then i else if i < 32 then (1 + 5 * i) mod 16 else if i < 48 then (5 + 3 * i) mod 16 else (7 * i) mod 16)"

definition rfc1321_s :: "nat \<Rightarrow> nat" where
  "rfc1321_s i =
     [7, 12, 17, 22, 5, 9, 14, 20, 4, 11, 16, 23, 6, 10, 15, 21] ! (4 * (i div 16 mod 4) + i mod 4)"

definition rfc1321_T :: "nat \<Rightarrow> u32" where
  "rfc1321_T i = snd (snd (md5_calls ! i))"

definition rfc1321_op :: "u32 list \<Rightarrow> nat \<Rightarrow> u32 \<Rightarrow> u32 \<Rightarrow> u32 \<Rightarrow> u32 \<Rightarrow> u32" where
  "rfc1321_op X i a b c d =
     b + word_rotl (rfc1321_s i) (a + rfc1321_f i b c d + X ! rfc1321_k i + rfc1321_T i)"

definition rfc1321_block :: "u32 list \<Rightarrow> u8 list \<Rightarrow> u32 list" where
  "rfc1321_block H data = map2 (+) H (fold (md_step (rfc1321_op (le_words data))) [0..<64] H)"

definition rfc1321_md5 :: "u8 list \<Rightarrow> u8 list" where
  "rfc1321_md5 = rfc_digest rfc1321_block md5_iv"

section \<open>The code computes MD5\<close>

lemma MD5_FGH:
  "MD5_F b c d = (b AND c) OR (NOT b AND d)"
  "MD5_G b c d = (b AND d) OR (c AND NOT d)"
  "MD5_H b c d = b XOR c XOR d"
  "MD5_I b c d = c XOR (b OR NOT d)"
  by (rule bit_word_eqI, auto simp: MD5_F_def MD5_G_def MD5_H_def MD5_I_def bit_simps)+

lemmas MD5_R_defs = MD5_R0_def MD5_R1_def MD5_R2_def MD5_R3_def rfc1321_f_def

lemma md5_s_bounds: "0 < rfc1321_s i" "rfc1321_s i < 32"
proof -
  let ?l = "[7, 12, 17, 22, 5, 9, 14, 20, 4, 11, 16, 23, 6, 10, 15, 21] :: nat list"
  have "i mod 4 < 4" "i div 16 mod 4 < 4" by simp_all
  then have "4 * (i div 16 mod 4) + i mod 4 < length ?l" by simp
  then have "rfc1321_s i \<in> set ?l" unfolding rfc1321_s_def by (rule nth_mem)
  then show "0 < rfc1321_s i" "rfc1321_s i < 32" by auto
qed

lemma md5_calls_nth:
  assumes "i < 64"
  shows "md5_calls ! i = (rfc1321_k i, rfc1321_s i, rfc1321_T i)"
proof -
  have "map (\<lambda>(k, s, t). (k, s)) md5_calls = map (\<lambda>i. (rfc1321_k i, rfc1321_s i)) [0..<64]"
    by (simp add: md5_calls_def rfc1321_k_def rfc1321_s_def upt_rec)
  moreover have "length md5_calls = 64" by (simp add: md5_calls_def)
  ultimately have "(\<lambda>(k, s, t). (k, s)) (md5_calls ! i) = (rfc1321_k i, rfc1321_s i)"
    using assms by (metis (no_types, lifting) add_0 diff_zero length_upt nth_map nth_upt)
  then show ?thesis by (cases "md5_calls ! i") (simp add: rfc1321_T_def)
qed

interpretation md5: md_rounds 16 "rfc1321_op X" "md5_call X" for X
proof
  fix R :: "u32 list" and i :: nat assume R: "length R = 4" and "i < 4 * 16"
  then have i: "i < 64" by simp
  have ne: "arg 4 i 0 < 4" "arg 4 i 1 \<noteq> arg 4 i 0" using arg_inj [of 1 4 0 i] arg_less [of 4 i 0] by simp_all
  show "md5_call X i R =
      R[arg 4 i 0 := rfc1321_op X i (R ! arg 4 i 0) (R ! arg 4 i 1) (R ! arg 4 i 2) (R ! arg 4 i 3)]"
    unfolding md5_call_def Let_def md5_calls_nth [OF i] prod.case rfc1321_op_def
    using R ne md5_s_bounds [of i]
    by (simp add: MD5_R_defs MD5_FGH ROTATE_rotl add.assoc add.commute add.left_commute)
qed

lemma md5_block_rfc:
  assumes "length H = 4"
  shows "md5_block H data = rfc1321_block H data \<and> length (md5_block H data) = 4"
  using md5.all_rounds [OF assms, of "le_words data"] md5.all_rounds_length [OF assms, of "le_words data"] list4 [OF assms]
    list4 [of "fold (md5_call (le_words data)) [0..<64] H"]
  by (auto simp: md5_block_def rfc1321_block_def)

definition md5_stream :: "u8 list list \<Rightarrow> u8 list" where
  "md5_stream xss = fst (MD5_Final (foldl MD5_Update MD5_Init xss))"

lemma md5_stream_eq: "md5_stream xss = rfc1321_md5 (concat xss)"
proof -
  have start: "MD5_Init = md_start md5_iv 0" by (simp add: MD5_Init_def md_start_def)
  have str: "md5_make_string = md_make_string" by (rule ext) (simp add: md5_make_string_def md_make_string_def)
  show ?thesis unfolding md5_stream_def MD5_Final_def MD5_Update_def start str rfc1321_md5_def Let_def fst_conv
    by (rule rfc_digest_stream, rule md5_block_rfc, assumption, simp add: md5_iv_def)
qed

text \<open>
  Hashing a message in any number of pieces gives the MD5 digest of RFC 1321 of the whole message:
  the simplified boolean functions, the unrolled rounds and the collector are all as specified.
\<close>

theorem md5_stream_rfc: "md5_stream xss = rfc1321_md5 (concat xss)"
  by (rule md5_stream_eq)

end
