(* ===== verification/Digest.thy ===== *)
theory Digest
  imports Sha1 Sha256 Sha512 Md4 Md5
begin

text \<open>
  \<open>crypto/fipsmodule/digest\<close>: the interface \<open>EVP_MD\<close> over the hash functions. A pointer to an \<open>EVP_MD\<close> is a
  name of type \<open>EVP_MD\<close>, \<open>md_method\<close> is what it points to. \<open>md_data\<close> is one of the states of the hash functions;
  contexts with a \<open>pctx\<close>, which only signing uses, are not modelled. The locale \<open>absorber\<close> is what a client
  relies on: a state that stands for a message, an update that appends to it, a result that depends on the
  message alone.
\<close>

section \<open>The methods\<close>

datatype md_state = CTX32 md32_ctx | CTX64 sha512_state_st | CTX_MD5_SHA1 md32_ctx md32_ctx

datatype EVP_MD = EVP_md4 | EVP_md5 | EVP_sha1 | EVP_sha224 | EVP_sha256 | EVP_sha384 | EVP_sha512 | EVP_md5_sha1

record env_md_st =
  em_type :: nat
  em_md_size :: nat
  em_flags :: u32
  em_init :: "md_state \<Rightarrow> md_state"
  em_update :: "md_state \<Rightarrow> u8 list \<Rightarrow> md_state"
  em_final :: "md_state \<Rightarrow> u8 list option \<times> md_state"
  em_block_size :: nat
  em_ctx_size :: nat

text \<open>
  The three functions of each method. \<open>None\<close> as a digest is a \<open>CHECK\<close> that fails; a state of another hash
  function is left alone, which does not happen.
\<close>

definition md4_init :: "md_state \<Rightarrow> md_state" where
  "md4_init s = CTX32 MD4_Init"

fun md4_update :: "md_state \<Rightarrow> u8 list \<Rightarrow> md_state" where
  "md4_update (CTX32 c) data = CTX32 (MD4_Update c data)"
| "md4_update s data = s"

fun md4_final :: "md_state \<Rightarrow> u8 list option \<times> md_state" where
  "md4_final (CTX32 c) = (let (out, c) = MD4_Final c in (Some out, CTX32 c))"
| "md4_final s = (None, s)"

definition md5_init :: "md_state \<Rightarrow> md_state" where
  "md5_init s = CTX32 MD5_Init"

fun md5_update :: "md_state \<Rightarrow> u8 list \<Rightarrow> md_state" where
  "md5_update (CTX32 c) data = CTX32 (MD5_Update c data)"
| "md5_update s data = s"

fun md5_final :: "md_state \<Rightarrow> u8 list option \<times> md_state" where
  "md5_final (CTX32 c) = (let (out, c) = MD5_Final c in (Some out, CTX32 c))"
| "md5_final s = (None, s)"

definition sha1_init :: "md_state \<Rightarrow> md_state" where
  "sha1_init s = CTX32 SHA1_Init"

fun sha1_update :: "md_state \<Rightarrow> u8 list \<Rightarrow> md_state" where
  "sha1_update (CTX32 c) data = CTX32 (SHA1_Update c data)"
| "sha1_update s data = s"

fun sha1_final :: "md_state \<Rightarrow> u8 list option \<times> md_state" where
  "sha1_final (CTX32 c) = (let (out, c) = SHA1_Final c in (Some out, CTX32 c))"
| "sha1_final s = (None, s)"

definition sha224_init :: "md_state \<Rightarrow> md_state" where
  "sha224_init s = CTX32 SHA224_Init"

fun sha224_update :: "md_state \<Rightarrow> u8 list \<Rightarrow> md_state" where
  "sha224_update (CTX32 c) data = CTX32 (SHA224_Update c data)"
| "sha224_update s data = s"

fun sha224_final :: "md_state \<Rightarrow> u8 list option \<times> md_state" where
  "sha224_final (CTX32 c) = (let (out, c) = SHA224_Final c in (out, CTX32 c))"
| "sha224_final s = (None, s)"

definition sha256_init :: "md_state \<Rightarrow> md_state" where
  "sha256_init s = CTX32 SHA256_Init"

fun sha256_update :: "md_state \<Rightarrow> u8 list \<Rightarrow> md_state" where
  "sha256_update (CTX32 c) data = CTX32 (SHA256_Update c data)"
| "sha256_update s data = s"

fun sha256_final :: "md_state \<Rightarrow> u8 list option \<times> md_state" where
  "sha256_final (CTX32 c) = (let (out, c) = SHA256_Final c in (out, CTX32 c))"
| "sha256_final s = (None, s)"

fun sha384_init :: "md_state \<Rightarrow> md_state" where
  "sha384_init (CTX64 c) = CTX64 (SHA384_Init c)"
| "sha384_init s = s"

fun sha384_update :: "md_state \<Rightarrow> u8 list \<Rightarrow> md_state" where
  "sha384_update (CTX64 c) data = CTX64 (SHA384_Update c data)"
| "sha384_update s data = s"

fun sha384_final :: "md_state \<Rightarrow> u8 list option \<times> md_state" where
  "sha384_final (CTX64 c) = (let (out, c) = SHA384_Final False c in (out, CTX64 c))"
| "sha384_final s = (None, s)"

fun sha512_init :: "md_state \<Rightarrow> md_state" where
  "sha512_init (CTX64 c) = CTX64 (SHA512_Init c)"
| "sha512_init s = s"

fun sha512_update :: "md_state \<Rightarrow> u8 list \<Rightarrow> md_state" where
  "sha512_update (CTX64 c) data = CTX64 (SHA512_Update c data)"
| "sha512_update s data = s"

fun sha512_final :: "md_state \<Rightarrow> u8 list option \<times> md_state" where
  "sha512_final (CTX64 c) = (let (out, c) = SHA512_Final False c in (out, CTX64 c))"
| "sha512_final s = (None, s)"

definition md5_sha1_init :: "md_state \<Rightarrow> md_state" where
  "md5_sha1_init s = CTX_MD5_SHA1 MD5_Init SHA1_Init"

fun md5_sha1_update :: "md_state \<Rightarrow> u8 list \<Rightarrow> md_state" where
  "md5_sha1_update (CTX_MD5_SHA1 a b) data = CTX_MD5_SHA1 (MD5_Update a data) (SHA1_Update b data)"
| "md5_sha1_update s data = s"

fun md5_sha1_final :: "md_state \<Rightarrow> u8 list option \<times> md_state" where
  "md5_sha1_final (CTX_MD5_SHA1 a b) =
     (let (out1, a) = MD5_Final a; (out2, b) = SHA1_Final b in (Some (out1 @ out2), CTX_MD5_SHA1 a b))"
| "md5_sha1_final s = (None, s)"

definition md4_method :: env_md_st where
  "md4_method = \<lparr>em_type = 257, em_md_size = 16, em_flags = 0, em_init = md4_init, em_update = md4_update,
     em_final = md4_final, em_block_size = 64, em_ctx_size = 92\<rparr>"

definition md5_method :: env_md_st where
  "md5_method = \<lparr>em_type = 4, em_md_size = 16, em_flags = 0, em_init = md5_init, em_update = md5_update,
     em_final = md5_final, em_block_size = 64, em_ctx_size = 92\<rparr>"

definition sha1_method :: env_md_st where
  "sha1_method = \<lparr>em_type = 64, em_md_size = 20, em_flags = 0, em_init = sha1_init, em_update = sha1_update,
     em_final = sha1_final, em_block_size = 64, em_ctx_size = 96\<rparr>"

definition sha224_method :: env_md_st where
  "sha224_method = \<lparr>em_type = 675, em_md_size = 28, em_flags = 0, em_init = sha224_init, em_update = sha224_update,
     em_final = sha224_final, em_block_size = 64, em_ctx_size = 112\<rparr>"

definition sha256_method :: env_md_st where
  "sha256_method = \<lparr>em_type = 672, em_md_size = 32, em_flags = 0, em_init = sha256_init, em_update = sha256_update,
     em_final = sha256_final, em_block_size = 64, em_ctx_size = 112\<rparr>"

definition sha384_method :: env_md_st where
  "sha384_method = \<lparr>em_type = 673, em_md_size = 48, em_flags = 0, em_init = sha384_init, em_update = sha384_update,
     em_final = sha384_final, em_block_size = 128, em_ctx_size = 216\<rparr>"

definition sha512_method :: env_md_st where
  "sha512_method = \<lparr>em_type = 674, em_md_size = 64, em_flags = 0, em_init = sha512_init, em_update = sha512_update,
     em_final = sha512_final, em_block_size = 128, em_ctx_size = 216\<rparr>"

definition md5_sha1_method :: env_md_st where
  "md5_sha1_method = \<lparr>em_type = 114, em_md_size = 16 + 20, em_flags = 0, em_init = md5_sha1_init,
     em_update = md5_sha1_update, em_final = md5_sha1_final, em_block_size = 64, em_ctx_size = 188\<rparr>"

fun md_method :: "EVP_MD \<Rightarrow> env_md_st" where
  "md_method EVP_md4 = md4_method"
| "md_method EVP_md5 = md5_method"
| "md_method EVP_sha1 = sha1_method"
| "md_method EVP_sha224 = sha224_method"
| "md_method EVP_sha256 = sha256_method"
| "md_method EVP_sha384 = sha384_method"
| "md_method EVP_sha512 = sha512_method"
| "md_method EVP_md5_sha1 = md5_sha1_method"

lemmas method_defs = md4_method_def md5_method_def sha1_method_def sha224_method_def sha256_method_def
  sha384_method_def sha512_method_def md5_sha1_method_def

definition EVP_MD_type :: "EVP_MD \<Rightarrow> nat" where
  "EVP_MD_type md = em_type (md_method md)"

definition EVP_MD_flags :: "EVP_MD \<Rightarrow> u32" where
  "EVP_MD_flags md = em_flags (md_method md)"

definition EVP_MD_size :: "EVP_MD \<Rightarrow> nat" where
  "EVP_MD_size md = em_md_size (md_method md)"

definition EVP_MD_block_size :: "EVP_MD \<Rightarrow> nat" where
  "EVP_MD_block_size md = em_block_size (md_method md)"

section \<open>Contexts\<close>

record env_md_ctx_st =
  ec_digest :: "EVP_MD option"
  ec_md_data :: "md_state option"

text \<open>Which allocations succeed, and what a fresh state of a hash function holds.\<close>

record md_env =
  me_malloc_ok :: "nat \<Rightarrow> bool"
  me_fresh :: "EVP_MD \<Rightarrow> md_state"

definition EVP_MD_CTX_init :: env_md_ctx_st where
  "EVP_MD_CTX_init = \<lparr>ec_digest = None, ec_md_data = None\<rparr>"

definition EVP_MD_CTX_cleanup :: "env_md_ctx_st \<Rightarrow> env_md_ctx_st" where
  "EVP_MD_CTX_cleanup ctx = EVP_MD_CTX_init"

definition EVP_MD_CTX_copy_ex ::
  "md_env \<Rightarrow> env_md_ctx_st \<Rightarrow> env_md_ctx_st option \<Rightarrow> bool \<times> env_md_ctx_st" where
  "EVP_MD_CTX_copy_ex e out inp =
     (case inp of
        None \<Rightarrow> (False, out)
      | Some i \<Rightarrow>
          (case ec_digest i of
             None \<Rightarrow> (False, out)
           | Some d \<Rightarrow>
               if ec_digest out \<noteq> Some d \<and> \<not> me_malloc_ok e (em_ctx_size (md_method d)) then (False, out)
               else (True, \<lparr>ec_digest = Some d, ec_md_data = ec_md_data i\<rparr>)))"

definition EVP_MD_CTX_copy :: "md_env \<Rightarrow> env_md_ctx_st option \<Rightarrow> bool \<times> env_md_ctx_st" where
  "EVP_MD_CTX_copy e inp = EVP_MD_CTX_copy_ex e EVP_MD_CTX_init inp"

definition EVP_MD_CTX_reset :: "env_md_ctx_st \<Rightarrow> bool \<times> env_md_ctx_st" where
  "EVP_MD_CTX_reset ctx = (True, EVP_MD_CTX_init)"

definition EVP_DigestInit_ex :: "md_env \<Rightarrow> env_md_ctx_st \<Rightarrow> EVP_MD \<Rightarrow> bool \<times> env_md_ctx_st" where
  "EVP_DigestInit_ex e ctx d =
     (if ec_digest ctx \<noteq> Some d \<and> \<not> me_malloc_ok e (em_ctx_size (md_method d)) then (False, ctx)
      else
        let ctx = (if ec_digest ctx \<noteq> Some d then ctx\<lparr>ec_md_data := Some (me_fresh e d), ec_digest := Some d\<rparr> else ctx)
        in (True, ctx\<lparr>ec_md_data := map_option (em_init (md_method d)) (ec_md_data ctx)\<rparr>))"

definition EVP_DigestInit :: "md_env \<Rightarrow> EVP_MD \<Rightarrow> bool \<times> env_md_ctx_st" where
  "EVP_DigestInit e d = EVP_DigestInit_ex e EVP_MD_CTX_init d"

definition EVP_DigestUpdate :: "env_md_ctx_st \<Rightarrow> u8 list \<Rightarrow> bool \<times> env_md_ctx_st" where
  "EVP_DigestUpdate ctx data =
     (True, ctx\<lparr>ec_md_data := map_option (\<lambda>s. em_update (md_method (the (ec_digest ctx))) s data) (ec_md_data ctx)\<rparr>)"

text \<open>\<open>OPENSSL_cleanse\<close> of a state.\<close>

definition zero32 :: "md32_ctx \<Rightarrow> md32_ctx" where
  "zero32 c = \<lparr>md_h = map (\<lambda>_. 0) (md_h c), md_Nl = 0, md_Nh = 0, md_data = map (\<lambda>_. 0) (md_data c), md_num = 0, md_len = 0\<rparr>"

fun cleanse_state :: "md_state \<Rightarrow> md_state" where
  "cleanse_state (CTX32 c) = CTX32 (zero32 c)"
| "cleanse_state (CTX64 c) =
     CTX64 \<lparr>s5_h = map (\<lambda>_. 0) (s5_h c), s5_Nl = 0, s5_Nh = 0, s5_p = map (\<lambda>_. 0) (s5_p c), s5_num = 0, s5_md_len = 0\<rparr>"
| "cleanse_state (CTX_MD5_SHA1 a b) = CTX_MD5_SHA1 (zero32 a) (zero32 b)"

text \<open>The digest, \<open>EVP_MD_size\<close> bytes long; \<open>*size\<close> is set to \<open>md_size\<close>.\<close>

definition EVP_DigestFinal_ex :: "env_md_ctx_st \<Rightarrow> u8 list option \<times> env_md_ctx_st" where
  "EVP_DigestFinal_ex ctx =
     (case ec_md_data ctx of
        None \<Rightarrow> (None, ctx)
      | Some s \<Rightarrow>
          let (out, s) = em_final (md_method (the (ec_digest ctx))) s
          in (out, ctx\<lparr>ec_md_data := Some (cleanse_state s)\<rparr>))"

definition EVP_DigestFinal :: "env_md_ctx_st \<Rightarrow> u8 list option \<times> env_md_ctx_st" where
  "EVP_DigestFinal ctx = (let (out, ctx) = EVP_DigestFinal_ex ctx in (out, EVP_MD_CTX_cleanup ctx))"

definition EVP_Digest :: "md_env \<Rightarrow> u8 list \<Rightarrow> EVP_MD \<Rightarrow> u8 list option" where
  "EVP_Digest e data d =
     (let (r, ctx) = EVP_DigestInit_ex e EVP_MD_CTX_init d
      in if \<not> r then None
         else let (_, ctx) = EVP_DigestUpdate ctx data in fst (EVP_DigestFinal_ex ctx))"

definition EVP_MD_CTX_md :: "env_md_ctx_st option \<Rightarrow> EVP_MD option" where
  "EVP_MD_CTX_md ctx = (case ctx of None \<Rightarrow> None | Some c \<Rightarrow> ec_digest c)"

definition EVP_MD_CTX_size :: "env_md_ctx_st option \<Rightarrow> nat" where
  "EVP_MD_CTX_size ctx = EVP_MD_size (the (EVP_MD_CTX_md ctx))"

definition EVP_MD_CTX_block_size :: "env_md_ctx_st option \<Rightarrow> nat" where
  "EVP_MD_CTX_block_size ctx = EVP_MD_block_size (the (EVP_MD_CTX_md ctx))"

definition EVP_MD_CTX_type :: "env_md_ctx_st option \<Rightarrow> nat" where
  "EVP_MD_CTX_type ctx = EVP_MD_type (the (EVP_MD_CTX_md ctx))"

section \<open>What a digest computes\<close>

fun hash_of :: "EVP_MD \<Rightarrow> u8 list \<Rightarrow> u8 list" where
  "hash_of EVP_md4 m = rfc1320_md4 m"
| "hash_of EVP_md5 m = rfc1321_md5 m"
| "hash_of EVP_sha1 m = fips_sha1 m"
| "hash_of EVP_sha224 m = fips_sha224 m"
| "hash_of EVP_sha256 m = fips_sha256 m"
| "hash_of EVP_sha384 m = fips_sha384 m"
| "hash_of EVP_sha512 m = fips_sha512 m"
| "hash_of EVP_md5_sha1 m = rfc1321_md5 m @ fips_sha1 m"

text \<open>The memory of a state has the size its method needs.\<close>

fun fits :: "EVP_MD \<Rightarrow> md_state \<Rightarrow> bool" where
  "fits d (CTX32 c) \<longleftrightarrow> d \<notin> {EVP_sha384, EVP_sha512, EVP_md5_sha1}"
| "fits d (CTX64 c) \<longleftrightarrow> d \<in> {EVP_sha384, EVP_sha512} \<and> length (s5_p c) = 128"
| "fits d (CTX_MD5_SHA1 a b) \<longleftrightarrow> d = EVP_md5_sha1"

lemma foldl_wrap:
  assumes "\<And>c x. u (w c) x = w (f c x)"
  shows "foldl u (w c) xss = w (foldl f c xss)"
  by (induction xss arbitrary: c) (simp_all add: assms)

lemma foldl_pair:
  "foldl md5_sha1_update (CTX_MD5_SHA1 a b) xss = CTX_MD5_SHA1 (foldl MD5_Update a xss) (foldl SHA1_Update b xss)"
  by (induction xss arbitrary: a b) simp_all

lemma method_final:
  assumes "fits d s"
  shows "fst (em_final (md_method d) (foldl (em_update (md_method d)) (em_init (md_method d) s) xss)) = Some (hash_of d (concat xss))"
proof (cases d)
  case EVP_md4
  have "foldl md4_update (CTX32 c) xss = CTX32 (foldl MD4_Update c xss)" for c by (rule foldl_wrap) simp
  then show ?thesis using EVP_md4 md4_stream_eq [of xss]
    by (simp add: method_defs md4_init_def md4_stream_def split_beta)
next
  case EVP_md5
  have "foldl md5_update (CTX32 c) xss = CTX32 (foldl MD5_Update c xss)" for c by (rule foldl_wrap) simp
  then show ?thesis using EVP_md5 md5_stream_eq [of xss]
    by (simp add: method_defs md5_init_def md5_stream_def split_beta)
next
  case EVP_sha1
  have "foldl sha1_update (CTX32 c) xss = CTX32 (foldl SHA1_Update c xss)" for c by (rule foldl_wrap) simp
  then show ?thesis using EVP_sha1 sha1_stream_eq [of xss]
    by (simp add: method_defs sha1_init_def sha1_stream_def split_beta)
next
  case EVP_sha224
  have "foldl sha224_update (CTX32 c) xss = CTX32 (foldl SHA224_Update c xss)" for c by (rule foldl_wrap) simp
  then show ?thesis using EVP_sha224 sha224_stream_fips [of xss]
    by (simp add: method_defs sha224_init_def sha224_stream_def split_beta)
next
  case EVP_sha256
  have "foldl sha256_update (CTX32 c) xss = CTX32 (foldl SHA256_Update c xss)" for c by (rule foldl_wrap) simp
  then show ?thesis using EVP_sha256 sha256_stream_fips [of xss]
    by (simp add: method_defs sha256_init_def sha256_stream_def split_beta)
next
  case EVP_sha384
  then obtain c where c: "s = CTX64 c" "length (s5_p c) = 128" using assms by (cases s) auto
  have "foldl sha384_update (CTX64 c) xss = CTX64 (foldl SHA384_Update c xss)" for c by (rule foldl_wrap) simp
  then show ?thesis using EVP_sha384 c sha384_stream_fips [of c xss]
    by (simp add: method_defs sha384_stream_def split_beta)
next
  case EVP_sha512
  then obtain c where c: "s = CTX64 c" "length (s5_p c) = 128" using assms by (cases s) auto
  have "foldl sha512_update (CTX64 c) xss = CTX64 (foldl SHA512_Update c xss)" for c by (rule foldl_wrap) simp
  then show ?thesis using EVP_sha512 c sha512_stream_fips [of c xss]
    by (simp add: method_defs sha512_stream_def split_beta)
next
  case EVP_md5_sha1
  then show ?thesis using md5_stream_eq [of xss] sha1_stream_eq [of xss]
    by (simp add: method_defs md5_sha1_init_def md5_stream_def sha1_stream_def foldl_pair split_beta)
qed

section \<open>Absorbing a message\<close>

locale absorber =
  fixes has :: "'b list \<Rightarrow> 's \<Rightarrow> bool"
    and update :: "'s \<Rightarrow> 'b list \<Rightarrow> 's"
    and out :: "'s \<Rightarrow> 'r"
    and result :: "'b list \<Rightarrow> 'r"
  assumes has_update: "has m s \<Longrightarrow> has (m @ x) (update s x)"
    and has_out: "has m s \<Longrightarrow> out s = result m"
begin

lemma has_updates: "has m s \<Longrightarrow> has (m @ concat xss) (foldl update s xss)"
proof (induction xss arbitrary: m s)
  case (Cons x xss)
  then show ?case using Cons.IH [OF has_update [OF Cons.prems, of x]] by simp
qed simp

lemma out_updates: "has m s \<Longrightarrow> out (foldl update s xss) = result (m @ concat xss)"
  using has_updates has_out by blast

end

definition evp_has :: "EVP_MD \<Rightarrow> u8 list \<Rightarrow> env_md_ctx_st \<Rightarrow> bool" where
  "evp_has d m ctx \<longleftrightarrow> ec_digest ctx = Some d \<and>
     (\<exists>xss s. fits d s \<and> concat xss = m \<and>
       ec_md_data ctx = Some (foldl (em_update (md_method d)) (em_init (md_method d) s) xss))"

interpretation evp: absorber "evp_has d" "\<lambda>c x. snd (EVP_DigestUpdate c x)" "\<lambda>c. fst (EVP_DigestFinal_ex c)"
  "\<lambda>m. Some (hash_of d m)" for d
proof
  fix m c x assume "evp_has d m c"
  then obtain xss s where c: "ec_digest c = Some d" "fits d s" "concat xss = m"
    "ec_md_data c = Some (foldl (em_update (md_method d)) (em_init (md_method d) s) xss)" by (auto simp: evp_has_def)
  have "concat (xss @ [x]) = m @ x" using c(3) by simp
  moreover have "ec_md_data (snd (EVP_DigestUpdate c x)) = Some (foldl (em_update (md_method d)) (em_init (md_method d) s) (xss @ [x]))"
    using c by (simp add: EVP_DigestUpdate_def)
  moreover have "ec_digest (snd (EVP_DigestUpdate c x)) = Some d" using c(1) by (simp add: EVP_DigestUpdate_def)
  ultimately show "evp_has d (m @ x) (snd (EVP_DigestUpdate c x))" using c(2) unfolding evp_has_def by blast
next
  fix m c assume "evp_has d m c"
  then show "fst (EVP_DigestFinal_ex c) = Some (hash_of d m)"
    using method_final by (auto simp: evp_has_def EVP_DigestFinal_ex_def split_beta)
qed

text \<open>A context is usable for a digest if it is empty or already holds a state of it.\<close>

definition ctx_ok :: "env_md_ctx_st \<Rightarrow> bool" where
  "ctx_ok ctx \<longleftrightarrow> (case ec_digest ctx of None \<Rightarrow> True | Some d \<Rightarrow> \<exists>s. ec_md_data ctx = Some s \<and> fits d s)"

definition fresh_ok :: "md_env \<Rightarrow> bool" where
  "fresh_ok e \<longleftrightarrow> (\<forall>d. fits d (me_fresh e d))"

definition can_alloc :: "md_env \<Rightarrow> EVP_MD \<Rightarrow> bool" where
  "can_alloc e d \<longleftrightarrow> me_malloc_ok e (em_ctx_size (md_method d))"

lemma EVP_DigestInit_ex_ok:
  assumes "fresh_ok e" "ctx_ok ctx" "ec_digest ctx = Some d \<or> can_alloc e d"
  shows "fst (EVP_DigestInit_ex e ctx d)" "evp_has d [] (snd (EVP_DigestInit_ex e ctx d))"
proof -
  show "fst (EVP_DigestInit_ex e ctx d)" using assms(3) by (auto simp: EVP_DigestInit_ex_def can_alloc_def Let_def)
  obtain s where "fits d s" "ec_md_data (snd (EVP_DigestInit_ex e ctx d)) = Some (em_init (md_method d) s)"
    "ec_digest (snd (EVP_DigestInit_ex e ctx d)) = Some d"
    using assms by (cases "ec_digest ctx = Some d") (auto simp: EVP_DigestInit_ex_def can_alloc_def Let_def ctx_ok_def fresh_ok_def)
  then show "evp_has d [] (snd (EVP_DigestInit_ex e ctx d))"
    unfolding evp_has_def by (intro conjI exI [of _ "[]"] exI [of _ s]) simp_all
qed

lemma EVP_DigestInit_ex_fail:
  "ec_digest ctx \<noteq> Some d \<Longrightarrow> \<not> can_alloc e d \<Longrightarrow> EVP_DigestInit_ex e ctx d = (False, ctx)"
  by (simp add: EVP_DigestInit_ex_def can_alloc_def)

lemma EVP_MD_CTX_copy_ex_ok:
  assumes "evp_has d m i" "ec_digest out = Some d \<or> can_alloc e d"
  shows "EVP_MD_CTX_copy_ex e out (Some i) = (True, i)"
  using assms by (auto simp: EVP_MD_CTX_copy_ex_def evp_has_def can_alloc_def)

lemma fst_EVP_DigestUpdate [simp]: "fst (EVP_DigestUpdate c x)"
  by (simp add: EVP_DigestUpdate_def)

lemma fits_init: "fits d s \<Longrightarrow> fits d (em_init (md_method d) s)"
  by (cases d; cases s) (simp_all add: method_defs md4_init_def md5_init_def sha1_init_def sha224_init_def
    sha256_init_def md5_sha1_init_def SHA384_Init_def SHA512_Init_def)

section \<open>The length of a digest\<close>

lemma length_concat_words:
  "length (concat (map (\<lambda>w. be_bytes n (f w)) xs)) = n * length xs"
  "length (concat (map (\<lambda>w. le_bytes n (f w)) xs)) = n * length xs"
  by (induction xs) simp_all

lemma length_rfc_digest:
  assumes "\<And>H b. length H = 4 \<Longrightarrow> f H b = g H b \<and> length (f H b) = 4" "length iv = 4"
  shows "length (rfc_digest g iv m) = 16"
proof -
  let ?bs = "chunks 64 (md_pad 64 8 m (le_bytes 8 (8 * length m mod 2 ^ 64)))"
  have "length (fold (\<lambda>b H. g H b) ?bs iv) = 4"
    using fold_blocks4 [of f g iv ?bs, OF assms] by metis
  then show ?thesis by (simp only: rfc_digest_def length_concat_words)
qed

lemma length_fips_sha1: "length (fips_sha1 m) = 20"
proof -
  let ?bs = "chunks 64 (md_pad 64 8 m (be_bytes 8 (8 * length m mod 2 ^ 64)))"
  have iv: "length sha1_iv = 5" by (simp add: sha1_iv_def)
  have "length (fold (\<lambda>b H. fips_sha1_block H b) ?bs sha1_iv) = 5"
    using fold_sha1_length [OF iv, of ?bs] fold_sha1_block [OF iv, of ?bs] by simp
  then show ?thesis by (simp only: fips_sha1_def length_concat_words)
qed

lemma length_fips_sha2_32:
  assumes "length iv = 8" "n \<le> 32"
  shows "length (fips_sha2_32 iv n m) = n"
proof -
  have "length (fold (\<lambda>b H. fips_sha256_block H b) bs iv) = 8" for bs
    using fold_sha256_block [OF assms(1), of bs] by metis
  then show ?thesis using assms(2) by (simp only: fips_sha2_32_def length_take length_concat_words)
qed

lemma length_fips_sha2_64:
  assumes "length iv = 8" "n \<le> 64"
  shows "length (fips_sha2_64 iv n m) = n"
proof -
  have "length (fold (\<lambda>b H. fips_sha512_block H b) bs iv) = 8" for bs
    using fold_sha512_block [OF assms(1), of bs] by metis
  then show ?thesis using assms(2) by (simp only: fips_sha2_64_def length_take length_concat_words)
qed

lemma length_hash_of: "length (hash_of d m) = EVP_MD_size d"
proof -
  have "length (rfc1321_md5 m) = 16" "length (rfc1320_md4 m) = 16" for m
    unfolding rfc1321_md5_def rfc1320_md4_def
    by (rule length_rfc_digest, rule md5_block_rfc md4_block_rfc, assumption, simp add: md5_iv_def md4_iv_def)+
  then show ?thesis
    by (cases d) (simp_all add: EVP_MD_size_def method_defs length_fips_sha1 fips_sha224_def fips_sha256_def
      fips_sha384_def fips_sha512_def length_fips_sha2_32 length_fips_sha2_64 sha224_iv_def sha256_iv_def sha384_iv_def sha512_iv_def)
qed

lemma md_sizes: "0 < EVP_MD_size d" "EVP_MD_size d \<le> EVP_MD_block_size d" "EVP_MD_block_size d \<le> 128"
  by (cases d; simp add: EVP_MD_size_def EVP_MD_block_size_def method_defs)+

lemma hash_of_le_block: "length (hash_of d m) \<le> EVP_MD_block_size d"
  using md_sizes(2) [of d] by (simp add: length_hash_of)

text \<open>An environment in which every allocation succeeds and fresh memory is zero.\<close>

definition zeroed_env :: md_env where
  "zeroed_env = \<lparr>me_malloc_ok = (\<lambda>_. True),
     me_fresh = (\<lambda>d. if d \<in> {EVP_sha384, EVP_sha512}
       then CTX64 \<lparr>s5_h = [], s5_Nl = 0, s5_Nh = 0, s5_p = replicate 128 0, s5_num = 0, s5_md_len = 0\<rparr>
       else if d = EVP_md5_sha1 then CTX_MD5_SHA1 MD5_Init SHA1_Init else CTX32 MD5_Init)\<rparr>"

lemma zeroed_env_ok [simp]: "fresh_ok zeroed_env" "can_alloc zeroed_env d"
  by (auto simp: zeroed_env_def fresh_ok_def can_alloc_def)

text \<open>
  C38. For every digest of the library \<open>EVP_Digest\<close> gives the value its standard defines, of exactly the size that
  the method declares, which fits \<open>EVP_MAX_MD_SIZE\<close>; it fails exactly when the state cannot be allocated.
\<close>

theorem EVP_Digest_sized:
  assumes "fresh_ok e"
  shows "EVP_Digest e data d = (if can_alloc e d then Some (hash_of d data) else None) \<and>
     length (hash_of d data) = EVP_MD_size d \<and> EVP_MD_size d \<le> 64"
proof (intro conjI)
  let ?i = "EVP_DigestInit_ex e EVP_MD_CTX_init d"
  have ctx: "ctx_ok EVP_MD_CTX_init" by (simp add: ctx_ok_def EVP_MD_CTX_init_def)
  show "EVP_Digest e data d = (if can_alloc e d then Some (hash_of d data) else None)"
  proof (cases "can_alloc e d")
    case True
    have ok: "fst ?i" "evp_has d [] (snd ?i)" using EVP_DigestInit_ex_ok [OF assms ctx] True by auto
    have "evp_has d ([] @ data) (snd (EVP_DigestUpdate (snd ?i) data))" by (rule evp.has_update [OF ok(2)])
    from evp.has_out [OF this] show ?thesis using ok(1) True by (simp add: EVP_Digest_def split_beta)
  next
    case False
    then show ?thesis by (simp add: EVP_Digest_def EVP_DigestInit_ex_fail EVP_MD_CTX_init_def)
  qed
  show "EVP_MD_size d \<le> 64" by (cases d) (simp_all add: EVP_MD_size_def method_defs)
qed (rule length_hash_of)

lemma EVP_Digest_sized_witness:
  "\<exists>out. EVP_Digest zeroed_env [97, 98, 99] EVP_md5_sha1 = Some out \<and> length out = 36 \<and>
     out = rfc1321_md5 [97, 98, 99] @ fips_sha1 [97, 98, 99]"
  using EVP_Digest_sized [of zeroed_env "[97, 98, 99]" EVP_md5_sha1] by (simp add: EVP_MD_size_def method_defs)

end
