(* ===== verification/Hmac.thy ===== *)
theory Hmac
  imports Digest
begin

text \<open>
  \<open>crypto/fipsmodule/hmac/hmac.c\<close> over the digests of \<open>Digest\<close>, and HMAC as RFC 2104 defines it. A key that is
  \<open>NULL\<close> is \<open>None\<close>; the bytes of it are then none. An HMAC context absorbs a message, as a digest does.
\<close>

unbundle bit_operations_syntax

section \<open>The code\<close>

record hmac_ctx_st =
  hm_md :: "EVP_MD option"
  hm_md_ctx :: env_md_ctx_st
  hm_i_ctx :: env_md_ctx_st
  hm_o_ctx :: env_md_ctx_st

definition HMAC_CTX_init :: hmac_ctx_st where
  "HMAC_CTX_init = \<lparr>hm_md = None, hm_md_ctx = EVP_MD_CTX_init, hm_i_ctx = EVP_MD_CTX_init, hm_o_ctx = EVP_MD_CTX_init\<rparr>"

definition key_bytes :: "u8 list option \<Rightarrow> u8 list" where
  "key_bytes key = (case key of None \<Rightarrow> [] | Some k \<Rightarrow> k)"

text \<open>The array \<open>key_block\<close>; long keys are hashed in \<open>ctx->md_ctx\<close>.\<close>

definition hmac_key_block ::
  "md_env \<Rightarrow> hmac_ctx_st \<Rightarrow> EVP_MD \<Rightarrow> u8 list \<Rightarrow> u8 list option \<times> hmac_ctx_st" where
  "hmac_key_block e ctx d key =
     (let (kb, ctx) =
        (if EVP_MD_block_size d < length key then
           (let (r, c) = EVP_DigestInit_ex e (hm_md_ctx ctx) d
            in if \<not> r then (None, ctx\<lparr>hm_md_ctx := c\<rparr>)
               else let (_, c) = EVP_DigestUpdate c key; (kb, c) = EVP_DigestFinal_ex c
                    in (kb, ctx\<lparr>hm_md_ctx := c\<rparr>))
         else (Some key, ctx))
      in (map_option (\<lambda>kb. kb @ replicate (128 - length kb) 0) kb, ctx))"

definition hmac_start ::
  "md_env \<Rightarrow> env_md_ctx_st \<Rightarrow> EVP_MD \<Rightarrow> u8 \<Rightarrow> u8 list \<Rightarrow> bool \<times> env_md_ctx_st" where
  "hmac_start e c d x key_block =
     (let pad = map (\<lambda>k. x XOR k) key_block; (r, c) = EVP_DigestInit_ex e c d
      in if \<not> r then (False, c) else EVP_DigestUpdate c (take (EVP_MD_block_size d) pad))"

definition HMAC_Init_ex ::
  "md_env \<Rightarrow> hmac_ctx_st \<Rightarrow> u8 list option \<Rightarrow> EVP_MD option \<Rightarrow> bool \<times> hmac_ctx_st" where
  "HMAC_Init_ex e ctx key md =
     (let md = (if md = None then hm_md ctx else md);
          (r, ctx) =
            (if md \<noteq> hm_md ctx \<or> key \<noteq> None then
               (case hmac_key_block e ctx (the md) (key_bytes key) of
                  (None, ctx) \<Rightarrow> (False, ctx)
                | (Some kb, ctx) \<Rightarrow>
                    (let (r, c) = hmac_start e (hm_i_ctx ctx) (the md) 0x36 kb; ctx = ctx\<lparr>hm_i_ctx := c\<rparr>
                     in if \<not> r then (False, ctx)
                        else
                          (let (r, c) = hmac_start e (hm_o_ctx ctx) (the md) 0x5c kb; ctx = ctx\<lparr>hm_o_ctx := c\<rparr>
                           in if \<not> r then (False, ctx) else (True, ctx\<lparr>hm_md := md\<rparr>))))
             else (True, ctx))
      in if \<not> r then (False, ctx)
         else let (r, c) = EVP_MD_CTX_copy_ex e (hm_md_ctx ctx) (Some (hm_i_ctx ctx)) in (r, ctx\<lparr>hm_md_ctx := c\<rparr>))"

definition HMAC_Update :: "hmac_ctx_st \<Rightarrow> u8 list \<Rightarrow> bool \<times> hmac_ctx_st" where
  "HMAC_Update ctx data = (let (r, c) = EVP_DigestUpdate (hm_md_ctx ctx) data in (r, ctx\<lparr>hm_md_ctx := c\<rparr>))"

definition HMAC_Final :: "md_env \<Rightarrow> hmac_ctx_st \<Rightarrow> u8 list option \<times> hmac_ctx_st" where
  "HMAC_Final e ctx =
     (let (out, c) = EVP_DigestFinal_ex (hm_md_ctx ctx); ctx = ctx\<lparr>hm_md_ctx := c\<rparr>
      in case out of
           None \<Rightarrow> (None, ctx)
         | Some buf \<Rightarrow>
             (let (r, c) = EVP_MD_CTX_copy_ex e (hm_md_ctx ctx) (Some (hm_o_ctx ctx)); ctx = ctx\<lparr>hm_md_ctx := c\<rparr>
              in if \<not> r then (None, ctx)
                 else
                   (let (_, c) = EVP_DigestUpdate (hm_md_ctx ctx) buf; (out, c) = EVP_DigestFinal_ex c
                    in (out, ctx\<lparr>hm_md_ctx := c\<rparr>))))"

definition HMAC_size :: "hmac_ctx_st \<Rightarrow> nat" where
  "HMAC_size ctx = EVP_MD_size (the (hm_md ctx))"

definition HMAC_CTX_copy_ex :: "md_env \<Rightarrow> hmac_ctx_st \<Rightarrow> hmac_ctx_st \<Rightarrow> bool \<times> hmac_ctx_st" where
  "HMAC_CTX_copy_ex e dst src =
     (let (r, c) = EVP_MD_CTX_copy_ex e (hm_i_ctx dst) (Some (hm_i_ctx src)); dst = dst\<lparr>hm_i_ctx := c\<rparr>
      in if \<not> r then (False, dst)
         else
           (let (r, c) = EVP_MD_CTX_copy_ex e (hm_o_ctx dst) (Some (hm_o_ctx src)); dst = dst\<lparr>hm_o_ctx := c\<rparr>
            in if \<not> r then (False, dst)
               else
                 (let (r, c) = EVP_MD_CTX_copy_ex e (hm_md_ctx dst) (Some (hm_md_ctx src)); dst = dst\<lparr>hm_md_ctx := c\<rparr>
                  in if \<not> r then (False, dst) else (True, dst\<lparr>hm_md := hm_md src\<rparr>))))"

definition HMAC_CTX_copy :: "md_env \<Rightarrow> hmac_ctx_st \<Rightarrow> bool \<times> hmac_ctx_st" where
  "HMAC_CTX_copy e src = HMAC_CTX_copy_ex e HMAC_CTX_init src"

definition HMAC_CTX_cleanup :: "hmac_ctx_st \<Rightarrow> hmac_ctx_st" where
  "HMAC_CTX_cleanup ctx = HMAC_CTX_init"

definition HMAC_CTX_reset :: "hmac_ctx_st \<Rightarrow> hmac_ctx_st" where
  "HMAC_CTX_reset ctx = HMAC_CTX_init"

definition HMAC_Init ::
  "md_env \<Rightarrow> hmac_ctx_st \<Rightarrow> u8 list option \<Rightarrow> EVP_MD option \<Rightarrow> bool \<times> hmac_ctx_st" where
  "HMAC_Init e ctx key md =
     (let ctx = (if key \<noteq> None \<and> md \<noteq> None then HMAC_CTX_init else ctx) in HMAC_Init_ex e ctx key md)"

text \<open>\<open>None\<close> is the return of \<open>NULL\<close>.\<close>

definition HMAC :: "md_env \<Rightarrow> EVP_MD \<Rightarrow> u8 list option \<Rightarrow> u8 list \<Rightarrow> u8 list option" where
  "HMAC e d key data =
     (let (r, ctx) = HMAC_Init_ex e HMAC_CTX_init key (Some d)
      in if \<not> r then None
         else let (_, ctx) = HMAC_Update ctx data in fst (HMAC_Final e ctx))"

section \<open>RFC 2104\<close>

definition hmac_key :: "(u8 list \<Rightarrow> u8 list) \<Rightarrow> nat \<Rightarrow> u8 list \<Rightarrow> u8 list" where
  "hmac_key H B K = (let K = (if length K > B then H K else K) in K @ replicate (B - length K) 0)"

definition rfc2104 :: "(u8 list \<Rightarrow> u8 list) \<Rightarrow> nat \<Rightarrow> u8 list \<Rightarrow> u8 list \<Rightarrow> u8 list" where
  "rfc2104 H B K msg =
     (let K = hmac_key H B K in H (map (\<lambda>k. 0x5c XOR k) K @ H (map (\<lambda>k. 0x36 XOR k) K @ msg)))"

definition hmac_of :: "EVP_MD \<Rightarrow> u8 list \<Rightarrow> u8 list \<Rightarrow> u8 list" where
  "hmac_of d = rfc2104 (hash_of d) (EVP_MD_block_size d)"

section \<open>A context absorbs a message\<close>

definition pad_block :: "EVP_MD \<Rightarrow> u8 \<Rightarrow> u8 list \<Rightarrow> u8 list" where
  "pad_block d x K = map (\<lambda>k. x XOR k) (hmac_key (hash_of d) (EVP_MD_block_size d) K)"

lemma hmac_of_pads: "hmac_of d K m = hash_of d (pad_block d 0x5c K @ hash_of d (pad_block d 0x36 K @ m))"
  by (simp add: hmac_of_def rfc2104_def pad_block_def Let_def)

text \<open>The keyed states are in place; \<open>hmac_has\<close> adds that the inner digest stands at the message \<open>m\<close>.\<close>

definition hmac_keyed :: "EVP_MD \<Rightarrow> u8 list \<Rightarrow> hmac_ctx_st \<Rightarrow> bool" where
  "hmac_keyed d K ctx \<longleftrightarrow> hm_md ctx = Some d \<and> evp_has d (pad_block d 0x36 K) (hm_i_ctx ctx) \<and>
     evp_has d (pad_block d 0x5c K) (hm_o_ctx ctx) \<and> ec_digest (hm_md_ctx ctx) = Some d"

definition hmac_has :: "EVP_MD \<Rightarrow> u8 list \<Rightarrow> u8 list \<Rightarrow> hmac_ctx_st \<Rightarrow> bool" where
  "hmac_has d K m ctx \<longleftrightarrow> hmac_keyed d K ctx \<and> evp_has d (pad_block d 0x36 K @ m) (hm_md_ctx ctx)"

lemma evp_has_digest: "evp_has d m c \<Longrightarrow> ec_digest c = Some d"
  by (simp add: evp_has_def)

lemma EVP_DigestFinal_ex_digest [simp]: "ec_digest (snd (EVP_DigestFinal_ex c)) = ec_digest c"
  by (simp add: EVP_DigestFinal_ex_def split_beta split: option.splits)

lemma HMAC_Final_ok:
  assumes "hmac_has d K m ctx"
  shows "fst (HMAC_Final e ctx) = Some (hmac_of d K m)" "hmac_keyed d K (snd (HMAC_Final e ctx))"
proof -
  let ?inner = "hash_of d (pad_block d 0x36 K @ m)"
  let ?u = "snd (EVP_DigestUpdate (hm_o_ctx ctx) ?inner)"
  have h: "hm_md ctx = Some d" "evp_has d (pad_block d 0x36 K) (hm_i_ctx ctx)"
    "evp_has d (pad_block d 0x5c K) (hm_o_ctx ctx)" "evp_has d (pad_block d 0x36 K @ m) (hm_md_ctx ctx)"
    using assms by (simp_all add: hmac_has_def hmac_keyed_def)
  obtain c where c: "EVP_DigestFinal_ex (hm_md_ctx ctx) = (Some ?inner, c)" "ec_digest c = Some d"
    using evp.has_out [OF h(4)] EVP_DigestFinal_ex_digest [of "hm_md_ctx ctx"] evp_has_digest [OF h(4)]
    by (metis prod.collapse)
  have copy: "EVP_MD_CTX_copy_ex e c (Some (hm_o_ctx ctx)) = (True, hm_o_ctx ctx)"
    by (rule EVP_MD_CTX_copy_ex_ok [OF h(3)]) (simp add: c(2))
  have u: "EVP_DigestUpdate (hm_o_ctx ctx) ?inner = (True, ?u)" by (simp add: prod_eq_iff)
  have has: "evp_has d (pad_block d 0x5c K @ ?inner) ?u" by (rule evp.has_update [OF h(3)])
  have outer: "fst (EVP_DigestFinal_ex ?u) = Some (hmac_of d K m)"
    using evp.has_out [OF has] by (simp add: hmac_of_pads)
  have final: "HMAC_Final e ctx = (Some (hmac_of d K m), ctx\<lparr>hm_md_ctx := snd (EVP_DigestFinal_ex ?u)\<rparr>)"
    using copy u outer by (simp add: HMAC_Final_def c(1) split_beta Let_def)
  show "fst (HMAC_Final e ctx) = Some (hmac_of d K m)" "hmac_keyed d K (snd (HMAC_Final e ctx))"
    using h by (simp_all add: final hmac_keyed_def evp_has_digest [OF has])
qed

interpretation hmac: absorber "hmac_has d K" "\<lambda>c x. snd (HMAC_Update c x)" "\<lambda>c. fst (HMAC_Final e c)"
  "\<lambda>m. Some (hmac_of d K m)" for d K e
proof
  fix m c x assume h: "hmac_has d K m c"
  have "evp_has d ((pad_block d 0x36 K @ m) @ x) (snd (EVP_DigestUpdate (hm_md_ctx c) x))"
    using h by (intro evp.has_update) (simp add: hmac_has_def)
  then show "hmac_has d K (m @ x) (snd (HMAC_Update c x))"
    using h by (simp add: hmac_has_def hmac_keyed_def HMAC_Update_def split_beta evp_has_digest)
next
  fix m c assume "hmac_has d K m c"
  then show "fst (HMAC_Final e c) = Some (hmac_of d K m)" by (rule HMAC_Final_ok)
qed

lemma fst_HMAC_Update [simp]: "fst (HMAC_Update c x)"
  by (simp add: HMAC_Update_def split_beta)

section \<open>Keying\<close>

definition hmac_ok :: "hmac_ctx_st \<Rightarrow> bool" where
  "hmac_ok ctx \<longleftrightarrow> ctx_ok (hm_md_ctx ctx) \<and> ctx_ok (hm_i_ctx ctx) \<and> ctx_ok (hm_o_ctx ctx)"

lemma hmac_ok_init [simp]: "hmac_ok HMAC_CTX_init"
  by (simp add: hmac_ok_def HMAC_CTX_init_def EVP_MD_CTX_init_def ctx_ok_def)

lemma hmac_key_block_ok:
  assumes "fresh_ok e" "hmac_ok ctx" "can_alloc e d"
  obtains c where
    "hmac_key_block e ctx d key =
       (Some (hmac_key (hash_of d) (EVP_MD_block_size d) key @ replicate (128 - EVP_MD_block_size d) 0), ctx\<lparr>hm_md_ctx := c\<rparr>)"
proof (cases "EVP_MD_block_size d < length key")
  case True
  let ?i = "EVP_DigestInit_ex e (hm_md_ctx ctx) d"
  let ?u = "snd (EVP_DigestUpdate (snd ?i) key)"
  have ok: "fst ?i" "evp_has d [] (snd ?i)"
    using EVP_DigestInit_ex_ok [of e "hm_md_ctx ctx" d] assms by (auto simp: hmac_ok_def)
  have "evp_has d ([] @ key) ?u" by (rule evp.has_update [OF ok(2)])
  then have "fst (EVP_DigestFinal_ex ?u) = Some (hash_of d key)" using evp.has_out by fastforce
  then show ?thesis using True ok(1) that [of "snd (EVP_DigestFinal_ex ?u)"] hash_of_le_block [of d key] md_sizes(3) [of d]
    by (simp add: hmac_key_block_def split_beta hmac_key_def Let_def replicate_add [symmetric])
next
  case False
  then show ?thesis using that [of "hm_md_ctx ctx"] md_sizes(3) [of d]
    by (simp add: hmac_key_block_def hmac_key_def Let_def replicate_add [symmetric])
qed

lemma hmac_start_ok:
  assumes "fresh_ok e" "ctx_ok c" "can_alloc e d"
  shows "fst (hmac_start e c d x (hmac_key (hash_of d) (EVP_MD_block_size d) key @ z))"
    "evp_has d (pad_block d x key) (snd (hmac_start e c d x (hmac_key (hash_of d) (EVP_MD_block_size d) key @ z)))"
proof -
  have i: "fst (EVP_DigestInit_ex e c d)" "evp_has d [] (snd (EVP_DigestInit_ex e c d))"
    using EVP_DigestInit_ex_ok [of e c d] assms by auto
  have "length (hmac_key (hash_of d) (EVP_MD_block_size d) key) = EVP_MD_block_size d"
    using hash_of_le_block [of d key] by (simp add: hmac_key_def Let_def)
  then have t: "take (EVP_MD_block_size d) (map (\<lambda>k. x XOR k) (hmac_key (hash_of d) (EVP_MD_block_size d) key @ z))
      = pad_block d x key" by (simp add: pad_block_def take_map)
  have "evp_has d ([] @ pad_block d x key) (snd (EVP_DigestUpdate (snd (EVP_DigestInit_ex e c d)) (pad_block d x key)))"
    by (rule evp.has_update [OF i(2)])
  then show "fst (hmac_start e c d x (hmac_key (hash_of d) (EVP_MD_block_size d) key @ z))"
    "evp_has d (pad_block d x key) (snd (hmac_start e c d x (hmac_key (hash_of d) (EVP_MD_block_size d) key @ z)))"
    using i(1) unfolding hmac_start_def Let_def t by (simp_all add: split_beta)
qed

lemma HMAC_Init_ex_ok:
  assumes e: "fresh_ok e" "can_alloc e d" and ok: "hmac_ok ctx"
    and new: "key \<noteq> None \<or> hm_md ctx \<noteq> Some d"
  shows "fst (HMAC_Init_ex e ctx key (Some d))" "hmac_has d (key_bytes key) [] (snd (HMAC_Init_ex e ctx key (Some d)))"
proof -
  let ?K = "hmac_key (hash_of d) (EVP_MD_block_size d) (key_bytes key) @ replicate (128 - EVP_MD_block_size d) 0"
  obtain c where kb: "hmac_key_block e ctx d (key_bytes key) = (Some ?K, ctx\<lparr>hm_md_ctx := c\<rparr>)"
    using hmac_key_block_ok [OF e(1) ok e(2)] .
  let ?i = "hmac_start e (hm_i_ctx ctx) d 0x36 ?K" and ?o = "hmac_start e (hm_o_ctx ctx) d 0x5c ?K"
  have i: "fst ?i" "evp_has d (pad_block d 0x36 (key_bytes key)) (snd ?i)"
    using hmac_start_ok e ok by (auto simp: hmac_ok_def)
  have o: "fst ?o" "evp_has d (pad_block d 0x5c (key_bytes key)) (snd ?o)"
    using hmac_start_ok e ok by (auto simp: hmac_ok_def)
  have copy: "EVP_MD_CTX_copy_ex e c (Some (snd ?i)) = (True, snd ?i)"
    using EVP_MD_CTX_copy_ex_ok [OF i(2)] e(2) by blast
  have "HMAC_Init_ex e ctx key (Some d) =
      (True, \<lparr>hm_md = Some d, hm_md_ctx = snd ?i, hm_i_ctx = snd ?i, hm_o_ctx = snd ?o\<rparr>)"
    using new i(1) o(1) copy by (auto simp: HMAC_Init_ex_def kb split_beta Let_def)
  then show "fst (HMAC_Init_ex e ctx key (Some d))" "hmac_has d (key_bytes key) [] (snd (HMAC_Init_ex e ctx key (Some d)))"
    using i(2) o(2) by (simp_all add: hmac_has_def hmac_keyed_def evp_has_digest)
qed

text \<open>Without a key and a digest, the code rewinds the context to the start of a message.\<close>

lemma HMAC_Init_ex_rewind:
  assumes "hmac_keyed d K ctx"
  shows "fst (HMAC_Init_ex e ctx None None)" "hmac_has d K [] (snd (HMAC_Init_ex e ctx None None))"
proof -
  have "EVP_MD_CTX_copy_ex e (hm_md_ctx ctx) (Some (hm_i_ctx ctx)) = (True, hm_i_ctx ctx)"
    using assms by (intro EVP_MD_CTX_copy_ex_ok [of d "pad_block d 0x36 K"]) (simp_all add: hmac_keyed_def)
  then show "fst (HMAC_Init_ex e ctx None None)" "hmac_has d K [] (snd (HMAC_Init_ex e ctx None None))"
    using assms evp_has_digest [of d "pad_block d 0x36 K" "hm_i_ctx ctx"]
    by (simp_all add: HMAC_Init_ex_def hmac_has_def hmac_keyed_def)
qed

lemma HMAC_Init_ex_fail:
  assumes "\<not> can_alloc e d"
  shows "\<not> fst (HMAC_Init_ex e HMAC_CTX_init key (Some d))"
  using assms
  by (simp add: HMAC_Init_ex_def HMAC_CTX_init_def EVP_MD_CTX_init_def hmac_key_block_def hmac_start_def Let_def
    split_beta EVP_DigestInit_ex_fail split: option.splits)

lemma HMAC_CTX_copy_ex_ok:
  assumes "hmac_has d K m src" "can_alloc e d"
  shows "fst (HMAC_CTX_copy_ex e dst src)" "hmac_has d K m (snd (HMAC_CTX_copy_ex e dst src))"
  using assms by (auto simp: HMAC_CTX_copy_ex_def hmac_has_def hmac_keyed_def EVP_MD_CTX_copy_ex_ok Let_def)

lemma HMAC_eq:
  assumes "fresh_ok e"
  shows "HMAC e d key data = (if can_alloc e d then Some (hmac_of d (key_bytes key) data) else None)"
proof (cases "can_alloc e d")
  case True
  have "hm_md HMAC_CTX_init \<noteq> Some d" by (simp add: HMAC_CTX_init_def)
  then have i: "fst (HMAC_Init_ex e HMAC_CTX_init key (Some d))"
    "hmac_has d (key_bytes key) [] (snd (HMAC_Init_ex e HMAC_CTX_init key (Some d)))"
    using HMAC_Init_ex_ok [OF assms True] by auto
  show ?thesis using i(1) True hmac.has_out [OF hmac.has_update [OF i(2)], of e data]
    by (simp add: HMAC_def split_beta)
next
  case False
  then show ?thesis using HMAC_Init_ex_fail [OF False] by (simp add: HMAC_def split_beta)
qed

text \<open>
  C32. \<open>HMAC\<close> computes RFC 2104's function for every digest of the library, every key, also one longer than a
  block or \<open>NULL\<close>, and every message; it fails exactly when a digest state cannot be allocated.
\<close>

theorem HMAC_rfc2104:
  assumes "fresh_ok e"
  shows "HMAC e d key data =
     (if can_alloc e d then Some (rfc2104 (hash_of d) (EVP_MD_block_size d) (key_bytes key) data) else None)"
  using HMAC_eq [OF assms] by (simp add: hmac_of_def)

lemma HMAC_rfc2104_witness:
  "HMAC zeroed_env EVP_sha512 (Some (replicate 131 0xaa)) [1, 2] =
     Some (rfc2104 fips_sha512 128 (replicate 131 0xaa) [1, 2])"
proof -
  have "hash_of EVP_sha512 = fips_sha512" "EVP_MD_block_size EVP_sha512 = 128"
    by (auto simp: EVP_MD_block_size_def method_defs)
  then show ?thesis using HMAC_rfc2104 [of zeroed_env EVP_sha512 "Some (replicate 131 0xaa)" "[1, 2]"]
    by (simp add: key_bytes_def)
qed

end
