(* ===== verification/Kdf.thy ===== *)
theory Kdf
  imports Hmac
begin

text \<open>
  \<open>crypto/hkdf/hkdf.c\<close> against RFC 5869, and \<open>crypto/fipsmodule/tls/kdf.c\<close> against the pseudorandom functions of
  RFC 5246 and RFC 2246. An output buffer is the list of bytes written to it; the loops carry the HMAC contexts
  the code carries.
\<close>

unbundle bit_operations_syntax

section \<open>HKDF\<close>

definition HKDF_extract :: "md_env \<Rightarrow> EVP_MD \<Rightarrow> u8 list \<Rightarrow> u8 list option \<Rightarrow> u8 list option" where
  "HKDF_extract e d secret salt = HMAC e d salt secret"

text \<open>The loop from \<open>i\<close> with \<open>k\<close> iterations left; \<open>out\<close> holds the \<open>done\<close> bytes written so far.\<close>

fun hkdf_loop ::
  "md_env \<Rightarrow> EVP_MD \<Rightarrow> u8 list \<Rightarrow> nat \<Rightarrow> nat \<Rightarrow> nat \<Rightarrow> hmac_ctx_st \<Rightarrow> u8 list \<Rightarrow> u8 list \<Rightarrow> u8 list option" where
  "hkdf_loop e d info out_len i 0 hmac previous out = Some out"
| "hkdf_loop e d info out_len i (Suc k) hmac previous out =
     (let ctr = word_of_nat (i + 1) :: u8;
          (r, hmac) =
            (if i \<noteq> 0 then
               (let (r, hmac) = HMAC_Init_ex e hmac None None
                in if \<not> r then (False, hmac) else HMAC_Update hmac (take (EVP_MD_size d) previous))
             else (True, hmac))
      in if \<not> r then None
         else
           (let (_, hmac) = HMAC_Update hmac info; (_, hmac) = HMAC_Update hmac [ctr]
            in case HMAC_Final e hmac of
                 (None, hmac) \<Rightarrow> None
               | (Some previous, hmac) \<Rightarrow>
                   (let todo = EVP_MD_size d;
                        todo = (if out_len < length out + todo then out_len - length out else todo)
                    in hkdf_loop e d info out_len (i + 1) k hmac previous (out @ take todo previous))))"

definition HKDF_expand :: "md_env \<Rightarrow> nat \<Rightarrow> EVP_MD \<Rightarrow> u8 list \<Rightarrow> u8 list \<Rightarrow> u8 list option" where
  "HKDF_expand e out_len d prk info =
     (let digest_len = EVP_MD_size d; n = (out_len + digest_len - 1) mod 2 ^ 64 div digest_len
      in if (out_len + digest_len) mod 2 ^ 64 < out_len \<or> 255 < n then None
         else
           (let (r, hmac) = HMAC_Init_ex e HMAC_CTX_init (Some prk) (Some d)
            in if \<not> r then None else hkdf_loop e d info out_len 0 n hmac [] []))"

definition HKDF :: "md_env \<Rightarrow> nat \<Rightarrow> EVP_MD \<Rightarrow> u8 list \<Rightarrow> u8 list option \<Rightarrow> u8 list \<Rightarrow> u8 list option" where
  "HKDF e out_len d secret salt info =
     (case HKDF_extract e d secret salt of
        None \<Rightarrow> None
      | Some prk \<Rightarrow> HKDF_expand e out_len d prk info)"

text \<open>RFC 5869: the blocks \<open>T(i)\<close> and the output keying material; a missing salt is a block of zeros.\<close>

primrec hkdf_T :: "EVP_MD \<Rightarrow> u8 list \<Rightarrow> u8 list \<Rightarrow> nat \<Rightarrow> u8 list" where
  "hkdf_T d prk info 0 = []"
| "hkdf_T d prk info (Suc i) = hmac_of d prk (hkdf_T d prk info i @ info @ [word_of_nat (Suc i)])"

definition rfc5869_expand :: "EVP_MD \<Rightarrow> u8 list \<Rightarrow> u8 list \<Rightarrow> nat \<Rightarrow> u8 list" where
  "rfc5869_expand d prk info L =
     take L (concat (map (hkdf_T d prk info) [1..<Suc ((L + EVP_MD_size d - 1) div EVP_MD_size d)]))"

definition rfc5869_extract :: "EVP_MD \<Rightarrow> u8 list option \<Rightarrow> u8 list \<Rightarrow> u8 list" where
  "rfc5869_extract d salt ikm =
     hmac_of d (case salt of None \<Rightarrow> replicate (EVP_MD_size d) 0 | Some s \<Rightarrow> s) ikm"

lemma length_hmac_of [simp]: "length (hmac_of d K m) = EVP_MD_size d"
  by (simp add: hmac_of_pads length_hash_of)

lemma hmac_of_zeros: "n \<le> EVP_MD_block_size d \<Longrightarrow> hmac_of d (replicate n 0) m = hmac_of d [] m"
  by (simp add: hmac_of_pads pad_block_def hmac_key_def replicate_add [symmetric])

lemma HKDF_extract_eq:
  assumes "fresh_ok e"
  shows "HKDF_extract e d secret salt = (if can_alloc e d then Some (rfc5869_extract d salt secret) else None)"
  using HMAC_eq [OF assms, of d salt secret] md_sizes(2) [of d]
  by (cases salt) (simp_all add: HKDF_extract_def rfc5869_extract_def key_bytes_def hmac_of_zeros)

definition hkdf_out :: "EVP_MD \<Rightarrow> u8 list \<Rightarrow> u8 list \<Rightarrow> nat \<Rightarrow> u8 list" where
  "hkdf_out d prk info i = concat (map (hkdf_T d prk info) [1..<Suc i])"

lemma hkdf_out_simps:
  "hkdf_out d prk info 0 = []"
  "hkdf_out d prk info (Suc i) = hkdf_out d prk info i @ hkdf_T d prk info (Suc i)"
  by (simp_all add: hkdf_out_def)

lemma length_hkdf_T: "0 < i \<Longrightarrow> length (hkdf_T d prk info i) = EVP_MD_size d"
  by (cases i) simp_all

lemma length_hkdf_out: "length (hkdf_out d prk info i) = i * EVP_MD_size d"
  by (induction i) (simp_all add: hkdf_out_simps)

lemma hkdf_out_append:
  "take L (hkdf_out d prk info i) @
     take (if L < length (take L (hkdf_out d prk info i)) + EVP_MD_size d
           then L - length (take L (hkdf_out d prk info i)) else EVP_MD_size d) (hkdf_T d prk info (Suc i)) =
   take L (hkdf_out d prk info (Suc i))"
  unfolding hkdf_out_simps
  by (auto simp: length_hkdf_out length_hkdf_T min_def simp del: hkdf_T.simps)

lemma hkdf_loop_step:
  assumes "i \<noteq> 0 \<Longrightarrow> fst (HMAC_Init_ex e hmac None None)" "i \<noteq> 0 \<Longrightarrow> length prev = EVP_MD_size d"
    and "h1 = (if i \<noteq> 0 then snd (HMAC_Update (snd (HMAC_Init_ex e hmac None None)) prev) else hmac)"
    and "HMAC_Final e (snd (HMAC_Update (snd (HMAC_Update h1 info)) [word_of_nat (Suc i)])) = (Some T, h3)"
  shows "hkdf_loop e d info L i (Suc k) hmac prev out = hkdf_loop e d info L (Suc i) k h3 T
     (out @ take (if L < length out + EVP_MD_size d then L - length out else EVP_MD_size d) T)"
  using assms by (cases "i = 0") (simp_all add: split_beta Let_def)

lemma hkdf_loop_eq:
  assumes "if i = 0 then hmac_has d prk [] hmac else hmac_keyed d prk hmac"
  shows "hkdf_loop e d info L i k hmac (hkdf_T d prk info i) (take L (hkdf_out d prk info i)) =
     Some (take L (hkdf_out d prk info (i + k)))"
  using assms
proof (induction k arbitrary: i hmac)
  case (Suc k)
  let ?P = "hkdf_T d prk info i"
  define h1 where "h1 = (if i \<noteq> 0 then snd (HMAC_Update (snd (HMAC_Init_ex e hmac None None)) ?P) else hmac)"
  define h2 where "h2 = snd (HMAC_Update (snd (HMAC_Update h1 info)) [word_of_nat (i + 1)])"
  have len: "i \<noteq> 0 \<Longrightarrow> length ?P = EVP_MD_size d" by (cases i) simp_all
  have rewind: "i \<noteq> 0 \<Longrightarrow> fst (HMAC_Init_ex e hmac None None)"
    using Suc.prems HMAC_Init_ex_rewind(1) [of d prk hmac] by simp
  have "hmac_has d prk ?P h1"
  proof (cases "i = 0")
    case False
    then have "hmac_has d prk [] (snd (HMAC_Init_ex e hmac None None))"
      using Suc.prems HMAC_Init_ex_rewind(2) by simp
    then have "hmac_has d prk ([] @ ?P) (snd (HMAC_Update (snd (HMAC_Init_ex e hmac None None)) ?P))"
      by (rule hmac.has_update)
    with False show ?thesis by (simp add: h1_def)
  qed (use Suc.prems in \<open>simp add: h1_def\<close>)
  then have "hmac_has d prk ((?P @ info) @ [word_of_nat (i + 1)]) h2"
    unfolding h2_def by (intro hmac.has_update)
  from HMAC_Final_ok [OF this] obtain h3 where h3:
    "HMAC_Final e h2 = (Some (hkdf_T d prk info (Suc i)), h3)" "hmac_keyed d prk h3"
    by (metis append.assoc hkdf_T.simps(2) Suc_eq_plus1 prod.collapse)
  have "hkdf_loop e d info L i (Suc k) hmac ?P (take L (hkdf_out d prk info i)) =
      hkdf_loop e d info L (Suc i) k h3 (hkdf_T d prk info (Suc i)) (take L (hkdf_out d prk info (Suc i)))"
    by (subst hkdf_loop_step [OF rewind len h1_def h3(1) [unfolded h2_def Suc_eq_plus1 [symmetric]]])
      (assumption | simp only: hkdf_out_append)+
  also have "\<dots> = Some (take L (hkdf_out d prk info (Suc i + k)))" using h3(2) by (intro Suc.IH) simp
  finally show ?case by simp
qed simp

lemma hkdf_guard:
  fixes L s :: nat
  assumes "L < 2 ^ 64" "0 < s" "s < 2 ^ 32"
  shows "((L + s) mod 2 ^ 64 < L \<or> 255 < (L + s - 1) mod 2 ^ 64 div s) \<longleftrightarrow> 255 * s < L"
    "L \<le> 255 * s \<Longrightarrow> (L + s - 1) mod 2 ^ 64 = L + s - 1"
proof -
  show small: "L \<le> 255 * s \<Longrightarrow> (L + s - 1) mod 2 ^ 64 = L + s - 1" using assms(3) by (intro mod_less) simp
  have div: "255 < (L + s - 1) div s \<longleftrightarrow> 255 * s < L"
  proof -
    have "255 < (L + s - 1) div s \<longleftrightarrow> 256 * s \<le> L + s - 1"
      using assms(2) less_eq_div_iff_mult_less_eq [of s 256 "L + s - 1"] by (simp add: Suc_le_eq [symmetric])
    then show ?thesis using assms(2) by arith
  qed
  show "((L + s) mod 2 ^ 64 < L \<or> 255 < (L + s - 1) mod 2 ^ 64 div s) \<longleftrightarrow> 255 * s < L"
  proof (cases "L + s < 2 ^ 64")
    case True
    then show ?thesis using div by simp
  next
    case False
    then have "(L + s) mod 2 ^ 64 = L + s - 2 ^ 64" using assms by (simp add: le_mod_geq)
    then have "(L + s) mod 2 ^ 64 < L" using assms False by simp
    moreover have "255 * s < L" using False assms(3) by simp
    ultimately show ?thesis by blast
  qed
qed

lemma HKDF_expand_eq:
  assumes e: "fresh_ok e" and L: "out_len < 2 ^ 64"
  shows "HKDF_expand e out_len d prk info =
     (if out_len \<le> 255 * EVP_MD_size d \<and> can_alloc e d then Some (rfc5869_expand d prk info out_len) else None)"
proof -
  have s: "0 < EVP_MD_size d" "EVP_MD_size d < 2 ^ 32" using md_sizes [of d] by simp_all
  show ?thesis
  proof (cases "out_len \<le> 255 * EVP_MD_size d \<and> can_alloc e d")
    case True
    let ?c = "snd (HMAC_Init_ex e HMAC_CTX_init (Some prk) (Some d))"
    have i: "fst (HMAC_Init_ex e HMAC_CTX_init (Some prk) (Some d))" "hmac_has d prk [] ?c"
      using HMAC_Init_ex_ok [OF e, of d HMAC_CTX_init "Some prk"] True by (simp_all add: key_bytes_def)
    have "hkdf_loop e d info out_len 0 n ?c [] [] = Some (take out_len (hkdf_out d prk info n))" for n
      using hkdf_loop_eq [of 0 d prk ?c e info out_len n] i(2) by (simp add: hkdf_out_simps)
    then show ?thesis using True i(1) hkdf_guard [OF L s]
      by (simp add: HKDF_expand_def Let_def split_beta rfc5869_expand_def hkdf_out_def)
  next
    case False
    then show ?thesis using hkdf_guard(1) [OF L s] HMAC_Init_ex_fail [of e d "Some prk"]
      by (auto simp: HKDF_expand_def Let_def split_beta)
  qed
qed

section \<open>The TLS pseudorandom function\<close>

text \<open>
  One call absorbs the label and the two seeds. The \<open>for (;;)\<close> loop is a partial function: \<open>None\<close> if it does not
  return, \<open>Some None\<close> for \<open>goto err\<close>; \<open>out\<close> is the rest of the output buffer.
\<close>

definition hmac_seed :: "hmac_ctx_st \<Rightarrow> u8 list \<Rightarrow> u8 list \<Rightarrow> u8 list \<Rightarrow> hmac_ctx_st" where
  "hmac_seed ctx label seed1 seed2 =
     snd (HMAC_Update (snd (HMAC_Update (snd (HMAC_Update ctx label)) seed1)) seed2)"

partial_function (option) tls1_P_hash_loop ::
  "md_env \<Rightarrow> nat \<Rightarrow> u8 list \<Rightarrow> u8 list \<Rightarrow> u8 list \<Rightarrow> hmac_ctx_st \<Rightarrow> hmac_ctx_st \<Rightarrow> hmac_ctx_st \<Rightarrow> u8 list \<Rightarrow> u8 list
    \<Rightarrow> u8 list option option" where
  "tls1_P_hash_loop e chunk label seed1 seed2 ctx_init ctx ctx_tmp A1 out =
     (case HMAC_CTX_copy_ex e ctx ctx_init of (r, ctx) \<Rightarrow>
      if \<not> r then Some None
      else case HMAC_Update ctx A1 of (_, ctx) \<Rightarrow>
      (case if chunk < length out then HMAC_CTX_copy_ex e ctx_tmp ctx else (True, ctx_tmp) of (r, ctx_tmp) \<Rightarrow>
       if \<not> r then Some None
       else case HMAC_Final e (hmac_seed ctx label seed1 seed2) of (hmac, ctx) \<Rightarrow>
         (case hmac of
            None \<Rightarrow> Some None
          | Some hmac \<Rightarrow>
              (let n = (if length out < length hmac then length out else length hmac);
                   written = map2 (XOR) (take n out) (take n hmac)
               in if drop n out = [] then Some (Some written)
                  else case HMAC_Final e ctx_tmp of (A1, ctx_tmp) \<Rightarrow>
                    (case A1 of
                       None \<Rightarrow> Some None
                     | Some A1 \<Rightarrow>
                         Option.bind (tls1_P_hash_loop e chunk label seed1 seed2 ctx_init ctx ctx_tmp A1 (drop n out))
                           (\<lambda>r. Some (map_option ((@) written) r)))))))"

definition tls1_P_hash ::
  "md_env \<Rightarrow> u8 list \<Rightarrow> EVP_MD \<Rightarrow> u8 list \<Rightarrow> u8 list \<Rightarrow> u8 list \<Rightarrow> u8 list \<Rightarrow> u8 list option option" where
  "tls1_P_hash e out md secret label seed1 seed2 =
     (let (r, ctx_init) = HMAC_Init_ex e HMAC_CTX_init (Some secret) (Some md)
      in if \<not> r then Some None
         else
           (let (r, ctx) = HMAC_CTX_copy_ex e HMAC_CTX_init ctx_init
            in if \<not> r then Some None
               else
                 (case HMAC_Final e (hmac_seed ctx label seed1 seed2) of
                    (None, ctx) \<Rightarrow> Some None
                  | (Some A1, ctx) \<Rightarrow>
                      tls1_P_hash_loop e (EVP_MD_size md) label seed1 seed2 ctx_init ctx HMAC_CTX_init A1 out)))"

definition CRYPTO_tls1_prf ::
  "md_env \<Rightarrow> EVP_MD \<Rightarrow> nat \<Rightarrow> u8 list \<Rightarrow> u8 list \<Rightarrow> u8 list \<Rightarrow> u8 list \<Rightarrow> u8 list option option" where
  "CRYPTO_tls1_prf e digest out_len secret label seed1 seed2 =
     (if out_len = 0 then Some (Some [])
      else
        (let out = replicate out_len 0
         in if digest = EVP_md5_sha1 then
              (let secret_half = length secret - length secret div 2
               in case tls1_P_hash e out EVP_md5 (take secret_half secret) label seed1 seed2 of
                    None \<Rightarrow> None
                  | Some None \<Rightarrow> Some None
                  | Some (Some out) \<Rightarrow>
                      tls1_P_hash e out EVP_sha1 (drop (length secret - secret_half) secret) label seed1 seed2)
            else tls1_P_hash e out digest secret label seed1 seed2))"

text \<open>
  RFC 5246, section 5. \<open>P_hash\<close> is iterated as often as needed for \<open>n\<close> bytes; every iteration gives at least one.
  RFC 2246 splits the secret into two halves, which share the middle byte if the length is odd.
\<close>

primrec phash_A :: "EVP_MD \<Rightarrow> u8 list \<Rightarrow> u8 list \<Rightarrow> nat \<Rightarrow> u8 list" where
  "phash_A d K seed 0 = seed"
| "phash_A d K seed (Suc i) = hmac_of d K (phash_A d K seed i)"

definition phash_block :: "EVP_MD \<Rightarrow> u8 list \<Rightarrow> u8 list \<Rightarrow> nat \<Rightarrow> u8 list" where
  "phash_block d K seed i = hmac_of d K (phash_A d K seed (Suc i) @ seed)"

definition phash_from :: "EVP_MD \<Rightarrow> u8 list \<Rightarrow> u8 list \<Rightarrow> nat \<Rightarrow> nat \<Rightarrow> u8 list" where
  "phash_from d K seed i n = take n (concat (map (phash_block d K seed) [i..<i + n]))"

definition rfc5246_prf :: "EVP_MD \<Rightarrow> u8 list \<Rightarrow> u8 list \<Rightarrow> u8 list \<Rightarrow> nat \<Rightarrow> u8 list" where
  "rfc5246_prf d secret label seed n = phash_from d secret (label @ seed) 0 n"

definition rfc2246_prf :: "u8 list \<Rightarrow> u8 list \<Rightarrow> u8 list \<Rightarrow> nat \<Rightarrow> u8 list" where
  "rfc2246_prf secret label seed n =
     (let half = (length secret + 1) div 2
      in map2 (XOR) (phash_from EVP_md5 (take half secret) (label @ seed) 0 n)
           (phash_from EVP_sha1 (drop (length secret - half) secret) (label @ seed) 0 n))"

lemma length_phash_block [simp]: "length (phash_block d K seed i) = EVP_MD_size d"
  by (simp add: phash_block_def)

lemma length_phash_blocks: "length (concat (map (phash_block d K seed) xs)) = length xs * EVP_MD_size d"
  by (induction xs) simp_all

lemma length_phash_from [simp]: "length (phash_from d K seed i n) = n"
  using md_sizes(1) [of d] by (cases "EVP_MD_size d") (simp_all add: phash_from_def length_phash_blocks)

lemma phash_from_step:
  "phash_from d K seed i n =
     (if n \<le> EVP_MD_size d then take n (phash_block d K seed i)
      else phash_block d K seed i @ phash_from d K seed (Suc i) (n - EVP_MD_size d))"
proof (cases n)
  case (Suc m)
  let ?B = "phash_block d K seed" and ?s = "EVP_MD_size d"
  have "concat (map ?B [i..<i + n]) = ?B i @ concat (map ?B [Suc i..<Suc i + m])" using Suc by (simp add: upt_conv_Cons del: upt_Suc)
  then have eq: "phash_from d K seed i n = take n (?B i) @ take (n - ?s) (concat (map ?B [Suc i..<Suc i + m]))"
    by (simp add: phash_from_def)
  show ?thesis
  proof (cases "n \<le> ?s")
    case False
    let ?k = "n - ?s"
    have "Suc i + m = (Suc i + ?k) + (m - ?k)" using Suc md_sizes(1) [of d] by simp
    then have "[Suc i..<Suc i + m] = [Suc i..<Suc i + ?k] @ [Suc i + ?k..<Suc i + m]"
      by (metis le_add1 upt_add_eq_append)
    moreover have "?k \<le> length (concat (map ?B [Suc i..<Suc i + ?k]))"
      using md_sizes(1) [of d] by (simp add: length_phash_blocks del: upt_Suc)
    ultimately have "take ?k (concat (map ?B [Suc i..<Suc i + m])) = phash_from d K seed (Suc i) ?k"
      by (simp add: phash_from_def)
    with eq False show ?thesis by simp
  qed (use eq in simp)
qed (simp add: phash_from_def)

lemma hmac_seed_has:
  "hmac_has d K m ctx \<Longrightarrow> hmac_has d K (m @ label @ seed1 @ seed2) (hmac_seed ctx label seed1 seed2)"
  using hmac.has_updates [of d K m ctx "[label, seed1, seed2]"] by (simp add: hmac_seed_def)

lemma tls1_P_hash_loop_eq:
  assumes "can_alloc e d" "hmac_has d K [] ctx_init" "A1 = phash_A d K (label @ seed1 @ seed2) (Suc i)" "out \<noteq> []"
  shows "tls1_P_hash_loop e (EVP_MD_size d) label seed1 seed2 ctx_init ctx ctx_tmp A1 out =
     Some (Some (map2 (XOR) out (phash_from d K (label @ seed1 @ seed2) i (length out))))"
  using assms(3,4)
proof (induction "length out" arbitrary: out i ctx ctx_tmp A1 rule: less_induct)
  case less
  let ?s = "EVP_MD_size d" and ?seed = "label @ seed1 @ seed2"
  define c1 where "c1 = snd (HMAC_Update (snd (HMAC_CTX_copy_ex e ctx ctx_init)) A1)"
  have copy: "fst (HMAC_CTX_copy_ex e ctx ctx_init)" using HMAC_CTX_copy_ex_ok(1) assms(1,2) by blast
  have "hmac_has d K ([] @ A1) c1"
    unfolding c1_def using HMAC_CTX_copy_ex_ok(2) assms(1,2) by (intro hmac.has_update) blast
  then have c1: "hmac_has d K A1 c1" by simp
  have tmp: "fst (HMAC_CTX_copy_ex e ctx_tmp c1)" "hmac_has d K A1 (snd (HMAC_CTX_copy_ex e ctx_tmp c1))"
    using HMAC_CTX_copy_ex_ok c1 assms(1) by blast+
  from HMAC_Final_ok [OF hmac_seed_has [OF c1]] less.prems(1)
  obtain c2 where c2: "HMAC_Final e (hmac_seed c1 label seed1 seed2) = (Some (phash_block d K ?seed i), c2)"
    by (metis phash_block_def prod.collapse)
  from HMAC_Final_ok [OF tmp(2)] less.prems(1)
  obtain t2 where t2: "HMAC_Final e (snd (HMAC_CTX_copy_ex e ctx_tmp c1)) = (Some (phash_A d K ?seed (Suc (Suc i))), t2)"
    by (metis phash_A.simps(2) prod.collapse)
  show ?case
  proof (cases "length out \<le> ?s")
    case True
    have "tls1_P_hash_loop e ?s label seed1 seed2 ctx_init ctx ctx_tmp A1 out =
        Some (Some (map2 (XOR) out (take (length out) (phash_block d K ?seed i))))"
      using True copy c2 unfolding c1_def by (subst tls1_P_hash_loop.simps) (simp add: split_beta Let_def)
    then show ?thesis using True by (simp add: phash_from_step)
  next
    case False
    then have rest: "length (drop ?s out) < length out" "drop ?s out \<noteq> []" using md_sizes(1) [of d] by auto
    have "tls1_P_hash_loop e ?s label seed1 seed2 ctx_init ctx ctx_tmp A1 out =
        Option.bind (tls1_P_hash_loop e ?s label seed1 seed2 ctx_init c2 t2 (phash_A d K ?seed (Suc (Suc i))) (drop ?s out))
          (\<lambda>r. Some (map_option ((@) (map2 (XOR) (take ?s out) (phash_block d K ?seed i))) r))"
      using False copy c2 tmp(1) t2 unfolding c1_def
      by (subst tls1_P_hash_loop.simps) (simp add: split_beta Let_def del: phash_A.simps)
    also have "\<dots> = Some (Some (map2 (XOR) (take ?s out) (phash_block d K ?seed i) @
        map2 (XOR) (drop ?s out) (phash_from d K ?seed (Suc i) (length (drop ?s out)))))"
      using less.hyps [OF rest(1) refl rest(2), where i = "Suc i"] by (simp del: phash_A.simps)
    also have "\<dots> = Some (Some (map2 (XOR) (take ?s out @ drop ?s out)
        (phash_block d K ?seed i @ phash_from d K ?seed (Suc i) (length (drop ?s out)))))"
      using False by (subst zip_append) simp_all
    finally show ?thesis using False by (simp add: phash_from_step [of d K ?seed i "length out"])
  qed
qed

lemma tls1_P_hash_eq:
  assumes "fresh_ok e" "out \<noteq> []"
  shows "tls1_P_hash e out d secret label seed1 seed2 =
     Some (if can_alloc e d then Some (map2 (XOR) out (phash_from d secret (label @ seed1 @ seed2) 0 (length out))) else None)"
proof (cases "can_alloc e d")
  case True
  let ?i = "HMAC_Init_ex e HMAC_CTX_init (Some secret) (Some d)"
  let ?c = "HMAC_CTX_copy_ex e HMAC_CTX_init (snd ?i)"
  have i: "fst ?i" "hmac_has d secret [] (snd ?i)"
    using HMAC_Init_ex_ok [OF assms(1) True, of HMAC_CTX_init "Some secret"] by (simp_all add: key_bytes_def)
  have c: "fst ?c" "hmac_has d secret [] (snd ?c)" using HMAC_CTX_copy_ex_ok [OF i(2) True] by auto
  obtain c1 where c1: "HMAC_Final e (hmac_seed (snd ?c) label seed1 seed2) =
      (Some (phash_A d secret (label @ seed1 @ seed2) (Suc 0)), c1)"
    using HMAC_Final_ok(1) [OF hmac_seed_has [OF c(2)]] by (metis append_Nil phash_A.simps prod.collapse)
  show ?thesis using True i(1) c(1) c1 tls1_P_hash_loop_eq [OF True i(2) refl assms(2), where i = 0]
    by (simp add: tls1_P_hash_def split_beta Let_def del: phash_A.simps)
next
  case False
  then show ?thesis using HMAC_Init_ex_fail [OF False] by (simp add: tls1_P_hash_def split_beta Let_def)
qed

lemma xor_zeros: "length xs = n \<Longrightarrow> map2 (XOR) (replicate n (0 :: u8)) xs = xs"
  by (induction xs arbitrary: n) auto

section \<open>The properties\<close>

text \<open>
  C33. \<open>HKDF\<close> computes RFC 5869's extract-then-expand for every digest, secret, salt, info and length. It fails
  exactly when the length is over 255 blocks, also where \<open>out_len + digest_len\<close> wraps around, or a digest state
  cannot be allocated. A \<open>NULL\<close> salt stands for \<open>HashLen\<close> zeros.
\<close>

theorem HKDF_rfc5869:
  assumes "fresh_ok e" "out_len < 2 ^ 64"
  shows "HKDF e out_len d secret salt info =
     (if out_len \<le> 255 * EVP_MD_size d \<and> can_alloc e d
      then Some (rfc5869_expand d (rfc5869_extract d salt secret) info out_len) else None)"
  using HKDF_extract_eq [OF assms(1), of d secret salt] HKDF_expand_eq [OF assms, of d]
  by (simp add: HKDF_def)

lemma HKDF_rfc5869_witness:
  "HKDF zeroed_env 8160 EVP_sha256 [1] None [2] =
      Some (rfc5869_expand EVP_sha256 (rfc5869_extract EVP_sha256 None [1]) [2] 8160) \<and>
   HKDF zeroed_env 8161 EVP_sha256 [1] None [2] = None \<and>
   HKDF zeroed_env (2 ^ 64 - 1) EVP_sha256 [1] None [2] = None"
proof -
  have "EVP_MD_size EVP_sha256 = 32" by (simp add: EVP_MD_size_def method_defs)
  then show ?thesis by (simp add: HKDF_rfc5869 [of zeroed_env _ EVP_sha256 "[1]" None "[2]"])
qed

text \<open>
  C34. \<open>CRYPTO_tls1_prf\<close> always returns, whatever the length asked for, and then its output is RFC 5246's
  pseudorandom function of the digest, for \<open>EVP_md5_sha1\<close> the one of RFC 2246; it fails exactly when a digest
  state cannot be allocated.
\<close>

theorem tls1_prf_rfc5246:
  assumes "fresh_ok e"
  shows "CRYPTO_tls1_prf e d n secret label seed1 seed2 = Some
     (if n = 0 then Some []
      else if d = EVP_md5_sha1 then
        (if can_alloc e EVP_md5 \<and> can_alloc e EVP_sha1 then Some (rfc2246_prf secret label (seed1 @ seed2) n) else None)
      else if can_alloc e d then Some (rfc5246_prf d secret label (seed1 @ seed2) n) else None)"
proof (cases "n = 0 \<or> d \<noteq> EVP_md5_sha1")
  case True
  then show ?thesis
    using tls1_P_hash_eq [OF assms, of "replicate n 0" d secret label seed1 seed2]
    by (auto simp: CRYPTO_tls1_prf_def rfc5246_prf_def xor_zeros Let_def)
next
  case False
  let ?half = "length secret - length secret div 2" and ?seed = "label @ seed1 @ seed2"
  let ?m = "phash_from EVP_md5 (take ?half secret) ?seed 0 n"
  have half: "Suc (length secret) div 2 = ?half" by presburger
  have m: "tls1_P_hash e (replicate n 0) EVP_md5 (take ?half secret) label seed1 seed2 =
      Some (if can_alloc e EVP_md5 then Some ?m else None)"
    using False tls1_P_hash_eq [OF assms, of "replicate n 0"] by (simp add: xor_zeros)
  have "?m \<noteq> []" using False by (metis length_phash_from list.size(3))
  from tls1_P_hash_eq [OF assms this, of EVP_sha1 "drop (length secret - ?half) secret" label seed1 seed2]
  show ?thesis using False m by (simp add: CRYPTO_tls1_prf_def rfc2246_prf_def half Let_def)
qed

lemma tls1_prf_rfc5246_witness:
  "CRYPTO_tls1_prf zeroed_env EVP_md5_sha1 104 [1, 2, 3] [4] [5] [6] = Some (Some (rfc2246_prf [1, 2, 3] [4] [5, 6] 104)) \<and>
   CRYPTO_tls1_prf zeroed_env EVP_sha384 12 [1, 2, 3] [4] [5] [6] = Some (Some (rfc5246_prf EVP_sha384 [1, 2, 3] [4] [5, 6] 12))"
  using tls1_prf_rfc5246 [of zeroed_env EVP_md5_sha1 104 "[1, 2, 3]" "[4]" "[5]" "[6]"]
    tls1_prf_rfc5246 [of zeroed_env EVP_sha384 12 "[1, 2, 3]" "[4]" "[5]" "[6]"] by simp

end
