(* ===== verification/Mem.thy ===== *)
theory Mem
  imports Prelude
begin

text \<open>
  \<open>crypto/mem.c\<close>: comparison, hashing, and the string functions. A pointer is the list of bytes of the object
  from where it points to the object's end; \<open>None\<close> is an access outside the object. \<open>malloc_ok\<close> tells from the
  size whether an allocation succeeds, and a \<open>NULL\<close> result is \<open>Some None\<close>.
\<close>

unbundle bit_operations_syntax

section \<open>Blocks of bytes\<close>

fun memcmp_loop :: "u8 \<Rightarrow> u8 list \<Rightarrow> u8 list \<Rightarrow> nat \<Rightarrow> u8 option" where
  "memcmp_loop x a b 0 = Some x"
| "memcmp_loop x (a0 # a) (b0 # b) (Suc n) = memcmp_loop (x OR (a0 XOR b0)) a b n"
| "memcmp_loop x a b (Suc n) = None"

definition CRYPTO_memcmp :: "u8 list \<Rightarrow> u8 list \<Rightarrow> nat \<Rightarrow> int option" where
  "CRYPTO_memcmp a b n = map_option uint (memcmp_loop 0 a b n)"

definition OPENSSL_hash32 :: "u8 list \<Rightarrow> u32" where
  "OPENSSL_hash32 bs = foldl (\<lambda>h b. (h XOR ucast b) * 16777619) 2166136261 bs"

definition OPENSSL_memdup :: "(nat \<Rightarrow> bool) \<Rightarrow> u8 list \<Rightarrow> nat \<Rightarrow> u8 list option option" where
  "OPENSSL_memdup malloc_ok data n =
     (if n = 0 then Some None
      else if \<not> malloc_ok n then Some None
      else if length data < n then None
      else Some (Some (take n data)))"

section \<open>Strings\<close>

text \<open>\<open>strnlen\<close> and \<open>strndup\<close> are \<open>OPENSSL_strnlen\<close> and \<open>OPENSSL_strndup\<close>, for any bound.\<close>

fun strlen :: "u8 list \<Rightarrow> nat option" where
  "strlen [] = None"
| "strlen (c # s) = (if c = 0 then Some 0 else map_option Suc (strlen s))"

fun strnlen :: "u8 list \<Rightarrow> nat \<Rightarrow> nat option" where
  "strnlen s 0 = Some 0"
| "strnlen [] (Suc n) = None"
| "strnlen (c # s) (Suc n) = (if c = 0 then Some 0 else map_option Suc (strnlen s n))"

definition OPENSSL_strdup :: "(nat \<Rightarrow> bool) \<Rightarrow> u8 list option \<Rightarrow> u8 list option option" where
  "OPENSSL_strdup malloc_ok s =
     (case s of
        None \<Rightarrow> Some None
      | Some s \<Rightarrow>
          (case strlen s of
             None \<Rightarrow> None
           | Some n \<Rightarrow> let n = n + 1 in if \<not> malloc_ok n then Some None else Some (Some (take n s))))"

definition strndup :: "(nat \<Rightarrow> bool) \<Rightarrow> u8 list option \<Rightarrow> nat \<Rightarrow> u8 list option option" where
  "strndup malloc_ok str n =
     (case str of
        None \<Rightarrow> Some None
      | Some s \<Rightarrow>
          (case strnlen s n of
             None \<Rightarrow> None
           | Some n \<Rightarrow>
               let alloc_size = (n + 1) mod 2 ^ 64
               in if alloc_size < n then Some None
                  else if \<not> malloc_ok alloc_size then Some None
                  else Some (Some (take n s @ [0]))))"

text \<open>Characters are signed and widened to \<open>int\<close>.\<close>

definition OPENSSL_tolower :: "int \<Rightarrow> int" where
  "OPENSSL_tolower c = (if 65 \<le> c \<and> c \<le> 90 then c + (97 - 65) else c)"

fun OPENSSL_strcasecmp :: "u8 list \<Rightarrow> u8 list \<Rightarrow> int option" where
  "OPENSSL_strcasecmp (a # as) (b # bs) =
     (let aa = OPENSSL_tolower (sint a); bb = OPENSSL_tolower (sint b)
      in if aa < bb then Some (-1) else if aa > bb then Some 1 else if aa = 0 then Some 0
         else OPENSSL_strcasecmp as bs)"
| "OPENSSL_strcasecmp as bs = None"

fun OPENSSL_strncasecmp :: "u8 list \<Rightarrow> u8 list \<Rightarrow> nat \<Rightarrow> int option" where
  "OPENSSL_strncasecmp as bs 0 = Some 0"
| "OPENSSL_strncasecmp (a # as) (b # bs) (Suc n) =
     (let aa = OPENSSL_tolower (sint a); bb = OPENSSL_tolower (sint b)
      in if aa < bb then Some (-1) else if aa > bb then Some 1 else if aa = 0 then Some 0
         else OPENSSL_strncasecmp as bs n)"
| "OPENSSL_strncasecmp as bs (Suc n) = None"

text \<open>The return value and the destination.\<close>

fun OPENSSL_strlcpy :: "u8 list \<Rightarrow> u8 list \<Rightarrow> nat \<Rightarrow> (nat \<times> u8 list) option" where
  "OPENSSL_strlcpy dst [] dst_size = None"
| "OPENSSL_strlcpy dst (c # src) dst_size =
     (if 1 < dst_size \<and> c \<noteq> 0 then
        (case dst of
           [] \<Rightarrow> None
         | _ # dst \<Rightarrow> map_option (\<lambda>(l, d). (l + 1, c # d)) (OPENSSL_strlcpy dst src (dst_size - 1)))
      else
        (case (if dst_size \<noteq> 0 then (case dst of [] \<Rightarrow> None | _ # dst \<Rightarrow> Some (0 # dst)) else Some dst) of
           None \<Rightarrow> None
         | Some dst \<Rightarrow> map_option (\<lambda>l. (l, dst)) (strlen (c # src))))"

fun OPENSSL_strlcat :: "u8 list \<Rightarrow> u8 list \<Rightarrow> nat \<Rightarrow> (nat \<times> u8 list) option" where
  "OPENSSL_strlcat (c # dst) src (Suc n) =
     (if c \<noteq> 0 then map_option (\<lambda>(l, d). (l + 1, c # d)) (OPENSSL_strlcat dst src n)
      else OPENSSL_strlcpy (c # dst) src (Suc n))"
| "OPENSSL_strlcat [] src (Suc n) = None"
| "OPENSSL_strlcat dst src 0 = OPENSSL_strlcpy dst src 0"

section \<open>What they compute\<close>

lemma memcmp_loop_eq:
  "n \<le> length a \<Longrightarrow> n \<le> length b \<Longrightarrow>
     \<exists>y. memcmp_loop x a b n = Some y \<and> (y = 0 \<longleftrightarrow> x = 0 \<and> take n a = take n b)"
proof (induction n arbitrary: x a b)
  case (Suc n)
  then obtain a0 a' b0 b' where "a = a0 # a'" "b = b0 # b'" by (metis Suc_le_length_iff)
  moreover have "x OR (a0 XOR b0) = 0 \<longleftrightarrow> x = 0 \<and> a0 = b0"
    by (metis or.left_idem or.right_neutral or_eq_0_iff xor_self_eq xor.assoc xor.left_neutral xor.right_neutral)
  ultimately show ?case using Suc.prems Suc.IH [of a' b' "x OR (a0 XOR b0)"] by auto
qed simp

lemma CRYPTO_memcmp_eq:
  assumes "n \<le> length a" "n \<le> length b"
  shows "\<exists>r. CRYPTO_memcmp a b n = Some r \<and> (r = 0 \<longleftrightarrow> take n a = take n b)"
  using memcmp_loop_eq [OF assms, of 0] by (auto simp: CRYPTO_memcmp_def uint_0_iff)

text \<open>A string in an object: its characters, then a null byte.\<close>

definition cstring :: "u8 list \<Rightarrow> u8 list \<Rightarrow> bool" where
  "cstring p s \<longleftrightarrow> 0 \<notin> set s \<and> (\<exists>z. p = s @ 0 # z)"

lemma cstring_Cons [simp]: "cstring (c # p) (a # s) \<longleftrightarrow> c = a \<and> a \<noteq> 0 \<and> cstring p s"
  by (auto simp: cstring_def)

lemma cstring_Cons_Nil [simp]: "cstring (c # p) [] \<longleftrightarrow> c = 0"
  by (auto simp: cstring_def)

lemma not_cstring_Nil [simp]: "\<not> cstring [] s"
  by (simp add: cstring_def)

lemma strlen_eq: "cstring p s \<Longrightarrow> strlen p = Some (length s)"
proof (induction p arbitrary: s)
  case (Cons c p)
  then show ?case by (cases s) auto
qed simp

lemma strnlen_eq: "cstring p s \<Longrightarrow> strnlen p n = Some (min n (length s))"
proof (induction p n arbitrary: s rule: strnlen.induct)
  case (3 c p n)
  then show ?case by (cases s) auto
qed simp_all

lemma strlcpy_eq:
  assumes "cstring p s" "n \<le> length dst"
  shows "OPENSSL_strlcpy dst p n =
     Some (length s, if n = 0 then dst else take (n - 1) s @ 0 # drop (Suc (length (take (n - 1) s))) dst)"
  using assms
proof (induction dst p n arbitrary: s rule: OPENSSL_strlcpy.induct)
  case (2 dst c p n)
  show ?case
  proof (cases "1 < n \<and> c \<noteq> 0")
    case True
    then obtain m where n: "n = Suc (Suc m)" by (metis One_nat_def less_imp_Suc_add add_Suc)
    obtain s' where s: "s = c # s'" "cstring p s'" using True 2(2) by (cases s) auto
    obtain a dst' where dst: "dst = a # dst'" "Suc m \<le> length dst'" using 2(3) n by (cases dst) auto
    have "OPENSSL_strlcpy dst' p (n - 1) = Some (length s', if n - 1 = 0 then dst'
        else take (n - 1 - 1) s' @ 0 # drop (Suc (length (take (n - 1 - 1) s'))) dst')"
      using 2(1) [OF True dst(1) s(2)] dst(2) n by simp
    then show ?thesis using True n s dst by simp
  next
    case False
    then show ?thesis using 2(2,3) strlen_eq [OF 2(2)] by (cases dst; cases s) (auto split: if_splits)
  qed
qed simp

lemma strlcat_eq:
  assumes "cstring dst d" "cstring p s" "n \<le> length dst"
  shows "OPENSSL_strlcat dst p n =
     Some (min n (length d) + length s,
       if n \<le> length d then dst else take (n - 1) (d @ s) @ 0 # drop (Suc (length (take (n - 1) (d @ s)))) dst)"
  using assms
proof (induction dst p n arbitrary: d rule: OPENSSL_strlcat.induct)
  case (1 c dst p n)
  show ?case
  proof (cases d)
    case Nil
    then have "c = 0" using 1(2) by simp
    with Nil show ?thesis using strlcpy_eq [OF 1(3), of "Suc n" "c # dst"] 1(4) by simp
  next
    case (Cons a d')
    then have "OPENSSL_strlcat dst p n = Some (min n (length d') + length s, if n \<le> length d' then dst
        else take (n - 1) (d' @ s) @ 0 # drop (Suc (length (take (n - 1) (d' @ s)))) dst)"
      using 1 by auto
    then show ?thesis using Cons 1(2) by (cases n) auto
  qed
qed (simp_all add: strlcpy_eq)

text \<open>
  \<open>OPENSSL_strlcat\<close> stays inside the \<open>dst_size\<close> bytes of its destination: it appends what fits, always ends it
  with a null byte, and changes nothing if the string there already fills it; its return value is the length the
  whole string needs, so a caller can tell that it was cut.
\<close>

theorem strlcat_truncates:
  assumes "cstring dst d" "cstring src s" "dst_size \<le> length dst"
  shows "OPENSSL_strlcat dst src dst_size = Some
     (if length d < dst_size
      then (length d + length s, take (dst_size - 1) (d @ s) @ 0 # drop (Suc (min (dst_size - 1) (length (d @ s)))) dst)
      else (dst_size + length s, dst))"
proof -
  have "min (dst_size - 1) (length (d @ s)) = length (take (dst_size - 1) (d @ s))" by (simp add: min.commute)
  then show ?thesis using strlcat_eq [OF assms] by (simp only: min_def not_le split: if_split) auto
qed

lemma strlcat_truncates_witness:
  "OPENSSL_strlcat [1, 2, 0, 9, 9, 9] [3, 4, 5, 0] 5 = Some (5, [1, 2, 3, 4, 0, 9]) \<and>
   OPENSSL_strlcat [1, 2, 0, 9, 9, 9] [3, 4, 5, 0] 2 = Some (5, [1, 2, 0, 9, 9, 9])"
  using strlcat_truncates [of "[1, 2, 0, 9, 9, 9]" "[1, 2]" "[3, 4, 5, 0]" "[3, 4, 5]" 5]
    strlcat_truncates [of "[1, 2, 0, 9, 9, 9]" "[1, 2]" "[3, 4, 5, 0]" "[3, 4, 5]" 2] by simp

end
