(* ===== verification/Lhash.thy ===== *)
theory Lhash
  imports Mem
begin

text \<open>
  \<open>crypto/lhash/lhash.c\<close>: the chaining hash table. A chain is the list of its items from the head of the bucket,
  and a pointer to a \<open>next\<close> pointer is a bucket with a position in it. The functions of \<open>lhash_st\<close> are functions
  on the data; \<open>call_hash_func\<close> and \<open>call_cmp_func\<close> only restore their types. The table refines a map up to the
  comparison, which the locale \<open>dict\<close> states for any such container.
\<close>

section \<open>The code\<close>

record 'd LHASH_ITEM =
  li_data :: 'd
  li_hash :: u32

record 'd lhash_st =
  l_num_items :: nat
  l_buckets :: "'d LHASH_ITEM list list"
  l_num_buckets :: nat
  l_callback_depth :: u32
  l_comp :: "'d \<Rightarrow> 'd \<Rightarrow> int"
  l_hash :: "'d \<Rightarrow> u32"

definition kMinNumBuckets :: nat where
  "kMinNumBuckets = 16"

definition kMaxAverageChainLength :: nat where
  "kMaxAverageChainLength = 2"

definition kMinAverageChainLength :: nat where
  "kMinAverageChainLength = 1"

definition lh_new :: "(nat \<Rightarrow> bool) \<Rightarrow> ('d \<Rightarrow> u32) \<Rightarrow> ('d \<Rightarrow> 'd \<Rightarrow> int) \<Rightarrow> 'd lhash_st option" where
  "lh_new malloc_ok hash cmp =
     (if \<not> malloc_ok 48 then None
      else if \<not> malloc_ok (8 * kMinNumBuckets) then None
      else Some \<lparr>l_num_items = 0, l_buckets = replicate kMinNumBuckets [], l_num_buckets = kMinNumBuckets,
        l_callback_depth = 0, l_comp = cmp, l_hash = hash\<rparr>)"

definition lh_num_items :: "'d lhash_st \<Rightarrow> nat" where
  "lh_num_items lh = l_num_items lh"

text \<open>The loop over a chain; the position after the last item holds \<open>NULL\<close>.\<close>

fun chain_pos :: "('d \<Rightarrow> bool) \<Rightarrow> 'd LHASH_ITEM list \<Rightarrow> nat" where
  "chain_pos eq [] = 0"
| "chain_pos eq (cur # rest) = (if eq (li_data cur) then 0 else Suc (chain_pos eq rest))"

definition get_next_ptr_and_hash :: "'d lhash_st \<Rightarrow> 'd \<Rightarrow> u32 \<times> nat \<times> nat" where
  "get_next_ptr_and_hash lh data =
     (let hash = l_hash lh data; b = unat hash mod l_num_buckets lh
      in (hash, b, chain_pos (\<lambda>x. l_comp lh x data = 0) (l_buckets lh ! b)))"

definition get_next_ptr_by_key :: "'d lhash_st \<Rightarrow> 'k \<Rightarrow> u32 \<Rightarrow> ('k \<Rightarrow> 'd \<Rightarrow> int) \<Rightarrow> nat \<times> nat" where
  "get_next_ptr_by_key lh key key_hash cmp_key =
     (let b = unat key_hash mod l_num_buckets lh
      in (b, chain_pos (\<lambda>x. cmp_key key x = 0) (l_buckets lh ! b)))"

text \<open>\<open>*next_ptr\<close>: the item a position points to, \<open>None\<close> for \<open>NULL\<close>.\<close>

definition at_ptr :: "'d lhash_st \<Rightarrow> nat \<times> nat \<Rightarrow> 'd LHASH_ITEM option" where
  "at_ptr lh p = (case p of (b, i) \<Rightarrow> if i < length (l_buckets lh ! b) then Some (l_buckets lh ! b ! i) else None)"

definition lh_retrieve :: "'d lhash_st \<Rightarrow> 'd \<Rightarrow> 'd option" where
  "lh_retrieve lh data = map_option li_data (at_ptr lh (snd (get_next_ptr_and_hash lh data)))"

definition lh_retrieve_key :: "'d lhash_st \<Rightarrow> 'k \<Rightarrow> u32 \<Rightarrow> ('k \<Rightarrow> 'd \<Rightarrow> int) \<Rightarrow> 'd option" where
  "lh_retrieve_key lh key key_hash cmp_key = map_option li_data (at_ptr lh (get_next_ptr_by_key lh key key_hash cmp_key))"

definition move_item :: "nat \<Rightarrow> 'd LHASH_ITEM \<Rightarrow> 'd LHASH_ITEM list list \<Rightarrow> 'd LHASH_ITEM list list" where
  "move_item n cur bs = bs[unat (li_hash cur) mod n := cur # bs ! (unat (li_hash cur) mod n)]"

definition lh_rebucket :: "(nat \<Rightarrow> bool) \<Rightarrow> 'd lhash_st \<Rightarrow> nat \<Rightarrow> 'd lhash_st" where
  "lh_rebucket malloc_ok lh new_num_buckets =
     (let alloc_size = (8 * new_num_buckets) mod 2 ^ 64
      in if alloc_size div 8 \<noteq> new_num_buckets then lh
         else if \<not> malloc_ok alloc_size then lh
         else
           lh\<lparr>l_num_buckets := new_num_buckets,
              l_buckets := fold (\<lambda>chain. fold (move_item new_num_buckets) chain) (l_buckets lh)
                (replicate new_num_buckets [])\<rparr>)"

definition lh_maybe_resize :: "(nat \<Rightarrow> bool) \<Rightarrow> 'd lhash_st \<Rightarrow> 'd lhash_st" where
  "lh_maybe_resize malloc_ok lh =
     (if l_callback_depth lh > 0 then lh
      else
        (let avg_chain_length = l_num_items lh div l_num_buckets lh
         in if avg_chain_length > kMaxAverageChainLength then
              (let new_num_buckets = (l_num_buckets lh * 2) mod 2 ^ 64
               in if new_num_buckets > l_num_buckets lh then lh_rebucket malloc_ok lh new_num_buckets else lh)
            else if avg_chain_length < kMinAverageChainLength \<and> l_num_buckets lh > kMinNumBuckets then
              (let new_num_buckets = l_num_buckets lh div 2;
                   new_num_buckets = (if new_num_buckets < kMinNumBuckets then kMinNumBuckets else new_num_buckets)
               in lh_rebucket malloc_ok lh new_num_buckets)
            else lh))"

text \<open>The return value, \<open>*old_data\<close> and the table.\<close>

definition lh_insert :: "(nat \<Rightarrow> bool) \<Rightarrow> 'd lhash_st \<Rightarrow> 'd \<Rightarrow> bool \<times> 'd option \<times> 'd lhash_st" where
  "lh_insert malloc_ok lh data =
     (let (hash, b, i) = get_next_ptr_and_hash lh data
      in case at_ptr lh (b, i) of
           Some item \<Rightarrow>
             (True, Some (li_data item),
              lh\<lparr>l_buckets := (l_buckets lh)[b := (l_buckets lh ! b)[i := item\<lparr>li_data := data\<rparr>]]\<rparr>)
         | None \<Rightarrow>
             if \<not> malloc_ok 24 then (False, None, lh)
             else
               (True, None, lh_maybe_resize malloc_ok
                 (lh\<lparr>l_buckets := (l_buckets lh)[b := l_buckets lh ! b @ [\<lparr>li_data = data, li_hash = hash\<rparr>]],
                     l_num_items := l_num_items lh + 1\<rparr>)))"

definition lh_delete :: "(nat \<Rightarrow> bool) \<Rightarrow> 'd lhash_st \<Rightarrow> 'd \<Rightarrow> 'd option \<times> 'd lhash_st" where
  "lh_delete malloc_ok lh data =
     (let (hash, b, i) = get_next_ptr_and_hash lh data
      in case at_ptr lh (b, i) of
           None \<Rightarrow> (None, lh)
         | Some item \<Rightarrow>
             (Some (li_data item), lh_maybe_resize malloc_ok
               (lh\<lparr>l_buckets := (l_buckets lh)[b := take i (l_buckets lh ! b) @ drop (Suc i) (l_buckets lh ! b)],
                   l_num_items := l_num_items lh - 1\<rparr>)))"

text \<open>The callback changes \<open>arg\<close> and not the table.\<close>

definition lh_doall_arg :: "(nat \<Rightarrow> bool) \<Rightarrow> 'd lhash_st \<Rightarrow> ('d \<Rightarrow> 'a \<Rightarrow> 'a) \<Rightarrow> 'a \<Rightarrow> 'a \<times> 'd lhash_st" where
  "lh_doall_arg malloc_ok lh func arg =
     (let lh = (if l_callback_depth lh < - 1 then lh\<lparr>l_callback_depth := l_callback_depth lh + 1\<rparr> else lh);
          arg = fold (\<lambda>chain. fold (\<lambda>cur. func (li_data cur)) chain) (l_buckets lh) arg;
          lh = (if l_callback_depth lh < - 1 then lh\<lparr>l_callback_depth := l_callback_depth lh - 1\<rparr> else lh)
      in (arg, lh_maybe_resize malloc_ok lh))"

definition lh_strhash :: "u8 list option \<Rightarrow> u32 option" where
  "lh_strhash c =
     (case c of
        None \<Rightarrow> Some 0
      | Some s \<Rightarrow> map_option (\<lambda>n. OPENSSL_hash32 (take n s)) (strlen s))"

section \<open>Chains\<close>

text \<open>Equal data have equal hashes, and the comparison is an equivalence (\<open>include/openssl/lhash.h\<close>).\<close>

definition compatible :: "('d \<Rightarrow> u32) \<Rightarrow> ('d \<Rightarrow> 'd \<Rightarrow> int) \<Rightarrow> bool" where
  "compatible h c \<longleftrightarrow> equivp (\<lambda>x y. c x y = 0) \<and> (\<forall>x y. c x y = 0 \<longrightarrow> h x = h y)"

lemma compatibleD:
  assumes "compatible h c"
  shows "c x x = 0" "c x y = 0 \<Longrightarrow> c y x = 0" "c x y = 0 \<Longrightarrow> c y z = 0 \<Longrightarrow> c x z = 0" "c x y = 0 \<Longrightarrow> h x = h y"
  using assms unfolding compatible_def by (meson equivp_reflp equivp_symp equivp_transp)+

lemma compat_iff: "compatible h c \<Longrightarrow> c x d = 0 \<Longrightarrow> c x k = 0 \<longleftrightarrow> c d k = 0"
  using compatibleD(2,3) by metis

lemma compat_ne: "compatible h c \<Longrightarrow> c x d \<noteq> 0 \<Longrightarrow> c d k = 0 \<Longrightarrow> c x k \<noteq> 0"
  using compatibleD(2,3) by metis

text \<open>The item of a list that is equal to \<open>k\<close>.\<close>

definition lookup_in :: "('d \<Rightarrow> 'd \<Rightarrow> int) \<Rightarrow> 'd LHASH_ITEM list \<Rightarrow> 'd \<Rightarrow> 'd option" where
  "lookup_in c xs k = map_option li_data (find (\<lambda>x. c (li_data x) k = 0) xs)"

lemma lookup_in_simps [simp]:
  "lookup_in c [] k = None"
  "lookup_in c (x # xs) k = (if c (li_data x) k = 0 then Some (li_data x) else lookup_in c xs k)"
  by (simp_all add: lookup_in_def)

definition unequal :: "('d \<Rightarrow> 'd \<Rightarrow> int) \<Rightarrow> 'd LHASH_ITEM \<Rightarrow> 'd LHASH_ITEM \<Rightarrow> bool" where
  "unequal c x y \<longleftrightarrow> c (li_data x) (li_data y) \<noteq> 0 \<and> c (li_data y) (li_data x) \<noteq> 0"

lemma lookup_in_append: "lookup_in c (xs @ ys) k = (case lookup_in c xs k of None \<Rightarrow> lookup_in c ys k | Some x \<Rightarrow> Some x)"
  by (induction xs) auto

lemma lookup_in_None: "lookup_in c xs k = None \<longleftrightarrow> (\<forall>x \<in> set xs. c (li_data x) k \<noteq> 0)"
  by (induction xs) auto

lemma lookup_in_Some:
  assumes "compatible h c" "sorted_wrt (unequal c) xs"
  shows "lookup_in c xs k = Some d \<longleftrightarrow> (\<exists>x \<in> set xs. li_data x = d \<and> c d k = 0)"
  using assms(2)
proof (induction xs)
  case (Cons x xs)
  show ?case
  proof (cases "c (li_data x) k = 0")
    case True
    have "c (li_data y) k \<noteq> 0" if "y \<in> set xs" for y
    proof -
      have "c (li_data x) (li_data y) \<noteq> 0" using Cons.prems that by (simp add: unequal_def)
      then show ?thesis using compat_ne [OF assms(1)] True compatibleD(2) [OF assms(1)] by blast
    qed
    with True show ?thesis by auto
  qed (use Cons in auto)
qed simp

lemma lookup_in_cong:
  assumes "compatible h c" "sorted_wrt (unequal c) xs" "sorted_wrt (unequal c) ys" "set xs = set ys"
  shows "lookup_in c xs k = lookup_in c ys k"
proof (cases "lookup_in c ys k")
  case None
  then show ?thesis using assms(4) by (metis lookup_in_None)
next
  case (Some d)
  then show ?thesis using assms lookup_in_Some [OF assms(1)] by metis
qed

text \<open>Where the search stops, and what replacing and removing the item there does.\<close>

lemma chain_pos_le: "chain_pos p xs \<le> length xs"
  by (induction xs) auto

lemma chain_pos_lookup:
  "map_option li_data (if chain_pos (\<lambda>x. c x k = 0) xs < length xs then Some (xs ! chain_pos (\<lambda>x. c x k = 0) xs) else None)
     = lookup_in c xs k"
  by (induction xs) (auto split: if_splits)

lemma chain_pos_found:
  "chain_pos p xs < length xs \<Longrightarrow> p (li_data (xs ! chain_pos p xs))"
  by (induction xs) (auto split: if_splits)

lemma lookup_replace:
  assumes "compatible h c" "chain_pos (\<lambda>x. c x d = 0) xs < length xs"
  shows "lookup_in c (xs[chain_pos (\<lambda>x. c x d = 0) xs := \<lparr>li_data = d, li_hash = v\<rparr>]) k =
     (if c d k = 0 then Some d else lookup_in c xs k)"
  using assms(2)
proof (induction xs)
  case (Cons x xs)
  show ?case using Cons compat_iff [OF assms(1), of "li_data x" d k] compat_ne [OF assms(1), of "li_data x" d k]
    by (cases "c (li_data x) d = 0") simp_all
qed simp

lemma lookup_remove:
  assumes "compatible h c" "sorted_wrt (unequal c) xs" "i = chain_pos (\<lambda>x. c x d = 0) xs" "i < length xs"
  shows "lookup_in c (take i xs @ drop (Suc i) xs) k = (if c d k = 0 then None else lookup_in c xs k)"
  using assms(2-4)
proof (induction xs arbitrary: i)
  case (Cons x xs)
  show ?case
  proof (cases "c (li_data x) d = 0")
    case True
    have "lookup_in c xs k = None" if "c d k = 0"
      unfolding lookup_in_None
    proof
      fix y assume "y \<in> set xs"
      then have "c (li_data y) (li_data x) \<noteq> 0" using Cons.prems(1) by (simp add: unequal_def)
      then show "c (li_data y) k \<noteq> 0"
        using that True compat_ne [OF assms(1)] compatibleD(3) [OF assms(1)] by blast
    qed
    moreover have "c (li_data x) k = 0 \<longleftrightarrow> c d k = 0" using True by (rule compat_iff [OF assms(1)])
    ultimately show ?thesis using True Cons.prems by simp
  next
    case False
    then have "c d k = 0 \<Longrightarrow> c (li_data x) k \<noteq> 0" by (rule compat_ne [OF assms(1)])
    with False Cons show ?thesis by simp
  qed
qed simp

lemma lookup_add:
  assumes "compatible h c" "chain_pos (\<lambda>x. c x d = 0) xs = length xs"
  shows "lookup_in c (xs @ [\<lparr>li_data = d, li_hash = v\<rparr>]) k = (if c d k = 0 then Some d else lookup_in c xs k)"
  using assms(2)
proof (induction xs)
  case (Cons x xs)
  then have "c (li_data x) d \<noteq> 0" by (auto split: if_splits)
  then show ?case using Cons compat_ne [OF assms(1), of "li_data x" d k] by auto
qed simp

lemma unequal_add:
  assumes "compatible h c" "chain_pos (\<lambda>x. c x d = 0) xs = length xs" "sorted_wrt (unequal c) xs"
  shows "sorted_wrt (unequal c) (xs @ [\<lparr>li_data = d, li_hash = v\<rparr>])"
proof -
  have "lookup_in c xs d = None" using chain_pos_lookup [of c d xs] assms(2) by simp
  then have "unequal c x \<lparr>li_data = d, li_hash = v\<rparr>" if "x \<in> set xs" for x
    using that compatibleD(2) [OF assms(1), of d "li_data x"] by (auto simp: lookup_in_None unequal_def)
  then show ?thesis using assms(3) by (simp add: sorted_wrt_append)
qed

lemma unequal_subst:
  assumes "compatible h c" "c (li_data x) d = 0"
  shows "unequal c x y \<longleftrightarrow> unequal c \<lparr>li_data = d, li_hash = v\<rparr> y" "unequal c y x \<longleftrightarrow> unequal c y \<lparr>li_data = d, li_hash = v\<rparr>"
  using compat_iff [OF assms, of "li_data y"] compatibleD(2) [OF assms(1)] by (auto simp: unequal_def)

lemma unequal_replace:
  assumes "compatible h c" "c (li_data (xs ! i)) d = 0" "i < length xs" "sorted_wrt (unequal c) xs"
  shows "sorted_wrt (unequal c) (xs[i := \<lparr>li_data = d, li_hash = v\<rparr>])"
  using assms(3,4) unequal_subst [OF assms(1,2)]
  by (auto simp: sorted_wrt_iff_nth_less nth_list_update)

lemma sorted_wrt_remove:
  "sorted_wrt R xs \<Longrightarrow> sorted_wrt R (take i xs @ drop (Suc i) xs)"
  using sorted_wrt_take [of R xs i] sorted_wrt_drop [of R xs "Suc i"] set_drop_subset_set_drop [of i "Suc i" xs]
    sorted_wrt_append [of R "take i xs" "drop i xs"]
  by (auto simp: sorted_wrt_append)

section \<open>The table\<close>

definition chain_ok :: "'d lhash_st \<Rightarrow> nat \<Rightarrow> 'd LHASH_ITEM list \<Rightarrow> bool" where
  "chain_ok lh b xs \<longleftrightarrow> sorted_wrt (unequal (l_comp lh)) xs \<and>
     (\<forall>x \<in> set xs. li_hash x = l_hash lh (li_data x) \<and> unat (li_hash x) mod l_num_buckets lh = b)"

definition lh_inv :: "'d lhash_st \<Rightarrow> bool" where
  "lh_inv lh \<longleftrightarrow> compatible (l_hash lh) (l_comp lh) \<and> l_num_buckets lh = length (l_buckets lh) \<and>
     kMinNumBuckets \<le> l_num_buckets lh \<and> l_num_items lh = length (concat (l_buckets lh)) \<and>
     (\<forall>b < length (l_buckets lh). chain_ok lh b (l_buckets lh ! b))"

definition lh_map :: "'d lhash_st \<Rightarrow> 'd \<Rightarrow> 'd option" where
  "lh_map lh k = lookup_in (l_comp lh) (l_buckets lh ! (unat (l_hash lh k) mod l_num_buckets lh)) k"

lemma lh_retrieve_eq: "lh_retrieve lh k = lh_map lh k"
  using chain_pos_lookup [of "l_comp lh" k "l_buckets lh ! (unat (l_hash lh k) mod l_num_buckets lh)"]
  by (simp add: lh_retrieve_def lh_map_def get_next_ptr_and_hash_def at_ptr_def Let_def)

text \<open>A key of another type finds what the data it agrees with finds.\<close>

lemma lh_retrieve_key_eq:
  assumes "key_hash = l_hash lh k" "\<And>x. cmp_key key x = 0 \<longleftrightarrow> l_comp lh x k = 0"
  shows "lh_retrieve_key lh key key_hash cmp_key = lh_map lh k"
  using lh_retrieve_eq [of lh k]
  by (simp add: lh_retrieve_key_def lh_retrieve_def get_next_ptr_and_hash_def get_next_ptr_by_key_def assms Let_def)

lemma bucket_less: "lh_inv lh \<Longrightarrow> unat w mod l_num_buckets lh < length (l_buckets lh)"
  by (metis lh_inv_def kMinNumBuckets_def mod_less_divisor not_le zero_less_numeral less_le_trans)

lemma chain_ok_at: "lh_inv lh \<Longrightarrow> b < length (l_buckets lh) \<Longrightarrow> chain_ok lh b (l_buckets lh ! b)"
  by (simp add: lh_inv_def)

lemma item_ok:
  assumes "lh_inv lh" "j < length (l_buckets lh)" "x \<in> set (l_buckets lh ! j)"
  shows "li_hash x = l_hash lh (li_data x)" "unat (l_hash lh (li_data x)) mod l_num_buckets lh = j"
  using chain_ok_at [OF assms(1,2)] assms(3) unfolding chain_ok_def by metis+

lemma inv_compatible: "lh_inv lh \<Longrightarrow> compatible (l_hash lh) (l_comp lh)"
  by (simp add: lh_inv_def)

lemma chain_ok_update [simp]:
  "chain_ok (lh\<lparr>l_buckets := bs, l_num_items := m\<rparr>) = chain_ok lh" "chain_ok (lh\<lparr>l_callback_depth := d\<rparr>) = chain_ok lh"
  by (simp_all add: chain_ok_def fun_eq_iff)

lemma chain_ok_rebucket:
  "chain_ok (lh\<lparr>l_num_buckets := n, l_buckets := bs\<rparr>) j xs \<longleftrightarrow> sorted_wrt (unequal (l_comp lh)) xs \<and>
     (\<forall>x \<in> set xs. li_hash x = l_hash lh (li_data x) \<and> unat (li_hash x) mod n = j)"
  by (simp add: chain_ok_def)

lemma in_concat_nth: "x \<in> set (concat bs) \<longleftrightarrow> (\<exists>j < length bs. x \<in> set (bs ! j))"
  by (metis set_concat UN_iff in_set_conv_nth)

lemma length_concat_update:
  "b < length bs \<Longrightarrow> length (concat (bs[b := xs])) + length (bs ! b) = length (concat bs) + length xs"
proof (induction bs arbitrary: b)
  case (Cons a bs)
  then show ?case by (cases b) auto
qed simp

lemma bucket_update:
  assumes inv: "lh_inv lh" and b: "b = unat (l_hash lh d) mod l_num_buckets lh"
    and ok: "chain_ok lh b xs"
    and look: "\<And>k. lookup_in (l_comp lh) xs k = (if l_comp lh d k = 0 then r else lookup_in (l_comp lh) (l_buckets lh ! b) k)"
    and m: "m + length (l_buckets lh ! b) = l_num_items lh + length xs"
  defines "lh' \<equiv> lh\<lparr>l_buckets := (l_buckets lh)[b := xs], l_num_items := m\<rparr>"
  shows "lh_inv lh'" "lh_map lh' k = (if l_comp lh d k = 0 then r else lh_map lh k)"
proof -
  have lt: "b < length (l_buckets lh)" using bucket_less [OF inv] b by simp
  have "length (concat ((l_buckets lh)[b := xs])) = m"
    using length_concat_update [OF lt, of xs] m inv by (simp add: lh_inv_def)
  then show "lh_inv lh'" using inv ok lt by (auto simp: lh_inv_def lh'_def nth_list_update)
  have "l_comp lh d k = 0 \<Longrightarrow> l_hash lh d = l_hash lh k"
    using inv compatibleD(4) by (auto simp: lh_inv_def)
  then show "lh_map lh' k = (if l_comp lh d k = 0 then r else lh_map lh k)"
    using lt look b by (auto simp: lh_map_def lh'_def nth_list_update)
qed

subsection \<open>Resizing\<close>

lemma move_items:
  assumes "0 < n" "length bs = n"
  shows "length (fold (move_item n) xs bs) = n"
    "length (concat (fold (move_item n) xs bs)) = length xs + length (concat bs)"
    "j < n \<Longrightarrow> fold (move_item n) xs bs ! j = rev (filter (\<lambda>x. unat (li_hash x) mod n = j) xs) @ bs ! j"
proof -
  have step: "length (move_item n x bs) = n" "length (concat (move_item n x bs)) = Suc (length (concat bs))"
    if "length bs = n" for x and bs :: "'a LHASH_ITEM list list"
    using that assms(1) length_concat_update [of "unat (li_hash x) mod n" bs "x # bs ! (unat (li_hash x) mod n)"]
    by (simp_all add: move_item_def)
  show "length (fold (move_item n) xs bs) = n"
    using assms(2) by (induction xs arbitrary: bs) (simp_all add: step(1))
  show "length (concat (fold (move_item n) xs bs)) = length xs + length (concat bs)"
    using assms(2)
  proof (induction xs arbitrary: bs)
    case (Cons x xs)
    then show ?case using Cons.IH [OF step(1) [OF Cons.prems]] step(2) [OF Cons.prems] by simp
  qed simp
  show "fold (move_item n) xs bs ! j = rev (filter (\<lambda>x. unat (li_hash x) mod n = j) xs) @ bs ! j" if "j < n"
    using assms(2)
  proof (induction xs arbitrary: bs)
    case (Cons x xs)
    then show ?case using Cons.IH [OF step(1) [OF Cons.prems]] that
      by (simp add: move_item_def nth_list_update)
  qed simp
qed

lemma fold_chains: "fold (\<lambda>chain. fold f chain) bs s = fold f (concat bs) s"
  by (induction bs arbitrary: s) simp_all

lemma sorted_wrt_concat:
  assumes "\<forall>i < length bs. sorted_wrt R (bs ! i)"
    and "\<And>i j x y. i < j \<Longrightarrow> j < length bs \<Longrightarrow> x \<in> set (bs ! i) \<Longrightarrow> y \<in> set (bs ! j) \<Longrightarrow> R x y"
  shows "sorted_wrt R (concat bs)"
  using assms
proof (induction bs)
  case (Cons a bs)
  have "sorted_wrt R (concat bs)"
  proof (rule Cons.IH)
    show "\<forall>i < length bs. sorted_wrt R (bs ! i)" using Cons.prems(1) by force
    show "R x y" if "i < j" "j < length bs" "x \<in> set (bs ! i)" "y \<in> set (bs ! j)" for i j x y
      using Cons.prems(2) [of "Suc i" "Suc j" x y] that by simp
  qed
  moreover have "R x y" if x: "x \<in> set a" and y: "y \<in> set (concat bs)" for x y
  proof -
    obtain j where "j < length bs" "y \<in> set (bs ! j)" using y unfolding in_concat_nth by blast
    then show ?thesis using Cons.prems(2) [of 0 "Suc j" x y] x by simp
  qed
  moreover have "sorted_wrt R a" using Cons.prems(1) by force
  ultimately show ?case by (simp add: sorted_wrt_append)
qed simp

lemma items_unequal:
  assumes "lh_inv lh"
  shows "sorted_wrt (unequal (l_comp lh)) (concat (l_buckets lh))"
proof (rule sorted_wrt_concat)
  show "\<forall>i < length (l_buckets lh). sorted_wrt (unequal (l_comp lh)) (l_buckets lh ! i)"
    using assms by (simp add: lh_inv_def chain_ok_def)
  fix i j x y
  assume "i < j" "j < length (l_buckets lh)" "x \<in> set (l_buckets lh ! i)" "y \<in> set (l_buckets lh ! j)"
  then have "l_hash lh (li_data x) \<noteq> l_hash lh (li_data y)"
    using chain_ok_at [OF assms, of i] chain_ok_at [OF assms, of j] unfolding chain_ok_def by (metis less_trans nat_neq_iff)
  then show "unequal (l_comp lh) x y"
    using compatibleD(4) [OF inv_compatible [OF assms]] unfolding unequal_def by metis
qed

text \<open>The table's contents as a set of items: what a lookup depends on.\<close>

lemma lh_map_items:
  assumes "lh_inv lh"
  shows "lh_map lh k = lookup_in (l_comp lh) (concat (l_buckets lh)) k"
proof -
  let ?b = "unat (l_hash lh k) mod l_num_buckets lh" and ?c = "l_comp lh"
  have C: "compatible (l_hash lh) ?c" and lt: "?b < length (l_buckets lh)" and ch: "chain_ok lh ?b (l_buckets lh ! ?b)"
    using assms bucket_less chain_ok_at inv_compatible by blast+
  have "x \<in> set (l_buckets lh ! ?b)" if x: "x \<in> set (concat (l_buckets lh))" "?c (li_data x) k = 0" for x
  proof -
    obtain j where j: "j < length (l_buckets lh)" "x \<in> set (l_buckets lh ! j)" using x(1) unfolding in_concat_nth by blast
    then have "unat (l_hash lh (li_data x)) mod l_num_buckets lh = j" by (rule item_ok(2) [OF assms])
    then show ?thesis using j compatibleD(4) [OF C x(2)] by simp
  qed
  moreover have "set (l_buckets lh ! ?b) \<subseteq> set (concat (l_buckets lh))" using lt unfolding subset_iff in_concat_nth by blast
  ultimately have "lookup_in ?c (l_buckets lh ! ?b) k = Some d \<longleftrightarrow> lookup_in ?c (concat (l_buckets lh)) k = Some d" for d
    using ch unfolding chain_ok_def lookup_in_Some [OF C items_unequal [OF assms]]
    by (subst lookup_in_Some [OF C]) (auto simp del: set_concat)
  then show ?thesis unfolding lh_map_def by (metis option.exhaust)
qed

lemma unequal_rev: "sorted_wrt (unequal c) xs \<Longrightarrow> sorted_wrt (unequal c) (rev xs)"
  unfolding sorted_wrt_rev by (rule sorted_wrt_mono_rel) (auto simp: unequal_def)

lemma lh_rebucket_ok:
  assumes "lh_inv lh" "kMinNumBuckets \<le> n"
  shows "lh_inv (lh_rebucket malloc_ok lh n)" "lh_map (lh_rebucket malloc_ok lh n) = lh_map lh"
    "l_num_items (lh_rebucket malloc_ok lh n) = l_num_items lh"
    "l_comp (lh_rebucket malloc_ok lh n) = l_comp lh" "l_hash (lh_rebucket malloc_ok lh n) = l_hash lh"
proof -
  let ?bs = "fold (move_item n) (concat (l_buckets lh)) (replicate n [])"
  let ?lh = "lh\<lparr>l_num_buckets := n, l_buckets := ?bs\<rparr>"
  have n: "0 < n" using assms(2) by (simp add: kMinNumBuckets_def)
  note mv = move_items [OF n, where bs = "replicate n []" and xs = "concat (l_buckets lh)", simplified]
  have u: "sorted_wrt (unequal (l_comp lh)) (concat (l_buckets lh))" by (rule items_unequal [OF assms(1)])
  have h: "li_hash x = l_hash lh (li_data x)" if "x \<in> set (concat (l_buckets lh))" for x
    using that item_ok(1) [OF assms(1)] unfolding in_concat_nth by blast
  have "chain_ok ?lh j (?bs ! j)" if "j < n" for j
  proof -
    have "sorted_wrt (unequal (l_comp lh)) (filter (\<lambda>x. unat (li_hash x) mod n = j) (concat (l_buckets lh)))"
      using u by (rule sorted_wrt_filter)
    then have "sorted_wrt (unequal (l_comp lh)) (rev (filter (\<lambda>x. unat (li_hash x) mod n = j) (concat (l_buckets lh))))"
      by (rule unequal_rev)
    then have "sorted_wrt (unequal (l_comp lh)) (?bs ! j)" by (simp only: mv(3) [OF that] nth_replicate [OF that] append_Nil2)
    moreover have "li_hash x = l_hash lh (li_data x) \<and> unat (li_hash x) mod n = j" if "x \<in> set (?bs ! j)" for x
      using that h [of x] \<open>j < n\<close> by (simp add: mv(3) del: set_concat)
    ultimately show ?thesis unfolding chain_ok_rebucket by blast
  qed
  then have inv: "lh_inv ?lh" using assms mv(1,2) by (simp add: lh_inv_def)
  have "set (concat ?bs) = set (concat (l_buckets lh))"
  proof
    show "set (concat ?bs) \<subseteq> set (concat (l_buckets lh))"
      by (auto simp: in_set_conv_nth [of _ ?bs] mv)
    show "set (concat (l_buckets lh)) \<subseteq> set (concat ?bs)"
    proof
      fix x assume x: "x \<in> set (concat (l_buckets lh))"
      let ?j = "unat (li_hash x) mod n"
      have "?j < n" "x \<in> set (?bs ! ?j)" using x n by (simp_all add: mv(3))
      then show "x \<in> set (concat ?bs)" using mv(1) unfolding in_concat_nth by metis
    qed
  qed
  moreover have "sorted_wrt (unequal (l_comp lh)) (concat ?bs)" using items_unequal [OF inv] by simp
  ultimately have "lookup_in (l_comp lh) (concat ?bs) k = lookup_in (l_comp lh) (concat (l_buckets lh)) k" for k
    using u by (intro lookup_in_cong [OF inv_compatible [OF assms(1)]])
  then have "lh_map ?lh k = lh_map lh k" for k
    using lh_map_items [OF inv, of k] lh_map_items [OF assms(1), of k] by simp
  then show "lh_inv (lh_rebucket malloc_ok lh n)" "lh_map (lh_rebucket malloc_ok lh n) = lh_map lh"
    "l_num_items (lh_rebucket malloc_ok lh n) = l_num_items lh"
    "l_comp (lh_rebucket malloc_ok lh n) = l_comp lh" "l_hash (lh_rebucket malloc_ok lh n) = l_hash lh"
    using inv assms(1) by (auto simp: lh_rebucket_def fold_chains Let_def)
qed

lemma lh_maybe_resize_ok:
  assumes "lh_inv lh"
  shows "lh_inv (lh_maybe_resize malloc_ok lh)" "lh_map (lh_maybe_resize malloc_ok lh) = lh_map lh"
    "l_num_items (lh_maybe_resize malloc_ok lh) = l_num_items lh"
    "l_comp (lh_maybe_resize malloc_ok lh) = l_comp lh" "l_hash (lh_maybe_resize malloc_ok lh) = l_hash lh"
proof -
  have k: "kMinNumBuckets \<le> l_num_buckets lh" using assms by (simp add: lh_inv_def)
  show "lh_inv (lh_maybe_resize malloc_ok lh)" "lh_map (lh_maybe_resize malloc_ok lh) = lh_map lh"
    "l_num_items (lh_maybe_resize malloc_ok lh) = l_num_items lh"
    "l_comp (lh_maybe_resize malloc_ok lh) = l_comp lh" "l_hash (lh_maybe_resize malloc_ok lh) = l_hash lh"
    using k assms by (simp_all add: lh_maybe_resize_def Let_def lh_rebucket_ok)
qed

section \<open>The operations\<close>

lemma lh_new_ok:
  assumes "compatible h c" "lh_new malloc_ok h c = Some lh"
  shows "lh_inv lh" "lh_map lh k = None" "l_comp lh = c" "l_hash lh = h" "l_num_items lh = 0" "l_callback_depth lh = 0"
  using assms by (auto simp: lh_new_def lh_inv_def chain_ok_def lh_map_def kMinNumBuckets_def split: if_splits)

definition same_funs :: "'d lhash_st \<Rightarrow> 'd lhash_st \<Rightarrow> bool" where
  "same_funs lh lh' \<longleftrightarrow> l_comp lh' = l_comp lh \<and> l_hash lh' = l_hash lh"

lemma same_funsD: "same_funs lh lh' \<Longrightarrow> l_comp lh' = l_comp lh" "same_funs lh lh' \<Longrightarrow> l_hash lh' = l_hash lh"
  by (simp_all add: same_funs_def)

lemma li_update: "x\<lparr>li_data := d\<rparr> = \<lparr>li_data = d, li_hash = li_hash x\<rparr>" for x :: "'d LHASH_ITEM"
  by (cases x) simp

lemma lh_map_cong:
  assumes "lh_inv lh" "l_comp lh d k = 0"
  shows "lh_map lh d = lh_map lh k"
proof -
  note C = inv_compatible [OF assms(1)]
  have "l_comp lh x d = 0 \<longleftrightarrow> l_comp lh x k = 0" for x
    using compat_ne [OF C] compatibleD(2,3) [OF C] assms(2) by blast
  then show ?thesis using compatibleD(4) [OF C assms(2)] by (simp add: lh_map_def lookup_in_def)
qed

lemma lh_insert_ok:
  assumes inv: "lh_inv lh" and r: "lh_insert malloc_ok lh d = (r, old, lh')"
  shows "r \<longleftrightarrow> lh_map lh d \<noteq> None \<or> malloc_ok 24" "old = lh_map lh d" "lh_inv lh'" "same_funs lh lh'"
    "lh_map lh' k = (if r \<and> l_comp lh d k = 0 then Some d else lh_map lh k)"
    "l_num_items lh' = l_num_items lh + (if lh_map lh d = None \<and> r then 1 else 0)"
proof -
  let ?c = "l_comp lh" and ?b = "unat (l_hash lh d) mod l_num_buckets lh"
  let ?xs = "l_buckets lh ! ?b" and ?i = "chain_pos (\<lambda>x. l_comp lh x d = 0) (l_buckets lh ! (unat (l_hash lh d) mod l_num_buckets lh))"
  note C = inv_compatible [OF inv]
  have lt: "?b < length (l_buckets lh)" by (rule bucket_less [OF inv])
  note ok = chain_ok_at [OF inv lt]
  have map: "lh_map lh d = (if ?i < length ?xs then Some (li_data (?xs ! ?i)) else None)"
    using chain_pos_lookup [of ?c d ?xs] by (simp add: lh_map_def split: if_splits)
  have "(r \<longleftrightarrow> lh_map lh d \<noteq> None \<or> malloc_ok 24) \<and> old = lh_map lh d \<and> lh_inv lh' \<and> same_funs lh lh' \<and>
    (\<forall>k. lh_map lh' k = (if r \<and> l_comp lh d k = 0 then Some d else lh_map lh k)) \<and>
    l_num_items lh' = l_num_items lh + (if lh_map lh d = None \<and> r then 1 else 0)"
  proof (cases "?i < length ?xs")
    case True
    let ?x = "?xs ! ?i" and ?new = "\<lparr>li_data = d, li_hash = li_hash (?xs ! ?i)\<rparr>"
    have eq: "?c (li_data ?x) d = 0" using chain_pos_found [OF True] .
    have "chain_ok lh ?b (?xs[?i := ?new])"
      using ok unequal_replace [OF C eq True] compatibleD(4) [OF C eq] True set_update_subset_insert [of ?xs ?i ?new]
      unfolding chain_ok_def by (auto dest!: subsetD)
    note up = bucket_update [OF inv refl this lookup_replace [OF C True], of "l_num_items lh"]
    have "lh' = lh\<lparr>l_buckets := (l_buckets lh)[?b := ?xs[?i := ?new]], l_num_items := l_num_items lh\<rparr>" "r" "old = Some (li_data ?x)"
      using r True by (auto simp: lh_insert_def get_next_ptr_and_hash_def at_ptr_def Let_def li_update)
    then show ?thesis using up map True by (simp add: same_funs_def)
  next
    case False
    then have stop: "?i = length ?xs" using chain_pos_le [of "\<lambda>x. ?c x d = 0" ?xs] by simp
    show ?thesis
    proof (cases "malloc_ok 24")
      case True
      let ?new = "\<lparr>li_data = d, li_hash = l_hash lh d\<rparr>"
      let ?lh = "lh\<lparr>l_buckets := (l_buckets lh)[?b := ?xs @ [?new]], l_num_items := l_num_items lh + 1\<rparr>"
      have "chain_ok lh ?b (?xs @ [?new])"
        using ok unequal_add [OF C stop] unfolding chain_ok_def by auto
      note up = bucket_update [OF inv refl this lookup_add [OF C stop], of "l_num_items lh + 1"]
      have "lh' = lh_maybe_resize malloc_ok ?lh" "r" "old = None"
        using r False True by (auto simp: lh_insert_def get_next_ptr_and_hash_def at_ptr_def Let_def)
      then show ?thesis using up lh_maybe_resize_ok [of ?lh malloc_ok] map False True by (simp add: same_funs_def)
    next
      case m: False
      have "lh' = lh" "\<not> r" "old = None"
        using r False m by (auto simp: lh_insert_def get_next_ptr_and_hash_def at_ptr_def Let_def)
      then show ?thesis using inv m map False by (simp add: same_funs_def)
    qed
  qed
  then show "r \<longleftrightarrow> lh_map lh d \<noteq> None \<or> malloc_ok 24" "old = lh_map lh d" "lh_inv lh'" "same_funs lh lh'"
    "lh_map lh' k = (if r \<and> l_comp lh d k = 0 then Some d else lh_map lh k)"
    "l_num_items lh' = l_num_items lh + (if lh_map lh d = None \<and> r then 1 else 0)" by blast+
qed

lemma lh_delete_ok:
  assumes inv: "lh_inv lh" and r: "lh_delete malloc_ok lh d = (old, lh')"
  shows "old = lh_map lh d" "lh_inv lh'" "same_funs lh lh'"
    "lh_map lh' k = (if l_comp lh d k = 0 then None else lh_map lh k)"
    "l_num_items lh' = l_num_items lh - (if lh_map lh d = None then 0 else 1)"
proof -
  let ?c = "l_comp lh" and ?b = "unat (l_hash lh d) mod l_num_buckets lh"
  let ?xs = "l_buckets lh ! ?b" and ?i = "chain_pos (\<lambda>x. l_comp lh x d = 0) (l_buckets lh ! (unat (l_hash lh d) mod l_num_buckets lh))"
  note C = inv_compatible [OF inv]
  have lt: "?b < length (l_buckets lh)" by (rule bucket_less [OF inv])
  note ok = chain_ok_at [OF inv lt]
  have map: "lh_map lh d = (if ?i < length ?xs then Some (li_data (?xs ! ?i)) else None)"
    using chain_pos_lookup [of ?c d ?xs] by (simp add: lh_map_def split: if_splits)
  have "old = lh_map lh d \<and> lh_inv lh' \<and> same_funs lh lh' \<and>
    (\<forall>k. lh_map lh' k = (if l_comp lh d k = 0 then None else lh_map lh k)) \<and>
    l_num_items lh' = l_num_items lh - (if lh_map lh d = None then 0 else 1)"
  proof (cases "?i < length ?xs")
    case True
    let ?ys = "take ?i ?xs @ drop (Suc ?i) ?xs"
    let ?lh = "lh\<lparr>l_buckets := (l_buckets lh)[?b := ?ys], l_num_items := l_num_items lh - 1\<rparr>"
    have "set ?ys \<subseteq> set ?xs" by (auto dest: in_set_takeD in_set_dropD)
    then have chain: "chain_ok lh ?b ?ys" using ok sorted_wrt_remove unfolding chain_ok_def by blast
    have "sorted_wrt (unequal ?c) ?xs" using ok by (simp add: chain_ok_def)
    note look = lookup_remove [OF C this refl True]
    have "length ?xs \<le> l_num_items lh" using inv length_concat_update [OF lt, of "[]"] by (simp add: lh_inv_def)
    then have "l_num_items lh - 1 + length ?xs = l_num_items lh + length ?ys" using True by simp
    note up = bucket_update [OF inv refl chain look this]
    have "lh' = lh_maybe_resize malloc_ok ?lh" "old = Some (li_data (?xs ! ?i))"
      using r True by (auto simp: lh_delete_def get_next_ptr_and_hash_def at_ptr_def Let_def)
    then show ?thesis using up lh_maybe_resize_ok [of ?lh malloc_ok] map True by (simp add: same_funs_def)
  next
    case False
    have "lh' = lh" "old = None"
      using r False by (auto simp: lh_delete_def get_next_ptr_and_hash_def at_ptr_def Let_def)
    moreover have "lh_map lh k = None" if "?c d k = 0" for k
      using lh_map_cong [OF inv that] map False by simp
    ultimately show ?thesis using inv map False by (auto simp: same_funs_def)
  qed
  then show "old = lh_map lh d" "lh_inv lh'" "same_funs lh lh'"
    "lh_map lh' k = (if l_comp lh d k = 0 then None else lh_map lh k)"
    "l_num_items lh' = l_num_items lh - (if lh_map lh d = None then 0 else 1)" by blast+
qed

text \<open>The walk visits every item once, leaves \<open>callback_depth\<close> as it was unless it is saturated, and keeps the map.\<close>

lemma inv_depth [simp]: "lh_inv (lh\<lparr>l_callback_depth := d\<rparr>) \<longleftrightarrow> lh_inv lh" "lh_map (lh\<lparr>l_callback_depth := d\<rparr>) = lh_map lh"
  by (auto simp: lh_inv_def lh_map_def)

lemma lh_doall_ok:
  assumes "lh_inv lh"
  shows "fst (lh_doall_arg malloc_ok lh func arg) = fold func (map li_data (concat (l_buckets lh))) arg"
    "lh_inv (snd (lh_doall_arg malloc_ok lh func arg))" "lh_map (snd (lh_doall_arg malloc_ok lh func arg)) = lh_map lh"
  using assms by (simp_all add: lh_doall_arg_def fold_chains fold_map comp_def lh_maybe_resize_ok Let_def)

lemma lh_doall_collect:
  assumes "lh_inv lh"
  shows "set (fst (lh_doall_arg malloc_ok lh (#) [])) = {d. \<exists>k. lh_map lh k = Some d}"
    "length (fst (lh_doall_arg malloc_ok lh (#) [])) = l_num_items lh"
proof -
  have "lh_map lh (li_data x) = Some (li_data x)" if "x \<in> set (concat (l_buckets lh))" for x
    using that lh_map_items [OF assms] lookup_in_Some [OF inv_compatible [OF assms] items_unequal [OF assms]]
      compatibleD(1) [OF inv_compatible [OF assms]] by metis
  moreover have "\<exists>x \<in> set (concat (l_buckets lh)). li_data x = d" if "lh_map lh k = Some d" for k d
    using that lh_map_items [OF assms] lookup_in_Some [OF inv_compatible [OF assms] items_unequal [OF assms]] by metis
  ultimately have "li_data ` set (concat (l_buckets lh)) = {d. \<exists>k. lh_map lh k = Some d}" by blast
  then show "set (fst (lh_doall_arg malloc_ok lh (#) [])) = {d. \<exists>k. lh_map lh k = Some d}"
    by (simp add: lh_doall_ok [OF assms] fold_Cons_rev del: set_concat)
  show "length (fst (lh_doall_arg malloc_ok lh (#) [])) = l_num_items lh"
    using assms by (simp add: lh_doall_ok [OF assms] fold_Cons_rev lh_inv_def)
qed

section \<open>Containers that refine a map\<close>

datatype 'd lh_op = Insert 'd | Delete 'd | Retrieve 'd

fun run :: "('s \<Rightarrow> 'op \<Rightarrow> 'r \<times> 's) \<Rightarrow> 'op list \<Rightarrow> 's \<Rightarrow> 'r list \<times> 's" where
  "run step [] s = ([], s)"
| "run step (op # ops) s = (let (r, s) = step s op; (rs, s) = run step ops s in (r # rs, s))"

text \<open>An abstract step over a map of what is equal up to \<open>eqv\<close>; \<open>avail\<close> is whether memory is available.\<close>

fun map_step :: "('d \<Rightarrow> 'd \<Rightarrow> bool) \<Rightarrow> bool \<Rightarrow> ('d \<Rightarrow> 'd option) \<Rightarrow> 'd lh_op \<Rightarrow> (bool \<times> 'd option) \<times> ('d \<Rightarrow> 'd option)" where
  "map_step eqv avail m (Insert d) =
     (let r = (m d \<noteq> None \<or> avail) in ((r, m d), \<lambda>k. if r \<and> eqv d k then Some d else m k))"
| "map_step eqv avail m (Delete d) = ((True, m d), \<lambda>k. if eqv d k then None else m k)"
| "map_step eqv avail m (Retrieve d) = ((True, m d), m)"

fun dict_step :: "('t \<Rightarrow> 'd \<Rightarrow> bool \<times> 'd option \<times> 't) \<Rightarrow> ('t \<Rightarrow> 'd \<Rightarrow> 'd option \<times> 't) \<Rightarrow> ('t \<Rightarrow> 'd \<Rightarrow> 'd option)
    \<Rightarrow> 't \<Rightarrow> 'd lh_op \<Rightarrow> (bool \<times> 'd option) \<times> 't" where
  "dict_step ins del get t (Insert d) = (let (r, old, t) = ins t d in ((r, old), t))"
| "dict_step ins del get t (Delete d) = (let (old, t) = del t d in ((True, old), t))"
| "dict_step ins del get t (Retrieve d) = ((True, get t d), t)"

locale dict =
  fixes inv :: "'t \<Rightarrow> bool"
    and lookup :: "'t \<Rightarrow> 'd \<Rightarrow> 'd option"
    and eqv :: "'d \<Rightarrow> 'd \<Rightarrow> bool"
    and avail :: bool
    and ins :: "'t \<Rightarrow> 'd \<Rightarrow> bool \<times> 'd option \<times> 't"
    and del :: "'t \<Rightarrow> 'd \<Rightarrow> 'd option \<times> 't"
    and get :: "'t \<Rightarrow> 'd \<Rightarrow> 'd option"
  assumes ins: "inv t \<Longrightarrow> ins t d = (r, old, t') \<Longrightarrow>
      inv t' \<and> (r \<longleftrightarrow> lookup t d \<noteq> None \<or> avail) \<and> old = lookup t d \<and>
      (\<forall>k. lookup t' k = (if r \<and> eqv d k then Some d else lookup t k))"
    and del: "inv t \<Longrightarrow> del t d = (old, t') \<Longrightarrow>
      inv t' \<and> old = lookup t d \<and> (\<forall>k. lookup t' k = (if eqv d k then None else lookup t k))"
    and get: "inv t \<Longrightarrow> get t d = lookup t d"
begin

lemma step_refines:
  assumes "inv t"
  shows "inv (snd (dict_step ins del get t op))"
    "fst (dict_step ins del get t op) = fst (map_step eqv avail (lookup t) op)"
    "lookup (snd (dict_step ins del get t op)) = snd (map_step eqv avail (lookup t) op)"
proof -
  have "inv (snd (dict_step ins del get t op)) \<and>
    fst (dict_step ins del get t op) = fst (map_step eqv avail (lookup t) op) \<and>
    lookup (snd (dict_step ins del get t op)) = snd (map_step eqv avail (lookup t) op)"
  proof (cases op)
    case (Insert d)
    obtain r old t' where i: "ins t d = (r, old, t')" by (metis prod_cases3)
    show ?thesis using ins [OF assms i] by (simp add: Insert i fun_eq_iff Let_def)
  next
    case (Delete d)
    obtain old t' where i: "del t d = (old, t')" by fastforce
    show ?thesis using del [OF assms i] by (simp add: Delete i fun_eq_iff)
  qed (use assms get in simp)
  then show "inv (snd (dict_step ins del get t op))"
    "fst (dict_step ins del get t op) = fst (map_step eqv avail (lookup t) op)"
    "lookup (snd (dict_step ins del get t op)) = snd (map_step eqv avail (lookup t) op)" by blast+
qed

lemma run_refines:
  assumes "inv t"
  shows "inv (snd (run (dict_step ins del get) ops t))"
    "fst (run (dict_step ins del get) ops t) = fst (run (map_step eqv avail) ops (lookup t))"
    "lookup (snd (run (dict_step ins del get) ops t)) = snd (run (map_step eqv avail) ops (lookup t))"
  using assms by (induction ops arbitrary: t) (simp_all add: step_refines split_beta)

end

interpretation lhash: dict "\<lambda>lh. lh_inv lh \<and> l_comp lh = c \<and> l_hash lh = h" lh_map "\<lambda>x y. c x y = 0" "malloc_ok 24"
  "lh_insert malloc_ok" "lh_delete malloc_ok" lh_retrieve for c h malloc_ok
proof
  fix t d r old t' assume inv: "lh_inv t \<and> l_comp t = c \<and> l_hash t = h"
  show "(lh_inv t' \<and> l_comp t' = c \<and> l_hash t' = h) \<and> (r \<longleftrightarrow> lh_map t d \<noteq> None \<or> malloc_ok 24) \<and> old = lh_map t d \<and>
      (\<forall>k. lh_map t' k = (if r \<and> c d k = 0 then Some d else lh_map t k))" if "lh_insert malloc_ok t d = (r, old, t')"
    using inv lh_insert_ok [OF conjunct1 [OF inv] that] by (auto simp: same_funs_def)
  show "(lh_inv t' \<and> l_comp t' = c \<and> l_hash t' = h) \<and> old = lh_map t d \<and>
      (\<forall>k. lh_map t' k = (if c d k = 0 then None else lh_map t k))" if "lh_delete malloc_ok t d = (old, t')"
    using inv lh_delete_ok [OF conjunct1 [OF inv] that] by (auto simp: same_funs_def)
qed (rule lh_retrieve_eq)

definition lh_step :: "(nat \<Rightarrow> bool) \<Rightarrow> 'd lhash_st \<Rightarrow> 'd lh_op \<Rightarrow> (bool \<times> 'd option) \<times> 'd lhash_st" where
  "lh_step malloc_ok = dict_step (lh_insert malloc_ok) (lh_delete malloc_ok) lh_retrieve"

section \<open>The load factor\<close>

definition lh_load :: "'d lhash_st \<Rightarrow> bool" where
  "lh_load lh \<longleftrightarrow> (\<exists>k. l_num_buckets lh = kMinNumBuckets * 2 ^ k) \<and> l_callback_depth lh = 0 \<and>
     l_num_items lh < 3 * l_num_buckets lh \<and> (l_num_buckets lh = kMinNumBuckets \<or> l_num_buckets lh \<le> l_num_items lh)"

lemma lh_maybe_resize_load:
  assumes all: "\<forall>n. malloc_ok n" and depth: "l_callback_depth lh = 0"
    and b: "l_num_buckets lh = kMinNumBuckets * 2 ^ k" and small: "l_num_items lh < 2 ^ 59"
    and up: "l_num_items lh \<le> 3 * l_num_buckets lh"
    and low: "l_num_buckets lh = kMinNumBuckets \<or> l_num_buckets lh \<le> l_num_items lh + 1"
  shows "lh_load (lh_maybe_resize malloc_ok lh)"
proof -
  let ?n = "l_num_items lh" and ?b = "l_num_buckets lh"
  have pos: "16 \<le> ?b" using b by (simp add: kMinNumBuckets_def)
  have lt: "?b < 2 ^ 60" using low small by (auto simp: kMinNumBuckets_def)
  have reb: "lh_load (lh_rebucket malloc_ok lh m) \<longleftrightarrow> (\<exists>k. m = kMinNumBuckets * 2 ^ k) \<and> ?n < 3 * m \<and> (m = kMinNumBuckets \<or> m \<le> ?n)"
    if "m < 2 ^ 61" for m
    using that all depth by (simp add: lh_rebucket_def lh_load_def Let_def)
  consider "?n = 3 * ?b" | "?b \<le> ?n" "?n < 3 * ?b" | "?n < ?b" "?b = kMinNumBuckets" | "?n < ?b" "?b \<noteq> kMinNumBuckets"
    using up by linarith
  then show ?thesis
  proof cases
    case 1
    then have "lh_maybe_resize malloc_ok lh = lh_rebucket malloc_ok lh (2 * ?b)"
      using depth pos lt by (simp add: lh_maybe_resize_def kMaxAverageChainLength_def mult.commute Let_def)
    moreover have "2 * ?b = kMinNumBuckets * 2 ^ Suc k" using b by simp
    then have "\<exists>k. 2 * ?b = kMinNumBuckets * 2 ^ k" by blast
    ultimately show ?thesis using reb [of "2 * ?b"] lt 1 pos by simp
  next
    case 2
    have "?n div ?b \<le> 2" using 2(2) pos less_mult_imp_div_less [of ?n 3 ?b] by simp
    moreover have "0 < ?n div ?b" using 2(1) pos by (simp add: div_greater_zero_iff)
    ultimately have "lh_maybe_resize malloc_ok lh = lh"
      by (auto simp: lh_maybe_resize_def kMaxAverageChainLength_def kMinAverageChainLength_def Let_def)
    then show ?thesis using 2 b depth unfolding lh_load_def by auto
  next
    case 3
    then have "lh_maybe_resize malloc_ok lh = lh"
      by (simp add: lh_maybe_resize_def kMaxAverageChainLength_def kMinAverageChainLength_def Let_def)
    then show ?thesis using 3 depth by (auto simp: lh_load_def intro!: exI [of _ 0])
  next
    case 4
    then obtain j where j: "k = Suc j" using b by (cases k) auto
    then have h: "?b div 2 = kMinNumBuckets * 2 ^ j" using b by simp
    then have "kMinNumBuckets \<le> ?b div 2" by simp
    then have "lh_maybe_resize malloc_ok lh = lh_rebucket malloc_ok lh (?b div 2)"
      using 4 depth by (simp add: lh_maybe_resize_def kMaxAverageChainLength_def kMinAverageChainLength_def Let_def)
    moreover have "\<exists>k. ?b div 2 = kMinNumBuckets * 2 ^ k" using h by blast
    moreover have "?n = ?b - 1" using low 4 by simp
    moreover have "?b div 2 < 2 ^ 61" using lt by simp
    moreover have "?b - 1 < 3 * (?b div 2)" "?b div 2 \<le> ?b - 1" using pos by presburger+
    ultimately show ?thesis using reb [of "?b div 2"] by simp
  qed
qed

lemma lh_insert_load:
  assumes all: "\<forall>n. malloc_ok n" and inv: "lh_inv lh" and load: "lh_load lh" and small: "l_num_items lh + 1 < 2 ^ 59"
    and r: "lh_insert malloc_ok lh d = (r, old, lh')"
  shows "lh_load lh'"
proof (cases "at_ptr lh (snd (get_next_ptr_and_hash lh d))")
  case None
  obtain bs where "lh' = lh_maybe_resize malloc_ok (lh\<lparr>l_buckets := bs, l_num_items := l_num_items lh + 1\<rparr>)" (is "_ = lh_maybe_resize _ ?lh")
    using r None all by (auto simp: lh_insert_def split_beta)
  moreover obtain k where "l_num_buckets lh = kMinNumBuckets * 2 ^ k" using load by (auto simp: lh_load_def)
  then have "lh_load (lh_maybe_resize malloc_ok ?lh)"
    using load small by (intro lh_maybe_resize_load [OF all, where k = k]) (auto simp: lh_load_def)
  ultimately show ?thesis by simp
next
  case (Some x)
  then show ?thesis using r load by (auto simp: lh_insert_def split_beta lh_load_def)
qed

lemma lh_delete_load:
  assumes all: "\<forall>n. malloc_ok n" and inv: "lh_inv lh" and load: "lh_load lh" and small: "l_num_items lh < 2 ^ 59"
    and r: "lh_delete malloc_ok lh d = (old, lh')"
  shows "lh_load lh'"
proof (cases "at_ptr lh (snd (get_next_ptr_and_hash lh d))")
  case (Some x)
  obtain bs where "lh' = lh_maybe_resize malloc_ok (lh\<lparr>l_buckets := bs, l_num_items := l_num_items lh - 1\<rparr>)" (is "_ = lh_maybe_resize _ ?lh")
    using r Some all by (auto simp: lh_delete_def split_beta)
  moreover obtain k where "l_num_buckets lh = kMinNumBuckets * 2 ^ k" using load by (auto simp: lh_load_def)
  then have "lh_load (lh_maybe_resize malloc_ok ?lh)"
    using load small by (intro lh_maybe_resize_load [OF all, where k = k]) (auto simp: lh_load_def)
  ultimately show ?thesis by simp
next
  case None
  then show ?thesis using r load by (simp add: lh_delete_def split_beta)
qed

text \<open>\<open>l_num_items\<close> grows by at most one per step.\<close>

lemma lh_step_load:
  assumes "\<forall>n. malloc_ok n" "lh_inv lh" "lh_load lh" "l_num_items lh + 1 < 2 ^ 59"
  shows "lh_inv (snd (lh_step malloc_ok lh op))" "lh_load (snd (lh_step malloc_ok lh op))"
    "l_num_items (snd (lh_step malloc_ok lh op)) \<le> l_num_items lh + 1"
proof -
  have "lh_inv (snd (lh_step malloc_ok lh op)) \<and> lh_load (snd (lh_step malloc_ok lh op)) \<and>
    l_num_items (snd (lh_step malloc_ok lh op)) \<le> l_num_items lh + 1"
  proof (cases op)
    case (Insert d)
    obtain r old lh' where i: "lh_insert malloc_ok lh d = (r, old, lh')" by (metis prod_cases3)
    show ?thesis
      using lh_insert_ok(3,6) [OF assms(2) i] lh_insert_load [OF assms i] by (simp add: Insert lh_step_def i)
  next
    case (Delete d)
    obtain old lh' where i: "lh_delete malloc_ok lh d = (old, lh')" by fastforce
    show ?thesis
      using lh_delete_ok(2,5) [OF assms(2) i] lh_delete_load [OF assms(1-3) _ i] assms(4) by (simp add: Delete lh_step_def i)
  qed (use assms in \<open>simp add: lh_step_def\<close>)
  then show "lh_inv (snd (lh_step malloc_ok lh op))" "lh_load (snd (lh_step malloc_ok lh op))"
    "l_num_items (snd (lh_step malloc_ok lh op)) \<le> l_num_items lh + 1" by blast+
qed

lemma lh_run_load:
  assumes "\<forall>n. malloc_ok n" "lh_inv lh" "lh_load lh" "l_num_items lh + length ops < 2 ^ 59"
  shows "lh_load (snd (run (lh_step malloc_ok) ops lh))"
  using assms(2-4)
proof (induction ops arbitrary: lh)
  case (Cons op ops)
  have "l_num_items lh + 1 < 2 ^ 59" using Cons.prems(3) by simp
  note st = lh_step_load [OF assms(1) Cons.prems(1,2) this, where op = op]
  have "lh_load (snd (run (lh_step malloc_ok) ops (snd (lh_step malloc_ok lh op))))"
    using st Cons.prems(3) by (intro Cons.IH) simp_all
  then show ?case by (simp add: split_beta)
qed simp

section \<open>The properties\<close>

text \<open>
  C35. From a new table, every sequence of insertions, deletions and lookups returns what it returns on a map up
  to the comparison: each insertion reports the data it replaces, or fails without effect when an item cannot be
  allocated, each deletion the data it removes. The table stays well formed, whatever resizing does and whichever
  of its allocations fail.
\<close>

theorem lhash_refines_map:
  assumes "compatible h c" "lh_new malloc_ok h c = Some lh"
  shows "fst (run (lh_step malloc_ok) ops lh) = fst (run (map_step (\<lambda>x y. c x y = 0) (malloc_ok 24)) ops (\<lambda>_. None)) \<and>
     lh_inv (snd (run (lh_step malloc_ok) ops lh)) \<and>
     lh_retrieve (snd (run (lh_step malloc_ok) ops lh)) = snd (run (map_step (\<lambda>x y. c x y = 0) (malloc_ok 24)) ops (\<lambda>_. None))"
proof -
  note new = lh_new_ok [OF assms]
  have i: "lh_inv lh \<and> l_comp lh = c \<and> l_hash lh = h" and m: "lh_map lh = (\<lambda>_. None)" using new by auto
  have get: "(lh_retrieve :: 'a lhash_st \<Rightarrow> _) = lh_map" by (simp add: fun_eq_iff lh_retrieve_eq)
  show ?thesis using lhash.run_refines [OF i, of malloc_ok ops] m by (simp add: lh_step_def get)
qed

abbreviation bytes_cmp :: "u8 list \<Rightarrow> u8 list \<Rightarrow> int" where
  "bytes_cmp x y \<equiv> (if x = y then 0 else 1)"

lemma compatible_bytes: "compatible OPENSSL_hash32 bytes_cmp"
  by (auto simp: compatible_def intro!: equivpI reflpI sympI transpI split: if_splits)

lemma lhash_refines_map_witness:
  "\<exists>lh. lh_new (\<lambda>_. True) OPENSSL_hash32 bytes_cmp = Some lh \<and>
     fst (run (lh_step (\<lambda>_. True)) [Insert [1], Insert [2], Insert [1], Delete [2], Retrieve [2], Retrieve [1]] lh) =
       [(True, None), (True, None), (True, Some [1]), (True, Some [2]), (True, None), (True, Some [1])]"
proof -
  obtain lh where lh: "lh_new (\<lambda>_. True) OPENSSL_hash32 bytes_cmp = Some lh" by (simp add: lh_new_def)
  show ?thesis using lh lhash_refines_map [OF compatible_bytes lh,
      of "[Insert [1], Insert [2], Insert [1], Delete [2], Retrieve [2], Retrieve [1]]"] by (simp add: Let_def)
qed

text \<open>
  C36. If memory is available, the chains stay short: after any sequence of operations on a new table the number of
  buckets is \<open>kMinNumBuckets\<close> times a power of two, there are less than three items per bucket on average, and at
  least one unless the table has its minimum size.
\<close>

theorem lhash_load_factor:
  assumes "compatible h c" "\<forall>n. malloc_ok n" "lh_new malloc_ok h c = Some lh" "length ops < 2 ^ 59"
  shows "lh_load (snd (run (lh_step malloc_ok) ops lh))"
proof (rule lh_run_load [OF assms(2)])
  note new = lh_new_ok [OF assms(1,3)]
  show "lh_inv lh" "l_num_items lh + length ops < 2 ^ 59" using new assms(4) by simp_all
  have "kMinNumBuckets = kMinNumBuckets * 2 ^ 0" by simp
  then show "lh_load lh" using assms(2,3) by (auto simp: lh_load_def lh_new_def kMinNumBuckets_def intro: exI [of _ 0])
qed

lemma lhash_load_factor_witness:
  "\<exists>lh. lh_new (\<lambda>_. True) OPENSSL_hash32 bytes_cmp = Some lh \<and>
     lh_load (snd (run (lh_step (\<lambda>_. True)) (map (\<lambda>i. Insert (replicate i 1)) [0..<100]) lh))"
proof -
  obtain lh where lh: "lh_new (\<lambda>_. True) OPENSSL_hash32 bytes_cmp = Some lh" by (simp add: lh_new_def)
  then show ?thesis using lhash_load_factor [OF compatible_bytes _ lh] by simp
qed

end
