(* ===== verification/Pb_Stream.thy ===== *)
theory Pb_Stream
  imports Prelude
begin

text \<open>
  The stream layer of \<open>Pods/nanopb\<close>, the protocol buffer library under Firestore: \<open>pb_istream_t\<close> and the scalar
  decoders of \<open>pb_decode.c\<close>, \<open>pb_ostream_t\<close> and the scalar encoders of \<open>pb_encode.c\<close>. A stream's callback is a
  function on the stream's state, which for a buffer is the rest of the input or the output so far; \<open>None\<close> is
  the callback \<open>NULL\<close> of a stream that only counts. \<open>size_t\<close> is a natural number with its wrap-around written out.
\<close>

unbundle bit_operations_syntax

section \<open>Input streams\<close>

record 's pb_istream_t =
  is_callback :: "'s \<Rightarrow> nat \<Rightarrow> u8 list option \<times> 's"
  is_buf :: bool
  is_state :: 's
  is_bytes_left :: nat
  is_errmsg :: "string option"

type_synonym ('s, 'a) pb_dec = "'s pb_istream_t \<Rightarrow> 'a option \<times> 's pb_istream_t"

definition pb_error :: "string \<Rightarrow> ('s, 'a) pb_dec" where
  "pb_error msg s = (None, s\<lparr>is_errmsg := (case is_errmsg s of None \<Rightarrow> Some msg | Some m \<Rightarrow> Some m)\<rparr>)"

definition pb_bind :: "('s, 'a) pb_dec \<Rightarrow> ('a \<Rightarrow> ('s, 'b) pb_dec) \<Rightarrow> ('s, 'b) pb_dec" where
  "pb_bind f g s = (case f s of (None, s) \<Rightarrow> (None, s) | (Some x, s) \<Rightarrow> g x s)"

definition pb_return :: "'a \<Rightarrow> ('s, 'a) pb_dec" where
  "pb_return x s = (Some x, s)"

lemma pb_bind_simps [simp]:
  "f s = (None, t) \<Longrightarrow> pb_bind f g s = (None, t)"
  "f s = (Some x, t) \<Longrightarrow> pb_bind f g s = g x t"
  "pb_return x s = (Some x, s)"
  by (simp_all add: pb_bind_def pb_return_def)

text \<open>The bytes are only used if \<open>buf\<close> is not \<open>NULL\<close>.\<close>

definition buf_read :: "u8 list \<Rightarrow> nat \<Rightarrow> u8 list option \<times> u8 list" where
  "buf_read source count = (Some (take count source), drop count source)"

definition pb_istream_from_buffer :: "u8 list \<Rightarrow> nat \<Rightarrow> u8 list pb_istream_t" where
  "pb_istream_from_buffer buf bufsize =
     \<lparr>is_callback = buf_read, is_buf = True, is_state = buf, is_bytes_left = bufsize, is_errmsg = None\<rparr>"

definition pb_read_direct :: "nat \<Rightarrow> ('s, u8 list) pb_dec" where
  "pb_read_direct count s =
     (if count = 0 then (Some [], s)
      else if is_bytes_left s < count then pb_error ''end-of-stream'' s
      else
        (case is_callback s (is_state s) count of
           (None, st) \<Rightarrow> pb_error ''io error'' (s\<lparr>is_state := st\<rparr>)
         | (Some bs, st) \<Rightarrow> (Some bs, s\<lparr>is_state := st, is_bytes_left := is_bytes_left s - count\<rparr>)))"

text \<open>\<open>buf == NULL\<close> on a stream that is not a buffer reads 16 bytes at a time.\<close>

fun pb_skip_bytes :: "nat \<Rightarrow> ('s, u8 list) pb_dec" where
  "pb_skip_bytes count s =
     (if 16 < count then pb_bind (pb_read_direct 16) (\<lambda>_. pb_skip_bytes (count - 16)) s
      else pb_read_direct count s)"

declare pb_skip_bytes.simps [simp del]

definition pb_read :: "bool \<Rightarrow> nat \<Rightarrow> ('s, u8 list) pb_dec" where
  "pb_read has_buf count s =
     (if count = 0 then (Some [], s)
      else if \<not> has_buf \<and> \<not> is_buf s then pb_skip_bytes count s
      else pb_read_direct count s)"

definition pb_readbyte :: "('s, u8) pb_dec" where
  "pb_readbyte s =
     (if is_bytes_left s = 0 then pb_error ''end-of-stream'' s
      else
        (case is_callback s (is_state s) 1 of
           (None, st) \<Rightarrow> pb_error ''io error'' (s\<lparr>is_state := st\<rparr>)
         | (Some bs, st) \<Rightarrow> (Some (hd bs), s\<lparr>is_state := st, is_bytes_left := is_bytes_left s - 1\<rparr>)))"

lemma pb_readbyte_less: "pb_readbyte s = (Some b, t) \<Longrightarrow> is_bytes_left t < is_bytes_left s"
  by (auto simp: pb_readbyte_def pb_error_def split: if_splits prod.splits option.splits)

section \<open>Varints\<close>

text \<open>
  The loops read until a byte without its top bit. \<open>uint_fast8_t\<close> has eight bits, so \<open>bitpos\<close> wraps around in a
  varint that is long enough.
\<close>

function v32_loop :: "u8 \<Rightarrow> u32 \<Rightarrow> ('s, u32 \<times> u8 \<times> u8) pb_dec" where
  "v32_loop bitpos result s =
     (case pb_readbyte s of
        (None, s) \<Rightarrow> (None, s)
      | (Some byte, s) \<Rightarrow>
          if bitpos \<ge> 32 \<and> byte AND 0x7F \<noteq> 0 \<and>
             (drop_bit 31 result = 0 \<or> byte \<noteq> (if bitpos < 63 then 0xFF else 0x01))
          then pb_error ''varint overflow'' s
          else
            (let result = (if bitpos \<ge> 32 then result else result OR push_bit (unat bitpos) (ucast (byte AND 0x7F)));
                 bitpos = bitpos + 7
             in if byte AND 0x80 \<noteq> 0 then v32_loop bitpos result s else (Some (result, bitpos, byte), s)))"
  by pat_completeness auto
termination by (relation "measure (\<lambda>(_, _, s). is_bytes_left s)") (auto dest!: pb_readbyte_less [OF sym])

declare v32_loop.simps [simp del]

text \<open>The value, whether \<open>*eof\<close> is set to true, and the stream.\<close>

definition pb_decode_varint32_eof :: "'s pb_istream_t \<Rightarrow> (u32 option \<times> bool) \<times> 's pb_istream_t" where
  "pb_decode_varint32_eof s =
     (case pb_readbyte s of
        (None, s) \<Rightarrow> ((None, is_bytes_left s = 0), s)
      | (Some byte, s) \<Rightarrow>
          if byte AND 0x80 = 0 then ((Some (ucast byte), False), s)
          else
            (case v32_loop 7 (ucast (byte AND 0x7F)) s of
               (None, s) \<Rightarrow> ((None, False), s)
             | (Some (result, bitpos, byte), s) \<Rightarrow>
                 if bitpos = 35 \<and> byte AND 0x70 \<noteq> 0
                 then (let (r, s) = pb_error ''varint overflow'' s in ((r, False), s))
                 else ((Some result, False), s)))"

definition pb_decode_varint32 :: "('s, u32) pb_dec" where
  "pb_decode_varint32 s = (let ((v, _), s) = pb_decode_varint32_eof s in (v, s))"

function varint_loop :: "u8 \<Rightarrow> u64 \<Rightarrow> ('s, u64) pb_dec" where
  "varint_loop bitpos result s =
     (if bitpos \<ge> 64 then pb_error ''varint overflow'' s
      else
        (case pb_readbyte s of
           (None, s) \<Rightarrow> (None, s)
         | (Some byte, s) \<Rightarrow>
             let result = result OR push_bit (unat bitpos) (ucast (byte AND 0x7F)); bitpos = bitpos + 7
             in if byte AND 0x80 \<noteq> 0 then varint_loop bitpos result s else (Some result, s)))"
  by pat_completeness auto
termination by (relation "measure (\<lambda>(_, _, s). is_bytes_left s)") (auto dest!: pb_readbyte_less [OF sym])

declare varint_loop.simps [simp del]

definition pb_decode_varint :: "('s, u64) pb_dec" where
  "pb_decode_varint = varint_loop 0 0"

text \<open>An \<open>int64_t\<close> is its word; \<open>sint\<close> reads it.\<close>

definition pb_decode_svarint :: "('s, u64) pb_dec" where
  "pb_decode_svarint = pb_bind pb_decode_varint
     (\<lambda>v. pb_return (if v AND 1 \<noteq> 0 then NOT (drop_bit 1 v) else drop_bit 1 v))"

definition pb_decode_fixed32 :: "('s, u32) pb_dec" where
  "pb_decode_fixed32 = pb_bind (pb_read True 4)
     (\<lambda>b. pb_return (ucast (b ! 0) OR push_bit 8 (ucast (b ! 1)) OR push_bit 16 (ucast (b ! 2)) OR push_bit 24 (ucast (b ! 3))))"

definition pb_decode_fixed64 :: "('s, u64) pb_dec" where
  "pb_decode_fixed64 = pb_bind (pb_read True 8)
     (\<lambda>b. pb_return (ucast (b ! 0) OR push_bit 8 (ucast (b ! 1)) OR push_bit 16 (ucast (b ! 2)) OR push_bit 24 (ucast (b ! 3)) OR
        push_bit 32 (ucast (b ! 4)) OR push_bit 40 (ucast (b ! 5)) OR push_bit 48 (ucast (b ! 6)) OR push_bit 56 (ucast (b ! 7))))"

section \<open>Skipping and substreams\<close>

definition PB_WT_VARINT :: u32 where "PB_WT_VARINT = 0"
definition PB_WT_64BIT :: u32 where "PB_WT_64BIT = 1"
definition PB_WT_STRING :: u32 where "PB_WT_STRING = 2"
definition PB_WT_32BIT :: u32 where "PB_WT_32BIT = 5"

lemmas pb_wt_defs = PB_WT_VARINT_def PB_WT_64BIT_def PB_WT_STRING_def PB_WT_32BIT_def

lemma pb_read_direct_less:
  "pb_read_direct n s = (Some bs, t) \<Longrightarrow> 0 < n \<Longrightarrow> is_bytes_left t < is_bytes_left s"
  by (auto simp: pb_read_direct_def pb_error_def split: if_splits prod.splits option.splits)

function pb_skip_varint :: "('s, unit) pb_dec" where
  "pb_skip_varint s =
     (case pb_read True 1 s of
        (None, s) \<Rightarrow> (None, s)
      | (Some b, s) \<Rightarrow> if hd b AND 0x80 \<noteq> 0 then pb_skip_varint s else (Some (), s))"
  by pat_completeness auto
termination
  by (relation "measure is_bytes_left") (auto simp: pb_read_def dest!: pb_read_direct_less [OF sym])

declare pb_skip_varint.simps [simp del]

definition pb_skip_string :: "('s, unit) pb_dec" where
  "pb_skip_string = pb_bind pb_decode_varint32 (\<lambda>length. pb_bind (pb_read False (unat length)) (\<lambda>_. pb_return ()))"

text \<open>The wire type and the tag, and \<open>*eof\<close>.\<close>

definition pb_decode_tag :: "'s pb_istream_t \<Rightarrow> ((u32 \<times> u32) option \<times> bool) \<times> 's pb_istream_t" where
  "pb_decode_tag s =
     (case pb_decode_varint32_eof s of
        ((None, eof), s) \<Rightarrow> ((None, eof), s)
      | ((Some temp, eof), s) \<Rightarrow>
          if temp = 0 then ((None, True), s) else ((Some (temp AND 7, drop_bit 3 temp), eof), s))"

definition pb_skip_field :: "u32 \<Rightarrow> ('s, unit) pb_dec" where
  "pb_skip_field wire_type =
     (if wire_type = PB_WT_VARINT then pb_skip_varint
      else if wire_type = PB_WT_64BIT then pb_bind (pb_read False 8) (\<lambda>_. pb_return ())
      else if wire_type = PB_WT_STRING then pb_skip_string
      else if wire_type = PB_WT_32BIT then pb_bind (pb_read False 4) (\<lambda>_. pb_return ())
      else pb_error ''invalid wire_type'')"

text \<open>\<open>buf\<close> is the part already read; it never holds more than \<open>max_size\<close> bytes.\<close>

function raw_varint :: "nat \<Rightarrow> u8 list \<Rightarrow> ('s, u8 list) pb_dec" where
  "raw_varint max_size buf s =
     (if length buf + 1 > max_size then (None, s)
      else
        (case pb_read True 1 s of
           (None, s) \<Rightarrow> (None, s)
         | (Some b, s) \<Rightarrow>
             if hd b AND 0x80 \<noteq> 0 then raw_varint max_size (buf @ [hd b]) s else (Some (buf @ [hd b]), s)))"
  by pat_completeness auto
termination
  by (relation "measure (\<lambda>(_, _, s). is_bytes_left s)") (auto simp: pb_read_def dest!: pb_read_direct_less [OF sym])

declare raw_varint.simps [simp del]

definition read_raw_value :: "u32 \<Rightarrow> nat \<Rightarrow> ('s, u8 list) pb_dec" where
  "read_raw_value wire_type max_size =
     (if wire_type = PB_WT_VARINT then raw_varint max_size []
      else if wire_type = PB_WT_64BIT then pb_read True 8
      else if wire_type = PB_WT_32BIT then pb_read True 4
      else pb_error ''invalid wire_type'')"

definition pb_make_string_substream :: "('s, 's pb_istream_t) pb_dec" where
  "pb_make_string_substream = pb_bind pb_decode_varint32 (\<lambda>sz s.
     if is_bytes_left s < unat sz then pb_error ''parent stream too short'' s
     else (Some (s\<lparr>is_bytes_left := unat sz\<rparr>), s\<lparr>is_bytes_left := is_bytes_left s - unat sz\<rparr>))"

definition pb_close_string_substream :: "'s pb_istream_t \<Rightarrow> ('s, unit) pb_dec" where
  "pb_close_string_substream substream s =
     (let (r, substream) = (if is_bytes_left substream \<noteq> 0 then pb_read False (is_bytes_left substream) substream else (Some [], substream))
      in case r of
           None \<Rightarrow> (None, s)
         | Some _ \<Rightarrow> (Some (), s\<lparr>is_state := is_state substream, is_errmsg := is_errmsg substream\<rparr>))"

section \<open>Output streams\<close>

record 's pb_ostream_t =
  os_callback :: "('s \<Rightarrow> u8 list \<Rightarrow> bool \<times> 's) option"
  os_state :: 's
  os_max_size :: nat
  os_bytes_written :: nat
  os_errmsg :: "string option"

type_synonym 's pb_enc = "'s pb_ostream_t \<Rightarrow> bool \<times> 's pb_ostream_t"

definition pb_oerror :: "string \<Rightarrow> 's pb_enc" where
  "pb_oerror msg s = (False, s\<lparr>os_errmsg := (case os_errmsg s of None \<Rightarrow> Some msg | Some m \<Rightarrow> Some m)\<rparr>)"

definition pb_seq :: "'s pb_enc \<Rightarrow> 's pb_enc \<Rightarrow> 's pb_enc" where
  "pb_seq f g s = (let (r, s) = f s in if \<not> r then (False, s) else g s)"

text \<open>The buffer is the list of the bytes written; \<open>pb_write\<close> checks that it has room.\<close>

definition buf_write :: "u8 list \<Rightarrow> u8 list \<Rightarrow> bool \<times> u8 list" where
  "buf_write dest buf = (True, dest @ buf)"

definition pb_ostream_from_buffer :: "nat \<Rightarrow> u8 list pb_ostream_t" where
  "pb_ostream_from_buffer bufsize =
     \<lparr>os_callback = Some buf_write, os_state = [], os_max_size = bufsize, os_bytes_written = 0, os_errmsg = None\<rparr>"

definition PB_OSTREAM_SIZING :: "unit pb_ostream_t" where
  "PB_OSTREAM_SIZING = \<lparr>os_callback = None, os_state = (), os_max_size = 0, os_bytes_written = 0, os_errmsg = None\<rparr>"

definition pb_write :: "u8 list \<Rightarrow> 's pb_enc" where
  "pb_write buf s =
     (let written = (os_bytes_written s + length buf) mod 2 ^ 64
      in case os_callback s of
           None \<Rightarrow> (True, s\<lparr>os_bytes_written := written\<rparr>)
         | Some callback \<Rightarrow>
             if buf = [] then (True, s)
             else if written < os_bytes_written s \<or> written > os_max_size s then pb_oerror ''stream full'' s
             else
               (let (r, st) = callback (os_state s) buf; s = s\<lparr>os_state := st\<rparr>
                in if \<not> r then pb_oerror ''io error'' s else (True, s\<lparr>os_bytes_written := written\<rparr>)))"

function varint_bytes :: "u64 \<Rightarrow> u8 list" where
  "varint_bytes value = (if value = 0 then [] else (ucast (value AND 0x7F) OR 0x80) # varint_bytes (drop_bit 7 value))"
  by pat_completeness auto
termination
  by (relation "measure unat") (auto simp: unat_drop_bit_div word_unat_eq_iff intro!: div_less_dividend)

declare varint_bytes.simps [simp del]

definition varint_buffer :: "u64 \<Rightarrow> u8 list" where
  "varint_buffer value =
     (if value \<le> 0x7F then [ucast value]
      else let buffer = varint_bytes value; i = length buffer in buffer[i - 1 := buffer ! (i - 1) AND 0x7F])"

definition pb_encode_varint :: "u64 \<Rightarrow> 's pb_enc" where
  "pb_encode_varint value = pb_write (varint_buffer value)"

definition zigzag :: "u64 \<Rightarrow> u64" where
  "zigzag value = (if sint value < 0 then NOT (push_bit 1 value) else push_bit 1 value)"

definition pb_encode_svarint :: "u64 \<Rightarrow> 's pb_enc" where
  "pb_encode_svarint value = pb_encode_varint (zigzag value)"

definition fixed32_bytes :: "u32 \<Rightarrow> u8 list" where
  "fixed32_bytes val = map (\<lambda>i. ucast (drop_bit (8 * i) val AND 0xFF)) [0, 1, 2, 3]"

definition pb_encode_fixed32 :: "u32 \<Rightarrow> 's pb_enc" where
  "pb_encode_fixed32 val = pb_write (fixed32_bytes val)"

definition fixed64_bytes :: "u64 \<Rightarrow> u8 list" where
  "fixed64_bytes val = map (\<lambda>i. ucast (drop_bit (8 * i) val AND 0xFF)) [0, 1, 2, 3, 4, 5, 6, 7]"

definition pb_encode_fixed64 :: "u64 \<Rightarrow> 's pb_enc" where
  "pb_encode_fixed64 val = pb_write (fixed64_bytes val)"

definition pb_encode_tag :: "u32 \<Rightarrow> u32 \<Rightarrow> 's pb_enc" where
  "pb_encode_tag wiretype field_number = pb_encode_varint (push_bit 3 (ucast field_number) OR ucast wiretype)"

definition pb_encode_string :: "u8 list \<Rightarrow> 's pb_enc" where
  "pb_encode_string buffer = pb_seq (pb_encode_varint (word_of_nat (length buffer))) (pb_write buffer)"

section \<open>The encoding of numbers\<close>

text \<open>Base 128, least significant digit first, the top bit on every byte but the last.\<close>

function varint_nat :: "nat \<Rightarrow> u8 list" where
  "varint_nat n = (if n < 128 then [word_of_nat n] else word_of_nat (128 + n mod 128) # varint_nat (n div 128))"
  by pat_completeness auto
termination by (relation "measure id") auto

declare varint_nat.simps [simp del]

lemma varint_nat_small: "n < 128 \<Longrightarrow> varint_nat n = [word_of_nat n]"
  by (subst varint_nat.simps) simp

lemma varint_nat_big: "128 \<le> n \<Longrightarrow> varint_nat n = word_of_nat (128 + n mod 128) # varint_nat (n div 128)"
  by (subst varint_nat.simps) simp

lemma varint_nat_Nil [simp]: "varint_nat n \<noteq> []"
  by (subst varint_nat.simps) simp

lemma length_varint_nat: "n < 2 ^ (7 * k) \<Longrightarrow> 0 < k \<Longrightarrow> length (varint_nat n) \<le> k"
proof (induction n arbitrary: k rule: varint_nat.induct)
  case (1 n)
  show ?case
  proof (cases "n < 128")
    case False
    have "1 < k"
    proof (rule ccontr)
      assume "\<not> 1 < k"
      then have "k = 1" using 1(3) by simp
      then show False using 1(2) False by simp
    qed
    moreover have "n div 128 < 2 ^ (7 * (k - 1))"
    proof -
      have "(2::nat) ^ (7 * k) = 2 ^ (7 * (k - 1)) * 128"
        using \<open>1 < k\<close> by (cases k) (simp_all add: power_add)
      then show ?thesis using 1(2) by (simp add: less_mult_imp_div_less)
    qed
    ultimately show ?thesis using 1(1) [OF False, of "k - 1"] False by (simp add: varint_nat_big)
  qed (use 1 in \<open>simp add: varint_nat_small\<close>)
qed

lemma unat_digit: "n < 256 \<Longrightarrow> unat (word_of_nat n :: u8) = n"
  by (simp add: unsigned_of_nat take_bit_nat_eq_self)

lemma varint_bytes_digit: "ucast (v AND 0x7F) OR 0x80 = (word_of_nat (128 + unat v mod 128) :: u8)" for v :: u64
proof -
  have "unat (ucast (v AND 0x7F) :: u8) = unat v mod 128"
    by (simp add: unat_ucast_mod unat_and_7f)
  then have "unat ((0x80 :: u8) OR ucast (v AND 0x7F)) = 128 + unat v mod 128"
    by (subst unat_or_add [of 7]) simp_all
  moreover have "unat (word_of_nat (128 + unat v mod 128) :: u8) = 128 + unat v mod 128" by (rule unat_digit) simp
  ultimately show ?thesis unfolding word_unat_eq_iff by (subst or.commute) (simp only:)
qed

lemma varint_bytes_mask:
  assumes "v \<noteq> 0"
  shows "varint_bytes v \<noteq> [] \<and>
     (varint_bytes v)[length (varint_bytes v) - 1 := varint_bytes v ! (length (varint_bytes v) - 1) AND 0x7F] = varint_nat (unat v)"
  using assms
proof (induction v rule: varint_bytes.induct)
  case (1 v)
  let ?bs = "varint_bytes (drop_bit 7 v)"
  have bs: "varint_bytes v = word_of_nat (128 + unat v mod 128) # ?bs"
    using 1(2) by (subst varint_bytes.simps) (simp add: varint_bytes_digit)
  show ?case
  proof (cases "unat v < 128")
    case True
    then have "drop_bit 7 v = 0" by (simp add: drop_bit_eq_0_iff_less)
    then have "?bs = []" by (subst varint_bytes.simps) simp
    moreover have "(word_of_nat (128 + unat v) :: u8) AND 0x7F = word_of_nat (unat v)"
      using True by (simp only: word_unat_eq_iff unat_and_7f unat_digit [of "128 + unat v"] unat_digit [of "unat v"]) simp
    ultimately show ?thesis using True bs by (simp add: varint_nat_small)
  next
    case False
    then have nz: "drop_bit 7 v \<noteq> 0" by (simp add: drop_bit_eq_0_iff_less)
    from 1(1) [OF 1(2) nz] obtain b bs' where c: "?bs = b # bs'"
      and ih: "(b # bs')[length bs' := (b # bs') ! length bs' AND 0x7F] = varint_nat (unat v div 128)"
      by (cases ?bs) (auto simp: unat_drop_bit_div)
    have "varint_nat (unat v) = word_of_nat (128 + unat v mod 128) # varint_nat (unat v div 128)"
      using False by (intro varint_nat_big) simp
    then show ?thesis unfolding bs c ih [symmetric] by simp
  qed
qed

lemma varint_buffer_eq: "varint_buffer v = varint_nat (unat v)"
proof (cases "v \<le> 0x7F")
  case True
  then have "unat v < 128" by (simp add: word_le_nat_alt)
  then show ?thesis using True by (simp add: varint_buffer_def varint_nat_small word_unat_eq_iff unat_ucast_mod unsigned_of_nat take_bit_eq_mod)
next
  case False
  then have "v \<noteq> 0" by auto
  then show ?thesis using False varint_bytes_mask [of v] by (simp add: varint_buffer_def Let_def)
qed

text \<open>\<open>buffer\<close> has room for ten bytes.\<close>

lemma length_varint_buffer: "length (varint_buffer v) \<le> 10"
proof -
  have "unat v < 2 ^ 64" using unat_less_exp [of v] by simp
  then have "unat v < 2 ^ (7 * 10)" by (rule less_trans) simp
  then show ?thesis unfolding varint_buffer_eq by (rule length_varint_nat) simp
qed

section \<open>Reading from a buffer\<close>

text \<open>A buffer stream whose input is \<open>xs\<close>, and the stream \<open>n\<close> bytes further on.\<close>

definition holds :: "u8 list pb_istream_t \<Rightarrow> u8 list \<Rightarrow> bool" where
  "holds s xs \<longleftrightarrow> is_callback s = buf_read \<and> is_buf s \<and> is_bytes_left s = length xs \<and> take (length xs) (is_state s) = xs"

definition advance :: "nat \<Rightarrow> u8 list pb_istream_t \<Rightarrow> u8 list pb_istream_t" where
  "advance n s = s\<lparr>is_state := drop n (is_state s), is_bytes_left := is_bytes_left s - n\<rparr>"

lemma advance_advance [simp]: "advance m (advance n s) = advance (n + m) s"
  by (simp add: advance_def add.commute)

lemma advance_0 [simp]: "advance 0 s = s"
  by (simp add: advance_def)

lemma advance_errmsg [simp]: "is_errmsg (advance n s) = is_errmsg s"
  by (simp add: advance_def)

lemma holds_from_buffer: "n \<le> length xs \<Longrightarrow> holds (pb_istream_from_buffer xs n) (take n xs)"
  by (simp add: holds_def pb_istream_from_buffer_def min_def)

lemma holds_advance: "holds s (xs @ ys) \<Longrightarrow> holds (advance (length xs) s) ys"
proof -
  assume h: "holds s (xs @ ys)"
  then have t: "take (length (xs @ ys)) (is_state s) = xs @ ys" by (simp only: holds_def)
  have "take (length ys) (drop (length xs) (is_state s)) = drop (length xs) (take (length (xs @ ys)) (is_state s))"
    by (simp only: drop_take length_append add_diff_cancel_left')
  also have "\<dots> = ys" unfolding t by simp
  finally show ?thesis using h by (simp add: holds_def advance_def del: take_drop drop_take)
qed

lemma holds_left: "holds s xs \<Longrightarrow> is_bytes_left s = length xs"
  by (simp add: holds_def)

lemma pb_read_direct_holds:
  assumes "holds s (xs @ ys)"
  shows "pb_read_direct (length xs) s = (Some xs, advance (length xs) s)"
proof -
  have t: "take (length (xs @ ys)) (is_state s) = xs @ ys" using assms by (simp only: holds_def)
  have "take (length xs) (take (length (xs @ ys)) (is_state s)) = xs" unfolding t by simp
  then have "take (length xs) (is_state s) = xs" by (simp add: min_def)
  then show ?thesis using assms by (auto simp: pb_read_direct_def holds_def buf_read_def advance_def)
qed

lemma pb_read_holds:
  assumes "holds s (xs @ ys)"
  shows "pb_read b (length xs) s = (Some xs, advance (length xs) s)"
  using pb_read_direct_holds [OF assms] assms by (cases xs) (auto simp: pb_read_def holds_def)

lemma pb_readbyte_holds:
  assumes "holds s (b # ys)"
  shows "pb_readbyte s = (Some b, advance 1 s)"
  using assms by (cases "is_state s") (auto simp: pb_readbyte_def holds_def buf_read_def advance_def)

lemma holds_advance1: "holds s (b # ys) \<Longrightarrow> holds (advance 1 s) ys"
  using holds_advance [of s "[b]" ys] by simp

lemma pb_readbyte_empty:
  "holds s [] \<Longrightarrow> pb_readbyte s = pb_error ''end-of-stream'' s"
  by (simp add: pb_readbyte_def holds_def)

subsection \<open>Decoding what was encoded\<close>

lemma digit_bits:
  "n < 128 \<Longrightarrow> unat ((word_of_nat (128 + n) :: u8) AND 0x7F) = n" "n < 128 \<Longrightarrow> (word_of_nat (128 + n) :: u8) AND 0x80 \<noteq> 0"
  "n < 128 \<Longrightarrow> unat ((word_of_nat n :: u8) AND 0x7F) = n" "n < 128 \<Longrightarrow> (word_of_nat n :: u8) AND 0x80 = 0"
  by (simp_all only: unat_and_7f and_80_eq_0_iff unat_digit) simp_all

lemma or_digit:
  fixes r :: "'a::len word" and b :: u8
  assumes "8 \<le> LENGTH('a)" "unat r < 2 ^ k" "unat (b AND 0x7F) = d" "d * 2 ^ k < 2 ^ LENGTH('a)"
  shows "unat (r OR push_bit k (ucast (b AND 0x7F))) = unat r + d * 2 ^ k"
proof -
  have "unat (ucast (b AND 0x7F) :: 'a word) = d" using assms(1,3) by simp
  then have "unat (push_bit k (ucast (b AND 0x7F)) OR r) = d * 2 ^ k + unat r"
    using assms(2,4) unat_push_or [of r k "ucast (b AND 0x7F)"] by simp
  then show ?thesis by (simp add: or.commute add.commute)
qed

lemma bitpos_unat: "k \<le> 36 \<Longrightarrow> unat (word_of_nat (7 * k) :: u8) = 7 * k"
  by (intro unat_digit) simp

lemma bitpos_next: "word_of_nat (7 * k) + 7 = (word_of_nat (7 * Suc k) :: u8)"
  by simp

lemma pow7: "n < 2 ^ (7 + m) \<Longrightarrow> n div 128 < (2 :: nat) ^ m"
  by (simp add: power_add less_mult_imp_div_less)

lemma or_digit_eq:
  fixes r :: "'a::len word" and b :: u8
  assumes "8 \<le> LENGTH('a)" "unat r < 2 ^ k" "unat (b AND 0x7F) = d" "d * 2 ^ k < 2 ^ LENGTH('a)"
  shows "r OR push_bit k (ucast (b AND 0x7F)) = r + word_of_nat (d * 2 ^ k)"
proof -
  have "word_of_nat (unat (r OR push_bit k (ucast (b AND 0x7F)))) = r + word_of_nat (d * 2 ^ k)"
    unfolding or_digit [OF assms] by simp
  then show ?thesis by simp
qed

text \<open>One digit: the value grows by it and stays below the next position.\<close>

lemma digit_step:
  fixes k n :: nat
  assumes "n * 2 ^ (7 * k) < 2 ^ L" "r < 2 ^ (7 * k)"
  shows "n mod 128 * 2 ^ (7 * k) < 2 ^ L" "r + n mod 128 * 2 ^ (7 * k) < 2 ^ (7 * Suc k)"
    "n div 128 * 2 ^ (7 * Suc k) < 2 ^ L"
    "n mod 128 * 2 ^ (7 * k) + n div 128 * 2 ^ (7 * Suc k) = n * 2 ^ (7 * k)"
proof -
  have p: "(2::nat) ^ (7 * Suc k) = 128 * 2 ^ (7 * k)" by (simp add: power_add)
  show eq: "n mod 128 * 2 ^ (7 * k) + n div 128 * 2 ^ (7 * Suc k) = n * 2 ^ (7 * k)"
    unfolding p by (metis add.commute add_mult_distrib div_mult_mod_eq mult.assoc)
  show "n mod 128 * 2 ^ (7 * k) < 2 ^ L" "n div 128 * 2 ^ (7 * Suc k) < 2 ^ L"
    using assms(1) unfolding eq [symmetric] by (rule le_less_trans [OF le_add1], rule le_less_trans [OF le_add2])
  have "n mod 128 * 2 ^ (7 * k) \<le> 127 * 2 ^ (7 * k)" by (intro mult_right_mono) (simp_all add: less_Suc_eq_le [symmetric])
  then show "r + n mod 128 * 2 ^ (7 * k) < 2 ^ (7 * Suc k)" unfolding p using assms(2) by linarith
qed

lemma varint_loop_eq:
  assumes "holds s (varint_nat n @ ys)" "k \<le> 9" "n * 2 ^ (7 * k) < 2 ^ 64" "unat r < 2 ^ (7 * k)"
  shows "varint_loop (word_of_nat (7 * k)) r s = (Some (r + word_of_nat (n * 2 ^ (7 * k))), advance (length (varint_nat n)) s)"
  using assms
proof (induction n arbitrary: k r s rule: varint_nat.induct)
  case (1 n)
  have bp: "unat (word_of_nat (7 * k) :: u8) = 7 * k" using 1(3) by (intro bitpos_unat) simp
  then have lt: "\<not> word_of_nat (7 * k) \<ge> (64 :: u8)" using 1(3) by (simp add: word_le_nat_alt)
  note st = digit_step [OF 1(4,5)]
  show ?case
  proof (cases "n < 128")
    case True
    note v = varint_nat_small [OF True]
    have rb: "pb_readbyte s = (Some (word_of_nat n), advance 1 s)" using 1(2) v by (intro pb_readbyte_holds) simp
    have "r OR push_bit (7 * k) (ucast ((word_of_nat n :: u8) AND 0x7F)) = r + word_of_nat (n * 2 ^ (7 * k))"
      using 1(4,5) digit_bits(3) [OF True] by (intro or_digit_eq) simp_all
    then show ?thesis using lt rb bp digit_bits(4) [OF True] by (subst varint_loop.simps) (simp add: v Let_def)
  next
    case False
    then have v: "varint_nat n = word_of_nat (128 + n mod 128) # varint_nat (n div 128)" by (intro varint_nat_big) simp
    let ?b = "word_of_nat (128 + n mod 128) :: u8"
    have h: "holds s (?b # varint_nat (n div 128) @ ys)" using 1(2) v by simp
    note rb = pb_readbyte_holds [OF h]
    have d: "n mod 128 < 128" by simp
    have r: "r OR push_bit (7 * k) (ucast (?b AND 0x7F)) = r + word_of_nat (n mod 128 * 2 ^ (7 * k))"
      using st(1) 1(5) digit_bits(1) [OF d] by (intro or_digit_eq) simp_all
    have r': "unat (r OR push_bit (7 * k) (ucast (?b AND 0x7F))) < 2 ^ (7 * Suc k)"
      using st(1,2) 1(5) or_digit [of r "7 * k" ?b "n mod 128"] digit_bits(1) [OF d] by simp
    have "Suc k \<le> 9"
    proof (rule ccontr)
      assume "\<not> Suc k \<le> 9"
      then have "k = 9" using 1(3) by simp
      then show False using 1(4) False by simp
    qed
    from 1(1) [OF False holds_advance1 [OF h] this st(3) r']
    have "varint_loop (word_of_nat (7 * k) + 7) (r OR push_bit (7 * k) (ucast (?b AND 0x7F))) (advance 1 s) =
        (Some (r + word_of_nat (n * 2 ^ (7 * k))), advance (Suc (length (varint_nat (n div 128)))) s)"
      unfolding bitpos_next r st(4) [symmetric] by (simp add: add.assoc)
    then show ?thesis using lt rb bp digit_bits(2) [OF d] by (subst varint_loop.simps) (simp add: v Let_def)
  qed
qed

lemma pb_decode_varint_eq:
  assumes "holds s (varint_nat (unat v) @ ys)"
  shows "pb_decode_varint s = (Some v, advance (length (varint_nat (unat v))) s)"
  using varint_loop_eq [OF assms, of 0 0] unat_less_exp [of v] by (simp add: pb_decode_varint_def)

lemma high_nibble:
  assumes "unat (b :: u8) < 16"
  shows "b AND 0x70 = 0"
proof -
  have "take_bit 4 b = b" using assms by (simp add: word_unat_eq_iff unsigned_take_bit_eq take_bit_nat_eq_self)
  moreover have "(0x70 :: u8) = push_bit 4 (mask 3)" by (simp add: mask_numeral push_bit_eq_mult)
  moreover have "take_bit 4 b AND push_bit 4 (mask 3) = 0" by (rule bit_word_eqI) (auto simp: bit_simps)
  ultimately show ?thesis by simp
qed

lemma v32_loop_eq:
  assumes "holds s (varint_nat n @ ys)" "k \<le> 4" "n * 2 ^ (7 * k) < 2 ^ 32" "unat r < 2 ^ (7 * k)"
  shows "\<exists>p b. v32_loop (word_of_nat (7 * k)) r s =
     (Some (r + word_of_nat (n * 2 ^ (7 * k)), p, b), advance (length (varint_nat n)) s) \<and> (p = 35 \<longrightarrow> b AND 0x70 = 0)"
  using assms
proof (induction n arbitrary: k r s rule: varint_nat.induct)
  case (1 n)
  have bp: "unat (word_of_nat (7 * k) :: u8) = 7 * k" using 1(3) by (intro bitpos_unat) simp
  then have lt: "\<not> word_of_nat (7 * k) \<ge> (32 :: u8)" using 1(3) by (simp add: word_le_nat_alt)
  note st = digit_step [OF 1(4,5)]
  show ?case
  proof (cases "n < 128")
    case True
    note v = varint_nat_small [OF True]
    have rb: "pb_readbyte s = (Some (word_of_nat n), advance 1 s)" using 1(2) v by (intro pb_readbyte_holds) simp
    have r: "r OR push_bit (7 * k) (ucast ((word_of_nat n :: u8) AND 0x7F)) = r + word_of_nat (n * 2 ^ (7 * k))"
      using 1(4,5) digit_bits(3) [OF True] by (intro or_digit_eq) simp_all
    have "word_of_nat n AND (0x70 :: u8) = 0" if "word_of_nat (7 * k) + 7 = (35 :: u8)"
    proof -
      have "unat (word_of_nat (7 * Suc k) :: u8) = 7 * Suc k" using 1(3) by (intro bitpos_unat) simp
      then have "k = 4" using that unfolding bitpos_next by simp
      then have "n < 16" using 1(4) by simp
      then show ?thesis using high_nibble [of "word_of_nat n"] unat_digit [of n] by simp
    qed
    then show ?thesis using r lt rb bp digit_bits(4) [OF True] by (subst v32_loop.simps) (simp add: v Let_def)
  next
    case False
    then have v: "varint_nat n = word_of_nat (128 + n mod 128) # varint_nat (n div 128)" by (intro varint_nat_big) simp
    let ?b = "word_of_nat (128 + n mod 128) :: u8"
    have h: "holds s (?b # varint_nat (n div 128) @ ys)" using 1(2) v by simp
    note rb = pb_readbyte_holds [OF h]
    have d: "n mod 128 < 128" by simp
    have r: "r OR push_bit (7 * k) (ucast (?b AND 0x7F)) = r + word_of_nat (n mod 128 * 2 ^ (7 * k))"
      using st(1) 1(5) digit_bits(1) [OF d] by (intro or_digit_eq) simp_all
    have r': "unat (r OR push_bit (7 * k) (ucast (?b AND 0x7F))) < 2 ^ (7 * Suc k)"
      using st(1,2) 1(5) or_digit [of r "7 * k" ?b "n mod 128"] digit_bits(1) [OF d] by simp
    have "Suc k \<le> 4"
    proof (rule ccontr)
      assume "\<not> Suc k \<le> 4"
      then have "k = 4" using 1(3) by simp
      then show False using 1(4) False by simp
    qed
    from 1(1) [OF False holds_advance1 [OF h] this st(3) r'] obtain p b where
      "v32_loop (word_of_nat (7 * k) + 7) (r OR push_bit (7 * k) (ucast (?b AND 0x7F))) (advance 1 s) =
        (Some (r + word_of_nat (n * 2 ^ (7 * k)), p, b), advance (Suc (length (varint_nat (n div 128)))) s)"
      and "p = 35 \<longrightarrow> b AND 0x70 = 0"
      unfolding bitpos_next r st(4) [symmetric] by (auto simp: add.assoc)
    then show ?thesis using lt rb bp digit_bits(2) [OF d] by (subst v32_loop.simps) (simp add: v Let_def)
  qed
qed

lemma pb_decode_varint32_eof_eq:
  assumes "holds s (varint_nat n @ ys)" "n < 2 ^ 32"
  shows "pb_decode_varint32_eof s = ((Some (word_of_nat n), False), advance (length (varint_nat n)) s)"
proof (cases "n < 128")
  case True
  note v = varint_nat_small [OF True]
  have rb: "pb_readbyte s = (Some (word_of_nat n), advance 1 s)" using assms(1) v by (intro pb_readbyte_holds) simp
  have "ucast (word_of_nat n :: u8) = (word_of_nat n :: u32)"
    using True by (simp add: word_unat_eq_iff unsigned_of_nat take_bit_nat_eq_self)
  then show ?thesis using rb digit_bits(4) [OF True] by (simp add: pb_decode_varint32_eof_def v)
next
  case False
  then have v: "varint_nat n = word_of_nat (128 + n mod 128) # varint_nat (n div 128)" by (intro varint_nat_big) simp
  let ?b = "word_of_nat (128 + n mod 128) :: u8" and ?r = "ucast ((word_of_nat (128 + n mod 128) :: u8) AND 0x7F) :: u32"
  have h: "holds s (?b # varint_nat (n div 128) @ ys)" using assms(1) v by simp
  note rb = pb_readbyte_holds [OF h]
  have d: "n mod 128 < 128" by simp
  have r: "unat ?r = n mod 128" using digit_bits(1) [OF d] by simp
  have r': "?r = word_of_nat (n mod 128)"
    unfolding word_unat_eq_iff r by (subst unsigned_of_nat, subst take_bit_nat_eq_self) simp_all
  have total: "n div 128 * 2 ^ (7 * 1) < 2 ^ 32" using assms(2) by simp
  have "unat ?r < 2 ^ (7 * 1)" unfolding r by simp
  from v32_loop_eq [OF holds_advance1 [OF h] _ total this] obtain p b where
    loop: "v32_loop 7 ?r (advance 1 s) = (Some (?r + word_of_nat (n div 128 * 128), p, b), advance (length (varint_nat n)) s)"
    "p = 35 \<longrightarrow> b AND 0x70 = 0" by (auto simp: v)
  have "n mod 128 + n div 128 * 128 = n" by simp
  then have "?r + word_of_nat (n div 128 * 128) = word_of_nat n" unfolding r' by (metis of_nat_add)
  then show ?thesis using rb loop digit_bits(2) [OF d] by (auto simp: pb_decode_varint32_eof_def)
qed

lemma pb_decode_varint32_eq:
  "holds s (varint_nat n @ ys) \<Longrightarrow> n < 2 ^ 32 \<Longrightarrow>
     pb_decode_varint32 s = (Some (word_of_nat n), advance (length (varint_nat n)) s)"
  by (simp add: pb_decode_varint32_def pb_decode_varint32_eof_eq)

text \<open>The end of the input is the end of a message.\<close>

lemma pb_decode_tag_eof:
  "holds s [] \<Longrightarrow> fst (pb_decode_tag s) = (None, True)"
  by (simp add: pb_decode_tag_def pb_decode_varint32_eof_def pb_readbyte_empty pb_error_def holds_left)

subsection \<open>Writing to a buffer\<close>

text \<open>\<open>room s n\<close>: a buffer stream with room for \<open>n\<close> bytes more; \<open>wrote bs s\<close>: the stream after \<open>bs\<close>.\<close>

definition room :: "u8 list pb_ostream_t \<Rightarrow> nat \<Rightarrow> bool" where
  "room s n \<longleftrightarrow> os_callback s = Some buf_write \<and> os_bytes_written s + n \<le> os_max_size s \<and> os_max_size s < 2 ^ 64"

definition wrote :: "u8 list \<Rightarrow> u8 list pb_ostream_t \<Rightarrow> u8 list pb_ostream_t" where
  "wrote bs s = s\<lparr>os_state := os_state s @ bs, os_bytes_written := os_bytes_written s + length bs\<rparr>"

lemma wrote_simps [simp]: "wrote bs (wrote as s) = wrote (as @ bs) s" "os_state (wrote bs s) = os_state s @ bs" "wrote [] s = s"
  by (simp_all add: wrote_def)

lemma room_wrote: "room s (length bs + n) \<Longrightarrow> room (wrote bs s) n"
  by (simp add: room_def wrote_def)

lemma pb_write_room:
  assumes "room s (length bs)"
  shows "pb_write bs s = (True, wrote bs s)"
  using assms by (cases "bs = []") (simp_all add: pb_write_def room_def wrote_def buf_write_def)

text \<open>Without room nothing is written.\<close>

lemma pb_write_full:
  assumes "os_callback s = Some buf_write" "os_bytes_written s \<le> os_max_size s" "os_max_size s < 2 ^ 64" "length bs < 2 ^ 64"
    "os_max_size s < os_bytes_written s + length bs"
  shows "pb_write bs s = pb_oerror ''stream full'' s"
proof -
  have "(os_bytes_written s + length bs) mod 2 ^ 64 < os_bytes_written s \<or> (os_bytes_written s + length bs) mod 2 ^ 64 > os_max_size s"
  proof (cases "os_bytes_written s + length bs < 2 ^ 64")
    case False
    then have "(os_bytes_written s + length bs) mod 2 ^ 64 = os_bytes_written s + length bs - 2 ^ 64"
      using assms by (simp add: le_mod_geq)
    then show ?thesis using assms(4) False by linarith
  qed (use assms in simp)
  then show ?thesis using assms by (auto simp: pb_write_def Let_def)
qed

text \<open>A stream without a callback counts.\<close>

lemma pb_write_sizing:
  "os_callback s = None \<Longrightarrow> pb_write bs s = (True, s\<lparr>os_bytes_written := (os_bytes_written s + length bs) mod 2 ^ 64\<rparr>)"
  by (simp add: pb_write_def)

subsection \<open>Scalars\<close>

lemma bit_shl1: "bit (push_bit 1 v) n \<longleftrightarrow> n \<noteq> 0 \<and> n < 64 \<and> bit v (n - 1)" for v :: u64
  unfolding bit_push_bit_iff by (cases n) (auto simp: possible_bit_def dest: bit_imp_le_length)

lemma and_1_bit: "w AND 1 \<noteq> 0 \<longleftrightarrow> bit w 0" for w :: "'a::len word"
  by (simp add: and_one_eq bit_0 odd_iff_mod_2_eq_one)

lemma zigzag_inverse: "(if zigzag v AND 1 \<noteq> 0 then NOT (drop_bit 1 (zigzag v)) else drop_bit 1 (zigzag v)) = v"
proof (cases "sint v < 0")
  case True
  then have b: "bit v 63" using bit_last_iff [of v] by simp
  have z: "zigzag v = NOT (push_bit 1 v)" using True by (simp only: zigzag_def if_True)
  have "bit (zigzag v) 0" unfolding z bit_not_iff bit_shl1 by simp
  moreover have "NOT (drop_bit 1 (zigzag v)) = v"
  proof (rule bit_word_eqI)
    fix n assume "n < LENGTH(64)"
    then show "bit (NOT (drop_bit 1 (zigzag v))) n \<longleftrightarrow> bit v n"
      unfolding z bit_not_iff bit_drop_bit_eq comp_def bit_shl1 using b by (cases "n = 63") auto
  qed
  ultimately show ?thesis unfolding and_1_bit by simp
next
  case False
  then have b: "\<not> bit v 63" using bit_last_iff [of v] by simp
  have z: "zigzag v = push_bit 1 v" using False by (simp only: zigzag_def if_False)
  have "\<not> bit (zigzag v) 0" unfolding z bit_shl1 by simp
  moreover have "drop_bit 1 (zigzag v) = v"
  proof (rule bit_word_eqI)
    fix n assume "n < LENGTH(64)"
    then show "bit (drop_bit 1 (zigzag v)) n \<longleftrightarrow> bit v n"
      unfolding z bit_drop_bit_eq comp_def bit_shl1 using b by (cases "n = 63") auto
  qed
  ultimately show ?thesis unfolding and_1_bit by simp
qed

lemma pb_decode_svarint_eq:
  assumes "holds s (varint_nat (unat (zigzag v)) @ ys)"
  shows "pb_decode_svarint s = (Some v, advance (length (varint_nat (unat (zigzag v)))) s)"
  by (simp only: pb_decode_svarint_def pb_bind_def pb_return_def pb_decode_varint_eq [OF assms] prod.case option.case zigzag_inverse)

lemma ucast_byte: "ucast (ucast (w AND 0xFF) :: u8) = take_bit 8 w" if "8 \<le> LENGTH('a)" for w :: "'a::len word"
proof -
  have "w AND 0xFF = take_bit 8 w" by (simp add: take_bit_eq_mask mask_numeral)
  then show ?thesis using that by (auto intro!: bit_word_eqI simp: bit_simps)
qed

lemma or_bytes: "take_bit n w OR push_bit n (take_bit m (drop_bit n w)) = take_bit (n + m) w" for w :: "'a::len word"
  by (rule bit_word_eqI) (auto simp: bit_simps)

lemma fixed32_inverse:
  "ucast (fixed32_bytes v ! 0) OR push_bit 8 (ucast (fixed32_bytes v ! 1)) OR push_bit 16 (ucast (fixed32_bytes v ! 2)) OR
     push_bit 24 (ucast (fixed32_bytes v ! 3)) = v"
proof -
  have b8: "take_bit 16 v = take_bit 8 v OR push_bit 8 (take_bit 8 (drop_bit 8 v))" using or_bytes [of 8 v 8] by simp
  have b16: "take_bit 24 v = take_bit 16 v OR push_bit 16 (take_bit 8 (drop_bit 16 v))" using or_bytes [of 16 v 8] by simp
  have b24: "take_bit 32 v = take_bit 24 v OR push_bit 24 (take_bit 8 (drop_bit 24 v))" using or_bytes [of 24 v 8] by simp
  have "take_bit 32 v = v" by (rule bit_word_eqI) (simp add: bit_simps)
  then have "take_bit 8 v OR push_bit 8 (take_bit 8 (drop_bit 8 v)) OR push_bit 16 (take_bit 8 (drop_bit 16 v)) OR
      push_bit 24 (take_bit 8 (drop_bit 24 v)) = v"
    using b8 b16 b24 by (simp only: or.assoc)
  then show ?thesis by (simp add: fixed32_bytes_def ucast_byte)
qed

lemma fixed64_inverse:
  "ucast (fixed64_bytes v ! 0) OR push_bit 8 (ucast (fixed64_bytes v ! 1)) OR push_bit 16 (ucast (fixed64_bytes v ! 2)) OR
     push_bit 24 (ucast (fixed64_bytes v ! 3)) OR push_bit 32 (ucast (fixed64_bytes v ! 4)) OR
     push_bit 40 (ucast (fixed64_bytes v ! 5)) OR push_bit 48 (ucast (fixed64_bytes v ! 6)) OR
     push_bit 56 (ucast (fixed64_bytes v ! 7)) = v"
proof -
  have b8: "take_bit 16 v = take_bit 8 v OR push_bit 8 (take_bit 8 (drop_bit 8 v))" using or_bytes [of 8 v 8] by simp
  have b16: "take_bit 24 v = take_bit 16 v OR push_bit 16 (take_bit 8 (drop_bit 16 v))" using or_bytes [of 16 v 8] by simp
  have b24: "take_bit 32 v = take_bit 24 v OR push_bit 24 (take_bit 8 (drop_bit 24 v))" using or_bytes [of 24 v 8] by simp
  have b32: "take_bit 40 v = take_bit 32 v OR push_bit 32 (take_bit 8 (drop_bit 32 v))" using or_bytes [of 32 v 8] by simp
  have b40: "take_bit 48 v = take_bit 40 v OR push_bit 40 (take_bit 8 (drop_bit 40 v))" using or_bytes [of 40 v 8] by simp
  have b48: "take_bit 56 v = take_bit 48 v OR push_bit 48 (take_bit 8 (drop_bit 48 v))" using or_bytes [of 48 v 8] by simp
  have b56: "take_bit 64 v = take_bit 56 v OR push_bit 56 (take_bit 8 (drop_bit 56 v))" using or_bytes [of 56 v 8] by simp
  have "take_bit 64 v = v" by (rule bit_word_eqI) (simp add: bit_simps)
  then have "take_bit 8 v OR push_bit 8 (take_bit 8 (drop_bit 8 v)) OR push_bit 16 (take_bit 8 (drop_bit 16 v)) OR
      push_bit 24 (take_bit 8 (drop_bit 24 v)) OR push_bit 32 (take_bit 8 (drop_bit 32 v)) OR
      push_bit 40 (take_bit 8 (drop_bit 40 v)) OR push_bit 48 (take_bit 8 (drop_bit 48 v)) OR
      push_bit 56 (take_bit 8 (drop_bit 56 v)) = v"
    using b8 b16 b24 b32 b40 b48 b56 by (simp only: or.assoc)
  then show ?thesis by (simp add: fixed64_bytes_def ucast_byte)
qed

lemma length_fixed_bytes [simp]: "length (fixed32_bytes v) = 4" "length (fixed64_bytes w) = 8"
  by (simp_all add: fixed32_bytes_def fixed64_bytes_def)

lemma pb_decode_fixed_eq:
  "holds s (fixed32_bytes v @ ys) \<Longrightarrow> pb_decode_fixed32 s = (Some v, advance 4 s)"
  "holds s (fixed64_bytes w @ ys) \<Longrightarrow> pb_decode_fixed64 s = (Some w, advance 8 s)"
proof -
  assume "holds s (fixed32_bytes v @ ys)"
  from pb_read_holds [OF this, of True] show "pb_decode_fixed32 s = (Some v, advance 4 s)"
    by (simp only: pb_decode_fixed32_def pb_bind_def pb_return_def length_fixed_bytes prod.case option.case fixed32_inverse)
next
  assume "holds s (fixed64_bytes w @ ys)"
  from pb_read_holds [OF this, of True] show "pb_decode_fixed64 s = (Some w, advance 8 s)"
    by (simp only: pb_decode_fixed64_def pb_bind_def pb_return_def length_fixed_bytes prod.case option.case fixed64_inverse)
qed

subsection \<open>Fields\<close>

text \<open>
  The vocabulary of the round trip, which is not code: the kinds of scalar, each with the wire type it is written
  under, and the encoder and the decoder that belong together. Which kind a field has is known to its reader and not
  part of the input: signed numbers share the wire type of the unsigned ones.
\<close>

datatype wire_value = WVarint u64 | WSVarint u64 | WFixed64 u64 | WString "u8 list" | WFixed32 u32

datatype value_kind = KVarint | KSVarint | KFixed64 | KString | KFixed32

fun kind_of :: "wire_value \<Rightarrow> value_kind" where
  "kind_of (WVarint v) = KVarint"
| "kind_of (WSVarint v) = KSVarint"
| "kind_of (WFixed64 v) = KFixed64"
| "kind_of (WString bs) = KString"
| "kind_of (WFixed32 v) = KFixed32"

fun wire_type_of :: "wire_value \<Rightarrow> u32" where
  "wire_type_of (WVarint v) = PB_WT_VARINT"
| "wire_type_of (WSVarint v) = PB_WT_VARINT"
| "wire_type_of (WFixed64 v) = PB_WT_64BIT"
| "wire_type_of (WString bs) = PB_WT_STRING"
| "wire_type_of (WFixed32 v) = PB_WT_32BIT"

fun encode_value :: "wire_value \<Rightarrow> 's pb_enc" where
  "encode_value (WVarint v) = pb_encode_varint v"
| "encode_value (WSVarint v) = pb_encode_svarint v"
| "encode_value (WFixed64 v) = pb_encode_fixed64 v"
| "encode_value (WString bs) = pb_encode_string bs"
| "encode_value (WFixed32 v) = pb_encode_fixed32 v"

definition decode_string :: "('s, u8 list) pb_dec" where
  "decode_string = pb_bind pb_make_string_substream (\<lambda>sub s.
     case pb_read True (is_bytes_left sub) sub of
       (None, sub) \<Rightarrow> (None, s)
     | (Some bs, sub) \<Rightarrow> pb_bind (pb_close_string_substream sub) (\<lambda>_. pb_return bs) s)"

fun decode_value :: "value_kind \<Rightarrow> ('s, wire_value) pb_dec" where
  "decode_value KVarint = pb_bind pb_decode_varint (\<lambda>v. pb_return (WVarint v))"
| "decode_value KSVarint = pb_bind pb_decode_svarint (\<lambda>v. pb_return (WSVarint v))"
| "decode_value KFixed64 = pb_bind pb_decode_fixed64 (\<lambda>v. pb_return (WFixed64 v))"
| "decode_value KString = pb_bind decode_string (\<lambda>v. pb_return (WString v))"
| "decode_value KFixed32 = pb_bind pb_decode_fixed32 (\<lambda>v. pb_return (WFixed32 v))"

fun value_bytes :: "wire_value \<Rightarrow> u8 list" where
  "value_bytes (WVarint v) = varint_nat (unat v)"
| "value_bytes (WSVarint v) = varint_nat (unat (zigzag v))"
| "value_bytes (WFixed64 v) = fixed64_bytes v"
| "value_bytes (WString bs) = varint_nat (length bs) @ bs"
| "value_bytes (WFixed32 v) = fixed32_bytes v"

fun value_ok :: "wire_value \<Rightarrow> bool" where
  "value_ok (WString bs) \<longleftrightarrow> length bs < 2 ^ 32"
| "value_ok _ \<longleftrightarrow> True"

definition tag_bytes :: "u32 \<Rightarrow> u32 \<Rightarrow> u8 list" where
  "tag_bytes wt fn = varint_nat (unat fn * 8 + unat wt)"

lemma pb_write_True:
  assumes "os_callback s = Some buf_write" "pb_write bs s = (True, t)"
  shows "os_callback t = Some buf_write" "os_state t = os_state s @ bs"
  using assms by (auto simp: pb_write_def buf_write_def pb_oerror_def Let_def split: if_splits)

lemma pb_seq_True:
  assumes "pb_seq f g s = (True, t)"
  obtains u where "f s = (True, u)" "g u = (True, t)"
  using assms by (auto simp: pb_seq_def split: prod.splits if_splits)

lemma encode_value_True:
  assumes "os_callback s = Some buf_write" "encode_value v s = (True, t)" "value_ok v"
  shows "os_callback t = Some buf_write" "os_state t = os_state s @ value_bytes v"
proof -
  have "os_callback t = Some buf_write \<and> os_state t = os_state s @ value_bytes v"
  proof (cases v)
    case (WString bs)
    then obtain u where u: "pb_encode_varint (word_of_nat (length bs)) s = (True, u)" "pb_write bs u = (True, t)"
      using assms(2) by (auto simp: pb_encode_string_def elim: pb_seq_True)
    have "unat (word_of_nat (length bs) :: u64) = length bs"
      using assms(3) WString by (simp add: unsigned_of_nat take_bit_nat_eq_self)
    then have "os_callback u = Some buf_write" "os_state u = os_state s @ varint_nat (length bs)"
      using pb_write_True [OF assms(1)] u(1) by (simp_all add: pb_encode_varint_def varint_buffer_eq)
    with pb_write_True [OF this(1) u(2)] WString show ?thesis by simp
  qed (use pb_write_True [OF assms(1)] assms(2) in
    \<open>simp_all add: pb_encode_svarint_def pb_encode_varint_def varint_buffer_eq pb_encode_fixed64_def pb_encode_fixed32_def\<close>)
  then show "os_callback t = Some buf_write" "os_state t = os_state s @ value_bytes v" by blast+
qed

lemma tag_value: "unat wt < 8 \<Longrightarrow> unat (push_bit 3 (ucast fn) OR ucast wt :: u64) = unat fn * 8 + unat wt" for wt fn :: u32
  using unat_push_or [of "ucast wt :: u64" 3 "ucast fn"] unat_less_exp [of fn] by simp

lemma wire_type_less: "unat (wire_type_of v) < 8"
  by (cases v) (simp_all add: pb_wt_defs)

lemma encode_tag_True:
  assumes "os_callback s = Some buf_write" "pb_encode_tag wt fn s = (True, t)" "unat wt < 8"
  shows "os_callback t = Some buf_write" "os_state t = os_state s @ tag_bytes wt fn"
  using pb_write_True [OF assms(1)] assms(2,3)
  by (simp_all add: pb_encode_tag_def pb_encode_varint_def varint_buffer_eq tag_bytes_def tag_value)

lemma room_less: "room s n \<Longrightarrow> m \<le> n \<Longrightarrow> room s m"
  by (simp add: room_def)

lemma encode_value_room:
  assumes "value_ok v" "room s (length (value_bytes v))"
  shows "encode_value v s = (True, wrote (value_bytes v) s)"
proof (cases v)
  case (WString bs)
  have u: "unat (word_of_nat (length bs) :: u64) = length bs"
    using assms(1) WString unfolding unsigned_of_nat by (subst take_bit_nat_eq_self) simp_all
  have r: "room s (length (varint_nat (length bs)) + length bs)" using assms(2) WString by simp
  then show ?thesis using WString u pb_write_room [OF room_less [OF r]] pb_write_room [OF room_wrote [OF r]]
    by (simp add: pb_encode_string_def pb_seq_def pb_encode_varint_def varint_buffer_eq)
qed (use assms(2) pb_write_room in
  \<open>simp_all add: pb_encode_svarint_def pb_encode_varint_def varint_buffer_eq pb_encode_fixed64_def pb_encode_fixed32_def\<close>)

text \<open>A field is written if there is room for it.\<close>

lemma encode_field_room:
  assumes "value_ok v" "room s (length (tag_bytes (wire_type_of v) fn) + length (value_bytes v))"
  shows "pb_seq (pb_encode_tag (wire_type_of v) fn) (encode_value v) s = (True, wrote (tag_bytes (wire_type_of v) fn @ value_bytes v) s)"
proof -
  have "pb_encode_tag (wire_type_of v) fn s = (True, wrote (tag_bytes (wire_type_of v) fn) s)"
    using pb_write_room [OF room_less [OF assms(2)], of "tag_bytes (wire_type_of v) fn"]
    by (simp add: pb_encode_tag_def pb_encode_varint_def varint_buffer_eq tag_value wire_type_less tag_bytes_def)
  then show ?thesis using encode_value_room [OF assms(1) room_wrote [OF assms(2)]] by (simp add: pb_seq_def)
qed

lemma pb_decode_tag_eq:
  assumes "holds s (tag_bytes wt fn @ ys)" "unat wt < 8" "0 < unat fn" "unat fn < 2 ^ 29"
  shows "pb_decode_tag s = ((Some (wt, fn), False), advance (length (tag_bytes wt fn)) s)"
proof -
  let ?n = "unat fn * 8 + unat wt" and ?w = "word_of_nat (unat fn * 8 + unat wt) :: u32"
  have lt: "?n < 2 ^ 32" using assms(2,4) by simp
  then have u: "unat ?w = ?n" unfolding unsigned_of_nat by (subst take_bit_nat_eq_self) simp_all
  have "?w AND 7 = take_bit 3 ?w" by (simp add: take_bit_eq_mask mask_numeral)
  then have "unat (?w AND 7) = ?n mod 8" using u by (simp only: unsigned_take_bit_eq) (simp add: take_bit_eq_mod)
  then have "?w AND 7 = wt" using assms(2) by (simp add: word_unat_eq_iff)
  moreover have "unat (drop_bit 3 ?w) = unat fn" using u assms(2) by (simp only: unat_drop_bit_div) simp
  then have "drop_bit 3 ?w = fn" by (simp add: word_unat_eq_iff)
  moreover have "?w \<noteq> 0" using u assms(3) by (metis add_is_0 mult_is_0 not_less_zero unsigned_0 zero_neq_numeral)
  ultimately show ?thesis
    using pb_decode_varint32_eof_eq [OF assms(1) [unfolded tag_bytes_def] lt] by (simp add: pb_decode_tag_def tag_bytes_def)
qed

lemma string_substream:
  assumes "holds s (varint_nat (length bs) @ bs @ ys)" "length bs < 2 ^ 32"
  defines "t \<equiv> advance (length (varint_nat (length bs))) s"
  shows "pb_make_string_substream s =
     (Some (t\<lparr>is_bytes_left := length bs\<rparr>), t\<lparr>is_bytes_left := is_bytes_left t - length bs\<rparr>)"
    "holds (t\<lparr>is_bytes_left := length bs\<rparr>) bs"
proof -
  have h: "holds t (bs @ ys)" unfolding t_def by (rule holds_advance [OF assms(1)])
  have u: "unat (word_of_nat (length bs) :: u32) = length bs"
    using assms(2) unfolding unsigned_of_nat by (subst take_bit_nat_eq_self) simp_all
  show "pb_make_string_substream s =
     (Some (t\<lparr>is_bytes_left := length bs\<rparr>), t\<lparr>is_bytes_left := is_bytes_left t - length bs\<rparr>)"
    using holds_left [OF h] pb_decode_varint32_eq [OF assms(1,2)] u
    by (simp add: pb_make_string_substream_def pb_bind_def t_def [symmetric])
  show "holds (t\<lparr>is_bytes_left := length bs\<rparr>) bs"
    using h pb_read_direct_holds [OF h] by (auto simp: holds_def dest: arg_cong [of _ _ "take (length bs)"])
qed

lemma decode_string_eq:
  assumes "holds s (varint_nat (length bs) @ bs @ ys)" "length bs < 2 ^ 32"
  shows "decode_string s = (Some bs, advance (length (varint_nat (length bs)) + length bs) s)"
proof -
  let ?t = "advance (length (varint_nat (length bs))) s"
  let ?sub = "?t\<lparr>is_bytes_left := length bs\<rparr>"
  note sub = string_substream [OF assms]
  have "pb_read True (length bs) ?sub = (Some bs, advance (length bs) ?sub)"
    using pb_read_holds [of ?sub bs "[]"] sub(2) by simp
  then show ?thesis using sub(1)
    by (simp add: decode_string_def pb_bind_def pb_return_def pb_close_string_substream_def advance_def add.commute)
qed

lemma decode_value_eq:
  assumes "holds s (value_bytes v @ ys)" "value_ok v"
  shows "decode_value (kind_of v) s = (Some v, advance (length (value_bytes v)) s)"
proof (cases v)
  case (WVarint w)
  then show ?thesis using assms(1) pb_decode_varint_eq [of s w ys] by (simp add: pb_bind_def pb_return_def)
next
  case (WSVarint w)
  then show ?thesis using assms(1) pb_decode_svarint_eq [of s w ys] by (simp add: pb_bind_def pb_return_def)
next
  case (WFixed64 w)
  then show ?thesis using assms(1) pb_decode_fixed_eq(2) [of s w ys] by (simp add: pb_bind_def pb_return_def)
next
  case (WString bs)
  then show ?thesis using assms decode_string_eq [of s bs ys] by (simp add: pb_bind_def pb_return_def)
next
  case (WFixed32 w)
  then show ?thesis using assms(1) pb_decode_fixed_eq(1) [of s w ys] by (simp add: pb_bind_def pb_return_def)
qed

lemma pb_skip_varint_eq:
  assumes "holds s (varint_nat n @ ys)"
  shows "pb_skip_varint s = (Some (), advance (length (varint_nat n)) s)"
  using assms
proof (induction n arbitrary: s rule: varint_nat.induct)
  case (1 n)
  show ?case
  proof (cases "n < 128")
    case True
    have "pb_read True 1 s = (Some [word_of_nat n], advance 1 s)"
      using pb_read_holds [of s "[word_of_nat n]" ys] 1(2) varint_nat_small [OF True] by simp
    then show ?thesis using digit_bits(4) [OF True] by (subst pb_skip_varint.simps) (simp add: varint_nat_small [OF True])
  next
    case False
    then have v: "varint_nat n = word_of_nat (128 + n mod 128) # varint_nat (n div 128)" by (intro varint_nat_big) simp
    let ?b = "word_of_nat (128 + n mod 128) :: u8"
    have h: "holds s (?b # varint_nat (n div 128) @ ys)" using 1(2) v by simp
    have "pb_read True 1 s = (Some [?b], advance 1 s)" using pb_read_holds [of s "[?b]"] h by simp
    moreover have "n mod 128 < 128" by simp
    ultimately show ?thesis using 1(1) [OF False holds_advance1 [OF h]] digit_bits(2) [of "n mod 128"]
      by (subst pb_skip_varint.simps) (simp add: v)
  qed
qed

lemma pb_skip_field_eq:
  assumes "holds s (value_bytes v @ ys)" "value_ok v"
  shows "pb_skip_field (wire_type_of v) s = (Some (), advance (length (value_bytes v)) s)"
proof (cases v)
  case (WVarint w)
  then show ?thesis using assms(1) pb_skip_varint_eq [of s "unat w" ys] by (simp add: pb_skip_field_def)
next
  case (WSVarint w)
  then show ?thesis using assms(1) pb_skip_varint_eq [of s "unat (zigzag w)" ys] by (simp add: pb_skip_field_def)
next
  case (WFixed64 w)
  then show ?thesis using assms(1) pb_read_holds [of s "fixed64_bytes w" ys False]
    by (simp add: pb_skip_field_def pb_bind_def pb_return_def pb_wt_defs)
next
  case (WString bs)
  have u: "unat (word_of_nat (length bs) :: u32) = length bs"
    using assms(2) WString unfolding unsigned_of_nat by (subst take_bit_nat_eq_self) simp_all
  have "holds (advance (length (varint_nat (length bs))) s) (bs @ ys)"
    using assms(1) WString by (intro holds_advance) simp
  from pb_read_holds [OF this, of False] show ?thesis
    using assms WString u pb_decode_varint32_eq [of s "length bs" "bs @ ys"]
    by (simp add: pb_skip_field_def pb_skip_string_def pb_bind_def pb_return_def pb_wt_defs)
next
  case (WFixed32 w)
  then show ?thesis using assms(1) pb_read_holds [of s "fixed32_bytes w" ys False]
    by (simp add: pb_skip_field_def pb_bind_def pb_return_def pb_wt_defs)
qed

section \<open>Untrusted input\<close>

text \<open>The stream after an operation on any input: some bytes further on, within what was left.\<close>

definition within :: "u8 list pb_istream_t \<Rightarrow> u8 list pb_istream_t \<Rightarrow> bool" where
  "within s t \<longleftrightarrow> is_callback t = is_callback s \<and> is_buf t = is_buf s \<and>
     (\<exists>n \<le> is_bytes_left s. is_state t = drop n (is_state s) \<and> is_bytes_left t = is_bytes_left s - n)"

lemma within_refl: "within s s"
  by (auto simp: within_def intro: exI [of _ 0])

lemma within_trans:
  assumes "within s t" "within t u"
  shows "within s u"
proof -
  obtain n m where "n \<le> is_bytes_left s" "is_state t = drop n (is_state s)" "is_bytes_left t = is_bytes_left s - n"
    "m \<le> is_bytes_left t" "is_state u = drop m (is_state t)" "is_bytes_left u = is_bytes_left t - m"
    using assms unfolding within_def by blast
  then show ?thesis using assms by (auto simp: within_def add.commute intro!: exI [of _ "n + m"])
qed

lemma within_error: "within s t \<Longrightarrow> within s (snd (pb_error msg t))"
  by (simp add: pb_error_def within_def)

definition on_buffer :: "u8 list pb_istream_t \<Rightarrow> bool" where
  "on_buffer s \<longleftrightarrow> is_callback s = buf_read \<and> is_buf s"

lemma within_on_buffer: "within s t \<Longrightarrow> on_buffer s \<Longrightarrow> on_buffer t"
  by (simp add: within_def on_buffer_def)

lemma pb_read_direct_within: "on_buffer s \<Longrightarrow> within s (snd (pb_read_direct n s))"
  by (auto simp: pb_read_direct_def on_buffer_def buf_read_def pb_error_def within_def intro: exI [of _ 0] exI [of _ n])

lemma pb_read_within: "on_buffer s \<Longrightarrow> within s (snd (pb_read b n s))"
  using pb_read_direct_within [of s n] by (auto simp: pb_read_def within_refl on_buffer_def)

lemma pb_readbyte_within: "on_buffer s \<Longrightarrow> within s (snd (pb_readbyte s))"
  by (auto simp: pb_readbyte_def on_buffer_def buf_read_def pb_error_def within_def intro: exI [of _ 0] exI [of _ 1])

lemma pb_bind_within:
  assumes "on_buffer s" "within s (snd (f s))" "\<And>x t. on_buffer t \<Longrightarrow> within t (snd (g x t))"
  shows "within s (snd (pb_bind f g s))"
proof (cases "f s")
  case (Pair r t)
  then have w: "within s t" using assms(2) by simp
  note g = within_trans [OF w assms(3) [OF within_on_buffer [OF w assms(1)]]]
  show ?thesis using Pair w g by (cases r) (simp_all add: pb_bind_def)
qed

lemma pb_return_within [simp]: "within s (snd (pb_return x s))"
  by (simp add: pb_return_def within_refl)

lemma v32_loop_within: "on_buffer s \<Longrightarrow> within s (snd (v32_loop p r s))"
proof (induction p r s rule: v32_loop.induct)
  case (1 p r s)
  show ?case
  proof (cases "pb_readbyte s")
    case (Pair b t)
    have w: "within s t" using pb_readbyte_within [OF 1(2)] Pair by simp
    note e = within_error [OF w] and trans = within_trans [OF w]
    show ?thesis using 1(1) [OF Pair [symmetric]] within_on_buffer [OF w 1(2)] w e trans Pair
      by (subst v32_loop.simps) (auto simp: Let_def split: option.splits)
  qed
qed

lemma varint_loop_within: "on_buffer s \<Longrightarrow> within s (snd (varint_loop p r s))"
proof (induction p r s rule: varint_loop.induct)
  case (1 p r s)
  show ?case
  proof (cases "pb_readbyte s")
    case (Pair b t)
    have w: "within s t" using pb_readbyte_within [OF 1(2)] Pair by simp
    note e = within_error [OF within_refl [of s]] and trans = within_trans [OF w]
    show ?thesis using 1(1) [OF _ Pair [symmetric]] within_on_buffer [OF w 1(2)] w e trans Pair
      by (subst varint_loop.simps) (auto simp: Let_def split: option.splits)
  qed
qed

lemma pb_skip_varint_within: "on_buffer s \<Longrightarrow> within s (snd (pb_skip_varint s))"
proof (induction s rule: pb_skip_varint.induct)
  case (1 s)
  show ?case
  proof (cases "pb_read True 1 s")
    case (Pair b t)
    have w: "within s t" using pb_read_within [OF 1(2), of True 1] Pair by simp
    show ?thesis using 1(1) [OF Pair [symmetric]] within_on_buffer [OF w 1(2)] w within_trans [OF w] Pair
      by (subst pb_skip_varint.simps) (auto split: option.splits)
  qed
qed

lemma pb_decode_varint32_eof_within:
  assumes "on_buffer s"
  shows "within s (snd (pb_decode_varint32_eof s))"
proof (cases "pb_readbyte s")
  case (Pair b t)
  have w: "within s t" using pb_readbyte_within [OF assms] Pair by simp
  obtain v u where l: "v32_loop 7 (ucast (the b AND 0x7F)) t = (v, u)" by fastforce
  have "within t u" using v32_loop_within [OF within_on_buffer [OF w assms], of 7 "ucast (the b AND 0x7F)"] l by simp
  from within_trans [OF w this] have u: "within s u" .
  show ?thesis using w u within_error [OF u] Pair l
    by (auto simp: pb_decode_varint32_eof_def split_beta Let_def split: option.splits)
qed

lemma pb_decode_varint32_within: "on_buffer s \<Longrightarrow> within s (snd (pb_decode_varint32 s))"
  using pb_decode_varint32_eof_within by (simp add: pb_decode_varint32_def split_beta)

lemma pb_decode_tag_within: "on_buffer s \<Longrightarrow> within s (snd (pb_decode_tag s))"
  using pb_decode_varint32_eof_within [of s] by (auto simp: pb_decode_tag_def split: prod.splits option.splits)

lemma pb_skip_field_within: "on_buffer s \<Longrightarrow> within s (snd (pb_skip_field wt s))"
  by (auto simp: pb_skip_field_def pb_skip_string_def within_error [OF within_refl] within_refl
      intro!: pb_bind_within pb_read_within pb_skip_varint_within pb_decode_varint32_within)

text \<open>A stream whose \<open>bytes_left\<close> is the room of its buffer keeps it so: the decoder never reads past the end.\<close>

lemma within_in_bounds: "within s t \<Longrightarrow> is_bytes_left s \<le> length (is_state s) \<Longrightarrow> is_bytes_left t \<le> length (is_state t)"
  by (auto simp: within_def)

section \<open>The properties\<close>

text \<open>
  C39. A field that is written to a buffer with \<open>pb_encode_tag\<close> and the encoder of its value is read back with the
  same field number, wire type and value by \<open>pb_decode_tag\<close> and the decoder for that kind of value, whatever
  follows it, and \<open>pb_skip_field\<close> skips exactly its bytes. The value is any 64-bit varint, any signed 64-bit number
  in the zigzag encoding of \<open>pb_encode_svarint\<close> and \<open>pb_decode_svarint\<close>, any fixed 32 or 64-bit number, or a string
  of less than 4 GiB; the field number is one that the protocol allows, from 1 to \<open>2 ^ 29 - 1\<close>.
\<close>

theorem pb_field_roundtrip:
  assumes "0 < unat fn" "unat fn < 2 ^ 29" "value_ok v"
    and "pb_seq (pb_encode_tag (wire_type_of v) fn) (encode_value v) (pb_ostream_from_buffer n) = (True, out)"
  shows "\<exists>t. pb_decode_tag (pb_istream_from_buffer (os_state out @ rest) (length (os_state out @ rest))) =
      ((Some (wire_type_of v, fn), False), t) \<and>
    (\<exists>u. decode_value (kind_of v) t = (Some v, u) \<and> pb_skip_field (wire_type_of v) t = (Some (), u) \<and>
      is_state u = rest \<and> is_bytes_left u = length rest)"
proof -
  let ?s = "pb_istream_from_buffer (os_state out @ rest) (length (os_state out @ rest))" and ?tag = "tag_bytes (wire_type_of v) fn"
  obtain mid where mid: "pb_encode_tag (wire_type_of v) fn (pb_ostream_from_buffer n) = (True, mid)" "encode_value v mid = (True, out)"
    using assms(4) by (rule pb_seq_True)
  have "os_callback (pb_ostream_from_buffer n) = Some buf_write" "os_state (pb_ostream_from_buffer n) = []"
    by (simp_all add: pb_ostream_from_buffer_def)
  with encode_tag_True [OF _ mid(1) wire_type_less] have tag: "os_callback mid = Some buf_write" "os_state mid = ?tag" by auto
  have bytes: "os_state out = ?tag @ value_bytes v" using encode_value_True(2) [OF tag(1) mid(2) assms(3)] tag(2) by simp
  have "holds ?s (os_state out @ rest)" using holds_from_buffer [of _ "os_state out @ rest", OF le_refl] by simp
  then have h: "holds ?s (?tag @ value_bytes v @ rest)" unfolding bytes by simp
  let ?t = "advance (length ?tag) ?s"
  note ht = holds_advance [OF h]
  have "is_state (advance (length (os_state out)) ?s) = rest" "is_bytes_left (advance (length (os_state out)) ?s) = length rest"
    by (simp_all add: advance_def pb_istream_from_buffer_def)
  then show ?thesis
    using pb_decode_tag_eq [OF h wire_type_less assms(1,2)] decode_value_eq [OF ht assms(3)] pb_skip_field_eq [OF ht assms(3)]
    by (simp add: bytes)
qed

lemma pb_field_roundtrip_witness:
  "\<exists>out. pb_seq (pb_encode_tag PB_WT_STRING 1000) (encode_value (WString [7, 8, 9])) (pb_ostream_from_buffer 100) = (True, out) \<and>
     (\<exists>t. pb_decode_tag (pb_istream_from_buffer (os_state out @ [1]) (length (os_state out @ [1]))) = ((Some (PB_WT_STRING, 1000), False), t) \<and>
       (\<exists>u. decode_value KString t = (Some (WString [7, 8, 9]), u) \<and> is_state u = [1]))"
proof -
  let ?v = "WString [7, 8, 9]"
  have "length (tag_bytes PB_WT_STRING 1000) \<le> 2" unfolding tag_bytes_def by (rule length_varint_nat) (simp_all add: pb_wt_defs)
  then have "room (pb_ostream_from_buffer 100) (length (tag_bytes (wire_type_of ?v) 1000) + length (value_bytes ?v))"
    by (simp add: room_def pb_ostream_from_buffer_def varint_nat_small)
  then obtain out where out: "pb_seq (pb_encode_tag (wire_type_of ?v) 1000) (encode_value ?v) (pb_ostream_from_buffer 100) = (True, out)"
    using encode_field_room [of ?v _ 1000] by auto
  from pb_field_roundtrip [OF _ _ _ out, of "[1]"] show ?thesis using out by auto
qed

section \<open>Overlong varints\<close>

text \<open>The bytes of \<open>m\<close> digits with their top bit set, least significant first, whatever their value.\<close>

fun more_digits :: "nat \<Rightarrow> nat \<Rightarrow> u8 list" where
  "more_digits 0 n = []"
| "more_digits (Suc m) n = word_of_nat (128 + n mod 128) # more_digits m (n div 128)"

lemma length_more_digits [simp]: "length (more_digits m n) = m"
  by (induction m arbitrary: n) simp_all

lemma more_digits_numeral:
  "more_digits (numeral k) n = word_of_nat (128 + n mod 128) # more_digits (pred_numeral k) (n div 128)"
  using more_digits.simps(2) [of "pred_numeral k" n] by (simp only: numeral_eq_Suc [of k, symmetric])

text \<open>A digit above the number so far; bits past the end of the word are lost on both sides.\<close>

lemma or_digit_wrap:
  assumes "N < 2 ^ k"
  shows "(word_of_nat N :: 'a::len word) OR push_bit k (word_of_nat d) = word_of_nat (N + d * 2 ^ k)"
proof -
  have "take_bit k N AND push_bit k d = 0" by (rule bit_eqI) (auto simp: bit_simps)
  then have "N AND push_bit k d = 0" using assms by (simp add: take_bit_nat_eq_self)
  then have "N + d * 2 ^ k = N OR push_bit k d" by (simp add: disjunctive_add_eq_or push_bit_eq_mult [symmetric])
  then show ?thesis by (simp add: of_nat_or_eq push_bit_of_nat)
qed

lemma or_digit_byte:
  assumes "N < 2 ^ k" "unat (b AND 0x7F :: u8) = d"
  shows "(word_of_nat N :: 'a::len word) OR push_bit k (ucast (b AND 0x7F)) = word_of_nat (N + d * 2 ^ k)"
proof -
  have "(ucast (b AND 0x7F) :: 'a word) = word_of_nat d" unfolding assms(2) [symmetric] by simp
  then show ?thesis using or_digit_wrap [OF assms(1), where ?'a = 'a, of d] by simp
qed

lemma pb_digit_less: "N < 2 ^ k \<Longrightarrow> N + n mod 128 * 2 ^ k < (2 :: nat) ^ (k + 7)"
proof -
  assume "N < 2 ^ k"
  moreover have "n mod 128 * 2 ^ k \<le> 127 * 2 ^ k" by (intro mult_right_mono) (simp_all add: less_Suc_eq_le [symmetric])
  moreover have "(2 :: nat) ^ (k + 7) = 128 * 2 ^ k" by (simp add: power_add)
  ultimately show ?thesis by linarith
qed

lemma digits_sum: "n mod 128 * 2 ^ k + n div 128 mod 2 ^ j * 2 ^ (k + 7) = n mod 2 ^ (j + 7) * (2 :: nat) ^ k"
proof -
  have "n mod (128 * 2 ^ j) = 128 * (n div 128 mod 2 ^ j) + n mod 128" by (rule mod_mult2_eq)
  then show ?thesis by (simp add: power_add algebra_simps)
qed

lemma v32_step:
  "pb_readbyte s = (Some b, t) \<Longrightarrow> \<not> p \<ge> 32 \<Longrightarrow> b AND 0x80 \<noteq> 0 \<Longrightarrow>
    v32_loop p r s = v32_loop (p + 7) (r OR push_bit (unat p) (ucast (b AND 0x7F))) t"
  "pb_readbyte s = (Some 0x80, t) \<Longrightarrow> p \<ge> 32 \<Longrightarrow> v32_loop p r s = v32_loop (p + 7) r t"
  by (subst v32_loop.simps, simp add: Let_def)+

lemma varint_step:
  "pb_readbyte s = (Some b, t) \<Longrightarrow> \<not> p \<ge> 64 \<Longrightarrow> b AND 0x80 \<noteq> 0 \<Longrightarrow>
    varint_loop p r s = varint_loop (p + 7) (r OR push_bit (unat p) (ucast (b AND 0x7F))) t"
  by (subst varint_loop.simps) (simp add: Let_def)

lemma v32_more:
  assumes "holds s (more_digits m n @ ys)" "k + m \<le> 5" "N < 2 ^ (7 * k)"
  shows "v32_loop (word_of_nat (7 * k)) (word_of_nat N) s =
    v32_loop (word_of_nat (7 * (k + m))) (word_of_nat (N + n mod 2 ^ (7 * m) * 2 ^ (7 * k))) (advance m s)"
  using assms
proof (induction m arbitrary: n k N s)
  case (Suc m)
  let ?b = "word_of_nat (128 + n mod 128) :: u8" and ?N = "N + n mod 128 * 2 ^ (7 * k)"
  have h: "holds s (?b # more_digits m (n div 128) @ ys)" using Suc.prems(1) by simp
  have bp: "unat (word_of_nat (7 * k) :: u8) = 7 * k" using Suc.prems(2) by (intro bitpos_unat) simp
  then have lt: "\<not> word_of_nat (7 * k) \<ge> (32 :: u8)" using Suc.prems(2) by (simp add: word_le_nat_alt)
  have d: "n mod 128 < 128" by simp
  have "v32_loop (word_of_nat (7 * k)) (word_of_nat N) s = v32_loop (word_of_nat (7 * Suc k)) (word_of_nat ?N) (advance 1 s)"
    unfolding v32_step(1) [OF pb_readbyte_holds [OF h] lt digit_bits(2) [OF d]] bp or_digit_byte [OF Suc.prems(3) digit_bits(1) [OF d]]
      bitpos_next by (rule refl)
  also have "\<dots> = v32_loop (word_of_nat (7 * (Suc k + m)))
      (word_of_nat (?N + n div 128 mod 2 ^ (7 * m) * 2 ^ (7 * Suc k))) (advance m (advance 1 s))"
    using Suc.prems(2) pb_digit_less [OF Suc.prems(3), of n] by (intro Suc.IH [OF holds_advance1 [OF h]]) (simp_all add: add.commute)
  also have "?N + n div 128 mod 2 ^ (7 * m) * 2 ^ (7 * Suc k) = N + n mod 2 ^ (7 * Suc m) * 2 ^ (7 * k)"
    using digits_sum [of n "7 * k" "7 * m"] by (simp add: add.commute)
  finally show ?case by simp
qed simp

lemma varint_more:
  assumes "holds s (more_digits m n @ ys)" "k + m \<le> 10" "N < 2 ^ (7 * k)"
  shows "varint_loop (word_of_nat (7 * k)) (word_of_nat N) s =
    varint_loop (word_of_nat (7 * (k + m))) (word_of_nat (N + n mod 2 ^ (7 * m) * 2 ^ (7 * k))) (advance m s)"
  using assms
proof (induction m arbitrary: n k N s)
  case (Suc m)
  let ?b = "word_of_nat (128 + n mod 128) :: u8" and ?N = "N + n mod 128 * 2 ^ (7 * k)"
  have h: "holds s (?b # more_digits m (n div 128) @ ys)" using Suc.prems(1) by simp
  have bp: "unat (word_of_nat (7 * k) :: u8) = 7 * k" using Suc.prems(2) by (intro bitpos_unat) simp
  then have lt: "\<not> word_of_nat (7 * k) \<ge> (64 :: u8)" using Suc.prems(2) by (simp add: word_le_nat_alt)
  have d: "n mod 128 < 128" by simp
  have "varint_loop (word_of_nat (7 * k)) (word_of_nat N) s = varint_loop (word_of_nat (7 * Suc k)) (word_of_nat ?N) (advance 1 s)"
    unfolding varint_step [OF pb_readbyte_holds [OF h] lt digit_bits(2) [OF d]] bp or_digit_byte [OF Suc.prems(3) digit_bits(1) [OF d]]
      bitpos_next by (rule refl)
  also have "\<dots> = varint_loop (word_of_nat (7 * (Suc k + m)))
      (word_of_nat (?N + n div 128 mod 2 ^ (7 * m) * 2 ^ (7 * Suc k))) (advance m (advance 1 s))"
    using Suc.prems(2) pb_digit_less [OF Suc.prems(3), of n] by (intro Suc.IH [OF holds_advance1 [OF h]]) (simp_all add: add.commute)
  also have "?N + n div 128 mod 2 ^ (7 * m) * 2 ^ (7 * Suc k) = N + n mod 2 ^ (7 * Suc m) * 2 ^ (7 * k)"
    using digits_sum [of n "7 * k" "7 * m"] by (simp add: add.commute)
  finally show ?case by simp
qed simp

text \<open>Digits that are zero past the end of the word change nothing but \<open>bitpos\<close>.\<close>

lemma v32_zeros:
  assumes "holds s (replicate j 0x80 @ [0])" "5 \<le> k" "k + j \<le> 36"
  shows "fst (v32_loop (word_of_nat (7 * k)) r s) = Some (r, word_of_nat (7 * (k + j + 1)), 0)"
  using assms
proof (induction j arbitrary: k s)
  case 0
  have "unat (word_of_nat (7 * k) :: u8) = 7 * k" using 0(3) by (intro bitpos_unat) simp
  then have "word_of_nat (7 * k) \<ge> (32 :: u8)" using 0(2) by (simp add: word_le_nat_alt)
  then show ?case using pb_readbyte_holds [of s 0 "[]"] 0(1) by (subst v32_loop.simps) (simp add: bitpos_next Let_def)
next
  case (Suc j)
  have "unat (word_of_nat (7 * k) :: u8) = 7 * k" using Suc.prems(3) by (intro bitpos_unat) simp
  then have ge: "word_of_nat (7 * k) \<ge> (32 :: u8)" using Suc.prems(2) by (simp add: word_le_nat_alt)
  have h: "holds s (0x80 # replicate j 0x80 @ [0])" using Suc.prems(1) by simp
  have "fst (v32_loop (word_of_nat (7 * k)) r s) = fst (v32_loop (word_of_nat (7 * Suc k)) r (advance 1 s))"
    unfolding v32_step(2) [OF pb_readbyte_holds [OF h] ge] bitpos_next by (rule refl)
  also have "\<dots> = Some (r, word_of_nat (7 * (Suc k + j + 1)), 0)"
    using Suc.prems by (intro Suc.IH [OF holds_advance1 [OF h]]) simp_all
  finally show ?case by simp
qed

lemma varint_zeros:
  assumes "holds s (replicate j 0x80 @ [0])" "k \<le> 10"
  shows "fst (varint_loop (word_of_nat (7 * k)) r s) = (if k + j \<le> 9 then Some r else None)"
  using assms
proof (induction j arbitrary: k s)
  case 0
  have "unat (word_of_nat (7 * k) :: u8) = 7 * k" using 0(2) by (intro bitpos_unat) simp
  then have "word_of_nat (7 * k) \<ge> (64 :: u8) \<longleftrightarrow> k = 10" using 0(2) by (auto simp: word_le_nat_alt)
  then show ?case using pb_readbyte_holds [of s 0 "[]"] 0 by (subst varint_loop.simps) (auto simp: pb_error_def Let_def)
next
  case (Suc j)
  have bp: "unat (word_of_nat (7 * k) :: u8) = 7 * k" using Suc.prems(2) by (intro bitpos_unat) simp
  have h: "holds s (0x80 # replicate j 0x80 @ [0])" using Suc.prems(1) by simp
  show ?case
  proof (cases "k = 10")
    case True
    then show ?thesis using bp by (subst varint_loop.simps) (simp add: word_le_nat_alt pb_error_def)
  next
    case False
    then have lt: "\<not> word_of_nat (7 * k) \<ge> (64 :: u8)" using bp Suc.prems(2) by (simp add: word_le_nat_alt)
    have "(0x80 :: u8) AND 0x80 \<noteq> 0" by simp
    from varint_step [OF pb_readbyte_holds [OF h] lt this, of r]
    have "fst (varint_loop (word_of_nat (7 * k)) r s) = fst (varint_loop (word_of_nat (7 * Suc k)) r (advance 1 s))"
      unfolding bitpos_next by simp
    also have "\<dots> = (if Suc k + j \<le> 9 then Some r else None)"
      using Suc.prems False by (intro Suc.IH [OF holds_advance1 [OF h]]) simp
    finally show ?thesis by simp
  qed
qed

lemma varint32_start:
  assumes "holds s (more_digits (Suc m) n @ ys)" "m \<le> 4"
  shows "fst (pb_decode_varint32 s) =
    (case fst (v32_loop (word_of_nat (7 * Suc m)) (word_of_nat (n mod 2 ^ (7 * Suc m))) (advance (Suc m) s)) of
       None \<Rightarrow> None
     | Some (r, p, b) \<Rightarrow> if p = 35 \<and> b AND 0x70 \<noteq> 0 then None else Some r)"
proof -
  let ?b = "word_of_nat (128 + n mod 128) :: u8"
  have h: "holds s (?b # more_digits m (n div 128) @ ys)" using assms(1) by simp
  have d: "n mod 128 < 128" by simp
  have b: "ucast (?b AND 0x7F) = (word_of_nat (n mod 128) :: u32)"
    using digit_bits(1) [OF d] by (metis of_nat_unat)
  have "v32_loop (word_of_nat (7 * 1)) (word_of_nat (n mod 128)) (advance 1 s) = v32_loop (word_of_nat (7 * (1 + m)))
      (word_of_nat (n mod 128 + n div 128 mod 2 ^ (7 * m) * 2 ^ (7 * 1))) (advance m (advance 1 s))"
    using assms(2) by (intro v32_more [OF holds_advance1 [OF h]]) simp_all
  also have "n mod 128 + n div 128 mod 2 ^ (7 * m) * 2 ^ (7 * 1) = n mod 2 ^ (7 * Suc m)"
    using digits_sum [of n 0 "7 * m"] by (simp add: add.commute)
  finally have l: "v32_loop 7 (ucast (?b AND 0x7F)) (advance 1 s) =
      v32_loop (word_of_nat (7 * Suc m)) (word_of_nat (n mod 2 ^ (7 * Suc m))) (advance (Suc m) s)"
    unfolding b by simp
  show ?thesis
    unfolding pb_decode_varint32_def pb_decode_varint32_eof_def pb_readbyte_holds [OF h] prod.case option.case if_not_P [OF digit_bits(2) [OF d]] l
    by (auto simp: pb_error_def split: option.splits prod.splits)
qed

text \<open>The last byte of a varint.\<close>

lemma nibble_70: "unat (b :: u8) < 128 \<Longrightarrow> b AND 0x70 = 0 \<longleftrightarrow> unat b < 16"
proof -
  have "\<forall>b :: u8. unat b < 128 \<longrightarrow> (b AND 0x70 = 0 \<longleftrightarrow> unat b < 16)"
    by (intro allI, rule all_u8) code_simp
  then show "unat b < 128 \<Longrightarrow> b AND 0x70 = 0 \<longleftrightarrow> unat b < 16" by blast
qed

lemma v32_last:
  assumes "holds s [word_of_nat d]" "d < 128" "N < 2 ^ (7 * k)" "k \<le> 4"
  shows "fst (v32_loop (word_of_nat (7 * k)) (word_of_nat N) s) =
    Some (word_of_nat (N + d * 2 ^ (7 * k)), word_of_nat (7 * Suc k), word_of_nat d)"
proof -
  have bp: "unat (word_of_nat (7 * k) :: u8) = 7 * k" using assms(4) by (intro bitpos_unat) simp
  then have lt: "\<not> word_of_nat (7 * k) \<ge> (32 :: u8)" using assms(4) by (simp add: word_le_nat_alt)
  have "fst (v32_loop p r s) = Some (r OR push_bit (unat p) (ucast ((word_of_nat d :: u8) AND 0x7F)), p + 7, word_of_nat d)"
    if "\<not> p \<ge> 32" for p r
    using that pb_readbyte_holds [OF assms(1)] digit_bits(4) [OF assms(2)] by (subst v32_loop.simps) (simp add: Let_def)
  from this [OF lt, of "word_of_nat N"] show ?thesis unfolding bp or_digit_byte [OF assms(3) digit_bits(3) [OF assms(2)]] bitpos_next .
qed

lemma varint_last:
  assumes "holds s [word_of_nat d]" "d < 128" "N < 2 ^ (7 * k)" "k \<le> 9"
  shows "fst (varint_loop (word_of_nat (7 * k)) (word_of_nat N) s) = Some (word_of_nat (N + d * 2 ^ (7 * k)))"
proof -
  have bp: "unat (word_of_nat (7 * k) :: u8) = 7 * k" using assms(4) by (intro bitpos_unat) simp
  then have lt: "\<not> word_of_nat (7 * k) \<ge> (64 :: u8)" using assms(4) by (simp add: word_le_nat_alt)
  have "fst (varint_loop p r s) = Some (r OR push_bit (unat p) (ucast ((word_of_nat d :: u8) AND 0x7F)))" if "\<not> p \<ge> 64" for p r
    using that pb_readbyte_holds [OF assms(1)] digit_bits(4) [OF assms(2)] by (subst varint_loop.simps) (simp add: Let_def)
  from this [OF lt, of "word_of_nat N"] show ?thesis unfolding bp or_digit_byte [OF assms(3) digit_bits(3) [OF assms(2)]] .
qed

definition whole :: "u8 list \<Rightarrow> u8 list pb_istream_t" where
  "whole xs = pb_istream_from_buffer xs (length xs)"

lemma holds_whole: "holds (whole xs) xs"
  using holds_from_buffer [of "length xs" xs] by (simp add: whole_def)

lemma varint_start:
  assumes "m \<le> 10"
  shows "fst (pb_decode_varint (whole (more_digits m n @ ys))) =
    fst (varint_loop (word_of_nat (7 * m)) (word_of_nat (n mod 2 ^ (7 * m))) (advance m (whole (more_digits m n @ ys))))"
  using varint_more [OF holds_whole, where k = 0 and N = 0] assms by (simp add: pb_decode_varint_def)

lemma varint32_padded:
  assumes "n < 2 ^ 35" "k \<le> 31"
  shows "fst (pb_decode_varint32 (whole (more_digits 5 n @ replicate k 0x80 @ [0]))) = Some (word_of_nat n)"
proof -
  let ?s = "whole (more_digits (Suc 4) n @ replicate k 0x80 @ [0])"
  have "holds (advance (Suc 4) ?s) (replicate k 0x80 @ [0])" using holds_advance [OF holds_whole, of "more_digits (Suc 4) n"] by simp
  from v32_zeros [OF this, of "Suc 4"] varint32_start [OF holds_whole, of 4 n "replicate k 0x80 @ [0]"] show ?thesis
    using assms by simp
qed

lemma varint_padded:
  assumes "n < 2 ^ 35"
  shows "fst (pb_decode_varint (whole (more_digits 5 n @ replicate k 0x80 @ [0]))) = (if k \<le> 4 then Some (word_of_nat n) else None)"
proof -
  let ?s = "whole (more_digits 5 n @ replicate k 0x80 @ [0])"
  have "holds (advance 5 ?s) (replicate k 0x80 @ [0])" using holds_advance [OF holds_whole, of "more_digits 5 n"] by simp
  from varint_zeros [OF this, of 5] varint_start [of 5 n "replicate k 0x80 @ [0]"] show ?thesis
    using assms by simp
qed

lemma split_35: "n < 2 ^ 35 \<Longrightarrow> n div 2 ^ 28 < 128 \<and> n mod 2 ^ 28 + n div 2 ^ 28 * 2 ^ 28 = n \<and> (n div 2 ^ 28 < 16 \<longleftrightarrow> n < 2 ^ 32)" for n :: nat
  by (auto simp: div_less_iff_less_mult)

lemma varint32_five:
  assumes "n < 2 ^ 35"
  shows "fst (pb_decode_varint32 (whole (more_digits 4 n @ [word_of_nat (n div 2 ^ 28)]))) = (if n < 2 ^ 32 then Some (word_of_nat n) else None)"
proof -
  let ?d = "n div 2 ^ 28" and ?s = "whole (more_digits (Suc 3) n @ [word_of_nat (n div 2 ^ 28)])"
  have d: "?d < 128" "n mod 2 ^ 28 + ?d * 2 ^ 28 = n" "?d < 16 \<longleftrightarrow> n < 2 ^ 32" using split_35 [OF assms] by blast+
  have "holds (advance (Suc 3) ?s) [word_of_nat ?d]" using holds_advance [OF holds_whole, of "more_digits (Suc 3) n"] by simp
  from v32_last [OF this d(1), of "n mod 2 ^ 28" 4]
  have l: "fst (v32_loop (word_of_nat (7 * Suc 3)) (word_of_nat (n mod 2 ^ (7 * Suc 3))) (advance (Suc 3) ?s)) = Some (word_of_nat n, 35, word_of_nat ?d)"
    using d(2) by simp
  have b: "word_of_nat ?d AND (0x70 :: u8) = 0 \<longleftrightarrow> n < 2 ^ 32" using nibble_70 [of "word_of_nat ?d"] unat_digit [of ?d] d(1,3) by simp
  have "fst (pb_decode_varint32 ?s) = (if word_of_nat ?d AND (0x70 :: u8) \<noteq> 0 then None else Some (word_of_nat n))"
    using varint32_start [OF holds_whole, of 3 n "[word_of_nat ?d]"] unfolding l by (simp del: more_digits.simps)
  then show ?thesis unfolding b by (simp del: more_digits.simps)
qed

lemma varint_five:
  assumes "n < 2 ^ 35"
  shows "fst (pb_decode_varint (whole (more_digits 4 n @ [word_of_nat (n div 2 ^ 28)]))) = Some (word_of_nat n)"
proof -
  let ?d = "n div 2 ^ 28" and ?s = "whole (more_digits 4 n @ [word_of_nat (n div 2 ^ 28)])"
  have d: "?d < 128" "n mod 2 ^ 28 + ?d * 2 ^ 28 = n" using split_35 [OF assms] by blast+
  have "holds (advance 4 ?s) [word_of_nat ?d]" using holds_advance [OF holds_whole, of "more_digits 4 n"] by simp
  from varint_last [OF this d(1), of "n mod 2 ^ 28" 4] varint_start [of 4 n "[word_of_nat ?d]"] show ?thesis
    using d(2) by simp
qed

text \<open>
  \<open>bitpos\<close> has eight bits: in a varint of 38 bytes it has wrapped around, and the last byte sets bits again.
  \<open>pb_decode_varint\<close> stops long before.
\<close>

lemma varint32_bitpos_wraps:
  "fst (pb_decode_varint32 (whole (replicate 37 0x80 @ [0x01]))) = Some 8 \<and> fst (pb_decode_varint (whole (replicate 37 0x80 @ [0x01]))) = None"
  by code_simp

text \<open>
  C40. The five digits of any number below \<open>2 ^ 35\<close>, least significant first. If the varint ends with the fifth,
  \<open>pb_decode_varint32\<close> returns a number that fits in 32 bits and fails for one that does not. If it goes on with
  digits that are zero, up to 37 bytes in all, \<open>pb_decode_varint32\<close> never fails: it returns the low 32 bits of
  the number, whether or not it fits. \<open>pb_decode_varint\<close> returns the number itself, and fails for more than ten bytes.
\<close>

theorem varint32_overlong:
  assumes "n < 2 ^ 35" "k \<le> 31"
  shows "fst (pb_decode_varint32 (whole (more_digits 4 n @ [word_of_nat (n div 2 ^ 28)]))) = (if n < 2 ^ 32 then Some (word_of_nat n) else None) \<and>
    fst (pb_decode_varint (whole (more_digits 4 n @ [word_of_nat (n div 2 ^ 28)]))) = Some (word_of_nat n) \<and>
    fst (pb_decode_varint32 (whole (more_digits 5 n @ replicate k 0x80 @ [0]))) = Some (word_of_nat n) \<and>
    fst (pb_decode_varint (whole (more_digits 5 n @ replicate k 0x80 @ [0]))) = (if k \<le> 4 then Some (word_of_nat n) else None)"
  using varint32_five [OF assms(1)] varint_five [OF assms(1)] varint32_padded [OF assms] varint_padded [OF assms(1), of k] by blast

lemma varint32_overlong_witness:
  "fst (pb_decode_varint32 (whole [0x80, 0x80, 0x80, 0x80, 0x10])) = None \<and>
   fst (pb_decode_varint (whole [0x80, 0x80, 0x80, 0x80, 0x10])) = Some 0x100000000 \<and>
   fst (pb_decode_varint32 (whole [0x80, 0x80, 0x80, 0x80, 0x90, 0x80, 0])) = Some 0 \<and>
   fst (pb_decode_varint (whole [0x80, 0x80, 0x80, 0x80, 0x90, 0x80, 0])) = Some 0x100000000"
  using varint32_overlong [of "0x100000000" 1] by (simp add: more_digits_numeral)

end
