(* ===== verification/Chacha.thy ===== *)
theory Chacha
  imports Md32
begin

text \<open>
  \<open>crypto/chacha/chacha.c\<close>: the portable ChaCha20 and HChaCha20, against RFC 8439. The state is the array of
  sixteen words; the standard sees it as a matrix whose columns and diagonals are transformed in turn.
\<close>

unbundle bit_operations_syntax

section \<open>The code\<close>

definition U8TO32_LITTLE :: "u8 list \<Rightarrow> nat \<Rightarrow> u32" where
  "U8TO32_LITTLE p k = ucast (p ! k) OR push_bit 8 (ucast (p ! (k + 1))) OR push_bit 16 (ucast (p ! (k + 2))) OR
     push_bit 24 (ucast (p ! (k + 3)))"

definition sigma :: "u8 list" where
  "sigma = [0x65, 0x78, 0x70, 0x61, 0x6e, 0x64, 0x20, 0x33, 0x32, 0x2d, 0x62, 0x79, 0x74, 0x65, 0x20, 0x6b]"

definition QUARTERROUND :: "nat \<Rightarrow> nat \<Rightarrow> nat \<Rightarrow> nat \<Rightarrow> u32 list \<Rightarrow> u32 list" where
  "QUARTERROUND a b c d x =
     (let x = x[a := x ! a + x ! b]; x = x[d := ROTATE (x ! d XOR x ! a) 16];
          x = x[c := x ! c + x ! d]; x = x[b := ROTATE (x ! b XOR x ! c) 12];
          x = x[a := x ! a + x ! b]; x = x[d := ROTATE (x ! d XOR x ! a) 8];
          x = x[c := x ! c + x ! d]; x = x[b := ROTATE (x ! b XOR x ! c) 7]
      in x)"

definition double_round :: "u32 list \<Rightarrow> u32 list" where
  "double_round x =
     (let x = QUARTERROUND 0 4 8 12 x; x = QUARTERROUND 1 5 9 13 x;
          x = QUARTERROUND 2 6 10 14 x; x = QUARTERROUND 3 7 11 15 x;
          x = QUARTERROUND 0 5 10 15 x; x = QUARTERROUND 1 6 11 12 x;
          x = QUARTERROUND 2 7 8 13 x; x = QUARTERROUND 3 4 9 14 x
      in x)"

definition U32TO8_LITTLE :: "u32 \<Rightarrow> u8 list" where
  "U32TO8_LITTLE v = [ucast (v AND 0xff), ucast (drop_bit 8 v AND 0xff), ucast (drop_bit 16 v AND 0xff), ucast (drop_bit 24 v AND 0xff)]"

definition chacha_core :: "u32 list \<Rightarrow> u8 list" where
  "chacha_core input =
     (let x = (double_round ^^ 10) input; x = map (\<lambda>i. x ! i + input ! i) [0..<16]
      in concat (map U32TO8_LITTLE x))"

definition chacha_input :: "u8 list \<Rightarrow> u8 list \<Rightarrow> u32 \<Rightarrow> u32 list" where
  "chacha_input key nonce counter =
     [U8TO32_LITTLE sigma 0, U8TO32_LITTLE sigma 4, U8TO32_LITTLE sigma 8, U8TO32_LITTLE sigma 12,
      U8TO32_LITTLE key 0, U8TO32_LITTLE key 4, U8TO32_LITTLE key 8, U8TO32_LITTLE key 12,
      U8TO32_LITTLE key 16, U8TO32_LITTLE key 20, U8TO32_LITTLE key 24, U8TO32_LITTLE key 28,
      counter, U8TO32_LITTLE nonce 0, U8TO32_LITTLE nonce 4, U8TO32_LITTLE nonce 8]"

function chacha_loop :: "u32 list \<Rightarrow> u8 list \<Rightarrow> u8 list" where
  "chacha_loop input inp =
     (if inp = [] then []
      else
        (let todo = (if length inp < 64 then length inp else 64); buf = chacha_core input
         in map (\<lambda>i. inp ! i XOR buf ! i) [0..<todo] @
            chacha_loop (input[12 := input ! 12 + 1]) (drop todo inp)))"
  by pat_completeness auto
termination by (relation "measure (\<lambda>(_, inp). length inp)") auto

declare chacha_loop.simps [simp del]

definition CRYPTO_chacha_20 :: "u8 list \<Rightarrow> u8 list \<Rightarrow> u8 list \<Rightarrow> u32 \<Rightarrow> u8 list" where
  "CRYPTO_chacha_20 inp key nonce counter = chacha_loop (chacha_input key nonce counter) inp"

text \<open>\<open>OPENSSL_memcpy\<close> between bytes and words on the little-endian targets.\<close>

definition CRYPTO_hchacha20 :: "u8 list \<Rightarrow> u8 list \<Rightarrow> u8 list" where
  "CRYPTO_hchacha20 key nonce =
     (let x = map (\<lambda>i. U8TO32_LITTLE (sigma @ key @ nonce) (4 * i)) [0..<16]; x = (double_round ^^ 10) x
      in concat (map U32TO8_LITTLE (take 4 x @ take 4 (drop 12 x))))"

section \<open>RFC 8439\<close>

definition le_val :: "u8 list \<Rightarrow> nat" where
  "le_val bs = be_val (rev bs)"

definition rfc_quarter :: "u32 \<times> u32 \<times> u32 \<times> u32 \<Rightarrow> u32 \<times> u32 \<times> u32 \<times> u32" where
  "rfc_quarter = (\<lambda>(a, b, c, d).
     let a = a + b; d = word_rotl 16 (d XOR a);
         c = c + d; b = word_rotl 12 (b XOR c);
         a = a + b; d = word_rotl 8 (d XOR a);
         c = c + d; b = word_rotl 7 (b XOR c)
     in (a, b, c, d))"

text \<open>The matrix as its four rows; the quarter rounds on the columns are independent of each other.\<close>

type_synonym matrix = "u32 list \<times> u32 list \<times> u32 list \<times> u32 list"

definition column_round :: "matrix \<Rightarrow> matrix" where
  "column_round = (\<lambda>(A, B, C, D).
     let q = map (\<lambda>i. rfc_quarter (A ! i, B ! i, C ! i, D ! i)) [0, 1, 2, 3]
     in (map fst q, map (fst \<circ> snd) q, map (fst \<circ> snd \<circ> snd) q, map (snd \<circ> snd \<circ> snd) q))"

definition diagonal_round :: "matrix \<Rightarrow> matrix" where
  "diagonal_round = (\<lambda>(A, B, C, D).
     let (A, B, C, D) = column_round (A, rotate 1 B, rotate 2 C, rotate 3 D)
     in (A, rotate 3 B, rotate 2 C, rotate 1 D))"

definition inner_block :: "matrix \<Rightarrow> matrix" where
  "inner_block M = diagonal_round (column_round M)"

definition rows :: "u32 list \<Rightarrow> matrix" where
  "rows x = (take 4 x, take 4 (drop 4 x), take 4 (drop 8 x), take 4 (drop 12 x))"

definition unrows :: "matrix \<Rightarrow> u32 list" where
  "unrows = (\<lambda>(A, B, C, D). A @ B @ C @ D)"

definition spec_words :: "nat \<Rightarrow> u8 list \<Rightarrow> u32 list" where
  "spec_words n bs = map (\<lambda>i. word_of_nat (le_val (take 4 (drop (4 * i) bs)))) [0..<n]"

definition rfc_state :: "u8 list \<Rightarrow> u32 \<Rightarrow> u8 list \<Rightarrow> u32 list" where
  "rfc_state key counter nonce =
     [0x61707865, 0x3320646e, 0x79622d32, 0x6b206574] @ spec_words 8 key @ [counter] @ spec_words 3 nonce"

definition rfc_block :: "u8 list \<Rightarrow> u32 \<Rightarrow> u8 list \<Rightarrow> u8 list" where
  "rfc_block key counter nonce =
     (let s = rfc_state key counter nonce
      in concat (map (\<lambda>w. le_bytes 4 (unat w)) (map2 (+) (unrows ((inner_block ^^ 10) (rows s))) s)))"

text \<open>The key stream from a block on, and the cipher.\<close>

definition key_stream :: "u8 list \<Rightarrow> u32 \<Rightarrow> u8 list \<Rightarrow> nat \<Rightarrow> u8 list" where
  "key_stream key counter nonce n = concat (map (\<lambda>j. rfc_block key (counter + word_of_nat j) nonce) [0..<n])"

definition rfc8439_chacha20 :: "u8 list \<Rightarrow> u32 \<Rightarrow> u8 list \<Rightarrow> u8 list \<Rightarrow> u8 list" where
  "rfc8439_chacha20 key counter nonce m = map2 (XOR) m (key_stream key counter nonce (length m div 64 + 1))"

definition rfc_hchacha20 :: "u8 list \<Rightarrow> u8 list \<Rightarrow> u8 list" where
  "rfc_hchacha20 key nonce =
     (let (A, B, C, D) = (inner_block ^^ 10) (rows ([0x61707865, 0x3320646e, 0x79622d32, 0x6b206574] @ spec_words 8 key @ spec_words 4 nonce))
      in concat (map (\<lambda>w. le_bytes 4 (unat w)) (A @ D)))"

section \<open>Words and bytes\<close>

lemma le_val_simps [simp]: "le_val [] = 0" "le_val (b # bs) = unat b + 256 * le_val bs"
  by (simp_all add: le_val_def)

lemma le_val_append: "le_val (as @ bs) = le_val as + 256 ^ length as * le_val bs"
  by (induction as) (simp_all add: algebra_simps)

lemma le_val_less: "le_val bs < 256 ^ length bs"
  using be_val_less [of "rev bs"] by (simp add: le_val_def)

lemma le_bytes_le_val: "le_bytes (length bs) (le_val bs) = bs"
  using be_bytes_be_val [of "rev bs"] by (simp add: le_bytes_rev le_val_def)

lemma le_val_le_bytes: "le_val (le_bytes n v) = v mod 256 ^ n"
  by (simp add: le_bytes_rev le_val_def be_val_be_bytes)

lemma or_byte:
  fixes x :: u32
  assumes "unat x < 2 ^ k" "k \<le> 24"
  shows "unat (x OR push_bit k (ucast (b :: u8))) = unat x + unat b * 2 ^ k"
proof -
  have "unat b * 2 ^ k < 256 * 2 ^ k" using unat_u8_less [of b] by simp
  also have "\<dots> \<le> 256 * 2 ^ 24" using assms(2) by (intro mult_left_mono power_increasing) simp_all
  finally have "unat (push_bit k (ucast b) OR x) = unat b * 2 ^ k + unat x"
    using unat_push_or [OF assms(1), of "ucast b"] by simp
  then show ?thesis by (simp add: or.commute add.commute)
qed

lemma U8TO32_LITTLE_eq:
  assumes "k + 4 \<le> length p"
  shows "unat (U8TO32_LITTLE p k) = le_val (take 4 (drop k p))"
proof -
  let ?b = "\<lambda>i. p ! (k + i)"
  have "take 4 (drop k p) = [?b 0, ?b 1, ?b 2, ?b 3]"
    using assms by (simp add: list_eq_iff_nth_eq less_Suc_eq numeral_eq_Suc nth_append)
  then have v: "le_val (take 4 (drop k p)) = unat (?b 0) + 256 * unat (?b 1) + 65536 * unat (?b 2) + 16777216 * unat (?b 3)"
    by simp
  let ?w2 = "ucast (?b 0) OR push_bit 8 (ucast (?b 1)) :: u32"
  have w2: "unat ?w2 = unat (?b 0) + unat (?b 1) * 2 ^ 8"
    using or_byte [of "ucast (?b 0)" 8 "?b 1"] unat_u8_less [of "?b 0"] by (simp del: unat_u8_less)
  let ?w3 = "?w2 OR push_bit 16 (ucast (?b 2))"
  have w3: "unat ?w3 = unat ?w2 + unat (?b 2) * 2 ^ 16"
    using w2 unat_u8_less [of "?b 0"] unat_u8_less [of "?b 1"] by (intro or_byte) (simp_all del: unat_u8_less)
  have "unat (?w3 OR push_bit 24 (ucast (?b 3))) = unat ?w3 + unat (?b 3) * 2 ^ 24"
    using w2 w3 unat_u8_less [of "?b 0"] unat_u8_less [of "?b 1"] unat_u8_less [of "?b 2"] by (intro or_byte) (simp_all del: unat_u8_less)
  then show ?thesis unfolding v w3 w2 by (simp add: U8TO32_LITTLE_def or.assoc)
qed

lemma U8TO32_LITTLE_word: "k + 4 \<le> length p \<Longrightarrow> U8TO32_LITTLE p k = word_of_nat (le_val (take 4 (drop k p)))"
  unfolding U8TO32_LITTLE_eq [symmetric] by simp

lemma U32TO8_LITTLE_eq: "U32TO8_LITTLE v = le_bytes 4 (unat v)"
  using HOST_l2c_le_eq [of v] by (simp add: U32TO8_LITTLE_def HOST_l2c_le_def)

lemma sigma_words:
  "U8TO32_LITTLE sigma 0 = 0x61707865" "U8TO32_LITTLE sigma 4 = 0x3320646e"
  "U8TO32_LITTLE sigma 8 = 0x79622d32" "U8TO32_LITTLE sigma 12 = 0x6b206574"
  by (simp_all add: U8TO32_LITTLE_def sigma_def)

section \<open>The rounds\<close>

lemma update_swap_nth: "i \<noteq> j \<Longrightarrow> xs[i := x] ! j = xs ! j"
  by simp

lemma update_twice:
  assumes "a \<noteq> b" "a \<noteq> c" "a \<noteq> d" "b \<noteq> c" "b \<noteq> d" "c \<noteq> d"
  shows "x[a := p, d := q, c := r, b := s, a := t, d := u, c := v, b := w] = x[a := t, b := w, c := v, d := u]"
proof -
  have "x[a := p, d := q, c := r, b := s, a := t] = x[a := t, d := q, c := r, b := s]"
    using assms by (metis list_update_overwrite list_update_swap)
  moreover have "x[a := t, d := q, c := r, b := s, d := u] = x[a := t, d := u, c := r, b := s]"
    using assms by (metis list_update_overwrite list_update_swap)
  moreover have "x[a := t, d := u, c := r, b := s, c := v, b := w] = x[a := t, b := w, c := v, d := u]"
    using assms by (metis list_update_overwrite list_update_swap)
  ultimately show ?thesis by simp
qed

lemma QUARTERROUND_eq:
  assumes "a < length x" "b < length x" "c < length x" "d < length x" "distinct [a, b, c, d]"
  shows "QUARTERROUND a b c d x =
    (case rfc_quarter (x ! a, x ! b, x ! c, x ! d) of (a', b', c', d') \<Rightarrow> x[a := a', b := b', c := c', d := d'])"
proof -
  have n: "a \<noteq> b" "a \<noteq> c" "a \<noteq> d" "b \<noteq> c" "b \<noteq> d" "c \<noteq> d" using assms(5) by auto
  note m = n n [symmetric]
  show ?thesis using assms(1-4)
    by (simp add: QUARTERROUND_def rfc_quarter_def ROTATE_rotl Let_def m update_twice [OF n])
qed

lemma list16:
  assumes "length x = 16"
  obtains x0 x1 x2 x3 x4 x5 x6 x7 x8 x9 x10 x11 x12 x13 x14 x15
    where "x = [x0, x1, x2, x3, x4, x5, x6, x7, x8, x9, x10, x11, x12, x13, x14, x15]"
  using assms by (auto simp: numeral_eq_Suc length_Suc_conv)

lemma double_round_eq:
  assumes "length x = 16"
  shows "double_round x = unrows (inner_block (rows x))"
proof -
  obtain x0 x1 x2 x3 x4 x5 x6 x7 x8 x9 x10 x11 x12 x13 x14 x15
    where x: "x = [x0, x1, x2, x3, x4, x5, x6, x7, x8, x9, x10, x11, x12, x13, x14, x15]"
    using list16 [OF assms] .
  obtain y0 y4 y8 y12 where y0: "rfc_quarter (x0, x4, x8, x12) = (y0, y4, y8, y12)" by (metis prod_cases4)
  obtain y1 y5 y9 y13 where y1: "rfc_quarter (x1, x5, x9, x13) = (y1, y5, y9, y13)" by (metis prod_cases4)
  obtain y2 y6 y10 y14 where y2: "rfc_quarter (x2, x6, x10, x14) = (y2, y6, y10, y14)" by (metis prod_cases4)
  obtain y3 y7 y11 y15 where y3: "rfc_quarter (x3, x7, x11, x15) = (y3, y7, y11, y15)" by (metis prod_cases4)
  obtain z0 z5 z10 z15 where z0: "rfc_quarter (y0, y5, y10, y15) = (z0, z5, z10, z15)" by (metis prod_cases4)
  obtain z1 z6 z11 z12 where z1: "rfc_quarter (y1, y6, y11, y12) = (z1, z6, z11, z12)" by (metis prod_cases4)
  obtain z2 z7 z8 z13 where z2: "rfc_quarter (y2, y7, y8, y13) = (z2, z7, z8, z13)" by (metis prod_cases4)
  obtain z3 z4 z9 z14 where z3: "rfc_quarter (y3, y4, y9, y14) = (z3, z4, z9, z14)" by (metis prod_cases4)
  have q0: "QUARTERROUND 0 4 8 12 [x0, x1, x2, x3, x4, x5, x6, x7, x8, x9, x10, x11, x12, x13, x14, x15] =
    [y0, x1, x2, x3, y4, x5, x6, x7, y8, x9, x10, x11, y12, x13, x14, x15]"
    by (subst QUARTERROUND_eq) (simp_all add: y0)
  have q1: "QUARTERROUND 1 5 9 13 [y0, x1, x2, x3, y4, x5, x6, x7, y8, x9, x10, x11, y12, x13, x14, x15] =
    [y0, y1, x2, x3, y4, y5, x6, x7, y8, y9, x10, x11, y12, y13, x14, x15]"
    by (subst QUARTERROUND_eq) (simp_all add: y1)
  have q2: "QUARTERROUND 2 6 10 14 [y0, y1, x2, x3, y4, y5, x6, x7, y8, y9, x10, x11, y12, y13, x14, x15] =
    [y0, y1, y2, x3, y4, y5, y6, x7, y8, y9, y10, x11, y12, y13, y14, x15]"
    by (subst QUARTERROUND_eq) (simp_all add: y2)
  have q3: "QUARTERROUND 3 7 11 15 [y0, y1, y2, x3, y4, y5, y6, x7, y8, y9, y10, x11, y12, y13, y14, x15] =
    [y0, y1, y2, y3, y4, y5, y6, y7, y8, y9, y10, y11, y12, y13, y14, y15]"
    by (subst QUARTERROUND_eq) (simp_all add: y3)
  have q4: "QUARTERROUND 0 5 10 15 [y0, y1, y2, y3, y4, y5, y6, y7, y8, y9, y10, y11, y12, y13, y14, y15] =
    [z0, y1, y2, y3, y4, z5, y6, y7, y8, y9, z10, y11, y12, y13, y14, z15]"
    by (subst QUARTERROUND_eq) (simp_all add: z0)
  have q5: "QUARTERROUND 1 6 11 12 [z0, y1, y2, y3, y4, z5, y6, y7, y8, y9, z10, y11, y12, y13, y14, z15] =
    [z0, z1, y2, y3, y4, z5, z6, y7, y8, y9, z10, z11, z12, y13, y14, z15]"
    by (subst QUARTERROUND_eq) (simp_all add: z1)
  have q6: "QUARTERROUND 2 7 8 13 [z0, z1, y2, y3, y4, z5, z6, y7, y8, y9, z10, z11, z12, y13, y14, z15] =
    [z0, z1, z2, y3, y4, z5, z6, z7, z8, y9, z10, z11, z12, z13, y14, z15]"
    by (subst QUARTERROUND_eq) (simp_all add: z2)
  have q7: "QUARTERROUND 3 4 9 14 [z0, z1, z2, y3, y4, z5, z6, z7, z8, y9, z10, z11, z12, z13, y14, z15] =
    [z0, z1, z2, z3, z4, z5, z6, z7, z8, z9, z10, z11, z12, z13, z14, z15]"
    by (subst QUARTERROUND_eq) (simp_all add: z3)
  have "double_round x = [z0, z1, z2, z3, z4, z5, z6, z7, z8, z9, z10, z11, z12, z13, z14, z15]"
    by (simp only: double_round_def Let_def x q0 q1 q2 q3 q4 q5 q6 q7)
  moreover have "inner_block (rows x) = ([z0, z1, z2, z3], [z4, z5, z6, z7], [z8, z9, z10, z11], [z12, z13, z14, z15])"
    by (simp add: x inner_block_def rows_def column_round_def diagonal_round_def y0 y1 y2 y3 z0 z1 z2 z3 rotate1_def numeral_eq_Suc)
  ultimately show ?thesis by (simp add: unrows_def)
qed

text \<open>Matrices with rows of four words.\<close>

definition matrix_ok :: "matrix \<Rightarrow> bool" where
  "matrix_ok = (\<lambda>(A, B, C, D). length A = 4 \<and> length B = 4 \<and> length C = 4 \<and> length D = 4)"

lemma matrix_ok_rows: "length x = 16 \<Longrightarrow> matrix_ok (rows x)"
  by (simp add: matrix_ok_def rows_def)

lemma unrows_rows: "length x = 16 \<Longrightarrow> unrows (rows x) = x"
  using append_take_drop_id [of 4 x] append_take_drop_id [of 4 "drop 4 x"] append_take_drop_id [of 4 "drop 8 x"]
  by (simp add: rows_def unrows_def)

lemma rows_unrows: "matrix_ok M \<Longrightarrow> rows (unrows M) = M"
  by (auto simp: matrix_ok_def rows_def unrows_def)

lemma matrix_ok_inner_block: "matrix_ok M \<Longrightarrow> matrix_ok (inner_block M)"
  by (auto simp: matrix_ok_def inner_block_def column_round_def diagonal_round_def Let_def)

lemma matrix_ok_rounds: "matrix_ok M \<Longrightarrow> matrix_ok ((inner_block ^^ n) M)"
  by (induction n) (simp_all add: matrix_ok_inner_block)

lemma length_unrows: "matrix_ok M \<Longrightarrow> length (unrows M) = 16"
  by (auto simp: matrix_ok_def unrows_def)

lemma double_rounds_eq:
  assumes "length x = 16"
  shows "(double_round ^^ n) x = unrows ((inner_block ^^ n) (rows x))"
proof (induction n)
  case (Suc n)
  have "matrix_ok ((inner_block ^^ n) (rows x))" using assms by (simp add: matrix_ok_rows matrix_ok_rounds)
  then show ?case by (simp add: Suc double_round_eq length_unrows rows_unrows)
qed (simp add: unrows_rows assms)

section \<open>Blocks and messages\<close>

lemma chacha_core_eq:
  assumes "length s = 16"
  shows "chacha_core s = concat (map (\<lambda>w. le_bytes 4 (unat w)) (map2 (+) (unrows ((inner_block ^^ 10) (rows s))) s))"
proof -
  let ?x = "unrows ((inner_block ^^ 10) (rows s))"
  have l: "length ?x = 16" using assms by (simp add: length_unrows matrix_ok_rounds matrix_ok_rows)
  have "map (\<lambda>i. ?x ! i + s ! i) [0..<16] = map2 (+) ?x s"
    using l assms by (intro nth_equalityI) simp_all
  then show ?thesis by (simp only: chacha_core_def double_rounds_eq [OF assms] U32TO8_LITTLE_eq [abs_def] Let_def)
qed

lemma upt_8: "[0..<8] = [0, 1, 2, 3, 4, 5, 6, 7]" and upt_4: "[0..<4] = [0, 1, 2, 3]" and upt_3: "[0..<3] = [0, 1, 2]"
  by (simp_all add: upt_rec)

lemma chacha_input_eq:
  assumes "length key = 32" "length nonce = 12"
  shows "chacha_input key nonce counter = rfc_state key counter nonce"
  using assms by (simp add: chacha_input_def rfc_state_def sigma_words spec_words_def upt_8 upt_3 U8TO32_LITTLE_word)

lemma length_rfc_state [simp]: "length (rfc_state key counter nonce) = 16"
  by (simp add: rfc_state_def spec_words_def)

lemma length_rfc_block [simp]: "length (rfc_block key counter nonce) = 64"
proof -
  have "length (unrows ((inner_block ^^ 10) (rows (rfc_state key counter nonce)))) = 16"
    by (simp add: length_unrows matrix_ok_rounds matrix_ok_rows)
  then show ?thesis by (simp add: rfc_block_def Let_def length_concat o_def split_def sum_list_triv)
qed

lemma rfc_state_next: "(rfc_state key counter nonce)[12 := rfc_state key counter nonce ! 12 + 1] = rfc_state key (counter + 1) nonce"
  by (simp add: rfc_state_def spec_words_def upt_8 upt_3)

lemma key_stream_0 [simp]: "key_stream key counter nonce 0 = []"
  by (simp add: key_stream_def)

lemma key_stream_Suc:
  "key_stream key counter nonce (Suc n) = rfc_block key counter nonce @ key_stream key (counter + 1) nonce n"
proof -
  have "[0..<Suc n] = 0 # map Suc [0..<n]" by (simp only: upt_conv_Cons map_Suc_upt zero_less_Suc)
  then show ?thesis by (simp only: key_stream_def) (simp add: o_def add.assoc)
qed

lemma length_key_stream [simp]: "length (key_stream key counter nonce n) = 64 * n"
  by (simp add: key_stream_def length_concat o_def sum_list_triv)

lemma map2_append_left: "length xs \<le> length ys \<Longrightarrow> map2 f xs (ys @ zs) = map2 f xs ys"
  by (simp add: zip_append2)

lemma chacha_loop_eq:
  assumes "length inp \<le> 64 * n"
  shows "chacha_loop (rfc_state key counter nonce) inp = map2 (XOR) inp (key_stream key counter nonce n)"
  using assms
proof (induction n arbitrary: inp counter)
  case 0
  then show ?case by (simp add: chacha_loop.simps)
next
  case (Suc n)
  let ?b = "rfc_block key counter nonce"
  have b: "chacha_core (rfc_state key counter nonce) = ?b" by (simp add: chacha_core_eq rfc_block_def Let_def)
  show ?case
  proof (cases "inp = []")
    case True
    then show ?thesis by (simp add: chacha_loop.simps)
  next
    case False
    define todo where "todo = min (length inp) 64"
    have t: "(if length inp < 64 then length inp else 64) = todo" by (simp add: todo_def)
    have x: "map (\<lambda>i. inp ! i XOR ?b ! i) [0..<todo] = map2 (XOR) (take todo inp) (take todo ?b)"
      by (intro nth_equalityI) (simp_all add: todo_def)
    have ih: "chacha_loop (rfc_state key (counter + 1) nonce) (drop todo inp) =
        map2 (XOR) (drop todo inp) (key_stream key (counter + 1) nonce n)"
      using Suc.prems by (intro Suc.IH) (auto simp: todo_def)
    have "chacha_loop (rfc_state key counter nonce) inp = map2 (XOR) (take todo inp) (take todo ?b) @
        map2 (XOR) (drop todo inp) (key_stream key (counter + 1) nonce n)"
      using False unfolding chacha_loop.simps [of _ inp] Let_def b rfc_state_next t x ih by simp
    also have "\<dots> = map2 (XOR) inp (key_stream key counter nonce (Suc n))"
    proof (cases "length inp < 64")
      case True
      then have "todo = length inp" by (simp add: todo_def)
      moreover have "zip inp (take (length inp) ?b) = zip inp ?b" using take_zip [of "length inp" inp ?b] by simp
      ultimately show ?thesis using True by (simp add: key_stream_Suc zip_append2)
    next
      case False
      then have "todo = 64" by (simp add: todo_def)
      then show ?thesis using False by (simp add: key_stream_Suc zip_append2)
    qed
    finally show ?thesis .
  qed
qed

lemma CRYPTO_chacha_20_stream:
  assumes "length key = 32" "length nonce = 12" "length m \<le> 64 * n"
  shows "CRYPTO_chacha_20 m key nonce counter = map2 (XOR) m (key_stream key counter nonce n)"
  using assms by (simp add: CRYPTO_chacha_20_def chacha_input_eq chacha_loop_eq)

lemma CRYPTO_chacha_20_eq:
  assumes "length key = 32" "length nonce = 12"
  shows "CRYPTO_chacha_20 m key nonce counter = rfc8439_chacha20 key counter nonce m"
proof -
  have "length m \<le> 64 * (length m div 64 + 1)" using dividend_less_div_times [of 64 "length m"] by simp
  then show ?thesis unfolding rfc8439_chacha20_def by (rule CRYPTO_chacha_20_stream [OF assms])
qed

lemma length_CRYPTO_chacha_20:
  assumes "length key = 32" "length nonce = 12"
  shows "length (CRYPTO_chacha_20 m key nonce counter) = length m"
  using CRYPTO_chacha_20_stream [OF assms, of m "length m"] by simp

lemma xor_twice: "length m \<le> length ks \<Longrightarrow> map2 (XOR) (map2 (XOR) m ks) ks = m" for m ks :: "u8 list"
  by (intro nth_equalityI) (simp_all add: xor.assoc)

lemma CRYPTO_chacha_20_twice:
  assumes "length key = 32" "length nonce = 12"
  shows "CRYPTO_chacha_20 (CRYPTO_chacha_20 m key nonce counter) key nonce counter = m"
  using CRYPTO_chacha_20_stream [OF assms, of _ "length m"] length_CRYPTO_chacha_20 [OF assms, of m counter] by (simp add: xor_twice)

text \<open>The key stream of a block, which is what the cipher makes of zeros.\<close>

lemma CRYPTO_chacha_20_zeros:
  assumes "length key = 32" "length nonce = 12" "n \<le> 64"
  shows "CRYPTO_chacha_20 (replicate n 0) key nonce counter = take n (rfc_block key counter nonce)"
  using assms(3) CRYPTO_chacha_20_stream [OF assms(1,2), of "replicate n 0" 1 counter]
  by (simp add: key_stream_Suc list_eq_iff_nth_eq)

section \<open>HChaCha20\<close>

lemma spec_words_append:
  assumes "length as = 4 * m"
  shows "spec_words (m + n) (as @ bs) = spec_words m as @ spec_words n bs"
proof -
  have a: "take 4 (drop (4 * i) (as @ bs)) = take 4 (drop (4 * i) as)" if "i \<in> set [0..<m]" for i
    using assms that by simp
  have b: "take 4 (drop (4 * (m + i)) (as @ bs)) = take 4 (drop (4 * i) bs)" for i
    using assms by (simp add: algebra_simps)
  have u: "[0..<m + n] = [0..<m] @ map (\<lambda>i. m + i) [0..<n]"
    using upt_add_eq_append [of 0 m n] map_add_upt [of m n] by (simp only: add.commute [of m] le0)
  show ?thesis unfolding spec_words_def u map_append map_map o_def b
    by (intro arg_cong2 [where f = append] map_cong refl) (simp only: a)
qed

lemma spec_words_sigma: "spec_words 4 sigma = [0x61707865, 0x3320646e, 0x79622d32, 0x6b206574]"
proof -
  have "length sigma = 16" by (simp add: sigma_def)
  then show ?thesis using sigma_words by (simp add: spec_words_def upt_4 U8TO32_LITTLE_word)
qed

lemma CRYPTO_hchacha20_eq:
  assumes "length key = 32" "length nonce = 16"
  shows "CRYPTO_hchacha20 key nonce = rfc_hchacha20 key nonce"
proof -
  let ?p = "sigma @ key @ nonce"
  have s: "length sigma = 4 * 4" by (simp add: sigma_def)
  have "map (\<lambda>i. U8TO32_LITTLE ?p (4 * i)) [0..<16] = spec_words 16 ?p"
    using s assms by (simp add: spec_words_def U8TO32_LITTLE_word)
  also have "\<dots> = spec_words 4 sigma @ spec_words 8 key @ spec_words 4 nonce"
    using spec_words_append [OF s, of 12 "key @ nonce"] spec_words_append [of key 8 4 nonce] assms(1) by simp
  finally have x: "map (\<lambda>i. U8TO32_LITTLE ?p (4 * i)) [0..<16] = spec_words 4 sigma @ spec_words 8 key @ spec_words 4 nonce" .
  let ?s = "spec_words 4 sigma @ spec_words 8 key @ spec_words 4 nonce"
  have l: "length ?s = 16" by (simp add: spec_words_def)
  obtain A B C D where m: "(inner_block ^^ 10) (rows ?s) = (A, B, C, D)" by (metis prod_cases4)
  have ok: "length A = 4" "length B = 4" "length C = 4" "length D = 4"
    using matrix_ok_rounds [OF matrix_ok_rows [OF l], of 10] by (simp_all add: m matrix_ok_def)
  have "take 4 (A @ B @ C @ D) @ take 4 (drop 12 (A @ B @ C @ D)) = A @ D" using ok by simp
  then show ?thesis unfolding CRYPTO_hchacha20_def rfc_hchacha20_def x Let_def double_rounds_eq [OF l] spec_words_sigma [symmetric] m
    by (simp only: unrows_def prod.case U32TO8_LITTLE_eq [abs_def])
qed

lemma length_CRYPTO_hchacha20: "length (CRYPTO_hchacha20 key nonce) = 32"
proof -
  have "length ((double_round ^^ n) x) = length x" for n x
  proof (induction n)
    case (Suc n)
    have "length (QUARTERROUND a b c d y) = length y" for a b c d y by (simp add: QUARTERROUND_def Let_def)
    then show ?case using Suc by (simp add: double_round_def Let_def)
  qed simp
  then show ?thesis by (simp add: CRYPTO_hchacha20_def Let_def length_concat U32TO8_LITTLE_def o_def sum_list_triv)
qed

text \<open>
  C30. \<open>CRYPTO_chacha_20\<close> is the cipher of RFC 8439 for every message and counter, the last block cut short and
  the block counter wrapping around, and undoes itself; \<open>CRYPTO_hchacha20\<close> is the HChaCha20 of the XChaCha draft.
\<close>

theorem chacha20_rfc8439:
  assumes "length key = 32" "length nonce = 12" "length hnonce = 16"
  shows "CRYPTO_chacha_20 m key nonce counter = rfc8439_chacha20 key counter nonce m \<and>
    CRYPTO_chacha_20 (CRYPTO_chacha_20 m key nonce counter) key nonce counter = m \<and>
    CRYPTO_hchacha20 key hnonce = rfc_hchacha20 key hnonce"
  using CRYPTO_chacha_20_eq [OF assms(1,2)] CRYPTO_chacha_20_twice [OF assms(1,2)] CRYPTO_hchacha20_eq [OF assms(1,3)]
  by simp_all

theorem chacha20_rfc8439_witness:
  "CRYPTO_chacha_20 [1, 2, 3] (replicate 32 7) (replicate 12 9) 5 = rfc8439_chacha20 (replicate 32 7) 5 (replicate 12 9) [1, 2, 3] \<and>
   CRYPTO_hchacha20 (replicate 32 7) (replicate 16 9) = rfc_hchacha20 (replicate 32 7) (replicate 16 9)"
  using chacha20_rfc8439 [of "replicate 32 7" "replicate 12 9" "replicate 16 9"] by simp

end
