(* ===== verification/Poly1305.thy ===== *)
theory Poly1305
  imports Chacha
begin

text \<open>
  \<open>crypto/poly1305/poly1305.c\<close>: the portable Poly1305 on limbs of 26 bits, against RFC 8439. The code is
  right about the limbs of the accumulator, whatever their carries (\<open>poly1305_mul_val\<close>); it is wrong in the last
  reduction, where a carry out of the lowest limb is dropped. The equivalence is therefore stated for the
  accumulators on which that carry is not set, and a message with a wrong tag is given.
\<close>

unbundle bit_operations_syntax

section \<open>The code\<close>

text \<open>\<open>OPENSSL_memcpy\<close> on a little-endian machine.\<close>

definition U8TO32_LE :: "u8 list \<Rightarrow> nat \<Rightarrow> u32" where
  "U8TO32_LE m k = word_of_nat (le_val (take 4 (drop k m)))"

definition U32TO8_LE :: "u32 \<Rightarrow> u8 list" where
  "U32TO8_LE v = le_bytes 4 (unat v)"

definition mul32x32_64 :: "u32 \<Rightarrow> u32 \<Rightarrow> u64" where
  "mul32x32_64 a b = ucast a * ucast b"

record poly1305_state_st =
  p_r0 :: u32
  p_r1 :: u32
  p_r2 :: u32
  p_r3 :: u32
  p_r4 :: u32
  p_s1 :: u32
  p_s2 :: u32
  p_s3 :: u32
  p_s4 :: u32
  p_h0 :: u32
  p_h1 :: u32
  p_h2 :: u32
  p_h3 :: u32
  p_h4 :: u32
  p_buf :: "u8 list"
  p_buf_used :: nat
  p_key :: "u8 list"

text \<open>A block is added with the bit above its top byte; the padded last block carries its own.\<close>

definition poly1305_add :: "u32 \<Rightarrow> u8 list \<Rightarrow> poly1305_state_st \<Rightarrow> poly1305_state_st" where
  "poly1305_add hibit m st =
     (let t0 = U8TO32_LE m 0; t1 = U8TO32_LE m 4; t2 = U8TO32_LE m 8; t3 = U8TO32_LE m 12
      in st\<lparr>p_h0 := p_h0 st + (t0 AND 0x3ffffff),
            p_h1 := p_h1 st + ucast (drop_bit 26 (push_bit 32 (ucast t1) OR ucast t0 :: u64) AND 0x3ffffff),
            p_h2 := p_h2 st + ucast (drop_bit 20 (push_bit 32 (ucast t2) OR ucast t1 :: u64) AND 0x3ffffff),
            p_h3 := p_h3 st + ucast (drop_bit 14 (push_bit 32 (ucast t3) OR ucast t2 :: u64) AND 0x3ffffff),
            p_h4 := p_h4 st + (drop_bit 8 t3 OR hibit)\<rparr>)"

definition poly1305_mul :: "poly1305_state_st \<Rightarrow> poly1305_state_st" where
  "poly1305_mul st =
     (let h0 = p_h0 st; h1 = p_h1 st; h2 = p_h2 st; h3 = p_h3 st; h4 = p_h4 st;
          t0 = mul32x32_64 h0 (p_r0 st) + mul32x32_64 h1 (p_s4 st) + mul32x32_64 h2 (p_s3 st) + mul32x32_64 h3 (p_s2 st) + mul32x32_64 h4 (p_s1 st);
          t1 = mul32x32_64 h0 (p_r1 st) + mul32x32_64 h1 (p_r0 st) + mul32x32_64 h2 (p_s4 st) + mul32x32_64 h3 (p_s3 st) + mul32x32_64 h4 (p_s2 st);
          t2 = mul32x32_64 h0 (p_r2 st) + mul32x32_64 h1 (p_r1 st) + mul32x32_64 h2 (p_r0 st) + mul32x32_64 h3 (p_s4 st) + mul32x32_64 h4 (p_s3 st);
          t3 = mul32x32_64 h0 (p_r3 st) + mul32x32_64 h1 (p_r2 st) + mul32x32_64 h2 (p_r1 st) + mul32x32_64 h3 (p_r0 st) + mul32x32_64 h4 (p_s4 st);
          t4 = mul32x32_64 h0 (p_r4 st) + mul32x32_64 h1 (p_r3 st) + mul32x32_64 h2 (p_r2 st) + mul32x32_64 h3 (p_r1 st) + mul32x32_64 h4 (p_r0 st);
          h0 = ucast t0 AND 0x3ffffff; c = drop_bit 26 t0;
          t1 = t1 + c; h1 = ucast t1 AND 0x3ffffff; b = ucast (drop_bit 26 t1) :: u32;
          t2 = t2 + ucast b; h2 = ucast t2 AND 0x3ffffff; b = ucast (drop_bit 26 t2) :: u32;
          t3 = t3 + ucast b; h3 = ucast t3 AND 0x3ffffff; b = ucast (drop_bit 26 t3) :: u32;
          t4 = t4 + ucast b; h4 = ucast t4 AND 0x3ffffff; b = ucast (drop_bit 26 t4) :: u32;
          h0 = h0 + b * 5
      in st\<lparr>p_h0 := h0, p_h1 := h1, p_h2 := h2, p_h3 := h3, p_h4 := h4\<rparr>)"

text \<open>The labels \<open>poly1305_donna_16bytes\<close> and \<open>poly1305_donna_atmost15bytes\<close> are the two branches.\<close>

function poly1305_update :: "poly1305_state_st \<Rightarrow> u8 list \<Rightarrow> poly1305_state_st" where
  "poly1305_update st inp =
     (if length inp < 16 then
        (if inp = [] then st
         else poly1305_mul (poly1305_add 0 (inp @ [1] @ replicate (15 - length inp) 0) st))
      else poly1305_update (poly1305_mul (poly1305_add 0x1000000 inp st)) (drop 16 inp))"
  by pat_completeness auto
termination by (relation "measure (\<lambda>(_, inp). length inp)") auto

declare poly1305_update.simps [simp del]

definition CRYPTO_poly1305_init :: "poly1305_state_st \<Rightarrow> u8 list \<Rightarrow> poly1305_state_st" where
  "CRYPTO_poly1305_init st key =
     (let t0 = U8TO32_LE key 0; t1 = U8TO32_LE key 4; t2 = U8TO32_LE key 8; t3 = U8TO32_LE key 12;
          r0 = t0 AND 0x3ffffff; t0 = drop_bit 26 t0; t0 = t0 OR push_bit 6 t1;
          r1 = t0 AND 0x3ffff03; t1 = drop_bit 20 t1; t1 = t1 OR push_bit 12 t2;
          r2 = t1 AND 0x3ffc0ff; t2 = drop_bit 14 t2; t2 = t2 OR push_bit 18 t3;
          r3 = t2 AND 0x3f03fff; t3 = drop_bit 8 t3;
          r4 = t3 AND 0x00fffff
      in st\<lparr>p_r0 := r0, p_r1 := r1, p_r2 := r2, p_r3 := r3, p_r4 := r4,
            p_s1 := r1 * 5, p_s2 := r2 * 5, p_s3 := r3 * 5, p_s4 := r4 * 5,
            p_h0 := 0, p_h1 := 0, p_h2 := 0, p_h3 := 0, p_h4 := 0,
            p_buf_used := 0, p_key := take 16 (drop 16 key)\<rparr>)"

definition CRYPTO_poly1305_update :: "poly1305_state_st \<Rightarrow> u8 list \<Rightarrow> poly1305_state_st" where
  "CRYPTO_poly1305_update st inp =
     (let (st, inp) =
        (if p_buf_used st \<noteq> 0 then
           (let todo = 16 - p_buf_used st;
                todo = (if todo > length inp then length inp else todo);
                st = st\<lparr>p_buf := put_at (p_buf_used st) (take todo inp) (p_buf st)\<rparr>;
                st = st\<lparr>p_buf_used := p_buf_used st + todo\<rparr>;
                inp = drop todo inp;
                st = (if p_buf_used st = 16 then poly1305_update st (p_buf st)\<lparr>p_buf_used := 0\<rparr> else st)
            in (st, inp))
         else (st, inp));
        (st, inp) =
        (if length inp \<ge> 16 then
           (let todo = length inp div 16 * 16
            in (poly1305_update st (take todo inp), drop todo inp))
         else (st, inp))
      in if inp \<noteq> [] then st\<lparr>p_buf := put_at 0 inp (p_buf st), p_buf_used := length inp\<rparr> else st)"

definition poly1305_carry :: "poly1305_state_st \<Rightarrow> poly1305_state_st" where
  "poly1305_carry st =
     (let b = drop_bit 26 (p_h0 st); st = st\<lparr>p_h0 := p_h0 st AND 0x3ffffff\<rparr>; st = st\<lparr>p_h1 := p_h1 st + b\<rparr>;
          b = drop_bit 26 (p_h1 st); st = st\<lparr>p_h1 := p_h1 st AND 0x3ffffff\<rparr>; st = st\<lparr>p_h2 := p_h2 st + b\<rparr>;
          b = drop_bit 26 (p_h2 st); st = st\<lparr>p_h2 := p_h2 st AND 0x3ffffff\<rparr>; st = st\<lparr>p_h3 := p_h3 st + b\<rparr>;
          b = drop_bit 26 (p_h3 st); st = st\<lparr>p_h3 := p_h3 st AND 0x3ffffff\<rparr>; st = st\<lparr>p_h4 := p_h4 st + b\<rparr>;
          b = drop_bit 26 (p_h4 st); st = st\<lparr>p_h4 := p_h4 st AND 0x3ffffff\<rparr>
      in st\<lparr>p_h0 := p_h0 st + b * 5\<rparr>)"

definition poly1305_select :: "poly1305_state_st \<Rightarrow> poly1305_state_st" where
  "poly1305_select st =
     (let g0 = p_h0 st + 5; b = drop_bit 26 g0; g0 = g0 AND 0x3ffffff;
          g1 = p_h1 st + b; b = drop_bit 26 g1; g1 = g1 AND 0x3ffffff;
          g2 = p_h2 st + b; b = drop_bit 26 g2; g2 = g2 AND 0x3ffffff;
          g3 = p_h3 st + b; b = drop_bit 26 g3; g3 = g3 AND 0x3ffffff;
          g4 = p_h4 st + b - push_bit 26 1;
          b = drop_bit 31 g4 - 1; nb = NOT b
      in st\<lparr>p_h0 := (p_h0 st AND nb) OR (g0 AND b), p_h1 := (p_h1 st AND nb) OR (g1 AND b),
            p_h2 := (p_h2 st AND nb) OR (g2 AND b), p_h3 := (p_h3 st AND nb) OR (g3 AND b),
            p_h4 := (p_h4 st AND nb) OR (g4 AND b)\<rparr>)"

definition poly1305_tag :: "poly1305_state_st \<Rightarrow> u8 list" where
  "poly1305_tag st =
     (let f0 = ucast (p_h0 st OR push_bit 26 (p_h1 st)) + ucast (U8TO32_LE (p_key st) 0) :: u64;
          f1 = ucast (drop_bit 6 (p_h1 st) OR push_bit 20 (p_h2 st)) + ucast (U8TO32_LE (p_key st) 4) :: u64;
          f2 = ucast (drop_bit 12 (p_h2 st) OR push_bit 14 (p_h3 st)) + ucast (U8TO32_LE (p_key st) 8) :: u64;
          f3 = ucast (drop_bit 18 (p_h3 st) OR push_bit 8 (p_h4 st)) + ucast (U8TO32_LE (p_key st) 12) :: u64;
          f1 = f1 + drop_bit 32 f0; f2 = f2 + drop_bit 32 f1; f3 = f3 + drop_bit 32 f2
      in U32TO8_LE (ucast f0) @ U32TO8_LE (ucast f1) @ U32TO8_LE (ucast f2) @ U32TO8_LE (ucast f3))"

definition CRYPTO_poly1305_finish :: "poly1305_state_st \<Rightarrow> u8 list" where
  "CRYPTO_poly1305_finish st =
     (let st = (if p_buf_used st \<noteq> 0 then poly1305_update st (take (p_buf_used st) (p_buf st)) else st)
      in poly1305_tag (poly1305_select (poly1305_carry st)))"

section \<open>RFC 8439\<close>

definition P1305 :: nat where "P1305 = 2 ^ 130 - 5"

definition poly_clamp :: "u8 list \<Rightarrow> nat" where
  "poly_clamp key = le_val (take 16 key) AND 0x0ffffffc0ffffffc0ffffffc0fffffff"

definition poly_step :: "nat \<Rightarrow> u8 list \<Rightarrow> nat \<Rightarrow> nat" where
  "poly_step r block a = (a + le_val (block @ [1])) * r mod P1305"

definition poly_blocks :: "u8 list \<Rightarrow> u8 list list" where
  "poly_blocks msg = chunks 16 msg @ (if leftover 16 msg = [] then [] else [leftover 16 msg])"

definition poly_acc :: "u8 list \<Rightarrow> u8 list \<Rightarrow> nat" where
  "poly_acc key msg = fold (poly_step (poly_clamp key)) (poly_blocks msg) 0"

definition rfc8439_poly1305 :: "u8 list \<Rightarrow> u8 list \<Rightarrow> u8 list" where
  "rfc8439_poly1305 key msg = le_bytes 16 ((poly_acc key msg + le_val (take 16 (drop 16 key))) mod 2 ^ 128)"

section \<open>Streaming\<close>

text \<open>What the blocks do to the state, apart from the buffer.\<close>

definition poly1305_block :: "u8 list \<Rightarrow> poly1305_state_st \<Rightarrow> poly1305_state_st" where
  "poly1305_block b st = poly1305_mul (poly1305_add 0x1000000 b st)"

definition no_buf :: "poly1305_state_st \<Rightarrow> poly1305_state_st" where
  "no_buf st = st\<lparr>p_buf := [], p_buf_used := 0\<rparr>"

definition poly_ok :: "poly1305_state_st \<Rightarrow> bool" where
  "poly_ok st \<longleftrightarrow> p_buf_used st < 16 \<and> length (p_buf st) = 16"

definition poly_pending :: "poly1305_state_st \<Rightarrow> u8 list" where
  "poly_pending st = take (p_buf_used st) (p_buf st)"

lemma U8TO32_LE_take: "k + 4 \<le> n \<Longrightarrow> U8TO32_LE (take n m) k = U8TO32_LE m k"
  by (simp add: U8TO32_LE_def drop_take min_absorb1)

lemma poly1305_add_take: "poly1305_add hibit (take 16 m) st = poly1305_add hibit m st"
  by (simp add: poly1305_add_def U8TO32_LE_take)

lemma poly1305_buf [simp]:
  "poly1305_add hibit b (st\<lparr>p_buf := x, p_buf_used := n\<rparr>) = poly1305_add hibit b st\<lparr>p_buf := x, p_buf_used := n\<rparr>"
  "poly1305_mul (st\<lparr>p_buf := x, p_buf_used := n\<rparr>) = poly1305_mul st\<lparr>p_buf := x, p_buf_used := n\<rparr>"
  "p_buf (poly1305_add hibit b st) = p_buf st" "p_buf_used (poly1305_add hibit b st) = p_buf_used st"
  "p_buf (poly1305_mul st) = p_buf st" "p_buf_used (poly1305_mul st) = p_buf_used st"
  by (simp_all add: poly1305_add_def poly1305_mul_def Let_def)

lemma poly1305_block_buf [simp]:
  "poly1305_block b (no_buf st) = no_buf (poly1305_block b st)"
  "p_buf (poly1305_block b st) = p_buf st" "p_buf_used (poly1305_block b st) = p_buf_used st"
  by (simp_all add: poly1305_block_def no_buf_def)

lemma poly1305_blocks_buf [simp]:
  "fold poly1305_block bs (no_buf st) = no_buf (fold poly1305_block bs st)"
  "p_buf (fold poly1305_block bs st) = p_buf st" "p_buf_used (fold poly1305_block bs st) = p_buf_used st"
  by (induction bs arbitrary: st) simp_all

lemma poly1305_block_take: "poly1305_block (take 16 m) st = poly1305_mul (poly1305_add 0x1000000 m st)"
  by (simp add: poly1305_block_def poly1305_add_take)

lemma poly1305_update_blocks:
  "leftover 16 inp = [] \<Longrightarrow> poly1305_update st inp = fold poly1305_block (chunks 16 inp) st"
proof (induction st inp rule: poly1305_update.induct)
  case (1 st inp)
  show ?case
  proof (cases "length inp < 16")
    case True
    then show ?thesis using 1(2) by (simp add: leftover_short chunks_short poly1305_update.simps)
  next
    case False
    then have "leftover 16 (drop 16 inp) = []" using 1(2) by (simp add: leftover.simps [of 16 inp])
    then show ?thesis using 1(1) [OF False] False
      by (subst poly1305_update.simps) (simp add: chunks.simps [of 16 inp] poly1305_block_take)
  qed
qed

lemma CRYPTO_poly1305_update_ok:
  assumes "poly_ok st"
  shows "poly_ok (CRYPTO_poly1305_update st inp) \<and>
    poly_pending (CRYPTO_poly1305_update st inp) = leftover 16 (poly_pending st @ inp) \<and>
    no_buf (CRYPTO_poly1305_update st inp) = fold poly1305_block (chunks 16 (poly_pending st @ inp)) (no_buf st)"
proof -
  have ok: "p_buf_used st < 16" "length (p_buf st) = 16" using assms by (simp_all add: poly_ok_def)
  define rest where "rest = (\<lambda>st inp.
    let (st, inp) = (if length inp \<ge> 16 then
           (let todo = length inp div 16 * 16 in (poly1305_update st (take todo inp), drop todo inp))
         else (st, inp))
    in if inp \<noteq> [] then st\<lparr>p_buf := put_at 0 inp (p_buf st), p_buf_used := length inp\<rparr> else st)"
  have rest: "poly_ok (rest s xs) \<and> poly_pending (rest s xs) = leftover 16 xs \<and>
      no_buf (rest s xs) = fold poly1305_block (chunks 16 xs) (no_buf s)"
    if s: "p_buf_used s = 0" "length (p_buf s) = 16" for s xs
  proof -
    let ?t = "take (length xs div 16 * 16) xs" and ?d = "drop (length xs div 16 * 16) xs"
    have l: "leftover 16 xs = ?d" by (rule leftover_drop_div) simp
    have "leftover 16 ?t = []" by (rule leftover_dvd) simp_all
    then have u: "poly1305_update s ?t = fold poly1305_block (chunks 16 xs) s"
      by (simp add: poly1305_update_blocks chunks_take_div)
    have r: "rest s xs = (if leftover 16 xs \<noteq> [] then (fold poly1305_block (chunks 16 xs) s)
        \<lparr>p_buf := put_at 0 (leftover 16 xs) (p_buf s), p_buf_used := length (leftover 16 xs)\<rparr>
      else fold poly1305_block (chunks 16 xs) s)"
    proof (cases "length xs \<ge> 16")
      case True
      then show ?thesis unfolding rest_def by (simp add: u l)
    next
      case False
      then show ?thesis unfolding rest_def by (simp add: leftover_short chunks_short)
    qed
    have n: "length (leftover 16 xs) < 16" by (rule length_leftover) simp
    have p: "length (put_at 0 (leftover 16 xs) (p_buf s)) = 16" "take (length (leftover 16 xs)) (put_at 0 (leftover 16 xs) (p_buf s)) = leftover 16 xs"
      using length_put_at [of 0 "leftover 16 xs" "p_buf s"] take_put_at [of 0 "p_buf s" "leftover 16 xs"] n s(2) by simp_all
    show ?thesis
      using p n s unfolding r by (simp add: poly_ok_def poly_pending_def) (simp add: no_buf_def)
  qed
  show ?thesis
  proof (cases "p_buf_used st = 0")
    case True
    then have "CRYPTO_poly1305_update st inp = rest st inp" by (simp add: CRYPTO_poly1305_update_def rest_def)
    then show ?thesis using rest [OF True ok(2)] True by (simp add: poly_pending_def)
  next
    case num: False
    let ?n = "p_buf_used st"
    have len: "length (poly_pending st) = ?n" using ok by (simp add: poly_pending_def)
    define first where "first = (\<lambda>todo. let s = st\<lparr>p_buf := put_at ?n (take todo inp) (p_buf st)\<rparr>; s = s\<lparr>p_buf_used := p_buf_used s + todo\<rparr>
      in if p_buf_used s = 16 then poly1305_update s (p_buf s)\<lparr>p_buf_used := 0\<rparr> else s)"
    have g: "CRYPTO_poly1305_update st inp =
        (let todo = 16 - ?n; todo = (if todo > length inp then length inp else todo) in rest (first todo) (drop todo inp))"
      unfolding CRYPTO_poly1305_update_def rest_def first_def if_P [OF num] Let_def prod.case by (rule refl)
    show ?thesis
    proof (cases "?n + length inp < 16")
      case True
      then have short: "length (poly_pending st @ inp) < 16" using len by simp
      have "16 - ?n > length inp" using True by simp
      then have u: "CRYPTO_poly1305_update st inp = st\<lparr>p_buf := put_at ?n inp (p_buf st), p_buf_used := ?n + length inp\<rparr>"
        using num True by (simp add: CRYPTO_poly1305_update_def)
      show ?thesis unfolding u using ok True short length_put_at [of ?n inp "p_buf st"] take_put_at [of ?n "p_buf st" inp]
        by (simp add: poly_ok_def poly_pending_def leftover_short chunks_short) (simp add: no_buf_def)
    next
      case False
      let ?todo = "16 - ?n" and ?full = "poly_pending st @ take (16 - p_buf_used st) inp"
      have lf: "length ?full = 16" using False ok len by simp
      have f: "put_at ?n (take ?todo inp) (p_buf st) = ?full"
        using False ok put_at_full [of ?n "take ?todo inp" "p_buf st"] by (simp add: poly_pending_def)
      have split: "poly_pending st @ inp = ?full @ drop ?todo inp" by simp
      have c: "chunks 16 (poly_pending st @ inp) = ?full # chunks 16 (drop ?todo inp)"
        "leftover 16 (poly_pending st @ inp) = leftover 16 (drop ?todo inp)"
        unfolding split using lf by (simp_all only: chunks_block leftover_block zero_less_numeral)
      have e: "leftover 16 ?full = []" "chunks 16 ?full = [?full]"
        using leftover_block [of 16 ?full "[]"] chunks_block [of 16 ?full "[]"] lf by (simp_all add: leftover_short chunks_short)
      let ?s = "poly1305_block ?full (st\<lparr>p_buf := ?full, p_buf_used := 16\<rparr>)\<lparr>p_buf_used := 0\<rparr>"
      have "first ?todo = ?s" using ok by (simp add: first_def f e poly1305_update_blocks Let_def)
      moreover have "\<not> 16 - ?n > length inp" using False by linarith
      ultimately have "CRYPTO_poly1305_update st inp = rest ?s (drop ?todo inp)" unfolding g Let_def by (simp only: if_False)
      moreover have "no_buf ?s = poly1305_block ?full (no_buf st)"
        by (simp add: poly1305_block_def no_buf_def)
      ultimately show ?thesis unfolding c using rest [of ?s "drop ?todo inp"] lf by simp
    qed
  qed
qed

interpretation poly: block_stream 16 "\<lambda>_. True" poly_ok no_buf poly_pending poly1305_block CRYPTO_poly1305_update
  by unfold_locales (use CRYPTO_poly1305_update_ok in \<open>simp_all add: poly_ok_def poly_pending_def\<close>)

section \<open>Limbs\<close>

text \<open>Five limbs, in positions 26 bits apart.\<close>

definition limbs :: "nat \<Rightarrow> nat \<Rightarrow> nat \<Rightarrow> nat \<Rightarrow> nat \<Rightarrow> nat" where
  "limbs a0 a1 a2 a3 a4 = a0 + 2 ^ 26 * a1 + 2 ^ 52 * a2 + 2 ^ 78 * a3 + 2 ^ 104 * a4"

definition H_val :: "poly1305_state_st \<Rightarrow> nat" where
  "H_val st = limbs (unat (p_h0 st)) (unat (p_h1 st)) (unat (p_h2 st)) (unat (p_h3 st)) (unat (p_h4 st))"

definition R_val :: "poly1305_state_st \<Rightarrow> nat" where
  "R_val st = limbs (unat (p_r0 st)) (unat (p_r1 st)) (unat (p_r2 st)) (unat (p_r3 st)) (unat (p_r4 st))"

text \<open>
  The bounds between two blocks. The lowest limb keeps the last carry, five times it; for these bounds on a
  clamped \<open>r\<close> the 64-bit sums of \<open>poly1305_mul\<close> do not overflow, and their carries fit in 32 bits.
\<close>

definition r_ok :: "poly1305_state_st \<Rightarrow> bool" where
  "r_ok st \<longleftrightarrow> unat (p_r0 st) \<le> 0x3ffffff \<and> unat (p_r1 st) \<le> 0x3ffff03 \<and> unat (p_r2 st) \<le> 0x3ffc0ff \<and> unat (p_r3 st) \<le> 0x3f03fff \<and>
     unat (p_r4 st) \<le> 0xfffff \<and> p_s1 st = p_r1 st * 5 \<and> p_s2 st = p_r2 st * 5 \<and> p_s3 st = p_r3 st * 5 \<and> p_s4 st = p_r4 st * 5"

definition h_ok :: "poly1305_state_st \<Rightarrow> bool" where
  "h_ok st \<longleftrightarrow> unat (p_h0 st) \<le> 2797000000 \<and> unat (p_h1 st) < 2 ^ 26 \<and> unat (p_h2 st) < 2 ^ 26 \<and> unat (p_h3 st) < 2 ^ 26 \<and> unat (p_h4 st) < 2 ^ 26"

text \<open>The same with a block added.\<close>

definition added_ok :: "poly1305_state_st \<Rightarrow> bool" where
  "added_ok st \<longleftrightarrow> unat (p_h0 st) \<le> 2864108863 \<and> unat (p_h1 st) \<le> 134217726 \<and> unat (p_h2 st) \<le> 134217726 \<and> unat (p_h3 st) \<le> 134217726 \<and>
     unat (p_h4 st) \<le> 100663294"

lemma mul_sum:
  fixes h0 :: u32
  assumes "unat h0 * unat a0 + unat h1 * unat a1 + unat h2 * unat a2 + unat h3 * unat a3 + unat h4 * unat a4 < 2 ^ 64"
  shows "unat (mul32x32_64 h0 a0 + mul32x32_64 h1 a1 + mul32x32_64 h2 a2 + mul32x32_64 h3 a3 + mul32x32_64 h4 a4) =
    unat h0 * unat a0 + unat h1 * unat a1 + unat h2 * unat a2 + unat h3 * unat a3 + unat h4 * unat a4"
proof -
  have "mul32x32_64 h0 a0 + mul32x32_64 h1 a1 + mul32x32_64 h2 a2 + mul32x32_64 h3 a3 + mul32x32_64 h4 a4 =
      word_of_nat (unat h0 * unat a0 + unat h1 * unat a1 + unat h2 * unat a2 + unat h3 * unat a3 + unat h4 * unat a4)"
    by (simp add: mul32x32_64_def)
  then show ?thesis using assms by (simp only: unat_of_nat) (simp del: of_nat_add of_nat_mult)
qed

lemma mul_sum_bound:
  fixes h0 :: nat
  assumes "h0 \<le> H0" "h1 \<le> H1" "h2 \<le> H2" "h3 \<le> H3" "h4 \<le> H4" "a0 \<le> A0" "a1 \<le> A1" "a2 \<le> A2" "a3 \<le> A3" "a4 \<le> A4"
  shows "h0 * a0 + h1 * a1 + h2 * a2 + h3 * a3 + h4 * a4 \<le> H0 * A0 + H1 * A1 + H2 * A2 + H3 * A3 + H4 * A4"
  using assms by (intro add_mono mult_le_mono)

lemma low26: "unat (ucast t AND 0x3ffffff :: u32) = unat (t :: u64) mod 2 ^ 26"
proof -
  have "(0x3ffffff :: u32) = mask 26" by (simp add: mask_eq_exp_minus_1)
  then have "ucast t AND 0x3ffffff = take_bit 26 (ucast t :: u32)" by (simp only: take_bit_eq_mask)
  then show ?thesis
    by (simp only: unsigned_take_bit_eq unat_ucast_mod) (simp add: take_bit_eq_mod mod_mod_cancel le_imp_power_dvd)
qed

lemma high26: "unat t < 2 ^ 58 \<Longrightarrow> unat (ucast (drop_bit 26 t) :: u32) = unat (t :: u64) div 2 ^ 26"
  by (simp add: unat_ucast_mod unat_drop_bit_div less_mult_imp_div_less)

text \<open>The product modulo the prime: a limb beyond the fifth comes back five times.\<close>

lemma limbs_mult:
  fixes h0 h1 h2 h3 h4 r0 r1 r2 r3 r4 :: nat
  shows "limbs h0 h1 h2 h3 h4 * limbs r0 r1 r2 r3 r4 =
    limbs (h0 * r0 + h1 * (r4 * 5) + h2 * (r3 * 5) + h3 * (r2 * 5) + h4 * (r1 * 5))
      (h0 * r1 + h1 * r0 + h2 * (r4 * 5) + h3 * (r3 * 5) + h4 * (r2 * 5))
      (h0 * r2 + h1 * r1 + h2 * r0 + h3 * (r4 * 5) + h4 * (r3 * 5))
      (h0 * r3 + h1 * r2 + h2 * r1 + h3 * r0 + h4 * (r4 * 5))
      (h0 * r4 + h1 * r3 + h2 * r2 + h3 * r1 + h4 * r0) +
    P1305 * ((h1 * r4 + h2 * r3 + h3 * r2 + h4 * r1) + 2 ^ 26 * (h2 * r4 + h3 * r3 + h4 * r2) + 2 ^ 52 * (h3 * r4 + h4 * r3) + 2 ^ 78 * (h4 * r4))"
  by (simp add: limbs_def P1305_def algebra_simps)

text \<open>The carries, on numbers.\<close>

lemma limbs_carry_linear:
  fixes t0 :: nat
  assumes "t0 = 2 ^ 26 * qa + m0" "t1 + qa = 2 ^ 26 * qb + m1" "t2 + qb = 2 ^ 26 * qc + m2" "t3 + qc = 2 ^ 26 * qd + m3"
    "t4 + qd = 2 ^ 26 * qe + m4"
  shows "limbs (m0 + qe * 5) m1 m2 m3 m4 + P1305 * qe = limbs t0 t1 t2 t3 t4"
  using assms unfolding limbs_def P1305_def by simp

lemma limbs_carry:
  fixes t0 :: nat
  assumes "u1 = t1 + t0 div 2 ^ 26" "u2 = t2 + u1 div 2 ^ 26" "u3 = t3 + u2 div 2 ^ 26" "u4 = t4 + u3 div 2 ^ 26"
  shows "limbs (t0 mod 2 ^ 26 + u4 div 2 ^ 26 * 5) (u1 mod 2 ^ 26) (u2 mod 2 ^ 26) (u3 mod 2 ^ 26) (u4 mod 2 ^ 26) +
    P1305 * (u4 div 2 ^ 26) = limbs t0 t1 t2 t3 t4"
  by (rule limbs_carry_linear [where qa = "t0 div 2 ^ 26" and qb = "u1 div 2 ^ 26" and qc = "u2 div 2 ^ 26" and qd = "u3 div 2 ^ 26"])
    (simp_all only: assms [symmetric] mult_div_mod_eq)

lemma unat_add64: "unat a + unat b < 2 ^ 64 \<Longrightarrow> unat (a + b :: u64) = unat a + unat b"
  by (simp add: unat_word_ariths)

lemma unat_up64: "unat (ucast (b :: u32) :: u64) = unat b"
  using unat_less_exp [of b] by (simp add: unat_ucast_mod)

lemma unat_times_5: "unat r \<le> 0x3ffffff \<Longrightarrow> unat (r * 5 :: u32) = unat r * 5"
  by (simp add: unat_word_ariths)

lemma poly1305_mul_val:
  assumes r: "r_ok st" and h: "added_ok st"
  shows "h_ok (poly1305_mul st) \<and> H_val (poly1305_mul st) mod P1305 = H_val st * R_val st mod P1305"
proof -
  note hb = h [unfolded added_ok_def]
  note rb = r [unfolded r_ok_def]
  have s: "unat (p_s1 st) = unat (p_r1 st) * 5" "unat (p_s2 st) = unat (p_r2 st) * 5"
    "unat (p_s3 st) = unat (p_r3 st) * 5" "unat (p_s4 st) = unat (p_r4 st) * 5"
    using rb by (simp_all add: unat_times_5)
  have sb: "unat (p_s1 st) \<le> 0x3ffff03 * 5" "unat (p_s2 st) \<le> 0x3ffc0ff * 5" "unat (p_s3 st) \<le> 0x3f03fff * 5" "unat (p_s4 st) \<le> 0xfffff * 5"
    using rb unfolding s by simp_all
  define w0 where "w0 = mul32x32_64 (p_h0 st) (p_r0 st) + mul32x32_64 (p_h1 st) (p_s4 st) + mul32x32_64 (p_h2 st) (p_s3 st) + mul32x32_64 (p_h3 st) (p_s2 st) + mul32x32_64 (p_h4 st) (p_s1 st)"
  define w1 where "w1 = mul32x32_64 (p_h0 st) (p_r1 st) + mul32x32_64 (p_h1 st) (p_r0 st) + mul32x32_64 (p_h2 st) (p_s4 st) + mul32x32_64 (p_h3 st) (p_s3 st) + mul32x32_64 (p_h4 st) (p_s2 st)"
  define w2 where "w2 = mul32x32_64 (p_h0 st) (p_r2 st) + mul32x32_64 (p_h1 st) (p_r1 st) + mul32x32_64 (p_h2 st) (p_r0 st) + mul32x32_64 (p_h3 st) (p_s4 st) + mul32x32_64 (p_h4 st) (p_s3 st)"
  define w3 where "w3 = mul32x32_64 (p_h0 st) (p_r3 st) + mul32x32_64 (p_h1 st) (p_r2 st) + mul32x32_64 (p_h2 st) (p_r1 st) + mul32x32_64 (p_h3 st) (p_r0 st) + mul32x32_64 (p_h4 st) (p_s4 st)"
  define w4 where "w4 = mul32x32_64 (p_h0 st) (p_r4 st) + mul32x32_64 (p_h1 st) (p_r3 st) + mul32x32_64 (p_h2 st) (p_r2 st) + mul32x32_64 (p_h3 st) (p_r1 st) + mul32x32_64 (p_h4 st) (p_r0 st)"
  define t0 where "t0 = unat (p_h0 st) * unat (p_r0 st) + unat (p_h1 st) * unat (p_s4 st) + unat (p_h2 st) * unat (p_s3 st) + unat (p_h3 st) * unat (p_s2 st) + unat (p_h4 st) * unat (p_s1 st)"
  define t1 where "t1 = unat (p_h0 st) * unat (p_r1 st) + unat (p_h1 st) * unat (p_r0 st) + unat (p_h2 st) * unat (p_s4 st) + unat (p_h3 st) * unat (p_s3 st) + unat (p_h4 st) * unat (p_s2 st)"
  define t2 where "t2 = unat (p_h0 st) * unat (p_r2 st) + unat (p_h1 st) * unat (p_r1 st) + unat (p_h2 st) * unat (p_r0 st) + unat (p_h3 st) * unat (p_s4 st) + unat (p_h4 st) * unat (p_s3 st)"
  define t3 where "t3 = unat (p_h0 st) * unat (p_r3 st) + unat (p_h1 st) * unat (p_r2 st) + unat (p_h2 st) * unat (p_r1 st) + unat (p_h3 st) * unat (p_r0 st) + unat (p_h4 st) * unat (p_s4 st)"
  define t4 where "t4 = unat (p_h0 st) * unat (p_r4 st) + unat (p_h1 st) * unat (p_r3 st) + unat (p_h2 st) * unat (p_r2 st) + unat (p_h3 st) * unat (p_r1 st) + unat (p_h4 st) * unat (p_r0 st)"
  have b0: "t0 \<le> 2864108863 * 0x3ffffff + 134217726 * (0xfffff * 5) + 134217726 * (0x3f03fff * 5) + 134217726 * (0x3ffc0ff * 5) + 100663294 * (0x3ffff03 * 5)"
    unfolding t0_def using hb rb sb by (intro mul_sum_bound) auto
  have b1: "t1 \<le> 2864108863 * 0x3ffff03 + 134217726 * 0x3ffffff + 134217726 * (0xfffff * 5) + 134217726 * (0x3f03fff * 5) + 100663294 * (0x3ffc0ff * 5)"
    unfolding t1_def using hb rb sb by (intro mul_sum_bound) auto
  have b2: "t2 \<le> 2864108863 * 0x3ffc0ff + 134217726 * 0x3ffff03 + 134217726 * 0x3ffffff + 134217726 * (0xfffff * 5) + 100663294 * (0x3f03fff * 5)"
    unfolding t2_def using hb rb sb by (intro mul_sum_bound) auto
  have b3: "t3 \<le> 2864108863 * 0x3f03fff + 134217726 * 0x3ffc0ff + 134217726 * 0x3ffff03 + 134217726 * 0x3ffffff + 100663294 * (0xfffff * 5)"
    unfolding t3_def using hb rb sb by (intro mul_sum_bound) auto
  have b4: "t4 \<le> 2864108863 * 0xfffff + 134217726 * 0x3f03fff + 134217726 * 0x3ffc0ff + 134217726 * 0x3ffff03 + 100663294 * 0x3ffffff"
    unfolding t4_def using hb rb sb by (intro mul_sum_bound) auto
  define u1 where "u1 = t1 + t0 div 2 ^ 26"
  define u2 where "u2 = t2 + u1 div 2 ^ 26"
  define u3 where "u3 = t3 + u2 div 2 ^ 26"
  define u4 where "u4 = t4 + u3 div 2 ^ 26"
  have c0: "t0 div 2 ^ 26 \<le> 4709603182" using b0 by simp
  have c1: "u1 < 2 ^ 58" using b1 c0 unfolding u1_def by simp
  have c2: "u2 < 2 ^ 58" using b2 c1 unfolding u2_def by simp
  have c3: "u3 < 2 ^ 58" using b3 c2 unfolding u3_def by simp
  have c4: "u4 div 2 ^ 26 \<le> 545978000" using b4 c3 unfolding u4_def by simp
  have w: "unat w0 = t0" "unat w1 = t1" "unat w2 = t2" "unat w3 = t3" "unat w4 = t4"
    subgoal unfolding w0_def t0_def by (rule mul_sum) (rule le_less_trans [OF b0 [unfolded t0_def]], simp)
    subgoal unfolding w1_def t1_def by (rule mul_sum) (rule le_less_trans [OF b1 [unfolded t1_def]], simp)
    subgoal unfolding w2_def t2_def by (rule mul_sum) (rule le_less_trans [OF b2 [unfolded t2_def]], simp)
    subgoal unfolding w3_def t3_def by (rule mul_sum) (rule le_less_trans [OF b3 [unfolded t3_def]], simp)
    subgoal unfolding w4_def t4_def by (rule mul_sum) (rule le_less_trans [OF b4 [unfolded t4_def]], simp)
    done
  define v1 where "v1 = w1 + drop_bit 26 w0"
  define v2 where "v2 = w2 + ucast (ucast (drop_bit 26 v1) :: u32)"
  define v3 where "v3 = w3 + ucast (ucast (drop_bit 26 v2) :: u32)"
  define v4 where "v4 = w4 + ucast (ucast (drop_bit 26 v3) :: u32)"
  have v1: "unat v1 = u1" using w c1 unfolding v1_def u1_def by (subst unat_add64) (simp_all add: unat_drop_bit_div)
  have v2: "unat v2 = u2" using w v1 c1 c2 unfolding v2_def u2_def by (subst unat_add64) (simp_all add: unat_up64 high26)
  have v3: "unat v3 = u3" using w v2 c2 c3 unfolding v3_def u3_def by (subst unat_add64) (simp_all add: unat_up64 high26)
  have v4: "unat v4 = u4" using w v3 c3 b4 unfolding v4_def u4_def by (subst unat_add64) (simp_all add: unat_up64 high26)
  have m: "poly1305_mul st = st\<lparr>p_h0 := (ucast w0 AND 0x3ffffff) + ucast (drop_bit 26 v4) * 5, p_h1 := ucast v1 AND 0x3ffffff,
      p_h2 := ucast v2 AND 0x3ffffff, p_h3 := ucast v3 AND 0x3ffffff, p_h4 := ucast v4 AND 0x3ffffff\<rparr>"
    unfolding poly1305_mul_def Let_def v4_def v3_def v2_def v1_def w0_def w1_def w2_def w3_def w4_def by (rule refl)
  have "u4 < 2 ^ 58" using b4 c3 unfolding u4_def by simp
  then have b: "unat (ucast (drop_bit 26 v4) :: u32) = u4 div 2 ^ 26" using high26 [of v4] v4 by simp
  have h0: "unat ((ucast w0 AND 0x3ffffff) + ucast (drop_bit 26 v4) * 5 :: u32) = t0 mod 2 ^ 26 + u4 div 2 ^ 26 * 5"
  proof -
    have "t0 mod 2 ^ 26 < 2 ^ 26" by simp
    then show ?thesis using c4 b low26 [of w0] w(1) by (simp add: unat_word_ariths)
  qed
  have "H_val (poly1305_mul st) + P1305 * (u4 div 2 ^ 26) = limbs t0 t1 t2 t3 t4"
    unfolding H_val_def m using h0 limbs_carry [OF u1_def u2_def u3_def u4_def] by (simp add: low26 v1 v2 v3 v4)
  moreover have "(\<exists>k. H_val st * R_val st = limbs t0 t1 t2 t3 t4 + P1305 * k)"
    unfolding H_val_def R_val_def limbs_mult t0_def t1_def t2_def t3_def t4_def s by blast
  ultimately have "H_val (poly1305_mul st) mod P1305 = H_val st * R_val st mod P1305"
    by (metis mod_mult_self2)
  moreover have "h_ok (poly1305_mul st)"
  proof -
    have "t0 mod 2 ^ 26 < 2 ^ 26" by simp
    then show ?thesis unfolding h_ok_def m using h0 c4 by (simp add: low26)
  qed
  ultimately show ?thesis by simp
qed

section \<open>Loading limbs\<close>

lemma le_val_take: "le_val (take n xs) = le_val xs mod 256 ^ n"
proof (cases "n \<le> length xs")
  case True
  then have "le_val xs = le_val (take n xs) + 256 ^ n * le_val (drop n xs)"
    using le_val_append [of "take n xs" "drop n xs"] by simp
  moreover have "le_val (take n xs) < 256 ^ n" using le_val_less [of "take n xs"] True by (simp add: min_absorb2)
  ultimately show ?thesis by simp
next
  case False
  have "le_val xs < 256 ^ length xs" by (rule le_val_less)
  also have "(256 :: nat) ^ length xs \<le> 256 ^ n" using False by (intro power_increasing) simp_all
  finally show ?thesis using False by simp
qed

lemma le_val_drop: "le_val (drop n xs) = le_val xs div 256 ^ n"
proof (cases "n \<le> length xs")
  case True
  then have "le_val xs = le_val (take n xs) + 256 ^ n * le_val (drop n xs)"
    using le_val_append [of "take n xs" "drop n xs"] by simp
  moreover have "le_val (take n xs) < 256 ^ n" using le_val_less [of "take n xs"] True by (simp add: min_absorb2)
  ultimately show ?thesis by simp
next
  case False
  have "le_val xs < 256 ^ length xs" by (rule le_val_less)
  also have "(256 :: nat) ^ length xs \<le> 256 ^ n" using False by (intro power_increasing) simp_all
  finally show ?thesis using False by simp
qed

lemma unat_U8TO32_LE: "unat (U8TO32_LE m k) = take_bit 32 (drop_bit (8 * k) (le_val m))"
proof -
  have "le_val (take 4 (drop k m)) = take_bit 32 (drop_bit (8 * k) (le_val m))"
    by (simp add: le_val_take le_val_drop take_bit_eq_mod drop_bit_eq_div power_mult)
  then show ?thesis by (simp add: U8TO32_LE_def unsigned_of_nat)
qed

text \<open>The limbs of a number.\<close>

definition limb :: "nat \<Rightarrow> nat \<Rightarrow> nat" where
  "limb k v = take_bit 26 (drop_bit (26 * k) v)"

lemma limb_less: "limb k v < 2 ^ 26"
  unfolding limb_def by (rule take_bit_nat_less_exp)

lemma limbs_limb: "limbs (limb 0 v) (limb 1 v) (limb 2 v) (limb 3 v) (drop_bit 104 v) = v"
proof -
  have d: "drop_bit (26 * k) v = limb k v + 2 ^ 26 * drop_bit (26 * Suc k) v" for k
  proof -
    have "drop_bit (26 * Suc k) v = drop_bit (26 * k) v div 2 ^ 26"
      by (simp add: drop_bit_eq_div power_add div_mult2_eq mult.commute)
    then show ?thesis by (simp add: limb_def take_bit_eq_mod)
  qed
  show ?thesis using d [of 0] d [of 1] d [of 2] d [of 3] unfolding limbs_def by simp
qed

lemma limb_4: "v < 2 ^ 130 \<Longrightarrow> limb 4 v = drop_bit 104 v"
  by (simp add: limb_def take_bit_nat_eq_self drop_bit_eq_div less_mult_imp_div_less)

lemma limb_bits:
  fixes v :: nat
  assumes "a = take_bit 32 (drop_bit (32 * k) v)" "b = take_bit 32 (drop_bit (32 + 32 * k) v)" "s + 26 \<le> 64"
  shows "take_bit 26 (drop_bit s (take_bit 64 (push_bit 32 b) OR a)) = take_bit 26 (drop_bit (s + 32 * k) v)"
proof (rule bit_eqI)
  fix n
  show "bit (take_bit 26 (drop_bit s (take_bit 64 (push_bit 32 b) OR a))) n = bit (take_bit 26 (drop_bit (s + 32 * k) v)) n"
  proof (cases "s + n < 32")
    case True
    then show ?thesis using assms by (auto simp: bit_simps ac_simps)
  next
    case False
    then have "32 + 32 * k + (s + n - 32) = s + 32 * k + n" by simp
    then show ?thesis using False assms by (auto simp: bit_simps ac_simps)
  qed
qed

lemma unat_drop_bit: "unat (drop_bit n w) = drop_bit n (unat w)"
  by (simp only: unat_drop_bit_div) (simp only: drop_bit_eq_div)

lemma unat_limb:
  fixes t0 t1 :: u32
  assumes "unat t0 = take_bit 32 (drop_bit (32 * k) v)" "unat t1 = take_bit 32 (drop_bit (32 + 32 * k) v)" "s + 26 \<le> 64"
  shows "unat (ucast (drop_bit s (push_bit 32 (ucast t1) OR ucast t0 :: u64) AND 0x3ffffff) :: u32) = take_bit 26 (drop_bit (s + 32 * k) v)"
proof -
  have m: "(0x3ffffff :: u64) = mask 26" by (simp add: mask_eq_exp_minus_1)
  have "unat (push_bit 32 (ucast t1) OR ucast t0 :: u64) = take_bit 64 (push_bit 32 (unat t1)) OR unat t0"
    by (simp add: unsigned_or_eq unsigned_push_bit_eq unat_up64)
  then have "unat (take_bit 26 (drop_bit s (push_bit 32 (ucast t1) OR ucast t0 :: u64))) = take_bit 26 (drop_bit (s + 32 * k) v)"
    by (simp only: unsigned_take_bit_eq unat_drop_bit limb_bits [OF assms])
  moreover have "drop_bit s (push_bit 32 (ucast t1) OR ucast t0 :: u64) AND 0x3ffffff = take_bit 26 (drop_bit s (push_bit 32 (ucast t1) OR ucast t0))"
    by (simp only: take_bit_eq_mask m)
  moreover have "take_bit 26 (drop_bit (s + 32 * k) v) < 2 ^ 32"
    by (rule less_trans [OF take_bit_nat_less_exp]) simp
  ultimately show ?thesis by (simp only: unat_ucast_mod) simp
qed

lemma unat_add32: "unat a + unat b < 2 ^ 32 \<Longrightarrow> unat (a + b :: u32) = unat a + unat b"
  by (simp add: unat_word_ariths)

lemma poly1305_add_val:
  assumes h: "h_ok st" and m: "length m = 16" and hi: "hibit = 0 \<or> hibit = 0x1000000"
  shows "added_ok (poly1305_add hibit m st) \<and> H_val (poly1305_add hibit m st) = H_val st + le_val m + 2 ^ 104 * unat hibit"
proof -
  let ?v = "le_val m"
  have v: "?v < 2 ^ 128" using le_val_less [of m] m by simp
  note hb = h [unfolded h_ok_def]
  have M: "(0x3ffffff :: u32) = mask 26" by (simp add: mask_eq_exp_minus_1)
  have "U8TO32_LE m 0 AND 0x3ffffff = take_bit 26 (U8TO32_LE m 0)" by (simp only: take_bit_eq_mask M)
  then have l0: "unat (U8TO32_LE m 0 AND 0x3ffffff) = limb 0 ?v"
    by (simp add: unsigned_take_bit_eq unat_U8TO32_LE limb_def)
  have l1: "unat (ucast (drop_bit 26 (push_bit 32 (ucast (U8TO32_LE m 4)) OR ucast (U8TO32_LE m 0) :: u64) AND 0x3ffffff) :: u32) = limb 1 ?v"
    by (subst unat_limb [where k = 0 and v = ?v]) (simp_all add: unat_U8TO32_LE limb_def)
  have l2: "unat (ucast (drop_bit 20 (push_bit 32 (ucast (U8TO32_LE m 8)) OR ucast (U8TO32_LE m 4) :: u64) AND 0x3ffffff) :: u32) = limb 2 ?v"
    by (subst unat_limb [where k = 1 and v = ?v]) (simp_all add: unat_U8TO32_LE limb_def)
  have l3: "unat (ucast (drop_bit 14 (push_bit 32 (ucast (U8TO32_LE m 12)) OR ucast (U8TO32_LE m 8) :: u64) AND 0x3ffffff) :: u32) = limb 3 ?v"
    by (subst unat_limb [where k = 2 and v = ?v]) (simp_all add: unat_U8TO32_LE limb_def)
  have d: "drop_bit 104 ?v < 2 ^ 24" using v by (simp add: drop_bit_eq_div less_mult_imp_div_less)
  have "take_bit 32 (drop_bit 96 ?v) = drop_bit 96 ?v"
    using v by (intro take_bit_nat_eq_self) (simp add: drop_bit_eq_div less_mult_imp_div_less)
  then have t3: "unat (drop_bit 8 (U8TO32_LE m 12)) = drop_bit 104 ?v"
    by (simp only: unat_drop_bit unat_U8TO32_LE) simp
  have l4: "unat (drop_bit 8 (U8TO32_LE m 12) OR hibit) = drop_bit 104 ?v + unat hibit"
  proof (cases "hibit = 0")
    case False
    then have "hibit = 0x1000000" using hi by simp
    moreover have "unat ((0x1000000 :: u32) OR drop_bit 8 (U8TO32_LE m 12)) = 0x1000000 + drop_bit 104 ?v"
      using t3 d by (subst unat_or_add [of 24]) simp_all
    ultimately show ?thesis by (simp add: or.commute)
  qed (simp add: t3)
  have hb': "unat hibit \<le> 0x1000000" using hi by auto
  note s = limb_less [of 0 ?v] limb_less [of 1 ?v] limb_less [of 2 ?v] limb_less [of 3 ?v] d
  let ?s = "poly1305_add hibit m st"
  have e: "unat (p_h0 ?s) = unat (p_h0 st) + limb 0 ?v" "unat (p_h1 ?s) = unat (p_h1 st) + limb 1 ?v"
    "unat (p_h2 ?s) = unat (p_h2 st) + limb 2 ?v" "unat (p_h3 ?s) = unat (p_h3 st) + limb 3 ?v"
    "unat (p_h4 ?s) = unat (p_h4 st) + (drop_bit 104 ?v + unat hibit)"
  proof -
    obtain w0 w1 w2 w3 w4 where w: "poly1305_add hibit m st =
        st\<lparr>p_h0 := p_h0 st + w0, p_h1 := p_h1 st + w1, p_h2 := p_h2 st + w2, p_h3 := p_h3 st + w3, p_h4 := p_h4 st + w4\<rparr>"
      "unat w0 = limb 0 ?v" "unat w1 = limb 1 ?v" "unat w2 = limb 2 ?v" "unat w3 = limb 3 ?v" "unat w4 = drop_bit 104 ?v + unat hibit"
      using l0 l1 l2 l3 l4 unfolding poly1305_add_def Let_def by blast
    show "unat (p_h0 ?s) = unat (p_h0 st) + limb 0 ?v" "unat (p_h1 ?s) = unat (p_h1 st) + limb 1 ?v"
      "unat (p_h2 ?s) = unat (p_h2 st) + limb 2 ?v" "unat (p_h3 ?s) = unat (p_h3 st) + limb 3 ?v"
      "unat (p_h4 ?s) = unat (p_h4 st) + (drop_bit 104 ?v + unat hibit)"
      unfolding w(1) using hb s hb' by (simp_all add: unat_add32 w(2-6))
  qed
  have "added_ok ?s" unfolding added_ok_def e using hb s hb' by simp
  moreover have "H_val ?s = H_val st + limbs (limb 0 ?v) (limb 1 ?v) (limb 2 ?v) (limb 3 ?v) (drop_bit 104 ?v) + 2 ^ 104 * unat hibit"
    unfolding H_val_def e limbs_def by (simp add: algebra_simps)
  ultimately show ?thesis by (simp only: limbs_limb)
qed

section \<open>The clamped key\<close>

lemma unat_push_bit32: "unat (push_bit n w :: u32) = take_bit 32 (push_bit n (unat w))"
  by (simp add: unsigned_push_bit_eq)

lemma and_limb: "c < 2 ^ 26 \<Longrightarrow> take_bit 26 a = take_bit 26 b \<Longrightarrow> a AND c = b AND c" for c :: nat
proof -
  assume c: "c < 2 ^ 26" and ab: "take_bit 26 a = take_bit 26 b"
  have "x AND c = take_bit 26 x AND c" for x
  proof -
    have "c = take_bit 26 c" using c by (simp add: take_bit_nat_eq_self)
    then have "x AND c = x AND take_bit 26 c" by simp
    also have "\<dots> = take_bit 26 x AND c" by (rule bit_eqI) (use c in \<open>auto simp: bit_simps\<close>)
    finally show ?thesis .
  qed
  then show ?thesis using ab by metis
qed

lemma clamp_bits:
  fixes v :: nat
  assumes "s + b = 32" "s \<le> 26"
  shows "take_bit 26 (drop_bit s (take_bit 32 (drop_bit a v)) OR take_bit 32 (push_bit b (take_bit 32 (drop_bit (32 + a) v)))) =
    take_bit 26 (drop_bit (a + s) v)"
proof (rule bit_eqI)
  fix n
  show "bit (take_bit 26 (drop_bit s (take_bit 32 (drop_bit a v)) OR take_bit 32 (push_bit b (take_bit 32 (drop_bit (32 + a) v))))) n =
      bit (take_bit 26 (drop_bit (a + s) v)) n"
  proof (cases "s + n < 32")
    case True
    then show ?thesis using assms by (auto simp: bit_simps ac_simps)
  next
    case False
    then have "32 + a + (n - b) = a + s + n" using assms by simp
    then show ?thesis using False assms by (auto simp: bit_simps ac_simps)
  qed
qed

lemma clamp_limb:
  fixes x y m :: u32
  assumes "unat x = take_bit 32 (drop_bit a v)" "unat y = take_bit 32 (drop_bit (32 + a) v)" "s + b = 32" "s \<le> 26" "unat m < 2 ^ 26"
  shows "unat ((drop_bit s x OR push_bit b y) AND m) = take_bit 26 (drop_bit (a + s) v) AND unat m"
proof -
  have "take_bit 26 (unat (drop_bit s x OR push_bit b y)) = take_bit 26 (drop_bit (a + s) v)"
    unfolding unsigned_or_eq unat_drop_bit unat_push_bit32 assms(1,2) by (rule clamp_bits [OF assms(3,4)])
  then have "take_bit 26 (unat (drop_bit s x OR push_bit b y)) = take_bit 26 (take_bit 26 (drop_bit (a + s) v))"
    by (simp only: take_bit_take_bit min.idem)
  then show ?thesis unfolding unsigned_and_eq by (rule and_limb [OF assms(5)])
qed

lemma and_le_nat: "x AND m \<le> (m :: nat)"
proof -
  have "int (x AND m) \<le> int m" by (simp only: of_nat_and_eq) simp
  then show ?thesis by simp
qed

lemma limb_and: "limb k (v AND c) = limb k v AND limb k c"
  by (simp add: limb_def)

lemma init_key:
  fixes key st
  defines "t \<equiv> CRYPTO_poly1305_init st key"
  shows "R_val t = poly_clamp key" "r_ok t" "h_ok t" "H_val t = 0" "p_key t = take 16 (drop 16 key)" "p_buf_used t = 0" "p_buf t = p_buf st"
proof -
  define v where "v = le_val (take 16 key)"
  let ?C = "0x0ffffffc0ffffffc0ffffffc0fffffff :: nat"
  have v: "v < 2 ^ 128"
  proof -
    have "v < 256 ^ length (take 16 key)" unfolding v_def by (rule le_val_less)
    also have "(256 :: nat) ^ length (take 16 key) \<le> 256 ^ 16" by (intro power_increasing) simp_all
    finally show ?thesis by simp
  qed
  have u: "unat (U8TO32_LE key k) = take_bit 32 (drop_bit (8 * k) v)" if "k + 4 \<le> 16" for k
    using U8TO32_LE_take [OF that, of key] unat_U8TO32_LE [of "take 16 key" k] by (simp add: v_def)
  have "take_bit 32 (drop_bit 96 v) = drop_bit 96 v"
    using v by (intro take_bit_nat_eq_self) (simp add: drop_bit_eq_div less_mult_imp_div_less)
  then have u3: "unat (U8TO32_LE key 12) = drop_bit 96 v" using u [of 12] by simp
  let ?t0 = "U8TO32_LE key 0" and ?t1 = "U8TO32_LE key 4" and ?t2 = "U8TO32_LE key 8" and ?t3 = "U8TO32_LE key 12"
  have M: "(0x3ffffff :: u32) = mask 26" by (simp add: mask_eq_exp_minus_1)
  have "?t0 AND 0x3ffffff = take_bit 26 ?t0" by (simp only: take_bit_eq_mask M)
  then have "unat (?t0 AND 0x3ffffff) = limb 0 v" using u [of 0] by (simp add: unsigned_take_bit_eq limb_def)
  moreover have "limb 0 v AND 0x3ffffff = limb 0 v"
  proof -
    have "(0x3ffffff :: nat) = mask 26" by (simp add: mask_eq_exp_minus_1)
    then show ?thesis by (simp only: take_bit_eq_mask [symmetric] limb_def take_bit_take_bit min.idem)
  qed
  ultimately have r0: "unat (?t0 AND 0x3ffffff) = limb 0 v AND 0x3ffffff" by simp
  have r1: "unat ((drop_bit 26 ?t0 OR push_bit 6 ?t1) AND 0x3ffff03) = limb 1 v AND 0x3ffff03"
    by (subst clamp_limb [where a = 0 and v = v]) (use u [of 0] u [of 4] in \<open>simp_all add: limb_def\<close>)
  have r2: "unat ((drop_bit 20 ?t1 OR push_bit 12 ?t2) AND 0x3ffc0ff) = limb 2 v AND 0x3ffc0ff"
    by (subst clamp_limb [where a = 32 and v = v]) (use u [of 4] u [of 8] in \<open>simp_all add: limb_def\<close>)
  have r3: "unat ((drop_bit 14 ?t2 OR push_bit 18 ?t3) AND 0x3f03fff) = limb 3 v AND 0x3f03fff"
    by (subst clamp_limb [where a = 64 and v = v]) (use u [of 8] u [of 12] in \<open>simp_all add: limb_def\<close>)
  have r4: "unat (drop_bit 8 ?t3 AND 0x00fffff) = drop_bit 104 v AND 0xfffff"
    by (simp add: unsigned_and_eq unat_drop_bit u3)
  have c: "limb 0 ?C = 0x3ffffff" "limb 1 ?C = 0x3ffff03" "limb 2 ?C = 0x3ffc0ff" "limb 3 ?C = 0x3f03fff" "drop_bit 104 ?C = 0xfffff"
    by (simp_all add: limb_def take_bit_eq_mod drop_bit_eq_div)
  have t: "t = st\<lparr>p_r0 := ?t0 AND 0x3ffffff, p_r1 := (drop_bit 26 ?t0 OR push_bit 6 ?t1) AND 0x3ffff03,
      p_r2 := (drop_bit 20 ?t1 OR push_bit 12 ?t2) AND 0x3ffc0ff, p_r3 := (drop_bit 14 ?t2 OR push_bit 18 ?t3) AND 0x3f03fff,
      p_r4 := drop_bit 8 ?t3 AND 0x00fffff, p_s1 := ((drop_bit 26 ?t0 OR push_bit 6 ?t1) AND 0x3ffff03) * 5,
      p_s2 := ((drop_bit 20 ?t1 OR push_bit 12 ?t2) AND 0x3ffc0ff) * 5, p_s3 := ((drop_bit 14 ?t2 OR push_bit 18 ?t3) AND 0x3f03fff) * 5,
      p_s4 := (drop_bit 8 ?t3 AND 0x00fffff) * 5,
      p_h0 := 0, p_h1 := 0, p_h2 := 0, p_h3 := 0, p_h4 := 0, p_buf_used := 0, p_key := take 16 (drop 16 key)\<rparr>"
    unfolding t_def CRYPTO_poly1305_init_def Let_def by (rule refl)
  have r: "unat (p_r0 t) = limb 0 (v AND ?C)" "unat (p_r1 t) = limb 1 (v AND ?C)" "unat (p_r2 t) = limb 2 (v AND ?C)"
    "unat (p_r3 t) = limb 3 (v AND ?C)" "unat (p_r4 t) = drop_bit 104 (v AND ?C)"
    unfolding t limb_and drop_bit_and c r0 [symmetric] r1 [symmetric] r2 [symmetric] r3 [symmetric] r4 [symmetric] by simp_all
  show "R_val t = poly_clamp key" unfolding R_val_def r limbs_limb by (simp add: poly_clamp_def v_def)
  have s: "p_s1 t = p_r1 t * 5" "p_s2 t = p_r2 t * 5" "p_s3 t = p_r3 t * 5" "p_s4 t = p_r4 t * 5" by (simp_all add: t)
  show "r_ok t" unfolding r_ok_def r limb_and drop_bit_and c by (intro conjI and_le_nat s)
  show "h_ok t" "H_val t = 0" "p_key t = take 16 (drop 16 key)" "p_buf_used t = 0" "p_buf t = p_buf st"
    by (simp_all add: h_ok_def H_val_def limbs_def t)
qed

section \<open>The accumulator\<close>

definition tracks :: "u8 list \<Rightarrow> nat \<Rightarrow> poly1305_state_st \<Rightarrow> bool" where
  "tracks key a st \<longleftrightarrow> r_ok st \<and> h_ok st \<and> R_val st = poly_clamp key \<and> H_val st mod P1305 = a \<and> p_key st = take 16 (drop 16 key)"

lemma poly1305_r [simp]:
  "r_ok (poly1305_add hibit m st) = r_ok st" "R_val (poly1305_add hibit m st) = R_val st" "p_key (poly1305_add hibit m st) = p_key st"
  "r_ok (poly1305_mul st) = r_ok st" "R_val (poly1305_mul st) = R_val st" "p_key (poly1305_mul st) = p_key st"
  by (simp_all add: poly1305_add_def poly1305_mul_def Let_def r_ok_def R_val_def)

lemma tracks_step:
  assumes t: "tracks key a st" and m: "length m = 16" and hi: "hibit = 0 \<or> hibit = 0x1000000"
    and v: "le_val (b @ [1]) = le_val m + 2 ^ 104 * unat hibit"
  shows "tracks key (poly_step (poly_clamp key) b a) (poly1305_mul (poly1305_add hibit m st))"
proof -
  let ?s = "poly1305_add hibit m st"
  have st: "r_ok st" "h_ok st" "R_val st = poly_clamp key" "H_val st mod P1305 = a" "p_key st = take 16 (drop 16 key)"
    using t by (simp_all add: tracks_def)
  have s: "added_ok ?s" "H_val ?s = H_val st + le_val (b @ [1])"
    using poly1305_add_val [OF st(2) m hi] v by simp_all
  have "r_ok ?s" using st(1) by simp
  then have "h_ok (poly1305_mul ?s) \<and> H_val (poly1305_mul ?s) mod P1305 = H_val ?s * R_val ?s mod P1305"
    using s(1) by (rule poly1305_mul_val)
  moreover have "H_val ?s * R_val ?s mod P1305 = poly_step (poly_clamp key) b a"
  proof -
    have "(x + y) * z mod P1305 = (x mod P1305 + y) * z mod P1305" for x y z by (metis mod_add_left_eq mod_mult_left_eq)
    then show ?thesis unfolding s(2) poly_step_def st(4) [symmetric] by (simp only: poly1305_r st(3))
  qed
  ultimately show ?thesis using st by (simp add: tracks_def)
qed

lemma tracks_block: "tracks key a st \<Longrightarrow> length b = 16 \<Longrightarrow> tracks key (poly_step (poly_clamp key) b a) (poly1305_block b st)"
  unfolding poly1305_block_def by (rule tracks_step) (simp_all add: le_val_append)

lemma tracks_blocks:
  "tracks key a st \<Longrightarrow> \<forall>b\<in>set bs. length b = 16 \<Longrightarrow> tracks key (fold (poly_step (poly_clamp key)) bs a) (fold poly1305_block bs st)"
  by (induction bs arbitrary: a st) (simp_all add: tracks_block)

lemma tracks_last:
  assumes "tracks key a st" "length b < 16" "b \<noteq> []"
  shows "tracks key (poly_step (poly_clamp key) b a) (poly1305_update st b)"
proof -
  have z: "le_val (replicate n 0) = 0" for n by (induction n) simp_all
  have "tracks key (poly_step (poly_clamp key) b a) (poly1305_mul (poly1305_add 0 (b @ [1] @ replicate (15 - length b) 0) st))"
    using assms by (intro tracks_step) (simp_all add: le_val_append z)
  then show ?thesis using assms by (simp add: poly1305_update.simps)
qed

lemma tracks_no_buf [simp]: "tracks key a (no_buf st) = tracks key a st"
  by (simp add: tracks_def no_buf_def r_ok_def h_ok_def R_val_def H_val_def)

lemma tracks_init: "tracks key 0 (CRYPTO_poly1305_init st key)"
  using init_key [of st key] by (simp add: tracks_def)

section \<open>The last reduction\<close>

lemma low26_32: "unat (x AND 0x3ffffff :: u32) = unat x mod 2 ^ 26"
proof -
  have "(0x3ffffff :: u32) = mask 26" by (simp add: mask_eq_exp_minus_1)
  then have "x AND 0x3ffffff = take_bit 26 x" by (simp only: take_bit_eq_mask)
  then show ?thesis by (simp only: unsigned_take_bit_eq) (simp only: take_bit_eq_mod)
qed

lemma high26_32: "unat (drop_bit 26 x :: u32) = unat x div 2 ^ 26"
  by (simp add: unat_drop_bit_div)

lemma carry_one: "a < 2 ^ 26 \<Longrightarrow> b < 2 ^ 26 \<Longrightarrow> (a + b) div 2 ^ 26 \<le> 1" for a b :: nat
  using less_mult_imp_div_less [of "a + b" 2 "2 ^ 26"] by simp

lemma poly1305_carry_val:
  assumes "h_ok st"
  defines "t \<equiv> poly1305_carry st"
  shows "H_val t mod P1305 = H_val st mod P1305"
    "unat (p_h0 t) < 2 ^ 26 + 5" "unat (p_h1 t) < 2 ^ 26" "unat (p_h2 t) < 2 ^ 26" "unat (p_h3 t) < 2 ^ 26" "unat (p_h4 t) < 2 ^ 26"
    "2 ^ 26 \<le> unat (p_h0 t) \<Longrightarrow> unat (p_h1 t) < 42 \<and> unat (p_h2 t) = 0 \<and> unat (p_h3 t) = 0 \<and> unat (p_h4 t) = 0"
    "p_key t = p_key st"
proof -
  note hb = assms(1) [unfolded h_ok_def]
  define w0 where "w0 = p_h0 st"
  define w1 where "w1 = p_h1 st + drop_bit 26 w0"
  define w2 where "w2 = p_h2 st + drop_bit 26 w1"
  define w3 where "w3 = p_h3 st + drop_bit 26 w2"
  define w4 where "w4 = p_h4 st + drop_bit 26 w3"
  have t: "t = st\<lparr>p_h0 := (w0 AND 0x3ffffff) + drop_bit 26 w4 * 5, p_h1 := w1 AND 0x3ffffff, p_h2 := w2 AND 0x3ffffff,
      p_h3 := w3 AND 0x3ffffff, p_h4 := w4 AND 0x3ffffff\<rparr>"
    unfolding t_def poly1305_carry_def Let_def w4_def w3_def w2_def w1_def w0_def by simp
  have q0: "unat w0 div 2 ^ 26 < 42" using hb unfolding w0_def by (simp add: less_mult_imp_div_less)
  have u1: "unat w1 = unat (p_h1 st) + unat w0 div 2 ^ 26" using hb q0 unfolding w1_def by (subst unat_add32) (simp_all add: high26_32)
  have q1: "unat w1 div 2 ^ 26 \<le> 1" unfolding u1 by (rule carry_one) (use hb q0 in simp_all)
  have u2: "unat w2 = unat (p_h2 st) + unat w1 div 2 ^ 26" using hb q1 unfolding w2_def by (subst unat_add32) (simp_all add: high26_32)
  have q2: "unat w2 div 2 ^ 26 \<le> 1" unfolding u2 by (rule carry_one) (use hb q1 in simp_all)
  have u3: "unat w3 = unat (p_h3 st) + unat w2 div 2 ^ 26" using hb q2 unfolding w3_def by (subst unat_add32) (simp_all add: high26_32)
  have q3: "unat w3 div 2 ^ 26 \<le> 1" unfolding u3 by (rule carry_one) (use hb q2 in simp_all)
  have u4: "unat w4 = unat (p_h4 st) + unat w3 div 2 ^ 26" using hb q3 unfolding w4_def by (subst unat_add32) (simp_all add: high26_32)
  have q4: "unat w4 div 2 ^ 26 \<le> 1" unfolding u4 by (rule carry_one) (use hb q3 in simp_all)
  have m0: "unat w0 mod 2 ^ 26 < 2 ^ 26" by simp
  have h0: "unat ((w0 AND 0x3ffffff) + drop_bit 26 w4 * 5) = unat w0 mod 2 ^ 26 + unat w4 div 2 ^ 26 * 5"
    using q4 m0 by (simp add: unat_word_ariths low26_32 high26_32)
  show "unat (p_h0 t) < 2 ^ 26 + 5" using q4 m0 h0 by (simp add: t)
  show "unat (p_h1 t) < 2 ^ 26" "unat (p_h2 t) < 2 ^ 26" "unat (p_h3 t) < 2 ^ 26" "unat (p_h4 t) < 2 ^ 26" "p_key t = p_key st"
    by (simp_all add: t low26_32)
  have "H_val t + P1305 * (unat w4 div 2 ^ 26) = H_val st"
    using limbs_carry [OF u1 u2 u3 u4] h0 by (simp add: H_val_def t low26_32 w0_def)
  then show "H_val t mod P1305 = H_val st mod P1305" by (metis mod_mult_self2)
  assume "2 ^ 26 \<le> unat (p_h0 t)"
  then have "1 \<le> unat w4 div 2 ^ 26" using h0 m0 by (cases "unat w4 div 2 ^ 26 = 0") (simp_all add: t)
  then have "unat w4 = 2 ^ 26" "unat w3 div 2 ^ 26 = 1" using hb q3 unfolding u4 by auto
  moreover from this have "unat w3 = 2 ^ 26" "unat w2 div 2 ^ 26 = 1" using hb q2 unfolding u3 by auto
  moreover from this have "unat w2 = 2 ^ 26" "unat w1 div 2 ^ 26 = 1" using hb q1 unfolding u2 by auto
  moreover from this have "unat w1 mod 2 ^ 26 < 42" using hb q0 unfolding u1 by (auto simp: mod_if)
  ultimately show "unat (p_h1 t) < 42 \<and> unat (p_h2 t) = 0 \<and> unat (p_h3 t) = 0 \<and> unat (p_h4 t) = 0"
    by (simp add: t low26_32)
qed

lemma poly1305_select_val:
  assumes "unat (p_h0 t) < 2 ^ 26 + 5" "unat (p_h1 t) < 2 ^ 26" "unat (p_h2 t) < 2 ^ 26" "unat (p_h3 t) < 2 ^ 26" "unat (p_h4 t) < 2 ^ 26"
  shows "if 2 ^ 130 \<le> H_val t + 5
    then H_val (poly1305_select t) + 2 ^ 130 = H_val t + 5 \<and> unat (p_h0 (poly1305_select t)) < 2 ^ 26 \<and> unat (p_h1 (poly1305_select t)) < 2 ^ 26 \<and>
      unat (p_h2 (poly1305_select t)) < 2 ^ 26 \<and> unat (p_h3 (poly1305_select t)) < 2 ^ 26 \<and> unat (p_h4 (poly1305_select t)) < 2 ^ 26 \<and>
      p_key (poly1305_select t) = p_key t
    else poly1305_select t = t"
proof -
  define w0 where "w0 = p_h0 t + 5"
  define w1 where "w1 = p_h1 t + drop_bit 26 w0"
  define w2 where "w2 = p_h2 t + drop_bit 26 w1"
  define w3 where "w3 = p_h3 t + drop_bit 26 w2"
  define w4 where "w4 = p_h4 t + drop_bit 26 w3"
  define b where "b = drop_bit 31 (w4 - push_bit 26 1) - 1"
  have s: "poly1305_select t = t\<lparr>p_h0 := (p_h0 t AND NOT b) OR ((w0 AND 0x3ffffff) AND b), p_h1 := (p_h1 t AND NOT b) OR ((w1 AND 0x3ffffff) AND b),
      p_h2 := (p_h2 t AND NOT b) OR ((w2 AND 0x3ffffff) AND b), p_h3 := (p_h3 t AND NOT b) OR ((w3 AND 0x3ffffff) AND b),
      p_h4 := (p_h4 t AND NOT b) OR ((w4 - push_bit 26 1) AND b)\<rparr>"
    unfolding poly1305_select_def Let_def b_def w4_def w3_def w2_def w1_def w0_def by (rule refl)
  have u0: "unat w0 = unat (p_h0 t) + 5" using assms unfolding w0_def by (subst unat_add32) simp_all
  have q0: "unat w0 div 2 ^ 26 \<le> 1" unfolding u0 using assms(1) by simp
  have u1: "unat w1 = unat (p_h1 t) + unat w0 div 2 ^ 26" using assms q0 unfolding w1_def by (subst unat_add32) (simp_all add: high26_32)
  have q1: "unat w1 div 2 ^ 26 \<le> 1" unfolding u1 by (rule carry_one) (use assms q0 in simp_all)
  have u2: "unat w2 = unat (p_h2 t) + unat w1 div 2 ^ 26" using assms q1 unfolding w2_def by (subst unat_add32) (simp_all add: high26_32)
  have q2: "unat w2 div 2 ^ 26 \<le> 1" unfolding u2 by (rule carry_one) (use assms q1 in simp_all)
  have u3: "unat w3 = unat (p_h3 t) + unat w2 div 2 ^ 26" using assms q2 unfolding w3_def by (subst unat_add32) (simp_all add: high26_32)
  have q3: "unat w3 div 2 ^ 26 \<le> 1" unfolding u3 by (rule carry_one) (use assms q2 in simp_all)
  have u4: "unat w4 = unat (p_h4 t) + unat w3 div 2 ^ 26" using assms q3 unfolding w4_def by (subst unat_add32) (simp_all add: high26_32)
  have le: "unat w4 \<le> 2 ^ 26" using assms(5) q3 unfolding u4 by simp
  have v: "limbs (unat w0 mod 2 ^ 26) (unat w1 mod 2 ^ 26) (unat w2 mod 2 ^ 26) (unat w3 mod 2 ^ 26) (unat w4) = H_val t + 5"
  proof -
    have "limbs (unat w0 mod 2 ^ 26 + 0 * 5) (unat w1 mod 2 ^ 26) (unat w2 mod 2 ^ 26) (unat w3 mod 2 ^ 26) (unat w4) + P1305 * 0 =
        limbs (unat (p_h0 t) + 5) (unat (p_h1 t)) (unat (p_h2 t)) (unat (p_h3 t)) (unat (p_h4 t))"
      by (rule limbs_carry_linear [where qa = "unat w0 div 2 ^ 26" and qb = "unat w1 div 2 ^ 26" and qc = "unat w2 div 2 ^ 26" and qd = "unat w3 div 2 ^ 26"])
        (simp_all only: u0 [symmetric] u1 [symmetric] u2 [symmetric] u3 [symmetric] u4 [symmetric] mult_div_mod_eq mult_0_right add_0)
    then show ?thesis by (simp add: H_val_def limbs_def)
  qed
  have top: "2 ^ 130 \<le> H_val t + 5 \<longleftrightarrow> unat w4 = 2 ^ 26"
  proof
    assume "2 ^ 130 \<le> H_val t + 5"
    moreover have "x mod 2 ^ 26 \<le> 2 ^ 26 - 1" for x :: nat using mod_less_divisor [of "2 ^ 26" x] by simp
    from this [of "unat w0"] this [of "unat w1"] this [of "unat w2"] this [of "unat w3"]
    have "limbs (unat w0 mod 2 ^ 26) (unat w1 mod 2 ^ 26) (unat w2 mod 2 ^ 26) (unat w3 mod 2 ^ 26) (unat w4) < 2 ^ 104 * (unat w4 + 1)"
      unfolding limbs_def by simp
    ultimately show "unat w4 = 2 ^ 26" using le unfolding v by simp
  next
    assume "unat w4 = 2 ^ 26"
    then show "2 ^ 130 \<le> H_val t + 5" unfolding v [symmetric] limbs_def by simp
  qed
  show ?thesis
  proof (cases "unat w4 = 2 ^ 26")
    case True
    then have "w4 = push_bit 26 1" by (simp add: word_unat_eq_iff)
    then have b: "b = -1" "w4 - push_bit 26 1 = 0" by (simp_all add: b_def)
    have "H_val (poly1305_select t) + 2 ^ 130 = H_val t + 5"
      unfolding v [symmetric] using True unfolding s b H_val_def limbs_def by (simp add: low26_32)
    then show ?thesis unfolding if_P [OF iffD2 [OF top True]] unfolding s b by (simp add: low26_32)
  next
    case False
    then have "unat w4 < 2 ^ 26" using le by simp
    then have "unat (w4 - push_bit 26 1) = 2 ^ 32 - 2 ^ 26 + unat w4" by (simp add: unat_sub_if' word_le_nat_alt)
    then have "unat (drop_bit 31 (w4 - push_bit 26 1)) = 1" using \<open>unat w4 < 2 ^ 26\<close> by (simp only: unat_drop_bit_div) simp
    then have "drop_bit 31 (w4 - push_bit 26 1) = 1" by (simp add: word_unat_eq_iff)
    then have "b = 0" by (simp add: b_def)
    then show ?thesis using False top by (simp add: s)
  qed
qed

section \<open>The tag\<close>

lemma unat_or_push:
  fixes a b :: u32
  assumes "unat a < 2 ^ k" "k \<le> 32"
  shows "unat (a OR push_bit k b) = unat a + 2 ^ k * (unat b mod 2 ^ (32 - k))"
proof -
  have p: "unat (push_bit k b) = 2 ^ k * (unat b mod 2 ^ (32 - k))"
  proof -
    have "(2::nat) ^ 32 = 2 ^ k * 2 ^ (32 - k)" using assms(2) by (simp flip: power_add)
    then show ?thesis unfolding unat_push_bit32 by (simp only: push_bit_eq_mult take_bit_eq_mod mult.commute [of _ "2 ^ k"] mult_mod_right)
  qed
  have "unat (push_bit k b OR a) = unat (push_bit k b) + unat a" using assms(1) p by (intro unat_or_add) simp_all
  then show ?thesis using p by (simp add: or.commute)
qed

lemma tag_carry_linear:
  fixes x0 :: nat
  assumes "x0 + k0 = 2 ^ 32 * qa + m0" "x1 + k1 + qa = 2 ^ 32 * qb + m1" "x2 + k2 + qb = 2 ^ 32 * qc + m2" "x3 + k3 + qc = 2 ^ 32 * qd + m3"
  shows "(x0 + 2 ^ 32 * x1 + 2 ^ 64 * x2 + 2 ^ 96 * x3) + (k0 + 2 ^ 32 * k1 + 2 ^ 64 * k2 + 2 ^ 96 * k3) =
    (m0 + 2 ^ 32 * m1 + 2 ^ 64 * m2 + 2 ^ 96 * m3) + 2 ^ 128 * qd"
  using assms by simp

lemma tag_pack_linear:
  fixes h0 :: nat
  assumes "h1 = 2 ^ 6 * a1 + b1" "h2 = 2 ^ 12 * a2 + b2" "h3 = 2 ^ 18 * a3 + b3" "h4 = 2 ^ 24 * a4 + b4"
  shows "h0 + 2 ^ 26 * b1 + 2 ^ 32 * (a1 + 2 ^ 20 * b2) + 2 ^ 64 * (a2 + 2 ^ 14 * b3) + 2 ^ 96 * (a3 + 2 ^ 8 * b4) + 2 ^ 128 * a4 =
    limbs h0 h1 h2 h3 h4"
  unfolding assms limbs_def by simp

lemma le_val_words:
  assumes "length k = 16"
  shows "le_val k = unat (U8TO32_LE k 0) + 2 ^ 32 * unat (U8TO32_LE k 4) + 2 ^ 64 * unat (U8TO32_LE k 8) + 2 ^ 96 * unat (U8TO32_LE k 12)"
proof -
  let ?v = "le_val k"
  have "?v < 2 ^ 128" using le_val_less [of k] assms by simp
  then have "take_bit 32 (drop_bit 96 ?v) = drop_bit 96 ?v" by (intro take_bit_nat_eq_self) (simp add: drop_bit_eq_div less_mult_imp_div_less)
  moreover have "drop_bit n ?v = take_bit 32 (drop_bit n ?v) + 2 ^ 32 * drop_bit (n + 32) ?v" for n
    by (simp add: take_bit_eq_mod drop_bit_eq_div power_add div_mult2_eq)
  from this [of 0] this [of 32] this [of 64]
  have "?v = take_bit 32 ?v + 2 ^ 32 * take_bit 32 (drop_bit 32 ?v) + 2 ^ 64 * take_bit 32 (drop_bit 64 ?v) + 2 ^ 96 * drop_bit 96 ?v" by simp
  ultimately show ?thesis by (simp add: unat_U8TO32_LE)
qed

lemma unat_lo32: "unat (ucast f :: u32) = unat (f :: u64) mod 2 ^ 32"
  by (simp add: unat_ucast_mod)

lemma poly1305_tag_val:
  assumes l: "unat (p_h1 s) < 2 ^ 26" "unat (p_h2 s) < 2 ^ 26" "unat (p_h3 s) < 2 ^ 26" "unat (p_h4 s) < 2 ^ 26"
    and x0: "unat (p_h0 s OR push_bit 26 (p_h1 s)) = unat (p_h0 s) + 2 ^ 26 * (unat (p_h1 s) mod 2 ^ 6)"
    and k: "length (p_key s) = 16"
  shows "poly1305_tag s = le_bytes 16 ((H_val s + le_val (p_key s)) mod 2 ^ 128)"
proof -
  let ?k0 = "U8TO32_LE (p_key s) 0" and ?k1 = "U8TO32_LE (p_key s) 4" and ?k2 = "U8TO32_LE (p_key s) 8" and ?k3 = "U8TO32_LE (p_key s) 12"
  define y0 where "y0 = (p_h0 s OR push_bit 26 (p_h1 s))"
  define y1 where "y1 = (drop_bit 6 (p_h1 s) OR push_bit 20 (p_h2 s))"
  define y2 where "y2 = (drop_bit 12 (p_h2 s) OR push_bit 14 (p_h3 s))"
  define y3 where "y3 = (drop_bit 18 (p_h3 s) OR push_bit 8 (p_h4 s))"
  define f0 where "f0 = (ucast y0 + ucast ?k0 :: u64)"
  define f1 where "f1 = ucast y1 + ucast ?k1 + drop_bit 32 f0"
  define f2 where "f2 = ucast y2 + ucast ?k2 + drop_bit 32 f1"
  define f3 where "f3 = ucast y3 + ucast ?k3 + drop_bit 32 f2"
  have y1: "unat y1 = unat (p_h1 s) div 2 ^ 6 + 2 ^ 20 * (unat (p_h2 s) mod 2 ^ 12)"
    unfolding y1_def using l by (subst unat_or_push) (simp_all add: unat_drop_bit_div less_mult_imp_div_less)
  have y2: "unat y2 = unat (p_h2 s) div 2 ^ 12 + 2 ^ 14 * (unat (p_h3 s) mod 2 ^ 18)"
    unfolding y2_def using l by (subst unat_or_push) (simp_all add: unat_drop_bit_div less_mult_imp_div_less)
  have y3: "unat y3 = unat (p_h3 s) div 2 ^ 18 + 2 ^ 8 * (unat (p_h4 s) mod 2 ^ 24)"
    unfolding y3_def using l by (subst unat_or_push) (simp_all add: unat_drop_bit_div less_mult_imp_div_less)
  have lt: "unat x < 2 ^ 32" for x :: u32 using unat_less_exp [of x] by simp
  have q: "n < 2 ^ 64 \<Longrightarrow> n div 2 ^ 32 < 2 ^ 32" for n :: nat by (simp add: less_mult_imp_div_less)
  have g: "unat f < 2 ^ 64" for f :: u64 using unat_less_exp [of f] by simp
  have s0: "unat f0 = unat y0 + unat ?k0" unfolding f0_def using lt [of y0] lt [of ?k0] by (subst unat_add64) (simp_all add: unat_up64)
  have step: "unat (ucast y + ucast k + drop_bit 32 f :: u64) = unat y + unat k + unat f div 2 ^ 32" for y k :: u32 and f
    using lt [of y] lt [of k] q [OF g [of f]] by (simp add: unat_add64 unat_up64 unat_drop_bit_div)
  note s1 = step [of y1 ?k1 f0, folded f1_def] and s2 = step [of y2 ?k2 f1, folded f2_def] and s3 = step [of y3 ?k3 f2, folded f3_def]
  have t: "poly1305_tag s = U32TO8_LE (ucast f0) @ U32TO8_LE (ucast f1) @ U32TO8_LE (ucast f2) @ U32TO8_LE (ucast f3)"
    unfolding poly1305_tag_def Let_def f3_def f2_def f1_def f0_def y0_def y1_def y2_def y3_def by (rule refl)
  have len: "length (poly1305_tag s) = 16" by (simp add: t U32TO8_LE_def)
  have "le_val (poly1305_tag s) = unat f0 mod 2 ^ 32 + 2 ^ 32 * (unat f1 mod 2 ^ 32) + 2 ^ 64 * (unat f2 mod 2 ^ 32) + 2 ^ 96 * (unat f3 mod 2 ^ 32)"
    by (simp add: t U32TO8_LE_def le_val_append le_val_le_bytes unat_lo32)
  moreover have "(unat y0 + 2 ^ 32 * unat y1 + 2 ^ 64 * unat y2 + 2 ^ 96 * unat y3) + le_val (p_key s) =
      (unat f0 mod 2 ^ 32 + 2 ^ 32 * (unat f1 mod 2 ^ 32) + 2 ^ 64 * (unat f2 mod 2 ^ 32) + 2 ^ 96 * (unat f3 mod 2 ^ 32)) + 2 ^ 128 * (unat f3 div 2 ^ 32)"
    unfolding le_val_words [OF k]
    by (rule tag_carry_linear [where qa = "unat f0 div 2 ^ 32" and qb = "unat f1 div 2 ^ 32" and qc = "unat f2 div 2 ^ 32"])
      (simp_all only: s0 [symmetric] s1 [symmetric] s2 [symmetric] s3 [symmetric] mult_div_mod_eq)
  moreover have "unat y0 + 2 ^ 32 * unat y1 + 2 ^ 64 * unat y2 + 2 ^ 96 * unat y3 + 2 ^ 128 * (unat (p_h4 s) div 2 ^ 24) = H_val s"
    unfolding H_val_def y1 y2 y3 x0 [folded y0_def] by (rule tag_pack_linear) (simp_all only: mult_div_mod_eq)
  ultimately have "H_val s + le_val (p_key s) = le_val (poly1305_tag s) + 2 ^ 128 * (unat f3 div 2 ^ 32 + unat (p_h4 s) div 2 ^ 24)"
    unfolding distrib_left by linarith
  then have "(H_val s + le_val (p_key s)) mod 2 ^ 128 = le_val (poly1305_tag s) mod 2 ^ 128" by (simp only: mod_mult_self2)
  moreover have "le_val (poly1305_tag s) < 2 ^ 128" using le_val_less [of "poly1305_tag s"] len by simp
  ultimately show ?thesis using le_bytes_le_val [of "poly1305_tag s"] len by simp
qed

text \<open>
  The accumulators on which the last carry out of the lowest limb can be set; it is then lost in
  \<open>h0 | h1 << 26\<close>.
\<close>

definition carry_case :: "nat \<Rightarrow> bool" where
  "carry_case a \<longleftrightarrow> a mod 2 ^ 27 < 5 \<and> 0 < a div 2 ^ 27 \<and> a div 2 ^ 27 \<le> 21"

lemma reduce_tag:
  assumes t: "tracks key a st" and key: "length key = 32" and c: "\<not> carry_case a"
  shows "poly1305_tag (poly1305_select (poly1305_carry st)) = le_bytes 16 ((a + le_val (take 16 (drop 16 key))) mod 2 ^ 128)"
proof -
  have st: "h_ok st" "H_val st mod P1305 = a" "p_key st = take 16 (drop 16 key)" using t by (simp_all add: tracks_def)
  define u where "u = poly1305_carry st"
  note cv = poly1305_carry_val [OF st(1), folded u_def]
  have k: "length (p_key st) = 16" using key st(3) by simp
  have a: "H_val u mod P1305 = a" using cv(1) st(2) by simp
  have V: "H_val u < 2 ^ 130 + 5" using cv(2-6) unfolding H_val_def limbs_def by simp
  note sv = poly1305_select_val [OF cv(2-6)]
  show ?thesis
  proof (cases "2 ^ 130 \<le> H_val u + 5")
    case True
    let ?s = "poly1305_select u"
    have s: "H_val ?s + 2 ^ 130 = H_val u + 5" "unat (p_h0 ?s) < 2 ^ 26" "unat (p_h1 ?s) < 2 ^ 26" "unat (p_h2 ?s) < 2 ^ 26"
      "unat (p_h3 ?s) < 2 ^ 26" "unat (p_h4 ?s) < 2 ^ 26" "p_key ?s = p_key st"
      using sv True cv(8) by simp_all
    have e: "H_val u = H_val ?s + P1305" using s(1) by (simp add: P1305_def)
    have "H_val ?s < P1305" using s(1) V by (simp add: P1305_def)
    then have "a = H_val ?s" using a unfolding e by simp
    moreover have "poly1305_tag ?s = le_bytes 16 ((H_val ?s + le_val (p_key ?s)) mod 2 ^ 128)"
      using s k by (intro poly1305_tag_val) (simp_all add: unat_or_push)
    ultimately show ?thesis unfolding u_def [symmetric] s(7) st(3) [symmetric] by simp
  next
    case False
    then have s: "poly1305_select u = u" using sv by simp
    have "H_val u < P1305" using False by (simp add: P1305_def)
    then have av: "a = H_val u" using a by simp
    have "unat (p_h0 u OR push_bit 26 (p_h1 u)) = unat (p_h0 u) + 2 ^ 26 * (unat (p_h1 u) mod 2 ^ 6)"
    proof (cases "unat (p_h0 u) < 2 ^ 26")
      case True
      then show ?thesis by (simp add: unat_or_push)
    next
      case over: False
      then have h: "unat (p_h1 u) < 42" "unat (p_h2 u) = 0" "unat (p_h3 u) = 0" "unat (p_h4 u) = 0" using cv(7) by simp_all
      obtain e where e: "unat (p_h0 u) = 2 ^ 26 + e" "e < 5" using over cv(2) by (metis add_less_cancel_left le_Suc_ex not_less)
      have "even (unat (p_h1 u))"
      proof (rule ccontr)
        assume "odd (unat (p_h1 u))"
        then obtain g where g: "unat (p_h1 u) = 2 * g + 1" by (auto elim: oddE)
        then have "a = e + 2 ^ 27 * (g + 1)" unfolding av H_val_def limbs_def using h e by simp
        then have "a mod 2 ^ 27 = e mod 2 ^ 27" "a div 2 ^ 27 = g + 1 + e div 2 ^ 27" by (simp_all only: mod_mult_self2 div_mult_self2) simp_all
        then have "a mod 2 ^ 27 = e" "a div 2 ^ 27 = g + 1" using e(2) by simp_all
        then show False using c g h(1) e(2) by (simp add: carry_case_def)
      qed
      then obtain g where g: "unat (p_h1 u) = 2 * g" by (auto elim: evenE)
      define w where "w = (word_of_nat g :: u32)"
      have "g < 2 ^ 32" using g h(1) by simp
      then have w: "unat w = g" by (simp add: w_def unsigned_of_nat take_bit_nat_eq_self)
      have "p_h1 u = push_bit 1 w" using g h(1) w by (simp only: word_unat_eq_iff unat_push_bit32) (simp add: take_bit_nat_eq_self)
      then have "push_bit 26 (p_h1 u) = push_bit 27 w" by (simp only: push_bit_push_bit) simp
      then show ?thesis using unat_or_push [of "p_h0 u" 27 w] cv(2) g w h(1) by simp
    qed
    then have "poly1305_tag u = le_bytes 16 ((H_val u + le_val (p_key u)) mod 2 ^ 128)"
      using cv k by (intro poly1305_tag_val) simp_all
    then show ?thesis unfolding u_def [symmetric] s av cv(8) st(3) by simp
  qed
qed

lemma CRYPTO_poly1305_finish_eq:
  assumes "tracks key a st" "poly_ok st" "length key = 32"
  defines "a' \<equiv> (if poly_pending st = [] then a else poly_step (poly_clamp key) (poly_pending st) a)"
  assumes "\<not> carry_case a'"
  shows "CRYPTO_poly1305_finish st = le_bytes 16 ((a' + le_val (take 16 (drop 16 key))) mod 2 ^ 128)"
proof -
  have p: "poly_pending st = [] \<longleftrightarrow> p_buf_used st = 0" "length (poly_pending st) < 16"
    using assms(2) by (auto simp: poly_ok_def poly_pending_def)
  have "tracks key a' (if p_buf_used st \<noteq> 0 then poly1305_update st (take (p_buf_used st) (p_buf st)) else st)"
    using assms(1) p tracks_last [OF assms(1), of "poly_pending st"] by (simp add: a'_def poly_pending_def)
  then show ?thesis unfolding CRYPTO_poly1305_finish_def Let_def by (rule reduce_tag [OF _ assms(3,5)])
qed

lemma poly_stream:
  assumes "length key = 32" "length (p_buf st) = 16" "\<not> carry_case (poly_acc key (concat msgs))"
  shows "CRYPTO_poly1305_finish (foldl CRYPTO_poly1305_update (CRYPTO_poly1305_init st key) msgs) = rfc8439_poly1305 key (concat msgs)"
proof -
  let ?i = "CRYPTO_poly1305_init st key" and ?m = "concat msgs"
  let ?t = "foldl CRYPTO_poly1305_update ?i msgs"
  have i: "poly_ok ?i" "poly_pending ?i = []" using init_key [of st key] assms(2) by (simp_all add: poly_ok_def poly_pending_def)
  have ok: "poly_ok ?t" "poly_pending ?t = leftover 16 ?m" "no_buf ?t = fold poly1305_block (chunks 16 ?m) (no_buf ?i)"
    using poly.inv_foldl [OF i(1), of msgs] poly.update_many [OF i(1), of msgs] i(2) by simp_all
  have "tracks key (fold (poly_step (poly_clamp key)) (chunks 16 ?m) 0) (no_buf ?t)"
    unfolding ok(3) using length_in_chunks by (intro tracks_blocks) (auto simp: tracks_init)
  then have "tracks key (fold (poly_step (poly_clamp key)) (chunks 16 ?m) 0) ?t" by simp
  note f = CRYPTO_poly1305_finish_eq [OF this ok(1) assms(1)]
  have a: "poly_acc key ?m = (if poly_pending ?t = [] then fold (poly_step (poly_clamp key)) (chunks 16 ?m) 0
      else poly_step (poly_clamp key) (poly_pending ?t) (fold (poly_step (poly_clamp key)) (chunks 16 ?m) 0))"
    by (simp add: poly_acc_def poly_blocks_def ok(2))
  show ?thesis using f assms(3) unfolding rfc8439_poly1305_def a by simp
qed

section \<open>Examples\<close>

lemma replicate16: "replicate 16 x = [x, x, x, x, x, x, x, x, x, x, x, x, x, x, x, x]"
  by (simp add: numeral_eq_Suc)

lemma replicate4: "replicate 4 x = [x, x, x, x]"
  by (simp add: numeral_eq_Suc)

definition poly1305_uninit :: poly1305_state_st where
  "poly1305_uninit =
     \<lparr>p_r0 = 0, p_r1 = 0, p_r2 = 0, p_r3 = 0, p_r4 = 0, p_s1 = 0, p_s2 = 0, p_s3 = 0, p_s4 = 0,
      p_h0 = 0, p_h1 = 0, p_h2 = 0, p_h3 = 0, p_h4 = 0, p_buf = replicate 16 0, p_buf_used = 0, p_key = []\<rparr>"

lemma poly_clamp_rep:
  "poly_clamp (replicate 32 1) = 0x1010100010101000101010001010101" "poly_clamp (replicate 32 7) = 0x7070704070707040707070407070707"
  by (simp_all add: poly_clamp_def replicate16)

lemma poly_acc_rep:
  "poly_acc (replicate 32 1) [1, 2, 3] = 0x206040506060405060604050607074806"
  "poly_acc (replicate 32 7) [0xea, 0x87, 0x5a, 0x3, 0xe9, 0x49, 0xf7, 0xc5, 0xc3, 0x3f, 0xe3, 0xd2, 0x3c, 0x54, 0xc, 0x6] = 0x8000002"
  by (simp_all add: poly_acc_def poly_blocks_def chunks.simps leftover.simps poly_step_def poly_clamp_rep P1305_def)

lemma rep_words: "k \<le> 28 \<Longrightarrow> U8TO32_LE (replicate 32 7) k = 0x7070707"
  by (simp add: U8TO32_LE_def min_absorb1 replicate4)

lemma bad_init:
  "CRYPTO_poly1305_init poly1305_uninit (replicate 32 7) =
     \<lparr>p_r0 = 50792199, p_r1 = 29475073, p_r2 = 7356528, p_r3 = 1055772, p_r4 = 460551, p_s1 = 147375365, p_s2 = 36782640, p_s3 = 5278860, p_s4 = 2302755,
      p_h0 = 0, p_h1 = 0, p_h2 = 0, p_h3 = 0, p_h4 = 0, p_buf = replicate 16 0, p_buf_used = 0, p_key = replicate 16 7\<rparr>"
  by (simp add: CRYPTO_poly1305_init_def rep_words poly1305_uninit_def Let_def)

lemma bad_added:
  "poly1305_add 0x1000000 [0xea, 0x87, 0x5a, 0x3, 0xe9, 0x49, 0xf7, 0xc5, 0xc3, 0x3f, 0xe3, 0xd2, 0x3c, 0x54, 0xc, 0x6]
     \<lparr>p_r0 = 50792199, p_r1 = 29475073, p_r2 = 7356528, p_r3 = 1055772, p_r4 = 460551, p_s1 = 147375365, p_s2 = 36782640, p_s3 = 5278860, p_s4 = 2302755,
      p_h0 = 0, p_h1 = 0, p_h2 = 0, p_h3 = 0, p_h4 = 0, p_buf = replicate 16 0, p_buf_used = 0, p_key = replicate 16 7\<rparr> =
     \<lparr>p_r0 = 50792199, p_r1 = 29475073, p_r2 = 7356528, p_r3 = 1055772, p_r4 = 460551, p_s1 = 147375365, p_s2 = 36782640, p_s3 = 5278860, p_s4 = 2302755,
      p_h0 = 56264682, p_h1 = 30571072, p_h2 = 66862175, p_h3 = 15944588, p_h4 = 17173588, p_buf = replicate 16 0, p_buf_used = 0, p_key = replicate 16 7\<rparr>"
  by (simp add: poly1305_add_def U8TO32_LE_def Let_def)

lemma bad_mul:
  "poly1305_mul
     \<lparr>p_r0 = 50792199, p_r1 = 29475073, p_r2 = 7356528, p_r3 = 1055772, p_r4 = 460551, p_s1 = 147375365, p_s2 = 36782640, p_s3 = 5278860, p_s4 = 2302755,
      p_h0 = 56264682, p_h1 = 30571072, p_h2 = 66862175, p_h3 = 15944588, p_h4 = 17173588, p_buf = replicate 16 0, p_buf_used = 0, p_key = replicate 16 7\<rparr> =
     \<lparr>p_r0 = 50792199, p_r1 = 29475073, p_r2 = 7356528, p_r3 = 1055772, p_r4 = 460551, p_s1 = 147375365, p_s2 = 36782640, p_s3 = 5278860, p_s4 = 2302755,
      p_h0 = 201326589, p_h1 = 67108863, p_h2 = 67108863, p_h3 = 67108863, p_h4 = 67108863, p_buf = replicate 16 0, p_buf_used = 0, p_key = replicate 16 7\<rparr>"
  by (simp add: poly1305_mul_def mul32x32_64_def Let_def)

lemma bad_carry:
  "poly1305_carry
     \<lparr>p_r0 = 50792199, p_r1 = 29475073, p_r2 = 7356528, p_r3 = 1055772, p_r4 = 460551, p_s1 = 147375365, p_s2 = 36782640, p_s3 = 5278860, p_s4 = 2302755,
      p_h0 = 201326589, p_h1 = 67108863, p_h2 = 67108863, p_h3 = 67108863, p_h4 = 67108863, p_buf = replicate 16 0, p_buf_used = 0, p_key = replicate 16 7\<rparr> =
     \<lparr>p_r0 = 50792199, p_r1 = 29475073, p_r2 = 7356528, p_r3 = 1055772, p_r4 = 460551, p_s1 = 147375365, p_s2 = 36782640, p_s3 = 5278860, p_s4 = 2302755,
      p_h0 = 67108866, p_h1 = 1, p_h2 = 0, p_h3 = 0, p_h4 = 0, p_buf = replicate 16 0, p_buf_used = 0, p_key = replicate 16 7\<rparr>"
  by (simp add: poly1305_carry_def Let_def)

lemma bad_select:
  "poly1305_select
     \<lparr>p_r0 = 50792199, p_r1 = 29475073, p_r2 = 7356528, p_r3 = 1055772, p_r4 = 460551, p_s1 = 147375365, p_s2 = 36782640, p_s3 = 5278860, p_s4 = 2302755,
      p_h0 = 67108866, p_h1 = 1, p_h2 = 0, p_h3 = 0, p_h4 = 0, p_buf = replicate 16 0, p_buf_used = 0, p_key = replicate 16 7\<rparr> =
     \<lparr>p_r0 = 50792199, p_r1 = 29475073, p_r2 = 7356528, p_r3 = 1055772, p_r4 = 460551, p_s1 = 147375365, p_s2 = 36782640, p_s3 = 5278860, p_s4 = 2302755,
      p_h0 = 67108866, p_h1 = 1, p_h2 = 0, p_h3 = 0, p_h4 = 0, p_buf = replicate 16 0, p_buf_used = 0, p_key = replicate 16 7\<rparr>"
  by (simp add: poly1305_select_def Let_def)

lemma bad_tag:
  "poly1305_tag
     \<lparr>p_r0 = 50792199, p_r1 = 29475073, p_r2 = 7356528, p_r3 = 1055772, p_r4 = 460551, p_s1 = 147375365, p_s2 = 36782640, p_s3 = 5278860, p_s4 = 2302755,
      p_h0 = 67108866, p_h1 = 1, p_h2 = 0, p_h3 = 0, p_h4 = 0, p_buf = replicate 16 0, p_buf_used = 0, p_key = replicate 16 7\<rparr> =
     [9, 7, 7, 11, 7, 7, 7, 7, 7, 7, 7, 7, 7, 7, 7, 7]"
  by (simp add: poly1305_tag_def U8TO32_LE_def U32TO8_LE_def min_absorb1 replicate4 le_bytes_rev be_bytes_4 Let_def)

text \<open>
  C37. Poly1305: a message fed in any pieces to \<open>CRYPTO_poly1305_update\<close> gets the tag of RFC 8439, unless the
  accumulator ends on one of the 105 values of \<open>carry_case\<close>.
\<close>

theorem poly1305_rfc8439:
  assumes "length key = 32" "length (p_buf st) = 16" "\<not> carry_case (poly_acc key (concat msgs))"
  shows "CRYPTO_poly1305_finish (foldl CRYPTO_poly1305_update (CRYPTO_poly1305_init st key) msgs) = rfc8439_poly1305 key (concat msgs)"
  by (rule poly_stream [OF assms])

theorem poly1305_rfc8439_witness:
  "CRYPTO_poly1305_finish (foldl CRYPTO_poly1305_update (CRYPTO_poly1305_init poly1305_uninit (replicate 32 1)) [[1, 2], [3]]) =
    rfc8439_poly1305 (replicate 32 1) [1, 2, 3]"
proof -
  have "\<not> carry_case (poly_acc (replicate 32 1) (concat [[1, 2], [3]]))" by (simp add: poly_acc_rep carry_case_def)
  moreover have "length (p_buf poly1305_uninit) = 16" by (simp add: poly1305_uninit_def)
  ultimately show ?thesis using poly1305_rfc8439 [of "replicate 32 1" poly1305_uninit "[[1, 2], [3]]"] by simp
qed

text \<open>
  C6. The dropped carry shows: there is a key and a message of one block whose tag is not that of RFC 8439.
\<close>

theorem poly1305_dropped_carry:
  "CRYPTO_poly1305_finish (CRYPTO_poly1305_update (CRYPTO_poly1305_init poly1305_uninit (replicate 32 7))
     [0xea, 0x87, 0x5a, 0x3, 0xe9, 0x49, 0xf7, 0xc5, 0xc3, 0x3f, 0xe3, 0xd2, 0x3c, 0x54, 0xc, 0x6]) =
     [9, 7, 7, 11, 7, 7, 7, 7, 7, 7, 7, 7, 7, 7, 7, 7] \<and>
   rfc8439_poly1305 (replicate 32 7)
     [0xea, 0x87, 0x5a, 0x3, 0xe9, 0x49, 0xf7, 0xc5, 0xc3, 0x3f, 0xe3, 0xd2, 0x3c, 0x54, 0xc, 0x6] =
     [9, 7, 7, 15, 7, 7, 7, 7, 7, 7, 7, 7, 7, 7, 7, 7]"
proof -
  let ?m = "[0xea, 0x87, 0x5a, 0x3, 0xe9, 0x49, 0xf7, 0xc5, 0xc3, 0x3f, 0xe3, 0xd2, 0x3c, 0x54, 0xc, 0x6]"
  have "CRYPTO_poly1305_update st ?m = poly1305_mul (poly1305_add 0x1000000 ?m st)" if "p_buf_used st = 0" for st
    using that by (simp add: CRYPTO_poly1305_update_def poly1305_update.simps)
  then have t: "CRYPTO_poly1305_finish (CRYPTO_poly1305_update (CRYPTO_poly1305_init poly1305_uninit (replicate 32 7)) ?m) =
      [9, 7, 7, 11, 7, 7, 7, 7, 7, 7, 7, 7, 7, 7, 7, 7]"
    by (simp add: bad_init bad_added bad_mul bad_carry bad_select bad_tag CRYPTO_poly1305_finish_def)
  have "rfc8439_poly1305 (replicate 32 7) ?m = le_bytes 16 9341084582143408800955381380614129417"
    by (simp add: rfc8439_poly1305_def poly_acc_rep min_absorb1 replicate16)
  moreover have "le_val [9, 7, 7, 15, 7, 7, 7, 7, 7, 7, 7, 7, 7, 7, 7, 7] = 9341084582143408800955381380614129417" "length [9 :: u8, 7, 7, 15, 7, 7, 7, 7, 7, 7, 7, 7, 7, 7, 7, 7] = 16" by simp_all
  ultimately have "rfc8439_poly1305 (replicate 32 7) ?m = [9, 7, 7, 15, 7, 7, 7, 7, 7, 7, 7, 7, 7, 7, 7, 7]"
    using le_bytes_le_val [of "[9, 7, 7, 15, 7, 7, 7, 7, 7, 7, 7, 7, 7, 7, 7, 7]"] by (simp only:)
  then show ?thesis using t by simp
qed

end
