(* ===== verification/Aead.thy ===== *)
theory Aead
  imports Poly1305 Mem
begin

text \<open>
  \<open>crypto/fipsmodule/cipher/aead.c\<close> and \<open>crypto/cipher_extra/e_chacha20poly1305.c\<close> (the portable branch): the AEAD
  interface and its instances ChaCha20-Poly1305 and XChaCha20-Poly1305. Addresses are only used for the tests on
  aliasing; where the code allows \<open>in == out\<close>, it reads each byte before it writes it. An outer \<open>None\<close> is an
  access through a \<open>NULL\<close> pointer.
\<close>

unbundle bit_operations_syntax

section \<open>The interface\<close>

text \<open>The part of \<open>evp_aead_ctx_st\<close> the methods use, the methods, and the context.\<close>

record aead_data =
  ad_state :: "u8 list"
  ad_tag_len :: nat

record evp_aead_st =
  aead_key_len :: nat
  aead_nonce_len :: nat
  aead_overhead :: nat
  aead_max_tag_len :: nat
  aead_supports_extra_in :: bool
  aead_init :: "(aead_data \<Rightarrow> u8 list \<Rightarrow> nat \<Rightarrow> bool \<times> aead_data) option"
  aead_init_with_direction :: "(aead_data \<Rightarrow> u8 list \<Rightarrow> nat \<Rightarrow> bool \<Rightarrow> bool \<times> aead_data) option"
  aead_cleanup :: "aead_data \<Rightarrow> aead_data"
  aead_open :: "(aead_data \<Rightarrow> nat \<Rightarrow> u8 list \<Rightarrow> u8 list \<Rightarrow> u8 list \<Rightarrow> u8 list option) option"
  aead_seal_scatter :: "aead_data \<Rightarrow> nat \<Rightarrow> u8 list \<Rightarrow> u8 list \<Rightarrow> u8 list \<Rightarrow> u8 list \<Rightarrow> (u8 list \<times> u8 list) option"
  aead_open_gather :: "(aead_data \<Rightarrow> u8 list \<Rightarrow> u8 list \<Rightarrow> u8 list \<Rightarrow> u8 list \<Rightarrow> u8 list option) option"
  aead_get_iv :: "(aead_data \<Rightarrow> u8 list option) option"
  aead_tag_len :: "(aead_data \<Rightarrow> nat \<Rightarrow> nat \<Rightarrow> nat) option"

record evp_aead_ctx_st =
  ctx_aead :: "evp_aead_st option"
  ctx_data :: aead_data

definition EVP_AEAD_key_length :: "evp_aead_st \<Rightarrow> nat" where "EVP_AEAD_key_length aead = aead_key_len aead"
definition EVP_AEAD_nonce_length :: "evp_aead_st \<Rightarrow> nat" where "EVP_AEAD_nonce_length aead = aead_nonce_len aead"
definition EVP_AEAD_max_overhead :: "evp_aead_st \<Rightarrow> nat" where "EVP_AEAD_max_overhead aead = aead_overhead aead"
definition EVP_AEAD_max_tag_len :: "evp_aead_st \<Rightarrow> nat" where "EVP_AEAD_max_tag_len aead = aead_max_tag_len aead"

definition EVP_AEAD_CTX_zero :: evp_aead_ctx_st where
  "EVP_AEAD_CTX_zero = \<lparr>ctx_aead = None, ctx_data = \<lparr>ad_state = replicate 584 0, ad_tag_len = 0\<rparr>\<rparr>"

definition EVP_AEAD_CTX_init_with_direction ::
  "evp_aead_ctx_st \<Rightarrow> evp_aead_st \<Rightarrow> u8 list \<Rightarrow> nat \<Rightarrow> bool \<Rightarrow> (bool \<times> evp_aead_ctx_st) option" where
  "EVP_AEAD_CTX_init_with_direction ctx aead key tag_len dir =
     (if length key \<noteq> aead_key_len aead then Some (False, ctx\<lparr>ctx_aead := None\<rparr>)
      else
        let ctx = ctx\<lparr>ctx_aead := Some aead\<rparr>
        in case (case aead_init aead of
                   Some f \<Rightarrow> Some (f (ctx_data ctx) key tag_len)
                 | None \<Rightarrow> map_option (\<lambda>f. f (ctx_data ctx) key tag_len dir) (aead_init_with_direction aead)) of
             None \<Rightarrow> None
           | Some (ok, d) \<Rightarrow>
               let ctx = ctx\<lparr>ctx_data := d\<rparr>
               in Some (ok, if \<not> ok then ctx\<lparr>ctx_aead := None\<rparr> else ctx))"

text \<open>\<open>evp_aead_open\<close> is the direction \<open>True\<close>.\<close>

definition EVP_AEAD_CTX_init :: "evp_aead_ctx_st \<Rightarrow> evp_aead_st \<Rightarrow> u8 list \<Rightarrow> nat \<Rightarrow> (bool \<times> evp_aead_ctx_st) option" where
  "EVP_AEAD_CTX_init ctx aead key tag_len =
     (if aead_init aead = None then Some (False, ctx\<lparr>ctx_aead := None\<rparr>)
      else EVP_AEAD_CTX_init_with_direction ctx aead key tag_len True)"

definition EVP_AEAD_CTX_cleanup :: "evp_aead_ctx_st \<Rightarrow> evp_aead_ctx_st" where
  "EVP_AEAD_CTX_cleanup ctx =
     (case ctx_aead ctx of
        None \<Rightarrow> ctx
      | Some aead \<Rightarrow> ctx\<lparr>ctx_data := aead_cleanup aead (ctx_data ctx), ctx_aead := None\<rparr>)"

text \<open>The result of \<open>OPENSSL_malloc\<close> is not tested. \<open>Some None\<close> is \<open>NULL\<close>.\<close>

definition EVP_AEAD_CTX_new :: "(nat \<Rightarrow> bool) \<Rightarrow> evp_aead_st \<Rightarrow> u8 list \<Rightarrow> nat \<Rightarrow> evp_aead_ctx_st option option" where
  "EVP_AEAD_CTX_new malloc_ok aead key tag_len =
     (if \<not> malloc_ok 600 then None
      else
        (case EVP_AEAD_CTX_init EVP_AEAD_CTX_zero aead key tag_len of
           None \<Rightarrow> None
         | Some (ok, ctx) \<Rightarrow> if ok then Some (Some ctx) else Some None))"

definition buffers_alias :: "nat \<Rightarrow> nat \<Rightarrow> nat \<Rightarrow> nat \<Rightarrow> bool" where
  "buffers_alias a a_len b b_len \<longleftrightarrow> (a + a_len) mod 2 ^ 64 > b \<and> (b + b_len) mod 2 ^ 64 > a"

definition check_alias :: "nat \<Rightarrow> nat \<Rightarrow> nat \<Rightarrow> nat \<Rightarrow> bool" where
  "check_alias inp in_len out out_len = (if \<not> buffers_alias inp in_len out out_len then True else inp = out)"

text \<open>The result, \<open>*out_len\<close>, and the \<open>max_out_len\<close> bytes at \<open>out\<close>.\<close>

definition EVP_AEAD_CTX_seal ::
  "evp_aead_ctx_st \<Rightarrow> nat \<Rightarrow> u8 list \<Rightarrow> u8 list \<Rightarrow> nat \<Rightarrow> u8 list \<Rightarrow> u8 list \<Rightarrow> (bool \<times> nat \<times> u8 list) option" where
  "EVP_AEAD_CTX_seal ctx out_at out nonce in_at inp ad =
     (let max_out_len = length out; err = (False, 0, replicate max_out_len 0)
      in case ctx_aead ctx of
           None \<Rightarrow> None
         | Some aead \<Rightarrow> Some
             (if (length inp + aead_overhead aead) mod 2 ^ 64 < length inp then err
              else if max_out_len < length inp then err
              else if \<not> check_alias in_at (length inp) out_at max_out_len then err
              else
                (case aead_seal_scatter aead (ctx_data ctx) (max_out_len - length inp) nonce inp [] ad of
                   None \<Rightarrow> err
                 | Some (bytes, tag) \<Rightarrow> (True, length inp + length tag, put_at 0 (bytes @ tag) out))))"

text \<open>The result, \<open>*out_tag_len\<close>, and the bytes at \<open>out\<close> and \<open>out_tag\<close>.\<close>

definition EVP_AEAD_CTX_seal_scatter ::
  "evp_aead_ctx_st \<Rightarrow> nat \<Rightarrow> u8 list \<Rightarrow> nat \<Rightarrow> u8 list \<Rightarrow> u8 list \<Rightarrow> nat \<Rightarrow> u8 list \<Rightarrow> u8 list \<Rightarrow> u8 list \<Rightarrow>
    (bool \<times> nat \<times> u8 list \<times> u8 list) option" where
  "EVP_AEAD_CTX_seal_scatter ctx out_at out out_tag_at out_tag nonce in_at inp extra_in ad =
     (let in_len = length inp; max_out_tag_len = length out_tag;
          err = (False, 0, put_at 0 (replicate in_len 0) out, replicate max_out_tag_len 0)
      in if \<not> check_alias in_at in_len out_at in_len \<or> buffers_alias out_at in_len out_tag_at max_out_tag_len \<or>
            buffers_alias in_at in_len out_tag_at max_out_tag_len then Some err
         else
           (case ctx_aead ctx of
              None \<Rightarrow> None
            | Some aead \<Rightarrow> Some
                (if \<not> aead_supports_extra_in aead \<and> extra_in \<noteq> [] then err
                 else
                   (case aead_seal_scatter aead (ctx_data ctx) max_out_tag_len nonce inp extra_in ad of
                      None \<Rightarrow> err
                    | Some (bytes, tag) \<Rightarrow> (True, length tag, put_at 0 bytes out, put_at 0 tag out_tag)))))"

definition EVP_AEAD_CTX_open_gather ::
  "evp_aead_ctx_st \<Rightarrow> nat \<Rightarrow> u8 list \<Rightarrow> u8 list \<Rightarrow> nat \<Rightarrow> u8 list \<Rightarrow> u8 list \<Rightarrow> u8 list \<Rightarrow> (bool \<times> u8 list) option" where
  "EVP_AEAD_CTX_open_gather ctx out_at out nonce in_at inp in_tag ad =
     (let err = (False, put_at 0 (replicate (length inp) 0) out)
      in if \<not> check_alias in_at (length inp) out_at (length inp) then Some err
         else
           (case ctx_aead ctx of
              None \<Rightarrow> None
            | Some aead \<Rightarrow> Some
                (case aead_open_gather aead of
                   None \<Rightarrow> err
                 | Some gather \<Rightarrow>
                     (case gather (ctx_data ctx) nonce inp in_tag ad of
                        None \<Rightarrow> err
                      | Some bytes \<Rightarrow> (True, put_at 0 bytes out)))))"

definition EVP_AEAD_CTX_open ::
  "evp_aead_ctx_st \<Rightarrow> nat \<Rightarrow> u8 list \<Rightarrow> u8 list \<Rightarrow> nat \<Rightarrow> u8 list \<Rightarrow> u8 list \<Rightarrow> (bool \<times> nat \<times> u8 list) option" where
  "EVP_AEAD_CTX_open ctx out_at out nonce in_at inp ad =
     (let max_out_len = length out; err = (False, 0, replicate max_out_len 0)
      in if \<not> check_alias in_at (length inp) out_at max_out_len then Some err
         else
           (case ctx_aead ctx of
              None \<Rightarrow> None
            | Some aead \<Rightarrow>
                (case aead_open aead of
                   Some opener \<Rightarrow>
                     (case opener (ctx_data ctx) max_out_len nonce inp ad of
                        None \<Rightarrow> Some err
                      | Some bytes \<Rightarrow> Some (True, length bytes, put_at 0 bytes out))
                 | None \<Rightarrow>
                     let tag_len = ad_tag_len (ctx_data ctx)
                     in if length inp < tag_len then Some err
                        else
                          let plaintext_len = length inp - tag_len
                          in if max_out_len < plaintext_len then Some err
                             else
                               (case EVP_AEAD_CTX_open_gather ctx out_at out nonce in_at (take plaintext_len inp) (drop plaintext_len inp) ad of
                                  None \<Rightarrow> None
                                | Some (ok, out) \<Rightarrow> if ok then Some (True, plaintext_len, out) else Some err))))"

definition EVP_AEAD_CTX_get_iv :: "evp_aead_ctx_st \<Rightarrow> u8 list option option" where
  "EVP_AEAD_CTX_get_iv ctx =
     (case ctx_aead ctx of
        None \<Rightarrow> None
      | Some aead \<Rightarrow> Some (case aead_get_iv aead of None \<Rightarrow> None | Some f \<Rightarrow> f (ctx_data ctx)))"

definition EVP_AEAD_CTX_tag_len :: "evp_aead_ctx_st \<Rightarrow> nat \<Rightarrow> nat \<Rightarrow> (bool \<times> nat) option" where
  "EVP_AEAD_CTX_tag_len ctx in_len extra_in_len =
     (case ctx_aead ctx of
        None \<Rightarrow> None
      | Some aead \<Rightarrow> Some
          (case aead_tag_len aead of
             Some f \<Rightarrow> (True, f (ctx_data ctx) in_len extra_in_len)
           | None \<Rightarrow>
               let n = (extra_in_len + ad_tag_len (ctx_data ctx)) mod 2 ^ 64
               in if n < extra_in_len then (False, 0) else (True, n)))"

section \<open>ChaCha20-Poly1305\<close>

definition aead_chacha20_poly1305_init :: "aead_data \<Rightarrow> u8 list \<Rightarrow> nat \<Rightarrow> bool \<times> aead_data" where
  "aead_chacha20_poly1305_init ctx key tag_len =
     (let tag_len = (if tag_len = 0 then 16 else tag_len)
      in if tag_len > 16 then (False, ctx)
         else if length key \<noteq> 32 then (False, ctx)
         else (True, ctx\<lparr>ad_state := put_at 0 key (ad_state ctx), ad_tag_len := tag_len\<rparr>))"

definition aead_chacha20_poly1305_cleanup :: "aead_data \<Rightarrow> aead_data" where
  "aead_chacha20_poly1305_cleanup ctx = ctx"

definition poly1305_update_length :: "poly1305_state_st \<Rightarrow> nat \<Rightarrow> poly1305_state_st" where
  "poly1305_update_length poly1305 data_len =
     CRYPTO_poly1305_update poly1305 (map (\<lambda>i. word_of_nat (data_len div 2 ^ (8 * i))) [0..<8])"

text \<open>\<open>poly1305_uninit\<close> stands for the uninitialised local; \<open>CRYPTO_poly1305_init\<close> sets all of it but the buffer.\<close>

definition calc_tag :: "u8 list \<Rightarrow> u8 list \<Rightarrow> u8 list \<Rightarrow> u8 list \<Rightarrow> u8 list \<Rightarrow> u8 list" where
  "calc_tag key nonce ad ciphertext ciphertext_extra =
     (let poly1305_key = CRYPTO_chacha_20 (replicate 32 0) key nonce 0;
          padding = replicate 16 0;
          ctx = CRYPTO_poly1305_init poly1305_uninit poly1305_key;
          ctx = CRYPTO_poly1305_update ctx ad;
          ctx = (if length ad mod 16 \<noteq> 0 then CRYPTO_poly1305_update ctx (take (16 - length ad mod 16) padding) else ctx);
          ctx = CRYPTO_poly1305_update ctx ciphertext;
          ctx = CRYPTO_poly1305_update ctx ciphertext_extra;
          ciphertext_total = (length ciphertext + length ciphertext_extra) mod 2 ^ 64;
          ctx = (if ciphertext_total mod 16 \<noteq> 0 then CRYPTO_poly1305_update ctx (take (16 - ciphertext_total mod 16) padding) else ctx);
          ctx = poly1305_update_length ctx (length ad);
          ctx = poly1305_update_length ctx ciphertext_total
      in CRYPTO_poly1305_finish ctx)"

function seal_extra :: "u8 list \<Rightarrow> u8 list \<Rightarrow> u32 \<Rightarrow> nat \<Rightarrow> u8 list \<Rightarrow> u8 list" where
  "seal_extra key nonce block_counter offset extra_in =
     (if extra_in = [] then []
      else
        let block = CRYPTO_chacha_20 (replicate 64 0) key nonce block_counter;
            n = min (64 - offset) (length extra_in)
        in map2 (XOR) (take n extra_in) (take n (drop offset block)) @
           seal_extra key nonce (block_counter + 1) 0 (drop n extra_in))"
  by pat_completeness auto
termination
proof (relation "measures [\<lambda>(_, _, _, _, e). length e, \<lambda>(_, _, _, offset, _). offset]", goal_cases)
  case (2 key nonce block_counter offset extra_in block n)
  then show ?case by (cases "offset < 64") auto
qed simp

declare seal_extra.simps [simp del]

definition chacha20_poly1305_seal_scatter ::
  "u8 list \<Rightarrow> nat \<Rightarrow> u8 list \<Rightarrow> u8 list \<Rightarrow> u8 list \<Rightarrow> u8 list \<Rightarrow> nat \<Rightarrow> (u8 list \<times> u8 list) option" where
  "chacha20_poly1305_seal_scatter key max_out_tag_len nonce inp extra_in ad tag_len =
     (if (length extra_in + tag_len) mod 2 ^ 64 < tag_len then None
      else if max_out_tag_len < (tag_len + length extra_in) mod 2 ^ 64 then None
      else if length nonce \<noteq> 12 then None
      else if length inp \<ge> 2 ^ 32 * 64 - 64 then None
      else if max_out_tag_len < tag_len then None
      else
        let extra = (if extra_in \<noteq> [] then seal_extra key nonce (word_of_nat (1 + length inp div 64)) (length inp mod 64) extra_in else []);
            out = CRYPTO_chacha_20 inp key nonce 1;
            tag = calc_tag key nonce ad out extra
        in Some (out, extra @ take tag_len tag))"

definition aead_chacha20_poly1305_seal_scatter ::
  "aead_data \<Rightarrow> nat \<Rightarrow> u8 list \<Rightarrow> u8 list \<Rightarrow> u8 list \<Rightarrow> u8 list \<Rightarrow> (u8 list \<times> u8 list) option" where
  "aead_chacha20_poly1305_seal_scatter ctx max_out_tag_len nonce inp extra_in ad =
     chacha20_poly1305_seal_scatter (take 32 (ad_state ctx)) max_out_tag_len nonce inp extra_in ad (ad_tag_len ctx)"

definition aead_xchacha20_poly1305_seal_scatter ::
  "aead_data \<Rightarrow> nat \<Rightarrow> u8 list \<Rightarrow> u8 list \<Rightarrow> u8 list \<Rightarrow> u8 list \<Rightarrow> (u8 list \<times> u8 list) option" where
  "aead_xchacha20_poly1305_seal_scatter ctx max_out_tag_len nonce inp extra_in ad =
     (if length nonce \<noteq> 24 then None
      else
        let derived_key = CRYPTO_hchacha20 (take 32 (ad_state ctx)) (take 16 nonce);
            derived_nonce = replicate 4 0 @ take 8 (drop 16 nonce)
        in chacha20_poly1305_seal_scatter derived_key max_out_tag_len derived_nonce inp extra_in ad (ad_tag_len ctx))"

definition chacha20_poly1305_open_gather :: "u8 list \<Rightarrow> u8 list \<Rightarrow> u8 list \<Rightarrow> u8 list \<Rightarrow> u8 list \<Rightarrow> nat \<Rightarrow> u8 list option" where
  "chacha20_poly1305_open_gather key nonce inp in_tag ad tag_len =
     (if length nonce \<noteq> 12 then None
      else if length in_tag \<noteq> tag_len then None
      else if length inp \<ge> 2 ^ 32 * 64 - 64 then None
      else
        let tag = calc_tag key nonce ad inp [];
            out = CRYPTO_chacha_20 inp key nonce 1
        in if CRYPTO_memcmp tag in_tag tag_len \<noteq> Some 0 then None else Some out)"

definition aead_chacha20_poly1305_open_gather :: "aead_data \<Rightarrow> u8 list \<Rightarrow> u8 list \<Rightarrow> u8 list \<Rightarrow> u8 list \<Rightarrow> u8 list option" where
  "aead_chacha20_poly1305_open_gather ctx nonce inp in_tag ad =
     chacha20_poly1305_open_gather (take 32 (ad_state ctx)) nonce inp in_tag ad (ad_tag_len ctx)"

definition aead_xchacha20_poly1305_open_gather :: "aead_data \<Rightarrow> u8 list \<Rightarrow> u8 list \<Rightarrow> u8 list \<Rightarrow> u8 list \<Rightarrow> u8 list option" where
  "aead_xchacha20_poly1305_open_gather ctx nonce inp in_tag ad =
     (if length nonce \<noteq> 24 then None
      else
        let derived_key = CRYPTO_hchacha20 (take 32 (ad_state ctx)) (take 16 nonce);
            derived_nonce = replicate 4 0 @ take 8 (drop 16 nonce)
        in chacha20_poly1305_open_gather derived_key derived_nonce inp in_tag ad (ad_tag_len ctx))"

definition aead_chacha20_poly1305 :: evp_aead_st where
  "aead_chacha20_poly1305 =
     \<lparr>aead_key_len = 32, aead_nonce_len = 12, aead_overhead = 16, aead_max_tag_len = 16, aead_supports_extra_in = True,
      aead_init = Some aead_chacha20_poly1305_init, aead_init_with_direction = None, aead_cleanup = aead_chacha20_poly1305_cleanup,
      aead_open = None, aead_seal_scatter = aead_chacha20_poly1305_seal_scatter,
      aead_open_gather = Some aead_chacha20_poly1305_open_gather, aead_get_iv = None, aead_tag_len = None\<rparr>"

definition aead_xchacha20_poly1305 :: evp_aead_st where
  "aead_xchacha20_poly1305 =
     \<lparr>aead_key_len = 32, aead_nonce_len = 24, aead_overhead = 16, aead_max_tag_len = 16, aead_supports_extra_in = True,
      aead_init = Some aead_chacha20_poly1305_init, aead_init_with_direction = None, aead_cleanup = aead_chacha20_poly1305_cleanup,
      aead_open = None, aead_seal_scatter = aead_xchacha20_poly1305_seal_scatter,
      aead_open_gather = Some aead_xchacha20_poly1305_open_gather, aead_get_iv = None, aead_tag_len = None\<rparr>"

section \<open>The tag\<close>

lemma poly1305_no_buf [simp]:
  "poly1305_update (no_buf st) b = no_buf (poly1305_update st b)"
proof (induction st b rule: poly1305_update.induct)
  case (1 st b)
  have e: "poly1305_mul (poly1305_add h x (no_buf st)) = no_buf (poly1305_mul (poly1305_add h x st))" for h x
    by (simp add: no_buf_def)
  show ?case using 1 by (subst (1 2) poly1305_update.simps) (simp add: e)
qed

lemma poly1305_tag_no_buf: "poly1305_tag (poly1305_select (poly1305_carry (no_buf st))) = poly1305_tag (poly1305_select (poly1305_carry st))"
  by (simp add: no_buf_def poly1305_tag_def poly1305_select_def poly1305_carry_def Let_def)

text \<open>The tag only depends on the bytes, not on how they were cut into pieces.\<close>

lemma finish_cong:
  assumes "poly_ok s" "poly_ok t" "no_buf s = no_buf t" "poly_pending s = poly_pending t"
  shows "CRYPTO_poly1305_finish s = CRYPTO_poly1305_finish t"
proof -
  have f: "CRYPTO_poly1305_finish u = (let v = no_buf u; v = (if poly_pending u \<noteq> [] then poly1305_update v (poly_pending u) else v)
      in poly1305_tag (poly1305_select (poly1305_carry v)))" if "poly_ok u" for u
  proof -
    have "poly_pending u \<noteq> [] \<longleftrightarrow> p_buf_used u \<noteq> 0" using that by (auto simp: poly_ok_def poly_pending_def)
    then show ?thesis by (simp add: CRYPTO_poly1305_finish_def poly1305_tag_no_buf poly_pending_def Let_def)
  qed
  show ?thesis using assms by (simp only: f)
qed

lemma finish_concat:
  assumes "poly_ok st" "concat xss = concat yss"
  shows "CRYPTO_poly1305_finish (foldl CRYPTO_poly1305_update st xss) = CRYPTO_poly1305_finish (foldl CRYPTO_poly1305_update st yss)"
  using poly.inv_foldl [OF assms(1)] poly.update_many [OF assms(1)] assms(2) by (intro finish_cong) simp_all

definition pad16 :: "nat \<Rightarrow> u8 list" where
  "pad16 n = replicate ((16 - n mod 16) mod 16) 0"

text \<open>What RFC 8439 authenticates.\<close>

definition mac_data :: "u8 list \<Rightarrow> u8 list \<Rightarrow> u8 list" where
  "mac_data ad ciphertext =
     ad @ pad16 (length ad) @ ciphertext @ pad16 (length ciphertext) @ le_bytes 8 (length ad) @ le_bytes 8 (length ciphertext)"

definition poly_key :: "u8 list \<Rightarrow> u8 list \<Rightarrow> u8 list" where
  "poly_key key nonce = take 32 (rfc_block key 0 nonce)"

lemma le_bytes_upt: "map (\<lambda>i. word_of_nat (v div 2 ^ (8 * i))) [0..<n] = le_bytes n v"
proof (induction n arbitrary: v)
  case (Suc n)
  have "[0..<Suc n] = 0 # map Suc [0..<n]" by (simp only: upt_conv_Cons map_Suc_upt zero_less_Suc)
  then show ?case using Suc [of "v div 256"] by (simp add: o_def power_add div_mult2_eq)
qed simp

lemma poly_ok_init: "poly_ok (CRYPTO_poly1305_init poly1305_uninit key)"
  using init_key(6,7) [of poly1305_uninit key] by (simp add: poly_ok_def poly1305_uninit_def)

lemma update_nil:
  assumes "poly_ok st"
  shows "CRYPTO_poly1305_update st [] = st"
  using assms by (auto simp: CRYPTO_poly1305_update_def poly_ok_def put_at_def Let_def)

lemma update_pad:
  assumes "poly_ok st"
  shows "(if n mod 16 \<noteq> 0 then CRYPTO_poly1305_update st (take (16 - n mod 16) (replicate 16 0)) else st) = CRYPTO_poly1305_update st (pad16 n)"
proof (cases "n mod 16 = 0")
  case True
  then show ?thesis using update_nil [OF assms] by (simp add: pad16_def)
next
  case False
  then have "(16 - n mod 16) mod 16 = 16 - n mod 16" by (intro mod_less) simp
  then show ?thesis using False by (simp add: pad16_def min_absorb1)
qed

lemma calc_tag_pieces:
  assumes "length ciphertext + length extra < 2 ^ 64"
  shows "calc_tag key nonce ad ciphertext extra =
    CRYPTO_poly1305_finish (foldl CRYPTO_poly1305_update (CRYPTO_poly1305_init poly1305_uninit (CRYPTO_chacha_20 (replicate 32 0) key nonce 0))
      [ad, pad16 (length ad), ciphertext, extra, pad16 (length ciphertext + length extra),
       le_bytes 8 (length ad), le_bytes 8 (length ciphertext + length extra)])"
proof -
  let ?st = "CRYPTO_poly1305_init poly1305_uninit (CRYPTO_chacha_20 (replicate 32 0) key nonce 0)"
  have ok: "poly_ok (foldl CRYPTO_poly1305_update ?st xss)" for xss
    using poly.inv_foldl [OF poly_ok_init] by simp
  have t: "(length ciphertext + length extra) mod 2 ^ 64 = length ciphertext + length extra" using assms by (rule mod_less)
  note p1 = update_pad [OF ok [of "[ad]"], of "length ad", unfolded foldl_Cons foldl_Nil]
  note p2 = update_pad [OF ok [of "[ad, pad16 (length ad), ciphertext, extra]"], of "length ciphertext + length extra", unfolded foldl_Cons foldl_Nil]
  show ?thesis unfolding calc_tag_def Let_def t p1 p2 poly1305_update_length_def le_bytes_upt foldl_Cons foldl_Nil by (rule refl)
qed

lemma calc_tag_eq:
  assumes "length ciphertext + length extra < 2 ^ 64"
  shows "calc_tag key nonce ad ciphertext extra =
    CRYPTO_poly1305_finish (foldl CRYPTO_poly1305_update (CRYPTO_poly1305_init poly1305_uninit (CRYPTO_chacha_20 (replicate 32 0) key nonce 0))
      [mac_data ad (ciphertext @ extra)])"
  unfolding calc_tag_pieces [OF assms] by (rule finish_concat [OF poly_ok_init]) (simp add: mac_data_def)

text \<open>Extra ciphertext counts as ciphertext.\<close>

lemma calc_tag_append:
  assumes "length ciphertext + length extra < 2 ^ 64"
  shows "calc_tag key nonce ad ciphertext extra = calc_tag key nonce ad (ciphertext @ extra) []"
  using calc_tag_eq [OF assms] calc_tag_eq [of "ciphertext @ extra" "[]"] assms by simp

lemma length_calc_tag [simp]: "length (calc_tag key nonce ad ciphertext extra) = 16"
  by (simp add: calc_tag_def Let_def CRYPTO_poly1305_finish_def poly1305_tag_def U32TO8_LE_def)

lemma calc_tag_rfc:
  assumes "length key = 32" "length nonce = 12" "length ciphertext < 2 ^ 64" "\<not> carry_case (poly_acc (poly_key key nonce) (mac_data ad ciphertext))"
  shows "calc_tag key nonce ad ciphertext [] = rfc8439_poly1305 (poly_key key nonce) (mac_data ad ciphertext)"
proof -
  have k: "CRYPTO_chacha_20 (replicate 32 0) key nonce 0 = poly_key key nonce"
    unfolding poly_key_def by (rule CRYPTO_chacha_20_zeros [OF assms(1,2)]) simp
  have l: "length (poly_key key nonce) = 32" by (simp add: poly_key_def)
  show ?thesis using calc_tag_eq [of ciphertext "[]"] assms(3,4) poly_stream [OF l, of poly1305_uninit "[mac_data ad ciphertext]"]
    by (simp add: k poly1305_uninit_def)
qed

section \<open>Sealing and opening\<close>

text \<open>The bytes of the key stream from an offset on; encrypting more input goes on where the key stream stopped.\<close>

lemma key_stream_add: "key_stream key counter nonce (m + n) = key_stream key counter nonce m @ key_stream key (counter + word_of_nat m) nonce n"
  by (induction m arbitrary: counter) (simp_all add: key_stream_Suc algebra_simps)

lemma zip_split: "length xs \<le> length ys \<Longrightarrow> n \<le> length xs \<Longrightarrow> map2 f xs ys = map2 f (take n xs) (take n ys) @ map2 f (drop n xs) (drop n ys)"
  by (metis append_take_drop_id drop_zip map_append take_zip)

lemma seal_extra_eq:
  assumes k: "length key = 32" "length nonce = 12" and "offset < 64" "offset + length e \<le> 64 * n"
  shows "seal_extra key nonce counter offset e = map2 (XOR) e (drop offset (key_stream key counter nonce n))"
  using assms(3,4)
proof (induction n arbitrary: counter offset e)
  case 0
  then show ?case by (simp add: seal_extra.simps)
next
  case (Suc n)
  let ?b = "rfc_block key counter nonce" and ?m = "min (64 - offset) (length e)"
  show ?case
  proof (cases "e = []")
    case True
    then show ?thesis by (simp add: seal_extra.simps)
  next
    case False
    have ih: "seal_extra key nonce (counter + 1) 0 (drop ?m e) = map2 (XOR) (drop ?m e) (key_stream key (counter + 1) nonce n)"
      using Suc.prems Suc.IH [of 0 "drop ?m e"] by simp
    have b: "CRYPTO_chacha_20 (replicate 64 0) key nonce counter = ?b" using CRYPTO_chacha_20_zeros [OF k, of 64 counter] by simp
    have "seal_extra key nonce counter offset e =
        map2 (XOR) (take ?m e) (take ?m (drop offset ?b)) @ map2 (XOR) (drop ?m e) (key_stream key (counter + 1) nonce n)"
      using False by (subst seal_extra.simps) (simp add: b ih Let_def)
    also have "\<dots> = map2 (XOR) e (drop offset ?b @ key_stream key (counter + 1) nonce n)"
    proof (cases "length e \<le> 64 - offset")
      case True
      then have "?m = length e" by simp
      then show ?thesis using True take_zip [of "length e" e "drop offset ?b"] by (simp add: zip_append2)
    next
      case False
      then have "?m = 64 - offset" by simp
      then show ?thesis by (simp add: zip_append2)
    qed
    finally show ?thesis using Suc.prems(1) by (simp add: key_stream_Suc)
  qed
qed

text \<open>The extra plaintext is encrypted as if it had been appended to the plaintext.\<close>

lemma chacha_extra:
  assumes k: "length key = 32" "length nonce = 12"
  shows "CRYPTO_chacha_20 m key nonce 1 @ seal_extra key nonce (word_of_nat (1 + length m div 64)) (length m mod 64) e =
    CRYPTO_chacha_20 (m @ e) key nonce 1"
proof -
  let ?q = "length m div 64" and ?n = "length e + 1"
  let ?ks = "key_stream key 1 nonce ?q" and ?ks' = "key_stream key (1 + word_of_nat ?q) nonce ?n"
  have ks: "key_stream key 1 nonce (?q + ?n) = ?ks @ ?ks'" by (rule key_stream_add)
  have m: "length m = ?q * 64 + length m mod 64" "length m mod 64 < 64" by simp_all
  have e: "seal_extra key nonce (word_of_nat (1 + ?q)) (length m mod 64) e = map2 (XOR) e (drop (length m mod 64) ?ks')"
    using m(2) by (subst seal_extra_eq [OF k, where n = ?n]) simp_all
  have d: "drop (length m mod 64) ?ks' = drop (length m) (?ks @ ?ks')"
  proof -
    have "length m - 64 * ?q = length m mod 64" by (simp add: minus_mult_div_eq_mod)
    moreover have "drop (length m) ?ks = []" using m by simp
    ultimately show ?thesis by simp
  qed
  have "CRYPTO_chacha_20 m key nonce 1 = map2 (XOR) m (?ks @ ?ks')"
    unfolding ks [symmetric] using m by (intro CRYPTO_chacha_20_stream [OF k]) simp
  moreover have "map2 (XOR) m (?ks @ ?ks') = map2 (XOR) m (take (length m) (?ks @ ?ks'))"
    using take_zip [of "length m" m "?ks @ ?ks'"] by simp
  moreover have "CRYPTO_chacha_20 (m @ e) key nonce 1 = map2 (XOR) (m @ e) (?ks @ ?ks')"
    unfolding ks [symmetric] using m by (intro CRYPTO_chacha_20_stream [OF k]) simp
  moreover have "map2 (XOR) (m @ e) (?ks @ ?ks') = map2 (XOR) m (take (length m) (?ks @ ?ks')) @ map2 (XOR) e (drop (length m) (?ks @ ?ks'))"
    using m by (subst zip_split [where n = "length m"]) simp_all
  ultimately show ?thesis using e d by simp
qed

text \<open>Sealing in closed form.\<close>

definition seal_ok :: "nat \<Rightarrow> nat \<Rightarrow> u8 list \<Rightarrow> u8 list \<Rightarrow> bool" where
  "seal_ok room tag_len m e \<longleftrightarrow> length e + tag_len \<le> room \<and> length m < 2 ^ 32 * 64 - 64"

lemma seal_scatter_eq:
  assumes k: "length key = 32" "length nonce = 12" and "length e + tag_len < 2 ^ 64" "length m + length e < 2 ^ 64"
  shows "chacha20_poly1305_seal_scatter key room nonce m e ad tag_len =
    (if seal_ok room tag_len m e then
       (let c = CRYPTO_chacha_20 (m @ e) key nonce 1
        in Some (take (length m) c, drop (length m) c @ take tag_len (calc_tag key nonce ad c [])))
     else None)"
proof -
  let ?c = "CRYPTO_chacha_20 m key nonce 1" and ?x = "seal_extra key nonce (word_of_nat (1 + length m div 64)) (length m mod 64) e"
  have x: "(if e \<noteq> [] then ?x else []) = ?x" by (simp add: seal_extra.simps)
  have c: "?c @ ?x = CRYPTO_chacha_20 (m @ e) key nonce 1" by (rule chacha_extra [OF k])
  have l: "length ?c = length m" by (rule length_CRYPTO_chacha_20 [OF k])
  then have lx: "length ?x = length e" using arg_cong [OF c, of length] length_CRYPTO_chacha_20 [OF k, of "m @ e" 1] by simp
  have td: "take (length m) (CRYPTO_chacha_20 (m @ e) key nonce 1) = ?c" "drop (length m) (CRYPTO_chacha_20 (m @ e) key nonce 1) = ?x"
    unfolding c [symmetric] using l by simp_all
  have t: "calc_tag key nonce ad ?c ?x = calc_tag key nonce ad (CRYPTO_chacha_20 (m @ e) key nonce 1) []"
    unfolding c [symmetric] by (rule calc_tag_append) (use l lx assms(4) in simp)
  have a: "(length e + tag_len) mod 2 ^ 64 = length e + tag_len" "(tag_len + length e) mod 2 ^ 64 = tag_len + length e"
    using assms(3) by simp_all
  have g: "\<not> length e + tag_len < tag_len" "length nonce = 12" using k(2) by simp_all
  show ?thesis unfolding chacha20_poly1305_seal_scatter_def Let_def a x t td seal_ok_def
    using g(2) by (auto simp del: One_nat_def)
qed

lemma open_gather_eq:
  assumes k: "length key = 32" "length nonce = 12" and "tag_len \<le> 16"
  shows "chacha20_poly1305_open_gather key nonce c tag ad tag_len =
    (if length tag = tag_len \<and> length c < 2 ^ 32 * 64 - 64 \<and> tag = take tag_len (calc_tag key nonce ad c [])
     then Some (CRYPTO_chacha_20 c key nonce 1) else None)"
proof (cases "length tag = tag_len")
  case True
  let ?t = "calc_tag key nonce ad c []"
  obtain r where r: "CRYPTO_memcmp ?t tag tag_len = Some r" "r = 0 \<longleftrightarrow> take tag_len ?t = take tag_len tag"
    using CRYPTO_memcmp_eq [of tag_len ?t tag] assms(3) True by auto
  then show ?thesis using True k(2) by (auto simp: chacha20_poly1305_open_gather_def Let_def)
next
  case False
  then show ?thesis by (simp add: chacha20_poly1305_open_gather_def)
qed

text \<open>
  The test on the length of the plaintext leaves out the extra plaintext: after \<open>2 ^ 38 - 65\<close> bytes the block
  counter wraps around within the extra plaintext, and block 0, which is the Poly1305 key, encrypts it.
\<close>

lemma extra_reuses_poly_key:
  assumes "length key = 32" "length nonce = 12" "length e \<le> 32"
  shows "seal_extra key nonce (word_of_nat (1 + (2 ^ 38 - 65) div 64)) ((2 ^ 38 - 65) mod 64) (x # e) =
    (x XOR rfc_block key 0xffffffff nonce ! 63) # map2 (XOR) e (poly_key key nonce)"
proof -
  have n: "word_of_nat (1 + (2 ^ 38 - 65) div 64) = (0xffffffff :: u32)" "(2 ^ 38 - 65 :: nat) mod 64 = 63" by simp_all
  have d: "drop 63 (rfc_block key 0xffffffff nonce) = [rfc_block key 0xffffffff nonce ! 63]"
    using Cons_nth_drop_Suc [of 63 "rfc_block key 0xffffffff nonce"] by simp
  have ks: "key_stream key 0xffffffff nonce 2 = rfc_block key 0xffffffff nonce @ rfc_block key 0 nonce"
  proof -
    have "(0xffffffff :: u32) + 1 = 0" "(2 :: nat) = Suc (Suc 0)" by simp_all
    then show ?thesis by (simp only: key_stream_Suc key_stream_0 append_Nil2)
  qed
  have z: "map2 (XOR) e (rfc_block key 0 nonce) = map2 (XOR) e (poly_key key nonce)"
  proof -
    have "map2 (XOR) e (take 32 (rfc_block key 0 nonce) @ drop 32 (rfc_block key 0 nonce)) = map2 (XOR) e (take 32 (rfc_block key 0 nonce))"
      by (rule map2_append_left) (use assms(3) in simp)
    then show ?thesis by (simp add: poly_key_def)
  qed
  show ?thesis unfolding n by (subst seal_extra_eq [OF assms(1,2), where n = 2]) (use assms(3) z in \<open>simp_all add: ks d\<close>)
qed

section \<open>The interface on any method\<close>

text \<open>
  What the functions of \<open>aead.c\<close> rely on: a method that seals returns ciphertext and tag of the right lengths, and
  \<open>open_gather\<close> takes back what was sealed. \<open>ok\<close> holds of the contexts the method has initialised.
\<close>

locale aead_method =
  fixes aead :: evp_aead_st
    and gather :: "aead_data \<Rightarrow> u8 list \<Rightarrow> u8 list \<Rightarrow> u8 list \<Rightarrow> u8 list \<Rightarrow> u8 list option"
    and ok :: "aead_data \<Rightarrow> bool"
  assumes methods: "aead_open aead = None" "aead_open_gather aead = Some gather"
    and sealed_length: "ok d \<Longrightarrow> aead_seal_scatter aead d room nonce m [] ad = Some (c, t) \<Longrightarrow>
      length c = length m \<and> length t = ad_tag_len d \<and> length t \<le> room"
    and gather_sealed: "ok d \<Longrightarrow> aead_seal_scatter aead d room nonce m [] ad = Some (c, t) \<Longrightarrow> gather d nonce c t ad = Some m"
    and gather_length: "ok d \<Longrightarrow> gather d nonce c t ad = Some m \<Longrightarrow> length m = length c"
begin

lemma seal_bytes:
  assumes "ctx_aead ctx = Some aead" "ok (ctx_data ctx)" "EVP_AEAD_CTX_seal ctx out_at out nonce in_at m ad = Some (True, n, out')"
  shows "\<exists>c t. aead_seal_scatter aead (ctx_data ctx) (length out - length m) nonce m [] ad = Some (c, t) \<and>
    n = length (c @ t) \<and> n \<le> length out \<and> length c = length m \<and> length t = ad_tag_len (ctx_data ctx) \<and> out' = c @ t @ drop n out"
proof -
  obtain c t where s: "aead_seal_scatter aead (ctx_data ctx) (length out - length m) nonce m [] ad = Some (c, t)"
    and n: "n = length m + length t" "out' = put_at 0 (c @ t) out" "length m \<le> length out"
    using assms(1,3) by (auto simp: EVP_AEAD_CTX_seal_def Let_def split: if_splits option.splits)
  then show ?thesis using sealed_length [OF assms(2) s] by (auto simp: put_at_def)
qed

lemma open_gather_sealed:
  assumes "ctx_aead ctx = Some aead" "ok (ctx_data ctx)" "check_alias in_at (length c) out_at (length c)"
  shows "EVP_AEAD_CTX_open_gather ctx out_at out nonce in_at c t ad =
    Some (case gather (ctx_data ctx) nonce c t ad of None \<Rightarrow> (False, put_at 0 (replicate (length c) 0) out) | Some m \<Rightarrow> (True, put_at 0 m out))"
  using assms methods by (simp add: EVP_AEAD_CTX_open_gather_def Let_def split: option.split)

text \<open>A smaller buffer at the same place aliases no more.\<close>

lemma check_alias_le: "check_alias a n b m \<Longrightarrow> n' \<le> n \<Longrightarrow> m' \<le> m \<Longrightarrow> a + n < 2 ^ 64 \<Longrightarrow> b + m < 2 ^ 64 \<Longrightarrow> check_alias a n' b m'"
  by (auto simp: check_alias_def buffers_alias_def split: if_splits)

lemma open_eq:
  assumes "ctx_aead ctx = Some aead" "ok (ctx_data ctx)" "check_alias in_at (length inp) out_at (length out)"
    and "length inp = n + ad_tag_len (ctx_data ctx)" "n \<le> length out" "in_at + length inp < 2 ^ 64" "out_at + length out < 2 ^ 64"
  shows "EVP_AEAD_CTX_open ctx out_at out nonce in_at inp ad =
    Some (case gather (ctx_data ctx) nonce (take n inp) (drop n inp) ad of
            None \<Rightarrow> (False, 0, replicate (length out) 0)
          | Some m \<Rightarrow> (True, n, m @ drop n out))"
proof -
  have l: "length (take n inp) = n" using assms(4) by simp
  have a: "check_alias in_at (length (take n inp)) out_at (length (take n inp))"
    unfolding l using assms by (intro check_alias_le [OF assms(3)]) simp_all
  have p: "length inp - ad_tag_len (ctx_data ctx) = n" "\<not> length inp < ad_tag_len (ctx_data ctx)" "\<not> length out < n"
    using assms(4,5) by simp_all
  have m: "put_at 0 m out = m @ drop n out" if "gather (ctx_data ctx) nonce (take n inp) (drop n inp) ad = Some m" for m
    using gather_length [OF assms(2) that] l by (simp add: put_at_def)
  show ?thesis
    unfolding EVP_AEAD_CTX_open_def Let_def assms(1) option.case methods p if_False if_P [OF assms(3)] open_gather_sealed [OF assms(1,2) a]
    using assms(3) m p by (simp split: option.split)
qed

lemma open_sealed:
  assumes ctx: "ctx_aead ctx = Some aead" "ok (ctx_data ctx)"
    and s: "EVP_AEAD_CTX_seal ctx out_at out nonce in_at m ad = Some (True, n, out')"
    and o: "length m \<le> length out2" "check_alias in_at2 n out_at2 (length out2)" "in_at2 + n < 2 ^ 64" "out_at2 + length out2 < 2 ^ 64"
  shows "EVP_AEAD_CTX_open ctx out_at2 out2 nonce in_at2 (take n out') ad = Some (True, length m, m @ drop (length m) out2)"
proof -
  obtain c t where c: "aead_seal_scatter aead (ctx_data ctx) (length out - length m) nonce m [] ad = Some (c, t)"
    "n = length (c @ t)" "length c = length m" "length t = ad_tag_len (ctx_data ctx)" "out' = c @ t @ drop n out"
    using seal_bytes [OF ctx s] by auto
  then have i: "take n out' = c @ t" by simp
  have g: "gather (ctx_data ctx) nonce c t ad = Some m" by (rule gather_sealed [OF ctx(2) c(1)])
  show ?thesis unfolding i using o c g by (subst open_eq [OF ctx, where n = "length m"]) simp_all
qed

end

text \<open>Both instances, by the key and the nonce that ChaCha20 gets.\<close>

definition aead_ok :: "aead_data \<Rightarrow> bool" where
  "aead_ok d \<longleftrightarrow> 32 \<le> length (ad_state d) \<and> 0 < ad_tag_len d \<and> ad_tag_len d \<le> 16"

lemma chacha_gather_sealed:
  assumes k: "length key = 32" "length nonce = 12" and t: "tag_len \<le> 16"
    and s: "chacha20_poly1305_seal_scatter key room nonce m [] ad tag_len = Some (c, tag)"
  shows "length c = length m \<and> length tag = tag_len \<and> tag_len \<le> room \<and> chacha20_poly1305_open_gather key nonce c tag ad tag_len = Some m"
proof -
  have m: "length m < 2 ^ 32 * 64 - 64"
    using s by (auto simp: chacha20_poly1305_seal_scatter_def Let_def split: if_splits)
  then have ml: "length m + length ([] :: u8 list) < 2 ^ 64" by simp
  have tl: "length ([] :: u8 list) + tag_len < 2 ^ 64" using t by simp
  let ?c = "CRYPTO_chacha_20 m key nonce 1"
  have l: "length ?c = length m" by (rule length_CRYPTO_chacha_20 [OF k])
  have e: "c = ?c" "tag = take tag_len (calc_tag key nonce ad ?c [])" "tag_len \<le> room"
    using s l unfolding seal_scatter_eq [OF k tl ml] by (auto simp: Let_def seal_ok_def split: if_splits)
  have "chacha20_poly1305_open_gather key nonce ?c (take tag_len (calc_tag key nonce ad ?c [])) ad tag_len = Some m"
    using t m l CRYPTO_chacha_20_twice [OF k, of m 1] by (subst open_gather_eq [OF k t]) simp
  then show ?thesis using e l t by simp
qed

lemma chacha_gather_length:
  assumes "length key = 32" "chacha20_poly1305_open_gather key nonce c tag ad tag_len = Some m"
  shows "length m = length c"
  using assms length_CRYPTO_chacha_20 [of key nonce c 1] by (auto simp: chacha20_poly1305_open_gather_def Let_def split: if_splits)

interpretation chacha: aead_method aead_chacha20_poly1305 aead_chacha20_poly1305_open_gather aead_ok
proof unfold_locales
  fix d room nonce m ad c t
  assume d: "aead_ok d" and s: "aead_seal_scatter aead_chacha20_poly1305 d room nonce m [] ad = Some (c, t)"
  then have s': "chacha20_poly1305_seal_scatter (take 32 (ad_state d)) room nonce m [] ad (ad_tag_len d) = Some (c, t)"
    by (simp add: aead_chacha20_poly1305_def aead_chacha20_poly1305_seal_scatter_def)
  then have "length nonce = 12" by (auto simp: chacha20_poly1305_seal_scatter_def split: if_splits)
  then have "length c = length m \<and> length t = ad_tag_len d \<and> ad_tag_len d \<le> room \<and>
      chacha20_poly1305_open_gather (take 32 (ad_state d)) nonce c t ad (ad_tag_len d) = Some m"
    using d by (intro chacha_gather_sealed [OF _ _ _ s']) (simp_all add: aead_ok_def)
  then show "length c = length m \<and> length t = ad_tag_len d \<and> length t \<le> room" "aead_chacha20_poly1305_open_gather d nonce c t ad = Some m"
    by (simp_all add: aead_chacha20_poly1305_open_gather_def)
next
  fix d nonce c t ad m
  assume "aead_ok d" "aead_chacha20_poly1305_open_gather d nonce c t ad = Some m"
  then show "length m = length c"
    by (intro chacha_gather_length [of "take 32 (ad_state d)" nonce c t ad "ad_tag_len d"]) (simp_all add: aead_ok_def aead_chacha20_poly1305_open_gather_def)
qed (simp_all add: aead_chacha20_poly1305_def)

interpretation xchacha: aead_method aead_xchacha20_poly1305 aead_xchacha20_poly1305_open_gather aead_ok
proof unfold_locales
  fix d room nonce m ad c t
  assume d: "aead_ok d" and s: "aead_seal_scatter aead_xchacha20_poly1305 d room nonce m [] ad = Some (c, t)"
  let ?k = "CRYPTO_hchacha20 (take 32 (ad_state d)) (take 16 nonce)" and ?n = "replicate 4 0 @ take 8 (drop 16 nonce)"
  have n: "length nonce = 24" and s': "chacha20_poly1305_seal_scatter ?k room ?n m [] ad (ad_tag_len d) = Some (c, t)"
    using s by (auto simp: aead_xchacha20_poly1305_def aead_xchacha20_poly1305_seal_scatter_def Let_def split: if_splits)
  have "length c = length m \<and> length t = ad_tag_len d \<and> ad_tag_len d \<le> room \<and>
      chacha20_poly1305_open_gather ?k ?n c t ad (ad_tag_len d) = Some m"
    using d n by (intro chacha_gather_sealed [OF _ _ _ s']) (simp_all add: aead_ok_def length_CRYPTO_hchacha20)
  then show "length c = length m \<and> length t = ad_tag_len d \<and> length t \<le> room" "aead_xchacha20_poly1305_open_gather d nonce c t ad = Some m"
    using n by (simp_all add: aead_xchacha20_poly1305_open_gather_def Let_def)
next
  fix d nonce c t ad m
  assume "aead_ok d" "aead_xchacha20_poly1305_open_gather d nonce c t ad = Some m"
  then show "length m = length c"
    by (intro chacha_gather_length [of "CRYPTO_hchacha20 (take 32 (ad_state d)) (take 16 nonce)" "replicate 4 0 @ take 8 (drop 16 nonce)" c t ad "ad_tag_len d"])
      (simp_all add: length_CRYPTO_hchacha20 aead_xchacha20_poly1305_open_gather_def Let_def split: if_splits)
qed (simp_all add: aead_xchacha20_poly1305_def)

section \<open>Messages\<close>

lemma init_ok:
  assumes "aead \<in> {aead_chacha20_poly1305, aead_xchacha20_poly1305}" "length (ad_state (ctx_data c0)) = 584"
    "EVP_AEAD_CTX_init c0 aead key tag_len = Some (True, ctx)"
  shows "ctx_aead ctx = Some aead \<and> aead_ok (ctx_data ctx) \<and> take 32 (ad_state (ctx_data ctx)) = key \<and> length key = 32 \<and>
    ad_tag_len (ctx_data ctx) = (if tag_len = 0 then 16 else tag_len)"
proof -
  have "aead_init aead = Some aead_chacha20_poly1305_init" "aead_key_len aead = 32"
    using assms(1) by (auto simp: aead_chacha20_poly1305_def aead_xchacha20_poly1305_def)
  then show ?thesis using assms(2,3)
    by (auto simp: EVP_AEAD_CTX_init_def EVP_AEAD_CTX_init_with_direction_def aead_chacha20_poly1305_init_def aead_ok_def put_at_def Let_def
      split: if_splits)
qed

lemma init_succeeds:
  assumes "aead \<in> {aead_chacha20_poly1305, aead_xchacha20_poly1305}" "length key = 32" "tag_len \<le> 16"
  shows "\<exists>ctx. EVP_AEAD_CTX_init c0 aead key tag_len = Some (True, ctx)"
proof -
  have "aead_init aead = Some aead_chacha20_poly1305_init" "aead_key_len aead = 32"
    using assms(1) by (auto simp: aead_chacha20_poly1305_def aead_xchacha20_poly1305_def)
  then show ?thesis using assms(2,3)
    by (simp add: EVP_AEAD_CTX_init_def EVP_AEAD_CTX_init_with_direction_def aead_chacha20_poly1305_init_def Let_def)
qed

text \<open>
  C29. What \<open>EVP_AEAD_CTX_seal\<close> wrote for ChaCha20-Poly1305 or XChaCha20-Poly1305, with any tag length, is opened by
  \<open>EVP_AEAD_CTX_open\<close> to the same message, in place or into another buffer.
\<close>

theorem aead_seal_open:
  assumes "aead \<in> {aead_chacha20_poly1305, aead_xchacha20_poly1305}" "length (ad_state (ctx_data c0)) = 584"
    and "EVP_AEAD_CTX_init c0 aead key tag_len = Some (True, ctx)"
    and "EVP_AEAD_CTX_seal ctx out_at out nonce in_at m ad = Some (True, n, out')"
    and "length m \<le> length out2" "check_alias in_at2 n out_at2 (length out2)" "in_at2 + n < 2 ^ 64" "out_at2 + length out2 < 2 ^ 64"
  shows "EVP_AEAD_CTX_open ctx out_at2 out2 nonce in_at2 (take n out') ad = Some (True, length m, m @ drop (length m) out2)"
proof -
  have c: "ctx_aead ctx = Some aead" "aead_ok (ctx_data ctx)" using init_ok [OF assms(1-3)] by simp_all
  show ?thesis
  proof (cases "aead = aead_chacha20_poly1305")
    case True
    show ?thesis by (rule chacha.open_sealed [OF c(1) [unfolded True] c(2) assms(4-8)])
  next
    case False
    then have x: "aead = aead_xchacha20_poly1305" using assms(1) by simp
    show ?thesis by (rule xchacha.open_sealed [OF c(1) [unfolded x] c(2) assms(4-8)])
  qed
qed

text \<open>The AEAD of RFC 8439, with the tag cut to \<open>tag_len\<close> bytes.\<close>

definition rfc8439_aead :: "nat \<Rightarrow> u8 list \<Rightarrow> u8 list \<Rightarrow> u8 list \<Rightarrow> u8 list \<Rightarrow> u8 list \<times> u8 list" where
  "rfc8439_aead tag_len key nonce ad m =
     (let c = rfc8439_chacha20 key 1 nonce m
      in (c, take tag_len (rfc8439_poly1305 (poly_key key nonce) (mac_data ad c))))"

definition tag_exact :: "u8 list \<Rightarrow> u8 list \<Rightarrow> u8 list \<Rightarrow> u8 list \<Rightarrow> bool" where
  "tag_exact key nonce ad c \<longleftrightarrow> \<not> carry_case (poly_acc (poly_key key nonce) (mac_data ad c))"

lemma rfc8439_chacha20_twice:
  assumes "length key = 32" "length nonce = 12"
  shows "rfc8439_chacha20 key 1 nonce (rfc8439_chacha20 key 1 nonce m) = m" "length (rfc8439_chacha20 key 1 nonce m) = length m"
  using CRYPTO_chacha_20_twice [OF assms, of m 1] length_CRYPTO_chacha_20 [OF assms, of m 1] by (simp_all add: CRYPTO_chacha_20_eq [OF assms])

text \<open>The tag that the code computes is the one of RFC 8439 but for the carry that Poly1305 drops.\<close>

lemma tag_exact_rfc:
  assumes k: "length key = 32" "length nonce = 12" and m: "length m < 2 ^ 63"
    and x: "tag_exact key nonce ad (rfc8439_chacha20 key 1 nonce m)"
  shows "take tag_len (calc_tag key nonce ad (rfc8439_chacha20 key 1 nonce m) []) = snd (rfc8439_aead tag_len key nonce ad m)"
proof -
  have "length (rfc8439_chacha20 key 1 nonce m) < 2 ^ 64" using rfc8439_chacha20_twice(2) [OF k, of m] m by simp
  then show ?thesis using x calc_tag_rfc [OF k] by (simp add: tag_exact_def rfc8439_aead_def Let_def)
qed

lemma chacha_seal_rfc:
  assumes k: "length key = 32" "length nonce = 12" and t: "tag_len \<le> 16" and m: "length m + length e < 2 ^ 63"
    and r: "seal_ok room tag_len m e"
  defines "c \<equiv> rfc8439_chacha20 key 1 nonce (m @ e)"
  shows "chacha20_poly1305_seal_scatter key room nonce m e ad tag_len =
    Some (take (length m) c, drop (length m) c @ take tag_len (calc_tag key nonce ad c []))"
proof -
  have "length e + tag_len < 2 ^ 64" "length m + length e < 2 ^ 64" using m t by simp_all
  then show ?thesis using r by (simp add: seal_scatter_eq [OF k] CRYPTO_chacha_20_eq [OF k] c_def Let_def)
qed

lemma chacha_open_rfc:
  assumes k: "length key = 32" "length nonce = 12" and t: "tag_len \<le> 16" and m: "length m < 2 ^ 32 * 64 - 64"
    and l: "length t = tag_len"
  defines "c \<equiv> rfc8439_chacha20 key 1 nonce m"
  shows "chacha20_poly1305_open_gather key nonce c t ad tag_len = (if t = take tag_len (calc_tag key nonce ad c []) then Some m else None)"
proof -
  have "length c = length m" "rfc8439_chacha20 key 1 nonce c = m" unfolding c_def by (rule rfc8439_chacha20_twice [OF k])+
  then show ?thesis using m l by (simp add: open_gather_eq [OF k t] CRYPTO_chacha_20_eq [OF k])
qed

text \<open>
  C11. Sealing with ChaCha20-Poly1305 gives the ciphertext of RFC 8439 for the plaintext followed by the extra
  plaintext, and a tag of the length asked for; opening accepts the ciphertext with that tag only, and with any other
  of the length the result is an error and a cleared buffer. The tag is that of RFC 8439 whenever the Poly1305
  accumulator does not end on one of the 105 values whose last carry is dropped (\<open>tag_exact\<close>; C6 has one where it
  is not).
\<close>

theorem aead_rfc8439:
  assumes "length (ad_state (ctx_data c0)) = 584" "EVP_AEAD_CTX_init c0 aead_chacha20_poly1305 key tag_len = Some (True, ctx)"
    and "length nonce = 12" "rfc8439_aead (if tag_len = 0 then 16 else tag_len) key nonce ad (m @ e) = (c, rfc_tag)"
    and "length e + length rfc_tag \<le> length out_tag" "length (m @ e) < 2 ^ 32 * 64 - 64"
    and "check_alias in_at (length m) out_at (length m)" "\<not> buffers_alias out_at (length m) tag_at (length out_tag)"
    and "\<not> buffers_alias in_at (length m) tag_at (length out_tag)"
  shows "\<exists>tag. length tag = length rfc_tag \<and> (tag_exact key nonce ad c \<longrightarrow> tag = rfc_tag) \<and>
    EVP_AEAD_CTX_seal_scatter ctx out_at out tag_at out_tag nonce in_at m e ad =
      Some (True, length e + length tag, put_at 0 (take (length m) c) out, put_at 0 (drop (length m) c @ tag) out_tag) \<and>
    (\<forall>t in_at out_at out. length t = length tag \<and> length c \<le> length out \<and> check_alias in_at (length (c @ t)) out_at (length out) \<and>
        in_at + length (c @ t) < 2 ^ 64 \<and> out_at + length out < 2 ^ 64 \<longrightarrow>
      EVP_AEAD_CTX_open ctx out_at out nonce in_at (c @ t) ad =
        Some (if t = tag then (True, length (m @ e), (m @ e) @ drop (length (m @ e)) out) else (False, 0, replicate (length out) 0)))"
proof -
  let ?T = "if tag_len = 0 then 16 else tag_len"
  define tag where "tag = take ?T (calc_tag key nonce ad c [])"
  have i: "ctx_aead ctx = Some aead_chacha20_poly1305" "aead_ok (ctx_data ctx)" "take 32 (ad_state (ctx_data ctx)) = key" "length key = 32"
    "ad_tag_len (ctx_data ctx) = ?T"
    using init_ok [OF _ assms(1,2)] by simp_all
  have T: "?T \<le> 16" using i(2,5) by (simp add: aead_ok_def)
  have c: "c = rfc8439_chacha20 key 1 nonce (m @ e)" "rfc_tag = snd (rfc8439_aead ?T key nonce ad (m @ e))"
    using assms(4) by (auto simp: rfc8439_aead_def Let_def)
  have lt: "length rfc_tag = ?T" "length tag = ?T" using assms(4) T by (auto simp: tag_def rfc8439_aead_def rfc8439_poly1305_def Let_def)
  have lc: "length c = length (m @ e)" unfolding c(1) by (rule rfc8439_chacha20_twice(2) [OF i(4) assms(3)])
  have x: "tag_exact key nonce ad c \<Longrightarrow> tag = rfc_tag"
    unfolding tag_def c using assms(6) by (intro tag_exact_rfc [OF i(4) assms(3)]) simp_all
  have "seal_ok (length out_tag) ?T m e" using assms(5,6) lt by (simp add: seal_ok_def)
  then have "chacha20_poly1305_seal_scatter key (length out_tag) nonce m e ad ?T = Some (take (length m) c, drop (length m) c @ tag)"
    unfolding tag_def c(1) using assms(6) by (intro chacha_seal_rfc [OF i(4) assms(3) T]) simp_all
  then have s: "EVP_AEAD_CTX_seal_scatter ctx out_at out tag_at out_tag nonce in_at m e ad =
      Some (True, length e + length tag, put_at 0 (take (length m) c) out, put_at 0 (drop (length m) c @ tag) out_tag)"
    using assms(7-9) i lc by (simp add: EVP_AEAD_CTX_seal_scatter_def aead_chacha20_poly1305_def aead_chacha20_poly1305_seal_scatter_def Let_def)
  have g: "aead_chacha20_poly1305_open_gather (ctx_data ctx) nonce c t ad = (if t = tag then Some (m @ e) else None)" if "length t = ?T" for t
    unfolding aead_chacha20_poly1305_open_gather_def i(3,5) tag_def c(1)
    using assms(6) that by (intro chacha_open_rfc [OF i(4) assms(3) T]) simp_all
  have o: "EVP_AEAD_CTX_open ctx out_at2 out2 nonce in_at2 (c @ t) ad =
      Some (if t = tag then (True, length (m @ e), (m @ e) @ drop (length (m @ e)) out2) else (False, 0, replicate (length out2) 0))"
    if "length t = length tag" "length c \<le> length out2" "check_alias in_at2 (length (c @ t)) out_at2 (length out2)"
      "in_at2 + length (c @ t) < 2 ^ 64" "out_at2 + length out2 < 2 ^ 64" for t in_at2 out_at2 out2
    using g [of t] lc lt i(5) that by (subst chacha.open_eq [OF i(1,2), where n = "length c"]) simp_all
  show ?thesis
  proof (intro exI [of _ tag] conjI allI impI)
    show "length tag = length rfc_tag" using lt by simp
    show "tag = rfc_tag" if "tag_exact key nonce ad c" by (rule x [OF that])
  qed (rule s, rule o, auto)
qed

section \<open>Examples\<close>

text \<open>The block of the zero key.\<close>

lemma zero_round_0: "double_round [0x61707865, 0x3320646e, 0x79622d32, 0x6b206574, 0x0, 0x0, 0x0, 0x0, 0x0, 0x0, 0x0, 0x0, 0x0, 0x0, 0x0, 0x0] =
  [0xe45fd249, 0x1bb820a6, 0xe31a88ea, 0xe667a9fe, 0x2a3bf673, 0x86bf4098, 0x460b500a, 0xfa169886, 0x538dca0e, 0xc439641, 0xfa16bc, 0x8a08812a, 0x6bbf8b09, 0xc33013d6, 0xbb9f9849, 0x87c62165]"
  by code_simp

lemma zero_round_1: "double_round [0xe45fd249, 0x1bb820a6, 0xe31a88ea, 0xe667a9fe, 0x2a3bf673, 0x86bf4098, 0x460b500a, 0xfa169886, 0x538dca0e, 0xc439641, 0xfa16bc, 0x8a08812a, 0x6bbf8b09, 0xc33013d6, 0xbb9f9849, 0x87c62165] =
  [0xb20e0da6, 0x21219e43, 0x79c69196, 0x8eb9d107, 0x28bfa54e, 0xe8a389f, 0x7919a4b4, 0x323f2639, 0x69727d19, 0x12e796ec, 0xd1875d88, 0x602bb1ec, 0x601c8a8d, 0x18cf3767, 0x60d10ebc, 0x17aa36ca]"
  by code_simp

lemma zero_round_2: "double_round [0xb20e0da6, 0x21219e43, 0x79c69196, 0x8eb9d107, 0x28bfa54e, 0xe8a389f, 0x7919a4b4, 0x323f2639, 0x69727d19, 0x12e796ec, 0xd1875d88, 0x602bb1ec, 0x601c8a8d, 0x18cf3767, 0x60d10ebc, 0x17aa36ca] =
  [0x287a2a1, 0xd2dc39ef, 0xf2ecf51e, 0xc3876afe, 0x9276b821, 0x37ccb7a7, 0x1fe6c459, 0xe5f95617, 0xd7b18523, 0xa0952ff2, 0x131f6ff5, 0x6f38a9cc, 0x5c427a5f, 0x1d928d7b, 0xf4d2b4da, 0x1a640884]"
  by code_simp

lemma zero_round_3: "double_round [0x287a2a1, 0xd2dc39ef, 0xf2ecf51e, 0xc3876afe, 0x9276b821, 0x37ccb7a7, 0x1fe6c459, 0xe5f95617, 0xd7b18523, 0xa0952ff2, 0x131f6ff5, 0x6f38a9cc, 0x5c427a5f, 0x1d928d7b, 0xf4d2b4da, 0x1a640884] =
  [0xce7e87d9, 0xa31ffb1b, 0x6f562e4d, 0x3684a3ab, 0xc30e842c, 0x3b7f9ace, 0x88e11b18, 0x1e1a71ef, 0x72e14c98, 0x416f21b9, 0x6753449f, 0x19566d45, 0xa3424a31, 0x1b086da, 0xb8fd7b38, 0x42fe0c0e]"
  by code_simp

lemma zero_round_4: "double_round [0xce7e87d9, 0xa31ffb1b, 0x6f562e4d, 0x3684a3ab, 0xc30e842c, 0x3b7f9ace, 0x88e11b18, 0x1e1a71ef, 0x72e14c98, 0x416f21b9, 0x6753449f, 0x19566d45, 0xa3424a31, 0x1b086da, 0xb8fd7b38, 0x42fe0c0e] =
  [0x4e03490c, 0x97eebef9, 0xf682bb04, 0x2f47e3b0, 0x50b4761b, 0xea7c9cf0, 0xb3a3e583, 0xe5bad8a8, 0x4f9f9d79, 0x44f52393, 0xabbfaf66, 0x5efd347a, 0xb1f55cb5, 0x5110aed, 0x561c5907, 0xd41d25b4]"
  by code_simp

lemma zero_round_5: "double_round [0x4e03490c, 0x97eebef9, 0xf682bb04, 0x2f47e3b0, 0x50b4761b, 0xea7c9cf0, 0xb3a3e583, 0xe5bad8a8, 0x4f9f9d79, 0x44f52393, 0xabbfaf66, 0x5efd347a, 0xb1f55cb5, 0x5110aed, 0x561c5907, 0xd41d25b4] =
  [0x92a7c36, 0x20d8f099, 0x996bf24f, 0x6a62c0eb, 0xbbc32904, 0x1474e049, 0xa589007e, 0x5f15ae2e, 0x79f86405, 0xc0e37ad2, 0x3428e82c, 0x798cfaac, 0x2c9f623a, 0x1969dea0, 0x2fe80b61, 0xbe261341]"
  by code_simp

lemma zero_round_6: "double_round [0x92a7c36, 0x20d8f099, 0x996bf24f, 0x6a62c0eb, 0xbbc32904, 0x1474e049, 0xa589007e, 0x5f15ae2e, 0x79f86405, 0xc0e37ad2, 0x3428e82c, 0x798cfaac, 0x2c9f623a, 0x1969dea0, 0x2fe80b61, 0xbe261341] =
  [0x6ddf4b98, 0x5fde0110, 0xd9ddb632, 0x7418250b, 0xdda3ea19, 0x46da35f5, 0x31fb36ca, 0x70e56323, 0x46d58770, 0xc0c8e4e6, 0xba4b1657, 0xc4702b5e, 0xaf4ad6e3, 0xe6947902, 0x2681e5bb, 0x28344e52]"
  by code_simp

lemma zero_round_7: "double_round [0x6ddf4b98, 0x5fde0110, 0xd9ddb632, 0x7418250b, 0xdda3ea19, 0x46da35f5, 0x31fb36ca, 0x70e56323, 0x46d58770, 0xc0c8e4e6, 0xba4b1657, 0xc4702b5e, 0xaf4ad6e3, 0xe6947902, 0x2681e5bb, 0x28344e52] =
  [0xf6eb4385, 0xf5070cf, 0x824ac4d4, 0xff026184, 0x71db97dd, 0x60cd994d, 0xad805036, 0x89d591ce, 0x9e5243f3, 0x16d0ee25, 0x82e92b96, 0xd0da8654, 0x6b96a006, 0x477a37f7, 0xd244fa8c, 0xb24c5c63]"
  by code_simp

lemma zero_round_8: "double_round [0xf6eb4385, 0xf5070cf, 0x824ac4d4, 0xff026184, 0x71db97dd, 0x60cd994d, 0xad805036, 0x89d591ce, 0x9e5243f3, 0x16d0ee25, 0x82e92b96, 0xd0da8654, 0x6b96a006, 0x477a37f7, 0xd244fa8c, 0xb24c5c63] =
  [0xa49d0bb, 0xfd73bfeb, 0xc24392d4, 0xe110766d, 0x7c188159, 0x390f8b4d, 0xa23271f, 0xe051682, 0x5b48a341, 0x861dff7, 0x5d33cdbb, 0x17d4372d, 0xc5d89a0b, 0x9df1402c, 0xb08ab5e0, 0x85488580]"
  by code_simp

lemma zero_round_9: "double_round [0xa49d0bb, 0xfd73bfeb, 0xc24392d4, 0xe110766d, 0x7c188159, 0x390f8b4d, 0xa23271f, 0xe051682, 0x5b48a341, 0x861dff7, 0x5d33cdbb, 0x17d4372d, 0xc5d89a0b, 0x9df1402c, 0xb08ab5e0, 0x85488580] =
  [0x4c704011, 0x5d1d8d32, 0x6c08300e, 0xbd9d20df, 0xb819d2bd, 0x1aed8da0, 0xccef36a8, 0xc70d778b, 0x7c5941da, 0x8d485751, 0x3fe02477, 0x374ad8b8, 0xf4b8436a, 0x1ca11815, 0x69b687c3, 0x8665eeb2]"
  by code_simp

lemmas zero_rounds = zero_round_0 zero_round_1 zero_round_2 zero_round_3 zero_round_4 zero_round_5 zero_round_6 zero_round_7 zero_round_8 zero_round_9

lemma zero_block: "chacha_core [0x61707865, 0x3320646e, 0x79622d32, 0x6b206574, 0x0, 0x0, 0x0, 0x0, 0x0, 0x0, 0x0, 0x0, 0x0, 0x0, 0x0, 0x0] =
  [0x76, 0xb8, 0xe0, 0xad, 0xa0, 0xf1, 0x3d, 0x90, 0x40, 0x5d, 0x6a, 0xe5, 0x53, 0x86, 0xbd, 0x28, 0xbd, 0xd2, 0x19, 0xb8, 0xa0, 0x8d, 0xed, 0x1a, 0xa8, 0x36, 0xef, 0xcc, 0x8b, 0x77, 0xd, 0xc7, 0xda, 0x41, 0x59, 0x7c, 0x51, 0x57, 0x48, 0x8d, 0x77, 0x24, 0xe0, 0x3f, 0xb8, 0xd8, 0x4a, 0x37, 0x6a, 0x43, 0xb8, 0xf4, 0x15, 0x18, 0xa1, 0x1c, 0xc3, 0x87, 0xb6, 0x69, 0xb2, 0xee, 0x65, 0x86]"
proof -
  have "(double_round ^^ 10) [0x61707865, 0x3320646e, 0x79622d32, 0x6b206574, 0x0, 0x0, 0x0, 0x0, 0x0, 0x0, 0x0, 0x0, 0x0, 0x0, 0x0, 0x0] =
      [0x4c704011, 0x5d1d8d32, 0x6c08300e, 0xbd9d20df, 0xb819d2bd, 0x1aed8da0, 0xccef36a8, 0xc70d778b, 0x7c5941da, 0x8d485751, 0x3fe02477, 0x374ad8b8, 0xf4b8436a, 0x1ca11815, 0x69b687c3, 0x8665eeb2]"
    by (simp only: numeral_eq_Suc pred_numeral_simps BitM.simps funpow.simps o_apply id_apply zero_rounds)
  then show ?thesis by (simp add: chacha_core_def Let_def upt_rec U32TO8_LITTLE_def)
qed
lemma rfc_zero_block: "poly_key (replicate 32 0) (replicate 12 0) =
  [0x76, 0xb8, 0xe0, 0xad, 0xa0, 0xf1, 0x3d, 0x90, 0x40, 0x5d, 0x6a, 0xe5, 0x53, 0x86, 0xbd, 0x28, 0xbd, 0xd2, 0x19, 0xb8, 0xa0, 0x8d, 0xed, 0x1a, 0xa8, 0x36, 0xef, 0xcc, 0x8b, 0x77, 0xd, 0xc7]"
proof -
  have "rfc_state (replicate 32 0) 0 (replicate 12 0) = [0x61707865, 0x3320646e, 0x79622d32, 0x6b206574, 0x0, 0x0, 0x0, 0x0, 0x0, 0x0, 0x0, 0x0, 0x0, 0x0, 0x0, 0x0]"
    by (simp add: rfc_state_def spec_words_def upt_8 upt_3 min_absorb1 replicate4)
  then have "rfc_block (replicate 32 0) 0 (replicate 12 0) = chacha_core [0x61707865, 0x3320646e, 0x79622d32, 0x6b206574, 0x0, 0x0, 0x0, 0x0, 0x0, 0x0, 0x0, 0x0, 0x0, 0x0, 0x0, 0x0]"
    using chacha_core_eq [OF length_rfc_state, of "replicate 32 0" 0 "replicate 12 0"] by (simp add: rfc_block_def Let_def)
  then show ?thesis by (simp add: poly_key_def zero_block)
qed

lemma zero_tag_exact: "tag_exact (replicate 32 0) (replicate 12 0) [1, 2, 3] []"
proof -
  have c: "poly_clamp (poly_key (replicate 32 0) (replicate 12 0)) = 0x8bd8650056a5d40003df1a00de0b876"
    by (simp add: poly_clamp_def rfc_zero_block)
  have "mac_data [1, 2, 3] [] = [1, 2, 3, 0, 0, 0, 0, 0, 0, 0, 0, 0, 0, 0, 0, 0, 3, 0, 0, 0, 0, 0, 0, 0, 0, 0, 0, 0, 0, 0, 0, 0]"
  proof -
    have "replicate 13 (0 :: u8) = [0, 0, 0, 0, 0, 0, 0, 0, 0, 0, 0, 0, 0]" by (simp add: numeral_eq_Suc)
    then show ?thesis by (simp add: mac_data_def pad16_def le_bytes_upt [symmetric] upt_8)
  qed
  then have "poly_acc (poly_key (replicate 32 0) (replicate 12 0)) (mac_data [1, 2, 3] []) = 0x383bc100c94de049865bdf2566e7ad54a"
    by (simp add: poly_acc_def poly_blocks_def chunks.simps leftover.simps poly_step_def c P1305_def)
  then show ?thesis by (simp add: tag_exact_def carry_case_def)
qed

lemma seal_success:
  assumes "ctx_aead ctx = Some aead_chacha20_poly1305" "aead_ok (ctx_data ctx)" "length nonce = 12" "length m < 2 ^ 32 * 64 - 64"
    "length m + ad_tag_len (ctx_data ctx) \<le> length out" "check_alias in_at (length m) out_at (length out)"
  shows "\<exists>out'. EVP_AEAD_CTX_seal ctx out_at out nonce in_at m ad = Some (True, length m + ad_tag_len (ctx_data ctx), out')"
proof -
  have "aead_seal_scatter aead_chacha20_poly1305 (ctx_data ctx) (length out - length m) nonce m [] ad \<noteq> None"
    using assms(2-5) by (simp add: aead_chacha20_poly1305_def aead_chacha20_poly1305_seal_scatter_def seal_scatter_eq aead_ok_def seal_ok_def Let_def)
  then obtain c t where s: "aead_seal_scatter aead_chacha20_poly1305 (ctx_data ctx) (length out - length m) nonce m [] ad = Some (c, t)" by auto
  have "aead_overhead aead_chacha20_poly1305 = 16" by (simp add: aead_chacha20_poly1305_def)
  then show ?thesis using s assms chacha.sealed_length [OF assms(2) s] by (simp add: EVP_AEAD_CTX_seal_def Let_def)
qed

theorem aead_seal_open_witness:
  "\<exists>ctx n out'. EVP_AEAD_CTX_seal ctx 1000 (replicate 19 0) (replicate 12 2) 5000 [1, 2, 3] [9] = Some (True, n, out') \<and>
    EVP_AEAD_CTX_open ctx 9000 (replicate 3 0) (replicate 12 2) 1000 (take n out') [9] = Some (True, 3, [1, 2, 3])"
proof -
  have z: "length (ad_state (ctx_data EVP_AEAD_CTX_zero)) = 584" by (simp add: EVP_AEAD_CTX_zero_def)
  obtain ctx where i: "EVP_AEAD_CTX_init EVP_AEAD_CTX_zero aead_chacha20_poly1305 (replicate 32 1) 0 = Some (True, ctx)"
    using init_succeeds [of aead_chacha20_poly1305 "replicate 32 1" 0] by auto
  have c: "ctx_aead ctx = Some aead_chacha20_poly1305" "aead_ok (ctx_data ctx)" "ad_tag_len (ctx_data ctx) = 16" using init_ok [OF _ z i] by simp_all
  obtain out' where s: "EVP_AEAD_CTX_seal ctx 1000 (replicate 19 0) (replicate 12 2) 5000 [1, 2, 3] [9] = Some (True, 19, out')"
    using seal_success [OF c(1,2), of "replicate 12 2" "[1, 2, 3]" "replicate 19 0" 5000 1000 "[9]"] c(3) by (auto simp: check_alias_def buffers_alias_def)
  have "EVP_AEAD_CTX_open ctx 9000 (replicate 3 0) (replicate 12 2) 1000 (take 19 out') [9] = Some (True, length [1, 2, 3 :: u8], [1, 2, 3] @ drop (length [1, 2, 3 :: u8]) (replicate 3 0))"
    by (rule aead_seal_open [OF _ z i s]) (simp_all add: check_alias_def buffers_alias_def)
  then show ?thesis using s by (auto simp: numeral_3_eq_3)
qed

theorem aead_rfc8439_witness:
  "\<exists>ctx tag. rfc8439_aead 16 (replicate 32 0) (replicate 12 0) [1, 2, 3] [] = ([], tag) \<and>
    EVP_AEAD_CTX_seal_scatter ctx 1000 [] 2000 (replicate 16 0) (replicate 12 0) 5000 [] [] [1, 2, 3] = Some (True, 16, [], tag) \<and>
    EVP_AEAD_CTX_open ctx 9000 [] (replicate 12 0) 2000 tag [1, 2, 3] = Some (True, 0, [])"
proof -
  have z: "length (ad_state (ctx_data EVP_AEAD_CTX_zero)) = 584" by (simp add: EVP_AEAD_CTX_zero_def)
  obtain ctx where i: "EVP_AEAD_CTX_init EVP_AEAD_CTX_zero aead_chacha20_poly1305 (replicate 32 0) 0 = Some (True, ctx)"
    using init_succeeds [of aead_chacha20_poly1305 "replicate 32 0" 0] by auto
  have c: "rfc8439_chacha20 (replicate 32 0) 1 (replicate 12 0) [] = []" by (simp add: rfc8439_chacha20_def)
  obtain tag where t: "rfc8439_aead 16 (replicate 32 0) (replicate 12 0) [1, 2, 3] [] = ([], tag)" "length tag = 16"
    by (simp add: rfc8439_aead_def c rfc8439_poly1305_def)
  have "\<exists>tag'. length tag' = length tag \<and> (tag_exact (replicate 32 0) (replicate 12 0) [1, 2, 3] [] \<longrightarrow> tag' = tag) \<and>
    EVP_AEAD_CTX_seal_scatter ctx 1000 [] 2000 (replicate 16 0) (replicate 12 0) 5000 [] [] [1, 2, 3] =
      Some (True, length ([] :: u8 list) + length tag', put_at 0 (take (length ([] :: u8 list)) []) [],
        put_at 0 (drop (length ([] :: u8 list)) [] @ tag') (replicate 16 0)) \<and>
    (\<forall>t in_at out_at out. length t = length tag' \<and> length ([] :: u8 list) \<le> length out \<and>
        check_alias in_at (length ([] @ t)) out_at (length out) \<and> in_at + length ([] @ t) < 2 ^ 64 \<and> out_at + length out < 2 ^ 64 \<longrightarrow>
      EVP_AEAD_CTX_open ctx out_at out (replicate 12 0) in_at ([] @ t) [1, 2, 3] =
        Some (if t = tag' then (True, length ([] @ [] :: u8 list), ([] @ []) @ drop (length ([] @ [] :: u8 list)) out) else (False, 0, replicate (length out) 0)))"
    by (rule aead_rfc8439 [OF z i]) (use t c in \<open>simp_all add: check_alias_def buffers_alias_def\<close>)
  then have s: "EVP_AEAD_CTX_seal_scatter ctx 1000 [] 2000 (replicate 16 0) (replicate 12 0) 5000 [] [] [1, 2, 3] = Some (True, 16, [], tag)"
    and "\<forall>t in_at out_at out. length t = length tag \<and> length ([] :: u8 list) \<le> length out \<and>
        check_alias in_at (length ([] @ t)) out_at (length out) \<and> in_at + length ([] @ t) < 2 ^ 64 \<and> out_at + length out < 2 ^ 64 \<longrightarrow>
      EVP_AEAD_CTX_open ctx out_at out (replicate 12 0) in_at ([] @ t) [1, 2, 3] =
        Some (if t = tag then (True, length ([] @ [] :: u8 list), ([] @ []) @ drop (length ([] @ [] :: u8 list)) out) else (False, 0, replicate (length out) 0))"
    using zero_tag_exact t(2) by (auto simp: put_at_def)
  from this(2) [rule_format, of tag "[]" 2000 9000] have "EVP_AEAD_CTX_open ctx 9000 [] (replicate 12 0) 2000 tag [1, 2, 3] = Some (True, 0, [])"
    using t(2) by (simp add: check_alias_def buffers_alias_def)
  then show ?thesis using s t(1) by blast
qed

end
