(* ===== verification/Modes.thy ===== *)
theory Modes
  imports Chacha
begin

text \<open>
  \<open>crypto/fipsmodule/modes/{cbc,cfb,ctr,ofb}.c\<close>: the block cipher modes over an arbitrary block cipher. The
  \<open>block128_f\<close> with its key is a parameter of every operation, a function on blocks of 16 bytes; the \<open>ctr128_f\<close>
  of \<open>CRYPTO_ctr128_encrypt_ctr32\<close> is another. The byte modes are related to machines that take one byte at a
  time, from which it follows that data may be passed in any pieces; CBC decryption is modelled on memory,
  since its two branches exist because input and output may overlap.
\<close>

unbundle bit_operations_syntax

section \<open>Words in memory\<close>

definition load_word_le :: "u8 list \<Rightarrow> nat \<Rightarrow> size_t" where
  "load_word_le p k = word_of_nat (le_val (take 8 (drop k p)))"

definition store_word_le :: "size_t \<Rightarrow> u8 list" where
  "store_word_le v = le_bytes 8 (unat v)"

definition GETU32 :: "u8 list \<Rightarrow> nat \<Rightarrow> u32" where
  "GETU32 p k = word_of_nat (be_val (take 4 (drop k p)))"

definition PUTU32 :: "u32 \<Rightarrow> u8 list" where
  "PUTU32 v = be_bytes 4 (unat v)"

text \<open>The offsets of \<open>for (; n < 16; n += sizeof(size_t))\<close>, and the words of two blocks combined there.\<close>

function word_offsets :: "nat \<Rightarrow> nat list" where
  "word_offsets n = (if n < 16 then n # word_offsets (n + 8) else [])"
  by pat_completeness auto
termination by (relation "measure (\<lambda>n. 16 - n)") auto

declare word_offsets.simps [simp del]

definition xor_words :: "nat \<Rightarrow> u8 list \<Rightarrow> u8 list \<Rightarrow> u8 list" where
  "xor_words n a b = concat (map (\<lambda>k. store_word_le (load_word_le a k XOR load_word_le b k)) (word_offsets n))"

type_synonym block128_f = "u8 list \<Rightarrow> u8 list"

section \<open>\<open>cbc.c\<close>\<close>

text \<open>
  The output has a whole number of blocks: a last partial block is filled up with the bytes of the chaining
  value and written in full.
\<close>

function cbc_encrypt_blocks :: "block128_f \<Rightarrow> u8 list \<Rightarrow> u8 list \<Rightarrow> u8 list \<times> u8 list \<times> u8 list" where
  "cbc_encrypt_blocks block iv inp =
     (if 16 \<le> length inp then
        (let out = block (xor_words 0 inp iv); (outs, r) = cbc_encrypt_blocks block out (drop 16 inp)
         in (out @ outs, r))
      else ([], iv, inp))"
  by pat_completeness auto
termination by (relation "measure (\<lambda>(_, _, inp). length inp)") auto

declare cbc_encrypt_blocks.simps [simp del]

function cbc_encrypt_tail :: "block128_f \<Rightarrow> u8 list \<Rightarrow> u8 list \<Rightarrow> u8 list \<times> u8 list" where
  "cbc_encrypt_tail block iv inp =
     (if inp = [] then ([], iv)
      else
        (let out = block (map (\<lambda>n. if n < length inp then inp ! n XOR iv ! n else iv ! n) [0..<16])
         in if length inp \<le> 16 then (out, out)
            else (let (outs, iv) = cbc_encrypt_tail block out (drop 16 inp) in (out @ outs, iv))))"
  by pat_completeness auto
termination by (relation "measure (\<lambda>(_, _, inp). length inp)") auto

declare cbc_encrypt_tail.simps [simp del]

definition CRYPTO_cbc128_encrypt :: "block128_f \<Rightarrow> u8 list \<Rightarrow> u8 list \<Rightarrow> u8 list \<times> u8 list" where
  "CRYPTO_cbc128_encrypt block ivec inp =
     (let (out, iv, rest) = cbc_encrypt_blocks block ivec inp; (last, iv) = cbc_encrypt_tail block iv rest
      in (out @ last, iv))"

text \<open>
  Decryption on a memory: input and output are addresses. \<open>iv\<close> points to \<open>ivec\<close> (\<open>None\<close>) or to an earlier
  block of the input.
\<close>

type_synonym memory = "nat \<Rightarrow> u8"

definition mem_bytes :: "memory \<Rightarrow> nat \<Rightarrow> nat \<Rightarrow> u8 list" where
  "mem_bytes m a n = map (\<lambda>i. m (a + i)) [0..<n]"

definition mem_put :: "memory \<Rightarrow> nat \<Rightarrow> u8 list \<Rightarrow> memory" where
  "mem_put m a bs = (\<lambda>x. if a \<le> x \<and> x < a + length bs then bs ! (x - a) else m x)"

definition mem_word :: "memory \<Rightarrow> nat \<Rightarrow> size_t" where
  "mem_word m a = load_word_le (mem_bytes m a 8) 0"

definition iv_word :: "memory \<Rightarrow> u8 list \<Rightarrow> nat option \<Rightarrow> nat \<Rightarrow> size_t" where
  "iv_word m ivec iv n = (case iv of None \<Rightarrow> load_word_le ivec n | Some a \<Rightarrow> mem_word m (a + n))"

function cbc_decrypt_disjoint ::
    "block128_f \<Rightarrow> u8 list \<Rightarrow> memory \<Rightarrow> nat option \<Rightarrow> nat \<Rightarrow> nat \<Rightarrow> nat \<Rightarrow> memory \<times> nat option \<times> nat \<times> nat \<times> nat" where
  "cbc_decrypt_disjoint block ivec m iv inp out len =
     (if 16 \<le> len then
        (let m = mem_put m out (block (mem_bytes m inp 16));
             m = foldl (\<lambda>m n. mem_put m (out + n) (store_word_le (mem_word m (out + n) XOR iv_word m ivec iv n))) m (word_offsets 0)
         in cbc_decrypt_disjoint block ivec m (Some inp) (inp + 16) (out + 16) (len - 16))
      else (m, iv, inp, out, len))"
  by pat_completeness auto
termination by (relation "measure (\<lambda>(_, _, _, _, _, _, len). len)") auto

declare cbc_decrypt_disjoint.simps [simp del]

function cbc_decrypt_overlap ::
    "block128_f \<Rightarrow> memory \<Rightarrow> u8 list \<Rightarrow> nat \<Rightarrow> nat \<Rightarrow> nat \<Rightarrow> memory \<times> u8 list \<times> nat \<times> nat \<times> nat" where
  "cbc_decrypt_overlap block m ivec inp out len =
     (if 16 \<le> len then
        (let tmp = block (mem_bytes m inp 16);
             (m, ivec) =
               foldl (\<lambda>(m, ivec) n.
                   let c = mem_word m (inp + n);
                       m = mem_put m (out + n) (store_word_le (load_word_le tmp n XOR load_word_le ivec n));
                       ivec = take n ivec @ store_word_le c @ drop (n + 8) ivec
                   in (m, ivec))
                 (m, ivec) (word_offsets 0)
         in cbc_decrypt_overlap block m ivec (inp + 16) (out + 16) (len - 16))
      else (m, ivec, inp, out, len))"
  by pat_completeness auto
termination by (relation "measure (\<lambda>(_, _, _, _, _, len). len)") auto

declare cbc_decrypt_overlap.simps [simp del]

function cbc_decrypt_tail :: "block128_f \<Rightarrow> memory \<Rightarrow> u8 list \<Rightarrow> nat \<Rightarrow> nat \<Rightarrow> nat \<Rightarrow> memory \<times> u8 list" where
  "cbc_decrypt_tail block m ivec inp out len =
     (if len = 0 then (m, ivec)
      else
        (let tmp = block (mem_bytes m inp 16);
             (m, ivec) =
               foldl (\<lambda>(m, ivec) n. let c = m (inp + n) in (m(out + n := tmp ! n XOR ivec ! n), ivec[n := c]))
                 (m, ivec) [0..<min 16 len]
         in if len \<le> 16 then (m, foldl (\<lambda>ivec n. ivec[n := m (inp + n)]) ivec [min 16 len..<16])
            else cbc_decrypt_tail block m ivec (inp + 16) (out + 16) (len - 16)))"
  by pat_completeness auto
termination by (relation "measure (\<lambda>(_, _, _, _, _, len). len)") auto

declare cbc_decrypt_tail.simps [simp del]

definition CRYPTO_cbc128_decrypt :: "block128_f \<Rightarrow> memory \<Rightarrow> u8 list \<Rightarrow> nat \<Rightarrow> nat \<Rightarrow> nat \<Rightarrow> memory \<times> u8 list" where
  "CRYPTO_cbc128_decrypt block m ivec inp out len =
     (let (m, ivec, inp, out, len) =
        (if (32 \<le> inp \<and> out \<le> inp - 32) \<or> inp < out then
           (let (m, iv, inp, out, len) = cbc_decrypt_disjoint block ivec m None inp out len;
                ivec = (case iv of None \<Rightarrow> ivec | Some a \<Rightarrow> mem_bytes m a 16)
            in (m, ivec, inp, out, len))
         else cbc_decrypt_overlap block m ivec inp out len)
      in cbc_decrypt_tail block m ivec inp out len)"

section \<open>\<open>cfb.c\<close>\<close>

fun cfb_head :: "bool \<Rightarrow> nat \<Rightarrow> u8 list \<Rightarrow> u8 list \<Rightarrow> u8 list \<times> nat \<times> u8 list \<times> u8 list" where
  "cfb_head enc n ivec [] = ([], n, ivec, [])"
| "cfb_head enc n ivec (c # inp) =
     (if n \<noteq> 0 then
        (let b = ivec ! n XOR c; ivec = ivec[n := if enc then b else c];
             (out, r) = cfb_head enc ((n + 1) mod 16) ivec inp
         in (b # out, r))
      else ([], n, ivec, c # inp))"

function cfb_blocks :: "block128_f \<Rightarrow> bool \<Rightarrow> nat \<Rightarrow> u8 list \<Rightarrow> u8 list \<Rightarrow> u8 list \<times> nat \<times> u8 list \<times> u8 list" where
  "cfb_blocks block enc n ivec inp =
     (if 16 \<le> length inp then
        (let ivec = block ivec; b = xor_words n ivec inp;
             ivec = take n ivec @ (if enc then b else drop n (take 16 inp));
             (out, r) = cfb_blocks block enc 0 ivec (drop 16 inp)
         in (b @ out, r))
      else ([], n, ivec, inp))"
  by pat_completeness auto
termination by (relation "measure (\<lambda>(_, _, _, _, inp). length inp)") auto

declare cfb_blocks.simps [simp del]

fun cfb_tail :: "bool \<Rightarrow> nat \<Rightarrow> u8 list \<Rightarrow> u8 list \<Rightarrow> u8 list \<times> nat \<times> u8 list" where
  "cfb_tail enc n ivec [] = ([], n, ivec)"
| "cfb_tail enc n ivec (c # inp) =
     (let b = ivec ! n XOR c; ivec = ivec[n := if enc then b else c];
          (out, r) = cfb_tail enc (n + 1) ivec inp
      in (b # out, r))"

definition CRYPTO_cfb128_encrypt :: "block128_f \<Rightarrow> bool \<Rightarrow> nat \<Rightarrow> u8 list \<Rightarrow> u8 list \<Rightarrow> u8 list \<times> nat \<times> u8 list" where
  "CRYPTO_cfb128_encrypt block enc num ivec inp =
     (let (a, n, ivec, inp) = cfb_head enc num ivec inp;
          (b, n, ivec, inp) = cfb_blocks block enc n ivec inp;
          (c, n, ivec) = (if inp \<noteq> [] then cfb_tail enc n (block ivec) inp else ([], n, ivec))
      in (a @ b @ c, n, ivec))"

text \<open>
  The shift register of \<open>cfbr_encrypt_block\<close>; the second half of \<open>ovec\<close> beyond the bytes written is not
  initialised in the code and is a parameter here.
\<close>

definition cfbr_encrypt_block :: "u8 list \<Rightarrow> block128_f \<Rightarrow> u8 list \<Rightarrow> nat \<Rightarrow> u8 list \<Rightarrow> bool \<Rightarrow> (u8 list \<times> u8 list) option" where
  "cfbr_encrypt_block uninit block inp nbits ivec enc =
     (if nbits \<le> 0 \<or> 128 < nbits then None
      else
        (let ovec = ivec; ivec = block ivec; num = (nbits + 7) div 8;
             out = map (\<lambda>n. inp ! n XOR ivec ! n) [0..<num];
             ovec = ovec @ (if enc then out else take num inp) @ drop num uninit;
             rem = nbits mod 8; num = nbits div 8;
             ivec = (if rem = 0 then take 16 (drop num ovec)
                     else map (\<lambda>n. push_bit rem (ovec ! (n + num)) OR drop_bit (8 - rem) (ovec ! (n + num + 1))) [0..<16])
         in Some (out, ivec)))"

primrec cfb1_loop :: "u8 list \<Rightarrow> block128_f \<Rightarrow> bool \<Rightarrow> u8 list \<Rightarrow> u8 list \<times> u8 list \<Rightarrow> nat \<Rightarrow> u8 list \<times> u8 list" where
  "cfb1_loop uninit block enc inp st 0 = st"
| "cfb1_loop uninit block enc inp st (Suc n) =
     (let (out, ivec) = cfb1_loop uninit block enc inp st n;
          c = [if inp ! (n div 8) AND push_bit (7 - n mod 8) 1 \<noteq> 0 then 0x80 else 0]
      in case cfbr_encrypt_block uninit block c 1 ivec enc of None \<Rightarrow> (out, ivec)
         | Some (d, ivec) \<Rightarrow>
             (out[n div 8 := (out ! (n div 8) AND NOT (push_bit (7 - n mod 8) 1)) OR drop_bit (n mod 8) (d ! 0 AND 0x80)], ivec))"

definition CRYPTO_cfb128_1_encrypt :: "u8 list \<Rightarrow> block128_f \<Rightarrow> bool \<Rightarrow> u8 list \<Rightarrow> u8 list \<Rightarrow> u8 list \<Rightarrow> nat \<Rightarrow> u8 list \<times> u8 list" where
  "CRYPTO_cfb128_1_encrypt uninit block enc ivec inp out bits = cfb1_loop uninit block enc inp (out, ivec) bits"

fun cfb8_loop :: "u8 list \<Rightarrow> block128_f \<Rightarrow> bool \<Rightarrow> u8 list \<Rightarrow> u8 list \<Rightarrow> u8 list \<times> u8 list" where
  "cfb8_loop uninit block enc ivec [] = ([], ivec)"
| "cfb8_loop uninit block enc ivec (c # inp) =
     (case cfbr_encrypt_block uninit block (c # inp) 8 ivec enc of None \<Rightarrow> ([], ivec)
      | Some (out, ivec) \<Rightarrow> (let (outs, ivec) = cfb8_loop uninit block enc ivec inp in (out @ outs, ivec)))"

definition CRYPTO_cfb128_8_encrypt :: "u8 list \<Rightarrow> block128_f \<Rightarrow> bool \<Rightarrow> u8 list \<Rightarrow> u8 list \<Rightarrow> u8 list \<times> u8 list" where
  "CRYPTO_cfb128_8_encrypt uninit block enc ivec inp = cfb8_loop uninit block enc ivec inp"

section \<open>\<open>ofb.c\<close>\<close>

fun ofb_head :: "nat \<Rightarrow> u8 list \<Rightarrow> u8 list \<Rightarrow> u8 list \<times> nat \<times> u8 list" where
  "ofb_head n ivec [] = ([], n, [])"
| "ofb_head n ivec (c # inp) =
     (if n \<noteq> 0 then (let (out, r) = ofb_head ((n + 1) mod 16) ivec inp in ((c XOR ivec ! n) # out, r)) else ([], n, c # inp))"

function ofb_blocks :: "block128_f \<Rightarrow> nat \<Rightarrow> u8 list \<Rightarrow> u8 list \<Rightarrow> u8 list \<times> nat \<times> u8 list \<times> u8 list" where
  "ofb_blocks block n ivec inp =
     (if 16 \<le> length inp then
        (let ivec = block ivec; b = xor_words n inp ivec; (out, r) = ofb_blocks block 0 ivec (drop 16 inp) in (b @ out, r))
      else ([], n, ivec, inp))"
  by pat_completeness auto
termination by (relation "measure (\<lambda>(_, _, _, inp). length inp)") auto

declare ofb_blocks.simps [simp del]

fun ofb_tail :: "nat \<Rightarrow> u8 list \<Rightarrow> u8 list \<Rightarrow> u8 list \<times> nat" where
  "ofb_tail n ivec [] = ([], n)"
| "ofb_tail n ivec (c # inp) = (let (out, r) = ofb_tail (n + 1) ivec inp in ((c XOR ivec ! n) # out, r))"

definition CRYPTO_ofb128_encrypt :: "block128_f \<Rightarrow> nat \<Rightarrow> u8 list \<Rightarrow> u8 list \<Rightarrow> u8 list \<times> nat \<times> u8 list" where
  "CRYPTO_ofb128_encrypt block num ivec inp =
     (let (a, n, inp) = ofb_head num ivec inp;
          (b, n, ivec, inp) = ofb_blocks block n ivec inp;
          ivec = (if inp \<noteq> [] then block ivec else ivec);
          (c, n) = ofb_tail n ivec inp
      in (a @ b @ c, n, ivec))"

section \<open>\<open>ctr.c\<close>\<close>

text \<open>The carry loop of \<open>ctr128_inc\<close> and \<open>ctr96_inc\<close>, on the first \<open>n\<close> bytes of the counter.\<close>

primrec ctr_carry :: "nat \<Rightarrow> u32 \<Rightarrow> u8 list \<Rightarrow> u8 list" where
  "ctr_carry 0 c counter = counter"
| "ctr_carry (Suc n) c counter =
     (let c = c + ucast (counter ! n); counter = counter[n := ucast c]; c = drop_bit 8 c in ctr_carry n c counter)"

definition ctr128_inc :: "u8 list \<Rightarrow> u8 list" where
  "ctr128_inc counter = ctr_carry 16 1 counter"

definition ctr96_inc :: "u8 list \<Rightarrow> u8 list" where
  "ctr96_inc counter = ctr_carry 12 1 counter"

text \<open>The loops that use up key stream are those of OFB, with \<open>ecount_buf\<close> for \<open>ivec\<close>.\<close>

function ctr_blocks :: "block128_f \<Rightarrow> nat \<Rightarrow> u8 list \<Rightarrow> u8 list \<Rightarrow> u8 list \<Rightarrow> u8 list \<times> nat \<times> u8 list \<times> u8 list \<times> u8 list" where
  "ctr_blocks block n ivec ecount_buf inp =
     (if 16 \<le> length inp then
        (let ecount_buf = block ivec; ivec = ctr128_inc ivec;
             (out, r) = ctr_blocks block 0 ivec ecount_buf (drop 16 inp)
         in (xor_words 0 inp ecount_buf @ out, r))
      else ([], n, ivec, ecount_buf, inp))"
  by pat_completeness auto
termination by (relation "measure (\<lambda>(_, _, _, _, inp). length inp)") auto

declare ctr_blocks.simps [simp del]

definition CRYPTO_ctr128_encrypt ::
    "block128_f \<Rightarrow> nat \<Rightarrow> u8 list \<Rightarrow> u8 list \<Rightarrow> u8 list \<Rightarrow> u8 list \<times> nat \<times> u8 list \<times> u8 list" where
  "CRYPTO_ctr128_encrypt block num ivec ecount_buf inp =
     (let (a, n, inp) = ofb_head num ecount_buf inp;
          (b, n, ivec, ecount_buf, inp) = ctr_blocks block n ivec ecount_buf inp;
          (ecount_buf, ivec) = (if inp \<noteq> [] then (block ivec, ctr128_inc ivec) else (ecount_buf, ivec));
          (c, n) = ofb_tail n ecount_buf inp
      in (a @ b @ c, n, ivec, ecount_buf))"

type_synonym ctr128_f = "u8 list \<Rightarrow> nat \<Rightarrow> u8 list \<Rightarrow> u8 list"

text \<open>The blocks of one call of \<open>func\<close>: the loop limits them to the point where the 32-bit counter wraps.\<close>

definition ctr32_chunk :: "u32 \<Rightarrow> nat \<Rightarrow> nat \<times> u32" where
  "ctr32_chunk ctr32 len =
     (let blocks = len div 16; blocks = (if 2 ^ 28 < blocks then 2 ^ 28 else blocks);
          ctr32 = ctr32 + word_of_nat blocks
      in if unat ctr32 < blocks then (blocks - unat ctr32, 0) else (blocks, ctr32))"

definition ctr32_put :: "u32 \<Rightarrow> u8 list \<Rightarrow> u8 list" where
  "ctr32_put ctr32 ivec =
     (let ivec = take 12 ivec @ PUTU32 ctr32 in if ctr32 = 0 then ctr96_inc ivec else ivec)"

lemma ctr32_chunk_pos: "16 \<le> len \<Longrightarrow> 0 < fst (ctr32_chunk c len)"
  by (auto simp: ctr32_chunk_def Let_def div_greater_zero_iff)

lemma ctr32_chunk_less: "16 \<le> len \<Longrightarrow> len - 16 * fst (ctr32_chunk c len) < len"
  using ctr32_chunk_pos [of len c] by auto

function ctr32_blocks :: "ctr128_f \<Rightarrow> nat \<Rightarrow> u32 \<Rightarrow> u8 list \<Rightarrow> u8 list \<Rightarrow> u8 list \<times> u32 \<times> u8 list \<times> u8 list" where
  "ctr32_blocks func n ctr32 ivec inp =
     (if 16 \<le> length inp then
        (let chunk = ctr32_chunk ctr32 (length inp); blocks = fst chunk; ctr32 = snd chunk;
             b = func (take (16 * blocks) inp) blocks ivec;
             ivec = ctr32_put ctr32 ivec;
             (out, r) = ctr32_blocks func n ctr32 ivec (drop (16 * blocks) inp)
         in (b @ out, r))
      else ([], ctr32, ivec, inp))"
  by pat_completeness auto
termination
  by (relation "measure (\<lambda>(_, _, _, _, inp). length inp)") (auto simp: ctr32_chunk_less)

declare ctr32_blocks.simps [simp del]

definition CRYPTO_ctr128_encrypt_ctr32 ::
    "ctr128_f \<Rightarrow> nat \<Rightarrow> u8 list \<Rightarrow> u8 list \<Rightarrow> u8 list \<Rightarrow> u8 list \<times> nat \<times> u8 list \<times> u8 list" where
  "CRYPTO_ctr128_encrypt_ctr32 func num ivec ecount_buf inp =
     (let (a, n, inp) = ofb_head num ecount_buf inp;
          ctr32 = GETU32 ivec 12;
          (b, ctr32, ivec, inp) = ctr32_blocks func n ctr32 ivec inp;
          (ecount_buf, ivec) =
            (if inp \<noteq> [] then (func (replicate 16 0) 1 ivec, ctr32_put (ctr32 + 1) ivec) else (ecount_buf, ivec));
          (c, n) = ofb_tail n ecount_buf inp
      in (a @ b @ c, n, ivec, ecount_buf))"

end
