(* ===== verification/Modes_Streams.thy ===== *)
theory Modes_Streams
  imports Modes
begin

text \<open>
  The byte modes of \<open>Modes\<close> (CFB, OFB and CTR) are machines that take one byte at a time. Such a machine may be
  fed in pieces, and a machine that undoes each step of another undoes its whole run; a machine whose output is
  the input combined with key stream bytes undoes itself. CTR is related to the counter blocks of SP 800-38A, and
  \<open>CRYPTO_ctr128_encrypt_ctr32\<close> to \<open>CRYPTO_ctr128_encrypt\<close>.
\<close>

unbundle bit_operations_syntax

section \<open>Words and bytes\<close>

lemma of_nat_xor: "(of_nat (a XOR b) :: u8) = of_nat a XOR of_nat b"
  by (rule bit_word_eqI) (simp add: bit_simps)

lemma le_bytes_xor: "le_bytes n (a XOR b) = map2 (XOR) (le_bytes n a) (le_bytes n b)"
proof (induction n arbitrary: a b)
  case (Suc n)
  have "(a XOR b) div 256 = (a div 256) XOR (b div 256)"
    using drop_bit_xor [of 8 a b] by (simp add: drop_bit_eq_div)
  then show ?case by (simp add: Suc of_nat_xor)
qed simp

lemma load_word_le_bytes: "length p = k + 8 + n \<Longrightarrow> store_word_le (load_word_le p k) = take 8 (drop k p)"
  using le_bytes_le_val [of "take 8 (drop k p)"] le_val_less [of "take 8 (drop k p)"]
  by (simp add: store_word_le_def load_word_le_def unat_of_nat)

lemma store_word_le_xor: "store_word_le (a XOR b) = map2 (XOR) (store_word_le a) (store_word_le b)"
  by (simp add: store_word_le_def unsigned_xor_eq le_bytes_xor)

lemma length_store_word_le [simp]: "length (store_word_le w) = 8"
  by (simp add: store_word_le_def)

lemma store_load_word: "k + 8 \<le> length p \<Longrightarrow> store_word_le (load_word_le p k) = take 8 (drop k p)"
  using load_word_le_bytes [of p k "length p - (k + 8)"] by simp

lemma word_offsets_0: "word_offsets 0 = [0, 8]" and word_offsets_16: "word_offsets 16 = []"
  by (simp_all add: word_offsets.simps)

lemma take_16_words: "take 16 xs = take 8 xs @ take 8 (drop 8 xs)"
  using take_add [of 8 8 xs] by simp

lemma xor_words_0:
  assumes "16 \<le> length a" "16 \<le> length b"
  shows "xor_words 0 a b = map2 (XOR) (take 16 a) (take 16 b)"
  using assms by (simp add: xor_words_def word_offsets_0 store_word_le_xor store_load_word take_16_words)

section \<open>Machines that take one byte at a time\<close>

primrec run :: "('s \<Rightarrow> 'b \<Rightarrow> 'b \<times> 's) \<Rightarrow> 's \<Rightarrow> 'b list \<Rightarrow> 'b list \<times> 's" where
  "run step s [] = ([], s)"
| "run step s (c # cs) = (let (b, s) = step s c; (bs, s) = run step s cs in (b # bs, s))"

lemma run_append: "run step s (xs @ ys) = (let (a, s) = run step s xs; (b, s) = run step s ys in (a @ b, s))"
  by (induction xs arbitrary: s) (simp_all add: Let_def split_beta)

lemma length_run [simp]: "length (fst (run step s xs)) = length xs"
  by (induction xs arbitrary: s) (simp_all add: Let_def split_beta)

text \<open>Data passed in pieces: every piece starts in the state that the one before left.\<close>

primrec run_pieces :: "('s \<Rightarrow> 'b list \<Rightarrow> 'b list \<times> 's) \<Rightarrow> 's \<Rightarrow> 'b list list \<Rightarrow> 'b list \<times> 's" where
  "run_pieces f s [] = ([], s)"
| "run_pieces f s (p # ps) = (let (a, s) = f s p; (b, s) = run_pieces f s ps in (a @ b, s))"

text \<open>A machine and the one that undoes its steps, in the states of an invariant that both keep.\<close>

locale inverse_machines =
  fixes enc dec :: "'s \<Rightarrow> 'b \<Rightarrow> 'b \<times> 's" and inv :: "'s \<Rightarrow> bool"
  assumes keeps: "inv s \<Longrightarrow> inv (snd (enc s c))" "inv s \<Longrightarrow> inv (snd (dec s c))"
    and undoes: "inv s \<Longrightarrow> dec s (fst (enc s c)) = (c, snd (enc s c))"
begin

lemma run_keeps_enc: "inv s \<Longrightarrow> inv (snd (run enc s xs))"
  by (induction xs arbitrary: s) (simp_all add: Let_def split_beta keeps)

lemma run_keeps_dec: "inv s \<Longrightarrow> inv (snd (run dec s xs))"
  by (induction xs arbitrary: s) (simp_all add: Let_def split_beta keeps)

lemma run_undoes: "inv s \<Longrightarrow> run dec s (fst (run enc s xs)) = (xs, snd (run enc s xs))"
proof (induction xs arbitrary: s)
  case (Cons c xs)
  obtain b t where e: "enc s c = (b, t)" by (cases "enc s c") blast
  have "inv t" "dec s b = (c, t)" using keeps(1) [OF Cons.prems, of c] undoes [OF Cons.prems, of c] e by simp_all
  then show ?case using Cons.IH [of t] e by (simp add: Let_def split_beta)
qed simp

end

text \<open>The contract of a byte mode: in these states its operations on pieces of data are runs of the machines.\<close>

locale byte_mode = inverse_machines enc dec inv
  for enc dec :: "'s \<Rightarrow> u8 \<Rightarrow> u8 \<times> 's" and inv :: "'s \<Rightarrow> bool" +
  fixes seal unseal :: "'s \<Rightarrow> u8 list \<Rightarrow> u8 list \<times> 's"
  assumes runs: "inv s \<Longrightarrow> seal s xs = run enc s xs" "inv s \<Longrightarrow> unseal s xs = run dec s xs"
begin

lemma pieces_seal: "inv s \<Longrightarrow> run_pieces seal s ps = run enc s (concat ps)"
proof (induction ps arbitrary: s)
  case (Cons p ps)
  have "inv (snd (run enc s p))" using Cons.prems by (rule run_keeps_enc)
  then show ?case using Cons by (simp add: run_append runs Let_def split_beta)
qed simp

lemma pieces_unseal: "inv s \<Longrightarrow> run_pieces unseal s ps = run dec s (concat ps)"
proof (induction ps arbitrary: s)
  case (Cons p ps)
  have "inv (snd (run dec s p))" using Cons.prems by (rule run_keeps_dec)
  then show ?case using Cons by (simp add: run_append runs Let_def split_beta)
qed simp

lemma pieces_roundtrip:
  assumes "inv s" "concat qs = fst (run_pieces seal s ps)"
  shows "run_pieces unseal s qs = (concat ps, snd (run_pieces seal s ps))"
  using assms run_undoes [of s "concat ps"] by (simp add: pieces_seal pieces_unseal)

end

section \<open>Key streams: OFB and CTR\<close>

text \<open>
  A buffer of sixteen key stream bytes of which the first \<open>n\<close> are used up (\<open>n = 0\<close>: all of them); \<open>refill\<close> makes
  the next one.
\<close>

definition ks_step :: "('s \<Rightarrow> 's) \<Rightarrow> ('s \<Rightarrow> u8 list) \<Rightarrow> nat \<times> 's \<Rightarrow> u8 \<Rightarrow> u8 \<times> nat \<times> 's" where
  "ks_step refill ks = (\<lambda>(n, s) c. let s = (if n = 0 then refill s else s) in (c XOR ks s ! n, (n + 1) mod 16, s))"

lemma ofb_head_run:
  assumes "n < 16" "ofb_head n (ks s) inp = (a, n', rest)"
  shows "run (ks_step refill ks) (n, s) inp =
      (let (b, t) = run (ks_step refill ks) (n', s) rest in (a @ b, t)) \<and> n' < 16 \<and> (rest = [] \<or> n' = 0)"
  using assms
proof (induction inp arbitrary: n a)
  case (Cons c inp)
  show ?case
  proof (cases "n = 0")
    case False
    obtain a' where r: "ofb_head ((n + 1) mod 16) (ks s) inp = (a', n', rest)" "a = (c XOR ks s ! n) # a'"
      using Cons.prems False by (auto simp: Let_def split: prod.splits)
    have m: "(n + 1) mod 16 < 16" by simp
    show ?thesis using Cons.IH [OF m r(1)] False r(2) by (simp add: ks_step_def Let_def split: prod.splits)
  qed (use Cons.prems in \<open>simp add: Let_def split: prod.splits\<close>)
qed (simp add: Let_def)

text \<open>Within a buffer that is in use.\<close>

lemma run_in_buffer:
  assumes "0 < n" "n < 16" "n + length inp \<le> 16" "length (ks s) = 16"
  shows "run (ks_step refill ks) (n, s) inp = (map2 (XOR) inp (drop n (ks s)), ((n + length inp) mod 16, s))"
  using assms
proof (induction inp arbitrary: n)
  case (Cons c inp)
  show ?case
  proof (cases "inp = []")
    case True
    then show ?thesis using Cons.prems by (simp add: ks_step_def Cons_nth_drop_Suc [symmetric])
  next
    case False
    then have "n + 1 < 16" using Cons.prems by (cases inp) simp_all
    then show ?thesis using Cons.IH [of "n + 1"] Cons.prems by (simp add: ks_step_def Cons_nth_drop_Suc [symmetric])
  qed
qed simp

lemma run_fresh:
  assumes "inp \<noteq> []" "length inp \<le> 16" "length (ks (refill s)) = 16"
  shows "run (ks_step refill ks) (0, s) inp = (map2 (XOR) inp (ks (refill s)), (length inp mod 16, refill s))"
proof -
  obtain c cs where i: "inp = c # cs" using assms(1) by (cases inp) auto
  obtain k ks' where k: "ks (refill s) = k # ks'" using assms(3) by (cases "ks (refill s)") auto
  show ?thesis using run_in_buffer [of 1 cs ks "refill s" refill] assms by (simp add: i k ks_step_def Let_def)
qed

lemma ofb_tail_eq: "n + length inp \<le> length iv \<Longrightarrow> ofb_tail n iv inp = (map2 (XOR) inp (drop n iv), n + length inp)"
  by (induction inp arbitrary: n) (simp_all add: Cons_nth_drop_Suc [symmetric])

text \<open>
  The loop on whole blocks, in the states \<open>ok\<close>; the three loops in sequence are the machine. The predicate
  \<open>block_ok\<close> of a block cipher is part of \<open>ok\<close>.
\<close>

locale key_stream =
  fixes refill :: "'s \<Rightarrow> 's" and ks :: "'s \<Rightarrow> u8 list" and ok :: "'s \<Rightarrow> bool"
    and blocks :: "'s \<Rightarrow> u8 list \<Rightarrow> u8 list \<times> 's \<times> u8 list"
  assumes ok_refill: "ok s \<Longrightarrow> ok (refill s)" and length_ks: "ok s \<Longrightarrow> length (ks s) = 16"
    and blocks: "ok s \<Longrightarrow> blocks s inp =
      (if 16 \<le> length inp then
         (let (out, r) = blocks (refill s) (drop 16 inp) in (map2 (XOR) (take 16 inp) (ks (refill s)) @ out, r))
       else ([], s, inp))"
begin

lemma blocks_run:
  assumes "ok s" "blocks s inp = (b, s', rest)"
  shows "run (ks_step refill ks) (0, s) inp = (let (a, t) = run (ks_step refill ks) (0, s') rest in (b @ a, t)) \<and>
      length rest < 16 \<and> ok s'"
  using assms
proof (induction inp arbitrary: s b rule: length_induct)
  case (1 inp)
  show ?case
  proof (cases "16 \<le> length inp")
    case True
    have ok: "ok (refill s)" "length (ks (refill s)) = 16" using ok_refill length_ks "1.prems"(1) by simp_all
    obtain b' where r: "blocks (refill s) (drop 16 inp) = (b', s', rest)"
      "b = map2 (XOR) (take 16 inp) (ks (refill s)) @ b'"
      using "1.prems" True by (simp add: blocks [of s inp] Let_def split: prod.splits)
    have i: "inp = take 16 inp @ drop 16 inp" by simp
    have f: "run (ks_step refill ks) (0, s) (take 16 inp) = (map2 (XOR) (take 16 inp) (ks (refill s)), (0, refill s))"
      using run_fresh [of "take 16 inp" ks refill s] True ok(2) by (cases inp) auto
    have "length (drop 16 inp) < length inp" using True by simp
    then have ih: "run (ks_step refill ks) (0, refill s) (drop 16 inp) =
          (let (a, t) = run (ks_step refill ks) (0, s') rest in (b' @ a, t)) \<and> length rest < 16 \<and> ok s'"
      using "1.IH" ok(1) r(1) by blast
    show ?thesis by (subst i, subst run_append) (use ih f r(2) in \<open>simp add: Let_def split: prod.splits\<close>)
  qed (use "1.prems" blocks [of s inp] in \<open>auto split: prod.splits\<close>)
qed

lemma operation_run:
  assumes "n < 16" "ok s"
  shows "(let (a, n, inp) = ofb_head n (ks s) inp;
              (b, s, inp) = blocks s inp;
              s = (if inp \<noteq> [] then refill s else s);
              (c, n) = ofb_tail n (ks s) inp
          in (a @ b @ c, n, s)) = run (ks_step refill ks) (n, s) inp"
proof -
  obtain a n' r where h: "ofb_head n (ks s) inp = (a, n', r)" by (cases "ofb_head n (ks s) inp") auto
  obtain b s' rest where k: "blocks s r = (b, s', rest)" by (cases "blocks s r") auto
  note hr = ofb_head_run [of n ks s inp a n' r refill, OF assms(1) h]
  show ?thesis
  proof (cases "r = []")
    case True
    then have "b = []" "s' = s" "rest = []" using k blocks [OF assms(2), of r] by simp_all
    then show ?thesis using hr h k True by simp
  next
    case False
    then have n: "n' = 0" using hr by simp
    note kr = blocks_run [OF assms(2) k]
    have l: "length (ks (refill s')) = 16" using kr length_ks ok_refill by simp
    have "rest \<noteq> [] \<Longrightarrow> run (ks_step refill ks) (0, s') rest = (map2 (XOR) rest (ks (refill s')), (length rest, refill s'))"
      using run_fresh [of rest ks refill s'] kr l by simp
    then show ?thesis using hr h k kr l n by (cases "rest = []") (simp_all add: ofb_tail_eq Let_def split: prod.splits)
  qed
qed

lemma step_ok: "n < 16 \<and> ok s \<Longrightarrow> fst (snd (ks_step refill ks (n, s) c)) < 16 \<and> ok (snd (snd (ks_step refill ks (n, s) c)))"
  by (simp add: ks_step_def Let_def ok_refill)

lemma step_twice: "ks_step refill ks t (fst (ks_step refill ks t c)) = (c, snd (ks_step refill ks t c))"
  by (cases t) (simp add: ks_step_def Let_def xor.assoc)

text \<open>The bytes of the key stream.\<close>

definition stream :: "'s \<Rightarrow> nat \<Rightarrow> u8 list" where
  "stream s n = concat (map (\<lambda>j. ks ((refill ^^ (j + 1)) s)) [0..<n])"

lemma stream_0 [simp]: "stream s 0 = []"
  by (simp add: stream_def)

lemma stream_Suc: "stream s (Suc n) = ks (refill s) @ stream (refill s) n"
proof -
  have "map (\<lambda>j. ks ((refill ^^ (j + 1)) s)) [0..<Suc n] = ks (refill s) # map (\<lambda>j. ks ((refill ^^ (j + 1)) (refill s))) [0..<n]"
    by (rule nth_equalityI) (auto simp: nth_Cons' gr0_conv_Suc funpow_swap1 simp del: upt_Suc)
  then show ?thesis by (simp only: stream_def concat.simps)
qed

lemma ok_funpow: "ok s \<Longrightarrow> ok ((refill ^^ n) s)"
  by (induction n) (simp_all add: ok_refill)

lemma length_stream: "ok s \<Longrightarrow> length (stream s n) = 16 * n"
  by (induction n arbitrary: s) (simp_all add: stream_Suc length_ks ok_refill)

lemma xor_split: "length ks1 = n \<Longrightarrow> n \<le> length inp \<Longrightarrow>
    map2 (XOR) inp (ks1 @ ks2) = map2 (XOR) (take n inp) ks1 @ map2 (XOR) (drop n inp) ks2" for inp :: "u8 list"
  by (simp add: zip_append2)

lemma blocks_many:
  assumes "ok s" "16 * n \<le> length inp"
  shows "blocks s inp = (let (out, r) = blocks ((refill ^^ n) s) (drop (16 * n) inp) in (map2 (XOR) (take (16 * n) inp) (stream s n) @ out, r))"
  using assms
proof (induction n arbitrary: s inp)
  case (Suc n)
  have ok: "ok (refill s)" "length (ks (refill s)) = 16" using ok_refill length_ks Suc.prems(1) by simp_all
  have "blocks s inp = (let (out, r) = blocks (refill s) (drop 16 inp) in (map2 (XOR) (take 16 inp) (ks (refill s)) @ out, r))"
    using Suc.prems by (simp add: blocks [of s inp])
  moreover have "map2 (XOR) (take (16 * Suc n) inp) (stream s (Suc n)) =
      map2 (XOR) (take 16 inp) (ks (refill s)) @ map2 (XOR) (take (16 * n) (drop 16 inp)) (stream (refill s) n)"
    using Suc.prems by (simp add: stream_Suc xor_split [OF ok(2)] min_def drop_take)
  moreover obtain out r where "blocks ((refill ^^ n) (refill s)) (drop (16 * n + 16) inp) = (out, r)" by (meson surj_pair)
  ultimately show ?case using Suc.IH [of "refill s" "drop 16 inp"] Suc.prems ok(1)
    by (simp add: funpow_swap1 add.commute)
qed simp

lemma run_stream:
  assumes "ok s" "length inp \<le> 16 * n"
  shows "run (ks_step refill ks) (0, s) inp =
    (map2 (XOR) inp (stream s n), length inp mod 16, (refill ^^ ((length inp + 15) div 16)) s)"
  using assms
proof (induction n arbitrary: s inp)
  case (Suc n)
  have ok: "ok (refill s)" "length (ks (refill s)) = 16" using ok_refill length_ks Suc.prems(1) by simp_all
  show ?case
  proof (cases "length inp \<le> 16")
    case True
    then have "map2 (XOR) inp (stream s (Suc n)) = map2 (XOR) inp (ks (refill s))"
      unfolding stream_Suc by (intro map2_append_left) (simp add: ok)
    moreover have "inp \<noteq> [] \<Longrightarrow> (length inp + 15) div 16 = 1" using True by (cases inp) (simp_all add: div_nat_eqI)
    ultimately show ?thesis
      using run_fresh [of inp ks refill s] True ok(2) by (cases "inp = []") simp_all
  next
    case False
    have i: "inp = take 16 inp @ drop 16 inp" by simp
    have f: "run (ks_step refill ks) (0, s) (take 16 inp) = (map2 (XOR) (take 16 inp) (ks (refill s)), (0, refill s))"
      using run_fresh [of "take 16 inp" ks refill s] False ok(2) by (cases inp) auto
    define k where "k = length inp - 16"
    have k: "length inp = k + 16" "length (drop 16 inp) = k" using False by (simp_all add: k_def)
    have n: "(k + 16 + 15) div 16 = Suc ((k + 15) div 16)" using div_add_self2 [of 16 "k + 15"] by (simp del: div_add_self2)
    have "run (ks_step refill ks) (0, refill s) (drop 16 inp) =
        (map2 (XOR) (drop 16 inp) (stream (refill s) n), k mod 16, (refill ^^ ((k + 15) div 16)) (refill s))"
      using Suc.IH [of "refill s" "drop 16 inp"] Suc.prems ok by (simp only: k) simp
    then have "run (ks_step refill ks) (0, s) (take 16 inp @ drop 16 inp) =
        (map2 (XOR) inp (stream s (Suc n)), (k + 16) mod 16, (refill ^^ ((k + 16 + 15) div 16)) s)"
      unfolding run_append stream_Suc n using f False by (simp add: xor_split [OF ok(2)] funpow_swap1)
    then show ?thesis by (simp only: i [symmetric] k(1))
  qed
qed simp

end

definition block_ok :: "block128_f \<Rightarrow> bool" where
  "block_ok block \<longleftrightarrow> (\<forall>x. length x = 16 \<longrightarrow> length (block x) = 16)"

definition ofb_ok :: "block128_f \<Rightarrow> u8 list \<Rightarrow> bool" where
  "ofb_ok block ivec \<longleftrightarrow> block_ok block \<and> length ivec = 16"

definition ofb_loop :: "block128_f \<Rightarrow> u8 list \<Rightarrow> u8 list \<Rightarrow> u8 list \<times> u8 list \<times> u8 list" where
  "ofb_loop block ivec inp = (let (b, n, ivec, rest) = ofb_blocks block 0 ivec inp in (b, ivec, rest))"

interpretation ofb: key_stream block "\<lambda>s. s" "ofb_ok block" "ofb_loop block" for block
proof
  fix s inp
  assume ok: "ofb_ok block s"
  then have l: "length (block s) = 16" by (simp add: ofb_ok_def block_ok_def)
  show "ofb_loop block s inp =
      (if 16 \<le> length inp then
         (let (out, r) = ofb_loop block (block s) (drop 16 inp) in (map2 (XOR) (take 16 inp) (block s) @ out, r))
       else ([], s, inp))"
    using l by (simp add: ofb_loop_def ofb_blocks.simps [of block 0 s inp] xor_words_0 Let_def split: prod.splits)
qed (auto simp: ofb_ok_def block_ok_def)

lemma ofb_blocks_n: "fst (snd (ofb_blocks block 0 ivec inp)) = 0"
proof (induction inp arbitrary: ivec rule: length_induct)
  case (1 inp)
  have "16 \<le> length inp \<Longrightarrow> length (drop 16 inp) < length inp" by simp
  then show ?case using 1 [rule_format, of "drop 16 inp" "block ivec"]
    by (simp add: ofb_blocks.simps [of _ _ _ inp] Let_def split_beta)
qed

lemma CRYPTO_ofb128_encrypt_run:
  assumes "num < 16" "ofb_ok block ivec"
  shows "CRYPTO_ofb128_encrypt block num ivec inp = run (ks_step block (\<lambda>s. s)) (num, ivec) inp"
proof -
  obtain a n r where h: "ofb_head num ivec inp = (a, n, r)" by (cases "ofb_head num ivec inp") auto
  have n: "r = [] \<or> n = 0"
    using ofb_head_run [of num "\<lambda>s. s" ivec inp a n r block, OF assms(1) h] by blast
  have "r = [] \<Longrightarrow> ofb_blocks block n ivec r = ([], n, ivec, [])" "ofb_loop block ivec [] = ([], ivec, [])"
    by (simp_all add: ofb_blocks.simps ofb_loop_def)
  moreover have "r \<noteq> [] \<Longrightarrow> ofb_blocks block n ivec r = (let (b, iv, rest) = ofb_loop block ivec r in (b, n, iv, rest))"
    using n ofb_blocks_n [of block ivec r] by (cases "ofb_blocks block 0 ivec r") (auto simp: ofb_loop_def Let_def)
  ultimately show ?thesis using ofb.operation_run [OF assms, of inp] h
    by (cases "r = []"; cases "snd (snd (ofb_loop block ivec r)) = []") (simp_all add: CRYPTO_ofb128_encrypt_def Let_def split_beta)
qed

interpretation ofb_mode: byte_mode "ks_step block (\<lambda>s. s)" "ks_step block (\<lambda>s. s)"
  "\<lambda>(n, iv). n < 16 \<and> ofb_ok block iv"
  "\<lambda>(n, iv) inp. CRYPTO_ofb128_encrypt block n iv inp" "\<lambda>(n, iv) inp. CRYPTO_ofb128_encrypt block n iv inp" for block
  by unfold_locales (auto simp: split_beta CRYPTO_ofb128_encrypt_run ofb.step_twice intro: ofb.step_ok [THEN conjunct1] ofb.step_ok [THEN conjunct2])

section \<open>CTR\<close>

lemma length_ctr_carry [simp]: "length (ctr_carry n c counter) = length counter"
  by (induction n arbitrary: c counter) (simp_all add: Let_def)

lemma ctr_carry_frame: "n \<le> k \<Longrightarrow> drop k (ctr_carry n c counter) = drop k counter"
  by (induction n arbitrary: c counter) (simp_all add: Let_def)

lemma length_ctr128_inc [simp]: "length (ctr128_inc counter) = length counter"
  by (simp add: ctr128_inc_def)

text \<open>The counter is a big-endian number.\<close>

lemma carry_digit: "(v + t div 256) mod 256 ^ n * 256 + t mod 256 = (v * 256 + t) mod 256 ^ Suc n" for v t :: nat
  using mod_mult2_eq [of "v * 256 + t" 256 "256 ^ n"] by (simp add: mult.commute add.commute)

lemma ctr_carry_val:
  assumes "n \<le> length counter" "unat c \<le> 1"
  shows "be_val (take n (ctr_carry n c counter)) = (be_val (take n counter) + unat c) mod 256 ^ n"
  using assms
proof (induction n arbitrary: c counter)
  case (Suc n)
  define d where "d = c + ucast (counter ! n)"
  have d: "unat d = unat c + unat (counter ! n)"
    using Suc.prems(2) unat_u8_less [of "counter ! n"] by (simp add: d_def unat_word_ariths del: unat_u8_less)
  have q: "unat (drop_bit 8 d) = (unat c + unat (counter ! n)) div 256" by (simp add: unat_drop_bit_div d)
  have r: "unat (ucast d :: u8) = (unat c + unat (counter ! n)) mod 256" by (simp add: unat_ucast_mod d)
  have le: "unat (drop_bit 8 d) \<le> 1" unfolding q using Suc.prems(2) unat_u8_less [of "counter ! n"] by linarith
  let ?k = "counter[n := ucast d]"
  have "be_val (take n (ctr_carry n (drop_bit 8 d) ?k)) = (be_val (take n counter) + unat (drop_bit 8 d)) mod 256 ^ n"
    using Suc.IH [of ?k "drop_bit 8 d"] Suc.prems le by simp
  moreover have "ctr_carry n (drop_bit 8 d) ?k ! n = ucast d"
    using ctr_carry_frame [of n n "drop_bit 8 d" ?k] Suc.prems nth_via_drop [of n "ctr_carry n (drop_bit 8 d) ?k" "ucast d"]
    by (simp add: Cons_nth_drop_Suc [symmetric])
  ultimately show ?case
    using Suc.prems carry_digit [of "be_val (take n counter)" "unat c + unat (counter ! n)" n]
    by (simp add: d_def [symmetric] Let_def take_Suc_conv_app_nth q r add.assoc add.commute add.left_commute)
qed simp

lemma ctr128_inc_val:
  assumes "length counter = 16"
  shows "ctr128_inc counter = be_bytes 16 (be_val counter + 1)"
proof -
  have l: "length (ctr128_inc counter) = 16" using assms by (simp add: ctr128_inc_def)
  have "be_val (ctr128_inc counter) = (be_val counter + 1) mod 256 ^ 16"
    using ctr_carry_val [of 16 counter 1] assms by (simp add: ctr128_inc_def)
  then have "be_bytes 16 (be_val (ctr128_inc counter)) = be_bytes 16 (be_val counter + 1)" by (simp only: be_bytes_wrap)
  then show ?thesis using be_bytes_be_val [of "ctr128_inc counter"] by (simp only: l)
qed

lemma ctr128_inc_funpow:
  assumes "length counter = 16"
  shows "(ctr128_inc ^^ j) counter = be_bytes 16 (be_val counter + j)"
proof (induction j)
  case 0
  then show ?case using be_bytes_be_val [of counter] assms by simp
next
  case (Suc j)
  have "ctr128_inc (be_bytes 16 v) = be_bytes 16 (v + 1)" for v
  proof -
    have "ctr128_inc (be_bytes 16 v) = be_bytes 16 (v mod 256 ^ 16 + 1)" by (simp only: ctr128_inc_val length_be_bytes be_val_be_bytes)
    also have "\<dots> = be_bytes 16 ((v mod 256 ^ 16 + 1) mod 256 ^ 16)" by (simp only: be_bytes_wrap)
    also have "\<dots> = be_bytes 16 (v + 1)" by (simp only: mod_add_left_eq be_bytes_wrap)
    finally show ?thesis .
  qed
  then show ?case using Suc by simp
qed

definition ctr_refill :: "block128_f \<Rightarrow> u8 list \<times> u8 list \<Rightarrow> u8 list \<times> u8 list" where
  "ctr_refill block = (\<lambda>(ivec, ecount_buf). (ctr128_inc ivec, block ivec))"

definition ctr_ok :: "block128_f \<Rightarrow> u8 list \<times> u8 list \<Rightarrow> bool" where
  "ctr_ok block = (\<lambda>(ivec, ecount_buf). block_ok block \<and> length ivec = 16 \<and> length ecount_buf = 16)"

definition ctr_loop :: "block128_f \<Rightarrow> u8 list \<times> u8 list \<Rightarrow> u8 list \<Rightarrow> u8 list \<times> (u8 list \<times> u8 list) \<times> u8 list" where
  "ctr_loop block = (\<lambda>(ivec, ecount_buf) inp.
     let (b, n, ivec, ecount_buf, rest) = ctr_blocks block 0 ivec ecount_buf inp in (b, (ivec, ecount_buf), rest))"

interpretation ctr: key_stream "ctr_refill block" snd "ctr_ok block" "ctr_loop block" for block
proof
  fix s :: "u8 list \<times> u8 list" and inp
  obtain ivec ec where s: "s = (ivec, ec)" by (cases s)
  assume "ctr_ok block s"
  then have l: "length (block ivec) = 16" by (simp add: s ctr_ok_def block_ok_def)
  show "ctr_loop block s inp =
      (if 16 \<le> length inp then
         (let (out, r) = ctr_loop block (ctr_refill block s) (drop 16 inp) in (map2 (XOR) (take 16 inp) (snd (ctr_refill block s)) @ out, r))
       else ([], s, inp))"
    using l by (simp add: s ctr_loop_def ctr_refill_def ctr_blocks.simps [of block 0 ivec ec inp] xor_words_0 Let_def split_beta)
next
  fix s :: "u8 list \<times> u8 list"
  show "ctr_ok block s \<Longrightarrow> ctr_ok block (ctr_refill block s)"
    by (cases s) (simp add: ctr_ok_def ctr_refill_def block_ok_def)
  show "ctr_ok block s \<Longrightarrow> length (snd s) = 16"
    by (cases s) (simp add: ctr_ok_def)
qed

lemma ctr_blocks_n: "fst (snd (ctr_blocks block 0 ivec ec inp)) = 0"
proof (induction inp arbitrary: ivec ec rule: length_induct)
  case (1 inp)
  have "16 \<le> length inp \<Longrightarrow> length (drop 16 inp) < length inp" by simp
  then show ?case using 1 [rule_format, of "drop 16 inp" "ctr128_inc ivec" "block ivec"]
    by (simp add: ctr_blocks.simps [of _ _ _ _ inp] Let_def split_beta)
qed

text \<open>The operation on its state: the position in the buffer, the counter and the buffer.\<close>

definition ctr_op :: "block128_f \<Rightarrow> nat \<times> u8 list \<times> u8 list \<Rightarrow> u8 list \<Rightarrow> u8 list \<times> nat \<times> u8 list \<times> u8 list" where
  "ctr_op block = (\<lambda>(n, ivec, ec) inp. CRYPTO_ctr128_encrypt block n ivec ec inp)"

lemma ctr_op_run:
  assumes "n < 16" "ctr_ok block (ivec, ec)"
  shows "CRYPTO_ctr128_encrypt block n ivec ec inp = run (ks_step (ctr_refill block) snd) (n, ivec, ec) inp"
proof -
  obtain a n' r where h: "ofb_head n ec inp = (a, n', r)" by (cases "ofb_head n ec inp") auto
  have n: "r = [] \<or> n' = 0"
    using ofb_head_run [of n snd "(ivec, ec)" inp a n' r "ctr_refill block"] assms(1) h by simp
  have "r = [] \<Longrightarrow> ctr_blocks block n' ivec ec r = ([], n', ivec, ec, [])" "ctr_loop block (ivec, ec) [] = ([], (ivec, ec), [])"
    by (simp_all add: ctr_blocks.simps ctr_loop_def)
  moreover have "r \<noteq> [] \<Longrightarrow> ctr_blocks block n' ivec ec r = (let (b, (iv, ec), rest) = ctr_loop block (ivec, ec) r in (b, n', iv, ec, rest))"
    using n ctr_blocks_n [of block ivec ec r] by (cases "ctr_blocks block 0 ivec ec r") (auto simp: ctr_loop_def Let_def)
  ultimately show ?thesis using ctr.operation_run [OF assms, of inp] h
    by (cases "r = []"; cases "snd (snd (ctr_loop block (ivec, ec) r)) = []") (simp_all add: CRYPTO_ctr128_encrypt_def ctr_refill_def Let_def split_beta)
qed

interpretation ctr_mode: byte_mode "ks_step (ctr_refill block) snd" "ks_step (ctr_refill block) snd"
  "\<lambda>(n, s). n < 16 \<and> ctr_ok block s" "ctr_op block" "ctr_op block" for block
  by unfold_locales (auto simp: split_beta ctr_op_def ctr_op_run ctr.step_twice intro: ctr.step_ok [THEN conjunct1] ctr.step_ok [THEN conjunct2])

text \<open>SP 800-38A: the key stream is the encryption of successive values of the counter.\<close>

definition ctr_stream :: "block128_f \<Rightarrow> u8 list \<Rightarrow> nat \<Rightarrow> u8 list" where
  "ctr_stream block counter n = concat (map (\<lambda>j. block (be_bytes 16 (be_val counter + j))) [0..<n])"

lemma ctr_refill_funpow:
  "length counter = 16 \<Longrightarrow>
    (ctr_refill block ^^ Suc j) (counter, ec) = (be_bytes 16 (be_val counter + Suc j), block (be_bytes 16 (be_val counter + j)))"
proof (induction j)
  case 0
  then show ?case using be_bytes_be_val [of counter] by (simp add: ctr_refill_def ctr128_inc_val)
next
  case (Suc j)
  have "ctr128_inc (be_bytes 16 (be_val counter + Suc j)) = be_bytes 16 (be_val counter + Suc (Suc j))"
    using ctr128_inc_funpow [OF Suc.prems, of "Suc (Suc j)"] ctr128_inc_funpow [OF Suc.prems, of "Suc j"] by simp
  then show ?case using Suc by (simp add: ctr_refill_def)
qed

lemma ctr_stream_eq: "length counter = 16 \<Longrightarrow> ctr.stream block (counter, ec) n = ctr_stream block counter n"
  by (simp add: ctr.stream_def ctr_stream_def ctr_refill_funpow del: funpow.simps)

definition sp800_38a_ctr :: "block128_f \<Rightarrow> u8 list \<Rightarrow> u8 list \<Rightarrow> u8 list" where
  "sp800_38a_ctr block counter m = map2 (XOR) m (ctr_stream block counter (length m div 16 + 1))"

lemma ctr_pieces:
  assumes "ctr_ok block (counter, ec)"
  shows "run_pieces (ctr_op block) (0, counter, ec) ps =
    (let m = concat ps in
      (sp800_38a_ctr block counter m, length m mod 16, (ctr_refill block ^^ ((length m + 15) div 16)) (counter, ec)))"
proof -
  have "length m \<le> 16 * (length m div 16 + 1)" for m :: "u8 list" using dividend_less_div_times [of 16 "length m"] by simp
  moreover have "length counter = 16" using assms by (simp add: ctr_ok_def)
  ultimately show ?thesis
    using ctr_mode.pieces_seal [of block "(0, counter, ec)" ps] ctr.run_stream [OF assms] assms
    by (simp add: sp800_38a_ctr_def ctr_stream_eq Let_def)
qed

section \<open>The 32-bit counter\<close>

text \<open>
  The contract of a \<open>ctr128_f\<close>: it encrypts a number of blocks, counting in the last four bytes of the counter
  block only, which wrap around, and does not write the counter.
\<close>

definition ctr32_func :: "block128_f \<Rightarrow> ctr128_f \<Rightarrow> bool" where
  "ctr32_func block func \<longleftrightarrow>
     (\<forall>inp n iv. length inp = 16 * n \<longrightarrow> length iv = 16 \<longrightarrow>
        func inp n iv = map2 (XOR) inp (concat (map (\<lambda>j. block (take 12 iv @ PUTU32 (GETU32 iv 12 + word_of_nat j))) [0..<n])))"

lemma be_val_counter:
  assumes "length iv = 16"
  shows "be_val iv = be_val (take 12 iv) * 2 ^ 32 + unat (GETU32 iv 12)" "unat (GETU32 iv 12) = be_val (drop 12 iv)"
proof -
  have l: "length (drop 12 iv) = 4" using assms by simp
  then have "be_val (drop 12 iv) < 2 ^ 32" using be_val_less [of "drop 12 iv"] by simp
  then show u: "unat (GETU32 iv 12) = be_val (drop 12 iv)" using l by (simp add: GETU32_def unat_of_nat)
  show "be_val iv = be_val (take 12 iv) * 2 ^ 32 + unat (GETU32 iv 12)"
    using be_val_append [of "take 12 iv" "drop 12 iv"] l by (simp add: u)
qed

lemma counter_bytes:
  assumes "v < 2 ^ 32"
  shows "be_bytes 16 (h * 2 ^ 32 + v) = be_bytes 12 h @ be_bytes 4 v"
proof -
  have "(h * 2 ^ 32 + v) div 256 ^ 4 = h" using assms by simp
  moreover have "be_bytes 4 (h * 2 ^ 32 + v) = be_bytes 4 v"
    using be_bytes_wrap [of 4 "h * 2 ^ 32 + v"] be_bytes_wrap [of 4 v] by simp
  ultimately show ?thesis using be_bytes_append [of 12 4 "h * 2 ^ 32 + v"] by simp
qed

lemma ctr32_step:
  assumes "length iv = 16" "unat (GETU32 iv 12) + j < 2 ^ 32"
  shows "take 12 iv @ PUTU32 (GETU32 iv 12 + word_of_nat j) = be_bytes 16 (be_val iv + j)"
proof -
  have "unat (GETU32 iv 12 + word_of_nat j) = unat (GETU32 iv 12) + j"
    using assms(2) by (simp add: unat_word_ariths unat_of_nat)
  then show ?thesis
    using counter_bytes [OF assms(2), of "be_val (take 12 iv)"] be_bytes_be_val [of "take 12 iv"] assms(1)
    by (simp add: be_val_counter(1) [OF assms(1)] PUTU32_def add.assoc)
qed

lemma ctr32_put_eq:
  assumes "length iv = 16" "0 < n" "unat (GETU32 iv 12) + n \<le> 2 ^ 32"
  shows "ctr32_put (GETU32 iv 12 + word_of_nat n) iv = be_bytes 16 (be_val iv + n)"
    "GETU32 (be_bytes 16 (be_val iv + n)) 12 = GETU32 iv 12 + word_of_nat n"
proof -
  let ?c = "GETU32 iv 12"
  have u: "unat (?c + word_of_nat n) = (unat ?c + n) mod 2 ^ 32" by (simp add: unat_word_ariths unat_of_nat mod_simps)
  show "ctr32_put (?c + word_of_nat n) iv = be_bytes 16 (be_val iv + n)"
  proof (cases "unat ?c + n < 2 ^ 32")
    case True
    then have "?c + word_of_nat n \<noteq> 0" using u assms(2) by (auto simp: word_unat_eq_iff)
    then show ?thesis using ctr32_step [OF assms(1) True] by (simp add: ctr32_put_def Let_def)
  next
    case False
    then have e: "unat ?c + n = 2 ^ 32" using assms(3) by simp
    then have z: "?c + word_of_nat n = 0" using u by (simp add: word_unat_eq_iff)
    let ?k = "take 12 iv @ PUTU32 0"
    have l: "length ?k = 16" using assms(1) by (simp add: PUTU32_def)
    have a: "be_val (take 12 (ctr96_inc ?k)) = (be_val (take 12 iv) + 1) mod 256 ^ 12"
      using ctr_carry_val [of 12 ?k 1] l assms(1) by (simp add: ctr96_inc_def)
    have b: "drop 12 (ctr96_inc ?k) = be_bytes 4 0"
      using ctr_carry_frame [of 12 12 1 ?k] assms(1) by (simp add: ctr96_inc_def PUTU32_def)
    have t: "length (take 12 (ctr96_inc ?k)) = 12" using l by (simp add: ctr96_inc_def)
    have "ctr96_inc ?k = take 12 (ctr96_inc ?k) @ drop 12 (ctr96_inc ?k)" by simp
    also have "\<dots> = be_bytes 12 (be_val (take 12 iv) + 1) @ be_bytes 4 0"
      using be_bytes_be_val [of "take 12 (ctr96_inc ?k)"] unfolding t a b be_bytes_wrap by simp
    also have "\<dots> = be_bytes 16 ((be_val (take 12 iv) + 1) * 2 ^ 32 + 0)" by (rule counter_bytes [symmetric]) simp
    also have "(be_val (take 12 iv) + 1) * 2 ^ 32 + 0 = be_val iv + n"
      using e be_val_counter(1) [OF assms(1)] by simp
    finally show ?thesis unfolding z ctr32_put_def Let_def by simp
  qed
  have "unat (GETU32 (be_bytes 16 (be_val iv + n)) 12) = (unat ?c + n) mod 2 ^ 32"
    using be_val_counter [OF length_be_bytes [of 16 "be_val iv + n"]] be_bytes_append [of 12 4 "be_val iv + n"]
      be_val_counter(1) [OF assms(1)] mod_mult_self3 [of "be_val (take 12 iv)" "2 ^ 32" "unat ?c + n"]
    by (simp add: be_val_be_bytes add.assoc)
  then show "GETU32 (be_bytes 16 (be_val iv + n)) 12 = ?c + word_of_nat n" using u by (simp add: word_unat_eq_iff)
qed

lemma ctr32_chunk_eq:
  assumes "16 \<le> len"
  obtains n where "ctr32_chunk c len = (n, c + word_of_nat n)" "0 < n" "16 * n \<le> len" "unat c + n \<le> 2 ^ 32"
proof -
  define k where "k = min (len div 16) (2 ^ 28)"
  have k: "0 < k" "16 * k \<le> len" "k \<le> 2 ^ 28" using assms by (auto simp: k_def div_greater_zero_iff)
  have c: "ctr32_chunk c len = (if unat (c + word_of_nat k) < k then (k - unat (c + word_of_nat k), 0) else (k, c + word_of_nat k))"
    by (simp add: ctr32_chunk_def k_def Let_def min_def not_less)
  have u: "unat (c + word_of_nat k) = (unat c + k) mod 2 ^ 32" by (simp add: unat_word_ariths unat_of_nat mod_simps)
  have lt: "unat c < 2 ^ 32" using unat_less_exp [of c] by simp
  show ?thesis
  proof (cases "unat c + k < 2 ^ 32")
    case True
    then show ?thesis using c u k by (intro that [of k]) simp_all
  next
    case False
    then have w: "unat (c + word_of_nat k) = unat c + k - 2 ^ 32" using u lt k(3) by (simp add: mod_if)
    define n where "n = 2 ^ 32 - unat c"
    have n: "n \<le> k" "unat c + n = 2 ^ 32" using False lt by (auto simp: n_def)
    have "c + word_of_nat n = 0" using n by (simp add: word_unat_eq_iff unat_word_ariths unat_of_nat mod_simps)
    moreover have "k - unat (c + word_of_nat k) = n" "unat (c + word_of_nat k) < k" unfolding w n_def using False lt k(3) by simp_all
    ultimately show ?thesis using c k n lt by (intro that [of n]) simp_all
  qed
qed

lemma ctr32_func_eq:
  assumes "ctr32_func block func" "length iv = 16" "length inp = 16 * n" "unat (GETU32 iv 12) + n \<le> 2 ^ 32"
  shows "func inp n iv = map2 (XOR) inp (ctr_stream block iv n)"
proof -
  have e: "map (\<lambda>j. block (take 12 iv @ PUTU32 (GETU32 iv 12 + word_of_nat j))) [0..<n] = map (\<lambda>j. block (be_bytes 16 (be_val iv + j))) [0..<n]"
    using assms(2,4) by (intro map_cong arg_cong [where f = block] ctr32_step) auto
  show ?thesis using assms unfolding ctr32_func_def ctr_stream_def e [symmetric] by blast
qed

lemma ctr32_blocks_eq:
  assumes "ctr32_func block func" "ctr_ok block (iv, ec)"
  shows "ctr_loop block (iv, ec) inp = (b, (iv', ec'), rest) \<Longrightarrow> ctr32_blocks func m (GETU32 iv 12) iv inp = (b, GETU32 iv' 12, iv', rest)"
  using assms(2)
proof (induction inp arbitrary: iv ec b rule: length_induct)
  case (1 inp)
  have l: "length iv = 16" using "1.prems"(2) by (simp add: ctr_ok_def)
  show ?case
  proof (cases "16 \<le> length inp")
    case True
    obtain n where n: "ctr32_chunk (GETU32 iv 12) (length inp) = (n, GETU32 iv 12 + word_of_nat n)" "0 < n" "16 * n \<le> length inp"
      "unat (GETU32 iv 12) + n \<le> 2 ^ 32" using ctr32_chunk_eq [OF True] by blast
    let ?iv = "be_bytes 16 (be_val iv + n)"
    obtain ec2 where r: "(ctr_refill block ^^ n) (iv, ec) = (?iv, ec2)"
      using ctr_refill_funpow [OF l, of "n - 1" block ec] n(2) by auto
    have ok: "ctr_ok block (?iv, ec2)" using ctr.ok_funpow [OF "1.prems"(2), of n] r by simp
    obtain b' where b': "ctr_loop block (?iv, ec2) (drop (16 * n) inp) = (b', (iv', ec'), rest)"
      "b = map2 (XOR) (take (16 * n) inp) (ctr_stream block iv n) @ b'"
      using ctr.blocks_many [OF "1.prems"(2) n(3)] "1.prems"(1) by (simp add: r ctr_stream_eq l split: prod.splits)
    have "length (drop (16 * n) inp) < length inp" using n(2,3) by simp
    then have ih: "ctr32_blocks func m (GETU32 ?iv 12) ?iv (drop (16 * n) inp) = (b', GETU32 iv' 12, iv', rest)"
      using "1.IH" b'(1) ok by blast
    have f: "func (take (16 * n) inp) n iv = map2 (XOR) (take (16 * n) inp) (ctr_stream block iv n)"
      using n(3,4) by (intro ctr32_func_eq [OF assms(1) l]) simp_all
    show ?thesis
      using True ih b'(2) unfolding ctr32_blocks.simps [of func m _ iv inp] n(1) Let_def fst_conv snd_conv f
        ctr32_put_eq [OF l n(2,4)] by simp
  next
    case False
    then show ?thesis using "1.prems" ctr.blocks [OF "1.prems"(2), of inp] by (simp add: ctr32_blocks.simps)
  qed
qed

definition ctr32_op :: "ctr128_f \<Rightarrow> nat \<times> u8 list \<times> u8 list \<Rightarrow> u8 list \<Rightarrow> u8 list \<times> nat \<times> u8 list \<times> u8 list" where
  "ctr32_op func = (\<lambda>(n, ivec, ec) inp. CRYPTO_ctr128_encrypt_ctr32 func n ivec ec inp)"

text \<open>States of the two operations that continue alike: the buffer matters only when some of it is left.\<close>

definition ctr_sim :: "block128_f \<Rightarrow> nat \<times> u8 list \<times> u8 list \<Rightarrow> nat \<times> u8 list \<times> u8 list \<Rightarrow> bool" where
  "ctr_sim block = (\<lambda>(n, iv, ec) (n', iv', ec').
     n < 16 \<and> n' = n \<and> iv' = iv \<and> (n \<noteq> 0 \<longrightarrow> ec' = ec) \<and> ctr_ok block (iv, ec) \<and> length ec' = 16)"

lemma ofb_head_0: "ofb_head 0 iv inp = ([], 0, inp)"
  by (cases inp) simp_all

lemma ctr32_op_sim:
  assumes f: "ctr32_func block func" and s: "ctr_sim block s t"
  shows "fst (ctr32_op func t inp) = fst (ctr_op block s inp)" "ctr_sim block (snd (ctr_op block s inp)) (snd (ctr32_op func t inp))"
proof -
  obtain n iv ec ec' where st: "s = (n, iv, ec)" "t = (n, iv, ec')" and n: "n < 16" "n \<noteq> 0 \<Longrightarrow> ec' = ec" and ok: "ctr_ok block (iv, ec)"
    and l: "length iv = 16" "length ec' = 16" "length ec = 16"
    using s by (auto simp: ctr_sim_def ctr_ok_def)
  obtain a k r where h: "ofb_head n ec inp = (a, k, r)" by (cases "ofb_head n ec inp") auto
  have h': "ofb_head n ec' inp = (a, k, r)" using h n(2) by (cases "n = 0") (simp_all add: ofb_head_0)
  have k: "k < 16" "r = [] \<or> k = 0"
    using ofb_head_run [of n snd "(iv, ec)" inp a k r "ctr_refill block"] n(1) h by simp_all
  obtain b iv2 ec2 rest where loop: "ctr_loop block (iv, ec) r = (b, (iv2, ec2), rest)" by (cases "ctr_loop block (iv, ec) r") auto
  note c32 = ctr32_blocks_eq [OF f ok loop, of k]
  have rest: "length rest < 16" "ctr_ok block (iv2, ec2)" using ctr.blocks_run [OF ok loop] by simp_all
  then have l2: "length iv2 = 16" "length ec2 = 16" "length (block iv2) = 16" by (simp_all add: ctr_ok_def block_ok_def)
  have blk: "ctr_blocks block k iv ec r = (b, k, iv2, ec2, rest)"
  proof (cases "r = []")
    case True
    then show ?thesis using loop by (simp add: ctr_blocks.simps ctr_loop_def)
  next
    case False
    then show ?thesis using k loop ctr_blocks_n [of block iv ec r]
      by (cases "ctr_blocks block 0 iv ec r") (auto simp: ctr_loop_def Let_def)
  qed
  have one: "unat (GETU32 iv2 12) + 1 \<le> 2 ^ 32" using unat_less_exp [of "GETU32 iv2 12"] by simp
  have x: "map2 (XOR) (replicate 16 0) y = y" if "length y = 16" for y :: "u8 list"
    using that by (intro nth_equalityI) simp_all
  have tail: "func (replicate 16 0) (Suc 0) iv2 = block iv2" "ctr32_put (GETU32 iv2 12 + 1) iv2 = ctr128_inc iv2"
    using ctr32_func_eq [OF f l2(1), of "replicate 16 0" 1] ctr32_put_eq(1) [OF l2(1), of 1] one
      be_bytes_be_val [of iv2] l2 by (simp_all add: ctr_stream_def x ctr128_inc_val)
  have ks: "rest \<noteq> [] \<Longrightarrow> k = 0" using k loop by (auto simp: ctr_loop_def ctr_blocks.simps)
  show "fst (ctr32_op func t inp) = fst (ctr_op block s inp)"
    by (cases "rest = []") (simp_all add: ctr32_op_def ctr_op_def st CRYPTO_ctr128_encrypt_def CRYPTO_ctr128_encrypt_ctr32_def
        h h' blk c32 tail split_beta Let_def)
  have used: "rest = [] \<Longrightarrow> k \<noteq> 0 \<Longrightarrow> n \<noteq> 0 \<and> ec2 = ec"
    using h loop k by (cases "n = 0") (auto simp: ofb_head_0 ctr_loop_def ctr_blocks.simps)
  show "ctr_sim block (snd (ctr_op block s inp)) (snd (ctr32_op func t inp))"
  proof (cases "rest = []")
    case True
    then show ?thesis using used n(2) l l2 rest k(1)
      by (auto simp: ctr32_op_def ctr_op_def st CRYPTO_ctr128_encrypt_def CRYPTO_ctr128_encrypt_ctr32_def ctr_sim_def h h' blk c32)
  next
    case False
    note z = ks [OF False]
    show ?thesis using False rest l2 ctr.ok_refill [OF rest(2)]
      by (simp add: ctr32_op_def ctr_op_def st CRYPTO_ctr128_encrypt_def CRYPTO_ctr128_encrypt_ctr32_def ctr_sim_def ctr_refill_def
          h [unfolded z] h' [unfolded z] blk [unfolded z] c32 [unfolded z] tail ofb_tail_eq)
  qed
qed

lemma ctr32_pieces:
  assumes "ctr32_func block func" "ctr_sim block s t"
  shows "fst (run_pieces (ctr32_op func) t ps) = fst (run_pieces (ctr_op block) s ps)"
  using assms(2)
proof (induction ps arbitrary: s t)
  case (Cons p ps)
  show ?case using Cons.IH [OF ctr32_op_sim(2) [OF assms(1) Cons.prems]] ctr32_op_sim(1) [OF assms(1) Cons.prems]
    by (simp add: Let_def split_beta)
qed simp

section \<open>The properties\<close>

text \<open>An invertible function on blocks, on which the properties of the modes are exhibited.\<close>

definition deciphers :: "block128_f \<Rightarrow> block128_f \<Rightarrow> bool" where
  "deciphers unblock block \<longleftrightarrow> (\<forall>x. length x = 16 \<longrightarrow> unblock (block x) = x)"

definition rot_block :: "u8 list \<Rightarrow> u8 list" where
  "rot_block x = rotate1 (map (\<lambda>b. b XOR 0x5a) x)"

definition rot_unblock :: "u8 list \<Rightarrow> u8 list" where
  "rot_unblock x = map (\<lambda>b. b XOR 0x5a) (rotate (length x - 1) x)"

lemma rot_block_ok: "block_ok rot_block" "block_ok rot_unblock" "deciphers rot_unblock rot_block"
proof -
  show "block_ok rot_block" "block_ok rot_unblock" by (simp_all add: block_ok_def rot_block_def rot_unblock_def)
  have "rot_unblock (rot_block x) = x" if "length x = 16" for x
  proof -
    have "rotate 15 (rotate1 y) = y" if "length y = 16" for y :: "u8 list"
      using rotate_rotate [of 15 1 y] rotate_id [of 16 y] that by simp
    then show ?thesis using that by (simp add: rot_unblock_def rot_block_def rotate_map rotate1_map o_def xor.assoc)
  qed
  then show "deciphers rot_unblock rot_block" by (simp add: deciphers_def)
qed

definition rot_func :: ctr128_f where
  "rot_func inp n iv = map2 (XOR) inp (concat (map (\<lambda>j. rot_block (take 12 iv @ PUTU32 (GETU32 iv 12 + word_of_nat j))) [0..<n]))"

text \<open>
  C19. \<open>CRYPTO_ctr128_encrypt\<close>, and \<open>CRYPTO_ctr128_encrypt_ctr32\<close> with any \<open>ctr128_f\<close> that counts in 32 bits, both
  produce the CTR encryption of SP 800-38A, with the counter a 128-bit number, for data passed in any pieces: the
  carry out of the low 32 bits is handled although \<open>func\<close> lets it wrap.
\<close>

theorem ctr_modes_sp800_38a:
  assumes "block_ok block" "ctr32_func block func" "length counter = 16" "length ec = 16" "concat ps = m" "concat qs = m"
  shows "fst (run_pieces (ctr_op block) (0, counter, ec) ps) = sp800_38a_ctr block counter m \<and>
    fst (run_pieces (ctr32_op func) (0, counter, ec) qs) = sp800_38a_ctr block counter m"
proof -
  have ok: "ctr_ok block (counter, ec)" and sim: "ctr_sim block (0, counter, ec) (0, counter, ec)"
    using assms by (simp_all add: ctr_ok_def ctr_sim_def)
  show ?thesis
    using ctr_pieces [OF ok, of ps] ctr_pieces [OF ok, of qs] ctr32_pieces [OF assms(2) sim, of qs] assms(5,6) by (simp add: Let_def)
qed

theorem ctr_modes_sp800_38a_witness:
  "fst (run_pieces (ctr_op rot_block) (0, replicate 16 0xff, replicate 16 0) [[1, 2], replicate 33 3]) =
      sp800_38a_ctr rot_block (replicate 16 0xff) ([1, 2] @ replicate 33 3) \<and>
   fst (run_pieces (ctr32_op rot_func) (0, replicate 16 0xff, replicate 16 0) [[1, 2] @ replicate 33 3]) =
      sp800_38a_ctr rot_block (replicate 16 0xff) ([1, 2] @ replicate 33 3)"
  by (rule ctr_modes_sp800_38a [OF rot_block_ok(1)])
     (simp_all add: ctr32_func_def rot_func_def)

end
