(* ===== verification/Modes_Cbc.thy ===== *)
theory Modes_Cbc
  imports Modes_Streams
begin

text \<open>
  Cipher block chaining of \<open>Modes\<close>: both loops of \<open>CRYPTO_cbc128_decrypt\<close> are the same atomic step per block as
  long as input and output lie as its assertion demands, and decryption recovers in memory what
  \<open>CRYPTO_cbc128_encrypt\<close> encrypted, for every length and every such overlap.
\<close>

unbundle bit_operations_syntax

section \<open>Memory\<close>

lemma length_mem_bytes [simp]: "length (mem_bytes m a n) = n"
  by (simp add: mem_bytes_def)

lemma nth_mem_bytes [simp]: "i < n \<Longrightarrow> mem_bytes m a n ! i = m (a + i)"
  by (simp add: mem_bytes_def)

lemma mem_bytes_put_same: "length bs = n \<Longrightarrow> mem_bytes (mem_put m a bs) a n = bs"
  by (rule nth_equalityI) (simp_all add: mem_put_def)

lemma mem_bytes_put_other: "a + length bs \<le> b \<or> b + n \<le> a \<Longrightarrow> mem_bytes (mem_put m a bs) b n = mem_bytes m b n"
  by (rule nth_equalityI) (auto simp: mem_put_def)

lemma mem_put_append: "mem_put (mem_put m a xs) (a + length xs) ys = mem_put m a (xs @ ys)"
  by (auto simp: mem_put_def nth_append fun_eq_iff)

lemma mem_put_put: "length xs = length ys \<Longrightarrow> mem_put (mem_put m a xs) a ys = mem_put m a ys"
  by (auto simp: mem_put_def fun_eq_iff)

lemma mem_bytes_split: "mem_bytes m a (j + k) = mem_bytes m a j @ mem_bytes m (a + j) k"
  by (rule nth_equalityI) (auto simp: nth_append)

lemma take_mem_bytes: "take j (mem_bytes m a k) = mem_bytes m a (min j k)"
  by (rule nth_equalityI) auto

lemma store_mem_word: "store_word_le (mem_word m a) = mem_bytes m a 8"
  by (simp add: mem_word_def store_load_word)

section \<open>Encryption\<close>

fun cbc_chain :: "block128_f \<Rightarrow> u8 list \<Rightarrow> u8 list list \<Rightarrow> u8 list list" where
  "cbc_chain block iv [] = []"
| "cbc_chain block iv (p # ps) = (let c = block (map2 (XOR) p iv) in c # cbc_chain block c ps)"

text \<open>The data filled up with zeros to whole blocks.\<close>

definition zero_pad :: "u8 list \<Rightarrow> u8 list" where
  "zero_pad p = p @ replicate ((16 - length p mod 16) mod 16) 0"

fun blocks16 :: "u8 list \<Rightarrow> u8 list list" where
  "blocks16 xs = (if xs = [] then [] else take 16 xs # blocks16 (drop 16 xs))"

declare blocks16.simps [simp del]

lemma cbc_encrypt_tail_eq:
  assumes "length p < 16" "length iv = 16"
  shows "cbc_encrypt_tail block iv p = (let cs = cbc_chain block iv (blocks16 (zero_pad p)) in (concat cs, last (iv # cs)))"
proof (cases "p = []")
  case False
  let ?z = "p @ replicate (16 - length p) 0"
  have z: "zero_pad p = ?z" using assms False by (cases p) (simp_all add: zero_pad_def)
  have "blocks16 ?z = [?z]" using assms False by (simp add: blocks16.simps)
  moreover have "map (\<lambda>n. if n < length p then p ! n XOR iv ! n else iv ! n) [0..<16] = map2 (XOR) ?z iv"
    using assms by (intro nth_equalityI) (auto simp: nth_append)
  ultimately show ?thesis using assms(1) False by (simp add: cbc_encrypt_tail.simps z Let_def)
qed (simp add: cbc_encrypt_tail.simps zero_pad_def blocks16.simps)

lemma zero_pad_drop: "16 \<le> length p \<Longrightarrow> zero_pad p = take 16 p @ zero_pad (drop 16 p)"
  by (simp add: zero_pad_def le_mod_geq)

lemma CRYPTO_cbc128_encrypt_eq:
  assumes "length iv = 16" "block_ok block"
  shows "CRYPTO_cbc128_encrypt block iv p = (let cs = cbc_chain block iv (blocks16 (zero_pad p)) in (concat cs, last (iv # cs)))"
  using assms(1)
proof (induction p arbitrary: iv rule: length_induct)
  case (1 p)
  show ?case
  proof (cases "16 \<le> length p")
    case True
    let ?c = "block (map2 (XOR) (take 16 p) iv)"
    have l: "length ?c = 16" using assms(2) True "1.prems" by (simp add: block_ok_def)
    have "blocks16 (zero_pad p) = take 16 p # blocks16 (zero_pad (drop 16 p))"
      using True unfolding zero_pad_drop [OF True] by (subst blocks16.simps) auto
    moreover have "CRYPTO_cbc128_encrypt block iv p = (let (out, iv) = CRYPTO_cbc128_encrypt block ?c (drop 16 p) in (?c @ out, iv))"
      using True "1.prems"
      by (simp add: CRYPTO_cbc128_encrypt_def cbc_encrypt_blocks.simps [of block iv p] xor_words_0 Let_def split_beta)
    moreover have "length (drop 16 p) < length p" using True by simp
    ultimately show ?thesis using "1.IH" l by (simp add: Let_def)
  next
    case False
    then show ?thesis
      using cbc_encrypt_tail_eq [of p iv block] "1.prems"
      by (simp add: CRYPTO_cbc128_encrypt_def cbc_encrypt_blocks.simps [of block iv p] Let_def)
  qed
qed

section \<open>Decryption\<close>

text \<open>One block in one step, and any number of them.\<close>

definition cbc_step :: "block128_f \<Rightarrow> memory \<Rightarrow> u8 list \<Rightarrow> nat \<Rightarrow> nat \<Rightarrow> memory" where
  "cbc_step block m iv inp out = mem_put m out (map2 (XOR) (block (mem_bytes m inp 16)) iv)"

primrec cbc_mem :: "block128_f \<Rightarrow> memory \<Rightarrow> u8 list \<Rightarrow> nat \<Rightarrow> nat \<Rightarrow> nat \<Rightarrow> memory \<times> u8 list" where
  "cbc_mem block m iv inp out 0 = (m, iv)"
| "cbc_mem block m iv inp out (Suc k) = cbc_mem block (cbc_step block m iv inp out) (mem_bytes m inp 16) (inp + 16) (out + 16) k"

fun cbc_unchain :: "block128_f \<Rightarrow> u8 list \<Rightarrow> u8 list list \<Rightarrow> u8 list list" where
  "cbc_unchain block iv [] = []"
| "cbc_unchain block iv (c # cs) = map2 (XOR) (block c) iv # cbc_unchain block c cs"

definition mem_blocks :: "memory \<Rightarrow> nat \<Rightarrow> nat \<Rightarrow> u8 list list" where
  "mem_blocks m a k = map (\<lambda>j. mem_bytes m (a + 16 * j) 16) [0..<k]"

lemma mem_blocks_Suc: "mem_blocks m a (Suc k) = mem_bytes m a 16 # mem_blocks m (a + 16) k"
  by (rule nth_equalityI) (auto simp: mem_blocks_def nth_Cons' gr0_conv_Suc algebra_simps simp del: upt_Suc)

lemma concat_mem_blocks: "concat (mem_blocks m a k) = mem_bytes m a (16 * k)"
proof (induction k arbitrary: a)
  case (Suc k)
  then show ?case using mem_bytes_split [of m a 16 "16 * k"] by (simp add: mem_blocks_Suc add.commute)
qed (simp add: mem_blocks_def mem_bytes_def)

text \<open>The output does not run into the input that is still to be read.\<close>

lemma cbc_mem_eq:
  assumes "out \<le> inp \<or> inp + n \<le> out" "16 * k \<le> n" "block_ok block" "length iv = 16" "cbc_mem block m iv inp out k = (m', iv')"
  shows "mem_bytes m' out (16 * k) = concat (cbc_unchain block iv (mem_blocks m inp k)) \<and> iv' = last (iv # mem_blocks m inp k) \<and>
    (\<forall>x. x < out \<or> out + 16 * k \<le> x \<longrightarrow> m' x = m x)"
  using assms
proof (induction k arbitrary: m iv inp out n)
  case (Suc k)
  let ?m = "cbc_step block m iv inp out" and ?c = "mem_bytes m inp 16"
  have l: "length (map2 (XOR) (block ?c) iv) = 16" using Suc.prems by (simp add: block_ok_def)
  have fr: "?m x = m x" if "x < out \<or> out + 16 \<le> x" for x using that l by (auto simp: cbc_step_def mem_put_def)
  have b: "mem_blocks ?m (inp + 16) k = mem_blocks m (inp + 16) k"
  proof -
    have "mem_bytes ?m (inp + 16 + 16 * j) 16 = mem_bytes m (inp + 16 + 16 * j) 16" if "j < k" for j
      using that Suc.prems(1,2) l unfolding cbc_step_def by (intro mem_bytes_put_other) (auto simp: l)
    then show ?thesis by (simp add: mem_blocks_def)
  qed
  have "out + 16 \<le> inp + 16 \<or> inp + 16 + (n - 16) \<le> out + 16" "16 * k \<le> n - 16" using Suc.prems(1,2) by auto
  from Suc.IH [OF this Suc.prems(3) _ Suc.prems(5) [unfolded cbc_mem.simps]]
  have ih: "mem_bytes m' (out + 16) (16 * k) = concat (cbc_unchain block ?c (mem_blocks m (inp + 16) k))"
    "iv' = last (?c # mem_blocks m (inp + 16) k)" "\<And>x. x < out + 16 \<or> out + 16 + 16 * k \<le> x \<Longrightarrow> m' x = ?m x"
    by (auto simp: b)
  have "mem_bytes m' out 16 = mem_bytes ?m out 16" by (rule nth_equalityI) (simp_all add: ih(3))
  also have "\<dots> = map2 (XOR) (block ?c) iv" unfolding cbc_step_def by (rule mem_bytes_put_same) (rule l)
  finally have "mem_bytes m' out (16 * Suc k) = map2 (XOR) (block ?c) iv @ mem_bytes m' (out + 16) (16 * k)"
    using mem_bytes_split [of m' out 16 "16 * k"] by (simp add: add.commute)
  then show ?case using ih fr by (auto simp: mem_blocks_Suc)
qed (simp add: mem_blocks_def mem_bytes_def)

text \<open>The two loops.\<close>

lemma xor_words_put:
  assumes "length b = 16" "length v = 16"
  shows "mem_put (mem_put m out (map2 (XOR) (take 8 b) (take 8 v))) (out + 8) (map2 (XOR) (take 8 (drop 8 b)) (take 8 (drop 8 v))) =
    mem_put m out (map2 (XOR) b v)"
proof -
  have "map2 (XOR) b v = map2 (XOR) (take 8 b) (take 8 v) @ map2 (XOR) (take 8 (drop 8 b)) (take 8 (drop 8 v))"
    using assms by (intro nth_equalityI) (auto simp: nth_append)
  then show ?thesis using assms mem_put_append [of m out "map2 (XOR) (take 8 b) (take 8 v)"] by simp
qed

definition iv_value :: "memory \<Rightarrow> u8 list \<Rightarrow> nat option \<Rightarrow> u8 list" where
  "iv_value m ivec iv = (case iv of None \<Rightarrow> ivec | Some a \<Rightarrow> mem_bytes m a 16)"

lemma store_iv_word:
  assumes "length ivec = 16" "n + 8 \<le> 16"
  shows "store_word_le (iv_word m ivec iv n) = take 8 (drop n (iv_value m ivec iv))"
proof (cases iv)
  case (Some a)
  have "mem_bytes m (a + n) 8 = take 8 (drop n (mem_bytes m a 16))" using assms(2) by (intro nth_equalityI) (auto simp: add.assoc)
  then show ?thesis by (simp add: iv_word_def iv_value_def Some store_mem_word)
qed (use assms in \<open>simp add: iv_word_def iv_value_def store_load_word\<close>)

lemma disjoint_words:
  assumes "block_ok block" "length ivec = 16" "\<And>a. iv = Some a \<Longrightarrow> a + 16 \<le> out \<or> out + 16 \<le> a"
  shows "foldl (\<lambda>m n. mem_put m (out + n) (store_word_le (mem_word m (out + n) XOR iv_word m ivec iv n)))
      (mem_put m out (block (mem_bytes m inp 16))) (word_offsets 0) = cbc_step block m (iv_value m ivec iv) inp out"
proof -
  define b where "b = block (mem_bytes m inp 16)"
  have lb: "length b = 16" using assms(1) by (simp add: b_def block_ok_def)
  define v where "v = iv_value m ivec iv"
  have lv: "length v = 16" using assms(2) by (simp add: v_def iv_value_def split: option.split)
  have same: "iv_value m' ivec iv = v" if "\<forall>x. x < out \<or> out + 16 \<le> x \<longrightarrow> m' x = m x" for m'
  proof (cases iv)
    case (Some a)
    have "m' (a + i) = m (a + i)" if "i < 16" for i
      using assms(3) [OF Some] \<open>i < 16\<close> \<open>\<forall>x. x < out \<or> out + 16 \<le> x \<longrightarrow> m' x = m x\<close> by auto
    then show ?thesis by (simp add: v_def iv_value_def Some list_eq_iff_nth_eq)
  qed (simp add: v_def iv_value_def)
  define m0 m1 where "m0 = mem_put m out b" and "m1 = mem_put m0 out (map2 (XOR) (take 8 b) (take 8 v))"
  have w0: "store_word_le (mem_word m0 out) = take 8 b"
    using lb by (simp add: store_mem_word m0_def take_mem_bytes [of 8 _ _ 16, simplified, symmetric] mem_bytes_put_same)
  have "mem_bytes m1 (out + 8) 8 = mem_bytes m0 (out + 8) 8" unfolding m1_def using lb lv by (intro mem_bytes_put_other) simp
  also have "\<dots> = take 8 (drop 8 b)" using lb by (intro nth_equalityI) (auto simp: m0_def mem_put_def)
  finally have w1: "store_word_le (mem_word m1 (out + 8)) = take 8 (drop 8 b)" by (simp add: store_mem_word)
  have s0: "iv_value m0 ivec iv = v" by (rule same) (simp add: m0_def mem_put_def lb)
  have s1: "iv_value m1 ivec iv = v" by (rule same) (simp add: m1_def m0_def mem_put_def lb lv)
  have "mem_put m1 (out + 8) (map2 (XOR) (take 8 (drop 8 b)) (take 8 (drop 8 v))) = mem_put m0 out (map2 (XOR) b v)"
    unfolding m1_def by (rule xor_words_put [OF lb lv])
  also have "\<dots> = mem_put m out (map2 (XOR) b v)" unfolding m0_def by (rule mem_put_put) (simp add: lb lv)
  finally show ?thesis
    using assms(2) by (simp add: word_offsets_0 b_def [symmetric] m0_def [symmetric] store_word_le_xor store_iv_word w0 s0 m1_def [symmetric] w1 s1
        cbc_step_def v_def [symmetric])
qed

lemma disjoint_loop:
  assumes "out + 32 \<le> inp \<or> inp + n \<le> out" "16 * k \<le> n" "block_ok block" "length ivec = 16"
    "iv \<noteq> None \<longrightarrow> (\<exists>a. iv = Some a \<and> a + 16 = inp)"
    "cbc_mem block m (iv_value m ivec iv) inp out k = (m', v')" "r < 16"
  shows "\<exists>iv'. cbc_decrypt_disjoint block ivec m iv inp out (16 * k + r) = (m', iv', inp + 16 * k, out + 16 * k, r) \<and> iv_value m' ivec iv' = v'"
  using assms
proof (induction k arbitrary: m iv inp out n)
  case 0
  then show ?case by (auto simp: cbc_decrypt_disjoint.simps)
next
  case (Suc k)
  let ?m = "cbc_step block m (iv_value m ivec iv) inp out"
  have st: "foldl (\<lambda>m n. mem_put m (out + n) (store_word_le (mem_word m (out + n) XOR iv_word m ivec iv n)))
      (mem_put m out (block (mem_bytes m inp 16))) (word_offsets 0) = ?m"
    using Suc.prems by (intro disjoint_words) auto
  have l: "length (block (mem_bytes m inp 16)) = 16" "length (iv_value m ivec iv) = 16"
    using Suc.prems(3,4) by (simp_all add: block_ok_def iv_value_def split: option.split)
  have c: "iv_value ?m ivec (Some inp) = mem_bytes m inp 16"
    using Suc.prems(1,2) l unfolding iv_value_def cbc_step_def option.case by (intro mem_bytes_put_other) auto
  have "out + 16 + 32 \<le> inp + 16 \<or> inp + 16 + (n - 16) \<le> out + 16" "16 * k \<le> n - 16" using Suc.prems(1,2) by auto
  from Suc.IH [OF this Suc.prems(3,4), of "Some inp" ?m] Suc.prems(6) have
    "\<exists>iv'. cbc_decrypt_disjoint block ivec ?m (Some inp) (inp + 16) (out + 16) (16 * k + r) =
       (m', iv', inp + 16 + 16 * k, out + 16 + 16 * k, r) \<and> iv_value m' ivec iv' = v'"
    using \<open>r < 16\<close> by (simp add: c)
  then show ?case
    using st by (simp add: cbc_decrypt_disjoint.simps [of block ivec m iv inp out] Let_def add_ac)
qed

lemma overlap_words:
  assumes "block_ok block" "length iv = 16" "out \<le> inp"
  shows "foldl (\<lambda>(m, ivec) n.
        let c = mem_word m (inp + n);
            m = mem_put m (out + n) (store_word_le (load_word_le (block (mem_bytes m0 inp 16)) n XOR load_word_le ivec n));
            ivec = take n ivec @ store_word_le c @ drop (n + 8) ivec
        in (m, ivec)) (m0, iv) (word_offsets 0) = (cbc_step block m0 iv inp out, mem_bytes m0 inp 16)"
proof -
  define b where "b = block (mem_bytes m0 inp 16)"
  have lb: "length b = 16" using assms(1) by (simp add: b_def block_ok_def)
  have w: "store_word_le (load_word_le b 0 XOR load_word_le iv 0) = map2 (XOR) (take 8 b) (take 8 iv)"
    using lb assms(2) by (simp add: store_word_le_xor store_load_word)
  define m1 where "m1 = mem_put m0 out (map2 (XOR) (take 8 b) (take 8 iv))"
  have "mem_bytes m1 (inp + 8) 8 = mem_bytes m0 (inp + 8) 8" unfolding m1_def using assms lb by (intro mem_bytes_put_other) simp
  then have c: "mem_bytes m0 inp 8 @ mem_bytes m1 (inp + 8) 8 = mem_bytes m0 inp 16" using mem_bytes_split [of m0 inp 8 8] by simp
  let ?v = "mem_bytes m0 inp 8 @ drop 8 iv"
  have w1: "store_word_le (load_word_le b 8 XOR load_word_le ?v 8) = map2 (XOR) (take 8 (drop 8 b)) (take 8 (drop 8 iv))"
    using lb assms(2) by (simp add: store_word_le_xor store_load_word)
  show ?thesis
    using xor_words_put [OF lb assms(2), of m0 out] assms(2) c
    by (simp add: word_offsets_0 b_def [symmetric] w store_mem_word m1_def [symmetric] w1 cbc_step_def)
qed

lemma overlap_loop:
  assumes "out \<le> inp" "block_ok block" "length iv = 16" "cbc_mem block m iv inp out k = (m', v')" "r < 16"
  shows "cbc_decrypt_overlap block m iv inp out (16 * k + r) = (m', v', inp + 16 * k, out + 16 * k, r)"
  using assms
proof (induction k arbitrary: m iv inp out)
  case 0
  then show ?case by (simp add: cbc_decrypt_overlap.simps)
next
  case (Suc k)
  note st = overlap_words [OF Suc.prems(2,3,1), of m]
  have "cbc_decrypt_overlap block (cbc_step block m iv inp out) (mem_bytes m inp 16) (inp + 16) (out + 16) (16 * k + r) =
      (m', v', inp + 16 + 16 * k, out + 16 + 16 * k, r)"
    using Suc.prems by (intro Suc.IH) simp_all
  then show ?case unfolding cbc_decrypt_overlap.simps [of block m iv inp out] Let_def st [unfolded Let_def] by (simp add: add.commute add.left_commute)
qed

text \<open>The last, partial block: bytes beyond the input's length are read, and only the length is written.\<close>

lemma foldl_update:
  assumes "j \<le> k" "k \<le> length v"
  shows "foldl (\<lambda>v n. v[n := f n]) v [j..<k] = take j v @ map f [j..<k] @ drop k v"
  using assms
proof (induction k)
  case (Suc k)
  show ?case
  proof (cases "j = Suc k")
    case False
    then have l: "length (take j v @ map f [j..<k]) = k" using Suc.prems by simp
    show ?thesis using Suc False list_update_length [of "take j v @ map f [j..<k]" "v ! k" "drop (Suc k) v" "f k"]
      by (simp add: Cons_nth_drop_Suc [of k v, symmetric] l [simplified])
  qed simp
qed simp

lemma tail_bytes:
  assumes "out \<le> inp \<or> inp + 16 \<le> out" "length iv = 16" "length b = 16" "j \<le> 16"
  shows "foldl (\<lambda>(m, ivec) n. let c = m (inp + n) in (m(out + n := b ! n XOR ivec ! n), ivec[n := c])) (m, iv) [0..<j] =
    (mem_put m out (take j (map2 (XOR) b iv)), take j (mem_bytes m inp 16) @ drop j iv)"
  using assms(4)
proof (induction j)
  case 0
  then show ?case by (auto simp: mem_put_def fun_eq_iff)
next
  case (Suc j)
  let ?x = "map2 (XOR) b iv" and ?c = "mem_bytes m inp 16"
  have t: "take (Suc j) ?x = take j ?x @ [b ! j XOR iv ! j]" using Suc.prems assms(2,3) by (simp add: take_Suc_conv_app_nth)
  have "mem_put m out (take j ?x) (inp + j) = m (inp + j)" using Suc.prems assms by (auto simp: mem_put_def)
  moreover have "(mem_put m out (take j ?x))(out + j := b ! j XOR iv ! j) = mem_put m out (take (Suc j) ?x)"
    unfolding t using Suc.prems assms(2,3) by (auto simp: mem_put_def fun_eq_iff nth_append)
  moreover have "(take j ?c @ drop j iv)[j := m (inp + j)] = take (Suc j) ?c @ drop (Suc j) iv"
    using Suc.prems assms(2) by (intro nth_equalityI) (auto simp: nth_list_update nth_append)
  moreover have "(take j ?c @ drop j iv) ! j = iv ! j" using Suc.prems assms(2) by (simp add: nth_append)
  ultimately have "(let c = mem_put m out (take j ?x) (inp + j)
      in ((mem_put m out (take j ?x))(out + j := b ! j XOR (take j ?c @ drop j iv) ! j), (take j ?c @ drop j iv)[j := c])) =
      (mem_put m out (take (Suc j) ?x), take (Suc j) ?c @ drop (Suc j) iv)" by (simp only: Let_def)
  then show ?case using Suc by (simp only: upt_Suc foldl_append foldl.simps prod.case if_True le0 Suc_leD)
qed

lemma cbc_decrypt_tail_eq:
  assumes "out \<le> inp \<or> inp + 16 \<le> out" "block_ok block" "length iv = 16" "0 < r" "r < 16"
  shows "cbc_decrypt_tail block m iv inp out r =
    (mem_put m out (take r (map2 (XOR) (block (mem_bytes m inp 16)) iv)), mem_bytes m inp 16)"
proof -
  have lb: "length (block (mem_bytes m inp 16)) = 16" using assms(2) by (simp add: block_ok_def)
  let ?m = "mem_put m out (take r (map2 (XOR) (block (mem_bytes m inp 16)) iv))"
  have "take r (mem_bytes m inp 16) @ map (\<lambda>n. ?m (inp + n)) [r..<16] = mem_bytes m inp 16"
    using assms lb by (intro nth_equalityI) (auto simp: nth_append mem_put_def)
  moreover have "foldl (\<lambda>ivec n. ivec[n := ?m (inp + n)]) (take r (mem_bytes m inp 16) @ drop r iv) [r..<16] =
      take r (mem_bytes m inp 16) @ map (\<lambda>n. ?m (inp + n)) [r..<16]"
    using foldl_update [of r 16 "take r (mem_bytes m inp 16) @ drop r iv" "\<lambda>n. ?m (inp + n)"] assms by simp
  ultimately show ?thesis
    using tail_bytes [OF assms(1,3) lb, of r m] assms(4,5) by (simp add: cbc_decrypt_tail.simps min_def Let_def)
qed

section \<open>Decryption after encryption\<close>

text \<open>
  How the caller may place the buffers. \<open>cbc_assertion\<close> is the assertion of the function. It looks at \<open>len\<close> bytes, but of a
  partial last block the function reads all 16 bytes: with \<open>len = 20\<close> it allows output at \<open>inp + 20\<close>, and the first
  block of output destroys a part of the second block of input. \<open>cbc_placed\<close> is what the function needs.
\<close>

definition cbc_assertion :: "nat \<Rightarrow> nat \<Rightarrow> nat \<Rightarrow> bool" where
  "cbc_assertion inp out len \<longleftrightarrow> inp \<ge> out \<or> inp + len \<le> out"

definition cbc_placed :: "nat \<Rightarrow> nat \<Rightarrow> nat \<Rightarrow> bool" where
  "cbc_placed inp out len \<longleftrightarrow> out \<le> inp \<or> inp + 16 * ((len + 15) div 16) \<le> out"

lemma cbc_placed_assertion:
  assumes "cbc_assertion inp out len" "16 dvd len \<or> out \<le> inp \<or> inp + 16 * ((len + 15) div 16) \<le> out"
  shows "cbc_placed inp out len"
proof -
  have "16 * ((len + 15) div 16) = len" if "16 dvd len" using that by auto
  then show ?thesis using assms by (auto simp: cbc_assertion_def cbc_placed_def)
qed

lemma cbc_decrypt_mem:
  assumes "cbc_placed inp out len" "block_ok block" "length ivec = 16"
    and "cbc_mem block m ivec inp out (len div 16) = (m', v)"
  shows "CRYPTO_cbc128_decrypt block m ivec inp out len =
    cbc_decrypt_tail block m' v (inp + 16 * (len div 16)) (out + 16 * (len div 16)) (len mod 16)"
proof -
  define k r where "k = len div 16" and "r = len mod 16"
  have len: "len = 16 * k + r" "r < 16" by (simp_all add: k_def r_def)
  have mem: "cbc_mem block m ivec inp out k = (m', v)" using assms(4) by (simp add: k_def)
  show ?thesis
  proof (cases "(32 \<le> inp \<and> out \<le> inp - 32) \<or> inp < out")
    case True
    then have "out + 32 \<le> inp \<or> inp + 16 * k \<le> out" using assms(1) by (auto simp: cbc_placed_def k_def)
    then obtain iv' where l: "cbc_decrypt_disjoint block ivec m None inp out (16 * k + r) = (m', iv', inp + 16 * k, out + 16 * k, r)"
      "iv_value m' ivec iv' = v"
      using disjoint_loop [of out inp "16 * k" k block ivec None m m' v r] assms(2,3) mem len(2) by (auto simp: iv_value_def)
    have "(case iv' of None \<Rightarrow> ivec | Some a \<Rightarrow> mem_bytes m' a 16) = v" using l(2) by (simp add: iv_value_def)
    then show ?thesis using True l(1) unfolding CRYPTO_cbc128_decrypt_def len(1) [symmetric] k_def [symmetric] r_def [symmetric] by simp
  next
    case False
    then have "out \<le> inp" by auto
    from overlap_loop [OF this assms(2,3) mem len(2)] show ?thesis
      unfolding CRYPTO_cbc128_decrypt_def if_not_P [OF False] len(1) [symmetric] k_def [symmetric] r_def [symmetric] by simp
  qed
qed

text \<open>Undoing a chain block by block.\<close>

lemma cbc_unchain_chain:
  assumes "deciphers unblock block" "block_ok block" "length iv = 16" "\<forall>p\<in>set ps. length p = 16"
  shows "cbc_unchain unblock iv (cbc_chain block iv ps) = ps"
  using assms(3,4)
proof (induction ps arbitrary: iv)
  case (Cons p ps)
  define x where "x = map2 (XOR) p iv"
  have x: "length x = 16" "map2 (XOR) x iv = p" using Cons.prems xor_twice [of p iv] by (simp_all add: x_def)
  then have "unblock (block x) = x" "length (block x) = 16" using assms(1,2) by (simp_all add: deciphers_def block_ok_def)
  then show ?case using Cons.IH [of "block x"] Cons.prems x(2) by (simp add: x_def [symmetric] Let_def)
qed simp

lemma cbc_chain_lengths:
  assumes "block_ok block" "length iv = 16" "\<forall>p\<in>set ps. length p = 16"
  shows "length (cbc_chain block iv ps) = length ps \<and> (\<forall>c\<in>set (cbc_chain block iv ps). length c = 16)"
  using assms(2,3)
proof (induction ps arbitrary: iv)
  case (Cons p ps)
  define x where "x = map2 (XOR) p iv"
  have "length x = 16" using Cons.prems by (simp add: x_def)
  then have "length (block x) = 16" using assms(1) by (simp add: block_ok_def)
  then show ?case using Cons.IH [of "block x"] Cons.prems by (simp add: x_def [symmetric] Let_def)
qed simp

lemma blocks16_split: "16 dvd length xs \<Longrightarrow>
    (\<forall>p\<in>set (blocks16 xs). length p = 16) \<and> concat (blocks16 xs) = xs \<and> 16 * length (blocks16 xs) = length xs"
proof (induction xs rule: length_induct)
  case (1 xs)
  show ?case
  proof (cases "xs = []")
    case False
    then have l: "16 \<le> length xs" using "1.prems" by (simp add: dvd_imp_le)
    then have "16 dvd length (drop 16 xs)" "length (drop 16 xs) < length xs" using "1.prems" by simp_all
    with "1.IH" have ih: "(\<forall>p\<in>set (blocks16 (drop 16 xs)). length p = 16) \<and> concat (blocks16 (drop 16 xs)) = drop 16 xs \<and>
        16 * length (blocks16 (drop 16 xs)) = length (drop 16 xs)" by blast
    have "blocks16 xs = take 16 xs # blocks16 (drop 16 xs)" using False by (simp add: blocks16.simps [of xs])
    moreover have "length (take 16 xs) = 16" "16 + length (drop 16 xs) = length xs" using l by simp_all
    ultimately show ?thesis using ih by (simp only: list.set concat.simps append_take_drop_id list.size) auto
  qed (simp add: blocks16.simps)
qed

lemma round_up_16: "n + (16 - n mod 16) mod 16 = 16 * ((n + 15) div 16)" for n :: nat
proof (cases "n mod 16 = 0")
  case False
  define q r where "q = n div 16" and "r = n mod 16"
  have n: "n = 16 * q + r" "0 < r" "r < 16" using False by (simp_all add: q_def r_def)
  then have "(n + 15) div 16 = q + 1" by auto
  moreover have "(16 - r) mod 16 = 16 - r" using n by simp
  ultimately show ?thesis using n unfolding r_def by simp
qed auto

lemma length_zero_pad: "length (zero_pad p) = 16 * ((length p + 15) div 16)"
  by (simp add: zero_pad_def round_up_16)

lemma take_zero_pad: "take (length p) (zero_pad p) = p"
  by (simp add: zero_pad_def)

lemma mem_blocks_eq:
  assumes "\<forall>c\<in>set cs. length c = 16" "mem_bytes m a (16 * length cs) = concat cs"
  shows "mem_blocks m a (length cs) = cs"
  using assms
proof (induction cs arbitrary: a)
  case (Cons c cs)
  have s: "mem_bytes m a 16 @ mem_bytes m (a + 16) (16 * length cs) = c @ concat cs"
    using Cons.prems(2) mem_bytes_split [of m a 16 "16 * length cs"] by (simp add: add.commute)
  then have "mem_bytes m a 16 = c" "mem_bytes m (a + 16) (16 * length cs) = concat cs" using Cons.prems(1) by simp_all
  then show ?case using Cons by (simp add: mem_blocks_Suc)
qed (simp add: mem_blocks_def)

lemma cbc_unchain_append: "cbc_unchain block iv (cs @ [c]) = cbc_unchain block iv cs @ [map2 (XOR) (block c) (last (iv # cs))]"
  by (induction cs arbitrary: iv) simp_all

lemma cbc_decrypt_chain:
  assumes placed: "cbc_placed inp out len" and ok: "block_ok unblock" "length ivec = 16"
    and cs: "\<forall>c\<in>set cs. length c = 16" "length cs = (len + 15) div 16" "mem_bytes m inp (16 * length cs) = concat cs"
  shows "\<exists>m'. CRYPTO_cbc128_decrypt unblock m ivec inp out len = (m', last (ivec # cs)) \<and>
    mem_bytes m' out len = take len (concat (cbc_unchain unblock ivec cs)) \<and> (\<forall>x. x < out \<or> out + len \<le> x \<longrightarrow> m' x = m x)"
proof -
  define k r where "k = len div 16" and "r = len mod 16"
  have len: "len = 16 * k + r" "r < 16" by (simp_all add: k_def r_def)
  obtain m1 v where mem: "cbc_mem unblock m ivec inp out k = (m1, v)" by fastforce
  have dec: "CRYPTO_cbc128_decrypt unblock m ivec inp out len = cbc_decrypt_tail unblock m1 v (inp + 16 * k) (out + 16 * k) r"
    using cbc_decrypt_mem [OF placed ok, of m m1 v] mem by (simp add: k_def r_def)
  have pl: "out \<le> inp \<or> inp + 16 * length cs \<le> out" "k \<le> length cs" using placed cs(2) by (auto simp: cbc_placed_def k_def)
  have bl: "mem_blocks m inp k = take k cs"
    using arg_cong [OF mem_blocks_eq [OF cs(1,3)], of "take k"] pl(2) by (simp add: mem_blocks_def take_map)
  have k16: "16 * k \<le> 16 * length cs" using pl(2) by simp
  note body = cbc_mem_eq [OF pl(1) k16 ok mem, unfolded bl]
  have b1: "mem_bytes m1 out (16 * k) = concat (cbc_unchain unblock ivec (take k cs))" "v = last (ivec # take k cs)"
    "\<And>x. x < out \<or> out + 16 * k \<le> x \<Longrightarrow> m1 x = m x"
    using body by auto
  show ?thesis
  proof (cases "r = 0")
    case True
    then have "length cs = k" using cs(2) len(1) by simp
    moreover have "length (concat (cbc_unchain unblock ivec (take k cs))) = 16 * k" using b1(1) length_mem_bytes [of m1 out "16 * k"] by simp
    ultimately show ?thesis using True dec b1 len(1) by (simp add: cbc_decrypt_tail.simps)
  next
    case False
    then have n: "length cs = k + 1" using cs(2) len by auto
    define c where "c = cs ! k"
    have cs': "cs = take k cs @ [c]" using n take_Suc_conv_app_nth [of k cs] by (simp add: c_def)
    have lc: "length c = 16" using cs(1) n by (simp add: c_def)
    have "mem_bytes m inp (16 * k) @ mem_bytes m (inp + 16 * k) 16 = concat (take k cs) @ c"
      using cs(3) mem_bytes_split [of m inp "16 * k" 16] arg_cong [OF cs', of concat] by (simp add: n add.commute)
    then have mc: "mem_bytes m (inp + 16 * k) 16 = c" using lc by (auto dest: append_eq_append_conv [THEN iffD1, rotated])
    have mc1: "mem_bytes m1 (inp + 16 * k) 16 = c"
      unfolding mc [symmetric] using pl(1) n by (intro nth_equalityI) (auto intro!: b1(3))
    have lv: "length v = 16" using b1(2) ok(2) cs(1) last_in_set [of "ivec # take k cs"] by (auto dest: in_set_takeD)
    have pt: "out + 16 * k \<le> inp + 16 * k \<or> inp + 16 * k + 16 \<le> out + 16 * k" using pl(1) n by auto
    define x where "x = map2 (XOR) (unblock c) v"
    have lx: "length x = 16" using ok(1) lc lv by (simp add: x_def block_ok_def)
    have d: "CRYPTO_cbc128_decrypt unblock m ivec inp out len = (mem_put m1 (out + 16 * k) (take r x), c)"
      unfolding dec x_def using cbc_decrypt_tail_eq [OF pt ok(1) lv _ len(2), of m1] False by (simp add: mc1)
    have "mem_bytes (mem_put m1 (out + 16 * k) (take r x)) out (16 * k) = mem_bytes m1 out (16 * k)" by (rule mem_bytes_put_other) simp
    moreover have "mem_bytes (mem_put m1 (out + 16 * k) (take r x)) (out + 16 * k) r = take r x"
      using lx len(2) by (intro mem_bytes_put_same) simp
    ultimately have "mem_bytes (mem_put m1 (out + 16 * k) (take r x)) out len = concat (cbc_unchain unblock ivec (take k cs)) @ take r x"
      using mem_bytes_split [of _ out "16 * k" r] b1(1) len(1) by simp
    also have "\<dots> = take len (concat (cbc_unchain unblock ivec cs))"
    proof -
      have "cbc_unchain unblock ivec cs = cbc_unchain unblock ivec (take k cs) @ [x]"
        using cbc_unchain_append [of unblock ivec "take k cs" c] b1(2) cs' by (simp add: x_def)
      moreover have "length (concat (cbc_unchain unblock ivec (take k cs))) = 16 * k" using b1(1) length_mem_bytes [of m1 out "16 * k"] by simp
      ultimately show ?thesis by (simp add: len(1))
    qed
    finally have "mem_bytes (mem_put m1 (out + 16 * k) (take r x)) out len = take len (concat (cbc_unchain unblock ivec cs))" .
    moreover have "last (ivec # cs) = c" using cs' by (metis last.simps last_snoc snoc_eq_iff_butlast)
    moreover have "mem_put m1 (out + 16 * k) (take r x) y = m y" if "y < out \<or> out + len \<le> y" for y
      using that b1(3) [of y] lx len by (auto simp: mem_put_def)
    ultimately show ?thesis using d by blast
  qed
qed

text \<open>The data come back, in every placement; nothing but the output is written.\<close>

lemma length_cbc_encrypt:
  assumes "block_ok block" "length ivec = 16" "CRYPTO_cbc128_encrypt block ivec p = (c, iv')"
  shows "length c = 16 * ((length p + 15) div 16)"
proof -
  define cs where "cs = cbc_chain block ivec (blocks16 (zero_pad p))"
  have split: "length (blocks16 (zero_pad p)) = (length p + 15) div 16" "\<forall>b\<in>set (blocks16 (zero_pad p)). length b = 16"
    using blocks16_split [of "zero_pad p"] by (simp_all add: length_zero_pad)
  have cs: "length cs = (length p + 15) div 16" "\<forall>c\<in>set cs. length c = 16"
    using cbc_chain_lengths [OF assms(1,2), of "blocks16 (zero_pad p)"] split by (simp_all add: cs_def)
  have "c = concat cs" using assms(3) CRYPTO_cbc128_encrypt_eq [OF assms(2,1), of p] by (simp add: cs_def Let_def)
  moreover have "length (concat cs) = 16 * length cs" using cs(2) by (induction cs) simp_all
  ultimately show ?thesis using cs(1) by simp
qed

lemma cbc_roundtrip:
  assumes "block_ok block" "block_ok unblock" "deciphers unblock block" "length ivec = 16"
    and enc: "CRYPTO_cbc128_encrypt block ivec p = (c, iv')" and "mem_bytes m inp (length c) = c" "cbc_placed inp out (length p)"
  shows "\<exists>m'. CRYPTO_cbc128_decrypt unblock m ivec inp out (length p) = (m', iv') \<and>
    mem_bytes m' out (length p) = p \<and> (\<forall>x. x < out \<or> out + length p \<le> x \<longrightarrow> m' x = m x)"
proof -
  have dvd: "16 dvd length (zero_pad p)" by (simp add: length_zero_pad)
  note split = blocks16_split [OF dvd]
  define cs where "cs = cbc_chain block ivec (blocks16 (zero_pad p))"
  have cs: "length cs = length (blocks16 (zero_pad p))" "\<forall>c\<in>set cs. length c = 16"
    using cbc_chain_lengths [OF assms(1,4), of "blocks16 (zero_pad p)"] split by (simp_all add: cs_def)
  have c: "c = concat cs" "iv' = last (ivec # cs)"
    using enc CRYPTO_cbc128_encrypt_eq [OF assms(4,1), of p] by (simp_all add: cs_def Let_def)
  have n: "length cs = (length p + 15) div 16" using cs(1) split by (simp add: length_zero_pad)
  have "length c = 16 * length cs" unfolding c(1) using cs(2) by (induction cs) simp_all
  then have m: "mem_bytes m inp (16 * length cs) = concat cs" using assms(6) c(1) by simp
  have "cbc_unchain unblock ivec cs = blocks16 (zero_pad p)"
    unfolding cs_def using split assms(1-4) by (intro cbc_unchain_chain) simp_all
  then show ?thesis
    using cbc_decrypt_chain [OF assms(7,2,4) cs(2) n m] split c(2) by (simp add: take_zero_pad)
qed

section \<open>The property\<close>

text \<open>
  C24. For every block cipher with a deciphering function, every chaining value and data of any length (the last block
  is filled up), \<open>CRYPTO_cbc128_decrypt\<close> leaves in the output the data that \<open>CRYPTO_cbc128_encrypt\<close> was given, ends with
  the same chaining value, and writes nothing else. The output may be before or at the input, close to it or far from it,
  or behind it: every placement that the assertion of the function allows will do if the length is a multiple of 16; with a
  partial last block, output behind the input must begin behind that whole block.
\<close>

theorem cbc_decrypt_in_place:
  assumes "block_ok block" "block_ok unblock" "deciphers unblock block" "length ivec = 16"
    and "CRYPTO_cbc128_encrypt block ivec p = (c, iv')" "mem_bytes m inp (length c) = c"
    and "cbc_assertion inp out (length p)" "16 dvd length p \<or> out \<le> inp \<or> inp + length c \<le> out"
  shows "\<exists>m'. CRYPTO_cbc128_decrypt unblock m ivec inp out (length p) = (m', iv') \<and>
    mem_bytes m' out (length p) = p \<and> (\<forall>x. x < out \<or> out + length p \<le> x \<longrightarrow> m' x = m x)"
proof -
  have "length c = 16 * ((length p + 15) div 16)" by (rule length_cbc_encrypt [OF assms(1,4,5)])
  then have "cbc_placed inp out (length p)" using assms(7,8) by (intro cbc_placed_assertion) simp_all
  from cbc_roundtrip [OF assms(1-6) this] show ?thesis .
qed

theorem cbc_decrypt_in_place_witness:
  "\<exists>c iv' m'. CRYPTO_cbc128_encrypt rot_block (replicate 16 7) [1, 2, 3] = (c, iv') \<and> length c = 16 \<and>
     CRYPTO_cbc128_decrypt rot_unblock (mem_put (\<lambda>_. 0) 100 c) (replicate 16 7) 100 95 3 = (m', iv') \<and> mem_bytes m' 95 3 = [1, 2, 3]"
proof -
  obtain c iv' where e: "CRYPTO_cbc128_encrypt rot_block (replicate 16 7) [1, 2, 3] = (c, iv')" by fastforce
  have l: "length (replicate 16 (7 :: u8)) = 16" by simp
  have c: "length c = 16" using length_cbc_encrypt [OF rot_block_ok(1) l e] by simp
  have "mem_bytes (mem_put (\<lambda>_. 0) 100 c) 100 (length c) = c" "cbc_assertion 100 95 (length [1, 2, 3 :: u8])"
    "16 dvd length [1, 2, 3 :: u8] \<or> 95 \<le> (100 :: nat) \<or> 100 + length c \<le> 95"
    by (simp_all add: mem_bytes_put_same cbc_assertion_def)
  from cbc_decrypt_in_place [OF rot_block_ok l e this] c e show ?thesis by (auto simp: numeral_3_eq_3)
qed

end
