(* ===== verification/Modes_Cfb.thy ===== *)
theory Modes_Cfb
  imports Modes_Streams
begin

text \<open>
  Cipher feedback of \<open>Modes\<close>: \<open>CRYPTO_cfb128_encrypt\<close> is a machine on bytes, and the shift register of
  \<open>cfbr_encrypt_block\<close> appends the ciphertext bits to the 128-bit chaining value; both decrypt what they encrypt.
\<close>

unbundle bit_operations_syntax

section \<open>Whole bytes with a position in the block\<close>

definition cfb_step :: "block128_f \<Rightarrow> bool \<Rightarrow> nat \<times> u8 list \<Rightarrow> u8 \<Rightarrow> u8 \<times> nat \<times> u8 list" where
  "cfb_step block enc = (\<lambda>(n, iv) c.
     let iv = (if n = 0 then block iv else iv); b = iv ! n XOR c
     in (b, (n + 1) mod 16, iv[n := if enc then b else c]))"

lemma cfb_step_simp:
  "cfb_step block enc (n, iv) c =
    (let iv = (if n = 0 then block iv else iv); b = iv ! n XOR c in (b, (n + 1) mod 16, iv[n := if enc then b else c]))"
  by (simp add: cfb_step_def)

lemma cfb_head_run:
  assumes "n < 16" "length iv = 16" "cfb_head enc n iv inp = (a, n', iv', rest)"
  shows "run (cfb_step block enc) (n, iv) inp = (let (b, t) = run (cfb_step block enc) (n', iv') rest in (a @ b, t)) \<and>
      n' < 16 \<and> length iv' = 16 \<and> (rest = [] \<or> n' = 0)"
  using assms
proof (induction inp arbitrary: n iv a)
  case (Cons c inp)
  show ?case
  proof (cases "n = 0")
    case False
    let ?iv = "iv[n := if enc then iv ! n XOR c else c]"
    obtain a' where r: "cfb_head enc ((n + 1) mod 16) ?iv inp = (a', n', iv', rest)" "a = (iv ! n XOR c) # a'"
      using Cons.prems False by (auto simp: Let_def split: prod.splits)
    have m: "(n + 1) mod 16 < 16" "length ?iv = 16" using Cons.prems by simp_all
    show ?thesis using Cons.IH [OF m r(1)] False r(2) by (simp add: cfb_step_simp Let_def split: prod.splits)
  qed (use Cons.prems in \<open>simp add: Let_def split: prod.splits\<close>)
qed (simp add: Let_def)

lemma cfb_tail_run:
  assumes "0 < n" "n < 16" "n + length inp \<le> 16" "cfb_tail enc n iv inp = (a, n', iv')"
  shows "run (cfb_step block enc) (n, iv) inp = (a, (n + length inp) mod 16, iv') \<and> n' = n + length inp"
  using assms
proof (induction inp arbitrary: n iv a)
  case (Cons c inp)
  let ?iv = "iv[n := if enc then iv ! n XOR c else c]"
  obtain a' where r: "cfb_tail enc (n + 1) ?iv inp = (a', n', iv')" "a = (iv ! n XOR c) # a'"
    using Cons.prems by (auto simp: Let_def split: prod.splits)
  show ?case
  proof (cases "inp = []")
    case True
    then show ?thesis using r Cons.prems by (cases enc) (simp_all add: cfb_step_simp Let_def)
  next
    case False
    then have "n + 1 < 16" using Cons.prems by (cases inp) simp_all
    then show ?thesis using Cons.IH [OF _ _ _ r(1)] Cons.prems r(2) by (cases enc) (simp_all add: cfb_step_simp Let_def)
  qed
qed simp

lemma cfb_tail_fresh:
  assumes "inp \<noteq> []" "length inp \<le> 16" "cfb_tail enc 0 (block iv) inp = (a, n', iv')"
  shows "run (cfb_step block enc) (0, iv) inp = (a, length inp mod 16, iv') \<and> n' = length inp"
proof -
  obtain c cs where i: "inp = c # cs" using assms(1) by (cases inp) auto
  let ?iv = "(block iv)[0 := if enc then block iv ! 0 XOR c else c]"
  obtain a' where r: "cfb_tail enc 1 ?iv cs = (a', n', iv')" "a = (block iv ! 0 XOR c) # a'"
    using assms by (auto simp: i Let_def split: prod.splits)
  show ?thesis using cfb_tail_run [OF _ _ _ r(1)] assms r(2) by (cases enc) (simp_all add: i cfb_step_simp Let_def)
qed

lemma cfb_tail_eq:
  assumes "n + length inp \<le> length iv"
  shows "cfb_tail enc n iv inp =
    (let out = map2 (XOR) (drop n iv) inp in (out, n + length inp, take n iv @ (if enc then out else inp) @ drop (n + length inp) iv))"
  using assms
proof (induction inp arbitrary: n iv)
  case (Cons c inp)
  then have n: "n < length iv" by simp
  show ?case using Cons n by (simp add: Let_def upd_conv_take_nth_drop Cons_nth_drop_Suc [symmetric] min_def add.commute)
qed simp

lemma cfb_blocks_step:
  assumes "16 \<le> length inp" "length (block iv) = 16"
  shows "cfb_blocks block enc 0 iv inp =
    (let x = map2 (XOR) (block iv) (take 16 inp); (out, r) = cfb_blocks block enc 0 (if enc then x else take 16 inp) (drop 16 inp)
     in (x @ out, r))"
  using assms
  by (cases enc) (simp_all add: cfb_blocks.simps [of block True 0 iv inp] cfb_blocks.simps [of block False 0 iv inp] Let_def xor_words_0)

lemma cfb_blocks_run:
  assumes "length iv = 16" "block_ok block" "cfb_blocks block enc 0 iv inp = (b, n', iv', rest)"
  shows "run (cfb_step block enc) (0, iv) inp = (let (a, t) = run (cfb_step block enc) (0, iv') rest in (b @ a, t)) \<and>
      n' = 0 \<and> length rest < 16 \<and> length iv' = 16"
  using assms
proof (induction inp arbitrary: iv b rule: length_induct)
  case (1 inp)
  show ?case
  proof (cases "16 \<le> length inp")
    case True
    have l: "length (block iv) = 16" using 1 by (simp add: block_ok_def)
    let ?x = "map2 (XOR) (block iv) (take 16 inp)" and ?c = "take 16 inp"
    let ?iv = "if enc then ?x else ?c"
    have li: "length ?iv = 16" using True l by simp
    obtain b' where r: "cfb_blocks block enc 0 ?iv (drop 16 inp) = (b', n', iv', rest)" "b = ?x @ b'"
      using "1.prems"(3) unfolding cfb_blocks_step [of inp block iv enc, OF True l] Let_def by (auto split: prod.splits)
    have i: "inp = ?c @ drop 16 inp" by simp
    have "cfb_tail enc 0 (block iv) ?c = (?x, 16, ?iv)"
      using cfb_tail_eq [of 0 ?c "block iv" enc] True l by (simp add: Let_def)
    then have f: "run (cfb_step block enc) (0, iv) ?c = (?x, 0, ?iv)"
      using cfb_tail_fresh [of ?c enc block iv ?x 16 ?iv] True by (cases inp) auto
    have "length (drop 16 inp) < length inp" using True by simp
    then have ih: "run (cfb_step block enc) (0, ?iv) (drop 16 inp) =
          (let (a, t) = run (cfb_step block enc) (0, iv') rest in (b' @ a, t)) \<and> n' = 0 \<and> length rest < 16 \<and> length iv' = 16"
      using "1.IH" li "1.prems"(2) r(1) by blast
    show ?thesis by (subst i, subst run_append) (use ih f r(2) in \<open>simp add: Let_def split: prod.splits\<close>)
  qed (use "1.prems" in \<open>auto simp: cfb_blocks.simps [of _ _ _ _ inp] split: prod.splits\<close>)
qed

definition cfb_ok :: "block128_f \<Rightarrow> nat \<times> u8 list \<Rightarrow> bool" where
  "cfb_ok block = (\<lambda>(n, iv). block_ok block \<and> n < 16 \<and> length iv = 16)"

definition cfb_op :: "block128_f \<Rightarrow> bool \<Rightarrow> nat \<times> u8 list \<Rightarrow> u8 list \<Rightarrow> u8 list \<times> nat \<times> u8 list" where
  "cfb_op block enc = (\<lambda>(n, iv) inp. CRYPTO_cfb128_encrypt block enc n iv inp)"

lemma CRYPTO_cfb128_encrypt_run:
  assumes "cfb_ok block (n, iv)"
  shows "CRYPTO_cfb128_encrypt block enc n iv inp = run (cfb_step block enc) (n, iv) inp"
proof -
  have ok: "block_ok block" "n < 16" "length iv = 16" using assms by (simp_all add: cfb_ok_def)
  obtain a k iv1 r where h: "cfb_head enc n iv inp = (a, k, iv1, r)" by (cases "cfb_head enc n iv inp") auto
  obtain b m iv2 rest where l: "cfb_blocks block enc k iv1 r = (b, m, iv2, rest)" by (cases "cfb_blocks block enc k iv1 r") auto
  note hr = cfb_head_run [OF ok(2,3) h, of block]
  show ?thesis
  proof (cases "r = []")
    case True
    then have "b = []" "m = k" "iv2 = iv1" "rest = []" using l by (simp_all add: cfb_blocks.simps)
    then show ?thesis using hr h l True by (simp add: CRYPTO_cfb128_encrypt_def)
  next
    case False
    then have k: "k = 0" using hr by simp
    have l1: "length iv1 = 16" using hr by simp
    note lr = cfb_blocks_run [OF l1 ok(1) l [unfolded k]]
    obtain c p iv3 where t: "cfb_tail enc 0 (block iv2) rest = (c, p, iv3)" by (cases "cfb_tail enc 0 (block iv2) rest") auto
    have "rest \<noteq> [] \<Longrightarrow> run (cfb_step block enc) (0, iv2) rest = (c, length rest, iv3) \<and> p = length rest"
      using cfb_tail_fresh [of rest enc block iv2 c p iv3] t lr by simp
    then show ?thesis using hr h l lr t k
      by (cases "rest = []") (simp_all add: CRYPTO_cfb128_encrypt_def Let_def split: prod.splits)
  qed
qed

interpretation cfb_mode: byte_mode "cfb_step block True" "cfb_step block False" "cfb_ok block" "cfb_op block True" "cfb_op block False" for block
proof
  fix s :: "nat \<times> u8 list" and c xs
  show "cfb_ok block s \<Longrightarrow> cfb_ok block (snd (cfb_step block True s c))" "cfb_ok block s \<Longrightarrow> cfb_ok block (snd (cfb_step block False s c))"
    by (cases s; simp add: cfb_ok_def cfb_step_def block_ok_def Let_def)+
  show "cfb_ok block s \<Longrightarrow> cfb_op block True s xs = run (cfb_step block True) s xs"
    "cfb_ok block s \<Longrightarrow> cfb_op block False s xs = run (cfb_step block False) s xs"
    by (cases s; simp add: cfb_op_def CRYPTO_cfb128_encrypt_run)+
  show "cfb_ok block s \<Longrightarrow> cfb_step block False s (fst (cfb_step block True s c)) = (c, snd (cfb_step block True s c))"
    by (cases s; simp add: cfb_step_def Let_def xor.assoc [symmetric])
qed

section \<open>The shift register\<close>

text \<open>
  The chaining value as a number of 128 bits: the \<open>nbits\<close> ciphertext bits, the upper bits of the bytes written, are
  shifted in.
\<close>

definition top_bits :: "nat \<Rightarrow> u8 list \<Rightarrow> nat" where
  "top_bits nbits bs = be_val (take ((nbits + 7) div 8) bs) div 2 ^ (8 * ((nbits + 7) div 8) - nbits)"

lemma shifted_byte:
  assumes "0 < r" "r < 8"
  shows "unat (push_bit r a OR drop_bit (8 - r) b :: u8) = (unat a * 256 + unat b) div 2 ^ (8 - r) mod 256"
proof -
  have "take_bit 8 (drop_bit (8 - r) (push_bit 8 (unat a) OR unat b)) = unat (push_bit r a OR drop_bit (8 - r) b)"
    using assms
    by (intro bit_eqI) (auto simp: bit_simps not_le dest: bit_imp_le_length)
  moreover have "push_bit 8 (unat a) OR unat b = unat a * 256 + unat b"
    using push_bit_or_nat [of "unat b" 8 "unat a"] by simp
  ultimately show ?thesis by (simp add: take_bit_eq_mod drop_bit_eq_div)
qed

lemma shifted_digit:
  "x div 2 ^ k mod 256 = (x mod 65536) div 2 ^ k mod 256" if "k \<le> 8" for x :: nat
proof -
  have "take_bit 8 (drop_bit k x) = take_bit 8 (drop_bit k (take_bit 16 x))"
    using that by (intro bit_eqI) (auto simp: bit_simps)
  then show ?thesis by (simp add: take_bit_eq_mod drop_bit_eq_div)
qed

lemma shifted_bytes:
  assumes "0 < r" "r < 8" "length ys = Suc n"
  shows "be_val (map (\<lambda>i. push_bit r (ys ! i) OR drop_bit (8 - r) (ys ! (i + 1))) [0..<n]) = be_val ys div 2 ^ (8 - r) mod 256 ^ n"
  using assms(3)
proof (induction n arbitrary: ys)
  case (Suc n)
  obtain zs b where y: "ys = zs @ [b]" using Suc.prems by (cases ys rule: rev_cases) auto
  then have l: "length zs = Suc n" using Suc.prems by simp
  then obtain ws a where z: "zs = ws @ [a]" by (cases zs rule: rev_cases) auto
  let ?f = "\<lambda>ys i. push_bit r (ys ! i) OR drop_bit (8 - r) (ys ! (i + 1))"
  have e: "map (?f ys) [0..<n] = map (?f zs) [0..<n]" using l by (simp add: y nth_append)
  have "?f ys n = push_bit r a OR drop_bit (8 - r) b" using l by (simp add: y z nth_append)
  then have d: "unat (?f ys n) = (unat a * 256 + unat b) div 2 ^ (8 - r) mod 256" using shifted_byte [OF assms(1,2), of a b] by simp
  define x where "x = (be_val zs * 256 + unat b) div 2 ^ (8 - r)"
  have "x div 256 = be_val zs div 2 ^ (8 - r)"
    using div_mult2_eq [of "be_val zs * 256 + unat b" 256 "2 ^ (8 - r)"] div_mult2_eq [of "be_val zs * 256 + unat b" "2 ^ (8 - r)" 256]
    by (simp add: x_def mult.commute)
  moreover have "(be_val zs * 256 + unat b) mod 65536 = (unat a * 256 + unat b) mod 65536"
  proof -
    have "be_val zs * 256 + unat b = be_val ws * 65536 + (unat a * 256 + unat b)" by (simp add: z)
    then show ?thesis by (simp only: mod_mult_self3)
  qed
  then have "x mod 256 = (unat a * 256 + unat b) div 2 ^ (8 - r) mod 256"
    using shifted_digit [of "8 - r" "be_val zs * 256 + unat b"] shifted_digit [of "8 - r" "unat a * 256 + unat b"] by (simp add: x_def)
  moreover have "x mod 256 ^ Suc n = x div 256 mod 256 ^ n * 256 + x mod 256"
    using mod_mult2_eq [of x 256 "256 ^ n"] by (simp add: mult.commute)
  ultimately have "be_val zs div 2 ^ (8 - r) mod 256 ^ n * 256 + unat (?f ys n) = x mod 256 ^ Suc n" using d by simp
  moreover have "be_val (map (?f ys) [0..<Suc n]) = be_val (map (?f ys) [0..<n]) * 256 + unat (?f ys n)" by simp
  ultimately show ?case unfolding e Suc.IH [OF l] by (simp only: y x_def be_val_snoc)
qed simp

lemma be_val_drop: "be_val (drop k xs) = be_val xs mod 256 ^ (length xs - k)"
  using be_val_append [of "take k xs" "drop k xs"] be_val_less [of "drop k xs"] by simp

lemma window_div: "k \<le> 8 \<Longrightarrow> v mod 256 ^ 17 div 2 ^ k mod 256 ^ 16 = v div 2 ^ k mod 256 ^ 16" for v :: nat
proof -
  assume "k \<le> 8"
  then have "take_bit 128 (drop_bit k (take_bit 136 v)) = take_bit 128 (drop_bit k v)"
    by (intro bit_eqI) (auto simp: bit_simps)
  then show ?thesis by (simp add: take_bit_eq_mod drop_bit_eq_div)
qed

text \<open>The new chaining value of every feedback width.\<close>

lemma register_shift:
  assumes iv: "length iv = 16" and r: "r < 8" and b: "q + of_bool (r \<noteq> 0) \<le> length bs" and q: "q + of_bool (r \<noteq> 0) \<le> 16"
  shows "be_val (if r = 0 then take 16 (drop q (iv @ bs))
      else map (\<lambda>n. push_bit r ((iv @ bs) ! (n + q)) OR drop_bit (8 - r) ((iv @ bs) ! (n + q + 1))) [0..<16]) =
    (be_val iv * 2 ^ (8 * q + r) + top_bits (8 * q + r) bs) mod 256 ^ 16"
proof (cases "r = 0")
  case True
  have "take 16 (drop q (iv @ bs)) = drop q (iv @ take q bs)" using iv b q True by simp
  then show ?thesis using True iv b q be_val_drop [of q "iv @ take q bs"]
    by (simp add: be_val_append top_bits_def power_mult min_def)
next
  case False
  define W where "W = iv @ take (q + 1) bs"
  have W: "length W = 17 + q" using iv b False by (simp add: W_def)
  have m: "map (\<lambda>n. push_bit r ((iv @ bs) ! (n + q)) OR drop_bit (8 - r) ((iv @ bs) ! (n + q + 1))) [0..<16] =
      map (\<lambda>i. push_bit r (drop q W ! i) OR drop_bit (8 - r) (drop q W ! (i + 1))) [0..<16]"
    using W q False by (intro map_cong) (auto simp: W_def nth_append add.commute iv)
  have "be_val (map (\<lambda>i. push_bit r (drop q W ! i) OR drop_bit (8 - r) (drop q W ! (i + 1))) [0..<16]) =
      be_val (drop q W) div 2 ^ (8 - r) mod 256 ^ 16"
    using False r W by (intro shifted_bytes) simp_all
  also have "\<dots> = be_val W div 2 ^ (8 - r) mod 256 ^ 16" using window_div [of "8 - r" "be_val W"] W by (simp add: be_val_drop)
  also have "be_val W = be_val iv * 2 ^ (8 * q + r) * 2 ^ (8 - r) + be_val (take (q + 1) bs)"
  proof -
    have "(256 :: nat) ^ (q + 1) = 2 ^ (8 * q + r) * 2 ^ (8 - r)"
      using r power_mult [of "2 :: nat" 8 "q + 1"] by (simp add: power_add [symmetric] add.commute del: power_Suc)
    then show ?thesis using b False by (simp only: W_def be_val_append) (simp add: mult.assoc)
  qed
  also have "\<dots> div 2 ^ (8 - r) = be_val iv * 2 ^ (8 * q + r) + top_bits (8 * q + r) bs"
  proof -
    have "(8 * q + r + 7) div 8 = q + 1" "8 * (q + 1) - (8 * q + r) = 8 - r" using False r by auto
    then show ?thesis by (simp add: top_bits_def)
  qed
  finally show ?thesis by (simp only: False if_False m)
qed

definition feedback :: "bool \<Rightarrow> u8 list \<Rightarrow> u8 list \<Rightarrow> u8 list" where
  "feedback enc out inp = (if enc then out else inp)"

lemma bytes_of_bits: "(n + 7) div 8 = n div 8 + of_bool (n mod 8 \<noteq> 0)" for n :: nat
proof -
  have "(n + 7) div 8 = n div 8 + (if n mod 8 = 0 then 0 else 1)" by presburger
  then show ?thesis by simp
qed

lemma cfbr_encrypt_block_eq:
  assumes "length iv = 16" "block_ok block" "0 < nbits" "nbits \<le> 128" "(nbits + 7) div 8 \<le> length inp"
  shows "cfbr_encrypt_block uninit block inp nbits iv enc =
    (let out = map2 (XOR) (take ((nbits + 7) div 8) inp) (block iv)
     in Some (out, be_bytes 16 (be_val iv * 2 ^ nbits + top_bits nbits (feedback enc out inp))))"
proof -
  define m q r where "m = (nbits + 7) div 8" and "q = nbits div 8" and "r = nbits mod 8"
  have n: "nbits = 8 * q + r" "r < 8" "m = q + of_bool (r \<noteq> 0)" by (simp_all add: m_def q_def r_def bytes_of_bits)
  have m16: "m \<le> 16" using assms(4) by (simp add: m_def)
  have l: "length (block iv) = 16" using assms by (simp add: block_ok_def)
  have mi: "m \<le> length inp" using assms(5) by (simp add: m_def)
  define out where "out = map2 (XOR) (take m inp) (block iv)"
  have o: "map (\<lambda>n. inp ! n XOR block iv ! n) [0..<m] = out" using mi m16 l by (intro nth_equalityI) (simp_all add: out_def)
  define bs where "bs = (if enc then out else take m inp) @ drop m uninit"
  have lb: "q + of_bool (r \<noteq> 0) \<le> length bs" using n mi m16 l by (auto simp: bs_def out_def)
  define w where "w = (if r = 0 then take 16 (drop q (iv @ bs))
      else map (\<lambda>n. push_bit r ((iv @ bs) ! (n + q)) OR drop_bit (8 - r) ((iv @ bs) ! (n + q + 1))) [0..<16])"
  have lw: "length w = 16" using lb assms(1) by (auto simp: w_def)
  have e: "be_val w = (be_val iv * 2 ^ nbits + top_bits nbits bs) mod 256 ^ 16"
    using register_shift [OF assms(1) n(2) lb] m16 unfolding w_def n(1,3) by simp
  have "be_bytes 16 (be_val w) = be_bytes 16 (be_val iv * 2 ^ nbits + top_bits nbits bs)" unfolding e by (rule be_bytes_wrap)
  then have "w = be_bytes 16 (be_val iv * 2 ^ nbits + top_bits nbits bs)" using be_bytes_be_val [of w] by (simp only: lw)
  moreover have "top_bits nbits bs = top_bits nbits (feedback enc out inp)"
    using mi m16 l by (simp add: top_bits_def m_def [symmetric] bs_def feedback_def out_def)
  ultimately show ?thesis
    using assms(3,4) unfolding cfbr_encrypt_block_def m_def [symmetric] q_def [symmetric] r_def [symmetric] Let_def o
      bs_def [symmetric] w_def [symmetric] out_def [symmetric] by simp
qed

text \<open>Bytes.\<close>

definition cfb8_step :: "block128_f \<Rightarrow> bool \<Rightarrow> u8 list \<Rightarrow> u8 \<Rightarrow> u8 \<times> u8 list" where
  "cfb8_step block enc iv c =
     (let b = c XOR block iv ! 0 in (b, drop 1 iv @ [if enc then b else c]))"

lemma shift_one_byte:
  assumes "length iv = 16"
  shows "be_bytes 16 (be_val iv * 2 ^ 8 + top_bits 8 (c # cs)) = drop 1 iv @ [c]"
proof -
  obtain i rest where iv: "iv = i # rest" using assms by (cases iv) auto
  then have l: "length (rest @ [c]) = 16" using assms by simp
  have "be_val iv * 2 ^ 8 + top_bits 8 (c # cs) = be_val (i # (rest @ [c]))" by (simp add: iv top_bits_def be_val_Cons algebra_simps)
  also have "be_bytes 16 \<dots> = be_bytes 16 (be_val (rest @ [c]))"
    using be_bytes_wrap [of 16 "be_val (i # (rest @ [c]))"] be_bytes_wrap [of 16 "be_val (rest @ [c])"] l
    by (simp add: be_val_Cons [of i "rest @ [c]"])
  also have "\<dots> = rest @ [c]" using be_bytes_be_val [of "rest @ [c]"] by (simp only: l)
  finally show ?thesis by (simp add: iv)
qed

lemma CRYPTO_cfb128_8_encrypt_run:
  assumes "length iv = 16" "block_ok block"
  shows "CRYPTO_cfb128_8_encrypt uninit block enc iv inp = run (cfb8_step block enc) iv inp"
  unfolding CRYPTO_cfb128_8_encrypt_def using assms(1)
proof (induction inp arbitrary: iv)
  case (Cons c inp)
  have "block iv \<noteq> []" using assms(2) Cons.prems by (auto simp: block_ok_def)
  then obtain k ks where k: "block iv = k # ks" by (cases "block iv") auto
  have "cfbr_encrypt_block uninit block (c # inp) 8 iv enc = Some ([c XOR k], drop 1 iv @ [if enc then c XOR k else c])"
    using cfbr_encrypt_block_eq [of iv block 8 "c # inp" uninit enc] assms(2) Cons.prems shift_one_byte [OF Cons.prems]
    by (cases enc) (simp_all add: k feedback_def Let_def)
  then show ?case using Cons by (simp add: cfb8_step_def k Let_def split: prod.splits)
qed simp

definition cfb8_op :: "u8 list \<Rightarrow> block128_f \<Rightarrow> bool \<Rightarrow> u8 list \<Rightarrow> u8 list \<Rightarrow> u8 list \<times> u8 list" where
  "cfb8_op uninit block enc iv inp = CRYPTO_cfb128_8_encrypt uninit block enc iv inp"

interpretation cfb8_mode: byte_mode "cfb8_step block True" "cfb8_step block False" "ofb_ok block" "cfb8_op uninit block True" "cfb8_op uninit block False"
  for uninit block
  by unfold_locales
    (auto simp: ofb_ok_def block_ok_def cfb8_step_def Let_def xor.assoc cfb8_op_def CRYPTO_cfb128_8_encrypt_run)

text \<open>Bits, numbered from the most significant one of the first byte.\<close>

definition buffer_bit :: "u8 list \<Rightarrow> nat \<Rightarrow> bool" where
  "buffer_bit bs i = bit (bs ! (i div 8)) (7 - i mod 8)"

definition cfb1_step :: "block128_f \<Rightarrow> bool \<Rightarrow> u8 list \<Rightarrow> bool \<Rightarrow> bool \<times> u8 list" where
  "cfb1_step block enc iv c =
     (let b = (c \<noteq> bit (block iv ! 0) 7) in (b, be_bytes 16 (be_val iv * 2 + of_bool (if enc then b else c))))"

interpretation cfb1_machine: inverse_machines "cfb1_step block True" "cfb1_step block False" "ofb_ok block" for block
  by unfold_locales (auto simp: ofb_ok_def cfb1_step_def Let_def)

lemma bit_80: "bit (0x80 :: u8) m \<longleftrightarrow> m = 7"
proof -
  have "bit (push_bit 7 1 :: u8) m \<longleftrightarrow> m = 7" by (simp only: bit_push_bit_iff bit_1_iff) auto
  moreover have "(0x80 :: u8) = push_bit 7 1" by (simp add: push_bit_eq_mult)
  ultimately show ?thesis by (simp only:)
qed

lemma cfb1_bit:
  assumes "length iv = 16" "block_ok block"
  shows "cfbr_encrypt_block uninit block [if c then 0x80 else 0] 1 iv enc =
      Some ([(if c then 0x80 else 0) XOR block iv ! 0], snd (cfb1_step block enc iv c))"
    "bit ((if c then 0x80 else 0) XOR block iv ! 0) 7 = fst (cfb1_step block enc iv c)"
proof -
  obtain k ks where k: "block iv = k # ks" using assms by (cases "block iv") (auto simp: block_ok_def)
  have b80: "bit (0x80 :: u8) 7" by (simp only: bit_80)
  show "bit ((if c then 0x80 else 0) XOR block iv ! 0) 7 = fst (cfb1_step block enc iv c)"
    using b80 by (simp add: cfb1_step_def Let_def bit_simps)
  have top: "unat x div 128 = of_bool (bit x 7)" for x :: u8
  proof -
    have "bit (unat x) 7 \<longleftrightarrow> odd (unat x div 2 ^ 7)" by (rule bit_iff_odd)
    moreover have "bit (unat x) 7 \<longleftrightarrow> bit x 7" by (simp add: bit_simps)
    moreover have "unat x div 128 < 2" using unat_u8_less [of x] by (simp add: div_less_iff_less_mult del: unat_u8_less)
    ultimately show ?thesis by (cases "unat x div 128 = 0") auto
  qed
  show "cfbr_encrypt_block uninit block [if c then 0x80 else 0] 1 iv enc =
      Some ([(if c then 0x80 else 0) XOR block iv ! 0], snd (cfb1_step block enc iv c))"
    using cfbr_encrypt_block_eq [of iv block 1 "[if c then 0x80 else 0]" uninit enc] assms b80
    by (auto simp: k cfb1_step_def Let_def feedback_def top_bits_def top bit_simps)
qed

lemma put_bit:
  assumes "k < 8" "j < 8"
  shows "bit ((b AND NOT (push_bit (7 - k) 1)) OR drop_bit k (d AND 0x80) :: u8) (7 - j) = (if j = k then bit d 7 else bit b (7 - j))"
  using assms unfolding bit_or_iff bit_and_iff bit_not_iff_eq bit_push_bit_iff bit_drop_bit_eq comp_def bit_1_iff bit_80
  by (auto dest: bit_imp_le_length)

lemma cfb1_loop_run:
  assumes "length iv = 16" "block_ok block" "n \<le> 8 * length out"
  shows "cfb1_loop uninit block enc inp (out, iv) n = (out', iv') \<Longrightarrow>
    run (cfb1_step block enc) iv (map (buffer_bit inp) [0..<n]) = (map (buffer_bit out') [0..<n], iv') \<and>
    length out' = length out \<and> (\<forall>i. n \<le> i \<longrightarrow> i < 8 * length out \<longrightarrow> buffer_bit out' i = buffer_bit out i)"
  using assms(3)
proof (induction n arbitrary: out' iv')
  case (Suc n)
  obtain o1 iv1 where l: "cfb1_loop uninit block enc inp (out, iv) n = (o1, iv1)" by fastforce
  have ih: "run (cfb1_step block enc) iv (map (buffer_bit inp) [0..<n]) = (map (buffer_bit o1) [0..<n], iv1)"
    "length o1 = length out" "\<And>i. n \<le> i \<Longrightarrow> i < 8 * length out \<Longrightarrow> buffer_bit o1 i = buffer_bit out i"
    using Suc.IH [OF l] Suc.prems by simp_all
  define c where "c = buffer_bit inp n"
  have lv: "length iv1 = 16"
    using cfb1_machine.run_keeps_enc [of block iv "map (buffer_bit inp) [0..<n]"]
      cfb1_machine.run_keeps_dec [of block iv "map (buffer_bit inp) [0..<n]"] ih(1) assms(1,2)
    by (cases enc) (simp_all add: ofb_ok_def)
  have bitc: "(inp ! (n div 8) AND push_bit (7 - n mod 8) 1 \<noteq> 0) = c"
    by (simp add: c_def buffer_bit_def bit_iff_and_push_bit_not_eq_0)
  let ?d = "(if c then 0x80 else 0) XOR block iv1 ! 0 :: u8"
  have out': "out' = o1[n div 8 := (o1 ! (n div 8) AND NOT (push_bit (7 - n mod 8) 1)) OR drop_bit (n mod 8) (?d AND 0x80)]"
    "iv' = snd (cfb1_step block enc iv1 c)"
    using Suc.prems(1)
    unfolding cfb1_loop.simps l Let_def prod.case bitc cfb1_bit(1) [OF lv assms(2)] option.case prod.inject nth_Cons_0 by blast+
  define v where "v = (o1 ! (n div 8) AND NOT (push_bit (7 - n mod 8) 1)) OR drop_bit (n mod 8) (?d AND 0x80)"
  have v: "j < 8 \<Longrightarrow> bit v (7 - j) = (if j = n mod 8 then fst (cfb1_step block enc iv1 c) else bit (o1 ! (n div 8)) (7 - j))" for j
    unfolding v_def using put_bit [of "n mod 8" j "o1 ! (n div 8)" ?d] cfb1_bit(2) [OF lv assms(2), of c enc] by (simp only: mod_less_divisor zero_less_numeral)
  have o': "out' = o1[n div 8 := v]" using out'(1) by (simp only: v_def)
  have nl: "n div 8 < length o1" using Suc.prems(2) ih(2) by (simp add: div_less_iff_less_mult)
  have bits: "buffer_bit out' i = (if i = n then fst (cfb1_step block enc iv1 c) else buffer_bit o1 i)" if "i < 8 * length out" for i
  proof (cases "i div 8 = n div 8")
    case True
    moreover have "i = n \<longleftrightarrow> i mod 8 = n mod 8" using True div_mult_mod_eq [of i 8] div_mult_mod_eq [of n 8] by metis
    ultimately show ?thesis
      using v [of "i mod 8"] nl by (simp add: o' buffer_bit_def)
  qed (auto simp: o' buffer_bit_def)
  have "run (cfb1_step block enc) iv (map (buffer_bit inp) [0..<n] @ [c]) = (map (buffer_bit out') [0..<n] @ [buffer_bit out' n], iv')"
    using Suc.prems(2) bits out'(2) unfolding run_append ih(1) by (simp add: Let_def split_beta)
  moreover have "buffer_bit out' i = buffer_bit out i" if "Suc n \<le> i" "i < 8 * length out" for i
    using bits [of i] ih(3) [of i] that by simp
  ultimately show ?case using ih(2) by (simp add: c_def o')
qed simp

text \<open>The bits that decryption produces are those that were encrypted.\<close>

lemma cfb1_roundtrip:
  assumes "length iv = 16" "block_ok block" "n \<le> 8 * length c" "n \<le> 8 * length p"
    and e: "CRYPTO_cfb128_1_encrypt uninit block True iv m c n = (c', iv1)"
    and d: "CRYPTO_cfb128_1_encrypt uninit block False iv c' p n = (p', iv2)"
  shows "map (buffer_bit p') [0..<n] = map (buffer_bit m) [0..<n] \<and> iv2 = iv1"
proof -
  note en = cfb1_loop_run [OF assms(1-3) e [unfolded CRYPTO_cfb128_1_encrypt_def]]
  note de = cfb1_loop_run [OF assms(1,2,4) d [unfolded CRYPTO_cfb128_1_encrypt_def]]
  show ?thesis using cfb1_machine.run_undoes [of block iv "map (buffer_bit m) [0..<n]"] en de assms(1,2) by (simp add: ofb_ok_def)
qed

section \<open>The property\<close>

text \<open>
  C31. What \<open>CRYPTO_cfb128_encrypt\<close> encrypts in any pieces, from any position in the block, it decrypts in any other
  pieces, and both end in the same state.
\<close>

theorem cfb128_pieces_roundtrip:
  assumes "block_ok block" "num < 16" "length ivec = 16" "concat qs = fst (run_pieces (cfb_op block True) (num, ivec) ps)"
  shows "run_pieces (cfb_op block False) (num, ivec) qs = (concat ps, snd (run_pieces (cfb_op block True) (num, ivec) ps))"
  using assms by (intro cfb_mode.pieces_roundtrip) (simp_all add: cfb_ok_def)

theorem cfb128_pieces_roundtrip_witness:
  "\<exists>c s. run_pieces (cfb_op rot_block True) (3, replicate 16 1) [[1, 2], replicate 33 3] = (c, s) \<and>
     run_pieces (cfb_op rot_block False) (3, replicate 16 1) [take 20 c, drop 20 c] = ([1, 2] @ replicate 33 3, s)"
proof -
  obtain c s where e: "run_pieces (cfb_op rot_block True) (3, replicate 16 1) [[1, 2], replicate 33 3] = (c, s)" by (meson surj_pair)
  have "run_pieces (cfb_op rot_block False) (3, replicate 16 1) [take 20 c, drop 20 c] =
      (concat [[1, 2], replicate 33 3], snd (run_pieces (cfb_op rot_block True) (3, replicate 16 1) [[1, 2], replicate 33 3]))"
    by (rule cfb128_pieces_roundtrip [OF rot_block_ok(1)]) (simp_all add: e del: run_pieces.simps)
  then show ?thesis using e by (simp del: run_pieces.simps)
qed

end
