(* ===== verification/Bn_Words.thy ===== *)
theory Bn_Words
  imports Prelude Constant_Time
begin

text \<open>
  \<open>crypto/fipsmodule/bn/generic.c\<close>: arithmetic on arrays of 64-bit words, least significant first, in both of its
  variants (with a two-word integer, \<open>BN_ULLONG\<close>, and without), and the routines on words of \<open>bn.c\<close>, \<open>cmp.c\<close>,
  \<open>div.c\<close> and \<open>shift.c\<close>. An array that a routine writes is a parameter and a result. Where the C code lets the
  result be one of the inputs, each step reads its words before it writes the word at the same index.
\<close>

unbundle bit_operations_syntax

section \<open>Words and double words\<close>

type_synonym u128 = "128 word"

definition Lw :: "u128 \<Rightarrow> u64" where
  "Lw t = ucast t"

definition Hw :: "u128 \<Rightarrow> u64" where
  "Hw t = ucast (drop_bit 64 t)"

text \<open>\<open>BN_UMULT_LOHI\<close>: the two words of a product, from a machine instruction.\<close>

definition BN_UMULT_LOHI :: "u64 \<Rightarrow> u64 \<Rightarrow> u64 \<times> u64" where
  "BN_UMULT_LOHI a b = (word_of_nat (unat a * unat b), word_of_nat (unat a * unat b div 2 ^ 64))"

text \<open>\<open>while (num & ~3)\<close> with four steps in its body, then \<open>while (num)\<close> with one.\<close>

function unroll4 :: "('s \<Rightarrow> nat \<Rightarrow> 's) \<Rightarrow> nat \<Rightarrow> nat \<Rightarrow> 's \<Rightarrow> 's" where
  "unroll4 f i num s =
     (if 4 \<le> num then unroll4 f (i + 4) (num - 4) (f (f (f (f s i) (i + 1)) (i + 2)) (i + 3))
      else if 0 < num then unroll4 f (i + 1) (num - 1) (f s i)
      else s)"
  by pat_completeness auto
termination by (relation "measure (\<lambda>(_, _, num, _). num)") auto

declare unroll4.simps [simp del]

section \<open>\<open>generic.c\<close>\<close>

subsection \<open>Products\<close>

definition mul_add :: "u64 \<Rightarrow> u64 \<Rightarrow> u64 \<Rightarrow> u64 \<Rightarrow> u64 \<times> u64" where
  "mul_add r a w c = (let t = ucast w * ucast a + ucast r + ucast c :: u128 in (Lw t, Hw t))"

definition mul :: "u64 \<Rightarrow> u64 \<Rightarrow> u64 \<Rightarrow> u64 \<times> u64" where
  "mul a w c = (let t = ucast w * ucast a + ucast c :: u128 in (Lw t, Hw t))"

definition sqr :: "u64 \<Rightarrow> u64 \<times> u64" where
  "sqr a = (let t = ucast a * ucast a :: u128 in (Lw t, Hw t))"

definition mul_add_lohi :: "u64 \<Rightarrow> u64 \<Rightarrow> u64 \<Rightarrow> u64 \<Rightarrow> u64 \<times> u64" where
  "mul_add_lohi r a w c =
     (let ret = r; (low, high) = BN_UMULT_LOHI w a;
          ret = ret + c; c = (if ret < c then 1 else 0); c = c + high;
          ret = ret + low; c = c + (if ret < low then 1 else 0)
      in (ret, c))"

definition mul_lohi :: "u64 \<Rightarrow> u64 \<Rightarrow> u64 \<Rightarrow> u64 \<times> u64" where
  "mul_lohi a w c =
     (let (low, high) = BN_UMULT_LOHI w a; ret = low + c; c = high; c = c + (if ret < low then 1 else 0) in (ret, c))"

definition sqr_lohi :: "u64 \<Rightarrow> u64 \<times> u64" where
  "sqr_lohi a = BN_UMULT_LOHI a a"

type_synonym mul_add_f = "u64 \<Rightarrow> u64 \<Rightarrow> u64 \<Rightarrow> u64 \<Rightarrow> u64 \<times> u64"
type_synonym mul_f = "u64 \<Rightarrow> u64 \<Rightarrow> u64 \<Rightarrow> u64 \<times> u64"
type_synonym sqr_f = "u64 \<Rightarrow> u64 \<times> u64"

text \<open>The loops, for either definition of the macros.\<close>

definition mul_add_words :: "mul_add_f \<Rightarrow> u64 list \<Rightarrow> u64 list \<Rightarrow> nat \<Rightarrow> u64 \<Rightarrow> u64 list \<times> u64" where
  "mul_add_words ma rp ap num w =
     (let c1 = 0
      in if num = 0 then (rp, c1)
         else unroll4 (\<lambda>(rp, c1) i. let (r, c1) = ma (rp ! i) (ap ! i) w c1 in (rp[i := r], c1)) 0 num (rp, c1))"

definition mul_words :: "mul_f \<Rightarrow> u64 list \<Rightarrow> u64 list \<Rightarrow> nat \<Rightarrow> u64 \<Rightarrow> u64 list \<times> u64" where
  "mul_words mf rp ap num w =
     (let c1 = 0
      in if num = 0 then (rp, c1)
         else unroll4 (\<lambda>(rp, c1) i. let (r, c1) = mf (ap ! i) w c1 in (rp[i := r], c1)) 0 num (rp, c1))"

definition sqr_words :: "sqr_f \<Rightarrow> u64 list \<Rightarrow> u64 list \<Rightarrow> nat \<Rightarrow> u64 list" where
  "sqr_words sf r a n =
     (if n = 0 then r else unroll4 (\<lambda>r i. let (r0, r1) = sf (a ! i) in r[2 * i := r0, 2 * i + 1 := r1]) 0 n r)"

definition bn_mul_add_words :: "u64 list \<Rightarrow> u64 list \<Rightarrow> nat \<Rightarrow> u64 \<Rightarrow> u64 list \<times> u64" where
  "bn_mul_add_words = mul_add_words mul_add"

definition bn_mul_words :: "u64 list \<Rightarrow> u64 list \<Rightarrow> nat \<Rightarrow> u64 \<Rightarrow> u64 list \<times> u64" where
  "bn_mul_words = mul_words mul"

definition bn_sqr_words :: "u64 list \<Rightarrow> u64 list \<Rightarrow> nat \<Rightarrow> u64 list" where
  "bn_sqr_words = sqr_words sqr"

definition bn_mul_add_words_lohi :: "u64 list \<Rightarrow> u64 list \<Rightarrow> nat \<Rightarrow> u64 \<Rightarrow> u64 list \<times> u64" where
  "bn_mul_add_words_lohi = mul_add_words mul_add_lohi"

definition bn_mul_words_lohi :: "u64 list \<Rightarrow> u64 list \<Rightarrow> nat \<Rightarrow> u64 \<Rightarrow> u64 list \<times> u64" where
  "bn_mul_words_lohi = mul_words mul_lohi"

definition bn_sqr_words_lohi :: "u64 list \<Rightarrow> u64 list \<Rightarrow> nat \<Rightarrow> u64 list" where
  "bn_sqr_words_lohi = sqr_words sqr_lohi"

subsection \<open>Sums and differences\<close>

definition bn_add_words :: "u64 list \<Rightarrow> u64 list \<Rightarrow> u64 list \<Rightarrow> nat \<Rightarrow> u64 list \<times> u64" where
  "bn_add_words r a b n =
     (if n = 0 then (r, 0)
      else
        (let (r, ll) =
           unroll4 (\<lambda>(r, ll :: u128) i.
               let ll = ll + (ucast (a ! i) + ucast (b ! i)); r = r[i := ucast ll]; ll = drop_bit 64 ll in (r, ll))
             0 n (r, 0)
         in (r, ucast ll)))"

definition bn_add_words_carry :: "u64 list \<Rightarrow> u64 list \<Rightarrow> u64 list \<Rightarrow> nat \<Rightarrow> u64 list \<times> u64" where
  "bn_add_words_carry r a b n =
     (if n = 0 then (r, 0)
      else
        unroll4 (\<lambda>(r, c) i.
            let t = a ! i; t = t + c; c = (if t < c then 1 else 0);
                l = t + b ! i; c = c + (if l < t then 1 else 0); r = r[i := l]
            in (r, c))
          0 n (r, 0))"

definition bn_sub_words :: "u64 list \<Rightarrow> u64 list \<Rightarrow> u64 list \<Rightarrow> nat \<Rightarrow> u64 list \<times> u64" where
  "bn_sub_words r a b n =
     (if n = 0 then (r, 0)
      else
        unroll4 (\<lambda>(r, c) i.
            let t1 = a ! i; t2 = b ! i; r = r[i := t1 - t2 - c];
                c = (if t1 \<noteq> t2 then if t1 < t2 then 1 else 0 else c)
            in (r, c))
          0 n (r, 0))"

subsection \<open>Comba products\<close>

type_synonym acc = "u64 \<times> u64 \<times> u64"

definition mul_add_c :: "u64 \<Rightarrow> u64 \<Rightarrow> acc \<Rightarrow> acc" where
  "mul_add_c a b = (\<lambda>(c0, c1, c2).
     let t = ucast a * ucast b :: u128; t = t + ucast c0; c0 = Lw t; hi = Hw t;
         c1 = c1 + hi; c2 = (if c1 < hi then c2 + 1 else c2)
     in (c0, c1, c2))"

definition mul_add_c2 :: "u64 \<Rightarrow> u64 \<Rightarrow> acc \<Rightarrow> acc" where
  "mul_add_c2 a b = (\<lambda>(c0, c1, c2).
     let t = ucast a * ucast b :: u128; tt = t + ucast c0; c0 = Lw tt; hi = Hw tt;
         c1 = c1 + hi; c2 = (if c1 < hi then c2 + 1 else c2);
         t = t + ucast c0; c0 = Lw t; hi = Hw t;
         c1 = c1 + hi; c2 = (if c1 < hi then c2 + 1 else c2)
     in (c0, c1, c2))"

definition sqr_add_c :: "u64 list \<Rightarrow> nat \<Rightarrow> acc \<Rightarrow> acc" where
  "sqr_add_c a i = (\<lambda>(c0, c1, c2).
     let t = ucast (a ! i) * ucast (a ! i) :: u128; t = t + ucast c0; c0 = Lw t; hi = Hw t;
         c1 = c1 + hi; c2 = (if c1 < hi then c2 + 1 else c2)
     in (c0, c1, c2))"

definition sqr_add_c2 :: "u64 list \<Rightarrow> nat \<Rightarrow> nat \<Rightarrow> acc \<Rightarrow> acc" where
  "sqr_add_c2 a i j = mul_add_c2 (a ! i) (a ! j)"

definition mul_add_c_lohi :: "u64 \<Rightarrow> u64 \<Rightarrow> acc \<Rightarrow> acc" where
  "mul_add_c_lohi a b = (\<lambda>(c0, c1, c2).
     let (lo, hi) = BN_UMULT_LOHI a b; c0 = c0 + lo; hi = hi + (if c0 < lo then 1 else 0);
         c1 = c1 + hi; c2 = c2 + (if c1 < hi then 1 else 0)
     in (c0, c1, c2))"

definition mul_add_c2_lohi :: "u64 \<Rightarrow> u64 \<Rightarrow> acc \<Rightarrow> acc" where
  "mul_add_c2_lohi a b = (\<lambda>(c0, c1, c2).
     let (lo, hi) = BN_UMULT_LOHI a b; c0 = c0 + lo; tt = hi + (if c0 < lo then 1 else 0);
         c1 = c1 + tt; c2 = c2 + (if c1 < tt then 1 else 0);
         c0 = c0 + lo; hi = hi + (if c0 < lo then 1 else 0);
         c1 = c1 + hi; c2 = c2 + (if c1 < hi then 1 else 0)
     in (c0, c1, c2))"

definition sqr_add_c_lohi :: "u64 list \<Rightarrow> nat \<Rightarrow> acc \<Rightarrow> acc" where
  "sqr_add_c_lohi a i = (\<lambda>(c0, c1, c2).
     let (lo, hi) = BN_UMULT_LOHI (a ! i) (a ! i); c0 = c0 + lo; hi = hi + (if c0 < lo then 1 else 0);
         c1 = c1 + hi; c2 = c2 + (if c1 < hi then 1 else 0)
     in (c0, c1, c2))"

definition sqr_add_c2_lohi :: "u64 list \<Rightarrow> nat \<Rightarrow> nat \<Rightarrow> acc \<Rightarrow> acc" where
  "sqr_add_c2_lohi a i j = mul_add_c2_lohi (a ! i) (a ! j)"

text \<open>
  The unrolled code adds the products of one column after the other into three words that change their roles: after
  a column its low word is stored and cleared, to be the top word of the next. The columns are listed as they
  stand in the code.
\<close>

primrec comba :: "('t \<Rightarrow> acc \<Rightarrow> acc) \<Rightarrow> 't list list \<Rightarrow> acc \<Rightarrow> u64 list" where
  "comba f [] c = [fst c]"
| "comba f (col # cols) c = (let (c0, c1, c2) = fold f col c in c0 # comba f cols (c1, c2, 0))"

definition comba8_columns :: "(nat \<times> nat) list list" where
  "comba8_columns =
    [[(0,0)],
     [(0,1), (1,0)],
     [(2,0), (1,1), (0,2)],
     [(0,3), (1,2), (2,1), (3,0)],
     [(4,0), (3,1), (2,2), (1,3), (0,4)],
     [(0,5), (1,4), (2,3), (3,2), (4,1), (5,0)],
     [(6,0), (5,1), (4,2), (3,3), (2,4), (1,5), (0,6)],
     [(0,7), (1,6), (2,5), (3,4), (4,3), (5,2), (6,1), (7,0)],
     [(7,1), (6,2), (5,3), (4,4), (3,5), (2,6), (1,7)],
     [(2,7), (3,6), (4,5), (5,4), (6,3), (7,2)],
     [(7,3), (6,4), (5,5), (4,6), (3,7)],
     [(4,7), (5,6), (6,5), (7,4)],
     [(7,5), (6,6), (5,7)],
     [(6,7), (7,6)],
     [(7,7)]]"

definition comba4_columns :: "(nat \<times> nat) list list" where
  "comba4_columns =
    [[(0,0)],
     [(0,1), (1,0)],
     [(2,0), (1,1), (0,2)],
     [(0,3), (1,2), (2,1), (3,0)],
     [(3,1), (2,2), (1,3)],
     [(2,3), (3,2)],
     [(3,3)]]"

datatype sqr_term = Sqr nat | Dbl nat nat

definition sqr8_columns :: "sqr_term list list" where
  "sqr8_columns =
    [[Sqr 0],
     [Dbl 1 0],
     [Sqr 1, Dbl 2 0],
     [Dbl 3 0, Dbl 2 1],
     [Sqr 2, Dbl 3 1, Dbl 4 0],
     [Dbl 5 0, Dbl 4 1, Dbl 3 2],
     [Sqr 3, Dbl 4 2, Dbl 5 1, Dbl 6 0],
     [Dbl 7 0, Dbl 6 1, Dbl 5 2, Dbl 4 3],
     [Sqr 4, Dbl 5 3, Dbl 6 2, Dbl 7 1],
     [Dbl 7 2, Dbl 6 3, Dbl 5 4],
     [Sqr 5, Dbl 6 4, Dbl 7 3],
     [Dbl 7 4, Dbl 6 5],
     [Sqr 6, Dbl 7 5],
     [Dbl 7 6],
     [Sqr 7]]"

definition sqr4_columns :: "sqr_term list list" where
  "sqr4_columns =
    [[Sqr 0],
     [Dbl 1 0],
     [Sqr 1, Dbl 2 0],
     [Dbl 3 0, Dbl 2 1],
     [Sqr 2, Dbl 3 1],
     [Dbl 3 2],
     [Sqr 3]]"

definition comba_mul :: "(u64 \<Rightarrow> u64 \<Rightarrow> acc \<Rightarrow> acc) \<Rightarrow> (nat \<times> nat) list list \<Rightarrow> u64 list \<Rightarrow> u64 list \<Rightarrow> u64 list" where
  "comba_mul mac cols a b = comba (\<lambda>(i, j). mac (a ! i) (b ! j)) cols (0, 0, 0)"

definition comba_sqr :: "(u64 list \<Rightarrow> nat \<Rightarrow> acc \<Rightarrow> acc) \<Rightarrow> (u64 list \<Rightarrow> nat \<Rightarrow> nat \<Rightarrow> acc \<Rightarrow> acc) \<Rightarrow>
    sqr_term list list \<Rightarrow> u64 list \<Rightarrow> u64 list" where
  "comba_sqr sac sac2 cols a = comba (\<lambda>t. case t of Sqr i \<Rightarrow> sac a i | Dbl i j \<Rightarrow> sac2 a i j) cols (0, 0, 0)"

definition bn_mul_comba8 :: "u64 list \<Rightarrow> u64 list \<Rightarrow> u64 list" where
  "bn_mul_comba8 a b = comba_mul mul_add_c comba8_columns a b"

definition bn_mul_comba4 :: "u64 list \<Rightarrow> u64 list \<Rightarrow> u64 list" where
  "bn_mul_comba4 a b = comba_mul mul_add_c comba4_columns a b"

definition bn_sqr_comba8 :: "u64 list \<Rightarrow> u64 list" where
  "bn_sqr_comba8 a = comba_sqr sqr_add_c sqr_add_c2 sqr8_columns a"

definition bn_sqr_comba4 :: "u64 list \<Rightarrow> u64 list" where
  "bn_sqr_comba4 a = comba_sqr sqr_add_c sqr_add_c2 sqr4_columns a"

definition bn_mul_comba8_lohi :: "u64 list \<Rightarrow> u64 list \<Rightarrow> u64 list" where
  "bn_mul_comba8_lohi a b = comba_mul mul_add_c_lohi comba8_columns a b"

definition bn_mul_comba4_lohi :: "u64 list \<Rightarrow> u64 list \<Rightarrow> u64 list" where
  "bn_mul_comba4_lohi a b = comba_mul mul_add_c_lohi comba4_columns a b"

definition bn_sqr_comba8_lohi :: "u64 list \<Rightarrow> u64 list" where
  "bn_sqr_comba8_lohi a = comba_sqr sqr_add_c_lohi sqr_add_c2_lohi sqr8_columns a"

definition bn_sqr_comba4_lohi :: "u64 list \<Rightarrow> u64 list" where
  "bn_sqr_comba4_lohi a = comba_sqr sqr_add_c_lohi sqr_add_c2_lohi sqr4_columns a"

section \<open>Words of \<open>bn.c\<close>, \<open>cmp.c\<close>, \<open>div.c\<close> and \<open>shift.c\<close>\<close>

definition bn_select_words :: "u64 \<Rightarrow> u64 list \<Rightarrow> u64 list \<Rightarrow> nat \<Rightarrow> u64 list" where
  "bn_select_words sel a b num = map (\<lambda>i. constant_time_select_w sel (a ! i) (b ! i)) [0..<num]"

text \<open>\<open>ret\<close> is an \<open>int\<close> selected by a word; the loop starts with the lowest words.\<close>

definition constant_time_select_int :: "u64 \<Rightarrow> int \<Rightarrow> int \<Rightarrow> int" where
  "constant_time_select_int sel a b = sint (ucast (constant_time_select_w sel (word_of_int a) (word_of_int b)) :: 32 word)"

definition bn_cmp_words_consttime :: "u64 list \<Rightarrow> nat \<Rightarrow> u64 list \<Rightarrow> nat \<Rightarrow> int" where
  "bn_cmp_words_consttime a a_len b b_len =
     (let min = (if a_len < b_len then a_len else b_len);
          ret = foldl (\<lambda>ret i.
              let eq = constant_time_eq_w (a ! i) (b ! i); lt = constant_time_lt_w (a ! i) (b ! i)
              in constant_time_select_int eq ret (constant_time_select_int lt (- 1) 1)) 0 [0..<min]
      in if a_len < b_len then
           (let m = foldl (\<lambda>m i. m OR b ! i) 0 [a_len..<b_len]
            in constant_time_select_int (constant_time_is_zero_w m) ret (- 1))
         else if b_len < a_len then
           (let m = foldl (\<lambda>m i. m OR a ! i) 0 [b_len..<a_len]
            in constant_time_select_int (constant_time_is_zero_w m) ret 1)
         else ret)"

definition bn_less_than_words :: "u64 list \<Rightarrow> u64 list \<Rightarrow> nat \<Rightarrow> bool" where
  "bn_less_than_words a b len \<longleftrightarrow> bn_cmp_words_consttime a len b len < 0"

text \<open>The results are the words written and the mask returned.\<close>

definition bn_reduce_once :: "u64 list \<Rightarrow> u64 list \<Rightarrow> u64 \<Rightarrow> u64 list \<Rightarrow> nat \<Rightarrow> u64 list \<times> u64" where
  "bn_reduce_once r a carry m num =
     (let (r, borrow) = bn_sub_words r a m num; carry = carry - borrow
      in (bn_select_words carry a r num, carry))"

definition bn_reduce_once_in_place :: "u64 list \<Rightarrow> u64 \<Rightarrow> u64 list \<Rightarrow> u64 list \<Rightarrow> nat \<Rightarrow> u64 list \<times> u64" where
  "bn_reduce_once_in_place r carry m tmp num =
     (let (tmp, borrow) = bn_sub_words tmp r m num; carry = carry - borrow
      in (bn_select_words carry r tmp num, carry))"

definition bn_mod_sub_words :: "u64 list \<Rightarrow> u64 list \<Rightarrow> u64 list \<Rightarrow> u64 list \<Rightarrow> u64 list \<Rightarrow> nat \<Rightarrow> u64 list" where
  "bn_mod_sub_words r a b m tmp num =
     (let (r, borrow) = bn_sub_words r a b num; (tmp, _) = bn_add_words tmp r m num
      in bn_select_words (0 - borrow) tmp r num)"

definition bn_mod_add_words :: "u64 list \<Rightarrow> u64 list \<Rightarrow> u64 list \<Rightarrow> u64 list \<Rightarrow> u64 list \<Rightarrow> nat \<Rightarrow> u64 list" where
  "bn_mod_add_words r a b m tmp num =
     (let (r, carry) = bn_add_words r a b num in fst (bn_reduce_once_in_place r carry m tmp num))"

definition bn_rshift_words :: "u64 list \<Rightarrow> nat \<Rightarrow> nat \<Rightarrow> u64 list" where
  "bn_rshift_words a shift num =
     (let shift_bits = shift mod 64; shift_words = shift div 64
      in if num \<le> shift_words then replicate num 0
         else
           (let r = (if shift_bits = 0 then take (num - shift_words) (drop shift_words a)
                     else map (\<lambda>i. drop_bit shift_bits (a ! i) OR push_bit (64 - shift_bits) (a ! (i + 1))) [shift_words..<num - 1] @
                       [drop_bit shift_bits (a ! (num - 1))])
            in r @ replicate shift_words 0))"

definition bn_rshift1_words :: "u64 list \<Rightarrow> nat \<Rightarrow> u64 list" where
  "bn_rshift1_words a num =
     (if num = 0 then []
      else map (\<lambda>i. drop_bit 1 (a ! i) OR push_bit 63 (a ! (i + 1))) [0..<num - 1] @ [drop_bit 1 (a ! (num - 1))])"

definition bn_is_bit_set_words :: "u64 list \<Rightarrow> nat \<Rightarrow> nat \<Rightarrow> bool" where
  "bn_is_bit_set_words a num n =
     (let i = n div 64; j = n mod 64 in if num \<le> i then False else drop_bit j (a ! i) AND 1 = 1)"

end
