(* ===== verification/Bn.thy ===== *)
theory Bn
  imports Bn_Words
begin

text \<open>
  \<open>BIGNUM\<close> of \<open>openssl/bn.h\<close> and the operations of \<open>fipsmodule/bn/bn.c\<close>, \<open>cmp.c\<close>, \<open>add.c\<close>, \<open>shift.c\<close> and
  \<open>bytes.c\<close>. The array \<open>d\<close> is the list of its \<open>dmax\<close> words, of which \<open>width\<close> are valid.
  \<open>al n\<close> is what \<open>OPENSSL_malloc(n)\<close> returns: \<open>NULL\<close>, or memory with some contents. An operation that writes \<open>r\<close>
  has the old \<open>r\<close> as a parameter and returns its return value and the new \<open>r\<close>. The C code allows \<open>r\<close> to be one of the
  operands: then the parameter is that operand, and each loop reads its words before it writes the word at their index.
\<close>

unbundle bit_operations_syntax

section \<open>\<open>bn.c\<close>\<close>

record bignum =
  bn_d :: "u64 list"
  bn_width :: nat
  bn_neg :: bool
  bn_malloced :: bool
  bn_static_data :: bool

type_synonym bn_alloc = "nat \<Rightarrow> (nat \<Rightarrow> u64) option"

definition BN_init :: bignum where
  "BN_init = \<lparr>bn_d = [], bn_width = 0, bn_neg = False, bn_malloced = False, bn_static_data = False\<rparr>"

definition BN_new :: "bn_alloc \<Rightarrow> bignum option" where
  "BN_new al = (case al 24 of None \<Rightarrow> None | Some _ \<Rightarrow> Some (BN_init\<lparr>bn_malloced := True\<rparr>))"

definition bn_wexpand :: "bn_alloc \<Rightarrow> bignum \<Rightarrow> nat \<Rightarrow> bool \<times> bignum" where
  "bn_wexpand al bn words =
     (if words \<le> length (bn_d bn) then (True, bn)
      else if words > 2147483647 div (4 * 64) then (False, bn)
      else if bn_static_data bn then (False, bn)
      else
        case al (8 * words) of None \<Rightarrow> (False, bn)
        | Some junk \<Rightarrow> (True, bn\<lparr>bn_d := take (bn_width bn) (bn_d bn) @ map junk [bn_width bn..<words]\<rparr>))"

definition bn_expand :: "bn_alloc \<Rightarrow> bignum \<Rightarrow> nat \<Rightarrow> bool \<times> bignum" where
  "bn_expand al bn bits =
     (if (bits + 64 - 1) mod 2 ^ 64 < bits then (False, bn)
      else bn_wexpand al bn ((bits + 64 - 1) mod 2 ^ 64 div 64))"

text \<open>\<open>OPENSSL_memcpy\<close> and \<open>OPENSSL_memset\<close> on words.\<close>

definition put_words :: "nat \<Rightarrow> u64 list \<Rightarrow> u64 list \<Rightarrow> u64 list" where
  "put_words k ws d = take k d @ ws @ drop (k + length ws) d"

text \<open>\<open>src \<noteq> dest\<close>; a copy to itself returns at once.\<close>

definition BN_copy :: "bn_alloc \<Rightarrow> bignum \<Rightarrow> bignum \<Rightarrow> bool \<times> bignum" where
  "BN_copy al dest src =
     (let (ok, dest) = bn_wexpand al dest (bn_width src)
      in if \<not> ok then (False, dest)
         else (True, dest\<lparr>bn_d := put_words 0 (take (bn_width src) (bn_d src)) (bn_d dest), bn_width := bn_width src, bn_neg := bn_neg src\<rparr>))"

definition BN_dup :: "bn_alloc \<Rightarrow> bignum option \<Rightarrow> bignum option" where
  "BN_dup al src =
     (case src of None \<Rightarrow> None
      | Some src \<Rightarrow>
          (case BN_new al of None \<Rightarrow> None
           | Some copy \<Rightarrow> (let (ok, copy) = BN_copy al copy src in if ok then Some copy else None)))"

definition BN_clear :: "bignum \<Rightarrow> bignum" where
  "BN_clear bn = bn\<lparr>bn_d := replicate (length (bn_d bn)) 0, bn_width := 0, bn_neg := False\<rparr>"

definition BN_value_one :: bignum where
  "BN_value_one = \<lparr>bn_d = [1], bn_width = 1, bn_neg = False, bn_malloced = False, bn_static_data = True\<rparr>"

text \<open>One halving step of \<open>BN_num_bits_word\<close>; the last one leaves out the update of \<open>l\<close>, which is dead there.\<close>

definition num_bits_step :: "nat \<Rightarrow> u64 \<times> u64 \<Rightarrow> u64 \<times> u64" where
  "num_bits_step k = (\<lambda>(l, bits).
     let x = drop_bit k l; m = 0 - x; m = 0 - drop_bit 63 m; bits = bits + (of_nat k AND m); l = l XOR ((x XOR l) AND m)
     in (l, bits))"

definition BN_num_bits_word :: "u64 \<Rightarrow> nat" where
  "BN_num_bits_word l =
     unat (snd (num_bits_step 1 (num_bits_step 2 (num_bits_step 4 (num_bits_step 8 (num_bits_step 16 (num_bits_step 32
       (l, if l \<noteq> 0 then 1 else 0))))))))"

primrec minimal_width_loop :: "u64 list \<Rightarrow> nat \<Rightarrow> nat" where
  "minimal_width_loop d 0 = 0"
| "minimal_width_loop d (Suc ret) = (if d ! ret = 0 then minimal_width_loop d ret else Suc ret)"

definition bn_minimal_width :: "bignum \<Rightarrow> nat" where
  "bn_minimal_width bn = minimal_width_loop (bn_d bn) (bn_width bn)"

definition bn_set_minimal_width :: "bignum \<Rightarrow> bignum" where
  "bn_set_minimal_width bn =
     (let bn = bn\<lparr>bn_width := bn_minimal_width bn\<rparr> in if bn_width bn = 0 then bn\<lparr>bn_neg := False\<rparr> else bn)"

definition BN_num_bits :: "bignum \<Rightarrow> nat" where
  "BN_num_bits bn =
     (let width = bn_minimal_width bn
      in if width = 0 then 0 else (width - 1) * 64 + BN_num_bits_word (bn_d bn ! (width - 1)))"

definition BN_num_bytes :: "bignum \<Rightarrow> nat" where
  "BN_num_bytes bn = (BN_num_bits bn + 7) div 8"

definition BN_zero :: "bignum \<Rightarrow> bignum" where
  "BN_zero bn = bn\<lparr>bn_width := 0, bn_neg := False\<rparr>"

definition BN_set_word :: "bn_alloc \<Rightarrow> bignum \<Rightarrow> u64 \<Rightarrow> bool \<times> bignum" where
  "BN_set_word al bn value =
     (if value = 0 then (True, BN_zero bn)
      else
        (let (ok, bn) = bn_wexpand al bn 1
         in if \<not> ok then (False, bn) else (True, bn\<lparr>bn_neg := False, bn_d := (bn_d bn)[0 := value], bn_width := 1\<rparr>)))"

definition BN_one :: "bn_alloc \<Rightarrow> bignum \<Rightarrow> bool \<times> bignum" where
  "BN_one al bn = BN_set_word al bn 1"

definition BN_set_u64 :: "bn_alloc \<Rightarrow> bignum \<Rightarrow> u64 \<Rightarrow> bool \<times> bignum" where
  "BN_set_u64 al bn value = BN_set_word al bn value"

definition bn_set_words :: "bn_alloc \<Rightarrow> bignum \<Rightarrow> u64 list \<Rightarrow> nat \<Rightarrow> bool \<times> bignum" where
  "bn_set_words al bn words num =
     (let (ok, bn) = bn_wexpand al bn num
      in if \<not> ok then (False, bn)
         else (True, bn\<lparr>bn_d := put_words 0 (take num words) (bn_d bn), bn_width := num, bn_neg := False\<rparr>))"

definition bn_fits_in_words :: "bignum \<Rightarrow> nat \<Rightarrow> bool" where
  "bn_fits_in_words bn num \<longleftrightarrow> foldl (\<lambda>m i. m OR bn_d bn ! i) 0 [num..<bn_width bn] = 0"

definition bn_copy_words :: "u64 list \<Rightarrow> nat \<Rightarrow> bignum \<Rightarrow> bool \<times> u64 list" where
  "bn_copy_words out num bn =
     (if bn_neg bn then (False, out)
      else
        (let width = bn_width bn
         in if width > num \<and> \<not> bn_fits_in_words bn num then (False, out)
            else
              (let width = (if width > num then num else width); out = put_words 0 (replicate num 0) out
               in (True, put_words 0 (take width (bn_d bn)) out))))"

definition BN_is_negative :: "bignum \<Rightarrow> bool" where
  "BN_is_negative bn = bn_neg bn"

definition BN_is_zero :: "bignum \<Rightarrow> bool" where
  "BN_is_zero bn = bn_fits_in_words bn 0"

definition BN_set_negative :: "bignum \<Rightarrow> bool \<Rightarrow> bignum" where
  "BN_set_negative bn sign = (if sign \<and> \<not> BN_is_zero bn then bn\<lparr>bn_neg := True\<rparr> else bn\<lparr>bn_neg := False\<rparr>)"

definition bn_resize_words :: "bn_alloc \<Rightarrow> bignum \<Rightarrow> nat \<Rightarrow> bool \<times> bignum" where
  "bn_resize_words al bn words =
     (if bn_width bn \<le> words then
        (let (ok, bn) = bn_wexpand al bn words
         in if \<not> ok then (False, bn)
            else (True, bn\<lparr>bn_d := put_words (bn_width bn) (replicate (words - bn_width bn) 0) (bn_d bn), bn_width := words\<rparr>))
      else if \<not> bn_fits_in_words bn words then (False, bn)
      else (True, bn\<lparr>bn_width := words\<rparr>))"

section \<open>\<open>cmp.c\<close>\<close>

definition BN_ucmp :: "bignum \<Rightarrow> bignum \<Rightarrow> int" where
  "BN_ucmp a b = bn_cmp_words_consttime (bn_d a) (bn_width a) (bn_d b) (bn_width b)"

definition BN_cmp :: "bignum option \<Rightarrow> bignum option \<Rightarrow> int" where
  "BN_cmp a b =
     (case (a, b) of
        (Some _, None) \<Rightarrow> -1
      | (None, Some _) \<Rightarrow> 1
      | (None, None) \<Rightarrow> 0
      | (Some a, Some b) \<Rightarrow>
          if bn_neg a \<noteq> bn_neg b then (if bn_neg a then -1 else 1)
          else (let ret = BN_ucmp a b in if bn_neg a then - ret else ret))"

definition BN_abs_is_word :: "bignum \<Rightarrow> u64 \<Rightarrow> bool" where
  "BN_abs_is_word bn w =
     (if bn_width bn = 0 then w = 0
      else foldl (\<lambda>m i. m OR bn_d bn ! i) (bn_d bn ! 0 XOR w) [1..<bn_width bn] = 0)"

definition BN_cmp_word :: "bignum \<Rightarrow> u64 \<Rightarrow> int" where
  "BN_cmp_word a b =
     (let b_bn = BN_init\<lparr>bn_d := [b], bn_width := (if b > 0 then 1 else 0), bn_static_data := True\<rparr>
      in BN_cmp (Some a) (Some b_bn))"

definition BN_is_one :: "bignum \<Rightarrow> bool" where
  "BN_is_one bn \<longleftrightarrow> \<not> bn_neg bn \<and> BN_abs_is_word bn 1"

definition BN_is_word :: "bignum \<Rightarrow> u64 \<Rightarrow> bool" where
  "BN_is_word bn w \<longleftrightarrow> BN_abs_is_word bn w \<and> (w = 0 \<or> \<not> bn_neg bn)"

definition BN_is_odd :: "bignum \<Rightarrow> bool" where
  "BN_is_odd bn \<longleftrightarrow> bn_width bn > 0 \<and> bn_d bn ! 0 AND 1 = 1"

definition BN_is_pow2 :: "bignum \<Rightarrow> bool" where
  "BN_is_pow2 bn =
     (let width = bn_minimal_width bn
      in if width = 0 \<or> bn_neg bn then False
         else if \<exists>i\<in>set [0..<width - 1]. bn_d bn ! i \<noteq> 0 then False
         else 0 = bn_d bn ! (width - 1) AND (bn_d bn ! (width - 1) - 1))"

definition BN_equal_consttime :: "bignum \<Rightarrow> bignum \<Rightarrow> bool" where
  "BN_equal_consttime a b =
     (let m = foldl (\<lambda>m i. m OR bn_d b ! i) 0 [bn_width a..<bn_width b];
          m = foldl (\<lambda>m i. m OR bn_d a ! i) m [bn_width b..<bn_width a];
          min = (if bn_width a < bn_width b then bn_width a else bn_width b);
          m = foldl (\<lambda>m i. m OR (bn_d a ! i XOR bn_d b ! i)) m [0..<min];
          m = m OR (of_bool (bn_neg a) XOR of_bool (bn_neg b))
      in m = 0)"

section \<open>\<open>add.c\<close>\<close>

definition bn_uadd_consttime :: "bn_alloc \<Rightarrow> bignum \<Rightarrow> bignum \<Rightarrow> bignum \<Rightarrow> bool \<times> bignum" where
  "bn_uadd_consttime al r a b =
     (let (a, b) = (if bn_width a < bn_width b then (b, a) else (a, b));
          max = bn_width a; min = bn_width b;
          (ok, r) = bn_wexpand al r (max + 1)
      in if \<not> ok then (False, r)
         else
           (let r = r\<lparr>bn_width := max + 1\<rparr>;
                (rd, carry) = bn_add_words (bn_d r) (bn_d a) (bn_d b) min;
                (rd, carry) = foldl (\<lambda>(rd, carry) i.
                    let tmp = carry + bn_d a ! i in (rd[i := tmp], if tmp < bn_d a ! i then 1 else 0)) (rd, carry) [min..<max]
            in (True, r\<lparr>bn_d := rd[max := carry]\<rparr>)))"

definition BN_uadd :: "bn_alloc \<Rightarrow> bignum \<Rightarrow> bignum \<Rightarrow> bignum \<Rightarrow> bool \<times> bignum" where
  "BN_uadd al r a b = (let (ok, r) = bn_uadd_consttime al r a b in if \<not> ok then (False, r) else (True, bn_set_minimal_width r))"

definition bn_usub_consttime :: "bn_alloc \<Rightarrow> bignum \<Rightarrow> bignum \<Rightarrow> bignum \<Rightarrow> bool \<times> bignum" where
  "bn_usub_consttime al r a b =
     (if bn_width b > bn_width a \<and> \<not> bn_fits_in_words b (bn_width a) then (False, r)
      else
        (let b_width = (if bn_width b > bn_width a then bn_width a else bn_width b);
             (ok, r) = bn_wexpand al r (bn_width a)
         in if \<not> ok then (False, r)
            else
              (let (rd, borrow) = bn_sub_words (bn_d r) (bn_d a) (bn_d b) b_width;
                   (rd, borrow) = foldl (\<lambda>(rd, borrow) i.
                       let tmp = bn_d a ! i; rd = rd[i := bn_d a ! i - borrow] in (rd, if tmp < rd ! i then 1 else 0))
                     (rd, borrow) [b_width..<bn_width a];
                   r = r\<lparr>bn_d := rd\<rparr>
               in if borrow \<noteq> 0 then (False, r) else (True, r\<lparr>bn_width := bn_width a, bn_neg := False\<rparr>))))"

definition BN_usub :: "bn_alloc \<Rightarrow> bignum \<Rightarrow> bignum \<Rightarrow> bignum \<Rightarrow> bool \<times> bignum" where
  "BN_usub al r a b = (let (ok, r) = bn_usub_consttime al r a b in if \<not> ok then (False, r) else (True, bn_set_minimal_width r))"

text \<open>\<open>a - b\<close> by magnitude, the end of both \<open>BN_add\<close> and \<open>BN_sub\<close>.\<close>

definition usub_signed :: "bn_alloc \<Rightarrow> bignum \<Rightarrow> bignum \<Rightarrow> bignum \<Rightarrow> bool \<times> bignum" where
  "usub_signed al r a b =
     (if BN_ucmp a b < 0 then
        (let (ok, r) = BN_usub al r b a in if \<not> ok then (False, r) else (True, r\<lparr>bn_neg := True\<rparr>))
      else (let (ok, r) = BN_usub al r a b in if \<not> ok then (False, r) else (True, r\<lparr>bn_neg := False\<rparr>)))"

definition BN_add :: "bn_alloc \<Rightarrow> bignum \<Rightarrow> bignum \<Rightarrow> bignum \<Rightarrow> bool \<times> bignum" where
  "BN_add al r a b =
     (let a_neg = bn_neg a
      in if a_neg \<noteq> bn_neg b then
           (let (a, b) = (if a_neg then (b, a) else (a, b)) in usub_signed al r a b)
         else (let (ret, r) = BN_uadd al r a b in (ret, r\<lparr>bn_neg := a_neg\<rparr>)))"

definition BN_sub :: "bn_alloc \<Rightarrow> bignum \<Rightarrow> bignum \<Rightarrow> bignum \<Rightarrow> bool \<times> bignum" where
  "BN_sub al r a b =
     (let (add, neg, a, b) =
        (if bn_neg a then (if bn_neg b then (False, False, b, a) else (True, True, a, b))
         else (if bn_neg b then (True, False, a, b) else (False, False, a, b)))
      in if add then (let (ok, r) = BN_uadd al r a b in if \<not> ok then (False, r) else (True, r\<lparr>bn_neg := neg\<rparr>))
         else usub_signed al r a b)"

text \<open>The loops of \<open>BN_add_word\<close> and \<open>BN_sub_word\<close>; the second has no bound of its own, and \<open>None\<close> is an access
  behind the array. Each of the two functions calls the other once, on a number that is not negative.\<close>

function add_word_loop :: "nat \<Rightarrow> u64 list \<Rightarrow> nat \<Rightarrow> u64 \<Rightarrow> u64 list \<times> nat \<times> u64" where
  "add_word_loop width d i w =
     (if w \<noteq> 0 \<and> i < width then
        (let l = d ! i + w; d = d[i := l] in add_word_loop width d (i + 1) (if w > l then 1 else 0))
      else (d, i, w))"
  by pat_completeness auto
termination by (relation "measure (\<lambda>(width, _, i, _). width - i)") auto

declare add_word_loop.simps [simp del]

function sub_word_loop :: "u64 list \<Rightarrow> nat \<Rightarrow> u64 \<Rightarrow> (u64 list \<times> nat) option" where
  "sub_word_loop d i w =
     (if length d \<le> i then None
      else if d ! i \<ge> w then Some (d[i := d ! i - w], i)
      else sub_word_loop (d[i := d ! i - w]) (i + 1) 1)"
  by pat_completeness auto
termination by (relation "measure (\<lambda>(d, i, _). length d - i)") auto

declare sub_word_loop.simps [simp del]

definition add_word_pos :: "bn_alloc \<Rightarrow> bignum \<Rightarrow> u64 \<Rightarrow> bool \<times> bignum" where
  "add_word_pos al a w =
     (let (d, i, w) = add_word_loop (bn_width a) (bn_d a) 0 w; a = a\<lparr>bn_d := d\<rparr>
      in if w \<noteq> 0 \<and> i = bn_width a then
           (let (ok, a) = bn_wexpand al a (bn_width a + 1)
            in if \<not> ok then (False, a) else (True, a\<lparr>bn_width := bn_width a + 1, bn_d := (bn_d a)[i := w]\<rparr>))
         else (True, a))"

definition sub_word_pos :: "bignum \<Rightarrow> u64 \<Rightarrow> bignum option" where
  "sub_word_pos a w =
     (if bn_minimal_width a = 1 \<and> bn_d a ! 0 < w then Some (a\<lparr>bn_d := (bn_d a)[0 := w - bn_d a ! 0], bn_neg := True\<rparr>)
      else
        case sub_word_loop (bn_d a) 0 w of None \<Rightarrow> None
        | Some (d, i) \<Rightarrow> Some (if d ! i = 0 \<and> int i = int (bn_width a) - 1 then a\<lparr>bn_d := d, bn_width := bn_width a - 1\<rparr> else a\<lparr>bn_d := d\<rparr>))"

definition BN_add_word :: "bn_alloc \<Rightarrow> bignum \<Rightarrow> u64 \<Rightarrow> (bool \<times> bignum) option" where
  "BN_add_word al a w =
     (if w = 0 then Some (True, a)
      else if BN_is_zero a then Some (BN_set_word al a w)
      else if bn_neg a then
        (case sub_word_pos (a\<lparr>bn_neg := False\<rparr>) w of None \<Rightarrow> None
         | Some a \<Rightarrow> Some (True, if \<not> BN_is_zero a then a\<lparr>bn_neg := \<not> bn_neg a\<rparr> else a))
      else Some (add_word_pos al a w))"

definition BN_sub_word :: "bn_alloc \<Rightarrow> bignum \<Rightarrow> u64 \<Rightarrow> (bool \<times> bignum) option" where
  "BN_sub_word al a w =
     (if w = 0 then Some (True, a)
      else if BN_is_zero a then
        (let (i, a) = BN_set_word al a w in Some (i, if i then BN_set_negative a True else a))
      else if bn_neg a then (let (i, a) = add_word_pos al (a\<lparr>bn_neg := False\<rparr>) w in Some (i, a\<lparr>bn_neg := True\<rparr>))
      else (case sub_word_pos a w of None \<Rightarrow> None | Some a \<Rightarrow> Some (True, a)))"

section \<open>\<open>shift.c\<close>\<close>

text \<open>The loop of \<open>BN_lshift\<close> goes down; \<open>f\<close> and \<open>t\<close> are the two arrays, which may be the same.\<close>

definition BN_lshift :: "bn_alloc \<Rightarrow> bignum \<Rightarrow> bignum \<Rightarrow> int \<Rightarrow> bool \<times> bignum" where
  "BN_lshift al r a n =
     (if n < 0 then (False, r)
      else
        (let r = r\<lparr>bn_neg := bn_neg a\<rparr>; nw = nat n div 64;
             (ok, r) = bn_wexpand al r (bn_width a + nw + 1)
         in if \<not> ok then (False, r)
            else
              (let lb = nat n mod 64; rb = 64 - lb; f = bn_d a; t = (bn_d r)[bn_width a + nw := 0];
                   t = (if lb = 0 then foldl (\<lambda>t i. t[nw + i := f ! i]) t (rev [0..<bn_width a])
                        else foldl (\<lambda>t i. let l = f ! i; t = t[nw + i + 1 := t ! (nw + i + 1) OR drop_bit rb l] in t[nw + i := push_bit lb l])
                               t (rev [0..<bn_width a]));
                   t = put_words 0 (replicate nw 0) t
               in (True, bn_set_minimal_width (r\<lparr>bn_d := t, bn_width := bn_width a + nw + 1\<rparr>)))))"

definition BN_lshift1 :: "bn_alloc \<Rightarrow> bignum \<Rightarrow> bignum \<Rightarrow> bool \<times> bignum" where
  "BN_lshift1 al r a =
     (let r = r\<lparr>bn_neg := bn_neg a\<rparr>; (ok, r) = bn_wexpand al r (bn_width a + 1)
      in if \<not> ok then (False, r)
         else
           (let r = r\<lparr>bn_width := bn_width a\<rparr>;
                (rp, c) = foldl (\<lambda>(rp, c) i. let t = bn_d a ! i in (rp[i := push_bit 1 t OR c], drop_bit 63 t)) (bn_d r, 0) [0..<bn_width a]
            in (True, if c \<noteq> 0 then r\<lparr>bn_d := rp[bn_width a := 1], bn_width := bn_width r + 1\<rparr> else r\<lparr>bn_d := rp\<rparr>)))"

definition BN_rshift :: "bn_alloc \<Rightarrow> bignum \<Rightarrow> bignum \<Rightarrow> int \<Rightarrow> bool \<times> bignum" where
  "BN_rshift al r a n =
     (if n < 0 then (False, r)
      else
        (let (ok, r) = bn_wexpand al r (bn_width a)
         in if \<not> ok then (False, r)
            else (True, bn_set_minimal_width
                   (r\<lparr>bn_d := put_words 0 (bn_rshift_words (bn_d a) (nat n) (bn_width a)) (bn_d r), bn_neg := bn_neg a, bn_width := bn_width a\<rparr>))))"

definition BN_rshift1 :: "bn_alloc \<Rightarrow> bignum \<Rightarrow> bignum \<Rightarrow> bool \<times> bignum" where
  "BN_rshift1 al r a =
     (let (ok, r) = bn_wexpand al r (bn_width a)
      in if \<not> ok then (False, r)
         else (True, bn_set_minimal_width
                (r\<lparr>bn_d := put_words 0 (bn_rshift1_words (bn_d a) (bn_width a)) (bn_d r), bn_width := bn_width a, bn_neg := bn_neg a\<rparr>)))"

text \<open>\<open>tmp\<close> is what \<open>BN_CTX_get\<close> returns. The loop runs while \<open>max_bits >> i\<close> is not zero.\<close>

definition secret_shift_step :: "nat \<Rightarrow> nat \<Rightarrow> u64 list \<Rightarrow> nat \<Rightarrow> u64 list" where
  "secret_shift_step n width rd i =
     (let m = of_nat (n div 2 ^ i mod 2); m = 0 - m; tmp = bn_rshift_words rd (2 ^ i) width
      in put_words 0 (bn_select_words m tmp rd width) rd)"

function secret_shift_loop :: "nat \<Rightarrow> nat \<Rightarrow> nat \<Rightarrow> u64 list \<Rightarrow> nat \<Rightarrow> u64 list" where
  "secret_shift_loop max_bits n width rd i =
     (if max_bits div 2 ^ i \<noteq> 0 then secret_shift_loop max_bits n width (secret_shift_step n width rd i) (i + 1) else rd)"
  by pat_completeness auto
termination
  by (relation "measure (\<lambda>(max_bits, _, _, _, i). max_bits - i)")
     (auto simp: div_eq_0_iff not_less intro!: diff_less_mono2 dest: less_le_trans [OF less_exp])

declare secret_shift_loop.simps [simp del]

definition bn_rshift_secret_shift :: "bn_alloc \<Rightarrow> bignum option \<Rightarrow> bignum \<Rightarrow> bignum \<Rightarrow> nat \<Rightarrow> bool \<times> bignum" where
  "bn_rshift_secret_shift al tmp r a n =
     (case tmp of None \<Rightarrow> (False, r)
      | Some tmp \<Rightarrow>
          (let (ok, r) = BN_copy al r a
           in if \<not> ok then (False, r)
              else
                (let (ok, tmp) = bn_wexpand al tmp (bn_width r)
                 in if \<not> ok then (False, r)
                    else (True, r\<lparr>bn_d := secret_shift_loop (64 * bn_width r) n (bn_width r) (bn_d r) 0\<rparr>))))"

definition BN_set_bit :: "bn_alloc \<Rightarrow> bignum \<Rightarrow> int \<Rightarrow> bool \<times> bignum" where
  "BN_set_bit al a n =
     (if n < 0 then (False, a)
      else
        (let i = nat n div 64; j = nat n mod 64;
             (ok, a) = (if bn_width a \<le> i then
                          (let (ok, a) = bn_wexpand al a (i + 1)
                           in if \<not> ok then (False, a)
                              else (True, a\<lparr>bn_d := foldl (\<lambda>d k. d[k := 0]) (bn_d a) [bn_width a..<i + 1], bn_width := i + 1\<rparr>))
                        else (True, a))
         in if \<not> ok then (False, a) else (True, a\<lparr>bn_d := (bn_d a)[i := bn_d a ! i OR push_bit j 1]\<rparr>)))"

definition BN_clear_bit :: "bignum \<Rightarrow> int \<Rightarrow> bool \<times> bignum" where
  "BN_clear_bit a n =
     (if n < 0 then (False, a)
      else
        (let i = nat n div 64; j = nat n mod 64
         in if bn_width a \<le> i then (False, a)
            else (True, bn_set_minimal_width (a\<lparr>bn_d := (bn_d a)[i := bn_d a ! i AND NOT (push_bit j 1)]\<rparr>))))"

definition BN_is_bit_set :: "bignum \<Rightarrow> int \<Rightarrow> bool" where
  "BN_is_bit_set a n = (if n < 0 then False else bn_is_bit_set_words (bn_d a) (bn_width a) (nat n))"

definition BN_mask_bits :: "bignum \<Rightarrow> int \<Rightarrow> bool \<times> bignum" where
  "BN_mask_bits a n =
     (if n < 0 then (False, a)
      else
        (let w = nat n div 64; b = nat n mod 64
         in if w \<ge> bn_width a then (True, a)
            else
              (let a = (if b = 0 then a\<lparr>bn_width := w\<rparr>
                        else a\<lparr>bn_width := w + 1, bn_d := (bn_d a)[w := bn_d a ! w AND NOT (push_bit b (- 1))]\<rparr>)
               in (True, bn_set_minimal_width a))))"

definition count_low_zero_step :: "nat \<Rightarrow> u64 \<times> u64 \<Rightarrow> u64 \<times> u64" where
  "count_low_zero_step k = (\<lambda>(l, bits).
     let m = constant_time_is_zero_w (push_bit (64 - k) l); bits = bits + (of_nat k AND m); l = constant_time_select_w m (drop_bit k l) l
     in (l, bits))"

definition bn_count_low_zero_bits_word :: "u64 \<Rightarrow> u64" where
  "bn_count_low_zero_bits_word l =
     snd (count_low_zero_step 1 (count_low_zero_step 2 (count_low_zero_step 4 (count_low_zero_step 8
       (count_low_zero_step 16 (count_low_zero_step 32 (l, 0)))))))"

definition BN_count_low_zero_bits :: "bignum \<Rightarrow> u64" where
  "BN_count_low_zero_bits bn =
     fst (foldl (\<lambda>(ret, saw_nonzero) i.
         let nonzero = NOT (constant_time_is_zero_w (bn_d bn ! i)); first_nonzero = NOT saw_nonzero AND nonzero;
             saw_nonzero = saw_nonzero OR nonzero; bits = bn_count_low_zero_bits_word (bn_d bn ! i)
         in (ret OR (first_nonzero AND (of_nat i * 64 + bits)), saw_nonzero)) (0, 0) [0..<bn_width bn])"

section \<open>\<open>bytes.c\<close>\<close>

text \<open>The bytes of an array of words on a little-endian machine, and back.\<close>

definition word_bytes :: "u64 \<Rightarrow> u8 list" where
  "word_bytes w = map (\<lambda>i. ucast (drop_bit (8 * i) w)) [0..<8]"

definition words_bytes :: "u64 list \<Rightarrow> u8 list" where
  "words_bytes ws = concat (map word_bytes ws)"

definition bytes_word :: "u8 list \<Rightarrow> u64" where
  "bytes_word bs = foldr (\<lambda>b w. push_bit 8 w OR ucast b) bs 0"

definition bytes_words :: "u8 list \<Rightarrow> u64 list" where
  "bytes_words bs = map (\<lambda>i. bytes_word (take 8 (drop (8 * i) bs))) [0..<length bs div 8]"

fun bin2bn_loop :: "u64 list \<Rightarrow> u64 \<Rightarrow> nat \<Rightarrow> nat \<Rightarrow> u8 list \<Rightarrow> u64 list" where
  "bin2bn_loop d word m num_words [] = d"
| "bin2bn_loop d word m num_words (b # bs) =
     (let word = push_bit 8 word OR ucast b
      in if m = 0 then bin2bn_loop (d[num_words - 1 := word]) 0 7 (num_words - 1) bs
         else bin2bn_loop d word (m - 1) num_words bs)"

text \<open>\<open>ret\<close> is \<open>None\<close> for \<open>NULL\<close>; the result is the pointer returned and, where the call fails, \<open>ret\<close> as it is left.\<close>

definition BN_bin2bn :: "bn_alloc \<Rightarrow> u8 list \<Rightarrow> bignum option \<Rightarrow> bignum option \<times> bignum option" where
  "BN_bin2bn al inp ret =
     (case (case ret of None \<Rightarrow> BN_new al | Some r \<Rightarrow> Some r) of None \<Rightarrow> (None, None)
      | Some r \<Rightarrow>
          if length inp = 0 then (let r = r\<lparr>bn_width := 0\<rparr> in (Some r, map_option (\<lambda>_. r) ret))
          else
            (let num_words = (length inp - 1) div 8 + 1; m = (length inp - 1) mod 8;
                 (ok, r) = bn_wexpand al r num_words
             in if \<not> ok then (None, map_option (\<lambda>_. r) ret)
                else
                  (let r = r\<lparr>bn_width := num_words, bn_neg := False\<rparr>; r = r\<lparr>bn_d := bin2bn_loop (bn_d r) 0 m num_words inp\<rparr>
                   in (Some r, map_option (\<lambda>_. r) ret))))"

definition BN_le2bn :: "bn_alloc \<Rightarrow> u8 list \<Rightarrow> bignum option \<Rightarrow> bignum option \<times> bignum option" where
  "BN_le2bn al inp ret =
     (case (case ret of None \<Rightarrow> BN_new al | Some r \<Rightarrow> Some r) of None \<Rightarrow> (None, None)
      | Some r \<Rightarrow>
          if length inp = 0 then (let r = r\<lparr>bn_width := 0, bn_neg := False\<rparr> in (Some r, map_option (\<lambda>_. r) ret))
          else
            (let num_words = (length inp - 1) div 8 + 1;
                 (ok, r) = bn_wexpand al r num_words
             in if \<not> ok then (None, map_option (\<lambda>_. r) ret)
                else
                  (let r = r\<lparr>bn_width := num_words\<rparr>; d = (bn_d r)[num_words - 1 := 0];
                       r = r\<lparr>bn_d := bytes_words (inp @ drop (length inp) (words_bytes d))\<rparr>
                   in (Some r, map_option (\<lambda>_. r) ret))))"

text \<open>The bytes written.\<close>

definition BN_bn2bin :: "bignum \<Rightarrow> u8 list" where
  "BN_bn2bin bn = map (\<lambda>i. let l = bn_d bn ! (i div 8) in ucast (drop_bit (8 * (i mod 8)) l) AND 0xff) (rev [0..<BN_num_bytes bn])"

definition fits_in_bytes :: "u8 list \<Rightarrow> nat \<Rightarrow> nat \<Rightarrow> bool" where
  "fits_in_bytes bytes num_bytes len \<longleftrightarrow> foldl (\<lambda>m i. m OR bytes ! i) 0 [len..<num_bytes] = 0"

definition BN_bn2le_padded :: "nat \<Rightarrow> bignum \<Rightarrow> u8 list option" where
  "BN_bn2le_padded len bn =
     (let bytes = words_bytes (bn_d bn); num_bytes = bn_width bn * 8
      in if len < num_bytes \<and> \<not> fits_in_bytes bytes num_bytes len then None
         else (let num_bytes = (if len < num_bytes then len else num_bytes) in Some (take num_bytes bytes @ replicate (len - num_bytes) 0)))"

definition BN_bn2bin_padded :: "nat \<Rightarrow> u8 list \<Rightarrow> bignum \<Rightarrow> u8 list option" where
  "BN_bn2bin_padded len out bn =
     (let bytes = words_bytes (bn_d bn); num_bytes = bn_width bn * 8
      in if len < num_bytes \<and> \<not> fits_in_bytes bytes num_bytes len then None
         else
           (let num_bytes = (if len < num_bytes then len else num_bytes);
                out = foldl (\<lambda>out i. out[len - i - 1 := bytes ! i]) out [0..<num_bytes]
            in Some (replicate (len - num_bytes) 0 @ drop (len - num_bytes) out)))"

definition BN_get_word :: "bignum \<Rightarrow> u64" where
  "BN_get_word bn =
     (case bn_minimal_width bn of 0 \<Rightarrow> 0 | Suc 0 \<Rightarrow> bn_d bn ! 0 | _ \<Rightarrow> 0xffffffffffffffff)"

definition BN_get_u64 :: "bignum \<Rightarrow> u64 option" where
  "BN_get_u64 bn = (case bn_minimal_width bn of 0 \<Rightarrow> Some 0 | Suc 0 \<Rightarrow> Some (bn_d bn ! 0) | _ \<Rightarrow> None)"

end
