(* ===== verification/Bn_Words_Val.thy ===== *)
theory Bn_Words_Val
  imports Bn_Words "HOL-Library.Multiset"
begin

text \<open>
  What the routines of \<open>Bn_Words\<close> compute: an array of words stands for a natural number in base \<open>2 ^ 64\<close>, and each
  routine is the operation on numbers, with its carry or borrow. The two variants of the macros are two
  interpretations of one interface, so that the loops and the comba products are verified once.
\<close>

unbundle bit_operations_syntax

section \<open>Numbers\<close>

definition W :: nat where "W = 2 ^ 64"

lemma W_pos [simp]: "0 < W" and W_less [simp]: "1 < W" "W \<noteq> 0" "Suc 0 < W"
  by (simp_all add: W_def)

primrec wval :: "u64 list \<Rightarrow> nat" where
  "wval [] = 0"
| "wval (x # xs) = unat x + W * wval xs"

lemma wval_append: "wval (xs @ ys) = wval xs + W ^ length xs * wval ys"
  by (induction xs) (simp_all add: algebra_simps)

lemma unat_u64_less: "unat (x :: u64) < W"
  using unat_less_exp [of x] by (simp add: W_def)

lemma digit_less: "x < b \<Longrightarrow> y < n \<Longrightarrow> x + b * y < b * n" for x y b n :: nat
proof -
  assume "x < b" "y < n"
  then have "x + b * y < b + b * y" by simp
  also have "\<dots> = b * Suc y" by simp
  also have "\<dots> \<le> b * n" using \<open>y < n\<close> by (intro mult_le_mono2) simp
  finally show ?thesis .
qed

lemma wval_less: "wval xs < W ^ length xs"
proof (induction xs)
  case (Cons x xs)
  then show ?case using digit_less [OF unat_u64_less Cons.IH, of x] by simp
qed simp

lemma wval_take_Suc: "n < length xs \<Longrightarrow> wval (take (Suc n) xs) = wval (take n xs) + W ^ n * unat (xs ! n)"
  by (simp add: take_Suc_conv_app_nth wval_append)

lemma wval_replicate [simp]: "wval (replicate n 0) = 0"
  by (induction n) simp_all

lemma wval_take_drop: "n \<le> length xs \<Longrightarrow> wval xs = wval (take n xs) + W ^ n * wval (drop n xs)"
  using wval_append [of "take n xs" "drop n xs"] by simp

lemma wval_eq_0_iff: "wval xs = 0 \<longleftrightarrow> (\<forall>x\<in>set xs. x = 0)"
  by (induction xs) (auto simp: unat_eq_0)

section \<open>Loops\<close>

lemma unroll4_foldl: "unroll4 f i num s = foldl f s [i..<i + num]"
proof (induction num arbitrary: i s rule: less_induct)
  case (less num)
  show ?case
  proof (cases "4 \<le> num")
    case True
    then have "[i..<i + num] = [i, i + 1, i + 2, i + 3] @ [i + 4..<i + 4 + (num - 4)]"
      by (intro nth_equalityI) (auto simp: nth_append nth_Cons' less_Suc_eq)
    then show ?thesis using less [of "num - 4"] True by (simp add: unroll4.simps [of f i num s])
  next
    case False
    show ?thesis
    proof (cases "num = 0")
      case False
      then have "[i..<i + num] = i # [i + 1..<i + 1 + (num - 1)]" by (simp add: upt_conv_Cons)
      then show ?thesis using less [of "num - 1"] False \<open>\<not> 4 \<le> num\<close> by (simp add: unroll4.simps [of f i num s])
    qed (simp add: unroll4.simps)
  qed
qed

text \<open>
  A loop over an array with a carry: if each step keeps \<open>word + W * carry = term + carry\<close>, the whole loop adds up.
\<close>

definition word_loop :: "(nat \<Rightarrow> 'c \<Rightarrow> u64 \<Rightarrow> u64 \<times> 'c) \<Rightarrow> u64 list \<Rightarrow> 'c \<Rightarrow> nat \<Rightarrow> u64 list \<times> 'c" where
  "word_loop f r c n = foldl (\<lambda>(r, c) i. let (x, c) = f i c (r ! i) in (r[i := x], c)) (r, c) [0..<n]"

lemma word_loop_Suc:
  "word_loop f r c (Suc n) = (let (r', c') = word_loop f r c n; (x, c'') = f n c' (r' ! n) in (r'[n := x], c''))"
  by (simp add: word_loop_def split_beta Let_def)

lemma word_loop_0 [simp]: "word_loop f r c 0 = (r, c)"
  by (simp add: word_loop_def)

lemma word_loop_frame:
  "word_loop f r c n = (r', c') \<Longrightarrow> length r' = length r \<and> drop n r' = drop n r"
proof (induction n arbitrary: r' c')
  case (Suc n)
  obtain r1 c1 where l: "word_loop f r c n = (r1, c1)" by (meson surj_pair)
  have "length r1 = length r" "drop n r1 = drop n r" using Suc.IH [OF l] by simp_all
  moreover have "drop (Suc n) xs = drop 1 (drop n xs)" for xs :: "u64 list" by simp
  ultimately have "length r1 = length r" "drop (Suc n) r1 = drop (Suc n) r" by (simp_all only:)
  then show ?case using Suc.prems l by (auto simp: word_loop_Suc Let_def split: prod.splits)
qed simp

lemma word_loop_sum:
  assumes step: "\<And>i c old x c'. i < n \<Longrightarrow> f i c old = (x, c') \<Longrightarrow> okc c \<Longrightarrow> (old = r ! i) \<Longrightarrow> unat x + W * cval c' = t i + cval c \<and> okc c'"
    and "n \<le> length r" "okc c"
  shows "word_loop f r c n = (r', c') \<Longrightarrow> wval (take n r') + W ^ n * cval c' = (\<Sum>i<n. W ^ i * t i) + cval c \<and> okc c'"
  using assms(2) step
proof (induction n arbitrary: r' c')
  case 0
  then show ?case using assms(3) by simp
next
  case (Suc n)
  obtain r1 c1 where l: "word_loop f r c n = (r1, c1)" by (meson surj_pair)
  obtain x c2 where f: "f n c1 (r1 ! n) = (x, c2)" by (meson surj_pair)
  have fr: "length r1 = length r" "drop n r1 = drop n r" using word_loop_frame [OF l] by simp_all
  have n: "n < length r1" using Suc.prems(2) fr(1) by simp
  have "r1 ! n = r ! n" using arg_cong [OF fr(2), of hd] n fr(1) by (simp add: hd_drop_conv_nth)
  moreover have "wval (take n r1) + W ^ n * cval c1 = (\<Sum>i<n. W ^ i * t i) + cval c" "okc c1"
    using Suc.IH [OF l] Suc.prems(2) Suc.prems(3) [OF less_SucI] by (metis Suc_leD)+
  ultimately have a: "unat x + W * cval c2 = t n + cval c1" "okc c2" using Suc.prems(3) [OF _ f] by simp_all
  have rc: "r' = r1[n := x]" "c' = c2" using Suc.prems(1) l f by (simp_all add: word_loop_Suc)
  have "wval (take (Suc n) r') = wval (take n r1) + W ^ n * unat x" using n by (simp add: rc wval_take_Suc)
  then have "wval (take (Suc n) r') + W ^ Suc n * cval c' = wval (take n r1) + W ^ n * (unat x + W * cval c2)"
    by (simp add: rc algebra_simps)
  also have "\<dots> = (wval (take n r1) + W ^ n * cval c1) + W ^ n * t n" unfolding a(1) by (simp add: algebra_simps)
  also have "\<dots> = (\<Sum>i<Suc n. W ^ i * t i) + cval c" using \<open>wval (take n r1) + W ^ n * cval c1 = (\<Sum>i<n. W ^ i * t i) + cval c\<close> by simp
  finally show ?case using a(2) rc by simp
qed

lemma sum_wval: "n \<le> length a \<Longrightarrow> (\<Sum>i<n. W ^ i * unat (a ! i)) = wval (take n a)"
  by (induction n) (simp_all add: wval_take_Suc)

section \<open>Products and sums of words\<close>

lemma unat_u128: "unat (ucast (x :: u64) :: u128) = unat x"
  by simp

lemma unat_Lw: "unat (Lw t) = unat t mod W"
  by (simp add: Lw_def unat_ucast_mod W_def)

lemma unat_Hw: "unat (Hw t) = unat t div W"
proof -
  have "unat t < 2 ^ 128" using unat_less_exp [of t] by simp
  then have "unat t div W < W" by (simp add: div_less_iff_less_mult W_def)
  then show ?thesis by (simp add: Hw_def unat_ucast_mod unat_drop_bit_div W_def)
qed

lemma Lw_Hw: "unat (Lw t) + W * unat (Hw t) = unat t"
  unfolding unat_Lw unat_Hw by (simp add: mod_div_mult_eq mult.commute)

lemma product_bound: "a < W \<Longrightarrow> b < W \<Longrightarrow> a * b \<le> (W - 1) * (W - 1)" for a b :: nat
  by (intro mult_le_mono) simp_all

lemma unat_mult_u128: "unat (ucast (a :: u64) * ucast (b :: u64) :: u128) = unat a * unat b"
proof -
  have "unat a * unat b < 2 ^ 128" using product_bound [OF unat_u64_less unat_u64_less, of a b] by (simp add: W_def)
  then show ?thesis by (simp add: unat_word_ariths)
qed

lemma unat_add_u128: "unat x + unat y < 2 ^ 128 \<Longrightarrow> unat (x + y :: u128) = unat x + unat y"
  by (simp add: unat_word_ariths)

lemma unat_add_u64: "unat (x + y :: u64) = (unat x + unat y) mod W"
  by (simp add: unat_word_ariths W_def)

text \<open>A carry is one exactly when the sum is less than a summand.\<close>

lemma add_carry64: "unat (x + y) + W * of_bool (x + y < (y :: u64)) = unat x + unat y"
proof -
  have "x + y < y \<longleftrightarrow> W \<le> unat x + unat y"
    using unat_u64_less [of x] unat_u64_less [of y]
    by (auto simp: word_less_nat_alt unat_add_u64 mod_if)
  then show ?thesis using unat_u64_less [of x] unat_u64_less [of y] by (auto simp: unat_add_u64 mod_if)
qed

lemma add_carry64': "unat (x + y) + W * of_bool (x + y < (x :: u64)) = unat x + unat y"
  using add_carry64 [of y x] by (simp add: add.commute)

lemma BN_UMULT_LOHI_val: "BN_UMULT_LOHI a b = (lo, hi) \<Longrightarrow> unat lo + W * unat hi = unat a * unat b \<and> unat hi \<le> W - 2"
proof -
  assume "BN_UMULT_LOHI a b = (lo, hi)"
  moreover have le: "unat a * unat b \<le> (W - 1) * (W - 1)" by (intro product_bound unat_u64_less)
  moreover have d: "unat a * unat b div W \<le> W - 2" using div_le_mono [OF le, of W] by (simp add: W_def)
  ultimately have lh: "unat lo = unat a * unat b mod W" "unat hi = unat a * unat b div W"
    by (auto simp: BN_UMULT_LOHI_def unat_of_nat unat_word_ariths W_def)
  show ?thesis using d unfolding lh by (simp add: mod_div_mult_eq mult.commute)
qed

text \<open>The interface of the macros, and its two implementations.\<close>

locale word_products =
  fixes ma :: mul_add_f and mf :: mul_f and sf :: sqr_f
  assumes ma: "ma r a w c = (x, c') \<Longrightarrow> unat x + W * unat c' = unat w * unat a + unat r + unat c"
    and mf: "mf a w c = (x, c') \<Longrightarrow> unat x + W * unat c' = unat w * unat a + unat c"
    and sf: "sf a = (x, y) \<Longrightarrow> unat x + W * unat y = unat a * unat a"
begin

lemma mul_add_words_loop: "mul_add_words ma rp ap n w = word_loop (\<lambda>i c r. ma r (ap ! i) w c) rp 0 n"
  by (simp add: mul_add_words_def unroll4_foldl word_loop_def)

lemma mul_add_words_val:
  assumes "mul_add_words ma rp ap n w = (r', c)" "n \<le> length rp" "n \<le> length ap"
  shows "wval (take n r') + W ^ n * unat c = wval (take n rp) + unat w * wval (take n ap)"
proof -
  have "wval (take n r') + W ^ n * unat c = (\<Sum>i<n. W ^ i * (unat w * unat (ap ! i) + unat (rp ! i))) + unat (0 :: u64)"
    using word_loop_sum [where f = "\<lambda>i c r. ma r (ap ! i) w c" and okc = "\<lambda>_. True" and cval = unat and r = rp and n = n and c = 0
        and t = "\<lambda>i. unat w * unat (ap ! i) + unat (rp ! i)" and r' = r' and c' = c] ma assms
    by (simp add: mul_add_words_loop add.assoc)
  also have "(\<Sum>i<n. W ^ i * (unat w * unat (ap ! i) + unat (rp ! i))) = unat w * (\<Sum>i<n. W ^ i * unat (ap ! i)) + (\<Sum>i<n. W ^ i * unat (rp ! i))"
    by (simp add: sum_distrib_left sum.distrib algebra_simps)
  finally show ?thesis using assms(2,3) by (simp add: sum_wval)
qed

lemma mul_words_loop: "mul_words mf rp ap n w = word_loop (\<lambda>i c r. mf (ap ! i) w c) rp 0 n"
  by (simp add: mul_words_def unroll4_foldl word_loop_def)

lemma mul_words_val:
  assumes "mul_words mf rp ap n w = (r', c)" "n \<le> length rp" "n \<le> length ap"
  shows "wval (take n r') + W ^ n * unat c = unat w * wval (take n ap)"
proof -
  have "wval (take n r') + W ^ n * unat c = (\<Sum>i<n. W ^ i * (unat w * unat (ap ! i))) + unat (0 :: u64)"
    using word_loop_sum [where f = "\<lambda>i c r. mf (ap ! i) w c" and okc = "\<lambda>_. True" and cval = unat and r = rp and n = n and c = 0
        and t = "\<lambda>i. unat w * unat (ap ! i)" and r' = r' and c' = c] mf assms
    by (simp add: mul_words_loop)
  also have "(\<Sum>i<n. W ^ i * (unat w * unat (ap ! i))) = unat w * (\<Sum>i<n. W ^ i * unat (ap ! i))"
    by (simp add: sum_distrib_left algebra_simps)
  finally show ?thesis using assms(3) by (simp add: sum_wval)
qed

lemma words_frame:
  "mul_add_words ma rp ap n w = (r', c) \<Longrightarrow> length r' = length rp \<and> drop n r' = drop n rp"
  "mul_words mf rp ap n w = (r', c) \<Longrightarrow> length r' = length rp \<and> drop n r' = drop n rp"
  by (simp_all add: mul_add_words_loop mul_words_loop word_loop_frame)

text \<open>The squares of the words, in pairs.\<close>

lemma sqr_words_val:
  assumes "2 * n \<le> length r" "n \<le> length a"
  shows "wval (take (2 * n) (sqr_words sf r a n)) = (\<Sum>i<n. W ^ (2 * i) * (unat (a ! i) * unat (a ! i))) \<and> length (sqr_words sf r a n) = length r"
proof -
  define g where "g = (\<lambda>r i. let (r0, r1) = sf (a ! i) in r[2 * i := r0, 2 * i + 1 := r1])"
  have "wval (take (2 * k) (foldl g r [0..<k])) = (\<Sum>i<k. W ^ (2 * i) * (unat (a ! i) * unat (a ! i))) \<and> length (foldl g r [0..<k]) = length r"
    if "k \<le> n" for k
    using that
  proof (induction k)
    case (Suc k)
    define q where "q = foldl g r [0..<k]"
    obtain x y where s: "sf (a ! k) = (x, y)" by (meson surj_pair)
    have ih: "wval (take (2 * k) q) = (\<Sum>i<k. W ^ (2 * i) * (unat (a ! i) * unat (a ! i)))" "length q = length r"
      using Suc by (simp_all add: q_def)
    have l: "2 * k + 1 < length q" using Suc.prems assms(1) ih(2) by simp
    have "foldl g r [0..<Suc k] = g q k" by (simp add: q_def)
    then have e: "foldl g r [0..<Suc k] = q[2 * k := x, 2 * k + 1 := y]" by (simp add: g_def s)
    have "wval (take (Suc (Suc (2 * k))) (q[2 * k := x, 2 * k + 1 := y])) = wval (take (2 * k) q) + W ^ (2 * k) * (unat x + W * unat y)"
      using l by (simp add: wval_take_Suc algebra_simps)
    then show ?case using ih sf [OF s] unfolding e by simp
  qed simp
  then show ?thesis by (simp add: sqr_words_def unroll4_foldl g_def)
qed

end

interpretation wide: word_products mul_add mul sqr
proof
  fix r a w c x y :: u64
  have p: "unat w * unat a \<le> (W - 1) * (W - 1)" by (intro product_bound unat_u64_less)
  have s: "unat (ucast w * ucast a + ucast c :: u128) = unat w * unat a + unat c"
    using p unat_u64_less [of c] by (subst unat_add_u128) (simp_all add: unat_mult_u128 W_def)
  have t: "unat (ucast w * ucast a + ucast r + ucast c :: u128) = unat w * unat a + unat r + unat c"
    using p unat_u64_less [of c] unat_u64_less [of r]
    by (subst unat_add_u128; subst unat_add_u128) (simp_all add: unat_mult_u128 W_def)
  show "mul_add r a w c = (x, y) \<Longrightarrow> unat x + W * unat y = unat w * unat a + unat r + unat c"
    using Lw_Hw [of "ucast w * ucast a + ucast r + ucast c"] unfolding t by (auto simp: mul_add_def Let_def)
  show "mul a w c = (x, y) \<Longrightarrow> unat x + W * unat y = unat w * unat a + unat c"
    using Lw_Hw [of "ucast w * ucast a + ucast c"] unfolding s by (auto simp: mul_def Let_def)
  show "sqr a = (x, y) \<Longrightarrow> unat x + W * unat y = unat a * unat a"
    using Lw_Hw [of "ucast a * ucast a"] unfolding unat_mult_u128 by (auto simp: sqr_def Let_def)
qed

text \<open>Without a double word; the high word of a product has room for one carry.\<close>

lemma add_one_carry: "unat h \<le> W - 2 \<Longrightarrow> unat (h + (if b then 1 else 0) :: u64) = unat h + of_bool b"
  by (auto simp: unat_add_u64 W_def)

interpretation narrow: word_products mul_add_lohi mul_lohi sqr_lohi
proof
  fix r a w c x y :: u64
  obtain lo hi where p: "BN_UMULT_LOHI w a = (lo, hi)" by (meson surj_pair)
  note pv = BN_UMULT_LOHI_val [OF p]
  show "mul_lohi a w c = (x, y) \<Longrightarrow> unat x + W * unat y = unat w * unat a + unat c"
  proof -
    assume "mul_lohi a w c = (x, y)"
    then have xy: "x = lo + c" "y = hi + (if lo + c < lo then 1 else 0)" by (auto simp: mul_lohi_def p Let_def)
    have "unat y = unat hi + of_bool (lo + c < lo)" unfolding xy(2) using pv by (intro add_one_carry) simp
    then show ?thesis using pv add_carry64' [of lo c] by (simp add: xy(1) algebra_simps)
  qed
  show "mul_add_lohi r a w c = (x, y) \<Longrightarrow> unat x + W * unat y = unat w * unat a + unat r + unat c"
  proof -
    assume "mul_add_lohi r a w c = (x, y)"
    then have xy: "x = r + c + lo" "y = (if r + c < c then 1 else 0) + hi + (if r + c + lo < lo then 1 else 0)"
      by (auto simp: mul_add_lohi_def p Let_def split: if_splits)
    define h where "h = hi + (if r + c < c then 1 else 0)"
    have h: "unat h = unat hi + of_bool (r + c < c)" unfolding h_def using pv by (intro add_one_carry) simp
    have v: "unat w * unat a + unat r + unat c \<le> (W - 1) * (W - 1) + (W - 1) + (W - 1)"
      using product_bound [OF unat_u64_less unat_u64_less, of w a] unat_u64_less [of r] unat_u64_less [of c] by linarith
    have sum: "unat x + W * (unat h + of_bool (r + c + lo < lo)) = unat w * unat a + unat r + unat c"
      using pv add_carry64 [of r c] add_carry64 [of "r + c" lo] by (simp add: xy(1) h algebra_simps)
    then have "W * (unat h + of_bool (r + c + lo < lo)) < W * W" using v by (simp add: W_def)
    then have "unat h + of_bool (r + c + lo < lo) < W" by (simp only: mult_less_cancel1 W_pos simp_thms)
    moreover have "y = h + (if r + c + lo < lo then 1 else 0)" by (simp add: xy(2) h_def)
    ultimately have "unat y = unat h + of_bool (r + c + lo < lo)" by (auto simp: unat_add_u64)
    then show ?thesis using sum by simp
  qed
  obtain lo2 hi2 where q: "BN_UMULT_LOHI a a = (lo2, hi2)" by (meson surj_pair)
  show "sqr_lohi a = (x, y) \<Longrightarrow> unat x + W * unat y = unat a * unat a"
    using BN_UMULT_LOHI_val [OF q] q by (simp add: sqr_lohi_def)
qed

section \<open>Sums and differences\<close>

lemma bn_add_words_loop:
  "bn_add_words r a b n =
    (let (r, ll) = word_loop (\<lambda>i ll _. let ll = ll + (ucast (a ! i) + ucast (b ! i)) in (ucast ll, drop_bit 64 ll)) r (0 :: u128) n in (r, ucast ll))"
  by (simp add: bn_add_words_def unroll4_foldl word_loop_def Let_def)

lemma bn_add_words_frame: "bn_add_words r a b n = (r', c) \<Longrightarrow> length r' = length r \<and> drop n r' = drop n r"
  unfolding bn_add_words_loop by (auto dest: word_loop_frame split: prod.splits)

lemma bn_add_words_val:
  assumes "bn_add_words r a b n = (r', c)" "n \<le> length r" "n \<le> length a" "n \<le> length b"
  shows "wval (take n r') + W ^ n * unat c = wval (take n a) + wval (take n b) \<and> unat c \<le> 1"
proof -
  let ?f = "\<lambda>i (ll :: u128) (_ :: u64). let ll = ll + (ucast (a ! i) + ucast (b ! i)) in (ucast ll, drop_bit 64 ll)"
  obtain ll where l: "word_loop ?f r 0 n = (r', ll)" "c = ucast ll"
    using assms(1) unfolding bn_add_words_loop by (auto split: prod.splits)
  have step: "unat x + W * unat c' = unat (a ! i) + unat (b ! i) + unat cc \<and> unat c' \<le> 1"
    if "?f i cc old = (x, c')" "unat cc \<le> 1" for i cc old and x :: u64 and c'
  proof -
    define t where "t = cc + (ucast (a ! i) + ucast (b ! i))"
    have s: "unat (ucast (a ! i) + ucast (b ! i) :: u128) = unat (a ! i) + unat (b ! i)"
      using unat_u64_less [of "a ! i"] unat_u64_less [of "b ! i"] by (subst unat_add_u128) (simp_all add: W_def)
    have t: "unat t = unat cc + (unat (a ! i) + unat (b ! i))"
      using unat_u64_less [of "a ! i"] unat_u64_less [of "b ! i"] that(2) unfolding t_def by (subst unat_add_u128) (simp_all add: s W_def)
    have x: "x = Lw t" "unat c' = unat t div W" using that(1) by (auto simp: Let_def t_def Lw_def unat_drop_bit_div W_def)
    have "unat t < 2 * W" using t that(2) unat_u64_less [of "a ! i"] unat_u64_less [of "b ! i"] by linarith
    then have "unat t div W \<le> 1" by (simp add: div_less_iff_less_mult less_Suc_eq_le [symmetric] numeral_2_eq_2)
    then show ?thesis using t unfolding x unat_Lw by (simp add: mod_div_mult_eq mult.commute add.commute)
  qed
  have "wval (take n r') + W ^ n * unat ll = (\<Sum>i<n. W ^ i * (unat (a ! i) + unat (b ! i))) + unat (0 :: u128) \<and> unat ll \<le> 1"
    by (rule word_loop_sum [where okc = "\<lambda>c. unat c \<le> 1" and f = ?f and r = r]) (use step l assms(2) in auto)
  moreover have "(\<Sum>i<n. W ^ i * (unat (a ! i) + unat (b ! i))) = wval (take n a) + wval (take n b)"
    using assms(3,4) by (simp add: distrib_left sum.distrib sum_wval)
  moreover have "unat ll \<le> 1 \<Longrightarrow> unat c = unat ll" by (simp add: l(2) unat_ucast_mod)
  ultimately show ?thesis by simp
qed

lemma bn_add_words_carry_loop:
  "bn_add_words_carry r a b n =
    word_loop (\<lambda>i c _. let t = a ! i + c; c = (if t < c then 1 else 0); l = t + b ! i in (l, c + (if l < t then 1 else 0))) r 0 n"
  by (simp add: bn_add_words_carry_def unroll4_foldl word_loop_def Let_def)

lemma bn_add_words_carry_val:
  assumes "bn_add_words_carry r a b n = (r', c)" "n \<le> length r" "n \<le> length a" "n \<le> length b"
  shows "wval (take n r') + W ^ n * unat c = wval (take n a) + wval (take n b) \<and> unat c \<le> 1"
proof -
  let ?f = "\<lambda>i (c :: u64) (_ :: u64). let t = a ! i + c; c = (if t < c then 1 else 0); l = t + b ! i in (l, c + (if l < t then 1 else 0))"
  have step: "unat x + W * unat c' = unat (a ! i) + unat (b ! i) + unat cc \<and> unat c' \<le> 1"
    if f: "?f i cc old = (x, c')" "unat cc \<le> 1" for i cc old x c'
  proof -
    let ?t = "a ! i + cc"
    have x: "x = ?t + b ! i" "c' = (if ?t < cc then 1 else 0) + (if ?t + b ! i < ?t then 1 else 0)" using f(1) by (auto simp: Let_def)
    have sum: "unat x + W * (of_bool (?t < cc) + of_bool (?t + b ! i < ?t)) = unat (a ! i) + unat (b ! i) + unat cc"
      using add_carry64 [of "a ! i" cc] add_carry64' [of ?t "b ! i"] by (simp add: x(1) algebra_simps)
    then have "W * (of_bool (?t < cc) + of_bool (?t + b ! i < ?t)) < W * 2"
      using f(2) unat_u64_less [of "a ! i"] unat_u64_less [of "b ! i"] by linarith
    then have "of_bool (?t < cc) + of_bool (?t + b ! i < ?t) < (2 :: nat)" by (simp only: mult_less_cancel1 W_pos simp_thms)
    then have "unat c' = of_bool (?t < cc) + of_bool (?t + b ! i < ?t)" unfolding x(2) by (auto simp: of_bool_def split: if_splits)
    then show ?thesis using sum \<open>of_bool (?t < cc) + of_bool (?t + b ! i < ?t) < (2 :: nat)\<close> by simp
  qed
  have "wval (take n r') + W ^ n * unat c = (\<Sum>i<n. W ^ i * (unat (a ! i) + unat (b ! i))) + unat (0 :: u64) \<and> unat c \<le> 1"
    by (rule word_loop_sum [where okc = "\<lambda>c. unat c \<le> 1" and f = ?f and r = r]) (use step assms in \<open>auto simp: bn_add_words_carry_loop\<close>)
  moreover have "(\<Sum>i<n. W ^ i * (unat (a ! i) + unat (b ! i))) = wval (take n a) + wval (take n b)"
    using assms(3,4) by (simp add: distrib_left sum.distrib sum_wval)
  ultimately show ?thesis by simp
qed

text \<open>The borrow is carried as a negative number.\<close>

lemma bn_sub_words_loop:
  "bn_sub_words r a b n =
    word_loop (\<lambda>i c _. (a ! i - b ! i - c, if a ! i \<noteq> b ! i then if a ! i < b ! i then 1 else 0 else c)) r 0 n"
  by (simp add: bn_sub_words_def unroll4_foldl word_loop_def Let_def)

lemma bn_sub_words_frame: "bn_sub_words r a b n = (r', c) \<Longrightarrow> length r' = length r \<and> drop n r' = drop n r"
  unfolding bn_sub_words_loop by (rule word_loop_frame)

lemma sub_borrow64:
  fixes a b c :: u64
  assumes "unat c \<le> 1"
  defines "c' \<equiv> (if a \<noteq> b then if a < b then 1 else 0 else c)"
  shows "unat (a - b - c) + unat b + unat c = unat a + W * unat c' \<and> unat c' \<le> 1"
proof -
  have s: "unat (x - y) = (if unat y \<le> unat x then unat x - unat y else W + unat x - unat y)" for x y :: u64
    using unat_u64_less [of x] unat_u64_less [of y] by (simp add: unat_sub_wrap W_def)
  show ?thesis
  proof (cases "a = b")
    case True
    have "unat (a - b - c) + unat c = W * unat c" using s [of 0 c] assms(1) True by (auto simp: le_Suc_eq)
    then show ?thesis using True assms(1) by (simp add: c'_def)
  next
    case False
    then have ne: "unat a \<noteq> unat b" by (simp add: word_unat_eq_iff)
    show ?thesis using ne False assms(1) unat_u64_less [of a] unat_u64_less [of b] unat_u64_less [of c]
      by (auto simp: s c'_def word_less_nat_alt)
  qed
qed

lemma bn_sub_words_val:
  assumes "bn_sub_words r a b n = (r', c)" "n \<le> length r" "n \<le> length a" "n \<le> length b"
  shows "wval (take n r') + wval (take n b) = wval (take n a) + W ^ n * unat c \<and> unat c \<le> 1"
  using assms(1,2,3,4)
proof (induction n arbitrary: r' c)
  case 0
  then show ?case by (simp add: bn_sub_words_def)
next
  case (Suc n)
  obtain r1 c1 where l: "bn_sub_words r a b n = (r1, c1)" by (meson surj_pair)
  have ih: "wval (take n r1) + wval (take n b) = wval (take n a) + W ^ n * unat c1" "unat c1 \<le> 1"
    using Suc.IH [OF l] Suc.prems by simp_all
  define c2 where "c2 = (if a ! n \<noteq> b ! n then if a ! n < b ! n then 1 else 0 else c1)"
  have rc: "r' = r1[n := a ! n - b ! n - c1]" "c = c2"
    using Suc.prems(1) l unfolding bn_sub_words_loop by (simp_all add: word_loop_Suc c2_def)
  have n: "n < length r1" using Suc.prems(2) bn_sub_words_frame [OF l] by simp
  note d = sub_borrow64 [OF ih(2), of "a ! n" "b ! n", folded c2_def]
  have "wval (take (Suc n) r') + wval (take (Suc n) b) =
      wval (take n r1) + wval (take n b) + W ^ n * (unat (a ! n - b ! n - c1) + unat (b ! n))"
    using n Suc.prems by (simp add: rc wval_take_Suc algebra_simps)
  also have "\<dots> = wval (take n a) + W ^ n * (unat (a ! n - b ! n - c1) + unat (b ! n) + unat c1)"
    unfolding ih(1) by (simp add: algebra_simps)
  also have "\<dots> = wval (take (Suc n) a) + W ^ Suc n * unat c"
    using d Suc.prems by (simp add: rc(2) wval_take_Suc algebra_simps)
  finally show ?case using d rc(2) by simp
qed

end
