(* ===== verification/Bn_Words_More.thy ===== *)
theory Bn_Words_More
  imports Bn_Words_Val
begin

text \<open>
  Selection, comparison, modular addition and subtraction, and shifts on words: what the constant-time routines of
  \<open>Bn_Words\<close> compute.
\<close>

unbundle bit_operations_syntax

section \<open>Reduction\<close>

lemma bn_select_words_eq:
  "length a = n \<Longrightarrow> length b = n \<Longrightarrow> bn_select_words (mask_of c) a b n = (if c then a else b)"
  by (auto simp: bn_select_words_def constant_time_select_w_eq intro: nth_equalityI)

lemma mask_of_borrow_cases: "unat (c :: u64) \<le> 1 \<Longrightarrow> c = 0 \<or> c = 1"
proof -
  assume "unat c \<le> 1"
  then have "unat c = unat (0 :: u64) \<or> unat c = unat (1 :: u64)" by (auto simp: le_Suc_eq)
  then show ?thesis by (simp only: word_unat_eq_iff [symmetric])
qed

lemma mask_of_borrow: "unat (c :: u64) \<le> 1 \<Longrightarrow> 0 - c = mask_of (c \<noteq> 0)"
  using mask_of_borrow_cases by fastforce

text \<open>A number below twice the modulus needs at most one subtraction; the mask tells that none was made.\<close>

lemma reduce_once_cases:
  fixes r1 :: nat
  assumes "r1 + m = a + N * b" "b \<le> 1" "k \<le> 1" "a + N * k < 2 * m" "m < N" "a < N" "r1 < N"
  shows "(if a + N * k < m then k = 0 \<and> b = 1 else k = b \<and> r1 = a + N * k - m)"
  using assms by (cases "b = 0"; cases "k = 0") (auto simp: le_Suc_eq)

lemma reduce_once_words:
  assumes "bn_sub_words r a m n = (r1, borrow)" "length r = n" "length a = n" "length m = n" "unat carry \<le> 1"
    and "wval a + W ^ n * unat carry < 2 * wval m"
  shows "carry - borrow = mask_of (wval a + W ^ n * unat carry < wval m)"
    "wval (bn_select_words (carry - borrow) a r1 n) = (wval a + W ^ n * unat carry) mod wval m"
    "length (bn_select_words (carry - borrow) a r1 n) = n"
proof -
  have l: "length r1 = n" using bn_sub_words_frame [OF assms(1)] assms(2) by simp
  have s: "wval r1 + wval m = wval a + W ^ n * unat borrow" "unat borrow \<le> 1"
    using bn_sub_words_val [OF assms(1)] assms(2-4) l by simp_all
  have b: "wval m < W ^ n" "wval a < W ^ n" "wval r1 < W ^ n"
    using wval_less [of m] wval_less [of a] wval_less [of r1] unfolding assms(3,4) l by blast+
  let ?v = "wval a + W ^ n * unat carry"
  have cs: "if ?v < wval m then unat carry = 0 \<and> unat borrow = 1 else unat carry = unat borrow \<and> wval r1 = ?v - wval m"
    by (rule reduce_once_cases [OF s(1,2) assms(5,6) b])
  show mask: "carry - borrow = mask_of (?v < wval m)"
  proof (cases "?v < wval m")
    case True
    then have "unat carry = 0" "unat borrow = unat (1 :: u64)" using cs by (simp_all only: if_True unat_1)
    then have "carry = 0" "borrow = 1" by (simp_all only: unat_eq_0 word_unat_eq_iff [symmetric])
    then show ?thesis using True by simp
  next
    case False
    then have "unat carry = unat borrow" using cs by (simp only: if_False)
    then have "carry = borrow" by (simp only: word_unat_eq_iff)
    then show ?thesis using False by simp
  qed
  have sel: "bn_select_words (carry - borrow) a r1 n = (if ?v < wval m then a else r1)"
    unfolding mask by (rule bn_select_words_eq [OF assms(3) l])
  show "wval (bn_select_words (carry - borrow) a r1 n) = ?v mod wval m"
  proof (cases "?v < wval m")
    case True
    then have "unat carry = 0" using cs by simp
    then show ?thesis using True sel by simp
  next
    case False
    then have "wval r1 = ?v - wval m" using cs by simp
    moreover have "?v mod wval m = ?v - wval m" using False assms(6) by (simp add: mod_if)
    ultimately show ?thesis using False sel by simp
  qed
  show "length (bn_select_words (carry - borrow) a r1 n) = n" by (simp add: bn_select_words_def)
qed

lemma bn_reduce_once_val:
  assumes "bn_reduce_once r a carry m n = (r', sel)" "length r = n" "length a = n" "length m = n" "unat carry \<le> 1"
    and "wval a + W ^ n * unat carry < 2 * wval m"
  shows "wval r' = (wval a + W ^ n * unat carry) mod wval m \<and> length r' = n \<and> sel = mask_of (wval a + W ^ n * unat carry < wval m)"
proof -
  obtain r1 borrow where s: "bn_sub_words r a m n = (r1, borrow)" by (meson surj_pair)
  show ?thesis using assms(1) reduce_once_words [OF s assms(2-6)] by (auto simp: bn_reduce_once_def s Let_def)
qed

lemma bn_reduce_once_in_place_val:
  assumes "bn_reduce_once_in_place r carry m tmp n = (r', sel)" "length r = n" "length tmp = n" "length m = n" "unat carry \<le> 1"
    and "wval r + W ^ n * unat carry < 2 * wval m"
  shows "wval r' = (wval r + W ^ n * unat carry) mod wval m \<and> length r' = n \<and> sel = mask_of (wval r + W ^ n * unat carry < wval m)"
proof -
  obtain t borrow where s: "bn_sub_words tmp r m n = (t, borrow)" by (meson surj_pair)
  show ?thesis using assms(1) reduce_once_words [OF s assms(3,2,4-6)] by (auto simp: bn_reduce_once_in_place_def s Let_def)
qed

lemma bn_mod_add_words_val:
  assumes "length r = n" "length a = n" "length b = n" "length m = n" "length tmp = n" "wval a < wval m" "wval b < wval m"
  shows "wval (bn_mod_add_words r a b m tmp n) = (wval a + wval b) mod wval m \<and> length (bn_mod_add_words r a b m tmp n) = n"
proof -
  obtain r1 c where s: "bn_add_words r a b n = (r1, c)" by (meson surj_pair)
  have l: "length r1 = n" using bn_add_words_frame [OF s] assms(1) by simp
  have v: "wval r1 + W ^ n * unat c = wval a + wval b" "unat c \<le> 1"
    using bn_add_words_val [OF s] assms(1-3) l by simp_all
  obtain r2 sel where t: "bn_reduce_once_in_place r1 c m tmp n = (r2, sel)" by (meson surj_pair)
  show ?thesis using bn_reduce_once_in_place_val [OF t l assms(5,4) v(2)] v(1) assms(6,7) by (simp add: bn_mod_add_words_def s t)
qed

lemma bn_mod_sub_words_val:
  assumes "length r = n" "length a = n" "length b = n" "length m = n" "length tmp = n" "wval a < wval m" "wval b < wval m"
  shows "wval (bn_mod_sub_words r a b m tmp n) = (wval a + (wval m - wval b)) mod wval m \<and> length (bn_mod_sub_words r a b m tmp n) = n"
proof -
  obtain r1 c where s: "bn_sub_words r a b n = (r1, c)" by (meson surj_pair)
  obtain t d where u: "bn_add_words tmp r1 m n = (t, d)" by (meson surj_pair)
  have l: "length r1 = n" "length t = n" using bn_sub_words_frame [OF s] bn_add_words_frame [OF u] assms by simp_all
  have v: "wval r1 + wval b = wval a + W ^ n * unat c" "unat c \<le> 1" using bn_sub_words_val [OF s] assms l by simp_all
  have w: "wval t + W ^ n * unat d = wval r1 + wval m" using bn_add_words_val [OF u] assms l by simp
  have lt: "wval t < W ^ n" "wval r1 < W ^ n" using wval_less [of t] wval_less [of r1] l by simp_all
  have sel: "bn_select_words (0 - c) t r1 n = (if c \<noteq> 0 then t else r1)" using bn_select_words_eq [OF l(2,1)] v(2) by (simp only: mask_of_borrow)
  show ?thesis
  proof (cases "c = 0")
    case True
    then have e: "wval r1 + wval b = wval a" using v by simp
    then have "wval a + (wval m - wval b) = wval r1 + wval m" using assms(7) by simp
    moreover have "wval r1 < wval m" using e assms(6) by simp
    ultimately show ?thesis using True sel by (simp add: bn_mod_sub_words_def s u l)
  next
    case False
    then have c1: "unat c = 1" using v(2) by (simp add: le_Suc_eq unat_eq_0)
    have e: "wval t + W ^ n * unat d + wval b = wval a + W ^ n + wval m" using v(1) w c1 by simp
    have "unat d = 1"
    proof (rule ccontr)
      assume "unat d \<noteq> 1"
      moreover have "unat d \<le> 1" using bn_add_words_val [OF u] assms l by simp
      ultimately have "unat d = 0" by simp
      then show False using e lt(1) assms(7) by simp
    qed
    then have t: "wval t + wval b = wval a + wval m" using e by simp
    moreover have "wval a < wval b" using v(1) c1 lt(2) by simp
    ultimately have "wval a + (wval m - wval b) = wval t" "wval t < wval m" using assms(7) by simp_all
    then show ?thesis using False sel by (simp add: bn_mod_sub_words_def s u l)
  qed
qed

section \<open>Comparison\<close>

lemma sint_select: "a \<in> {- 1, 0, 1} \<Longrightarrow> sint (ucast (word_of_int a :: u64) :: 32 word) = a"
proof -
  have "sint (ucast (- 1 :: u64) :: 32 word) = - 1" by code_simp
  moreover assume "a \<in> {- 1, 0, 1}"
  ultimately show ?thesis by auto
qed

lemma constant_time_select_int_eq:
  assumes "a \<in> {- 1, 0, 1}" "b \<in> {- 1, 0, 1}"
  shows "constant_time_select_int (mask_of c) a b = (if c then a else b)"
  by (simp add: constant_time_select_int_def constant_time_select_w_eq sint_select [OF assms(1)] sint_select [OF assms(2)])

lemmas select_int_eqs = constant_time_select_int_eq constant_time_select_int_eq [where c = True, simplified]
  constant_time_select_int_eq [where c = False, simplified]

lemma cmp_digit:
  fixes x y p q N :: nat
  assumes "p < N" "q < N"
  shows "sgn (int (p + N * x) - int (q + N * y)) = (if x = y then sgn (int p - int q) else if x < y then - 1 else 1)"
proof -
  consider "x = y" | "x < y" | "y < x" by linarith
  then show ?thesis
  proof cases
    case 2
    then have "p + N * x < q + N * y" using digit_less [OF assms(1) 2] by simp
    then have "int (p + N * x) < int (q + N * y)" by (simp only: of_nat_less_iff)
    then show ?thesis using 2 by (simp add: sgn_if del: of_nat_add of_nat_mult)
  next
    case 3
    then have "q + N * y < p + N * x" using digit_less [OF assms(2) 3] by simp
    then have "int (q + N * y) < int (p + N * x)" by (simp only: of_nat_less_iff)
    then show ?thesis using 3 by (simp add: sgn_if del: of_nat_add of_nat_mult)
  qed simp
qed

lemma sgn_in: "sgn (x :: int) \<in> {- 1, 0, 1}"
  by (simp add: sgn_if)

lemma cmp_words_loop:
  assumes "n \<le> length a" "n \<le> length b"
  shows "foldl (\<lambda>ret i.
      let eq = constant_time_eq_w (a ! i) (b ! i); lt = constant_time_lt_w (a ! i) (b ! i)
      in constant_time_select_int eq ret (constant_time_select_int lt (- 1) 1)) 0 [0..<n] =
    sgn (int (wval (take n a)) - int (wval (take n b)))"
  using assms
proof (induction n)
  case (Suc n)
  have p: "wval (take n a) < W ^ n" "wval (take n b) < W ^ n"
    using wval_less [of "take n a"] wval_less [of "take n b"] Suc.prems by simp_all
  have "constant_time_select_int (mask_of (a ! n < b ! n)) (- 1) 1 = (if a ! n < b ! n then - 1 else 1)"
    by (rule constant_time_select_int_eq) simp_all
  then show ?case
    using Suc p sgn_in [of "int (wval (take n a)) - int (wval (take n b))"]
    by (simp add: Let_def constant_time_eqs constant_time_eq_w_eq constant_time_select_int_eq wval_take_Suc cmp_digit word_unat_eq_iff
        word_less_nat_alt del: of_nat_add of_nat_mult)
qed simp

lemma foldl_or_eq_0: "foldl (\<lambda>m i. m OR f i) m0 xs = 0 \<longleftrightarrow> m0 = 0 \<and> (\<forall>i\<in>set xs. f i = (0 :: 'a::len word))"
  by (induction xs arbitrary: m0) (auto simp: or_eq_0_iff)

lemma wval_split: "k \<le> n \<Longrightarrow> n \<le> length a \<Longrightarrow> wval (take n a) = wval (take k a) + W ^ k * wval (drop k (take n a))"
  using wval_append [of "take k a" "drop k (take n a)"] append_take_drop_id [of k "take n a"] by (simp add: min_absorb1)

lemma words_zero_iff: "k \<le> n \<Longrightarrow> n \<le> length a \<Longrightarrow> (\<forall>i\<in>{k..<n}. a ! i = 0) \<longleftrightarrow> wval (take n a) = wval (take k a)"
proof -
  assume kn: "k \<le> n" "n \<le> length a"
  note l = wval_split [OF kn]
  have "wval (drop k (take n a)) = 0 \<longleftrightarrow> (\<forall>i\<in>{k..<n}. a ! i = 0)"
  proof -
    have "drop k (take n a) = map ((!) a) [k..<n]" using kn(2) by (intro nth_equalityI) auto
    then show ?thesis by (simp add: wval_eq_0_iff)
  qed
  then show ?thesis unfolding l by simp
qed

lemma bn_cmp_words_consttime_eq:
  assumes "na \<le> length a" "nb \<le> length b"
  shows "bn_cmp_words_consttime a na b nb = sgn (int (wval (take na a)) - int (wval (take nb b)))"
proof -
  have lt: "wval (take k xs) < W ^ k" if "k \<le> length xs" for k and xs :: "u64 list" using wval_less [of "take k xs"] that by simp
  have big: "W ^ k \<le> wval (take n xs)" if "k \<le> n" "n \<le> length xs" "wval (take n xs) \<noteq> wval (take k xs)" for k n and xs :: "u64 list"
    using that(3) unfolding wval_split [OF that(1,2)] by (cases "wval (drop k (take n xs))") simp_all
  consider "na = nb" | "na < nb" | "nb < na" by linarith
  then show ?thesis
  proof cases
    case 1
    then show ?thesis using assms cmp_words_loop [of na a b] by (simp add: bn_cmp_words_consttime_def)
  next
    case 2
    show ?thesis
    proof (cases "wval (take nb b) = wval (take na b)")
      case True
      then show ?thesis using 2 assms cmp_words_loop [of na a b] sgn_in [of "int (wval (take na a)) - int (wval (take na b))"]
          words_zero_iff [of na nb b]
        by (simp add: bn_cmp_words_consttime_def constant_time_is_zero_w_eq foldl_or_eq_0 select_int_eqs)
    next
      case False
      then have "wval (take na a) < wval (take nb b)" using big [of na nb b] lt [of na a] 2 assms by simp
      moreover have "(\<forall>i\<in>{na..<nb}. b ! i = 0) = False" using words_zero_iff [of na nb b] 2 assms False by simp
      ultimately show ?thesis using False 2 assms cmp_words_loop [of na a b] sgn_in [of "int (wval (take na a)) - int (wval (take na b))"]
        by (auto simp: bn_cmp_words_consttime_def constant_time_is_zero_w_eq foldl_or_eq_0 select_int_eqs)
    qed
  next
    case 3
    show ?thesis
    proof (cases "wval (take na a) = wval (take nb a)")
      case True
      then show ?thesis using 3 assms cmp_words_loop [of nb a b] sgn_in [of "int (wval (take nb a)) - int (wval (take nb b))"]
          words_zero_iff [of nb na a]
        by (simp add: bn_cmp_words_consttime_def constant_time_is_zero_w_eq foldl_or_eq_0 select_int_eqs)
    next
      case False
      then have "wval (take nb b) < wval (take na a)" using big [of nb na a] lt [of nb b] 3 assms by simp
      moreover have "(\<forall>i\<in>{nb..<na}. a ! i = 0) = False" using words_zero_iff [of nb na a] 3 assms False by simp
      ultimately show ?thesis using False 3 assms cmp_words_loop [of nb a b] sgn_in [of "int (wval (take nb a)) - int (wval (take nb b))"]
        by (auto simp: bn_cmp_words_consttime_def constant_time_is_zero_w_eq foldl_or_eq_0 select_int_eqs)
    qed
  qed
qed

section \<open>Shifts and bits\<close>

primrec rsh :: "nat \<Rightarrow> u64 list \<Rightarrow> u64 list" where
  "rsh s [] = []"
| "rsh s (x # xs) = (case xs of [] \<Rightarrow> drop_bit s x | y # _ \<Rightarrow> drop_bit s x OR push_bit (64 - s) y) # rsh s xs"

lemma length_rsh [simp]: "length (rsh s xs) = length xs"
  by (induction xs) simp_all

lemma nth_rsh: "i < length xs \<Longrightarrow>
    rsh s xs ! i = (if Suc i < length xs then drop_bit s (xs ! i) OR push_bit (64 - s) (xs ! Suc i) else drop_bit s (xs ! i))"
  by (induction xs arbitrary: i) (auto simp: nth_Cons' split: list.splits)

lemma W_split: "s \<le> 64 \<Longrightarrow> W = 2 ^ s * 2 ^ (64 - s)"
  by (simp add: W_def flip: power_add)

lemma unat_push_bit_W: "unat (push_bit n (y :: u64)) = unat y * 2 ^ n mod W"
  using unat_push_bit [of n y] by (simp add: W_def)

lemma unat_shift_or:
  assumes "0 < s" "s < 64"
  shows "unat (drop_bit s x OR push_bit (64 - s) (y :: u64)) = unat x div 2 ^ s + 2 ^ (64 - s) * (unat y mod 2 ^ s)"
proof -
  have "unat (push_bit (64 - s) y) = 2 ^ (64 - s) * (unat y mod 2 ^ s)"
    using W_split [of s] assms mult_mod_right [of "2 ^ (64 - s)" "unat y" "2 ^ s"] unat_push_bit_W [of "64 - s" y]
    by (simp add: mult.commute)
  moreover have "unat (drop_bit s x) < 2 ^ (64 - s)"
    using unat_u64_less [of x] W_split [of s] assms by (simp add: unat_drop_bit_div div_less_iff_less_mult mult.commute)
  ultimately show ?thesis
    using unat_or_add [of "64 - s" "push_bit (64 - s) y" "drop_bit s x"] by (simp add: or.commute unat_drop_bit_div)
qed

lemma wval_rsh: "0 < s \<Longrightarrow> s < 64 \<Longrightarrow> wval (rsh s xs) = wval xs div 2 ^ s"
proof (induction xs)
  case (Cons x xs)
  have w: "W = 2 ^ s * 2 ^ (64 - s)" by (rule W_split) (use Cons.prems in simp)
  have d: "wval (x # xs) div 2 ^ s = unat x div 2 ^ s + 2 ^ (64 - s) * wval xs"
    by (simp add: w mult.assoc)
  show ?case
  proof (cases xs)
    case Nil
    then show ?thesis by (simp add: unat_drop_bit_div)
  next
    case (Cons y ys)
    have m: "wval xs mod 2 ^ s = unat y mod 2 ^ s" by (simp add: Cons w mult.assoc mod_add_eq [symmetric])
    have "wval (rsh s (x # xs)) = unat x div 2 ^ s + 2 ^ (64 - s) * (unat y mod 2 ^ s) + W * (wval xs div 2 ^ s)"
      using Cons.IH Cons.prems by (simp add: Cons unat_shift_or)
    also have "\<dots> = unat x div 2 ^ s + 2 ^ (64 - s) * (wval xs mod 2 ^ s + 2 ^ s * (wval xs div 2 ^ s))"
      unfolding m by (simp add: w algebra_simps)
    finally show ?thesis unfolding d by simp
  qed
qed simp

lemma wval_drop: "k \<le> length xs \<Longrightarrow> wval (drop k xs) = wval xs div W ^ k"
  using wval_take_drop [of k xs] wval_less [of "take k xs"] by simp

lemma pow2_words: "(2 :: nat) ^ s = W ^ (s div 64) * 2 ^ (s mod 64)"
  by (simp only: W_def power_mult [symmetric] power_add [symmetric] mult_div_mod_eq)

lemma wval_less_pow2: "length xs \<le> s div 64 \<Longrightarrow> wval xs < 2 ^ s"
proof -
  assume "length xs \<le> s div 64"
  then have "W ^ length xs \<le> W ^ (s div 64)" by (intro power_increasing) (simp_all add: Suc_leI)
  also have "\<dots> \<le> 2 ^ s" by (simp add: pow2_words [of s])
  finally show ?thesis using wval_less [of xs] by simp
qed

lemma rsh_words:
  assumes "k < n" "n \<le> length a"
  shows "map (\<lambda>i. drop_bit s (a ! i) OR push_bit (64 - s) (a ! (i + 1))) [k..<n - 1] @ [drop_bit s (a ! (n - 1))] =
    rsh s (drop k (take n a))"
proof -
  obtain m where "n = Suc m" "k \<le> m" using assms(1) by (cases n) auto
  then show ?thesis
    using assms(2)
  proof (intro nth_equalityI)
    fix i assume "i < length (map (\<lambda>i. drop_bit s (a ! i) OR push_bit (64 - s) (a ! (i + 1))) [k..<n - 1] @ [drop_bit s (a ! (n - 1))])"
    then consider "i < m - k" | "i = m - k" using \<open>n = Suc m\<close> \<open>k \<le> m\<close> by fastforce
    then show "(map (\<lambda>i. drop_bit s (a ! i) OR push_bit (64 - s) (a ! (i + 1))) [k..<n - 1] @ [drop_bit s (a ! (n - 1))]) ! i =
        rsh s (drop k (take n a)) ! i"
      using \<open>n = Suc m\<close> \<open>k \<le> m\<close> assms(2) by cases (simp_all add: nth_append nth_rsh Suc_diff_le)
  qed simp
qed

lemma bn_rshift_words_val:
  assumes "n \<le> length a"
  shows "wval (bn_rshift_words a s n) = wval (take n a) div 2 ^ s \<and> length (bn_rshift_words a s n) = n"
proof -
  have p: "(2 :: nat) ^ s = W ^ (s div 64) * 2 ^ (s mod 64)"
    by (rule pow2_words)
  show ?thesis
  proof (cases "n \<le> s div 64")
    case True
    then have "wval (take n a) < 2 ^ s" using wval_less_pow2 [of "take n a"] assms by simp
    then show ?thesis using True by (simp add: bn_rshift_words_def)
  next
    case False
    define t where "t = drop (s div 64) (take n a)"
    have t: "wval t = wval (take n a) div W ^ (s div 64)" "length t = n - s div 64"
      using wval_drop [of "s div 64" "take n a"] False assms by (simp_all add: t_def)
    have b: "(if s mod 64 = 0 then take (n - s div 64) (drop (s div 64) a)
                     else map (\<lambda>i. drop_bit (s mod 64) (a ! i) OR push_bit (64 - s mod 64) (a ! (i + 1))) [s div 64..<n - 1] @
                       [drop_bit (s mod 64) (a ! (n - 1))]) = (if s mod 64 = 0 then t else rsh (s mod 64) t)"
      using rsh_words [of "s div 64" n a "s mod 64"] False assms by (simp add: t_def drop_take)
    have "wval (if s mod 64 = 0 then t else rsh (s mod 64) t) = wval t div 2 ^ (s mod 64)" by (simp add: wval_rsh)
    then show ?thesis using False t by (simp add: bn_rshift_words_def Let_def b wval_append p div_mult2_eq)
  qed
qed

lemma bn_rshift1_words_val:
  assumes "n \<le> length a"
  shows "wval (bn_rshift1_words a n) = wval (take n a) div 2 \<and> length (bn_rshift1_words a n) = n"
proof -
  have "bn_rshift1_words a n = rsh 1 (take n a)"
    using rsh_words [of 0 n a 1] assms by (simp add: bn_rshift1_words_def)
  then show ?thesis using wval_rsh [of 1 "take n a"] assms by simp
qed

lemma even_unat_word: "even (unat (x :: 'a::len word)) \<longleftrightarrow> even x"
  using bit_unsigned_iff [where 'a = nat, of x 0] by (simp add: bit_0)

lemma bn_is_bit_set_words_val: "n \<le> length a \<Longrightarrow> bn_is_bit_set_words a n i \<longleftrightarrow> bit (wval (take n a)) i"
proof -
  assume n: "n \<le> length a"
  have p: "(2 :: nat) ^ i = W ^ (i div 64) * 2 ^ (i mod 64)"
    by (rule pow2_words)
  show ?thesis
  proof (cases "n \<le> i div 64")
    case True
    then have "wval (take n a) < 2 ^ i" using wval_less_pow2 [of "take n a"] n by simp
    then show ?thesis using True by (simp add: bn_is_bit_set_words_def bit_iff_odd)
  next
    case False
    define v where "v = wval (drop (Suc (i div 64)) (take n a))"
    have "drop (i div 64) (take n a) = a ! (i div 64) # drop (Suc (i div 64)) (take n a)"
      using False n by (simp add: Cons_nth_drop_Suc [symmetric])
    then have d: "wval (take n a) div W ^ (i div 64) = unat (a ! (i div 64)) + W * v"
      using wval_drop [of "i div 64" "take n a"] False n by (simp add: v_def)
    have w: "W = 2 ^ (i mod 64) * (2 * 2 ^ (63 - i mod 64))"
      using W_split [of "i mod 64"] by (simp add: Suc_diff_le [symmetric] flip: power_Suc)
    have "wval (take n a) div 2 ^ i = unat (a ! (i div 64)) div 2 ^ (i mod 64) + 2 * 2 ^ (63 - i mod 64) * v"
      unfolding p div_mult2_eq d by (simp add: w mult.assoc)
    moreover have "drop_bit (i mod 64) (a ! (i div 64)) AND 1 = 1 \<longleftrightarrow> odd (unat (a ! (i div 64)) div 2 ^ (i mod 64))"
      by (simp add: and_one_eq mod_2_eq_odd even_unat_word flip: unat_drop_bit_div)
    ultimately show ?thesis using False by (simp add: bn_is_bit_set_words_def Let_def bit_iff_odd)
  qed
qed

end
