(* ===== verification/Bn_Val.thy ===== *)
theory Bn_Val
  imports Bn Bn_Words_More
begin

text \<open>
  What the operations of \<open>Bn\<close> compute: \<open>bn_val\<close> is the integer a \<open>BIGNUM\<close> stands for, whatever its width. Addition,
  subtraction, comparison, and the operations with a word or on single bits are those of the integers.
\<close>

unbundle bit_operations_syntax

section \<open>Numbers\<close>

definition bn_ok :: "bignum \<Rightarrow> bool" where
  "bn_ok a \<longleftrightarrow> bn_width a \<le> length (bn_d a)"

definition bn_abs :: "bignum \<Rightarrow> nat" where
  "bn_abs a = wval (take (bn_width a) (bn_d a))"

definition bn_val :: "bignum \<Rightarrow> int" where
  "bn_val a = (if bn_neg a then - int (bn_abs a) else int (bn_abs a))"

text \<open>No negative zero, and no leading zero words.\<close>

definition bn_signed :: "bignum \<Rightarrow> bool" where
  "bn_signed a \<longleftrightarrow> (bn_neg a \<longrightarrow> bn_abs a \<noteq> 0)"

definition bn_minimal :: "bignum \<Rightarrow> bool" where
  "bn_minimal a \<longleftrightarrow> bn_ok a \<and> bn_signed a \<and> (bn_width a \<noteq> 0 \<longrightarrow> bn_d a ! (bn_width a - 1) \<noteq> 0)"

text \<open>When expanding to \<open>n\<close> words is certain to succeed.\<close>

definition can_expand :: "bn_alloc \<Rightarrow> bignum \<Rightarrow> nat \<Rightarrow> bool" where
  "can_expand al a n \<longleftrightarrow> n \<le> length (bn_d a) \<or> (n \<le> 8388607 \<and> \<not> bn_static_data a \<and> (\<forall>k. al k \<noteq> None))"

lemma foldl_range:
  assumes "P k s" "\<And>i s. k \<le> i \<Longrightarrow> i < n \<Longrightarrow> P i s \<Longrightarrow> P (Suc i) (f s i)" "k \<le> n"
  shows "P n (foldl f s [k..<n])"
  using assms(3,2)
proof (induction n rule: dec_induct)
  case (step m)
  have "P m (foldl f s [k..<m])" using step.IH step.prems by simp
  then show ?case using step.hyps step.prems [of m] by simp
qed (use assms(1) in simp)

lemma bn_abs_less: "bn_ok a \<Longrightarrow> bn_abs a < W ^ bn_width a"
  using wval_less [of "take (bn_width a) (bn_d a)"] by (simp add: bn_abs_def bn_ok_def)

lemma wval_take_drop_Suc: "n < length xs \<Longrightarrow> wval (take (Suc n) xs) = wval (take n xs) + W ^ n * unat (xs ! n)"
  by (rule wval_take_Suc)

section \<open>Storage\<close>

lemma bn_wexpand_frame:
  assumes "bn_wexpand al a n = (ok, a')" "bn_ok a"
  shows "bn_ok a'" "bn_width a' = bn_width a" "bn_neg a' = bn_neg a" "bn_static_data a' = bn_static_data a"
    "take (bn_width a) (bn_d a') = take (bn_width a) (bn_d a)" "bn_abs a' = bn_abs a" "bn_val a' = bn_val a" "ok \<Longrightarrow> n \<le> length (bn_d a')"
    "length (bn_d a) \<le> length (bn_d a')"
proof -
  have *: "bn_ok a' \<and> bn_width a' = bn_width a \<and> bn_neg a' = bn_neg a \<and> bn_static_data a' = bn_static_data a \<and>
      take (bn_width a) (bn_d a') = take (bn_width a) (bn_d a) \<and> (ok \<longrightarrow> n \<le> length (bn_d a')) \<and> length (bn_d a) \<le> length (bn_d a')"
    using assms by (auto simp: bn_wexpand_def bn_ok_def split: if_splits option.splits)
  then show "bn_ok a'" "bn_width a' = bn_width a" "bn_neg a' = bn_neg a" "bn_static_data a' = bn_static_data a"
    "take (bn_width a) (bn_d a') = take (bn_width a) (bn_d a)" "ok \<Longrightarrow> n \<le> length (bn_d a')" "length (bn_d a) \<le> length (bn_d a')" by simp_all
  from * show "bn_abs a' = bn_abs a" "bn_val a' = bn_val a" by (simp_all add: bn_abs_def bn_val_def)
qed

lemma can_expand_ok: "can_expand al a n \<Longrightarrow> fst (bn_wexpand al a n)"
  by (cases "al (8 * n)") (auto simp: can_expand_def bn_wexpand_def dest: spec [of _ "8 * n"])

lemma can_expand_mono: "can_expand al a n \<Longrightarrow> m \<le> n \<Longrightarrow> can_expand al a m"
  by (auto simp: can_expand_def)

lemma length_put_words: "k + length ws \<le> length d \<Longrightarrow> length (put_words k ws d) = length d"
  by (simp add: put_words_def)

lemma take_put_words_0: "n = length ws \<Longrightarrow> take n (put_words 0 ws d) = ws"
  by (simp add: put_words_def)

lemma minimal_width_loop_props:
  assumes "n \<le> length d"
  shows "minimal_width_loop d n \<le> n" "wval (take (minimal_width_loop d n) d) = wval (take n d)"
    "minimal_width_loop d n \<noteq> 0 \<Longrightarrow> d ! (minimal_width_loop d n - 1) \<noteq> 0"
  using assms by (induction n) (auto simp: wval_take_Suc)

lemma bn_set_minimal_width_fields [simp]:
  "bn_width (bn_set_minimal_width a) = bn_minimal_width a" "bn_d (bn_set_minimal_width a) = bn_d a"
  "bn_neg (bn_set_minimal_width a) = (bn_neg a \<and> bn_minimal_width a \<noteq> 0)"
  by (simp_all add: bn_set_minimal_width_def Let_def)

lemma bn_set_minimal_width_props:
  assumes "bn_ok a"
  shows "bn_minimal (bn_set_minimal_width a)" "bn_abs (bn_set_minimal_width a) = bn_abs a" "bn_val (bn_set_minimal_width a) = bn_val a"
    "bn_neg (bn_set_minimal_width a) \<Longrightarrow> bn_neg a" "bn_width (bn_set_minimal_width a) \<le> bn_width a" "bn_ok (bn_set_minimal_width a)"
proof -
  let ?w = "bn_minimal_width a"
  have w: "bn_width a \<le> length (bn_d a)" using assms by (simp add: bn_ok_def)
  note m = minimal_width_loop_props [OF w, folded bn_minimal_width_def]
  show a: "bn_abs (bn_set_minimal_width a) = bn_abs a" using m(2) by (simp add: bn_abs_def)
  show "bn_neg (bn_set_minimal_width a) \<Longrightarrow> bn_neg a" by simp
  show "bn_width (bn_set_minimal_width a) \<le> bn_width a" using m(1) by simp
  show ok: "bn_ok (bn_set_minimal_width a)" using m(1) w by (simp add: bn_ok_def)
  show "bn_val (bn_set_minimal_width a) = bn_val a"
    unfolding bn_val_def a using m(2) by (cases "?w = 0") (simp_all add: bn_abs_def)
  have "bn_abs a \<noteq> 0" if "?w \<noteq> 0"
  proof -
    have "?w - 1 < length (bn_d a)" using m(1) w that by simp
    then have "wval (take (Suc (?w - 1)) (bn_d a)) \<noteq> 0" using m(3) [OF that] by (simp add: wval_take_Suc unat_eq_0)
    then show ?thesis using m(2) that by (simp add: bn_abs_def)
  qed
  then show "bn_minimal (bn_set_minimal_width a)" using m(3) ok by (simp add: bn_minimal_def bn_signed_def a)
qed

section \<open>Comparison\<close>

lemma BN_ucmp_val: "bn_ok a \<Longrightarrow> bn_ok b \<Longrightarrow> BN_ucmp a b = sgn (int (bn_abs a) - int (bn_abs b))"
  by (simp add: BN_ucmp_def bn_ok_def bn_abs_def bn_cmp_words_consttime_eq)

lemma BN_cmp_val:
  assumes "bn_ok a" "bn_ok b" "bn_signed a" "bn_signed b"
  shows "BN_cmp (Some a) (Some b) = sgn (bn_val a - bn_val b)"
  using assms by (auto simp: BN_cmp_def BN_ucmp_val bn_val_def bn_signed_def sgn_if)

lemma bn_fits_in_words_val: "bn_ok a \<Longrightarrow> bn_fits_in_words a n \<longleftrightarrow> bn_abs a < W ^ n"
proof -
  assume ok: "bn_ok a"
  show ?thesis
  proof (cases "n \<le> bn_width a")
    case True
    then have l: "bn_abs a = wval (take n (bn_d a)) + W ^ n * wval (drop n (take (bn_width a) (bn_d a)))"
      using wval_split [of n "bn_width a" "bn_d a"] ok by (simp add: bn_ok_def bn_abs_def)
    have "bn_fits_in_words a n \<longleftrightarrow> wval (drop n (take (bn_width a) (bn_d a))) = 0"
      using words_zero_iff [of n "bn_width a" "bn_d a"] True ok l by (simp add: bn_fits_in_words_def foldl_or_eq_0 bn_ok_def bn_abs_def)
    moreover have "wval (take n (bn_d a)) < W ^ n" using wval_less [of "take n (bn_d a)"] True ok by (simp add: bn_ok_def)
    ultimately show ?thesis unfolding l by (cases "wval (drop n (take (bn_width a) (bn_d a)))") auto
  next
    case False
    then have "W ^ bn_width a \<le> W ^ n" by (intro power_increasing) (simp_all add: Suc_leI)
    then have "bn_abs a < W ^ n" using bn_abs_less [OF ok] by (rule less_le_trans [rotated])
    then show ?thesis using False by (simp add: bn_fits_in_words_def)
  qed
qed

lemma BN_is_zero_val: "bn_ok a \<Longrightarrow> BN_is_zero a \<longleftrightarrow> bn_abs a = 0"
  by (simp add: BN_is_zero_def bn_fits_in_words_val)

section \<open>Addition and subtraction\<close>

lemma sub_borrow_0:
  assumes "unat c \<le> 1"
  shows "unat (a - c) + unat c = unat a + W * of_bool (a < a - (c :: u64))"
proof -
  consider "c = 0" | "c = 1" using mask_of_borrow_cases [OF assms] by blast
  then show ?thesis
  proof cases
    case 2
    show ?thesis
    proof (cases "a = 0")
      case False
      then have "unat (a - 1) = unat a - 1" "unat a \<noteq> 0" by (simp_all add: unat_minus_one unat_eq_0)
      then show ?thesis using 2 by (simp add: word_less_nat_alt)
    qed (simp add: 2 W_def unsigned_minus_1_eq_mask mask_eq_exp_minus_1 word_less_nat_alt)
  qed simp
qed

lemma bn_uadd_consttime_val:
  assumes "bn_uadd_consttime al r a b = (ok, r')" "bn_ok r" "bn_ok a" "bn_ok b"
  shows "ok \<Longrightarrow> bn_ok r' \<and> bn_abs r' = bn_abs a + bn_abs b \<and> bn_neg r' = bn_neg r \<and> bn_width r' = max (bn_width a) (bn_width b) + 1"
    and "can_expand al r (max (bn_width a) (bn_width b) + 1) \<Longrightarrow> ok"
proof -
  obtain a1 b1 where ab: "(a1, b1) = (if bn_width a < bn_width b then (b, a) else (a, b))" by (metis surj_pair)
  define mx where "mx = bn_width a1"
  define mn where "mn = bn_width b1"
  have w: "mn \<le> mx" "mx = max (bn_width a) (bn_width b)" "bn_ok a1" "bn_ok b1" "bn_abs a1 + bn_abs b1 = bn_abs a + bn_abs b"
    using ab assms(3,4) by (auto simp: mx_def mn_def split: if_splits)
  obtain ok1 r1 where e: "bn_wexpand al r (mx + 1) = (ok1, r1)" by (meson surj_pair)
  note f = bn_wexpand_frame [OF e assms(2)]
  obtain rd c where s: "bn_add_words (bn_d r1) (bn_d a1) (bn_d b1) mn = (rd, c)" by (meson surj_pair)
  define g where "g = (\<lambda>(rd, carry) i. let tmp = carry + bn_d a1 ! i in (rd[i := tmp], if tmp < bn_d a1 ! i then 1 else (0 :: u64)))"
  obtain rd2 c2 where st: "foldl g (rd, c) [mn..<mx] = (rd2, c2)" by (meson surj_pair)
  have u: "bn_uadd_consttime al r a b = (if \<not> ok1 then (False, r1) else (True, r1\<lparr>bn_width := mx + 1, bn_d := rd2[mx := c2]\<rparr>))"
    unfolding bn_uadd_consttime_def ab [symmetric]
    by (simp add: Let_def mx_def [symmetric] mn_def [symmetric] e [simplified] s st [unfolded g_def Let_def])
  show "can_expand al r (max (bn_width a) (bn_width b) + 1) \<Longrightarrow> ok"
    using can_expand_ok [of al r "mx + 1"] assms(1) u e w(2) by (auto split: if_splits)
  assume "ok"
  then have ok1: ok1 and r': "r' = r1\<lparr>bn_width := mx + 1, bn_d := rd2[mx := c2]\<rparr>" using assms(1) u by (auto split: if_splits)
  have l: "mx + 1 \<le> length (bn_d r1)" using f(8) ok1 by simp
  have la: "mx \<le> length (bn_d a1)" "mn \<le> length (bn_d b1)" using w(3,4) by (simp_all add: bn_ok_def mx_def mn_def)
  have "case foldl g (rd, c) [mn..<mx] of (rd, c) \<Rightarrow> length rd = length (bn_d r1) \<and> wval (take mx rd) + W ^ mx * unat c = wval (take mx (bn_d a1)) + bn_abs b1"
  proof (rule foldl_range [where P = "\<lambda>i (rd, c). length rd = length (bn_d r1) \<and> wval (take i rd) + W ^ i * unat c = wval (take i (bn_d a1)) + bn_abs b1"])
    show "case (rd, c) of (rd, c) \<Rightarrow> length rd = length (bn_d r1) \<and> wval (take mn rd) + W ^ mn * unat c = wval (take mn (bn_d a1)) + bn_abs b1"
      using bn_add_words_val [OF s] bn_add_words_frame [OF s] l la w(1) by (simp add: bn_abs_def mn_def)
  next
    fix i and s :: "u64 list \<times> u64"
    obtain rd c where s: "s = (rd, c)" by (cases s)
    assume i: "mn \<le> i" "i < mx"
      and "case s of (rd, c) \<Rightarrow> length rd = length (bn_d r1) \<and> wval (take i rd) + W ^ i * unat c = wval (take i (bn_d a1)) + bn_abs b1"
    then have ih: "length rd = length (bn_d r1)" "wval (take i rd) + W ^ i * unat c = wval (take i (bn_d a1)) + bn_abs b1" by (simp_all add: s)
    let ?x = "c + bn_d a1 ! i"
    have "wval (take (Suc i) (rd[i := ?x])) + W ^ Suc i * of_bool (?x < bn_d a1 ! i) =
        wval (take i rd) + W ^ i * (unat ?x + W * of_bool (?x < bn_d a1 ! i))"
      using ih(1) l i by (simp add: wval_take_Suc algebra_simps)
    also have "\<dots> = (wval (take i rd) + W ^ i * unat c) + W ^ i * unat (bn_d a1 ! i)"
      unfolding add_carry64 by (simp add: algebra_simps)
    also have "\<dots> = wval (take (Suc i) (bn_d a1)) + bn_abs b1" unfolding ih(2) using i la by (simp add: wval_take_Suc)
    finally show "case g s i of (rd, c) \<Rightarrow> length rd = length (bn_d r1) \<and> wval (take (Suc i) rd) + W ^ Suc i * unat c = wval (take (Suc i) (bn_d a1)) + bn_abs b1"
      using ih(1) by (simp add: s g_def Let_def of_bool_def if_distrib [of unat] cong: if_cong)
  qed (rule w(1))
  then have "length rd2 = length (bn_d r1)" "wval (take mx rd2) + W ^ mx * unat c2 = bn_abs a1 + bn_abs b1"
    unfolding st by (simp_all add: bn_abs_def mx_def)
  moreover have "bn_abs r' = wval (take mx rd2) + W ^ mx * unat c2"
    using wval_take_Suc [of mx "rd2[mx := c2]"] calculation l by (simp add: r' bn_abs_def)
  ultimately show "bn_ok r' \<and> bn_abs r' = bn_abs a + bn_abs b \<and> bn_neg r' = bn_neg r \<and> bn_width r' = max (bn_width a) (bn_width b) + 1"
    using l f(3) w(5) unfolding w(2) [symmetric] by (simp add: r' bn_ok_def)
qed

lemma BN_uadd_val:
  assumes "BN_uadd al r a b = (ok, r')" "bn_ok r" "bn_ok a" "bn_ok b"
  shows "ok \<Longrightarrow> bn_minimal r' \<and> bn_abs r' = bn_abs a + bn_abs b \<and> (bn_neg r' \<longrightarrow> bn_neg r)"
    and "can_expand al r (max (bn_width a) (bn_width b) + 1) \<Longrightarrow> ok"
proof -
  obtain ok1 r1 where u: "bn_uadd_consttime al r a b = (ok1, r1)" by (meson surj_pair)
  note v = bn_uadd_consttime_val [OF u assms(2-4)]
  show "can_expand al r (max (bn_width a) (bn_width b) + 1) \<Longrightarrow> ok" using v(2) assms(1) by (simp add: BN_uadd_def u)
  assume ok
  then have "ok1" "r' = bn_set_minimal_width r1" using assms(1) by (auto simp: BN_uadd_def u split: if_splits)
  then show "bn_minimal r' \<and> bn_abs r' = bn_abs a + bn_abs b \<and> (bn_neg r' \<longrightarrow> bn_neg r)"
    using v(1) bn_set_minimal_width_props [of r1] by auto
qed

lemma bn_usub_consttime_val:
  assumes "bn_usub_consttime al r a b = (ok, r')" "bn_ok r" "bn_ok a" "bn_ok b"
  shows "ok \<Longrightarrow> bn_ok r' \<and> bn_abs b \<le> bn_abs a \<and> bn_abs r' = bn_abs a - bn_abs b \<and> \<not> bn_neg r' \<and> bn_width r' = bn_width a"
    and "can_expand al r (bn_width a) \<Longrightarrow> bn_abs b \<le> bn_abs a \<Longrightarrow> ok"
proof -
  define wa where "wa = bn_width a"
  define wb where "wb = (if bn_width b > bn_width a then bn_width a else bn_width b)"
  have la: "wa \<le> length (bn_d a)" "wb \<le> wa" "wb \<le> length (bn_d b)" using assms(3,4) by (auto simp: bn_ok_def wa_def wb_def)
  have fit: "\<not> (bn_width b > bn_width a \<and> \<not> bn_fits_in_words b (bn_width a)) \<Longrightarrow> bn_abs b = wval (take wb (bn_d b))"
  proof -
    assume f: "\<not> (bn_width b > bn_width a \<and> \<not> bn_fits_in_words b (bn_width a))"
    show ?thesis
    proof (cases "bn_width b > bn_width a")
      case True
      then have "bn_fits_in_words b wa" using f by (simp add: wa_def)
      then show ?thesis
        using words_zero_iff [of wa "bn_width b" "bn_d b"] True assms(4)
        by (simp add: bn_fits_in_words_def foldl_or_eq_0 bn_abs_def bn_ok_def wa_def wb_def)
    qed (simp add: bn_abs_def wb_def)
  qed
  have unfit: "\<not> bn_abs b \<le> bn_abs a" if "bn_width b > bn_width a \<and> \<not> bn_fits_in_words b (bn_width a)"
    using that bn_fits_in_words_val [OF assms(4), of "bn_width a"] bn_abs_less [OF assms(3)] by simp
  obtain ok1 r1 where e: "bn_wexpand al r wa = (ok1, r1)" by (meson surj_pair)
  note f = bn_wexpand_frame [OF e assms(2)]
  obtain rd c where s: "bn_sub_words (bn_d r1) (bn_d a) (bn_d b) wb = (rd, c)" by (meson surj_pair)
  define g where "g = (\<lambda>(rd, borrow) i. let tmp = bn_d a ! i; rd = rd[i := bn_d a ! i - borrow] in (rd, if tmp < rd ! i then 1 else (0 :: u64)))"
  obtain rd2 c2 where st: "foldl g (rd, c) [wb..<wa] = (rd2, c2)" by (meson surj_pair)
  have u: "bn_usub_consttime al r a b =
      (if bn_width b > bn_width a \<and> \<not> bn_fits_in_words b (bn_width a) then (False, r) else if \<not> ok1 then (False, r1)
       else if c2 \<noteq> 0 then (False, r1\<lparr>bn_d := rd2\<rparr>) else (True, r1\<lparr>bn_d := rd2, bn_width := wa, bn_neg := False\<rparr>))"
    unfolding bn_usub_consttime_def wb_def [symmetric]
    by (simp add: Let_def wa_def [symmetric] e s st [unfolded g_def Let_def])
  have loop: "length rd2 = length (bn_d r1) \<and> wval (take wa rd2) + wval (take wb (bn_d b)) = bn_abs a + W ^ wa * unat c2 \<and> unat c2 \<le> 1"
    if ok1
  proof -
    have l: "wa \<le> length (bn_d r1)" using f(8) that by simp
    have "case foldl g (rd, c) [wb..<wa] of (rd, c) \<Rightarrow> length rd = length (bn_d r1) \<and>
        wval (take wa rd) + wval (take wb (bn_d b)) = wval (take wa (bn_d a)) + W ^ wa * unat c \<and> unat c \<le> 1"
    proof (rule foldl_range [where P = "\<lambda>i (rd, c). length rd = length (bn_d r1) \<and>
        wval (take i rd) + wval (take wb (bn_d b)) = wval (take i (bn_d a)) + W ^ i * unat c \<and> unat c \<le> 1"])
      show "case (rd, c) of (rd, c) \<Rightarrow> length rd = length (bn_d r1) \<and>
          wval (take wb rd) + wval (take wb (bn_d b)) = wval (take wb (bn_d a)) + W ^ wb * unat c \<and> unat c \<le> 1"
        using bn_sub_words_val [OF s] bn_sub_words_frame [OF s] l la by simp
    next
      fix i and s :: "u64 list \<times> u64"
      obtain rd c where s: "s = (rd, c)" by (cases s)
      assume i: "wb \<le> i" "i < wa"
        and "case s of (rd, c) \<Rightarrow> length rd = length (bn_d r1) \<and>
          wval (take i rd) + wval (take wb (bn_d b)) = wval (take i (bn_d a)) + W ^ i * unat c \<and> unat c \<le> 1"
      then have ih: "length rd = length (bn_d r1)" "wval (take i rd) + wval (take wb (bn_d b)) = wval (take i (bn_d a)) + W ^ i * unat c"
        "unat c \<le> 1" by (simp_all add: s)
      let ?x = "bn_d a ! i - c"
      have "wval (take (Suc i) (rd[i := ?x])) + wval (take wb (bn_d b)) = (wval (take i rd) + wval (take wb (bn_d b))) + W ^ i * unat ?x"
        using ih(1) l i by (simp add: wval_take_Suc)
      also have "\<dots> = wval (take i (bn_d a)) + W ^ i * (unat ?x + unat c)" unfolding ih(2) by (simp add: algebra_simps)
      also have "\<dots> = wval (take (Suc i) (bn_d a)) + W ^ Suc i * of_bool (bn_d a ! i < ?x)"
        unfolding sub_borrow_0 [OF ih(3)] using i la by (simp add: wval_take_Suc algebra_simps)
      finally show "case g s i of (rd, c) \<Rightarrow> length rd = length (bn_d r1) \<and>
          wval (take (Suc i) rd) + wval (take wb (bn_d b)) = wval (take (Suc i) (bn_d a)) + W ^ Suc i * unat c \<and> unat c \<le> 1"
        using ih(1) l i by (simp add: s g_def Let_def of_bool_def if_distrib [of unat] cong: if_cong)
    qed (rule la(2))
    then show ?thesis unfolding st by (simp add: bn_abs_def wa_def)
  qed
  show "can_expand al r (bn_width a) \<Longrightarrow> bn_abs b \<le> bn_abs a \<Longrightarrow> ok"
  proof -
    assume "can_expand al r (bn_width a)" and le: "bn_abs b \<le> bn_abs a"
    then have ok1 using can_expand_ok e by (fastforce simp: wa_def)
    have nf: "\<not> (bn_width b > bn_width a \<and> \<not> bn_fits_in_words b (bn_width a))" using unfit le by blast
    note lp = loop [OF \<open>ok1\<close>]
    have "wval (take wa rd2) < W ^ wa" using wval_less [of "take wa rd2"] lp f(8) \<open>ok1\<close> by simp
    then have "unat c2 = 0" using lp le fit [OF nf] by (cases "unat c2") auto
    then show ok using assms(1) u nf \<open>ok1\<close> by (simp add: unat_eq_0)
  qed
  assume ok
  then have o: "\<not> (bn_width b > bn_width a \<and> \<not> bn_fits_in_words b (bn_width a))" "ok1" "c2 = 0"
    and r': "r' = r1\<lparr>bn_d := rd2, bn_width := wa, bn_neg := False\<rparr>" using assms(1) u by (auto split: if_splits)
  have "wval (take wa rd2) + bn_abs b = bn_abs a" using loop [OF o(2)] fit [OF o(1)] o(3) by simp
  then show "bn_ok r' \<and> bn_abs b \<le> bn_abs a \<and> bn_abs r' = bn_abs a - bn_abs b \<and> \<not> bn_neg r' \<and> bn_width r' = bn_width a"
    using loop [OF o(2)] f(8) o(2) by (auto simp: r' bn_ok_def bn_abs_def wa_def)
qed

lemma BN_usub_val:
  assumes "BN_usub al r a b = (ok, r')" "bn_ok r" "bn_ok a" "bn_ok b"
  shows "ok \<Longrightarrow> bn_minimal r' \<and> bn_abs b \<le> bn_abs a \<and> bn_abs r' = bn_abs a - bn_abs b \<and> \<not> bn_neg r'"
    and "can_expand al r (bn_width a) \<Longrightarrow> bn_abs b \<le> bn_abs a \<Longrightarrow> ok"
proof -
  obtain ok1 r1 where u: "bn_usub_consttime al r a b = (ok1, r1)" by (meson surj_pair)
  note v = bn_usub_consttime_val [OF u assms(2-4)]
  show "can_expand al r (bn_width a) \<Longrightarrow> bn_abs b \<le> bn_abs a \<Longrightarrow> ok" using v(2) assms(1) by (simp add: BN_usub_def u)
  assume ok
  then have "ok1" "r' = bn_set_minimal_width r1" using assms(1) by (auto simp: BN_usub_def u split: if_splits)
  then show "bn_minimal r' \<and> bn_abs b \<le> bn_abs a \<and> bn_abs r' = bn_abs a - bn_abs b \<and> \<not> bn_neg r'"
    using v(1) bn_set_minimal_width_props [of r1] by auto
qed

lemma bn_minimal_neg: "bn_minimal r \<Longrightarrow> bn_abs r \<noteq> 0 \<or> \<not> neg \<Longrightarrow> bn_minimal (r\<lparr>bn_neg := neg\<rparr>)"
  by (auto simp: bn_minimal_def bn_ok_def bn_signed_def bn_abs_def)

lemma bn_neg_fields [simp]: "bn_abs (r\<lparr>bn_neg := neg\<rparr>) = bn_abs r" "bn_ok (r\<lparr>bn_neg := neg\<rparr>) = bn_ok r"
  by (simp_all add: bn_abs_def bn_ok_def)

lemma usub_signed_val:
  assumes "usub_signed al r a b = (ok, r')" "bn_ok r" "bn_ok a" "bn_ok b"
  shows "ok \<Longrightarrow> bn_minimal r' \<and> bn_val r' = int (bn_abs a) - int (bn_abs b)"
    and "can_expand al r (max (bn_width a) (bn_width b)) \<Longrightarrow> ok"
proof -
  have c: "BN_ucmp a b < 0 \<longleftrightarrow> bn_abs a < bn_abs b" using assms(3,4) by (simp add: BN_ucmp_val sgn_if)
  obtain ok1 r1 where u: "BN_usub al r a b = (ok1, r1)" by (meson surj_pair)
  obtain ok2 r2 where v: "BN_usub al r b a = (ok2, r2)" by (meson surj_pair)
  note uv = BN_usub_val [OF u assms(2,3,4)] and vv = BN_usub_val [OF v assms(2,4,3)]
  show ok if e: "can_expand al r (max (bn_width a) (bn_width b))"
    using assms(1) uv(2) [OF can_expand_mono [OF e max.cobounded1]] vv(2) [OF can_expand_mono [OF e max.cobounded2]]
    by (cases "bn_abs a < bn_abs b") (auto simp: usub_signed_def c u v)
  assume ok
  then show "bn_minimal r' \<and> bn_val r' = int (bn_abs a) - int (bn_abs b)"
    using assms(1) uv(1) vv(1) bn_minimal_neg [of r2 True] bn_minimal_neg [of r1 False]
    by (cases "bn_abs a < bn_abs b") (auto simp: usub_signed_def c u v bn_val_def split: if_splits)
qed

lemma BN_add_val:
  assumes "BN_add al r a b = (ok, r')" "bn_ok r" "bn_ok a" "bn_ok b" "bn_signed a" "bn_signed b"
  shows "ok \<Longrightarrow> bn_minimal r' \<and> bn_val r' = bn_val a + bn_val b"
    and "can_expand al r (max (bn_width a) (bn_width b) + 1) \<Longrightarrow> ok"
proof -
  obtain ok1 r1 where u: "BN_uadd al r a b = (ok1, r1)" by (meson surj_pair)
  obtain ok2 r2 where v: "usub_signed al r a b = (ok2, r2)" by (meson surj_pair)
  obtain ok3 r3 where w: "usub_signed al r b a = (ok3, r3)" by (meson surj_pair)
  note uv = BN_uadd_val [OF u assms(2,3,4)] and vv = usub_signed_val [OF v assms(2,3,4)] and wv = usub_signed_val [OF w assms(2,4,3)]
  show ok if e: "can_expand al r (max (bn_width a) (bn_width b) + 1)"
  proof -
    have "can_expand al r (max (bn_width b) (bn_width a))" by (subst max.commute) (rule can_expand_mono [OF e le_add1])
    then show ?thesis
      using assms(1) uv(2) [OF e] vv(2) [OF can_expand_mono [OF e le_add1]] wv(2)
      by (cases "bn_neg a"; cases "bn_neg b") (auto simp: BN_add_def u v w)
  qed
  assume ok
  then show "bn_minimal r' \<and> bn_val r' = bn_val a + bn_val b"
    using assms(1,5,6) uv(1) vv(1) wv(1) bn_minimal_neg [of r1 "bn_neg a"]
    by (cases "bn_neg a"; cases "bn_neg b") (auto simp: BN_add_def u v w bn_val_def bn_signed_def)
qed

lemma BN_sub_val:
  assumes "BN_sub al r a b = (ok, r')" "bn_ok r" "bn_ok a" "bn_ok b" "bn_signed a" "bn_signed b"
  shows "ok \<Longrightarrow> bn_minimal r' \<and> bn_val r' = bn_val a - bn_val b"
    and "can_expand al r (max (bn_width a) (bn_width b) + 1) \<Longrightarrow> ok"
proof -
  obtain ok1 r1 where u: "BN_uadd al r a b = (ok1, r1)" by (meson surj_pair)
  obtain ok2 r2 where v: "usub_signed al r a b = (ok2, r2)" by (meson surj_pair)
  obtain ok3 r3 where w: "usub_signed al r b a = (ok3, r3)" by (meson surj_pair)
  note uv = BN_uadd_val [OF u assms(2,3,4)] and vv = usub_signed_val [OF v assms(2,3,4)] and wv = usub_signed_val [OF w assms(2,4,3)]
  show ok if e: "can_expand al r (max (bn_width a) (bn_width b) + 1)"
  proof -
    have "can_expand al r (max (bn_width b) (bn_width a))" by (subst max.commute) (rule can_expand_mono [OF e le_add1])
    then show ?thesis
      using assms(1) uv(2) [OF e] vv(2) [OF can_expand_mono [OF e le_add1]] wv(2)
      by (cases "bn_neg a"; cases "bn_neg b") (auto simp: BN_sub_def u v w)
  qed
  assume ok
  then show "bn_minimal r' \<and> bn_val r' = bn_val a - bn_val b"
    using assms(1,5,6) uv(1) vv(1) wv(1) bn_minimal_neg [of r1 "bn_neg a"]
    by (cases "bn_neg a"; cases "bn_neg b") (auto simp: BN_sub_def u v w bn_val_def bn_signed_def split: if_splits)
qed

section \<open>Exactness\<close>

text \<open>An allocator that never fails, and numbers given by their words.\<close>

definition ample :: bn_alloc where
  "ample n = Some (\<lambda>_. 0xdead)"

definition bn_of_words :: "u64 list \<Rightarrow> bool \<Rightarrow> bignum" where
  "bn_of_words ws neg = \<lparr>bn_d = ws, bn_width = length ws, bn_neg = neg, bn_malloced = False, bn_static_data = False\<rparr>"

lemma bn_of_words_props:
  "bn_ok (bn_of_words ws neg)" "bn_abs (bn_of_words ws neg) = wval ws" "bn_width (bn_of_words ws neg) = length ws"
  "bn_neg (bn_of_words ws neg) = neg" "bn_signed (bn_of_words ws neg) \<longleftrightarrow> (neg \<longrightarrow> wval ws \<noteq> 0)"
  "bn_val (bn_of_words ws neg) = (if neg then - int (wval ws) else int (wval ws))"
  "n \<le> 8388607 \<Longrightarrow> can_expand ample (bn_of_words ws neg) n"
  by (simp_all add: bn_ok_def bn_abs_def bn_val_def bn_of_words_def bn_signed_def can_expand_def ample_def)

text \<open>
  C14. \<open>BN_add\<close> and \<open>BN_sub\<close> are addition and subtraction of integers for operands of any signs and widths, leading zero
  words included, and any old contents of \<open>r\<close>, an operand or not: a result has no leading zero word and no negative
  zero, and there is one unless memory for one word more than the wider operand cannot be had.
\<close>

theorem BN_add_sub_exact:
  assumes "bn_ok r" "bn_ok a" "bn_ok b" "bn_signed a" "bn_signed b"
  shows "(case BN_add al r a b of (ok, s) \<Rightarrow>
      (ok \<longrightarrow> bn_minimal s \<and> bn_val s = bn_val a + bn_val b) \<and> (can_expand al r (max (bn_width a) (bn_width b) + 1) \<longrightarrow> ok)) \<and>
    (case BN_sub al r a b of (ok, s) \<Rightarrow>
      (ok \<longrightarrow> bn_minimal s \<and> bn_val s = bn_val a - bn_val b) \<and> (can_expand al r (max (bn_width a) (bn_width b) + 1) \<longrightarrow> ok))"
  using BN_add_val [OF _ assms, of al] BN_sub_val [OF _ assms, of al] by (cases "BN_add al r a b"; cases "BN_sub al r a b") simp

theorem BN_add_sub_exact_witness:
  "\<exists>s. BN_sub ample (bn_of_words [] False) (bn_of_words [0, 1, 0] False) (bn_of_words [2] True) = (True, s) \<and> bn_minimal s \<and> bn_val s = 2 ^ 64 + 2"
  using BN_add_sub_exact [of "bn_of_words [] False" "bn_of_words [0, 1, 0] False" "bn_of_words [2] True" ample]
  by (auto simp: bn_of_words_props W_def split: prod.splits)

end
