(* ===== verification/Bn_Bits.thy ===== *)
theory Bn_Bits
  imports Bn_Val
begin

text \<open>
  Operations of \<open>Bn\<close> with a word, and on bits: \<open>BN_add_word\<close> and \<open>BN_sub_word\<close> (whose inner loop has no bound) add
  and subtract, \<open>BN_num_bits\<close> is the length in bits, the shifts multiply and divide by powers of two.
\<close>

unbundle bit_operations_syntax

section \<open>Words\<close>

lemma wval_update:
  assumes "i < n" "n \<le> length d"
  shows "wval (take n (d[i := x])) + W ^ i * unat (d ! i) = wval (take n d) + W ^ i * unat x"
  using assms
proof (induction n)
  case (Suc n)
  show ?case
  proof (cases "i = n")
    case True
    then show ?thesis using Suc.prems by (simp add: wval_take_Suc)
  next
    case False
    then show ?thesis using Suc by (simp add: wval_take_Suc)
  qed
qed simp

lemma BN_set_word_val:
  assumes "BN_set_word al a w = (ok, a')" "bn_ok a"
  shows "ok \<Longrightarrow> bn_minimal a' \<and> bn_val a' = int (unat w)" "can_expand al a 1 \<Longrightarrow> ok"
proof -
  obtain ok1 a1 where e: "bn_wexpand al a 1 = (ok1, a1)" by (meson surj_pair)
  note f = bn_wexpand_frame [OF e assms(2)]
  show "ok \<Longrightarrow> bn_minimal a' \<and> bn_val a' = int (unat w)"
    using assms(1) f(8) by (cases "bn_d a1")
      (auto simp: BN_set_word_def BN_zero_def e [simplified] bn_minimal_def bn_ok_def bn_signed_def bn_abs_def bn_val_def unat_eq_0 split: if_splits)
  show "can_expand al a 1 \<Longrightarrow> ok" using can_expand_ok [of al a 1] assms(1) e [simplified] by (auto simp: BN_set_word_def split: if_splits)
qed

lemma add_word_loop_val:
  "add_word_loop width d i w = (d', i', w') \<Longrightarrow> i \<le> width \<Longrightarrow> width \<le> length d \<Longrightarrow>
   length d' = length d \<and> wval (take width d') + W ^ width * unat w' = wval (take width d) + W ^ i * unat w \<and> (w' \<noteq> 0 \<longrightarrow> i' = width)"
proof (induction width d i w arbitrary: d' i' w' rule: add_word_loop.induct)
  case (1 width d i w)
  show ?case
  proof (cases "w \<noteq> 0 \<and> i < width")
    case True
    define l where "l = d ! i + w"
    define c :: u64 where "c = (if w > l then 1 else 0)"
    have s: "add_word_loop width (d[i := l]) (i + 1) c = (d', i', w')"
      using "1.prems"(1) True by (simp add: add_word_loop.simps [of width d] l_def c_def Let_def)
    have "unat c = of_bool (l < w)" by (simp add: c_def)
    then have c: "unat l + W * unat c = unat (d ! i) + unat w" using add_carry64 [of "d ! i" w] by (simp add: l_def)
    have ih: "length d' = length d \<and> wval (take width d') + W ^ width * unat w' = wval (take width (d[i := l])) + W ^ Suc i * unat c \<and> (w' \<noteq> 0 \<longrightarrow> i' = width)"
      using "1.IH" [OF True l_def refl s [unfolded c_def]] "1.prems"(2,3) True by (simp add: c_def)
    have "wval (take width (d[i := l])) + W ^ i * unat (d ! i) = wval (take width d) + W ^ i * unat l"
      using True "1.prems"(3) by (intro wval_update) simp_all
    moreover have "W ^ i * (unat l + W * unat c) = W ^ i * (unat (d ! i) + unat w)" unfolding c ..
    ultimately have "wval (take width (d[i := l])) + W ^ Suc i * unat c = wval (take width d) + W ^ i * unat w"
      by (simp add: algebra_simps)
    then show ?thesis using ih by simp
  next
    case False
    then show ?thesis using "1.prems" by (auto simp: add_word_loop.simps [of width d])
  qed
qed

lemma sub_word_loop_val:
  "unat w \<le> wval (drop i (take n d)) \<Longrightarrow> i < n \<Longrightarrow> n \<le> length d \<Longrightarrow>
   \<exists>d' i'. sub_word_loop d i w = Some (d', i') \<and> i' < n \<and> length d' = length d \<and> wval (take n d') + W ^ i * unat w = wval (take n d)"
proof (induction d i w rule: sub_word_loop.induct)
  case (1 d i w)
  define x where "x = d ! i - w"
  have u: "wval (take n (d[i := x])) + W ^ i * unat (d ! i) = wval (take n d) + W ^ i * unat x"
    using "1.prems" by (intro wval_update)
  show ?case
  proof (cases "d ! i \<ge> w")
    case True
    then have "unat x + unat w = unat (d ! i)" by (simp add: x_def unat_sub word_le_nat_alt)
    then have "W ^ i * (unat x + unat w) = W ^ i * unat (d ! i)" by (simp only:)
    then have "wval (take n (d[i := x])) + W ^ i * unat w = wval (take n d)" using u by (simp add: distrib_left)
    then show ?thesis using True "1.prems" by (simp add: sub_word_loop.simps [of d] x_def)
  next
    case False
    then have lt: "d ! i < w" by simp
    then have b: "unat x + unat w = unat (d ! i) + W"
      using sub_borrow64 [of 0 "d ! i" w] by (auto simp: x_def)
    have dr: "drop i (take n d) = d ! i # drop (Suc i) (take n d)"
      using "1.prems" by (simp add: Cons_nth_drop_Suc [symmetric])
    then have "wval (drop (Suc i) (take n d)) \<noteq> 0" using lt "1.prems"(1) by (intro notI) (simp add: word_less_nat_alt)
    then have s: "Suc i < n" "unat (1 :: u64) \<le> wval (drop (Suc i) (take n d))" using "1.prems" by (cases "Suc i < n"; simp add: Suc_le_eq)+
    have t: "drop (Suc i) (take n (d[i := x])) = drop (Suc i) (take n d)" by (simp add: drop_take)
    obtain d' i' where r: "sub_word_loop (d[i := x]) (Suc i) 1 = Some (d', i')" "i' < n" "length d' = length d"
      "wval (take n d') + W ^ Suc i = wval (take n (d[i := x]))"
      using "1.IH" [of ] s t "1.prems"(2,3) False by (fastforce simp: x_def)
    have "W ^ i * (unat x + unat w) = W ^ i * (unat (d ! i) + W)" unfolding b ..
    then have "wval (take n d') + W ^ i * unat w = wval (take n d)" using u r(4) by (simp add: distrib_left mult_ac)
    then show ?thesis using r False "1.prems" by (simp add: sub_word_loop.simps [of d] x_def)
  qed
qed

lemma add_word_pos_val:
  assumes "add_word_pos al a w = (ok, a')" "bn_ok a"
  shows "ok \<Longrightarrow> bn_ok a' \<and> bn_abs a' = bn_abs a + unat w \<and> bn_neg a' = bn_neg a" "can_expand al a (bn_width a + 1) \<Longrightarrow> ok"
proof -
  obtain d i c where l: "add_word_loop (bn_width a) (bn_d a) 0 w = (d, i, c)" by (metis surj_pair)
  have lv: "length d = length (bn_d a)" "wval (take (bn_width a) d) + W ^ bn_width a * unat c = bn_abs a + unat w" "c \<noteq> 0 \<Longrightarrow> i = bn_width a"
    using add_word_loop_val [OF l] assms(2) by (simp_all add: bn_ok_def bn_abs_def)
  define a0 where "a0 = a\<lparr>bn_d := d\<rparr>"
  have ok0: "bn_ok a0" using assms(2) lv(1) by (simp add: a0_def bn_ok_def)
  obtain ok1 a1 where e: "bn_wexpand al a0 (bn_width a + 1) = (ok1, a1)" by (meson surj_pair)
  note f = bn_wexpand_frame [OF e ok0]
  have eq: "add_word_pos al a w = (if c \<noteq> 0 then (if \<not> ok1 then (False, a1) else (True, a1\<lparr>bn_width := bn_width a1 + 1, bn_d := (bn_d a1)[bn_width a := c]\<rparr>)) else (True, a0))"
    using lv(3) e by (auto simp: add_word_pos_def l a0_def)
  show "can_expand al a (bn_width a + 1) \<Longrightarrow> ok"
  proof -
    assume "can_expand al a (bn_width a + 1)"
    then have "can_expand al a0 (bn_width a + 1)" using lv(1) by (simp add: can_expand_def a0_def)
    then show ok using can_expand_ok [of al a0 "bn_width a + 1"] assms(1) eq e by (auto split: if_splits)
  qed
  assume ok
  show "bn_ok a' \<and> bn_abs a' = bn_abs a + unat w \<and> bn_neg a' = bn_neg a"
  proof (cases "c = 0")
    case True
    then show ?thesis using lv assms eq \<open>ok\<close> ok0 by (auto simp: a0_def bn_abs_def)
  next
    case False
    then have o: ok1 "a' = a1\<lparr>bn_width := bn_width a1 + 1, bn_d := (bn_d a1)[bn_width a := c]\<rparr>" using assms(1) eq \<open>ok\<close> by (auto split: if_splits)
    have "bn_abs a' = wval (take (bn_width a) (bn_d a1)) + W ^ bn_width a * unat c"
      using f(2,8) o(1) wval_take_Suc [of "bn_width a" "(bn_d a1)[bn_width a := c]"] by (simp add: o(2) bn_abs_def a0_def)
    also have "take (bn_width a) (bn_d a1) = take (bn_width a) d" using f(5) by (simp add: a0_def)
    finally show ?thesis using lv(2) f(2,3,8) o(1) by (simp add: o(2) bn_ok_def a0_def)
  qed
qed

lemma bn_minimal_width_val:
  assumes "bn_ok a"
  shows "bn_abs a = wval (take (bn_minimal_width a) (bn_d a))" "bn_minimal_width a \<le> bn_width a"
    "bn_minimal_width a \<noteq> 0 \<Longrightarrow> bn_d a ! (bn_minimal_width a - 1) \<noteq> 0"
    "bn_minimal_width a = 0 \<longleftrightarrow> bn_abs a = 0"
    "bn_minimal_width a \<noteq> 0 \<Longrightarrow> bn_abs a = wval (take (bn_minimal_width a - 1) (bn_d a)) + W ^ (bn_minimal_width a - 1) * unat (bn_d a ! (bn_minimal_width a - 1))"
proof -
  let ?w = "bn_minimal_width a"
  have w: "bn_width a \<le> length (bn_d a)" using assms by (simp add: bn_ok_def)
  note m = minimal_width_loop_props [OF w, folded bn_minimal_width_def]
  show a: "bn_abs a = wval (take ?w (bn_d a))" using m(2) by (simp add: bn_abs_def)
  show "?w \<le> bn_width a" by (rule m(1))
  show nz: "?w \<noteq> 0 \<Longrightarrow> bn_d a ! (?w - 1) \<noteq> 0" by (rule m(3))
  show s: "?w \<noteq> 0 \<Longrightarrow> bn_abs a = wval (take (?w - 1) (bn_d a)) + W ^ (?w - 1) * unat (bn_d a ! (?w - 1))"
    using wval_take_Suc [of "?w - 1" "bn_d a"] m(1) w unfolding a by simp
  show "?w = 0 \<longleftrightarrow> bn_abs a = 0"
  proof (cases "?w = 0")
    case False
    then show ?thesis using s nz by (simp add: unat_eq_0)
  qed (simp add: a)
qed

lemma sub_word_pos_val:
  assumes "bn_ok a" "\<not> bn_neg a" "bn_abs a \<noteq> 0"
  shows "\<exists>a'. sub_word_pos a w = Some a' \<and> bn_ok a' \<and> bn_signed a' \<and> bn_val a' = int (bn_abs a) - int (unat w)"
proof (cases "bn_minimal_width a = 1 \<and> bn_d a ! 0 < w")
  case True
  define d where "d = (bn_d a)[0 := w - bn_d a ! 0]"
  have a: "bn_abs a = unat (bn_d a ! 0)" using bn_minimal_width_val(5) [OF assms(1)] True by simp
  have l: "0 < bn_width a" "bn_width a \<le> length (bn_d a)" using bn_minimal_width_val(2) [OF assms(1)] True assms(1) by (simp_all add: bn_ok_def)
  have "wval (take (bn_width a) d) + unat (bn_d a ! 0) = bn_abs a + unat (w - bn_d a ! 0)"
    using wval_update [OF l] by (simp add: d_def bn_abs_def)
  then have "wval (take (bn_width a) d) = unat w - unat (bn_d a ! 0)" "unat (bn_d a ! 0) < unat w"
    using True by (simp_all add: a unat_sub word_le_nat_alt word_less_nat_alt less_imp_le)
  then show ?thesis using True l assms(1) unfolding a by (simp add: sub_word_pos_def d_def [symmetric] bn_ok_def bn_signed_def bn_val_def bn_abs_def) (simp add: d_def)
next
  case False
  have l: "0 < bn_width a" "bn_width a \<le> length (bn_d a)"
    using assms(1,3) by (auto simp: bn_ok_def bn_abs_def intro: Suc_leI gr0I)
  have mw: "bn_minimal_width a \<noteq> 0" using bn_minimal_width_val(4) [OF assms(1)] assms(3) by simp
  have le: "unat w \<le> bn_abs a"
  proof (cases "bn_minimal_width a = 1")
    case True
    then show ?thesis using False bn_minimal_width_val(5) [OF assms(1)] by (simp add: not_less word_le_nat_alt)
  next
    case False
    then obtain k where k: "bn_minimal_width a - 1 = Suc k" using mw by (cases "bn_minimal_width a"; cases "bn_minimal_width a - 1") auto
    have "W * 1 \<le> W * (W ^ k * unat (bn_d a ! Suc k))"
      using bn_minimal_width_val(3) [OF assms(1) mw] k by (intro mult_le_mono2) (simp add: Suc_leI unat_eq_0 flip: neq0_conv)
    also have "\<dots> \<le> bn_abs a" unfolding bn_minimal_width_val(5) [OF assms(1) mw] k by (simp add: mult.assoc)
    finally show ?thesis using unat_u64_less [of w] by simp
  qed
  obtain d i where s: "sub_word_loop (bn_d a) 0 w = Some (d, i)" "i < bn_width a" "length d = length (bn_d a)"
    "wval (take (bn_width a) d) + unat w = bn_abs a"
    using sub_word_loop_val [of w 0 "bn_width a" "bn_d a"] le l by (auto simp: bn_abs_def)
  have z: "wval (take (bn_width a - 1) d) = wval (take (bn_width a) d)" if "d ! i = 0" "int i = int (bn_width a) - 1"
  proof -
    obtain n where n: "bn_width a = Suc n" using l(1) by (cases "bn_width a") auto
    then have "i = n" using that(2) by simp
    then show ?thesis using that(1) wval_take_Suc [of n d] l(2) s(3) by (simp add: n)
  qed
  have v: "int (wval (take (bn_width a) d)) = int (bn_abs a) - int (unat w)"
    unfolding s(4) [symmetric] by simp
  have e: "sub_word_pos a w = Some (if d ! i = 0 \<and> int i = int (bn_width a) - 1 then a\<lparr>bn_d := d, bn_width := bn_width a - 1\<rparr> else a\<lparr>bn_d := d\<rparr>)"
    by (simp only: sub_word_pos_def False if_False s(1) option.case prod.case)
  show ?thesis
  proof (cases "d ! i = 0 \<and> int i = int (bn_width a) - 1")
    case True
    then show ?thesis using l assms(2) v z s(3) unfolding e if_P [OF True]
      by (simp add: bn_ok_def bn_signed_def bn_val_def) (simp add: bn_abs_def)
  next
    case nz: False
    then show ?thesis using l assms(2) v s(3) unfolding e if_not_P [OF nz]
      by (simp add: bn_ok_def bn_signed_def bn_val_def) (simp add: bn_abs_def)
  qed
qed

lemma bn_val_cases: "bn_neg a \<Longrightarrow> bn_val a = - int (bn_abs a)" "\<not> bn_neg a \<Longrightarrow> bn_val a = int (bn_abs a)"
  by (simp_all add: bn_val_def)

lemma bn_val_neg [simp]: "bn_val (a\<lparr>bn_neg := True\<rparr>) = - int (bn_abs a)" "bn_val (a\<lparr>bn_neg := False\<rparr>) = int (bn_abs a)"
  by (simp_all add: bn_val_def)

lemma bn_flip:
  assumes "bn_ok a" "bn_signed a"
  shows "bn_ok (if \<not> BN_is_zero a then a\<lparr>bn_neg := \<not> bn_neg a\<rparr> else a)" "bn_signed (if \<not> BN_is_zero a then a\<lparr>bn_neg := \<not> bn_neg a\<rparr> else a)"
    "bn_val (if \<not> BN_is_zero a then a\<lparr>bn_neg := \<not> bn_neg a\<rparr> else a) = - bn_val a"
  using assms by (auto simp: BN_is_zero_val bn_signed_def bn_val_def)

lemma BN_add_word_val:
  assumes "bn_ok a" "bn_signed a"
  shows "\<exists>ok a'. BN_add_word al a w = Some (ok, a') \<and> (can_expand al a (bn_width a + 1) \<longrightarrow> ok) \<and>
    (ok \<longrightarrow> bn_ok a' \<and> bn_signed a' \<and> bn_val a' = bn_val a + int (unat w))"
proof -
  consider "w = 0" | "w \<noteq> 0" "bn_abs a = 0" | "w \<noteq> 0" "bn_abs a \<noteq> 0" "bn_neg a" | "w \<noteq> 0" "bn_abs a \<noteq> 0" "\<not> bn_neg a" by blast
  then show ?thesis
  proof cases
    case 1
    then show ?thesis using assms by (auto simp: BN_add_word_def)
  next
    case 2
    obtain ok a' where s: "BN_set_word al a w = (ok, a')" by (meson surj_pair)
    have "bn_val a = 0" using 2 by (simp add: bn_val_def)
    then show ?thesis using 2 assms BN_set_word_val [OF s assms(1)] can_expand_mono [of al a "bn_width a + 1" 1]
      by (simp add: BN_add_word_def BN_is_zero_val s bn_minimal_def)
  next
    case 3
    obtain a' where s: "sub_word_pos (a\<lparr>bn_neg := False\<rparr>) w = Some a'" "bn_ok a'" "bn_signed a'" "bn_val a' = int (bn_abs a) - int (unat w)"
      using sub_word_pos_val [of "a\<lparr>bn_neg := False\<rparr>" w] 3 assms(1) by auto
    have "BN_add_word al a w = Some (True, if \<not> BN_is_zero a' then a'\<lparr>bn_neg := \<not> bn_neg a'\<rparr> else a')"
      using 3 assms(1) by (simp only: BN_add_word_def BN_is_zero_val s(1) if_False if_True option.case)
    then show ?thesis using bn_flip [OF s(2,3)] s(4) bn_val_cases(1) [OF 3(3)] by (simp only:) auto
  next
    case 4
    obtain ok a' where s: "add_word_pos al a w = (ok, a')" by (meson surj_pair)
    then show ?thesis using 4 assms(1) add_word_pos_val [OF s assms(1)]
      by (auto simp: BN_add_word_def BN_is_zero_val bn_val_def bn_signed_def)
  qed
qed

lemma BN_sub_word_val:
  assumes "bn_ok a" "bn_signed a"
  shows "\<exists>ok a'. BN_sub_word al a w = Some (ok, a') \<and> (can_expand al a (bn_width a + 1) \<longrightarrow> ok) \<and>
    (ok \<longrightarrow> bn_ok a' \<and> bn_signed a' \<and> bn_val a' = bn_val a - int (unat w))"
proof -
  consider "w = 0" | "w \<noteq> 0" "bn_abs a = 0" | "w \<noteq> 0" "bn_abs a \<noteq> 0" "bn_neg a" | "w \<noteq> 0" "bn_abs a \<noteq> 0" "\<not> bn_neg a" by blast
  then show ?thesis
  proof cases
    case 1
    then show ?thesis using assms by (auto simp: BN_sub_word_def)
  next
    case 2
    obtain ok a1 where s: "BN_set_word al a w = (ok, a1)" by (meson surj_pair)
    note v = BN_set_word_val [OF s assms(1)]
    have e: "BN_sub_word al a w = Some (ok, if ok then BN_set_negative a1 True else a1)"
      using 2 assms(1) by (simp add: BN_sub_word_def BN_is_zero_val s)
    have "bn_val (BN_set_negative a1 True) = - int (unat w) \<and> bn_ok (BN_set_negative a1 True) \<and> bn_signed (BN_set_negative a1 True)" if ok
    proof -
      have m: "bn_ok a1" "bn_signed a1" "bn_val a1 = int (unat w)" using v(1) that by (simp_all add: bn_minimal_def)
      have "0 \<le> bn_val a1" unfolding m(3) by simp
      then have "\<not> bn_neg a1" using m(2) by (auto simp: bn_signed_def bn_val_cases)
      then have "int (bn_abs a1) = int (unat w)" using m(3) bn_val_cases(2) [of a1] by simp
      moreover from this have "bn_abs a1 \<noteq> 0" using 2(1) by (metis of_nat_eq_iff unat_eq_0)
      ultimately show ?thesis using m(1) by (simp add: BN_set_negative_def BN_is_zero_val bn_signed_def)
    qed
    moreover have "bn_val a = 0" using 2 by (simp add: bn_val_def)
    ultimately show ?thesis using v(2) can_expand_mono [of al a "bn_width a + 1" 1] by (simp add: e)
  next
    case 3
    obtain ok a1 where s: "add_word_pos al (a\<lparr>bn_neg := False\<rparr>) w = (ok, a1)" by (meson surj_pair)
    have "can_expand al a n \<Longrightarrow> can_expand al (a\<lparr>bn_neg := False\<rparr>) n" for n by (simp add: can_expand_def)
    then show ?thesis using 3 assms(1) add_word_pos_val [OF s]
      by (auto simp: BN_sub_word_def BN_is_zero_val s bn_val_cases bn_signed_def)
  next
    case 4
    obtain a' where "sub_word_pos a w = Some a'" "bn_ok a'" "bn_signed a'" "bn_val a' = int (bn_abs a) - int (unat w)"
      using sub_word_pos_val [of a w] 4 assms(1) by auto
    then show ?thesis using 4 assms(1) by (auto simp: BN_sub_word_def BN_is_zero_val bn_val_cases)
  qed
qed

section \<open>Lengths in bits\<close>

fun bitlen :: "nat \<Rightarrow> nat" where
  "bitlen n = (if n = 0 then 0 else Suc (bitlen (n div 2)))"

declare bitlen.simps [simp del]

lemma bitlen_0 [simp]: "bitlen 0 = 0"
  by (simp add: bitlen.simps)

lemma bitlen_le_iff: "bitlen n \<le> k \<longleftrightarrow> n < 2 ^ k"
proof (induction k arbitrary: n)
  case 0
  then show ?case by (simp add: bitlen.simps)
next
  case (Suc k)
  then show ?case by (auto simp: bitlen.simps [of n] less_mult_imp_div_less div_less_iff_less_mult mult.commute)
qed

lemma bitlen_shift: "n div 2 ^ k \<noteq> 0 \<Longrightarrow> bitlen n = k + bitlen (n div 2 ^ k)"
proof (induction k arbitrary: n)
  case (Suc k)
  have "n div 2 ^ Suc k = n div 2 div 2 ^ k" by (simp add: div_mult2_eq)
  then show ?case using Suc.IH [of "n div 2"] Suc.prems by (cases "n = 0") (simp_all add: bitlen.simps [of n])
qed simp

lemma bitlen_digit: "y \<noteq> 0 \<Longrightarrow> x < 2 ^ k \<Longrightarrow> bitlen (x + 2 ^ k * y) = k + bitlen y"
  using bitlen_shift [of "x + 2 ^ k * y" k] by simp

text \<open>The mask of one step: the top bit of \<open>0 - x\<close>, for an \<open>x\<close> that is not too large.\<close>

lemma num_bits_mask: "unat (x :: u64) < 2 ^ 63 \<Longrightarrow> 0 - drop_bit 63 (0 - x) = mask_of (x \<noteq> 0)"
proof (cases "x = 0")
  case False
  assume lt: "unat x < 2 ^ 63"
  have "unat (0 - x) = 2 ^ 64 - unat x" using False sub_borrow64 [of 0 0 x] unat_u64_less [of x] by (auto simp: W_def word_neq_0_conv)
  moreover have "unat x \<noteq> 0" using False by (simp add: unat_eq_0)
  ultimately have "unat (0 - x) div 2 ^ 63 = 1" using lt by (simp add: div_nat_eqI)
  then have "unat (drop_bit 63 (0 - x)) = unat (1 :: u64)" by (simp add: unat_drop_bit_div)
  then have "drop_bit 63 (0 - x) = 1" by (simp only: word_unat_eq_iff)
  then show ?thesis using False by simp
qed simp

lemma num_bits_step_val:
  assumes "0 < k" "k < 64" "unat l < 2 ^ (2 * k)" "unat bits + k < 2 ^ 64"
  shows "\<exists>l' bits'. num_bits_step k (l, bits) = (l', bits') \<and> unat l' < 2 ^ k \<and> (l' = 0 \<longleftrightarrow> l = 0) \<and>
    unat bits' + bitlen (unat l') = unat bits + bitlen (unat l) \<and> unat bits' \<le> unat bits + k"
proof -
  define x where "x = drop_bit k l"
  have x: "unat x = unat l div 2 ^ k" by (simp add: x_def unat_drop_bit_div)
  have "unat x < 2 ^ 63"
  proof -
    have "unat l < 2 ^ 63 * 2 ^ k" using unat_less_exp [of l] power_increasing [of 1 k "2 :: nat"] assms(1) by simp
    then show ?thesis unfolding x by (simp add: div_less_iff_less_mult)
  qed
  then have m: "0 - drop_bit 63 (0 - x) = mask_of (x \<noteq> 0)" by (rule num_bits_mask)
  have e: "num_bits_step k (l, bits) = (if x = 0 then (l, bits) else (x, bits + of_nat k))"
    using m by (cases "x = 0") (simp_all add: num_bits_step_def x_def [symmetric] Let_def xor.commute [of x l] flip: xor.assoc)
  show ?thesis
  proof (cases "x = 0")
    case True
    then have "unat l < 2 ^ k" using x by (simp add: div_eq_0_iff)
    then show ?thesis using True e by simp
  next
    case False
    then have nz: "unat l div 2 ^ k \<noteq> 0" using x by (simp add: unat_eq_0 flip: x)
    have lt: "unat x < 2 ^ k" using assms(3) unfolding x by (simp add: div_less_iff_less_mult mult_2 flip: power_add)
    have "unat (bits + of_nat k) = unat bits + k" using assms(4) by (simp add: unat_word_ariths unat_of_nat)
    then show ?thesis using False e lt nz bitlen_shift [OF nz] by (auto simp: x)
  qed
qed

lemma BN_num_bits_word_val: "BN_num_bits_word l = bitlen (unat l)"
proof -
  define b0 :: u64 where "b0 = (if l \<noteq> 0 then 1 else 0)"
  have b0: "unat b0 \<le> 1" by (simp add: b0_def)
  note step = num_bits_step_val [unfolded One_nat_def [symmetric]]
  obtain l1 b1 where 1: "num_bits_step 32 (l, b0) = (l1, b1)" "unat l1 < 2 ^ 32" "l1 = 0 \<longleftrightarrow> l = 0"
    "unat b1 + bitlen (unat l1) = unat b0 + bitlen (unat l)" "unat b1 \<le> unat b0 + 32"
    using step [of 32 l b0] unat_less_exp [of l] b0 by auto
  obtain l2 b2 where 2: "num_bits_step 16 (l1, b1) = (l2, b2)" "unat l2 < 2 ^ 16" "l2 = 0 \<longleftrightarrow> l1 = 0"
    "unat b2 + bitlen (unat l2) = unat b1 + bitlen (unat l1)" "unat b2 \<le> unat b1 + 16"
    using step [of 16 l1 b1] 1 b0 by auto
  obtain l3 b3 where 3: "num_bits_step 8 (l2, b2) = (l3, b3)" "unat l3 < 2 ^ 8" "l3 = 0 \<longleftrightarrow> l2 = 0"
    "unat b3 + bitlen (unat l3) = unat b2 + bitlen (unat l2)" "unat b3 \<le> unat b2 + 8"
    using step [of 8 l2 b2] 1 2 b0 by auto
  obtain l4 b4 where 4: "num_bits_step 4 (l3, b3) = (l4, b4)" "unat l4 < 2 ^ 4" "l4 = 0 \<longleftrightarrow> l3 = 0"
    "unat b4 + bitlen (unat l4) = unat b3 + bitlen (unat l3)" "unat b4 \<le> unat b3 + 4"
    using step [of 4 l3 b3] 1 2 3 b0 by auto
  obtain l5 b5 where 5: "num_bits_step 2 (l4, b4) = (l5, b5)" "unat l5 < 2 ^ 2" "l5 = 0 \<longleftrightarrow> l4 = 0"
    "unat b5 + bitlen (unat l5) = unat b4 + bitlen (unat l4)" "unat b5 \<le> unat b4 + 2"
    using step [of 2 l4 b4] 1 2 3 4 b0 by auto
  obtain l6 b6 where 6: "num_bits_step 1 (l5, b5) = (l6, b6)" "unat l6 < 2 ^ 1" "l6 = 0 \<longleftrightarrow> l5 = 0"
    "unat b6 + bitlen (unat l6) = unat b5 + bitlen (unat l5)"
    using step [of 1 l5 b5] 1 2 3 4 5 b0 by auto
  have "unat l6 = 0 \<or> unat l6 = 1" using 6(2) by auto
  then have "bitlen (unat l6) = unat b0" using 1(3) 2(3) 3(3) 4(3) 5(3) 6(3) by (auto simp: b0_def bitlen.simps [of "Suc 0"] unat_eq_0)
  moreover have "BN_num_bits_word l = unat b6" unfolding BN_num_bits_word_def b0_def [symmetric] 1(1) 2(1) 3(1) 4(1) 5(1) 6(1) by simp
  ultimately show ?thesis using 1(4) 2(4) 3(4) 4(4) 5(4) 6(4) by simp
qed

lemma W_power: "W ^ n = 2 ^ (64 * n)"
  by (simp only: W_def power_mult)

lemma BN_num_bits_val: "bn_ok a \<Longrightarrow> BN_num_bits a = bitlen (bn_abs a)"
proof -
  assume ok: "bn_ok a"
  let ?w = "bn_minimal_width a"
  note m = bn_minimal_width_val [OF ok]
  show ?thesis
  proof (cases "?w = 0")
    case True
    then show ?thesis using m(4) by (simp add: BN_num_bits_def)
  next
    case False
    have "?w - 1 < length (bn_d a)" using m(2) ok False by (simp add: bn_ok_def)
    then have "wval (take (?w - 1) (bn_d a)) < 2 ^ (64 * (?w - 1))"
      using wval_less [of "take (?w - 1) (bn_d a)"] by (simp add: W_power)
    then have "bitlen (bn_abs a) = 64 * (?w - 1) + bitlen (unat (bn_d a ! (?w - 1)))"
      unfolding m(5) [OF False] W_power using m(3) [OF False] by (intro bitlen_digit) (simp_all add: unat_eq_0)
    then show ?thesis using False by (simp add: BN_num_bits_def BN_num_bits_word_val Let_def)
  qed
qed

lemma BN_num_bytes_le: "bn_ok a \<Longrightarrow> BN_num_bytes a \<le> k \<longleftrightarrow> bn_abs a < 256 ^ k"
proof -
  assume "bn_ok a"
  then have "BN_num_bytes a \<le> k \<longleftrightarrow> bitlen (bn_abs a) \<le> 8 * k" by (auto simp: BN_num_bytes_def BN_num_bits_val)
  also have "\<dots> \<longleftrightarrow> bn_abs a < 256 ^ k" unfolding bitlen_le_iff power_mult by simp
  finally show ?thesis .
qed

text \<open>
  C18. \<open>BN_add_word\<close> and \<open>BN_sub_word\<close> always return, although their loops over the words have no bound: the carry ends
  in a zero word past the width and the borrow in a word that is not zero. The result is exact for either sign, and
  \<open>BN_sub_word\<close> of more than the number there is turns it negative.
\<close>

theorem BN_word_total:
  assumes "bn_ok a" "bn_signed a"
  shows "(\<exists>ok s. BN_add_word al a w = Some (ok, s) \<and> (can_expand al a (bn_width a + 1) \<longrightarrow> ok) \<and>
      (ok \<longrightarrow> bn_ok s \<and> bn_signed s \<and> bn_val s = bn_val a + int (unat w))) \<and>
    (\<exists>ok s. BN_sub_word al a w = Some (ok, s) \<and> (can_expand al a (bn_width a + 1) \<longrightarrow> ok) \<and>
      (ok \<longrightarrow> bn_ok s \<and> bn_signed s \<and> bn_val s = bn_val a - int (unat w)))"
  using BN_add_word_val [OF assms] BN_sub_word_val [OF assms] by (rule conjI)

theorem BN_word_total_witness:
  "\<exists>s. BN_sub_word ample (bn_of_words [3] False) 5 = Some (True, s) \<and> bn_val s = - 2"
  using BN_word_total [of "bn_of_words [3] False" ample 5] by (auto simp: bn_of_words_props)

end
