(* ===== verification/Bn_Bytes.thy ===== *)
theory Bn_Bytes
  imports Bn_Bits Chacha
begin

text \<open>
  The conversions of \<open>bytes.c\<close> between a \<open>BIGNUM\<close> and byte strings of either order.
\<close>

unbundle bit_operations_syntax

section \<open>Big-endian input\<close>

text \<open>The word under construction holds the bytes since the last store; \<open>m\<close> more bytes complete it.\<close>

lemma bin2bn_loop_val:
  assumes "length bs = 8 * (num_words - 1) + m + 1" "0 < num_words" "num_words \<le> length d" "m < 8" "unat word < 256 ^ (7 - m)"
  shows "wval (take num_words (bin2bn_loop d word m num_words bs)) = unat word * 256 ^ length bs + be_val bs
    \<and> length (bin2bn_loop d word m num_words bs) = length d \<and> drop num_words (bin2bn_loop d word m num_words bs) = drop num_words d"
  using assms
proof (induction d word m num_words bs rule: bin2bn_loop.induct)
  case (2 d word m num_words b bs)
  define word' where "word' = push_bit 8 word OR ucast b"
  have "(256 :: nat) ^ (7 - m) * 256 \<le> 256 ^ 8" using power_increasing [of "Suc (7 - m)" 8 "256 :: nat"] by simp
  then have "unat word * 2 ^ 8 < 2 ^ LENGTH(64)" using "2.prems"(5) by (simp add: less_le_trans [OF mult_strict_right_mono])
  then have w: "unat word' = unat word * 256 + unat b" unfolding word'_def by (subst unat_push_or) simp_all
  show ?case
  proof (cases "m = 0")
    case False
    have lt: "unat word' < 256 ^ (7 - (m - 1))"
    proof -
      have "7 - (m - 1) = Suc (7 - m)" using False "2.prems"(4) by simp
      then show ?thesis using digit_less [OF unat_u8_less "2.prems"(5), of b] by (simp add: w mult.commute add.commute)
    qed
    have "bin2bn_loop d word m num_words (b # bs) = bin2bn_loop d word' (m - 1) num_words bs" using False by (simp add: word'_def Let_def)
    moreover have "length bs = 8 * (num_words - 1) + (m - 1) + 1" "m - 1 < 8" using "2.prems"(1,4) False by simp_all
    note "2.IH"(2) [OF word'_def False this(1) "2.prems"(2,3) this(2) lt]
    ultimately show ?thesis by (simp add: w be_val_Cons algebra_simps)
  next
    case True
    let ?d = "d[num_words - 1 := word']"
    have e: "bin2bn_loop d word m num_words (b # bs) = bin2bn_loop ?d 0 7 (num_words - 1) bs" using True by (simp add: word'_def Let_def)
    show ?thesis
    proof (cases "num_words = 1")
      case one: True
      then have "bs = []" using "2.prems"(1) True by simp
      then show ?thesis unfolding e using one "2.prems"(3) by (cases d) (simp_all add: w)
    next
      case False
      have l: "length bs = 8 * (num_words - 1)" using "2.prems"(1) True by simp
      have ih: "wval (take (num_words - 1) (bin2bn_loop ?d 0 7 (num_words - 1) bs)) = be_val bs"
          "length (bin2bn_loop ?d 0 7 (num_words - 1) bs) = length d"
          "drop (num_words - 1) (bin2bn_loop ?d 0 7 (num_words - 1) bs) = drop (num_words - 1) ?d"
        using "2.IH"(1) [OF word'_def True] "2.prems"(2,3) False l by simp_all
      let ?r = "bin2bn_loop ?d 0 7 (num_words - 1) bs"
      have n: "num_words - 1 < length ?r" "Suc (num_words - 1) = num_words" using ih(2) "2.prems"(2,3) by simp_all
      have "?r ! (num_words - 1) = word'" using arg_cong [OF ih(3), of hd] n "2.prems"(3) ih(2) by (simp add: hd_drop_conv_nth)
      then have "wval (take num_words ?r) = be_val bs + W ^ (num_words - 1) * unat word'"
        using wval_take_Suc [OF n(1)] ih(1) n(2) by simp
      moreover have "W ^ (num_words - 1) = 256 ^ length bs" unfolding l W_power by (simp add: power_mult)
      moreover have "drop num_words ?r = drop num_words d"
        using arg_cong [OF ih(3), of "drop 1"] n(2) by simp
      ultimately show ?thesis unfolding e using ih(2) by (simp add: w be_val_Cons algebra_simps)
    qed
  qed
qed simp

lemma BN_new_props: "BN_new al = Some r \<Longrightarrow> bn_ok r \<and> \<not> bn_neg r"
  by (auto simp: BN_new_def BN_init_def bn_ok_def split: option.splits)

lemma BN_bin2bn_val:
  assumes "BN_bin2bn al inp ret = (Some r', st)" "\<And>r. ret = Some r \<Longrightarrow> bn_ok r"
  shows "bn_ok r' \<and> bn_abs r' = be_val inp \<and> (inp \<noteq> [] \<longrightarrow> \<not> bn_neg r') \<and> (inp = [] \<longrightarrow> bn_neg r' = (\<exists>r. ret = Some r \<and> bn_neg r))"
proof -
  obtain r where r: "(case ret of None \<Rightarrow> BN_new al | Some r \<Rightarrow> Some r) = Some r"
    using assms(1) by (cases "case ret of None \<Rightarrow> BN_new al | Some r \<Rightarrow> Some r") (auto simp: BN_bin2bn_def)
  then have ok: "bn_ok r" and neg: "bn_neg r = (\<exists>r. ret = Some r \<and> bn_neg r)"
    using assms(2) BN_new_props [of al r] by (cases ret; simp)+
  show ?thesis
  proof (cases "inp = []")
    case True
    then show ?thesis using assms(1) neg by (auto simp: BN_bin2bn_def r bn_ok_def bn_abs_def Let_def)
  next
    case False
    define nw where "nw = (length inp - 1) div 8 + 1"
    obtain ok1 r1 where e: "bn_wexpand al r nw = (ok1, r1)" by (meson surj_pair)
    note f = bn_wexpand_frame [OF e ok]
    have r': ok1 "r' = r1\<lparr>bn_width := nw, bn_neg := False, bn_d := bin2bn_loop (bn_d r1) 0 ((length inp - 1) mod 8) nw inp\<rparr>"
      using assms(1) False e by (auto simp: BN_bin2bn_def r nw_def Let_def split: if_splits)
    have l: "length inp = 8 * (nw - 1) + (length inp - 1) mod 8 + 1" using False by (simp add: nw_def)
    have "wval (take nw (bin2bn_loop (bn_d r1) 0 ((length inp - 1) mod 8) nw inp)) = be_val inp"
      "length (bin2bn_loop (bn_d r1) 0 ((length inp - 1) mod 8) nw inp) = length (bn_d r1)"
      using bin2bn_loop_val [OF l, of "bn_d r1" 0] f(8) r'(1) by (simp_all add: nw_def)
    then show ?thesis using f(8) r'(1) False by (simp add: r'(2) bn_ok_def bn_abs_def)
  qed
qed

section \<open>Words as bytes\<close>

lemma nth_le_bytes: "i < n \<Longrightarrow> le_bytes n v ! i = of_nat (v div 256 ^ i)"
  by (induction n arbitrary: v i) (auto simp: nth_Cons' div_mult2_eq gr0_conv_Suc)

lemma word_bytes_eq: "word_bytes w = le_bytes 8 (unat w)"
proof (rule nth_equalityI)
  fix i assume "i < length (word_bytes w)"
  then have i: "i < 8" by (simp add: word_bytes_def)
  have "(ucast (drop_bit (8 * i) w) :: u8) = of_nat (unat w div 256 ^ i)"
    by (simp add: word_unat_eq_iff unat_ucast_mod unat_drop_bit_div power_mult)
  then show "word_bytes w ! i = le_bytes 8 (unat w) ! i" using i by (simp add: word_bytes_def nth_le_bytes)
qed (simp add: word_bytes_def)

lemma words_bytes_simps [simp]: "words_bytes [] = []" "words_bytes (w # ws) = word_bytes w @ words_bytes ws"
  by (simp_all add: words_bytes_def)

lemma length_word_bytes [simp]: "length (word_bytes w) = 8"
  by (simp add: word_bytes_def)

lemma length_words_bytes [simp]: "length (words_bytes ws) = 8 * length ws"
  by (induction ws) simp_all

lemma le_val_words_bytes: "le_val (words_bytes ws) = wval ws"
proof (induction ws)
  case (Cons w ws)
  have "le_val (word_bytes w) = unat w" using unat_less_exp [of w] by (simp add: word_bytes_eq le_val_le_bytes)
  then show ?case using Cons by (simp add: le_val_append W_def)
qed simp

lemma words_bytes_eq: "words_bytes ws = le_bytes (8 * length ws) (wval ws)"
  using le_bytes_le_val [of "words_bytes ws"] by (simp add: le_val_words_bytes)

lemma take_words_bytes: "take (8 * n) (words_bytes ws) = words_bytes (take n ws)"
proof (induction ws arbitrary: n)
  case (Cons w ws)
  then show ?case by (cases n) simp_all
qed simp

lemma bn_bytes: "bn_ok a \<Longrightarrow> take (8 * bn_width a) (words_bytes (bn_d a)) = le_bytes (8 * bn_width a) (bn_abs a)"
  using words_bytes_eq [of "take (bn_width a) (bn_d a)"] by (simp add: take_words_bytes bn_ok_def bn_abs_def min_absorb2)

lemma bn_byte: "bn_ok a \<Longrightarrow> i < 8 * bn_width a \<Longrightarrow> words_bytes (bn_d a) ! i = of_nat (bn_abs a div 256 ^ i)"
  using arg_cong [OF bn_bytes, of a "\<lambda>xs. xs ! i"] by (simp add: nth_le_bytes)

lemma nth_words_bytes: "i < 8 * length ws \<Longrightarrow> words_bytes ws ! i = ucast (drop_bit (8 * (i mod 8)) (ws ! (i div 8)))"
proof (induction ws arbitrary: i)
  case (Cons w ws)
  show ?case
  proof (cases "i < 8")
    case True
    then show ?thesis by (simp add: nth_append word_bytes_def)
  next
    case False
    then have "i div 8 = Suc ((i - 8) div 8)" "(i - 8) mod 8 = i mod 8" by (simp_all add: le_div_geq le_mod_geq)
    then show ?thesis using False Cons.IH [of "i - 8"] Cons.prems by (simp add: nth_append)
  qed
qed simp

lemma le_bytes_take: "k \<le> n \<Longrightarrow> take k (le_bytes n v) = le_bytes k v"
  by (intro nth_equalityI) (simp_all add: nth_le_bytes)

lemma le_bytes_pad: "v < 256 ^ k \<Longrightarrow> k \<le> n \<Longrightarrow> le_bytes n v = le_bytes k v @ replicate (n - k) 0"
proof (intro nth_equalityI)
  fix i assume a: "v < 256 ^ k" "k \<le> n" "i < length (le_bytes n v)"
  have "v div 256 ^ i = 0" if "k \<le> i"
    using less_le_trans [OF a(1) power_increasing [OF that, of "256 :: nat"]] by simp
  then show "le_bytes n v ! i = (le_bytes k v @ replicate (n - k) 0) ! i" using a by (simp add: nth_append nth_le_bytes)
qed simp

section \<open>Output\<close>

lemma BN_num_bytes_le_width: "bn_ok a \<Longrightarrow> BN_num_bytes a \<le> 8 * bn_width a"
  unfolding BN_num_bytes_le using bn_abs_less [of a] by (simp add: W_power power_mult)

lemma rev_map_upt: "map f (rev [0..<n]) = rev (map f [0..<n])"
  by (simp add: rev_map)

lemma BN_bn2bin_val: "bn_ok a \<Longrightarrow> BN_bn2bin a = be_bytes (BN_num_bytes a) (bn_abs a)"
proof -
  assume ok: "bn_ok a"
  have "map (\<lambda>i. let l = bn_d a ! (i div 8) in ucast (drop_bit (8 * (i mod 8)) l) AND 0xff) [0..<BN_num_bytes a] = le_bytes (BN_num_bytes a) (bn_abs a)"
  proof (rule nth_equalityI)
    fix i assume "i < length (map (\<lambda>i. let l = bn_d a ! (i div 8) in ucast (drop_bit (8 * (i mod 8)) l) AND 0xff :: u8) [0..<BN_num_bytes a])"
    then have i: "i < BN_num_bytes a" by simp
    then have w: "i < 8 * bn_width a" using BN_num_bytes_le_width [OF ok] by simp
    then have "i < 8 * length (bn_d a)" using ok by (simp add: bn_ok_def)
    moreover have "x AND 0xff = x" for x :: u8
    proof -
      have "(0xff :: u8) = - 1" by simp
      then show ?thesis by (simp only: and.right_neutral)
    qed
    ultimately show "map (\<lambda>i. let l = bn_d a ! (i div 8) in ucast (drop_bit (8 * (i mod 8)) l) AND 0xff) [0..<BN_num_bytes a] ! i = le_bytes (BN_num_bytes a) (bn_abs a) ! i"
      using i bn_byte [OF ok w] by (simp add: nth_le_bytes nth_words_bytes)
  qed simp
  then show ?thesis by (simp only: BN_bn2bin_def rev_map_upt le_bytes_rev rev_rev_ident)
qed

lemma fits_in_bytes_val: "bn_ok a \<Longrightarrow> len < 8 * bn_width a \<Longrightarrow> fits_in_bytes (words_bytes (bn_d a)) (8 * bn_width a) len \<longleftrightarrow> bn_abs a < 256 ^ len"
proof -
  assume ok: "bn_ok a" and len: "len < 8 * bn_width a"
  let ?bs = "le_bytes (8 * bn_width a) (bn_abs a)"
  have "bn_abs a < 256 ^ (8 * bn_width a)" using bn_abs_less [OF ok] by (simp add: W_power power_mult)
  then have v: "le_val ?bs = bn_abs a" by (simp add: le_val_le_bytes)
  have s: "le_val ?bs = le_val (take len ?bs) + 256 ^ len * le_val (drop len ?bs)"
    using le_val_append [of "take len ?bs" "drop len ?bs"] len by (simp add: min_absorb2)
  have z: "le_val bs = 0 \<longleftrightarrow> (\<forall>b\<in>set bs. b = 0)" for bs by (induction bs) (auto simp: unat_eq_0)
  have "fits_in_bytes (words_bytes (bn_d a)) (8 * bn_width a) len \<longleftrightarrow> (\<forall>i\<in>{len..<8 * bn_width a}. ?bs ! i = 0)"
    using bn_byte [OF ok] by (simp add: fits_in_bytes_def foldl_or_eq_0 nth_le_bytes)
  also have "\<dots> \<longleftrightarrow> le_val (drop len ?bs) = 0"
  proof -
    have "drop len ?bs = map ((!) ?bs) [len..<8 * bn_width a]" by (intro nth_equalityI) auto
    then show ?thesis by (simp add: z)
  qed
  also have "\<dots> \<longleftrightarrow> le_val ?bs < 256 ^ len"
    using le_val_less [of "take len ?bs"] len unfolding s by (cases "le_val (drop len ?bs)") (auto simp: min_absorb2)
  also have "\<dots> \<longleftrightarrow> bn_abs a < 256 ^ len" unfolding v ..
  finally show ?thesis .
qed

lemma padded_abs: "bn_ok a \<Longrightarrow> len \<ge> 8 * bn_width a \<Longrightarrow> bn_abs a < 256 ^ len"
proof -
  assume ok: "bn_ok a" and len: "len \<ge> 8 * bn_width a"
  have "bn_abs a < 256 ^ (8 * bn_width a)" using bn_abs_less [OF ok] by (simp add: W_power power_mult)
  also have "\<dots> \<le> 256 ^ len" using len by (intro power_increasing) simp_all
  finally show ?thesis .
qed

lemma padded_bytes:
  assumes "bn_ok a" "bn_abs a < 256 ^ len"
  shows "take (min len (8 * bn_width a)) (words_bytes (bn_d a)) @ replicate (len - min len (8 * bn_width a)) 0 = le_bytes len (bn_abs a)"
proof -
  have "take (min len (8 * bn_width a)) (words_bytes (bn_d a)) = le_bytes (min len (8 * bn_width a)) (bn_abs a)"
    using arg_cong [OF bn_bytes [OF assms(1)], of "take (min len (8 * bn_width a))"]
    by (simp add: le_bytes_take min_absorb1)
  moreover have "bn_abs a < 256 ^ min len (8 * bn_width a)" using assms padded_abs [OF assms(1) order_refl] by (simp add: min_def)
  ultimately show ?thesis using le_bytes_pad [of "bn_abs a" "min len (8 * bn_width a)" len] by simp
qed

lemma BN_bn2le_padded_val: "bn_ok a \<Longrightarrow> BN_bn2le_padded len a = (if bn_abs a < 256 ^ len then Some (le_bytes len (bn_abs a)) else None)"
proof -
  assume ok: "bn_ok a"
  have m: "(if len < bn_width a * 8 then len else bn_width a * 8) = min len (8 * bn_width a)" by (simp add: min_def mult.commute)
  show ?thesis
  proof (cases "bn_abs a < 256 ^ len")
    case True
    then have "\<not> (len < bn_width a * 8 \<and> \<not> fits_in_bytes (words_bytes (bn_d a)) (bn_width a * 8) len)"
      using fits_in_bytes_val [OF ok, of len] by (simp add: mult.commute)
    then show ?thesis using True padded_bytes [OF ok True] by (simp only: BN_bn2le_padded_def Let_def if_False if_True m)
  next
    case False
    then have "len < 8 * bn_width a" using padded_abs [OF ok, of len] by (simp add: not_le [symmetric]) blast
    then have "len < bn_width a * 8 \<and> \<not> fits_in_bytes (words_bytes (bn_d a)) (bn_width a * 8) len"
      using fits_in_bytes_val [OF ok] False by (simp add: mult.commute)
    then show ?thesis using False by (simp add: BN_bn2le_padded_def)
  qed
qed

lemma foldl_reverse:
  "n \<le> length out \<Longrightarrow> n \<le> length bytes \<Longrightarrow>
   foldl (\<lambda>out i. out[length out - i - 1 := bytes ! i]) out [0..<n] = take (length out - n) out @ rev (take n bytes)"
proof (induction n)
  case (Suc n)
  have "foldl (\<lambda>out i. out[length out - i - 1 := bytes ! i]) out [0..<Suc n] =
      (take (length out - n) out @ rev (take n bytes))[length out - n - 1 := bytes ! n]"
    using Suc by simp
  also have "\<dots> = take (length out - n - 1) out @ bytes ! n # rev (take n bytes)"
  proof -
    obtain k where k: "length out - n = Suc k" "Suc k \<le> length out" using Suc.prems(1) by (cases "length out - n") auto
    then show ?thesis by (simp add: take_Suc_conv_app_nth list_update_append)
  qed
  finally show ?case using Suc.prems by (simp add: take_Suc_conv_app_nth)
qed simp

lemma BN_bn2bin_padded_val:
  assumes "bn_ok a" "length out = len"
  shows "BN_bn2bin_padded len out a = (if bn_abs a < 256 ^ len then Some (be_bytes len (bn_abs a)) else None)"
proof -
  define n where "n = min len (8 * bn_width a)"
  have m: "(if len < bn_width a * 8 then len else bn_width a * 8) = n" by (simp add: n_def min_def mult.commute)
  have nl: "n \<le> len" "n \<le> length (words_bytes (bn_d a))" using assms(1) by (simp_all add: n_def bn_ok_def min.coboundedI2)
  have fold: "foldl (\<lambda>out i. out[len - i - 1 := bytes ! i]) out xs = foldl (\<lambda>out i. out[length out - i - 1 := bytes ! i]) out xs"
    if "length out = len" for xs bytes and out :: "u8 list" using that by (induction xs arbitrary: out) simp_all
  show ?thesis
  proof (cases "bn_abs a < 256 ^ len")
    case True
    then have "\<not> (len < bn_width a * 8 \<and> \<not> fits_in_bytes (words_bytes (bn_d a)) (bn_width a * 8) len)"
      using fits_in_bytes_val [OF assms(1), of len] by (simp add: mult.commute)
    then have "BN_bn2bin_padded len out a = Some (replicate (len - n) 0 @ rev (take n (words_bytes (bn_d a))))"
      using foldl_reverse [of n out "words_bytes (bn_d a)"] nl assms(2) fold [OF assms(2)]
      by (simp only: BN_bn2bin_padded_def Let_def if_False if_True m) simp
    also have "replicate (len - n) 0 @ rev (take n (words_bytes (bn_d a))) = rev (take n (words_bytes (bn_d a)) @ replicate (len - n) 0)" by simp
    also have "\<dots> = be_bytes len (bn_abs a)" using padded_bytes [OF assms(1) True] by (simp add: n_def [symmetric] le_bytes_rev)
    finally show ?thesis using True by simp
  next
    case False
    then have "len < 8 * bn_width a" using padded_abs [OF assms(1), of len] by (simp add: not_le [symmetric]) blast
    then have "len < bn_width a * 8 \<and> \<not> fits_in_bytes (words_bytes (bn_d a)) (bn_width a * 8) len"
      using fits_in_bytes_val [OF assms(1)] False by (simp add: mult.commute)
    then show ?thesis using False by (simp add: BN_bn2bin_padded_def)
  qed
qed

lemma be_bytes_strip: "be_val bs < 256 ^ n \<Longrightarrow> (n \<noteq> 0 \<longrightarrow> 256 ^ (n - 1) \<le> be_val bs) \<Longrightarrow> be_bytes n (be_val bs) = dropWhile (\<lambda>b. b = 0) bs"
proof (induction bs)
  case Nil
  then show ?case by (cases n) simp_all
next
  case (Cons b bs)
  show ?case
  proof (cases "b = 0")
    case True
    then show ?thesis using Cons by (simp add: be_val_Cons)
  next
    case False
    then have nz: "unat b \<noteq> 0" by (simp add: unat_eq_0)
    have lt: "be_val (b # bs) < 256 ^ Suc (length bs)" using be_val_less [of "b # bs"] by simp
    have ge: "256 ^ length bs \<le> be_val (b # bs)" using nz by (simp add: be_val_Cons) (metis One_nat_def Suc_leI mult_le_mono1 nat_mult_1 neq0_conv trans_le_add1)
    have "n = Suc (length bs)"
    proof (rule antisym)
      have "(256 :: nat) ^ length bs < 256 ^ n" using ge Cons.prems(1) by (rule le_less_trans)
      then show "Suc (length bs) \<le> n" by simp
      show "n \<le> Suc (length bs)"
      proof (cases n)
        case (Suc k)
        then have "(256 :: nat) ^ k < 256 ^ Suc (length bs)" using Cons.prems(2) lt by simp
        then show ?thesis using Suc by (simp del: power_Suc)
      qed simp
    qed
    then show ?thesis using be_bytes_be_val [of "b # bs"] False by simp
  qed
qed

lemma BN_bn2bin_strip: "bn_ok a \<Longrightarrow> bn_abs a = be_val bs \<Longrightarrow> BN_bn2bin a = dropWhile (\<lambda>b. b = 0) bs"
proof -
  assume a: "bn_ok a" "bn_abs a = be_val bs"
  have "be_val bs < 256 ^ BN_num_bytes a" using BN_num_bytes_le [OF a(1), of "BN_num_bytes a"] a(2) by simp
  moreover have "BN_num_bytes a \<noteq> 0 \<longrightarrow> 256 ^ (BN_num_bytes a - 1) \<le> be_val bs"
    using BN_num_bytes_le [OF a(1), of "BN_num_bytes a - 1"] a(2) by auto
  ultimately show ?thesis using be_bytes_strip [of bs "BN_num_bytes a"] by (simp add: BN_bn2bin_val a)
qed

text \<open>
  C8. Bytes and numbers: \<open>BN_bin2bn\<close> of any bytes is the number they are in big-endian order, \<open>BN_bn2bin\<close> of it the same
  bytes without the leading zeros, and \<open>BN_bn2bin_padded\<close> and \<open>BN_bn2le_padded\<close> give it at any other length, or fail
  exactly when it does not fit; there they do not look at its minimal width.
\<close>

theorem BN_bytes_roundtrip:
  assumes "BN_bin2bn al inp ret = (Some r, out)" "\<forall>x. ret = Some x \<longrightarrow> bn_ok x"
  shows "bn_abs r = be_val inp \<and> BN_bn2bin r = dropWhile (\<lambda>b. b = 0) inp \<and>
    BN_bn2bin_padded (length buf) buf r = (if be_val inp < 256 ^ length buf then Some (be_bytes (length buf) (be_val inp)) else None) \<and>
    BN_bn2le_padded len r = (if be_val inp < 256 ^ len then Some (le_bytes len (be_val inp)) else None)"
proof -
  have r: "bn_ok r" "bn_abs r = be_val inp" using BN_bin2bn_val [OF assms(1)] assms(2) by blast+
  show ?thesis using r BN_bn2bin_strip [OF r] BN_bn2le_padded_val [OF r(1)] BN_bn2bin_padded_val [OF r(1)]by simp
qed

theorem BN_bytes_roundtrip_witness:
  "\<exists>r out. BN_bin2bn ample [0, 1, 2] None = (Some r, out) \<and> BN_bn2bin r = [1, 2]"
proof -
  obtain r out where "BN_bin2bn ample [0, 1, 2] None = (Some r, out)"
    by (simp add: BN_bin2bn_def ample_def BN_new_def BN_init_def bn_wexpand_def Let_def)
  then show ?thesis using BN_bytes_roundtrip [of ample "[0, 1, 2]" None r out "[]"] by auto
qed

end
