(* ===== verification/Bn_Mul.thy ===== *)
theory Bn_Mul
  imports Bn
begin

text \<open>
  \<open>fipsmodule/bn/mul.c\<close>. An array that a routine writes is a list of exactly the words it may touch: the result \<open>r\<close>, and
  the scratch space \<open>t\<close>, whose parts get names of their own. What is left in the scratch space is not a result; no routine
  reads a part of it before writing it. \<open>dna\<close>, \<open>dnb\<close>, \<open>dl\<close>, \<open>tna\<close> and \<open>tnb\<close> are signed, as in C.
\<close>

unbundle bit_operations_syntax

definition BN_MUL_RECURSIVE_SIZE_NORMAL :: nat where
  "BN_MUL_RECURSIVE_SIZE_NORMAL = 16"

definition BN_SQR_RECURSIVE_SIZE_NORMAL :: nat where
  "BN_SQR_RECURSIVE_SIZE_NORMAL = BN_MUL_RECURSIVE_SIZE_NORMAL"

definition bn_abs_sub_words :: "u64 list \<Rightarrow> u64 list \<Rightarrow> u64 list \<Rightarrow> nat \<Rightarrow> u64 list \<Rightarrow> u64 list" where
  "bn_abs_sub_words r a b num tmp =
     (let (tmp, borrow) = bn_sub_words tmp a b num; (r, _) = bn_sub_words r b a num
      in bn_select_words (0 - borrow) r tmp num)"

text \<open>One row of \<open>bn_mul_normal\<close>: \<open>rr[k] = bn_mul_add_words(&r[k], a, na, b[k])\<close>. The loop is unrolled four times.\<close>

definition mul_row :: "u64 list \<Rightarrow> nat \<Rightarrow> u64 list \<Rightarrow> u64 list \<Rightarrow> nat \<Rightarrow> u64 list" where
  "mul_row a na b r k =
     (let (s, c) = bn_mul_add_words (drop k r) a na (b ! k); r = take k r @ s in r[na + k := c])"

definition bn_mul_normal :: "u64 list \<Rightarrow> u64 list \<Rightarrow> nat \<Rightarrow> u64 list \<Rightarrow> nat \<Rightarrow> u64 list" where
  "bn_mul_normal r a na b nb =
     (let (na, nb, a, b) = (if na < nb then (nb, na, b, a) else (na, nb, a, b))
      in if nb = 0 then put_words 0 (replicate na 0) r
         else
           (let (r, c) = bn_mul_words r a na (b ! 0); r = r[na := c]
            in foldl (mul_row a na b) r [1..<nb]))"

text \<open>
  The two loops of \<open>bn_sub_part_words\<close> behind the common words. The second copies the rest of \<open>a\<close> once there is no
  borrow, which it tests after every fourth word only; without a borrow the subtraction copies too.
\<close>

definition bn_sub_part_words :: "u64 list \<Rightarrow> u64 list \<Rightarrow> u64 list \<Rightarrow> nat \<Rightarrow> int \<Rightarrow> u64 list \<times> u64" where
  "bn_sub_part_words r a b cl dl =
     (let (r, c) = bn_sub_words r a b cl
      in if dl = 0 then (r, c)
         else if dl < 0 then
           foldl (\<lambda>(r, c) i. let t = b ! i in (r[i := 0 - t - c], if t \<noteq> 0 then 1 else c)) (r, c) [cl..<cl + nat (- dl)]
         else
           foldl (\<lambda>(r, c) i. let t = a ! i in (r[i := t - c], if t \<noteq> 0 then 0 else c)) (r, c) [cl..<cl + nat dl])"

text \<open>The result holds \<open>cl + |dl|\<close> words.\<close>

definition bn_abs_sub_part_words :: "u64 list \<Rightarrow> u64 list \<Rightarrow> u64 list \<Rightarrow> nat \<Rightarrow> int \<Rightarrow> u64 list \<Rightarrow> u64 list \<times> u64" where
  "bn_abs_sub_part_words r a b cl dl tmp =
     (let (tmp, borrow) = bn_sub_part_words tmp a b cl dl; (r, _) = bn_sub_part_words r b a cl (- dl);
          r_len = cl + nat (if dl < 0 then - dl else dl); borrow = 0 - borrow
      in (bn_select_words borrow r tmp r_len, borrow))"

definition bn_abs_sub_consttime :: "bn_alloc \<Rightarrow> bignum option \<Rightarrow> bignum \<Rightarrow> bignum \<Rightarrow> bignum \<Rightarrow> bool \<times> bignum" where
  "bn_abs_sub_consttime al tmp r a b =
     (let cl = (if bn_width a < bn_width b then bn_width a else bn_width b); dl = int (bn_width a) - int (bn_width b);
          r_len = (if bn_width a < bn_width b then bn_width b else bn_width a)
      in case tmp of None \<Rightarrow> (False, r)
         | Some tmp \<Rightarrow>
             (let (ok, r) = bn_wexpand al r r_len
              in if \<not> ok then (False, r)
                 else
                   (let (ok, tmp) = bn_wexpand al tmp r_len
                    in if \<not> ok then (False, r)
                       else (True, r\<lparr>bn_d := put_words 0 (fst (bn_abs_sub_part_words (bn_d r) (bn_d a) (bn_d b) cl dl (bn_d tmp))) (bn_d r),
                                    bn_width := r_len\<rparr>))))"

text \<open>\<open>// Propagate the carry bit to the end.\<close>\<close>

definition propagate_carry :: "u64 list \<Rightarrow> u64 \<Rightarrow> nat \<Rightarrow> nat \<Rightarrow> u64 list \<times> u64" where
  "propagate_carry r c i n = foldl (\<lambda>(r, c) i. let old = r ! i; r = r[i := old + c] in (r, if r ! i < old then 1 else 0)) (r, c) [i..<n]"

text \<open>The end of both multiplications: \<open>t0,t1\<close> and \<open>t2,t3\<close> combine into the middle of \<open>r\<close>; the \<open>n2\<close> words at \<open>p\<close> are
  the last part of \<open>t\<close>.\<close>

definition karatsuba_combine :: "u64 list \<Rightarrow> u64 list \<Rightarrow> u64 list \<Rightarrow> u64 \<Rightarrow> nat \<Rightarrow> u64 list \<Rightarrow> u64 list" where
  "karatsuba_combine r t01 t23 neg n2 p =
     (let n = n2 div 2;
          (t01, c) = bn_add_words t01 r (drop n2 r) n2;
          (t45, borrow) = bn_sub_words p t01 t23 n2; c_neg = c - borrow;
          (t23, carry) = bn_add_words t23 t01 t23 n2; c_pos = c + carry;
          t23 = bn_select_words neg t45 t23 n2;
          c = constant_time_select_w neg c_neg c_pos;
          (r12, carry) = bn_add_words (drop n r) (drop n r) t23 n2; c = c + carry
      in fst (propagate_carry (take n r @ r12) c (n + n2) (n2 + n2)))"

function bn_mul_recursive :: "u64 list \<Rightarrow> u64 list \<Rightarrow> u64 list \<Rightarrow> nat \<Rightarrow> int \<Rightarrow> int \<Rightarrow> u64 list \<Rightarrow> u64 list" where
  "bn_mul_recursive r a b n2 dna dnb t =
     (if n2 = 8 \<and> dna = 0 \<and> dnb = 0 then bn_mul_comba8 a b
      else if n2 < BN_MUL_RECURSIVE_SIZE_NORMAL then
        (let r = bn_mul_normal r a (nat (int n2 + dna)) b (nat (int n2 + dnb))
         in if dna + dnb < 0 then put_words (nat (2 * int n2 + dna + dnb)) (replicate (nat (- (dna + dnb))) 0) r else r)
      else
        (let n = n2 div 2; tna = nat (int n + dna); tnb = nat (int n + dnb);
             (t0, neg) = bn_abs_sub_part_words (take n t) a (drop n a) tna (int n - int tna) (drop n2 t);
             (t1, neg1) = bn_abs_sub_part_words (take n (drop n t)) (drop n b) b tnb (int tnb - int n) (drop n2 t);
             neg = neg XOR neg1; p = drop (n2 * 2) t;
             (t23, r) =
               (if n = 4 \<and> dna = 0 \<and> dnb = 0 then
                  (bn_mul_comba4 t0 t1, bn_mul_comba4 a b @ bn_mul_comba4 (drop n a) (drop n b))
                else if n = 8 \<and> dna = 0 \<and> dnb = 0 then
                  (bn_mul_comba8 t0 t1, bn_mul_comba8 a b @ bn_mul_comba8 (drop n a) (drop n b))
                else
                  (bn_mul_recursive (take n2 (drop n2 t)) t0 t1 n 0 0 p,
                   bn_mul_recursive (take n2 r) a b n 0 0 p @ bn_mul_recursive (drop n2 r) (drop n a) (drop n b) n dna dnb p))
         in karatsuba_combine r (t0 @ t1) t23 neg n2 (take n2 p)))"
  by pat_completeness auto
termination by (relation "measure (\<lambda>(_, _, _, n2, _). n2)") (auto simp: BN_MUL_RECURSIVE_SIZE_NORMAL_def)

declare bn_mul_recursive.simps [simp del]

text \<open>The loop that halves \<open>i\<close> until a part of \<open>a1\<close> or \<open>b1\<close> of \<open>i\<close> words is full.\<close>

function halve_size :: "nat \<Rightarrow> nat \<Rightarrow> nat \<Rightarrow> nat" where
  "halve_size i tna tnb =
     (let i = i div 2 in if i < tna \<or> i < tnb \<or> i = tna \<or> i = tnb then i else halve_size i tna tnb)"
  by pat_completeness auto
termination by (relation "measure (\<lambda>(i, _). i)") auto

declare halve_size.simps [simp del]

lemma halve_size_le: "halve_size i tna tnb \<le> i div 2"
proof (induction i tna tnb rule: halve_size.induct)
  case (1 i tna tnb)
  show ?case
  proof (cases "i div 2 < tna \<or> i div 2 < tnb \<or> i div 2 = tna \<or> i div 2 = tnb")
    case False
    then have "halve_size (i div 2) tna tnb \<le> i div 2 div 2" by (intro "1.IH") simp_all
    then show ?thesis using False by (simp add: halve_size.simps [of i] Let_def)
  qed (auto simp: halve_size.simps [of i] Let_def)
qed

text \<open>\<open>OPENSSL_memset\<close> on bytes of an array of words: for small sizes the code clears bytes where it means words.\<close>

definition clear_bytes :: "nat \<Rightarrow> nat \<Rightarrow> u64 list \<Rightarrow> u64 list" where
  "clear_bytes off len r =
     (let bs = words_bytes r in bytes_words (take (8 * off) bs @ replicate len 0 @ drop (8 * off + len) bs))"

function bn_mul_part_recursive :: "u64 list \<Rightarrow> u64 list \<Rightarrow> u64 list \<Rightarrow> nat \<Rightarrow> nat \<Rightarrow> nat \<Rightarrow> u64 list \<Rightarrow> u64 list" where
  "bn_mul_part_recursive r a b n tna tnb t =
     (let n2 = n * 2
      in if n < 8 then clear_bytes (n2 + tna + tnb) (n2 - tna - tnb) (bn_mul_normal r a (n + tna) b (n + tnb))
         else
           (let (t0, neg) = bn_abs_sub_part_words (take n t) a (drop n a) tna (int n - int tna) (drop n2 t);
                (t1, neg1) = bn_abs_sub_part_words (take n (drop n t)) (drop n b) b tnb (int tnb - int n) (drop n2 t);
                neg = neg XOR neg1; p = drop (n2 * 2) t;
                (t23, r) =
                  (if n = 8 then
                     (bn_mul_comba8 t0 t1,
                      bn_mul_comba8 a b @
                        put_words (tna + tnb) (replicate (n2 - tna - tnb) 0) (bn_mul_normal (drop n2 r) (drop n a) tna (drop n b) tnb))
                   else
                     (bn_mul_recursive (take n2 (drop n2 t)) t0 t1 n 0 0 p,
                      bn_mul_recursive (take n2 r) a b n 0 0 p @
                        (let r2 = replicate n2 0
                         in if tna < BN_MUL_RECURSIVE_SIZE_NORMAL \<and> tnb < BN_MUL_RECURSIVE_SIZE_NORMAL then
                              bn_mul_normal r2 (drop n a) tna (drop n b) tnb
                            else
                              (let i = halve_size n tna tnb
                               in if i < tna \<or> i < tnb then
                                    put_words 0 (bn_mul_part_recursive (take (4 * i) r2) (drop n a) (drop n b) i (tna - i) (tnb - i) p) r2
                                  else
                                    put_words 0 (bn_mul_recursive (take (2 * i) r2) (drop n a) (drop n b) i (int tna - int i) (int tnb - int i) p) r2))))
            in karatsuba_combine r (t0 @ t1) t23 neg n2 (take n2 p)))"
  by pat_completeness auto
termination
  by (relation "measure (\<lambda>(_, _, _, n, _). n)") (auto intro!: le_less_trans [OF halve_size_le])

declare bn_mul_part_recursive.simps [simp del]

section \<open>Products of \<open>BIGNUM\<close>s\<close>

text \<open>
  \<open>get k\<close> is what the \<open>k\<close>-th call of \<open>BN_CTX_get\<close> returns, and \<open>aliased\<close> is \<open>r == a || r == b\<close>. The result is \<open>rr\<close>, or its
  copy in \<open>r\<close>.
\<close>

definition mul_into :: "bn_alloc \<Rightarrow> bignum option \<Rightarrow> bignum \<Rightarrow> bignum \<Rightarrow> bignum \<Rightarrow> bool \<times> bignum" where
  "mul_into al get_t rr a b =
     (let al' = bn_width a; bl = bn_width b; rr = rr\<lparr>bn_neg := bn_neg a \<noteq> bn_neg b\<rparr>; i = int al' - int bl; top = al' + bl
      in if i = 0 \<and> al' = 8 then
           (let (ok, rr) = bn_wexpand al rr 16
            in if \<not> ok then (False, rr)
               else (True, rr\<lparr>bn_width := 16, bn_d := put_words 0 (bn_mul_comba8 (bn_d a) (bn_d b)) (bn_d rr)\<rparr>))
         else if al' \<ge> 16 \<and> bl \<ge> 16 \<and> - 1 \<le> i \<and> i \<le> 1 then
           (let j = (if i \<ge> 0 then BN_num_bits_word (of_nat al') else BN_num_bits_word (of_nat bl)); j = 2 ^ (j - 1)
            in case get_t of None \<Rightarrow> (False, rr)
               | Some t \<Rightarrow>
                   if al' > j \<or> bl > j then
                     (let (ok, t) = bn_wexpand al t (j * 8)
                      in if \<not> ok then (False, rr)
                         else
                           (let (ok, rr) = bn_wexpand al rr (j * 4)
                            in if \<not> ok then (False, rr)
                               else (True, rr\<lparr>bn_d := put_words 0 (bn_mul_part_recursive (take (j * 4) (bn_d rr)) (bn_d a) (bn_d b) j (al' - j) (bl - j) (take (j * 8) (bn_d t))) (bn_d rr),
                                            bn_width := top\<rparr>)))
                   else
                     (let (ok, t) = bn_wexpand al t (j * 4)
                      in if \<not> ok then (False, rr)
                         else
                           (let (ok, rr) = bn_wexpand al rr (j * 2)
                            in if \<not> ok then (False, rr)
                               else (True, rr\<lparr>bn_d := put_words 0 (bn_mul_recursive (take (j * 2) (bn_d rr)) (bn_d a) (bn_d b) j (int al' - int j) (int bl - int j) (take (j * 4) (bn_d t))) (bn_d rr),
                                            bn_width := top\<rparr>))))
         else
           (let (ok, rr) = bn_wexpand al rr top
            in if \<not> ok then (False, rr)
               else (True, rr\<lparr>bn_width := top, bn_d := bn_mul_normal (bn_d rr) (bn_d a) al' (bn_d b) bl\<rparr>)))"

definition bn_mul_impl :: "bn_alloc \<Rightarrow> (nat \<Rightarrow> bignum option) \<Rightarrow> bool \<Rightarrow> bignum \<Rightarrow> bignum \<Rightarrow> bignum \<Rightarrow> bool \<times> bignum" where
  "bn_mul_impl al get aliased r a b =
     (if bn_width a = 0 \<or> bn_width b = 0 then (True, BN_zero r)
      else if aliased then
        (case get 0 of None \<Rightarrow> (False, r)
         | Some rr \<Rightarrow> (let (ok, rr) = mul_into al (get 1) rr a b in if \<not> ok then (False, r) else BN_copy al r rr))
      else mul_into al (get 0) r a b)"

definition BN_mul :: "bn_alloc \<Rightarrow> (nat \<Rightarrow> bignum option) \<Rightarrow> bool \<Rightarrow> bignum \<Rightarrow> bignum \<Rightarrow> bignum \<Rightarrow> bool \<times> bignum" where
  "BN_mul al get aliased r a b =
     (let (ok, r) = bn_mul_impl al get aliased r a b in if \<not> ok then (False, r) else (True, bn_set_minimal_width r))"

definition bn_mul_consttime :: "bn_alloc \<Rightarrow> (nat \<Rightarrow> bignum option) \<Rightarrow> bool \<Rightarrow> bignum \<Rightarrow> bignum \<Rightarrow> bignum \<Rightarrow> bool \<times> bignum" where
  "bn_mul_consttime al get aliased r a b =
     (if bn_neg a \<or> bn_neg b then (False, r) else bn_mul_impl al get aliased r a b)"

text \<open>\<open>None\<close> is \<open>abort()\<close>.\<close>

definition bn_mul_small :: "u64 list \<Rightarrow> nat \<Rightarrow> u64 list \<Rightarrow> nat \<Rightarrow> u64 list \<Rightarrow> nat \<Rightarrow> u64 list option" where
  "bn_mul_small r num_r a num_a b num_b =
     (if num_r \<noteq> num_a + num_b then None
      else if num_a = 8 \<and> num_b = 8 then Some (bn_mul_comba8 a b)
      else Some (bn_mul_normal r a num_a b num_b))"

section \<open>Squares\<close>

definition bn_sqr_normal :: "u64 list \<Rightarrow> u64 list \<Rightarrow> nat \<Rightarrow> u64 list \<Rightarrow> u64 list" where
  "bn_sqr_normal r a n tmp =
     (if n = 0 then r
      else
        (let mx = n * 2; r = r[0 := 0, mx - 1 := 0];
             r = (if n > 1 then (let (s, c) = bn_mul_words (drop 1 r) (drop 1 a) (n - 1) (a ! 0) in (take 1 r @ s)[n := c]) else r);
             r = (if n > 2 then
                    foldl (\<lambda>r k. let i = n - 1 - k; (s, c) = bn_mul_add_words (drop (2 * k + 1) r) (drop (k + 1) a) i (a ! k)
                                 in (take (2 * k + 1) r @ s)[2 * k + 1 + i := c]) r [1..<n - 1]
                  else r);
             (r, _) = bn_add_words r r r mx;
             tmp = bn_sqr_words tmp a n;
             (r, _) = bn_add_words r r tmp mx
         in r))"

function bn_sqr_recursive :: "u64 list \<Rightarrow> u64 list \<Rightarrow> nat \<Rightarrow> u64 list \<Rightarrow> u64 list" where
  "bn_sqr_recursive r a n2 t =
     (if n2 = 4 then bn_sqr_comba4 a
      else if n2 = 8 then bn_sqr_comba8 a
      else if n2 < BN_SQR_RECURSIVE_SIZE_NORMAL then bn_sqr_normal r a n2 t
      else
        (let n = n2 div 2; t_recursive = drop (n2 * 2) t;
             t0 = bn_abs_sub_words (take n t) a (drop n a) n (drop n t);
             t23 = bn_sqr_recursive (take n2 (drop n2 t)) t0 n t_recursive;
             r = bn_sqr_recursive (take n2 r) a n t_recursive @ bn_sqr_recursive (drop n2 r) (drop n a) n t_recursive;
             (t01, c) = bn_add_words (take n2 t) r (drop n2 r) n2;
             (t23, borrow) = bn_sub_words t23 t01 t23 n2; c = c - borrow;
             (r12, carry) = bn_add_words (drop n r) (drop n r) t23 n2; c = c + carry
         in fst (propagate_carry (take n r @ r12) c (n + n2) (n2 + n2))))"
  by pat_completeness auto
termination
  by (relation "measure (\<lambda>(_, _, n2, _). n2)") (auto simp: BN_SQR_RECURSIVE_SIZE_NORMAL_def BN_MUL_RECURSIVE_SIZE_NORMAL_def)

declare bn_sqr_recursive.simps [simp del]

definition BN_mul_word :: "bn_alloc \<Rightarrow> bignum \<Rightarrow> u64 \<Rightarrow> bool \<times> bignum" where
  "BN_mul_word al bn w =
     (if bn_width bn = 0 then (True, bn)
      else if w = 0 then (True, BN_zero bn)
      else
        (let (d, ll) = bn_mul_words (bn_d bn) (bn_d bn) (bn_width bn) w; bn = bn\<lparr>bn_d := d\<rparr>
         in if ll \<noteq> 0 then
              (let (ok, bn) = bn_wexpand al bn (bn_width bn + 1)
               in if \<not> ok then (False, bn) else (True, bn\<lparr>bn_d := (bn_d bn)[bn_width bn := ll], bn_width := bn_width bn + 1\<rparr>))
            else (True, bn)))"

text \<open>\<open>stack\<close> is the array \<open>t\<close> of \<open>bn_sqr_consttime\<close>, which is not initialised.\<close>

definition sqr_into :: "bn_alloc \<Rightarrow> bignum \<Rightarrow> u64 list \<Rightarrow> bignum \<Rightarrow> bignum \<Rightarrow> bool \<times> bignum" where
  "sqr_into al tmp stack rr a =
     (let al' = bn_width a; mx = 2 * al'; (ok, rr) = bn_wexpand al rr mx
      in if \<not> ok then (False, rr)
         else
           (let done = (\<lambda>sq. (True, rr\<lparr>bn_d := put_words 0 (take mx sq) (bn_d rr), bn_neg := False, bn_width := mx\<rparr>))
            in if al' = 4 then done (bn_sqr_comba4 (bn_d a))
               else if al' = 8 then done (bn_sqr_comba8 (bn_d a))
               else if al' < BN_SQR_RECURSIVE_SIZE_NORMAL then done (bn_sqr_normal (take mx (bn_d rr)) (bn_d a) al' stack)
               else if al' AND (al' - 1) = 0 then
                 (let (ok, tmp) = bn_wexpand al tmp (al' * 4)
                  in if \<not> ok then (False, rr) else done (bn_sqr_recursive (take mx (bn_d rr)) (bn_d a) al' (bn_d tmp)))
               else
                 (let (ok, tmp) = bn_wexpand al tmp mx
                  in if \<not> ok then (False, rr) else done (bn_sqr_normal (take mx (bn_d rr)) (bn_d a) al' (bn_d tmp)))))"

definition bn_sqr_consttime :: "bn_alloc \<Rightarrow> (nat \<Rightarrow> bignum option) \<Rightarrow> u64 list \<Rightarrow> bool \<Rightarrow> bignum \<Rightarrow> bignum \<Rightarrow> bool \<times> bignum" where
  "bn_sqr_consttime al get stack aliased r a =
     (if bn_width a = 0 then (True, r\<lparr>bn_width := 0, bn_neg := False\<rparr>)
      else if aliased then
        (case (get 0, get 1) of
           (Some rr, Some tmp) \<Rightarrow> (let (ok, rr) = sqr_into al tmp stack rr a in if \<not> ok then (False, r) else BN_copy al r rr)
         | _ \<Rightarrow> (False, r))
      else (case get 0 of None \<Rightarrow> (False, r) | Some tmp \<Rightarrow> sqr_into al tmp stack r a))"

definition BN_sqr :: "bn_alloc \<Rightarrow> (nat \<Rightarrow> bignum option) \<Rightarrow> u64 list \<Rightarrow> bool \<Rightarrow> bignum \<Rightarrow> bignum \<Rightarrow> bool \<times> bignum" where
  "BN_sqr al get stack aliased r a =
     (let (ok, r) = bn_sqr_consttime al get stack aliased r a in if \<not> ok then (False, r) else (True, bn_set_minimal_width r))"

definition bn_sqr_small :: "u64 list \<Rightarrow> nat \<Rightarrow> u64 list \<Rightarrow> nat \<Rightarrow> u64 list \<Rightarrow> u64 list option" where
  "bn_sqr_small r num_r a num_a tmp =
     (if num_r \<noteq> 2 * num_a \<or> num_a > 9 then None
      else if num_a = 4 then Some (bn_sqr_comba4 a)
      else if num_a = 8 then Some (bn_sqr_comba8 a)
      else Some (bn_sqr_normal r a num_a tmp))"

end
