(* ===== verification/Bn_Comba.thy ===== *)
theory Bn_Comba
  imports Bn_Words_Val
begin

text \<open>
  The unrolled products of \<open>Bn_Words\<close> are products. The three-word accumulator never overflows, for either variant
  of the macros, and the lists of columns name each pair of words once, at the sum of its positions.
\<close>

section \<open>The accumulator\<close>

fun av :: "acc \<Rightarrow> nat" where
  "av (c0, c1, c2) = unat c0 + W * (unat c1 + W * unat c2)"

text \<open>Two words and a carry go into the accumulator.\<close>

lemma add_two_words:
  assumes "unat lo + W * unat h = p + unat c0" "p + av (c0, c1, c2) < W ^ 3"
  shows "av (lo, c1 + h, if c1 + h < h then c2 + 1 else c2) = p + av (c0, c1, c2)"
proof -
  have c: "unat (c1 + h) + W * of_bool (c1 + h < h) = unat c1 + unat h" by (rule add_carry64)
  have e: "unat lo + W * (unat (c1 + h) + W * (of_bool (c1 + h < h) + unat c2)) = p + av (c0, c1, c2)"
  proof -
    have "unat lo + W * (unat (c1 + h) + W * (of_bool (c1 + h < h) + unat c2)) =
        unat lo + W * ((unat (c1 + h) + W * of_bool (c1 + h < h)) + W * unat c2)" by (simp add: algebra_simps)
    also have "\<dots> = (unat lo + W * unat h) + W * (unat c1 + W * unat c2)" unfolding c by (simp add: algebra_simps)
    finally show ?thesis unfolding assms(1) by simp
  qed
  have "W * (W * (of_bool (c1 + h < h) + unat c2)) < W * (W * W)"
    using assms(2) unfolding e [symmetric] by (simp add: power3_eq_cube algebra_simps)
  then have "of_bool (c1 + h < h) + unat c2 < W" by simp
  then have "unat (if c1 + h < h then c2 + 1 else c2) = of_bool (c1 + h < h) + unat c2"
    using unat_u64_less [of c2] by (auto simp: unat_add_u64)
  then show ?thesis using e by simp
qed

lemma if_add: "(if b then c2 + 1 else c2) = c2 + (if b then 1 else (0 :: u64))"
  by simp

locale comba_macros =
  fixes mac mac2 :: "u64 \<Rightarrow> u64 \<Rightarrow> acc \<Rightarrow> acc"
  assumes mac: "unat a * unat b + av c < W ^ 3 \<Longrightarrow> av (mac a b c) = unat a * unat b + av c"
    and mac2: "2 * (unat a * unat b) + av c < W ^ 3 \<Longrightarrow> av (mac2 a b c) = 2 * (unat a * unat b) + av c"

lemma product_and_word:
  "unat (Lw (ucast a * ucast b + ucast c0)) + W * unat (Hw (ucast a * ucast b + ucast c0)) = unat (a :: u64) * unat (b :: u64) + unat (c0 :: u64)"
proof -
  have "unat (ucast a * ucast b + ucast c0 :: u128) = unat a * unat b + unat c0"
    using product_bound [OF unat_u64_less unat_u64_less, of a b] unat_u64_less [of c0]
    by (subst unat_add_u128) (simp_all add: unat_mult_u128 W_def)
  then show ?thesis by (simp add: Lw_Hw)
qed

lemma mul_add_c_val:
  "unat a * unat b + av c < W ^ 3 \<Longrightarrow> av (mul_add_c a b c) = unat a * unat b + av c"
  by (cases c) (simp only: mul_add_c_def prod.case Let_def, rule add_two_words [OF product_and_word])

lemma mul_add_c2_twice: "mul_add_c2 a b c = mul_add_c a b (mul_add_c a b c)"
  by (cases c) (simp add: mul_add_c2_def mul_add_c_def Let_def)

lemma lohi_and_word:
  assumes "BN_UMULT_LOHI a b = (lo, hi)"
  shows "unat (c0 + lo) + W * unat (hi + (if c0 + lo < lo then 1 else 0)) = unat a * unat b + unat c0"
proof -
  note p = BN_UMULT_LOHI_val [OF assms]
  have "unat (hi + (if c0 + lo < lo then 1 else 0)) = unat hi + of_bool (c0 + lo < lo)"
    using p by (intro add_one_carry) simp
  then show ?thesis using add_carry64 [of c0 lo] p by (simp add: algebra_simps)
qed

lemma mul_add_c_lohi_val:
  "unat a * unat b + av c < W ^ 3 \<Longrightarrow> av (mul_add_c_lohi a b c) = unat a * unat b + av c"
proof (cases c)
  case (fields c0 c1 c2)
  assume lt: "unat a * unat b + av c < W ^ 3"
  obtain lo hi where p: "BN_UMULT_LOHI a b = (lo, hi)" by (meson surj_pair)
  show ?thesis
    using add_two_words [OF lohi_and_word [OF p, of c0] lt [unfolded fields]]
    by (simp only: fields mul_add_c_lohi_def p prod.case Let_def if_add)
qed

lemma mul_add_c2_lohi_twice: "mul_add_c2_lohi a b c = mul_add_c_lohi a b (mul_add_c_lohi a b c)"
  by (cases c) (simp only: mul_add_c2_lohi_def mul_add_c_lohi_def split_beta Let_def fst_conv snd_conv)

interpretation wide_macros: comba_macros mul_add_c mul_add_c2
  by unfold_locales (simp_all add: mul_add_c_val mul_add_c2_twice)

interpretation narrow_macros: comba_macros mul_add_c_lohi mul_add_c2_lohi
  by unfold_locales (simp_all add: mul_add_c_lohi_val mul_add_c2_lohi_twice)

section \<open>Columns\<close>

primrec csum :: "('t \<Rightarrow> nat) \<Rightarrow> 't list list \<Rightarrow> nat" where
  "csum v [] = 0"
| "csum v (col # cols) = sum_list (map v col) + W * csum v cols"

lemma fold_acc:
  assumes "\<And>t c. v t + av c < W ^ 3 \<Longrightarrow> av (f t c) = v t + av c"
    and "sum_list (map v col) + av c < W ^ 3"
  shows "av (fold f col c) = sum_list (map v col) + av c"
  using assms(2) by (induction col arbitrary: c) (simp_all add: assms(1) add.assoc add.left_commute)

lemma digit_mod: "x < W \<Longrightarrow> x + W * (y mod m) = (x + W * y) mod (W * m)" for x y m :: nat
  by (simp add: mod_mult2_eq)

lemma comba_val:
  assumes "\<And>t c. v t + av c < W ^ 3 \<Longrightarrow> av (f t c) = v t + av c"
    and "\<And>col. col \<in> set cols \<Longrightarrow> sum_list (map v col) + W ^ 2 \<le> W ^ 3" "av c < W ^ 2"
  shows "wval (comba f cols c) = (av c + csum v cols) mod W ^ Suc (length cols)"
  using assms(2,3)
proof (induction cols arbitrary: c)
  case Nil
  obtain c0 c1 c2 where "c = (c0, c1, c2)" by (cases c)
  then show ?case by (simp add: unat_u64_less)
next
  case (Cons col cols)
  obtain d0 d1 d2 where d: "fold f col c = (d0, d1, d2)" by (cases "fold f col c")
  have "sum_list (map v col) + av c < W ^ 3" using Cons.prems(1) [of col] Cons.prems(2) by simp
  then have a: "av (d0, d1, d2) = sum_list (map v col) + av c" using fold_acc [of v f col c] assms(1) d by simp
  have "av (d1, d2, 0) < W ^ 2" using digit_less [OF unat_u64_less unat_u64_less, of d1 d2] by (simp add: power2_eq_square)
  then have ih: "wval (comba f cols (d1, d2, 0)) = (av (d1, d2, 0) + csum v cols) mod W ^ Suc (length cols)"
    using Cons.prems(1) by (intro Cons.IH) simp_all
  have "wval (comba f (col # cols) c) = unat d0 + W * ((av (d1, d2, 0) + csum v cols) mod W ^ Suc (length cols))"
    unfolding ih [symmetric] by (simp add: d)
  also have "\<dots> = (unat d0 + W * (av (d1, d2, 0) + csum v cols)) mod (W * W ^ Suc (length cols))"
    by (rule digit_mod [OF unat_u64_less])
  also have "unat d0 + W * (av (d1, d2, 0) + csum v cols) = av c + csum v (col # cols)"
    using a by (simp add: algebra_simps)
  finally show ?case by simp
qed

text \<open>The columns of a product.\<close>

definition pair_columns :: "nat \<Rightarrow> (nat \<times> nat) list list \<Rightarrow> bool" where
  "pair_columns n cols \<longleftrightarrow>
     (\<forall>(k, col)\<in>set (enumerate 0 cols). \<forall>(i, j)\<in>set col. i + j = k) \<and>
     distinct (concat cols) \<and> set (concat cols) = {..<n} \<times> {..<n} \<and> (\<forall>col\<in>set cols. length col \<le> n)"

lemma csum_positions:
  assumes "\<forall>(k, col)\<in>set (enumerate d cols). \<forall>(i, j)\<in>set col. i + j = k"
  shows "W ^ d * csum (\<lambda>(i, j). x i * y j) cols = (\<Sum>(i, j)\<leftarrow>concat cols. (W ^ i * x i) * (W ^ j * y j))"
  using assms
proof (induction cols arbitrary: d)
  case (Cons col cols)
  have "W ^ d * (\<Sum>(i, j)\<leftarrow>col. x i * y j) = (\<Sum>(i, j)\<leftarrow>col. (W ^ i * x i) * (W ^ j * y j))"
    unfolding sum_list_const_mult [symmetric]
    by (rule arg_cong [where f = sum_list], rule map_cong) (use Cons.prems in \<open>auto simp: power_add algebra_simps\<close>)
  moreover have "W ^ Suc d * csum (\<lambda>(i, j). x i * y j) cols = (\<Sum>(i, j)\<leftarrow>concat cols. (W ^ i * x i) * (W ^ j * y j))"
    using Cons.prems by (intro Cons.IH) auto
  ultimately show ?case by (simp add: algebra_simps)
qed simp

lemma pair_columns_product:
  assumes "pair_columns n cols"
  shows "csum (\<lambda>(i, j). x i * y j) cols = (\<Sum>i<n. W ^ i * x i) * (\<Sum>j<n. W ^ j * y j)"
proof -
  have "csum (\<lambda>(i, j). x i * y j) cols = (\<Sum>(i, j)\<leftarrow>concat cols. (W ^ i * x i) * (W ^ j * y j))"
    using csum_positions [of 0 cols x y] assms by (simp add: pair_columns_def)
  also have "\<dots> = (\<Sum>(i, j)\<in>{..<n} \<times> {..<n}. (W ^ i * x i) * (W ^ j * y j))"
    using assms by (simp add: pair_columns_def sum_list_distinct_conv_sum_set)
  also have "\<dots> = (\<Sum>i<n. W ^ i * x i) * (\<Sum>j<n. W ^ j * y j)"
    by (simp add: sum_product sum.cartesian_product)
  finally show ?thesis .
qed

lemma column_bound:
  assumes "length col \<le> n" "n \<le> 8" "\<And>i. x i < W" "\<And>i. y i < W"
  shows "(\<Sum>(i, j)\<leftarrow>col. x i * y j) + W ^ 2 \<le> W ^ 3"
proof -
  have "(\<Sum>(i, j)\<leftarrow>col. x i * y j) \<le> length col * (W * W)"
  proof (induction col)
    case (Cons p col)
    have "x (fst p) * y (snd p) \<le> W * W" using assms(3,4) by (intro mult_le_mono less_imp_le)
    then show ?case using Cons by (simp add: split_beta)
  qed simp
  also have "length col * (W * W) \<le> 8 * (W * W)" using assms(1,2) by (intro mult_le_mono1) simp
  finally have "(\<Sum>(i, j)\<leftarrow>col. x i * y j) + W ^ 2 \<le> 9 * (W * W)" by (simp add: power2_eq_square)
  also have "\<dots> \<le> W * (W * W)" by (intro mult_le_mono1) (simp add: W_def)
  finally show ?thesis by (simp add: power3_eq_cube mult.assoc)
qed

lemma length_comba [simp]: "length (comba f cols c) = Suc (length cols)"
  by (induction cols arbitrary: c) (simp_all add: split_beta)

lemma wval_nths: "length a = n \<Longrightarrow> (\<Sum>i<n. W ^ i * unat (a ! i)) = wval a"
  using sum_wval [of n a] by simp

context comba_macros
begin

lemma comba_mul_val:
  assumes "pair_columns n cols" "length cols = 2 * n - 1" "0 < n" "n \<le> 8" "length a = n" "length b = n"
  shows "wval (comba_mul mac cols a b) = wval a * wval b \<and> length (comba_mul mac cols a b) = 2 * n"
proof -
  let ?v = "\<lambda>(i, j). unat (a ! i) * unat (b ! j)"
  have "wval (comba (\<lambda>(i, j). mac (a ! i) (b ! j)) cols (0, 0, 0)) = (av (0, 0, 0) + csum ?v cols) mod W ^ Suc (length cols)"
  proof (rule comba_val)
    fix col assume "col \<in> set cols"
    then show "sum_list (map ?v col) + W ^ 2 \<le> W ^ 3"
      using assms(1,4) by (intro column_bound [of _ n]) (auto simp: pair_columns_def unat_u64_less)
  qed (auto simp: mac)
  moreover have "csum ?v cols = wval a * wval b" using pair_columns_product [OF assms(1)] assms(5,6) by (simp add: wval_nths)
  moreover have "Suc (length cols) = n + n" using assms(2,3) by simp
  moreover have "wval a * wval b < W ^ (n + n)"
    using wval_less [of a] wval_less [of b] assms(5,6) by (simp add: power_add mult_strict_mono)
  ultimately show ?thesis using assms(2,3) by (simp add: mult_2 comba_mul_def)
qed

end

text \<open>The columns of a square: a product of two different words counts twice.\<close>

fun sqr_pairs :: "sqr_term \<Rightarrow> (nat \<times> nat) list" where
  "sqr_pairs (Sqr i) = [(i, i)]"
| "sqr_pairs (Dbl i j) = [(i, j), (j, i)]"

fun sqr_value :: "(nat \<Rightarrow> nat) \<Rightarrow> sqr_term \<Rightarrow> nat" where
  "sqr_value x (Sqr i) = x i * x i"
| "sqr_value x (Dbl i j) = 2 * (x i * x j)"

lemma sqr_value_pairs: "sqr_value x t = (\<Sum>(i, j)\<leftarrow>sqr_pairs t. x i * x j)"
  by (cases t) simp_all

lemma sqr_column: "sum_list (map (sqr_value x) col) = (\<Sum>(i, j)\<leftarrow>concat (map sqr_pairs col). x i * x j)"
  by (induction col) (simp_all add: sqr_value_pairs)

lemma csum_sqr: "csum (sqr_value x) cols = csum (\<lambda>(i, j). x i * x j) (map (\<lambda>col. concat (map sqr_pairs col)) cols)"
  by (induction cols) (simp_all add: sqr_column)

context comba_macros
begin

lemma comba_sqr_val:
  assumes "pair_columns n (map (\<lambda>col. concat (map sqr_pairs col)) cols)" "length cols = 2 * n - 1" "0 < n" "n \<le> 8" "length a = n"
  shows "wval (comba_sqr (\<lambda>a i. mac (a ! i) (a ! i)) (\<lambda>a i j. mac2 (a ! i) (a ! j)) cols a) = wval a * wval a \<and>
    length (comba_sqr (\<lambda>a i. mac (a ! i) (a ! i)) (\<lambda>a i j. mac2 (a ! i) (a ! j)) cols a) = 2 * n"
proof -
  let ?x = "\<lambda>i. unat (a ! i)" and ?f = "\<lambda>t. case t of Sqr i \<Rightarrow> mac (a ! i) (a ! i) | Dbl i j \<Rightarrow> mac2 (a ! i) (a ! j)"
  have "wval (comba ?f cols (0, 0, 0)) = (av (0, 0, 0) + csum (sqr_value ?x) cols) mod W ^ Suc (length cols)"
  proof (rule comba_val)
    fix t c assume "sqr_value ?x t + av c < W ^ 3"
    then show "av (?f t c) = sqr_value ?x t + av c" by (cases t) (simp_all add: mac mac2)
  next
    fix col assume "col \<in> set cols"
    then show "sum_list (map (sqr_value ?x) col) + W ^ 2 \<le> W ^ 3"
      unfolding sqr_column using assms(1,4) by (intro column_bound [of _ n]) (auto simp: pair_columns_def unat_u64_less)
  qed simp
  moreover have "csum (sqr_value ?x) cols = wval a * wval a"
    unfolding csum_sqr using pair_columns_product [OF assms(1)] assms(5) by (simp add: wval_nths)
  moreover have "Suc (length cols) = n + n" using assms(2,3) by simp
  moreover have "wval a * wval a < W ^ (n + n)" using wval_less [of a] assms(5) by (simp add: power_add mult_strict_mono)
  ultimately show ?thesis using assms(2,3) by (simp add: mult_2 comba_sqr_def)
qed

end

section \<open>The four products\<close>

lemma lessThan_8: "{..<8} = set [0, 1, 2, 3, 4, 5, 6, 7 :: nat]"
  by auto

lemma lessThan_4: "{..<4} = set [0, 1, 2, 3 :: nat]"
  by auto

lemma comba_columns:
  "pair_columns 8 comba8_columns" "pair_columns 4 comba4_columns"
  "pair_columns 8 (map (\<lambda>col. concat (map sqr_pairs col)) sqr8_columns)"
  "pair_columns 4 (map (\<lambda>col. concat (map sqr_pairs col)) sqr4_columns)"
  unfolding pair_columns_def lessThan_8 lessThan_4 by code_simp+

lemma bn_mul_comba8_val: "length a = 8 \<Longrightarrow> length b = 8 \<Longrightarrow> wval (bn_mul_comba8 a b) = wval a * wval b \<and> length (bn_mul_comba8 a b) = 16"
  using wide_macros.comba_mul_val [OF comba_columns(1)] by (simp add: bn_mul_comba8_def comba8_columns_def)

lemma bn_mul_comba4_val: "length a = 4 \<Longrightarrow> length b = 4 \<Longrightarrow> wval (bn_mul_comba4 a b) = wval a * wval b \<and> length (bn_mul_comba4 a b) = 8"
  using wide_macros.comba_mul_val [OF comba_columns(2)] by (simp add: bn_mul_comba4_def comba4_columns_def)

lemma sqr_macros: "sqr_add_c = (\<lambda>a i. mul_add_c (a ! i) (a ! i))" "sqr_add_c2 = (\<lambda>a i j. mul_add_c2 (a ! i) (a ! j))"
  "sqr_add_c_lohi = (\<lambda>a i. mul_add_c_lohi (a ! i) (a ! i))" "sqr_add_c2_lohi = (\<lambda>a i j. mul_add_c2_lohi (a ! i) (a ! j))"
  by (intro ext, simp add: sqr_add_c_def mul_add_c_def sqr_add_c2_def sqr_add_c_lohi_def mul_add_c_lohi_def sqr_add_c2_lohi_def)+

lemma bn_sqr_comba8_val: "length a = 8 \<Longrightarrow> wval (bn_sqr_comba8 a) = wval a * wval a \<and> length (bn_sqr_comba8 a) = 16"
  using wide_macros.comba_sqr_val [OF comba_columns(3)] by (simp add: bn_sqr_comba8_def sqr_macros sqr8_columns_def)

lemma bn_sqr_comba4_val: "length a = 4 \<Longrightarrow> wval (bn_sqr_comba4 a) = wval a * wval a \<and> length (bn_sqr_comba4 a) = 8"
  using wide_macros.comba_sqr_val [OF comba_columns(4)] by (simp add: bn_sqr_comba4_def sqr_macros sqr4_columns_def)

lemma bn_mul_comba8_lohi_val:
  "length a = 8 \<Longrightarrow> length b = 8 \<Longrightarrow> wval (bn_mul_comba8_lohi a b) = wval a * wval b \<and> length (bn_mul_comba8_lohi a b) = 16"
  using narrow_macros.comba_mul_val [OF comba_columns(1)] by (simp add: bn_mul_comba8_lohi_def comba8_columns_def)

lemma bn_mul_comba4_lohi_val:
  "length a = 4 \<Longrightarrow> length b = 4 \<Longrightarrow> wval (bn_mul_comba4_lohi a b) = wval a * wval b \<and> length (bn_mul_comba4_lohi a b) = 8"
  using narrow_macros.comba_mul_val [OF comba_columns(2)] by (simp add: bn_mul_comba4_lohi_def comba4_columns_def)

lemma bn_sqr_comba8_lohi_val: "length a = 8 \<Longrightarrow> wval (bn_sqr_comba8_lohi a) = wval a * wval a \<and> length (bn_sqr_comba8_lohi a) = 16"
  using narrow_macros.comba_sqr_val [OF comba_columns(3)] by (simp add: bn_sqr_comba8_lohi_def sqr_macros sqr8_columns_def)

lemma bn_sqr_comba4_lohi_val: "length a = 4 \<Longrightarrow> wval (bn_sqr_comba4_lohi a) = wval a * wval a \<and> length (bn_sqr_comba4_lohi a) = 8"
  using narrow_macros.comba_sqr_val [OF comba_columns(4)] by (simp add: bn_sqr_comba4_lohi_def sqr_macros sqr4_columns_def)

end
