(* ===== verification/Bn_Products.thy ===== *)
theory Bn_Products
  imports Bn_Mul_Val
begin

text \<open>
  The products of \<open>BIGNUM\<close>s: the second Karatsuba recursion, for operands longer than a power of two, \<open>BN_mul\<close>, whose
  choice among the methods does not show, and the squares.
\<close>

unbundle bit_operations_syntax

section \<open>\<open>bn_mul_part_recursive\<close>\<close>

lemma halve_size_pow2:
  assumes "max ka kb < 2 ^ e" "0 < max ka kb"
  shows "\<exists>e'. halve_size (2 ^ e) ka kb = 2 ^ e' \<and> e' < e \<and> 2 ^ e' \<le> max ka kb \<and> max ka kb < 2 * 2 ^ e'"
  using assms
proof (induction e)
  case (Suc e)
  have d: "(2 :: nat) ^ Suc e div 2 = 2 ^ e" by simp
  show ?case
  proof (cases "2 ^ e \<le> max ka kb")
    case True
    then have "2 ^ e < ka \<or> 2 ^ e < kb \<or> 2 ^ e = ka \<or> 2 ^ e = kb" by (auto simp: max_def split: if_splits)
    then have "halve_size (2 ^ Suc e) ka kb = 2 ^ e" unfolding halve_size.simps [of "2 ^ Suc e"] Let_def d by simp
    then show ?thesis using True Suc.prems(1) by (intro exI [of _ e]) simp
  next
    case False
    then have "\<not> (2 ^ e < ka \<or> 2 ^ e < kb \<or> 2 ^ e = ka \<or> 2 ^ e = kb)" by auto
    then have "halve_size (2 ^ Suc e) ka kb = halve_size (2 ^ e) ka kb" unfolding halve_size.simps [of "2 ^ Suc e"] Let_def d by simp
    moreover obtain e' where "halve_size (2 ^ e) ka kb = 2 ^ e'" "e' < e" "2 ^ e' \<le> max ka kb" "max ka kb < 2 * 2 ^ e'"
      using Suc.IH [OF _ Suc.prems(2)] False unfolding not_le by blast
    ultimately show ?thesis by (intro exI [of _ e']) simp
  qed
qed simp

lemma put_words_0_zeros: "length x \<le> n \<Longrightarrow> wval (put_words 0 x (replicate n 0)) = wval x \<and> length (put_words 0 x (replicate n 0)) = n"
  by (simp add: put_words_def wval_append)

lemma normal_zeros:
  assumes "ka \<le> length a" "kb \<le> length b" "ka + kb \<le> n"
  shows "wval (bn_mul_normal (replicate n 0) a ka b kb) = wval (take ka a) * wval (take kb b) \<and> length (bn_mul_normal (replicate n 0) a ka b kb) = n"
proof -
  let ?x = "bn_mul_normal (replicate n 0) a ka b kb"
  have v: "wval (take (ka + kb) ?x) = wval (take ka a) * wval (take kb b)" "length ?x = n" "drop (ka + kb) ?x = replicate (n - (ka + kb)) 0"
    using bn_mul_normal_val [of ka a kb b "replicate n 0"] assms by simp_all
  then show ?thesis using wval_take_drop [of "ka + kb" ?x] assms(3) by simp
qed

lemma bn_mul_part_recursive_val:
  assumes "\<exists>e. n = 2 ^ e" "8 \<le> n" "ka < n" "kb < n" "ka \<le> kb + 1" "kb \<le> ka + 1"
    and "n + ka \<le> length a" "n + kb \<le> length b" "length r = 4 * n" "8 * n \<le> length t"
  shows "wval (bn_mul_part_recursive r a b n ka kb t) = wval (take (n + ka) a) * wval (take (n + kb) b) \<and>
    length (bn_mul_part_recursive r a b n ka kb t) = 4 * n"
  using assms
proof (induction n arbitrary: r a b ka kb t rule: less_induct)
  case (less n)
  obtain t0 neg where a: "bn_abs_sub_part_words (take n t) a (drop n a) ka (int n - int ka) (drop (n * 2) t) = (t0, neg)" by (meson surj_pair)
  obtain t1 neg1 where b: "bn_abs_sub_part_words (take n (drop n t)) (drop n b) b kb (int kb - int n) (drop (n * 2) t) = (t1, neg1)" by (meson surj_pair)
  define p where "p = drop (n * 2 * 2) t"
  define r2 :: "u64 list" where "r2 = replicate (n * 2) 0"
  define i where "i = halve_size n ka kb"
  define high where "high = (if ka < BN_MUL_RECURSIVE_SIZE_NORMAL \<and> kb < BN_MUL_RECURSIVE_SIZE_NORMAL then bn_mul_normal r2 (drop n a) ka (drop n b) kb
    else if i < ka \<or> i < kb then put_words 0 (bn_mul_part_recursive (take (4 * i) r2) (drop n a) (drop n b) i (ka - i) (kb - i) p) r2
    else put_words 0 (bn_mul_recursive (take (2 * i) r2) (drop n a) (drop n b) i (int ka - int i) (int kb - int i) p) r2)"
  define prods where "prods = (if n = 8 then
      (bn_mul_comba8 t0 t1, bn_mul_comba8 a b @
        put_words (ka + kb) (replicate (n * 2 - ka - kb) 0) (bn_mul_normal (drop (n * 2) r) (drop n a) ka (drop n b) kb))
    else (bn_mul_recursive (take (n * 2) (drop (n * 2) t)) t0 t1 n 0 0 p, bn_mul_recursive (take (n * 2) r) a b n 0 0 p @ high))"
  have e: "bn_mul_part_recursive r a b n ka kb t = karatsuba_combine (snd prods) (t0 @ t1) (fst prods) (neg XOR neg1) (n * 2) (take (n * 2) p)"
  proof -
    have c: "\<not> n < 8" using less.prems(2) by simp
    show ?thesis
      unfolding bn_mul_part_recursive.simps [of r a b n ka kb t] Let_def if_not_P [OF c]
      unfolding a b prod.case p_def [symmetric] i_def [symmetric] r2_def [symmetric]
      unfolding high_def [symmetric]
      unfolding prods_def [symmetric] by (simp only: split_beta)
  qed
  have l: "length t0 = n" "length t1 = n"
    using bn_abs_sub_part_words_val [OF a, unfolded part_sizes [OF less_imp_le [OF less.prems(3)]]]
      bn_abs_sub_part_words_val [OF b, unfolded part_sizes [OF less_imp_le [OF less.prems(4)]]] less.prems(7-10) by simp_all
  have lp: "4 * n \<le> length p" using less.prems(10) by (simp add: p_def)
  have la: "n \<le> length a" "n \<le> length b" "ka \<le> length (drop n a)" "kb \<le> length (drop n b)" "ka + kb \<le> 2 * n" using less.prems by simp_all
  have hv: "wval high = wval (take ka (drop n a)) * wval (take kb (drop n b)) \<and> length high = 2 * n"
  proof -
    consider "ka < 16 \<and> kb < 16" | "\<not> (ka < 16 \<and> kb < 16)" by blast
    then show ?thesis
    proof cases
      case 1
      then show ?thesis using normal_zeros [OF la(3,4,5)] by (simp add: high_def r2_def BN_MUL_RECURSIVE_SIZE_NORMAL_def mult.commute)
    next
      case 2
      obtain e where "n = 2 ^ e" using less.prems(1) by blast
      moreover have "max ka kb < n" "0 < max ka kb" using less.prems(3,4) 2 by (auto simp: max_def)
      ultimately obtain e' where e': "i = 2 ^ e'" "e' < e" "i \<le> max ka kb" "max ka kb < 2 * i"
        using halve_size_pow2 [of ka kb e] unfolding i_def by metis
      have "2 * i = 2 ^ Suc e'" by (simp add: e'(1))
      also have "\<dots> \<le> n" unfolding \<open>n = 2 ^ e\<close> using e'(2) by (intro power_increasing) simp_all
      finally have in2: "2 * i \<le> n" .
      have i8: "8 \<le> i" using e'(4) 2 by auto
      show ?thesis
      proof (cases "i < ka \<or> i < kb")
        case True
        then have le: "i \<le> ka" "i \<le> kb" using less.prems(5,6) by linarith+
        have ltn: "i < n" using in2 i8 by simp
        have "wval (bn_mul_part_recursive (take (4 * i) r2) (drop n a) (drop n b) i (ka - i) (kb - i) p) =
            wval (take (i + (ka - i)) (drop n a)) * wval (take (i + (kb - i)) (drop n b)) \<and>
            length (bn_mul_part_recursive (take (4 * i) r2) (drop n a) (drop n b) i (ka - i) (kb - i) p) = 4 * i"
          by (rule less.IH [OF ltn]) (use e' i8 le less.prems(5,6) la lp in2 in \<open>auto simp: r2_def\<close>)
        then show ?thesis using 2 True le in2 put_words_0_zeros [of "bn_mul_part_recursive (take (4 * i) r2) (drop n a) (drop n b) i (ka - i) (kb - i) p" "n * 2"]
          by (auto simp: high_def r2_def BN_MUL_RECURSIVE_SIZE_NORMAL_def mult.commute)
      next
        case False
        then have d: "int ka - int i \<le> 0" "- 8 \<le> int ka - int i" "int kb - int i \<le> 0" "- 8 \<le> int kb - int i"
          using e'(3) less.prems(5,6) by linarith+
        have s: "int i + (int ka - int i) = int ka" "int i + (int kb - int i) = int kb" by simp_all
        have "wval (bn_mul_recursive (take (2 * i) r2) (drop n a) (drop n b) i (int ka - int i) (int kb - int i) p) =
            wval (take (nat (int ka)) (drop n a)) * wval (take (nat (int kb)) (drop n b)) \<and>
            length (bn_mul_recursive (take (2 * i) r2) (drop n a) (drop n b) i (int ka - int i) (int kb - int i) p) = 2 * i"
          using bn_mul_recursive_val [of i "int ka - int i" "int kb - int i" "drop n a" "drop n b" "take (2 * i) r2" p, unfolded s] d e'(1) la lp in2
          by (auto simp: r2_def)
        then show ?thesis using 2 False in2 put_words_0_zeros [of "bn_mul_recursive (take (2 * i) r2) (drop n a) (drop n b) i (int ka - int i) (int kb - int i) p" "n * 2"]
          by (auto simp: high_def r2_def BN_MUL_RECURSIVE_SIZE_NORMAL_def mult.commute)
      qed
    qed
  qed
  have pv: "wval (fst prods) = wval t0 * wval t1 \<and> length (fst prods) = 2 * n \<and> length (snd prods) = 2 * (2 * n) \<and>
    wval (take (2 * n) (snd prods)) = wval (take n a) * wval (take n b) \<and>
    wval (drop (2 * n) (snd prods)) = wval (take ka (drop n a)) * wval (take kb (drop n b))"
  proof (cases "n = 8")
    case True
    let ?x = "bn_mul_normal (drop (n * 2) r) (drop n a) ka (drop n b) kb"
    have x: "length ?x = n * 2" "wval (take (ka + kb) ?x) = wval (take ka (drop n a)) * wval (take kb (drop n b))"
      using bn_mul_normal_val [OF la(3,4), of "drop (n * 2) r"] la(5) less.prems(9) by simp_all
    have k: "ka + kb \<le> n * 2" using la(5) by simp
    have "n * 2 - ka - kb = n * 2 - (ka + kb)" by simp
    then show ?thesis using True comba_take_val(1) [of t0 t1] comba_take_val(1) [of a b] l la zero_tail [OF x(1) k] x(2)
      by (simp add: prods_def)
  next
    case False
    have ih0: "wval (bn_mul_recursive r' a' b' n 0 0 p) = wval (take n a') * wval (take n b') \<and> length (bn_mul_recursive r' a' b' n 0 0 p) = 2 * n"
      if "length r' = 2 * n" "n \<le> length a'" "n \<le> length b'" for r' a' b'
      using bn_mul_recursive_val [of n 0 0 a' b' r' p] less.prems(1) that lp by simp
    show ?thesis using False ih0 [of "take (n * 2) (drop (n * 2) t)" t0 t1] ih0 [of "take (n * 2) r" a b] hv l la less.prems(9,10)
      by (simp add: prods_def)
  qed
  have "length (take (2 * n) p) = 2 * n" using lp by simp
  then show ?case
    using karatsuba_step [OF _ _ less.prems(7,8,10) a [unfolded mult.commute [of n 2]] b [unfolded mult.commute [of n 2]], of "fst prods" "snd prods" "take (2 * n) p"]
      pv less.prems(3,4) unfolding e by (simp add: mult.commute)
qed

section \<open>\<open>BN_mul\<close>\<close>

lemma wval_take_small: "wval x < W ^ k \<Longrightarrow> wval (take k x) = wval x"
proof (cases "k \<le> length x")
  case True
  assume lt: "wval x < W ^ k"
  then have "wval (drop k x) = 0" using wval_take_drop [OF True] by (cases "wval (drop k x)") simp_all
  then show ?thesis using wval_take_drop [OF True] by simp
qed simp

lemma BN_copy_val:
  assumes "BN_copy al r a = (ok, r')" "bn_ok r" "bn_ok a"
  shows "ok \<Longrightarrow> bn_ok r' \<and> bn_abs r' = bn_abs a \<and> bn_neg r' = bn_neg a \<and> bn_width r' = bn_width a" "can_expand al r (bn_width a) \<Longrightarrow> ok"
proof -
  obtain ok1 r1 where e: "bn_wexpand al r (bn_width a) = (ok1, r1)" by (meson surj_pair)
  note f = bn_wexpand_frame [OF e assms(2)]
  show "ok \<Longrightarrow> bn_ok r' \<and> bn_abs r' = bn_abs a \<and> bn_neg r' = bn_neg a \<and> bn_width r' = bn_width a"
    using assms(1,3) f(8) by (auto simp: BN_copy_def e bn_ok_def bn_abs_def put_words_def split: if_splits)
  show "can_expand al r (bn_width a) \<Longrightarrow> ok" using can_expand_ok [of al r "bn_width a"] assms(1) e by (auto simp: BN_copy_def split: if_splits)
qed

text \<open>A product that fills the front of an array.\<close>

lemma product_put:
  assumes "bn_ok a" "bn_ok b" "length x \<le> length d" "bn_width a + bn_width b \<le> length x"
    and "wval x = bn_abs a * bn_abs b"
  shows "wval (take (bn_width a + bn_width b) (put_words 0 x d)) = bn_abs a * bn_abs b" "bn_width a + bn_width b \<le> length (put_words 0 x d)"
proof -
  have "bn_abs a * bn_abs b < W ^ bn_width a * W ^ bn_width b"
    using bn_abs_less [OF assms(1)] bn_abs_less [OF assms(2)] by (intro mult_strict_mono) simp_all
  then have "wval (take (bn_width a + bn_width b) x) = bn_abs a * bn_abs b"
    using wval_take_small [of x "bn_width a + bn_width b"] assms(5) by (simp add: power_add)
  then show "wval (take (bn_width a + bn_width b) (put_words 0 x d)) = bn_abs a * bn_abs b" "bn_width a + bn_width b \<le> length (put_words 0 x d)"
    using assms(3,4) by (simp_all add: put_words_def)
qed

lemma bitlen_pow2:
  assumes "n \<noteq> 0"
  shows "2 ^ (bitlen n - 1) \<le> n" "n < 2 * 2 ^ (bitlen n - 1)"
proof -
  have b: "bitlen n \<noteq> 0" using assms by (simp add: bitlen.simps)
  then have "\<not> bitlen n \<le> bitlen n - 1" by simp
  then show "2 ^ (bitlen n - 1) \<le> n" unfolding bitlen_le_iff by simp
  have "n < 2 ^ bitlen n" using bitlen_le_iff [of n "bitlen n"] by simp
  also have "(2 :: nat) ^ bitlen n = 2 * 2 ^ (bitlen n - 1)" using b by (cases "bitlen n") simp_all
  finally show "n < 2 * 2 ^ (bitlen n - 1)" .
qed

lemma mul_into_val:
  assumes "mul_into al get_t rr a b = (ok, rr')" "bn_ok rr" "bn_ok a" "bn_ok b" "\<forall>t. get_t = Some t \<longrightarrow> bn_ok t"
    and "bn_width a < 2 ^ 31" "bn_width b < 2 ^ 31"
  shows "ok \<Longrightarrow> bn_ok rr' \<and> bn_abs rr' = bn_abs a * bn_abs b \<and> bn_neg rr' = (bn_neg a \<noteq> bn_neg b) \<and> bn_width rr' = bn_width a + bn_width b"
    and "get_t = Some t \<Longrightarrow> can_expand al t (8 * (bn_width a + bn_width b)) \<Longrightarrow> can_expand al rr (8 * (bn_width a + bn_width b)) \<Longrightarrow> ok"
proof -
  define wa where "wa = bn_width a"
  define wb where "wb = bn_width b"
  define r0 where "r0 = rr\<lparr>bn_neg := bn_neg a \<noteq> bn_neg b\<rparr>"
  have ok0: "bn_ok r0" using assms(2) by (simp add: r0_def)
  have la: "wa \<le> length (bn_d a)" "wb \<le> length (bn_d b)" using assms(3,4) by (simp_all add: wa_def wb_def bn_ok_def)
  have abs: "bn_abs a = wval (take wa (bn_d a))" "bn_abs b = wval (take wb (bn_d b))" by (simp_all add: bn_abs_def wa_def wb_def)
  define j where "j = (2 :: nat) ^ ((if 0 \<le> int wa - int wb then BN_num_bits_word (of_nat wa) else BN_num_bits_word (of_nat wb)) - 1)"
  obtain okA rA where eA: "bn_wexpand al r0 16 = (okA, rA)" by (meson surj_pair)
  obtain okB rB where eB: "bn_wexpand al r0 (j * 4) = (okB, rB)" by (meson surj_pair)
  obtain okC rC where eC: "bn_wexpand al r0 (j * 2) = (okC, rC)" by (meson surj_pair)
  obtain okD rD where eD: "bn_wexpand al r0 (wa + wb) = (okD, rD)" by (meson surj_pair)
  note fA = bn_wexpand_frame [OF eA ok0] and fB = bn_wexpand_frame [OF eB ok0] and fC = bn_wexpand_frame [OF eC ok0]
    and fD = bn_wexpand_frame [OF eD ok0]
  have n0: "bn_neg r0 = (bn_neg a \<noteq> bn_neg b)" by (simp add: r0_def)
  have ce: "can_expand al r0 n" if "can_expand al rr (8 * (bn_width a + bn_width b))" "n \<le> 8 * (wa + wb)" for n
    using that by (auto simp: can_expand_def r0_def wa_def wb_def)
  consider "wa = 8 \<and> wb = 8" | "16 \<le> wa \<and> 16 \<le> wb \<and> - 1 \<le> int wa - int wb \<and> int wa - int wb \<le> 1"
    | "\<not> (wa = 8 \<and> wb = 8)" "\<not> (16 \<le> wa \<and> 16 \<le> wb \<and> - 1 \<le> int wa - int wb \<and> int wa - int wb \<le> 1)" by blast
  then have "(ok \<longrightarrow> bn_ok rr' \<and> bn_abs rr' = bn_abs a * bn_abs b \<and> bn_neg rr' = (bn_neg a \<noteq> bn_neg b) \<and> bn_width rr' = wa + wb) \<and>
    (get_t = Some t \<longrightarrow> can_expand al t (8 * (wa + wb)) \<longrightarrow> can_expand al rr (8 * (bn_width a + bn_width b)) \<longrightarrow> ok)"
  proof cases
    case 1
    then have e: "mul_into al get_t rr a b = (if \<not> okA then (False, rA) else (True, rA\<lparr>bn_width := 16, bn_d := put_words 0 (bn_mul_comba8 (bn_d a) (bn_d b)) (bn_d rA)\<rparr>))"
      unfolding mul_into_def Let_def wa_def [symmetric] wb_def [symmetric] r0_def [symmetric] by (simp add: eA)
    have c: "wval (bn_mul_comba8 (bn_d a) (bn_d b)) = bn_abs a * bn_abs b" "length (bn_mul_comba8 (bn_d a) (bn_d b)) = 16"
      using comba_take_val(1) [of "bn_d a" "bn_d b"] la 1 by (simp_all add: abs)
    show ?thesis
      using assms(1) e product_put [OF assms(3,4) _ _ c(1), of "bn_d rA"] c(2) fA(3,8) n0 1 can_expand_ok [OF ce, of 16] eA
      by (auto simp: wa_def [symmetric] wb_def [symmetric] bn_ok_def bn_abs_def split: if_splits)
  next
    case 2
    have mx: "(if 0 \<le> int wa - int wb then BN_num_bits_word (of_nat wa) else BN_num_bits_word (of_nat wb)) = bitlen (max wa wb)"
      using assms(6,7) by (auto simp: BN_num_bits_word_val unat_of_nat wa_def wb_def max_def)
    have j: "j \<le> max wa wb" "max wa wb < 2 * j" "\<exists>e. j = 2 ^ e"
      using bitlen_pow2 [of "max wa wb"] 2 unfolding j_def mx by (auto simp: max_def)
    have jw: "j \<le> wa + wb" using j(1) by (auto simp: max_def split: if_splits)
    have j8: "8 \<le> j" using j(2) 2 by auto
    show ?thesis
    proof (cases get_t)
      case None
      then have "\<not> ok" using assms(1) 2 by (auto simp: mul_into_def wa_def [symmetric] wb_def [symmetric] Let_def)
      then show ?thesis using None by simp
    next
      case (Some t)
      have okt: "bn_ok t" using assms(5) Some by blast
      obtain okE tE where eE: "bn_wexpand al t (j * 8) = (okE, tE)" by (meson surj_pair)
      obtain okF tF where eF: "bn_wexpand al t (j * 4) = (okF, tF)" by (meson surj_pair)
      note fE = bn_wexpand_frame [OF eE okt] and fF = bn_wexpand_frame [OF eF okt]
      have ns: "\<not> (int wa - int wb = 0 \<and> wa = 8)" using 2 by auto
      show ?thesis
      proof (cases "wa > j \<or> wb > j")
        case True
        then have ge: "j \<le> wa" "j \<le> wb" "wa - j < j" "wb - j < j" "wa - j \<le> wb - j + 1" "wb - j \<le> wa - j + 1" using 2 j by auto
        define x where "x = bn_mul_part_recursive (take (j * 4) (bn_d rB)) (bn_d a) (bn_d b) j (wa - j) (wb - j) (take (j * 8) (bn_d tE))"
        have e: "mul_into al get_t rr a b = (if \<not> okE then (False, r0) else if \<not> okB then (False, rB) else (True, rB\<lparr>bn_d := put_words 0 x (bn_d rB), bn_width := wa + wb\<rparr>))"
          unfolding mul_into_def Let_def wa_def [symmetric] wb_def [symmetric] r0_def [symmetric] j_def [symmetric] Some if_not_P [OF ns] if_P [OF 2] option.case if_P [OF True] eE eB prod.case x_def ..
        have xv: "wval x = bn_abs a * bn_abs b \<and> length x = 4 * j" if okE okB
          unfolding x_def abs
          using bn_mul_part_recursive_val [OF j(3) j8 ge(3-6), of "bn_d a" "bn_d b" "take (j * 4) (bn_d rB)" "take (j * 8) (bn_d tE)"] la ge(1,2) fB(8) fE(8) that by simp
        have "wa + wb \<le> 4 * j" using j(2) by simp
        then show ?thesis
          using assms(1) e xv product_put [OF assms(3,4), of x "bn_d rB"] fB(3,8) n0 can_expand_ok [OF ce, of "j * 4"] eB
            can_expand_ok [of al t "j * 8"] can_expand_mono [of al t "8 * (wa + wb)" "j * 8"] eE jw Some
          by (auto simp: wa_def [symmetric] wb_def [symmetric] bn_ok_def bn_abs_def split: if_splits)
      next
        case False
        define x where "x = bn_mul_recursive (take (j * 2) (bn_d rC)) (bn_d a) (bn_d b) j (int wa - int j) (int wb - int j) (take (j * 4) (bn_d tF))"
        have e: "mul_into al get_t rr a b = (if \<not> okF then (False, r0) else if \<not> okC then (False, rC) else (True, rC\<lparr>bn_d := put_words 0 x (bn_d rC), bn_width := wa + wb\<rparr>))"
          unfolding mul_into_def Let_def wa_def [symmetric] wb_def [symmetric] r0_def [symmetric] j_def [symmetric] Some if_not_P [OF ns] if_P [OF 2] option.case if_not_P [OF False] eF eC prod.case x_def ..
        have d: "int wa - int j \<le> 0" "- 8 \<le> int wa - int j" "int wb - int j \<le> 0" "- 8 \<le> int wb - int j" using False 2 j(1) by auto
        have s: "int j + (int wa - int j) = int wa" "int j + (int wb - int j) = int wb" by simp_all
        have xv: "wval x = bn_abs a * bn_abs b \<and> length x = 2 * j" if okF okC
          unfolding x_def abs
          using bn_mul_recursive_val [OF j(3), of "int wa - int j" "int wb - int j" "bn_d a" "bn_d b" "take (j * 2) (bn_d rC)" "take (j * 4) (bn_d tF)", unfolded s]
            d la fC(8) fF(8) that by simp
        have "wa + wb \<le> 2 * j" using False by simp
        then show ?thesis
          using assms(1) e xv product_put [OF assms(3,4), of x "bn_d rC"] fC(3,8) n0 can_expand_ok [OF ce, of "j * 2"] eC
            can_expand_ok [of al t "j * 4"] can_expand_mono [of al t "8 * (wa + wb)" "j * 4"] eF jw Some
          by (auto simp: wa_def [symmetric] wb_def [symmetric] bn_ok_def bn_abs_def split: if_splits)
      qed
    qed
  next
    case 3
    have ns: "\<not> (int wa - int wb = 0 \<and> wa = 8)" using 3(1) by auto
    have e: "mul_into al get_t rr a b = (if \<not> okD then (False, rD) else (True, rD\<lparr>bn_width := wa + wb, bn_d := bn_mul_normal (bn_d rD) (bn_d a) wa (bn_d b) wb\<rparr>))"
      unfolding mul_into_def Let_def wa_def [symmetric] wb_def [symmetric] r0_def [symmetric] if_not_P [OF ns] if_not_P [OF 3(2)] eD prod.case ..
    show ?thesis
      using assms(1) e bn_mul_normal_val [OF la, of "bn_d rD"] fD(3,8) n0 can_expand_ok [OF ce, of "wa + wb"] eD
      unfolding abs by (auto simp: bn_ok_def bn_abs_def split: if_splits)
  qed
  then show "ok \<Longrightarrow> bn_ok rr' \<and> bn_abs rr' = bn_abs a * bn_abs b \<and> bn_neg rr' = (bn_neg a \<noteq> bn_neg b) \<and> bn_width rr' = bn_width a + bn_width b"
    and "get_t = Some t \<Longrightarrow> can_expand al t (8 * (bn_width a + bn_width b)) \<Longrightarrow> can_expand al rr (8 * (bn_width a + bn_width b)) \<Longrightarrow> ok"
    by (simp_all add: wa_def wb_def)
qed

lemma bn_mul_impl_val:
  assumes "bn_mul_impl al get aliased r a b = (ok, r')" "bn_ok r" "bn_ok a" "bn_ok b" "\<forall>k t. get k = Some t \<longrightarrow> bn_ok t"
    and "bn_width a < 2 ^ 31" "bn_width b < 2 ^ 31"
  shows "ok \<Longrightarrow> bn_ok r' \<and> bn_abs r' = bn_abs a * bn_abs b \<and> (bn_neg r' \<longrightarrow> bn_neg a \<noteq> bn_neg b) \<and>
      (bn_abs r' \<noteq> 0 \<longrightarrow> bn_neg r' = (bn_neg a \<noteq> bn_neg b))"
    and "(\<And>k. \<exists>t. get k = Some t \<and> can_expand al t (8 * (bn_width a + bn_width b))) \<Longrightarrow>
      can_expand al r (8 * (bn_width a + bn_width b)) \<Longrightarrow> ok"
proof -
  let ?n = "8 * (bn_width a + bn_width b)"
  have "(ok \<longrightarrow> bn_ok r' \<and> bn_abs r' = bn_abs a * bn_abs b \<and> (bn_neg r' \<longrightarrow> bn_neg a \<noteq> bn_neg b) \<and>
      (bn_abs r' \<noteq> 0 \<longrightarrow> bn_neg r' = (bn_neg a \<noteq> bn_neg b))) \<and>
    ((\<forall>k. \<exists>t. get k = Some t \<and> can_expand al t ?n) \<longrightarrow> can_expand al r ?n \<longrightarrow> ok)"
  proof (cases "bn_width a = 0 \<or> bn_width b = 0")
    case True
    then show ?thesis using assms(1) by (auto simp: bn_mul_impl_def BN_zero_def bn_ok_def bn_abs_def)
  next
    case z: False
    show ?thesis
    proof (cases aliased)
      case False
      then have m: "mul_into al (get 0) r a b = (ok, r')" using z assms(1) by (auto simp: bn_mul_impl_def)
      note v = mul_into_val [OF m assms(2-4) spec [OF assms(5)] assms(6,7)]
      have ok if get: "\<forall>k. \<exists>t. get k = Some t \<and> can_expand al t ?n" and "can_expand al r ?n"
      proof -
        obtain t where "get 0 = Some t" "can_expand al t ?n" using get by blast
        then show ok using v(2) that(2) by blast
      qed
      then show ?thesis using v(1) by blast
    next
      case True
      show ?thesis
      proof (cases "get 0")
        case None
        then have "\<not> ok" using True z assms(1) by (simp add: bn_mul_impl_def)
        then show ?thesis using None by (metis option.distinct(1))
      next
        case (Some t)
        obtain ok1 rr where m: "mul_into al (get 1) t a b = (ok1, rr)" by (meson surj_pair)
        have "bn_ok t" using assms(5) Some by blast
        note v = mul_into_val [OF m this assms(3,4) spec [OF assms(5)] assms(6,7)]
        obtain ok2 r2 where c: "BN_copy al r rr = (ok2, r2)" by (meson surj_pair)
        have e: "(ok, r') = (if \<not> ok1 then (False, r) else (ok2, r2))" using True z assms(1) by (simp add: bn_mul_impl_def Some m [simplified] c split: if_splits)
        have "ok1" if "\<forall>k. \<exists>t. get k = Some t \<and> can_expand al t ?n"
          using that [rule_format, of 0] that [rule_format, of 1] v(2) Some by auto
        moreover have "ok2" if ok1 "can_expand al r ?n"
          using BN_copy_val(2) [OF c assms(2)] v(1) [OF that(1)] can_expand_mono [OF that(2), of "bn_width a + bn_width b"] by simp
        moreover have "bn_ok r' \<and> bn_abs r' = bn_abs a * bn_abs b \<and> bn_neg r' = (bn_neg a \<noteq> bn_neg b)" if ok
          using BN_copy_val(1) [OF c assms(2)] v(1) e that by (auto split: if_splits)
        ultimately show ?thesis using e by (auto split: if_splits)
      qed
    qed
  qed
  then show "ok \<Longrightarrow> bn_ok r' \<and> bn_abs r' = bn_abs a * bn_abs b \<and> (bn_neg r' \<longrightarrow> bn_neg a \<noteq> bn_neg b) \<and>
      (bn_abs r' \<noteq> 0 \<longrightarrow> bn_neg r' = (bn_neg a \<noteq> bn_neg b))"
    and "(\<And>k. \<exists>t. get k = Some t \<and> can_expand al t ?n) \<Longrightarrow> can_expand al r ?n \<Longrightarrow> ok" by blast+
qed

lemma bn_val_product:
  assumes "bn_abs r = bn_abs a * bn_abs b" "bn_abs r \<noteq> 0 \<longrightarrow> bn_neg r = (bn_neg a \<noteq> bn_neg b)"
  shows "bn_val r = bn_val a * bn_val b"
proof (cases "bn_abs r = 0")
  case True
  then have "bn_abs a = 0 \<or> bn_abs b = 0" using assms(1) by simp
  then show ?thesis using True by (auto simp: bn_val_def)
next
  case False
  then show ?thesis using assms by (simp add: bn_val_def)
qed

lemma BN_mul_val:
  assumes "BN_mul al get aliased r a b = (ok, r')" "bn_ok r" "bn_ok a" "bn_ok b" "\<forall>k t. get k = Some t \<longrightarrow> bn_ok t"
    and "bn_width a < 2 ^ 31" "bn_width b < 2 ^ 31"
  shows "ok \<Longrightarrow> bn_minimal r' \<and> bn_val r' = bn_val a * bn_val b"
    and "(\<And>k. \<exists>t. get k = Some t \<and> can_expand al t (8 * (bn_width a + bn_width b))) \<Longrightarrow>
      can_expand al r (8 * (bn_width a + bn_width b)) \<Longrightarrow> ok"
proof -
  obtain ok1 r1 where m: "bn_mul_impl al get aliased r a b = (ok1, r1)" by (meson surj_pair)
  note v = bn_mul_impl_val [OF m assms(2-7)]
  show "(\<And>k. \<exists>t. get k = Some t \<and> can_expand al t (8 * (bn_width a + bn_width b))) \<Longrightarrow>
      can_expand al r (8 * (bn_width a + bn_width b)) \<Longrightarrow> ok" using v(2) assms(1) by (simp add: BN_mul_def m)
  assume ok
  then have o: ok1 "r' = bn_set_minimal_width r1" using assms(1) by (auto simp: BN_mul_def m split: if_splits)
  have "bn_val r1 = bn_val a * bn_val b" using v(1) [OF o(1)] by (intro bn_val_product) blast+
  then show "bn_minimal r' \<and> bn_val r' = bn_val a * bn_val b"
    using v(1) [OF o(1)] bn_set_minimal_width_props [of r1] by (simp add: o(2))
qed

text \<open>
  C4. \<open>BN_mul\<close> is exact, whichever of its methods the widths select, schoolbook, the unrolled eight words, or one of
  the two recursions of Karatsuba with their carries, and whether or not \<open>r\<close> is an operand: the product of the integers,
  without leading zeros and negative zero, unless memory or the context runs out.
\<close>

theorem BN_mul_exact:
  assumes "bn_ok r" "bn_ok a" "bn_ok b" "\<forall>k t. get k = Some t \<longrightarrow> bn_ok t" "bn_width a < 2 ^ 31" "bn_width b < 2 ^ 31"
  shows "case BN_mul al get aliased r a b of (ok, s) \<Rightarrow>
    (ok \<longrightarrow> bn_minimal s \<and> bn_val s = bn_val a * bn_val b) \<and>
    ((\<forall>k. \<exists>t. get k = Some t \<and> can_expand al t (8 * (bn_width a + bn_width b))) \<longrightarrow>
      can_expand al r (8 * (bn_width a + bn_width b)) \<longrightarrow> ok)"
  using BN_mul_val [OF _ assms, of al aliased] by (cases "BN_mul al get aliased r a b") auto

theorem BN_mul_exact_witness:
  "\<exists>s. BN_mul ample (\<lambda>k. Some (bn_of_words [] False)) False (bn_of_words [] False) (bn_of_words [0, 0, 3] True) (bn_of_words [5, 0] False) = (True, s) \<and>
    bn_val s = - 15 * 2 ^ 128"
  using BN_mul_exact [of "bn_of_words [] False" "bn_of_words [0, 0, 3] True" "bn_of_words [5, 0] False" "\<lambda>k. Some (bn_of_words [] False)" ample False]
  by (auto simp: bn_of_words_props W_def split: prod.splits)

end
