(* ===== verification/Bn_Squares.thy ===== *)
theory Bn_Squares
  imports Bn_Products
begin

text \<open>
  The squares of \<open>mul.c\<close>: the products of different words once, doubled, and the squares of the words; Karatsuba's
  recursion with squares only; and \<open>BN_sqr\<close>.
\<close>

unbundle bit_operations_syntax

section \<open>\<open>bn_sqr_normal\<close>\<close>

primrec cross :: "u64 list \<Rightarrow> nat" where
  "cross [] = 0"
| "cross (x # xs) = W * (unat x * wval xs) + W ^ 2 * cross xs"

primrec squares :: "u64 list \<Rightarrow> nat" where
  "squares [] = 0"
| "squares (x # xs) = unat x * unat x + W ^ 2 * squares xs"

lemma square_parts: "wval xs * wval xs = 2 * cross xs + squares xs"
proof (induction xs)
  case (Cons x xs)
  have "wval (x # xs) * wval (x # xs) = unat x * unat x + 2 * (W * (unat x * wval xs)) + W ^ 2 * (wval xs * wval xs)"
    by (simp add: power2_eq_square algebra_simps)
  then show ?case unfolding Cons by (simp add: algebra_simps)
qed simp

lemma cross_sum: "cross xs = (\<Sum>j<length xs. W ^ (2 * j + 1) * (unat (xs ! j) * wval (drop (j + 1) xs)))"
  by (induction xs) (simp_all add: sum.lessThan_Suc_shift sum_distrib_left power2_eq_square mult_ac del: sum.lessThan_Suc)

lemma squares_sum: "squares xs = (\<Sum>j<length xs. W ^ (2 * j) * (unat (xs ! j) * unat (xs ! j)))"
  by (induction xs) (simp_all add: sum.lessThan_Suc_shift sum_distrib_left power2_eq_square mult_ac del: sum.lessThan_Suc)

lemma first_row_val:
  assumes "bn_mul_words (drop 1 r) a na w = (s, c)" "na + 1 < length r" "na \<le> length a"
  shows "wval (take (na + 2) ((take 1 r @ s)[na + 1 := c])) = wval (take 1 r) + W * (unat w * wval (take na a)) \<and>
    length ((take 1 r @ s)[na + 1 := c]) = length r \<and> drop (na + 2) ((take 1 r @ s)[na + 1 := c]) = drop (na + 2) r"
proof -
  note m = assms(1) [unfolded bn_mul_words_def]
  have v: "wval (take na s) + W ^ na * unat c = unat w * wval (take na a)" using wide.mul_words_val [OF m] assms by simp
  have f: "length s = length r - 1" "drop na s = drop na (drop 1 r)" using wide.words_frame(2) [OF m] by simp_all
  let ?r = "take 1 r @ s"
  have l: "length ?r = length r" using f(1) assms(2) by simp
  have tk: "take (na + 1) ?r = take 1 r @ take na s" using assms(2) by simp
  have "wval (take (Suc (na + 1)) (?r[na + 1 := c])) = wval (take (na + 1) ?r) + W ^ (na + 1) * unat c"
    using wval_take_Suc [of "na + 1" "?r[na + 1 := c]"] l assms(2) by simp
  also have "\<dots> = wval (take 1 r) + W * (wval (take na s) + W ^ na * unat c)"
    unfolding tk using assms(2) by (simp add: wval_append min_absorb2 algebra_simps)
  finally have "wval (take (na + 2) (?r[na + 1 := c])) = wval (take 1 r) + W * (unat w * wval (take na a))" unfolding v by simp
  moreover have "drop (na + 2) ?r = drop (na + 2) r" using arg_cong [OF f(2), of "drop 1"] assms(2) by simp
  ultimately show ?thesis using l by simp
qed

lemma drop_Suc_eq: "drop n xs = drop n ys \<Longrightarrow> drop (Suc n) xs = drop (Suc n) ys"
proof -
  assume "drop n xs = drop n ys"
  then have "drop 1 (drop n xs) = drop 1 (drop n ys)" by (simp only:)
  then show ?thesis by simp
qed

lemma bn_sqr_normal_val:
  assumes "length r = 2 * n" "n \<le> length a" "2 * n \<le> length tmp"
  shows "wval (bn_sqr_normal r a n tmp) = wval (take n a) * wval (take n a) \<and> length (bn_sqr_normal r a n tmp) = 2 * n"
proof (cases "n = 0")
  case True
  then show ?thesis using assms(1) by (simp add: bn_sqr_normal_def)
next
  case n0: False
  define t where "t = (\<lambda>j. W ^ (2 * j + 1) * (unat (a ! j) * wval (take (n - 1 - j) (drop (j + 1) a))))"
  define r1 where "r1 = r[0 := 0, n * 2 - 1 := 0]"
  define g where "g = (\<lambda>r k. let i = n - 1 - k; (s, c) = bn_mul_add_words (drop (2 * k + 1) r) (drop (k + 1) a) i (a ! k)
                                 in (take (2 * k + 1) r @ s)[2 * k + 1 + i := c])"
  define r2 where "r2 = (if n > 1 then (let (s, c) = bn_mul_words (drop 1 r1) (drop 1 a) (n - 1) (a ! 0) in (take 1 r1 @ s)[n := c]) else r1)"
  define r3 where "r3 = (if n > 2 then foldl g r2 [1..<n - 1] else r2)"
  have r1: "length r1 = 2 * n" "take 1 r1 = [0]" "r1 ! (n * 2 - 1) = 0" using assms(1) n0 take_Suc_conv_app_nth [of 0 r1] by (simp_all add: r1_def nth_list_update)
  have row0: "wval (take (n + 1) r2) = t 0 \<and> length r2 = 2 * n \<and> drop (n + 1) r2 = drop (n + 1) r1" if "1 < n"
  proof -
    obtain s c where m: "bn_mul_words (drop 1 r1) (drop 1 a) (n - 1) (a ! 0) = (s, c)" by (meson surj_pair)
    have e: "r2 = (take 1 r1 @ s)[n := c]" by (simp only: r2_def that if_True Let_def m prod.case)
    have o: "n - 1 + 2 = n + 1" "n - 1 + 1 = n" using that by simp_all
    have "wval (take 1 r1) = 0" by (simp add: r1(2) del: One_nat_def)
    then show ?thesis using first_row_val [OF m, unfolded o] that assms(2) r1(1) by (simp add: e t_def)
  qed
  have rows: "wval (take (n + (n - 1)) r3) = (\<Sum>j<n - 1. t j) \<and> length r3 = 2 * n \<and> drop (n + (n - 1)) r3 = drop (n + (n - 1)) r1" if "1 < n"
  proof (cases "n = 2")
    case True
    then show ?thesis using row0 by (simp add: r3_def numeral_2_eq_2)
  next
    case False
    then have "r3 = foldl g r2 [1..<n - 1]" using that by (simp add: r3_def)
    moreover have "wval (take (n + (n - 1)) (foldl g r2 [1..<n - 1])) = (\<Sum>j<n - 1. t j) \<and> length (foldl g r2 [1..<n - 1]) = 2 * n \<and>
        drop (n + (n - 1)) (foldl g r2 [1..<n - 1]) = drop (n + (n - 1)) r1"
    proof (rule foldl_range [where P = "\<lambda>k x. wval (take (n + k) x) = (\<Sum>j<k. t j) \<and> length x = 2 * n \<and> drop (n + k) x = drop (n + k) r1"])
      show "wval (take (n + 1) r2) = (\<Sum>j<1. t j) \<and> length r2 = 2 * n \<and> drop (n + 1) r2 = drop (n + 1) r1" using row0 [OF that] by simp
    next
      fix k x
      assume k: "1 \<le> k" "k < n - 1" and ih: "wval (take (n + k) x) = (\<Sum>j<k. t j) \<and> length x = 2 * n \<and> drop (n + k) x = drop (n + k) r1"
      obtain s c where m: "bn_mul_add_words (drop (2 * k + 1) x) (drop (k + 1) a) (n - 1 - k) (a ! k) = (s, c)" by (meson surj_pair)
      have o: "2 * k + 1 + (n - 1 - k) = n + k" "n - 1 - k + (2 * k + 1) = n + k" "n - 1 - k + Suc (2 * k + 1) = n + Suc k" using k by simp_all
      have "g x k = (take (2 * k + 1) x @ s)[n + k := c]" unfolding g_def Let_def m prod.case o ..
      moreover have "drop (n + Suc k) x = drop (n + Suc k) r1" using drop_Suc_eq [of "n + k" x r1] ih by simp
      ultimately show "wval (take (n + Suc k) (g x k)) = (\<Sum>j<Suc k. t j) \<and> length (g x k) = 2 * n \<and> drop (n + Suc k) (g x k) = drop (n + Suc k) r1"
        using add_row_val [OF m, unfolded o] ih k assms(2) by (simp add: t_def)
    qed (use that in simp)
    ultimately show ?thesis by (simp only:)
  qed
  have ts: "(\<Sum>j<n - 1. t j) = cross (take n a)"
  proof -
    have "(\<Sum>j<n - 1. t j) = (\<Sum>j<n. t j)" using n0 by (cases n) (simp_all add: t_def)
    also have "\<dots> = cross (take n a)" unfolding cross_sum using assms(2) by (intro sum.cong) (simp_all add: t_def drop_take min_absorb2)
    finally show ?thesis .
  qed
  have r3: "wval r3 = cross (take n a) \<and> length r3 = 2 * n"
  proof (cases "n = 1")
    case True
    then have "r1 = [0, 0]" using r1 by (cases r1; cases "tl r1") auto
    then show ?thesis using True ts by (simp add: r3_def r2_def)
  next
    case False
    then have n1: "1 < n" using n0 by simp
    have "wval (take (Suc (n + (n - 1))) r3) = wval (take (n + (n - 1)) r3) + W ^ (n + (n - 1)) * unat (r3 ! (n + (n - 1)))"
      using rows [OF n1] n1 by (intro wval_take_Suc) simp
    moreover have "r3 ! (n + (n - 1)) = 0"
      using arg_cong [OF conjunct2 [OF conjunct2 [OF rows [OF n1]]], of hd] rows [OF n1] r1(1,3) n1 by (simp add: hd_drop_conv_nth mult_2 mult_2_right)
    moreover have "Suc (n + (n - 1)) = 2 * n" using n1 by simp
    ultimately show ?thesis using rows [OF n1] ts by simp
  qed
  obtain q c where q: "bn_add_words r3 r3 r3 (n * 2) = (q, c)" by (meson surj_pair)
  define z where "z = bn_sqr_words tmp a n"
  obtain q' c' where q': "bn_add_words q q z (n * 2) = (q', c')" by (meson surj_pair)
  have e: "bn_sqr_normal r a n tmp = q'"
    using n0 q' unfolding bn_sqr_normal_def Let_def r1_def [symmetric] r2_def [symmetric, unfolded Let_def] g_def [symmetric, unfolded Let_def] r3_def [symmetric] q z_def [symmetric]
    by simp
  have lt: "wval (take n a) * wval (take n a) < W ^ (2 * n)"
    unfolding mult_2 power_add by (intro mult_strict_mono wval_take_less) simp_all
  have qv: "wval q + W ^ (2 * n) * unat c = 2 * cross (take n a)" "length q = 2 * n"
    using bn_add_words_val [OF q] bn_add_words_frame [OF q] r3 by (simp_all add: mult.commute)
  have zv: "wval (take (2 * n) z) = squares (take n a)" "length z = length tmp"
    using wide.sqr_words_val [of n tmp a] assms(2,3) by (simp_all add: z_def bn_sqr_words_def squares_sum min_absorb2)
  have q'v: "wval q' + W ^ (2 * n) * unat c' = wval q + wval (take (2 * n) z)" "length q' = 2 * n"
    using bn_add_words_val [OF q'] bn_add_words_frame [OF q'] qv(2) zv(2) assms(3) by (simp_all add: mult.commute)
  have "wval q' + W ^ (2 * n) * (unat c + unat c') = wval (take n a) * wval (take n a)"
    using qv(1) q'v(1) zv(1) square_parts [of "take n a"] by (simp add: distrib_left)
  then show ?thesis using lt q'v(2) e by (cases "unat c + unat c'") simp_all
qed

section \<open>\<open>bn_sqr_recursive\<close>\<close>

lemma comba_sqr_take:
  assumes "pair_columns n (map (\<lambda>col. concat (map sqr_pairs col)) cols)" "n \<le> length a"
  shows "comba_sqr (\<lambda>a i. mac (a ! i) (a ! i)) (\<lambda>a i j. mac2 (a ! i) (a ! j)) cols a =
    comba_sqr (\<lambda>a i. mac (a ! i) (a ! i)) (\<lambda>a i j. mac2 (a ! i) (a ! j)) cols (take n a)"
  unfolding comba_sqr_def
proof (rule comba_cong)
  fix col t assume t: "col \<in> set cols" "t \<in> set col"
  moreover have "set (concat (map (\<lambda>col. concat (map sqr_pairs col)) cols)) = {..<n} \<times> {..<n}" using assms(1) by (simp only: pair_columns_def)
  ultimately have "set (sqr_pairs t) \<subseteq> {..<n} \<times> {..<n}" by auto
  then show "(case t of Sqr i \<Rightarrow> mac (a ! i) (a ! i) | Dbl i j \<Rightarrow> mac2 (a ! i) (a ! j)) =
      (case t of Sqr i \<Rightarrow> mac (take n a ! i) (take n a ! i) | Dbl i j \<Rightarrow> mac2 (take n a ! i) (take n a ! j))"
    by (cases t) simp_all
qed

lemma comba_sqr_take_val:
  "8 \<le> length a \<Longrightarrow> wval (bn_sqr_comba8 a) = wval (take 8 a) * wval (take 8 a) \<and> length (bn_sqr_comba8 a) = 16"
  "4 \<le> length a \<Longrightarrow> wval (bn_sqr_comba4 a) = wval (take 4 a) * wval (take 4 a) \<and> length (bn_sqr_comba4 a) = 8"
  using bn_sqr_comba8_val [of "take 8 a"] bn_sqr_comba4_val [of "take 4 a"]
    comba_sqr_take [OF comba_columns(3), of a mul_add_c mul_add_c2] comba_sqr_take [OF comba_columns(4), of a mul_add_c mul_add_c2]
  by (simp_all add: bn_sqr_comba8_def bn_sqr_comba4_def sqr_macros)

lemma bn_abs_sub_words_val:
  assumes "n \<le> length r" "n \<le> length tmp" "n \<le> length a" "n \<le> length b"
  shows "wval (bn_abs_sub_words r a b n tmp) = absdiff (wval (take n a)) (wval (take n b)) \<and> length (bn_abs_sub_words r a b n tmp) = n"
proof -
  obtain t borrow where s: "bn_sub_words tmp a b n = (t, borrow)" by (meson surj_pair)
  obtain q c where u: "bn_sub_words r b a n = (q, c)" by (meson surj_pair)
  have sv: "wval (take n t) + wval (take n b) = wval (take n a) + W ^ n * unat borrow" "unat borrow \<le> 1" "length t = length tmp"
    using bn_sub_words_val [OF s] bn_sub_words_frame [OF s] assms by simp_all
  have uv: "wval (take n q) + wval (take n a) = wval (take n b) + W ^ n * unat c" "unat c \<le> 1" "length q = length r"
    using bn_sub_words_val [OF u] bn_sub_words_frame [OF u] assms by simp_all
  note d = sub_words_less [OF sv(1,2) wval_take_less wval_take_less wval_take_less] and f = sub_words_less [OF uv(1,2) wval_take_less wval_take_less wval_take_less]
  have e: "bn_abs_sub_words r a b n tmp = (if borrow \<noteq> 0 then take n q else take n t)"
    using bn_select_borrow [OF sv(2), of n q t] assms sv(3) uv(3) by (simp add: bn_abs_sub_words_def s u)
  show ?thesis
  proof (cases "wval (take n a) < wval (take n b)")
    case True
    then have "c = 0" "borrow \<noteq> 0" using f(1) d(1) by (auto dest: less_asym)
    then show ?thesis using True f(2) e assms uv(3) by (simp add: absdiff_def)
  next
    case False
    then show ?thesis using d e assms sv(3) by (simp add: absdiff_def)
  qed
qed

lemma sqr_middle: "x * x + y * y = 2 * (x * y) + absdiff x y * absdiff x y" for x y :: nat
proof (cases "x < y")
  case True
  then obtain d where "y = x + d" by (auto dest: less_imp_add_positive)
  then show ?thesis by (simp add: absdiff_def algebra_simps)
next
  case False
  then obtain d where "x = y + d" by (auto simp: not_less le_iff_add)
  then show ?thesis by (simp add: absdiff_def algebra_simps)
qed

lemma bn_sqr_recursive_val:
  assumes "\<exists>e. n2 = 2 ^ e" "n2 \<le> length a" "length r = 2 * n2" "4 * n2 \<le> length t"
  shows "wval (bn_sqr_recursive r a n2 t) = wval (take n2 a) * wval (take n2 a) \<and> length (bn_sqr_recursive r a n2 t) = 2 * n2"
  using assms
proof (induction n2 arbitrary: r a t rule: less_induct)
  case (less n2)
  consider "n2 = 4" | "n2 = 8" | "n2 \<noteq> 4" "n2 \<noteq> 8" "n2 < 16" | "16 \<le> n2" by linarith
  then show ?case
  proof cases
    case 1
    then show ?thesis using comba_sqr_take_val(2) [of a] less.prems by (simp add: bn_sqr_recursive.simps [of r])
  next
    case 2
    then show ?thesis using comba_sqr_take_val(1) [of a] less.prems by (simp add: bn_sqr_recursive.simps [of r])
  next
    case 3
    then show ?thesis using bn_sqr_normal_val [of r n2 a t] less.prems
      by (simp add: bn_sqr_recursive.simps [of r] BN_SQR_RECURSIVE_SIZE_NORMAL_def BN_MUL_RECURSIVE_SIZE_NORMAL_def)
  next
    case 4
    obtain e where "n2 = 2 ^ e" using less.prems(1) by blast
    then obtain e' where e': "n2 = 2 ^ Suc e'" using 4 by (cases e) auto
    define n where "n = n2 div 2"
    have n: "n2 = 2 * n" "n < n2" "\<exists>e. n = 2 ^ e" using e' 4 by (auto simp: n_def)
    define p where "p = drop (n2 * 2) t"
    define t0 where "t0 = bn_abs_sub_words (take n t) a (drop n a) n (drop n t)"
    define t23 where "t23 = bn_sqr_recursive (take n2 (drop n2 t)) t0 n p"
    define rr where "rr = bn_sqr_recursive (take n2 r) a n p @ bn_sqr_recursive (drop n2 r) (drop n a) n p"
    obtain t01 c where A: "bn_add_words (take n2 t) rr (drop n2 rr) n2 = (t01, c)" by (meson surj_pair)
    obtain t45 bo where B: "bn_sub_words t23 t01 t23 n2 = (t45, bo)" by (meson surj_pair)
    obtain r12 cy where C: "bn_add_words (drop n rr) (drop n rr) t45 n2 = (r12, cy)" by (meson surj_pair)
    have e: "bn_sqr_recursive r a n2 t = fst (propagate_carry (take n rr @ r12) ((c - bo) + cy) (n + n2) (n2 + n2))"
    proof -
      have k: "\<not> n2 = 4" "\<not> n2 = 8" "\<not> n2 < BN_SQR_RECURSIVE_SIZE_NORMAL"
        using 4 by (simp_all add: BN_SQR_RECURSIVE_SIZE_NORMAL_def BN_MUL_RECURSIVE_SIZE_NORMAL_def)
      show ?thesis
        unfolding bn_sqr_recursive.simps [of r a n2 t] if_not_P [OF k(1)] if_not_P [OF k(2)] if_not_P [OF k(3)]
        unfolding Let_def n_def [symmetric] p_def [symmetric] t0_def [symmetric]
        unfolding t23_def [symmetric] rr_def [symmetric] A prod.case B C ..
    qed
    let ?x = "wval (take n a)" and ?y = "wval (take n (drop n a))"
    have lp: "4 * n \<le> length p" using less.prems(4) n(1) by (simp add: p_def)
    have t0: "wval t0 = absdiff ?x ?y" "length t0 = n"
      using bn_abs_sub_words_val [of n "take n t" "drop n t" a "drop n a"] less.prems n(1) by (simp_all add: t0_def)
    have ih: "wval (bn_sqr_recursive r' a' n p) = wval (take n a') * wval (take n a') \<and> length (bn_sqr_recursive r' a' n p) = 2 * n"
      if "length r' = 2 * n" "n \<le> length a'" for r' a' using less.IH [OF n(2,3), of a' r' p] that lp by simp
    have t23: "wval t23 = absdiff ?x ?y * absdiff ?x ?y" "length t23 = 2 * n"
      using ih [of "take n2 (drop n2 t)" t0] less.prems(4) n(1) t0 by (simp_all add: t23_def)
    have rr: "length rr = 2 * (2 * n)" "wval (take (2 * n) rr) = ?x * ?x" "wval (drop (2 * n) rr) = ?y * ?y"
      using ih [of "take n2 r" a] ih [of "drop n2 r" "drop n a"] less.prems(2,3) n(1) by (simp_all add: rr_def)
    have a: "wval (take n2 a) = ?x + W ^ n * ?y" using wval_take_split [of n n2 a] less.prems(2) n(1) by simp
    have r: "wval rr = ?x * ?x + W ^ (2 * n) * (?y * ?y)" using wval_take_drop [of "2 * n" rr] rr by simp
    have w2: "W ^ (2 * n) = W ^ n * W ^ n" by (simp add: mult_2 power_add)
    have prod: "wval rr + W ^ n * (2 * (?x * ?y)) = wval (take n2 a) * wval (take n2 a)" unfolding a r w2 by (simp add: algebra_simps)
    have lt: "wval rr + W ^ n * (2 * (?x * ?y)) < W ^ (2 * (2 * n))"
      unfolding prod n(1) mult_2 [of "2 * n"] power_add by (intro mult_strict_mono wval_take_less) simp_all
    have Av: "wval t01 + W ^ (2 * n) * unat c = ?x * ?x + ?y * ?y" "unat c \<le> 1" "length t01 = 2 * n"
      using bn_add_words_val [OF A] bn_add_words_frame [OF A] rr less.prems(4) n(1) by simp_all
    have Bv: "wval t45 + wval t23 = wval t01 + W ^ (2 * n) * unat bo" "unat bo \<le> 1" "length t45 = 2 * n"
      using bn_sub_words_val [OF B] bn_sub_words_frame [OF B] t23(2) Av(3) n(1) by simp_all
    have "wval t45 + W ^ (2 * n) * unat c = 2 * (?x * ?y) + W ^ (2 * n) * unat bo"
      using Av(1) Bv(1) sqr_middle [of ?x ?y] t23(1) by simp
    moreover have "wval t45 < W ^ (2 * n)" using wval_less [of t45] Bv(3) by simp
    ultimately have m: "wval t45 + W ^ (2 * n) * unat (c - bo) = 2 * (?x * ?y) \<and> unat (c - bo) \<le> 2" using borrow_from_carry Av(2) Bv(2) by blast
    show ?thesis
      using add_middle [OF rr(1) Bv(3) conjunct1 [OF m] conjunct2 [OF m] lt C [unfolded n(1)]] prod unfolding e by (simp add: n(1))
  qed
qed

section \<open>\<open>BN_sqr\<close>\<close>

lemma and_pred_zero: "n \<noteq> 0 \<Longrightarrow> n AND (n - 1) = 0 \<Longrightarrow> \<exists>e. n = 2 ^ e" for n :: nat
proof (induction n rule: less_induct)
  case (less n)
  have r: "n AND (n - 1) = of_bool (odd n \<and> odd (n - 1)) + 2 * ((n div 2) AND ((n - 1) div 2))" by (rule and_rec)
  show ?case
  proof (cases "even n")
    case True
    then obtain m where m: "n = 2 * m" by (elim evenE)
    then have "(n - 1) div 2 = m - 1" by (cases m) simp_all
    then have "m AND (m - 1) = 0" using r less.prems(2) m by simp
    then obtain e where "m = 2 ^ e" using less.IH [of m] m less.prems(1) by auto
    then show ?thesis using m by (intro exI [of _ "Suc e"]) simp
  next
    case False
    then have "(n - 1) div 2 = n div 2" by (elim oddE) simp
    then have "n div 2 = 0" using r less.prems(2) by simp
    then have "n = 2 ^ 0" using less.prems(1) by simp
    then show ?thesis ..
  qed
qed

lemma sqr_into_val:
  assumes "sqr_into al tmp stack rr a = (ok, rr')" "bn_ok rr" "bn_ok a" "bn_ok tmp" "length stack = 32" "bn_width a \<noteq> 0"
  shows "ok \<Longrightarrow> bn_ok rr' \<and> bn_abs rr' = bn_abs a * bn_abs a \<and> \<not> bn_neg rr' \<and> bn_width rr' = 2 * bn_width a"
    and "can_expand al tmp (4 * bn_width a) \<Longrightarrow> can_expand al rr (4 * bn_width a) \<Longrightarrow> ok"
proof -
  define w where "w = bn_width a"
  obtain okA rA where eA: "bn_wexpand al rr (2 * w) = (okA, rA)" by (meson surj_pair)
  obtain okB tB where eB: "bn_wexpand al tmp (w * 4) = (okB, tB)" by (meson surj_pair)
  obtain okC tC where eC: "bn_wexpand al tmp (2 * w) = (okC, tC)" by (meson surj_pair)
  note fA = bn_wexpand_frame [OF eA assms(2)] and fB = bn_wexpand_frame [OF eB assms(4)] and fC = bn_wexpand_frame [OF eC assms(4)]
  define dn where "dn = (\<lambda>sq. (True, rA\<lparr>bn_d := put_words 0 (take (2 * w) sq) (bn_d rA), bn_neg := False, bn_width := 2 * w\<rparr>))"
  have la: "w \<le> length (bn_d a)" "bn_abs a = wval (take w (bn_d a))" using assms(3) by (simp_all add: bn_ok_def bn_abs_def w_def)
  have e: "sqr_into al tmp stack rr a = (if \<not> okA then (False, rA)
      else if w = 4 then dn (bn_sqr_comba4 (bn_d a)) else if w = 8 then dn (bn_sqr_comba8 (bn_d a))
      else if w < BN_SQR_RECURSIVE_SIZE_NORMAL then dn (bn_sqr_normal (take (2 * w) (bn_d rA)) (bn_d a) w stack)
      else if w AND (w - 1) = 0 then (if \<not> okB then (False, rA) else dn (bn_sqr_recursive (take (2 * w) (bn_d rA)) (bn_d a) w (bn_d tB)))
      else (if \<not> okC then (False, rA) else dn (bn_sqr_normal (take (2 * w) (bn_d rA)) (bn_d a) w (bn_d tC))))"
    unfolding sqr_into_def Let_def w_def [symmetric] eA prod.case eB eC dn_def ..
  have fin: "bn_ok rr' \<and> bn_abs rr' = bn_abs a * bn_abs a \<and> \<not> bn_neg rr' \<and> bn_width rr' = 2 * bn_width a"
    if "(ok, rr') = dn sq" "wval sq = bn_abs a * bn_abs a \<and> length sq = 2 * w" okA for sq
    using that fA(8) by (auto simp: dn_def bn_ok_def bn_abs_def put_words_def w_def)
  have b: "can_expand al tmp (4 * bn_width a) \<Longrightarrow> okB \<and> okC" "can_expand al rr (4 * bn_width a) \<Longrightarrow> okA"
    using can_expand_ok [of al tmp "w * 4"] can_expand_ok [of al tmp "2 * w"] can_expand_ok [of al rr "2 * w"]
      can_expand_mono [of al tmp "4 * bn_width a"] can_expand_mono [of al rr "4 * bn_width a"] eA eB eC by (simp_all add: w_def)
  show "can_expand al tmp (4 * bn_width a) \<Longrightarrow> can_expand al rr (4 * bn_width a) \<Longrightarrow> ok"
    using b assms(1) e by (auto simp: dn_def split: if_splits)
  assume ok
  then have A: okA using assms(1) e by (auto split: if_splits)
  then have lA: "2 * w \<le> length (bn_d rA)" using fA(8) by simp
  consider "w = 4" | "w = 8" | "w \<noteq> 4" "w \<noteq> 8" "w < 16" | "\<not> w < 16" "w AND (w - 1) = 0" | "\<not> w < 16" "w AND (w - 1) \<noteq> 0" by blast
  then show "bn_ok rr' \<and> bn_abs rr' = bn_abs a * bn_abs a \<and> \<not> bn_neg rr' \<and> bn_width rr' = 2 * bn_width a"
  proof cases
    case 1
    then show ?thesis using assms(1) e A comba_sqr_take_val(2) [of "bn_d a"] la by (intro fin [of "bn_sqr_comba4 (bn_d a)"]) simp_all
  next
    case 2
    then show ?thesis using assms(1) e A comba_sqr_take_val(1) [of "bn_d a"] la by (intro fin [of "bn_sqr_comba8 (bn_d a)"]) simp_all
  next
    case 3
    then show ?thesis
      using assms(1,5) e A bn_sqr_normal_val [of "take (2 * w) (bn_d rA)" w "bn_d a" stack] la lA
      by (intro fin [of "bn_sqr_normal (take (2 * w) (bn_d rA)) (bn_d a) w stack"])
        (simp_all add: BN_SQR_RECURSIVE_SIZE_NORMAL_def BN_MUL_RECURSIVE_SIZE_NORMAL_def)
  next
    case 4
    have B: okB using assms(1) e A 4 \<open>ok\<close> by (auto simp: BN_SQR_RECURSIVE_SIZE_NORMAL_def BN_MUL_RECURSIVE_SIZE_NORMAL_def split: if_splits)
    have "\<exists>k. w = 2 ^ k" using and_pred_zero [of w] 4 by simp
    then show ?thesis
      using assms(1) e A B 4 bn_sqr_recursive_val [of w "bn_d a" "take (2 * w) (bn_d rA)" "bn_d tB"] la lA fB(8)
      by (intro fin [of "bn_sqr_recursive (take (2 * w) (bn_d rA)) (bn_d a) w (bn_d tB)"])
        (simp_all add: BN_SQR_RECURSIVE_SIZE_NORMAL_def BN_MUL_RECURSIVE_SIZE_NORMAL_def mult.commute)
  next
    case 5
    have C: okC using assms(1) e A 5 \<open>ok\<close> by (auto simp: BN_SQR_RECURSIVE_SIZE_NORMAL_def BN_MUL_RECURSIVE_SIZE_NORMAL_def split: if_splits)
    then show ?thesis
      using assms(1) e A 5 bn_sqr_normal_val [of "take (2 * w) (bn_d rA)" w "bn_d a" "bn_d tC"] la lA fC(8)
      by (intro fin [of "bn_sqr_normal (take (2 * w) (bn_d rA)) (bn_d a) w (bn_d tC)"])
        (auto simp: BN_SQR_RECURSIVE_SIZE_NORMAL_def BN_MUL_RECURSIVE_SIZE_NORMAL_def)
  qed
qed

lemma BN_sqr_val:
  assumes "BN_sqr al get stack aliased r a = (ok, r')" "bn_ok r" "bn_ok a" "\<forall>k t. get k = Some t \<longrightarrow> bn_ok t" "length stack = 32"
  shows "ok \<Longrightarrow> bn_minimal r' \<and> bn_val r' = bn_val a * bn_val a"
    and "(\<And>k. \<exists>t. get k = Some t \<and> can_expand al t (4 * bn_width a)) \<Longrightarrow> can_expand al r (4 * bn_width a) \<Longrightarrow> ok"
proof -
  let ?n = "4 * bn_width a"
  obtain ok1 r1 where m: "bn_sqr_consttime al get stack aliased r a = (ok1, r1)" by (meson surj_pair)
  have "(ok1 \<longrightarrow> bn_ok r1 \<and> bn_abs r1 = bn_abs a * bn_abs a \<and> \<not> bn_neg r1) \<and>
    ((\<forall>k. \<exists>t. get k = Some t \<and> can_expand al t ?n) \<longrightarrow> can_expand al r ?n \<longrightarrow> ok1)"
  proof (cases "bn_width a = 0")
    case True
    then show ?thesis using m by (auto simp: bn_sqr_consttime_def bn_ok_def bn_abs_def)
  next
    case w: False
    show ?thesis
    proof (cases aliased)
      case True
      show ?thesis
      proof (cases "get 0 = None \<or> get 1 = None")
        case none: True
        then have "\<not> ok1" using m w True by (auto simp: bn_sqr_consttime_def split: option.splits)
        moreover have "\<not> (\<forall>k. \<exists>t. get k = Some t \<and> can_expand al t ?n)" using none by (metis option.distinct(1))
        ultimately show ?thesis by blast
      next
        case False
        then obtain rr tmp where g: "get 0 = Some rr" "get 1 = Some tmp" by auto
        obtain ok2 r2 where s: "sqr_into al tmp stack rr a = (ok2, r2)" by (meson surj_pair)
        have "bn_ok rr" "bn_ok tmp" using assms(4) g by blast+
        note v = sqr_into_val [OF s this(1) assms(3) this(2) assms(5) w]
        obtain ok3 r3 where c: "BN_copy al r r2 = (ok3, r3)" by (meson surj_pair)
        have e: "(ok1, r1) = (if \<not> ok2 then (False, r) else (ok3, r3))"
          using m w True by (simp add: bn_sqr_consttime_def g g [simplified] s c split: if_splits)
        have 1: "ok2" if "\<forall>k. \<exists>t. get k = Some t \<and> can_expand al t ?n"
          using that [rule_format, of 0] that [rule_format, of 1] v(2) g by auto
        have 2: "ok3" if ok2 "can_expand al r ?n"
          using BN_copy_val(2) [OF c assms(2)] v(1) [OF that(1)] can_expand_mono [OF that(2), of "2 * bn_width a"] by simp
        have "bn_ok r1 \<and> bn_abs r1 = bn_abs a * bn_abs a \<and> \<not> bn_neg r1" if ok1
          using BN_copy_val(1) [OF c assms(2)] v(1) e that by (auto split: if_splits)
        then show ?thesis using e 1 2 by (auto split: if_splits)
      qed
    next
      case False
      show ?thesis
      proof (cases "get 0")
        case None
        then have "\<not> ok1" using m w False by (simp add: bn_sqr_consttime_def)
        then show ?thesis using None by (metis option.distinct(1))
      next
        case (Some tmp)
        then have s: "sqr_into al tmp stack r a = (ok1, r1)" using m w False by (simp add: bn_sqr_consttime_def)
        have "bn_ok tmp" using assms(4) Some by blast
        note v = sqr_into_val [OF s assms(2,3) this assms(5) w]
        have "ok1" if "\<forall>k. \<exists>t. get k = Some t \<and> can_expand al t ?n" "can_expand al r ?n"
          using that(1) [rule_format, of 0] that(2) v(2) Some by auto
        then show ?thesis using v(1) by blast
      qed
    qed
  qed
  then have v: "ok1 \<Longrightarrow> bn_ok r1 \<and> bn_abs r1 = bn_abs a * bn_abs a \<and> \<not> bn_neg r1"
    "(\<forall>k. \<exists>t. get k = Some t \<and> can_expand al t ?n) \<Longrightarrow> can_expand al r ?n \<Longrightarrow> ok1" by blast+
  show "(\<And>k. \<exists>t. get k = Some t \<and> can_expand al t ?n) \<Longrightarrow> can_expand al r ?n \<Longrightarrow> ok" using v(2) assms(1) by (simp add: BN_sqr_def m)
  assume ok
  then have o: ok1 "r' = bn_set_minimal_width r1" using assms(1) by (auto simp: BN_sqr_def m split: if_splits)
  have "bn_val r1 = bn_val a * bn_val a" using v(1) [OF o(1)] by (intro bn_val_product) simp_all
  then show "bn_minimal r' \<and> bn_val r' = bn_val a * bn_val a"
    using v(1) [OF o(1)] bn_set_minimal_width_props [of r1] by (simp add: o(2))
qed

end
