(* ===== verification/Spec2Isabelle.thy ===== *)
theory Spec2Isabelle
  imports Oid Set_Of Unicode Base64_Stream Stack Bio_Queue Sha1 Sha256 Sha512 Md4 Md5 Kdf Lhash Pb_Stream Aead Modes_Cbc Modes_Cfb Bn_Bytes Bn_Squares
begin

text \<open>
  \<^bold>\<open>The repository\<close> is an iOS application together with the sources of its CocoaPods; the C code is in
  the pods. This development models parts of two of them: \<open>Pods/BoringSSL-GRPC/src/crypto\<close>, to which
  the file names below are relative (\<open>openssl/\<close> is its directory of headers), and the stream layer of
  \<open>Pods/nanopb\<close>. Each theory opens with the file it models, and its definitions keep the names of the C
  functions and macros.

  \<^bold>\<open>Conventions.\<close> A byte is an \<open>8 word\<close>, \<open>uint32_t\<close> and \<open>uint64_t\<close> are words of their width; \<open>size_t\<close> is a
  word, or a natural number with the wrap-around modulo \<open>2 ^ 64\<close> written out where the code tests for
  overflow. A structure is a record, a buffer a list of bytes, a pointer that may be \<open>NULL\<close> an option. A
  function that changes a structure returns the changed one; a failing branch is \<open>None\<close>, \<open>False\<close> or the
  code's own return value; where a result has two levels of option, the outer \<open>None\<close> is an access through
  \<open>NULL\<close> or outside an object. Allocation is a parameter \<open>malloc_ok\<close> that decides from the size whether the
  request succeeds, with a second parameter for the contents of fresh memory. Loops are structural or
  measured recursion; the two loops over the ring buffer of a BIO pair, the walk along a chain of BIOs,
  the loop of \<open>BIO_write_all\<close> and the loop of \<open>tls1_P_hash\<close> are partial functions to option, whose \<open>None\<close> is a
  loop that does not return, and the properties prove that they return. No fuel is used anywhere.

  \<^bold>\<open>Byte strings\<close> (\<open>bytestring\<close>). \<open>Cbs\<close> is the cursor \<open>CBS\<close> of \<open>cbs.c\<close> with every reader of integers,
  length-prefixed data and DER elements; \<open>Cbb\<close> the builder \<open>CBB\<close> of \<open>cbb.c\<close>, whose open children are the
  list \<open>chain\<close> and share one \<open>cbb_buffer_st\<close>. \<open>Codec\<close> states the DER codec the two must agree on. \<open>Der\<close> and
  \<open>Der_Values\<close> characterise the readers by the codec; \<open>Cbb_Refine\<close> relates a \<open>CBB\<close> to a list of pending
  frames (\<open>rep\<close>) and proves that \<open>CBB_flush\<close> refines closing frames (C1); \<open>Cbb_Writes\<close> lifts this to every
  writer by the relation \<open>appends\<close>. \<open>Oid\<close>, \<open>Set_Of\<close> (with \<open>Qsort\<close>) and \<open>Unicode\<close> hold object identifiers,
  SET OF ordering and the transfer formats of \<open>unicode.c\<close>. The round trips C2, C3 and C7, the
  exact acceptance C5 and C10, and the order of SET OF, C9, are in this theory.

  \<^bold>\<open>Base64\<close> (\<open>base64\<close>). \<open>Constant_Time\<close> evaluates the branch-free comparisons of \<open>internal.h\<close>; \<open>Base64\<close> has
  the functions of \<open>base64.c\<close> and their block-wise equations; \<open>Base64_Stream\<close> interprets the locale
  \<open>block_stream\<close> (theory \<open>Block_Stream\<close>: a collector that hands out complete blocks and keeps the rest) on
  the streaming encoder and decoder and proves C12, C13 and C15; a piece has at most \<open>enc_piece_max\<close> or
  \<open>INT_MAX\<close> bytes, since the code counts what it writes in an \<open>int\<close>.

  \<^bold>\<open>Containers.\<close> \<open>Stack\<close> has all of \<open>stack/stack.c\<close>: the representation invariant and the operations as list
  operations, binary against linear search, sorting, and deep copies with failing allocation (C16, C17,
  C20). \<open>sk_set_stale_sorted\<close> shows that \<open>sk_set\<close> leaves a stale \<open>sorted\<close> flag; \<open>reachable_stack\<close> follows with
  its second argument whether it can be stale. \<open>Lhash\<close> has the hash table of \<open>lhash/lhash.c\<close>: with the
  locale of its callbacks it refines a map through every resizing (C35), and its load factor stays within
  bounds (C36). \<open>Mem\<close> has the comparison and string functions of \<open>mem.c\<close>.

  \<^bold>\<open>BIO pairs\<close> (\<open>bio\<close>). \<open>Bio_Pair\<close> has \<open>pair.c\<close> and the operations of \<open>bio.c\<close> used on it, on a memory in which
  the two ends refer to each other; \<open>Fifo\<close> is the queue they should be, as a locale, and \<open>Bio_Queue\<close>
  interprets it on the ring buffer and proves C21 to C23 about whole sessions.

  \<^bold>\<open>Hash functions\<close> (\<open>fipsmodule/sha\<close>, \<open>md4\<close>, \<open>md5\<close>, \<open>digest\<close>). \<open>Hash_Common\<close> has padding, the two-word bit
  counter and the rotating register arguments of the unrolled rounds; \<open>Md32\<close> the collector of
  \<open>md32_common.h\<close> for any block function, an interpretation of \<open>block_stream\<close>; \<open>Sha1\<close>, \<open>Sha256\<close>, \<open>Sha512\<close>,
  \<open>Md4\<close> and \<open>Md5\<close> the functions, with the definitions of FIPS 180-4, RFC 1320 and RFC 1321 beside them.
  \<open>Sha2_Rounds\<close> and \<open>Md_Rounds\<close> hold the locales by which the unrolled rounds are compared with the
  standards. C25 to C28 say that streaming a message in any pieces gives the digest of the standard; the
  bit counter wraps modulo \<open>2 ^ 64\<close> (\<open>2 ^ 128\<close> for SHA-512), which the equations state.

  \<^bold>\<open>Digests, MACs and key derivation.\<close> \<open>Digest\<close> has the tables of \<open>digest/digests.c\<close> and the contexts of
  \<open>digest.c\<close> over them, and the locale of a streaming digest, interpreted on every method; C38 is their
  contract. \<open>Hmac\<close> (\<open>hmac/hmac.c\<close>) builds on it and meets RFC 2104 (C32); \<open>Kdf\<close> has HKDF (\<open>hkdf/hkdf.c\<close>,
  RFC 5869, C33) and the PRF of TLS (\<open>fipsmodule/tls/kdf.c\<close>, C34).

  \<^bold>\<open>Authenticated encryption.\<close> \<open>Chacha\<close> (\<open>chacha/chacha.c\<close>) is compared with RFC 8439 on the matrix view of
  the state (C30). \<open>Poly1305\<close> (\<open>poly1305/poly1305.c\<close>) bounds the limbs so that no 64-bit sum overflows and
  proves the tag of RFC 8439 (C37), except on the accumulators of \<open>carry_case\<close>, where the code drops a
  carry: C6 is a message with a wrong tag. \<open>Aead\<close> has the interface \<open>fipsmodule/cipher/aead.c\<close> over any
  method, with the locale \<open>aead_method\<close> of what it relies on, and ChaCha20-Poly1305 and
  XChaCha20-Poly1305 (\<open>cipher_extra/e_chacha20poly1305.c\<close>) as its interpretations: opening undoes sealing
  (C29); the ciphertext is that of RFC 8439, and so is the one tag that is accepted, but for the dropped
  carry (C11). Output buffers are lists of their full length;
  addresses occur in the tests on aliasing alone.

  \<^bold>\<open>nanopb.\<close> \<open>Pb_Stream\<close> has the input and output streams of \<open>pb_decode.c\<close> and \<open>pb_encode.c\<close> for any callback,
  varints, signed varints, fixed-width values, tags, skipping and substreams. Fields round-trip (C39); C40
  describes \<open>pb_decode_varint32\<close> on every five digits, alone or padded with zero digits: padded, a number that
  does not fit is cut to its low 32 bits.

  \<^bold>\<open>Cipher modes\<close> (\<open>fipsmodule/modes\<close>). \<open>Modes\<close> has \<open>cbc.c\<close>, \<open>cfb.c\<close>, \<open>ofb.c\<close> and \<open>ctr.c\<close>. The block cipher with its
  key is a function on blocks of 16 bytes, the parameter \<open>block\<close>; that decryption undoes it is a hypothesis
  where it is needed, and so is the contract of the assembly function of \<open>ctr.c\<close> (\<open>ctr32_func\<close>). CBC decryption runs on
  a memory of bytes with addresses for input and output, since the code chooses its loop by their distance: it
  is right for every placement that the assertion (\<open>cbc_assertion\<close>) allows if the data is whole blocks, and a
  partial last block needs one condition more (C24, in \<open>Modes_Cbc\<close>). \<open>Modes_Streams\<close> compares both
  counter modes with SP 800-38A (C19) and OFB with its key stream, \<open>Modes_Cfb\<close> has the three widths of CFB and the
  round trip C31.

  \<^bold>\<open>Big numbers\<close> (\<open>fipsmodule/bn\<close>). \<open>Bn_Words\<close> has the loops of \<open>generic.c\<close> on words, in the variant with
  a double-width integer and the one with two-word products, and the word functions of \<open>bn.c\<close>, \<open>cmp.c\<close>, \<open>div.c\<close> and \<open>shift.c\<close>;
  \<open>Bn_Words_Val\<close>, \<open>Bn_Words_More\<close> and \<open>Bn_Comba\<close> give their values (\<open>wval\<close>, to the base \<open>W\<close>), each macro variant as an
  interpretation of one locale. \<open>Bn\<close> has \<open>BIGNUM\<close> and the functions of \<open>bn.c\<close>, \<open>cmp.c\<close>, \<open>add.c\<close>, \<open>shift.c\<close> and
  \<open>bytes.c\<close>: \<open>bn_d\<close> is the array with its \<open>dmax\<close> words, \<open>bn_width\<close> how many are valid. Words have 64 bits and are little-endian
  in memory; widths are natural numbers, which \<open>bn_wexpand\<close> keeps below \<open>2 ^ 23\<close>. An old
  \<open>r\<close> that may be an operand is a parameter, and where the code tests for it so is \<open>aliased\<close>; \<open>get k\<close> is what the
  \<open>k\<close>-th call of \<open>BN_CTX_get\<close> returns; scratch space is a slice of a list. \<open>Bn_Val\<close> proves that sums and differences are
  those of the integers (C14), \<open>Bn_Bits\<close> that the loops of \<open>BN_add_word\<close> and \<open>BN_sub_word\<close> end (C18) and what the bit lengths are,
  \<open>Bn_Bytes\<close> the conversions to and from bytes (C8). \<open>Bn_Mul\<close> has \<open>mul.c\<close>; \<open>Bn_Mul_Val\<close>, \<open>Bn_Products\<close> and \<open>Bn_Squares\<close> prove
  every method exact: schoolbook, unrolled columns, and the Karatsuba recursions with their carries (C4).
  \<^bold>\<open>Not modelled.\<close> The application and its user interface, the C++ and Objective-C pods (gRPC, Firebase,
  abseil, leveldb), generated code and tables, assembly and inline assembly; of nanopb the messages, which
  walk untyped C structures by generated tables; of BoringSSL the TLS library, X.509, ASN.1 templates,
  the block ciphers, GCM, elliptic curves, public-key algorithms, and of the big numbers division, Montgomery
  multiplication and exponentiation. The error queue is not modelled:
  \<open>OPENSSL_PUT_ERROR\<close> has no effect in the model. Locking in \<open>refcount_lock.c\<close> is left out, since the model
  is sequential.
\<close>

unbundle bit_operations_syntax

section \<open>Bytestring: the byte builder\<close>

text \<open>
  C1. \<open>CBB_flush\<close> refines the abstract builder: when it succeeds on a \<open>CBB\<close> at any depth of a
  chain of length-prefixed children, every child below it is closed by putting its encoded length
  in front of its contents, the bytes already written elsewhere are unchanged, and the children
  that stay open keep their recorded offsets.
\<close>

theorem CBB_flush_refines:
  assumes "rep cbb a" "d \<le> length (snd a)" "CBB_flush d cbb = (True, cbb')"
  shows "\<exists>a'. abs_flush d a = Some a' \<and> rep cbb' a' \<and> length (snd a') = d"
  using CBB_flush_ok [OF assms] abs_flush_depth assms(2) by blast

theorem CBB_flush_refines_witness:
  "\<exists>cbb' a'. abs_flush 0 ([0x30], [(Asn1, [5, 6])]) = Some a' \<and> rep cbb' a' \<and> length (snd a') = 0"
proof -
  let ?e = "\<lparr>malloc_ok = \<lambda>_. True, garbage = \<lambda>_. 0\<rparr>"
  let ?c = "\<lparr>base = Some \<lparr>buf = [0x30, 0, 5, 6], len = 4, cap = 4, can_resize = True, error = False\<rparr>,
    chain = [\<lparr>offset = 1, pending_len_len = 1, pending_is_asn1 = True\<rparr>], env = ?e\<rparr>"
  have r: "rep ?c ([0x30], [(Asn1, [5, 6])])"
    by (simp add: rep_def buffer_ok_def frames_bytes_def)
  have "fst (CBB_flush 0 ?c) = True"
    by (simp add: CBB_flush_def flush_prefix_def asn1_len_form_def)
  then have f: "CBB_flush 0 ?c = (True, snd (CBB_flush 0 ?c))" by (metis prod.collapse)
  show ?thesis using CBB_flush_refines [OF r _ f] by auto
qed

text \<open>
  C2. Round trip of INTEGER: what \<open>CBB_add_asn1_int64\<close> writes between \<open>CBB_init\<close> and \<open>CBB_finish\<close>
  is read back by \<open>CBS_get_asn1_int64\<close> as the same value, whatever follows it, with the cursor
  left behind the element.
\<close>

theorem asn1_int64_roundtrip:
  assumes "n < 2 ^ 64" "built e n (\<lambda>d. CBB_add_asn1_int64 d v) = Some out"
  shows "CBS_get_asn1_int64 (out @ rest) = (Some v, rest)"
proof -
  have "out = der_element CBS_ASN1_INTEGER (der_int (sint v))"
    using built_Some [OF appends_int64 assms] by simp
  then show ?thesis using asn1_int64.dec_enc [of v rest] by simp
qed

theorem asn1_int64_roundtrip_witness:
  "CBS_get_asn1_int64 ([2, 2, 0xff, 0x7f] @ [9]) = (Some (- 129), [9])"
proof -
  have enc: "der_element CBS_ASN1_INTEGER (der_int (sint (- 129 :: u64))) = [2, 2, 0xff, 0x7f]"
    by (simp add: der_eval)
  have "built plain_env 0 (\<lambda>d. CBB_add_asn1_int64 d (- 129)) = Some [2, 2, 0xff, 0x7f]"
    using built_success [OF appends_int64, of 0 plain_env "- 129"] unfolding enc by simp
  then show ?thesis by (intro asn1_int64_roundtrip [where n = 0 and e = plain_env]) simp_all
qed

text \<open>
  C3. With an allocator that never fails \<open>CBB_add_asn1_uint64\<close> does return success for every value,
  and what it wrote is the unique encoding that \<open>CBS_get_asn1_uint64\<close> accepts for that value.
\<close>

theorem asn1_uint64_total:
  assumes "n < 2 ^ 64" "\<forall>k. malloc_ok e k"
  shows "\<exists>out. built e n (\<lambda>d. CBB_add_asn1_uint64 d v) = Some out \<and>
    (\<forall>bs rest. CBS_get_asn1_uint64 bs = (Some v, rest) \<longleftrightarrow> bs = out @ rest)"
proof -
  have "length (der_uint (unat v)) \<le> 9"
    using signed_len_64 [of "unat v"] unat_less_exp [of v] by (simp add: length_der_uint)
  then have "length (der_element CBS_ASN1_INTEGER (der_uint (unat v))) < 2 ^ 64"
    using length_der_tag [of CBS_ASN1_INTEGER]
    by (simp add: der_element_def der_header_def der_length_def)
  then show ?thesis
    using built_success [OF appends_uint64 assms] asn1_uint64.dec_iff by blast
qed

theorem asn1_uint64_total_witness:
  "\<exists>out. built plain_env 16 (\<lambda>d. CBB_add_asn1_uint64 d 300) = Some out \<and>
    (\<forall>bs rest. CBS_get_asn1_uint64 bs = (Some 300, rest) \<longleftrightarrow> bs = out @ rest)"
  by (rule asn1_uint64_total) simp_all

text \<open>
  Contents survive nesting: an OCTET STRING of at most \<open>0xfffffffe\<close> bytes is written and read
  back unchanged, for every length form of DER.
\<close>

theorem asn1_octet_string_roundtrip:
  assumes "n < 2 ^ 64" "\<forall>k. malloc_ok e k" "length data \<le> 0xfffffffe"
  shows "\<exists>out. built e n (\<lambda>d. CBB_add_asn1_octet_string d data) = Some out \<and>
    CBS_get_asn1 CBS_ASN1_OCTETSTRING (out @ rest) = (Some data, rest)"
proof -
  have d: "der_element_opt CBS_ASN1_OCTETSTRING (Some data) = Some (der_element CBS_ASN1_OCTETSTRING data)"
    using assms(3) by (simp add: der_element_opt_def)
  have "length (der_length (length data)) \<le> 5" using assms(3) by (intro length_der_length_le) simp
  then have "length (der_element CBS_ASN1_OCTETSTRING data) < 2 ^ 64"
    using assms(3) length_der_tag [of CBS_ASN1_OCTETSTRING] by (simp add: der_element_def der_header_def)
  then have "built e n (\<lambda>d. CBB_add_asn1_octet_string d data) = Some (der_element CBS_ASN1_OCTETSTRING data)"
    using assms by (intro built_success [OF _ assms(1,2)]) (use appends_octet_string [of data] d in simp_all)
  then show ?thesis using assms(3) asn1.dec_enc [of data CBS_ASN1_OCTETSTRING rest] by simp
qed

theorem asn1_octet_string_roundtrip_witness:
  "\<exists>out. built plain_env 0 (\<lambda>d. CBB_add_asn1_octet_string d [1, 2, 3]) = Some out \<and>
    CBS_get_asn1 CBS_ASN1_OCTETSTRING (out @ [7]) = (Some [1, 2, 3], [7])"
  by (rule asn1_octet_string_roundtrip) simp_all

section \<open>Bytestring: the cursor\<close>

text \<open>
  C5. \<open>CBS_get_any_asn1\<close> accepts exactly DER: it succeeds with contents \<open>body\<close> and tag \<open>tag\<close> if and
  only if the input starts with their one DER encoding (minimal tag, minimal length), and then the
  cursor stands behind it.
\<close>

theorem CBS_get_any_asn1_exact:
  "CBS_get_any_asn1 bs = (Some (body, tag), rest) \<longleftrightarrow>
     length body < 2 ^ 32 \<and> bs = der_element tag body @ rest"
  using any_asn1.dec_iff [of bs "(body, tag)" rest] by simp

text \<open>
  An element parser that fails leaves the cursor where it was.
\<close>

theorem CBS_get_any_asn1_element_failure:
  assumes "CBS_get_any_asn1_element cbs = (None, rest)"
  shows "rest = cbs"
  using assms unfolding CBS_get_any_asn1_element_def by (rule any_element_None)

theorem CBS_get_any_asn1_element_failure_witness:
  "snd (CBS_get_any_asn1_element [0x30, 0x80, 0, 0]) = [0x30, 0x80, 0, 0]"
proof -
  have "fst (CBS_get_any_asn1_element [0x30, 0x80, 0, 0]) = None" by code_simp
  then have "CBS_get_any_asn1_element [0x30, 0x80, 0, 0]
      = (None, snd (CBS_get_any_asn1_element [0x30, 0x80, 0, 0]))" by (metis prod.collapse)
  then show ?thesis by (rule CBS_get_any_asn1_element_failure)
qed

section \<open>Bytestring: object identifiers\<close>

lemma print_u64_digit: "v < 10 \<Longrightarrow> print_u64 v = [of_nat (0x30 + v)]"
  by (subst print_u64.simps) simp

lemma join_dots_123: "join_dots [1, 2, 3] = [0x31, 0x2e, 0x32, 0x2e, 0x33]"
  by (simp add: print_u64_digit ascii_dot_def)

text \<open>
  C7. The two OID conversions are inverse to each other: text accepted by
  \<open>CBB_add_asn1_oid_from_text\<close> comes back from \<open>CBS_asn1_oid_to_text\<close> unchanged, with the
  terminating zero byte.
\<close>

theorem oid_text_roundtrip:
  assumes "built e n (\<lambda>d. CBB_add_asn1_oid_from_text d text) = Some der" "n < 2 ^ 64"
    "CBS_asn1_oid_to_text e' der = Some t"
  shows "t = text @ [0]"
proof -
  from built_Some [OF appends_oid_from_text assms(2,1)] obtain arcs where
    arcs: "read_many parse_dotted_decimal text = Some arcs" "oid_from_arcs arcs = Some der"
    by (auto simp: bind_eq_Some_conv)
  then obtain a b cs where abc: "arcs = a # b # cs" "oid_arcs_valid a b" "der = oid_contents a b cs"
    by (auto simp: oid_from_arcs_def split: list.splits if_splits)
  from CBS_asn1_oid_to_text_Some [OF assms(3)] obtain a' b' cs' where
    d: "oid_arcs_valid a' b'" "der = oid_contents a' b' cs'" "t = join_dots (a' # b' # cs') @ [0]"
    by blast
  have "(a, b, cs) = (a', b', cs')"
    using abc d by (intro oid_contents_inj) simp_all
  then show ?thesis using arcs(1) abc(1) d(3) by (simp add: read_many_dotted_iff)
qed

theorem oid_text_roundtrip_witness:
  "\<exists>der t. built plain_env 0 (\<lambda>d. CBB_add_asn1_oid_from_text d [0x31, 0x2e, 0x32, 0x2e, 0x33]) = Some der \<and>
     CBS_asn1_oid_to_text plain_env der = Some t \<and> t = [0x31, 0x2e, 0x32, 0x2e, 0x33] @ [0]"
proof -
  note j = join_dots_123
  have r: "read_many parse_dotted_decimal [0x31, 0x2e, 0x32, 0x2e, 0x33] = Some [1, 2, 3]"
    by (simp only: read_many_dotted_iff j)
  have v: "oid_arcs_valid 1 2" by (simp add: oid_arcs_valid_def)
  then have "appends (\<lambda>d. CBB_add_asn1_oid_from_text d [0x31, 0x2e, 0x32, 0x2e, 0x33]) (Some (oid_contents 1 2 [3]))"
    using appends_oid_from_text [of "[0x31, 0x2e, 0x32, 0x2e, 0x33]"] by (simp add: r oid_from_arcs_def)
  moreover have "length (oid_contents 1 2 [3]) < 2 ^ 64"
    by (simp add: oid_contents_def base128_all_def der_eval)
  ultimately have b: "built plain_env 0 (\<lambda>d. CBB_add_asn1_oid_from_text d [0x31, 0x2e, 0x32, 0x2e, 0x33])
      = Some (oid_contents 1 2 [3])" by (intro built_success) simp_all
  have t: "CBS_asn1_oid_to_text plain_env (oid_contents 1 2 [3]) = Some (join_dots [1, 2, 3] @ [0])"
    using v by (rule CBS_asn1_oid_to_text_success) (simp_all only: j, simp_all)
  from oid_text_roundtrip [OF b _ t] b t show ?thesis by (intro exI conjI) simp_all
qed

text \<open>
  \<open>CBS_asn1_oid_to_text\<close> with a working allocator: it succeeds exactly on the contents octets of
  an OID whose integers fit 64 bits, and the text it returns is turned back into these octets.
\<close>

theorem oid_contents_roundtrip:
  assumes "CBS_asn1_oid_to_text e cbs = Some t" "\<forall>k. malloc_ok e' k" "length cbs < 2 ^ 64"
  shows "built e' 0 (\<lambda>d. CBB_add_asn1_oid_from_text d (butlast t)) = Some cbs"
proof -
  from CBS_asn1_oid_to_text_Some [OF assms(1)] obtain a b cs where
    d: "oid_arcs_valid a b" "cbs = oid_contents a b cs" "t = join_dots (a # b # cs) @ [0]" by blast
  have "read_many parse_dotted_decimal (butlast t) = Some (a # b # cs)"
    unfolding d(3) butlast_snoc read_many_dotted_iff ..
  then have "appends (\<lambda>d. CBB_add_asn1_oid_from_text d (butlast t)) (Some cbs)"
    using appends_oid_from_text [of "butlast t"] d(1,2) by (simp add: oid_from_arcs_def)
  then show ?thesis using assms(2,3) by (intro built_success) simp_all
qed

theorem oid_contents_roundtrip_witness:
  "\<exists>t. CBS_asn1_oid_to_text plain_env [0x2a, 3] = Some t \<and>
     built plain_env 0 (\<lambda>d. CBB_add_asn1_oid_from_text d (butlast t)) = Some [0x2a, 3]"
proof -
  have c: "oid_contents 1 2 [3] = [0x2a, 3]" by (simp add: oid_contents_def base128_all_def der_eval)
  note j = join_dots_123
  have "oid_arcs_valid 1 2" by (simp add: oid_arcs_valid_def)
  then have t: "CBS_asn1_oid_to_text plain_env (oid_contents 1 2 [3]) = Some (join_dots [1, 2, 3] @ [0])"
    by (rule CBS_asn1_oid_to_text_success) (simp_all only: j, simp_all)
  then show ?thesis
    using oid_contents_roundtrip [OF t [unfolded c], of plain_env] unfolding c by auto
qed

section \<open>Bytestring: SET OF and Unicode\<close>

text \<open>
  C9. \<open>CBB_flush_asn1_set_of\<close> sorts: after a successful call the contents of the \<open>CBB\<close> are the
  elements that were there, each as often as before, in ascending order of their encodings; the
  rest of the builder is unchanged.
\<close>

theorem CBB_flush_asn1_set_of_sorts:
  assumes "rep cbb a" "d = length (snd a)" "CBB_flush_asn1_set_of d cbb = (True, cbb')"
  shows "\<exists>els sorted. last_contents a = concat els \<and> mset sorted = mset els \<and>
    (\<forall>el \<in> set els. \<exists>tag body. el = der_element tag body) \<and> sorted_wrt lex_le sorted \<and>
    rep cbb' (append_last (concat sorted) (clear_last a))"
proof -
  from assms obtain els where els: "read_many CBS_get_any_asn1_element (last_contents a) = Some els"
    "last_contents a = concat (map fst els)"
    "rep cbb' (append_last (concat (qsort compare_set_of_element (map fst els))) (clear_last a))"
    by (rule CBB_flush_asn1_set_of_ok)
  have "\<forall>el \<in> set (map fst els). \<exists>tag body. el = der_element tag body"
    using any_element.read_many_Some [OF els(1)] by fastforce
  moreover have "sorted_wrt lex_le (qsort compare_set_of_element (map fst els))"
    using set_of.sorted_qsort [of "map fst els"] by (simp add: cmp_sorted_def compare_set_of_le)
  ultimately show ?thesis using els(2,3) by (intro exI [of _ "map fst els"] exI conjI) simp_all
qed

theorem CBB_flush_asn1_set_of_sorts_witness:
  "\<exists>cbb' els sorted. [2, 1, 9, 2, 1, 7] = concat els \<and> mset sorted = mset els \<and>
    (\<forall>el \<in> set els. \<exists>tag body. el = der_element tag body) \<and> sorted_wrt lex_le sorted \<and>
    rep cbb' (concat sorted, [])"
proof -
  let ?c = "\<lparr>base = Some \<lparr>buf = [2, 1, 9, 2, 1, 7], len = 6, cap = 6, can_resize = True, error = False\<rparr>,
    chain = [], env = plain_env\<rparr>"
  have r: "rep ?c ([2, 1, 9, 2, 1, 7], [])"
    by (simp add: rep_def buffer_ok_def frames_bytes_def)
  let ?els = "[([2, 1, 9], 2, 2), ([2, 1, 7], 2, 2)] :: (cbs \<times> u32 \<times> nat) list"
  have e: "der_element 2 [9] = [2, 1, 9]" "der_element 2 [7] = [2, 1, 7]" "der_header 2 1 = [2, 1]"
    by (simp_all add: der_eval)
  then have "read_many CBS_get_any_asn1_element (concat (map (\<lambda>(el, tag, hl). el) ?els)) = Some ?els"
    by (intro any_element.read_many_concat)
      (auto intro: exI [of _ "[9]"] exI [of _ "[7]"] simp: e)
  then have "read_many CBS_get_any_asn1_element (last_contents ([2, 1, 9, 2, 1, 7], [])) = Some ?els"
    by simp
  then obtain cbb' where f: "CBB_flush_asn1_set_of 0 ?c = (True, cbb')"
    using CBB_flush_asn1_set_of_success [OF r, of 0 ?els]
    by (auto simp: unlimited_cbb_def unlimited_def sizeof_CBS_def)
  show ?thesis using CBB_flush_asn1_set_of_sorts [OF r _ f] by simp blast
qed

text \<open>
  C10. UTF-8: \<open>cbs_get_utf8\<close> succeeds exactly on the shortest encoding of a valid code point (no
  overlong form, surrogate or noncharacter) and consumes exactly that.
\<close>

theorem cbs_get_utf8_exact:
  "cbs_get_utf8 bs = (Some u, rest) \<longleftrightarrow> is_valid_code_point u \<and> bs = utf8_bytes (unat u) @ rest"
  by (rule utf8.dec_iff)

text \<open>
  Text round trip: a sequence of valid code points written with \<open>cbb_add_utf8\<close> is split into the
  same sequence by \<open>cbs_get_utf8\<close>.
\<close>

theorem utf8_text_roundtrip:
  assumes "\<forall>u \<in> set us. is_valid_code_point u" "n < 2 ^ 64" "built e n (add_all_utf8 us) = Some out"
  shows "read_many cbs_get_utf8 out = Some us"
  using built_Some [OF appends_all_utf8 [OF assms(1)] assms(2,3)] utf8.read_many_concat [OF assms(1)] by simp

theorem utf8_text_roundtrip_witness:
  "read_many cbs_get_utf8 [0x41, 0xe2, 0x82, 0xac] = Some [0x41, 0x20ac]"
proof -
  have v: "\<forall>u \<in> set [0x41, 0x20ac]. is_valid_code_point u" by code_simp
  have "concat (map (\<lambda>u. utf8_bytes (unat u)) [0x41, 0x20ac :: u32]) = [0x41, 0xe2, 0x82, 0xac]"
    by (simp add: utf8_bytes_def)
  then have "built plain_env 0 (add_all_utf8 [0x41, 0x20ac]) = Some [0x41, 0xe2, 0x82, 0xac]"
    using built_success [OF appends_all_utf8 [OF v], of 0 plain_env] by simp
  then show ?thesis by (rule utf8_text_roundtrip [OF v, rotated]) simp
qed

end
